(* ===== verification/Prelude.thy ===== *)
theory Prelude
  imports Main "HOL-Library.Word"
begin

text \<open>
  What every component of the development shares: the machine integers, Rust strings and
  byte slices, the two error enums (\<^verbatim>\<open>crates/core/src/lib.rs\<close>,
  \<^verbatim>\<open>vendor/types/src/error.rs\<close>), the result type with the \<open>?\<close> operator as a bind,
  and the generic lemmas on lists, options and words the component proofs rest on.

  A Rust \<open>String\<close> is modelled by HOL's \<open>string\<close>, one \<open>char\<close> per UTF-8 byte, so
  \<open>length\<close> is \<open>str::len\<close>. Heap exhaustion is not modelled: \<open>try_reserve\<close>, \<open>try_clone\<close>
  and \<open>json::copy\<close> succeed, and \<open>Memory\<close> and \<open>OutOfMemory\<close> are declared but never returned.
\<close>

section \<open>Machine integers and bytes\<close>

type_synonym u8 = "8 word"
type_synonym u16 = "16 word"
type_synonym u32 = "32 word"
type_synonym u64 = "64 word"
type_synonym bytes = "u8 list"

text \<open>\<open>u64::checked_add\<close>, \<open>u64::checked_sub\<close>, \<open>u64::saturating_add\<close> and \<open>saturating_sub\<close>.\<close>

definition checked_add :: "u64 \<Rightarrow> u64 \<Rightarrow> u64 option" where
  "checked_add a b = (if unat a + unat b < 2 ^ 64 then Some (a + b) else None)"

definition checked_sub :: "u64 \<Rightarrow> u64 \<Rightarrow> u64 option" where
  "checked_sub a b = (if b \<le> a then Some (a - b) else None)"

definition saturating_add :: "u64 \<Rightarrow> u64 \<Rightarrow> u64" where
  "saturating_add a b = (if unat a + unat b < 2 ^ 64 then a + b else - 1)"

definition saturating_sub :: "u64 \<Rightarrow> u64 \<Rightarrow> u64" where
  "saturating_sub a b = (if b \<le> a then a - b else 0)"

lemma checked_add_unat:
  "checked_add a b = Some c \<Longrightarrow> unat c = unat a + unat b"
  by (auto simp: checked_add_def unat_word_ariths split: if_splits)

lemma checked_add_None_iff [simp]:
  "checked_add a b = None \<longleftrightarrow> 2 ^ 64 \<le> unat a + unat b"
  by (auto simp: checked_add_def not_less)

lemma checked_add_1_less: "checked_add a 1 = Some c \<Longrightarrow> a < c"
  by (auto dest: checked_add_unat simp: word_less_nat_alt)

lemma checked_add_code [code]: "checked_add a b = (if uint a + uint b < 2 ^ 64 then Some (a + b) else None)"
proof -
  have "int (unat a + unat b) = uint a + uint b" by simp
  moreover have "unat a + unat b < 2 ^ 64 \<longleftrightarrow> int (unat a + unat b) < int (2 ^ 64)" by (rule of_nat_less_iff [symmetric])
  ultimately have "unat a + unat b < 2 ^ 64 \<longleftrightarrow> uint a + uint b < 2 ^ 64" by simp
  then show ?thesis by (simp add: checked_add_def)
qed

lemma checked_add_1_ok: "(\<exists>n. checked_add a 1 = Some n) \<longleftrightarrow> a \<noteq> - 1"
proof -
  have "unat a < 2 ^ 64" using unsigned_less [of a] by simp
  moreover have "unat (- 1 :: u64) = 2 ^ 64 - 1"
    by (simp add: unsigned_minus_1_eq_mask mask_eq_exp_minus_1)
  then have "a = - 1 \<longleftrightarrow> unat a = 2 ^ 64 - 1" by (metis word_unat_eq_iff)
  ultimately show ?thesis by (auto simp: checked_add_def)
qed

text \<open>Bytes of a string and back: \<open>str::as_bytes\<close> and the unchecked inverse.\<close>

definition byte_of_char :: "char \<Rightarrow> u8" where
  "byte_of_char c = word_of_nat (of_char c)"

definition char_of_byte :: "u8 \<Rightarrow> char" where
  "char_of_byte b = char_of (unat b)"

definition as_bytes :: "string \<Rightarrow> bytes" where
  "as_bytes s = map byte_of_char s"

lemma char_of_byte_of_char [simp]: "char_of_byte (byte_of_char c) = c"
proof -
  have "of_char c < (256 :: nat)"
    by simp
  then have "unat (word_of_nat (of_char c) :: u8) = of_char c"
    by (simp add: unat_of_nat)
  then show ?thesis
    by (simp add: char_of_byte_def byte_of_char_def)
qed

lemma byte_of_char_of_byte [simp]: "byte_of_char (char_of_byte b) = b"
proof -
  have "unat b < 256"
    using unsigned_less [of b] by simp
  then show ?thesis
    by (simp add: char_of_byte_def byte_of_char_def of_char_of)
qed

lemma length_as_bytes [simp]: "length (as_bytes s) = length s"
  by (simp add: as_bytes_def)

lemma as_bytes_Nil [simp]: "as_bytes [] = []"
  by (simp add: as_bytes_def)

lemma as_bytes_append: "as_bytes (s @ t) = as_bytes s @ as_bytes t"
  by (simp add: as_bytes_def)

lemma as_bytes_inject [simp]: "as_bytes s = as_bytes t \<longleftrightarrow> s = t"
  unfolding as_bytes_def by (metis char_of_byte_of_char inj_def inj_map_eq_map)

section \<open>Errors and results\<close>

text \<open>\<open>hop_types::Error\<close>; a \<open>Name\<close> is the key cut to at most 32 bytes (\<open>name_new\<close> below).\<close>

datatype hop_error =
    OutOfMemory
  | TooLarge nat nat
  | TooDeep nat nat
  | Syntax nat string
  | Trailing nat
  | DuplicateKey string
  | NotFinite
  | WrongType string string
  | UnknownField string
  | OutOfRange string
  | HopInvalid string string
  | TooMany string nat

text \<open>\<open>stulp_core::Error\<close>.\<close>

datatype error =
    Full
  | Memory
  | Invalid string
  | Missing string
  | Conflict string
  | Changed
  | Storage
  | Json hop_error

type_synonym 'a result = "error + 'a"
type_synonym 'a hop_result = "hop_error + 'a"

text \<open>The \<open>?\<close> operator.\<close>

definition bindR :: "'e + 'a \<Rightarrow> ('a \<Rightarrow> 'e + 'b) \<Rightarrow> 'e + 'b" where [code_unfold]:
  "bindR m f = (case m of Inl e \<Rightarrow> Inl e | Inr a \<Rightarrow> f a)"

text \<open>\<open>Option::ok_or\<close> and \<open>From<hop_types::Error> for Error\<close>.\<close>

definition ok_or :: "'a option \<Rightarrow> 'e \<Rightarrow> 'e + 'a" where [code_unfold]:
  "ok_or m e = (case m of None \<Rightarrow> Inl e | Some a \<Rightarrow> Inr a)"

definition from_hop :: "'a hop_result \<Rightarrow> 'a result" where
  "from_hop m = (case m of Inl e \<Rightarrow> Inl (Json e) | Inr a \<Rightarrow> Inr a)"

definition is_ok :: "'e + 'a \<Rightarrow> bool" where
  "is_ok m = (case m of Inl _ \<Rightarrow> False | Inr _ \<Rightarrow> True)"

text \<open>A \<open>for\<close> loop whose body may return early with an error, over a growing accumulator.\<close>

fun foldR :: "('a \<Rightarrow> 'b \<Rightarrow> 'e + 'b) \<Rightarrow> 'a list \<Rightarrow> 'b \<Rightarrow> 'e + 'b" where
  "foldR f [] acc = Inr acc"
| "foldR f (x # xs) acc = bindR (f x acc) (foldR f xs)"

fun mapR :: "('a \<Rightarrow> 'e + 'b) \<Rightarrow> 'a list \<Rightarrow> 'e + 'b list" where
  "mapR f [] = Inr []"
| "mapR f (x # xs) = bindR (f x) (\<lambda>y. bindR (mapR f xs) (\<lambda>ys. Inr (y # ys)))"

text \<open>A \<open>for\<close> loop that mutates its state in place: an early return keeps what was done.\<close>

fun foldS :: "('a \<Rightarrow> 's \<Rightarrow> ('e + unit) \<times> 's) \<Rightarrow> 'a list \<Rightarrow> 's \<Rightarrow> ('e + unit) \<times> 's" where
  "foldS f [] s = (Inr (), s)"
| "foldS f (x # xs) s =
     (case f x s of (Inl e, s') \<Rightarrow> (Inl e, s') | (Inr u, s') \<Rightarrow> foldS f xs s')"

named_theorems result_iff
  \<comment> \<open>when a computation built from \<open>?\<close> returns a given value\<close>

lemma bindR_simps [simp]:
  "bindR (Inl e) f = Inl e"
  "bindR (Inr a) f = f a"
  by (simp_all add: bindR_def)

lemma bindR_Inr_iff [result_iff]:
  "bindR m f = Inr y \<longleftrightarrow> (\<exists>x. m = Inr x \<and> f x = Inr y)"
  by (cases m) auto

lemma bindR_Inl_iff [result_iff]:
  "bindR m f = Inl e \<longleftrightarrow> m = Inl e \<or> (\<exists>x. m = Inr x \<and> f x = Inl e)"
  by (cases m) auto

lemma ok_or_simps [simp]:
  "ok_or None e = Inl e"
  "ok_or (Some a) e = Inr a"
  by (simp_all add: ok_or_def)

lemma ok_or_Inr_iff [result_iff]: "ok_or m e = Inr a \<longleftrightarrow> m = Some a"
  by (cases m) auto

lemma ok_or_Inl_iff [result_iff]: "ok_or m e = Inl d \<longleftrightarrow> m = None \<and> d = e"
  by (cases m) auto

lemma from_hop_Inr_iff [result_iff]: "from_hop m = Inr a \<longleftrightarrow> m = Inr a"
  by (cases m) (auto simp: from_hop_def)

lemma from_hop_simps [simp]:
  "from_hop (Inr a) = Inr a"
  "from_hop (Inl e) = Inl (Json e)"
  by (simp_all add: from_hop_def)

lemma is_ok_simps [simp]: "is_ok (Inr a)" "\<not> is_ok (Inl e)"
  by (simp_all add: is_ok_def)

lemma is_ok_iff: "is_ok m \<longleftrightarrow> (\<exists>a. m = Inr a)"
  by (cases m) auto

lemma if_Inl_Inr_iff [result_iff]:
  "(if b then Inl e else m) = Inr y \<longleftrightarrow> \<not> b \<and> m = Inr y"
  by simp

lemma foldR_append: "foldR f (xs @ ys) acc = bindR (foldR f xs acc) (foldR f ys)"
proof (induction xs arbitrary: acc)
  case (Cons x xs)
  then show ?case by (cases "f x acc") auto
qed simp

lemma foldR_inv:
  "foldR f xs acc = Inr out \<Longrightarrow> P acc \<Longrightarrow> (\<And>x a b. x \<in> set xs \<Longrightarrow> P a \<Longrightarrow> f x a = Inr b \<Longrightarrow> P b) \<Longrightarrow> P out"
  by (induction xs arbitrary: acc) (auto simp: bindR_Inr_iff)

lemma foldR_unit: "foldR f xs () = Inr u \<longleftrightarrow> (\<forall>x \<in> set xs. f x () = Inr ())"
  by (induction xs) (auto simp: result_iff)

lemma mapR_Inr_length: "mapR f xs = Inr ys \<Longrightarrow> length ys = length xs"
  by (induction xs arbitrary: ys) (auto simp: result_iff)

lemma mapR_Inr_nth:
  "mapR f xs = Inr ys \<Longrightarrow> i < length xs \<Longrightarrow> f (xs ! i) = Inr (ys ! i)"
proof (induction xs arbitrary: ys i)
  case (Cons x xs)
  then show ?case by (cases i) (auto simp: result_iff)
qed simp

lemma mapR_Inr_map: "(\<And>x. x \<in> set xs \<Longrightarrow> f x = Inr (g x)) \<Longrightarrow> mapR f xs = Inr (map g xs)"
  by (induction xs) auto

lemma mapR_total: "(\<And>x. x \<in> set xs \<Longrightarrow> is_ok (f x)) \<Longrightarrow> \<exists>ys. mapR f xs = Inr ys"
  by (induction xs) (fastforce simp: is_ok_iff)+

lemma mapR_list_all2_iff: "mapR f xs = Inr ys \<longleftrightarrow> list_all2 (\<lambda>x y. f x = Inr y) xs ys"
proof (induction xs arbitrary: ys)
  case (Cons x xs)
  then show ?case by (cases ys) (auto simp: result_iff)
qed auto

section \<open>Lists\<close>

text \<open>\<open>Iterator::position\<close>.\<close>

fun position :: "('a \<Rightarrow> bool) \<Rightarrow> 'a list \<Rightarrow> nat option" where
  "position P [] = None"
| "position P (x # xs) = (if P x then Some 0 else map_option Suc (position P xs))"

lemma position_SomeD: "position P xs = Some i \<Longrightarrow> i < length xs \<and> P (xs ! i)"
  by (induction xs arbitrary: i) (auto split: if_splits)

lemma position_None_iff [simp]: "position P xs = None \<longleftrightarrow> (\<forall>x \<in> set xs. \<not> P x)"
  by (induction xs) auto

lemma position_Some_first: "position P xs = Some i \<Longrightarrow> j < i \<Longrightarrow> \<not> P (xs ! j)"
proof (induction xs arbitrary: i j)
  case (Cons x xs)
  then show ?case by (cases j) (auto split: if_splits)
qed simp

lemma position_ex: "x \<in> set xs \<Longrightarrow> P x \<Longrightarrow> \<exists>i. position P xs = Some i"
  by (metis not_None_eq position_None_iff)

text \<open>
  \<open>any_earlier\<close> is the quadratic duplicate check \<open>xs.iter().take(i).any(..)\<close> the source
  runs inside its validation loops.
\<close>

definition any_earlier :: "('a \<Rightarrow> 'a \<Rightarrow> bool) \<Rightarrow> 'a list \<Rightarrow> nat \<Rightarrow> bool" where
  "any_earlier eq xs i = list_ex (\<lambda>x. eq x (xs ! i)) (take i xs)"

lemma any_earlier_iff:
  "i < length xs \<Longrightarrow> any_earlier eq xs i \<longleftrightarrow> (\<exists>j < i. eq (xs ! j) (xs ! i))"
  by (auto simp: any_earlier_def list_ex_iff in_set_conv_nth Bex_def)

lemma any_earlier_distinct_map:
  "(\<forall>i < length xs. \<not> any_earlier (\<lambda>a b. f a = f b) xs i) \<longleftrightarrow> distinct (map f xs)"
proof
  assume l: "\<forall>i < length xs. \<not> any_earlier (\<lambda>a b. f a = f b) xs i"
  show "distinct (map f xs)"
    unfolding distinct_conv_nth
  proof (intro allI impI)
    fix i j
    assume ij: "i < length (map f xs)" "j < length (map f xs)" "i \<noteq> j"
    then consider "i < j" | "j < i" by linarith
    then show "map f xs ! i \<noteq> map f xs ! j"
      using l ij by cases (force simp: any_earlier_iff)+
  qed
next
  assume "distinct (map f xs)"
  then show "\<forall>i < length xs. \<not> any_earlier (\<lambda>a b. f a = f b) xs i"
    by (auto simp: any_earlier_iff distinct_conv_nth)
qed

lemma distinct_map_filter_key: "distinct (map f xs) \<Longrightarrow> distinct (map f (filter P xs))"
  by (induction xs) auto

lemma distinct_append_singleton:
  "distinct (map f xs) \<Longrightarrow> f y \<notin> f ` set xs \<Longrightarrow> distinct (map f (xs @ [y]))"
  by simp

lemma find_Some_set: "find P xs = Some x \<Longrightarrow> x \<in> set xs \<and> P x"
  by (auto simp: find_Some_iff)

lemma find_distinct_key:
  "distinct (map f xs) \<Longrightarrow> x \<in> set xs \<Longrightarrow> find (\<lambda>y. f y = f x) xs = Some x"
  by (induction xs) auto

end
