(* ===== verification/Strings.thy ===== *)
theory Strings
  imports Prelude
begin

text \<open>
  The \<open>str\<close> methods the core uses, on strings as UTF-8 bytes: \<open>trim\<close> (Unicode White_Space),
  \<open>starts_with\<close>, \<open>strip_prefix\<close>, \<open>rsplit_once\<close>, \<open>eq_ignore_ascii_case\<close>, \<open>chars().count()\<close>
  and \<open>Name::new\<close> of \<^verbatim>\<open>vendor/types/src/error.rs\<close>.
\<close>

section \<open>Prefixes\<close>

fun starts_with :: "string \<Rightarrow> string \<Rightarrow> bool" where
  "starts_with s [] = True"
| "starts_with [] (p # ps) = False"
| "starts_with (c # s) (p # ps) = (c = p \<and> starts_with s ps)"

definition strip_prefix :: "string \<Rightarrow> string \<Rightarrow> string option" where
  "strip_prefix s p = (if starts_with s p then Some (drop (length p) s) else None)"

text \<open>\<open>rsplit_once(c)\<close>: the parts before and after the last \<open>c\<close>.\<close>

definition rsplit_once :: "string \<Rightarrow> char \<Rightarrow> (string \<times> string) option" where
  "rsplit_once s c =
     (if c \<in> set s
      then Some (rev (tl (dropWhile (\<lambda>x. x \<noteq> c) (rev s))), rev (takeWhile (\<lambda>x. x \<noteq> c) (rev s)))
      else None)"

lemma starts_with_append: "starts_with s p \<longleftrightarrow> (\<exists>t. s = p @ t)"
  by (induction s p rule: starts_with.induct) auto

lemma strip_prefix_Some_iff: "strip_prefix s p = Some t \<longleftrightarrow> s = p @ t"
  by (auto simp: strip_prefix_def starts_with_append)

lemma rsplit_once_SomeD: "rsplit_once s c = Some (a, b) \<Longrightarrow> s = a @ c # b \<and> c \<notin> set b"
proof -
  assume r: "rsplit_once s c = Some (a, b)"
  then have c: "c \<in> set s"
    by (auto simp: rsplit_once_def split: if_splits)
  obtain d where d: "dropWhile (\<lambda>x. x \<noteq> c) (rev s) = c # d"
    using c hd_dropWhile [of "\<lambda>x. x \<noteq> c" "rev s"]
    by (cases "dropWhile (\<lambda>x. x \<noteq> c) (rev s)") (auto simp: dropWhile_eq_Nil_conv)
  have "rev s = takeWhile (\<lambda>x. x \<noteq> c) (rev s) @ c # d"
    using d takeWhile_dropWhile_id [of "\<lambda>x. x \<noteq> c" "rev s"] by simp
  then have "s = rev d @ c # rev (takeWhile (\<lambda>x. x \<noteq> c) (rev s))"
    by (metis append.assoc append_Cons append_Nil rev_append rev_rev_ident rev.simps(2))
  moreover have "c \<notin> set (takeWhile (\<lambda>x. x \<noteq> c) (rev s))"
    by (metis (full_types) set_takeWhileD)
  ultimately show ?thesis
    using r c d by (auto simp: rsplit_once_def)
qed

section \<open>Case-insensitive comparison and character count\<close>

definition ascii_lower :: "char \<Rightarrow> char" where
  "ascii_lower c = (let n = of_char c :: nat in if 65 \<le> n \<and> n \<le> 90 then char_of (n + 32) else c)"

definition eq_ignore_ascii_case :: "string \<Rightarrow> string \<Rightarrow> bool" where
  "eq_ignore_ascii_case a b = (map ascii_lower a = map ascii_lower b)"

text \<open>A byte that starts a character, i.e. not of the form \<open>10xxxxxx\<close>.\<close>

definition is_char_start :: "char \<Rightarrow> bool" where
  "is_char_start c = (let n = of_char c :: nat in n < 128 \<or> 192 \<le> n)"

definition chars_count :: "string \<Rightarrow> nat" where
  "chars_count s = length (filter is_char_start s)"

text \<open>
  \<open>Name::new\<close>: at most 32 bytes, cut back to a character boundary. A position is a
  boundary when it is 0, the length, or the byte there starts a character.
\<close>

definition is_char_boundary :: "string \<Rightarrow> nat \<Rightarrow> bool" where
  "is_char_boundary s i = (i = 0 \<or> i = length s \<or> (i < length s \<and> is_char_start (s ! i)))"

fun name_end :: "string \<Rightarrow> nat \<Rightarrow> nat" where
  "name_end s 0 = 0"
| "name_end s (Suc i) = (if is_char_boundary s (Suc i) then Suc i else name_end s i)"

definition name_new :: "string \<Rightarrow> string" where
  "name_new s = take (name_end s (min (length s) 32)) s"

lemma name_new_short: "length s \<le> 32 \<Longrightarrow> name_new s = s"
  by (cases s) (auto simp: name_new_def is_char_boundary_def min_def)

section \<open>Trimming\<close>

text \<open>The UTF-8 encodings of the characters with the White_Space property.\<close>

definition ws_strings :: "string list" where
  "ws_strings =
     [[CHR 0x09], [CHR 0x0A], [CHR 0x0B], [CHR 0x0C], [CHR 0x0D], [CHR 0x20],
      [CHR 0xC2, CHR 0x85], [CHR 0xC2, CHR 0xA0], [CHR 0xE1, CHR 0x9A, CHR 0x80],
      [CHR 0xE2, CHR 0x80, CHR 0x80], [CHR 0xE2, CHR 0x80, CHR 0x81],
      [CHR 0xE2, CHR 0x80, CHR 0x82], [CHR 0xE2, CHR 0x80, CHR 0x83],
      [CHR 0xE2, CHR 0x80, CHR 0x84], [CHR 0xE2, CHR 0x80, CHR 0x85],
      [CHR 0xE2, CHR 0x80, CHR 0x86], [CHR 0xE2, CHR 0x80, CHR 0x87],
      [CHR 0xE2, CHR 0x80, CHR 0x88], [CHR 0xE2, CHR 0x80, CHR 0x89],
      [CHR 0xE2, CHR 0x80, CHR 0x8A], [CHR 0xE2, CHR 0x80, CHR 0xA8],
      [CHR 0xE2, CHR 0x80, CHR 0xA9], [CHR 0xE2, CHR 0x80, CHR 0xAF],
      [CHR 0xE2, CHR 0x81, CHR 0x9F], [CHR 0xE3, CHR 0x80, CHR 0x80]]"

text \<open>The number of leading bytes a white-space character at the start takes, 0 for none.\<close>

definition ws_prefix :: "string list \<Rightarrow> string \<Rightarrow> nat" where
  "ws_prefix ws s = (case find (starts_with s) ws of None \<Rightarrow> 0 | Some w \<Rightarrow> length w)"

function trim_with :: "string list \<Rightarrow> string \<Rightarrow> string" where
  "trim_with ws s = (if s \<noteq> [] \<and> ws_prefix ws s \<noteq> 0
     then trim_with ws (drop (ws_prefix ws s) s) else s)"
  by pat_completeness auto
termination
  by (relation "measure (\<lambda>(ws, s). length s)") auto

declare trim_with.simps [simp del]

definition trim_start :: "string \<Rightarrow> string" where
  "trim_start s = trim_with ws_strings s"

text \<open>\<open>trim_end\<close> reads the string backwards against the reversed encodings.\<close>

definition trim_end :: "string \<Rightarrow> string" where
  "trim_end s = rev (trim_with (map rev ws_strings) (rev s))"

definition trim :: "string \<Rightarrow> string" where
  "trim s = trim_end (trim_start s)"

lemma trim_with_suffix: "\<exists>p. s = p @ trim_with ws s"
proof (induction ws s rule: trim_with.induct)
  case (1 ws s)
  show ?case
  proof (cases "s \<noteq> [] \<and> ws_prefix ws s \<noteq> 0")
    case True
    then obtain p where "drop (ws_prefix ws s) s = p @ trim_with ws (drop (ws_prefix ws s) s)"
      using "1.IH" by blast
    then have "s = (take (ws_prefix ws s) s @ p) @ trim_with ws (drop (ws_prefix ws s) s)"
      by (metis append.assoc append_take_drop_id)
    then show ?thesis
      using True trim_with.simps [of ws s] by metis
  next
    case False
    then show ?thesis by (subst trim_with.simps) auto
  qed
qed

lemma trim_with_fixed:
  "trim_with ws s = [] \<or> ws_prefix ws (trim_with ws s) = 0"
proof (induction ws s rule: trim_with.induct)
  case (1 ws s)
  then show ?case by (subst (1 2) trim_with.simps) auto
qed

text \<open>\<open>trim\<close> returns a contiguous part of its argument.\<close>

lemma trim_infix: "\<exists>p q. s = p @ trim s @ q"
proof -
  obtain p where p: "s = p @ trim_start s"
    using trim_with_suffix unfolding trim_start_def by blast
  obtain r where "rev (trim_start s) = r @ trim_with (map rev ws_strings) (rev (trim_start s))"
    using trim_with_suffix by blast
  then have "trim_start s = trim s @ rev r"
    unfolding trim_def trim_end_def by (metis rev_append rev_rev_ident)
  then show ?thesis
    using p by metis
qed

lemma length_trim_le: "length (trim s) \<le> length s"
  using trim_infix [of s] by (metis le_add1 le_add2 le_trans length_append)

lemma trim_Nil [simp]: "trim [] = []"
  by (metis append_is_Nil_conv trim_infix)

text \<open>A string that starts and ends with a printable ASCII character is not changed.\<close>

definition printable :: "char \<Rightarrow> bool" where
  "printable c = (let n = of_char c :: nat in 33 \<le> n \<and> n < 128)"

lemma ws_strings_ends:
  "w \<in> set ws_strings \<Longrightarrow> w \<noteq> [] \<and> \<not> printable (hd w) \<and> \<not> printable (last w)"
  by (auto simp: ws_strings_def printable_def)

lemma ws_prefix_printable:
  assumes "s \<noteq> []" and "printable (hd s)" and "\<forall>w \<in> set ws. w \<noteq> [] \<and> \<not> printable (hd w)"
  shows "ws_prefix ws s = 0"
proof -
  have "find (starts_with s) ws = None"
    using assms by (auto simp: find_None_iff starts_with_append hd_append)
  then show ?thesis by (simp add: ws_prefix_def)
qed

lemma trim_printable:
  assumes "s \<noteq> []" and "printable (hd s)" and "printable (last s)"
  shows "trim s = s"
proof -
  have "trim_start s = s"
    unfolding trim_start_def using assms ws_strings_ends
    by (subst trim_with.simps) (simp add: ws_prefix_printable)
  moreover have "trim_end s = s"
    unfolding trim_end_def using assms ws_strings_ends
    by (subst trim_with.simps) (simp add: ws_prefix_printable hd_rev)
  ultimately show ?thesis by (simp add: trim_def)
qed

end
