(* ===== verification/Float64.thy ===== *)
theory Float64
  imports Prelude
begin

text \<open>
  The \<open>f64\<close> operations the core uses, on the IEEE 754 binary64 bit pattern: ordering and
  equality of non-NaN values through the sign-magnitude key, rounding of an exact rational to
  nearest with ties to even (the rounding of \<open>as f64\<close>, \<open>str::parse\<close> and of \<open>+ - * /\<close>), and
  truncation to an integer (\<open>as u64\<close>, \<open>as i64\<close>). Everything is computed on \<open>int\<close>.
\<close>

type_synonym f64 = "64 word"

section \<open>Fields of the bit pattern\<close>

definition f64_neg :: "f64 \<Rightarrow> bool" where
  "f64_neg b = (2 ^ 63 \<le> uint b)"

definition f64_mag :: "f64 \<Rightarrow> int" where
  "f64_mag b = uint b mod 2 ^ 63"

definition f64_exp :: "f64 \<Rightarrow> int" where
  "f64_exp b = f64_mag b div 2 ^ 52"

definition f64_frac :: "f64 \<Rightarrow> int" where
  "f64_frac b = f64_mag b mod 2 ^ 52"

definition f64_is_finite :: "f64 \<Rightarrow> bool" where
  "f64_is_finite b = (f64_exp b \<noteq> 2047)"

definition f64_is_nan :: "f64 \<Rightarrow> bool" where
  "f64_is_nan b = (f64_exp b = 2047 \<and> f64_frac b \<noteq> 0)"

text \<open>
  A finite value is \<open>f64_sig b * 2 powi (f64_pow b)\<close> up to its sign; for a subnormal the
  implicit bit is missing and the exponent is the least one.
\<close>

definition f64_sig :: "f64 \<Rightarrow> int" where
  "f64_sig b = (if f64_exp b = 0 then f64_frac b else 2 ^ 52 + f64_frac b)"

definition f64_pow :: "f64 \<Rightarrow> int" where
  "f64_pow b = (if f64_exp b = 0 then - 1074 else f64_exp b - 1075)"

section \<open>Comparison\<close>

definition f64_key :: "f64 \<Rightarrow> int" where
  "f64_key b = (if f64_neg b then - f64_mag b else f64_mag b)"

definition f64_eq :: "f64 \<Rightarrow> f64 \<Rightarrow> bool" where
  "f64_eq a b = (\<not> f64_is_nan a \<and> \<not> f64_is_nan b \<and> f64_key a = f64_key b)"

definition f64_lt :: "f64 \<Rightarrow> f64 \<Rightarrow> bool" where
  "f64_lt a b = (\<not> f64_is_nan a \<and> \<not> f64_is_nan b \<and> f64_key a < f64_key b)"

definition f64_le :: "f64 \<Rightarrow> f64 \<Rightarrow> bool" where
  "f64_le a b = (\<not> f64_is_nan a \<and> \<not> f64_is_nan b \<and> f64_key a \<le> f64_key b)"

definition f64_abs :: "f64 \<Rightarrow> f64" where
  "f64_abs b = word_of_int (f64_mag b)"

text \<open>\<open>f64::max\<close>: the other operand when one is NaN.\<close>

definition f64_max :: "f64 \<Rightarrow> f64 \<Rightarrow> f64" where
  "f64_max a b = (if f64_is_nan a then b else if f64_is_nan b then a
     else if f64_key a < f64_key b then b else a)"

section \<open>Rounding\<close>

text \<open>Floor of the binary logarithm of a positive integer, and of a positive fraction \<open>p / q\<close>.\<close>

function log2_int :: "int \<Rightarrow> int" where
  "log2_int n = (if n \<le> 1 then 0 else 1 + log2_int (n div 2))"
  by pat_completeness auto
termination
  by (relation "measure nat") auto

declare log2_int.simps [simp del]

definition shl :: "int \<Rightarrow> int \<Rightarrow> int" where
  "shl n k = (if 0 \<le> k then n * 2 ^ nat k else n)"

definition log2_frac :: "int \<Rightarrow> int \<Rightarrow> int" where
  "log2_frac p q =
     (let e = log2_int p - log2_int q
      in if shl p (- e) < shl q e then e - 1 else e)"

text \<open>Nearest integer to \<open>p / q\<close>, ties to even.\<close>

definition round_half_even :: "int \<Rightarrow> int \<Rightarrow> int" where
  "round_half_even p q =
     (let n = p div q; r = p mod q
      in if 2 * r < q then n else if q < 2 * r then n + 1
         else if even n then n else n + 1)"

definition f64_of_mag :: "bool \<Rightarrow> int \<Rightarrow> f64" where
  "f64_of_mag neg m = word_of_int (if neg then 2 ^ 63 + m else m)"

definition f64_infinity :: f64 where
  "f64_infinity = word_of_int (2047 * 2 ^ 52)"

definition f64_nan :: f64 where
  "f64_nan = word_of_int (2047 * 2 ^ 52 + 2 ^ 51)"

text \<open>
  The double nearest to \<open>p / q\<close> (\<open>0 \<le> p\<close>, \<open>0 < q\<close>) with the given sign: scale by the power
  of two that leaves 53 significant bits (fewer for a subnormal), round, and let a carry out of
  the significand move into the exponent field; past the largest finite value it is infinity.
\<close>

definition f64_round :: "bool \<Rightarrow> int \<Rightarrow> int \<Rightarrow> f64" where
  "f64_round neg p q =
     (if p = 0 then f64_of_mag neg 0
      else let e = max (log2_frac p q) (- 1022); k = 52 - e;
               s = round_half_even (shl p k) (shl q (- k));
               m = (e + 1022) * 2 ^ 52 + s
           in f64_of_mag neg (min m (2047 * 2 ^ 52)))"

text \<open>The exact value of a finite double as a signed numerator over a power of two.\<close>

definition f64_num :: "f64 \<Rightarrow> int" where
  "f64_num b = (if f64_neg b then - 1 else 1) * shl (f64_sig b) (f64_pow b)"

definition f64_den :: "f64 \<Rightarrow> int" where
  "f64_den b = shl 1 (- f64_pow b)"

definition f64_of_int :: "int \<Rightarrow> f64" where
  "f64_of_int n = f64_round (n < 0) \<bar>n\<bar> 1"

text \<open>
  \<open>a + b\<close>, \<open>a - b\<close>, \<open>a * b\<close> and \<open>a / b\<close>: round the exact result of finite operands; infinities and
  signed zeros as IEEE 754 has them, with one NaN for every undefined result.
\<close>

definition f64_is_inf :: "f64 \<Rightarrow> bool" where
  "f64_is_inf b = (f64_exp b = 2047 \<and> f64_frac b = 0)"

definition f64_is_zero :: "f64 \<Rightarrow> bool" where
  "f64_is_zero b = (f64_mag b = 0)"

definition f64_inf :: "bool \<Rightarrow> f64" where
  "f64_inf neg = f64_of_mag neg (2047 * 2 ^ 52)"

definition f64_minus :: "f64 \<Rightarrow> f64" where
  "f64_minus b = f64_of_mag (\<not> f64_neg b) (f64_mag b)"

definition f64_add :: "f64 \<Rightarrow> f64 \<Rightarrow> f64" where
  "f64_add a b =
     (if f64_is_nan a \<or> f64_is_nan b then f64_nan
      else if f64_is_inf a then (if f64_is_inf b \<and> f64_neg a \<noteq> f64_neg b then f64_nan else a)
      else if f64_is_inf b then b
      else let n = f64_num a * f64_den b + f64_num b * f64_den a
           in f64_round (if n = 0 then f64_neg a \<and> f64_neg b else n < 0) \<bar>n\<bar> (f64_den a * f64_den b))"

definition f64_sub :: "f64 \<Rightarrow> f64 \<Rightarrow> f64" where
  "f64_sub a b = f64_add a (f64_minus b)"

definition f64_mul :: "f64 \<Rightarrow> f64 \<Rightarrow> f64" where
  "f64_mul a b =
     (if f64_is_nan a \<or> f64_is_nan b then f64_nan
      else if f64_is_inf a \<or> f64_is_inf b
      then if f64_is_zero a \<or> f64_is_zero b then f64_nan else f64_inf (f64_neg a \<noteq> f64_neg b)
      else f64_round (f64_neg a \<noteq> f64_neg b) \<bar>f64_num a * f64_num b\<bar> (f64_den a * f64_den b))"

definition f64_div :: "f64 \<Rightarrow> f64 \<Rightarrow> f64" where
  "f64_div a b =
     (if f64_is_nan a \<or> f64_is_nan b then f64_nan
      else if f64_is_inf a then (if f64_is_inf b then f64_nan else f64_inf (f64_neg a \<noteq> f64_neg b))
      else if f64_is_inf b then f64_of_mag (f64_neg a \<noteq> f64_neg b) 0
      else if f64_is_zero b then (if f64_is_zero a then f64_nan else f64_inf (f64_neg a \<noteq> f64_neg b))
      else f64_round (f64_neg a \<noteq> f64_neg b) (\<bar>f64_num a\<bar> * f64_den b) (f64_den a * \<bar>f64_num b\<bar>))"

text \<open>\<open>as u64\<close> / \<open>as i64\<close> inside the target's range: truncation towards zero.\<close>

definition f64_trunc :: "f64 \<Rightarrow> int" where
  "f64_trunc b = (if f64_neg b then - (\<bar>f64_num b\<bar> div f64_den b) else f64_num b div f64_den b)"

section \<open>Facts\<close>

lemma f64_eq_sym: "f64_eq a b \<longleftrightarrow> f64_eq b a"
  by (auto simp: f64_eq_def)

lemma f64_eq_trans: "f64_eq a b \<Longrightarrow> f64_eq b c \<Longrightarrow> f64_eq a c"
  by (auto simp: f64_eq_def)

lemma f64_eq_refl_iff: "f64_eq a a \<longleftrightarrow> \<not> f64_is_nan a"
  by (auto simp: f64_eq_def)

lemma f64_lt_asym: "f64_lt a b \<Longrightarrow> \<not> f64_lt b a"
  by (auto simp: f64_lt_def)

end
