(* ===== verification/Json.thy ===== *)
theory Json
  imports Strings Float64
begin

text \<open>
  The JSON tree of \<^verbatim>\<open>vendor/types/src/json.rs\<close> (\<open>Number\<close>, \<open>Object\<close>, \<open>Value\<close>) and the field
  helpers and equality of \<^verbatim>\<open>crates/core/src/json.rs\<close>. An \<open>Object\<close> keeps its pairs in document
  order, so it is an association list; \<open>object_map\<close> is the map interface the rest of the
  development uses of it.
\<close>

section \<open>Numbers, objects and values\<close>

text \<open>An \<open>i64\<close> is its 64-bit pattern, read with \<open>sint\<close>; \<open>NInt\<close>, \<open>NUint\<close> and \<open>NFloat\<close> are the
  constructors \<open>Int\<close>, \<open>Uint\<close> and \<open>Float\<close>.\<close>

datatype number = NInt u64 | NUint u64 | NFloat f64

datatype jvalue =
    Null
  | Bool bool
  | Number number
  | String string
  | Array "jvalue list"
  | Object "(string \<times> jvalue) list"

type_synonym object = "(string \<times> jvalue) list"

fun num_as_u64 :: "number \<Rightarrow> u64 option" where
  "num_as_u64 (NUint v) = Some v"
| "num_as_u64 (NInt _) = None"
| "num_as_u64 (NFloat _) = None"

fun num_as_i64 :: "number \<Rightarrow> u64 option" where
  "num_as_i64 (NInt v) = Some v"
| "num_as_i64 (NUint v) = (if uint v < 2 ^ 63 then Some v else None)"
| "num_as_i64 (NFloat _) = None"

fun num_as_f64 :: "number \<Rightarrow> f64" where
  "num_as_f64 (NInt v) = f64_of_int (sint v)"
| "num_as_f64 (NUint v) = f64_of_int (uint v)"
| "num_as_f64 (NFloat v) = v"

fun as_str :: "jvalue \<Rightarrow> string option" where
  "as_str (String s) = Some s"
| "as_str _ = None"

fun as_object :: "jvalue \<Rightarrow> object option" where
  "as_object (Object ps) = Some ps"
| "as_object _ = None"

fun as_array :: "jvalue \<Rightarrow> jvalue list option" where
  "as_array (Array a) = Some a"
| "as_array _ = None"

fun as_bool :: "jvalue \<Rightarrow> bool option" where
  "as_bool (Bool b) = Some b"
| "as_bool _ = None"

fun as_u64 :: "jvalue \<Rightarrow> u64 option" where
  "as_u64 (Number n) = num_as_u64 n"
| "as_u64 _ = None"

fun is_null :: "jvalue \<Rightarrow> bool" where
  "is_null Null = True"
| "is_null _ = False"

definition uint_value :: "u64 \<Rightarrow> jvalue" where
  "uint_value v = Number (NUint v)"

section \<open>Object operations\<close>

fun obj_get :: "object \<Rightarrow> string \<Rightarrow> jvalue option" where
  "obj_get [] key = None"
| "obj_get ((k, v) # ps) key = (if k = key then Some v else obj_get ps key)"

definition obj_push :: "object \<Rightarrow> string \<Rightarrow> jvalue \<Rightarrow> object" where
  "obj_push ps key v = ps @ [(key, v)]"

text \<open>Writing through \<open>get_mut\<close>: the first pair with the key.\<close>

fun obj_assign :: "object \<Rightarrow> string \<Rightarrow> jvalue \<Rightarrow> object" where
  "obj_assign [] key v = []"
| "obj_assign ((k, w) # ps) key v = (if k = key then (k, v) # ps else (k, w) # obj_assign ps key v)"

definition obj_insert :: "object \<Rightarrow> string \<Rightarrow> jvalue \<Rightarrow> object" where
  "obj_insert ps key v = (case obj_get ps key of
     Some _ \<Rightarrow> obj_assign ps key v
   | None \<Rightarrow> obj_push ps key v)"

fun obj_remove :: "object \<Rightarrow> string \<Rightarrow> object" where
  "obj_remove [] key = []"
| "obj_remove ((k, v) # ps) key = (if k = key then ps else (k, v) # obj_remove ps key)"

section \<open>Field helpers\<close>

definition j_object :: "jvalue" where
  "j_object = Object []"

definition j_get :: "jvalue \<Rightarrow> string \<Rightarrow> jvalue option" where
  "j_get v key = (case as_object v of None \<Rightarrow> None | Some ps \<Rightarrow> obj_get ps key)"

definition j_text :: "jvalue \<Rightarrow> string \<Rightarrow> string" where
  "j_text v key = (case Option.bind (j_get v key) as_str of None \<Rightarrow> [] | Some s \<Rightarrow> s)"

definition j_uint :: "jvalue \<Rightarrow> string \<Rightarrow> u64" where
  "j_uint v key = (case Option.bind (j_get v key) as_u64 of None \<Rightarrow> 0 | Some n \<Rightarrow> n)"

definition j_boolean :: "jvalue \<Rightarrow> string \<Rightarrow> bool" where
  "j_boolean v key = (case Option.bind (j_get v key) as_bool of None \<Rightarrow> False | Some b \<Rightarrow> b)"

definition j_array :: "jvalue \<Rightarrow> string \<Rightarrow> jvalue list" where
  "j_array v key = (case Option.bind (j_get v key) as_array of None \<Rightarrow> [] | Some a \<Rightarrow> a)"

text \<open>\<open>get(..).unwrap_or(&Value::Null)\<close>.\<close>

definition j_field :: "jvalue \<Rightarrow> string \<Rightarrow> jvalue" where
  "j_field v key = (case j_get v key of None \<Rightarrow> Null | Some w \<Rightarrow> w)"

definition j_set :: "jvalue \<Rightarrow> string \<Rightarrow> jvalue \<Rightarrow> jvalue result" where
  "j_set v key w = bindR (ok_or (as_object v) (Invalid ''expected object''))
     (\<lambda>ps. Inr (Object (obj_insert ps key w)))"

definition j_remove :: "jvalue \<Rightarrow> string \<Rightarrow> jvalue result" where
  "j_remove v key = bindR (ok_or (as_object v) (Invalid ''expected object''))
     (\<lambda>ps. Inr (Object (obj_remove ps key)))"

definition j_fields :: "(string \<times> jvalue) list \<Rightarrow> jvalue" where
  "j_fields vs = Object (foldl (\<lambda>ps (k, v). obj_push ps k v) [] vs)"

text \<open>\<open>json::push\<close>: at most \<open>max\<close> entries.\<close>

definition j_push :: "'a list \<Rightarrow> 'a \<Rightarrow> nat \<Rightarrow> 'a list result" where
  "j_push vs v mx = (if mx \<le> length vs then Inl Full else Inr (vs @ [v]))"

section \<open>Equality\<close>

fun number_equal :: "number \<Rightarrow> number \<Rightarrow> bool" where
  "number_equal (NInt a) (NUint b) = (0 \<le> sint a \<and> a = b)"
| "number_equal (NUint b) (NInt a) = (0 \<le> sint a \<and> a = b)"
| "number_equal (NFloat a) (NUint b) =
     (f64_is_finite a \<and> f64_le 0 a \<and> f64_lt a (f64_of_int (2 ^ 64))
      \<and> f64_trunc a = uint b \<and> f64_eq (f64_of_int (uint b)) a)"
| "number_equal (NUint b) (NFloat a) =
     (f64_is_finite a \<and> f64_le 0 a \<and> f64_lt a (f64_of_int (2 ^ 64))
      \<and> f64_trunc a = uint b \<and> f64_eq (f64_of_int (uint b)) a)"
| "number_equal (NFloat a) (NInt b) =
     (f64_is_finite a \<and> f64_le (f64_of_int (- (2 ^ 63))) a \<and> f64_lt a (f64_of_int (2 ^ 63))
      \<and> f64_trunc a = sint b \<and> f64_eq (f64_of_int (sint b)) a)"
| "number_equal (NInt b) (NFloat a) =
     (f64_is_finite a \<and> f64_le (f64_of_int (- (2 ^ 63))) a \<and> f64_lt a (f64_of_int (2 ^ 63))
      \<and> f64_trunc a = sint b \<and> f64_eq (f64_of_int (sint b)) a)"
| "number_equal (NInt a) (NInt b) = (a = b)"
| "number_equal (NUint a) (NUint b) = (a = b)"
| "number_equal (NFloat a) (NFloat b) = f64_eq a b"

text \<open>
  \<open>equal\<close>: object order carries no meaning. The three mutual functions are the value, the
  \<open>all\<close> over the fields of the left object and the \<open>all\<close> over the zipped arrays.
\<close>

fun j_equal :: "jvalue \<Rightarrow> jvalue \<Rightarrow> bool"
and j_equal_fields :: "object \<Rightarrow> object \<Rightarrow> bool"
and j_equal_items :: "jvalue list \<Rightarrow> jvalue list \<Rightarrow> bool" where
  "j_equal (Number a) (Number b) = number_equal a b"
| "j_equal (Object a) (Object b) = (length a = length b \<and> j_equal_fields a b)"
| "j_equal (Array a) (Array b) = (length a = length b \<and> j_equal_items a b)"
| "j_equal Null Null = True"
| "j_equal (Bool a) (Bool b) = (a = b)"
| "j_equal (String a) (String b) = (a = b)"
| "j_equal _ _ = False"
| "j_equal_fields [] b = True"
| "j_equal_fields ((k, v) # ps) b =
     ((case obj_get b k of None \<Rightarrow> False | Some w \<Rightarrow> j_equal v w) \<and> j_equal_fields ps b)"
| "j_equal_items (v # vs) (w # ws) = (j_equal v w \<and> j_equal_items vs ws)"
| "j_equal_items _ _ = True"


section \<open>Laws of the object operations\<close>

lemma obj_get_map_of: "obj_get ps k = map_of ps k"
  by (induction ps k rule: obj_get.induct) auto

lemma obj_get_append:
  "obj_get (ps @ qs) k = (case obj_get ps k of Some v \<Rightarrow> Some v | None \<Rightarrow> obj_get qs k)"
  by (induction ps) auto

lemma obj_get_None_iff: "obj_get ps k = None \<longleftrightarrow> k \<notin> fst ` set ps"
  by (simp add: obj_get_map_of map_of_eq_None_iff)

lemma obj_get_Some_in: "obj_get ps k = Some v \<Longrightarrow> (k, v) \<in> set ps"
  by (induction ps) (auto split: if_splits)

lemma obj_get_in_distinct:
  "distinct (map fst ps) \<Longrightarrow> (k, v) \<in> set ps \<Longrightarrow> obj_get ps k = Some v"
  by (simp add: obj_get_map_of)

lemma obj_get_assign:
  "obj_get (obj_assign ps k v) k' =
     (if k' = k \<and> obj_get ps k \<noteq> None then Some v else obj_get ps k')"
  by (induction ps k v rule: obj_assign.induct) auto

lemma map_fst_assign [simp]: "map fst (obj_assign ps k v) = map fst ps"
  by (induction ps) auto

text \<open>
  What the clients of an object rely on: lookup after insertion and removal, with the order of
  the keys an insertion leaves alone.
\<close>

locale object_map =
  fixes get :: "'o \<Rightarrow> string \<Rightarrow> jvalue option"
    and ins :: "'o \<Rightarrow> string \<Rightarrow> jvalue \<Rightarrow> 'o"
    and del :: "'o \<Rightarrow> string \<Rightarrow> 'o"
    and keys :: "'o \<Rightarrow> string list"
  assumes get_ins: "get (ins ps k v) k' = (if k' = k then Some v else get ps k')"
    and get_del: "distinct (keys ps) \<Longrightarrow> get (del ps k) k' = (if k' = k then None else get ps k')"
    and keys_ins: "keys (ins ps k v) = (if k \<in> set (keys ps) then keys ps else keys ps @ [k])"
    and keys_del: "distinct (keys ps) \<Longrightarrow> keys (del ps k) = filter (\<lambda>k'. k' \<noteq> k) (keys ps)"
begin

lemma distinct_ins: "distinct (keys ps) \<Longrightarrow> distinct (keys (ins ps k v))"
  by (simp add: keys_ins)

lemma distinct_del: "distinct (keys ps) \<Longrightarrow> distinct (keys (del ps k))"
  by (simp add: keys_del)

text \<open>Writing two different fields commutes as far as a reader can tell.\<close>

lemma get_ins_twice:
  "get (ins (ins ps k v) k w) = get (ins ps k w)"
  "k \<noteq> k' \<Longrightarrow> get (ins (ins ps k v) k' w) = get (ins (ins ps k' w) k v)"
  by (auto simp: get_ins fun_eq_iff)

lemma get_del_ins: "distinct (keys ps) \<Longrightarrow> get (del (ins ps k v) k) = get (del ps k)"
  by (auto simp: get_ins get_del distinct_ins fun_eq_iff)

end

lemma obj_get_insert [simp]:
  "obj_get (obj_insert ps k v) k' = (if k' = k then Some v else obj_get ps k')"
  by (auto simp: obj_insert_def obj_push_def obj_get_append obj_get_assign split: option.splits)

lemma map_fst_insert:
  "map fst (obj_insert ps k v) = (if k \<in> fst ` set ps then map fst ps else map fst ps @ [k])"
  by (auto simp: obj_insert_def obj_push_def obj_get_None_iff [symmetric] split: option.splits)

lemma map_fst_remove:
  "distinct (map fst ps) \<Longrightarrow> map fst (obj_remove ps k) = filter (\<lambda>k'. k' \<noteq> k) (map fst ps)"
proof (induction ps k rule: obj_remove.induct)
  case (2 k v ps key)
  have "k = key \<Longrightarrow> filter (\<lambda>k'. k' \<noteq> key) (map fst ps) = map fst ps"
    using "2.prems" by (intro filter_True) auto
  with 2 show ?case by simp
qed simp

lemma obj_get_remove:
  "distinct (map fst ps) \<Longrightarrow> obj_get (obj_remove ps k) k' = (if k' = k then None else obj_get ps k')"
proof (induction ps k rule: obj_remove.induct)
  case (2 k v ps key)
  have "k = key \<Longrightarrow> obj_get ps key = None"
    using "2.prems" by (simp add: obj_get_None_iff)
  with 2 show ?case by auto
qed simp

lemma obj_get_remove_other [simp]: "k' \<noteq> k \<Longrightarrow> obj_get (obj_remove ps k) k' = obj_get ps k'"
  by (induction ps k rule: obj_remove.induct) auto

interpretation obj: object_map obj_get obj_insert obj_remove "map fst"
  by unfold_locales (auto simp: obj_get_remove map_fst_insert map_fst_remove)

section \<open>Field access after an update\<close>

lemma j_get_Object [simp]: "j_get (Object ps) k = obj_get ps k"
  by (simp add: j_get_def)

lemma j_get_object [simp]: "j_get j_object k = None"
  by (simp add: j_object_def)

lemma j_set_Inr_iff [result_iff]:
  "j_set v k w = Inr v' \<longleftrightarrow> (\<exists>ps. v = Object ps \<and> v' = Object (obj_insert ps k w))"
  by (cases v) (auto simp: j_set_def)

lemma j_remove_Inr_iff [result_iff]:
  "j_remove v k = Inr v' \<longleftrightarrow> (\<exists>ps. v = Object ps \<and> v' = Object (obj_remove ps k))"
  by (cases v) (auto simp: j_remove_def)

lemma j_set_Object [simp]: "j_set (Object ps) k w = Inr (Object (obj_insert ps k w))"
  by (simp add: j_set_def)

lemma j_remove_Object [simp]: "j_remove (Object ps) k = Inr (Object (obj_remove ps k))"
  by (simp add: j_remove_def)

lemma j_push_Inr_iff [result_iff]:
  "j_push vs v mx = Inr ws \<longleftrightarrow> length vs < mx \<and> ws = vs @ [v]"
  by (auto simp: j_push_def)

lemma j_get_set: "j_set v k w = Inr v' \<Longrightarrow> j_get v' k' = (if k' = k then Some w else j_get v k')"
  by (auto simp: result_iff)

lemma j_get_cong_text: "j_get v k = j_get w k \<Longrightarrow> j_text v k = j_text w k"
  by (simp add: j_text_def)

lemma j_text_set:
  "j_set v k w = Inr v' \<Longrightarrow>
     j_text v' k' = (if k' = k then (case as_str w of None \<Rightarrow> [] | Some s \<Rightarrow> s) else j_text v k')"
  by (auto simp: j_text_def j_get_set)

lemma j_text_Object_insert [simp]:
  "j_text (Object (obj_insert ps k w)) k' =
     (if k' = k then (case as_str w of None \<Rightarrow> [] | Some s \<Rightarrow> s) else j_text (Object ps) k')"
  by (simp add: j_text_def)

lemma j_uint_Object_insert [simp]:
  "j_uint (Object (obj_insert ps k w)) k' =
     (if k' = k then (case as_u64 w of None \<Rightarrow> 0 | Some n \<Rightarrow> n) else j_uint (Object ps) k')"
  by (simp add: j_uint_def)

lemma j_boolean_Object_insert [simp]:
  "j_boolean (Object (obj_insert ps k w)) k' =
     (if k' = k then (case as_bool w of None \<Rightarrow> False | Some b \<Rightarrow> b) else j_boolean (Object ps) k')"
  by (simp add: j_boolean_def)

lemma j_array_Object_insert [simp]:
  "j_array (Object (obj_insert ps k w)) k' =
     (if k' = k then (case as_array w of None \<Rightarrow> [] | Some a \<Rightarrow> a) else j_array (Object ps) k')"
  by (simp add: j_array_def)

lemma j_text_Object_remove [simp]:
  "k' \<noteq> k \<Longrightarrow> j_text (Object (obj_remove ps k)) k' = j_text (Object ps) k'"
  by (simp add: j_text_def)

lemma as_u64_uint_value [simp]: "as_u64 (uint_value n) = Some n"
  by (simp add: uint_value_def)

lemma j_text_object [simp]: "j_text j_object k = []"
  by (simp add: j_text_def)

lemma j_fields_Object: "j_fields vs = Object vs"
proof -
  have "foldl (\<lambda>ps (k, v). obj_push ps k v) acc vs = acc @ vs" for acc
    by (induction vs arbitrary: acc) (auto simp: obj_push_def)
  then show ?thesis by (simp add: j_fields_def)
qed

section \<open>Well-formed values\<close>

text \<open>
  Every object in the tree has distinct keys (the parser refuses duplicates and \<open>insert\<close> keeps
  the property), and no number is a NaN.
\<close>

fun wf_value :: "jvalue \<Rightarrow> bool"
and wf_fields :: "object \<Rightarrow> bool"
and wf_items :: "jvalue list \<Rightarrow> bool" where
  "wf_value (Object ps) = (distinct (map fst ps) \<and> wf_fields ps)"
| "wf_value (Array vs) = wf_items vs"
| "wf_value (Number (NFloat x)) = (\<not> f64_is_nan x)"
| "wf_value _ = True"
| "wf_fields [] = True"
| "wf_fields ((k, v) # ps) = (wf_value v \<and> wf_fields ps)"
| "wf_items [] = True"
| "wf_items (v # vs) = (wf_value v \<and> wf_items vs)"

lemma wf_fields_iff: "wf_fields ps \<longleftrightarrow> (\<forall>(k, v) \<in> set ps. wf_value v)"
  by (induction ps) auto

lemma wf_items_iff: "wf_items vs \<longleftrightarrow> (\<forall>v \<in> set vs. wf_value v)"
  by (induction vs) auto

lemma set_obj_assign: "set (obj_assign ps k v) \<subseteq> insert (k, v) (set ps)"
  by (induction ps k v rule: obj_assign.induct) auto

lemma set_obj_insert: "set (obj_insert ps k v) \<subseteq> insert (k, v) (set ps)"
  using set_obj_assign by (auto simp: obj_insert_def obj_push_def split: option.splits)

lemma set_obj_remove: "set (obj_remove ps k) \<subseteq> set ps"
  by (induction ps k rule: obj_remove.induct) auto

lemma wf_obj_insert [intro]:
  assumes "wf_value (Object ps)" and "wf_value v"
  shows "wf_value (Object (obj_insert ps k v))"
proof -
  have "wf_fields (obj_insert ps k v)"
    using assms set_obj_insert [of ps k v] by (auto simp: wf_fields_iff)
  then show ?thesis
    using assms obj.distinct_ins [of ps k v] by simp
qed

lemma wf_obj_remove [intro]:
  assumes "wf_value (Object ps)"
  shows "wf_value (Object (obj_remove ps k))"
  using assms obj.distinct_del [of ps k] set_obj_remove [of ps k]
  by (auto simp: wf_fields_iff)

lemma wf_obj_get: "wf_value (Object ps) \<Longrightarrow> obj_get ps k = Some v \<Longrightarrow> wf_value v"
  using obj_get_Some_in [of ps k v] by (auto simp: wf_fields_iff)

lemma wf_j_get: "wf_value v \<Longrightarrow> j_get v k = Some w \<Longrightarrow> wf_value w"
  by (cases v) (auto simp: j_get_def dest: wf_obj_get [rotated])

section \<open>Equality is an equivalence up to key order\<close>

lemma number_equal_sym: "number_equal a b \<longleftrightarrow> number_equal b a"
  by (cases a; cases b) (auto simp: f64_eq_sym)

lemma number_equal_refl: "wf_value (Number n) \<Longrightarrow> number_equal n n"
  by (cases n) (auto simp: f64_eq_refl_iff)

lemma j_equal_fields_iff:
  "j_equal_fields a b \<longleftrightarrow> (\<forall>(k, v) \<in> set a. \<exists>w. obj_get b k = Some w \<and> j_equal v w)"
  by (induction a) (auto split: option.splits)

lemma j_equal_items_iff:
  "length a = length b \<Longrightarrow>
     j_equal_items a b \<longleftrightarrow> (\<forall>i < length a. j_equal (a ! i) (b ! i))"
proof (induction a b rule: list_induct2)
  case (Cons x xs y ys)
  then show ?case by (auto simp: nth_Cons split: nat.split)
qed simp

text \<open>With distinct keys and equal length, matching every left key covers every right key.\<close>

lemma obj_keys_cover:
  assumes "distinct (map fst a)" and "distinct (map fst b)" and "length a = length b"
    and sub: "\<And>k v. (k, v) \<in> set a \<Longrightarrow> \<exists>w. obj_get b k = Some w"
    and k: "(k, w) \<in> set b"
  shows "\<exists>v. (k, v) \<in> set a"
proof -
  have "fst ` set a \<subseteq> fst ` set b"
    using sub obj_get_Some_in by force
  moreover have "card (fst ` set a) = card (fst ` set b)"
    using assms(1-3) by (metis distinct_card length_map set_map)
  ultimately have "fst ` set a = fst ` set b"
    by (intro card_subset_eq) auto
  then show ?thesis
    using k by (metis fst_conv image_iff prod.collapse)
qed


lemma j_equal_refl_all:
  "wf_value v \<Longrightarrow> j_equal v v"
  "wf_fields ps \<Longrightarrow> (\<forall>(k, w) \<in> set ps. obj_get qs k = Some w) \<Longrightarrow> j_equal_fields ps qs"
  "wf_items vs \<Longrightarrow> j_equal_items vs vs"
proof (induction v and ps and vs arbitrary: and qs rule: wf_value_wf_fields_wf_items.induct)
  case (1 ps)
  have "\<forall>(k, w) \<in> set ps. obj_get ps k = Some w"
    using "1.prems" by (auto simp: obj_get_in_distinct)
  with 1 show ?case by simp
qed (auto simp: f64_eq_refl_iff)

lemmas j_equal_refl = j_equal_refl_all(1)

lemma j_equal_sym_all:
  "j_equal v w \<Longrightarrow> wf_value v \<Longrightarrow> wf_value w \<Longrightarrow> j_equal w v"
  "j_equal_fields ps qs \<Longrightarrow> wf_fields ps \<Longrightarrow> wf_value (Object qs) \<Longrightarrow>
     (\<forall>(k, x) \<in> set ps. \<exists>y. obj_get qs k = Some y \<and> j_equal y x)"
  "j_equal_items vs ws \<Longrightarrow> wf_items vs \<Longrightarrow> wf_items ws \<Longrightarrow> j_equal_items ws vs"
proof (induction v w and ps qs and vs ws rule: j_equal_j_equal_fields_j_equal_items.induct)
  case (1 a b)
  then show ?case by (simp add: number_equal_sym)
next
  case (2 a b)
  then have fw: "\<forall>(k, x) \<in> set a. \<exists>y. obj_get b k = Some y \<and> j_equal y x"
    and len: "length a = length b" and d: "distinct (map fst a)" "distinct (map fst b)"
    by auto
  have "\<exists>x. obj_get a k = Some x \<and> j_equal y x" if y: "(k, y) \<in> set b" for k y
  proof -
    obtain x where x: "(k, x) \<in> set a"
      using obj_keys_cover [OF d len _ y] fw by fast
    then have "obj_get a k = Some x"
      using d by (simp add: obj_get_in_distinct)
    moreover have "obj_get b k = Some y"
      using d y by (simp add: obj_get_in_distinct)
    ultimately show ?thesis using fw x by force
  qed
  then show ?case
    using len by (auto simp: j_equal_fields_iff)
next
  case (9 k v ps b)
  then show ?case
    by (auto split: option.splits dest: wf_obj_get [rotated])
qed auto

text \<open>\<open>json::equal\<close> is symmetric on values whose objects have distinct keys, although the code
  only checks that every key of the left object is in the right one: equal lengths and distinct
  keys make that enough.\<close>

theorem j_equal_sym:
  assumes "wf_value v" and "wf_value w"
  shows "j_equal v w \<longleftrightarrow> j_equal w v"
  using assms j_equal_sym_all(1) by blast

theorem j_equal_sym_witness:
  "j_equal (Object [(''a'', Null), (''b'', Number (NUint 5))])
           (Object [(''b'', Number (NInt 5)), (''a'', Null)])
   \<and> j_equal (Object [(''b'', Number (NInt 5)), (''a'', Null)])
           (Object [(''a'', Null), (''b'', Number (NUint 5))])"
  using j_equal_sym [of "Object [(''a'', Null), (''b'', Number (NUint 5))]"
      "Object [(''b'', Number (NInt 5)), (''a'', Null)]"] by simp

end
