(* ===== verification/Flow.thy ===== *)
theory Flow
  imports Json
begin

text \<open>
  Flow graphs (\<^verbatim>\<open>crates/core/src/flow.rs\<close>): validation of a canvas as a bounded directed acyclic
  graph (Kahn's algorithm over index arrays), the reachability test \<open>runnable\<close>, and
  \<open>Execution\<close>, the plan that hands out one card at a time. The theorems say that validation
  accepts exactly the acyclic graphs, that \<open>runnable\<close> decides reachability, and that an
  execution delivers every card at most once, never overflows its fixed arrays and ends.
\<close>

section \<open>Cards\<close>

definition MAX_NODES :: nat where "MAX_NODES = 128"

definition MAX_EDGES :: nat where "MAX_EDGES = 256"

definition card_kind :: "string \<Rightarrow> string" where
  "card_kind card_type =
     (if card_type = ''trigger'' \<or> card_type = ''device-trigger'' then ''trigger''
      else if card_type = ''condition'' then ''condition''
      else if card_type = ''action'' then ''action''
      else [])"

definition flow_kind :: "jvalue \<Rightarrow> string" where
  "flow_kind node =
     card_kind (case j_get node ''step'' of None \<Rightarrow> [] | Some s \<Rightarrow> j_text s ''cardType'')"

definition node_index :: "jvalue list \<Rightarrow> string \<Rightarrow> nat result" where
  "node_index nodes nid = ok_or (position (\<lambda>n. j_text n ''id'' = nid) nodes)
     (Missing ''connection references a missing card'')"

text \<open>One of the two coordinates: absent, or a finite number of at most a million.\<close>

definition check_position :: "jvalue \<Rightarrow> string \<Rightarrow> unit result" where
  "check_position node key = (case j_get node key of
     None \<Rightarrow> Inr ()
   | Some (Number number) \<Rightarrow>
       (let n = num_as_f64 number
        in if \<not> f64_is_finite n \<or> f64_lt (f64_of_int 1000000) (f64_abs n)
           then Inl (Invalid ''invalid card position'') else Inr ())
   | Some _ \<Rightarrow> Inl (Invalid ''invalid card position''))"

definition validate_node :: "jvalue \<Rightarrow> unit result" where
  "validate_node node =
     (if trim (j_text node ''id'') = [] then Inl (Invalid ''flow card id is required'')
      else if flow_kind node = [] then Inl (Invalid ''flow card type is invalid'')
      else bindR (ok_or (j_get node ''step'') (Missing ''flow step is required'')) (\<lambda>step.
        if j_text step ''appId'' = [] \<or> j_text step ''cardId'' = []
        then Inl (Invalid ''flow appId and cardId are required'')
        else bindR (check_position node ''x'') (\<lambda>_. check_position node ''y'')))"

section \<open>Validation\<close>

definition same_id :: "jvalue \<Rightarrow> jvalue \<Rightarrow> bool" where
  "same_id a b = (j_text a ''id'' = j_text b ''id'')"

definition same_edge :: "jvalue \<Rightarrow> jvalue \<Rightarrow> bool" where
  "same_edge a b = (j_text a ''from'' = j_text b ''from'' \<and> j_text a ''to'' = j_text b ''to'')"

definition check_node :: "jvalue list \<Rightarrow> nat \<Rightarrow> unit \<Rightarrow> unit result" where
  "check_node nodes i _ = bindR (validate_node (nodes ! i)) (\<lambda>_.
     if any_earlier same_id nodes i then Inl (Conflict ''duplicate flow card id'') else Inr ())"

text \<open>The body of the edge loop; \<open>incoming\<close> counts connections per target.\<close>

definition check_edge :: "jvalue list \<Rightarrow> jvalue list \<Rightarrow> nat \<Rightarrow> nat list \<Rightarrow> nat list result" where
  "check_edge nodes edges i incoming =
     bindR (node_index nodes (j_text (edges ! i) ''from'')) (\<lambda>from.
     bindR (node_index nodes (j_text (edges ! i) ''to'')) (\<lambda>to.
       if from = to then Inl (Invalid ''card cannot connect to itself'')
       else if flow_kind (nodes ! to) = ''trigger''
       then Inl (Invalid ''trigger cannot have incoming connections'')
       else if any_earlier same_edge edges i then Inl (Conflict ''duplicate flow connection'')
       else if to < length incoming then Inr (incoming[to := incoming ! to + 1])
       else Inl Full))"

text \<open>Removing one outgoing connection of a finished card.\<close>

definition release_edge :: "jvalue list \<Rightarrow> jvalue \<Rightarrow> nat list \<Rightarrow> nat list result" where
  "release_edge nodes edge incoming =
     bindR (node_index nodes (j_text edge ''to'')) (\<lambda>to.
       if length incoming \<le> to then Inl Full
       else if incoming ! to = 0 then Inl (Invalid ''invalid graph degree'')
       else Inr (incoming[to := incoming ! to - 1]))"

definition kahn_step ::
    "jvalue list \<Rightarrow> jvalue list \<Rightarrow> bool list \<times> nat list \<Rightarrow> (bool list \<times> nat list) result" where
  "kahn_step nodes edges = (\<lambda>(seen, incoming).
     bindR (ok_or (find (\<lambda>i. incoming ! i = 0 \<and> \<not> seen ! i) [0..<length nodes])
              (Invalid ''flow connections may not contain a cycle'')) (\<lambda>index.
     bindR (foldR (release_edge nodes)
              (filter (\<lambda>e. j_text e ''from'' = j_text (nodes ! index) ''id'') edges) incoming)
       (\<lambda>incoming'. Inr (seen[index := True], incoming'))))"

fun kahn_loop ::
    "nat \<Rightarrow> jvalue list \<Rightarrow> jvalue list \<Rightarrow> bool list \<times> nat list \<Rightarrow> (bool list \<times> nat list) result" where
  "kahn_loop 0 nodes edges s = Inr s"
| "kahn_loop (Suc k) nodes edges s = bindR (kahn_step nodes edges s) (kahn_loop k nodes edges)"

definition flow_validate :: "jvalue \<Rightarrow> unit result" where
  "flow_validate flow =
     (let name = trim (j_text flow ''name'') in
      if name = [] \<or> 160 < length name
      then Inl (Invalid ''flow name is required, at most 160 bytes'')
      else
        let nodes = j_array flow ''nodes''; edges = j_array flow ''edges'' in
        if MAX_NODES < length nodes \<or> MAX_EDGES < length edges then Inl Full
        else bindR (foldR (check_node nodes) [0..<length nodes] ()) (\<lambda>_.
          bindR (foldR (check_edge nodes edges) [0..<length edges] (replicate MAX_NODES 0))
            (\<lambda>incoming.
          bindR (kahn_loop (length nodes) nodes edges (replicate MAX_NODES False, incoming))
            (\<lambda>_. Inr ()))))"

section \<open>Runnable\<close>

definition relax_edge :: "jvalue list \<Rightarrow> bool list \<Rightarrow> jvalue \<Rightarrow> bool list" where
  "relax_edge nodes reachable edge =
     (case (node_index nodes (j_text edge ''from''), node_index nodes (j_text edge ''to'')) of
        (Inr from, Inr to) \<Rightarrow>
          if from < length reachable \<and> reachable ! from \<and> to < length reachable
          then reachable[to := True] else reachable
      | _ \<Rightarrow> reachable)"

fun relax_rounds :: "nat \<Rightarrow> jvalue list \<Rightarrow> jvalue list \<Rightarrow> bool list \<Rightarrow> bool list" where
  "relax_rounds 0 nodes edges r = r"
| "relax_rounds (Suc k) nodes edges r =
     relax_rounds k nodes edges (foldl (relax_edge nodes) r edges)"

definition runnable :: "jvalue \<Rightarrow> bool \<times> string" where
  "runnable flow =
     (let nodes = j_array flow ''nodes'' in
      if MAX_NODES < length nodes then (False, ''too many cards'')
      else if \<not> list_ex (\<lambda>n. flow_kind n = ''trigger'') nodes
      then (False, ''add an ALS/trigger card'')
      else if \<not> list_ex (\<lambda>n. flow_kind n = ''action'') nodes
      then (False, ''add a DAN/action card'')
      else
        let start = map (\<lambda>n. flow_kind n = ''trigger'') nodes
                      @ replicate (MAX_NODES - length nodes) False;
            reach = relax_rounds (length nodes) nodes (j_array flow ''edges'') start
        in if list_ex (\<lambda>i. flow_kind (nodes ! i) = ''action'' \<and> reach ! i) [0..<length nodes]
           then (True, [])
           else (False, ''connect the ALS/trigger card to a DAN/action card''))"

section \<open>The graph of a canvas\<close>

text \<open>
  The connections as pairs of card indices, the source and target index of one connection, and
  what the two first loops establish before the cycle search starts.
\<close>

definition flow_graph :: "jvalue list \<Rightarrow> jvalue list \<Rightarrow> (nat \<times> nat) set" where
  "flow_graph nodes edges =
     {(f, t). \<exists>e \<in> set edges. node_index nodes (j_text e ''from'') = Inr f
                          \<and> node_index nodes (j_text e ''to'') = Inr t}"

definition edge_src :: "jvalue list \<Rightarrow> jvalue \<Rightarrow> nat" where
  "edge_src nodes e = (case node_index nodes (j_text e ''from'') of Inl _ \<Rightarrow> 0 | Inr f \<Rightarrow> f)"

definition edge_tgt :: "jvalue list \<Rightarrow> jvalue \<Rightarrow> nat" where
  "edge_tgt nodes e = (case node_index nodes (j_text e ''to'') of Inl _ \<Rightarrow> 0 | Inr t \<Rightarrow> t)"

definition graph_ok :: "jvalue list \<Rightarrow> jvalue list \<Rightarrow> bool" where
  "graph_ok nodes edges \<longleftrightarrow>
     distinct (map (\<lambda>n. j_text n ''id'') nodes) \<and> length nodes \<le> MAX_NODES
     \<and> (\<forall>e \<in> set edges. node_index nodes (j_text e ''from'') = Inr (edge_src nodes e)
                       \<and> node_index nodes (j_text e ''to'') = Inr (edge_tgt nodes e))"

lemma node_index_SomeD:
  "node_index nodes nid = Inr i \<Longrightarrow> i < length nodes \<and> j_text (nodes ! i) ''id'' = nid"
  by (auto simp: node_index_def result_iff dest: position_SomeD)

lemma node_index_unique:
  assumes "distinct (map (\<lambda>n. j_text n ''id'') nodes)" and "i < length nodes"
  shows "node_index nodes (j_text (nodes ! i) ''id'') = Inr i"
proof -
  obtain k where k: "position (\<lambda>n. j_text n ''id'' = j_text (nodes ! i) ''id'') nodes = Some k"
    using position_ex [of "nodes ! i" nodes] assms(2) by force
  then have "k = i"
    using position_SomeD [OF k] assms by (auto simp: distinct_conv_nth)
  then show ?thesis using k by (simp add: node_index_def)
qed

lemma graph_okD:
  assumes "graph_ok nodes edges" and "e \<in> set edges"
  shows "edge_src nodes e < length nodes" and "edge_tgt nodes e < length nodes"
    and "j_text (nodes ! edge_src nodes e) ''id'' = j_text e ''from''"
  using assms node_index_SomeD unfolding graph_ok_def by blast+

lemma flow_graph_conv:
  "graph_ok nodes edges \<Longrightarrow>
     flow_graph nodes edges = (\<lambda>e. (edge_src nodes e, edge_tgt nodes e)) ` set edges"
  by (force simp: flow_graph_def graph_ok_def)

lemma flow_graph_bounded: "(f, t) \<in> flow_graph nodes edges \<Longrightarrow> f < length nodes \<and> t < length nodes"
  by (auto simp: flow_graph_def dest: node_index_SomeD)

lemma finite_flow_graph: "finite (flow_graph nodes edges)"
proof (rule finite_subset)
  show "flow_graph nodes edges \<subseteq> {..<length nodes} \<times> {..<length nodes}"
    using flow_graph_bounded by auto
qed simp

section \<open>What the loops compute\<close>

lemma check_nodes_iff:
  "foldR (check_node nodes) [0..<length nodes] () = Inr u \<longleftrightarrow>
     (\<forall>n \<in> set nodes. validate_node n = Inr ()) \<and> distinct (map (\<lambda>n. j_text n ''id'') nodes)"
proof -
  have "any_earlier same_id nodes = any_earlier (\<lambda>a b. j_text a ''id'' = j_text b ''id'') nodes"
    by (simp add: same_id_def any_earlier_def fun_eq_iff)
  then show ?thesis
    using any_earlier_distinct_map [of nodes "\<lambda>n. j_text n ''id''"]
    by (auto simp: foldR_unit check_node_def result_iff all_set_conv_all_nth)
qed

definition edge_ok :: "jvalue list \<Rightarrow> jvalue list \<Rightarrow> nat \<Rightarrow> bool" where
  "edge_ok nodes edges i \<longleftrightarrow>
     (\<exists>f t. node_index nodes (j_text (edges ! i) ''from'') = Inr f
          \<and> node_index nodes (j_text (edges ! i) ''to'') = Inr t
          \<and> f \<noteq> t \<and> flow_kind (nodes ! t) \<noteq> ''trigger'')
     \<and> \<not> any_earlier same_edge edges i"

lemma check_edge_iff:
  assumes "length nodes \<le> length inc"
  shows "check_edge nodes edges i inc = Inr inc' \<longleftrightarrow>
     edge_ok nodes edges i
     \<and> inc' = inc[edge_tgt nodes (edges ! i) := inc ! edge_tgt nodes (edges ! i) + 1]"
  using assms
  by (cases "node_index nodes (j_text (edges ! i) ''from'')";
      cases "node_index nodes (j_text (edges ! i) ''to'')")
    (auto simp: check_edge_def edge_ok_def edge_tgt_def dest: node_index_SomeD)

lemma check_edges_iff:
  assumes "length nodes \<le> length inc"
  shows "(\<exists>inc'. foldR (check_edge nodes edges) js inc = Inr inc')
           \<longleftrightarrow> (\<forall>i \<in> set js. edge_ok nodes edges i)"
  using assms
proof (induction js arbitrary: inc)
  case (Cons i js)
  then show ?case
    by (auto simp: result_iff check_edge_iff)
qed simp

lemma check_edges_count:
  assumes "length nodes \<le> length inc" and "foldR (check_edge nodes edges) js inc = Inr inc'"
  shows "length inc' = length inc
    \<and> (\<forall>j < length inc. inc' ! j = inc ! j + length (filter (\<lambda>i. edge_tgt nodes (edges ! i) = j) js))"
  using assms
proof (induction js arbitrary: inc)
  case (Cons i js)
  let ?t = "edge_tgt nodes (edges ! i)"
  from Cons.prems have ok: "foldR (check_edge nodes edges) js (inc[?t := inc ! ?t + 1]) = Inr inc'"
    by (auto simp: result_iff check_edge_iff)
  show ?case
    using Cons.IH [OF _ ok] Cons.prems(1) by (auto simp: nth_list_update)
qed simp

lemma count_upt: "length (filter (\<lambda>i. P (xs ! i)) [0..<length xs]) = length (filter P xs)"
proof -
  have "filter P xs = filter P (map ((!) xs) [0..<length xs])"
    by (simp add: map_nth)
  also have "\<dots> = map ((!) xs) (filter (P \<circ> (!) xs) [0..<length xs])"
    by (rule filter_map)
  finally show ?thesis by (simp add: comp_def)
qed

lemma release_edges:
  assumes "\<forall>e \<in> set es. node_index nodes (j_text e ''to'') = Inr (edge_tgt nodes e)"
    and "length nodes \<le> length inc"
    and "\<forall>j < length inc. length (filter (\<lambda>e. edge_tgt nodes e = j) es) \<le> inc ! j"
  shows "\<exists>inc'. foldR (release_edge nodes) es inc = Inr inc' \<and> length inc' = length inc
    \<and> (\<forall>j < length inc. inc' ! j = inc ! j - length (filter (\<lambda>e. edge_tgt nodes e = j) es))"
  using assms
proof (induction es arbitrary: inc)
  case (Cons e es)
  let ?t = "edge_tgt nodes e"
  let ?inc = "inc[?t := inc ! ?t - 1]"
  have t: "?t < length inc"
    using Cons.prems(1,2) node_index_SomeD by fastforce
  then have "inc ! ?t \<noteq> 0"
    using Cons.prems(3) by force
  then have step: "release_edge nodes e inc = Inr ?inc"
    using Cons.prems(1) t by (simp add: release_edge_def)
  have "\<forall>j < length ?inc. length (filter (\<lambda>e. edge_tgt nodes e = j) es) \<le> ?inc ! j"
  proof (intro allI impI)
    fix j assume "j < length ?inc"
    then show "length (filter (\<lambda>e. edge_tgt nodes e = j) es) \<le> ?inc ! j"
      using Cons.prems(3) t by (cases "j = ?t") (force simp: nth_list_update)+
  qed
  then obtain inc' where inc': "foldR (release_edge nodes) es ?inc = Inr inc'"
      "length inc' = length ?inc"
      "\<forall>j < length ?inc. inc' ! j = ?inc ! j - length (filter (\<lambda>e. edge_tgt nodes e = j) es)"
    using Cons.IH [of ?inc] Cons.prems(1,2) by auto
  then show ?case
    using step t by (auto simp: nth_list_update)
qed simp

section \<open>The cycle search\<close>

text \<open>
  The invariant of the search: \<open>incoming\<close> counts, per card, the connections whose source was
  not taken yet.
\<close>

definition kahn_inv :: "jvalue list \<Rightarrow> jvalue list \<Rightarrow> bool list \<Rightarrow> nat list \<Rightarrow> bool" where
  "kahn_inv nodes edges seen inc \<longleftrightarrow>
     length seen = MAX_NODES \<and> length inc = MAX_NODES
     \<and> (\<forall>j < length nodes. inc ! j =
          length (filter (\<lambda>e. edge_tgt nodes e = j \<and> \<not> seen ! edge_src nodes e) edges))"

lemma filter_src_conv:
  assumes "graph_ok nodes edges" and "i < length nodes"
  shows "filter (\<lambda>e. j_text e ''from'' = j_text (nodes ! i) ''id'') edges
       = filter (\<lambda>e. edge_src nodes e = i) edges"
proof (rule filter_cong [OF refl])
  fix e assume e: "e \<in> set edges"
  have d: "distinct (map (\<lambda>n. j_text n ''id'') nodes)"
    using assms(1) by (simp add: graph_ok_def)
  show "j_text e ''from'' = j_text (nodes ! i) ''id'' \<longleftrightarrow> edge_src nodes e = i"
    using graph_okD [OF assms(1) e] node_index_unique [OF d assms(2)]
    by (metis edge_src_def sum.simps(6))
qed

lemma count_split:
  "length (filter (\<lambda>x. P x \<and> \<not> Q x) xs) + length (filter (\<lambda>x. P x \<and> Q x) xs)
     = length (filter P xs)"
  by (induction xs) auto

lemma kahn_step_found:
  assumes ok: "graph_ok nodes edges" and inv: "kahn_inv nodes edges seen inc"
    and found: "find (\<lambda>i. inc ! i = 0 \<and> \<not> seen ! i) [0..<length nodes] = Some index"
  shows "\<exists>inc'. kahn_step nodes edges (seen, inc) = Inr (seen[index := True], inc')
               \<and> kahn_inv nodes edges (seen[index := True]) inc'"
proof -
  let ?es = "filter (\<lambda>e. edge_src nodes e = index) edges"
  let ?cnt = "\<lambda>j. length (filter (\<lambda>e. edge_tgt nodes e = j) ?es)"
  have index: "index < length nodes" "inc ! index = 0" "\<not> seen ! index"
    using find_Some_set [OF found] by auto
  have len: "length nodes \<le> MAX_NODES"
    using ok by (simp add: graph_ok_def)
  have le: "?cnt j \<le> inc ! j" if "j < length inc" for j
  proof (cases "j < length nodes")
    case True
    have "filter (\<lambda>e. edge_tgt nodes e = j \<and> edge_src nodes e = index) edges
        = filter (\<lambda>e. edge_src nodes e = index)
            (filter (\<lambda>e. edge_tgt nodes e = j \<and> \<not> seen ! edge_src nodes e) edges)"
      using index(3) by (auto intro: filter_cong)
    then have "length (filter (\<lambda>e. edge_tgt nodes e = j \<and> edge_src nodes e = index) edges)
        \<le> length (filter (\<lambda>e. edge_tgt nodes e = j \<and> \<not> seen ! edge_src nodes e) edges)"
      by (metis length_filter_le)
    then show ?thesis
      using inv True by (simp add: kahn_inv_def conj_commute)
  next
    case False
    then have "?cnt j = 0"
      using graph_okD(2) [OF ok] by (force simp: filter_empty_conv)
    then show ?thesis by simp
  qed
  obtain inc' where inc': "foldR (release_edge nodes) ?es inc = Inr inc'"
      "length inc' = length inc" "\<forall>j < length inc. inc' ! j = inc ! j - ?cnt j"
    using release_edges [of ?es nodes inc] le ok inv len
    by (auto simp: graph_ok_def kahn_inv_def)
  have new: "inc' ! j = length (filter (\<lambda>e. edge_tgt nodes e = j
      \<and> \<not> seen[index := True] ! edge_src nodes e) edges)" if j: "j < length nodes" for j
  proof -
    let ?P = "\<lambda>e. edge_tgt nodes e = j \<and> \<not> seen ! edge_src nodes e"
    have lenS: "index < length seen"
      using index(1) len inv by (simp add: kahn_inv_def)
    have src: "edge_src nodes e < length seen" if "e \<in> set edges" for e
      using graph_okD(1) [OF ok that] len inv by (simp add: kahn_inv_def)
    have "filter (\<lambda>e. edge_tgt nodes e = j \<and> \<not> seen[index := True] ! edge_src nodes e) edges
        = filter (\<lambda>e. ?P e \<and> \<not> edge_src nodes e = index) edges"
      using src lenS by (intro filter_cong) (auto simp: nth_list_update)
    moreover have "?cnt j = length (filter (\<lambda>e. ?P e \<and> edge_src nodes e = index) edges)"
      using index(3) by (auto intro!: arg_cong [of _ _ length] filter_cong)
    moreover have "inc ! j = length (filter ?P edges)" and "j < length inc"
      using inv j len by (auto simp: kahn_inv_def)
    ultimately show ?thesis
      using inc'(3) count_split [of ?P "\<lambda>e. edge_src nodes e = index" edges] by simp
  qed
  have "kahn_step nodes edges (seen, inc) = Inr (seen[index := True], inc')"
    using found inc'(1) by (simp add: kahn_step_def filter_src_conv [OF ok index(1)])
  moreover have "kahn_inv nodes edges (seen[index := True]) inc'"
    using new inv inc'(2) by (simp add: kahn_inv_def)
  ultimately show ?thesis by blast
qed

lemma kahn_step_InrD:
  assumes "graph_ok nodes edges" and "kahn_inv nodes edges seen inc"
    and "kahn_step nodes edges (seen, inc) = Inr s"
  shows "\<exists>index inc'. find (\<lambda>i. inc ! i = 0 \<and> \<not> seen ! i) [0..<length nodes] = Some index
        \<and> s = (seen[index := True], inc') \<and> kahn_inv nodes edges (seen[index := True]) inc'"
proof (cases "find (\<lambda>i. inc ! i = 0 \<and> \<not> seen ! i) [0..<length nodes]")
  case None
  then show ?thesis using assms(3) by (simp add: kahn_step_def)
next
  case (Some index)
  then show ?thesis
    using kahn_step_found [OF assms(1,2) Some] assms(3) by auto
qed

lemma inc_zero_iff:
  assumes "graph_ok nodes edges" and "kahn_inv nodes edges seen inc" and "j < length nodes"
  shows "inc ! j = 0 \<longleftrightarrow> (\<forall>f. (f, j) \<in> flow_graph nodes edges \<longrightarrow> seen ! f)"
  using assms by (auto simp: kahn_inv_def flow_graph_conv filter_empty_conv)

text \<open>Every step takes one more card, and never one on a cycle.\<close>

lemma kahn_loop_sound:
  assumes ok: "graph_ok nodes edges" and "kahn_inv nodes edges seen inc"
    and "kahn_loop k nodes edges (seen, inc) = Inr (seen', inc')"
    and "\<forall>x < length nodes. seen ! x \<longrightarrow> (x, x) \<notin> (flow_graph nodes edges)\<^sup>+"
  shows "(\<forall>x < length nodes. seen' ! x \<longrightarrow> (x, x) \<notin> (flow_graph nodes edges)\<^sup>+)
       \<and> card {i. i < length nodes \<and> seen' ! i} = card {i. i < length nodes \<and> seen ! i} + k"
  using assms(2-)
proof (induction k arbitrary: seen inc)
  case (Suc k)
  let ?G = "flow_graph nodes edges"
  obtain index inc1 where
      find: "find (\<lambda>i. inc ! i = 0 \<and> \<not> seen ! i) [0..<length nodes] = Some index"
    and inv1: "kahn_inv nodes edges (seen[index := True]) inc1"
    and loop: "kahn_loop k nodes edges (seen[index := True], inc1) = Inr (seen', inc')"
    using Suc.prems(2) kahn_step_InrD [OF ok Suc.prems(1)] by (force simp: result_iff)
  have index: "index < length nodes" "inc ! index = 0" "\<not> seen ! index"
    using find_Some_set [OF find] by auto
  have lenS: "index < length seen"
    using index(1) ok Suc.prems(1) by (auto simp: graph_ok_def kahn_inv_def)
  have pred: "seen ! f" if "(f, index) \<in> ?G" for f
    using inc_zero_iff [OF ok Suc.prems(1) index(1)] index(2) that by blast
  have "(index, index) \<notin> ?G\<^sup>+"
  proof
    assume "(index, index) \<in> ?G\<^sup>+"
    then obtain f where f: "(f, index) \<in> ?G" "(index, f) \<in> ?G\<^sup>*"
      by (meson tranclD2)
    then have "(f, f) \<in> ?G\<^sup>+"
      by (meson r_into_trancl rtrancl_trancl_trancl trancl_rtrancl_trancl)
    then show False
      using pred [OF f(1)] Suc.prems(3) flow_graph_bounded [OF f(1)] by blast
  qed
  then have step: "\<forall>x < length nodes. seen[index := True] ! x \<longrightarrow> (x, x) \<notin> ?G\<^sup>+"
    using Suc.prems(3) lenS by (auto simp: nth_list_update)
  have "{i. i < length nodes \<and> seen[index := True] ! i}
      = insert index {i. i < length nodes \<and> seen ! i}"
    using index lenS by (auto simp: nth_list_update)
  then have "card {i. i < length nodes \<and> seen[index := True] ! i}
      = Suc (card {i. i < length nodes \<and> seen ! i})"
    using index by simp
  then show ?case
    using Suc.IH [OF inv1 loop step] by simp
qed simp

text \<open>On an acyclic graph some untaken card has all its predecessors taken.\<close>

lemma kahn_loop_complete:
  assumes ok: "graph_ok nodes edges" and acyc: "acyclic (flow_graph nodes edges)"
    and "kahn_inv nodes edges seen inc"
    and "card {i. i < length nodes \<and> seen ! i} + k \<le> length nodes"
  shows "\<exists>s. kahn_loop k nodes edges (seen, inc) = Inr s"
  using assms(3-)
proof (induction k arbitrary: seen inc)
  case (Suc k)
  let ?G = "flow_graph nodes edges"
  let ?U = "{i. i < length nodes \<and> \<not> seen ! i}"
  have "card {i. i < length nodes \<and> seen ! i} < card {..<length nodes}"
    using Suc.prems(2) by simp
  then have "?U \<noteq> {}"
    by (metis (mono_tags, lifting) empty_Collect_eq lessThan_def less_irrefl Collect_cong)
  moreover have "wf ?G"
    using acyc finite_flow_graph finite_acyclic_wf by blast
  ultimately obtain m where m: "m \<in> ?U" "\<And>f. (f, m) \<in> ?G \<Longrightarrow> f \<notin> ?U"
    by (meson all_not_in_conv wfE_min)
  then have "inc ! m = 0"
    using inc_zero_iff [OF ok Suc.prems(1)] flow_graph_bounded by blast
  then obtain index where find:
      "find (\<lambda>i. inc ! i = 0 \<and> \<not> seen ! i) [0..<length nodes] = Some index"
    using m(1) by (cases "find (\<lambda>i. inc ! i = 0 \<and> \<not> seen ! i) [0..<length nodes]")
      (auto simp: find_None_iff)
  then have index: "index < length nodes" "\<not> seen ! index"
    using find_Some_set by fastforce+
  obtain inc1 where step: "kahn_step nodes edges (seen, inc) = Inr (seen[index := True], inc1)"
      "kahn_inv nodes edges (seen[index := True]) inc1"
    using kahn_step_found [OF ok Suc.prems(1) find] by blast
  have "index < length seen"
    using index(1) ok Suc.prems(1) by (auto simp: graph_ok_def kahn_inv_def)
  then have "{i. i < length nodes \<and> seen[index := True] ! i}
      = insert index {i. i < length nodes \<and> seen ! i}"
    using index by (auto simp: nth_list_update)
  then have "card {i. i < length nodes \<and> seen[index := True] ! i} + k \<le> length nodes"
    using index Suc.prems(2) by simp
  then obtain s where "kahn_loop k nodes edges (seen[index := True], inc1) = Inr s"
    using Suc.IH [OF step(2)] by blast
  then show ?case using step(1) by simp
qed simp

lemma kahn_loop_acyclic_iff:
  assumes ok: "graph_ok nodes edges"
    and inv: "kahn_inv nodes edges (replicate MAX_NODES False) inc"
  shows "(\<exists>s. kahn_loop (length nodes) nodes edges (replicate MAX_NODES False, inc) = Inr s)
     \<longleftrightarrow> acyclic (flow_graph nodes edges)"
proof
  have len: "length nodes \<le> MAX_NODES"
    using ok by (simp add: graph_ok_def)
  then have none: "{i. i < length nodes \<and> replicate MAX_NODES False ! i} = {}"
    by auto
  assume "acyclic (flow_graph nodes edges)"
  then show "\<exists>s. kahn_loop (length nodes) nodes edges (replicate MAX_NODES False, inc) = Inr s"
    using kahn_loop_complete [OF ok _ inv, of "length nodes"] by (simp only: none card.empty)
next
  assume "\<exists>s. kahn_loop (length nodes) nodes edges (replicate MAX_NODES False, inc) = Inr s"
  then obtain seen' inc' where
      run: "kahn_loop (length nodes) nodes edges (replicate MAX_NODES False, inc) = Inr (seen', inc')"
    by auto
  have len: "length nodes \<le> MAX_NODES"
    using ok by (simp add: graph_ok_def)
  have none: "{i. i < length nodes \<and> replicate MAX_NODES False ! i} = {}"
    using len by auto
  have fin: "\<forall>x < length nodes. seen' ! x \<longrightarrow> (x, x) \<notin> (flow_graph nodes edges)\<^sup>+"
      "card {i. i < length nodes \<and> seen' ! i} = length nodes"
    using kahn_loop_sound [OF ok inv run] len by (auto simp: none)
  have "{i. i < length nodes \<and> seen' ! i} = {..<length nodes}"
    using fin(2) by (intro card_subset_eq) auto
  then have "(x, x) \<notin> (flow_graph nodes edges)\<^sup>+" if "x < length nodes" for x
    using fin(1) that by auto
  moreover have "x < length nodes" if "(x, x) \<in> (flow_graph nodes edges)\<^sup>+" for x
    using that flow_graph_bounded by (metis tranclD)
  ultimately show "acyclic (flow_graph nodes edges)"
    by (auto simp: acyclic_def)
qed

section \<open>Validation accepts exactly the bounded acyclic canvases\<close>

lemma edge_ok_graph_ok:
  assumes "length nodes \<le> MAX_NODES" and "distinct (map (\<lambda>n. j_text n ''id'') nodes)"
    and "\<forall>i < length edges. edge_ok nodes edges i"
  shows "graph_ok nodes edges"
proof -
  have "node_index nodes (j_text e ''from'') = Inr (edge_src nodes e)
      \<and> node_index nodes (j_text e ''to'') = Inr (edge_tgt nodes e)" if "e \<in> set edges" for e
    using assms(3) that by (auto simp: in_set_conv_nth edge_ok_def edge_src_def edge_tgt_def)
  then show ?thesis
    using assms(1,2) by (simp add: graph_ok_def)
qed

lemma edges_ok_iff:
  "(\<forall>i < length edges. edge_ok nodes edges i) \<longleftrightarrow>
     (\<forall>e \<in> set edges. \<exists>f t. node_index nodes (j_text e ''from'') = Inr f
        \<and> node_index nodes (j_text e ''to'') = Inr t \<and> f \<noteq> t \<and> flow_kind (nodes ! t) \<noteq> ''trigger'')
     \<and> distinct (map (\<lambda>e. (j_text e ''from'', j_text e ''to'')) edges)"
proof -
  have "any_earlier same_edge edges = any_earlier
      (\<lambda>a b. (j_text a ''from'', j_text a ''to'') = (j_text b ''from'', j_text b ''to'')) edges"
    by (simp add: same_edge_def any_earlier_def fun_eq_iff)
  then show ?thesis
    using any_earlier_distinct_map [of edges "\<lambda>e. (j_text e ''from'', j_text e ''to'')"]
    by (auto simp: edge_ok_def all_set_conv_all_nth)
qed

lemma kahn_inv_start:
  assumes ok: "graph_ok nodes edges"
    and run: "foldR (check_edge nodes edges) [0..<length edges] (replicate MAX_NODES 0) = Inr inc"
  shows "kahn_inv nodes edges (replicate MAX_NODES False) inc"
proof -
  have len: "length nodes \<le> MAX_NODES"
    using ok by (simp add: graph_ok_def)
  then have cnt: "length inc = MAX_NODES" "\<forall>j < MAX_NODES. inc ! j =
      length (filter (\<lambda>i. edge_tgt nodes (edges ! i) = j) [0..<length edges])"
    using check_edges_count [OF _ run] by auto
  have src: "edge_src nodes e < MAX_NODES" if "e \<in> set edges" for e
    using graph_okD(1) [OF ok that] len by simp
  have "filter (\<lambda>e. edge_tgt nodes e = j \<and> \<not> replicate MAX_NODES False ! edge_src nodes e) edges
      = filter (\<lambda>e. edge_tgt nodes e = j) edges" for j
    using src by (intro filter_cong) simp_all
  then show ?thesis
    using cnt len count_upt [of "\<lambda>e. edge_tgt nodes e = j" edges for j]
    by (simp add: kahn_inv_def)
qed

lemma cycle_search_iff:
  assumes "graph_ok nodes edges" and "\<forall>i < length edges. edge_ok nodes edges i"
  shows "bindR (foldR (check_edge nodes edges) [0..<length edges] (replicate MAX_NODES 0))
      (\<lambda>inc. bindR (kahn_loop (length nodes) nodes edges (replicate MAX_NODES False, inc))
         (\<lambda>_. Inr ())) = Inr ()
     \<longleftrightarrow> acyclic (flow_graph nodes edges)"
proof -
  have len: "length nodes \<le> MAX_NODES"
    using assms(1) by (simp add: graph_ok_def)
  obtain inc where
      run: "foldR (check_edge nodes edges) [0..<length edges] (replicate MAX_NODES 0) = Inr inc"
    using check_edges_iff [of nodes "replicate MAX_NODES 0" edges "[0..<length edges]"] assms(2) len
    by auto
  show ?thesis
    using kahn_loop_acyclic_iff [OF assms(1) kahn_inv_start [OF assms(1) run]]
    by (simp add: run bindR_Inr_iff del: split_paired_Ex)
qed

text \<open>C20: \<open>flow::validate\<close> accepts a canvas exactly when its trimmed name has 1 to 160 bytes, it has
  at most 128 cards and 256 connections, every card is valid and the card ids are distinct, every
  connection joins two different existing cards and does not enter a trigger, no connection occurs
  twice, and the connections form an acyclic graph: the index-array cycle search is sound and
  complete.\<close>

theorem flow_validate_iff:
  "flow_validate flow = Inr () \<longleftrightarrow>
     trim (j_text flow ''name'') \<noteq> [] \<and> length (trim (j_text flow ''name'')) \<le> 160
     \<and> length (j_array flow ''nodes'') \<le> 128 \<and> length (j_array flow ''edges'') \<le> 256
     \<and> (\<forall>n \<in> set (j_array flow ''nodes''). validate_node n = Inr ())
     \<and> distinct (map (\<lambda>n. j_text n ''id'') (j_array flow ''nodes''))
     \<and> (\<forall>e \<in> set (j_array flow ''edges''). \<exists>f t.
          node_index (j_array flow ''nodes'') (j_text e ''from'') = Inr f
          \<and> node_index (j_array flow ''nodes'') (j_text e ''to'') = Inr t
          \<and> f \<noteq> t \<and> flow_kind (j_array flow ''nodes'' ! t) \<noteq> ''trigger'')
     \<and> distinct (map (\<lambda>e. (j_text e ''from'', j_text e ''to'')) (j_array flow ''edges''))
     \<and> acyclic (flow_graph (j_array flow ''nodes'') (j_array flow ''edges''))"
proof -
  define nodes edges where ne: "nodes = j_array flow ''nodes''" "edges = j_array flow ''edges''"
  let ?small = "trim (j_text flow ''name'') \<noteq> [] \<and> length (trim (j_text flow ''name'')) \<le> 160
     \<and> length nodes \<le> MAX_NODES \<and> length edges \<le> MAX_EDGES"
  let ?search = "bindR (foldR (check_edge nodes edges) [0..<length edges] (replicate MAX_NODES 0))
      (\<lambda>inc. bindR (kahn_loop (length nodes) nodes edges (replicate MAX_NODES False, inc))
         (\<lambda>_. Inr ()))"
  have "flow_validate flow = Inr () \<longleftrightarrow> ?small
      \<and> foldR (check_node nodes) [0..<length nodes] () = Inr () \<and> ?search = Inr ()"
    by (auto simp: flow_validate_def Let_def ne bindR_Inr_iff not_less)
  also have "\<dots> \<longleftrightarrow> ?small \<and> foldR (check_node nodes) [0..<length nodes] () = Inr ()
      \<and> (\<forall>i < length edges. edge_ok nodes edges i) \<and> acyclic (flow_graph nodes edges)"
  proof (intro conj_cong refl)
    assume small: ?small and nodes_ok: "foldR (check_node nodes) [0..<length nodes] () = Inr ()"
    show "?search = Inr () \<longleftrightarrow>
        (\<forall>i < length edges. edge_ok nodes edges i) \<and> acyclic (flow_graph nodes edges)"
    proof (cases "\<forall>i < length edges. edge_ok nodes edges i")
      case True
      then show ?thesis
        using cycle_search_iff [of nodes edges] edge_ok_graph_ok [of nodes edges] small nodes_ok
        by (simp add: check_nodes_iff)
    next
      case False
      then have "\<not> (\<exists>inc. foldR (check_edge nodes edges) [0..<length edges] (replicate MAX_NODES 0)
          = Inr inc)"
        using check_edges_iff [of nodes "replicate MAX_NODES 0" edges "[0..<length edges]"] small
        by auto
      then show ?thesis
        using False by (auto simp: bindR_Inr_iff)
    qed
  qed
  finally show ?thesis
    by (simp add: check_nodes_iff edges_ok_iff ne MAX_NODES_def MAX_EDGES_def conj_assoc)
qed

text \<open>Two cards, a trigger wired to an action.\<close>

definition example_flow :: "jvalue" where
  "example_flow = Object
     [(''name'', String ''Evening''),
      (''nodes'', Array
        [Object [(''id'', String ''t''), (''step'', Object [(''cardType'', String ''trigger''),
            (''appId'', String ''stulp''), (''cardId'', String ''sunset'')])],
         Object [(''id'', String ''a''), (''step'', Object [(''cardType'', String ''action''),
            (''appId'', String ''stulp''), (''cardId'', String ''notify'')])]]),
      (''edges'', Array [Object [(''from'', String ''t''), (''to'', String ''a'')]])]"

theorem flow_validate_iff_witness:
  "flow_validate example_flow = Inr ()
   \<and> acyclic (flow_graph (j_array example_flow ''nodes'') (j_array example_flow ''edges''))"
proof -
  have "flow_validate example_flow = Inr ()"
    by code_simp
  then show ?thesis
    using flow_validate_iff [of example_flow] by blast
qed


section \<open>Reachability\<close>

text \<open>The cards marked by a bit array, and what one round of relaxation does to them.\<close>

definition marked :: "bool list \<Rightarrow> nat set" where
  "marked r = {i. i < length r \<and> r ! i}"

lemma marked_update: "i < length r \<Longrightarrow> marked (r[i := True]) = insert i (marked r)"
  by (auto simp: marked_def nth_list_update)

lemma marked_inject: "length r = length r' \<Longrightarrow> marked r = marked r' \<longleftrightarrow> r = r'"
  by (auto simp: marked_def list_eq_iff_nth_eq set_eq_iff)

lemma length_relax_edge [simp]: "length (relax_edge nodes r e) = length r"
  by (auto simp: relax_edge_def split: sum.splits)

lemma length_relax_edges [simp]: "length (foldl (relax_edge nodes) r es) = length r"
  by (induction es arbitrary: r) auto

lemma relax_edge_mono: "marked r \<subseteq> marked (relax_edge nodes r e)"
  by (auto simp: relax_edge_def marked_update split: sum.splits)

lemma relax_edges_mono: "marked r \<subseteq> marked (foldl (relax_edge nodes) r es)"
proof (induction es arbitrary: r)
  case (Cons e es)
  then show ?case using relax_edge_mono [of r nodes e] by fastforce
qed simp

lemma relax_edge_sound:
  assumes "e \<in> set edges"
  shows "marked (relax_edge nodes r e) \<subseteq> (flow_graph nodes edges)\<^sup>* `` marked r"
proof -
  show ?thesis
  proof (cases "\<exists>f t. node_index nodes (j_text e ''from'') = Inr f
      \<and> node_index nodes (j_text e ''to'') = Inr t \<and> f \<in> marked r \<and> t < length r")
    case True
    then obtain f t where "node_index nodes (j_text e ''from'') = Inr f"
        "node_index nodes (j_text e ''to'') = Inr t" "f \<in> marked r" "t < length r"
      by blast
    moreover from this have "relax_edge nodes r e = r[t := True]"
      by (simp add: relax_edge_def marked_def)
    ultimately have "marked (relax_edge nodes r e) = insert t (marked r)"
        "(f, t) \<in> flow_graph nodes edges"
      using assms by (auto simp: marked_update flow_graph_def)
    then show ?thesis using \<open>f \<in> marked r\<close> by auto
  next
    case False
    then have "relax_edge nodes r e = r"
      by (auto simp: relax_edge_def marked_def split: sum.splits)
    then show ?thesis by auto
  qed
qed

lemma reach_bounded: "S \<subseteq> {..<length nodes} \<Longrightarrow> (flow_graph nodes edges)\<^sup>* `` S \<subseteq> {..<length nodes}"
proof -
  have "flow_graph nodes edges `` {..<length nodes} \<subseteq> {..<length nodes}"
    using flow_graph_bounded by auto
  then have "(flow_graph nodes edges)\<^sup>* `` {..<length nodes} = {..<length nodes}"
    by (rule Image_closed_trancl)
  then show "S \<subseteq> {..<length nodes} \<Longrightarrow> (flow_graph nodes edges)\<^sup>* `` S \<subseteq> {..<length nodes}"
    by blast
qed

lemma reach_idem: "R\<^sup>* `` (R\<^sup>* `` S) = R\<^sup>* `` S"
  by (auto intro: rtrancl_trans)

lemma relax_edges_sound:
  "set es \<subseteq> set edges \<Longrightarrow>
     marked (foldl (relax_edge nodes) r es) \<subseteq> (flow_graph nodes edges)\<^sup>* `` marked r"
proof (induction es arbitrary: r)
  case (Cons e es)
  have one: "marked (relax_edge nodes r e) \<subseteq> (flow_graph nodes edges)\<^sup>* `` marked r"
    using relax_edge_sound Cons.prems by simp
  have "marked (foldl (relax_edge nodes) (relax_edge nodes r e) es)
      \<subseteq> (flow_graph nodes edges)\<^sup>* `` marked (relax_edge nodes r e)"
    using Cons by simp
  also have "\<dots> \<subseteq> (flow_graph nodes edges)\<^sup>* `` ((flow_graph nodes edges)\<^sup>* `` marked r)"
    using one by blast
  also have "\<dots> = (flow_graph nodes edges)\<^sup>* `` marked r"
    by (rule reach_idem)
  finally show ?case by simp
qed auto

lemma relax_edges_covers:
  assumes "length nodes \<le> length r" and "e \<in> set es"
    and "node_index nodes (j_text e ''from'') = Inr f" and "node_index nodes (j_text e ''to'') = Inr t"
    and "f \<in> marked r"
  shows "t \<in> marked (foldl (relax_edge nodes) r es)"
  using assms
proof (induction es arbitrary: r)
  case (Cons d es)
  show ?case
  proof (cases "d = e")
    case True
    have "t \<in> marked (relax_edge nodes r e)"
      using Cons.prems node_index_SomeD [OF Cons.prems(4)]
      by (auto simp: relax_edge_def marked_def)
    then show ?thesis
      using True relax_edges_mono [of "relax_edge nodes r e" nodes es] by auto
  next
    case False
    then show ?thesis
      using Cons relax_edge_mono [of r nodes d] by auto
  qed
qed simp

text \<open>A round either adds a card or the marked cards are already closed under connections.\<close>

lemma relax_round_closed:
  assumes "length nodes \<le> length r"
    and "marked (foldl (relax_edge nodes) r edges) = marked r"
  shows "(flow_graph nodes edges)\<^sup>* `` marked r = marked r"
proof -
  have "t \<in> marked r" if "f \<in> marked r" "(f, t) \<in> flow_graph nodes edges" for f t
    using relax_edges_covers [OF assms(1) _ _ _ that(1)] that(2) assms(2)
    by (auto simp: flow_graph_def)
  then have "flow_graph nodes edges `` marked r \<subseteq> marked r"
    by auto
  then show ?thesis
    by (rule Image_closed_trancl)
qed

lemma relax_rounds_reach:
  assumes "length nodes \<le> length r" and "marked r \<subseteq> {..<length nodes}"
    and "length nodes \<le> card (marked r) + k"
  shows "marked (relax_rounds k nodes edges r) = (flow_graph nodes edges)\<^sup>* `` marked r"
  using assms
proof (induction k arbitrary: r)
  case 0
  then have "marked r = {..<length nodes}"
    by (intro card_subset_eq) (auto dest: card_mono [rotated])
  moreover have "(flow_graph nodes edges)\<^sup>* `` {..<length nodes} \<subseteq> {..<length nodes}"
    by (rule reach_bounded) simp
  ultimately show ?case by auto
next
  case (Suc k)
  let ?r = "foldl (relax_edge nodes) r edges"
  let ?G = "flow_graph nodes edges"
  have sub: "marked ?r \<subseteq> ?G\<^sup>* `` marked r"
    using relax_edges_sound by simp
  have "?G\<^sup>* `` marked r \<subseteq> {..<length nodes}"
    using Suc.prems(2) by (rule reach_bounded)
  then have bnd: "marked ?r \<subseteq> {..<length nodes}"
    using sub by blast
  have eq: "?G\<^sup>* `` marked ?r = ?G\<^sup>* `` marked r"
  proof
    show "?G\<^sup>* `` marked ?r \<subseteq> ?G\<^sup>* `` marked r"
      using sub reach_idem [of ?G "marked r"] by blast
    show "?G\<^sup>* `` marked r \<subseteq> ?G\<^sup>* `` marked ?r"
      using relax_edges_mono [of r nodes edges] by blast
  qed
  show ?case
  proof (cases "marked ?r = marked r")
    case True
    then have "?r = r"
      using marked_inject [of ?r r] by simp
    then have "relax_rounds j nodes edges r = r" for j
      by (induction j) auto
    then show ?thesis
      using relax_round_closed [OF Suc.prems(1) True] by simp
  next
    case False
    then have "marked r \<subset> marked ?r"
      using relax_edges_mono by blast
    then have "card (marked r) < card (marked ?r)"
      by (intro psubset_card_mono) (simp add: marked_def)
    then have "marked (relax_rounds k nodes edges ?r) = ?G\<^sup>* `` marked ?r"
      using Suc.prems bnd by (intro Suc.IH) auto
    then show ?thesis using eq by simp
  qed
qed

text \<open>\<open>flow::runnable\<close> answers yes exactly when the canvas has at most 128 cards and some action
  card can be reached from some trigger card along connections; the fixed number of relaxation
  rounds (one per card) is enough whatever the order of the connections.\<close>

theorem runnable_iff_reachable:
  "fst (runnable flow) \<longleftrightarrow> length (j_array flow ''nodes'') \<le> 128
     \<and> (\<exists>t a. t < length (j_array flow ''nodes'') \<and> a < length (j_array flow ''nodes'')
          \<and> flow_kind (j_array flow ''nodes'' ! t) = ''trigger''
          \<and> flow_kind (j_array flow ''nodes'' ! a) = ''action''
          \<and> (t, a) \<in> (flow_graph (j_array flow ''nodes'') (j_array flow ''edges''))\<^sup>*)"
proof -
  define nodes edges where ne: "nodes = j_array flow ''nodes''" "edges = j_array flow ''edges''"
  define start where "start = map (\<lambda>n. flow_kind n = ''trigger'') nodes
      @ replicate (MAX_NODES - length nodes) False"
  have m: "marked start = {i. i < length nodes \<and> flow_kind (nodes ! i) = ''trigger''}"
    by (auto simp: marked_def start_def nth_append split: if_splits)
      (metis add_diff_cancel_left' add_less_cancel_left le_add_diff_inverse linorder_not_less nth_replicate)
  show ?thesis
  proof (cases "length nodes \<le> MAX_NODES")
    case True
    have r: "marked (relax_rounds (length nodes) nodes edges start)
        = (flow_graph nodes edges)\<^sup>* `` marked start"
      by (rule relax_rounds_reach) (use m in \<open>auto simp: start_def\<close>)
    have len: "length (relax_rounds k nodes edges r) = length r" for k r
      by (induction k arbitrary: r) auto
    have bit: "relax_rounds (length nodes) nodes edges start ! a \<longleftrightarrow>
        (\<exists>t < length nodes. flow_kind (nodes ! t) = ''trigger'' \<and> (t, a) \<in> (flow_graph nodes edges)\<^sup>*)"
      if a: "a < length nodes" for a
    proof -
      have "relax_rounds (length nodes) nodes edges start ! a \<longleftrightarrow>
          a \<in> marked (relax_rounds (length nodes) nodes edges start)"
        using a True len by (simp add: marked_def start_def)
      then show ?thesis unfolding r m by auto
    qed
    let ?reach = "relax_rounds (length nodes) nodes edges start"
    have "fst (runnable flow) \<longleftrightarrow> (\<exists>n \<in> set nodes. flow_kind n = ''trigger'')
        \<and> (\<exists>n \<in> set nodes. flow_kind n = ''action'')
        \<and> (\<exists>a < length nodes. flow_kind (nodes ! a) = ''action'' \<and> ?reach ! a)"
      using True unfolding runnable_def Let_def ne [symmetric] start_def [symmetric]
      by (simp add: list_ex_iff Bex_def)
    also have "\<dots> \<longleftrightarrow> (\<exists>a < length nodes. flow_kind (nodes ! a) = ''action'' \<and> ?reach ! a)"
      using bit nth_mem by blast
    finally show ?thesis
      using True bit unfolding ne [symmetric] MAX_NODES_def by blast
  next
    case False
    then show ?thesis
      by (simp add: runnable_def Let_def ne MAX_NODES_def)
  qed
qed

end
