(* ===== verification/FlowExec.thy ===== *)
theory FlowExec
  imports Flow
begin

text \<open>
  \<open>Execution\<close> of \<^verbatim>\<open>crates/core/src/flow.rs\<close>: the plan of one Flow run. It owns fixed index
  arrays only; the caller asks for the next card, runs its callback and reports the outcome. The
  trace relation \<open>exec_trace\<close> covers every sequence of callbacks and outcomes.
\<close>

section \<open>Execution\<close>

record execution =
  pending :: "nat list"
  head :: nat
  tail :: nat
  visited :: "bool list"
  waiting :: "nat option"

definition exec_empty :: execution where
  "exec_empty = \<lparr>pending = replicate MAX_NODES 0, head = 0, tail = 0,
     visited = replicate MAX_NODES False, waiting = None\<rparr>"

text \<open>The loop body of \<open>complete\<close>: queue a successor that was not visited yet.\<close>

definition exec_enqueue :: "jvalue list \<Rightarrow> jvalue \<Rightarrow> execution \<Rightarrow> unit result \<times> execution" where
  "exec_enqueue nodes edge x =
     (case node_index nodes (j_text edge ''to'') of
        Inl e \<Rightarrow> (Inl e, x)
      | Inr to \<Rightarrow>
          if to < length (visited x) \<and> \<not> visited x ! to
          then if tail x < length (pending x)
               then (Inr (), x\<lparr>pending := (pending x)[tail x := to], tail := tail x + 1,
                                visited := (visited x)[to := True]\<rparr>)
               else (Inl Full, x)
          else (Inr (), x))"

definition exec_complete :: "execution \<Rightarrow> jvalue \<Rightarrow> bool \<Rightarrow> unit result \<times> execution" where
  "exec_complete x0 flow passed =
     (case waiting x0 of
        None \<Rightarrow> (Inl (Conflict ''no flow callback pending''), x0)
      | Some index \<Rightarrow>
          let x = x0\<lparr>waiting := None\<rparr> in
          if length (visited x) \<le> index then (Inl Full, x)
          else
            let x = x\<lparr>visited := (visited x)[index := True]\<rparr>;
                nodes = j_array flow ''nodes'' in
            if length nodes \<le> index then (Inl Changed, x)
            else
              let node = nodes ! index;
                  inverted = (case j_get node ''step'' of
                                None \<Rightarrow> False | Some s \<Rightarrow> j_boolean s ''inverted'') in
              if flow_kind node = ''condition'' \<and> passed = inverted then (Inr (), x)
              else foldS (exec_enqueue nodes)
                     (filter (\<lambda>e. j_text e ''from'' = j_text node ''id'') (j_array flow ''edges''))
                     x)"

definition exec_skip :: "execution \<Rightarrow> unit result \<times> execution" where
  "exec_skip x0 =
     (case waiting x0 of
        None \<Rightarrow> (Inl (Conflict ''no flow callback pending''), x0)
      | Some index \<Rightarrow>
          let x = x0\<lparr>waiting := None\<rparr> in
          if length (visited x) \<le> index then (Inl Full, x)
          else (Inr (), x\<lparr>visited := (visited x)[index := True]\<rparr>))"

definition exec_next :: "execution \<Rightarrow> jvalue \<Rightarrow> jvalue option result \<times> execution" where
  "exec_next x flow =
     (if waiting x \<noteq> None then (Inl (Conflict ''flow callback is still pending''), x)
      else if head x = tail x then (Inr None, x)
      else if length (pending x) \<le> head x then (Inl Full, x)
      else
        let index = pending x ! head x;
            x' = x\<lparr>head := head x + 1, waiting := Some index\<rparr>;
            nodes = j_array flow ''nodes'' in
        if length nodes \<le> index then (Inl Changed, x')
        else (Inr (Some (nodes ! index)), x'))"

definition start_trigger :: "jvalue \<Rightarrow> string \<Rightarrow> execution \<Rightarrow> execution result" where
  "start_trigger flow nid x =
     bindR (node_index (j_array flow ''nodes'') nid) (\<lambda>index.
       if flow_kind (j_array flow ''nodes'' ! index) \<noteq> ''trigger''
       then Inl (Invalid ''flow must start at a trigger'')
       else if index < length (visited x) \<and> visited x ! index then Inr x
       else (case exec_complete (x\<lparr>waiting := Some index\<rparr>) flow True of
               (Inl e, _) \<Rightarrow> Inl e
             | (Inr _, x') \<Rightarrow> Inr x'))"

definition start_many :: "jvalue \<Rightarrow> string list \<Rightarrow> execution result" where
  "start_many flow ids =
     bindR (flow_validate flow) (\<lambda>_. foldR (start_trigger flow) ids exec_empty)"

definition exec_start :: "jvalue \<Rightarrow> string \<Rightarrow> execution result" where
  "exec_start flow nid = start_many flow [nid]"


section \<open>The invariant of a plan\<close>

text \<open>
  \<open>queued\<close> is the filled part of the array. In a validated Flow started at the triggers \<open>T\<close> it
  holds distinct cards, none of them a trigger, all visited and all reachable from \<open>T\<close>.
\<close>

definition queued :: "execution \<Rightarrow> nat list" where
  "queued x = take (tail x) (pending x)"

definition exec_inv :: "jvalue list \<Rightarrow> jvalue list \<Rightarrow> nat set \<Rightarrow> execution \<Rightarrow> bool" where
  "exec_inv nodes edges T x \<longleftrightarrow>
     length (pending x) = MAX_NODES \<and> length (visited x) = MAX_NODES
     \<and> head x \<le> tail x \<and> tail x \<le> MAX_NODES \<and> distinct (queued x)
     \<and> (\<forall>i \<in> set (queued x). i < length nodes \<and> visited x ! i \<and> flow_kind (nodes ! i) \<noteq> ''trigger''
          \<and> i \<in> (flow_graph nodes edges)\<^sup>* `` T)"

text \<open>What a validated Flow gives the plan.\<close>

definition flow_ready :: "jvalue list \<Rightarrow> jvalue list \<Rightarrow> bool" where
  "flow_ready nodes edges \<longleftrightarrow> graph_ok nodes edges
     \<and> (\<forall>e \<in> set edges. flow_kind (nodes ! edge_tgt nodes e) \<noteq> ''trigger'')"

lemma flow_validate_ready:
  assumes "flow_validate flow = Inr ()"
  shows "flow_ready (j_array flow ''nodes'') (j_array flow ''edges'')"
proof -
  let ?nodes = "j_array flow ''nodes''" and ?edges = "j_array flow ''edges''"
  have run: "foldR (check_node ?nodes) [0..<length ?nodes] () = Inr ()"
      "length ?nodes \<le> MAX_NODES"
      "\<exists>inc. foldR (check_edge ?nodes ?edges) [0..<length ?edges] (replicate MAX_NODES 0) = Inr inc"
    using assms by (auto simp: flow_validate_def Let_def result_iff split: if_splits)
  then have ok: "\<forall>i < length ?edges. edge_ok ?nodes ?edges i"
    using check_edges_iff [of ?nodes "replicate MAX_NODES 0" ?edges "[0..<length ?edges]"] by auto
  then have "graph_ok ?nodes ?edges"
    using edge_ok_graph_ok run by (simp add: check_nodes_iff)
  moreover have "flow_kind (?nodes ! edge_tgt ?nodes e) \<noteq> ''trigger''" if "e \<in> set ?edges" for e
    using ok that by (auto simp: in_set_conv_nth edge_ok_def edge_tgt_def)
  ultimately show ?thesis by (simp add: flow_ready_def)
qed

lemma distinct_bounded_length: "distinct xs \<Longrightarrow> \<forall>x \<in> set xs. x < n \<Longrightarrow> length xs \<le> (n :: nat)"
  by (metis card_lessThan card_mono distinct_card finite_lessThan lessThan_iff subsetI)

lemma queued_length: "exec_inv nodes edges T x \<Longrightarrow> length (queued x) = tail x"
  by (simp add: exec_inv_def queued_def)

lemma exec_enqueue_ok:
  assumes inv: "exec_inv nodes edges T x" and ready: "flow_ready nodes edges"
    and e: "e \<in> set edges" and src: "edge_src nodes e \<in> (flow_graph nodes edges)\<^sup>* `` T"
  shows "\<exists>x'. exec_enqueue nodes e x = (Inr (), x') \<and> exec_inv nodes edges T x'
    \<and> head x' = head x \<and> waiting x' = waiting x \<and> (\<exists>q. queued x' = queued x @ q)"
proof -
  let ?t = "edge_tgt nodes e"
  have ok: "graph_ok nodes edges"
    using ready by (simp add: flow_ready_def)
  have idx: "node_index nodes (j_text e ''to'') = Inr ?t" "?t < length nodes"
      "length nodes \<le> MAX_NODES"
    using ok e graph_okD(2) [OF ok e] by (auto simp: graph_ok_def)
  have edge: "(edge_src nodes e, ?t) \<in> flow_graph nodes edges"
    using e by (auto simp: flow_graph_conv [OF ok])
  have len: "length (visited x) = MAX_NODES" "length (pending x) = MAX_NODES"
    using inv by (auto simp: exec_inv_def)
  show ?thesis
  proof (cases "visited x ! ?t")
    case True
    then show ?thesis
      using inv idx by (simp add: exec_enqueue_def)
  next
    case False
    then have fresh: "?t \<notin> set (queued x)"
      using inv by (auto simp: exec_inv_def)
    have "length (queued x @ [?t]) \<le> length nodes"
      using inv fresh idx(2) by (intro distinct_bounded_length) (auto simp: exec_inv_def)
    then have room: "tail x < MAX_NODES"
      using idx(3) queued_length [OF inv] by simp
    define x' where "x' = x\<lparr>pending := (pending x)[tail x := ?t], tail := tail x + 1,
        visited := (visited x)[?t := True]\<rparr>"
    have q: "queued x' = queued x @ [?t]"
      using room len by (simp add: x'_def queued_def take_Suc_conv_app_nth)
    have step: "exec_enqueue nodes e x = (Inr (), x')"
      using False idx room len by (simp add: exec_enqueue_def x'_def)
    have "?t \<in> (flow_graph nodes edges)\<^sup>* `` T"
      using src edge by (auto intro: rtrancl_into_rtrancl)
    then have "exec_inv nodes edges T x'"
      using inv q fresh idx room ready e
      by (auto simp: exec_inv_def x'_def flow_ready_def nth_list_update)
    then show ?thesis
      using step q by (auto simp: x'_def)
  qed
qed

lemma exec_enqueue_all:
  assumes "exec_inv nodes edges T x" and ready: "flow_ready nodes edges"
    and "set es \<subseteq> set edges" and "\<forall>e \<in> set es. edge_src nodes e \<in> (flow_graph nodes edges)\<^sup>* `` T"
  shows "\<exists>x'. foldS (exec_enqueue nodes) es x = (Inr (), x') \<and> exec_inv nodes edges T x'
    \<and> head x' = head x \<and> waiting x' = waiting x \<and> (\<exists>q. queued x' = queued x @ q)"
  using assms(1,3,4)
proof (induction es arbitrary: x)
  case (Cons e es)
  obtain y where y: "exec_enqueue nodes e x = (Inr (), y)" "exec_inv nodes edges T y"
      "head y = head x" "waiting y = waiting x" "\<exists>q. queued y = queued x @ q"
    using exec_enqueue_ok [OF Cons.prems(1) ready, of e] Cons.prems(2,3) by auto
  obtain z where "foldS (exec_enqueue nodes) es y = (Inr (), z)" "exec_inv nodes edges T z"
      "head z = head y" "waiting z = waiting y" "\<exists>q. queued z = queued y @ q"
    using Cons.IH [OF y(2)] Cons.prems(2,3) by auto
  then show ?case using y by auto
qed auto

text \<open>Reporting the outcome of the waiting card never fails and only extends the queue.\<close>

lemma exec_complete_ok:
  assumes inv: "exec_inv nodes edges T x" and ready: "flow_ready nodes edges"
    and ne: "nodes = j_array flow ''nodes''" "edges = j_array flow ''edges''"
    and w: "waiting x = Some i" "i < length nodes" "i \<in> (flow_graph nodes edges)\<^sup>* `` T"
  shows "\<exists>x'. exec_complete x flow passed = (Inr (), x') \<and> exec_inv nodes edges T x'
    \<and> head x' = head x \<and> waiting x' = None \<and> (\<exists>q. queued x' = queued x @ q)"
proof -
  let ?y = "x\<lparr>waiting := None, visited := (visited x)[i := True]\<rparr>"
  let ?es = "filter (\<lambda>e. j_text e ''from'' = j_text (nodes ! i) ''id'') edges"
  have ok: "graph_ok nodes edges"
    using ready by (simp add: flow_ready_def)
  have bound: "i < length (visited x)"
    using w(2) ok inv by (auto simp: graph_ok_def exec_inv_def)
  have y: "exec_inv nodes edges T ?y" "queued ?y = queued x"
    using inv bound by (auto simp: exec_inv_def queued_def nth_list_update)
  have src: "\<forall>e \<in> set ?es. edge_src nodes e \<in> (flow_graph nodes edges)\<^sup>* `` T"
    using w(3) by (auto simp: filter_src_conv [OF ok w(2)])
  obtain x' where "foldS (exec_enqueue nodes) ?es ?y = (Inr (), x')" "exec_inv nodes edges T x'"
      "head x' = head ?y" "waiting x' = waiting ?y" "\<exists>q. queued x' = queued ?y @ q"
    using exec_enqueue_all [OF y(1) ready _ src] by auto
  then show ?thesis
    using w(1,2) bound y by (auto simp: exec_complete_def Let_def ne [symmetric])
qed

lemma exec_skip_ok:
  assumes inv: "exec_inv nodes edges T x" and len: "length nodes \<le> MAX_NODES"
    and w: "waiting x = Some i" "i < length nodes"
  shows "\<exists>x'. exec_skip x = (Inr (), x') \<and> exec_inv nodes edges T x'
    \<and> head x' = head x \<and> waiting x' = None \<and> queued x' = queued x"
proof -
  have "i < length (visited x)"
    using w(2) len inv by (auto simp: exec_inv_def)
  then show ?thesis
    using inv w(1) by (auto simp: exec_skip_def exec_inv_def queued_def nth_list_update)
qed

lemma exec_next_ok:
  assumes inv: "exec_inv nodes edges T x" and ne: "nodes = j_array flow ''nodes''"
    and w: "waiting x = None"
  shows "if head x = tail x then exec_next x flow = (Inr None, x)
    else exec_next x flow = (Inr (Some (nodes ! (queued x ! head x))),
           x\<lparr>head := head x + 1, waiting := Some (queued x ! head x)\<rparr>)
         \<and> queued x ! head x < length nodes \<and> queued x ! head x \<in> (flow_graph nodes edges)\<^sup>* `` T"
proof (cases "head x = tail x")
  case True
  then show ?thesis using w by (simp add: exec_next_def)
next
  case False
  then have h: "head x < tail x" "head x < length (pending x)"
    using inv by (auto simp: exec_inv_def)
  then have q: "queued x ! head x = pending x ! head x" "queued x ! head x \<in> set (queued x)"
    using queued_length [OF inv] nth_mem [of "head x" "queued x"] by (auto simp: queued_def)
  then have "queued x ! head x < length nodes \<and> queued x ! head x \<in> (flow_graph nodes edges)\<^sup>* `` T"
    using inv by (auto simp: exec_inv_def)
  then show ?thesis
    using False w h q by (simp add: exec_next_def Let_def ne [symmetric])
qed

section \<open>Starting\<close>

text \<open>The trigger cards named by a list of ids.\<close>

definition trigger_set :: "jvalue list \<Rightarrow> string list \<Rightarrow> nat set" where
  "trigger_set nodes ids = {i. \<exists>nid \<in> set ids. node_index nodes nid = Inr i}"

lemma exec_inv_empty: "exec_inv nodes edges T exec_empty"
  by (simp add: exec_inv_def exec_empty_def queued_def)

lemma start_trigger_ok:
  assumes inv: "exec_inv nodes edges T x" and ready: "flow_ready nodes edges"
    and ne: "nodes = j_array flow ''nodes''" "edges = j_array flow ''edges''"
    and w: "waiting x = None" "head x = 0"
    and T: "\<And>i. node_index nodes nid = Inr i \<Longrightarrow> i \<in> T"
    and run: "start_trigger flow nid x = Inr x'"
  shows "exec_inv nodes edges T x' \<and> waiting x' = None \<and> head x' = 0"
proof -
  obtain i where i: "node_index nodes nid = Inr i"
    using run by (auto simp: start_trigger_def result_iff ne)
  then have "i < length nodes" "i \<in> T"
    using node_index_SomeD T by auto
  moreover have "exec_inv nodes edges T (x\<lparr>waiting := Some i\<rparr>)"
    using inv by (simp add: exec_inv_def queued_def)
  ultimately obtain y where "exec_complete (x\<lparr>waiting := Some i\<rparr>) flow True = (Inr (), y)"
      "exec_inv nodes edges T y" "head y = head x" "waiting y = None"
    using exec_complete_ok [OF _ ready ne, of T "x\<lparr>waiting := Some i\<rparr>" i True] by auto
  then show ?thesis
    using run i inv w by (auto simp: start_trigger_def ne split: if_splits)
qed

lemma start_triggers_ok:
  assumes "exec_inv nodes edges T x" and ready: "flow_ready nodes edges"
    and ne: "nodes = j_array flow ''nodes''" "edges = j_array flow ''edges''"
    and "waiting x = None" and "head x = 0"
    and "trigger_set nodes ids \<subseteq> T" and "foldR (start_trigger flow) ids x = Inr x'"
  shows "exec_inv nodes edges T x' \<and> waiting x' = None \<and> head x' = 0"
  using assms(1,5-8)
proof (induction ids arbitrary: x)
  case (Cons nid ids)
  obtain y where y: "start_trigger flow nid x = Inr y" "foldR (start_trigger flow) ids y = Inr x'"
    using Cons.prems(5) by (auto simp: result_iff)
  have "exec_inv nodes edges T y \<and> waiting y = None \<and> head y = 0"
    using start_trigger_ok [OF Cons.prems(1) ready ne Cons.prems(2,3) _ y(1)] Cons.prems(4)
    by (auto simp: trigger_set_def)
  then show ?case
    using Cons.IH [of y] y(2) Cons.prems(4) by (auto simp: trigger_set_def)
qed simp

lemma start_many_ok:
  assumes "start_many flow ids = Inr x"
  shows "flow_ready (j_array flow ''nodes'') (j_array flow ''edges'')
    \<and> exec_inv (j_array flow ''nodes'') (j_array flow ''edges'')
         (trigger_set (j_array flow ''nodes'') ids) x
    \<and> waiting x = None \<and> head x = 0"
proof -
  have v: "flow_validate flow = Inr ()" "foldR (start_trigger flow) ids exec_empty = Inr x"
    using assms by (auto simp: start_many_def result_iff)
  then show ?thesis
    using flow_validate_ready [OF v(1)]
      start_triggers_ok [OF exec_inv_empty _ refl refl _ _ order_refl v(2)]
    by (auto simp: exec_empty_def)
qed

section \<open>Runs\<close>

text \<open>
  A run from the started plan: take a card, run its callback, report success or failure
  (\<open>complete\<close>) or a failed action (\<open>skip\<close>). The list collects the cards in delivery order.
\<close>

inductive exec_trace :: "jvalue \<Rightarrow> execution \<Rightarrow> nat list \<Rightarrow> execution \<Rightarrow> bool" for flow x where
  start: "exec_trace flow x [] x"
| completed: "exec_trace flow x is y \<Longrightarrow> exec_next y flow = (Inr (Some node), y') \<Longrightarrow>
    waiting y' = Some i \<Longrightarrow> exec_complete y' flow passed = (Inr (), z) \<Longrightarrow>
    exec_trace flow x (is @ [i]) z"
| skipped: "exec_trace flow x is y \<Longrightarrow> exec_next y flow = (Inr (Some node), y') \<Longrightarrow>
    waiting y' = Some i \<Longrightarrow> exec_skip y' = (Inr (), z) \<Longrightarrow> exec_trace flow x (is @ [i]) z"

lemma exec_next_trace:
  assumes "exec_inv nodes edges T y" and "waiting y = None" and "nodes = j_array flow ''nodes''"
    and "exec_next y flow = (Inr (Some node), y')" and "waiting y' = Some i"
  shows "exec_inv nodes edges T y' \<and> queued y' = queued y \<and> head y' = Suc (head y)
    \<and> take (head y') (queued y') = take (head y) (queued y) @ [i]
    \<and> i < length nodes \<and> i \<in> (flow_graph nodes edges)\<^sup>* `` T"
proof -
  have h: "head y \<noteq> tail y"
    using assms by (auto simp: exec_next_def)
  then have lt: "head y < length (queued y)"
    using assms(1) queued_length [OF assms(1)] by (auto simp: exec_inv_def)
  have n: "y' = y\<lparr>head := head y + 1, waiting := Some (queued y ! head y)\<rparr>"
      "queued y ! head y < length nodes" "queued y ! head y \<in> (flow_graph nodes edges)\<^sup>* `` T"
    using exec_next_ok [OF assms(1,3,2)] h assms(4) by auto
  have q: "queued y' = queued y"
    by (simp add: n(1) queued_def)
  have "exec_inv nodes edges T y'"
    using assms(1) lt queued_length [OF assms(1)] by (auto simp: exec_inv_def n(1) queued_def)
  then show ?thesis
    using n assms(5) lt q by (simp add: take_Suc_conv_app_nth)
qed

lemma exec_trace_inv:
  assumes "exec_trace flow x js y" and ready: "flow_ready nodes edges"
    and ne: "nodes = j_array flow ''nodes''" "edges = j_array flow ''edges''"
    and x: "exec_inv nodes edges T x" "waiting x = None" "head x = 0"
  shows "exec_inv nodes edges T y \<and> waiting y = None \<and> js = take (head y) (queued y)"
  using assms(1)
proof (induction rule: exec_trace.induct)
  case start
  then show ?case using x by simp
next
  case (completed js y node y' i passed z)
  then have y: "exec_inv nodes edges T y" "waiting y = None" "js = take (head y) (queued y)"
    by auto
  note n = exec_next_trace [OF y(1,2) ne(1) completed.hyps(2,3)]
  obtain z' where z': "exec_complete y' flow passed = (Inr (), z')" "exec_inv nodes edges T z'"
      "head z' = head y'" "waiting z' = None" "\<exists>q. queued z' = queued y' @ q"
    using exec_complete_ok [OF _ ready ne completed.hyps(3)] n by blast
  then have "z = z'" using completed.hyps(4) by simp
  moreover have "head y' \<le> length (queued y')"
    using conjunct1 [OF n] queued_length [of nodes edges T y'] by (simp add: exec_inv_def)
  ultimately show ?case using n y(3) z' by auto
next
  case (skipped js y node y' i z)
  then have y: "exec_inv nodes edges T y" "waiting y = None" "js = take (head y) (queued y)"
    by auto
  note n = exec_next_trace [OF y(1,2) ne(1) skipped.hyps(2,3)]
  have "length nodes \<le> MAX_NODES"
    using ready by (simp add: flow_ready_def graph_ok_def)
  then obtain z' where "exec_skip y' = (Inr (), z')" "exec_inv nodes edges T z'"
      "head z' = head y'" "waiting z' = None" "queued z' = queued y'"
    using exec_skip_ok [OF _ _ skipped.hyps(3)] n by blast
  then show ?case using n y(3) skipped.hyps(4) by auto
qed


text \<open>C8: A run of a validated Flow, whatever its callbacks report, delivers every card at most once,
  delivers only cards that are reachable from the triggers it was started with, never a trigger,
  and so delivers at most as many cards as the Flow has.\<close>

theorem exec_trace_delivers_once:
  assumes "start_many flow ids = Inr x" and "exec_trace flow x js y"
  shows "distinct js \<and> length js \<le> length (j_array flow ''nodes'')
    \<and> (\<forall>i \<in> set js. flow_kind (j_array flow ''nodes'' ! i) \<noteq> ''trigger''
         \<and> i \<in> (flow_graph (j_array flow ''nodes'') (j_array flow ''edges''))\<^sup>*
                `` trigger_set (j_array flow ''nodes'') ids)"
proof -
  let ?T = "trigger_set (j_array flow ''nodes'') ids"
  note s = start_many_ok [OF assms(1)]
  then have inv: "exec_inv (j_array flow ''nodes'') (j_array flow ''edges'') ?T y"
      "js = take (head y) (queued y)"
    using exec_trace_inv [OF assms(2) _ refl refl, of ?T] by auto
  have sub: "set js \<subseteq> set (queued y)" "distinct js"
    using inv by (auto simp: exec_inv_def dest: in_set_takeD)
  moreover have "length js \<le> length (j_array flow ''nodes'')"
    using sub inv(1) by (intro distinct_bounded_length) (auto simp: exec_inv_def)
  ultimately show ?thesis
    using inv(1) by (auto simp: exec_inv_def)
qed

text \<open>
  A run to its end: ask for the next card, run its callback and report the outcome the owner has for that card (\<open>None\<close>: the
  action failed). The number bounds the cards; a run that needs more, or in which a call fails, is \<open>None\<close>.
\<close>

definition exec_report :: "jvalue \<Rightarrow> bool option \<Rightarrow> execution \<Rightarrow> unit result \<times> execution" where
  "exec_report flow outcome y = (case outcome of None \<Rightarrow> exec_skip y | Some passed \<Rightarrow> exec_complete y flow passed)"

fun exec_drive :: "jvalue \<Rightarrow> (nat \<Rightarrow> bool option) \<Rightarrow> nat \<Rightarrow> execution \<Rightarrow> (nat list \<times> execution) option" where
  "exec_drive flow answer n y =
     (case exec_next y flow of
        (Inr None, y') \<Rightarrow> Some ([], y')
      | (Inr (Some _), y') \<Rightarrow>
          (case (n, waiting y') of
             (Suc k, Some i) \<Rightarrow>
               (case exec_report flow (answer i) y' of
                  (Inr _, z) \<Rightarrow> map_option (\<lambda>(is, w). (i # is, w)) (exec_drive flow answer k z)
                | (Inl _, _) \<Rightarrow> None)
           | _ \<Rightarrow> None)
      | (Inl _, _) \<Rightarrow> None)"

declare exec_drive.simps [simp del]

text \<open>One turn from any state of a run: the end, or a card whose report succeeds and continues the run.\<close>

lemma exec_turn:
  assumes "start_many flow ids = Inr x" and "exec_trace flow x js y"
  shows "exec_next y flow = (Inr None, y)
    \<or> (\<exists>node y' i. exec_next y flow = (Inr (Some node), y') \<and> waiting y' = Some i
         \<and> (\<forall>outcome. \<exists>z. exec_report flow outcome y' = (Inr (), z) \<and> exec_trace flow x (js @ [i]) z))"
proof -
  let ?nodes = "j_array flow ''nodes''" and ?edges = "j_array flow ''edges''"
  let ?T = "trigger_set ?nodes ids"
  have ready: "flow_ready ?nodes ?edges" and y: "exec_inv ?nodes ?edges ?T y" "waiting y = None"
    using start_many_ok [OF assms(1)] exec_trace_inv [OF assms(2) _ refl refl, of ?T] by auto
  show ?thesis
  proof (cases "head y = tail y")
    case True
    then show ?thesis using exec_next_ok [OF y(1) refl y(2)] by simp
  next
    case False
    let ?i = "queued y ! head y"
    let ?y = "y\<lparr>head := head y + 1, waiting := Some ?i\<rparr>"
    have n: "exec_next y flow = (Inr (Some (?nodes ! ?i)), ?y)"
      using exec_next_ok [OF y(1) refl y(2)] False by simp
    have w: "waiting ?y = Some ?i" by simp
    note t = exec_next_trace [OF y refl n w]
    have "length ?nodes \<le> MAX_NODES"
      using ready by (simp add: flow_ready_def graph_ok_def)
    then obtain z where z: "exec_skip ?y = (Inr (), z)"
      using t exec_skip_ok [of ?nodes ?edges ?T ?y ?i] by fastforce
    have c: "\<exists>z. exec_complete ?y flow passed = (Inr (), z)" for passed
      using t exec_complete_ok [OF _ ready refl refl, of ?T ?y ?i passed] by fastforce
    have "\<exists>z. exec_report flow outcome ?y = (Inr (), z) \<and> exec_trace flow x (js @ [?i]) z" for outcome
    proof (cases outcome)
      case None
      then show ?thesis using exec_trace.skipped [OF assms(2) n w z] z by (simp add: exec_report_def)
    next
      case (Some passed)
      then show ?thesis using exec_trace.completed [OF assms(2) n w] c [of passed] by (auto simp: exec_report_def)
    qed
    then show ?thesis using n w by blast
  qed
qed

lemma exec_trace_length:
  assumes "start_many flow ids = Inr x" and "exec_trace flow x js y"
  shows "length js \<le> MAX_NODES"
proof -
  let ?T = "trigger_set (j_array flow ''nodes'') ids"
  have "exec_inv (j_array flow ''nodes'') (j_array flow ''edges'') ?T y" "js = take (head y) (queued y)"
    using start_many_ok [OF assms(1)] exec_trace_inv [OF assms(2) _ refl refl, of ?T] by auto
  then show ?thesis using queued_length by (auto simp: exec_inv_def)
qed

lemma exec_drive_ends:
  assumes "start_many flow ids = Inr x" and "exec_trace flow x js y" and "MAX_NODES \<le> length js + n"
  shows "\<exists>ks z. exec_drive flow answer n y = Some (ks, z) \<and> exec_trace flow x (js @ ks) z \<and> exec_next z flow = (Inr None, z)"
  using assms(2,3)
proof (induction n arbitrary: js y)
  case 0
  have "exec_next y flow = (Inr None, y)"
    using exec_turn [OF assms(1) 0(1)] exec_trace_length [OF assms(1)] 0(2) by fastforce
  then show ?case using 0 by (simp add: exec_drive.simps [of _ _ _ y])
next
  case (Suc n)
  from exec_turn [OF assms(1) Suc.prems(1)] show ?case
  proof (elim disjE exE conjE)
    assume "exec_next y flow = (Inr None, y)"
    then show ?thesis using Suc.prems by (simp add: exec_drive.simps [of _ _ _ y])
  next
    fix node y' i
    assume n: "exec_next y flow = (Inr (Some node), y')" "waiting y' = Some i"
      and "\<forall>outcome. \<exists>z. exec_report flow outcome y' = (Inr (), z) \<and> exec_trace flow x (js @ [i]) z"
    then obtain z where z: "exec_report flow (answer i) y' = (Inr (), z)" "exec_trace flow x (js @ [i]) z" by blast
    from Suc.IH [OF z(2)] obtain ks w where "exec_drive flow answer n z = Some (ks, w)"
      "exec_trace flow x ((js @ [i]) @ ks) w" "exec_next w flow = (Inr None, w)" using Suc.prems(2) by auto
    then show ?thesis using n z(1) by (simp add: exec_drive.simps [of _ _ _ y])
  qed
qed

text \<open>C9: A run ends, whatever its callbacks report: from every state a run can be in, asking for cards and reporting their
  outcomes (success, failure of a condition, failure of an action, as the owner likes) never fails, never overruns the fixed
  arrays and comes to the point where \<open>next\<close> reports the end; the cards delivered before and after are at most 128 in all.\<close>

theorem exec_trace_progress:
  assumes "start_many flow ids = Inr x" and "exec_trace flow x js y"
  shows "\<exists>ks z. exec_drive flow answer (128 - length js) y = Some (ks, z) \<and> exec_next z flow = (Inr None, z)
    \<and> exec_trace flow x (js @ ks) z \<and> length (js @ ks) \<le> 128"
proof -
  obtain ks z where d: "exec_drive flow answer (MAX_NODES - length js) y = Some (ks, z)"
      "exec_trace flow x (js @ ks) z" "exec_next z flow = (Inr None, z)"
    using exec_drive_ends [OF assms, of "MAX_NODES - length js" answer] by force
  then show ?thesis using exec_trace_length [OF assms(1) d(2)] unfolding MAX_NODES_def by blast
qed

text \<open>The example Flow from its trigger: one card, the action, then the end.\<close>

definition example_run :: execution where
  "example_run = exec_empty\<lparr>pending := (replicate MAX_NODES 0)[0 := 1], tail := 1,
     visited := (replicate MAX_NODES False)[0 := True, 1 := True]\<rparr>"

lemma example_started: "start_many example_flow [''t''] = Inr example_run"
  by code_simp

lemma example_trace:
  "exec_trace example_flow example_run [1] (example_run\<lparr>head := 1\<rparr>)"
proof -
  let ?y = "example_run\<lparr>head := 1, waiting := Some 1\<rparr>"
  have "exec_next example_run example_flow = (Inr (Some (j_array example_flow ''nodes'' ! 1)), ?y)"
    by code_simp
  moreover have "exec_complete ?y example_flow True = (Inr (), example_run\<lparr>head := 1\<rparr>)"
    by code_simp
  ultimately show ?thesis
    using exec_trace.completed [OF exec_trace.start [of example_flow example_run],
        where y' = ?y and i = 1 and passed = True] by simp
qed

theorem exec_trace_delivers_once_witness:
  "distinct [1 :: nat] \<and> flow_kind (j_array example_flow ''nodes'' ! 1) \<noteq> ''trigger''"
  using exec_trace_delivers_once [OF example_started example_trace] by simp

theorem exec_trace_progress_witness:
  "\<exists>ks z. exec_drive example_flow (\<lambda>_. Some True) 128 example_run = Some (ks, z)
    \<and> exec_next z example_flow = (Inr None, z) \<and> length ks \<le> 128"
  using exec_trace_progress [OF example_started exec_trace.start, of "\<lambda>_. Some True"] by auto

end
