(* ===== verification/JsonText.thy ===== *)
theory JsonText
  imports Json
begin

text \<open>
  The JSON text layer: the bounded parser of \<^verbatim>\<open>crates/core/src/json_bounded.rs\<close> (the same parser as
  \<^verbatim>\<open>vendor/types/src/json.rs\<close>, with the caller's limit) and the writer of
  \<^verbatim>\<open>vendor/types/src/json.rs\<close>. Bytes are \<open>char\<close>s. A parser takes the length \<open>n\<close> of the whole input,
  for error offsets, and what is left of it; the position is \<open>n\<close> minus the length of the rest.
\<close>

section \<open>Bytes, UTF-8 and decimal digits\<close>

abbreviation ord :: "char \<Rightarrow> int" where
  "ord c \<equiv> of_char c"

definition is_ws :: "char \<Rightarrow> bool" where
  "is_ws c \<longleftrightarrow> c = CHR '' '' \<or> c = CHR 0x09 \<or> c = CHR 0x0A \<or> c = CHR 0x0D"

definition is_digit :: "char \<Rightarrow> bool" where
  "is_digit c \<longleftrightarrow> 48 \<le> ord c \<and> ord c \<le> 57"

text \<open>The length of the well-formed UTF-8 sequence at the start of a byte string.\<close>

definition in_range :: "int \<Rightarrow> int \<Rightarrow> char \<Rightarrow> bool" where
  "in_range a b c \<longleftrightarrow> a \<le> ord c \<and> ord c \<le> b"

definition follows :: "string \<Rightarrow> (char \<Rightarrow> bool) list \<Rightarrow> bool" where
  "follows s ps \<longleftrightarrow> length ps \<le> length s \<and> list_all2 (\<lambda>p c. p c) ps (take (length ps) s)"

definition utf8_second :: "char \<Rightarrow> char \<Rightarrow> bool" where
  "utf8_second c d \<longleftrightarrow>
     (if ord c = 224 then in_range 160 191 d
      else if ord c = 237 then in_range 128 159 d
      else if ord c = 240 then in_range 144 191 d
      else if ord c = 244 then in_range 128 143 d
      else in_range 128 191 d)"

definition utf8_len :: "string \<Rightarrow> nat option" where
  "utf8_len s = (case s of
     [] \<Rightarrow> None
   | c # r \<Rightarrow>
       let t = in_range 128 191; u = utf8_second c in
       if ord c < 128 then Some 1
       else if in_range 194 223 c then if follows r [u] then Some 2 else None
       else if in_range 224 239 c then if follows r [u, t] then Some 3 else None
       else if in_range 240 244 c then if follows r [u, t, t] then Some 4 else None
       else None)"

lemma utf8_len_pos: "utf8_len s = Some k \<Longrightarrow> 0 < k \<and> s \<noteq> []"
  by (auto simp: utf8_len_def Let_def split: list.splits if_splits)

text \<open>\<open>Utf8Error::valid_up_to\<close>: how many leading bytes are whole characters.\<close>

function utf8_up_to :: "string \<Rightarrow> nat" where
  "utf8_up_to s = (case utf8_len s of None \<Rightarrow> 0 | Some k \<Rightarrow> k + utf8_up_to (drop k s))"
  by pat_completeness auto

termination
  by (relation "measure length") (auto dest!: utf8_len_pos)

declare utf8_up_to.simps [simp del]

definition utf8_valid :: "string \<Rightarrow> bool" where
  "utf8_valid s \<longleftrightarrow> utf8_up_to s = length s"

text \<open>\<open>char::from_u32(cp).unwrap_or(U+FFFD)\<close> pushed as UTF-8.\<close>

definition utf8_encode :: "int \<Rightarrow> string" where
  "utf8_encode cp0 =
     (let cp = (if (0xD800 \<le> cp0 \<and> cp0 < 0xE000) \<or> 0x10FFFF < cp0 then 0xFFFD else cp0) in
      map char_of
        (if cp < 0x80 then [cp]
         else if cp < 0x800 then [192 + cp div 64, 128 + cp mod 64]
         else if cp < 0x10000 then [224 + cp div 4096, 128 + cp div 64 mod 64, 128 + cp mod 64]
         else [240 + cp div 262144, 128 + cp div 4096 mod 64, 128 + cp div 64 mod 64,
               128 + cp mod 64]))"

definition digit_char :: "int \<Rightarrow> char" where
  "digit_char d = char_of (48 + d)"

function show_dec :: "int \<Rightarrow> string" where
  "show_dec n = (if n < 10 then [digit_char n] else show_dec (n div 10) @ [digit_char (n mod 10)])"
  by pat_completeness auto
termination
  by (relation "measure nat") auto

declare show_dec.simps [simp del]

definition read_dec :: "string \<Rightarrow> int" where
  "read_dec s = foldl (\<lambda>a c. 10 * a + (ord c - 48)) 0 s"

section \<open>Numbers\<close>

text \<open>\<open>text.parse::<u64>()\<close> and \<open>text.parse::<i64>()\<close> on the text of a JSON number without fraction.\<close>

definition parse_u64 :: "string \<Rightarrow> u64 option" where
  "parse_u64 s = (if s \<noteq> [] \<and> list_all is_digit s \<and> read_dec s < 2 ^ 64
     then Some (word_of_int (read_dec s)) else None)"

definition parse_i64 :: "string \<Rightarrow> u64 option" where
  "parse_i64 s = (case s of
     [] \<Rightarrow> None
   | c # r \<Rightarrow>
       if c = CHR ''-''
       then if r \<noteq> [] \<and> list_all is_digit r \<and> read_dec r \<le> 2 ^ 63
            then Some (word_of_int (- read_dec r)) else None
       else if list_all is_digit s \<and> read_dec s < 2 ^ 63
            then Some (word_of_int (read_dec s)) else None)"

definition exponent_of :: "string \<Rightarrow> int" where
  "exponent_of s = (case s of
     [] \<Rightarrow> 0
   | e # r \<Rightarrow> (case r of
       [] \<Rightarrow> 0
     | sign # ds \<Rightarrow>
         if sign = CHR ''-'' then - read_dec ds
         else if sign = CHR ''+'' then read_dec ds
         else read_dec r))"

text \<open>\<open>text.parse::<f64>()\<close> on the text of a JSON number: the nearest double, infinite when too large.\<close>

definition parse_f64 :: "string \<Rightarrow> f64" where
  "parse_f64 s =
     (let neg = starts_with s ''-'';
          t = (if neg then tl s else s);
          whole = takeWhile is_digit t;
          t1 = dropWhile is_digit t;
          dot = starts_with t1 ''.'';
          frac = (if dot then takeWhile is_digit (tl t1) else []);
          t2 = (if dot then dropWhile is_digit (tl t1) else t1);
          x = exponent_of t2 - int (length frac);
          m = read_dec (whole @ frac)
      in f64_round neg (m * 10 ^ nat x) (10 ^ nat (- x)))"

section \<open>The parser\<close>

definition skip_ws :: "string \<Rightarrow> string" where
  "skip_ws s = dropWhile is_ws s"

definition err :: "nat \<Rightarrow> string \<Rightarrow> string \<Rightarrow> hop_error" where
  "err n s expected = Syntax (n - length s) expected"

definition p_eat :: "nat \<Rightarrow> char \<Rightarrow> string \<Rightarrow> string \<Rightarrow> string hop_result" where
  "p_eat n c expected s = (case s of
     [] \<Rightarrow> Inl (err n s expected)
   | d # r \<Rightarrow> if d = c then Inr r else Inl (err n s expected))"

definition p_literal :: "nat \<Rightarrow> string \<Rightarrow> jvalue \<Rightarrow> string \<Rightarrow> (jvalue \<times> string) hop_result" where
  "p_literal n word v s =
     (if take (length word) s = word then Inr (v, drop (length word) s)
      else Inl (err n s ''a value''))"

definition hex_digit :: "char \<Rightarrow> int option" where
  "hex_digit c = (if is_digit c then Some (ord c - 48)
     else if in_range 97 102 c then Some (ord c - 97 + 10)
     else if in_range 65 70 c then Some (ord c - 65 + 10)
     else None)"

fun p_hex :: "nat \<Rightarrow> nat \<Rightarrow> int \<Rightarrow> string \<Rightarrow> (int \<times> string) hop_result" where
  "p_hex n 0 v s = Inr (v, s)"
| "p_hex n (Suc k) v [] = Inl (err n [] ''four hex digits'')"
| "p_hex n (Suc k) v (c # s) = (case hex_digit c of
     None \<Rightarrow> Inl (err n (c # s) ''four hex digits'')
   | Some d \<Rightarrow> p_hex n k (v * 16 + d) s)"

definition p_hex4 :: "nat \<Rightarrow> string \<Rightarrow> (int \<times> string) hop_result" where
  "p_hex4 n s = p_hex n 4 0 s"

definition p_unicode :: "nat \<Rightarrow> string \<Rightarrow> (string \<times> string) hop_result" where
  "p_unicode n s =
     bindR (p_hex4 n s) (\<lambda>(hi, s1).
       if 0xD800 \<le> hi \<and> hi < 0xDC00
       then if take 2 s1 \<noteq> [CHR 0x5C, CHR ''u''] then Inl (err n s1 ''a low surrogate'')
            else bindR (p_hex4 n (drop 2 s1)) (\<lambda>(lo, s2).
              if \<not> (0xDC00 \<le> lo \<and> lo < 0xE000) then Inl (err n s2 ''a low surrogate'')
              else Inr (utf8_encode (0x10000 + (hi - 0xD800) * 1024 + (lo - 0xDC00)), s2))
       else Inr (utf8_encode hi, s1))"

definition p_escape :: "nat \<Rightarrow> string \<Rightarrow> (string \<times> string) hop_result" where
  "p_escape n s = (case s of
     [] \<Rightarrow> Inl (err n s ''an escape'')
   | c # r \<Rightarrow>
       if c = CHR 0x22 \<or> c = CHR 0x5C \<or> c = CHR ''/'' then Inr ([c], r)
       else if c = CHR ''b'' then Inr ([CHR 0x08], r)
       else if c = CHR ''f'' then Inr ([CHR 0x0C], r)
       else if c = CHR ''n'' then Inr ([CHR 0x0A], r)
       else if c = CHR ''r'' then Inr ([CHR 0x0D], r)
       else if c = CHR ''t'' then Inr ([CHR 0x09], r)
       else if c = CHR ''u'' then p_unicode n r
       else Inl (err n s ''an escape''))"

definition plain :: "char \<Rightarrow> bool" where
  "plain c \<longleftrightarrow> c \<noteq> CHR 0x22 \<and> c \<noteq> CHR 0x5C \<and> 32 \<le> ord c"

lemma p_hex_length: "p_hex n k v s = Inr (x, s') \<Longrightarrow> length s' \<le> length s"
  by (induction n k v s rule: p_hex.induct) (auto split: option.splits)

lemma p_unicode_length:
  assumes "p_unicode n s = Inr (x, s')"
  shows "length s' \<le> length s"
proof -
  obtain hi s1 where h: "p_hex4 n s = Inr (hi, s1)"
    using assms by (auto simp: p_unicode_def result_iff)
  have l1: "length s1 \<le> length s"
    using h by (simp add: p_hex4_def p_hex_length)
  show ?thesis
  proof (cases "0xD800 \<le> hi \<and> hi < 0xDC00")
    case False
    then show ?thesis using assms h l1 by (auto simp: p_unicode_def)
  next
    case True
    then obtain lo where "p_hex4 n (drop 2 s1) = Inr (lo, s')"
      using assms h by (auto simp: p_unicode_def result_iff split: if_splits)
    then show ?thesis
      using l1 p_hex_length [of n 4 0 "drop 2 s1" lo s'] by (simp add: p_hex4_def)
  qed
qed

lemma p_escape_length: "p_escape n s = Inr (x, s') \<Longrightarrow> length s' \<le> length s"
  using p_unicode_length [of n "tl s" x s']
  by (auto simp: p_escape_def split: list.splits if_splits)

lemma length_dropWhile_le_Cons: "dropWhile P s = c # r \<Longrightarrow> length r < length s"
  using length_dropWhile_le [of P s] by simp

text \<open>\<open>string()\<close> after its opening quote, with the text read so far.\<close>

function p_string :: "nat \<Rightarrow> string \<Rightarrow> string \<Rightarrow> (string \<times> string) hop_result" where
  "p_string n out s =
     (let run = takeWhile plain s; s1 = dropWhile plain s in
      if \<not> utf8_valid run then Inl (Syntax (n - length s + utf8_up_to run) ''UTF-8'')
      else case s1 of
        [] \<Rightarrow> Inl (err n s1 (''a closing '' @ [CHR 0x27, CHR 0x22, CHR 0x27]))
      | c # r \<Rightarrow>
          if c = CHR 0x22 then Inr (out @ run, r)
          else if c = CHR 0x5C
          then (case p_escape n r of
                  Inl e \<Rightarrow> Inl e
                | Inr (x, r') \<Rightarrow> p_string n (out @ run @ x) r')
          else Inl (err n s1 (''a closing '' @ [CHR 0x27, CHR 0x22, CHR 0x27])))"
  by pat_completeness auto

termination
proof (relation "measure (\<lambda>(n, out, s). length s)")
  fix n :: nat and out s run s1 c r a x r'
  assume "s1 = dropWhile plain s" "s1 = c # r" "p_escape n r = Inr a" "(x, r') = a"
  then show "((n, out @ run @ x, r'), n, out, s) \<in> measure (\<lambda>(n, out, s). length s)"
    using p_escape_length [of n r x r'] length_dropWhile_le_Cons [of plain s c r] by force
qed simp

declare p_string.simps [simp del]

text \<open>The three parts of a number: each skips its digits and returns what is left.\<close>

definition p_whole :: "nat \<Rightarrow> string \<Rightarrow> string hop_result" where
  "p_whole n s = (case s of
     [] \<Rightarrow> Inl (err n s ''a digit'')
   | c # r \<Rightarrow> if c = CHR ''0'' then Inr r
               else if is_digit c then Inr (dropWhile is_digit s)
               else Inl (err n s ''a digit''))"

definition p_digits1 :: "nat \<Rightarrow> string \<Rightarrow> string hop_result" where
  "p_digits1 n s = (if takeWhile is_digit s = [] then Inl (err n s ''a digit'')
     else Inr (dropWhile is_digit s))"

definition p_fraction :: "nat \<Rightarrow> string \<Rightarrow> (bool \<times> string) hop_result" where
  "p_fraction n s = (case s of
     [] \<Rightarrow> Inr (False, s)
   | c # r \<Rightarrow> if c = CHR ''.'' then bindR (p_digits1 n r) (\<lambda>r'. Inr (True, r')) else Inr (False, s))"

definition p_exponent :: "nat \<Rightarrow> string \<Rightarrow> (bool \<times> string) hop_result" where
  "p_exponent n s = (case s of
     [] \<Rightarrow> Inr (False, s)
   | c # r \<Rightarrow>
       if c = CHR ''e'' \<or> c = CHR ''E''
       then bindR (p_digits1 n (if starts_with r ''+'' \<or> starts_with r ''-'' then tl r else r))
              (\<lambda>r'. Inr (True, r'))
       else Inr (False, s))"

definition p_number :: "nat \<Rightarrow> string \<Rightarrow> (number \<times> string) hop_result" where
  "p_number n s =
     bindR (p_whole n (if starts_with s ''-'' then tl s else s)) (\<lambda>s1.
     bindR (p_fraction n s1) (\<lambda>(f1, s2).
     bindR (p_exponent n s2) (\<lambda>(f2, s3).
       let text = take (length s - length s3) s in
       Inr (if f1 \<or> f2 then NFloat (parse_f64 text)
            else case parse_u64 text of
                   Some v \<Rightarrow> NUint v
                 | None \<Rightarrow> (case parse_i64 text of
                     Some v \<Rightarrow> NInt v
                   | None \<Rightarrow> NFloat (parse_f64 text)), s3))))"

definition MAX_DEPTH :: nat where "MAX_DEPTH = 32"

definition peek_is :: "char \<Rightarrow> string \<Rightarrow> bool" where
  "peek_is c s \<longleftrightarrow> (case s of [] \<Rightarrow> False | d # _ \<Rightarrow> d = c)"

text \<open>
  \<open>value\<close>, and the loops of \<open>object\<close> and \<open>array\<close>. \<open>d\<close> is the depth that is left; \<open>k\<close> bounds the
  rounds of a loop; it exceeds the input that is left, so it never runs out (\<open>p_value_complete\<close>).
\<close>

function p_value :: "nat \<Rightarrow> nat \<Rightarrow> string \<Rightarrow> (jvalue \<times> string) hop_result"
and p_members :: "nat \<Rightarrow> nat \<Rightarrow> nat \<Rightarrow> object \<Rightarrow> string \<Rightarrow> (jvalue \<times> string) hop_result"
and p_items :: "nat \<Rightarrow> nat \<Rightarrow> nat \<Rightarrow> jvalue list \<Rightarrow> string \<Rightarrow> (jvalue \<times> string) hop_result" where
  "p_value n 0 s = Inl (TooDeep (n - length s) MAX_DEPTH)"
| "p_value n (Suc d) s = (case s of
     [] \<Rightarrow> Inl (err n s ''a value'')
   | c # r \<Rightarrow>
       if c = CHR ''{''
       then let s1 = skip_ws r in
            if peek_is CHR ''}'' s1 then Inr (Object [], tl s1) else p_members n d (length s) [] s1
       else if c = CHR ''[''
       then let s1 = skip_ws r in
            if peek_is CHR '']'' s1 then Inr (Array [], tl s1) else p_items n d (length s) [] s1
       else if c = CHR 0x22 then bindR (p_string n [] r) (\<lambda>(t, s1). Inr (String t, s1))
       else if c = CHR ''t'' then p_literal n ''true'' (Bool True) s
       else if c = CHR ''f'' then p_literal n ''false'' (Bool False) s
       else if c = CHR ''n'' then p_literal n ''null'' Null s
       else if c = CHR ''-'' \<or> is_digit c
       then bindR (p_number n s) (\<lambda>(x, s1). Inr (Number x, s1))
       else Inl (err n s ''a value''))"
| "p_members n d 0 obj s = Inl OutOfMemory"
| "p_members n d (Suc k) obj s =
     (let s1 = skip_ws s in
      if \<not> peek_is CHR 0x22 s1 then Inl (err n s1 ''a string key'')
      else bindR (p_string n [] (tl s1)) (\<lambda>(key, s2).
        if obj_get obj key \<noteq> None then Inl (DuplicateKey (name_new key))
        else bindR (p_eat n CHR '':'' [CHR 0x27, CHR '':'', CHR 0x27] (skip_ws s2)) (\<lambda>s3.
        bindR (p_value n d (skip_ws s3)) (\<lambda>(v, s4).
          let s5 = skip_ws s4; obj' = obj_push obj key v in
          if peek_is CHR '','' s5 then p_members n d k obj' (tl s5)
          else if peek_is CHR ''}'' s5 then Inr (Object obj', tl s5)
          else Inl (err n s5 ([CHR 0x27, CHR '','', CHR 0x27] @ '' or '' @ [CHR 0x27, CHR ''}'', CHR 0x27]))))))"
| "p_items n d 0 acc s = Inl OutOfMemory"
| "p_items n d (Suc k) acc s =
     bindR (p_value n d (skip_ws s)) (\<lambda>(v, s1).
       let s2 = skip_ws s1; acc' = acc @ [v] in
       if peek_is CHR '','' s2 then p_items n d k acc' (tl s2)
       else if peek_is CHR '']'' s2 then Inr (Array acc', tl s2)
       else Inl (err n s2 ([CHR 0x27, CHR '','', CHR 0x27] @ '' or '' @ [CHR 0x27, CHR '']'', CHR 0x27])))"
  by pat_completeness auto

termination
  by (relation "measures [\<lambda>x. (case x of Inl (n, d, s) \<Rightarrow> 2 * d
        | Inr (Inl (n, d, k, obj, s)) \<Rightarrow> 2 * d + 1 | Inr (Inr (n, d, k, acc, s)) \<Rightarrow> 2 * d + 1),
      \<lambda>x. (case x of Inl _ \<Rightarrow> 0
        | Inr (Inl (n, d, k, obj, s)) \<Rightarrow> k | Inr (Inr (n, d, k, acc, s)) \<Rightarrow> k)]")
    auto

definition parse_bounded :: "string \<Rightarrow> nat \<Rightarrow> jvalue hop_result" where
  "parse_bounded input limit =
     (let n = length input in
      if limit < n then Inl (TooLarge n limit)
      else bindR (p_value n MAX_DEPTH (skip_ws input)) (\<lambda>(v, s).
        let s1 = skip_ws s in
        if s1 \<noteq> [] then Inl (Trailing (n - length s1)) else Inr v))"

definition MAX_INPUT :: nat where "MAX_INPUT = 2 ^ 20"

definition hop_parse :: "string \<Rightarrow> jvalue hop_result" where
  "hop_parse input = parse_bounded input MAX_INPUT"

section \<open>The writer\<close>

text \<open>
  \<open>Display\<close> of a finite double: the shortest decimal that reads back as the same double, the
  nearest to it among those, written without exponent. \<open>dec_exp\<close> is the number of digits before
  the point, \<open>dec_try\<close> the candidates with \<open>j\<close> digits.
\<close>

function dec_exp_up :: "int \<Rightarrow> int \<Rightarrow> int" where
  "dec_exp_up p q = (if q \<le> 0 \<or> p < q then 0 else 1 + dec_exp_up p (10 * q))"
  by pat_completeness auto
termination
  by (relation "measure (\<lambda>(p, q). nat (p + 1 - q))") auto

function dec_exp_down :: "int \<Rightarrow> int \<Rightarrow> int" where
  "dec_exp_down p q = (if p \<le> 0 \<or> q \<le> 10 * p then 0 else dec_exp_down (10 * p) q - 1)"
  by pat_completeness auto
termination
  by (relation "measure (\<lambda>(p, q). nat (q + 1 - p))") auto

declare dec_exp_up.simps [simp del] dec_exp_down.simps [simp del]

definition dec_exp :: "int \<Rightarrow> int \<Rightarrow> int" where
  "dec_exp p q = (if p < q then dec_exp_down p q else dec_exp_up p q)"

definition dec_try :: "f64 \<Rightarrow> int \<Rightarrow> int \<Rightarrow> int \<Rightarrow> int option" where
  "dec_try v p q x =
     (let a = p * 10 ^ nat (- x); b = q * 10 ^ nat x;
          lo = a div b;
          good = (\<lambda>c. 0 < c \<and> f64_round False (c * 10 ^ nat x) (10 ^ nat (- x)) = v)
      in if good lo \<and> (\<not> good (lo + 1) \<or> 2 * (a mod b) \<le> b) then Some lo
         else if good (lo + 1) then Some (lo + 1) else None)"

fun dec_search :: "nat \<Rightarrow> f64 \<Rightarrow> int \<Rightarrow> int \<Rightarrow> int \<Rightarrow> nat \<Rightarrow> int \<times> int" where
  "dec_search 0 v p q e j = (p * 10 ^ nat (int j - e) div (q * 10 ^ nat (e - int j)), e - int j)"
| "dec_search (Suc k) v p q e j =
     (case dec_try v p q (e - int j) of
        Some c \<Rightarrow> if c = 10 ^ j then (1, e) else (c, e - int j)
      | None \<Rightarrow> dec_search k v p q e (Suc j))"

definition show_decimal :: "int \<Rightarrow> int \<Rightarrow> string" where
  "show_decimal c x =
     (let ds = show_dec c; m = length ds; point = int m + x in
      if 0 \<le> x then ds @ replicate (nat x) CHR ''0''
      else if 0 < point then take (nat point) ds @ ''.'' @ drop (nat point) ds
      else ''0.'' @ replicate (nat (- point)) CHR ''0'' @ ds)"

definition f64_display :: "f64 \<Rightarrow> string" where
  "f64_display v =
     (let a = f64_abs v; p = f64_num a; q = f64_den a;
          sign = (if f64_neg v then ''-'' else []) in
      if p = 0 then sign @ ''0''
      else let (c, x) = dec_search 17 a p q (dec_exp p q) 1 in sign @ show_decimal c x)"

definition write_number :: "number \<Rightarrow> string hop_result" where
  "write_number x = (case x of
     NInt v \<Rightarrow> Inr (if sint v < 0 then CHR ''-'' # show_dec (- sint v) else show_dec (sint v))
   | NUint v \<Rightarrow> Inr (show_dec (uint v))
   | NFloat v \<Rightarrow> if f64_is_finite v then Inr (f64_display v) else Inl NotFinite)"

definition hex_char :: "int \<Rightarrow> char" where
  "hex_char d = (if d < 10 then char_of (48 + d) else char_of (87 + d))"

definition hex_escape :: "int \<Rightarrow> string" where
  "hex_escape c = [CHR 0x5C, CHR ''u'', hex_char (c div 4096 mod 16), hex_char (c div 256 mod 16),
     hex_char (c div 16 mod 16), hex_char (c mod 16)]"

definition escape_char :: "char \<Rightarrow> string option" where
  "escape_char c =
     (if c = CHR 0x22 then Some [CHR 0x5C, CHR 0x22]
      else if c = CHR 0x5C then Some [CHR 0x5C, CHR 0x5C]
      else if c = CHR 0x0A then Some [CHR 0x5C, CHR ''n'']
      else if c = CHR 0x0D then Some [CHR 0x5C, CHR ''r'']
      else if c = CHR 0x09 then Some [CHR 0x5C, CHR ''t'']
      else if ord c < 32 \<or> c = CHR ''<'' \<or> c = CHR ''>'' \<or> c = CHR 0x26 then Some (hex_escape (ord c))
      else None)"

text \<open>The body of a string: U+2028 and U+2029 are the byte sequences E2 80 A8 and E2 80 A9.\<close>

function escape_text :: "string \<Rightarrow> string" where
  "escape_text s = (case s of
     [] \<Rightarrow> []
   | c # r \<Rightarrow>
       if take 3 s = [CHR 0xE2, CHR 0x80, CHR 0xA8] then hex_escape 0x2028 @ escape_text (drop 3 s)
       else if take 3 s = [CHR 0xE2, CHR 0x80, CHR 0xA9] then hex_escape 0x2029 @ escape_text (drop 3 s)
       else (case escape_char c of
               Some e \<Rightarrow> e @ escape_text r
             | None \<Rightarrow> c # escape_text r))"
  by pat_completeness auto
termination
  by (relation "measure length") auto

declare escape_text.simps [simp del]

definition write_string :: "string \<Rightarrow> string" where
  "write_string s = CHR 0x22 # escape_text s @ [CHR 0x22]"

fun write_value :: "jvalue \<Rightarrow> string hop_result"
and write_items :: "jvalue list \<Rightarrow> string hop_result"
and write_fields :: "object \<Rightarrow> string hop_result" where
  "write_value Null = Inr ''null''"
| "write_value (Bool b) = Inr (if b then ''true'' else ''false'')"
| "write_value (Number x) = write_number x"
| "write_value (String s) = Inr (write_string s)"
| "write_value (Array vs) = bindR (write_items vs) (\<lambda>t. Inr (CHR ''['' # t @ '']''))"
| "write_value (Object ps) = bindR (write_fields ps) (\<lambda>t. Inr (CHR ''{'' # t @ ''}''))"
| "write_items [] = Inr []"
| "write_items (v # vs) = bindR (write_value v) (\<lambda>a. bindR (write_items vs) (\<lambda>b.
     Inr (if vs = [] then a else a @ '','' @ b)))"
| "write_fields [] = Inr []"
| "write_fields ((k, v) # ps) = bindR (write_value v) (\<lambda>a. bindR (write_fields ps) (\<lambda>b.
     Inr (write_string k @ '':'' @ a @ (if ps = [] then [] else '','' @ b))))"

definition to_string :: "jvalue \<Rightarrow> string hop_result" where
  "to_string v = write_value v"

end
