(* ===== verification/JsonRoundtrip.thy ===== *)
theory JsonRoundtrip
  imports JsonText
begin

text \<open>
  What the writer produces, the parser reads back: numbers, strings and whole documents.
\<close>

section \<open>Decimal digits\<close>

lemma ord_digit_char: "0 \<le> d \<Longrightarrow> d < 10 \<Longrightarrow> ord (digit_char d) = 48 + d"
  by (simp add: digit_char_def of_char_of)

lemma is_digit_digit_char [simp]: "0 \<le> d \<Longrightarrow> d < 10 \<Longrightarrow> is_digit (digit_char d)"
  by (simp add: is_digit_def ord_digit_char)

lemma read_dec_snoc: "read_dec (s @ [c]) = 10 * read_dec s + (ord c - 48)"
  by (simp add: read_dec_def)

lemma show_dec_facts:
  assumes "0 \<le> n"
  shows "show_dec n \<noteq> [] \<and> list_all is_digit (show_dec n) \<and> read_dec (show_dec n) = n
    \<and> (hd (show_dec n) = CHR ''0'' \<longleftrightarrow> n = 0) \<and> (n = 0 \<longrightarrow> show_dec n = ''0'')"
  using assms
proof (induction n rule: show_dec.induct)
  case (1 n)
  show ?case
  proof (cases "n < 10")
    case True
    have z: "CHR ''0'' = digit_char 0" by (simp add: digit_char_def char_of_def)
    have "digit_char n = digit_char 0 \<longleftrightarrow> n = 0"
      using True "1.prems" ord_digit_char [of n] ord_digit_char [of 0] by auto
    then show ?thesis
      using True "1.prems" by (simp add: show_dec.simps read_dec_def ord_digit_char z)
  next
    case False
    then have "show_dec (n div 10) \<noteq> [] \<and> list_all is_digit (show_dec (n div 10))
      \<and> read_dec (show_dec (n div 10)) = n div 10 \<and> hd (show_dec (n div 10)) \<noteq> CHR ''0''"
      using "1.IH" by auto
    then show ?thesis
      using False by (subst (1 2 3 4 5) show_dec.simps) (auto simp: read_dec_snoc ord_digit_char)
  qed
qed

lemmas show_dec_nonempty = show_dec_facts [THEN conjunct1]
lemmas show_dec_digits = show_dec_facts [THEN conjunct2, THEN conjunct1]
lemmas read_show_dec = show_dec_facts [THEN conjunct2, THEN conjunct2, THEN conjunct1]

lemma digit_not [simp]:
  "\<not> is_digit CHR ''-''" "\<not> is_digit CHR ''.''" "\<not> is_digit CHR ''e''" "\<not> is_digit CHR ''E''"
  "\<not> is_digit CHR '',''" "\<not> is_digit CHR ''}''" "\<not> is_digit CHR '']''" "is_digit CHR ''0''"
  by (simp_all add: is_digit_def)

section \<open>Number texts\<close>

text \<open>The number texts the writer produces: an optional sign, a whole part without superfluous
  zeros, an optional fraction.\<close>

definition whole_text :: "string \<Rightarrow> bool" where
  "whole_text w \<longleftrightarrow> w \<noteq> [] \<and> list_all is_digit w \<and> (hd w = CHR ''0'' \<longrightarrow> w = ''0'')"

definition fraction_text :: "string \<Rightarrow> bool" where
  "fraction_text f \<longleftrightarrow> f = [] \<or> (\<exists>ds. f = CHR ''.'' # ds \<and> ds \<noteq> [] \<and> list_all is_digit ds)"

definition number_text :: "string \<Rightarrow> bool" where
  "number_text t \<longleftrightarrow> (\<exists>sg w f. t = sg @ w @ f \<and> sg \<in> {[], ''-''} \<and> whole_text w \<and> fraction_text f)"

text \<open>What a number may be followed by.\<close>

definition number_end :: "string \<Rightarrow> bool" where
  "number_end s \<longleftrightarrow> (case s of [] \<Rightarrow> True
     | c # _ \<Rightarrow> \<not> is_digit c \<and> c \<noteq> CHR ''.'' \<and> c \<noteq> CHR ''e'' \<and> c \<noteq> CHR ''E'')"

definition read_number :: "string \<Rightarrow> number" where
  "read_number text =
     (if CHR ''.'' \<in> set text then NFloat (parse_f64 text)
      else case parse_u64 text of
             Some v \<Rightarrow> NUint v
           | None \<Rightarrow> (case parse_i64 text of Some v \<Rightarrow> NInt v | None \<Rightarrow> NFloat (parse_f64 text)))"

lemma dropWhile_digits:
  "list_all is_digit w \<Longrightarrow> (s = [] \<or> \<not> is_digit (hd s)) \<Longrightarrow> dropWhile is_digit (w @ s) = s"
  by (induction w) (cases s, auto)+

lemma takeWhile_digits:
  "list_all is_digit w \<Longrightarrow> (s = [] \<or> \<not> is_digit (hd s)) \<Longrightarrow> takeWhile is_digit (w @ s) = w"
  by (induction w) (cases s, auto)+

lemma p_whole_text:
  assumes "whole_text w" and "s = [] \<or> \<not> is_digit (hd s)"
  shows "p_whole n (w @ s) = Inr s"
proof (cases w)
  case (Cons c r)
  then show ?thesis
    using assms dropWhile_digits [of w s] by (auto simp: whole_text_def p_whole_def)
qed (use assms in \<open>simp add: whole_text_def\<close>)

lemma p_fraction_text:
  assumes "fraction_text f" and "number_end s"
  shows "p_fraction n (f @ s) = Inr (f \<noteq> [], s)"
proof (cases "f = []")
  case True
  then show ?thesis
    using assms(2) by (auto simp: p_fraction_def number_end_def split: list.splits)
next
  case False
  then obtain ds where f: "f = CHR ''.'' # ds" "ds \<noteq> []" "list_all is_digit ds"
    using assms(1) by (auto simp: fraction_text_def)
  have "s = [] \<or> \<not> is_digit (hd s)"
    using assms(2) by (auto simp: number_end_def split: list.splits)
  then show ?thesis
    using f takeWhile_digits [of ds s] dropWhile_digits [of ds s]
    by (simp add: p_fraction_def p_digits1_def)
qed

lemma p_number_text:
  assumes "number_text t" and "number_end s"
  shows "p_number n (t @ s) = Inr (read_number t, s)"
proof -
  obtain sg w f where t: "t = sg @ w @ f" "sg \<in> {[], ''-''}" "whole_text w" "fraction_text f"
    using assms(1) by (auto simp: number_text_def)
  obtain c r where w: "w = c # r" "is_digit c"
    using t(3) by (cases w) (auto simp: whole_text_def)
  have rest: "(if starts_with (t @ s) ''-'' then tl (t @ s) else t @ s) = w @ f @ s"
    using t(1,2) w by auto
  have "f @ s = [] \<or> \<not> is_digit (hd (f @ s))"
    using t(4) assms(2) by (cases s) (auto simp: fraction_text_def number_end_def)
  then have a: "p_whole n (w @ f @ s) = Inr (f @ s)"
    using p_whole_text t(3) by blast
  have b: "p_fraction n (f @ s) = Inr (f \<noteq> [], s)"
    using p_fraction_text t(4) assms(2) by blast
  have c: "p_exponent n s = Inr (False, s)"
    using assms(2) by (auto simp: p_exponent_def number_end_def split: list.splits)
  have dot: "CHR ''.'' \<in> set t \<longleftrightarrow> f \<noteq> []"
    using t by (auto simp: fraction_text_def whole_text_def list_all_iff)
  show ?thesis
    unfolding p_number_def rest a
    using b c dot by (simp add: read_number_def Let_def cong: option.case_cong)
qed

section \<open>UTF-8\<close>

lemma follows_append: "follows s ps \<Longrightarrow> follows (s @ t) ps"
  by (simp add: follows_def)

lemma follows_take: "follows s ps \<Longrightarrow> length ps \<le> k \<Longrightarrow> follows (take k s) ps"
  by (simp add: follows_def min_def)

lemma follows_tail:
  "follows s ps \<Longrightarrow> \<forall>p \<in> set ps. \<forall>c. p c \<longrightarrow> 128 \<le> ord c \<and> ord c \<le> 191 \<Longrightarrow>
     list_all (\<lambda>c. 128 \<le> ord c \<and> ord c \<le> 191) (take (length ps) s)"
  by (auto simp: follows_def list_all2_conv_all_nth list_all_length) (metis nth_mem)+

lemma utf8_second_range: "utf8_second c d \<Longrightarrow> 128 \<le> ord d \<and> ord d \<le> 191"
  by (auto simp: utf8_second_def in_range_def split: if_splits)

lemma utf8_len_Cons:
  "utf8_len (c # r) =
     (if ord c < 128 then Some 1
      else if in_range 194 223 c \<and> follows r [utf8_second c] then Some 2
      else if in_range 224 239 c \<and> follows r [utf8_second c, in_range 128 191] then Some 3
      else if in_range 240 244 c \<and> follows r [utf8_second c, in_range 128 191, in_range 128 191]
      then Some 4 else None)"
  by (auto simp: utf8_len_def Let_def in_range_def)

text \<open>The first character of a byte string: at most its length, ended by continuation bytes.\<close>

lemma utf8_len_Some:
  assumes "utf8_len s = Some k"
  shows "\<exists>c r. s = c # r \<and> k \<le> length s \<and> 0 < k
    \<and> (ord c < 128 \<longleftrightarrow> k = 1) \<and> (k \<noteq> 1 \<longrightarrow> 194 \<le> ord c)
    \<and> list_all (\<lambda>c. 128 \<le> ord c \<and> ord c \<le> 191) (take (k - 1) r)
    \<and> (\<forall>t. utf8_len (take k s @ t) = Some k)"
proof -
  obtain c r where s: "s = c # r"
    using assms by (cases s) (auto simp: utf8_len_def)
  have cont: "\<forall>p \<in> set [utf8_second c, in_range 128 191, in_range 128 191]. \<forall>c. p c \<longrightarrow> 128 \<le> ord c \<and> ord c \<le> 191"
    using utf8_second_range by (auto simp: in_range_def)
  consider (one) "ord c < 128" "k = 1"
    | (two) "194 \<le> ord c" "in_range 194 223 c" "k = 2" "follows r [utf8_second c]"
    | (three) "194 \<le> ord c" "in_range 224 239 c" "k = 3" "follows r [utf8_second c, in_range 128 191]"
    | (four) "194 \<le> ord c" "in_range 240 244 c" "k = 4" "follows r [utf8_second c, in_range 128 191, in_range 128 191]"
    using assms s by (auto simp: utf8_len_Cons in_range_def split: if_splits)
  then show ?thesis
  proof cases
    case one
    then show ?thesis using s by (simp add: utf8_len_Cons)
  next
    case two
    have "follows (take 1 r @ t) [utf8_second c]" for t
      by (intro follows_append follows_take two(4)) simp
    then show ?thesis
      using s two follows_tail [OF two(4)] cont by (auto simp: utf8_len_Cons follows_def)
  next
    case three
    have "follows (take 2 r @ t) [utf8_second c, in_range 128 191]" for t
      by (intro follows_append follows_take three(4)) simp
    then show ?thesis
      using s three follows_tail [OF three(4)] cont
      by (auto simp: utf8_len_Cons follows_def in_range_def numeral_2_eq_2 numeral_3_eq_3)
  next
    case four
    have "follows (take 3 r @ t) [utf8_second c, in_range 128 191, in_range 128 191]" for t
      by (intro follows_append follows_take four(4)) simp
    then show ?thesis
      using s four follows_tail [OF four(4)] cont
      by (auto simp: utf8_len_Cons follows_def in_range_def eval_nat_numeral)
  qed
qed

lemma utf8_valid_Nil [simp]: "utf8_valid []"
  by (simp add: utf8_valid_def utf8_up_to.simps utf8_len_def)

lemma utf8_valid_step:
  "utf8_len s = Some k \<Longrightarrow> utf8_valid s \<longleftrightarrow> utf8_valid (drop k s)"
  using utf8_len_Some [of s k] by (auto simp: utf8_valid_def utf8_up_to.simps [of s])

lemma utf8_valid_len: "utf8_valid s \<Longrightarrow> s \<noteq> [] \<Longrightarrow> \<exists>k. utf8_len s = Some k"
  by (auto simp: utf8_valid_def utf8_up_to.simps [of s] split: option.splits)

lemma utf8_valid_append:
  assumes "utf8_valid a" and "utf8_valid b"
  shows "utf8_valid (a @ b)"
  using assms(1)
proof (induction a rule: utf8_up_to.induct)
  case (1 a)
  show ?case
  proof (cases "a = []")
    case False
    then obtain k where k: "utf8_len a = Some k"
      using "1.prems" utf8_valid_len by blast
    note f = utf8_len_Some [OF k]
    have "utf8_len (a @ b) = Some k"
      using f by (metis append_assoc append_take_drop_id)
    moreover have "utf8_valid (drop k a @ b)"
      using "1.IH" [OF k] "1.prems" utf8_valid_step [OF k] by blast
    moreover have "drop k (a @ b) = drop k a @ b"
      using f by auto
    ultimately show ?thesis
      using utf8_valid_step [of "a @ b" k] by simp
  qed (use assms(2) in simp)
qed

lemma utf8_valid_first:
  assumes "utf8_len s = Some k"
  shows "utf8_valid (take k s)"
proof -
  have "utf8_len (take k s) = Some k"
    using utf8_len_Some [OF assms] by (metis append_Nil2)
  then show ?thesis
    using utf8_valid_step [of "take k s" k] by simp
qed

section \<open>Strings\<close>

lemma ord_range: "0 \<le> ord c \<and> ord c \<le> 255"
  using of_char_of [where ?'a = int] by (cases c) (auto simp: horner_sum_simps)

lemma ord_eq_iff: "ord c = ord d \<longleftrightarrow> c = d"
  by simp

lemma hex_digit_char: "0 \<le> d \<Longrightarrow> d < 16 \<Longrightarrow> hex_digit (hex_char d) = Some d"
  by (auto simp: hex_digit_def hex_char_def is_digit_def in_range_def of_char_of)

lemma hex_compose:
  assumes "0 \<le> c" and "c < 65536"
  shows "(((c div 4096 mod 16) * 16 + c div 256 mod 16) * 16 + c div 16 mod 16) * 16 + c mod 16 = (c :: int)"
proof -
  have d: "c div 256 = c div 16 div 16" "c div 4096 = c div 256 div 16"
    by (simp_all add: zdiv_zmult2_eq [symmetric])
  have "c div 4096 < 16" "0 \<le> c div 4096"
    using assms by (simp_all add: int_div_less_self div_less_iff_less_mult)
  then have "c div 4096 mod 16 = c div 4096" by simp
  then have "(c div 4096 mod 16) * 16 + c div 256 mod 16 = c div 256"
    by (simp only: d(2) div_mult_mod_eq)
  then show ?thesis
    by (simp only: d(1) div_mult_mod_eq)
qed

lemma p_hex_four:
  assumes "hex_digit c1 = Some a" "hex_digit c2 = Some b" "hex_digit c3 = Some d" "hex_digit c4 = Some e"
  shows "p_hex4 n (c1 # c2 # c3 # c4 # s) = Inr (((a * 16 + b) * 16 + d) * 16 + e, s)"
proof -
  have "(4 :: nat) = Suc (Suc (Suc (Suc 0)))" by simp
  then show ?thesis
    using assms by (simp only: p_hex4_def p_hex.simps option.case mult_zero_left add_0)
qed

lemma p_hex4_escape:
  assumes "0 \<le> c" and "c < 65536"
  shows "p_hex4 n (drop 2 (hex_escape c) @ s) = Inr (c, s)"
proof -
  have "drop 2 (hex_escape c) @ s = hex_char (c div 4096 mod 16) # hex_char (c div 256 mod 16)
      # hex_char (c div 16 mod 16) # hex_char (c mod 16) # s"
    by (simp add: hex_escape_def)
  moreover have "hex_digit (hex_char (x mod 16)) = Some (x mod 16)" for x
    by (rule hex_digit_char) simp_all
  ultimately show ?thesis
    by (simp only: p_hex_four hex_compose [OF assms])
qed

lemma p_escape_hex:
  assumes "0 \<le> c" and "c < 65536" and "\<not> (0xD800 \<le> c \<and> c < 0xDC00)"
  shows "p_escape n (tl (hex_escape c) @ s) = Inr (utf8_encode c, s)"
proof -
  have "p_unicode n (drop 2 (hex_escape c) @ s) = Inr (utf8_encode c, s)"
    unfolding p_unicode_def p_hex4_escape [OF assms(1,2)] using assms(3) by auto
  then show ?thesis
    by (simp add: p_escape_def hex_escape_def)
qed

lemma p_string_plain:
  assumes "utf8_valid run" and "list_all plain run"
  shows "p_string n out (run @ CHR 0x22 # s) = Inr (out @ run, s)"
proof -
  have "takeWhile plain (run @ CHR 0x22 # s) = run" "dropWhile plain (run @ CHR 0x22 # s) = CHR 0x22 # s"
    using assms(2) by (simp_all add: list_all_iff takeWhile_append2 dropWhile_append2 plain_def)
  then show ?thesis
    using assms(1) by (subst p_string.simps) simp
qed

lemma p_string_escape:
  assumes "utf8_valid run" and "list_all plain run" and "p_escape n s = Inr (x, s')"
  shows "p_string n out (run @ CHR 0x5C # s) = p_string n (out @ run @ x) s'"
proof -
  have "takeWhile plain (run @ CHR 0x5C # s) = run" "dropWhile plain (run @ CHR 0x5C # s) = CHR 0x5C # s"
    using assms(2) by (simp_all add: list_all_iff takeWhile_append2 dropWhile_append2 plain_def)
  then show ?thesis
    using assms(1,3) by (subst p_string.simps) simp
qed

text \<open>Every escape the writer uses, read back.\<close>

lemma escape_char_read:
  assumes "escape_char c = Some e"
  shows "\<exists>t. e = CHR 0x5C # t \<and> (\<forall>n s. p_escape n (t @ s) = Inr ([c], s))"
proof -
  have *: "\<exists>t. hex_escape (ord c) = CHR 0x5C # t \<and> (\<forall>n s. p_escape n (t @ s) = Inr ([c], s))"
    if "ord c < 128"
  proof -
    have "hex_escape (ord c) = CHR 0x5C # tl (hex_escape (ord c))" by (simp add: hex_escape_def)
    moreover have "utf8_encode (ord c) = [c]"
      using that ord_range [of c] by (simp add: utf8_encode_def)
    moreover have "p_escape n (tl (hex_escape (ord c)) @ s) = Inr (utf8_encode (ord c), s)" for n s
      using that ord_range [of c] by (intro p_escape_hex) auto
    ultimately show ?thesis by metis
  qed
  have h: "128 > ord c" if "ord c < 32 \<or> c = CHR ''<'' \<or> c = CHR ''>'' \<or> c = CHR 0x26"
    using that by auto
  consider "c = CHR 0x22" | "c = CHR 0x5C" | "c = CHR 0x0A" | "c = CHR 0x0D" | "c = CHR 0x09"
    | (hex) "c \<noteq> CHR 0x22" "c \<noteq> CHR 0x5C" "c \<noteq> CHR 0x0A" "c \<noteq> CHR 0x0D" "c \<noteq> CHR 0x09"
    by blast
  then show ?thesis
  proof cases
    case hex
    then have "e = hex_escape (ord c)" "ord c < 128"
      using assms h by (simp_all add: escape_char_def split: if_splits)
    then show ?thesis using * by simp
  qed (use assms in \<open>auto simp: escape_char_def p_escape_def\<close>)
qed

lemma high_char_not:
  assumes "128 \<le> ord c"
  shows "c \<noteq> CHR 0x22" "c \<noteq> CHR 0x5C" "c \<noteq> CHR 0x0A" "c \<noteq> CHR 0x0D" "c \<noteq> CHR 0x09"
    "c \<noteq> CHR ''<''" "c \<noteq> CHR ''>''" "c \<noteq> CHR 0x26"
  using assms by auto

lemma escape_char_None: "escape_char c = None \<Longrightarrow> plain c"
  by (auto simp: escape_char_def plain_def split: if_splits)

lemma escape_char_high: "128 \<le> ord c \<Longrightarrow> escape_char c = None"
  by (simp add: escape_char_def high_char_not)

lemma escape_text_Cons:
  assumes "c \<noteq> CHR 0xE2"
  shows "escape_text (c # r) = (case escape_char c of Some e \<Rightarrow> e @ escape_text r | None \<Rightarrow> c # escape_text r)"
  using assms by (subst escape_text.simps) simp

lemma escape_text_tail:
  "list_all (\<lambda>c. 128 \<le> ord c \<and> ord c \<le> 191) t \<Longrightarrow> escape_text (t @ r) = t @ escape_text r"
proof (induction t)
  case (Cons c t)
  have "c \<noteq> CHR 0xE2" using Cons.prems by auto
  then show ?case
    using Cons by (simp add: escape_text_Cons escape_char_high)
qed simp

lemma utf8_encode_separators:
  "utf8_encode 0x2028 = [CHR 0xE2, CHR 0x80, CHR 0xA8]"
  "utf8_encode 0x2029 = [CHR 0xE2, CHR 0x80, CHR 0xA9]"
  by (simp_all add: utf8_encode_def char_of_def)

lemma p_escape_separators:
  "p_escape n (tl (hex_escape 0x2028) @ s) = Inr ([CHR 0xE2, CHR 0x80, CHR 0xA8], s)"
  "p_escape n (tl (hex_escape 0x2029) @ s) = Inr ([CHR 0xE2, CHR 0x80, CHR 0xA9], s)"
  using p_escape_hex [of "0x2028" n s] p_escape_hex [of "0x2029" n s]
  by (simp_all add: utf8_encode_separators)

text \<open>One whole character of the text: written as it is, or as an escape that reads back.\<close>

lemma escape_first:
  assumes "utf8_len s = Some k"
  shows "(escape_text s = take k s @ escape_text (drop k s) \<and> list_all plain (take k s))
    \<or> (\<exists>t. escape_text s = CHR 0x5C # t @ escape_text (drop k s)
         \<and> (\<forall>n r. p_escape n (t @ r) = Inr (take k s, r)))"
proof -
  obtain c r where s: "s = c # r" and k: "k \<le> length s" "0 < k" "ord c < 128 \<longleftrightarrow> k = 1"
    "k \<noteq> 1 \<longrightarrow> 194 \<le> ord c" and tail: "list_all (\<lambda>c. 128 \<le> ord c \<and> ord c \<le> 191) (take (k - 1) r)"
    using utf8_len_Some [OF assms] by auto
  show ?thesis
  proof (cases "k = 1")
    case True
    then have "c \<noteq> CHR 0xE2" using k(3) by auto
    then show ?thesis
      using s True escape_char_read [of c] escape_char_None [of c]
      by (cases "escape_char c") (auto simp: escape_text_Cons)
  next
    case False
    consider (ls) "take 3 s = [CHR 0xE2, CHR 0x80, CHR 0xA8]" | (ps) "take 3 s = [CHR 0xE2, CHR 0x80, CHR 0xA9]"
      | (other) "take 3 s \<noteq> [CHR 0xE2, CHR 0x80, CHR 0xA8]" "take 3 s \<noteq> [CHR 0xE2, CHR 0x80, CHR 0xA9]"
      by blast
    then show ?thesis
    proof cases
      case ls
      then have c: "c = CHR 0xE2" using s by simp
      then have "k = 3"
        using assms s False by (auto simp: utf8_len_Cons in_range_def split: if_splits)
      then have "escape_text s = CHR 0x5C # tl (hex_escape 0x2028) @ escape_text (drop k s)"
        using ls s by (subst escape_text.simps) (simp add: hex_escape_def)
      then show ?thesis
        using ls \<open>k = 3\<close> by (auto simp: p_escape_separators)
    next
      case ps
      then have c: "c = CHR 0xE2" using s by simp
      then have "k = 3"
        using assms s False by (auto simp: utf8_len_Cons in_range_def split: if_splits)
      then have "escape_text s = CHR 0x5C # tl (hex_escape 0x2029) @ escape_text (drop k s)"
        using ps s by (subst escape_text.simps) (simp add: hex_escape_def)
      then show ?thesis
        using ps \<open>k = 3\<close> by (auto simp: p_escape_separators)
    next
      case other
      have hi: "194 \<le> ord c" using k False by simp
      have "escape_text s = c # escape_text r"
        using other s hi by (subst escape_text.simps) (auto simp: escape_char_high)
      also have "escape_text r = take (k - 1) r @ escape_text (drop (k - 1) r)"
        using escape_text_tail [OF tail, of "drop (k - 1) r"] by simp
      finally have "escape_text s = take k s @ escape_text (drop k s)"
        using s k(2) by (simp add: take_Cons' drop_Cons')
      moreover have "plain x" if "128 \<le> ord x" for x
        using escape_char_None escape_char_high [OF that] by blast
      then have "list_all plain (take k s)"
        using tail hi s k(2) by (auto simp: take_Cons' list_all_iff)
      ultimately show ?thesis by blast
    qed
  qed
qed

lemma p_string_escaped:
  assumes "utf8_valid s" and "utf8_valid run" and "list_all plain run"
  shows "p_string n out (run @ escape_text s @ CHR 0x22 # rest) = Inr (out @ run @ s, rest)"
  using assms
proof (induction s arbitrary: run out rule: utf8_up_to.induct)
  case (1 s)
  show ?case
  proof (cases "s = []")
    case True
    then show ?thesis using "1.prems" by (simp add: escape_text.simps p_string_plain)
  next
    case False
    then obtain k where k: "utf8_len s = Some k"
      using "1.prems"(1) utf8_valid_len by blast
    have v: "utf8_valid (drop k s)"
      using "1.prems"(1) utf8_valid_step [OF k] by simp
    have IH: "p_string n out (run @ escape_text (drop k s) @ CHR 0x22 # rest) = Inr (out @ run @ drop k s, rest)"
      if "utf8_valid run" "list_all plain run" for run out
      using "1.IH" [OF k] v that by blast
    from escape_first [OF k] show ?thesis
    proof (elim disjE conjE exE)
      assume "escape_text s = take k s @ escape_text (drop k s)" "list_all plain (take k s)"
      then show ?thesis
        using IH [of "run @ take k s" out] "1.prems"(2,3) utf8_valid_append utf8_valid_first [OF k]
        by simp
    next
      fix t
      assume t: "escape_text s = CHR 0x5C # t @ escape_text (drop k s)"
        "\<forall>n r. p_escape n (t @ r) = Inr (take k s, r)"
      then have "p_string n out (run @ escape_text s @ CHR 0x22 # rest)
        = p_string n (out @ run @ take k s) (escape_text (drop k s) @ CHR 0x22 # rest)"
        using p_string_escape [OF "1.prems"(2,3)] by simp
      then show ?thesis
        using IH [of "[]" "out @ run @ take k s"] by simp
    qed
  qed
qed

lemma p_string_write:
  "utf8_valid s \<Longrightarrow> p_string n [] (tl (write_string s) @ rest) = Inr (s, rest)"
  using p_string_escaped [of s "[]" n "[]" rest] by (simp add: write_string_def)

section \<open>Numbers read back\<close>

lemma show_dec_whole: "0 \<le> n \<Longrightarrow> whole_text (show_dec n)"
  using show_dec_facts [of n] by (auto simp: whole_text_def)

lemma show_dec_number: "0 \<le> n \<Longrightarrow> number_text (show_dec n)"
  unfolding number_text_def using show_dec_whole
  by (intro exI [of _ "[]"] exI [of _ "show_dec n"]) (simp add: fraction_text_def)

lemma show_dec_negative: "0 \<le> n \<Longrightarrow> number_text (CHR ''-'' # show_dec n)"
  unfolding number_text_def using show_dec_whole
  by (intro exI [of _ "''-''"] exI [of _ "show_dec n"] exI [of _ "[]"]) (simp add: fraction_text_def)

lemma no_dot_digits: "list_all is_digit s \<Longrightarrow> CHR ''.'' \<notin> set s"
  by (auto simp: list_all_iff)

lemma read_number_nat:
  assumes "0 \<le> n" and "n < 2 ^ 64"
  shows "read_number (show_dec n) = NUint (word_of_int n)"
  using assms show_dec_facts [OF assms(1)] no_dot_digits [of "show_dec n"]
  by (simp add: read_number_def parse_u64_def)

lemma read_number_neg:
  assumes "0 \<le> n" and "n \<le> 2 ^ 63"
  shows "read_number (CHR ''-'' # show_dec n) = NInt (word_of_int (- n))"
  using assms show_dec_facts [OF assms(1)] no_dot_digits [of "show_dec n"]
  by (simp add: read_number_def parse_u64_def parse_i64_def)

text \<open>The text of a finite \<open>Float\<close> is a number, too.\<close>

lemma dec_exp_up_bound:
  "0 < q \<Longrightarrow> q \<le> p \<Longrightarrow> 0 < dec_exp_up p q \<and> q * 10 ^ nat (dec_exp_up p q - 1) \<le> p"
proof (induction p q rule: dec_exp_up.induct)
  case (1 p q)
  show ?case
  proof (cases "p < 10 * q")
    case True
    then have "dec_exp_up p (10 * q) = 0" by (simp add: dec_exp_up.simps)
    then show ?thesis using "1.prems" by (simp add: dec_exp_up.simps [of p q])
  next
    case False
    then have ih: "0 < dec_exp_up p (10 * q)" "10 * q * 10 ^ nat (dec_exp_up p (10 * q) - 1) \<le> p"
      using "1.IH" "1.prems" by auto
    then have "nat (dec_exp_up p (10 * q)) = Suc (nat (dec_exp_up p (10 * q) - 1))" by simp
    then show ?thesis
      using ih "1.prems" by (simp add: dec_exp_up.simps [of p q] algebra_simps)
  qed
qed

lemma dec_exp_down_bound:
  "0 < p \<Longrightarrow> p < q \<Longrightarrow> dec_exp_down p q \<le> 0 \<and> q \<le> 10 * p * 10 ^ nat (- dec_exp_down p q)"
proof (induction p q rule: dec_exp_down.induct)
  case (1 p q)
  show ?case
  proof (cases "q \<le> 10 * p")
    case True
    then show ?thesis by (simp add: dec_exp_down.simps)
  next
    case False
    then have ih: "dec_exp_down (10 * p) q \<le> 0"
      "q \<le> 10 * (10 * p) * 10 ^ nat (- dec_exp_down (10 * p) q)"
      using "1.IH" "1.prems" by auto
    have e: "dec_exp_down p q = dec_exp_down (10 * p) q - 1"
      using False "1.prems" by (simp add: dec_exp_down.simps [of p q])
    have "nat (- dec_exp_down p q) = Suc (nat (- dec_exp_down (10 * p) q))"
      using ih e by simp
    then have "10 * p * 10 ^ nat (- dec_exp_down p q) = 10 * (10 * p) * 10 ^ nat (- dec_exp_down (10 * p) q)"
      by (simp only: power_Suc)
    moreover have "dec_exp_down p q \<le> 0" using ih(1) e by linarith
    ultimately show ?thesis using ih(2) by linarith
  qed
qed

lemma dec_fallback_positive:
  assumes "0 < p" and "0 < q" and "1 \<le> j"
  shows "0 < p * 10 ^ nat (int j - dec_exp p q) div (q * 10 ^ nat (dec_exp p q - int j))"
proof -
  let ?e = "dec_exp p q"
  have "q * 10 ^ nat (?e - int j) \<le> p * 10 ^ nat (int j - ?e)"
  proof (cases "p < q")
    case True
    then have d: "?e \<le> 0" "q \<le> 10 * p * 10 ^ nat (- ?e)"
      using dec_exp_down_bound [OF assms(1) True] by (simp_all add: dec_exp_def)
    have "(10 :: int) ^ Suc (nat (- ?e)) \<le> 10 ^ nat (int j - ?e)"
      using d(1) assms(3) by (intro power_increasing) auto
    then have "p * 10 ^ Suc (nat (- ?e)) \<le> p * 10 ^ nat (int j - ?e)"
      using assms(1) by (intro mult_left_mono) auto
    then show ?thesis using d assms(3) by (simp add: algebra_simps)
  next
    case False
    then have d: "0 < ?e" "q * 10 ^ nat (?e - 1) \<le> p"
      using dec_exp_up_bound [OF assms(2), of p] by (simp_all add: dec_exp_def)
    have "(10 :: int) ^ nat (?e - int j) \<le> 10 ^ nat (?e - 1)"
      using assms(3) by (intro power_increasing) auto
    then have "q * 10 ^ nat (?e - int j) \<le> q * 10 ^ nat (?e - 1)"
      using assms(2) by (intro mult_left_mono) auto
    also have "\<dots> \<le> p * 1" using d by simp
    also have "\<dots> \<le> p * 10 ^ nat (int j - ?e)"
      using assms(1) by (intro mult_left_mono) auto
    finally show ?thesis .
  qed
  then show ?thesis
    using assms(2) by (simp add: pos_imp_zdiv_pos_iff)
qed

lemma dec_search_positive:
  assumes "0 < p" and "0 < q" and "1 \<le> j"
  shows "0 < fst (dec_search k v p q (dec_exp p q) j)"
  using assms(3)
proof (induction k arbitrary: j)
  case 0
  then show ?case using dec_fallback_positive [OF assms(1,2)] by simp
next
  case (Suc k)
  have "dec_try v p q x = Some c \<Longrightarrow> 0 < c" for x c
    by (auto simp: dec_try_def Let_def split: if_splits)
  then show ?case
    using Suc by (auto split: option.splits)
qed

lemma show_decimal_number:
  assumes "0 < c"
  shows "\<exists>w f. show_decimal c x = w @ f \<and> whole_text w \<and> fraction_text f"
proof -
  let ?ds = "show_dec c"
  have ds: "?ds \<noteq> []" "list_all is_digit ?ds" "hd ?ds \<noteq> CHR ''0''"
    using show_dec_facts [of c] assms by auto
  consider (whole) "0 \<le> x" | (split) "x < 0" "0 < int (length ?ds) + x" | (small) "x < 0" "int (length ?ds) + x \<le> 0"
    by linarith
  then show ?thesis
  proof cases
    case whole
    have "whole_text (?ds @ replicate (nat x) CHR ''0'')"
      using ds by (auto simp: whole_text_def list_all_iff)
    then show ?thesis
      using whole by (intro exI [of _ "?ds @ replicate (nat x) CHR ''0''"] exI [of _ "[]"])
        (simp add: show_decimal_def fraction_text_def)
  next
    case split
    let ?p = "nat (int (length ?ds) + x)"
    have p: "0 < ?p" "?p < length ?ds" using split by auto
    have "whole_text (take ?p ?ds)"
      using ds p by (auto simp: whole_text_def list_all_iff dest: in_set_takeD)
    moreover have "fraction_text (CHR ''.'' # drop ?p ?ds)"
      using ds p by (auto simp: fraction_text_def list_all_iff dest: in_set_dropD)
    ultimately show ?thesis
      using split by (intro exI [of _ "take ?p ?ds"] exI [of _ "CHR ''.'' # drop ?p ?ds"])
        (simp add: show_decimal_def Let_def)
  next
    case small
    let ?z = "replicate (nat (- (int (length ?ds) + x))) CHR ''0''"
    have "fraction_text (CHR ''.'' # ?z @ ?ds)"
      using ds by (auto simp: fraction_text_def list_all_iff)
    then show ?thesis
      using small by (intro exI [of _ "''0''"] exI [of _ "CHR ''.'' # ?z @ ?ds"])
        (simp add: show_decimal_def Let_def whole_text_def)
  qed
qed

lemma f64_num_den_abs: "0 \<le> f64_num (f64_abs v) \<and> 0 < f64_den (f64_abs v)"
proof -
  have m: "0 \<le> f64_mag v" "f64_mag v < 2 ^ 63" by (simp_all add: f64_mag_def)
  have "uint (f64_abs v) = f64_mag v"
    using m by (simp add: f64_abs_def uint_word_of_int)
  then have "\<not> f64_neg (f64_abs v)" using m by (simp add: f64_neg_def)
  moreover have "0 \<le> f64_sig (f64_abs v)"
    by (simp add: f64_sig_def f64_frac_def)
  ultimately show ?thesis
    by (simp add: f64_num_def f64_den_def shl_def)
qed

lemma f64_display_number: "number_text (f64_display v)"
proof -
  have z: "whole_text ''0''" "fraction_text []" by (simp_all add: whole_text_def fraction_text_def)
  have sg: "number_text ((if f64_neg v then ''-'' else []) @ w @ f)"
    if "whole_text w" "fraction_text f" for w f
    unfolding number_text_def using that
    by (intro exI [of _ "if f64_neg v then ''-'' else []"] exI [of _ w] exI [of _ f]) simp
  obtain c x where cx: "dec_search 17 (f64_abs v) (f64_num (f64_abs v)) (f64_den (f64_abs v))
      (dec_exp (f64_num (f64_abs v)) (f64_den (f64_abs v))) 1 = (c, x)" by fastforce
  show ?thesis
  proof (cases "f64_num (f64_abs v) = 0")
    case True
    then show ?thesis
      using sg [OF z] by (simp add: f64_display_def)
  next
    case False
    then have "0 < c"
      using dec_search_positive [of _ _ 1 17 "f64_abs v"] f64_num_den_abs [of v] cx
      by (metis fst_conv le_numeral_extra(4) order_le_imp_less_or_eq)
    then obtain w f where "show_decimal c x = w @ f" "whole_text w" "fraction_text f"
      using show_decimal_number by blast
    then show ?thesis
      using False cx sg by (simp add: f64_display_def)
  qed
qed

text \<open>Every number but a non-finite \<open>Float\<close> has a text.\<close>

definition number_ok :: "number \<Rightarrow> bool" where
  "number_ok x \<longleftrightarrow> (case x of NFloat v \<Rightarrow> f64_is_finite v | _ \<Rightarrow> True)"

lemma number_ok_text: "number_ok x \<Longrightarrow> \<exists>t. write_number x = Inr t \<and> number_text t"
  by (auto simp: number_ok_def write_number_def show_dec_number show_dec_negative f64_display_number
      split: number.splits)

section \<open>Documents\<close>

text \<open>
  What a value becomes when it is written and read: the same tree, with every number as its text
  reads (a non-negative \<open>Int\<close> becomes \<open>Uint\<close>, an integral \<open>Float\<close> an integer).
\<close>

definition reread :: "number \<Rightarrow> number" where
  "reread x = (case write_number x of Inl _ \<Rightarrow> x | Inr t \<Rightarrow> read_number t)"

fun reread_value :: "jvalue \<Rightarrow> jvalue"
and reread_items :: "jvalue list \<Rightarrow> jvalue list"
and reread_fields :: "object \<Rightarrow> object" where
  "reread_value (Number x) = Number (reread x)"
| "reread_value (Array vs) = Array (reread_items vs)"
| "reread_value (Object ps) = Object (reread_fields ps)"
| "reread_value Null = Null"
| "reread_value (Bool b) = Bool b"
| "reread_value (String s) = String s"
| "reread_items [] = []"
| "reread_items (v # vs) = reread_value v # reread_items vs"
| "reread_fields [] = []"
| "reread_fields ((k, v) # ps) = (k, reread_value v) # reread_fields ps"

text \<open>
  The values a program builds: UTF-8 strings, distinct keys, nested at most \<open>d\<close> deep, and no
  infinite or undefined \<open>Float\<close>.
\<close>

fun text_ok :: "nat \<Rightarrow> jvalue \<Rightarrow> bool"
and text_ok_items :: "nat \<Rightarrow> jvalue list \<Rightarrow> bool"
and text_ok_fields :: "nat \<Rightarrow> object \<Rightarrow> bool" where
  "text_ok d (Number x) \<longleftrightarrow> 0 < d \<and> number_ok x"
| "text_ok d (String s) \<longleftrightarrow> 0 < d \<and> utf8_valid s"
| "text_ok d (Array vs) \<longleftrightarrow> 0 < d \<and> text_ok_items (d - 1) vs"
| "text_ok d (Object ps) \<longleftrightarrow> 0 < d \<and> distinct (map fst ps) \<and> text_ok_fields (d - 1) ps"
| "text_ok d v \<longleftrightarrow> 0 < d"
| "text_ok_items d [] \<longleftrightarrow> True"
| "text_ok_items d (v # vs) \<longleftrightarrow> text_ok d v \<and> text_ok_items d vs"
| "text_ok_fields d [] \<longleftrightarrow> True"
| "text_ok_fields d ((k, v) # ps) \<longleftrightarrow> utf8_valid k \<and> text_ok d v \<and> text_ok_fields d ps"

lemma write_value_start:
  assumes "write_value v = Inr t" and "text_ok d v"
  shows "\<exists>c r. t = c # r \<and> \<not> is_ws c \<and> c \<noteq> CHR '']'' \<and> c \<noteq> CHR ''}''"
proof (cases v)
  case (Number x)
  then obtain sg w f where "t = sg @ w @ f" "sg \<in> {[], ''-''}" "whole_text w"
    using assms number_ok_text [of x] by (auto simp: number_text_def)
  moreover have "\<not> is_ws c \<and> c \<noteq> CHR '']'' \<and> c \<noteq> CHR ''}''" if "is_digit c" for c
    using that by (auto simp: is_ws_def is_digit_def)
  ultimately show ?thesis
    by (cases w) (auto simp: whole_text_def is_ws_def)
qed (use assms in \<open>auto simp: result_iff is_ws_def write_string_def\<close>)

lemma skip_ws_start: "\<not> is_ws c \<Longrightarrow> skip_ws (c # r) = c # r"
  by (simp add: skip_ws_def)

lemma number_end_delim [simp]:
  "number_end (CHR '','' # s)" "number_end (CHR '']'' # s)" "number_end (CHR ''}'' # s)" "number_end []"
  by (simp_all add: number_end_def)

lemma skip_ws_delim [simp]:
  "skip_ws (CHR '','' # s) = CHR '','' # s" "skip_ws (CHR '']'' # s) = CHR '']'' # s"
  "skip_ws (CHR ''}'' # s) = CHR ''}'' # s" "skip_ws (CHR '':'' # s) = CHR '':'' # s"
  "skip_ws (CHR 0x22 # s) = CHR 0x22 # s"
  by (simp_all add: skip_ws_def is_ws_def)

lemma p_value_number:
  assumes "number_text t" and "number_end rest"
  shows "p_value n (Suc d) (t @ rest) = Inr (Number (read_number t), rest)"
proof -
  obtain sg w f where t: "t = sg @ w @ f" "sg \<in> {[], ''-''}" "whole_text w"
    using assms(1) by (auto simp: number_text_def)
  then obtain c r where c: "t = c # r" "c = CHR ''-'' \<or> is_digit c"
    by (cases w) (auto simp: whole_text_def)
  have "c \<noteq> CHR ''{'' \<and> c \<noteq> CHR ''['' \<and> c \<noteq> CHR 0x22 \<and> c \<noteq> CHR ''t'' \<and> c \<noteq> CHR ''f'' \<and> c \<noteq> CHR ''n''"
    using c(2) by (auto simp: is_digit_def)
  then show ?thesis
    using p_number_text [OF assms, of n] c by simp
qed

lemma write_items_length: "write_items vs = Inr t \<Longrightarrow> text_ok_items d vs \<Longrightarrow> length vs \<le> length t"
proof (induction vs arbitrary: t)
  case (Cons v vs)
  obtain a b where ab: "write_value v = Inr a" "write_items vs = Inr b" "t = (if vs = [] then a else a @ '','' @ b)"
    using Cons.prems(1) by (auto simp: result_iff)
  then show ?case
    using Cons.IH [OF ab(2)] Cons.prems(2) write_value_start [OF ab(1)] by fastforce
qed simp

lemma write_fields_length: "write_fields ps = Inr t \<Longrightarrow> length ps \<le> length t"
proof (induction ps arbitrary: t rule: list.induct)
  case (Cons kv ps)
  obtain k v where kv: "kv = (k, v)" by fastforce
  obtain a b where "write_value v = Inr a" "write_fields ps = Inr b"
    "t = write_string k @ '':'' @ a @ (if ps = [] then [] else '','' @ b)"
    using Cons.prems kv by (auto simp: result_iff)
  then show ?case
    using Cons.IH by (auto simp: write_string_def)
qed simp

text \<open>Writing then reading, for a value, for the rest of an array and for the rest of an object.\<close>

lemma p_value_write:
  "write_value v = Inr t \<Longrightarrow> text_ok d v \<Longrightarrow> number_end rest \<Longrightarrow>
     p_value n d (t @ rest) = Inr (reread_value v, rest)"
  "write_items vs = Inr t \<Longrightarrow> text_ok_items d vs \<Longrightarrow> vs \<noteq> [] \<Longrightarrow> length vs \<le> k \<Longrightarrow>
     p_items n d k acc (t @ CHR '']'' # rest) = Inr (Array (acc @ reread_items vs), rest)"
  "write_fields ps = Inr t \<Longrightarrow> text_ok_fields d ps \<Longrightarrow> ps \<noteq> [] \<Longrightarrow> length ps \<le> k \<Longrightarrow>
     distinct (map fst obj @ map fst ps) \<Longrightarrow>
     p_members n d k obj (t @ CHR ''}'' # rest) = Inr (Object (obj @ reread_fields ps), rest)"
proof (induction v and vs and ps arbitrary: t d rest and t d k acc rest and t d k obj rest
    rule: reread_value_reread_items_reread_fields.induct)
  case (1 x)
  then show ?case
    using p_value_number [of t rest n "d - 1"] number_ok_text [of x]
    by (auto simp: reread_def)
next
  case (2 vs)
  obtain d' where d: "d = Suc d'" using "2.prems"(2) by (cases d) auto
  obtain b where b: "write_items vs = Inr b" "t = CHR ''['' # b @ '']''"
    using "2.prems"(1) by (auto simp: result_iff)
  show ?case
  proof (cases vs)
    case Nil
    then show ?thesis using b d by (simp add: peek_is_def)
  next
    case (Cons v vs')
    obtain a where a: "write_value v = Inr a" "\<exists>y. b = a @ y"
      using b Cons by (auto simp: result_iff)
    then obtain c r where c: "b = c # r" "\<not> is_ws c" "c \<noteq> CHR '']''"
      using write_value_start [OF a(1), of d'] "2.prems"(2) Cons d by auto
    have "p_items n d' (length (t @ rest)) [] (b @ CHR '']'' # rest)
      = Inr (Array ([] @ reread_items vs), rest)"
      using "2.prems"(2) d b Cons write_items_length [OF b(1), of d'] by (intro "2.IH") auto
    then show ?thesis
      using b(2) c d skip_ws_start [of c "r @ CHR '']'' # rest"] by (simp add: peek_is_def)
  qed
next
  case (3 ps)
  obtain d' where d: "d = Suc d'" using "3.prems"(2) by (cases d) auto
  obtain b where b: "write_fields ps = Inr b" "t = CHR ''{'' # b @ ''}''"
    using "3.prems"(1) by (auto simp: result_iff)
  show ?case
  proof (cases ps)
    case Nil
    then show ?thesis using b d by (simp add: peek_is_def)
  next
    case (Cons kv ps')
    then obtain y where c: "b = CHR 0x22 # y"
      using b(1) by (cases kv) (auto simp: result_iff write_string_def)
    have "p_members n d' (length (t @ rest)) [] (b @ CHR ''}'' # rest)
      = Inr (Object ([] @ reread_fields ps), rest)"
      using "3.prems"(2) d b Cons write_fields_length [OF b(1)] by (intro "3.IH") auto
    then show ?thesis
      using b(2) c d by (simp add: peek_is_def)
  qed
next
  case 4
  then show ?case by (cases d) (auto simp: p_literal_def is_digit_def)
next
  case (5 bv)
  then show ?case by (cases d; cases bv) (auto simp: p_literal_def is_digit_def)
next
  case (6 s)
  then show ?case
    using p_string_write [of s n rest] by (cases d) (auto simp: write_string_def)
next
  case 7
  then show ?case by simp
next
  case (8 v vs)
  obtain a b where ab: "write_value v = Inr a" "write_items vs = Inr b"
    "t = (if vs = [] then a else a @ '','' @ b)"
    using "8.prems"(1) by (auto simp: result_iff)
  obtain k' where k: "k = Suc k'" using "8.prems"(4) by (cases k) auto
  obtain c r where c: "a = c # r" "\<not> is_ws c"
    using write_value_start [OF ab(1), of d] "8.prems"(2) by auto
  have v: "p_value n d (a @ s) = Inr (reread_value v, s)" if "number_end s" for s
    using "8.IH"(1) [OF ab(1)] "8.prems"(2) that by simp
  show ?case
  proof (cases "vs = []")
    case True
    then show ?thesis
      using ab(3) k c v [of "CHR '']'' # rest"] by (simp add: skip_ws_start peek_is_def)
  next
    case False
    have "p_items n d k' (acc @ [reread_value v]) (b @ CHR '']'' # rest)
      = Inr (Array ((acc @ [reread_value v]) @ reread_items vs), rest)"
      using "8.prems" k False by (intro "8.IH"(2) [OF ab(2)]) auto
    then show ?thesis
      using False ab(3) k c v [of "CHR '','' # b @ CHR '']'' # rest"] by (simp add: skip_ws_start peek_is_def)
  qed
next
  case 9
  then show ?case by simp
next
  case (10 key v ps)
  obtain a b where ab: "write_value v = Inr a" "write_fields ps = Inr b"
    "t = write_string key @ '':'' @ a @ (if ps = [] then [] else '','' @ b)"
    using "10.prems"(1) by (auto simp: result_iff)
  obtain k' where k: "k = Suc k'" using "10.prems"(4) by (cases k) auto
  obtain c r where c: "a = c # r" "\<not> is_ws c"
    using write_value_start [OF ab(1), of d] "10.prems"(2) by auto
  have v: "p_value n d (a @ s) = Inr (reread_value v, s)" if "number_end s" for s
    using "10.IH"(1) [OF ab(1)] "10.prems"(2) that by simp
  have str: "p_string n [] (tl (write_string key) @ s) = Inr (key, s)" for s
    using p_string_write "10.prems"(2) by simp
  have new: "obj_get obj key = None"
    using "10.prems"(5) obj_get_Some_in [of obj key] by (cases "obj_get obj key") force+
  have ws: "write_string key = CHR 0x22 # tl (write_string key)" by (simp add: write_string_def)
  show ?case
  proof (cases "ps = []")
    case True
    then have "t @ CHR ''}'' # rest = CHR 0x22 # tl (write_string key) @ CHR '':'' # a @ CHR ''}'' # rest"
      using ab(3) by (subst (asm) ws) simp
    then show ?thesis
      using True k c new v [of "CHR ''}'' # rest"] str [of "CHR '':'' # a @ CHR ''}'' # rest"]
      by (simp add: skip_ws_start peek_is_def p_eat_def obj_push_def)
  next
    case False
    have "p_members n d k' (obj @ [(key, reread_value v)]) (b @ CHR ''}'' # rest)
      = Inr (Object ((obj @ [(key, reread_value v)]) @ reread_fields ps), rest)"
      using "10.prems" k False by (intro "10.IH"(2) [OF ab(2)]) auto
    moreover have "t @ CHR ''}'' # rest
      = CHR 0x22 # tl (write_string key) @ CHR '':'' # a @ CHR '','' # b @ CHR ''}'' # rest"
      using ab(3) False by (subst (asm) ws) simp
    ultimately show ?thesis
      using False k c new v [of "CHR '','' # b @ CHR ''}'' # rest"]
        str [of "CHR '':'' # a @ CHR '','' # b @ CHR ''}'' # rest"]
      by (simp add: skip_ws_start peek_is_def p_eat_def obj_push_def)
  qed
qed

lemma number_end_ws: "list_all is_ws ws \<Longrightarrow> number_end ws"
  by (cases ws) (auto simp: number_end_def is_ws_def is_digit_def)

lemma text_ok_parse_ws:
  assumes "to_string v = Inr t" and "text_ok MAX_DEPTH v" and "list_all is_ws ws" and "length (t @ ws) \<le> limit"
  shows "parse_bounded (t @ ws) limit = Inr (reread_value v)"
proof -
  obtain c r where c: "t = c # r" "\<not> is_ws c"
    using write_value_start [of v t MAX_DEPTH] assms(1,2) by (auto simp: to_string_def)
  have "p_value (length (t @ ws)) MAX_DEPTH (t @ ws) = Inr (reread_value v, ws)"
    using p_value_write(1) [of v t MAX_DEPTH ws "length (t @ ws)"] assms(1,2) number_end_ws [OF assms(3)]
    by (simp add: to_string_def)
  moreover have "skip_ws ws = []"
    using assms(3) by (simp add: skip_ws_def list_all_iff)
  ultimately show ?thesis
    using assms(4) c by (simp add: parse_bounded_def skip_ws_start)
qed

lemma text_ok_parse:
  assumes "to_string v = Inr t" and "text_ok MAX_DEPTH v" and "length t \<le> limit"
  shows "parse_bounded t limit = Inr (reread_value v)"
  using text_ok_parse_ws [OF assms(1,2), of "[]" limit] assms(3) by simp

lemma text_ok_writes:
  "text_ok d v \<Longrightarrow> \<exists>t. write_value v = Inr t"
  "text_ok_items d vs \<Longrightarrow> \<exists>t. write_items vs = Inr t"
  "text_ok_fields d ps \<Longrightarrow> \<exists>t. write_fields ps = Inr t"
  by (induction d v and d vs and d ps rule: text_ok_text_ok_items_text_ok_fields.induct)
    (auto dest!: number_ok_text)

lemma reread_integer:
  "reread (NUint w) = NUint w"
  "reread (NInt w) = (if sint w < 0 then NInt w else NUint w)"
proof -
  show "reread (NUint w) = NUint w"
    using uint_range_size [of w]
    by (simp add: reread_def write_number_def read_number_nat word_size)
  have "- (2 ^ 63) \<le> sint w" "sint w < 2 ^ 63"
    using sint_range_size [of w] by (simp_all add: word_size)
  then show "reread (NInt w) = (if sint w < 0 then NInt w else NUint w)"
    by (simp add: reread_def write_number_def read_number_nat read_number_neg)
qed

text \<open>For integers, strings and structure the reread value is equal to the written one.\<close>

fun no_float :: "jvalue \<Rightarrow> bool"
and no_float_items :: "jvalue list \<Rightarrow> bool"
and no_float_fields :: "object \<Rightarrow> bool" where
  "no_float (Number (NFloat x)) \<longleftrightarrow> False"
| "no_float (Array vs) \<longleftrightarrow> no_float_items vs"
| "no_float (Object ps) \<longleftrightarrow> no_float_fields ps"
| "no_float v \<longleftrightarrow> True"
| "no_float_items [] \<longleftrightarrow> True"
| "no_float_items (v # vs) \<longleftrightarrow> no_float v \<and> no_float_items vs"
| "no_float_fields [] \<longleftrightarrow> True"
| "no_float_fields ((k, v) # ps) \<longleftrightarrow> no_float v \<and> no_float_fields ps"

lemma length_reread [simp]:
  "length (reread_items vs) = length vs" "length (reread_fields ps) = length ps"
  by (induction vs) (auto, induction ps, auto)

lemma obj_get_reread: "obj_get (reread_fields ps) k = map_option reread_value (obj_get ps k)"
  by (induction ps k rule: obj_get.induct) auto

lemma j_equal_reread:
  "no_float v \<Longrightarrow> text_ok d v \<Longrightarrow> j_equal v (reread_value v)"
  "no_float_items vs \<Longrightarrow> text_ok_items d vs \<Longrightarrow> j_equal_items vs (reread_items vs)"
  "no_float_fields ps \<Longrightarrow> text_ok_fields d ps \<Longrightarrow> (\<forall>(k, w) \<in> set ps. obj_get qs k = Some w) \<Longrightarrow>
     j_equal_fields ps (reread_fields qs)"
proof (induction v and vs and ps arbitrary: d and d and d qs rule: no_float_no_float_items_no_float_fields.induct)
  case (3 ps)
  then have "\<forall>(k, w) \<in> set ps. obj_get ps k = Some w"
    by (auto simp: obj_get_in_distinct)
  then show ?case using 3 by auto
qed (auto simp: reread_integer obj_get_reread)

text \<open>C39: What the writer writes the parser reads: every value with UTF-8 strings, distinct keys,
  nesting of at most 32 and finite numbers is written, and parsing that text within the limit gives
  the same tree, numbers as their text reads; without floats the result is equal to the original
  in the sense of \<open>json::equal\<close>.\<close>

theorem json_roundtrip:
  assumes "text_ok MAX_DEPTH v"
  shows "\<exists>t. to_string v = Inr t
    \<and> (length t \<le> limit \<longrightarrow> parse_bounded t limit = Inr (reread_value v))
    \<and> (no_float v \<longrightarrow> j_equal v (reread_value v))"
  using text_ok_writes(1) [OF assms] text_ok_parse [OF _ assms] j_equal_reread(1) [OF _ assms]
  by (auto simp: to_string_def)

theorem json_roundtrip_witness:
  "\<exists>t. to_string (Object [(''k<'', Array [Number (NInt 7), String [CHR 0xC3, CHR 0xA9], Null])]) = Inr t
    \<and> (length t \<le> 100 \<longrightarrow> parse_bounded t 100
        = Inr (Object [(''k<'', Array [Number (NUint 7), String [CHR 0xC3, CHR 0xA9], Null])]))"
proof -
  let ?v = "Object [(''k<'', Array [Number (NInt 7), String [CHR 0xC3, CHR 0xA9], Null])]"
  have "text_ok MAX_DEPTH ?v" by code_simp
  moreover have "reread_value ?v = Object [(''k<'', Array [Number (NUint 7), String [CHR 0xC3, CHR 0xA9], Null])]"
    by (simp add: reread_integer)
  ultimately show ?thesis
    using json_roundtrip [of ?v 100] by auto
qed

end
