(* ===== verification/JsonSound.thy ===== *)
theory JsonSound
  imports JsonRoundtrip
begin

text \<open>
  What the parser guarantees of everything it accepts, and that its loops never run out of rounds:
  the bound \<open>k\<close> of \<open>p_members\<close> and \<open>p_items\<close> is not observable.
\<close>

section \<open>Texts are UTF-8\<close>

lemma ord_char_of: "0 \<le> x \<Longrightarrow> x < 256 \<Longrightarrow> ord (char_of x) = x"
  by (simp add: of_char_of)

lemma utf8_single: "utf8_len s = Some (length s) \<Longrightarrow> utf8_valid s"
  using utf8_valid_step [of s "length s"] by simp

lemma utf8_len_two:
  "2 \<le> h \<Longrightarrow> h < 32 \<Longrightarrow> 0 \<le> y \<Longrightarrow> y < 64 \<Longrightarrow> utf8_len (map char_of [192 + h, 128 + y]) = Some 2"
  for h y :: int
  by (simp add: utf8_len_Cons ord_char_of follows_def utf8_second_def in_range_def)

lemma utf8_len_three:
  "0 \<le> h \<Longrightarrow> h < 16 \<Longrightarrow> 0 \<le> y \<Longrightarrow> y < 64 \<Longrightarrow> 0 \<le> z \<Longrightarrow> z < 64 \<Longrightarrow> h = 0 \<longrightarrow> 32 \<le> y \<Longrightarrow> h = 13 \<longrightarrow> y < 32 \<Longrightarrow>
     utf8_len (map char_of [224 + h, 128 + y, 128 + z]) = Some 3"
  for h y z :: int
  by (auto simp: utf8_len_Cons ord_char_of follows_def utf8_second_def in_range_def)

lemma utf8_len_four:
  "0 \<le> h \<Longrightarrow> h < 5 \<Longrightarrow> 0 \<le> y \<Longrightarrow> y < 64 \<Longrightarrow> 0 \<le> z \<Longrightarrow> z < 64 \<Longrightarrow> 0 \<le> u \<Longrightarrow> u < 64 \<Longrightarrow>
     h = 0 \<longrightarrow> 16 \<le> y \<Longrightarrow> h = 4 \<longrightarrow> y < 16 \<Longrightarrow>
     utf8_len (map char_of [240 + h, 128 + y, 128 + z, 128 + u]) = Some 4"
  for h y z u :: int
  by (auto simp: utf8_len_Cons ord_char_of follows_def utf8_second_def in_range_def)

lemma utf8_encode_valid:
  assumes "0 \<le> cp"
  shows "utf8_valid (utf8_encode cp)"
proof -
  define c where "c = (if (0xD800 \<le> cp \<and> cp < 0xE000) \<or> 0x10FFFF < cp then 0xFFFD else cp)"
  have c: "0 \<le> c" "c \<le> 0x10FFFF" "\<not> (0xD800 \<le> c \<and> c < 0xE000)"
    using assms by (auto simp: c_def)
  have m: "0 \<le> x mod 64" "x mod 64 < 64" for x :: int by simp_all
  consider (one) "c < 0x80" | (two) "0x80 \<le> c" "c < 0x800" | (three) "0x800 \<le> c" "c < 0x10000"
    | (four) "0x10000 \<le> c" by linarith
  then have "utf8_len (utf8_encode cp) = Some (length (utf8_encode cp))"
  proof cases
    case one
    then show ?thesis
      using c by (simp add: utf8_encode_def c_def [symmetric] utf8_len_Cons ord_char_of)
  next
    case two
    then have "2 \<le> c div 64" "c div 64 < 32" by auto
    then show ?thesis
      using two m [of c] utf8_len_two [of "c div 64" "c mod 64"]
      by (simp add: utf8_encode_def c_def [symmetric])
  next
    case three
    then have d: "0 \<le> c div 4096" "c div 4096 < 16" by auto
    have q: "c div 64 = 64 * (c div 4096) + c div 64 mod 64"
      by (simp add: zdiv_zmult2_eq [of 64 c 64, simplified])
    have "32 \<le> c div 64" using three by auto
    then have s0: "c div 4096 = 0 \<longrightarrow> 32 \<le> c div 64 mod 64" using q by simp
    have "c < 0xD800 \<or> 0xE000 \<le> c" using c(3) by linarith
    then have "c div 64 < 864 \<or> 896 \<le> c div 64" by auto
    then have s: "c div 4096 = 13 \<longrightarrow> c div 64 mod 64 < 32" using q m [of "c div 64"] by linarith
    show ?thesis
      using three utf8_len_three [OF d m [of "c div 64"] m [of c] s0 s]
      by (simp add: utf8_encode_def c_def [symmetric])
  next
    case four
    then have d: "0 \<le> c div 262144" "c div 262144 < 5" using c by auto
    have q: "c div 4096 = 64 * (c div 262144) + c div 4096 mod 64"
      by (simp add: zdiv_zmult2_eq [of 64 c 4096, simplified])
    have b: "16 \<le> c div 4096" "c div 4096 < 272" using four c(2) by auto
    have s: "c div 262144 = 0 \<longrightarrow> 16 \<le> c div 4096 mod 64" "c div 262144 = 4 \<longrightarrow> c div 4096 mod 64 < 16"
      using q b by linarith+
    show ?thesis
      using four utf8_len_four [OF d m [of "c div 4096"] m [of "c div 64"] m [of c] s]
      by (simp add: utf8_encode_def c_def [symmetric])
  qed
  then show ?thesis by (rule utf8_single)
qed

lemma hex_digit_range: "hex_digit c = Some d \<Longrightarrow> 0 \<le> d \<and> d < 16"
  by (auto simp: hex_digit_def is_digit_def in_range_def split: if_splits)

lemma p_hex_nonneg: "p_hex n k v s = Inr (x, s') \<Longrightarrow> 0 \<le> v \<Longrightarrow> 0 \<le> x"
  by (induction n k v s rule: p_hex.induct) (auto split: option.splits dest: hex_digit_range)

lemma p_unicode_valid: "p_unicode n s = Inr (x, s') \<Longrightarrow> utf8_valid x"
  using p_hex_nonneg
  by (fastforce simp: p_unicode_def p_hex4_def result_iff split: if_splits intro!: utf8_encode_valid)

lemma p_escape_valid: "p_escape n s = Inr (x, s') \<Longrightarrow> utf8_valid x"
  using p_unicode_valid [of n "tl s" x s']
  by (auto simp: p_escape_def split: list.splits if_splits intro!: utf8_single simp: utf8_len_def)

lemma p_string_sound:
  "p_string n out s = Inr (t, s') \<Longrightarrow> utf8_valid out \<Longrightarrow> utf8_valid t \<and> length s' < length s"
proof (induction n out s rule: p_string.induct)
  case (1 n out s)
  define run where "run = takeWhile plain s"
  have run: "utf8_valid run"
    using "1.prems"(1) by (subst (asm) p_string.simps) (auto simp: Let_def run_def split: if_splits)
  obtain c r where s1: "dropWhile plain s = c # r"
    using "1.prems"(1) run by (subst (asm) p_string.simps) (auto simp: Let_def run_def split: list.splits)
  have len: "length r < length s" using s1 by (rule length_dropWhile_le_Cons)
  show ?case
  proof (cases "c = CHR 0x22")
    case True
    then show ?thesis
      using "1.prems" run s1 len utf8_valid_append
      by (subst (asm) p_string.simps) (auto simp: Let_def run_def)
  next
    case False
    then obtain x r' where x: "p_escape n r = Inr (x, r')" "c = CHR 0x5C"
      and rec: "p_string n (out @ run @ x) r' = Inr (t, s')"
      using "1.prems"(1) run s1
      by (subst (asm) p_string.simps) (auto simp: Let_def run_def split: if_splits sum.splits)
    have "utf8_valid (out @ run @ x)"
      using "1.prems"(2) run p_escape_valid [OF x(1)] utf8_valid_append by blast
    then have "utf8_valid t \<and> length s' < length r'"
      using "1.IH" [OF refl refl _ s1 False x(2,1) refl] rec run by (simp add: run_def)
    then show ?thesis
      using p_escape_length [OF x(1)] len by simp
  qed
qed

section \<open>Accepted documents\<close>

fun parsed_ok :: "nat \<Rightarrow> jvalue \<Rightarrow> bool"
and parsed_ok_items :: "nat \<Rightarrow> jvalue list \<Rightarrow> bool"
and parsed_ok_fields :: "nat \<Rightarrow> object \<Rightarrow> bool" where
  "parsed_ok d (String s) \<longleftrightarrow> 0 < d \<and> utf8_valid s"
| "parsed_ok d (Array vs) \<longleftrightarrow> 0 < d \<and> parsed_ok_items (d - 1) vs"
| "parsed_ok d (Object ps) \<longleftrightarrow> 0 < d \<and> distinct (map fst ps) \<and> parsed_ok_fields (d - 1) ps"
| "parsed_ok d v \<longleftrightarrow> 0 < d"
| "parsed_ok_items d [] \<longleftrightarrow> True"
| "parsed_ok_items d (v # vs) \<longleftrightarrow> parsed_ok d v \<and> parsed_ok_items d vs"
| "parsed_ok_fields d [] \<longleftrightarrow> True"
| "parsed_ok_fields d ((k, v) # ps) \<longleftrightarrow> utf8_valid k \<and> parsed_ok d v \<and> parsed_ok_fields d ps"

lemma parsed_ok_items_snoc: "parsed_ok_items d (vs @ [v]) \<longleftrightarrow> parsed_ok_items d vs \<and> parsed_ok d v"
  by (induction vs) auto

lemma parsed_ok_fields_snoc:
  "parsed_ok_fields d (ps @ [(k, v)]) \<longleftrightarrow> parsed_ok_fields d ps \<and> utf8_valid k \<and> parsed_ok d v"
  by (induction ps) auto

lemma length_skip_ws: "length (skip_ws s) \<le> length s"
  by (simp add: skip_ws_def length_dropWhile_le)

lemma p_whole_length: "p_whole n s = Inr s' \<Longrightarrow> length s' < length s"
  using length_dropWhile_le [of is_digit] by (auto simp: p_whole_def le_imp_less_Suc split: list.splits if_splits)

lemma p_digits1_length: "p_digits1 n s = Inr s' \<Longrightarrow> length s' \<le> length s"
  by (auto simp: p_digits1_def length_dropWhile_le split: if_splits)

lemma p_fraction_length: "p_fraction n s = Inr (b, s') \<Longrightarrow> length s' \<le> length s"
  by (auto simp: p_fraction_def result_iff split: list.splits if_splits dest!: p_digits1_length)

lemma p_exponent_length:
  assumes "p_exponent n s = Inr (b, s')"
  shows "length s' \<le> length s"
proof (cases "\<exists>c r. s = c # r \<and> (c = CHR ''e'' \<or> c = CHR ''E'')")
  case True
  then obtain c r where s: "s = c # r" "c = CHR ''e'' \<or> c = CHR ''E''" by blast
  then have "p_digits1 n (if starts_with r ''+'' \<or> starts_with r ''-'' then tl r else r) = Inr s'"
    using assms by (auto simp: p_exponent_def result_iff)
  then show ?thesis
    using p_digits1_length s(1) by (fastforce split: if_splits)
next
  case False
  then show ?thesis
    using assms by (auto simp: p_exponent_def split: list.splits if_splits)
qed

lemma p_number_length:
  assumes "p_number n s = Inr (x, s')"
  shows "length s' < length s"
proof -
  obtain s1 b1 s2 b2 where
    "p_whole n (if starts_with s ''-'' then tl s else s) = Inr s1"
    "p_fraction n s1 = Inr (b1, s2)" "p_exponent n s2 = Inr (b2, s')"
    using assms by (auto simp: p_number_def result_iff Let_def)
  then have "length s1 < length (if starts_with s ''-'' then tl s else s)" "length s2 \<le> length s1"
    "length s' \<le> length s2"
    using p_whole_length p_fraction_length p_exponent_length by blast+
  moreover have "length (if starts_with s ''-'' then tl s else s) \<le> length s" by simp
  ultimately show ?thesis by linarith
qed

lemma p_literal_length: "p_literal n w v s = Inr (x, s') \<Longrightarrow> w \<noteq> [] \<Longrightarrow> x = v \<and> length s' < length s"
  by (cases s; cases w) (auto simp: p_literal_def split: if_splits)

lemma peek_is_iff: "peek_is c s \<longleftrightarrow> (\<exists>r. s = c # r)"
  by (cases s) (auto simp: peek_is_def)

lemma p_eat_Inr: "p_eat n c e s = Inr s' \<longleftrightarrow> s = c # s'"
  by (auto simp: p_eat_def split: list.splits if_splits)

lemma p_value_sound:
  "p_value n d s = Inr (v, s') \<Longrightarrow> parsed_ok d v \<and> length s' < length s"
  "p_members n d k obj s = Inr (v, s') \<Longrightarrow> distinct (map fst obj) \<Longrightarrow> parsed_ok_fields d obj \<Longrightarrow>
     (\<exists>ps. v = Object ps \<and> distinct (map fst ps) \<and> parsed_ok_fields d ps) \<and> length s' < length s"
  "p_items n d k acc s = Inr (v, s') \<Longrightarrow> parsed_ok_items d acc \<Longrightarrow>
     (\<exists>vs. v = Array vs \<and> parsed_ok_items d vs) \<and> length s' < length s"
proof (induction n d s and n d k obj s and n d k acc s arbitrary: v s' and v s' and v s'
    rule: p_value_p_members_p_items.induct)
  case (2 n d s)
  obtain c r where s: "s = c # r"
    using "2.prems" by (cases s) auto
  have ws: "length (skip_ws r) \<le> length r" by (rule length_skip_ws)
  consider (obj) "c = CHR ''{''" | (arr) "c = CHR ''[''" | (str) "c = CHR 0x22"
    | (lit) "c = CHR ''t'' \<or> c = CHR ''f'' \<or> c = CHR ''n''"
    | (num) "c = CHR ''-'' \<or> is_digit c" "c \<noteq> CHR ''{''" "c \<noteq> CHR ''[''" "c \<noteq> CHR 0x22" "c \<noteq> CHR ''t''"
      "c \<noteq> CHR ''f''" "c \<noteq> CHR ''n''"
    using "2.prems" s by (auto split: if_splits)
  then show ?case
  proof cases
    case obj
    show ?thesis
    proof (cases "peek_is CHR ''}'' (skip_ws r)")
      case True
      then show ?thesis using "2.prems" s obj ws by (auto simp: peek_is_iff)
    next
      case False
      then have "p_members n d (length s) [] (skip_ws r) = Inr (v, s')"
        using "2.prems" s obj by simp
      then show ?thesis
        using "2.IH"(1) [OF s obj refl False] ws s by auto
    qed
  next
    case arr
    show ?thesis
    proof (cases "peek_is CHR '']'' (skip_ws r)")
      case True
      then show ?thesis using "2.prems" s arr ws by (auto simp: peek_is_iff)
    next
      case False
      then have "p_items n d (length s) [] (skip_ws r) = Inr (v, s')"
        using "2.prems" s arr by simp
      then show ?thesis
        using "2.IH"(2) [OF s _ arr refl False] ws s arr by auto
    qed
  next
    case str
    then obtain t where "p_string n [] r = Inr (t, s')" "v = String t"
      using "2.prems" s by (auto simp: result_iff)
    then show ?thesis using p_string_sound [of n "[]" r t s'] s by auto
  next
    case lit
    then show ?thesis
      using "2.prems" s p_literal_length [of n "''true''" "Bool True" s v s']
        p_literal_length [of n "''false''" "Bool False" s v s'] p_literal_length [of n "''null''" Null s v s']
      by auto
  next
    case num
    then have "p_value n (Suc d) s = bindR (p_number n s) (\<lambda>(x, s1). Inr (Number x, s1))"
      unfolding s p_value.simps list.case by (simp only: if_True if_False)
    then obtain x where "p_number n s = Inr (x, s')" "v = Number x"
      using "2.prems" by (auto simp: result_iff)
    then show ?thesis using p_number_length by auto
  qed
next
  case (4 n d k obj s)
  obtain r key s2 s3 w s4 where r: "skip_ws s = CHR 0x22 # r" and str: "p_string n [] r = Inr (key, s2)"
    and new: "obj_get obj key = None" and col: "skip_ws s2 = CHR '':'' # s3"
    and val: "p_value n d (skip_ws s3) = Inr (w, s4)"
    and rest: "(if peek_is CHR '','' (skip_ws s4) then p_members n d k (obj_push obj key w) (tl (skip_ws s4))
      else if peek_is CHR ''}'' (skip_ws s4) then Inr (Object (obj_push obj key w), tl (skip_ws s4))
      else Inl (err n (skip_ws s4) ([CHR 0x27, CHR '','', CHR 0x27] @ '' or '' @ [CHR 0x27, CHR ''}'', CHR 0x27])))
      = Inr (v, s')"
    using "4.prems"(1) by (auto simp: Let_def result_iff peek_is_iff p_eat_Inr split: if_splits prod.splits)
  have IHv: "parsed_ok d w \<and> length s4 < length (skip_ws s3)"
    using "4.IH"(1) r str new col val by (simp add: peek_is_iff p_eat_Inr)
  have k: "utf8_valid key" "length s2 < length r"
    using p_string_sound [OF str] by simp_all
  have "key \<notin> fst ` set obj"
    using new by (metis image_iff obj_get_None_iff prod.collapse)
  then have obj': "distinct (map fst (obj_push obj key w))" "parsed_ok_fields d (obj_push obj key w)"
    using "4.prems"(2,3) IHv k by (auto simp: obj_push_def parsed_ok_fields_snoc)
  have "length (skip_ws s4) < length s"
    using IHv k length_skip_ws [of s] length_skip_ws [of s2] length_skip_ws [of s3] length_skip_ws [of s4] r col
    by simp
  moreover have "v = Object (obj_push obj key w) \<and> s' = tl (skip_ws s4)"
    if "\<not> peek_is CHR '','' (skip_ws s4)"
    using rest that by (auto split: if_splits)
  moreover have "(\<exists>ps. v = Object ps \<and> distinct (map fst ps) \<and> parsed_ok_fields d ps)
      \<and> length s' < length (tl (skip_ws s4))" if c: "peek_is CHR '','' (skip_ws s4)"
  proof -
    have mem: "p_members n d k (obj_push obj key w) (tl (skip_ws s4)) = Inr (v, s')"
      using rest c by simp
    show ?thesis
      using "4.IH"(2) [OF refl _ _ refl refl c mem obj'] r new by (simp add: peek_is_iff)
  qed
  ultimately show ?case
    using obj' by (cases "peek_is CHR '','' (skip_ws s4)") auto
next
  case (6 n d k acc s)
  obtain w s1 where val: "p_value n d (skip_ws s) = Inr (w, s1)"
    and rest: "(if peek_is CHR '','' (skip_ws s1) then p_items n d k (acc @ [w]) (tl (skip_ws s1))
      else if peek_is CHR '']'' (skip_ws s1) then Inr (Array (acc @ [w]), tl (skip_ws s1))
      else Inl (err n (skip_ws s1) ([CHR 0x27, CHR '','', CHR 0x27] @ '' or '' @ [CHR 0x27, CHR '']'', CHR 0x27])))
      = Inr (v, s')"
    using "6.prems"(1) by (auto simp: Let_def result_iff)
  have IHv: "parsed_ok d w \<and> length s1 < length (skip_ws s)"
    using "6.IH"(1) val by blast
  have acc': "parsed_ok_items d (acc @ [w])"
    using "6.prems"(2) IHv by (simp add: parsed_ok_items_snoc)
  have "length (skip_ws s1) < length s"
    using IHv length_skip_ws [of s] length_skip_ws [of s1] by simp
  moreover have "v = Array (acc @ [w]) \<and> s' = tl (skip_ws s1)" if "\<not> peek_is CHR '','' (skip_ws s1)"
    using rest that by (auto split: if_splits)
  moreover have "(\<exists>vs. v = Array vs \<and> parsed_ok_items d vs) \<and> length s' < length (tl (skip_ws s1))"
    if c: "peek_is CHR '','' (skip_ws s1)"
  proof -
    have mem: "p_items n d k (acc @ [w]) (tl (skip_ws s1)) = Inr (v, s')"
      using rest c by simp
    show ?thesis
      using "6.IH"(2) [OF refl refl c mem acc'] .
  qed
  ultimately show ?case
    using acc' by (cases "peek_is CHR '','' (skip_ws s1)") auto
qed simp_all

section \<open>The loops always have a round left\<close>

lemma no_memory_parts [simp]:
  "p_eat n c e s \<noteq> Inl OutOfMemory" "p_literal n w v s \<noteq> Inl OutOfMemory"
  by (auto simp: p_eat_def p_literal_def err_def split: list.splits)

lemma p_hex_no_memory [simp]: "p_hex n k v s \<noteq> Inl OutOfMemory"
  by (induction n k v s rule: p_hex.induct) (auto simp: err_def split: option.splits)

lemma p_escape_no_memory [simp]: "p_escape n s \<noteq> Inl OutOfMemory"
  by (auto simp: p_escape_def p_unicode_def p_hex4_def err_def result_iff split: list.splits if_splits)

lemma p_string_no_memory [simp]: "p_string n out s \<noteq> Inl OutOfMemory"
proof (induction n out s rule: p_string.induct)
  case (1 n out s)
  then show ?case
    by (subst p_string.simps) (auto simp: Let_def err_def split: list.splits sum.splits)
qed

lemma p_number_parts_no_memory [simp]:
  "p_whole n s \<noteq> Inl OutOfMemory" "p_digits1 n s \<noteq> Inl OutOfMemory" "p_fraction n s \<noteq> Inl OutOfMemory"
  "p_exponent n s \<noteq> Inl OutOfMemory"
proof -
  show d: "p_digits1 n s \<noteq> Inl OutOfMemory" for s by (simp add: p_digits1_def err_def)
  show "p_whole n s \<noteq> Inl OutOfMemory" by (simp add: p_whole_def err_def split: list.splits)
  show "p_fraction n s \<noteq> Inl OutOfMemory"
    using d by (simp add: p_fraction_def result_iff split: list.splits)
  show "p_exponent n s \<noteq> Inl OutOfMemory"
    using d by (simp add: p_exponent_def result_iff split: list.splits)
qed

lemma p_number_no_memory [simp]: "p_number n s \<noteq> Inl OutOfMemory"
  unfolding p_number_def by (auto simp only: result_iff split_beta Let_def p_number_parts_no_memory)

lemma p_value_complete:
  "p_value n d s \<noteq> Inl OutOfMemory"
  "length s < k \<Longrightarrow> p_members n d k obj s \<noteq> Inl OutOfMemory"
  "length s < k \<Longrightarrow> p_items n d k acc s \<noteq> Inl OutOfMemory"
proof (induction n d s and n d k obj s and n d k acc s rule: p_value_p_members_p_items.induct)
  case (2 n d s)
  have ws: "length (skip_ws r) < length s" if "s = c # r" for c r
    using that length_skip_ws [of r] by simp
  show ?case
  proof (cases s)
    case (Cons c r)
    have "p_members n d (length s) [] (skip_ws r) \<noteq> Inl OutOfMemory"
      if "c = CHR ''{''" "\<not> peek_is CHR ''}'' (skip_ws r)"
      using "2.IH"(1) [OF Cons that(1) refl that(2)] ws [OF Cons] by blast
    moreover have "p_items n d (length s) [] (skip_ws r) \<noteq> Inl OutOfMemory"
      if "c = CHR ''[''" "\<not> peek_is CHR '']'' (skip_ws r)"
      using "2.IH"(2) [OF Cons _ that(1) refl that(2)] ws [OF Cons] that by auto
    ultimately show ?thesis
      unfolding p_value.simps Cons list.case
      by (auto simp: Let_def err_def result_iff split: if_splits)
  qed (simp add: err_def)
next
  case (4 n d k obj s)
  show ?case
  proof
    assume oom: "p_members n d (Suc k) obj s = Inl OutOfMemory"
    then obtain key s2 s3 w s4 where r: "peek_is CHR 0x22 (skip_ws s)"
      and str: "p_string n [] (tl (skip_ws s)) = Inr (key, s2)" and new: "obj_get obj key = None"
      and col: "skip_ws s2 = CHR '':'' # s3" and val: "p_value n d (skip_ws s3) = Inr (w, s4)"
      and c: "peek_is CHR '','' (skip_ws s4)"
      and mem: "p_members n d k (obj_push obj key w) (tl (skip_ws s4)) = Inl OutOfMemory"
      using "4.IH"(1) by (auto simp: Let_def err_def result_iff p_eat_Inr split: if_splits prod.splits)
    have "length s4 < length (skip_ws s3)" using p_value_sound(1) [OF val] by simp
    moreover have "length s2 < length (tl (skip_ws s))" using p_string_sound [OF str] by simp
    ultimately have "length (tl (skip_ws s4)) < k"
      using "4.prems" length_skip_ws [of s] length_skip_ws [of s2] length_skip_ws [of s3] length_skip_ws [of s4] col
      by simp
    then show False
      using "4.IH"(2) [OF refl _ _ refl refl c] mem r new by fastforce
  qed
next
  case (6 n d k acc s)
  show ?case
  proof
    assume "p_items n d (Suc k) acc s = Inl OutOfMemory"
    then obtain w s1 where val: "p_value n d (skip_ws s) = Inr (w, s1)"
      and c: "peek_is CHR '','' (skip_ws s1)"
      and mem: "p_items n d k (acc @ [w]) (tl (skip_ws s1)) = Inl OutOfMemory"
      using "6.IH"(1) by (auto simp: Let_def err_def result_iff split: if_splits prod.splits)
    have "length s1 < length (skip_ws s)" using p_value_sound(1) [OF val] by simp
    then have "length (tl (skip_ws s1)) < k"
      using "6.prems" length_skip_ws [of s] length_skip_ws [of s1] by simp
    then show False
      using "6.IH"(2) [OF refl refl c] mem by blast
  qed
qed simp_all

lemma parse_bounded_parsed: "parse_bounded input limit = Inr v \<Longrightarrow> parsed_ok MAX_DEPTH v"
  using p_value_sound(1) by (auto simp: parse_bounded_def Let_def result_iff split: if_splits)

text \<open>Everything the parser accepts is well formed: at most as long as the limit, objects with
  distinct keys, UTF-8 strings, nesting of at most 32; and every input gets an answer, the rounds of
  its loops never run out.\<close>

theorem parse_sound:
  "parse_bounded input limit \<noteq> Inl OutOfMemory
   \<and> (\<forall>v. parse_bounded input limit = Inr v \<longrightarrow> length input \<le> limit \<and> parsed_ok MAX_DEPTH v)"
  using p_value_complete(1) p_value_sound(1)
  by (auto simp: parse_bounded_def Let_def result_iff split: if_splits)

theorem parse_sound_witness:
  "parsed_ok MAX_DEPTH (Object [(''a'', Array [Bool True])])"
proof -
  have "parse_bounded [CHR ''{'', CHR 0x22, CHR ''a'', CHR 0x22, CHR '':'', CHR ''['', CHR ''t'', CHR ''r'',
      CHR ''u'', CHR ''e'', CHR '']'', CHR ''}''] 20 = Inr (Object [(''a'', Array [Bool True])])"
    by code_simp
  then show ?thesis
    using parse_sound by blast
qed

end
