(* ===== verification/Slots.thy ===== *)
theory Slots
  imports Prelude
begin

unbundle bit_operations_syntax

text \<open>
  The A/B document slots of \<^verbatim>\<open>crates/core/src/slots.rs\<close>: the \<open>STULPAB\<close> record with its CRC-32, the
  choice between two slots and a legacy document, and \<open>Files\<close>, which opens once and then writes
  the inactive slot only. The device behind it is a parameter (\<open>read\<close>, \<open>write\<close>). Shown here: what was
  encoded decodes, and nothing that was cut short or changed in one byte does.
\<close>

section \<open>Little-endian integers\<close>

fun le_bytes :: "nat \<Rightarrow> nat \<Rightarrow> bytes" where
  "le_bytes 0 n = []"
| "le_bytes (Suc k) n = word_of_nat n # le_bytes k (n div 256)"

fun le_nat :: "bytes \<Rightarrow> nat" where
  "le_nat [] = 0"
| "le_nat (b # bs) = unat b + 256 * le_nat bs"

lemma length_le_bytes [simp]: "length (le_bytes k n) = k"
  by (induction k arbitrary: n) auto

lemma unat_u8_less: "unat (b :: u8) < 256"
  using unsigned_less [of b] by simp

lemma le_nat_less: "le_nat bs < 256 ^ length bs"
proof (induction bs)
  case (Cons b bs)
  have "unat b + 256 * le_nat bs < 256 * (1 + le_nat bs)"
    using unat_u8_less [of b] by simp
  also have "\<dots> \<le> 256 * 256 ^ length bs"
    using Cons.IH by (simp add: Suc_leI)
  finally show ?case by simp
qed simp

lemma le_nat_bytes: "le_nat (le_bytes k n) = n mod 256 ^ k"
proof (induction k arbitrary: n)
  case (Suc k)
  have "unat (word_of_nat n :: u8) = n mod 256"
    by (simp add: unat_of_nat)
  then show ?case
    using Suc by (simp add: mod_mult2_eq add.commute)
qed simp

lemma le_nat_inject: "length a = length b \<Longrightarrow> le_nat a = le_nat b \<longleftrightarrow> a = b"
proof (induction a b rule: list_induct2)
  case (Cons x xs y ys)
  have "le_nat (x # xs) = le_nat (y # ys) \<longleftrightarrow> unat x = unat y \<and> le_nat xs = le_nat ys"
  proof
    assume e: "le_nat (x # xs) = le_nat (y # ys)"
    have "le_nat (x # xs) mod 256 = unat x" "le_nat (y # ys) mod 256 = unat y"
      using unat_u8_less by simp_all
    then have "unat x = unat y"
      using e by metis
    then show "unat x = unat y \<and> le_nat xs = le_nat ys"
      using e by simp
  qed simp
  then show ?case using Cons.IH by (simp add: word_unat_eq_iff)
qed simp

lemma unat_u32_less: "unat (w :: u32) < 4294967296"
  using unsigned_less [of w, where ?'a = nat] by simp

lemma unat_u64_less: "unat (w :: u64) < 18446744073709551616"
  using unsigned_less [of w, where ?'a = nat] by simp

section \<open>The checksum\<close>

definition crc_bit :: "u32 \<Rightarrow> u32" where
  "crc_bit c = drop_bit 1 c XOR (if bit c 0 then 0xedb88320 else 0)"

definition crc_byte :: "u32 \<Rightarrow> u8 \<Rightarrow> u32" where
  "crc_byte c b = (crc_bit ^^ 8) (c XOR ucast b)"

definition crc :: "u32 \<Rightarrow> bytes \<Rightarrow> u32" where
  "crc c bs = foldl crc_byte c bs"

definition checksum :: "bytes \<Rightarrow> bytes \<Rightarrow> u32" where
  "checksum prefix payload = NOT (crc (crc (- 1) prefix) payload)"

section \<open>Records\<close>

definition MAX_BYTES :: nat where "MAX_BYTES = 64 * 2 ^ 20"

definition HEADER :: nat where "HEADER = 24"

definition MAGIC :: bytes where
  "MAGIC = as_bytes ''STULPAB'' @ [1]"

datatype slot = A | B | Legacy

record slot_record =
  generation :: u64
  payload :: bytes

definition slot_header :: "u64 \<Rightarrow> nat \<Rightarrow> bytes" where
  "slot_header g len = MAGIC @ le_bytes 8 (unat g) @ le_bytes 4 len"

definition slot_encode :: "u64 \<Rightarrow> bytes \<Rightarrow> bytes result" where
  "slot_encode g p =
     (if g = 0 then Inl (Invalid ''document slot generation must be positive'')
      else if MAX_BYTES < length p then Inl Full
      else if 2 ^ 32 \<le> length p then Inl Full
      else let header = slot_header g (length p)
           in Inr (header @ le_bytes 4 (unat (checksum header p)) @ p))"

text \<open>\<open>bytes.get(a..b)\<close> and \<open>bytes.get(a..)\<close>.\<close>

definition get_range :: "bytes \<Rightarrow> nat \<Rightarrow> nat \<Rightarrow> bytes option" where
  "get_range bs a b = (if a \<le> b \<and> b \<le> length bs then Some (take (b - a) (drop a bs)) else None)"

definition get_from :: "bytes \<Rightarrow> nat \<Rightarrow> bytes option" where
  "get_from bs a = (if a \<le> length bs then Some (drop a bs) else None)"

definition slot_decode :: "bytes \<Rightarrow> slot_record option" where
  "slot_decode bs =
     Option.bind (get_range bs 0 8) (\<lambda>magic.
     if magic \<noteq> MAGIC then None else
     Option.bind (get_range bs 8 16) (\<lambda>g8.
     Option.bind (get_range bs 16 20) (\<lambda>l4.
     Option.bind (get_range bs 20 24) (\<lambda>s4.
     Option.bind (get_from bs HEADER) (\<lambda>p.
       let g = word_of_nat (le_nat g8) :: u64;
           len = le_nat l4;
           expected = word_of_nat (le_nat s4) :: u32
       in if g = 0 \<or> len \<noteq> length p \<or> MAX_BYTES < len
             \<or> (case get_range bs 0 20 of None \<Rightarrow> True | Some h \<Rightarrow> checksum h p \<noteq> expected)
          then None
          else Some \<lparr>generation = g, payload = p\<rparr>)))))"

text \<open>The newest complete generation; a conflict is never guessed.\<close>

definition slot_select ::
    "bytes option \<Rightarrow> bytes option \<Rightarrow> bytes option \<Rightarrow> (slot \<times> slot_record) result" where
  "slot_select a b legacy =
     (case (Option.bind a slot_decode, Option.bind b slot_decode) of
        (Some ra, Some rb) \<Rightarrow>
          if generation ra = generation rb
          then if payload ra \<noteq> payload rb
               then Inl (Conflict ''document slots have conflicting generations'')
               else Inr (A, ra)
          else if generation rb < generation ra then Inr (A, ra) else Inr (B, rb)
      | (Some ra, None) \<Rightarrow> Inr (A, ra)
      | (None, Some rb) \<Rightarrow> Inr (B, rb)
      | (None, None) \<Rightarrow>
          (case legacy of
             Some p \<Rightarrow> Inr (Legacy, \<lparr>generation = 0, payload = p\<rparr>)
           | None \<Rightarrow>
               if a \<noteq> None \<or> b \<noteq> None
               then Inl (Invalid ''no valid document slot and no legacy document'')
               else Inr (Legacy, \<lparr>generation = 0, payload = []\<rparr>)))"

section \<open>Files over a backend\<close>

record 'b files =
  backend :: 'b
  active :: slot
  file_generation :: u64

definition files_open ::
    "('b \<Rightarrow> slot \<Rightarrow> bytes option result \<times> 'b) \<Rightarrow> 'b \<Rightarrow> ('b files \<times> bytes) result" where
  "files_open read be =
     (let (ra, be1) = read be A in
      bindR ra (\<lambda>a.
        let (rb, be2) = read be1 B in
        bindR rb (\<lambda>b.
          let (rl, be3) = (if Option.bind a slot_decode = None \<and> Option.bind b slot_decode = None
                           then read be2 Legacy else (Inr None, be2)) in
          bindR rl (\<lambda>legacy.
          bindR (slot_select a b legacy) (\<lambda>(act, r).
            Inr (\<lparr>backend = be3, active = act, file_generation = generation r\<rparr>, payload r))))))"

definition files_target :: "'b files \<Rightarrow> slot" where
  "files_target f = (if active f = A then B else A)"

definition files_save ::
    "('b \<Rightarrow> slot \<Rightarrow> bytes option result \<times> 'b) \<Rightarrow> ('b \<Rightarrow> slot \<Rightarrow> bytes \<Rightarrow> unit result \<times> 'b)
     \<Rightarrow> 'b files \<Rightarrow> bytes \<Rightarrow> unit result \<times> 'b files" where
  "files_save read write f bs =
     (case ok_or (checked_add (file_generation f) 1) Full of
        Inl e \<Rightarrow> (Inl e, f)
      | Inr g \<Rightarrow>
          (case slot_encode g bs of
             Inl e \<Rightarrow> (Inl e, f)
           | Inr encoded \<Rightarrow>
               let target = files_target f;
                   (w, be1) = write (backend f) target encoded;
                   published = f\<lparr>backend := be1, file_generation := g, active := target\<rparr>
               in case w of
                    Inr _ \<Rightarrow> (Inr (), published)
                  | Inl e \<Rightarrow>
                      let (r, be2) = read be1 target in
                      (case r of
                         Inl e' \<Rightarrow> (Inl e', f\<lparr>backend := be2\<rparr>)
                       | Inr written \<Rightarrow>
                           if Option.bind written slot_decode = Some \<lparr>generation = g, payload = bs\<rparr>
                           then (Inr (), published\<lparr>backend := be2\<rparr>)
                           else (Inl e, f\<lparr>backend := be2\<rparr>))))"


section \<open>The checksum separates inputs that differ in one byte\<close>

lemma xor_left_cancel: "(c :: 'a :: len word) XOR x = c XOR y \<longleftrightarrow> x = y"
  by (metis xor.left_commute xor.right_neutral xor_self_eq)

lemma xor_right_cancel: "(x :: 'a :: len word) XOR c = y XOR c \<longleftrightarrow> x = y"
  by (metis xor.commute xor_left_cancel)

lemma crc_bit_inj: "crc_bit c = crc_bit d \<Longrightarrow> c = d"
proof -
  assume e: "crc_bit c = crc_bit d"
  have top: "bit (crc_bit x) 31 = bit x 0" for x
  proof -
    have "\<not> bit x 32"
      using bit_imp_le_length [of x 32] by auto
    then show ?thesis by (simp add: crc_bit_def bit_simps)
  qed
  have low: "bit c 0 = bit d 0"
    using e top by metis
  then have "drop_bit 1 c = drop_bit 1 d"
    using e by (auto simp: crc_bit_def xor_right_cancel split: if_splits)
  then have "bit c (Suc n) = bit d (Suc n)" for n
    by (metis bit_drop_bit_eq comp_apply plus_1_eq_Suc)
  then show "c = d"
    using low by (intro bit_word_eqI) (metis not0_implies_Suc)
qed

lemma crc_bits_inj: "(crc_bit ^^ k) c = (crc_bit ^^ k) d \<Longrightarrow> c = d"
  by (induction k arbitrary: c d) (auto dest: crc_bit_inj)

lemma crc_byte_inj_state: "crc_byte c b = crc_byte d b \<Longrightarrow> c = d"
  unfolding crc_byte_def by (drule crc_bits_inj) (simp add: xor_right_cancel)

lemma ucast_u8_u32_inj: "(ucast (b :: u8) :: u32) = ucast b' \<longleftrightarrow> b = b'"
proof
  assume e: "(ucast b :: u32) = ucast b'"
  have "unat (ucast x :: u32) = unat x" for x :: u8
    using unat_u8_less [of x] by (simp add: unsigned_ucast_eq take_bit_nat_eq_self)
  then have "unat b = unat b'"
    using e by metis
  then show "b = b'" by (simp add: word_unat_eq_iff)
qed simp

lemma crc_byte_inj_byte: "crc_byte c b = crc_byte c b' \<Longrightarrow> b = b'"
  unfolding crc_byte_def
  by (drule crc_bits_inj) (simp add: xor_left_cancel ucast_u8_u32_inj)

lemma crc_inj_state: "crc c bs = crc d bs \<Longrightarrow> c = d"
  unfolding crc_def by (induction bs arbitrary: c d) (auto dest: crc_byte_inj_state)

lemma crc_append: "crc c (xs @ ys) = crc (crc c xs) ys"
  by (simp add: crc_def)

lemma crc_one_byte:
  assumes "i < length bs" and "b \<noteq> bs ! i"
  shows "crc c (bs[i := b]) \<noteq> crc c bs"
proof
  assume e: "crc c (bs[i := b]) = crc c bs"
  have "bs[i := b] = take i bs @ b # drop (Suc i) bs"
    using assms(1) by (rule upd_conv_take_nth_drop)
  then have "crc (crc_byte (crc c (take i bs)) b) (drop (Suc i) bs) = crc c bs"
    using e by (simp add: crc_def)
  also have "crc c bs = crc (crc_byte (crc c (take i bs)) (bs ! i)) (drop (Suc i) bs)"
    using id_take_nth_drop [OF assms(1)] by (metis crc_def foldl_Cons foldl_append)
  finally have "crc_byte (crc c (take i bs)) b = crc_byte (crc c (take i bs)) (bs ! i)"
    by (rule crc_inj_state)
  then show False
    using assms(2) crc_byte_inj_byte by blast
qed

lemma checksum_append: "checksum h p = NOT (crc (- 1) (h @ p))"
  by (simp add: checksum_def crc_append)

lemma checksum_one_byte:
  assumes "i < length (h @ p)" and "b \<noteq> (h @ p) ! i" and "h' @ p' = (h @ p)[i := b]"
  shows "checksum h' p' \<noteq> checksum h p"
  using crc_one_byte [OF assms(1,2), of "- 1"] assms(3)
  by (simp add: checksum_append)

section \<open>Encoding and decoding\<close>

lemma length_MAGIC [simp]: "length MAGIC = 8"
  by (simp add: MAGIC_def)

lemma length_slot_header [simp]: "length (slot_header g n) = 20"
  by (simp add: slot_header_def)

text \<open>The decoder in terms of the four fields of a buffer of at least 24 bytes.\<close>

lemma slot_decode_fields:
  assumes "length h = 20" and "length s = 4"
  shows "slot_decode (h @ s @ p) =
    (if take 8 h = MAGIC \<and> (word_of_nat (le_nat (take 8 (drop 8 h))) :: u64) \<noteq> 0
        \<and> le_nat (drop 16 h) = length p \<and> length p \<le> MAX_BYTES
        \<and> checksum h p = word_of_nat (le_nat s)
     then Some \<lparr>generation = word_of_nat (le_nat (take 8 (drop 8 h))), payload = p\<rparr> else None)"
proof -
  have "get_range (h @ s @ p) 0 8 = Some (take 8 h)"
    and "get_range (h @ s @ p) 8 16 = Some (take 8 (drop 8 h))"
    and "get_range (h @ s @ p) 16 20 = Some (drop 16 h)"
    and "get_range (h @ s @ p) 20 24 = Some s"
    and "get_from (h @ s @ p) HEADER = Some p"
    and "get_range (h @ s @ p) 0 20 = Some h"
    using assms by (simp_all add: get_range_def get_from_def HEADER_def)
  then show ?thesis
    by (auto simp: slot_decode_def Let_def not_less)
qed

lemma slot_decode_short: "length bs < 24 \<Longrightarrow> slot_decode bs = None"
  by (auto simp: slot_decode_def get_range_def get_from_def HEADER_def Let_def)

lemma slot_encode_Inr:
  "slot_encode g p = Inr bs \<longleftrightarrow> g \<noteq> 0 \<and> length p \<le> MAX_BYTES
     \<and> bs = slot_header g (length p)
              @ le_bytes 4 (unat (checksum (slot_header g (length p)) p)) @ p"
  by (auto simp: slot_encode_def Let_def MAX_BYTES_def)

lemma le_nat_u32: "(word_of_nat (le_nat (le_bytes 4 (unat (w :: u32)))) :: u32) = w"
  using unat_u32_less [of w] by (simp add: le_nat_bytes)

lemma slot_header_fields:
  assumes "n \<le> MAX_BYTES"
  shows "take 8 (slot_header g n) = MAGIC"
    and "(word_of_nat (le_nat (take 8 (drop 8 (slot_header g n)))) :: u64) = g"
    and "le_nat (drop 16 (slot_header g n)) = n"
proof -
  show "take 8 (slot_header g n) = MAGIC" by (simp add: slot_header_def)
  show "(word_of_nat (le_nat (take 8 (drop 8 (slot_header g n)))) :: u64) = g"
    using unat_u64_less [of g] by (simp add: slot_header_def le_nat_bytes)
  show "le_nat (drop 16 (slot_header g n)) = n"
    using assms by (simp add: slot_header_def le_nat_bytes MAX_BYTES_def)
qed

lemma slot_decode_encode:
  "slot_encode g p = Inr bs \<Longrightarrow> slot_decode bs = Some \<lparr>generation = g, payload = p\<rparr>"
  by (simp add: slot_encode_Inr slot_decode_fields slot_header_fields le_nat_u32)

text \<open>Round trip of the A/B record: what \<open>slots::encode\<close> produces decodes to the same generation
  and payload, and encoding succeeds for exactly the positive generations and payloads of at most
  64 MiB.\<close>

theorem slot_roundtrip:
  "(\<exists>bs. slot_encode g p = Inr bs \<and> slot_decode bs = Some \<lparr>generation = g, payload = p\<rparr>)
     \<longleftrightarrow> g \<noteq> 0 \<and> length p \<le> MAX_BYTES"
  using slot_decode_encode slot_encode_Inr by blast

lemma slot_decode_prefix:
  assumes "slot_encode g p = Inr bs" and "k < length bs"
  shows "slot_decode (take k bs) = None"
proof (cases "k < 24")
  case True
  then show ?thesis by (intro slot_decode_short) simp
next
  case False
  define h s where hs: "h = slot_header g (length p)" "s = le_bytes 4 (unat (checksum h p))"
  have bs: "bs = h @ s @ p" "length p \<le> MAX_BYTES" "length h = 20" "length s = 4"
    using assms(1) by (auto simp: slot_encode_Inr hs)
  then have t: "take k bs = h @ s @ take (k - 24) p" "length (take (k - 24) p) \<noteq> length p"
    using False assms(2) by auto
  have "le_nat (drop 16 h) = length p"
    using slot_header_fields(3) [OF bs(2)] by (simp add: hs(1))
  then show ?thesis
    unfolding t(1) using t(2) by (simp only: slot_decode_fields [OF bs(3,4)]) simp
qed

text \<open>C37: A write that was cut short anywhere is an invalid slot, never half a configuration: no
  proper prefix of an encoded record decodes.\<close>

theorem torn_write_rejected:
  assumes "slot_encode g p = Inr bs" and "k < length bs"
  shows "slot_decode (take k bs) = None"
  using assms by (rule slot_decode_prefix)

lemma slot_encode_example: "slot_encode 1 [] = Inr (slot_header 1 0
    @ le_bytes 4 (unat (checksum (slot_header 1 0) [])))"
  by (simp add: slot_encode_Inr)

theorem torn_write_rejected_witness:
  "slot_decode (take 23 (slot_header 1 0
    @ le_bytes 4 (unat (checksum (slot_header 1 0) [])))) = None"
  using torn_write_rejected [OF slot_encode_example, of 23] by simp

text \<open>The checksum detects every corruption confined to one byte: changing any single byte of an
  encoded record, in the magic, the generation, the length, the checksum or the payload, makes it
  undecodable.\<close>

theorem single_byte_corruption_rejected:
  assumes enc: "slot_encode g p = Inr bs" and i: "i < length bs" and b: "b \<noteq> bs ! i"
  shows "slot_decode (bs[i := b]) = None"
proof -
  define h s where hs: "h = slot_header g (length p)" "s = le_bytes 4 (unat (checksum h p))"
  have bs: "bs = h @ s @ p" "length h = 20" "length s = 4"
    using enc by (auto simp: slot_encode_Inr hs)
  consider (head) "i < 20" | (sum) "20 \<le> i" "i < 24" | (body) "24 \<le> i" by linarith
  then show ?thesis
  proof cases
    case head
    have "bs[i := b] = h[i := b] @ s @ p"
      using bs head by (simp add: list_update_append)
    moreover have "checksum (h[i := b]) p \<noteq> checksum h p"
      using head bs b by (intro checksum_one_byte [of i]) (auto simp: list_update_append nth_append)
    ultimately show ?thesis
      using bs by (simp add: slot_decode_fields hs(2) le_nat_u32)
  next
    case sum
    then have i4: "i - 20 < 4" by linarith
    have u: "bs[i := b] = h @ s[i - 20 := b] @ p"
      using bs sum i4 by (simp add: list_update_append)
    have "s ! (i - 20) \<noteq> b"
      using bs sum b i4 by (simp add: nth_append)
    then have "s[i - 20 := b] \<noteq> s"
      using bs i4 by (simp add: list_update_same_conv)
    then have "le_nat (s[i - 20 := b]) \<noteq> le_nat s"
      using le_nat_inject [of "s[i - 20 := b]" s] by simp
    moreover have "le_nat (s[i - 20 := b]) < 2 ^ 32" "le_nat s < 2 ^ 32"
      using le_nat_less [of "s[i - 20 := b]"] le_nat_less [of s] bs by simp_all
    ultimately have "(word_of_nat (le_nat (s[i - 20 := b])) :: u32) \<noteq> word_of_nat (le_nat s)"
      by (simp add: word_of_nat_eq_iff take_bit_nat_def)
    then show ?thesis
      using bs u by (auto simp: slot_decode_fields hs(2) le_nat_u32)
  next
    case body
    then have i24: "\<not> i - 20 < 4" by linarith
    have "bs[i := b] = h @ s @ p[i - 24 := b]"
      using bs body i24 by (simp add: list_update_append)
    moreover have "checksum h (p[i - 24 := b]) \<noteq> checksum h p"
      using body bs b i i24
      by (intro checksum_one_byte [of "i - 4"]) (auto simp: list_update_append nth_append)
    ultimately show ?thesis
      using bs by (simp add: slot_decode_fields hs(2) le_nat_u32)
  qed
qed

theorem single_byte_corruption_rejected_witness:
  "slot_decode ((slot_header 1 0 @ le_bytes 4 (unat (checksum (slot_header 1 0) [])))[8 := 2]) = None"
proof (rule single_byte_corruption_rejected [OF slot_encode_example])
  have "le_bytes 8 1 ! 0 = (1 :: u8)" by code_simp
  then show "2 \<noteq> (slot_header 1 0 @ le_bytes 4 (unat (checksum (slot_header 1 0) []))) ! 8"
    by (simp add: slot_header_def nth_append)
qed simp

end
