(* ===== verification/Document.thy ===== *)
theory Document
  imports JsonSound Slots
begin

text \<open>
  The version 2 configuration document of \<^verbatim>\<open>crates/core/src/document.rs\<close>. A \<open>Document\<close> owns one
  JSON object, so a document is its root value. Bytes are \<open>char\<close>s.
\<close>

type_synonym document = "jvalue"

definition DOC_VERSION :: u64 where "DOC_VERSION = 2"

definition MAX_RECORDS :: nat where "MAX_RECORDS = 4096"

definition MAX_NOTIFICATIONS :: nat where "MAX_NOTIFICATIONS = 200"

section \<open>Bounded collecting loops\<close>

text \<open>
  \<open>for x in xs { push(&mut out, f(x)?, max)? }\<close>, the loop with which every operation rebuilds a
  collection.
\<close>

definition collectR :: "nat \<Rightarrow> ('a \<Rightarrow> 'b result) \<Rightarrow> 'a list \<Rightarrow> 'b list result" where
  "collectR mx f xs = foldR (\<lambda>x acc. bindR (f x) (\<lambda>y. j_push acc y mx)) xs []"

lemma collectR_acc:
  "foldR (\<lambda>x acc. bindR (f x) (\<lambda>y. j_push acc y mx)) xs acc = Inr out \<longleftrightarrow>
     (\<exists>ys. mapR f xs = Inr ys \<and> out = acc @ ys) \<and> (xs = [] \<or> length acc + length xs \<le> mx)"
proof (induction xs arbitrary: acc)
  case (Cons x xs)
  show ?case
  proof (cases "f x")
    case (Inr y)
    have "foldR (\<lambda>x acc. bindR (f x) (\<lambda>y. j_push acc y mx)) (x # xs) acc = Inr out \<longleftrightarrow>
      length acc < mx \<and> foldR (\<lambda>x acc. bindR (f x) (\<lambda>y. j_push acc y mx)) xs (acc @ [y]) = Inr out"
      using Inr by (auto simp: j_push_def)
    also have "\<dots> \<longleftrightarrow> length acc < mx \<and> (\<exists>ys. mapR f xs = Inr ys \<and> out = (acc @ [y]) @ ys)
        \<and> (xs = [] \<or> length (acc @ [y]) + length xs \<le> mx)"
      using Cons by blast
    also have "\<dots> \<longleftrightarrow> (\<exists>ys. mapR f (x # xs) = Inr ys \<and> out = acc @ ys) \<and> length acc + length (x # xs) \<le> mx"
      using Inr by (cases xs) (auto simp: result_iff)
    finally show ?thesis by simp
  qed simp
qed auto

lemma collectR_Inr_iff [result_iff]:
  "collectR mx f xs = Inr ys \<longleftrightarrow> mapR f xs = Inr ys \<and> length xs \<le> mx"
  unfolding collectR_def collectR_acc by (cases xs) auto

lemma mapR_Inr: "mapR Inr xs = Inr xs"
  using mapR_Inr_map [of xs Inr "\<lambda>x. x"] by simp

lemma mapR_id_Inr [result_iff]: "mapR Inr xs = Inr ys \<longleftrightarrow> ys = xs"
  by (auto simp: mapR_Inr)

lemma mapR_Inr_in: "mapR f xs = Inr ys \<Longrightarrow> y \<in> set ys \<Longrightarrow> \<exists>x \<in> set xs. f x = Inr y"
  by (induction xs arbitrary: ys) (auto simp: result_iff)

lemma mapR_keeps:
  "mapR f xs = Inr ys \<Longrightarrow> (\<And>x y. x \<in> set xs \<Longrightarrow> f x = Inr y \<Longrightarrow> g y = g x) \<Longrightarrow> map g ys = map g xs"
  by (induction xs arbitrary: ys) (auto simp: result_iff)

section \<open>Records\<close>

definition doc_records :: "document \<Rightarrow> string \<Rightarrow> jvalue list" where
  "doc_records d collection = j_array d collection"

definition doc_record :: "document \<Rightarrow> string \<Rightarrow> string \<Rightarrow> jvalue result" where
  "doc_record d collection rid =
     ok_or (find (\<lambda>r. j_text r ''id'' = rid) (doc_records d collection)) (Missing ''record does not exist'')"

definition doc_replace :: "document \<Rightarrow> string \<Rightarrow> jvalue list \<Rightarrow> document result" where
  "doc_replace d collection records =
     (if MAX_RECORDS < length records then Inl Full else j_set d collection (Array records))"

definition doc_set :: "document \<Rightarrow> string \<Rightarrow> jvalue \<Rightarrow> document result" where
  "doc_set d key v = j_set d key v"

definition doc_encode :: "document \<Rightarrow> string result" where
  "doc_encode d = bindR (from_hop (to_string d)) (\<lambda>out.
     if MAX_BYTES \<le> length out then Inl Full else Inr (out @ [CHR 0x0A]))"

definition keep_durable :: "object \<Rightarrow> object" where
  "keep_durable store = foldl (\<lambda>kept (k, v). obj_push kept k v) []
     (filter (\<lambda>(k, v). \<not> starts_with k ''~'') store)"

definition remove_keys :: "string list \<Rightarrow> jvalue \<Rightarrow> jvalue result" where
  "remove_keys ks r = foldR (\<lambda>k r. j_remove r k) ks r"

definition VOLATILE :: "string list" where
  "VOLATILE = [''state'', ''available'', ''unavailableMessage'']"

definition clean_device :: "jvalue \<Rightarrow> jvalue result" where
  "clean_device record0 =
     bindR (remove_keys VOLATILE record0) (\<lambda>record.
       case Option.bind (j_get record ''store'') as_object of
         Some store \<Rightarrow> j_set record ''store'' (Object (keep_durable store))
       | None \<Rightarrow> Inr record)"

definition clean_devices :: "document \<Rightarrow> document result" where
  "clean_devices d = bindR (collectR MAX_RECORDS clean_device (doc_records d ''devices''))
     (doc_replace d ''devices'')"

definition validate_record :: "jvalue list \<Rightarrow> nat \<Rightarrow> unit \<Rightarrow> unit result" where
  "validate_record records i _ =
     (if j_text (records ! i) ''id'' = [] then Inl (Invalid ''record id is required'')
      else if any_earlier (\<lambda>a b. j_text a ''id'' = j_text b ''id'') records i
      then Inl (Conflict ''duplicate record id'') else Inr ())"

definition validate_records :: "jvalue list \<Rightarrow> unit result" where
  "validate_records records = foldR (validate_record records) [0..<length records] ()"

section \<open>Decoding\<close>

definition COLLECTIONS :: "string list" where
  "COLLECTIONS = [''apps'', ''devices'', ''deviceGroups'', ''flows'', ''scenes'', ''notifications'']"

definition SETTINGS :: "string list" where
  "SETTINGS = [''appSettings'', ''appState'', ''system'']"

definition decode_collection :: "string \<Rightarrow> jvalue \<Rightarrow> jvalue result" where
  "decode_collection key root =
     (case j_get root key of
        None \<Rightarrow> j_set root key (Array [])
      | Some Null \<Rightarrow> j_set root key (Array [])
      | Some (Array items) \<Rightarrow>
          if length items \<le> MAX_RECORDS then bindR (validate_records items) (\<lambda>_. Inr root)
          else Inl (Invalid ''invalid document collection'')
      | Some _ \<Rightarrow> Inl (Invalid ''invalid document collection''))"

definition decode_settings :: "string \<Rightarrow> jvalue \<Rightarrow> jvalue result" where
  "decode_settings key root =
     (case j_get root key of
        None \<Rightarrow> j_set root key j_object
      | Some Null \<Rightarrow> j_set root key j_object
      | Some (Object _) \<Rightarrow> Inr root
      | Some _ \<Rightarrow> Inl (Invalid ''invalid document settings''))"

definition is_ascii_whitespace :: "char \<Rightarrow> bool" where
  "is_ascii_whitespace c \<longleftrightarrow> is_ws c \<or> c = CHR 0x0C"

definition decode_version :: "jvalue \<Rightarrow> unit result" where
  "decode_version root =
     (case j_get root ''version'' of
        None \<Rightarrow> Inr ()
      | Some v \<Rightarrow> bindR (ok_or (as_u64 v) (Invalid ''invalid document version'')) (\<lambda>version.
          if DOC_VERSION < version then Inl (Invalid ''document was written by a newer Stulp'') else Inr ()))"

text \<open>Everything \<open>decode\<close> does after reading the root: version, collections, settings, devices.\<close>

definition fill_root :: "jvalue \<Rightarrow> document result" where
  "fill_root root =
     (if as_object root = None then Inl (Invalid ''document must be an object'')
      else bindR (decode_version root) (\<lambda>_.
        bindR (j_set root ''version'' (uint_value DOC_VERSION)) (\<lambda>root1.
        bindR (foldR decode_collection COLLECTIONS root1) (\<lambda>root2.
        bindR (foldR decode_settings SETTINGS root2) clean_devices))))"

definition doc_decode :: "string \<Rightarrow> document result" where
  "doc_decode bs =
     (if MAX_BYTES < length bs then Inl Full
      else bindR (if list_all is_ascii_whitespace bs then Inr j_object
                  else from_hop (parse_bounded bs MAX_BYTES)) fill_root)"

section \<open>Well-formed documents\<close>

text \<open>
  An object of the current version with the six collections, each of at most 4096 records with
  distinct non-empty ids, and the three settings objects.
\<close>

definition ids_ok :: "jvalue list \<Rightarrow> bool" where
  "ids_ok rs \<longleftrightarrow> distinct (map (\<lambda>r. j_text r ''id'') rs) \<and> (\<forall>r \<in> set rs. j_text r ''id'' \<noteq> [])"

definition collection_ok :: "document \<Rightarrow> string \<Rightarrow> bool" where
  "collection_ok d c \<longleftrightarrow> (\<exists>rs. j_get d c = Some (Array rs) \<and> length rs \<le> MAX_RECORDS \<and> ids_ok rs)"

definition doc_ok :: "document \<Rightarrow> bool" where
  "doc_ok d \<longleftrightarrow> j_get d ''version'' = Some (uint_value DOC_VERSION)
     \<and> (\<forall>c \<in> set COLLECTIONS. collection_ok d c)
     \<and> (\<forall>k \<in> set SETTINGS. \<exists>ps. j_get d k = Some (Object ps))"

lemma validate_records_iff: "validate_records rs = Inr () \<longleftrightarrow> ids_ok rs"
proof -
  have "validate_records rs = Inr () \<longleftrightarrow> (\<forall>i < length rs. j_text (rs ! i) ''id'' \<noteq> [])
    \<and> (\<forall>i < length rs. \<not> any_earlier (\<lambda>a b. j_text a ''id'' = j_text b ''id'') rs i)"
    by (auto simp: validate_records_def foldR_unit validate_record_def)
  then show ?thesis
    by (auto simp: any_earlier_distinct_map ids_ok_def all_set_conv_all_nth)
qed

lemma doc_replace_Inr_iff [result_iff]:
  "doc_replace d c rs = Inr d' \<longleftrightarrow>
     length rs \<le> MAX_RECORDS \<and> (\<exists>ps. d = Object ps \<and> d' = Object (obj_insert ps c (Array rs)))"
  by (auto simp: doc_replace_def result_iff)

lemma doc_record_Inr: "doc_record d c rid = Inr r \<Longrightarrow> r \<in> set (doc_records d c) \<and> j_text r ''id'' = rid"
  by (auto simp: doc_record_def result_iff dest!: find_Some_set)

lemma doc_record_found:
  "ids_ok (doc_records d c) \<Longrightarrow> r \<in> set (doc_records d c) \<Longrightarrow> doc_record d c (j_text r ''id'') = Inr r"
  using find_distinct_key [of "\<lambda>r. j_text r ''id''" "doc_records d c" r]
  by (simp add: doc_record_def ids_ok_def)

lemma doc_record_missing_iff:
  "(\<exists>e. doc_record d c rid = Inl e) \<longleftrightarrow> rid \<notin> (\<lambda>r. j_text r ''id'') ` set (doc_records d c)"
proof -
  have "(\<exists>e. doc_record d c rid = Inl e) \<longleftrightarrow> find (\<lambda>r. j_text r ''id'' = rid) (doc_records d c) = None"
    by (cases "find (\<lambda>r. j_text r ''id'' = rid) (doc_records d c)") (simp_all add: doc_record_def)
  then show ?thesis by (auto simp: find_None_iff)
qed

lemma collection_ok_records: "collection_ok d c \<Longrightarrow> ids_ok (doc_records d c)"
  by (auto simp: collection_ok_def doc_records_def j_array_def)

lemma doc_ok_Object: "doc_ok d \<Longrightarrow> \<exists>ps. d = Object ps"
  by (cases d) (auto simp: doc_ok_def j_get_def)

text \<open>Replacing a collection by a good one keeps a document well formed.\<close>

lemma doc_ok_replace:
  assumes "doc_ok d" and "doc_replace d c rs = Inr d'" and "c \<in> set COLLECTIONS" and "ids_ok rs"
  shows "doc_ok d'"
proof -
  have c: "c \<notin> set SETTINGS" "c \<noteq> ''version''"
    using assms(3) by (auto simp: COLLECTIONS_def SETTINGS_def)
  obtain ps where "d = Object ps" "d' = Object (obj_insert ps c (Array rs))" "length rs \<le> MAX_RECORDS"
    using assms(2) by (auto simp: result_iff)
  then show ?thesis
    using assms(1,4) c by (auto simp: doc_ok_def collection_ok_def)
qed

lemma doc_ok_set_settings:
  assumes "doc_ok d" and "doc_set d k (Object qs) = Inr d'" and "k \<in> set SETTINGS"
  shows "doc_ok d'"
proof -
  have "k \<notin> set COLLECTIONS" "k \<noteq> ''version''"
    using assms(3) by (auto simp: COLLECTIONS_def SETTINGS_def)
  then show ?thesis
    using assms by (auto simp: doc_ok_def collection_ok_def doc_set_def result_iff)
qed

section \<open>What decoding establishes\<close>

lemma obj_insert_same: "obj_get ps k = Some v \<Longrightarrow> obj_insert ps k v = ps"
proof -
  have "obj_get ps k = Some v \<Longrightarrow> obj_assign ps k v = ps"
    by (induction ps k v rule: obj_assign.induct) (auto split: if_splits)
  then show "obj_get ps k = Some v \<Longrightarrow> obj_insert ps k v = ps"
    by (simp add: obj_insert_def)
qed

lemma obj_remove_absent: "obj_get ps k = None \<Longrightarrow> obj_remove ps k = ps"
  by (induction ps k rule: obj_remove.induct) (auto split: if_splits)

lemma keep_durable_filter: "keep_durable ps = filter (\<lambda>(k, v). \<not> starts_with k ''~'') ps"
proof -
  have "foldl (\<lambda>kept (k, v). obj_push kept k v) acc qs = acc @ qs" for acc qs
    by (induction qs arbitrary: acc) (auto simp: obj_push_def)
  then show ?thesis by (simp add: keep_durable_def)
qed

definition device_clean :: "jvalue \<Rightarrow> bool" where
  "device_clean r \<longleftrightarrow> (\<exists>ps. r = Object ps) \<and> (\<forall>k \<in> set VOLATILE. j_get r k = None)
     \<and> (\<forall>ps. j_get r ''store'' = Some (Object ps) \<longrightarrow> keep_durable ps = ps)"

lemma decode_collection_step:
  assumes "decode_collection k root = Inr root'"
  shows "collection_ok root' k \<and> (\<forall>k'. k' \<noteq> k \<longrightarrow> j_get root' k' = j_get root k')"
  using assms
  by (auto simp: decode_collection_def collection_ok_def result_iff validate_records_iff ids_ok_def MAX_RECORDS_def
      split: option.splits jvalue.splits if_splits)

lemma decode_settings_step:
  assumes "decode_settings k root = Inr root'"
  shows "(\<exists>ps. j_get root' k = Some (Object ps)) \<and> (\<forall>k'. k' \<noteq> k \<longrightarrow> j_get root' k' = j_get root k')"
  using assms
  by (auto simp: decode_settings_def result_iff j_object_def split: option.splits jvalue.splits if_splits)

lemma foldR_fields:
  assumes step: "\<And>k root root'. f k root = Inr root' \<Longrightarrow> P (j_get root' k) \<and> (\<forall>k'. k' \<noteq> k \<longrightarrow> j_get root' k' = j_get root k')"
    and "foldR f ks root = Inr root'" and "distinct ks"
  shows "(\<forall>k \<in> set ks. P (j_get root' k)) \<and> (\<forall>k'. k' \<notin> set ks \<longrightarrow> j_get root' k' = j_get root k')"
  using assms(2,3)
proof (induction ks arbitrary: root)
  case (Cons k ks)
  obtain root1 where r: "f k root = Inr root1" "foldR f ks root1 = Inr root'"
    using Cons.prems by (auto simp: result_iff)
  then show ?case
    using step [OF r(1)] Cons.IH [OF r(2)] Cons.prems(2) by auto
qed simp

lemma decode_collections:
  assumes "foldR decode_collection COLLECTIONS root = Inr root'"
  shows "(\<forall>c \<in> set COLLECTIONS. collection_ok root' c) \<and> (\<forall>k. k \<notin> set COLLECTIONS \<longrightarrow> j_get root' k = j_get root k)"
  using foldR_fields [of decode_collection "\<lambda>x. \<exists>rs. x = Some (Array rs) \<and> length rs \<le> MAX_RECORDS \<and> ids_ok rs"
      COLLECTIONS root root'] decode_collection_step assms
  by (auto simp: collection_ok_def COLLECTIONS_def)

lemma decode_settings_all:
  assumes "foldR decode_settings SETTINGS root = Inr root'"
  shows "(\<forall>k \<in> set SETTINGS. \<exists>ps. j_get root' k = Some (Object ps)) \<and> (\<forall>k. k \<notin> set SETTINGS \<longrightarrow> j_get root' k = j_get root k)"
  using foldR_fields [of decode_settings "\<lambda>x. \<exists>ps. x = Some (Object ps)" SETTINGS root root']
    decode_settings_step assms
  by (auto simp: SETTINGS_def)

lemma remove_keys_Inr:
  "remove_keys ks r = Inr r' \<Longrightarrow> ks \<noteq> [] \<Longrightarrow> \<exists>ps. r = Object ps \<and> r' = Object (foldl obj_remove ps ks)"
proof -
  have "foldR (\<lambda>k r. j_remove r k) ks (Object ps) = Inr (Object (foldl obj_remove ps ks))" for ps
    by (induction ks arbitrary: ps) auto
  then show "remove_keys ks r = Inr r' \<Longrightarrow> ks \<noteq> [] \<Longrightarrow> \<exists>ps. r = Object ps \<and> r' = Object (foldl obj_remove ps ks)"
    by (cases ks) (auto simp: remove_keys_def result_iff)
qed

lemma obj_get_foldl_remove:
  "k \<notin> set ks \<Longrightarrow> obj_get (foldl obj_remove ps ks) k = obj_get ps k"
  by (induction ks arbitrary: ps) auto

lemma distinct_foldl_remove:
  "distinct (map fst ps) \<Longrightarrow> distinct (map fst (foldl obj_remove ps ks))
     \<and> (\<forall>k \<in> set ks. obj_get (foldl obj_remove ps ks) k = None)"
proof (induction ks arbitrary: ps)
  case (Cons k ks)
  have "obj_get (obj_remove ps k) k = None" using Cons.prems by (simp add: obj_get_remove)
  moreover have "obj_get qs k = None \<Longrightarrow> obj_get (foldl obj_remove qs ks) k = None" for qs
    by (induction ks arbitrary: qs) (auto simp: obj_get_None_iff dest: set_obj_remove [THEN subsetD])
  ultimately show ?case
    using Cons.IH [of "obj_remove ps k"] obj.distinct_del [OF Cons.prems, of k] by auto
qed simp

lemma as_object_case: "as_object v = (case v of Object ps \<Rightarrow> Some ps | _ \<Rightarrow> None)"
  by (cases v) auto

lemma clean_device_result:
  assumes "clean_device r = Inr r'"
  shows "j_text r' ''id'' = j_text r ''id''"
    and "(\<forall>ps. r = Object ps \<longrightarrow> distinct (map fst ps)) \<Longrightarrow> device_clean r'"
proof -
  obtain ps where ps: "r = Object ps"
    and r': "r' = (case obj_get (foldl obj_remove ps VOLATILE) ''store'' of
      Some (Object store) \<Rightarrow> Object (obj_insert (foldl obj_remove ps VOLATILE) ''store'' (Object (keep_durable store)))
    | _ \<Rightarrow> Object (foldl obj_remove ps VOLATILE))"
  proof -
    obtain r1 where r1: "remove_keys VOLATILE r = Inr r1"
      using assms by (auto simp: clean_device_def result_iff)
    then obtain ps where ps: "r = Object ps" "r1 = Object (foldl obj_remove ps VOLATILE)"
      using remove_keys_Inr [of VOLATILE r r1] by (auto simp: VOLATILE_def)
    have "Inr r' = (case Option.bind (j_get r1 ''store'') as_object of
         Some store \<Rightarrow> j_set r1 ''store'' (Object (keep_durable store)) | None \<Rightarrow> Inr r1)"
      using assms r1 by (simp add: clean_device_def)
    then show thesis
      using that [OF ps(1)] ps(2)
      by (cases "obj_get (foldl obj_remove ps VOLATILE) ''store''")
        (auto simp: as_object_case split: jvalue.splits)
  qed
  have nv: "''id'' \<notin> set VOLATILE" "''store'' \<notin> set VOLATILE" by (simp_all add: VOLATILE_def)
  show "j_text r' ''id'' = j_text r ''id''"
    using ps r' nv by (auto simp: j_text_def obj_get_foldl_remove split: option.splits jvalue.splits)
  assume "\<forall>ps. r = Object ps \<longrightarrow> distinct (map fst ps)"
  then have "\<forall>k \<in> set VOLATILE. obj_get (foldl obj_remove ps VOLATILE) k = None"
    using distinct_foldl_remove ps by blast
  then show "device_clean r'"
    using r' nv by (auto simp: device_clean_def keep_durable_filter split: option.splits jvalue.splits)
qed

lemma clean_devices_result:
  assumes "clean_devices d = Inr d'"
  shows "\<exists>rs. mapR clean_device (doc_records d ''devices'') = Inr rs \<and> doc_replace d ''devices'' rs = Inr d'"
  using assms by (auto simp: clean_devices_def result_iff)

lemma clean_devices_ok:
  assumes "doc_ok d" and "clean_devices d = Inr d'"
  shows "doc_ok d'"
proof -
  obtain rs where rs: "mapR clean_device (doc_records d ''devices'') = Inr rs" "doc_replace d ''devices'' rs = Inr d'"
    using clean_devices_result assms(2) by blast
  have ids: "map (\<lambda>r. j_text r ''id'') rs = map (\<lambda>r. j_text r ''id'') (doc_records d ''devices'')"
    by (rule mapR_keeps [OF rs(1)]) (rule clean_device_result(1))
  moreover have "ids_ok (doc_records d ''devices'')"
    using assms(1) by (intro collection_ok_records) (simp add: doc_ok_def COLLECTIONS_def)
  moreover have "ids_ok xs \<longleftrightarrow> distinct (map (\<lambda>r. j_text r ''id'') xs) \<and> [] \<notin> set (map (\<lambda>r. j_text r ''id'') xs)" for xs
    by (auto simp: ids_ok_def) (metis image_eqI)
  ultimately have "ids_ok rs" by metis
  then show ?thesis
    using doc_ok_replace [OF assms(1) rs(2)] by (simp add: COLLECTIONS_def)
qed

lemma fill_root_parts:
  assumes "fill_root root = Inr d"
  obtains ps root2 root3 where "root = Object ps"
    "foldR decode_collection COLLECTIONS (Object (obj_insert ps ''version'' (uint_value DOC_VERSION))) = Inr root2"
    "foldR decode_settings SETTINGS root2 = Inr root3" "clean_devices root3 = Inr d"
  using assms by (cases root) (auto simp: fill_root_def result_iff)

lemma fill_root_doc_ok:
  assumes "fill_root root = Inr d"
  shows "doc_ok d"
proof -
  obtain ps root2 root3 where
    c: "foldR decode_collection COLLECTIONS (Object (obj_insert ps ''version'' (uint_value DOC_VERSION))) = Inr root2"
    and s: "foldR decode_settings SETTINGS root2 = Inr root3" and clean: "clean_devices root3 = Inr d"
    using assms by (rule fill_root_parts)
  have "''version'' \<notin> set COLLECTIONS" "''version'' \<notin> set SETTINGS" "set COLLECTIONS \<inter> set SETTINGS = {}"
    by (auto simp: COLLECTIONS_def SETTINGS_def)
  then have "doc_ok root3"
    using decode_collections [OF c] decode_settings_all [OF s] by (auto simp: doc_ok_def collection_ok_def)
  then show ?thesis
    using clean by (rule clean_devices_ok)
qed

lemma doc_decode_parts:
  assumes "doc_decode bs = Inr d"
  obtains root where "fill_root root = Inr d" "root = j_object \<or> parse_bounded bs MAX_BYTES = Inr root"
  using assms by (auto simp: doc_decode_def result_iff split: if_splits)

text \<open>Objects inside a parsed tree have distinct keys.\<close>

lemma parsed_ok_items_in: "parsed_ok_items d vs \<Longrightarrow> v \<in> set vs \<Longrightarrow> parsed_ok d v"
  by (induction vs) auto

lemma parsed_ok_fields_in: "parsed_ok_fields d ps \<Longrightarrow> obj_get ps k = Some v \<Longrightarrow> parsed_ok d v"
  by (induction ps) (auto split: if_splits)

lemma parsed_record_distinct:
  assumes "parsed_ok d root" and "Object ps \<in> set (doc_records root c)"
  shows "distinct (map fst ps)"
proof (cases "Option.bind (j_get root c) as_array")
  case (Some rs)
  then obtain qs where root: "root = Object qs" "obj_get qs c = Some (Array rs)"
    by (cases root; cases "j_get root c") (auto simp: j_get_def elim!: as_array.elims)
  then have "parsed_ok_items (d - 2) rs"
    using assms(1) parsed_ok_fields_in [of "d - 1" qs c "Array rs"]
    by (auto simp: numeral_2_eq_2)
  moreover have "Object ps \<in> set rs"
    using assms(2) root by (simp add: doc_records_def j_array_def)
  ultimately show ?thesis
    using parsed_ok_items_in [of "d - 2" rs "Object ps"] by simp
next
  case None
  then show ?thesis using assms(2) by (simp add: doc_records_def j_array_def)
qed

lemma decode_collection_records:
  "decode_collection k root = Inr root' \<Longrightarrow> j_array root' c = j_array root c"
  by (auto simp: decode_collection_def j_array_def result_iff split: option.splits jvalue.splits if_splits)

lemma decode_collections_records:
  "foldR decode_collection ks root = Inr root' \<Longrightarrow> j_array root' c = j_array root c"
proof (induction ks arbitrary: root)
  case (Cons k ks)
  then show ?case
    using decode_collection_records by (auto simp: result_iff)
qed simp

text \<open>Decoding yields a well-formed document whatever the bytes: of the current version, the six
  collections present with at most 4096 records and distinct non-empty ids, the settings objects
  present, and no device carrying runtime state, availability or a volatile store key.\<close>

theorem doc_decode_ok:
  assumes "doc_decode bs = Inr d"
  shows "doc_ok d \<and> (\<forall>r \<in> set (doc_records d ''devices''). device_clean r)"
proof -
  obtain root where fill: "fill_root root = Inr d" and root: "root = j_object \<or> parse_bounded bs MAX_BYTES = Inr root"
    using assms by (rule doc_decode_parts)
  obtain ps root2 root3 where ps: "root = Object ps"
    and c: "foldR decode_collection COLLECTIONS (Object (obj_insert ps ''version'' (uint_value DOC_VERSION))) = Inr root2"
    and s: "foldR decode_settings SETTINGS root2 = Inr root3" and clean: "clean_devices root3 = Inr d"
    using fill by (rule fill_root_parts)
  obtain rs where rs: "mapR clean_device (doc_records root3 ''devices'') = Inr rs"
      "doc_replace root3 ''devices'' rs = Inr d"
    using clean_devices_result [OF clean] by blast
  have parsed: "parsed_ok MAX_DEPTH root"
    using root parse_bounded_parsed by (auto simp: j_object_def MAX_DEPTH_def)
  have "doc_records root3 ''devices'' = doc_records root2 ''devices''"
    using decode_settings_all [OF s] by (simp add: doc_records_def j_array_def SETTINGS_def)
  also have "\<dots> = doc_records root ''devices''"
    using decode_collections_records [OF c, of "''devices''"] ps by (simp add: doc_records_def)
  finally have recs: "doc_records root3 ''devices'' = doc_records root ''devices''" .
  have "device_clean r'" if r': "r' \<in> set rs" for r'
  proof -
    obtain r where r: "r \<in> set (doc_records root ''devices'')" "clean_device r = Inr r'"
      using mapR_Inr_in [OF rs(1) r'] recs by auto
    then show ?thesis
      using clean_device_result(2) [OF r(2)] parsed_record_distinct [OF parsed] by blast
  qed
  moreover have "doc_records d ''devices'' = rs"
    using rs(2) by (auto simp: result_iff doc_records_def)
  ultimately show ?thesis
    using fill_root_doc_ok [OF fill] by simp
qed

theorem doc_decode_ok_witness:
  "\<exists>d. doc_decode '' '' = Inr d \<and> doc_ok d"
proof -
  have "is_ok (doc_decode '' '')" by (simp add: MAX_BYTES_def doc_decode_def fill_root_def
      is_ascii_whitespace_def is_ws_def j_object_def decode_version_def COLLECTIONS_def SETTINGS_def
      decode_collection_def decode_settings_def clean_devices_def doc_records_def collectR_def
      doc_replace_def j_array_def)
  then obtain d where "doc_decode '' '' = Inr d" by (auto simp: is_ok_iff)
  then show ?thesis using doc_decode_ok by blast
qed

section \<open>Encoding and decoding\<close>

lemma as_str_reread [simp]: "as_str (reread_value v) = as_str v"
  by (cases v) auto

lemma j_get_reread: "j_get (reread_value v) k = map_option reread_value (j_get v k)"
  by (cases v) (auto simp: j_get_def obj_get_reread)

lemma j_text_reread [simp]: "j_text (reread_value v) k = j_text v k"
  by (cases "j_get v k") (auto simp: j_text_def j_get_reread)

lemma reread_items_map: "reread_items vs = map reread_value vs"
  by (induction vs) auto

lemma reread_fields_map: "reread_fields ps = map (\<lambda>(k, v). (k, reread_value v)) ps"
  by (induction ps) auto

lemma keep_durable_reread: "keep_durable ps = ps \<Longrightarrow> keep_durable (reread_fields ps) = reread_fields ps"
  by (simp add: keep_durable_filter reread_fields_map filter_map comp_def case_prod_unfold)

lemma device_clean_reread: "device_clean r \<Longrightarrow> device_clean (reread_value r)"
proof -
  assume c: "device_clean r"
  obtain ps where r: "r = Object ps" using c by (auto simp: device_clean_def)
  have "keep_durable qs = qs" if qs: "j_get (reread_value r) ''store'' = Some (Object qs)" for qs
  proof -
    obtain v where v: "j_get r ''store'' = Some v" "reread_value v = Object qs"
      using qs by (auto simp: j_get_reread)
    then obtain qs' where "v = Object qs'" "qs = reread_fields qs'" by (cases v) auto
    then show ?thesis
      using c v(1) keep_durable_reread by (auto simp: device_clean_def)
  qed
  moreover have "\<forall>k \<in> set VOLATILE. j_get (reread_value r) k = None"
    using c by (simp add: device_clean_def j_get_reread)
  ultimately show ?thesis
    using r by (simp add: device_clean_def)
qed

lemma clean_device_id:
  assumes "device_clean r"
  shows "clean_device r = Inr r"
proof -
  obtain ps where ps: "r = Object ps" "\<forall>k \<in> set VOLATILE. obj_get ps k = None"
      "\<forall>qs. obj_get ps ''store'' = Some (Object qs) \<longrightarrow> keep_durable qs = qs"
    using assms by (auto simp: device_clean_def)
  have "remove_keys VOLATILE r = Inr r"
    using ps by (simp add: remove_keys_def VOLATILE_def obj_remove_absent)
  then show ?thesis
    using ps by (cases "obj_get ps ''store''")
      (auto simp: clean_device_def as_object_case obj_insert_same split: jvalue.splits)
qed

lemma fill_root_id:
  assumes "doc_ok d" and "\<forall>r \<in> set (doc_records d ''devices''). device_clean r"
  shows "fill_root d = Inr d"
proof -
  obtain ps where d: "d = Object ps" using doc_ok_Object assms(1) by blast
  have ver: "obj_get ps ''version'' = Some (uint_value DOC_VERSION)"
    using assms(1) d by (simp add: doc_ok_def)
  have "decode_collection c d = Inr d" if c: "c \<in> set COLLECTIONS" for c
  proof -
    obtain rs where "j_get d c = Some (Array rs)" "length rs \<le> MAX_RECORDS" "validate_records rs = Inr ()"
      using assms(1) c by (auto simp: doc_ok_def collection_ok_def validate_records_iff)
    then show ?thesis by (simp add: decode_collection_def)
  qed
  then have c: "foldR decode_collection COLLECTIONS d = Inr d" by (simp add: COLLECTIONS_def)
  have "decode_settings k d = Inr d" if k: "k \<in> set SETTINGS" for k
  proof -
    obtain ps where "j_get d k = Some (Object ps)" using assms(1) k by (auto simp: doc_ok_def)
    then show ?thesis by (simp add: decode_settings_def)
  qed
  then have s: "foldR decode_settings SETTINGS d = Inr d" by (simp add: SETTINGS_def)
  obtain rs where rs: "obj_get ps ''devices'' = Some (Array rs)" "length rs \<le> MAX_RECORDS"
    using assms(1) d by (auto simp: doc_ok_def collection_ok_def COLLECTIONS_def)
  have "mapR clean_device rs = Inr rs"
    using assms(2) d rs clean_device_id mapR_Inr_map [of rs clean_device "\<lambda>r. r"]
    by (simp add: doc_records_def j_array_def)
  then have "collectR MAX_RECORDS clean_device (doc_records d ''devices'') = Inr rs"
    using rs d by (simp add: collectR_Inr_iff doc_records_def j_array_def)
  then have "clean_devices d = Inr d"
    using rs d by (simp add: clean_devices_def doc_replace_def obj_insert_same)
  then show ?thesis
    using d ver c s by (simp add: fill_root_def decode_version_def obj_insert_same uint_value_def)
qed

lemma doc_ok_reread:
  assumes "doc_ok d"
  shows "doc_ok (reread_value d)"
proof -
  have "ids_ok (reread_items rs)" if "ids_ok rs" for rs
    using that by (simp add: ids_ok_def reread_items_map comp_def)
  moreover have "length (reread_items rs) = length rs" for rs by simp
  ultimately show ?thesis
    using assms by (fastforce simp: doc_ok_def collection_ok_def j_get_reread uint_value_def reread_integer)
qed

lemma devices_reread:
  "doc_records (reread_value d) c = map reread_value (doc_records d c)"
proof (cases "j_get d c")
  case (Some v)
  then show ?thesis by (cases v) (auto simp: doc_records_def j_array_def j_get_reread reread_items_map)
qed (simp add: doc_records_def j_array_def j_get_reread)

text \<open>Saving and loading: a well-formed document with clean devices, UTF-8 strings, nesting of at
  most 32 and finite numbers that encodes is decoded to the same document, numbers as their text
  reads. Nothing else is lost or changed by a restart.\<close>

theorem doc_roundtrip:
  assumes "doc_ok d" and "\<forall>r \<in> set (doc_records d ''devices''). device_clean r"
    and "text_ok MAX_DEPTH d" and "doc_encode d = Inr t"
  shows "doc_decode t = Inr (reread_value d)"
proof -
  obtain out where out: "to_string d = Inr out" "t = out @ [CHR 0x0A]" "length out < MAX_BYTES"
    using assms(4) by (auto simp: doc_encode_def result_iff split: if_splits)
  have "parse_bounded t MAX_BYTES = Inr (reread_value d)"
    unfolding out(2) using out(1,3) assms(3) by (intro text_ok_parse_ws) (auto simp: is_ws_def)
  moreover obtain ps where "d = Object ps" using doc_ok_Object assms(1) by blast
  then have "\<not> list_all is_ascii_whitespace t"
    using out(1,2) by (auto simp: to_string_def result_iff is_ascii_whitespace_def is_ws_def)
  moreover have "fill_root (reread_value d) = Inr (reread_value d)"
    using fill_root_id doc_ok_reread [OF assms(1)] assms(2) device_clean_reread by (simp add: devices_reread)
  ultimately show ?thesis
    using out(2,3) unfolding doc_decode_def by (simp only: if_False from_hop_simps bindR_simps) simp
qed

definition empty_document :: document where
  "empty_document = Object [(''version'', uint_value DOC_VERSION), (''apps'', Array []), (''devices'', Array []),
     (''deviceGroups'', Array []), (''flows'', Array []), (''scenes'', Array []), (''notifications'', Array []),
     (''appSettings'', Object []), (''appState'', Object []), (''system'', Object [])]"

lemma empty_document_ok: "doc_ok empty_document"
  by (simp add: doc_ok_def empty_document_def COLLECTIONS_def SETTINGS_def collection_ok_def ids_ok_def MAX_RECORDS_def)

theorem doc_roundtrip_witness:
  "\<exists>t. doc_encode empty_document = Inr t \<and> doc_decode t = Inr empty_document"
proof -
  have ok: "text_ok MAX_DEPTH empty_document" by code_simp
  have "map_sum id length (to_string empty_document) = Inr 139" by code_simp
  then obtain out where out: "to_string empty_document = Inr out" "length out = 139"
    by (cases "to_string empty_document") auto
  then have enc: "doc_encode empty_document = Inr (out @ [CHR 0x0A])"
    by (simp add: doc_encode_def MAX_BYTES_def)
  have "doc_decode (out @ [CHR 0x0A]) = Inr (reread_value empty_document)"
    by (rule doc_roundtrip [OF empty_document_ok _ ok enc]) (simp add: doc_records_def j_array_def empty_document_def)
  moreover have "reread_value empty_document = empty_document"
    by (simp add: empty_document_def uint_value_def reread_integer)
  ultimately show ?thesis using enc by simp
qed

end
