(* ===== verification/Records.thy ===== *)
theory Records
  imports Document "HOL-Library.Multiset"
begin

text \<open>
  Replacing and removing one record of a collection (\<open>replace_record\<close>, \<open>remove_record\<close> of
  \<^verbatim>\<open>crates/core/src/store.rs\<close>), with the notification history as a sorted bounded list.
\<close>

section \<open>Sorting notifications\<close>

text \<open>\<open>str::cmp\<close> compares bytes.\<close>

fun str_le :: "string \<Rightarrow> string \<Rightarrow> bool" where
  "str_le [] t \<longleftrightarrow> True"
| "str_le (c # s) [] \<longleftrightarrow> False"
| "str_le (c # s) (e # t) \<longleftrightarrow> ord c < ord e \<or> (c = e \<and> str_le s t)"

text \<open>
  \<open>sort_unstable_by\<close> newest first. The order of equal timestamps is unspecified in the library;
  here they keep their order.
\<close>

fun insert_newest :: "jvalue \<Rightarrow> jvalue list \<Rightarrow> jvalue list" where
  "insert_newest r [] = [r]"
| "insert_newest r (x # xs) =
     (if str_le (j_text x ''createdAt'') (j_text r ''createdAt'') then r # x # xs
      else x # insert_newest r xs)"

definition sort_newest :: "jvalue list \<Rightarrow> jvalue list" where
  "sort_newest rs = foldr insert_newest rs []"

lemma str_le_refl [simp]: "str_le s s"
  by (induction s) auto

lemma str_le_total: "str_le s t \<or> str_le t s"
proof (induction s t rule: str_le.induct)
  case (3 c s e t)
  have "ord c < ord e \<or> ord e < ord c \<or> c = e" by (metis not_less_iff_gr_or_eq of_char_eq_iff)
  then show ?case using 3 by auto
qed auto

lemma str_le_trans: "str_le s t \<Longrightarrow> str_le t u \<Longrightarrow> str_le s u"
proof (induction s t arbitrary: u rule: str_le.induct)
  case (3 c s e t)
  then show ?case by (cases u) auto
qed auto

lemma mset_insert_newest: "mset (insert_newest r xs) = add_mset r (mset xs)"
  by (induction xs) auto

lemma mset_sort_newest: "mset (sort_newest rs) = mset rs"
  by (induction rs) (auto simp: sort_newest_def mset_insert_newest)

abbreviation newer :: "jvalue \<Rightarrow> jvalue \<Rightarrow> bool" where
  "newer a b \<equiv> str_le (j_text b ''createdAt'') (j_text a ''createdAt'')"

lemma sorted_insert_newest: "sorted_wrt newer xs \<Longrightarrow> sorted_wrt newer (insert_newest r xs)"
proof (induction xs)
  case (Cons x xs)
  show ?case
  proof (cases "str_le (j_text x ''createdAt'') (j_text r ''createdAt'')")
    case True
    then show ?thesis using Cons.prems str_le_trans by auto
  next
    case False
    then have "newer x r" using str_le_total by blast
    moreover have "set (insert_newest r xs) = insert r (set xs)"
      using mset_insert_newest [of r xs] by (metis set_mset_add_mset_insert set_mset_mset)
    ultimately show ?thesis using False Cons by auto
  qed
qed simp

lemma sorted_sort_newest: "sorted_wrt newer (sort_newest rs)"
  by (induction rs) (auto simp: sort_newest_def sorted_insert_newest)

section \<open>Replacing and removing a record\<close>

definition others :: "document \<Rightarrow> string \<Rightarrow> string \<Rightarrow> jvalue list" where
  "others d c rid = filter (\<lambda>r. j_text r ''id'' \<noteq> rid) (doc_records d c)"

definition replace_record :: "document \<Rightarrow> string \<Rightarrow> jvalue \<Rightarrow> document result" where
  "replace_record d c record =
     bindR (collectR MAX_RECORDS Inr (others d c (j_text record ''id''))) (\<lambda>rs.
     bindR (j_push rs record MAX_RECORDS) (\<lambda>records.
       doc_replace d c (if c = ''notifications''
                        then take MAX_NOTIFICATIONS (sort_newest records) else records)))"

definition remove_record :: "document \<Rightarrow> string \<Rightarrow> string \<Rightarrow> document result" where
  "remove_record d c rid =
     bindR (collectR MAX_RECORDS Inr (others d c rid)) (doc_replace d c)"

lemma ids_ok_filter: "ids_ok rs \<Longrightarrow> ids_ok (filter P rs)"
  by (auto simp: ids_ok_def distinct_map_filter_key)

lemma ids_ok_snoc:
  "ids_ok rs \<Longrightarrow> j_text r ''id'' \<noteq> [] \<Longrightarrow> j_text r ''id'' \<notin> (\<lambda>r. j_text r ''id'') ` set rs \<Longrightarrow> ids_ok (rs @ [r])"
  by (auto simp: ids_ok_def)

lemma ids_ok_mset: "mset rs = mset rs' \<Longrightarrow> ids_ok rs \<longleftrightarrow> ids_ok rs'"
proof -
  assume m: "mset rs = mset rs'"
  then have "mset (map (\<lambda>r. j_text r ''id'') rs) = mset (map (\<lambda>r. j_text r ''id'') rs')" by simp
  then have "distinct (map (\<lambda>r. j_text r ''id'') rs) \<longleftrightarrow> distinct (map (\<lambda>r. j_text r ''id'') rs')"
    by (rule mset_eq_imp_distinct_iff)
  then show ?thesis using mset_eq_setD [OF m] by (simp add: ids_ok_def)
qed

lemma ids_ok_take: "ids_ok rs \<Longrightarrow> ids_ok (take n rs)"
  by (auto simp: ids_ok_def take_map [symmetric] dest: in_set_takeD)

lemma others_ids: "ids_ok (doc_records d c) \<Longrightarrow> ids_ok (others d c rid)"
  by (simp add: others_def ids_ok_filter)

text \<open>The collection after an update, and that all other fields of the document stay.\<close>

lemma replace_record_Inr:
  assumes "replace_record d c r = Inr d'"
  shows "doc_records d' c = (if c = ''notifications''
      then take MAX_NOTIFICATIONS (sort_newest (others d c (j_text r ''id'') @ [r]))
      else others d c (j_text r ''id'') @ [r])"
    and "k \<noteq> c \<Longrightarrow> j_get d' k = j_get d k"
    and "length (others d c (j_text r ''id'')) < MAX_RECORDS"
  using assms by (auto simp: replace_record_def result_iff doc_records_def split: if_splits)

lemma remove_record_Inr:
  assumes "remove_record d c rid = Inr d'"
  shows "doc_records d' c = others d c rid" and "k \<noteq> c \<Longrightarrow> j_get d' k = j_get d k"
  using assms by (auto simp: remove_record_def result_iff doc_records_def)

lemma replace_record_ok:
  assumes "doc_ok d" and "replace_record d c r = Inr d'" and "c \<in> set COLLECTIONS" and "j_text r ''id'' \<noteq> []"
  shows "doc_ok d'"
proof -
  let ?rs = "others d c (j_text r ''id'') @ [r]"
  have "ids_ok (others d c (j_text r ''id''))"
    using assms(1,3) by (intro others_ids collection_ok_records) (simp add: doc_ok_def)
  moreover have "j_text r ''id'' \<notin> (\<lambda>r. j_text r ''id'') ` set (others d c (j_text r ''id''))"
    by (auto simp: others_def)
  ultimately have "ids_ok ?rs"
    using assms(4) ids_ok_snoc by blast
  moreover from this have "ids_ok (take MAX_NOTIFICATIONS (sort_newest ?rs))"
    using ids_ok_take ids_ok_mset mset_sort_newest by blast
  ultimately show ?thesis
    using doc_ok_replace [OF assms(1) _ assms(3)] assms(2) by (auto simp: replace_record_def result_iff)
qed

lemma remove_record_ok:
  assumes "doc_ok d" and "remove_record d c rid = Inr d'" and "c \<in> set COLLECTIONS"
  shows "doc_ok d'"
proof -
  have "ids_ok (others d c rid)"
    using assms(1,3) by (intro others_ids collection_ok_records) (simp add: doc_ok_def)
  then show ?thesis
    using doc_ok_replace [OF assms(1) _ assms(3)] assms(2) by (auto simp: remove_record_def result_iff)
qed

lemma doc_ok_records:
  assumes "doc_ok d" and "c \<in> set COLLECTIONS"
  shows "length (doc_records d c) \<le> MAX_RECORDS" and "ids_ok (doc_records d c)"
    and "r \<in> set (doc_records d c) \<Longrightarrow> j_text r ''id'' \<noteq> []"
  using assms by (auto simp: doc_ok_def collection_ok_def doc_records_def j_array_def ids_ok_def)

lemma remove_record_succeeds:
  assumes "doc_ok d" and "c \<in> set COLLECTIONS"
  shows "\<exists>d'. remove_record d c rid = Inr d'"
proof -
  obtain ps where d: "d = Object ps" using doc_ok_Object [OF assms(1)] by blast
  have len: "length (others d c rid) \<le> MAX_RECORDS"
    using doc_ok_records(1) [OF assms] unfolding others_def by (rule order.trans [OF length_filter_le])
  then have "collectR MAX_RECORDS Inr (others d c rid) = Inr (others d c rid)"
    by (simp add: collectR_Inr_iff mapR_Inr)
  then show ?thesis
    using len by (simp add: remove_record_def doc_replace_def d)
qed

lemma replace_record_succeeds:
  assumes "doc_ok d" and "length (others d c (j_text r ''id'')) < MAX_RECORDS"
  shows "\<exists>d'. replace_record d c r = Inr d'"
proof -
  obtain ps where d: "d = Object ps" using doc_ok_Object [OF assms(1)] by blast
  have "collectR MAX_RECORDS Inr (others d c (j_text r ''id'')) = Inr (others d c (j_text r ''id''))"
    using assms(2) by (simp add: collectR_Inr_iff mapR_Inr)
  then show ?thesis
    using assms(2) by (simp add: replace_record_def j_push_def doc_replace_def d MAX_NOTIFICATIONS_def MAX_RECORDS_def)
qed

text \<open>What a lookup finds after an update: the interface every store operation relies on.\<close>

lemma doc_record_replace:
  assumes "replace_record d c r = Inr d'" and "c \<noteq> ''notifications''"
  shows "doc_record d' c (j_text r ''id'') = Inr r"
    and "rid \<noteq> j_text r ''id'' \<Longrightarrow> doc_record d' c rid = doc_record d c rid"
proof -
  have d': "doc_records d' c = others d c (j_text r ''id'') @ [r]"
    using replace_record_Inr(1) [OF assms(1)] assms(2) by simp
  have "find (\<lambda>x. j_text x ''id'' = rid) (filter (\<lambda>x. j_text x ''id'' \<noteq> j_text r ''id'') xs @ [r])
    = find (\<lambda>x. j_text x ''id'' = rid) xs" if "rid \<noteq> j_text r ''id''" for xs
    using that by (induction xs) auto
  then show "rid \<noteq> j_text r ''id'' \<Longrightarrow> doc_record d' c rid = doc_record d c rid"
    unfolding doc_record_def d' others_def by simp
  have "find (\<lambda>x. j_text x ''id'' = rid) (filter (\<lambda>x. j_text x ''id'' \<noteq> rid) xs @ ys)
    = find (\<lambda>x. j_text x ''id'' = rid) ys" for rid xs ys
    by (induction xs) auto
  then show "doc_record d' c (j_text r ''id'') = Inr r"
    by (simp add: doc_record_def d' others_def)
qed

lemma doc_record_remove:
  assumes "remove_record d c rid = Inr d'"
  shows "doc_record d' c rid = Inl (Missing ''record does not exist'')"
    and "r \<noteq> rid \<Longrightarrow> doc_record d' c r = doc_record d c r"
proof -
  have d': "doc_records d' c = others d c rid"
    using remove_record_Inr(1) [OF assms] .
  have "find (\<lambda>x. j_text x ''id'' = rid) (filter (\<lambda>x. j_text x ''id'' \<noteq> rid) xs) = None" for xs
    by (induction xs) auto
  then show "doc_record d' c rid = Inl (Missing ''record does not exist'')"
    by (simp add: doc_record_def d' others_def)
  have "r \<noteq> rid \<Longrightarrow> find (\<lambda>x. j_text x ''id'' = r) (filter (\<lambda>x. j_text x ''id'' \<noteq> rid) xs)
    = find (\<lambda>x. j_text x ''id'' = r) xs" for xs
    by (induction xs) auto
  then show "r \<noteq> rid \<Longrightarrow> doc_record d' c r = doc_record d c r"
    by (simp add: doc_record_def d' others_def)
qed

end
