(* ===== verification/Scenes.thy ===== *)
theory Scenes
  imports Records
begin

text \<open>
  Scenes (\<^verbatim>\<open>crates/core/src/store/scenes.rs\<close>) as far as they are functions of the document: validation
  of a scene and of its states, the virtual device every scene owns, the references of flows to it, and
  the detection of a device that leaves an active scene.
\<close>

definition APP_ID :: string where "APP_ID = ''com.stulp.scene''"

section \<open>Validation\<close>

definition MAX_STATES :: nat where "MAX_STATES = 256"

definition validate_state :: "jvalue list \<Rightarrow> nat \<Rightarrow> unit \<Rightarrow> unit result" where
  "validate_state states i _ =
     (if trim (j_text (states ! i) ''deviceId'') = [] \<or> trim (j_text (states ! i) ''capabilityId'') = []
      then Inl (Invalid ''scene state requires deviceId and capabilityId'')
      else if any_earlier (\<lambda>a b. j_text a ''deviceId'' = j_text b ''deviceId''
                \<and> j_text a ''capabilityId'' = j_text b ''capabilityId'') states i
      then Inl (Conflict ''scene has duplicate state'') else Inr ())"

definition validate_states :: "jvalue list \<Rightarrow> unit result" where
  "validate_states states =
     (if MAX_STATES < length states then Inl Full else foldR (validate_state states) [0..<length states] ())"

definition scenes_validate :: "jvalue \<Rightarrow> jvalue option \<Rightarrow> jvalue result" where
  "scenes_validate scene0 previous =
     (if (case previous of None \<Rightarrow> False | Some s \<Rightarrow> j_boolean s ''active'')
      then Inl (Conflict ''active scene cannot be edited or deleted'')
      else let name = trim (j_text scene0 ''name'') in
      if name = [] \<or> 160 < length name then Inl (Invalid ''scene name must contain 1 to 160 bytes'')
      else bindR (j_set scene0 ''name'' (String name)) (\<lambda>scene1.
        bindR (if j_text scene1 ''kind'' = [] then j_set scene1 ''kind'' (String ''switch'') else Inr scene1) (\<lambda>scene.
          if j_text scene ''kind'' \<noteq> ''switch'' \<and> j_text scene ''kind'' \<noteq> ''button''
          then Inl (Invalid ''scene kind must be switch or button'')
          else let states = j_array scene ''states'' in
          if states = [] then Inl (Invalid ''scene needs at least one state'')
          else bindR (validate_states states) (\<lambda>_.
            bindR (j_set scene ''active'' (Bool False)) (\<lambda>scene.
              j_set scene ''previous'' (Array []))))))"

section \<open>The device of a scene\<close>

definition device_id :: "string \<Rightarrow> string" where
  "device_id i = ''scene:'' @ i"

definition set_text :: "string \<times> string \<Rightarrow> jvalue \<Rightarrow> jvalue result" where
  "set_text = (\<lambda>(k, s) v. j_set v k (String s))"

definition scene_device :: "document \<Rightarrow> jvalue \<Rightarrow> jvalue result" where
  "scene_device d scene =
     (let i = device_id (j_text scene ''id'') in
      bindR (case doc_record d ''devices'' i of
               Inr dev \<Rightarrow> if j_text dev ''appId'' = APP_ID then Inr dev
                          else Inl (Conflict ''scene id collides with a physical device'')
             | Inl _ \<Rightarrow> Inr j_object) (\<lambda>device0.
      bindR (foldR set_text
               [(''id'', i), (''appId'', APP_ID), (''driverId'', ''scene''), (''class'', ''scene''),
                (''name'', j_text scene ''name'')] device0) (\<lambda>device1.
      bindR (j_set device1 ''capabilities''
               (Array [String (if j_text scene ''kind'' = ''button'' then ''button'' else ''onoff'')])) (\<lambda>device2.
      j_set device2 ''data'' (j_fields [(''sceneId'', String (j_text scene ''id''))])))))"

definition add_scene_device :: "document \<Rightarrow> jvalue \<Rightarrow> jvalue list \<Rightarrow> jvalue list result" where
  "add_scene_device d scene records =
     bindR (scene_device d scene) (\<lambda>device. j_push records device MAX_RECORDS)"

definition physical :: "document \<Rightarrow> jvalue list" where
  "physical d = filter (\<lambda>r. j_text r ''appId'' \<noteq> APP_ID) (doc_records d ''devices'')"

definition reconcile :: "document \<Rightarrow> document result" where
  "reconcile d =
     bindR (collectR MAX_RECORDS Inr (physical d)) (\<lambda>records.
     bindR (foldR (add_scene_device d) (doc_records d ''scenes'') records)
       (doc_replace d ''devices''))"

section \<open>References of flows\<close>

fun references :: "jvalue \<Rightarrow> string \<Rightarrow> bool"
and references_fields :: "object \<Rightarrow> string \<Rightarrow> bool"
and references_items :: "jvalue list \<Rightarrow> string \<Rightarrow> bool" where
  "references (Object ps) i \<longleftrightarrow> j_text (Object ps) ''$device'' = i \<or> references_fields ps i"
| "references (Array vs) i \<longleftrightarrow> references_items vs i"
| "references _ i \<longleftrightarrow> False"
| "references_fields [] i \<longleftrightarrow> False"
| "references_fields ((k, v) # ps) i \<longleftrightarrow> references v i \<or> references_fields ps i"
| "references_items [] i \<longleftrightarrow> False"
| "references_items (v # vs) i \<longleftrightarrow> references v i \<or> references_items vs i"

definition can_delete :: "document \<Rightarrow> jvalue \<Rightarrow> unit result" where
  "can_delete d scene =
     (if j_boolean scene ''active'' then Inl (Conflict ''active scene cannot be edited or deleted'')
      else if list_ex (\<lambda>f. references f (device_id (j_text scene ''id''))) (doc_records d ''flows'')
      then Inl (Conflict ''scene is used by a flow'') else Inr ())"

fun validate_references :: "document \<Rightarrow> jvalue \<Rightarrow> unit result"
and validate_references_fields :: "document \<Rightarrow> object \<Rightarrow> unit result"
and validate_references_items :: "document \<Rightarrow> jvalue list \<Rightarrow> unit result" where
  "validate_references d (Object ps) =
     (let i = j_text (Object ps) ''$device'' in
      if starts_with i ''scene:'' \<and> \<not> is_ok (doc_record d ''devices'' i)
      then Inl (Missing ''scene device does not exist'') else validate_references_fields d ps)"
| "validate_references d (Array vs) = validate_references_items d vs"
| "validate_references d _ = Inr ()"
| "validate_references_fields d [] = Inr ()"
| "validate_references_fields d ((k, v) # ps) =
     bindR (validate_references d v) (\<lambda>_. validate_references_fields d ps)"
| "validate_references_items d [] = Inr ()"
| "validate_references_items d (v # vs) =
     bindR (validate_references d v) (\<lambda>_. validate_references_items d vs)"

section \<open>Leaving a scene\<close>

text \<open>\<open>same\<close>: report rounding is tolerated. \<open>0.01\<close> is the double nearest to one hundredth.\<close>

definition hundredth :: f64 where "hundredth = f64_round False 1 100"

fun same :: "jvalue \<Rightarrow> jvalue \<Rightarrow> bool" where
  "same (Number x) (Number y) \<longleftrightarrow>
     (let a = num_as_f64 x; b = num_as_f64 y in
      f64_is_finite a \<and> f64_is_finite b
      \<and> f64_le (f64_abs (f64_sub a b))
          (f64_add hundredth (f64_mul hundredth (f64_max (f64_abs a) (f64_abs b)))))"
| "same (Number x) w \<longleftrightarrow> False"
| "same v (Number y) \<longleftrightarrow> False"
| "same v w \<longleftrightarrow> j_equal v w"

definition trip_state :: "jvalue \<Rightarrow> string \<Rightarrow> jvalue \<Rightarrow> jvalue \<Rightarrow> jvalue \<Rightarrow> jvalue list \<Rightarrow> jvalue list result" where
  "trip_state scene i old new desired out =
     (let cap = j_text desired ''capabilityId'';
          target = j_field desired ''value'';
          before = j_field old cap;
          current = j_field new cap;
          held = list_ex (\<lambda>p. j_text p ''deviceId'' = i \<and> j_text p ''capabilityId'' = cap) (j_array scene ''previous'')
      in if held \<and> \<not> is_null current \<and> same before target \<and> \<not> same current target
         then j_push out (j_fields [(''sceneId'', String (j_text scene ''id'')), (''deviceId'', String i),
                (''capabilityId'', String cap)]) 256
         else Inr out)"

definition trip_scene :: "string \<Rightarrow> jvalue \<Rightarrow> jvalue \<Rightarrow> jvalue \<Rightarrow> jvalue list \<Rightarrow> jvalue list result" where
  "trip_scene i old new scene out =
     foldR (trip_state scene i old new) (filter (\<lambda>s. j_text s ''deviceId'' = i) (j_array scene ''states'')) out"

definition trips :: "document \<Rightarrow> string \<Rightarrow> jvalue \<Rightarrow> jvalue \<Rightarrow> jvalue list result" where
  "trips d i old new =
     foldR (trip_scene i old new)
       (filter (\<lambda>s. j_boolean s ''active'' \<and> j_text s ''kind'' \<noteq> ''button'') (doc_records d ''scenes'')) []"

section \<open>States of a scene\<close>

definition states_ok :: "jvalue list \<Rightarrow> bool" where
  "states_ok states \<longleftrightarrow> length states \<le> MAX_STATES
     \<and> (\<forall>s \<in> set states. trim (j_text s ''deviceId'') \<noteq> [] \<and> trim (j_text s ''capabilityId'') \<noteq> [])
     \<and> distinct (map (\<lambda>s. (j_text s ''deviceId'', j_text s ''capabilityId'')) states)"

lemma validate_states_iff: "validate_states states = Inr () \<longleftrightarrow> states_ok states"
proof -
  have eq: "(\<lambda>a b. j_text a ''deviceId'' = j_text b ''deviceId'' \<and> j_text a ''capabilityId'' = j_text b ''capabilityId'')
    = (\<lambda>a b. (j_text a ''deviceId'', j_text a ''capabilityId'') = (j_text b ''deviceId'', j_text b ''capabilityId''))"
    by (simp add: fun_eq_iff)
  show ?thesis
    unfolding validate_states_def validate_state_def eq states_ok_def any_earlier_distinct_map [symmetric]
    by (auto simp: foldR_unit all_set_conv_all_nth)
qed

section \<open>Reconciling scene devices\<close>

definition scene_dressed :: "jvalue \<Rightarrow> jvalue \<Rightarrow> bool" where
  "scene_dressed scene dev \<longleftrightarrow>
     j_get dev ''id'' = Some (String (device_id (j_text scene ''id''))) \<and> j_get dev ''appId'' = Some (String APP_ID)
     \<and> j_get dev ''driverId'' = Some (String ''scene'') \<and> j_get dev ''class'' = Some (String ''scene'')
     \<and> j_get dev ''name'' = Some (String (j_text scene ''name''))
     \<and> j_get dev ''capabilities'' = Some (Array [String (if j_text scene ''kind'' = ''button'' then ''button'' else ''onoff'')])
     \<and> j_get dev ''data'' = Some (Object [(''sceneId'', String (j_text scene ''id''))])"

lemma j_text_get: "j_get v k = Some (String s) \<Longrightarrow> j_text v k = s"
  by (simp add: j_text_def)

lemma j_text_Object: "j_text v k \<noteq> [] \<Longrightarrow> \<exists>ps. v = Object ps"
  by (cases v) (auto simp: j_text_def j_get_def)

lemma scene_device_dressed: "scene_device d scene = Inr dev \<Longrightarrow> scene_dressed scene dev"
  by (auto simp: scene_device_def Let_def result_iff set_text_def scene_dressed_def j_fields_Object)

lemma scene_device_fixed:
  assumes "scene_dressed scene dev" and "doc_record d ''devices'' (device_id (j_text scene ''id'')) = Inr dev"
  shows "scene_device d scene = Inr dev"
proof -
  have "j_text dev ''appId'' = APP_ID" using assms(1) by (auto simp: scene_dressed_def intro: j_text_get)
  then show ?thesis
    using assms by (cases dev)
      (auto simp: scene_device_def scene_dressed_def Let_def set_text_def j_fields_Object obj_insert_same j_get_def)
qed

lemma scene_device_ok_iff:
  "is_ok (scene_device d scene) \<longleftrightarrow>
     (\<forall>dev. doc_record d ''devices'' (device_id (j_text scene ''id'')) = Inr dev \<longrightarrow> j_text dev ''appId'' = APP_ID)"
proof (cases "doc_record d ''devices'' (device_id (j_text scene ''id''))")
  case (Inr dev)
  show ?thesis
  proof (cases "j_text dev ''appId'' = APP_ID")
    case True
    then obtain ps where "dev = Object ps" using j_text_Object [of dev "''appId''"] by (auto simp: APP_ID_def)
    then show ?thesis using Inr True by (simp add: scene_device_def Let_def set_text_def)
  qed (simp add: Inr scene_device_def Let_def)
qed (simp add: scene_device_def Let_def set_text_def j_object_def)

lemma reconcile_Inr_iff:
  "reconcile d = Inr d' \<longleftrightarrow> (\<exists>devs. mapR (scene_device d) (doc_records d ''scenes'') = Inr devs
     \<and> length (physical d @ devs) \<le> MAX_RECORDS \<and> doc_replace d ''devices'' (physical d @ devs) = Inr d')"
proof -
  have add: "add_scene_device d = (\<lambda>scene acc. bindR (scene_device d scene) (\<lambda>y. j_push acc y MAX_RECORDS))"
    by (simp add: fun_eq_iff add_scene_device_def)
  show ?thesis
    unfolding reconcile_def bindR_Inr_iff collectR_Inr_iff mapR_id_Inr add collectR_acc
    using mapR_Inr_length [of "scene_device d" "doc_records d ''scenes''"] by fastforce
qed

lemma reconcile_ids:
  assumes "doc_ok d" and "list_all2 (\<lambda>s dev. scene_device d s = Inr dev) (doc_records d ''scenes'') devs"
  shows "ids_ok (physical d @ devs)"
proof -
  have c: "''devices'' \<in> set COLLECTIONS" "''scenes'' \<in> set COLLECTIONS" by (simp_all add: COLLECTIONS_def)
  have ids: "map (\<lambda>r. j_text r ''id'') devs = map (\<lambda>s. device_id (j_text s ''id'')) (doc_records d ''scenes'')"
    using assms(2)
    by (induction rule: list_all2_induct) (auto dest!: scene_device_dressed simp: scene_dressed_def intro: j_text_get)
  have "distinct (map (\<lambda>r. j_text r ''id'') devs)"
    unfolding ids using doc_ok_records(2) [OF assms(1) c(2)]
    by (simp add: ids_ok_def distinct_map inj_on_def device_id_def)
  moreover have "ids_ok (physical d)"
    unfolding physical_def by (rule ids_ok_filter [OF doc_ok_records(2) [OF assms(1) c(1)]])
  moreover have "j_text p ''id'' \<noteq> j_text dev ''id''" if "p \<in> set (physical d)" "dev \<in> set devs" for p dev
  proof
    assume eq: "j_text p ''id'' = j_text dev ''id''"
    have "j_text dev ''id'' \<in> set (map (\<lambda>s. device_id (j_text s ''id'')) (doc_records d ''scenes''))"
      using that(2) unfolding ids [symmetric] by simp
    then obtain s where s: "s \<in> set (doc_records d ''scenes'')" "j_text dev ''id'' = device_id (j_text s ''id'')" by auto
    have "p \<in> set (doc_records d ''devices'')" "j_text p ''appId'' \<noteq> APP_ID"
      using that(1) by (simp_all add: physical_def)
    then have "\<not> is_ok (scene_device d s)"
      using doc_record_found [OF doc_ok_records(2) [OF assms(1) c(1)], of p] eq s(2)
      by (auto simp: scene_device_ok_iff)
    moreover have "is_ok (scene_device d s)"
      using assms(2) s(1) by (auto simp: list_all2_conv_all_nth in_set_conv_nth is_ok_iff)
    ultimately show False by blast
  qed
  moreover have "j_text dev ''id'' \<noteq> []" if "dev \<in> set devs" for dev
  proof -
    have "j_text dev ''id'' \<in> set (map (\<lambda>s. device_id (j_text s ''id'')) (doc_records d ''scenes''))"
      using that unfolding ids [symmetric] by simp
    then show ?thesis by (auto simp: device_id_def)
  qed
  ultimately show ?thesis by (fastforce simp: ids_ok_def)
qed

lemma reconcile_keeps:
  assumes "doc_ok d" and "reconcile d = Inr d'"
  obtains devs where "doc_ok d'" and "list_all2 (\<lambda>s dev. scene_device d s = Inr dev) (doc_records d ''scenes'') devs"
    and "doc_records d' ''devices'' = physical d @ devs" and "\<And>k. k \<noteq> ''devices'' \<Longrightarrow> j_get d' k = j_get d k"
proof -
  obtain devs where m: "list_all2 (\<lambda>s dev. scene_device d s = Inr dev) (doc_records d ''scenes'') devs"
    and r: "doc_replace d ''devices'' (physical d @ devs) = Inr d'"
    using assms(2) unfolding reconcile_Inr_iff mapR_list_all2_iff by blast
  obtain ps where ps: "d = Object ps" "d' = Object (obj_insert ps ''devices'' (Array (physical d @ devs)))"
    using r by (auto simp: result_iff)
  have "doc_ok d'"
    by (rule doc_ok_replace [OF assms(1) r _ reconcile_ids [OF assms(1) m]]) (simp add: COLLECTIONS_def)
  then show thesis
    using that [of devs] m ps by (auto simp: doc_records_def j_array_def)
qed

text \<open>C30: Reconciling gives every scene exactly one device and every device of a scene its scene: the other
  devices stay as they are and in order, then comes one device per scene in order, with the identity,
  class, name and capability the scene dictates; no other part of the document changes, the document
  stays well formed, and reconciling again changes nothing.\<close>

theorem reconcile_exact:
  assumes "doc_ok d" and "reconcile d = Inr d'"
  shows "doc_ok d' \<and> physical d' = physical d
    \<and> (\<exists>devs. doc_records d' ''devices'' = physical d @ devs \<and> list_all2 scene_dressed (doc_records d ''scenes'') devs)
    \<and> (\<forall>k. k \<noteq> ''devices'' \<longrightarrow> j_get d' k = j_get d k) \<and> reconcile d' = Inr d'"
proof -
  obtain devs where m: "list_all2 (\<lambda>s dev. scene_device d s = Inr dev) (doc_records d ''scenes'') devs"
    and len: "length (physical d @ devs) \<le> MAX_RECORDS" and r: "doc_replace d ''devices'' (physical d @ devs) = Inr d'"
    using assms(2) unfolding reconcile_Inr_iff mapR_list_all2_iff by blast
  note ids = reconcile_ids [OF assms(1) m]
  obtain ps where ps: "d = Object ps" "d' = Object (obj_insert ps ''devices'' (Array (physical d @ devs)))"
    using r by (auto simp: result_iff)
  have recs: "doc_records d' ''devices'' = physical d @ devs" "doc_records d' ''scenes'' = doc_records d ''scenes''"
    by (simp_all add: ps doc_records_def j_array_def)
  have dressed: "list_all2 scene_dressed (doc_records d ''scenes'') devs"
    using m by (rule list_all2_mono) (rule scene_device_dressed)
  have phys: "physical d' = physical d"
    using dressed unfolding physical_def recs(1)
    by (auto simp: filter_id_conv filter_empty_conv physical_def list_all2_conv_all_nth in_set_conv_nth scene_dressed_def
        dest!: j_text_get)
  have "scene_device d' s = Inr dev" if "(s, dev) \<in> set (zip (doc_records d ''scenes'') devs)" for s dev
  proof (rule scene_device_fixed)
    show sd: "scene_dressed s dev" using dressed that by (auto simp: list_all2_iff)
    have "dev \<in> set (doc_records d' ''devices'')" using that by (auto simp: recs dest: set_zip_rightD)
    then have "doc_record d' ''devices'' (j_text dev ''id'') = Inr dev"
      using ids by (intro doc_record_found) (simp_all add: recs)
    then show "doc_record d' ''devices'' (device_id (j_text s ''id'')) = Inr dev"
      using sd by (simp add: scene_dressed_def j_text_get)
  qed
  then have "list_all2 (\<lambda>s dev. scene_device d' s = Inr dev) (doc_records d' ''scenes'') devs"
    using m by (auto simp: list_all2_iff recs)
  moreover have "doc_replace d' ''devices'' (physical d' @ devs) = Inr d'"
    using len phys by (simp add: result_iff ps(2) obj_insert_same)
  ultimately have "reconcile d' = Inr d'"
    unfolding reconcile_Inr_iff mapR_list_all2_iff using len phys by auto
  moreover have "doc_ok d'"
    by (rule doc_ok_replace [OF assms(1) r _ ids]) (simp add: COLLECTIONS_def)
  ultimately show ?thesis
    using phys recs(1) dressed ps by auto
qed

text \<open>On a well-formed document reconciling succeeds exactly when no physical device carries the
  identifier of a scene device and the devices with one per scene fit in a collection.\<close>

theorem reconcile_succeeds_iff:
  assumes "doc_ok d"
  shows "is_ok (reconcile d) \<longleftrightarrow>
    (\<forall>p \<in> set (physical d). \<forall>s \<in> set (doc_records d ''scenes''). j_text p ''id'' \<noteq> device_id (j_text s ''id''))
    \<and> length (physical d) + length (doc_records d ''scenes'') \<le> MAX_RECORDS" (is "_ \<longleftrightarrow> ?free \<and> ?fits")
proof
  assume "is_ok (reconcile d)"
  then obtain devs where m: "list_all2 (\<lambda>s dev. scene_device d s = Inr dev) (doc_records d ''scenes'') devs"
    and len: "length (physical d @ devs) \<le> MAX_RECORDS"
    by (auto simp: is_ok_iff reconcile_Inr_iff mapR_list_all2_iff)
  have "j_text p ''id'' \<noteq> device_id (j_text s ''id'')" if p: "p \<in> set (physical d)" and s: "s \<in> set (doc_records d ''scenes'')" for p s
  proof -
    obtain dev where dev: "dev \<in> set devs" "scene_device d s = Inr dev"
      using m s unfolding list_all2_conv_all_nth in_set_conv_nth by metis
    then have "j_text dev ''id'' = device_id (j_text s ''id'')"
      using scene_device_dressed by (auto simp: scene_dressed_def intro: j_text_get)
    then show ?thesis
      using reconcile_ids [OF assms m] p dev(1) by (force simp: ids_ok_def)
  qed
  then show "?free \<and> ?fits" using len list_all2_lengthD [OF m] by auto
next
  assume a: "?free \<and> ?fits"
  have "is_ok (scene_device d s)" if "s \<in> set (doc_records d ''scenes'')" for s
    unfolding scene_device_ok_iff using a that by (auto dest!: doc_record_Inr simp: physical_def)
  then obtain devs where m: "list_all2 (\<lambda>s dev. scene_device d s = Inr dev) (doc_records d ''scenes'') devs"
    using mapR_total [of "doc_records d ''scenes''" "scene_device d"] unfolding mapR_list_all2_iff by blast
  obtain ps where "d = Object ps" using doc_ok_Object [OF assms] by blast
  then show "is_ok (reconcile d)"
    using m a list_all2_lengthD [OF m]
    by (auto simp: is_ok_iff reconcile_Inr_iff mapR_list_all2_iff doc_replace_Inr_iff intro!: exI [of _ devs])
qed

definition cinema_document :: document where
  "cinema_document = Object [(''version'', uint_value DOC_VERSION), (''apps'', Array []),
     (''devices'', Array [Object [(''id'', String ''lamp''), (''appId'', String ''hue'')]]),
     (''deviceGroups'', Array []), (''flows'', Array []),
     (''scenes'', Array [Object [(''id'', String ''film''), (''name'', String ''Film''), (''kind'', String ''switch'')]]),
     (''notifications'', Array []), (''appSettings'', Object []), (''appState'', Object []), (''system'', Object [])]"

lemma cinema_document_ok: "doc_ok cinema_document"
  by (simp add: doc_ok_def cinema_document_def COLLECTIONS_def SETTINGS_def collection_ok_def ids_ok_def
      MAX_RECORDS_def j_text_def)

lemma cinema_records:
  "physical cinema_document = [Object [(''id'', String ''lamp''), (''appId'', String ''hue'')]]"
  "doc_records cinema_document ''scenes'' = [Object [(''id'', String ''film''), (''name'', String ''Film''), (''kind'', String ''switch'')]]"
  by (simp_all add: physical_def cinema_document_def doc_records_def j_array_def j_text_def APP_ID_def)

theorem reconcile_exact_witness:
  "\<exists>d' dev. reconcile cinema_document = Inr d' \<and> length (doc_records d' ''devices'') = 2 \<and> reconcile d' = Inr d'"
proof -
  have "is_ok (scene_device cinema_document (hd (doc_records cinema_document ''scenes'')))"
    by (simp add: scene_device_ok_iff cinema_records doc_record_def cinema_document_def doc_records_def j_array_def
        j_text_def device_id_def)
  then obtain dev where "mapR (scene_device cinema_document) (doc_records cinema_document ''scenes'') = Inr [dev]"
    by (auto simp: cinema_records is_ok_iff)
  moreover obtain ps where "cinema_document = Object ps" using doc_ok_Object [OF cinema_document_ok] by blast
  ultimately obtain d' where d': "reconcile cinema_document = Inr d'"
    unfolding reconcile_Inr_iff doc_replace_Inr_iff by (auto simp: cinema_records(1) MAX_RECORDS_def)
  then show ?thesis
    using reconcile_exact [OF cinema_document_ok d'] by (auto simp: cinema_records list_all2_Cons1)
qed

theorem reconcile_succeeds_iff_witness: "is_ok (reconcile cinema_document)"
  using reconcile_succeeds_iff [OF cinema_document_ok]
  by (simp add: cinema_records j_text_def device_id_def MAX_RECORDS_def)

end
