(* ===== verification/Triggers.thy ===== *)
theory Triggers
  imports Document
begin

text \<open>
  The flow triggers a device report gives rise to (\<open>changes\<close> of
  \<^verbatim>\<open>crates/core/src/store/triggers.rs\<close>): for every capability whose value changed, the general card and
  the cards of its kind, in a list of at most 256.
\<close>

definition MAX_TRIGGERS :: nat where "MAX_TRIGGERS = 256"

definition numeric :: "jvalue \<Rightarrow> f64 option" where
  "numeric v = (case v of Number n \<Rightarrow> Some (num_as_f64 n) | _ \<Rightarrow> None)"

definition change_suffix :: "jvalue \<Rightarrow> jvalue \<Rightarrow> string option" where
  "change_suffix v before =
     (if as_str v \<noteq> None then Some ''became''
      else case (numeric v, numeric before) of
        (Some a, Some b) \<Rightarrow> if f64_lt b a then Some ''rose_above''
                           else if f64_lt a b then Some ''fell_below'' else None
      | _ \<Rightarrow> None)"

definition change_cards :: "string \<Rightarrow> jvalue \<Rightarrow> jvalue \<Rightarrow> string list" where
  "change_cards cap v before =
     (let card = ''capability.'' @ cap @ ''.'' in
      ''device_capability_changed'' #
      (case as_bool v of
         Some on \<Rightarrow>
           if is_null before \<or> as_bool before \<noteq> None then [card @ (if on then ''on'' else ''off'')]
           else (card @ ''changed'') # (case change_suffix v before of Some s \<Rightarrow> [card @ s] | None \<Rightarrow> [])
       | None \<Rightarrow> (card @ ''changed'') # (case change_suffix v before of Some s \<Rightarrow> [card @ s] | None \<Rightarrow> [])))"

definition change_state :: "jvalue \<Rightarrow> string \<Rightarrow> jvalue \<Rightarrow> jvalue \<Rightarrow> (string \<times> jvalue) list" where
  "change_state device cap v before =
     [(''deviceId'', String (j_text device ''id'')), (''capability'', String cap), (''value'', v), (''oldValue'', before)]"

definition change_event :: "jvalue \<Rightarrow> string \<Rightarrow> jvalue \<Rightarrow> jvalue \<Rightarrow> string \<Rightarrow> jvalue" where
  "change_event device cap v before cid =
     j_fields [(''appId'', String ''stulp''), (''id'', String cid), (''kind'', String ''trigger''),
       (''tokens'', Object (obj_insert (change_state device cap v before) ''device'' (String (j_text device ''name'')))),
       (''state'', j_fields (change_state device cap v before))]"

definition change_cap :: "jvalue \<Rightarrow> jvalue \<Rightarrow> string \<times> jvalue \<Rightarrow> jvalue list \<Rightarrow> jvalue list result" where
  "change_cap device old = (\<lambda>(cap, v) out.
     let before = j_field old cap in
     if j_equal v before then Inr out
     else foldR (\<lambda>cid out. j_push out (change_event device cap v before cid) MAX_TRIGGERS)
            (change_cards cap v before) out)"

definition changes :: "jvalue \<Rightarrow> jvalue \<Rightarrow> jvalue \<Rightarrow> jvalue list result" where
  "changes device old new =
     (case as_object new of None \<Rightarrow> Inr [] | Some ps \<Rightarrow> foldR (change_cap device old) ps [])"

section \<open>The events of a report\<close>

definition cap_events :: "jvalue \<Rightarrow> jvalue \<Rightarrow> string \<times> jvalue \<Rightarrow> jvalue list" where
  "cap_events device old = (\<lambda>(cap, v).
     if j_equal v (j_field old cap) then []
     else map (change_event device cap v (j_field old cap)) (change_cards cap v (j_field old cap)))"

definition report_events :: "jvalue \<Rightarrow> jvalue \<Rightarrow> jvalue \<Rightarrow> jvalue list" where
  "report_events device old new =
     (case as_object new of None \<Rightarrow> [] | Some ps \<Rightarrow> concat (map (cap_events device old) ps))"

lemma foldR_push:
  "length out \<le> mx \<Longrightarrow> foldR (\<lambda>x out. j_push out (f x) mx) xs out
     = (if length out + length xs \<le> mx then Inr (out @ map f xs) else Inl Full)"
  by (induction xs arbitrary: out) (auto simp: j_push_def)

lemma change_cap_events:
  "length out \<le> MAX_TRIGGERS \<Longrightarrow> change_cap device old p out
     = (if length out + length (cap_events device old p) \<le> MAX_TRIGGERS
        then Inr (out @ cap_events device old p) else Inl Full)"
  by (cases p) (auto simp: change_cap_def cap_events_def foldR_push Let_def)

lemma changes_fold:
  "length out \<le> MAX_TRIGGERS \<Longrightarrow> foldR (change_cap device old) ps out
     = (if length out + length (concat (map (cap_events device old) ps)) \<le> MAX_TRIGGERS
        then Inr (out @ concat (map (cap_events device old) ps)) else Inl Full)"
  by (induction ps arbitrary: out) (auto simp: change_cap_events)

text \<open>The triggers of a device report are exactly those of the capabilities whose value changed, in the
  order of the report, and nothing is dropped silently: when they exceed 256 the report is refused as
  a whole.\<close>

theorem changes_exact:
  "changes device old new =
     (if length (report_events device old new) \<le> MAX_TRIGGERS then Inr (report_events device old new) else Inl Full)"
  by (cases "as_object new") (simp_all add: changes_def report_events_def changes_fold)

lemma changes_result:
  "changes device old new = Inr out \<longleftrightarrow> out = report_events device old new \<and> length out \<le> MAX_TRIGGERS"
  "changes device old new = Inl e \<longleftrightarrow> e = Full \<and> MAX_TRIGGERS < length (report_events device old new)"
  by (cases "as_object new"; auto simp: changes_def report_events_def changes_fold)+

text \<open>A report equal to the previous one gives no trigger.\<close>

lemma report_events_quiet:
  assumes "wf_value s"
  shows "report_events device s s = []"
proof (cases s)
  case (Object ps)
  then have "distinct (map fst ps)" "\<forall>(k, v) \<in> set ps. wf_value v"
    using assms by (auto simp: wf_fields_iff)
  then show ?thesis
    using j_equal_refl_all(1) obj_get_in_distinct
    by (fastforce simp: Object report_events_def cap_events_def j_field_def)
qed (simp_all add: report_events_def)

text \<open>Two or three cards per changed capability, the general one first.\<close>

lemma change_cards_shape: "hd (change_cards cap v before) = ''device_capability_changed''"
  "length (change_cards cap v before) \<in> {2, 3}"
  by (auto simp: change_cards_def Let_def split: option.splits)

end
