(* ===== verification/Float32.thy ===== *)
theory Float32
  imports Float64
begin

text \<open>
  The \<open>f32\<close> operations of the statistics, on the IEEE 754 binary32 bit pattern, in the manner of
  \<open>Float64\<close>: exact rational results rounded to nearest, ties to even, with infinities and NaN. The
  payload of a NaN is not modelled.
\<close>

type_synonym f32 = "32 word"

definition f32_neg :: "f32 \<Rightarrow> bool" where
  "f32_neg b = (2 ^ 31 \<le> uint b)"

definition f32_mag :: "f32 \<Rightarrow> int" where
  "f32_mag b = uint b mod 2 ^ 31"

definition f32_exp :: "f32 \<Rightarrow> int" where
  "f32_exp b = f32_mag b div 2 ^ 23"

definition f32_frac :: "f32 \<Rightarrow> int" where
  "f32_frac b = f32_mag b mod 2 ^ 23"

definition f32_is_finite :: "f32 \<Rightarrow> bool" where
  "f32_is_finite b = (f32_exp b \<noteq> 255)"

definition f32_is_nan :: "f32 \<Rightarrow> bool" where
  "f32_is_nan b = (f32_exp b = 255 \<and> f32_frac b \<noteq> 0)"

definition f32_sig :: "f32 \<Rightarrow> int" where
  "f32_sig b = (if f32_exp b = 0 then f32_frac b else 2 ^ 23 + f32_frac b)"

definition f32_pow :: "f32 \<Rightarrow> int" where
  "f32_pow b = (if f32_exp b = 0 then - 149 else f32_exp b - 150)"

definition f32_key :: "f32 \<Rightarrow> int" where
  "f32_key b = (if f32_neg b then - f32_mag b else f32_mag b)"

definition f32_lt :: "f32 \<Rightarrow> f32 \<Rightarrow> bool" where
  "f32_lt a b = (\<not> f32_is_nan a \<and> \<not> f32_is_nan b \<and> f32_key a < f32_key b)"

text \<open>\<open>f32::min\<close> and \<open>f32::max\<close>: the other operand when one is NaN.\<close>

definition f32_min :: "f32 \<Rightarrow> f32 \<Rightarrow> f32" where
  "f32_min a b = (if f32_is_nan a then b else if f32_is_nan b then a else if f32_key b < f32_key a then b else a)"

definition f32_max :: "f32 \<Rightarrow> f32 \<Rightarrow> f32" where
  "f32_max a b = (if f32_is_nan a then b else if f32_is_nan b then a else if f32_key a < f32_key b then b else a)"

definition f32_of_mag :: "bool \<Rightarrow> int \<Rightarrow> f32" where
  "f32_of_mag neg m = word_of_int (if neg then 2 ^ 31 + m else m)"

definition f32_infinity :: "bool \<Rightarrow> f32" where
  "f32_infinity neg = f32_of_mag neg (255 * 2 ^ 23)"

definition f32_nan :: f32 where
  "f32_nan = word_of_int (255 * 2 ^ 23 + 2 ^ 22)"

definition f32_round :: "bool \<Rightarrow> int \<Rightarrow> int \<Rightarrow> f32" where
  "f32_round neg p q =
     (if p = 0 then f32_of_mag neg 0
      else let e = max (log2_frac p q) (- 126); k = 23 - e;
               s = round_half_even (shl p k) (shl q (- k));
               m = (e + 126) * 2 ^ 23 + s
           in f32_of_mag neg (min m (255 * 2 ^ 23)))"

definition f32_num :: "f32 \<Rightarrow> int" where
  "f32_num b = (if f32_neg b then - 1 else 1) * shl (f32_sig b) (f32_pow b)"

definition f32_den :: "f32 \<Rightarrow> int" where
  "f32_den b = shl 1 (- f32_pow b)"

text \<open>Conversions: \<open>u64 as f32\<close> and \<open>f32::from(u16)\<close>, \<open>f64 as f32\<close>, \<open>f64::from(f32)\<close>.\<close>

definition f32_of_int :: "int \<Rightarrow> f32" where
  "f32_of_int n = f32_round (n < 0) \<bar>n\<bar> 1"

definition f32_of_f64 :: "f64 \<Rightarrow> f32" where
  "f32_of_f64 x = (if f64_is_nan x then f32_nan else if \<not> f64_is_finite x then f32_infinity (f64_neg x)
     else f32_round (f64_neg x) \<bar>f64_num x\<bar> (f64_den x))"

definition f64_of_f32 :: "f32 \<Rightarrow> f64" where
  "f64_of_f32 x = (if f32_is_nan x then f64_nan
     else if \<not> f32_is_finite x then f64_of_mag (f32_neg x) (2047 * 2 ^ 52)
     else f64_round (f32_neg x) \<bar>f32_num x\<bar> (f32_den x))"

definition f32_add :: "f32 \<Rightarrow> f32 \<Rightarrow> f32" where
  "f32_add a b =
     (if f32_is_nan a \<or> f32_is_nan b then f32_nan
      else if \<not> f32_is_finite a then if \<not> f32_is_finite b \<and> f32_neg a \<noteq> f32_neg b then f32_nan else a
      else if \<not> f32_is_finite b then b
      else let n = f32_num a * f32_den b + f32_num b * f32_den a
           in f32_round (if n = 0 then f32_neg a \<and> f32_neg b else n < 0) \<bar>n\<bar> (f32_den a * f32_den b))"

definition f32_opposite :: "f32 \<Rightarrow> f32" where
  "f32_opposite a = f32_of_mag (\<not> f32_neg a) (f32_mag a)"

definition f32_sub :: "f32 \<Rightarrow> f32 \<Rightarrow> f32" where
  "f32_sub a b = f32_add a (f32_opposite b)"

definition f32_mul :: "f32 \<Rightarrow> f32 \<Rightarrow> f32" where
  "f32_mul a b =
     (let neg = (f32_neg a \<noteq> f32_neg b) in
      if f32_is_nan a \<or> f32_is_nan b then f32_nan
      else if \<not> f32_is_finite a \<or> \<not> f32_is_finite b
      then if f32_mag a = 0 \<or> f32_mag b = 0 then f32_nan else f32_infinity neg
      else f32_round neg \<bar>f32_num a * f32_num b\<bar> (f32_den a * f32_den b))"

text \<open>Division of a number by a positive finite number, the only division the statistics makes.\<close>

definition f32_div :: "f32 \<Rightarrow> f32 \<Rightarrow> f32" where
  "f32_div a b = (if f32_is_nan a \<or> \<not> f32_is_finite b \<or> f32_num b \<le> 0 then f32_nan
     else if \<not> f32_is_finite a then a
     else f32_round (f32_neg a) (\<bar>f32_num a\<bar> * f32_den b) (f32_den a * f32_num b))"

text \<open>\<open>as u16\<close>: truncation, saturating, NaN to 0.\<close>

definition u16_of_f64 :: "f64 \<Rightarrow> u16" where
  "u16_of_f64 x = (if f64_is_nan x then 0
     else if \<not> f64_is_finite x then if f64_neg x then 0 else 65535
     else word_of_int (max 0 (min 65535 (f64_trunc x))))"

end
