(* ===== verification/Time.thy ===== *)
theory Time
  imports JsonRoundtrip
begin

text \<open>
  Instants of \<^verbatim>\<open>vendor/types/src/time.rs\<close>: Unix nanoseconds written and read as RFC 3339, and the
  helpers of \<^verbatim>\<open>crates/core/src/json.rs\<close> over them. An instant is a \<open>u64\<close>; the calendar arithmetic
  stays far below 64 bits and is written on \<open>int\<close>, with the overflow checks the source makes.
\<close>

definition SECOND :: int where "SECOND = 1000000000"

section \<open>The calendar\<close>

definition civil_from_days :: "int \<Rightarrow> int \<times> int \<times> int" where
  "civil_from_days days =
     (let z = days + 719468;
          era = z div 146097;
          doe = z - era * 146097;
          yoe = (doe - doe div 1460 + doe div 36524 - doe div 146096) div 365;
          doy = doe - (365 * yoe + yoe div 4 - yoe div 100);
          mp = (5 * doy + 2) div 153;
          d = doy - (153 * mp + 2) div 5 + 1;
          m = (if mp < 10 then mp + 3 else mp - 9);
          y = yoe + era * 400 + (if m \<le> 2 then 1 else 0)
      in (y, m, d))"

definition days_from_civil :: "int \<Rightarrow> int \<Rightarrow> int \<Rightarrow> int" where
  "days_from_civil y0 m d =
     (let y = (if m \<le> 2 then y0 - 1 else y0);
          era = y div 400;
          yoe = y - era * 400;
          mp = (if 2 < m then m - 3 else m + 9);
          doy = (153 * mp + 2) div 5 + d - 1;
          doe = yoe * 365 + yoe div 4 - yoe div 100 + doy
      in max 0 (era * 146097 + doe - 719468))"

text \<open>The year of the era as the source computes it, and the days before a year of the era.\<close>

definition year_of_era :: "int \<Rightarrow> int" where
  "year_of_era doe = (doe - doe div 1460 + doe div 36524 - doe div 146096) div 365"

definition days_before :: "int \<Rightarrow> int" where
  "days_before yoe = 365 * yoe + yoe div 4 - yoe div 100"

lemma year_of_era_mono:
  assumes "0 \<le> a" and "a \<le> b" and "b < 146097"
  shows "year_of_era a \<le> year_of_era b"
proof -
  have step: "year_of_era d \<le> year_of_era (d + 1)" if d: "0 \<le> d" "d + 1 < 146097" for d
  proof -
    have a: "(d + 1) div 1460 \<le> d div 1460 + 1" by linarith
    have b: "d div 36524 \<le> (d + 1) div 36524" by linarith
    have "(d + 1) div 146096 = d div 146096 \<or> d + 1 = 146096"
      using d by (cases "d + 1 = 146096") (simp_all add: div_pos_pos_trivial)
    then have "(d + 1) div 1460 + (d + 1) div 146096 \<le> d div 1460 + d div 146096 + 1"
    proof
      assume "d + 1 = 146096"
      then have "d = 146095" by simp
      then show ?thesis by simp
    qed (use a in simp)
    then show ?thesis
      unfolding year_of_era_def using b by (intro zdiv_mono1) auto
  qed
  have "year_of_era a \<le> year_of_era (a + int n)" if "a + int n < 146097" for n
    using that
  proof (induction n)
    case (Suc n)
    then show ?case using step [of "a + int n"] assms(1) by (simp add: algebra_simps)
  qed simp
  from this [of "nat (b - a)"] show ?thesis using assms by simp
qed

lemma list_all_below:
  assumes "list_all P (map int [0..<n])" and "0 \<le> i" and "i < int n"
  shows "P i"
proof -
  have "i = int (nat i)" "nat i < n" using assms(2,3) by auto
  then show ?thesis
    using assms(1) by (metis (no_types, lifting) list_all_length length_map length_upt nth_map nth_upt diff_zero add_0)
qed

lemma year_of_era_ends:
  "list_all (\<lambda>y. year_of_era (days_before y) = y
     \<and> year_of_era (if y = 399 then 146096 else days_before (y + 1) - 1) = y
     \<and> days_before (y + 1) - days_before y \<in> {365, 366}) (map int [0..<400])"
  by code_simp

lemma doy_months:
  "list_all (\<lambda>doy. let mp = (5 * doy + 2) div 153; d = doy - (153 * mp + 2) div 5 + 1 in
     0 \<le> mp \<and> mp < 12 \<and> 1 \<le> d \<and> d \<le> 31) (map int [0..<366])"
  by code_simp

lemma year_of_era_range:
  assumes "0 \<le> doe" and "doe < 146097"
  shows "0 \<le> year_of_era doe" and "year_of_era doe < 400"
    and "days_before (year_of_era doe) \<le> doe" and "doe - days_before (year_of_era doe) \<le> 365"
proof -
  define P where "P = (\<lambda>n. doe < (if n = 400 then 146097 else days_before (int n)))"
  have p: "P 400" "\<not> P 0" using assms by (simp_all add: P_def days_before_def)
  obtain k where k1: "k < 400" and "\<forall>i \<le> k. \<not> P i" and k3: "P (k + 1)"
    using ex_least_nat_less [OF p, unfolded Suc_eq_plus1] by metis
  then have "\<not> P k" by blast
  then have k: "k < 400" "days_before (int k) \<le> doe"
    "doe < (if k + 1 = 400 then 146097 else days_before (int (k + 1)))"
    using k1 k3 unfolding P_def by simp_all
  have e: "year_of_era (days_before (int k)) = int k"
    "year_of_era (if int k = 399 then 146096 else days_before (int k + 1) - 1) = int k"
    "days_before (int k + 1) - days_before (int k) \<in> {365, 366}"
    using list_all_below [OF year_of_era_ends, of "int k"] k(1) by simp_all
  have last: "(if int k = 399 then 146096 else days_before (int k + 1) - 1) = (if k + 1 = 400 then 146097 else days_before (int (k + 1))) - 1"
    by (simp add: add.commute)
  have "0 \<le> days_before (int k)"
    by (simp add: days_before_def)
  then have "int k \<le> year_of_era doe"
    using year_of_era_mono [of "days_before (int k)" doe] e(1) k assms by simp
  moreover have "year_of_era doe \<le> int k"
    using year_of_era_mono [of doe "(if int k = 399 then 146096 else days_before (int k + 1) - 1)"] e(2) k(1,3) assms
    unfolding last by (auto split: if_splits simp: days_before_def)
  ultimately have y: "year_of_era doe = int k" by simp
  show "0 \<le> year_of_era doe" "year_of_era doe < 400" "days_before (year_of_era doe) \<le> doe"
    using y k by simp_all
  show "doe - days_before (year_of_era doe) \<le> 365"
    using y k e(3) by (cases "k = 399") (auto simp: add.commute days_before_def)
qed

lemma civil_parts:
  assumes "0 \<le> days"
  obtains era yoe mp d where "civil_from_days days = (yoe + era * 400 + (if mp < 10 then 0 else 1), if mp < 10 then mp + 3 else mp - 9, d)"
    and "0 \<le> yoe" "yoe < 400" "0 \<le> mp" "mp < 12" "1 \<le> d" "d \<le> 31" "4 \<le> era"
    and "days + 719468 = era * 146097 + days_before yoe + (153 * mp + 2) div 5 + d - 1"
proof -
  define z where "z = days + 719468"
  define era where "era = z div 146097"
  define doe where "doe = z - era * 146097"
  define yoe where "yoe = year_of_era doe"
  define doy where "doy = doe - days_before yoe"
  define mp where "mp = (5 * doy + 2) div 153"
  define d where "d = doy - (153 * mp + 2) div 5 + 1"
  have doe: "0 \<le> doe" "doe < 146097" and era: "4 \<le> era"
    using assms by (auto simp: doe_def era_def z_def)
  note y = year_of_era_range [OF doe, folded yoe_def]
  have "0 \<le> doy" "doy \<le> 365" using y by (auto simp: doy_def)
  then have m: "0 \<le> mp" "mp < 12" "1 \<le> d" "d \<le> 31"
    using list_all_below [OF doy_months, of doy] by (simp_all add: Let_def mp_def d_def)
  have z: "days + 719468 = era * 146097 + days_before yoe + (153 * mp + 2) div 5 + d - 1"
    unfolding d_def doy_def doe_def z_def by (simp only: algebra_simps)
  have "civil_from_days days = (yoe + era * 400 + (if mp < 10 then 0 else 1), if mp < 10 then mp + 3 else mp - 9, d)"
    using m(1,2) unfolding civil_from_days_def Let_def
    by (simp add: z_def [symmetric] era_def [symmetric] doe_def [symmetric] year_of_era_def [symmetric]
        yoe_def [symmetric] days_before_def [symmetric] doy_def [symmetric] mp_def [symmetric] d_def [symmetric])
  then show thesis
    using that [of yoe era mp d] y(1,2) m era z by blast
qed

lemma days_from_civil_from_days:
  assumes "0 \<le> days" and "civil_from_days days = (y, m, d)"
  shows "days_from_civil y m d = days" and "1970 \<le> y" and "1 \<le> m" and "m \<le> 12" and "1 \<le> d" and "d \<le> 31"
proof -
  obtain era yoe mp d' where c: "civil_from_days days
      = (yoe + era * 400 + (if mp < 10 then 0 else 1), if mp < 10 then mp + 3 else mp - 9, d')"
    and r: "0 \<le> yoe" "yoe < 400" "0 \<le> mp" "mp < 12" "1 \<le> d'" "d' \<le> 31" "4 \<le> era"
    and z: "days + 719468 = era * 146097 + days_before yoe + (153 * mp + 2) div 5 + d' - 1"
    using civil_parts [OF assms(1)] by metis
  have eq: "y = yoe + era * 400 + (if mp < 10 then 0 else 1)" "m = (if mp < 10 then mp + 3 else mp - 9)" "d = d'"
    using c assms(2) by auto
  have e: "(yoe + era * 400) div 400 = era" using r by simp
  have y: "(if m \<le> 2 then y - 1 else y) = yoe + era * 400" and mp: "(if 2 < m then m - 3 else m + 9) = mp"
    using r(3,4) eq by (simp_all split: if_splits)
  have "days_from_civil y m d = max 0 (era * 146097 + days_before yoe + (153 * mp + 2) div 5 + d' - 1 - 719468)"
    unfolding days_from_civil_def Let_def y mp e eq(3) days_before_def by (simp add: algebra_simps)
  then show "days_from_civil y m d = days"
    unfolding z [symmetric] using assms(1) by simp
  show "1 \<le> m" "m \<le> 12" "1 \<le> d" "d \<le> 31" using r eq by auto
  show "1970 \<le> y"
  proof (rule ccontr)
    assume "\<not> 1970 \<le> y"
    then have "era < 5" "yoe + 400 * era + (if mp < 10 then 0 else 1) \<le> 1969"
      unfolding eq using r(1) by (simp_all split: if_splits)
    then have "era = 4" "yoe + 1600 + (if mp < 10 then 0 else 1) \<le> 1969" using r(7) by simp_all
    then have "yoe < 369 \<or> yoe = 369 \<and> mp < 10" by (auto split: if_splits)
    then have "days_before yoe + (153 * mp + 2) div 5 + d' - 1 < 719468 - 4 * 146097"
      using r by (auto simp: days_before_def)
    then show False using z assms(1) \<open>era = 4\<close> by simp
  qed
qed

section \<open>Writing an instant\<close>

text \<open>The stack buffer of 40 bytes: a formatted write fails when it does not fit, \<open>push\<close> drops the byte.\<close>

definition buf_write :: "string \<Rightarrow> string \<Rightarrow> string option" where
  "buf_write buf s = (if 40 < length buf + length s then None else Some (buf @ s))"

definition buf_push :: "string \<Rightarrow> char \<Rightarrow> string" where
  "buf_push buf c = (if length buf < 40 then buf @ [c] else buf)"

text \<open>\<open>{:0w}\<close>.\<close>

definition pad :: "nat \<Rightarrow> int \<Rightarrow> string" where
  "pad w n = replicate (w - length (show_dec n)) CHR ''0'' @ show_dec n"

fun frac_digits :: "nat \<Rightarrow> int \<Rightarrow> string" where
  "frac_digits 0 f = []"
| "frac_digits (Suc k) f = frac_digits k (f div 10) @ [digit_char (f mod 10)]"

definition strip_zeros :: "string \<Rightarrow> string" where
  "strip_zeros ds = rev (dropWhile (\<lambda>c. c = CHR ''0'') (rev ds))"

definition civil_text :: "int \<Rightarrow> string" where
  "civil_text secs =
     (let days = secs div 86400; rem = secs mod 86400; (y, m, d) = civil_from_days days in
      pad 4 y @ ''-'' @ pad 2 m @ ''-'' @ pad 2 d @ ''T'' @ pad 2 (rem div 3600) @ '':''
        @ pad 2 (rem div 60 mod 60) @ '':'' @ pad 2 (rem mod 60))"

definition write_rfc3339 :: "u64 \<Rightarrow> string \<Rightarrow> string hop_result" where
  "write_rfc3339 t out =
     (if t = 0 then Inr (out @ ''0001-01-01T00:00:00Z'')
      else let secs = uint t div SECOND; frac = uint t mod SECOND in
           case buf_write [] (civil_text secs) of
             None \<Rightarrow> Inl OutOfMemory
           | Some buf \<Rightarrow>
               let buf1 = (if 0 < frac
                           then foldl buf_push (buf_push buf CHR ''.'') (strip_zeros (frac_digits 9 frac))
                           else buf)
               in Inr (out @ buf_push buf1 CHR ''Z''))"

section \<open>Reading an instant\<close>

definition bad_time :: hop_error where
  "bad_time = HopInvalid ''time'' ''not an RFC 3339 timestamp''"

definition byte_at :: "string \<Rightarrow> nat \<Rightarrow> char \<Rightarrow> bool" where
  "byte_at b i c \<longleftrightarrow> i < length b \<and> b ! i = c"

definition num_at :: "string \<Rightarrow> nat \<Rightarrow> nat \<Rightarrow> int hop_result" where
  "num_at b i k =
     (let part = take k (drop i b) in
      if length part = k \<and> list_all is_digit part then Inr (read_dec part) else Inl bad_time)"

text \<open>The fraction: its nanoseconds, of which only the first nine digits count, and where it ends.\<close>

definition parse_frac :: "string \<Rightarrow> (int \<times> nat) hop_result" where
  "parse_frac b =
     (if byte_at b 19 CHR ''.''
      then let ds = takeWhile is_digit (drop 20 b) in
           if ds = [] then Inl bad_time
           else Inr (read_dec (take 9 ds) * 10 ^ (9 - length (take 9 ds)), 20 + length ds)
      else Inr (0, 19))"

definition parse_offset :: "string \<Rightarrow> nat \<Rightarrow> int hop_result" where
  "parse_offset b i =
     (if (byte_at b i CHR ''Z'' \<or> byte_at b i CHR ''z'') \<and> length b = i + 1 then Inr 0
      else if (byte_at b i CHR ''+'' \<or> byte_at b i CHR ''-'') \<and> length b = i + 6 \<and> byte_at b (i + 3) CHR '':''
      then bindR (num_at b (i + 1) 2) (\<lambda>h. bindR (num_at b (i + 4) 2) (\<lambda>m.
        let off = h * 3600 + m * 60 in Inr (if byte_at b i CHR ''+'' then off else - off)))
      else Inl bad_time)"

definition parse_rfc3339 :: "string \<Rightarrow> u64 hop_result" where
  "parse_rfc3339 b =
     (if length b < 20 \<or> \<not> byte_at b 4 CHR ''-'' \<or> \<not> byte_at b 7 CHR ''-'' then Inl bad_time
      else if \<not> (byte_at b 10 CHR ''T'' \<or> byte_at b 10 CHR ''t'') \<or> \<not> byte_at b 13 CHR '':''
        \<or> \<not> byte_at b 16 CHR '':'' then Inl bad_time
      else
        bindR (num_at b 0 4) (\<lambda>y. bindR (num_at b 5 2) (\<lambda>mo. bindR (num_at b 8 2) (\<lambda>d.
        bindR (num_at b 11 2) (\<lambda>h. bindR (num_at b 14 2) (\<lambda>mi. bindR (num_at b 17 2) (\<lambda>sec.
          if mo < 1 \<or> 12 < mo \<or> d < 1 \<or> 31 < d \<or> 23 < h \<or> 59 < mi \<or> 60 < sec then Inl bad_time
          else bindR (parse_frac b) (\<lambda>(frac, i). bindR (parse_offset b i) (\<lambda>offset.
            if y < 1970 then Inr 0
            else let secs = days_from_civil y mo d * 86400 + h * 3600 + mi * 60 + sec - offset in
                 if secs < 0 \<or> 2 ^ 64 \<le> secs * SECOND + frac then Inl bad_time
                 else Inr (word_of_int (secs * SECOND + frac)))))))))))"

text \<open>\<open>timestamp\<close>, \<open>time_is_before\<close> and \<open>unix_seconds\<close> of the core.\<close>

definition timestamp :: "u64 \<Rightarrow> string result" where
  "timestamp nanoseconds = from_hop (write_rfc3339 nanoseconds [])"

definition time_is_before :: "string \<Rightarrow> string \<Rightarrow> bool" where
  "time_is_before a b = (case (parse_rfc3339 a, parse_rfc3339 b) of
     (Inr x, Inr y) \<Rightarrow> x < y | _ \<Rightarrow> False)"

definition unix_seconds :: "string \<Rightarrow> u64 option" where
  "unix_seconds s = (case parse_rfc3339 s of Inl _ \<Rightarrow> None | Inr t \<Rightarrow> Some (t div 1000000000))"

section \<open>The round trip\<close>

lemma length_show_dec: "0 \<le> n \<Longrightarrow> n < 10 ^ w \<Longrightarrow> 0 < w \<Longrightarrow> length (show_dec n) \<le> w"
proof (induction n arbitrary: w rule: show_dec.induct)
  case (1 n)
  show ?case
  proof (cases "n < 10")
    case True
    then show ?thesis using 1 by (simp add: show_dec.simps [of n])
  next
    case False
    then obtain v where v: "w = Suc v" "0 < v" using 1(3) by (cases w; cases "w - 1") auto
    have "n div 10 < 10 ^ v" using 1(3) v by simp
    then show ?thesis
      using False v 1(1) [of v] 1(2) by (simp add: show_dec.simps [of n])
  qed
qed

lemma read_dec_zeros: "read_dec (replicate k CHR ''0'' @ s) = read_dec s"
  by (induction k) (simp_all add: read_dec_def)

lemma pad_facts:
  assumes "0 \<le> n" and "n < 10 ^ w" and "0 < w"
  shows "length (pad w n) = w" and "list_all is_digit (pad w n)" and "read_dec (pad w n) = n"
  using assms length_show_dec [OF assms] show_dec_facts [OF assms(1)]
  by (auto simp: pad_def read_dec_zeros list_all_iff is_digit_def)

lemma frac_digits_facts:
  "0 \<le> f \<Longrightarrow> f < 10 ^ k \<Longrightarrow> length (frac_digits k f) = k \<and> list_all is_digit (frac_digits k f)
     \<and> read_dec (frac_digits k f) = f"
proof (induction k arbitrary: f)
  case 0
  then show ?case by (simp add: read_dec_def)
next
  case (Suc k)
  from Suc.IH [of "f div 10"] Suc.prems show ?case by (simp add: read_dec_snoc ord_digit_char)
qed

lemma strip_zeros_facts:
  assumes "list_all is_digit ds"
  shows "list_all is_digit (strip_zeros ds)" and "length (strip_zeros ds) \<le> length ds"
    and "read_dec ds = read_dec (strip_zeros ds) * 10 ^ (length ds - length (strip_zeros ds))"
proof -
  define z where "z = rev (takeWhile (\<lambda>c. c = CHR ''0'') (rev ds))"
  have z: "ds = strip_zeros ds @ z" "\<forall>c \<in> set z. c = CHR ''0''"
    unfolding strip_zeros_def z_def by (simp_all flip: rev_append) (blast dest: set_takeWhileD)
  show "list_all is_digit (strip_zeros ds)" "length (strip_zeros ds) \<le> length ds"
    using assms arg_cong [OF z(1), of length] arg_cong [OF z(1), of "list_all is_digit"] by simp_all
  have "read_dec (s @ z) = read_dec s * 10 ^ length z" for s
    using z(2) by (induction z arbitrary: s rule: rev_induct) (simp_all add: read_dec_snoc flip: append_assoc)
  then show "read_dec ds = read_dec (strip_zeros ds) * 10 ^ (length ds - length (strip_zeros ds))"
    using arg_cong [OF z(1), of length] arg_cong [OF z(1), of read_dec] by simp
qed

definition frac_text :: "int \<Rightarrow> string" where
  "frac_text frac = (if 0 < frac then CHR ''.'' # strip_zeros (frac_digits 9 frac) else [])"

lemma foldl_buf_push: "length buf + length s \<le> 40 \<Longrightarrow> foldl buf_push buf s = buf @ s"
  by (induction s arbitrary: buf) (auto simp: buf_push_def)

lemma civil_bounds:
  assumes "0 \<le> days" and "days < 10 ^ 6" and "civil_from_days days = (y, m, d)"
  shows "1970 \<le> y \<and> y < 10000 \<and> 1 \<le> m \<and> m \<le> 12 \<and> 1 \<le> d \<and> d \<le> 31"
proof -
  obtain era yoe mp d' where c: "civil_from_days days
      = (yoe + era * 400 + (if mp < 10 then 0 else 1), if mp < 10 then mp + 3 else mp - 9, d')"
    and r: "yoe < 400" "0 \<le> yoe" "0 \<le> mp" "1 \<le> d'"
    and z: "days + 719468 = era * 146097 + days_before yoe + (153 * mp + 2) div 5 + d' - 1"
    using civil_parts [OF assms(1)] by metis
  have "0 \<le> days_before yoe" "0 \<le> (153 * mp + 2) div 5"
    using r(2,3) by (simp_all add: days_before_def)
  then have "era * 146097 < 1719468" using z assms(2) r(4) by simp
  then have "era < 12" by simp
  then have "y < 10000" using c assms(3) r(1) by (auto split: if_splits)
  then show ?thesis using days_from_civil_from_days [OF assms(1,3)] by simp
qed

lemma pad_shape:
  "0 \<le> n \<Longrightarrow> n < 10 ^ 4 \<Longrightarrow> \<exists>a b c d. pad 4 n = [a, b, c, d] \<and> list_all is_digit [a, b, c, d] \<and> read_dec [a, b, c, d] = n"
  "0 \<le> n \<Longrightarrow> n < 10 ^ 2 \<Longrightarrow> \<exists>a b. pad 2 n = [a, b] \<and> list_all is_digit [a, b] \<and> read_dec [a, b] = n"
proof -
  assume n: "0 \<le> n" "n < 10 ^ 4"
  have "length (pad 4 n) = 4" by (rule pad_facts(1) [OF n]) simp
  then obtain a b c d where p: "pad 4 n = [a, b, c, d]"
    by (auto simp: length_Suc_conv numeral_eq_Suc)
  show "\<exists>a b c d. pad 4 n = [a, b, c, d] \<and> list_all is_digit [a, b, c, d] \<and> read_dec [a, b, c, d] = n"
    using p pad_facts(2,3) [OF n, unfolded p] by (intro exI conjI) simp_all
next
  assume n: "0 \<le> n" "n < 10 ^ 2"
  have "length (pad 2 n) = 2" by (rule pad_facts(1) [OF n]) simp
  then obtain a b where p: "pad 2 n = [a, b]"
    by (auto simp: length_Suc_conv numeral_eq_Suc)
  show "\<exists>a b. pad 2 n = [a, b] \<and> list_all is_digit [a, b] \<and> read_dec [a, b] = n"
    using p pad_facts(2,3) [OF n, unfolded p] by (intro exI conjI) simp_all
qed

lemma civil_text_shape:
  assumes "0 \<le> secs" and "secs < 2 * 10 ^ 10"
  obtains y1 y2 y3 y4 m1 m2 d1 d2 h1 h2 i1 i2 s1 s2 y m d where
    "civil_text secs = [y1, y2, y3, y4, CHR ''-'', m1, m2, CHR ''-'', d1, d2, CHR ''T'', h1, h2,
       CHR '':'', i1, i2, CHR '':'', s1, s2]"
    "list_all is_digit [y1, y2, y3, y4, m1, m2, d1, d2, h1, h2, i1, i2, s1, s2]"
    "civil_from_days (secs div 86400) = (y, m, d)"
    "read_dec [y1, y2, y3, y4] = y" "read_dec [m1, m2] = m" "read_dec [d1, d2] = d"
    "read_dec [h1, h2] = secs mod 86400 div 3600" "read_dec [i1, i2] = secs mod 86400 div 60 mod 60"
    "read_dec [s1, s2] = secs mod 86400 mod 60"
proof -
  obtain y m d where c: "civil_from_days (secs div 86400) = (y, m, d)" by (metis surj_pair)
  define rem where "rem = secs mod 86400"
  have days: "0 \<le> secs div 86400" "secs div 86400 < 10 ^ 6" "0 \<le> rem" "rem < 86400"
    using assms by (simp_all add: rem_def)
  note b = civil_bounds [OF days(1,2) c]
  have h: "rem div 3600 < 10 ^ 2" "rem div 60 mod 60 < 10 ^ 2" "rem mod 60 < 10 ^ 2"
    "0 \<le> rem div 3600" "0 \<le> rem div 60 mod 60" "0 \<le> rem mod 60"
    using days(3,4) pos_mod_bound [of 60 "rem div 60"] pos_mod_bound [of 60 rem] by simp_all
  have ymd: "0 \<le> y" "y < 10 ^ 4" "0 \<le> m" "m < 10 ^ 2" "0 \<le> d" "d < 10 ^ 2" using b by simp_all
  obtain y1 y2 y3 y4 where Y: "pad 4 y = [y1, y2, y3, y4]" "list_all is_digit [y1, y2, y3, y4]" "read_dec [y1, y2, y3, y4] = y"
    using pad_shape(1) [OF ymd(1,2)] by blast
  obtain m1 m2 where M: "pad 2 m = [m1, m2]" "list_all is_digit [m1, m2]" "read_dec [m1, m2] = m"
    using pad_shape(2) [OF ymd(3,4)] by blast
  obtain d1 d2 where D: "pad 2 d = [d1, d2]" "list_all is_digit [d1, d2]" "read_dec [d1, d2] = d"
    using pad_shape(2) [OF ymd(5,6)] by blast
  obtain h1 h2 where H: "pad 2 (rem div 3600) = [h1, h2]" "list_all is_digit [h1, h2]" "read_dec [h1, h2] = rem div 3600"
    using pad_shape(2) [OF h(4,1)] by blast
  obtain i1 i2 where I: "pad 2 (rem div 60 mod 60) = [i1, i2]" "list_all is_digit [i1, i2]" "read_dec [i1, i2] = rem div 60 mod 60"
    using pad_shape(2) [OF h(5,2)] by blast
  obtain s1 s2 where S: "pad 2 (rem mod 60) = [s1, s2]" "list_all is_digit [s1, s2]" "read_dec [s1, s2] = rem mod 60"
    using pad_shape(2) [OF h(6,3)] by blast
  have "civil_text secs = [y1, y2, y3, y4, CHR ''-'', m1, m2, CHR ''-'', d1, d2, CHR ''T'', h1, h2,
       CHR '':'', i1, i2, CHR '':'', s1, s2]"
    unfolding civil_text_def Let_def rem_def [symmetric] c prod.case Y(1) M(1) D(1) H(1) I(1) S(1) by simp
  moreover have "list_all is_digit [y1, y2, y3, y4, m1, m2, d1, d2, h1, h2, i1, i2, s1, s2]"
    using Y(2) M(2) D(2) H(2) I(2) S(2) by simp
  ultimately show thesis
    using that c Y(3) M(3) D(3) H(3) I(3) S(3) unfolding rem_def by blast
qed

lemma frac_text_read:
  assumes "0 \<le> frac" and "frac < SECOND" and "length head = 19"
  shows "\<exists>i. parse_frac (head @ frac_text frac @ ''Z'') = Inr (frac, i)
    \<and> parse_offset (head @ frac_text frac @ ''Z'') i = Inr 0" and "length (frac_text frac) \<le> 10"
proof -
  define ds where "ds = strip_zeros (frac_digits 9 frac)"
  have f: "length (frac_digits 9 frac) = 9" "list_all is_digit (frac_digits 9 frac)"
    "read_dec (frac_digits 9 frac) = frac"
    using frac_digits_facts [of frac 9] assms by (simp_all add: SECOND_def)
  note z = strip_zeros_facts [OF f(2), folded ds_def, unfolded f]
  show "length (frac_text frac) \<le> 10" using z(2) by (simp add: frac_text_def ds_def [symmetric])
  show "\<exists>i. parse_frac (head @ frac_text frac @ ''Z'') = Inr (frac, i)
    \<and> parse_offset (head @ frac_text frac @ ''Z'') i = Inr 0"
  proof (cases "0 < frac")
    case True
    then have "ds \<noteq> []" using z(3) by (cases ds) (auto simp: read_dec_def)
    moreover have "takeWhile is_digit (ds @ ''Z'') = ds"
      using z(1) by (intro takeWhile_digits) (auto simp: is_digit_def)
    moreover define b where "b = head @ CHR ''.'' # ds @ ''Z''"
    have "byte_at b 19 CHR ''.''" "drop 20 b = ds @ ''Z''" "byte_at b (20 + length ds) CHR ''Z''"
      "length b = 20 + length ds + 1"
      using assms(3) by (simp_all add: b_def byte_at_def nth_append)
    ultimately have "parse_frac b = Inr (frac, 20 + length ds) \<and> parse_offset b (20 + length ds) = Inr 0"
      using z(2,3) by (simp add: parse_frac_def parse_offset_def Let_def)
    then show ?thesis
      using True by (auto simp: frac_text_def b_def ds_def)
  next
    case False
    then show ?thesis
      using assms by (auto simp: parse_frac_def parse_offset_def byte_at_def frac_text_def nth_append)
  qed
qed

lemma civil_fields:
  assumes "list_all is_digit [y1, y2, y3, y4, m1, m2, d1, d2, h1, h2, i1, i2, s1, s2]"
    and "b = [y1, y2, y3, y4, CHR ''-'', m1, m2, CHR ''-'', d1, d2, CHR ''T'', h1, h2,
       CHR '':'', i1, i2, CHR '':'', s1, s2] @ rest @ ''Z''"
  shows "num_at b 0 4 = Inr (read_dec [y1, y2, y3, y4])" and "num_at b 5 2 = Inr (read_dec [m1, m2])"
    and "num_at b 8 2 = Inr (read_dec [d1, d2])" and "num_at b 11 2 = Inr (read_dec [h1, h2])"
    and "num_at b 14 2 = Inr (read_dec [i1, i2])" and "num_at b 17 2 = Inr (read_dec [s1, s2])"
    and "\<not> length b < 20" and "byte_at b 4 CHR ''-''" and "byte_at b 7 CHR ''-''"
    and "byte_at b 10 CHR ''T''" and "byte_at b 13 CHR '':''" and "byte_at b 16 CHR '':''"
  using assms(1) by (simp_all add: assms(2) num_at_def byte_at_def)

lemma parse_fields:
  assumes "\<not> length b < 20" "byte_at b 4 CHR ''-''" "byte_at b 7 CHR ''-''"
    "byte_at b 10 CHR ''T''" "byte_at b 13 CHR '':''" "byte_at b 16 CHR '':''"
    and "num_at b 0 4 = Inr y" "num_at b 5 2 = Inr mo" "num_at b 8 2 = Inr d"
    "num_at b 11 2 = Inr h" "num_at b 14 2 = Inr mi" "num_at b 17 2 = Inr sec"
    and "parse_frac b = Inr (frac, i)" "parse_offset b i = Inr 0"
    and "1970 \<le> y" "1 \<le> mo" "mo \<le> 12" "1 \<le> d" "d \<le> 31" "h \<le> 23" "mi \<le> 59" "sec \<le> 59"
    and "days_from_civil y mo d * 86400 + h * 3600 + mi * 60 + sec = secs"
    and "0 \<le> secs" "secs * SECOND + frac < 2 ^ 64"
  shows "parse_rfc3339 b = Inr (word_of_int (secs * SECOND + frac))"
  using assms(1-22,24,25) by (simp add: parse_rfc3339_def assms(23))

lemma secs_nonneg: "0 \<le> uint (t :: u64) div SECOND"
proof -
  have "0 \<le> uint t" by simp
  then show ?thesis unfolding SECOND_def by (simp add: pos_imp_zdiv_nonneg_iff del: uint_ge_0)
qed

lemma write_rfc3339_text:
  assumes "t \<noteq> 0"
  shows "write_rfc3339 t out = Inr (out @ civil_text (uint t div SECOND) @ frac_text (uint t mod SECOND) @ ''Z'')"
    and "uint t div SECOND < 2 * 10 ^ 10"
proof -
  have "uint t < 2 ^ 64" using uint_lt2p [of t] by simp
  then show s: "uint t div SECOND < 2 * 10 ^ 10" by (simp add: SECOND_def)

  have len: "length (civil_text (uint t div SECOND)) = 19"
    by (rule civil_text_shape [OF secs_nonneg s]) simp
  have "length (frac_text (uint t mod SECOND)) \<le> 10"
    by (rule frac_text_read(2) [OF _ _ len]) (simp_all add: SECOND_def)
  then show "write_rfc3339 t out
      = Inr (out @ civil_text (uint t div SECOND) @ frac_text (uint t mod SECOND) @ ''Z'')"
    using assms len
    by (auto simp: write_rfc3339_def buf_write_def frac_text_def Let_def foldl_buf_push buf_push_def)
qed

lemma clock_sum:
  "(n :: int) div 86400 * 86400 + n mod 86400 div 3600 * 3600 + n mod 86400 div 60 mod 60 * 60
     + n mod 86400 mod 60 = n"
proof -
  define r where "r = n mod 86400"
  define q a b c where "q = r div 60" and "a = q div 60" and "b = q mod 60" and "c = r mod 60"
  have "r div (60 * 60) = r div 60 div 60" by (rule zdiv_zmult2_eq) simp
  then have a: "r div 3600 = a" by (simp add: a_def q_def)
  have "a * 60 + b = q" "q * 60 + c = r"
    unfolding a_def b_def q_def c_def by (rule div_mult_mod_eq)+
  then have "a * 3600 + b * 60 + c = r" by linarith
  then have "r div 3600 * 3600 + r div 60 mod 60 * 60 + r mod 60 = r"
    unfolding a b_def c_def q_def .
  then show ?thesis using div_mult_mod_eq [of n 86400] unfolding r_def [symmetric] by simp
qed

text \<open>An instant written as RFC 3339 reads back as the same instant, for every 64-bit number of
  nanoseconds, the unset instant 0 included, which is written as the year 1.\<close>

theorem rfc3339_roundtrip: "\<exists>s. write_rfc3339 t [] = Inr s \<and> parse_rfc3339 s = Inr t"
proof (cases "t = 0")
  case True
  have "parse_rfc3339 ''0001-01-01T00:00:00Z'' = Inr 0" by code_simp
  then show ?thesis using True by (simp add: write_rfc3339_def)
next
  case False
  define secs frac where "secs = uint t div SECOND" and "frac = uint t mod SECOND"
  have t: "uint t = secs * SECOND + frac" "0 \<le> secs" "0 \<le> frac" "frac < SECOND"
    unfolding secs_def frac_def by (simp, rule secs_nonneg, simp_all add: SECOND_def)
  note w = write_rfc3339_text [OF False, folded secs_def frac_def]
  obtain y1 y2 y3 y4 m1 m2 d1 d2 h1 h2 i1 i2 s1 s2 y m d where
    c: "civil_text secs = [y1, y2, y3, y4, CHR ''-'', m1, m2, CHR ''-'', d1, d2, CHR ''T'', h1, h2,
       CHR '':'', i1, i2, CHR '':'', s1, s2]"
    and dig: "list_all is_digit [y1, y2, y3, y4, m1, m2, d1, d2, h1, h2, i1, i2, s1, s2]"
    and civ: "civil_from_days (secs div 86400) = (y, m, d)"
    and rd: "read_dec [y1, y2, y3, y4] = y" "read_dec [m1, m2] = m" "read_dec [d1, d2] = d"
    "read_dec [h1, h2] = secs mod 86400 div 3600" "read_dec [i1, i2] = secs mod 86400 div 60 mod 60"
    "read_dec [s1, s2] = secs mod 86400 mod 60"
    by (rule civil_text_shape [OF t(2) w(2)]) (rule that)
  define b where "b = civil_text secs @ frac_text frac @ ''Z''"
  have len: "length (civil_text secs) = 19" by (simp add: c)
  obtain i where i: "parse_frac b = Inr (frac, i)" "parse_offset b i = Inr 0"
    using frac_text_read(1) [OF t(3,4) len] b_def by auto
  have days: "0 \<le> secs div 86400" using t(2) by simp
  note date = days_from_civil_from_days [OF days civ]
  have rem: "0 \<le> secs mod 86400" "secs mod 86400 < 86400" by simp_all
  have sum: "secs div 86400 * 86400 + secs mod 86400 div 3600 * 3600 + secs mod 86400 div 60 mod 60 * 60
      + secs mod 86400 mod 60 = secs"
    by (rule clock_sum)
  note num = civil_fields(1-6) [OF dig b_def [unfolded c], unfolded rd]
  note shape = civil_fields(7-12) [OF dig b_def [unfolded c]]
  have range: "secs mod 86400 div 3600 \<le> 23" "secs mod 86400 div 60 mod 60 \<le> 59" "secs mod 86400 mod 60 \<le> 59"
    using rem(2) by linarith+
  have "secs * SECOND + frac < 2 ^ 64" using t(1) uint_lt2p [of t] by simp
  then have "parse_rfc3339 b = Inr (word_of_int (secs * SECOND + frac))"
    using parse_fields [OF shape num i date(2-6) range _ t(2)] sum unfolding date(1) by blast
  then have "parse_rfc3339 b = Inr t" unfolding t(1) [symmetric] by simp
  then show ?thesis using w(1) [of "[]"] by (simp add: b_def)
qed

end
