(* ===== verification/Stats.thy ===== *)
theory Stats
  imports Float32 Time Document
begin

text \<open>
  The volatile series of \<^verbatim>\<open>crates/core/src/stats.rs\<close>: per device and capability three rings of time
  slots (day, week, month), filled by device reports and by a tick every five minutes for switches.
\<close>

section \<open>Rings of time slots\<close>

definition MAX_SERIES :: nat where "MAX_SERIES = 2048"

definition TIERS :: "(u64 \<times> nat \<times> string) list" where
  "TIERS = [(600, 144, ''10m0s''), (7200, 84, ''2h0m0s''), (18000, 144, ''5h0m0s'')]"

datatype kind = Gauge | Counter | Fraction

definition kind_of :: "string \<Rightarrow> kind option" where
  "kind_of cap =
     (let base = takeWhile (\<lambda>c. c \<noteq> CHR ''.'') cap in
      if starts_with base ''meter_'' then Some Counter
      else if starts_with base ''measure_'' \<or> base \<in> {''dim'', ''volume_set'', ''light_hue'', ''light_saturation'', ''target_temperature''}
      then Some Gauge
      else if starts_with base ''alarm_'' \<or> base \<in> {''onoff'', ''locked''} then Some Fraction
      else None)"

definition kind_name :: "kind \<Rightarrow> string" where
  "kind_name k = (case k of Gauge \<Rightarrow> ''gauge'' | Counter \<Rightarrow> ''counter'' | Fraction \<Rightarrow> ''fraction'')"

record time_slot =
  sl_period :: u32
  sl_count :: u16
  sl_sum :: f32
  sl_min :: f32
  sl_max :: f32

definition slot_default :: time_slot where
  "slot_default = \<lparr>sl_period = 0, sl_count = 0, sl_sum = 0, sl_min = 0, sl_max = 0\<rparr>"

record ring =
  ring_slots :: "time_slot list"
  ring_head :: nat
  ring_every :: u64

definition ring_new :: "u64 \<Rightarrow> nat \<Rightarrow> ring" where
  "ring_new ev n = \<lparr>ring_slots = replicate n slot_default, ring_head = 0, ring_every = ev\<rparr>"

text \<open>
  \<open>Ring::slot\<close>: whether the head is the slot of that second, after moving it forward when a new period
  begins. The caller changes the head slot in place with \<open>ring_update\<close>.
\<close>

definition ring_slot :: "ring \<Rightarrow> int \<Rightarrow> bool \<times> ring" where
  "ring_slot r at =
     (let period = at div uint (ring_every r) in
      if 2 ^ 32 \<le> period \<or> length (ring_slots r) \<le> ring_head r then (False, r)
      else let h = ring_slots r ! ring_head r in
      if 0 < sl_count h \<and> period < uint (sl_period h) then (False, r)
      else if uint (sl_period h) \<noteq> period
      then let hd' = (ring_head r + 1) mod length (ring_slots r) in
           (True, r\<lparr>ring_head := hd',
              ring_slots := (ring_slots r)[hd' := slot_default\<lparr>sl_period := word_of_int period\<rparr>]\<rparr>)
      else (True, r))"

definition ring_update :: "(time_slot \<Rightarrow> time_slot) \<Rightarrow> ring \<Rightarrow> ring" where
  "ring_update f r = r\<lparr>ring_slots := (ring_slots r)[ring_head r := f (ring_slots r ! ring_head r)]\<rparr>"

definition saturating_u16 :: "u16 \<Rightarrow> u16 \<Rightarrow> u16" where
  "saturating_u16 a b = (if uint a + uint b < 65536 then a + b else - 1)"

text \<open>One observation that stands for \<open>n\<close> hundredths of a slot.\<close>

definition slot_spread :: "f32 \<Rightarrow> u16 \<Rightarrow> time_slot \<Rightarrow> time_slot" where
  "slot_spread v n s =
     s\<lparr>sl_sum := f32_add (sl_sum s) (f32_mul v (f32_of_int (uint n))),
       sl_min := (if sl_count s = 0 then v else f32_min (sl_min s) v),
       sl_max := (if sl_count s = 0 then v else f32_max (sl_max s) v),
       sl_count := saturating_u16 (sl_count s) n\<rparr>"

definition U64_MAX :: int where "U64_MAX = 2 ^ 64 - 1"

text \<open>The slot starts the loop of \<open>spread\<close> visits, in milliseconds.\<close>

function spread_cursors :: "int \<Rightarrow> int \<Rightarrow> int \<Rightarrow> int list" where
  "spread_cursors ev cursor until =
     (if ev \<le> 0 \<or> until \<le> cursor then []
      else cursor # (if U64_MAX < cursor + ev then [] else spread_cursors ev (cursor + ev) until))"
  by pat_completeness auto
termination
  by (relation "measure (\<lambda>(ev, cursor, until). nat (until - cursor))") auto

declare spread_cursors.simps [simp del]

definition spread_start :: "ring \<Rightarrow> int \<Rightarrow> int \<Rightarrow> int" where
  "spread_start r from until =
     (let ev = uint (ring_every r) * 1000;
          newest = max 0 (until - 1) div ev * ev
      in max (from div ev * ev) (max 0 (newest - (int (length (ring_slots r)) - 1) * ev)))"

definition spread_hundredths :: "int \<Rightarrow> int \<Rightarrow> u16" where
  "spread_hundredths len ev =
     u16_of_f64 (f64_add (f64_mul (f64_of_f32 (f32_div (f32_of_int len) (f32_of_int ev))) (f64_of_int 100))
       (f64_round False 1 2))"

definition spread_slot :: "f64 \<Rightarrow> int \<Rightarrow> int \<Rightarrow> int \<Rightarrow> ring \<Rightarrow> ring" where
  "spread_slot v from until cursor r =
     (let ev = uint (ring_every r) * 1000;
          end = min (min (cursor + ev) U64_MAX) until;
          begin = max cursor from
      in if begin < end
         then case ring_slot r (cursor div 1000) of
                (False, r') \<Rightarrow> r'
              | (True, r') \<Rightarrow> ring_update (slot_spread (f32_of_f64 v) (spread_hundredths (end - begin) ev)) r'
         else r)"

definition ring_spread :: "f64 \<Rightarrow> int \<Rightarrow> int \<Rightarrow> ring \<Rightarrow> ring" where
  "ring_spread v from until r =
     fold (spread_slot v from until)
       (spread_cursors (uint (ring_every r) * 1000) (spread_start r from until) until) r"

section \<open>Series\<close>

record series =
  se_device :: string
  se_name :: string
  se_cap :: string
  se_kind :: kind
  se_rings :: "ring list"
  se_last :: "(f64 \<times> u64) option"

definition series_new :: "string \<Rightarrow> string \<Rightarrow> string \<Rightarrow> kind \<Rightarrow> series" where
  "series_new device name cap k =
     \<lparr>se_device = device, se_name = name, se_cap = cap, se_kind = k,
      se_rings = [ring_new 600 144, ring_new 7200 84, ring_new 18000 144], se_last = None\<rparr>"

definition series_close :: "u64 \<Rightarrow> series \<Rightarrow> series" where
  "series_close at s =
     (case se_last s of
        Some (v, from) \<Rightarrow>
          if se_kind s = Fraction \<and> from < at
          then s\<lparr>se_rings := map (ring_spread v (uint from) (uint at)) (se_rings s), se_last := Some (v, at)\<rparr>
          else s
      | None \<Rightarrow> s)"

definition slot_add :: "kind \<Rightarrow> f32 \<Rightarrow> time_slot \<Rightarrow> time_slot" where
  "slot_add k n s =
     (if k = Counter \<and> 0 < sl_count s \<and> f32_lt n (sl_max s)
      then s\<lparr>sl_min := n, sl_max := n, sl_sum := n, sl_count := 1\<rparr>
      else s\<lparr>sl_min := (if sl_count s = 0 then n else f32_min (sl_min s) n),
             sl_max := (if sl_count s = 0 then n else f32_max (sl_max s) n),
             sl_sum := f32_add (sl_sum s) n,
             sl_count := saturating_u16 (sl_count s) 1\<rparr>)"

definition ring_add :: "kind \<Rightarrow> f64 \<Rightarrow> u64 \<Rightarrow> ring \<Rightarrow> ring" where
  "ring_add k v at r =
     (case ring_slot r (uint at div 1000) of
        (False, r') \<Rightarrow> r' | (True, r') \<Rightarrow> ring_update (slot_add k (f32_of_f64 v)) r')"

definition series_add :: "f64 \<Rightarrow> u64 \<Rightarrow> series \<Rightarrow> series" where
  "series_add v at s =
     (if se_kind s = Fraction then series_close at s
      else s\<lparr>se_rings := map (ring_add (se_kind s) v at) (se_rings s)\<rparr>)\<lparr>se_last := Some (v, at)\<rparr>"

text \<open>A slot takes 20 bytes: a \<open>u32\<close>, three \<open>f32\<close> and a \<open>u16\<close>, aligned to four.\<close>

definition SLOT_BYTES :: nat where "SLOT_BYTES = 20"

definition series_bytes :: "series \<Rightarrow> nat" where
  "series_bytes s = sum_list (map (\<lambda>r. length (ring_slots r) * SLOT_BYTES) (se_rings s))"

section \<open>The statistics\<close>

record statistics =
  stat_series :: "series list"
  stat_closed :: u64

definition stats_default :: statistics where
  "stats_default = \<lparr>stat_series = [], stat_closed = 0\<rparr>"

definition stat_value :: "jvalue \<Rightarrow> f64 option" where
  "stat_value v =
     (case v of
        Bool b \<Rightarrow> Some (f64_of_int (if b then 1 else 0))
      | Number n \<Rightarrow> Some (num_as_f64 n)
      | _ \<Rightarrow> None)"

definition record_value :: "string \<Rightarrow> string \<Rightarrow> f64 \<Rightarrow> u64 \<Rightarrow> series \<Rightarrow> series" where
  "record_value name cap v at s = series_add v at (s\<lparr>se_name := name\<rparr>)"

definition observe_cap :: "string \<Rightarrow> string \<Rightarrow> u64 \<Rightarrow> string \<times> jvalue \<Rightarrow> statistics \<Rightarrow> unit result \<times> statistics" where
  "observe_cap device name at = (\<lambda>(cap, v) st.
     case (kind_of cap, stat_value v) of
       (Some k, Some x) \<Rightarrow>
         if \<not> f64_is_finite x \<or> \<not> f32_is_finite (f32_of_f64 x) then (Inr (), st)
         else (case position (\<lambda>s. se_device s = device \<and> se_cap s = cap) (stat_series st) of
                 Some i \<Rightarrow> (Inr (), st\<lparr>stat_series := (stat_series st)[i := record_value name cap x at (stat_series st ! i)]\<rparr>)
               | None \<Rightarrow>
                   (case j_push (stat_series st) (series_new device name cap k) MAX_SERIES of
                      Inl e \<Rightarrow> (Inl e, st)
                    | Inr ss \<Rightarrow> (Inr (), st\<lparr>stat_series :=
                        ss[length (stat_series st) := record_value name cap x at (ss ! length (stat_series st))]\<rparr>)))
     | _ \<Rightarrow> (Inr (), st))"

definition stats_observe :: "string \<Rightarrow> string \<Rightarrow> jvalue \<Rightarrow> u64 \<Rightarrow> statistics \<Rightarrow> unit result \<times> statistics" where
  "stats_observe device name state at st =
     (case as_object state of None \<Rightarrow> (Inr (), st) | Some ps \<Rightarrow> foldS (observe_cap device name at) ps st)"

definition stats_tick :: "u64 \<Rightarrow> statistics \<Rightarrow> statistics" where
  "stats_tick at st =
     (if stat_closed st = 0 then st\<lparr>stat_closed := at\<rparr>
      else if 300000 \<le> saturating_sub at (stat_closed st)
      then st\<lparr>stat_series := map (series_close at) (stat_series st), stat_closed := at\<rparr>
      else st)"

definition stats_bytes :: "statistics \<Rightarrow> nat" where
  "stats_bytes st = sum_list (map series_bytes (stat_series st))"

definition series_entry :: "series \<Rightarrow> jvalue result" where
  "series_entry s = Inr (j_fields [(''deviceId'', String (se_device s)), (''deviceName'', String (se_name s)),
     (''capability'', String (se_cap s)), (''kind'', String (kind_name (se_kind s))),
     (''bytes'', uint_value (word_of_nat (series_bytes s)))])"

definition stats_list :: "statistics \<Rightarrow> jvalue result" where
  "stats_list st = bindR (collectR MAX_SERIES series_entry (stat_series st)) (\<lambda>es.
     Inr (j_fields [(''series'', Array es), (''bytes'', uint_value (word_of_nat (stats_bytes st)))]))"

definition float_value :: "f64 \<Rightarrow> jvalue" where
  "float_value x = Number (NFloat x)"

text \<open>One filled slot of a window; its start in nanoseconds must fit 64 bits.\<close>

definition window_entry :: "kind \<Rightarrow> u64 \<Rightarrow> time_slot \<Rightarrow> jvalue result" where
  "window_entry k ev s =
     (let nanos = uint (sl_period s) * uint ev * 1000000000 in
      if 2 ^ 64 \<le> nanos then Inl Full
      else bindR (timestamp (word_of_int nanos)) (\<lambda>at.
        let e0 = j_fields [(''at'', String at), (''count'', uint_value (word_of_int (uint (sl_count s))))];
            average = f64_div (f64_of_f32 (sl_sum s)) (f64_of_int (uint (sl_count s)))
        in (case k of
              Counter \<Rightarrow> j_set e0 ''used'' (float_value (f64_of_f32 (f32_sub (sl_max s) (sl_min s))))
            | Fraction \<Rightarrow> j_set e0 ''on'' (float_value average)
            | Gauge \<Rightarrow> bindR (j_set e0 ''average'' (float_value average)) (\<lambda>e1.
                bindR (j_set e1 ''min'' (float_value (f64_of_f32 (sl_min s)))) (\<lambda>e2.
                j_set e2 ''max'' (float_value (f64_of_f32 (sl_max s))))))))"

definition window_tier :: "string \<Rightarrow> nat" where
  "window_tier w = (if w = ''week'' \<or> w = ''1'' then 1 else if w = ''month'' \<or> w = ''2'' then 2 else 0)"

definition stats_window :: "statistics \<Rightarrow> string \<Rightarrow> string \<Rightarrow> string \<Rightarrow> jvalue result" where
  "stats_window st device cap window =
     bindR (ok_or (find (\<lambda>s. se_device s = device \<and> se_cap s = cap) (stat_series st))
       (Missing ''nothing has been recorded for this device and capability'')) (\<lambda>s.
     let tier = window_tier window in
     if length (se_rings s) \<le> tier then Inl Full
     else let ring = se_rings s ! tier in
       bindR (collectR 144 Inr (filter (\<lambda>t. sl_count t \<noteq> 0) (ring_slots ring))) (\<lambda>filled.
       bindR (collectR 144 (window_entry (se_kind s) (ring_every ring)) (sort_key sl_period filled)) (\<lambda>es.
         Inr (j_fields [(''kind'', String (kind_name (se_kind s))),
           (''window'', String (snd (snd (TIERS ! tier)))), (''slots'', Array es)]))))"

section \<open>Spreading a value over slots\<close>

text \<open>The part of the interval that falls in the slot at a cursor.\<close>

definition spread_piece :: "int \<Rightarrow> int \<Rightarrow> int \<Rightarrow> int \<Rightarrow> int" where
  "spread_piece ev from until c = max 0 (min (min (c + ev) U64_MAX) until - max c from)"

lemma spread_cursors_length:
  "0 < ev \<Longrightarrow> spread_cursors ev c until = [] \<or> (int (length (spread_cursors ev c until)) - 1) * ev < until - c"
proof (induction ev c until rule: spread_cursors.induct)
  case (1 ev c until)
  show ?case
  proof (cases "until \<le> c \<or> U64_MAX < c + ev")
    case True
    then show ?thesis using 1(2) by (auto simp: spread_cursors.simps [of ev c until])
  next
    case False
    then have eq: "spread_cursors ev c until = c # spread_cursors ev (c + ev) until"
      using 1(2) by (simp add: spread_cursors.simps [of ev c until])
    have "spread_cursors ev (c + ev) until = [] \<or> (int (length (spread_cursors ev (c + ev) until)) - 1) * ev < until - (c + ev)"
      using 1 False by auto
    then show ?thesis using False unfolding eq by (auto simp: algebra_simps)
  qed
qed

lemma spread_cursors_sum:
  assumes "until \<le> U64_MAX" and "0 < ev"
  shows "sum_list (map (spread_piece ev from until) (spread_cursors ev c until)) = max 0 (until - max c from)"
  using assms
proof (induction ev c until rule: spread_cursors.induct)
  case (1 ev c until)
  show ?case
  proof (cases "until \<le> c")
    case True
    then show ?thesis by (simp add: spread_cursors.simps [of ev c until])
  next
    case False
    show ?thesis
    proof (cases "U64_MAX < c + ev")
      case True
      then have "spread_cursors ev c until = [c]"
        using False 1(3) by (simp add: spread_cursors.simps [of ev c until])
      then show ?thesis
        using True 1(2) by (simp add: spread_piece_def max_def min_def)
    next
      case small: False
      then have eq: "spread_cursors ev c until = c # spread_cursors ev (c + ev) until"
        using False 1(3) by (simp add: spread_cursors.simps [of ev c until])
      have "sum_list (map (spread_piece ev from until) (spread_cursors ev (c + ev) until)) = max 0 (until - max (c + ev) from)"
        using 1 False small by simp
      then show ?thesis
        using small 1(2,3) False spread_piece_def [of ev "from" until c] unfolding eq by (auto simp: max_def min_def)
    qed
  qed
qed

text \<open>Closing a switch after a long silence costs at most one pass over the ring: the loop of \<open>spread\<close>
  visits no more slots than the ring has, and the parts it books add up to the whole interval, or to
  the part of it the ring still reaches.\<close>

theorem spread_bounded:
  assumes "0 < ring_every r" and "ring_slots r \<noteq> []" and "0 \<le> from" and "from < until" and "until \<le> U64_MAX"
  defines "ev \<equiv> uint (ring_every r) * 1000"
  shows "length (spread_cursors ev (spread_start r from until) until) \<le> length (ring_slots r)
    \<and> sum_list (map (spread_piece ev from until) (spread_cursors ev (spread_start r from until) until))
        = until - max from (spread_start r from until)"
proof -
  have "0 < uint (ring_every r)" using assms(1) by (simp add: word_less_def)
  then have ev: "0 < ev" by (simp add: ev_def)
  define newest where "newest = (until - 1) div ev * ev"
  define len where "len = int (length (ring_slots r))"
  have n: "newest \<le> until - 1" "until - 1 < newest + ev"
    using ev pos_mod_bound [OF ev, of "until - 1"] pos_mod_sign [OF ev, of "until - 1"] div_mult_mod_eq [of "until - 1" ev]
    unfolding newest_def by linarith+
  have start: "spread_start r from until = max (from div ev * ev) (max 0 (newest - (len - 1) * ev))"
    using assms(3,4) by (simp add: spread_start_def Let_def ev_def [symmetric] newest_def len_def)
  have f: "from div ev * ev \<le> from"
    using pos_mod_sign [OF ev, of "from"] div_mult_mod_eq [of "from" ev] by linarith
  have "until - spread_start r from until \<le> len * ev"
    using n(2) start by (simp add: algebra_simps)
  then have "(int (length (spread_cursors ev (spread_start r from until) until)) - 1) * ev < len * ev
      \<or> spread_cursors ev (spread_start r from until) until = []"
    using spread_cursors_length [OF ev, of "spread_start r from until" until] by linarith
  then have "length (spread_cursors ev (spread_start r from until) until) \<le> length (ring_slots r)"
    using ev by (auto simp: len_def mult_less_cancel_right)
  moreover have "1 \<le> len" using assms(2) by (cases "ring_slots r") (auto simp: len_def)
  then have "0 \<le> (len - 1) * ev" using ev by simp
  then have "newest - (len - 1) * ev \<le> until" using n(1) by linarith
  then have "max (spread_start r from until) from \<le> until"
    using f assms(3,4) start by simp
  ultimately show ?thesis
    using spread_cursors_sum [OF assms(5) ev, of "from" "spread_start r from until"] by (simp add: max.commute)
qed

theorem spread_bounded_witness:
  "length (spread_cursors 600000 (spread_start (ring_new 600 144) 1000 (10 ^ 12)) (10 ^ 12)) \<le> 144"
proof -
  have "uint (ring_every (ring_new 600 144)) * 1000 = 600000" "length (ring_slots (ring_new 600 144)) = 144"
    by (simp_all add: ring_new_def)
  then show ?thesis
    using spread_bounded [of "ring_new 600 144" 1000 "10 ^ 12"] by (simp add: ring_new_def U64_MAX_def)
qed

section \<open>The invariant of the statistics\<close>

definition ring_shape :: "ring \<Rightarrow> u64 \<times> nat" where
  "ring_shape r = (ring_every r, length (ring_slots r))"

definition ring_ok :: "ring \<Rightarrow> bool" where
  "ring_ok r \<longleftrightarrow> ring_head r < length (ring_slots r)"

definition series_ok :: "series \<Rightarrow> bool" where
  "series_ok s \<longleftrightarrow> map ring_shape (se_rings s) = [(600, 144), (7200, 84), (18000, 144)] \<and> list_all ring_ok (se_rings s)"

definition stats_ok :: "statistics \<Rightarrow> bool" where
  "stats_ok st \<longleftrightarrow> length (stat_series st) \<le> MAX_SERIES \<and> list_all series_ok (stat_series st)
     \<and> distinct (map (\<lambda>s. (se_device s, se_cap s)) (stat_series st))"

lemma ring_slot_ok: "ring_ok r \<Longrightarrow> ring_slot r at = (b, r') \<Longrightarrow> ring_ok r' \<and> ring_shape r' = ring_shape r"
  by (auto simp: ring_slot_def ring_ok_def ring_shape_def Let_def intro!: mod_less_divisor split: if_splits)

lemma ring_update_ok: "ring_ok (ring_update f r) = ring_ok r" "ring_shape (ring_update f r) = ring_shape r"
  by (auto simp: ring_update_def ring_ok_def ring_shape_def)

lemma ring_add_ok: "ring_ok r \<Longrightarrow> ring_ok (ring_add k v at r) \<and> ring_shape (ring_add k v at r) = ring_shape r"
  by (auto simp: ring_add_def ring_update_ok dest: ring_slot_ok split: prod.splits bool.splits)

lemma spread_slot_ok: "ring_ok r \<Longrightarrow> ring_ok (spread_slot v from until c r) \<and> ring_shape (spread_slot v from until c r) = ring_shape r"
  by (auto simp: spread_slot_def Let_def ring_update_ok dest: ring_slot_ok split: prod.splits bool.splits)

lemma ring_spread_ok: "ring_ok r \<Longrightarrow> ring_ok (ring_spread v from until r) \<and> ring_shape (ring_spread v from until r) = ring_shape r"
proof -
  have "ring_ok r \<Longrightarrow> ring_ok (fold (spread_slot v from until) cs r) \<and> ring_shape (fold (spread_slot v from until) cs r) = ring_shape r" for cs
    by (induction cs arbitrary: r) (auto simp: spread_slot_ok)
  then show "ring_ok r \<Longrightarrow> ?thesis" by (simp add: ring_spread_def)
qed

lemma series_rings_ok:
  assumes "series_ok s" and "\<And>r. ring_ok r \<Longrightarrow> ring_ok (f r) \<and> ring_shape (f r) = ring_shape r"
  shows "series_ok (s\<lparr>se_rings := map f (se_rings s)\<rparr>)"
proof -
  have "map ring_shape (map f rs) = map ring_shape rs \<and> list_all ring_ok (map f rs)" if "list_all ring_ok rs" for rs
    using that assms(2) by (induction rs) auto
  then show ?thesis using assms(1) by (auto simp: series_ok_def simp del: map_map)
qed

lemma series_new_ok: "series_ok (series_new device name cap k)"
  by (simp add: series_ok_def series_new_def ring_new_def ring_shape_def ring_ok_def)

lemma series_ok_fields [simp]:
  "series_ok (s\<lparr>se_last := x\<rparr>) = series_ok s" "series_ok (s\<lparr>se_name := n\<rparr>) = series_ok s"
  by (simp_all add: series_ok_def)

lemma series_close_ok:
  assumes "series_ok s"
  shows "series_ok (series_close at s)" and "se_device (series_close at s) = se_device s" and "se_cap (series_close at s) = se_cap s"
  using assms by (auto simp: series_close_def intro!: series_rings_ok ring_spread_ok split: option.splits)

lemma series_add_ok:
  assumes "series_ok s"
  shows "series_ok (series_add v at s)" and "se_device (series_add v at s) = se_device s" and "se_cap (series_add v at s) = se_cap s"
  using assms series_close_ok [of s at]
  by (auto simp: series_add_def intro!: series_rings_ok ring_add_ok)

lemma observe_cap_ok:
  assumes "stats_ok st" and "observe_cap device name at p st = (res, st')"
  shows "stats_ok st'"
proof -
  obtain cap v where p: "p = (cap, v)" by fastforce
  have upd: "stats_ok (st\<lparr>stat_series := (stat_series st)[i := record_value name cap x at (stat_series st ! i)]\<rparr>)"
    if "i < length (stat_series st)" for i x
  proof -
    have s: "series_ok (stat_series st ! i)" using assms(1) that by (simp add: stats_ok_def list_all_length)
    have "map (\<lambda>s. (se_device s, se_cap s)) ((stat_series st)[i := record_value name cap x at (stat_series st ! i)])
      = map (\<lambda>s. (se_device s, se_cap s)) (stat_series st)"
      using that s series_add_ok [of "(stat_series st ! i)\<lparr>se_name := name\<rparr>" x at]
      by (intro nth_equalityI) (auto simp: nth_list_update record_value_def)
    then show ?thesis
      using assms(1) s series_add_ok(1) that by (auto simp: stats_ok_def list_all_iff record_value_def dest!: set_update_subset_insert [THEN subsetD])
  qed
  have new: "stats_ok (st\<lparr>stat_series := stat_series st @ [record_value name cap x at (series_new device name cap k)]\<rparr>)"
    if "position (\<lambda>s. se_device s = device \<and> se_cap s = cap) (stat_series st) = None" "length (stat_series st) < MAX_SERIES" for x k
    using assms(1) that series_add_ok [of "(series_new device name cap k)\<lparr>se_name := name\<rparr>" x at] series_new_ok [of device name cap k]
    by (auto simp: stats_ok_def record_value_def series_new_def)
  show ?thesis
    using assms(2) upd new assms(1) unfolding p observe_cap_def
    by (auto simp: j_push_def dest: position_SomeD split: option.splits if_splits simp del: position_None_iff)
qed

lemma stats_observe_ok: "stats_ok st \<Longrightarrow> stats_ok (snd (stats_observe device name state at st))"
proof -
  have "stats_ok st \<Longrightarrow> stats_ok (snd (foldS (observe_cap device name at) ps st))" for ps
    by (induction ps arbitrary: st) (auto dest: observe_cap_ok split: prod.splits sum.splits)
  then show "stats_ok st \<Longrightarrow> ?thesis" by (simp add: stats_observe_def split: option.split)
qed

lemma stats_tick_ok: "stats_ok st \<Longrightarrow> stats_ok (stats_tick at st)"
proof -
  have "map (\<lambda>s. (se_device s, se_cap s)) (map (series_close at) ss) = map (\<lambda>s. (se_device s, se_cap s)) ss" if "list_all series_ok ss" for ss
    using that by (induction ss) (auto simp: series_close_ok)
  then show "stats_ok st \<Longrightarrow> ?thesis"
    by (auto simp: stats_tick_def stats_ok_def list_all_iff series_close_ok simp del: map_map)
qed

lemma stats_default_ok: "stats_ok stats_default"
  by (simp add: stats_ok_def stats_default_def)

lemma series_bytes_ok: "series_ok s \<Longrightarrow> series_bytes s = 372 * SLOT_BYTES"
proof -
  assume "series_ok s"
  then have "map snd (map ring_shape (se_rings s)) = [144, 84, 144]" by (simp add: series_ok_def)
  then have "map (\<lambda>r. length (ring_slots r)) (se_rings s) = [144, 84, 144]" by (simp add: ring_shape_def comp_def)
  then have "sum_list (map (\<lambda>n. n * SLOT_BYTES) (map (\<lambda>r. length (ring_slots r)) (se_rings s))) = 372 * SLOT_BYTES"
    by (simp add: SLOT_BYTES_def)
  then show ?thesis by (simp add: series_bytes_def comp_def)
qed

text \<open>Histories of the statistics: device reports and ticks in any order.\<close>

inductive stats_history :: "statistics \<Rightarrow> bool" where
  stats_start: "stats_history stats_default"
| stats_report: "stats_history st \<Longrightarrow> stats_history (snd (stats_observe device name state at st))"
| stats_ticked: "stats_history st \<Longrightarrow> stats_history (stats_tick at st)"

lemma stats_ok_bytes: "stats_ok st \<Longrightarrow> stats_bytes st = length (stat_series st) * 7440"
proof -
  have "sum_list (map series_bytes ss) = length ss * 7440" if "list_all series_ok ss" for ss
    using that by (induction ss) (auto simp: series_bytes_ok SLOT_BYTES_def)
  then show "stats_ok st \<Longrightarrow> ?thesis" by (simp add: stats_bytes_def stats_ok_def)
qed

text \<open>Whatever devices report and however the clock moves, the statistics keep at most 2048 series, one
  per device and capability, each with its three rings of 144, 84 and 144 slots, so the slots never take
  more than 15237120 bytes.\<close>

theorem stats_bounded:
  assumes "stats_history st"
  shows "length (stat_series st) \<le> MAX_SERIES \<and> distinct (map (\<lambda>s. (se_device s, se_cap s)) (stat_series st))
    \<and> list_all series_ok (stat_series st) \<and> stats_bytes st = length (stat_series st) * 7440 \<and> stats_bytes st \<le> 15237120"
proof -
  have ok: "stats_ok st"
    using assms by (induction rule: stats_history.induct) (auto simp: stats_default_ok stats_observe_ok stats_tick_ok)
  then show ?thesis using stats_ok_bytes by (auto simp: stats_ok_def MAX_SERIES_def)
qed

theorem stats_bounded_witness:
  "stats_bytes (snd (stats_observe ''lamp'' ''Lamp'' (Object [(''onoff'', Bool True)]) 1000 stats_default)) \<le> 15237120"
  using stats_bounded [OF stats_report [OF stats_start, of "''lamp''" "''Lamp''" "Object [(''onoff'', Bool True)]" 1000]] by blast

end
