(* ===== verification/Manifest.thy ===== *)
theory Manifest
  imports Json
begin

text \<open>The \<open>app.json\<close> contract of \<^verbatim>\<open>crates/core/src/manifest.rs\<close>.\<close>

definition check_driver :: "jvalue list \<Rightarrow> nat \<Rightarrow> unit \<Rightarrow> unit result" where
  "check_driver drivers i _ =
     (if j_text (drivers ! i) ''id'' = [] then Inl (Invalid ''app.json: every driver needs an id'')
      else if any_earlier (\<lambda>a b. j_text a ''id'' = j_text b ''id'') drivers i
      then Inl (Conflict ''app.json: duplicate driver id'') else Inr ())"

definition manifest_validate :: "jvalue \<Rightarrow> unit result" where
  "manifest_validate v =
     (if j_text v ''id'' = [] then Inl (Invalid ''app.json: id is required'')
      else if j_text v ''version'' = [] then Inl (Invalid ''app.json: version is required'')
      else if j_uint v ''sdk'' \<noteq> 3 then Inl (Invalid ''app.json: only manifest version 3 is supported'')
      else let drivers = j_array v ''drivers'' in foldR (check_driver drivers) [0..<length drivers] ())"

text \<open>The preferred language, English, then the first translation there is.\<close>

definition localized :: "jvalue \<Rightarrow> string \<Rightarrow> string" where
  "localized v language =
     (case as_str v of
        Some s \<Rightarrow> s
      | None \<Rightarrow>
          if j_text v language \<noteq> [] then j_text v language
          else if j_text v ''en'' \<noteq> [] then j_text v ''en''
          else (case as_object v of
                  None \<Rightarrow> []
                | Some ps \<Rightarrow> (case List.map_filter (\<lambda>(k, w). as_str w) ps of [] \<Rightarrow> [] | s # _ \<Rightarrow> s)))"

lemma manifest_validate_iff:
  "manifest_validate v = Inr () \<longleftrightarrow> j_text v ''id'' \<noteq> [] \<and> j_text v ''version'' \<noteq> [] \<and> j_uint v ''sdk'' = 3
     \<and> distinct (map (\<lambda>d. j_text d ''id'') (j_array v ''drivers'')) \<and> (\<forall>d \<in> set (j_array v ''drivers''). j_text d ''id'' \<noteq> [])"
  unfolding any_earlier_distinct_map [symmetric]
  by (auto simp: manifest_validate_def check_driver_def Let_def foldR_unit all_set_conv_all_nth)

end
