(* ===== verification/StoreBase.thy ===== *)
theory StoreBase
  imports Scenes Triggers Stats Manifest
begin

text \<open>
  The owner of the configuration (\<^verbatim>\<open>crates/core/src/store.rs\<close>): its state, the bounded event log, the
  commit of a candidate document, the restore of an archive and the registry of running apps. The
  storage behind it is a parameter: \<open>save\<close> takes the storage and the encoded document and returns the
  outcome with the storage after it. Operations return their outcome with the store after it.
\<close>

definition EVENT_CAPACITY :: nat where "EVENT_CAPACITY = 64"

record event =
  ev_sequence :: u64
  ev_manager :: string
  ev_kind :: string
  ev_id :: string

record observation =
  ob_id :: string
  ob_state :: "jvalue"
  ob_revisions :: "jvalue"
  ob_available :: bool
  ob_message :: string

record app_info =
  app_id :: string
  app_manifest :: "jvalue"
  app_state :: string
  app_details :: "jvalue"

record shared_image =
  img_id :: string
  img_device :: string
  img_slot :: string
  img_expires :: u64

record 's store =
  config :: document
  language :: string
  timezone :: string
  clock_ms :: u64
  statistics :: statistics
  statistics_fault :: "error option"
  statistics_reported :: bool
  storage :: 's
  live :: "observation list"
  events :: "event list"
  sequence :: u64
  apps :: "app_info list"
  caches :: "(string \<times> jvalue) list"
  triggers :: "jvalue list"
  scene_trips :: "jvalue list"
  media :: "(string \<times> jvalue) list"
  images :: "shared_image list"

type_synonym 's save = "'s \<Rightarrow> string \<Rightarrow> unit result \<times> 's"
type_synonym ('s, 'a) outcome = "'a result \<times> 's store"

text \<open>\<open>Memory\<close>: the storage that keeps nothing.\<close>

definition memory_save :: "unit save" where
  "memory_save u bs = (Inr (), u)"

section \<open>Opening\<close>

definition store_open :: "string \<Rightarrow> 's \<Rightarrow> 's store result" where
  "store_open bs st =
     bindR (doc_decode bs) (\<lambda>d0. bindR (reconcile d0) (\<lambda>d.
       Inr \<lparr>config = d, language = ''nl'', timezone = ''UTC'', clock_ms = 0, statistics = stats_default,
            statistics_fault = None, statistics_reported = False, storage = st, live = [], events = [],
            sequence = 0, apps = [], caches = [], triggers = [], scene_trips = [], media = [], images = []\<rparr>))"

definition statistics_enabled :: "'s store \<Rightarrow> bool" where
  "statistics_enabled s = (case j_get (config s) ''system'' of None \<Rightarrow> False | Some v \<Rightarrow> j_boolean v ''statistics'')"

definition store_tick :: "u64 \<Rightarrow> 's store \<Rightarrow> 's store" where
  "store_tick ms s =
     (let s1 = s\<lparr>clock_ms := ms\<rparr> in
      if statistics_enabled s1 then s1\<lparr>statistics := stats_tick ms (statistics s1)\<rparr> else s1)"

definition take_statistics_fault :: "'s store \<Rightarrow> error option \<times> 's store" where
  "take_statistics_fault s = (statistics_fault s, s\<lparr>statistics_fault := None\<rparr>)"

definition collect :: "string \<Rightarrow> string \<Rightarrow> jvalue \<Rightarrow> 's store \<Rightarrow> 's store" where
  "collect i name state s =
     (if statistics_enabled s
      then case stats_observe i name state (clock_ms s) (statistics s) of
             (Inr _, st) \<Rightarrow> s\<lparr>statistics := st\<rparr>
           | (Inl e, st) \<Rightarrow>
               if statistics_reported s then s\<lparr>statistics := st\<rparr>
               else s\<lparr>statistics := st, statistics_fault := Some e, statistics_reported := True\<rparr>
      else s)"

definition configure :: "string \<Rightarrow> string \<Rightarrow> 's store \<Rightarrow> 's store" where
  "configure lang zone s = s\<lparr>language := lang, timezone := zone\<rparr>"

section \<open>Events\<close>

definition new_event :: "'s store \<Rightarrow> string \<Rightarrow> string \<Rightarrow> string \<Rightarrow> event result" where
  "new_event s manager k i =
     bindR (ok_or (checked_add (sequence s) 1) Full) (\<lambda>n.
       Inr \<lparr>ev_sequence = n, ev_manager = manager, ev_kind = k, ev_id = i\<rparr>)"

definition publish :: "event \<Rightarrow> 's store \<Rightarrow> 's store" where
  "publish e s =
     s\<lparr>sequence := ev_sequence e,
       events := (if length (events s) = EVENT_CAPACITY then tl (events s) else events s) @ [e]\<rparr>"

definition events_after :: "'s store \<Rightarrow> u64 \<Rightarrow> event list result" where
  "events_after s cursor =
     (if sequence s < cursor
        \<or> (case events s of [] \<Rightarrow> False | e # _ \<Rightarrow> cursor < saturating_sub (ev_sequence e) 1)
      then Inl Changed else Inr (filter (\<lambda>e. cursor < ev_sequence e) (events s)))"

section \<open>Committing a document\<close>

definition commit :: "'s save \<Rightarrow> document \<Rightarrow> event \<Rightarrow> 's store \<Rightarrow> ('s, unit) outcome" where
  "commit save candidate e s =
     (case doc_encode candidate of
        Inl x \<Rightarrow> (Inl x, s)
      | Inr encoded \<Rightarrow>
          (case save (storage s) encoded of
             (Inl x, st) \<Rightarrow> (Inl x, s\<lparr>storage := st\<rparr>)
           | (Inr _, st) \<Rightarrow> (Inr (), publish e (s\<lparr>storage := st, config := candidate\<rparr>))))"

text \<open>Running a computation that only reads the store and may fail before anything is changed.\<close>

definition prepare :: "'a result \<Rightarrow> ('a \<Rightarrow> 's store \<Rightarrow> ('s, 'b) outcome) \<Rightarrow> 's store \<Rightarrow> ('s, 'b) outcome" where
  "prepare m f s = (case m of Inl e \<Rightarrow> (Inl e, s) | Inr a \<Rightarrow> f a s)"

text \<open>Running a continuation only after success.\<close>

definition after :: "('s, unit) outcome \<Rightarrow> ('s store \<Rightarrow> ('s, 'b) outcome) \<Rightarrow> ('s, 'b) outcome" where
  "after m f = (case m of (Inl e, s) \<Rightarrow> (Inl e, s) | (Inr _, s) \<Rightarrow> f s)"

definition restore :: "'s save \<Rightarrow> string \<Rightarrow> 's store \<Rightarrow> ('s, unit) outcome" where
  "restore save bs s =
     prepare (bindR (doc_decode bs) (\<lambda>d0. bindR (reconcile d0) (\<lambda>candidate.
       bindR (new_event s ''store'' ''store.reload'' []) (\<lambda>e.
       bindR (doc_encode candidate) (\<lambda>encoded. Inr (candidate, e, encoded))))))
       (\<lambda>(candidate, e, encoded) s.
          case save (storage s) encoded of
            (Inl x, st) \<Rightarrow> (Inl x, s\<lparr>storage := st\<rparr>)
          | (Inr _, st) \<Rightarrow>
              (Inr (), publish e (s\<lparr>storage := st, config := candidate, live := [], apps := [], caches := [],
                 triggers := [], scene_trips := [], media := [], images := [], statistics := stats_default,
                 statistics_fault := None, statistics_reported := False, events := []\<rparr>))) s"

section \<open>Running apps\<close>

text \<open>\<open>iter_mut().find(..)\<close>: change the first entry that fits.\<close>

fun update_first :: "('a \<Rightarrow> bool) \<Rightarrow> ('a \<Rightarrow> 'a) \<Rightarrow> 'a list \<Rightarrow> 'a list" where
  "update_first P f [] = []"
| "update_first P f (x # xs) = (if P x then f x # xs else x # update_first P f xs)"

definition find_app :: "'s store \<Rightarrow> string \<Rightarrow> app_info option" where
  "find_app s i = find (\<lambda>a. app_id a = i) (apps s)"

definition announce :: "string \<Rightarrow> jvalue \<Rightarrow> 's store \<Rightarrow> ('s, unit) outcome" where
  "announce i m s =
     prepare (bindR (manifest_validate m) (\<lambda>_.
       if j_text m ''id'' \<noteq> i then Inl (Invalid ''manifest belongs to another app'')
       else bindR (new_event s ''apps'' ''app.update'' i) (\<lambda>e.
         if find_app s i \<noteq> None
         then Inr (e, update_first (\<lambda>a. app_id a = i) (\<lambda>a. a\<lparr>app_manifest := m, app_state := ''starting''\<rparr>) (apps s))
         else bindR (j_push (apps s) \<lparr>app_id = i, app_manifest = m, app_state = ''starting'', app_details = j_object\<rparr> MAX_RECORDS)
                (\<lambda>as. Inr (e, as)))))
       (\<lambda>(e, as) s. (Inr (), publish e (s\<lparr>apps := as\<rparr>))) s"

definition app_manifest_of :: "'s store \<Rightarrow> string \<Rightarrow> jvalue option" where
  "app_manifest_of s i = (case find_app s i of
     None \<Rightarrow> None | Some a \<Rightarrow> if is_null (app_manifest a) then None else Some (app_manifest a))"

definition app_status :: "'s store \<Rightarrow> string \<Rightarrow> string" where
  "app_status s i = (case find_app s i of None \<Rightarrow> ''stopped'' | Some a \<Rightarrow> app_state a)"

definition clear_app_media :: "string \<Rightarrow> 's store \<Rightarrow> 's store" where
  "clear_app_media app s =
     s\<lparr>media := filter (\<lambda>(i, _). case doc_record (config s) ''devices'' i of
         Inl _ \<Rightarrow> False | Inr d \<Rightarrow> j_text d ''appId'' \<noteq> app) (media s)\<rparr>"

definition set_app_status :: "string \<Rightarrow> string \<Rightarrow> 's store \<Rightarrow> ('s, unit) outcome" where
  "set_app_status i state s =
     (if app_status s i = state then (Inr (), s)
      else prepare (bindR (new_event s ''apps'' ''app.update'' i) (\<lambda>e.
        if find_app s i \<noteq> None
        then Inr (e, update_first (\<lambda>a. app_id a = i)
               (\<lambda>a. a\<lparr>app_state := state,
                      app_details := (if state = ''running'' \<or> state = ''stopped'' then j_object else app_details a)\<rparr>) (apps s))
        else bindR (doc_record (config s) ''apps'' i) (\<lambda>_.
          bindR (j_push (apps s) \<lparr>app_id = i, app_manifest = Null, app_state = state, app_details = j_object\<rparr> MAX_RECORDS)
            (\<lambda>as. Inr (e, as)))))
        (\<lambda>(e, as) s.
           let s1 = s\<lparr>apps := as\<rparr>;
               s2 = (if state \<noteq> ''running'' then clear_app_media i s1 else s1)
           in (Inr (), publish e s2)) s)"

definition app_runtime :: "'s store \<Rightarrow> string \<Rightarrow> jvalue option" where
  "app_runtime s i = map_option app_details (find_app s i)"

definition set_app_runtime :: "string \<Rightarrow> jvalue \<Rightarrow> 's store \<Rightarrow> ('s, unit) outcome" where
  "set_app_runtime i details s =
     (if (case app_runtime s i of None \<Rightarrow> False | Some v \<Rightarrow> j_equal v details) then (Inr (), s)
      else prepare (bindR (new_event s ''apps'' ''app.update'' i) (\<lambda>e.
        bindR (ok_or (find_app s i) (Missing ''app runtime missing'')) (\<lambda>_. Inr e)))
        (\<lambda>e s. (Inr (), publish e (s\<lparr>apps := update_first (\<lambda>a. app_id a = i) (\<lambda>a. a\<lparr>app_details := details\<rparr>) (apps s)\<rparr>))) s)"

end
