(* ===== verification/DeviceGroups.thy ===== *)
theory DeviceGroups
  imports Records
begin

text \<open>
  The tree of device groups (\<^verbatim>\<open>crates/core/src/store/groups.rs\<close>): validation of a group before it is
  stored, and moving the contents of a group to its parent before it is removed. The abstract view of
  the stored groups is the partial map from a group to its parent; the groups form a forest when every
  group reaches the root, the empty identifier, along that map.
\<close>

section \<open>Operations\<close>

text \<open>The walk to the root: \<open>k\<close> rounds are left; the group itself must not be met.\<close>

fun group_walk :: "document \<Rightarrow> string \<Rightarrow> nat \<Rightarrow> string \<Rightarrow> unit result" where
  "group_walk d gid 0 parent = Inl (Invalid ''group parent would create a cycle'')"
| "group_walk d gid (Suc k) parent =
     (if parent = [] then Inr ()
      else if parent = gid then Inl (Invalid ''group parent would create a cycle'')
      else bindR (doc_record d ''deviceGroups'' parent) (\<lambda>g. group_walk d gid k (j_text g ''parentId'')))"

definition highest_order :: "document \<Rightarrow> string \<Rightarrow> u64" where
  "highest_order d parent =
     fold max (map (\<lambda>g. j_uint g ''sortOrder'')
       (filter (\<lambda>g. j_text g ''parentId'' = parent) (doc_records d ''deviceGroups''))) 0"

definition groups_validate :: "document \<Rightarrow> jvalue \<Rightarrow> jvalue result" where
  "groups_validate d group0 =
     (let name = trim (j_text group0 ''name''); parent = trim (j_text group0 ''parentId'') in
      bindR (j_set group0 ''parentId'' (String parent)) (\<lambda>group.
        let gid = j_text group ''id'' in
        if name = [] \<or> 80 < length name then Inl (Invalid ''group name must contain 1 to 80 bytes'')
        else if (case j_get group ''sortOrder'' of None \<Rightarrow> False | Some v \<Rightarrow> as_u64 v = None)
        then Inl (Invalid ''invalid group sortOrder'')
        else if list_ex (\<lambda>p. j_text p ''id'' \<noteq> gid \<and> eq_ignore_ascii_case (j_text p ''name'') name)
                  (doc_records d ''deviceGroups'')
        then Inl (Conflict ''a group with that name already exists'')
        else bindR (group_walk d gid (length (doc_records d ''deviceGroups'') + 1)
                      (trim (j_text group ''parentId''))) (\<lambda>_.
          bindR (j_set group ''name'' (String name)) (\<lambda>group1.
            if j_uint group1 ''sortOrder'' = 0
            then bindR (ok_or (checked_add (highest_order d (j_text group1 ''parentId'')) 1) Full) (\<lambda>n.
                   j_set group1 ''sortOrder'' (uint_value n))
            else Inr group1))))"

definition lift_record :: "string \<Rightarrow> string \<Rightarrow> string \<Rightarrow> jvalue \<Rightarrow> jvalue result" where
  "lift_record key gid parent r =
     (if j_text r key = gid then j_set r key (String parent) else Inr r)"

definition lift_collection :: "string \<Rightarrow> string \<Rightarrow> string \<times> string \<Rightarrow> document \<Rightarrow> document result" where
  "lift_collection gid parent = (\<lambda>(collection, key) d.
     bindR (collectR MAX_RECORDS (lift_record key gid parent) (doc_records d collection))
       (doc_replace d collection))"

definition lift_children :: "document \<Rightarrow> string \<Rightarrow> document result" where
  "lift_children d gid =
     bindR (doc_record d ''deviceGroups'' gid) (\<lambda>g.
       foldR (lift_collection gid (j_text g ''parentId''))
         [(''deviceGroups'', ''parentId''), (''devices'', ''groupId'')] d)"

section \<open>The parent map and its forest\<close>

definition parent_of :: "document \<Rightarrow> string \<Rightarrow> string option" where
  "parent_of d p = map_option (\<lambda>g. j_text g ''parentId'')
     (find (\<lambda>g. j_text g ''id'' = p) (doc_records d ''deviceGroups''))"

inductive rooted :: "(string \<Rightarrow> string option) \<Rightarrow> string \<Rightarrow> bool" for par where
  root: "rooted par []"
| step: "par p = Some q \<Longrightarrow> rooted par q \<Longrightarrow> rooted par p"

inductive_cases rootedE: "rooted par p"

text \<open>The walk that avoids one group.\<close>

inductive rooted_off :: "(string \<Rightarrow> string option) \<Rightarrow> string \<Rightarrow> string \<Rightarrow> bool" for par x where
  root_off: "rooted_off par x []"
| step_off: "p \<noteq> [] \<Longrightarrow> p \<noteq> x \<Longrightarrow> par p = Some q \<Longrightarrow> rooted_off par x q \<Longrightarrow> rooted_off par x p"

definition forest :: "document \<Rightarrow> bool" where
  "forest d \<longleftrightarrow> (\<forall>g \<in> set (doc_records d ''deviceGroups''). rooted (parent_of d) (j_text g ''id''))"

definition grouped :: "document \<Rightarrow> bool" where
  "grouped d \<longleftrightarrow> (\<forall>r \<in> set (doc_records d ''devices''). j_text r ''groupId'' \<noteq> []
     \<longrightarrow> parent_of d (j_text r ''groupId'') \<noteq> None)"

lemma doc_record_parent:
  "doc_record d ''deviceGroups'' p = Inr g \<Longrightarrow> parent_of d p = Some (j_text g ''parentId'')"
  "doc_record d ''deviceGroups'' p = Inl e \<Longrightarrow> parent_of d p = None"
  by (auto simp: doc_record_def parent_of_def result_iff)

lemma parent_of_Some: "parent_of d p = Some q \<Longrightarrow>
    \<exists>g. doc_record d ''deviceGroups'' p = Inr g \<and> j_text g ''parentId'' = q"
  by (auto simp: doc_record_def parent_of_def)

lemma group_walk_sound: "group_walk d x k p = Inr () \<Longrightarrow> rooted_off (parent_of d) x p"
proof (induction k arbitrary: p)
  case (Suc k)
  show ?case
  proof (cases "p = []")
    case False
    then obtain g where "p \<noteq> x" "doc_record d ''deviceGroups'' p = Inr g" "group_walk d x k (j_text g ''parentId'') = Inr ()"
      using Suc.prems by (auto simp: result_iff split: if_splits)
    with False show ?thesis
      using Suc.IH doc_record_parent(1) by (blast intro: step_off)
  qed (simp add: root_off)
qed simp

text \<open>
  A path to the root, as the list of the groups on it. It never repeats a group, so it is no longer
  than the collection and the rounds suffice.
\<close>

fun path :: "(string \<Rightarrow> string option) \<Rightarrow> string \<Rightarrow> string list \<Rightarrow> bool" where
  "path par p [] \<longleftrightarrow> p = []"
| "path par p (g # gs) \<longleftrightarrow> p = g \<and> g \<noteq> [] \<and> (\<exists>q. par g = Some q \<and> path par q gs)"

lemma rooted_off_path: "rooted_off par x p \<Longrightarrow> \<exists>gs. path par p gs \<and> x \<notin> set gs"
proof (induction rule: rooted_off.induct)
  case root_off
  have "path par [] [] \<and> x \<notin> set []" by simp
  then show ?case by blast
next
  case (step_off p q)
  then obtain gs where "path par q gs" "x \<notin> set gs" by blast
  then have "path par p (p # gs) \<and> x \<notin> set (p # gs)" using step_off by auto
  then show ?case by blast
qed

lemma path_unique: "path par p gs \<Longrightarrow> path par p hs \<Longrightarrow> gs = hs"
proof (induction gs arbitrary: p hs)
  case Nil
  then show ?case by (cases hs) auto
next
  case (Cons g gs)
  then show ?case by (cases hs) auto
qed

lemma path_suffix: "path par p (gs @ g # hs) \<Longrightarrow> path par g (g # hs)"
  by (induction gs arbitrary: p) auto

lemma path_distinct: "path par p gs \<Longrightarrow> distinct gs"
proof (rule ccontr)
  assume p: "path par p gs" "\<not> distinct gs"
  then obtain as bs cs g where "gs = as @ [g] @ bs @ [g] @ cs"
    using not_distinct_decomp by blast
  then have "path par g (g # bs @ g # cs)" "path par g (g # cs)"
    using p(1) path_suffix [of par p as g "bs @ g # cs"] path_suffix [of par p "as @ g # bs" g cs] by simp_all
  from path_unique [OF this] show False by (simp add: append_eq_Cons_conv)
qed

lemma path_known: "path (parent_of d) p gs \<Longrightarrow> set gs \<subseteq> (\<lambda>g. j_text g ''id'') ` set (doc_records d ''deviceGroups'')"
proof (induction gs arbitrary: p)
  case (Cons g gs)
  then obtain q where q: "parent_of d g = Some q" "path (parent_of d) q gs" by auto
  then have "g \<in> (\<lambda>g. j_text g ''id'') ` set (doc_records d ''deviceGroups'')"
    by (auto simp: parent_of_def dest!: find_Some_set)
  then show ?case using Cons.IH [OF q(2)] by simp
qed simp

lemma group_walk_path: "path (parent_of d) p gs \<Longrightarrow> x \<notin> set gs \<Longrightarrow> length gs < k \<Longrightarrow> group_walk d x k p = Inr ()"
proof (induction gs arbitrary: p k)
  case Nil
  then show ?case by (cases k) auto
next
  case (Cons g gs)
  then obtain q k' where q: "parent_of d g = Some q" "path (parent_of d) q gs" and k: "k = Suc k'" and "p = g" "g \<noteq> []"
    by (cases k) auto
  moreover obtain r where "doc_record d ''deviceGroups'' g = Inr r" "j_text r ''parentId'' = q"
    using parent_of_Some [OF q(1)] by blast
  ultimately show ?case
    using Cons.IH [of q k'] Cons.prems by auto
qed

text \<open>The walk accepts exactly the parents from which the root is reached without meeting the group.\<close>

lemma group_walk_iff:
  "group_walk d x (length (doc_records d ''deviceGroups'') + 1) p = Inr () \<longleftrightarrow> rooted_off (parent_of d) x p"
proof
  assume "rooted_off (parent_of d) x p"
  then obtain gs where gs: "path (parent_of d) p gs" "x \<notin> set gs" using rooted_off_path by blast
  have "length gs = card (set gs)" using path_distinct [OF gs(1)] distinct_card by metis
  also have "\<dots> \<le> length (doc_records d ''deviceGroups'')"
    using card_mono [OF _ path_known [OF gs(1)]] card_image_le [of "set (doc_records d ''deviceGroups'')"]
      card_length [of "doc_records d ''deviceGroups''"] by (meson List.finite_set finite_imageI le_trans)
  finally show "group_walk d x (length (doc_records d ''deviceGroups'') + 1) p = Inr ()"
    by (intro group_walk_path [OF gs]) simp
qed (rule group_walk_sound)

lemma trim_idem: "trim (trim s) = trim s"
proof -
  define t where "t = trim_start s"
  define u where "u = trim_end t"
  have u: "trim s = u" by (simp add: trim_def t_def u_def)
  obtain r where "rev t = r @ trim_with (map rev ws_strings) (rev t)"
    using trim_with_suffix by blast
  then have t: "t = u @ rev r"
    unfolding u_def trim_end_def by (metis rev_append rev_rev_ident)
  have "trim_start u = u"
  proof (cases "u = []")
    case False
    then have "ws_prefix ws_strings t = 0"
      using trim_with_fixed [of ws_strings s] t unfolding t_def trim_start_def by auto
    moreover have "w \<noteq> []" if "w \<in> set ws_strings" for w using ws_strings_ends [OF that] by simp
    ultimately have "find (starts_with t) ws_strings = None"
      by (auto simp: ws_prefix_def split: option.splits dest!: find_Some_set)
    then have "find (starts_with u) ws_strings = None"
      using t by (auto simp: find_None_iff starts_with_append)
    then show ?thesis
      by (simp add: trim_start_def trim_with.simps [of ws_strings u] ws_prefix_def)
  qed (simp add: trim_start_def trim_with.simps)
  moreover have "trim_end u = u"
    using trim_with_fixed [of "map rev ws_strings" "rev t"]
    unfolding u_def trim_end_def by (subst trim_with.simps) auto
  ultimately show ?thesis using u by (simp add: trim_def)
qed

section \<open>Storing a group\<close>

definition group_acceptable :: "document \<Rightarrow> jvalue \<Rightarrow> bool" where
  "group_acceptable d g \<longleftrightarrow>
     (\<exists>ps. g = Object ps) \<and> trim (j_text g ''name'') \<noteq> [] \<and> length (trim (j_text g ''name'')) \<le> 80
     \<and> (\<forall>v. j_get g ''sortOrder'' = Some v \<longrightarrow> as_u64 v \<noteq> None)
     \<and> (\<forall>p \<in> set (doc_records d ''deviceGroups''). j_text p ''id'' = j_text g ''id''
          \<or> \<not> eq_ignore_ascii_case (j_text p ''name'') (trim (j_text g ''name'')))
     \<and> rooted_off (parent_of d) (j_text g ''id'') (trim (j_text g ''parentId''))
     \<and> (j_uint g ''sortOrder'' = 0 \<longrightarrow> highest_order d (trim (j_text g ''parentId'')) \<noteq> - 1)"

lemma groups_validate_Object:
  fixes ps d
  defines "g \<equiv> Object ps"
  defines "name \<equiv> trim (j_text g ''name'')" and "parent \<equiv> trim (j_text g ''parentId'')"
  defines "qs \<equiv> obj_insert (obj_insert ps ''parentId'' (String parent)) ''name'' (String name)"
  shows "groups_validate d g =
    (if name = [] \<or> 80 < length name then Inl (Invalid ''group name must contain 1 to 80 bytes'')
     else if (case j_get g ''sortOrder'' of None \<Rightarrow> False | Some v \<Rightarrow> as_u64 v = None)
     then Inl (Invalid ''invalid group sortOrder'')
     else if list_ex (\<lambda>p. j_text p ''id'' \<noteq> j_text g ''id'' \<and> eq_ignore_ascii_case (j_text p ''name'') name)
       (doc_records d ''deviceGroups'')
     then Inl (Conflict ''a group with that name already exists'')
     else bindR (group_walk d (j_text g ''id'') (length (doc_records d ''deviceGroups'') + 1) parent) (\<lambda>_.
       if j_uint g ''sortOrder'' = 0
       then bindR (ok_or (checked_add (highest_order d parent) 1) Full)
              (\<lambda>n. Inr (Object (obj_insert qs ''sortOrder'' (uint_value n))))
       else Inr (Object qs)))"
proof -
  have "trim parent = parent" by (simp add: parent_def trim_idem)
  then show ?thesis
    unfolding groups_validate_def name_def [symmetric] parent_def [symmetric] Let_def
    by (simp add: g_def qs_def del: group_walk.simps)
qed

text \<open>A group is accepted exactly when it is an object with a name of 1 to 80 bytes after trimming that
  no other group has up to ASCII case, a sort order that is absent or a number, a parent from which the
  root is reached without passing the group itself, and, when it needs a fresh sort order, one is left.\<close>

theorem groups_validate_iff: "(\<exists>g'. groups_validate d g = Inr g') \<longleftrightarrow> group_acceptable d g"
proof (cases g)
  case (Object ps)
  let ?w = "group_walk d (j_text g ''id'') (length (doc_records d ''deviceGroups'') + 1) (trim (j_text g ''parentId''))"
  have "(\<exists>g'. groups_validate d g = Inr g') \<longleftrightarrow> trim (j_text g ''name'') \<noteq> [] \<and> length (trim (j_text g ''name'')) \<le> 80
    \<and> \<not> (case j_get g ''sortOrder'' of None \<Rightarrow> False | Some v \<Rightarrow> as_u64 v = None)
    \<and> \<not> list_ex (\<lambda>p. j_text p ''id'' \<noteq> j_text g ''id'' \<and> eq_ignore_ascii_case (j_text p ''name'') (trim (j_text g ''name'')))
          (doc_records d ''deviceGroups'')
    \<and> ?w = Inr () \<and> (j_uint g ''sortOrder'' = 0 \<longrightarrow> (\<exists>n. checked_add (highest_order d (trim (j_text g ''parentId''))) 1 = Some n))"
    unfolding Object groups_validate_Object by (cases ?w) (auto simp: Object ok_or_def not_less simp del: group_walk.simps split: option.splits)
  then show ?thesis
    unfolding checked_add_1_ok group_walk_iff group_acceptable_def
    by (auto simp: Object list_ex_iff split: option.splits)
qed (simp_all add: groups_validate_def group_acceptable_def j_set_def Let_def)

lemma groups_validate_Inr:
  assumes "groups_validate d g = Inr g'"
  shows "j_text g' ''id'' = j_text g ''id''" and "j_text g' ''parentId'' = trim (j_text g ''parentId'')"
    and "rooted_off (parent_of d) (j_text g ''id'') (j_text g' ''parentId'')"
proof -
  obtain ps where g: "g = Object ps"
    using assms by (auto simp: groups_validate_def Let_def result_iff)
  note v = assms [unfolded g groups_validate_Object]
  have w: "group_walk d (j_text g ''id'') (length (doc_records d ''deviceGroups'') + 1) (trim (j_text g ''parentId'')) = Inr ()"
    using v by (simp add: g bindR_Inr_iff del: group_walk.simps split: if_splits)
  show i: "j_text g' ''id'' = j_text g ''id''" and p: "j_text g' ''parentId'' = trim (j_text g ''parentId'')"
    using v w by (auto simp: g result_iff simp del: group_walk.simps split: if_splits)
  show "rooted_off (parent_of d) (j_text g ''id'') (j_text g' ''parentId'')"
    using w by (simp only: p group_walk_iff)
qed

lemma rooted_off_update: "rooted_off par x p \<Longrightarrow> rooted (par(x \<mapsto> q)) p"
  by (induction rule: rooted_off.induct) (auto intro: rooted.intros)

lemma rooted_update:
  assumes "rooted par p" and "rooted_off par x q"
  shows "rooted (par(x \<mapsto> q)) p"
  using assms(1)
proof (induction rule: rooted.induct)
  case (step p r)
  have "rooted (par(x \<mapsto> q)) x"
    by (rule rooted.step [OF _ rooted_off_update [OF assms(2)]]) simp
  moreover have "p \<noteq> x \<Longrightarrow> rooted (par(x \<mapsto> q)) p"
    using step.hyps(1) by (intro rooted.step [OF _ step.IH]) simp
  ultimately show ?case by blast
qed (rule rooted.root)

lemma parent_of_replace:
  assumes "replace_record d ''deviceGroups'' g = Inr d'"
  shows "parent_of d' = (parent_of d)(j_text g ''id'' \<mapsto> j_text g ''parentId'')"
proof
  fix p
  have "parent_of d p = (case doc_record d ''deviceGroups'' p of Inl e \<Rightarrow> None | Inr g \<Rightarrow> Some (j_text g ''parentId''))" for d
    by (auto split: sum.splits dest: doc_record_parent)
  then show "parent_of d' p = ((parent_of d)(j_text g ''id'' \<mapsto> j_text g ''parentId'')) p"
    using doc_record_replace [OF assms] by auto
qed

lemma doc_records_other:
  "replace_record d c r = Inr d' \<Longrightarrow> c' \<noteq> c \<Longrightarrow> doc_records d' c' = doc_records d c'"
  "remove_record d c rid = Inr d' \<Longrightarrow> c' \<noteq> c \<Longrightarrow> doc_records d' c' = doc_records d c'"
  using replace_record_Inr(2) [of d c r d' c'] remove_record_Inr(2) [of d c rid d' c']
  by (auto simp: doc_records_def j_array_def)

text \<open>Storing an accepted group keeps the groups a forest: no put can close a cycle or leave a group
  under a missing parent, and every device keeps a group that exists.\<close>

lemma group_put_forest:
  assumes "forest d" and "grouped d" and "groups_validate d g = Inr g'" and "replace_record d ''deviceGroups'' g' = Inr d'"
  shows "forest d' \<and> grouped d'"
proof -
  note v = groups_validate_Inr [OF assms(3)]
  have par: "parent_of d' = (parent_of d)(j_text g' ''id'' \<mapsto> j_text g' ''parentId'')"
    by (rule parent_of_replace [OF assms(4)])
  have off: "rooted_off (parent_of d) (j_text g' ''id'') (j_text g' ''parentId'')" using v by simp
  have "set (doc_records d' ''deviceGroups'') \<subseteq> insert g' (set (doc_records d ''deviceGroups''))"
    using replace_record_Inr(1) [OF assms(4)] by (auto simp: others_def)
  moreover have "rooted (parent_of d') (j_text g' ''id'')"
    unfolding par by (rule rooted.step [OF _ rooted_off_update [OF off]]) simp
  ultimately have "forest d'"
    using assms(1) rooted_update [OF _ off] unfolding forest_def par by blast
  moreover have "grouped d'"
    using assms(2) doc_records_other(1) [OF assms(4), of "''devices''"] unfolding grouped_def par by auto
  ultimately show ?thesis by simp
qed

section \<open>Removing a group\<close>

lemma find_map_key: "(\<And>x. key (f x) = key x) \<Longrightarrow> find (\<lambda>y. key y = k) (map f xs) = map_option f (find (\<lambda>x. key x = k) xs)"
  by (induction xs) auto

definition lifted :: "string \<Rightarrow> string \<Rightarrow> string \<Rightarrow> jvalue \<Rightarrow> jvalue" where
  "lifted key gid parent r = (case r of Object ps \<Rightarrow>
     if j_text r key = gid then Object (obj_insert ps key (String parent)) else r | _ \<Rightarrow> r)"

lemma lift_record_lifted: "gid \<noteq> [] \<Longrightarrow> lift_record key gid parent r = Inr (lifted key gid parent r)"
  by (cases r) (auto simp: lift_record_def lifted_def j_text_def j_get_def)

lemma lifted_text:
  "gid \<noteq> [] \<Longrightarrow> j_text (lifted key gid parent r) k
     = (if k = key \<and> j_text r key = gid then parent else j_text r k)"
  by (cases r) (auto simp: lifted_def j_text_def j_get_def)

lemma ids_ok_lifted: "key \<noteq> ''id'' \<Longrightarrow> gid \<noteq> [] \<Longrightarrow> ids_ok rs \<Longrightarrow> ids_ok (map (lifted key gid parent) rs)"
  by (auto simp: ids_ok_def lifted_text comp_def)

lemma collectR_lift:
  assumes "gid \<noteq> []" and "length rs \<le> n"
  shows "collectR n (lift_record key gid parent) rs = Inr (map (lifted key gid parent) rs)"
  using assms by (auto simp: result_iff lift_record_lifted intro!: mapR_Inr_map)

lemma lift_children_result:
  assumes "doc_ok d" and "doc_record d ''deviceGroups'' gid = Inr g" and "gid \<noteq> []"
  obtains d1 where "lift_children d gid = Inr d1" and "doc_ok d1"
    and "doc_records d1 ''deviceGroups'' = map (lifted ''parentId'' gid (j_text g ''parentId'')) (doc_records d ''deviceGroups'')"
    and "doc_records d1 ''devices'' = map (lifted ''groupId'' gid (j_text g ''parentId'')) (doc_records d ''devices'')"
    and "\<And>c. c \<notin> {''deviceGroups'', ''devices''} \<Longrightarrow> j_get d1 c = j_get d c"
proof -
  define p where "p = j_text g ''parentId''"
  have c: "''deviceGroups'' \<in> set COLLECTIONS" "''devices'' \<in> set COLLECTIONS" by (simp_all add: COLLECTIONS_def)
  note len = doc_ok_records [OF assms(1)]
  define gs where "gs = map (lifted ''parentId'' gid p) (doc_records d ''deviceGroups'')"
  define ds where "ds = map (lifted ''groupId'' gid p) (doc_records d ''devices'')"
  obtain ps where d: "d = Object ps" using doc_ok_Object [OF assms(1)] by blast
  define d0 where "d0 = Object (obj_insert ps ''deviceGroups'' (Array gs))"
  define d1 where "d1 = Object (obj_insert (obj_insert ps ''deviceGroups'' (Array gs)) ''devices'' (Array ds))"
  have r0: "doc_replace d ''deviceGroups'' gs = Inr d0"
    using len [OF c(1)] by (simp add: d d0_def gs_def result_iff)
  have ok0: "doc_ok d0"
    using doc_ok_replace [OF assms(1) r0 c(1)] len [OF c(1)] assms(3) by (simp add: gs_def ids_ok_lifted)
  have dev: "doc_records d0 ''devices'' = doc_records d ''devices''"
    by (simp add: d0_def d doc_records_def j_array_def)
  have r1: "doc_replace d0 ''devices'' ds = Inr d1"
    using len [OF c(2)] by (simp add: d0_def d1_def ds_def result_iff)
  have "doc_ok d1"
    using doc_ok_replace [OF ok0 r1 c(2)] len [OF c(2)] assms(3) by (simp add: ds_def ids_ok_lifted)
  moreover have "lift_children d gid = Inr d1"
    using r0 r1 dev len [OF c(1)] len [OF c(2)]
    by (simp add: lift_children_def assms(2) lift_collection_def collectR_lift [OF assms(3)]
        gs_def [symmetric] ds_def [symmetric] p_def [symmetric])
  ultimately show thesis
    using that [of d1] by (auto simp: d1_def d doc_records_def j_array_def gs_def ds_def p_def)
qed

text \<open>The parent map after lifting the children of a group and removing it.\<close>

definition lift_map :: "(string \<Rightarrow> string option) \<Rightarrow> string \<Rightarrow> string \<Rightarrow> string \<Rightarrow> string option" where
  "lift_map par gid q p = (if p = gid then None else if par p = Some gid then Some q else par p)"

lemma rooted_no_loop: "rooted par p \<Longrightarrow> p \<noteq> [] \<Longrightarrow> par p \<noteq> Some p"
  by (induction rule: rooted.induct) auto

lemma rooted_lift:
  assumes "rooted par p" and "par gid = Some q" and "gid \<noteq> []"
  shows "(p \<noteq> gid \<longrightarrow> rooted (lift_map par gid q) p) \<and> (p = gid \<longrightarrow> rooted (lift_map par gid q) q)"
  using assms(1)
proof (induction rule: rooted.induct)
  case root
  then show ?case using assms(3) by (simp add: rooted.root)
next
  case (step p r)
  show ?case
  proof (cases "p = gid")
    case True
    then have "r = q" using step.hyps(1) assms(2) by simp
    then show ?thesis using True step.IH by blast
  next
    case False
    then have "lift_map par gid q p = Some (if r = gid then q else r)"
      using step.hyps(1) by (simp add: lift_map_def)
    then show ?thesis using False step.IH by (auto intro: rooted.step)
  qed
qed

lemma rooted_known: "rooted par p \<Longrightarrow> p = [] \<or> par p \<noteq> None"
  by (induction rule: rooted.induct) auto

lemma parent_of_lifted:
  assumes "doc_records d1 ''deviceGroups'' = map (lifted ''parentId'' gid q) (doc_records d ''deviceGroups'')"
    and "remove_record d1 ''deviceGroups'' gid = Inr d2" and "gid \<noteq> []"
  shows "parent_of d2 = lift_map (parent_of d) gid q"
proof
  fix p
  have f: "find (\<lambda>g. j_text g ''id'' = p) (doc_records d1 ''deviceGroups'')
    = map_option (lifted ''parentId'' gid q) (find (\<lambda>g. j_text g ''id'' = p) (doc_records d ''deviceGroups''))"
    unfolding assms(1) by (rule find_map_key) (simp add: lifted_text assms(3))
  have "p \<noteq> gid \<Longrightarrow> find (\<lambda>x. j_text x ''id'' = p) (filter (\<lambda>x. j_text x ''id'' \<noteq> gid) xs) = find (\<lambda>x. j_text x ''id'' = p) xs" for xs
    by (induction xs) auto
  moreover have "find (\<lambda>x. j_text x ''id'' = gid) (filter (\<lambda>x. j_text x ''id'' \<noteq> gid) xs) = None" for xs
    by (induction xs) auto
  ultimately show "parent_of d2 p = lift_map (parent_of d) gid q p"
    using remove_record_Inr(1) [OF assms(2)] f
    by (cases "find (\<lambda>g. j_text g ''id'' = p) (doc_records d ''deviceGroups'')")
      (auto simp: parent_of_def lift_map_def others_def lifted_text assms(3))
qed

lemma delete_group_parts:
  assumes "doc_ok d" and "doc_record d ''deviceGroups'' gid = Inr g"
  obtains d1 d2 where "lift_children d gid = Inr d1" and "remove_record d1 ''deviceGroups'' gid = Inr d2" and "doc_ok d2"
    and "doc_records d2 ''devices'' = map (lifted ''groupId'' gid (j_text g ''parentId'')) (doc_records d ''devices'')"
    and "doc_records d2 ''deviceGroups'' = filter (\<lambda>r. j_text r ''id'' \<noteq> gid)
           (map (lifted ''parentId'' gid (j_text g ''parentId'')) (doc_records d ''deviceGroups''))"
    and "parent_of d2 = lift_map (parent_of d) gid (j_text g ''parentId'')" and "gid \<noteq> []"
    and "\<And>c. c \<notin> {''deviceGroups'', ''devices''} \<Longrightarrow> j_get d2 c = j_get d c"
proof -
  define q where "q = j_text g ''parentId''"
  have col: "''deviceGroups'' \<in> set COLLECTIONS" by (simp add: COLLECTIONS_def)
  have g: "g \<in> set (doc_records d ''deviceGroups'')" "j_text g ''id'' = gid"
    using doc_record_Inr [OF assms(2)] by auto
  then have ne: "gid \<noteq> []"
    using doc_ok_records(3) [OF assms(1) col] by blast
  obtain d1 where d1: "lift_children d gid = Inr d1" "doc_ok d1"
    and gs: "doc_records d1 ''deviceGroups'' = map (lifted ''parentId'' gid q) (doc_records d ''deviceGroups'')"
    and ds: "doc_records d1 ''devices'' = map (lifted ''groupId'' gid q) (doc_records d ''devices'')"
    and frame: "\<And>c. c \<notin> {''deviceGroups'', ''devices''} \<Longrightarrow> j_get d1 c = j_get d c"
    using lift_children_result [OF assms ne] unfolding q_def by metis
  obtain d2 where d2: "remove_record d1 ''deviceGroups'' gid = Inr d2"
    using remove_record_succeeds [OF d1(2) col] by blast
  show thesis
  proof (rule that [OF d1(1) d2 remove_record_ok [OF d1(2) d2 col]])
    show "doc_records d2 ''devices'' = map (lifted ''groupId'' gid (j_text g ''parentId'')) (doc_records d ''devices'')"
      using doc_records_other(2) [OF d2] ds by (simp add: q_def)
    show "doc_records d2 ''deviceGroups'' = filter (\<lambda>r. j_text r ''id'' \<noteq> gid)
           (map (lifted ''parentId'' gid (j_text g ''parentId'')) (doc_records d ''deviceGroups''))"
      using remove_record_Inr(1) [OF d2] by (simp add: others_def gs q_def)
    show "parent_of d2 = lift_map (parent_of d) gid (j_text g ''parentId'')"
      using parent_of_lifted [OF gs d2 ne] by (simp add: q_def)
    show "gid \<noteq> []" by (rule ne)
    show "j_get d2 c = j_get d c" if "c \<notin> {''deviceGroups'', ''devices''}" for c
      using frame [OF that] remove_record_Inr(2) [OF d2, of c] that by simp
  qed
qed

lemma group_deleted_forest:
  assumes "forest d" and "grouped d" and "doc_record d ''deviceGroups'' gid = Inr g" and "gid \<noteq> []"
    and dev: "doc_records d2 ''devices'' = map (lifted ''groupId'' gid (j_text g ''parentId'')) (doc_records d ''devices'')"
    and grp: "doc_records d2 ''deviceGroups'' = filter (\<lambda>r. j_text r ''id'' \<noteq> gid)
           (map (lifted ''parentId'' gid (j_text g ''parentId'')) (doc_records d ''deviceGroups''))"
    and par: "parent_of d2 = lift_map (parent_of d) gid (j_text g ''parentId'')"
  shows "forest d2 \<and> grouped d2 \<and> j_text g ''parentId'' \<noteq> gid"
proof -
  define q where "q = j_text g ''parentId''"
  have g: "g \<in> set (doc_records d ''deviceGroups'')" "j_text g ''id'' = gid"
    using doc_record_Inr [OF assms(3)] by auto
  have pg: "parent_of d gid = Some q" using doc_record_parent(1) [OF assms(3)] by (simp add: q_def)
  have rt: "rooted (parent_of d) gid" using assms(1) g by (auto simp: forest_def)
  then have qg: "q \<noteq> gid" using rooted_no_loop assms(4) pg by blast
  have "rooted (lift_map (parent_of d) gid q) p" if "rooted (parent_of d) p" "p \<noteq> gid" for p
    using rooted_lift [of "parent_of d" p gid q] that pg assms(4) by blast
  then have "forest d2"
    using assms(1) unfolding forest_def par grp by (auto simp: lifted_text assms(4) q_def)
  moreover have "grouped d2"
    using assms(2) rooted_known [of "lift_map (parent_of d) gid q" q] rooted_lift [of "parent_of d" gid gid q] rt pg assms(4)
    unfolding grouped_def par dev q_def by (auto simp: lifted_text lift_map_def)
  ultimately show ?thesis using qg by (simp add: q_def)
qed

text \<open>Deleting a group always succeeds on a good document and loses nothing: its subgroups and devices
  move to its parent, every other group and every device stays, no reference to it is left, and the
  groups are still a forest under which every device has its place.\<close>

theorem group_delete_lifts:
  assumes "doc_ok d" and "forest d" and "grouped d" and "doc_record d ''deviceGroups'' gid = Inr g"
  shows "\<exists>d1 d2. lift_children d gid = Inr d1 \<and> remove_record d1 ''deviceGroups'' gid = Inr d2
    \<and> doc_ok d2 \<and> forest d2 \<and> grouped d2
    \<and> map (\<lambda>r. j_text r ''id'') (doc_records d2 ''devices'') = map (\<lambda>r. j_text r ''id'') (doc_records d ''devices'')
    \<and> map (\<lambda>r. j_text r ''id'') (doc_records d2 ''deviceGroups'')
        = filter (\<lambda>i. i \<noteq> gid) (map (\<lambda>r. j_text r ''id'') (doc_records d ''deviceGroups''))
    \<and> (\<forall>r \<in> set (doc_records d2 ''devices''). j_text r ''groupId'' \<noteq> gid)
    \<and> (\<forall>r \<in> set (doc_records d2 ''deviceGroups''). j_text r ''parentId'' \<noteq> gid)"
proof -
  obtain d1 d2 where d: "lift_children d gid = Inr d1" "remove_record d1 ''deviceGroups'' gid = Inr d2" "doc_ok d2"
    and dev: "doc_records d2 ''devices'' = map (lifted ''groupId'' gid (j_text g ''parentId'')) (doc_records d ''devices'')"
    and grp: "doc_records d2 ''deviceGroups'' = filter (\<lambda>r. j_text r ''id'' \<noteq> gid)
           (map (lifted ''parentId'' gid (j_text g ''parentId'')) (doc_records d ''deviceGroups''))"
    and par: "parent_of d2 = lift_map (parent_of d) gid (j_text g ''parentId'')" and ne: "gid \<noteq> []"
    using delete_group_parts [OF assms(1,4)] by metis
  have "forest d2 \<and> grouped d2 \<and> j_text g ''parentId'' \<noteq> gid"
    by (rule group_deleted_forest [OF assms(2,3,4) ne dev grp par])
  then show ?thesis
    using d by (auto simp: dev grp lifted_text ne filter_map comp_def)
qed

definition home_document :: document where
  "home_document = Object [(''version'', uint_value DOC_VERSION), (''apps'', Array []),
     (''devices'', Array [Object [(''id'', String ''lamp''), (''groupId'', String ''room'')]]),
     (''deviceGroups'', Array [Object [(''id'', String ''house''), (''name'', String ''House''), (''sortOrder'', uint_value 1)],
        Object [(''id'', String ''room''), (''name'', String ''Room''), (''parentId'', String ''house''), (''sortOrder'', uint_value 1)]]),
     (''flows'', Array []), (''scenes'', Array []), (''notifications'', Array []),
     (''appSettings'', Object []), (''appState'', Object []), (''system'', Object [])]"

lemma home_document_good: "doc_ok home_document" "forest home_document" "grouped home_document"
proof -
  show "doc_ok home_document"
    by (simp add: doc_ok_def home_document_def COLLECTIONS_def SETTINGS_def collection_ok_def ids_ok_def
        MAX_RECORDS_def j_text_def)
  have p: "parent_of home_document ''house'' = Some []" "parent_of home_document ''room'' = Some ''house''"
    by (simp_all add: parent_of_def home_document_def doc_records_def j_array_def j_text_def)
  then have "rooted (parent_of home_document) ''house''" "rooted (parent_of home_document) ''room''"
    by (blast intro: rooted.intros)+
  then show "forest home_document"
    by (simp add: forest_def home_document_def doc_records_def j_array_def j_text_def)
  show "grouped home_document"
    using p by (simp add: grouped_def home_document_def doc_records_def j_array_def j_text_def)
qed

theorem group_delete_lifts_witness:
  "\<exists>d1 d2. lift_children home_document ''room'' = Inr d1 \<and> remove_record d1 ''deviceGroups'' ''room'' = Inr d2
    \<and> forest d2 \<and> grouped d2 \<and> map (\<lambda>r. j_text r ''id'') (doc_records d2 ''devices'') = [''lamp'']"
proof -
  have "\<exists>g. doc_record home_document ''deviceGroups'' ''room'' = Inr g"
    by (simp add: doc_record_def home_document_def doc_records_def j_array_def j_text_def)
  moreover have "map (\<lambda>r. j_text r ''id'') (doc_records home_document ''devices'') = [''lamp'']"
    by (simp add: home_document_def doc_records_def j_array_def j_text_def)
  ultimately show ?thesis
    using group_delete_lifts [OF home_document_good] by metis
qed

end
