(* ===== verification/StoreOps.thy ===== *)
theory StoreOps
  imports StoreBase DeviceGroups Flow
begin

text \<open>
  The mutations of the configuration (\<^verbatim>\<open>crates/core/src/store.rs\<close>): creating, replacing and deleting a
  record, app settings and state, system settings and flow results, and the volatile device reports.
\<close>

section \<open>Collections\<close>

definition collection_events :: "string \<Rightarrow> (string \<times> string \<times> string \<times> string) result" where
  "collection_events c =
     (if c = ''apps'' then Inr (''apps'', ''app.create'', ''app.update'', ''app.delete'')
      else if c = ''devices'' then Inr (''devices'', ''device.create'', ''device.update'', ''device.delete'')
      else if c = ''deviceGroups'' then Inr (''devices'', ''group.create'', ''group.update'', ''group.delete'')
      else if c = ''flows'' then Inr (''flow'', ''flow.create'', ''flow.update'', ''flow.delete'')
      else if c = ''scenes'' then Inr (''scene'', ''scene.create'', ''scene.update'', ''scene.delete'')
      else if c = ''notifications''
      then Inr (''notifications'', ''notification.create'', ''notification.update'', ''notification.delete'')
      else Inl (Invalid ''unknown collection''))"

section \<open>Normalizing a record\<close>

definition prepare_cache :: "'s store \<Rightarrow> string \<Rightarrow> jvalue \<Rightarrow> (string \<times> jvalue) option result" where
  "prepare_cache s i record =
     (case Option.bind (j_get record ''store'') as_object of
        None \<Rightarrow> Inr None
      | Some ps \<Rightarrow>
          let cache = filter (\<lambda>(k, _). starts_with k ''~'') ps in
          if cache = [] then Inr None
          else if \<not> list_ex (\<lambda>(k, _). k = i) (caches s) \<and> length (caches s) = MAX_RECORDS then Inl Full
          else Inr (Some (i, Object cache)))"

definition check_identity :: "jvalue \<Rightarrow> jvalue \<Rightarrow> string \<Rightarrow> unit \<Rightarrow> unit result" where
  "check_identity old record key _ =
     (if j_equal (j_field old key) (j_field record key) then Inr ()
      else Inl (Invalid ''paired device identity is immutable''))"

definition same_pairing :: "jvalue \<Rightarrow> jvalue \<Rightarrow> bool" where
  "same_pairing existing record \<longleftrightarrow>
     j_text existing ''id'' \<noteq> j_text record ''id'' \<and> j_text existing ''appId'' = j_text record ''appId''
     \<and> j_text existing ''driverId'' = j_text record ''driverId''
     \<and> j_equal (j_field existing ''data'') (j_field record ''data'')"

definition default_object :: "string \<Rightarrow> jvalue \<Rightarrow> jvalue result" where
  "default_object key record =
     (if (case j_get record key of None \<Rightarrow> True | Some v \<Rightarrow> is_null v) then j_set record key j_object else Inr record)"

definition normalize_device :: "document \<Rightarrow> jvalue \<Rightarrow> jvalue option \<Rightarrow> jvalue result" where
  "normalize_device d record previous =
     bindR (if j_text record ''appId'' \<noteq> APP_ID
            then bindR (doc_record d ''apps'' (j_text record ''appId'')) (\<lambda>_. Inr ()) else Inr ()) (\<lambda>_.
     bindR (if j_text record ''groupId'' \<noteq> []
            then bindR (doc_record d ''deviceGroups'' (j_text record ''groupId'')) (\<lambda>_. Inr ()) else Inr ()) (\<lambda>_.
     bindR (case previous of
              None \<Rightarrow> Inr ()
            | Some old \<Rightarrow> foldR (check_identity old record) [''appId'', ''driverId'', ''data''] ()) (\<lambda>_.
     if list_ex (\<lambda>e. same_pairing e record) (doc_records d ''devices'')
     then Inl (Conflict ''device is already paired'')
     else bindR (foldR default_object [''data'', ''settings'', ''store''] record) (\<lambda>record1.
     bindR (ok_or (j_get record1 ''store'') (Missing ''device store'')) (\<lambda>store0.
     bindR (if j_text store0 ''__stulp.hardwareName'' = []
            then j_set store0 ''__stulp.hardwareName'' (String (trim (j_text record1 ''name''))) else Inr store0) (\<lambda>store1.
     bindR (ok_or (as_object store1) (Invalid ''device store must be an object'')) (\<lambda>ps.
     bindR (j_set record1 ''store'' (Object (keep_durable ps)))
       (remove_keys VOLATILE))))))))"

definition normalize :: "document \<Rightarrow> string \<Rightarrow> jvalue \<Rightarrow> jvalue option \<Rightarrow> jvalue result" where
  "normalize d c record previous =
     (if c = ''flows'' then
        bindR (j_set record ''name'' (String (trim (j_text record ''name'')))) (\<lambda>record1.
        bindR (flow_validate record1) (\<lambda>_.
        bindR (validate_references d record1) (\<lambda>_. Inr record1)))
      else if c = ''deviceGroups'' then groups_validate d record
      else if c = ''scenes'' then
        bindR (case previous of
                 None \<Rightarrow> Inr ()
               | Some old \<Rightarrow> if j_text old ''kind'' \<noteq> j_text record ''kind'' then can_delete d old else Inr ()) (\<lambda>_.
        scenes_validate record previous)
      else if c = ''devices'' then normalize_device d record previous
      else if c = ''notifications'' then
        (let excerpt = trim (j_text record ''excerpt'') in
         if excerpt = [] \<or> 500 < chars_count excerpt
         then Inl (Invalid ''notification excerpt must contain 1 to 500 characters'')
         else j_set record ''excerpt'' (String excerpt))
      else if c = ''apps'' then Inr record
      else Inl (Invalid ''unknown collection''))"

section \<open>Creating and replacing a record\<close>

definition keep_history :: "jvalue option \<Rightarrow> string \<Rightarrow> jvalue \<Rightarrow> jvalue result" where
  "keep_history previous key record =
     (case Option.bind previous (\<lambda>p. j_get p key) of None \<Rightarrow> Inr record | Some v \<Rightarrow> j_set record key v)"

definition bump_revision :: "jvalue option \<Rightarrow> jvalue \<Rightarrow> jvalue result" where
  "bump_revision previous record =
     bindR (ok_or (checked_add (case previous of None \<Rightarrow> 0 | Some p \<Rightarrow> j_uint p ''revision'') 1) Full) (\<lambda>n.
       j_set record ''revision'' (uint_value n))"

definition stamp_record :: "document \<Rightarrow> string \<Rightarrow> jvalue \<Rightarrow> bool \<Rightarrow> jvalue option \<Rightarrow> string \<Rightarrow> jvalue result" where
  "stamp_record d c record create previous now =
     bindR (if c = ''flows'' \<or> c = ''scenes'' then bump_revision previous record else Inr record) (\<lambda>record1.
     bindR (foldR (keep_history previous) [''createdAt'', ''lastRunAt'', ''lastError''] record1) (\<lambda>record2.
     bindR (if create then j_set record2 ''createdAt'' (String now) else Inr record2) (\<lambda>record3.
     bindR (j_set record3 ''updatedAt'' (String now)) (\<lambda>record4.
       normalize d c record4 previous))))"

definition find_record :: "document \<Rightarrow> string \<Rightarrow> string \<Rightarrow> jvalue option" where
  "find_record d c i = (case doc_record d c i of Inl _ \<Rightarrow> None | Inr r \<Rightarrow> Some r)"

definition put_candidate ::
  "'s store \<Rightarrow> string \<Rightarrow> jvalue \<Rightarrow> bool \<Rightarrow> u64 option \<Rightarrow> string \<Rightarrow> (document \<times> event \<times> (string \<times> jvalue) option) result" where
  "put_candidate s c record create revision now =
     bindR (collection_events c) (\<lambda>(manager, created, updated, _).
     let i = j_text record ''id'' in
     if i = [] then Inl (Invalid ''record id is required'')
     else bindR (if c = ''devices'' then prepare_cache s i record else Inr None) (\<lambda>cache.
     let previous = find_record (config s) c i in
     if create \<and> previous \<noteq> None then Inl (Conflict ''record already exists'')
     else if \<not> create \<and> previous = None then Inl (Missing ''record does not exist'')
     else if (case revision of None \<Rightarrow> False | Some r \<Rightarrow> map_option (\<lambda>p. j_uint p ''revision'') previous \<noteq> Some r)
     then Inl Changed
     else bindR (stamp_record (config s) c record create previous now) (\<lambda>record1.
     bindR (new_event s manager (if create then created else updated) i) (\<lambda>e.
     bindR (replace_record (config s) c record1) (\<lambda>candidate0.
     bindR (if c = ''scenes'' then reconcile candidate0 else Inr candidate0) (\<lambda>candidate.
       Inr (candidate, e, cache)))))))"

definition put_cache :: "(string \<times> jvalue) option \<Rightarrow> 's store \<Rightarrow> 's store" where
  "put_cache cache s =
     (case cache of
        None \<Rightarrow> s
      | Some (i, v) \<Rightarrow>
          s\<lparr>caches := (if list_ex (\<lambda>(k, _). k = i) (caches s)
                        then update_first (\<lambda>(k, _). k = i) (\<lambda>(k, _). (k, v)) (caches s)
                        else caches s @ [(i, v)])\<rparr>)"

definition put :: "'s save \<Rightarrow> string \<Rightarrow> jvalue \<Rightarrow> bool \<Rightarrow> u64 option \<Rightarrow> string \<Rightarrow> 's store \<Rightarrow> ('s, unit) outcome" where
  "put save c record create revision now s =
     prepare (put_candidate s c record create revision now) (\<lambda>(candidate, e, cache) s.
       after (commit save candidate e s) (\<lambda>s. (Inr (), put_cache cache s))) s"

section \<open>Deleting a record\<close>

fun references_app :: "document \<Rightarrow> string \<Rightarrow> jvalue \<Rightarrow> bool"
and references_app_fields :: "document \<Rightarrow> string \<Rightarrow> object \<Rightarrow> bool"
and references_app_items :: "document \<Rightarrow> string \<Rightarrow> jvalue list \<Rightarrow> bool" where
  "references_app d app (Object ps) \<longleftrightarrow>
     j_text (Object ps) ''appId'' = app
     \<or> (case Option.bind (obj_get ps ''$device'') as_str of
          None \<Rightarrow> False
        | Some i \<Rightarrow> (case doc_record d ''devices'' i of Inl _ \<Rightarrow> False | Inr dev \<Rightarrow> j_text dev ''appId'' = app))
     \<or> references_app_fields d app ps"
| "references_app d app (Array vs) \<longleftrightarrow> references_app_items d app vs"
| "references_app d app _ \<longleftrightarrow> False"
| "references_app_fields d app [] \<longleftrightarrow> False"
| "references_app_fields d app ((k, v) # ps) \<longleftrightarrow> references_app d app v \<or> references_app_fields d app ps"
| "references_app_items d app [] \<longleftrightarrow> False"
| "references_app_items d app (v # vs) \<longleftrightarrow> references_app d app v \<or> references_app_items d app vs"

definition disable_flow :: "document \<Rightarrow> string \<Rightarrow> jvalue \<Rightarrow> jvalue result" where
  "disable_flow d app flow =
     (if references_app d app flow
      then bindR (j_set flow ''enabled'' (Bool False)) (\<lambda>f1.
           bindR (j_set f1 ''lastError'' (String ''app was uninstalled'')) (\<lambda>f2.
           bump_revision (Some f2) f2))
      else Inr flow)"

definition forget_app :: "string \<Rightarrow> string \<Rightarrow> document \<Rightarrow> document result" where
  "forget_app app key d =
     bindR (ok_or (j_get d key) (Missing ''app configuration'')) (\<lambda>v.
     bindR (j_remove v app) (doc_set d key))"

definition uninstall :: "document \<Rightarrow> string \<Rightarrow> document result" where
  "uninstall d app =
     bindR (collectR MAX_RECORDS (disable_flow d app) (doc_records d ''flows'')) (\<lambda>flows.
     bindR (doc_replace d ''flows'' flows) (\<lambda>d1.
     bindR (collectR MAX_RECORDS Inr (filter (\<lambda>r. j_text r ''appId'' \<noteq> app) (doc_records d1 ''devices''))) (\<lambda>devices.
     bindR (doc_replace d1 ''devices'' devices) (\<lambda>d2.
       foldR (forget_app app) [''appSettings'', ''appState''] d2))))"

definition delete_candidate :: "'s store \<Rightarrow> string \<Rightarrow> string \<Rightarrow> (document \<times> event) result" where
  "delete_candidate s c i =
     (let d = config s in
      bindR (doc_record d c i) (\<lambda>previous.
      bindR (if c = ''scenes'' then can_delete d previous else Inr ()) (\<lambda>_.
      if c = ''devices'' \<and> j_text previous ''appId'' = APP_ID
      then Inl (Invalid ''scene device must be deleted through its scene'')
      else bindR (collection_events c) (\<lambda>(manager, _, _, k).
      bindR (new_event s manager k i) (\<lambda>e.
      bindR (if c = ''deviceGroups'' then lift_children d i else Inr d) (\<lambda>d1.
      bindR (if c = ''apps'' then uninstall d1 i else Inr d1) (\<lambda>d2.
      bindR (remove_record d2 c i) (\<lambda>d3.
      bindR (if c = ''scenes'' then reconcile d3 else Inr d3) (\<lambda>candidate.
        Inr (candidate, e))))))))))"

definition known_device :: "'s store \<Rightarrow> string \<Rightarrow> bool" where
  "known_device s i = is_ok (doc_record (config s) ''devices'' i)"

definition forget_deleted :: "string \<Rightarrow> string \<Rightarrow> 's store \<Rightarrow> 's store" where
  "forget_deleted c i s =
     s\<lparr>apps := (if c = ''apps'' then filter (\<lambda>a. app_id a \<noteq> i) (apps s) else apps s),
       media := (let m = (if c = ''apps'' then filter (\<lambda>(k, _). known_device s k) (media s) else media s) in
                 if c = ''devices'' then filter (\<lambda>(k, _). k \<noteq> i) m else m),
       live := filter (\<lambda>ob. known_device s (ob_id ob)) (live s),
       caches := filter (\<lambda>(k, _). known_device s k) (caches s)\<rparr>"

definition delete :: "'s save \<Rightarrow> string \<Rightarrow> string \<Rightarrow> 's store \<Rightarrow> ('s, unit) outcome" where
  "delete save c i s =
     prepare (delete_candidate s c i) (\<lambda>(candidate, e) s.
       after (commit save candidate e s) (\<lambda>s. (Inr (), forget_deleted c i s))) s"

section \<open>Settings\<close>

definition setting :: "'s save \<Rightarrow> string \<Rightarrow> string \<Rightarrow> jvalue option \<Rightarrow> 's store \<Rightarrow> ('s, unit) outcome" where
  "setting save app key v s =
     prepare (let d = config s in
       bindR (doc_record d ''apps'' app) (\<lambda>_.
       bindR (ok_or (j_get d ''appSettings'') (Missing ''appSettings'')) (\<lambda>settings.
       let own = (case j_get settings app of Some w \<Rightarrow> w | None \<Rightarrow> j_object) in
       bindR (case v of Some w \<Rightarrow> j_set own key w | None \<Rightarrow> j_remove own key) (\<lambda>own1.
       bindR (j_set settings app own1) (\<lambda>settings1.
       bindR (doc_set d ''appSettings'' settings1) (\<lambda>candidate.
       bindR (new_event s ''apps'' ''app.settings'' app) (\<lambda>e. Inr (candidate, e))))))))
       (\<lambda>(candidate, e). commit save candidate e) s"

definition set_app_state :: "'s save \<Rightarrow> string \<Rightarrow> jvalue \<Rightarrow> 's store \<Rightarrow> ('s, unit) outcome" where
  "set_app_state save app v s =
     prepare (let d = config s in
       bindR (doc_record d ''apps'' app) (\<lambda>_.
       bindR (ok_or (j_get d ''appState'') (Missing ''appState'')) (\<lambda>state.
       bindR (j_set state app v) (\<lambda>state1.
       bindR (doc_set d ''appState'' state1) (\<lambda>candidate.
       bindR (new_event s ''apps'' ''app.state'' app) (\<lambda>e. Inr (candidate, e)))))))
       (\<lambda>(candidate, e). commit save candidate e) s"

definition system :: "'s save \<Rightarrow> jvalue \<Rightarrow> 's store \<Rightarrow> ('s, unit) outcome" where
  "system save v s =
     prepare (if as_object v = None then Inl (Invalid ''system settings must be an object'')
       else bindR (doc_set (config s) ''system'' v) (\<lambda>candidate.
         bindR (new_event s ''system'' ''system.update'' ''system'') (\<lambda>e. Inr (candidate, e))))
       (\<lambda>(candidate, e) s. after (commit save candidate e s) (\<lambda>s.
          (Inr (), if statistics_enabled s then s
                   else s\<lparr>statistics := stats_default, statistics_fault := None, statistics_reported := False\<rparr>))) s"

definition flow_result :: "'s save \<Rightarrow> string \<Rightarrow> string \<Rightarrow> string \<Rightarrow> string \<Rightarrow> 's store \<Rightarrow> ('s, unit) outcome" where
  "flow_result save i ran_at failure now s =
     prepare (doc_record (config s) ''flows'' i) (\<lambda>previous s.
       if time_is_before ran_at (j_text previous ''lastRunAt'') then (Inr (), s)
       else prepare (
         bindR (j_set previous ''lastRunAt'' (String ran_at)) (\<lambda>r1.
         bindR (j_set r1 ''updatedAt'' (String now)) (\<lambda>r2.
         bindR (j_set r2 ''lastError'' (String failure)) (\<lambda>r3.
         bindR (bump_revision (Some r3) r3) (\<lambda>r4.
         bindR (replace_record (config s) ''flows'' r4) (\<lambda>candidate.
         bindR (new_event s ''flow'' ''flow.run'' i) (\<lambda>e. Inr (candidate, e))))))))
         (\<lambda>(candidate, e). commit save candidate e) s) s"

end
