(* ===== verification/StoreLive.thy ===== *)
theory StoreLive
  imports StoreOps
begin

text \<open>
  The volatile side of the store: device reports and the snapshot of a device
  (\<^verbatim>\<open>crates/core/src/store.rs\<close>), the state of scenes (\<^verbatim>\<open>store/scenes.rs\<close>), the queue of flow triggers
  (\<^verbatim>\<open>store/triggers.rs\<close>) and the order of devices in a group (\<^verbatim>\<open>store/groups.rs\<close>).
\<close>

section \<open>Device reports\<close>

definition find_live :: "'s store \<Rightarrow> string \<Rightarrow> observation option" where
  "find_live s i = find (\<lambda>ob. ob_id ob = i) (live s)"

text \<open>The change cursor of every capability: kept while its value stays equal, else the new sequence.\<close>

definition kept_revisions :: "observation \<Rightarrow> jvalue \<Rightarrow> u64 \<Rightarrow> object" where
  "kept_revisions old state n =
     (case as_object (ob_revisions old) of
        None \<Rightarrow> []
      | Some ps \<Rightarrow> map (\<lambda>(cap, rev). (cap,
          if j_equal (j_field (ob_state old) cap) (j_field state cap) then rev else uint_value n)) ps)"

definition new_revisions :: "observation option \<Rightarrow> jvalue \<Rightarrow> u64 \<Rightarrow> object" where
  "new_revisions previous state n =
     (case as_object state of
        None \<Rightarrow> []
      | Some ps \<Rightarrow> map (\<lambda>(cap, _). (cap, uint_value n))
          (filter (\<lambda>(cap, _). case previous of None \<Rightarrow> True | Some old \<Rightarrow> j_get (ob_revisions old) cap = None) ps))"

definition observe_prepare ::
  "'s store \<Rightarrow> string \<Rightarrow> string \<Rightarrow> jvalue \<Rightarrow> bool \<Rightarrow> string
     \<Rightarrow> (observation list \<times> string \<times> jvalue list \<times> jvalue list \<times> event) result" where
  "observe_prepare s app i state available message =
     bindR (doc_record (config s) ''devices'' i) (\<lambda>record.
     if j_text record ''appId'' \<noteq> app then Inl (Invalid ''device belongs to another app'')
     else if as_object state = None then Inl (Invalid ''device state must be an object'')
     else let previous = find_live s i in
     bindR (case previous of None \<Rightarrow> Inr [] | Some old \<Rightarrow> trips (config s) i (ob_state old) state) (\<lambda>tr.
     if 256 - length (scene_trips s) < length tr then Inl Full
     else bindR (case previous of None \<Rightarrow> Inr [] | Some old \<Rightarrow> changes record (ob_state old) state) (\<lambda>ch.
     if MAX_TRIGGERS - length (triggers s) < length ch then Inl Full
     else bindR (ok_or (checked_add (sequence s) 1) Full) (\<lambda>n.
     let next = \<lparr>ob_id = i, ob_state = state,
                 ob_revisions = Object ((case previous of None \<Rightarrow> [] | Some old \<Rightarrow> kept_revisions old state n)
                                        @ new_revisions previous state n),
                 ob_available = available, ob_message = message\<rparr> in
     bindR (new_event s ''devices'' ''device.update'' i) (\<lambda>e.
     bindR (if previous \<noteq> None then Inr (update_first (\<lambda>ob. ob_id ob = i) (\<lambda>_. next) (live s))
            else j_push (live s) next MAX_RECORDS) (\<lambda>lv.
       Inr (lv, j_text record ''name'', ch, tr, e)))))))"

definition observe :: "string \<Rightarrow> string \<Rightarrow> jvalue \<Rightarrow> bool \<Rightarrow> string \<Rightarrow> 's store \<Rightarrow> ('s, unit) outcome" where
  "observe app i state available message s =
     prepare (observe_prepare s app i state available message) (\<lambda>(lv, name, ch, tr, e) s.
       let s1 = collect i name state (s\<lparr>live := lv\<rparr>)
       in (Inr (), publish e (s1\<lparr>triggers := triggers s1 @ ch, scene_trips := scene_trips s1 @ tr\<rparr>))) s"

definition take_scene_trip :: "'s store \<Rightarrow> jvalue option \<times> 's store" where
  "take_scene_trip s = (case scene_trips s of
     [] \<Rightarrow> (None, s) | ts \<Rightarrow> (Some (last ts), s\<lparr>scene_trips := butlast ts\<rparr>))"

definition capability_revision :: "'s store \<Rightarrow> string \<Rightarrow> string \<Rightarrow> u64" where
  "capability_revision s i cap =
     (case find_live s i of
        Some ob \<Rightarrow> j_uint (ob_revisions ob) cap
      | None \<Rightarrow> (case Option.bind (strip_prefix i ''scene:'') (find_record (config s) ''scenes'') of
          None \<Rightarrow> 0 | Some sc \<Rightarrow> j_uint sc ''revision''))"

definition scene_of_device :: "'s store \<Rightarrow> string \<Rightarrow> jvalue \<Rightarrow> jvalue option" where
  "scene_of_device s i out =
     (if j_text out ''appId'' = APP_ID
      then Option.bind (strip_prefix i ''scene:'') (find_record (config s) ''scenes'') else None)"

definition device_state :: "jvalue option \<Rightarrow> observation option \<Rightarrow> jvalue" where
  "device_state scene ob =
     (case scene of
        Some sc \<Rightarrow>
          if j_text sc ''kind'' \<noteq> ''button'' then j_fields [(''onoff'', Bool (j_boolean sc ''active''))]
          else (case ob of Some x \<Rightarrow> ob_state x | None \<Rightarrow> j_object)
      | None \<Rightarrow> (case ob of Some x \<Rightarrow> ob_state x | None \<Rightarrow> j_object))"

definition with_cache :: "'s store \<Rightarrow> string \<Rightarrow> jvalue \<Rightarrow> jvalue result" where
  "with_cache s i out =
     (case find (\<lambda>(k, _). k = i) (caches s) of
        None \<Rightarrow> Inr out
      | Some (_, cache) \<Rightarrow>
          bindR (case as_object cache of
                   None \<Rightarrow> Inr (case j_get out ''store'' of None \<Rightarrow> j_object | Some v \<Rightarrow> v)
                 | Some ps \<Rightarrow> foldR (\<lambda>(k, v) st. j_set st k v) ps
                     (case j_get out ''store'' of None \<Rightarrow> j_object | Some v \<Rightarrow> v)) (\<lambda>st.
            j_set out ''store'' st))"

definition device :: "'s store \<Rightarrow> string \<Rightarrow> jvalue result" where
  "device s i =
     bindR (doc_record (config s) ''devices'' i) (\<lambda>out0.
     bindR (with_cache s i out0) (\<lambda>out1.
     let ob = find_live s i; scene = scene_of_device s i out1 in
     bindR (j_set out1 ''state'' (device_state scene ob)) (\<lambda>out2.
     bindR (j_set out2 ''available''
              (Bool (scene \<noteq> None \<or> (case ob of None \<Rightarrow> False | Some x \<Rightarrow> ob_available x)))) (\<lambda>out3.
     j_set out3 ''unavailableMessage'' (String (case ob of None \<Rightarrow> [] | Some x \<Rightarrow> ob_message x))))))"

section \<open>Flow triggers\<close>

definition trigger_event :: "'s store \<Rightarrow> string \<Rightarrow> jvalue \<Rightarrow> jvalue result" where
  "trigger_event s app params =
     bindR (doc_record (config s) ''apps'' app) (\<lambda>record.
     if \<not> j_boolean record ''enabled'' then Inl (Invalid ''app is disabled'')
     else let i = j_text params ''id''; k = j_text params ''kind'' in
     if i = [] \<or> 256 < length i \<or> k \<noteq> ''trigger'' then Inl (Invalid ''invalid flow trigger'')
     else let state = j_field params ''state''; tokens = j_field params ''tokens'' in
     if (\<not> is_null state \<and> as_object state = None) \<or> (\<not> is_null tokens \<and> as_object tokens = None)
     then Inl (Invalid ''flow context must be an object'')
     else let dev = j_text state ''deviceId'' in
     bindR (if dev = [] then Inr ()
            else bindR (doc_record (config s) ''devices'' dev) (\<lambda>r.
              if j_text r ''appId'' \<noteq> app then Inl (Invalid ''trigger device belongs to another app'') else Inr ())) (\<lambda>_.
       Inr (j_fields [(''appId'', String (if j_boolean params ''system'' then ''stulp'' else app)),
         (''kind'', String k), (''id'', String i), (''tokens'', tokens), (''state'', state)])))"

definition trigger :: "string \<Rightarrow> jvalue \<Rightarrow> 's store \<Rightarrow> ('s, unit) outcome" where
  "trigger app params s =
     prepare (bindR (trigger_event s app params) (\<lambda>v. j_push (triggers s) v MAX_TRIGGERS))
       (\<lambda>ts s. (Inr (), s\<lparr>triggers := ts\<rparr>)) s"

definition take_trigger :: "'s store \<Rightarrow> jvalue option \<times> 's store" where
  "take_trigger s = (case triggers s of [] \<Rightarrow> (None, s) | t # ts \<Rightarrow> (Some t, s\<lparr>triggers := ts\<rparr>))"

section \<open>The state of a scene\<close>

definition scene_onoff :: "jvalue \<Rightarrow> jvalue" where
  "scene_onoff scene = j_fields [(''onoff'', Bool (j_boolean scene ''active''))]"

text \<open>
  \<open>commit_scene_state\<close>: the scene with a new revision is committed, then its device is announced. The
  sequence is checked for both events before anything is written.
\<close>

definition scene_state_prepare :: "'s store \<Rightarrow> string \<Rightarrow> jvalue \<Rightarrow> (document \<times> event \<times> jvalue \<times> jvalue \<times> jvalue list) result" where
  "scene_state_prepare s i scene0 =
     bindR (bump_revision (Some scene0) scene0) (\<lambda>scene.
     bindR (device s (device_id i)) (\<lambda>dev.
     bindR (doc_record (config s) ''scenes'' i) (\<lambda>previous.
     let new = scene_onoff scene in
     bindR (changes dev (scene_onoff previous) new) (\<lambda>ch.
     if MAX_TRIGGERS - length (triggers s) < length ch then Inl Full
     else bindR (ok_or (checked_add (sequence s) 2) Full) (\<lambda>_.
     bindR (replace_record (config s) ''scenes'' scene) (\<lambda>candidate.
     bindR (new_event s ''scene'' ''scene.state'' i) (\<lambda>e. Inr (candidate, e, dev, new, ch))))))))"

definition commit_scene_state :: "'s save \<Rightarrow> string \<Rightarrow> jvalue \<Rightarrow> 's store \<Rightarrow> ('s, unit) outcome" where
  "commit_scene_state save i scene s =
     prepare (scene_state_prepare s i scene) (\<lambda>(candidate, e, dev, new, ch) s.
       after (commit save candidate e s) (\<lambda>s.
         prepare (new_event s ''devices'' ''device.update'' (device_id i)) (\<lambda>e2 s.
           let s1 = collect (j_text dev ''id'') (j_text dev ''name'') new (publish e2 s)
           in (Inr (), s1\<lparr>triggers := triggers s1 @ ch\<rparr>)) s)) s"

definition begin_scene :: "'s save \<Rightarrow> string \<Rightarrow> jvalue list \<Rightarrow> 's store \<Rightarrow> ('s, bool) outcome" where
  "begin_scene save i previous s =
     prepare (doc_record (config s) ''scenes'' i) (\<lambda>scene s.
       if j_text scene ''kind'' = ''button'' then (Inl (Invalid ''button scene has no restore state''), s)
       else if j_boolean scene ''active'' then (Inr False, s)
       else prepare (bindR (validate_states previous) (\<lambda>_.
              bindR (j_set scene ''previous'' (Array previous)) (\<lambda>sc. j_set sc ''active'' (Bool True))))
              (\<lambda>sc s. after (commit_scene_state save i sc s) (\<lambda>s. (Inr True, s))) s) s"

definition scene_remaining :: "'s save \<Rightarrow> string \<Rightarrow> jvalue list \<Rightarrow> 's store \<Rightarrow> ('s, unit) outcome" where
  "scene_remaining save i remaining s =
     prepare (bindR (validate_states remaining) (\<lambda>_.
       bindR (doc_record (config s) ''scenes'' i) (\<lambda>scene.
       if j_text scene ''kind'' = ''button'' then Inl (Invalid ''button scene has no restore state'')
       else bindR (j_set scene ''active'' (Bool (remaining \<noteq> []))) (\<lambda>sc.
         j_set sc ''previous'' (Array remaining)))))
       (commit_scene_state save i) s"

section \<open>The order of devices\<close>

definition check_member :: "'s store \<Rightarrow> string \<Rightarrow> string list \<Rightarrow> nat \<Rightarrow> unit \<Rightarrow> unit result" where
  "check_member s grp ids k _ =
     (if any_earlier (=) ids k then Inl (Invalid ''device is not a unique group member'')
      else bindR (doc_record (config s) ''devices'' (ids ! k)) (\<lambda>r.
        if j_text r ''groupId'' \<noteq> grp then Inl (Invalid ''device is not a unique group member'') else Inr ()))"

definition place_device :: "string list \<Rightarrow> jvalue \<Rightarrow> jvalue result" where
  "place_device ids dev =
     (case position (\<lambda>i. i = j_text dev ''id'') ids of
        None \<Rightarrow> Inr dev
      | Some k \<Rightarrow> j_set dev ''sortOrder'' (uint_value (word_of_nat ((k + 1) * 10))))"

definition reorder_devices :: "'s save \<Rightarrow> string \<Rightarrow> string list \<Rightarrow> 's store \<Rightarrow> ('s, unit) outcome" where
  "reorder_devices save grp ids s =
     prepare (let d = config s in
       bindR (if grp \<noteq> [] then bindR (doc_record d ''deviceGroups'' grp) (\<lambda>_. Inr ()) else Inr ()) (\<lambda>_.
       if length (filter (\<lambda>r. j_text r ''groupId'' = grp) (doc_records d ''devices'')) \<noteq> length ids then Inl Changed
       else bindR (foldR (check_member s grp ids) [0..<length ids] ()) (\<lambda>_.
       bindR (collectR MAX_RECORDS (place_device ids) (doc_records d ''devices'')) (\<lambda>records.
       bindR (doc_replace d ''devices'' records) (\<lambda>candidate.
       bindR (new_event s ''devices'' ''device.reorder'' grp) (\<lambda>e. Inr (candidate, e)))))))
       (\<lambda>(candidate, e). commit save candidate e) s"

end
