(* ===== verification/StoreMedia.thy ===== *)
theory StoreMedia
  imports StoreLive
begin

text \<open>
  Media of devices (\<^verbatim>\<open>crates/core/src/store/media.rs\<close>): the slots an app declares for its own devices,
  and the temporary tickets that stand for a still image. A ticket keeps only where the image comes
  from; whether the source is still declared and its app running is checked at every use.
\<close>

section \<open>Declaring slots\<close>

definition media_label :: "jvalue \<Rightarrow> string \<Rightarrow> jvalue \<Rightarrow> jvalue result" where
  "media_label item key public =
     bindR (case j_get item key of
              None \<Rightarrow> Inr []
            | Some v \<Rightarrow> if is_null v then Inr [] else ok_or (as_str v) (Invalid ''media label must be a string'')) (\<lambda>label.
       if 512 < length label then Inl Full else j_set public key (String label))"

definition media_options :: "jvalue \<Rightarrow> jvalue \<Rightarrow> jvalue result" where
  "media_options item public =
     (case j_get item ''options'' of
        None \<Rightarrow> Inr public
      | Some v \<Rightarrow>
          if is_null v then Inr public
          else if as_object v = None then Inl (Invalid ''media options must be an object'')
          else j_set public ''options'' v)"

definition media_slot :: "string \<Rightarrow> jvalue \<Rightarrow> jvalue list \<Rightarrow> jvalue list result" where
  "media_slot i item slots =
     (let name = j_text item ''slot''; k = j_text item ''kind'' in
      if name = [] \<or> 128 < length name \<or> CHR ''/'' \<in> set name \<or> k \<notin> {''video'', ''image''}
      then Inl (Invalid ''invalid media slot'')
      else if list_ex (\<lambda>v. j_text v ''slot'' = name \<and> j_text v ''kind'' = k) slots
      then Inl (Conflict ''duplicate media slot'')
      else bindR (foldR (media_label item) [''title'', ''resourceId'']
                   (j_fields [(''deviceId'', String i), (''slot'', String name), (''kind'', String k)])) (\<lambda>p1.
           bindR (media_options item p1) (\<lambda>p2. j_push slots p2 16)))"

definition register_media :: "string \<Rightarrow> jvalue \<Rightarrow> 's store \<Rightarrow> ('s, unit) outcome" where
  "register_media app params s =
     prepare (let i = j_text params ''deviceId'' in
       bindR (doc_record (config s) ''devices'' i) (\<lambda>record.
       if j_text record ''appId'' \<noteq> app then Inl (Invalid ''media device belongs to another app'')
       else if (case j_get params ''media'' of None \<Rightarrow> False | Some v \<Rightarrow> \<not> is_null v \<and> as_array v = None)
       then Inl (Invalid ''media must be an array'')
       else bindR (foldR (media_slot i) (j_array params ''media'') []) (\<lambda>slots.
         if list_ex (\<lambda>(k, _). k = i) (media s)
         then Inr (update_first (\<lambda>(k, _). k = i) (\<lambda>(k, _). (k, Array slots)) (media s))
         else j_push (media s) (i, Array slots) MAX_RECORDS)))
       (\<lambda>m s. (Inr (), s\<lparr>media := m\<rparr>)) s"

definition device_media :: "'s store \<Rightarrow> string \<Rightarrow> jvalue result" where
  "device_media s i =
     bindR (doc_record (config s) ''devices'' i) (\<lambda>d.
       if app_status s (j_text d ''appId'') \<noteq> ''running'' then Inr (Array [])
       else Inr (case find (\<lambda>(k, _). k = i) (media s) of None \<Rightarrow> Array [] | Some (_, v) \<Rightarrow> v))"

text \<open>\<open>as_array().unwrap_or(&[])\<close>.\<close>

definition array_or_empty :: "jvalue \<Rightarrow> jvalue list" where
  "array_or_empty v = (case as_array v of None \<Rightarrow> [] | Some vs \<Rightarrow> vs)"

definition image_entry :: "jvalue \<Rightarrow> jvalue \<Rightarrow> jvalue" where
  "image_entry d m =
     (let name = j_text d ''name''; title = j_text m ''title'' in
      j_fields [(''deviceId'', String (j_text d ''id'')), (''deviceName'', String name),
        (''slot'', String (j_text m ''slot'')), (''title'', String (if title = [] then name else title))])"

definition image_source_device :: "'s store \<Rightarrow> jvalue \<Rightarrow> jvalue list \<Rightarrow> jvalue list result" where
  "image_source_device s d images0 =
     bindR (device_media s (j_text d ''id'')) (\<lambda>m.
       foldR (\<lambda>v acc. j_push acc (image_entry d v) 4096)
         (filter (\<lambda>v. j_text v ''kind'' = ''image'') (array_or_empty m)) images0)"

definition image_sources :: "'s store \<Rightarrow> jvalue result" where
  "image_sources s = bindR (foldR (image_source_device s) (doc_records (config s) ''devices'') []) (\<lambda>vs. Inr (Array vs))"

section \<open>Tickets\<close>

definition ticket_char :: "char \<Rightarrow> bool" where
  "ticket_char c \<longleftrightarrow> (let b = of_char c :: nat in
     (48 \<le> b \<and> b \<le> 57) \<or> (65 \<le> b \<and> b \<le> 90) \<or> (97 \<le> b \<and> b \<le> 122) \<or> b = 45 \<or> b = 95)"

definition keep_tickets :: "u64 \<Rightarrow> shared_image list \<Rightarrow> shared_image list" where
  "keep_tickets now ts =
     (let fresh = filter (\<lambda>t. now < img_expires t) ts in if length fresh = 8 then tl fresh else fresh)"

definition share_image :: "string \<Rightarrow> string \<Rightarrow> string \<Rightarrow> u64 \<Rightarrow> 's store \<Rightarrow> ('s, jvalue) outcome" where
  "share_image i dev sl now s =
     prepare (if length i < 32 \<or> \<not> list_all ticket_char i \<or> list_ex (\<lambda>t. img_id t = i) (images s)
       then Inl (Invalid ''invalid image ticket'')
       else bindR (device_media s dev) (\<lambda>m.
         ok_or (Option.bind (as_array m)
             (find (\<lambda>v. j_text v ''kind'' = ''image'' \<and> (sl = [] \<or> j_text v ''slot'' = sl))))
           (Missing ''device has no image slot'')))
       (\<lambda>source s.
          (Inr (j_fields [(''url'', String (''/image/'' @ i))]),
           s\<lparr>images := keep_tickets now (images s)
               @ [\<lparr>img_id = i, img_device = dev, img_slot = j_text source ''slot'',
                    img_expires = saturating_add now 900000\<rparr>]\<rparr>)) s"

definition image_source :: "'s store \<Rightarrow> string \<Rightarrow> u64 \<Rightarrow> (string \<times> jvalue) result" where
  "image_source s i now =
     bindR (ok_or (find (\<lambda>t. img_id t = i \<and> now < img_expires t) (images s)) (Missing ''image does not exist'')) (\<lambda>t.
     bindR (doc_record (config s) ''devices'' (img_device t)) (\<lambda>d.
     bindR (device_media s (img_device t)) (\<lambda>m.
       if \<not> list_ex (\<lambda>v. j_text v ''slot'' = img_slot t \<and> j_text v ''kind'' = ''image'') (array_or_empty m)
       then Inl (Missing ''image source unavailable'')
       else Inr (j_text d ''appId'',
         j_fields [(''deviceId'', String (img_device t)), (''slot'', String (img_slot t)), (''kind'', String ''image'')]))))"

end
