(* ===== verification/StoreReferences.thy ===== *)
theory StoreReferences
  imports StoreLive
begin

text \<open>
  Rewriting the references of flows and scenes when an app replaces its devices
  (\<^verbatim>\<open>crates/core/src/store/references.rs\<close>), and merging several devices into one
  (\<^verbatim>\<open>crates/core/src/store/consolidation.rs\<close>).
\<close>

section \<open>Rewriting values\<close>

definition MAX_DOCUMENT :: nat where "MAX_DOCUMENT = MAX_INPUT"

function (sequential) ref_replace :: "jvalue \<Rightarrow> string \<Rightarrow> string \<Rightarrow> nat \<Rightarrow> jvalue result"
and ref_replace_fields :: "object \<Rightarrow> string \<Rightarrow> string \<Rightarrow> nat \<Rightarrow> object \<Rightarrow> object result"
and ref_replace_items :: "jvalue list \<Rightarrow> string \<Rightarrow> string \<Rightarrow> nat \<Rightarrow> jvalue list \<Rightarrow> jvalue list result" where
  "ref_replace (String t) old new depth =
     (if 64 < depth then Inl Full else Inr (String (if t = old then new else t)))"
| "ref_replace (Object ps) old new depth =
     (if 64 < depth then Inl Full
      else bindR (ref_replace_fields ps old new (depth + 1) []) (\<lambda>out. Inr (Object out)))"
| "ref_replace (Array vs) old new depth =
     (if 64 < depth then Inl Full
      else bindR (ref_replace_items vs old new (depth + 1) []) (\<lambda>out. Inr (Array out)))"
| "ref_replace v old new depth = (if 64 < depth then Inl Full else Inr v)"
| "ref_replace_fields [] old new depth out = Inr out"
| "ref_replace_fields ((k, v) # ps) old new depth out =
     bindR (ref_replace v old new depth) (\<lambda>w. ref_replace_fields ps old new depth (obj_push out k w))"
| "ref_replace_items [] old new depth out = Inr out"
| "ref_replace_items (v # vs) old new depth out =
     bindR (ref_replace v old new depth) (\<lambda>w. bindR (j_push out w MAX_DOCUMENT) (ref_replace_items vs old new depth))"
  by pat_completeness auto
termination
  by (relation "measure (\<lambda>x. case x of
       Inl (v, _) \<Rightarrow> size v
     | Inr (Inl (ps, _)) \<Rightarrow> size_list (size_prod (\<lambda>_. 0) size) ps
     | Inr (Inr (vs, _)) \<Rightarrow> size_list size vs)") auto

definition step_device :: "object \<Rightarrow> string" where
  "step_device args =
     (case find (\<lambda>(_, v). j_text v ''$device'' \<noteq> []) args of None \<Rightarrow> [] | Some (_, v) \<Rightarrow> j_text v ''$device'')"

definition step_field :: "jvalue \<Rightarrow> string \<Rightarrow> string \<Rightarrow> string \<Rightarrow> jvalue \<Rightarrow> jvalue result" where
  "step_field original old new key out =
     (case j_get original key of
        None \<Rightarrow> Inr out
      | Some v \<Rightarrow> bindR (ref_replace v old new 0) (j_set out key))"

definition capability_card :: "string \<Rightarrow> (string \<times> string) option" where
  "capability_card i = Option.bind (strip_prefix i ''capability.'') (\<lambda>t. rsplit_once t (CHR ''.''))"

definition ref_step :: "jvalue \<Rightarrow> jvalue \<Rightarrow> jvalue result" where
  "ref_step original replacements =
     (case as_object (j_field original ''args'') of
        None \<Rightarrow> Inr original
      | Some args0 \<Rightarrow>
          let old = step_device args0 in
          (case j_get replacements old of
             None \<Rightarrow> Inr original
           | Some replacement \<Rightarrow>
               let new = j_text replacement ''deviceId''; caps = j_field replacement ''capabilities'' in
               bindR (foldR (step_field original old new) [''args'', ''state''] original) (\<lambda>out.
               let args = j_field out ''args''; renamed = j_text caps (j_text args ''capability'') in
               bindR (if renamed \<noteq> [] then j_set args ''capability'' (String renamed) else Inr args) (\<lambda>args1.
               bindR (j_set out ''args'' args1) (\<lambda>out1.
               case capability_card (j_text original ''cardId'') of
                 None \<Rightarrow> Inr out1
               | Some (cap, action) \<Rightarrow>
                   let to = j_text caps cap in
                   if to \<noteq> [] \<and> to \<noteq> cap
                   then j_set out1 ''cardId'' (String (''capability.'' @ to @ ''.'' @ action))
                   else Inr out1)))))"

definition ref_node :: "jvalue \<Rightarrow> jvalue \<Rightarrow> jvalue result" where
  "ref_node replacements node = bindR (ref_step (j_field node ''step'') replacements) (j_set node ''step'')"

definition ref_flow :: "jvalue \<Rightarrow> jvalue \<Rightarrow> jvalue result" where
  "ref_flow original replacements =
     bindR (collectR MAX_NODES (ref_node replacements) (j_array original ''nodes'')) (\<lambda>nodes.
       j_set original ''nodes'' (Array nodes))"

definition ref_state :: "jvalue \<Rightarrow> jvalue \<Rightarrow> jvalue result" where
  "ref_state replacements state =
     (case j_get replacements (j_text state ''deviceId'') of
        None \<Rightarrow> Inr state
      | Some replacement \<Rightarrow>
          let cap = j_text (j_field replacement ''capabilities'') (j_text state ''capabilityId'') in
          bindR (if cap \<noteq> [] then j_set state ''capabilityId'' (String cap) else Inr state) (\<lambda>state1.
            j_set state1 ''deviceId'' (String (j_text replacement ''deviceId''))))"

definition ref_states :: "jvalue \<Rightarrow> jvalue \<Rightarrow> string \<Rightarrow> jvalue \<Rightarrow> jvalue result" where
  "ref_states original replacements key out =
     (if j_get original key = None then Inr out
      else bindR (collectR 256 (ref_state replacements) (j_array original key)) (\<lambda>states.
           bindR (validate_states states) (\<lambda>_. j_set out key (Array states))))"

definition ref_scene :: "jvalue \<Rightarrow> jvalue \<Rightarrow> jvalue result" where
  "ref_scene original replacements = foldR (ref_states original replacements) [''states'', ''previous''] original"

section \<open>Rewriting a document\<close>

definition check_owner :: "'s store \<Rightarrow> string \<Rightarrow> string \<Rightarrow> unit \<Rightarrow> unit result" where
  "check_owner s app i _ =
     bindR (doc_record (config s) ''devices'' i) (\<lambda>r.
       if j_text r ''appId'' \<noteq> app then Inl (Invalid ''replacement device belongs to another app'') else Inr ())"

definition check_replacement :: "'s store \<Rightarrow> string \<Rightarrow> string \<times> jvalue \<Rightarrow> unit \<Rightarrow> unit result" where
  "check_replacement s app = (\<lambda>(old, r) _.
     let new = j_text r ''deviceId'' in
     if new = [] then Inl (Invalid ''replacement device id missing'')
     else bindR (foldR (check_owner s app) [old, new] ()) (\<lambda>_.
       case j_get r ''capabilities'' of
         None \<Rightarrow> Inr ()
       | Some v \<Rightarrow>
           if is_null v then Inr ()
           else bindR (ok_or (as_object v) (Invalid ''replacement capabilities must be an object'')) (\<lambda>caps.
             if list_ex (\<lambda>(k, w). k = [] \<or> (case as_str w of None \<Rightarrow> True | Some t \<Rightarrow> t = [])) caps
             then Inl (Invalid ''invalid capability replacement'') else Inr ())))"

definition validate_replacements :: "'s store \<Rightarrow> string \<Rightarrow> jvalue \<Rightarrow> unit result" where
  "validate_replacements s app replacements =
     bindR (ok_or (as_object replacements) (Invalid ''replacements must be an object'')) (\<lambda>entries.
       if MAX_RECORDS < length entries then Inl Full
       else foldR (check_replacement s app) entries ())"

definition queue_event ::
  "'s store \<Rightarrow> string \<Rightarrow> string \<Rightarrow> string \<Rightarrow> event list \<times> u64 \<Rightarrow> (event list \<times> u64) result" where
  "queue_event s manager k i = (\<lambda>(evs, n).
     bindR (new_event s manager k i) (\<lambda>e.
     bindR (ok_or (checked_add n 1) Full) (\<lambda>n1.
     bindR (j_push evs (e\<lparr>ev_sequence := n1\<rparr>) (MAX_RECORDS * 4)) (\<lambda>evs1. Inr (evs1, n1)))))"

definition rewrite_changed ::
  "'s store \<Rightarrow> string \<Rightarrow> string \<Rightarrow> string \<Rightarrow> string \<Rightarrow> jvalue \<Rightarrow> jvalue \<Rightarrow> event list \<times> u64 \<Rightarrow> (jvalue \<times> event list \<times> u64) result" where
  "rewrite_changed s c manager k now old next q =
     bindR (if c = ''flows'' then flow_validate next else Inr ()) (\<lambda>_.
     bindR (bump_revision (Some old) next) (\<lambda>next1.
     bindR (j_set next1 ''updatedAt'' (String now)) (\<lambda>next2.
     bindR (queue_event s manager k (j_text old ''id'') q) (\<lambda>q1.
     bindR (if c = ''scenes'' then queue_event s ''devices'' ''device.update'' (device_id (j_text old ''id'')) q1
            else Inr q1) (\<lambda>q2.
       Inr (next2, q2))))))"

definition rewrite_record ::
  "'s store \<Rightarrow> string \<Rightarrow> string \<Rightarrow> string \<Rightarrow> jvalue \<Rightarrow> string \<Rightarrow> jvalue
     \<Rightarrow> jvalue list \<times> event list \<times> u64 \<Rightarrow> (jvalue list \<times> event list \<times> u64) result" where
  "rewrite_record s c manager k replacements now old = (\<lambda>(records, q).
     bindR (if c = ''flows'' then ref_flow old replacements else ref_scene old replacements) (\<lambda>next.
     bindR (if j_equal old next then Inr (next, q) else rewrite_changed s c manager k now old next q) (\<lambda>(next1, q1).
     bindR (j_push records next1 MAX_RECORDS) (\<lambda>records1. Inr (records1, q1)))))"

definition REWRITTEN :: "(string \<times> string \<times> string) list" where
  "REWRITTEN = [(''flows'', ''flow'', ''flow.update''), (''scenes'', ''scene'', ''scene.update'')]"

definition rewrite_collection ::
  "'s store \<Rightarrow> jvalue \<Rightarrow> string \<Rightarrow> string \<times> string \<times> string
     \<Rightarrow> document \<times> event list \<times> u64 \<Rightarrow> (document \<times> event list \<times> u64) result" where
  "rewrite_collection s replacements now = (\<lambda>(c, manager, k) (candidate, q).
     bindR (foldR (rewrite_record s c manager k replacements now) (doc_records (config s) c) ([], q)) (\<lambda>(records, q1).
     bindR (doc_replace candidate c records) (\<lambda>candidate1. Inr (candidate1, q1))))"

definition rewrite_references ::
  "'s store \<Rightarrow> document \<Rightarrow> jvalue \<Rightarrow> string \<Rightarrow> event list \<Rightarrow> u64 \<Rightarrow> (document \<times> event list \<times> u64) result" where
  "rewrite_references s candidate replacements now evs n =
     foldR (rewrite_collection s replacements now) REWRITTEN (candidate, evs, n)"

definition publish_all :: "event list \<Rightarrow> 's store \<Rightarrow> 's store" where
  "publish_all evs s = foldl (\<lambda>s e. publish e s) s evs"

definition replace_references :: "'s save \<Rightarrow> string \<Rightarrow> jvalue \<Rightarrow> string \<Rightarrow> 's store \<Rightarrow> ('s, unit) outcome" where
  "replace_references save app replacements now s =
     prepare (validate_replacements s app replacements) (\<lambda>_ s.
       if as_object replacements = Some [] then (Inr (), s)
       else prepare (rewrite_references s (config s) replacements now [] (sequence s)) (\<lambda>(candidate, evs, _) s.
         if evs = [] then (Inr (), s)
         else prepare (bindR (reconcile candidate) (\<lambda>d. bindR (doc_encode d) (\<lambda>encoded. Inr (d, encoded)))) (\<lambda>(d, encoded) s.
           case save (storage s) encoded of
             (Inl x, st) \<Rightarrow> (Inl x, s\<lparr>storage := st\<rparr>)
           | (Inr _, st) \<Rightarrow> (Inr (), publish_all evs (s\<lparr>storage := st, config := d\<rparr>))) s) s) s"

section \<open>Consolidation\<close>

definition con_capability :: "jvalue \<Rightarrow> jvalue \<Rightarrow> string \<Rightarrow> jvalue \<Rightarrow> jvalue result" where
  "con_capability v r key out =
     (case j_get (j_field r ''capabilities'') (j_text v key) of None \<Rightarrow> Inr out | Some cap \<Rightarrow> j_set out key cap)"

definition con_reference :: "jvalue \<Rightarrow> jvalue \<Rightarrow> jvalue result" where
  "con_reference replacements v =
     (case j_get replacements (j_text v ''deviceId'') of
        None \<Rightarrow> Inr v
      | Some r \<Rightarrow> bindR (j_set v ''deviceId'' (j_field r ''deviceId''))
          (foldR (con_capability v r) [''capability'', ''capabilityId'']))"

definition queued_field :: "jvalue \<Rightarrow> jvalue \<Rightarrow> string \<Rightarrow> jvalue \<Rightarrow> jvalue result" where
  "queued_field replacements v key out =
     (case j_get v key of None \<Rightarrow> Inr out | Some w \<Rightarrow> bindR (con_reference replacements w) (j_set out key))"

definition queued_card :: "jvalue \<Rightarrow> jvalue \<Rightarrow> (string \<times> string) option" where
  "queued_card replacements v =
     Option.bind (j_get replacements (j_text (j_field v ''state'') ''deviceId'')) (\<lambda>r.
     Option.bind (capability_card (j_text v ''id'')) (\<lambda>(cap, action).
     Option.bind (Option.bind (j_get (j_field r ''capabilities'') cap) as_str) (\<lambda>new. Some (new, action))))"

definition queued :: "jvalue \<Rightarrow> jvalue \<Rightarrow> jvalue result" where
  "queued replacements v =
     bindR (con_reference replacements v) (\<lambda>out.
     bindR (foldR (queued_field replacements v) [''state'', ''tokens''] out) (\<lambda>out1.
     case queued_card replacements v of
       None \<Rightarrow> Inr out1
     | Some (new, action) \<Rightarrow> j_set out1 ''id'' (String (''capability.'' @ new @ ''.'' @ action))))"

text \<open>Paired identity and the user's name come from the surviving device.\<close>

definition keep_identity :: "jvalue \<Rightarrow> string \<Rightarrow> jvalue \<Rightarrow> jvalue result" where
  "keep_identity previous key merged =
     (case j_get previous key of Some v \<Rightarrow> j_set merged key v | None \<Rightarrow> j_remove merged key)"

text \<open>The routes found so far: taken destinations, state and change cursors of the merged device.\<close>

type_synonym routes = "string list \<times> jvalue \<times> jvalue"

definition carry :: "jvalue option \<Rightarrow> string \<Rightarrow> string \<Rightarrow> jvalue \<Rightarrow> jvalue result" where
  "carry from cap target out =
     (case Option.bind from (\<lambda>v. j_get v cap) of None \<Rightarrow> Inr out | Some v \<Rightarrow> j_set out target v)"

definition add_route :: "observation option \<Rightarrow> jvalue \<Rightarrow> string \<times> jvalue \<Rightarrow> routes \<Rightarrow> routes result" where
  "add_route source merged = (\<lambda>(cap, v) (destinations, state, revisions).
     bindR (ok_or (as_str v) (Invalid ''invalid capability route'')) (\<lambda>target.
     if target = [] \<or> target \<in> set destinations
        \<or> \<not> list_ex (\<lambda>w. as_str w = Some target) (j_array merged ''capabilities'')
     then Inl (Invalid ''invalid consolidation capability route'')
     else bindR (j_push destinations target MAX_RECORDS) (\<lambda>destinations1.
          bindR (carry (map_option ob_state source) cap target state) (\<lambda>state1.
          bindR (carry (map_option ob_revisions source) cap target revisions) (\<lambda>revisions1.
            Inr (destinations1, state1, revisions1))))))"

definition add_source :: "'s store \<Rightarrow> string \<Rightarrow> jvalue \<Rightarrow> jvalue \<Rightarrow> string \<times> jvalue \<Rightarrow> routes \<Rightarrow> routes result" where
  "add_source s i previous merged = (\<lambda>(old, r) found.
     bindR (doc_record (config s) ''devices'' old) (\<lambda>source.
     if j_text r ''deviceId'' \<noteq> i \<or> j_text source ''driverId'' \<noteq> j_text previous ''driverId''
     then Inl (Invalid ''consolidation crosses device identity'')
     else bindR (ok_or (as_object (j_field r ''capabilities'')) (Invalid ''consolidation requires capability routes'')) (\<lambda>caps.
     if list_ex (\<lambda>cap. case as_str cap of None \<Rightarrow> True | Some c \<Rightarrow> obj_get caps c = None) (j_array source ''capabilities'')
     then Inl (Invalid ''consolidation would lose a capability'')
     else foldR (add_route (find_live s old) merged) caps found)))"

definition drop_source :: "'s store \<Rightarrow> string \<Rightarrow> string \<times> jvalue \<Rightarrow> document \<times> event list \<times> u64 \<Rightarrow> (document \<times> event list \<times> u64) result" where
  "drop_source s i = (\<lambda>(old, _) (candidate, evs, n).
     bindR (if old = i then Inr candidate else remove_record candidate ''devices'' old) (\<lambda>candidate1.
     bindR (queue_event s ''devices'' (if old = i then ''device.update'' else ''device.delete'') old (evs, n)) (\<lambda>q.
       Inr (candidate1, q))))"

record consolidated =
  con_observation :: observation
  con_cache :: "(string \<times> jvalue) option"
  con_document :: document
  con_events :: "event list"
  con_triggers :: "jvalue list"
  con_trips :: "jvalue list"
  con_encoded :: string

definition consolidate_prepare :: "'s store \<Rightarrow> string \<Rightarrow> jvalue \<Rightarrow> jvalue \<Rightarrow> string \<Rightarrow> consolidated result" where
  "consolidate_prepare s app merged0 replacements now =
     bindR (validate_replacements s app replacements) (\<lambda>_.
     bindR (ok_or (as_object replacements) (Invalid ''missing replacements'')) (\<lambda>entries.
     let i = j_text merged0 ''id'' in
     if length entries < 2 \<or> j_get replacements i = None
     then Inl (Invalid ''consolidation requires a surviving source device'')
     else bindR (doc_record (config s) ''devices'' i) (\<lambda>previous.
     bindR (foldR (keep_identity previous) [''appId'', ''driverId'', ''data'', ''name'', ''createdAt''] merged0) (\<lambda>merged1.
     bindR (foldR (add_source s i previous merged1) entries ([], j_object, j_object)) (\<lambda>(destinations, state, revisions).
     if length destinations \<noteq> length (j_array merged1 ''capabilities'')
     then Inl (Invalid ''consolidation introduced an unmapped capability'')
     else bindR (prepare_cache s i merged1) (\<lambda>cache.
     bindR (normalize_device (config s) merged1 (Some previous)) (\<lambda>merged2.
     bindR (j_set merged2 ''updatedAt'' (String now)) (\<lambda>merged3.
     bindR (replace_record (config s) ''devices'' merged3) (\<lambda>d1.
     bindR (rewrite_references s d1 replacements now [] (sequence s)) (\<lambda>q.
     bindR (foldR (drop_source s i) entries q) (\<lambda>(d2, evs, _).
     bindR (reconcile d2) (\<lambda>d3.
     bindR (collectR MAX_TRIGGERS (queued replacements) (triggers s)) (\<lambda>ts.
     bindR (collectR 256 (con_reference replacements) (scene_trips s)) (\<lambda>trs.
     bindR (doc_encode d3) (\<lambda>encoded.
       Inr \<lparr>con_observation = \<lparr>ob_id = i, ob_state = state, ob_revisions = revisions,
              ob_available = j_boolean merged1 ''available'', ob_message = j_text merged1 ''unavailableMessage''\<rparr>,
            con_cache = cache, con_document = d3, con_events = evs, con_triggers = ts, con_trips = trs,
            con_encoded = encoded\<rparr>)))))))))))))))"

definition route_runtime :: "jvalue \<Rightarrow> consolidated \<Rightarrow> 's store \<Rightarrow> 's store" where
  "route_runtime replacements c s =
     s\<lparr>live := filter (\<lambda>ob. j_get replacements (ob_id ob) = None) (live s) @ [con_observation c],
       caches := filter (\<lambda>(k, _). j_get replacements k = None) (caches s)
                 @ (case con_cache c of None \<Rightarrow> [] | Some x \<Rightarrow> [x]),
       media := filter (\<lambda>(k, _). j_get replacements k = None) (media s),
       triggers := con_triggers c, scene_trips := con_trips c\<rparr>"

definition consolidate_devices ::
  "'s save \<Rightarrow> string \<Rightarrow> jvalue \<Rightarrow> jvalue \<Rightarrow> string \<Rightarrow> 's store \<Rightarrow> ('s, unit) outcome" where
  "consolidate_devices save app merged replacements now s =
     prepare (consolidate_prepare s app merged replacements now) (\<lambda>c s.
       case save (storage s) (con_encoded c) of
         (Inl x, st) \<Rightarrow> (Inl x, s\<lparr>storage := st\<rparr>)
       | (Inr _, st) \<Rightarrow>
           (Inr (), publish_all (con_events c) (route_runtime replacements c (s\<lparr>storage := st, config := con_document c\<rparr>)))) s"

end
