(* ===== verification/StoreLaws.thy ===== *)
theory StoreLaws
  imports StoreMedia StoreReferences
begin

text \<open>
  The laws of the store. Every operation that changes the store is one value of \<open>store_op\<close>, so that a
  law is stated once for all of them: a failed operation changes nothing (\<open>kept\<close>), a document is in
  memory only after the storage acknowledged its encoding (\<open>saved\<close>), the event log has no gaps
  (\<open>log_ok\<close>), and queues and tables stay within their bounds (\<open>bounded\<close>).
\<close>

section \<open>Operations as values\<close>

datatype store_op =
    Put string "jvalue" bool "u64 option" string
  | Delete string string
  | Setting string string "jvalue option"
  | SetAppState string "jvalue"
  | System "jvalue"
  | FlowResult string string string string
  | Observe string string "jvalue" bool string
  | Trigger string "jvalue"
  | TakeTrigger
  | TakeSceneTrip
  | BeginScene string "jvalue list"
  | SceneRemaining string "jvalue list"
  | ReorderDevices string "string list"
  | RegisterMedia string "jvalue"
  | ClearAppMedia string
  | ShareImage string string string u64
  | ReplaceReferences string "jvalue" string
  | ConsolidateDevices string "jvalue" "jvalue" string
  | Announce string "jvalue"
  | SetAppStatus string string
  | SetAppRuntime string "jvalue"
  | Restore string
  | Tick u64
  | Configure string string
  | TakeStatisticsFault

text \<open>The outcome without its answer.\<close>

definition quiet :: "('s, 'a) outcome \<Rightarrow> ('s, unit) outcome" where
  "quiet m = (case m of (Inl e, s) \<Rightarrow> (Inl e, s) | (Inr _, s) \<Rightarrow> (Inr (), s))"

fun run_op :: "'s save \<Rightarrow> store_op \<Rightarrow> 's store \<Rightarrow> ('s, unit) outcome" where
  "run_op save (Put c record create revision now) s = put save c record create revision now s"
| "run_op save (Delete c i) s = delete save c i s"
| "run_op save (Setting app key v) s = setting save app key v s"
| "run_op save (SetAppState app v) s = set_app_state save app v s"
| "run_op save (System v) s = system save v s"
| "run_op save (FlowResult i ran_at failure now) s = flow_result save i ran_at failure now s"
| "run_op save (Observe app i state available message) s = observe app i state available message s"
| "run_op save (Trigger app params) s = trigger app params s"
| "run_op save TakeTrigger s = (Inr (), snd (take_trigger s))"
| "run_op save TakeSceneTrip s = (Inr (), snd (take_scene_trip s))"
| "run_op save (BeginScene i previous) s = quiet (begin_scene save i previous s)"
| "run_op save (SceneRemaining i remaining) s = scene_remaining save i remaining s"
| "run_op save (ReorderDevices grp ids) s = reorder_devices save grp ids s"
| "run_op save (RegisterMedia app params) s = register_media app params s"
| "run_op save (ClearAppMedia app) s = (Inr (), clear_app_media app s)"
| "run_op save (ShareImage i dev sl now) s = quiet (share_image i dev sl now s)"
| "run_op save (ReplaceReferences app replacements now) s = replace_references save app replacements now s"
| "run_op save (ConsolidateDevices app merged replacements now) s = consolidate_devices save app merged replacements now s"
| "run_op save (Announce i m) s = announce i m s"
| "run_op save (SetAppStatus i state) s = set_app_status i state s"
| "run_op save (SetAppRuntime i details) s = set_app_runtime i details s"
| "run_op save (Restore bs) s = restore save bs s"
| "run_op save (Tick ms) s = (Inr (), store_tick ms s)"
| "run_op save (Configure lang zone) s = (Inr (), configure lang zone s)"
| "run_op save TakeStatisticsFault s = (Inr (), snd (take_statistics_fault s))"

section \<open>How an operation ends\<close>

text \<open>
  \<open>ends save R s m\<close>: the operation ended without touching document and storage, or with a refused
  save and nothing else changed, or with an acknowledged save of the document now in memory; in the
  two successful cases the step from the old to the new store satisfies \<open>R\<close>.
\<close>

definition kept :: "'s store \<Rightarrow> 's store \<Rightarrow> bool" where
  "kept s s' \<longleftrightarrow> s' = s\<lparr>storage := storage s'\<rparr>"

inductive ends :: "'s save \<Rightarrow> ('s store \<Rightarrow> 's store \<Rightarrow> bool) \<Rightarrow> 's store \<Rightarrow> ('s, 'a) outcome \<Rightarrow> bool"
  for save R s where
  refused: "ends save R s (Inl e, s)"
| unsaved: "save (storage s) bs = (Inl e, st) \<Longrightarrow> ends save R s (Inl e, s\<lparr>storage := st\<rparr>)"
| quiet_done: "R s s' \<Longrightarrow> config s' = config s \<Longrightarrow> storage s' = storage s \<Longrightarrow> ends save R s (Inr a, s')"
| saved: "save (storage s) bs = (Inr (), storage s') \<Longrightarrow> doc_encode (config s') = Inr bs \<Longrightarrow> R s s'
    \<Longrightarrow> ends save R s (Inr a, s')"

inductive_cases ends_Inl: "ends save R s (Inl e, s')"
inductive_cases ends_Inr: "ends save R s (Inr a, s')"

lemma ends_mono: "ends save R s m \<Longrightarrow> (\<And>s'. R s s' \<Longrightarrow> Q s s') \<Longrightarrow> ends save Q s m"
  by (induction rule: ends.induct) (auto intro: ends.intros)

lemma ends_failed: "ends save R s (Inl e, s') \<Longrightarrow> kept s s'"
  by (auto elim!: ends_Inl simp: kept_def)

lemma ends_prepare:
  "(\<And>a. m = Inr a \<Longrightarrow> ends save R s (f a s)) \<Longrightarrow> ends save R s (prepare m f s)"
  by (auto simp: prepare_def intro: ends.intros split: sum.splits)

lemma ends_quiet: "ends save R s m \<Longrightarrow> ends save R s (quiet m)"
  by (induction rule: ends.induct) (auto simp: quiet_def intro: ends.intros)

lemma publish_fields [simp]:
  "config (publish e s) = config s" "storage (publish e s) = storage s" "live (publish e s) = live s"
  "apps (publish e s) = apps s" "caches (publish e s) = caches s" "triggers (publish e s) = triggers s"
  "scene_trips (publish e s) = scene_trips s" "media (publish e s) = media s" "images (publish e s) = images s"
  "statistics (publish e s) = statistics s" "sequence (publish e s) = ev_sequence e"
  by (simp_all add: publish_def)

text \<open>A save followed by what the operation does after it.\<close>

lemma ends_save:
  assumes "doc_encode d = Inr encoded" and "\<And>st. config (g st) = d \<and> storage (g st) = st" and "\<And>st. R s (g st)"
  shows "ends save R s (case save (storage s) encoded of
      (Inl x, st) \<Rightarrow> (Inl x, s\<lparr>storage := st\<rparr>) | (Inr _, st) \<Rightarrow> (Inr a, g st))"
proof (cases "save (storage s) encoded")
  case (Pair x st)
  show ?thesis
  proof (cases x)
    case (Inl e)
    then show ?thesis using Pair by (auto intro: ends.intros)
  next
    case (Inr u)
    have "ends save R s (Inr a, g st)"
      by (rule saved [of save s encoded]) (use Pair Inr assms in auto)
    then show ?thesis using Pair Inr by simp
  qed
qed

lemma ends_after_commit:
  assumes "\<And>st. config (g st) = d \<and> storage (g st) = st" and "\<And>st. R s (g st)"
    and "\<And>st. f (publish e (s\<lparr>storage := st, config := d\<rparr>)) = (Inr a, g st)"
  shows "ends save R s (after (commit save d e s) f)"
proof (cases "doc_encode d")
  case (Inl x)
  then show ?thesis by (simp add: commit_def after_def ends.intros)
next
  case (Inr encoded)
  have "after (commit save d e s) f = (case save (storage s) encoded of
      (Inl x, st) \<Rightarrow> (Inl x, s\<lparr>storage := st\<rparr>) | (Inr _, st) \<Rightarrow> (Inr a, g st))"
    using Inr assms(3) by (auto simp: commit_def after_def split: prod.splits sum.splits)
  then show ?thesis using ends_save [of d encoded g R s save a] Inr assms(1,2) by simp
qed

lemma after_done: "after m (\<lambda>s. (Inr (), s)) = m"
  by (auto simp: after_def split: prod.splits sum.splits)

lemma ends_commit:
  assumes "\<And>st. R s (publish e (s\<lparr>storage := st, config := d\<rparr>))"
  shows "ends save R s (commit save d e s)"
  using ends_after_commit [where f = "\<lambda>s. (Inr (), s)" and g = "\<lambda>st. publish e (s\<lparr>storage := st, config := d\<rparr>)", of d R s e "()" save] assms
  by (simp add: after_done)

section \<open>The event log\<close>

definition fresh :: "'s store \<Rightarrow> event \<Rightarrow> bool" where
  "fresh s e \<longleftrightarrow> unat (ev_sequence e) = unat (sequence s) + 1"

definition log_ok :: "'s store \<Rightarrow> bool" where
  "log_ok s \<longleftrightarrow> map (\<lambda>e. unat (ev_sequence e)) (events s)
       = [Suc (unat (sequence s)) - length (events s)..<Suc (unat (sequence s))]
     \<and> length (events s) \<le> EVENT_CAPACITY \<and> length (events s) \<le> unat (sequence s)
     \<and> (events s = [] \<longrightarrow> sequence s = 0)"

lemma new_event_fresh: "new_event s manager k i = Inr e \<Longrightarrow> fresh s e"
  by (auto simp: new_event_def fresh_def result_iff dest: checked_add_unat)

lemma fresh_cong [simp]:
  "fresh (s\<lparr>config := d\<rparr>) e = fresh s e" "fresh (s\<lparr>storage := st\<rparr>) e = fresh s e" "fresh (s\<lparr>live := l\<rparr>) e = fresh s e"
  "fresh (s\<lparr>apps := as\<rparr>) e = fresh s e" "fresh (s\<lparr>triggers := ts\<rparr>) e = fresh s e" "fresh (s\<lparr>scene_trips := ts\<rparr>) e = fresh s e"
  "fresh (s\<lparr>media := m\<rparr>) e = fresh s e" "fresh (s\<lparr>caches := cs\<rparr>) e = fresh s e" "fresh (s\<lparr>statistics := x\<rparr>) e = fresh s e"
  "fresh (s\<lparr>statistics_fault := f\<rparr>) e = fresh s e" "fresh (s\<lparr>statistics_reported := b\<rparr>) e = fresh s e"
  by (simp_all add: fresh_def)

lemma log_ok_cong: "events s' = events s \<Longrightarrow> sequence s' = sequence s \<Longrightarrow> log_ok s' = log_ok s"
  by (simp add: log_ok_def)

lemma log_ok_publish:
  assumes "log_ok s" and "fresh s e"
  shows "log_ok (publish e s)"
proof -
  define n where "n = unat (sequence s)"
  have ev: "map (\<lambda>e. unat (ev_sequence e)) (events s) = [Suc n - length (events s)..<Suc n]"
    and len: "length (events s) \<le> EVENT_CAPACITY" "length (events s) \<le> n" and e: "unat (ev_sequence e) = Suc n"
    using assms by (auto simp: log_ok_def fresh_def n_def)
  have tl: "map (\<lambda>e. unat (ev_sequence e)) (tl (events s)) = [Suc (Suc n - length (events s))..<Suc n]"
    if "events s \<noteq> []"
    using that len(2) by (simp add: map_tl ev)
  show ?thesis
  proof (cases "length (events s) = EVENT_CAPACITY")
    case True
    then have "events s \<noteq> []" by (auto simp: EVENT_CAPACITY_def)
    moreover obtain k where "n = 64 + k" using len(2) True by (auto simp: EVENT_CAPACITY_def le_iff_add)
    ultimately show ?thesis using tl len e True upt_Suc_append [of "Suc (Suc k)" "65 + k"] by (auto simp: log_ok_def publish_def Suc_diff_le EVENT_CAPACITY_def)
  qed (use ev len e in \<open>simp add: log_ok_def publish_def\<close>)
qed

lemma log_ok_restart: "fresh s e \<Longrightarrow> log_ok (publish e (s\<lparr>events := []\<rparr>))"
  by (simp add: log_ok_def publish_def fresh_def EVENT_CAPACITY_def)

section \<open>Bounds\<close>

definition bounded :: "'s store \<Rightarrow> bool" where
  "bounded s \<longleftrightarrow> length (triggers s) \<le> MAX_TRIGGERS \<and> length (scene_trips s) \<le> 256
     \<and> length (apps s) \<le> MAX_RECORDS \<and> length (caches s) \<le> MAX_RECORDS \<and> length (media s) \<le> MAX_RECORDS
     \<and> length (images s) \<le> 8 \<and> stats_ok (statistics s)"

definition advances :: "'s store \<Rightarrow> 's store \<Rightarrow> bool" where
  "advances s s' \<longleftrightarrow> (log_ok s \<longrightarrow> log_ok s') \<and> (bounded s \<longrightarrow> bounded s') \<and> sequence s \<le> sequence s'"

lemma length_update_first [simp]: "length (update_first P f xs) = length xs"
  by (induction xs) auto

lemma advances_publish:
  assumes "fresh s e" and "events s0 = events s" and "sequence s0 = sequence s" and "bounded s \<Longrightarrow> bounded s0"
  shows "advances s (publish e s0)"
  using assms log_ok_publish [of s0 e] log_ok_cong [OF assms(2,3)]
  by (auto simp: advances_def fresh_def bounded_def word_le_nat_alt)

lemma advances_quiet:
  "events s' = events s \<Longrightarrow> sequence s' = sequence s \<Longrightarrow> (bounded s \<Longrightarrow> bounded s') \<Longrightarrow> advances s s'"
  using log_ok_cong by (auto simp: advances_def)

lemma bounded_cong [simp]:
  "bounded (s\<lparr>config := d\<rparr>) = bounded s" "bounded (s\<lparr>storage := st\<rparr>) = bounded s" "bounded (s\<lparr>live := l\<rparr>) = bounded s"
  "bounded (s\<lparr>statistics_fault := f\<rparr>) = bounded s" "bounded (s\<lparr>statistics_reported := b\<rparr>) = bounded s"
  "bounded (s\<lparr>clock_ms := c\<rparr>) = bounded s" "bounded (s\<lparr>language := lg, timezone := tz\<rparr>) = bounded s"
  "bounded (publish e s) = bounded s"
  by (simp_all add: bounded_def)

lemma collect_fields [simp]:
  "config (collect i name state s) = config s" "storage (collect i name state s) = storage s"
  "events (collect i name state s) = events s" "sequence (collect i name state s) = sequence s"
  "triggers (collect i name state s) = triggers s" "scene_trips (collect i name state s) = scene_trips s"
  by (auto simp: collect_def split: prod.splits sum.splits)

lemma bounded_collect: "bounded s \<Longrightarrow> bounded (collect i name state s)"
  using stats_observe_ok [of "statistics s" i name state "clock_ms s"]
  by (auto simp: collect_def bounded_def split: prod.splits sum.splits)

text \<open>An operation that prepares a document with its event and commits it.\<close>

lemma ends_prepare_commit:
  assumes "\<And>d e. m = Inr (d, e) \<Longrightarrow> fresh s e"
  shows "ends save advances s (prepare m (\<lambda>(d, e). commit save d e) s)"
proof (rule ends_prepare)
  fix x assume m: "m = Inr x"
  obtain d e where x: "x = (d, e)" by (cases x)
  have "fresh s e" using assms m x by simp
  then have "ends save advances s (commit save d e s)"
    by (intro ends_commit advances_publish) (auto simp: bounded_cong)
  then show "ends save advances s ((\<lambda>(d, e). commit save d e) x s)" by (simp add: x)
qed

section \<open>How every operation ends\<close>

lemma bounded_put_cache:
  assumes "prepare_cache s i record = Inr cache" and "caches s0 = caches s" and "bounded s0"
  shows "bounded (put_cache cache s0)"
  using assms
  by (auto simp: prepare_cache_def put_cache_def bounded_def Let_def split: option.splits if_splits)

lemma put_cache_fields [simp]:
  "config (put_cache cache s) = config s" "storage (put_cache cache s) = storage s"
  "events (put_cache cache s) = events s" "sequence (put_cache cache s) = sequence s"
  by (auto simp: put_cache_def split: option.splits)

lemma advances_trans: "advances s s' \<Longrightarrow> advances s' s'' \<Longrightarrow> advances s s''"
  by (auto simp: advances_def)

text \<open>An operation that tidies up the volatile tables after its commit.\<close>

lemma ends_commit_then:
  assumes "fresh s e"
    and "\<And>s0. config (h s0) = config s0 \<and> storage (h s0) = storage s0 \<and> events (h s0) = events s0 \<and> sequence (h s0) = sequence s0"
    and "\<And>s0. caches s0 = caches s \<Longrightarrow> bounded s0 \<Longrightarrow> bounded (h s0)"
  shows "ends save advances s (after (commit save d e s) (\<lambda>s. (Inr (), h s)))"
proof (rule ends_after_commit [where g = "\<lambda>st. h (publish e (s\<lparr>storage := st, config := d\<rparr>))" and d = d])
  fix st
  show "advances s (h (publish e (s\<lparr>storage := st, config := d\<rparr>)))"
  proof (rule advances_trans)
    show "advances s (publish e (s\<lparr>storage := st, config := d\<rparr>))"
      using assms(1) by (intro advances_publish) simp_all
    show "advances (publish e (s\<lparr>storage := st, config := d\<rparr>)) (h (publish e (s\<lparr>storage := st, config := d\<rparr>)))"
      by (rule advances_quiet) (use assms(2,3) in simp_all)
  qed
qed (simp_all add: assms(2))

lemma put_candidateE:
  assumes "put_candidate s c record create revision now = Inr (d, e, cache)"
  obtains manager created updated deleted record1 d0 where
      "collection_events c = Inr (manager, created, updated, deleted)" and "j_text record ''id'' \<noteq> []"
    and "(if c = ''devices'' then prepare_cache s (j_text record ''id'') record else Inr None) = Inr cache"
    and "create \<longleftrightarrow> find_record (config s) c (j_text record ''id'') = None"
    and "case revision of None \<Rightarrow> True
         | Some r \<Rightarrow> map_option (\<lambda>p. j_uint p ''revision'') (find_record (config s) c (j_text record ''id'')) = Some r"
    and "stamp_record (config s) c record create (find_record (config s) c (j_text record ''id'')) now = Inr record1"
    and "new_event s manager (if create then created else updated) (j_text record ''id'') = Inr e"
    and "replace_record (config s) c record1 = Inr d0" and "(if c = ''scenes'' then reconcile d0 else Inr d0) = Inr d"
  using assms unfolding put_candidate_def Let_def
  by (cases revision) (auto simp: bindR_Inr_iff if_Inl_Inr_iff split del: if_split)

lemma put_candidate_parts:
  assumes "put_candidate s c record create revision now = Inr (d, e, cache)"
  shows "fresh s e" and "cache = None \<or> prepare_cache s (j_text record ''id'') record = Inr cache"
  using assms by (auto elim!: put_candidateE dest: new_event_fresh split: if_splits)

lemma ends_put: "ends save advances s (put save c record create revision now s)"
  unfolding put_def
proof (rule ends_prepare)
  fix x assume m: "put_candidate s c record create revision now = Inr x"
  obtain d e cache where x: "x = (d, e, cache)" by (cases x)
  note parts = put_candidate_parts [OF m [unfolded x]]
  have "bounded (put_cache cache s0)" if "caches s0 = caches s" "bounded s0" for s0
    using parts(2) bounded_put_cache that by (auto simp: put_cache_def)
  then have "ends save advances s (after (commit save d e s) (\<lambda>s. (Inr (), put_cache cache s)))"
    using parts(1) by (intro ends_commit_then) auto
  then show "ends save advances s ((\<lambda>(d, e, cache) s. after (commit save d e s) (\<lambda>s. (Inr (), put_cache cache s))) x s)"
    by (simp add: x)
qed

lemma forget_deleted_fields [simp]:
  "config (forget_deleted c i s) = config s" "storage (forget_deleted c i s) = storage s"
  "events (forget_deleted c i s) = events s" "sequence (forget_deleted c i s) = sequence s"
  by (simp_all add: forget_deleted_def)

lemma bounded_forget_deleted: "bounded s \<Longrightarrow> bounded (forget_deleted c i s)"
  by (auto simp: forget_deleted_def bounded_def Let_def intro: order.trans [OF length_filter_le] le_trans [OF length_filter_le])

lemma delete_candidateE:
  assumes "delete_candidate s c i = Inr (d, e)"
  obtains previous manager created updated k d1 d2 d3 where
      "doc_record (config s) c i = Inr previous" and "(if c = ''scenes'' then can_delete (config s) previous else Inr ()) = Inr ()"
    and "c \<noteq> ''devices'' \<or> j_text previous ''appId'' \<noteq> APP_ID"
    and "collection_events c = Inr (manager, created, updated, k)" and "new_event s manager k i = Inr e"
    and "(if c = ''deviceGroups'' then lift_children (config s) i else Inr (config s)) = Inr d1"
    and "(if c = ''apps'' then uninstall d1 i else Inr d1) = Inr d2" and "remove_record d2 c i = Inr d3"
    and "(if c = ''scenes'' then reconcile d3 else Inr d3) = Inr d"
  using assms unfolding delete_candidate_def Let_def
  by (auto simp: bindR_Inr_iff if_Inl_Inr_iff split del: if_split)

lemma delete_candidate_fresh: "delete_candidate s c i = Inr (d, e) \<Longrightarrow> fresh s e"
  by (auto elim!: delete_candidateE dest: new_event_fresh)

lemma ends_delete: "ends save advances s (delete save c i s)"
  unfolding delete_def
proof (rule ends_prepare)
  fix x assume m: "delete_candidate s c i = Inr x"
  obtain d e where x: "x = (d, e)" by (cases x)
  show "ends save advances s ((\<lambda>(d, e) s. after (commit save d e s) (\<lambda>s. (Inr (), forget_deleted c i s))) x s)"
    using delete_candidate_fresh [OF m [unfolded x]] by (simp add: x ends_commit_then bounded_forget_deleted)
qed

lemma ends_setting: "ends save advances s (setting save app key v s)"
  unfolding setting_def by (rule ends_prepare_commit) (auto simp: Let_def bindR_Inr_iff dest: new_event_fresh)

lemma ends_set_app_state: "ends save advances s (set_app_state save app v s)"
  unfolding set_app_state_def by (rule ends_prepare_commit) (auto simp: Let_def bindR_Inr_iff dest: new_event_fresh)

lemma ends_system: "ends save advances s (system save v s)"
  unfolding system_def
proof (rule ends_prepare)
  fix x assume m: "(if as_object v = None then Inl (Invalid ''system settings must be an object'')
       else bindR (doc_set (config s) ''system'' v) (\<lambda>candidate.
         bindR (new_event s ''system'' ''system.update'' ''system'') (\<lambda>e. Inr (candidate, e)))) = Inr x"
  obtain d e where x: "x = (d, e)" by (cases x)
  have "fresh s e" using m x by (auto simp: bindR_Inr_iff dest: new_event_fresh split: if_splits)
  then have "ends save advances s (after (commit save d e s) (\<lambda>s. (Inr (), if statistics_enabled s then s
      else s\<lparr>statistics := stats_default, statistics_fault := None, statistics_reported := False\<rparr>)))"
    by (rule ends_commit_then) (auto simp: bounded_def stats_default_ok)
  then show "ends save advances s ((\<lambda>(d, e) s. after (commit save d e s) (\<lambda>s. (Inr (), if statistics_enabled s then s
      else s\<lparr>statistics := stats_default, statistics_fault := None, statistics_reported := False\<rparr>))) x s)"
    by (simp add: x)
qed

lemma advances_refl: "advances s s"
  by (simp add: advances_def)

lemma ends_same: "ends save advances s (Inr a, s)"
  by (rule quiet_done) (simp_all add: advances_refl)

lemma ends_flow_result: "ends save advances s (flow_result save i ran_at failure now s)"
  unfolding flow_result_def
  by (rule ends_prepare) (auto simp: bindR_Inr_iff ends_same dest: new_event_fresh intro!: ends_prepare_commit)

lemma ends_reorder_devices: "ends save advances s (reorder_devices save grp ids s)"
  unfolding reorder_devices_def
  by (rule ends_prepare_commit) (auto simp: Let_def bindR_Inr_iff dest: new_event_fresh split: if_splits)

text \<open>An operation that changes only volatile tables and then publishes its event.\<close>

lemma ends_volatile:
  assumes "\<And>a. m = Inr a \<Longrightarrow> fresh s (ev a) \<and> config (h a) = config s \<and> storage (h a) = storage s
      \<and> events (h a) = events s \<and> sequence (h a) = sequence s \<and> (bounded s \<longrightarrow> bounded (h a))"
    and "\<And>a. f a s = (Inr (), publish (ev a) (h a))"
  shows "ends save advances s (prepare m f s)"
  using assms by (intro ends_prepare) (auto intro!: quiet_done advances_publish)

lemma observe_prepare_parts:
  assumes "observe_prepare s app i state available message = Inr (lv, name, ch, tr, e)"
  shows "fresh s e" and "length ch \<le> MAX_TRIGGERS - length (triggers s)" and "length tr \<le> 256 - length (scene_trips s)"
  using assms unfolding observe_prepare_def bindR_Inr_iff Let_def
  by (auto simp: bindR_Inr_iff not_less dest: new_event_fresh split: if_splits)

lemma ends_observe: "ends save advances s (observe app i state available message s)"
  unfolding observe_def
proof (rule ends_prepare)
  fix x assume m: "observe_prepare s app i state available message = Inr x"
  obtain lv name ch tr e where x: "x = (lv, name, ch, tr, e)" by (cases x) auto
  note parts = observe_prepare_parts [OF m [unfolded x]]
  let ?s1 = "collect i name state (s\<lparr>live := lv\<rparr>)"
  have "bounded (?s1\<lparr>triggers := triggers ?s1 @ ch, scene_trips := scene_trips ?s1 @ tr\<rparr>)" if "bounded s"
    using bounded_collect [of "s\<lparr>live := lv\<rparr>" i name state] that parts(2,3) by (auto simp: bounded_def)
  then have "ends save advances s (Inr (), publish e (?s1\<lparr>triggers := triggers ?s1 @ ch, scene_trips := scene_trips ?s1 @ tr\<rparr>))"
    using parts(1) by (intro quiet_done advances_publish) auto
  then show "ends save advances s ((\<lambda>(lv, name, ch, tr, e) s. let s1 = collect i name state (s\<lparr>live := lv\<rparr>)
       in (Inr (), publish e (s1\<lparr>triggers := triggers s1 @ ch, scene_trips := scene_trips s1 @ tr\<rparr>))) x s)"
    by (simp add: x)
qed

lemma ends_trigger: "ends save advances s (trigger app params s)"
  unfolding trigger_def
  by (rule ends_prepare) (auto simp: result_iff bounded_def intro!: quiet_done advances_quiet)

lemma ends_take_trigger: "ends save advances s (Inr (), snd (take_trigger s))"
  by (auto simp: take_trigger_def bounded_def intro!: quiet_done advances_quiet split: list.splits)

lemma ends_take_scene_trip: "ends save advances s (Inr (), snd (take_scene_trip s))"
  by (auto simp: take_scene_trip_def bounded_def intro!: quiet_done advances_quiet split: list.splits)

lemma ends_register_media: "ends save advances s (register_media app params s)"
  unfolding register_media_def
  by (rule ends_prepare) (auto simp: Let_def result_iff bounded_def intro!: quiet_done advances_quiet split: if_splits)

lemma bounded_clear_app_media: "bounded s \<Longrightarrow> bounded (clear_app_media app s)"
  by (auto simp: clear_app_media_def bounded_def intro: order.trans [OF length_filter_le])

lemma clear_app_media_fields [simp]:
  "config (clear_app_media app s) = config s" "storage (clear_app_media app s) = storage s"
  "events (clear_app_media app s) = events s" "sequence (clear_app_media app s) = sequence s"
  by (simp_all add: clear_app_media_def)

lemma length_keep_tickets: "length ts \<le> 8 \<Longrightarrow> length (keep_tickets now ts) < 8"
  using le_trans [OF length_filter_le [of "\<lambda>t. now < img_expires t" ts], of 8] by (auto simp: keep_tickets_def Let_def)

lemma ends_share_image: "ends save advances s (share_image i dev sl now s)"
  unfolding share_image_def using length_keep_tickets [of "images s" now]
  by (intro ends_prepare) (auto simp: bounded_def intro!: quiet_done advances_quiet)

lemma scene_state_parts:
  assumes "scene_state_prepare s i scene = Inr (d, e, dev, new, ch)"
  shows "fresh s e" and "length ch \<le> MAX_TRIGGERS - length (triggers s)" and "unat (sequence s) + 2 < 2 ^ 64"
proof -
  have e: "new_event s ''scene'' ''scene.state'' i = Inr e" and l: "length ch \<le> MAX_TRIGGERS - length (triggers s)"
      and n: "\<exists>n. ok_or (checked_add (sequence s) 2) Full = Inr n"
    using assms unfolding scene_state_prepare_def Let_def
    by (auto simp: bindR_Inr_iff split: if_splits)
  show "fresh s e" by (rule new_event_fresh [OF e])
  show "length ch \<le> MAX_TRIGGERS - length (triggers s)" by (rule l)
  show "unat (sequence s) + 2 < 2 ^ 64" using n by (auto simp: ok_or_def checked_add_def split: if_splits)
qed

text \<open>The second event of a scene change cannot be refused once the first has been committed.\<close>

lemma second_event:
  assumes "fresh s e" and "unat (sequence s) + 2 < 2 ^ 64" and "sequence s0 = ev_sequence e"
  obtains e2 where "new_event s0 manager k i = Inr e2" and "fresh s0 e2"
proof -
  have "unat (ev_sequence e) + 1 < 2 ^ 64" using assms(1,2) by (simp add: fresh_def)
  then obtain n where "checked_add (sequence s0) 1 = Some n" using assms(3) by (simp add: checked_add_def)
  then have "new_event s0 manager k i = Inr \<lparr>ev_sequence = n, ev_manager = manager, ev_kind = k, ev_id = i\<rparr>"
    by (simp add: new_event_def)
  then show thesis using that new_event_fresh by blast
qed

lemma ends_commit_scene_state: "ends save advances s (commit_scene_state save i scene s)"
  unfolding commit_scene_state_def
proof (rule ends_prepare)
  fix x assume m: "scene_state_prepare s i scene = Inr x"
  obtain d e dev new ch where x: "x = (d, e, dev, new, ch)" by (cases x) auto
  note parts = scene_state_parts [OF m [unfolded x]]
  define e2 where "e2 = \<lparr>ev_sequence = ev_sequence e + 1, ev_manager = ''devices'', ev_kind = ''device.update'', ev_id = device_id i\<rparr>"
  define h where "h = (\<lambda>st. collect (j_text dev ''id'') (j_text dev ''name'') new (publish e2 (publish e (s\<lparr>storage := st, config := d\<rparr>))))"
  define g where "g = (\<lambda>st. (h st)\<lparr>triggers := triggers (h st) @ ch\<rparr>)"
  have ev: "new_event (publish e (s\<lparr>storage := st, config := d\<rparr>)) ''devices'' ''device.update'' (device_id i) = Inr e2" for st
    using second_event [OF parts(1,3), of "publish e (s\<lparr>storage := st, config := d\<rparr>)"]
    by (auto simp: new_event_def e2_def result_iff checked_add_def split: if_splits) (metis option.distinct(1))
  have "advances s (g st)" for st
  proof (rule advances_trans)
    show "advances s (publish e (s\<lparr>storage := st, config := d\<rparr>))"
      using parts(1) by (intro advances_publish) simp_all
    let ?s1 = "publish e (s\<lparr>storage := st, config := d\<rparr>)"
    have "advances ?s1 (publish e2 ?s1)"
      by (rule advances_publish) (simp_all add: new_event_fresh [OF ev])
    moreover have "bounded s \<Longrightarrow> bounded (g st)"
      using bounded_collect [of "publish e2 ?s1"] parts(2) by (auto simp: g_def h_def bounded_def)
    moreover have "log_ok (g st) = log_ok (publish e2 ?s1)"
      by (rule log_ok_cong) (simp_all add: g_def h_def)
    moreover have "sequence (g st) = ev_sequence e2" by (simp add: g_def h_def)
    ultimately show "advances ?s1 (g st)" by (auto simp: advances_def)
  qed
  moreover have "config (g st) = d \<and> storage (g st) = st" for st by (simp add: g_def h_def)
  ultimately have "ends save advances s (after (commit save d e s) (\<lambda>s.
         prepare (new_event s ''devices'' ''device.update'' (device_id i)) (\<lambda>e2 s.
           let s1 = collect (j_text dev ''id'') (j_text dev ''name'') new (publish e2 s)
           in (Inr (), s1\<lparr>triggers := triggers s1 @ ch\<rparr>)) s))"
    by (intro ends_after_commit [where g = g]) (simp_all add: ev prepare_def g_def h_def)
  then show "ends save advances s ((\<lambda>(d, e, dev, new, ch) s. after (commit save d e s) (\<lambda>s.
         prepare (new_event s ''devices'' ''device.update'' (device_id i)) (\<lambda>e2 s.
           let s1 = collect (j_text dev ''id'') (j_text dev ''name'') new (publish e2 s)
           in (Inr (), s1\<lparr>triggers := triggers s1 @ ch\<rparr>)) s)) x s)"
    by (simp add: x)
qed

lemma ends_after_answer: "ends save R s m \<Longrightarrow> ends save R s (after m (\<lambda>s. (Inr a, s)))"
  by (induction rule: ends.induct) (auto simp: after_def intro: ends.intros)

lemma ends_begin_scene: "ends save advances s (begin_scene save i previous s)"
  unfolding begin_scene_def
  by (rule ends_prepare) (auto intro: refused ends_same ends_prepare ends_after_answer ends_commit_scene_state)

lemma ends_scene_remaining: "ends save advances s (scene_remaining save i remaining s)"
  unfolding scene_remaining_def by (rule ends_prepare) (rule ends_commit_scene_state)

lemma ends_announce: "ends save advances s (announce i m s)"
  unfolding announce_def
  by (rule ends_volatile [where ev = fst and h = "\<lambda>(e, as). s\<lparr>apps := as\<rparr>"])
    (auto simp: bindR_Inr_iff j_push_Inr_iff bounded_def dest: new_event_fresh split: if_splits)

lemma ends_set_app_status: "ends save advances s (set_app_status i state s)"
proof (cases "app_status s i = state")
  case False
  let ?h = "\<lambda>(e :: event, as). if state \<noteq> ''running'' then clear_app_media i (s\<lparr>apps := as\<rparr>) else s\<lparr>apps := as\<rparr>"
  have b: "bounded s \<Longrightarrow> length as \<le> MAX_RECORDS \<Longrightarrow> bounded (s\<lparr>apps := as\<rparr>)" for as
    by (simp add: bounded_def)
  show ?thesis
    unfolding set_app_status_def using False
    by (simp, intro ends_volatile [where ev = fst and h = ?h])
      (auto simp: bindR_Inr_iff j_push_Inr_iff Let_def dest: new_event_fresh split: if_splits
        intro!: bounded_clear_app_media b, auto simp: bounded_def)
qed (simp add: set_app_status_def ends_same)

lemma ends_set_app_runtime: "ends save advances s (set_app_runtime i details s)"
proof -
  let ?h = "\<lambda>e. s\<lparr>apps := update_first (\<lambda>a. app_id a = i) (\<lambda>a. a\<lparr>app_details := details\<rparr>) (apps s)\<rparr>"
  have "ends save advances s (prepare (bindR (new_event s ''apps'' ''app.update'' i) (\<lambda>e.
        bindR (ok_or (find_app s i) (Missing ''app runtime missing'')) (\<lambda>_. Inr e)))
        (\<lambda>e s. (Inr (), publish e (s\<lparr>apps := update_first (\<lambda>a. app_id a = i) (\<lambda>a. a\<lparr>app_details := details\<rparr>) (apps s)\<rparr>))) s)"
    by (rule ends_volatile [where ev = "\<lambda>e. e" and h = ?h])
      (auto simp: bindR_Inr_iff bounded_def dest: new_event_fresh)
  then show ?thesis by (simp add: set_app_runtime_def ends_same)
qed

lemma ends_restore: "ends save advances s (restore save bs s)"
  unfolding restore_def
proof (rule ends_prepare)
  fix x assume m: "bindR (doc_decode bs) (\<lambda>d0. bindR (reconcile d0) (\<lambda>candidate.
       bindR (new_event s ''store'' ''store.reload'' []) (\<lambda>e.
       bindR (doc_encode candidate) (\<lambda>encoded. Inr (candidate, e, encoded))))) = Inr x"
  obtain d e encoded where x: "x = (d, e, encoded)" by (cases x)
  have d: "doc_encode d = Inr encoded" and f: "fresh s e"
    using m x by (auto simp: bindR_Inr_iff dest: new_event_fresh)
  define g where "g = (\<lambda>st. publish e (s\<lparr>storage := st, config := d, live := [], apps := [], caches := [],
                 triggers := [], scene_trips := [], media := [], images := [], statistics := stats_default,
                 statistics_fault := None, statistics_reported := False, events := []\<rparr>))"
  have "log_ok (g st)" "bounded (g st)" "sequence s \<le> sequence (g st)" for st
    using f by (simp_all add: g_def log_ok_def publish_def fresh_def EVENT_CAPACITY_def bounded_def stats_default_ok word_le_nat_alt)
  then have "ends save advances s (case save (storage s) encoded of
      (Inl x, st) \<Rightarrow> (Inl x, s\<lparr>storage := st\<rparr>) | (Inr _, st) \<Rightarrow> (Inr (), g st))"
    by (intro ends_save [OF d]) (simp_all add: advances_def, simp add: g_def)
  then show "ends save advances s ((\<lambda>(candidate, e, encoded) s.
          case save (storage s) encoded of
            (Inl x, st) \<Rightarrow> (Inl x, s\<lparr>storage := st\<rparr>)
          | (Inr _, st) \<Rightarrow>
              (Inr (), publish e (s\<lparr>storage := st, config := candidate, live := [], apps := [], caches := [],
                 triggers := [], scene_trips := [], media := [], images := [], statistics := stats_default,
                 statistics_fault := None, statistics_reported := False, events := []\<rparr>))) x s)"
    unfolding x g_def by simp
qed

section \<open>Several events at once\<close>

definition chained :: "'s store \<Rightarrow> event list \<times> u64 \<Rightarrow> bool" where
  "chained s = (\<lambda>(evs, n). unat (sequence s) \<le> unat n
     \<and> map (\<lambda>e. unat (ev_sequence e)) evs = [Suc (unat (sequence s))..<Suc (unat n)])"

lemma chained_start: "chained s ([], sequence s)"
  by (simp add: chained_def)

lemma queue_event_chained: "chained s q \<Longrightarrow> queue_event s0 manager k i q = Inr q' \<Longrightarrow> chained s q'"
  by (cases q) (auto simp: chained_def queue_event_def result_iff dest!: checked_add_unat)

lemma rewrite_changed_chained:
  "rewrite_changed s0 c manager k now old next q = Inr (v, q') \<Longrightarrow> chained s q \<Longrightarrow> chained s q'"
  by (auto simp: rewrite_changed_def bindR_Inr_iff dest: queue_event_chained split: if_splits)

lemma rewrite_references_chained:
  assumes "rewrite_references s0 d replacements now evs n = Inr (d', q)" and "chained s (evs, n)"
  shows "chained s q"
proof -
  have rec: "chained s (snd b)" if "chained s (snd a)" "rewrite_record s0 c manager k replacements now old a = Inr b" for c manager k old a b
    using that by (cases a) (auto simp: rewrite_record_def bindR_Inr_iff dest: rewrite_changed_chained split: if_splits prod.splits)
  have col: "chained s (snd b)" if a: "chained s (snd a)" and b: "rewrite_collection s0 replacements now cmk a = Inr b" for cmk a b
  proof -
    obtain c m k candidate q0 where [simp]: "cmk = (c, m, k)" "a = (candidate, q0)" by (cases cmk; cases a) auto
    obtain records q1 where r: "foldR (rewrite_record s0 c m k replacements now) (doc_records (config s0) c) ([], q0) = Inr (records, q1)" "snd b = q1"
      using b by (auto simp: rewrite_collection_def bindR_Inr_iff)
    have "chained s (snd (records, q1))"
      by (rule foldR_inv [OF r(1), where P = "\<lambda>a. chained s (snd a)"]) (use a rec in auto)
    then show ?thesis using r(2) by simp
  qed
  have "chained s (snd (d', q))"
    by (rule foldR_inv [OF assms(1) [unfolded rewrite_references_def], where P = "\<lambda>a. chained s (snd a)"])
      (use assms(2) col in auto)
  then show ?thesis by simp
qed

lemma publish_all_simps [simp]:
  "publish_all [] s = s" "publish_all (e # evs) s = publish_all evs (publish e s)"
  by (simp_all add: publish_all_def)

lemma sequence_publish_all: "sequence (publish_all evs s) = (if evs = [] then sequence s else ev_sequence (last evs))"
  by (induction evs arbitrary: s) auto

lemma publish_all_fields [simp]:
  "config (publish_all evs s) = config s" "storage (publish_all evs s) = storage s"
  "bounded (publish_all evs s) = bounded s"
  by (induction evs arbitrary: s) simp_all

lemma log_ok_publish_all:
  "log_ok s \<Longrightarrow> map (\<lambda>e. unat (ev_sequence e)) evs = [Suc (unat (sequence s))..<m] \<Longrightarrow> log_ok (publish_all evs s)"
proof (induction evs arbitrary: s)
  case (Cons e evs)
  have "Suc (unat (sequence s)) < m" using Cons.prems(2) by (cases "Suc (unat (sequence s)) < m") auto
  then have "unat (ev_sequence e) = Suc (unat (sequence s))"
    and "map (\<lambda>e. unat (ev_sequence e)) evs = [Suc (Suc (unat (sequence s)))..<m]"
    using Cons.prems(2) by (auto simp: upt_conv_Cons)
  then show ?case
    using Cons.IH [of "publish e s"] Cons.prems(1) by (simp add: log_ok_publish fresh_def)
qed simp

lemma advances_publish_all:
  assumes "chained s (evs, n)" and "events s0 = events s" and "sequence s0 = sequence s" and "bounded s \<Longrightarrow> bounded s0"
  shows "advances s (publish_all evs s0)"
proof -
  have "sequence s \<le> sequence (publish_all evs s0)"
  proof (cases "evs = []")
    case False
    have m: "map (\<lambda>e. unat (ev_sequence e)) evs = [Suc (unat (sequence s))..<Suc (unat n)]"
      using assms(1) by (simp add: chained_def)
    have "unat (ev_sequence (last evs)) = last (map (\<lambda>e. unat (ev_sequence e)) evs)"
      using False by (simp add: last_map)
    also have "\<dots> = unat n"
      using m False by (cases "unat (sequence s) < unat n") auto
    finally show ?thesis
      using assms(1) False by (simp add: sequence_publish_all word_le_nat_alt chained_def)
  qed (simp add: assms(3))
  then show ?thesis
    using assms log_ok_publish_all [of s0 evs "Suc (unat n)"] log_ok_cong [OF assms(2,3)]
    by (auto simp: advances_def chained_def)
qed

lemma ends_replace_references: "ends save advances s (replace_references save app replacements now s)"
  unfolding replace_references_def
proof (rule ends_prepare)
  let ?rewrite = "rewrite_references s (config s) replacements now [] (sequence s)"
  let ?finish = "\<lambda>(candidate, evs, _) s.
         if evs = [] then (Inr (), s)
         else prepare (bindR (reconcile candidate) (\<lambda>d. bindR (doc_encode d) (\<lambda>encoded. Inr (d, encoded)))) (\<lambda>(d, encoded) s.
           case save (storage s) encoded of
             (Inl x, st) \<Rightarrow> (Inl x, s\<lparr>storage := st\<rparr>)
           | (Inr _, st) \<Rightarrow> (Inr (), publish_all evs (s\<lparr>storage := st, config := d\<rparr>))) s"
  have "ends save advances s (prepare ?rewrite ?finish s)"
  proof (rule ends_prepare)
    fix y assume rw: "?rewrite = Inr y"
    obtain candidate evs n where y: "y = (candidate, evs, n)" by (cases y)
    have ch: "chained s (evs, n)"
      using rewrite_references_chained [OF rw [unfolded y] chained_start] .
    have "ends save advances s (prepare (bindR (reconcile candidate) (\<lambda>d. bindR (doc_encode d) (\<lambda>encoded. Inr (d, encoded)))) (\<lambda>(d, encoded) s.
           case save (storage s) encoded of
             (Inl x, st) \<Rightarrow> (Inl x, s\<lparr>storage := st\<rparr>)
           | (Inr _, st) \<Rightarrow> (Inr (), publish_all evs (s\<lparr>storage := st, config := d\<rparr>))) s)"
      by (rule ends_prepare)
        (auto simp: bindR_Inr_iff intro!: ends_save [where g = "\<lambda>st. publish_all evs (s\<lparr>storage := st, config := _\<rparr>)"] advances_publish_all [OF ch])
    then show "ends save advances s (?finish y s)" by (simp add: y ends_same)
  qed
  then show "ends save advances s ((\<lambda>_ s. if as_object replacements = Some [] then (Inr (), s) else prepare ?rewrite ?finish s) u s)" for u
    by (simp add: ends_same)
qed

lemma drop_source_chained:
  "drop_source s0 i p a = Inr b \<Longrightarrow> chained s (snd a) \<Longrightarrow> chained s (snd b)"
  by (cases a; cases p) (auto simp: drop_source_def bindR_Inr_iff dest: queue_event_chained split: if_splits)

lemma consolidate_parts:
  assumes "consolidate_prepare s app merged replacements now = Inr c"
  shows "\<exists>n. chained s (con_events c, n)" and "doc_encode (con_document c) = Inr (con_encoded c)"
    and "length (con_triggers c) = length (triggers s)" and "length (con_trips c) = length (scene_trips s)"
    and "\<exists>merged1. prepare_cache s (j_text merged ''id'') merged1 = Inr (con_cache c)"
    and "j_get replacements (j_text merged ''id'') \<noteq> None"
proof -
  obtain entries merged1 d1 q d2 evs n d3 ts trs encoded where
    a: "j_get replacements (j_text merged ''id'') \<noteq> None"
    and cache: "prepare_cache s (j_text merged ''id'') merged1 = Inr (con_cache c)"
    and rw: "rewrite_references s d1 replacements now [] (sequence s) = Inr q"
    and ds: "foldR (drop_source s (j_text merged ''id'')) entries q = Inr (d2, evs, n)"
    and ts: "collectR MAX_TRIGGERS (queued replacements) (triggers s) = Inr ts"
    and trs: "collectR 256 (con_reference replacements) (scene_trips s) = Inr trs"
    and enc: "doc_encode d3 = Inr encoded"
    and c: "con_document c = d3" "con_events c = evs" "con_triggers c = ts" "con_trips c = trs" "con_encoded c = encoded"
    using assms unfolding consolidate_prepare_def bindR_Inr_iff Let_def
    by (auto simp: bindR_Inr_iff split: if_splits prod.splits)
  obtain d' q' where q: "q = (d', q')" by (cases q)
  have "chained s (snd q)"
    using rewrite_references_chained [OF rw [unfolded q] chained_start] by (simp add: q)
  then have "chained s (snd (d2, evs, n))"
    using drop_source_chained by (rule foldR_inv [OF ds, where P = "\<lambda>a. chained s (snd a)"]) 
  then show "\<exists>n. chained s (con_events c, n)" using c by auto
  show "doc_encode (con_document c) = Inr (con_encoded c)" using enc c by simp
  show "length (con_triggers c) = length (triggers s)" "length (con_trips c) = length (scene_trips s)"
    using ts trs c by (auto simp: collectR_Inr_iff dest: mapR_Inr_length)
  show "\<exists>merged1. prepare_cache s (j_text merged ''id'') merged1 = Inr (con_cache c)" using cache by blast
  show "j_get replacements (j_text merged ''id'') \<noteq> None" by (rule a)
qed

lemma merged_cache_bound:
  assumes "prepare_cache s i record = Inr cache" and "j_get replacements i \<noteq> None" and "length (caches s) \<le> MAX_RECORDS"
  shows "length (filter (\<lambda>(k, _). j_get replacements k = None) (caches s) @ (case cache of None \<Rightarrow> [] | Some x \<Rightarrow> [x])) \<le> MAX_RECORDS"
proof (cases "cache = None")
  case False
  let ?P = "\<lambda>(k, _ :: jvalue). j_get replacements k = None"
  have "list_ex (\<lambda>(k, _). k = i) (caches s) \<or> length (caches s) \<noteq> MAX_RECORDS"
    using assms(1) False by (auto simp: prepare_cache_def Let_def split: option.splits if_splits)
  then have "length (filter ?P (caches s)) < MAX_RECORDS"
  proof
    assume "list_ex (\<lambda>(k, _). k = i) (caches s)"
    then obtain v where "(i, v) \<in> set (caches s)" by (auto simp: list_ex_iff)
    then have "length (filter ?P (caches s)) < length (caches s)"
      using assms(2) by (intro length_filter_less) auto
    then show ?thesis using assms(3) by simp
  next
    assume "length (caches s) \<noteq> MAX_RECORDS"
    then show ?thesis using assms(3) le_trans [OF length_filter_le [of ?P "caches s"]] by (meson le_neq_implies_less length_filter_le order_le_less_trans)
  qed
  then show ?thesis using False by auto
qed (use assms(3) le_trans [OF length_filter_le] in auto)

lemma ends_consolidate_devices: "ends save advances s (consolidate_devices save app merged replacements now s)"
  unfolding consolidate_devices_def
proof (rule ends_prepare)
  fix c assume m: "consolidate_prepare s app merged replacements now = Inr c"
  note parts = consolidate_parts [OF m]
  obtain n merged1 where n: "chained s (con_events c, n)" and cache: "prepare_cache s (j_text merged ''id'') merged1 = Inr (con_cache c)"
    using parts(1,5) by blast
  have "bounded (route_runtime replacements c (s\<lparr>storage := st, config := con_document c\<rparr>))" if "bounded s" for st
    using that merged_cache_bound [OF cache parts(6)] parts(3,4)
    by (auto simp: bounded_def route_runtime_def intro: le_trans [OF length_filter_le])
  then show "ends save advances s (case save (storage s) (con_encoded c) of
         (Inl x, st) \<Rightarrow> (Inl x, s\<lparr>storage := st\<rparr>)
       | (Inr _, st) \<Rightarrow>
           (Inr (), publish_all (con_events c) (route_runtime replacements c (s\<lparr>storage := st, config := con_document c\<rparr>))))"
    by (intro ends_save [OF parts(2)] advances_publish_all [OF n]) (simp_all add: route_runtime_def)
qed

lemma bounded_tick: "bounded s \<Longrightarrow> bounded (store_tick ms s)"
  by (auto simp: store_tick_def Let_def bounded_def stats_tick_ok)

lemma ends_local:
  "ends save advances s (Inr (), store_tick ms s)" "ends save advances s (Inr (), configure lang zone s)"
  "ends save advances s (Inr (), snd (take_statistics_fault s))" "ends save advances s (Inr (), clear_app_media app s)"
  using bounded_tick [of s ms] bounded_clear_app_media [of s app]
  by (auto intro!: quiet_done advances_quiet simp: configure_def take_statistics_fault_def store_tick_def Let_def)

lemmas ends_ops = ends_put ends_delete ends_setting ends_set_app_state ends_system ends_flow_result ends_observe
  ends_trigger ends_take_trigger ends_take_scene_trip ends_quiet [OF ends_begin_scene] ends_scene_remaining
  ends_reorder_devices ends_register_media ends_local ends_quiet [OF ends_share_image] ends_replace_references
  ends_consolidate_devices ends_announce ends_set_app_status ends_set_app_runtime ends_restore

lemma run_op_ends: "ends save advances s (run_op save op s)"
  by (cases op) (simp_all add: ends_ops)

section \<open>Properties\<close>

text \<open>C3: An operation that reports an error has changed nothing but, at most, the storage: document, event
  log, cursors, apps, caches, queues, media and statistics are as before.\<close>

theorem failed_operation_keeps_store:
  assumes "run_op save op s = (Inl e, s')"
  shows "s' = s\<lparr>storage := storage s'\<rparr>"
  using run_op_ends [of save s op] assms by (auto dest: ends_failed simp: kept_def)

text \<open>C2: Every operation either leaves document and storage alone, or makes exactly one save; when that save
  is refused the document in memory stays, and when it is acknowledged the bytes saved are the encoding of
  the document now in memory. The document never runs ahead of the storage.\<close>

theorem document_saved_first:
  assumes "run_op save op s = (r, s')"
  shows "config s' = config s \<and> storage s' = storage s
    \<or> (\<exists>bs e. save (storage s) bs = (Inl e, storage s') \<and> r = Inl e \<and> config s' = config s)
    \<or> (\<exists>bs. save (storage s) bs = (Inr (), storage s') \<and> doc_encode (config s') = Inr bs \<and> r = Inr ())"
  using run_op_ends [of save s op] unfolding assms by (auto elim!: ends.cases)

text \<open>The states a store can reach from opening, whatever operations follow and however they end.\<close>

inductive reachable :: "'s save \<Rightarrow> 's store \<Rightarrow> bool" for save where
  opened: "store_open bs st = Inr s \<Longrightarrow> reachable save s"
| stepped: "reachable save s \<Longrightarrow> run_op save op s = (r, s') \<Longrightarrow> reachable save s'"

lemma store_open_fields:
  assumes "store_open bs st = Inr s"
  shows "events s = []" "sequence s = 0" "storage s = st" "bounded s" "log_ok s"
  using assms by (auto simp: store_open_def bindR_Inr_iff bounded_def log_ok_def stats_default_ok)

lemma run_op_advances: "run_op save op s = (r, s') \<Longrightarrow> advances s s'"
  using run_op_ends [of save s op] by (auto elim!: ends.cases simp: advances_refl intro: advances_quiet)

lemma reachable_good: "reachable save s \<Longrightarrow> log_ok s \<and> bounded s"
  by (induction rule: reachable.induct) (auto simp: store_open_fields dest: run_op_advances [unfolded advances_def])

text \<open>C29: In every reachable state the queues, tables and statistics stay within their bounds: at most 256
  triggers and 256 scene trips waiting, 4096 apps, caches and media entries, 8 image tickets, 64 events,
  and a fixed amount of statistics.\<close>

theorem reachable_bounded:
  assumes "reachable save s"
  shows "length (triggers s) \<le> 256 \<and> length (scene_trips s) \<le> 256 \<and> length (apps s) \<le> 4096
    \<and> length (caches s) \<le> 4096 \<and> length (media s) \<le> 4096 \<and> length (images s) \<le> 8 \<and> length (events s) \<le> 64
    \<and> stats_bytes (statistics s) \<le> 15237120"
  using reachable_good [OF assms] stats_ok_bytes [of "statistics s"]
  by (simp add: bounded_def log_ok_def MAX_TRIGGERS_def MAX_RECORDS_def EVENT_CAPACITY_def stats_ok_def MAX_SERIES_def)

lemma filter_greater_upt: "filter (\<lambda>x. c < x) [a..<b] = [max a (Suc c)..<b]"
  by (induction b) (auto simp: max_def)

lemma events_filter:
  assumes "log_ok s"
  shows "map (\<lambda>e. unat (ev_sequence e)) (filter (\<lambda>e. cursor < ev_sequence e) (events s))
    = [max (Suc (unat (sequence s)) - length (events s)) (Suc (unat cursor))..<Suc (unat (sequence s))]"
proof -
  have "map (\<lambda>e. unat (ev_sequence e)) (filter (\<lambda>e. cursor < ev_sequence e) (events s))
      = filter (\<lambda>x. unat cursor < x) (map (\<lambda>e. unat (ev_sequence e)) (events s))"
    by (simp add: filter_map comp_def word_less_nat_alt)
  also have "\<dots> = filter (\<lambda>x. unat cursor < x) [Suc (unat (sequence s)) - length (events s)..<Suc (unat (sequence s))]"
    using assms by (simp only: log_ok_def)
  also have "\<dots> = [max (Suc (unat (sequence s)) - length (events s)) (Suc (unat cursor))..<Suc (unat (sequence s))]"
    by (rule filter_greater_upt)
  finally show ?thesis .
qed

lemma events_lost_iff:
  assumes "log_ok s"
  shows "(case events s of [] \<Rightarrow> False | e # _ \<Rightarrow> cursor < saturating_sub (ev_sequence e) 1)
    \<longleftrightarrow> unat cursor + length (events s) < unat (sequence s)"
proof (cases "events s")
  case Nil
  then show ?thesis using assms by (simp add: log_ok_def)
next
  case (Cons e es)
  have n: "length (events s) \<le> unat (sequence s)" using assms by (simp add: log_ok_def)
  then have "[Suc (unat (sequence s)) - length (events s)..<Suc (unat (sequence s))]
      = (Suc (unat (sequence s)) - length (events s)) # [Suc (Suc (unat (sequence s)) - length (events s))..<Suc (unat (sequence s))]"
    by (intro upt_conv_Cons) (simp add: Cons)
  then have e: "unat (ev_sequence e) = Suc (unat (sequence s)) - length (events s)"
    using assms Cons by (simp add: log_ok_def)
  then have "1 \<le> unat (ev_sequence e)" using n by simp
  then have "unat (saturating_sub (ev_sequence e) 1) = unat (ev_sequence e) - 1"
    by (simp add: saturating_sub_def word_le_nat_alt unat_sub)
  then show ?thesis using e n by (auto simp: Cons word_less_nat_alt)
qed

text \<open>C5: A subscriber never misses an event silently. For a cursor the store handed out, the events returned
  are exactly those with the following sequence numbers up to the newest, in order and without a gap; when
  one of them is no longer in the log, or the cursor lies ahead of the store, the answer is Changed.\<close>

theorem events_after_exact:
  assumes "reachable save s"
  shows "case events_after s cursor of
      Inr es \<Rightarrow> map (\<lambda>e. unat (ev_sequence e)) es = [Suc (unat cursor)..<Suc (unat (sequence s))] \<and> cursor \<le> sequence s
    | Inl e \<Rightarrow> e = Changed \<and> (sequence s < cursor \<or> unat cursor + length (events s) < unat (sequence s))"
proof -
  have ok: "log_ok s" using reachable_good [OF assms] by blast
  show ?thesis
    unfolding events_after_def events_lost_iff [OF ok]
    by (auto simp: events_filter [OF ok] not_less max_def)
qed

section \<open>A store to try them on\<close>

definition store_with :: "document \<Rightarrow> unit store" where
  "store_with d = \<lparr>config = d, language = ''nl'', timezone = ''UTC'', clock_ms = 0, statistics = stats_default,
     statistics_fault = None, statistics_reported = False, storage = (), live = [], events = [],
     sequence = 0, apps = [], caches = [], triggers = [], scene_trips = [], media = [], images = []\<rparr>"

lemma store_with_fields [simp]:
  "config (store_with d) = d" "sequence (store_with d) = 0" "events (store_with d) = []" "triggers (store_with d) = []"
  "media (store_with d) = []" "live (store_with d) = []" "caches (store_with d) = []" "scene_trips (store_with d) = []"
  "apps (store_with d) = []" "images (store_with d) = []" "statistics (store_with d) = stats_default"
  by (simp_all add: store_with_def)

lemma fill_empty: "fill_root j_object = Inr empty_document"
  by (simp add: fill_root_def j_object_def decode_version_def COLLECTIONS_def SETTINGS_def decode_collection_def
      decode_settings_def clean_devices_def empty_document_def obj_insert_def obj_push_def doc_records_def j_array_def
      collectR_def doc_replace_def)

lemma reconcile_empty: "reconcile empty_document = Inr empty_document"
  by (simp add: reconcile_def physical_def empty_document_def doc_records_def j_array_def collectR_def doc_replace_def
      obj_insert_def)

lemma open_fresh: "store_open [] () = Inr (store_with empty_document)"
  by (simp add: store_open_def doc_decode_def fill_empty reconcile_empty store_with_def)

lemma encode_empty: "\<exists>bs. doc_encode empty_document = Inr bs"
proof -
  have "map_sum id length (to_string empty_document) = Inr 139" by code_simp
  then obtain out where "to_string empty_document = Inr out" "length out = 139"
    by (cases "to_string empty_document") auto
  then show ?thesis by (simp add: doc_encode_def MAX_BYTES_def)
qed

definition first_event :: event where
  "first_event = \<lparr>ev_sequence = 1, ev_manager = ''system'', ev_kind = ''system.update'', ev_id = ''system''\<rparr>"

lemma system_fresh:
  obtains s' where "run_op memory_save (System (Object [])) (store_with empty_document) = (Inr (), s')"
    and "events s' = [first_event]" and "sequence s' = 1"
proof -
  obtain bs where bs: "doc_encode empty_document = Inr bs" using encode_empty by blast
  have d: "doc_set empty_document ''system'' (Object []) = Inr empty_document"
    by (simp add: doc_set_def empty_document_def obj_insert_def)
  have e: "new_event (store_with empty_document) ''system'' ''system.update'' ''system'' = Inr first_event"
    by (simp add: new_event_def first_event_def checked_add_def)
  show thesis
    using that bs d e
    by (simp add: system_def prepare_def after_def commit_def memory_save_def publish_def EVENT_CAPACITY_def first_event_def)
qed

theorem failed_operation_keeps_store_witness:
  "\<exists>e s'. run_op memory_save (Delete ''apps'' ''x'') (store_with empty_document) = (Inl e, s')
     \<and> s' = (store_with empty_document)\<lparr>storage := storage s'\<rparr>"
proof -
  have "\<exists>e s'. run_op memory_save (Delete ''apps'' ''x'') (store_with empty_document) = (Inl e, s')"
    by (simp add: delete_def prepare_def delete_candidate_def Let_def doc_record_def empty_document_def doc_records_def j_array_def)
  then show ?thesis using failed_operation_keeps_store by blast
qed

theorem document_saved_first_witness:
  "\<exists>s'. run_op memory_save (System (Object [])) (store_with empty_document) = (Inr (), s')
     \<and> (\<exists>bs. memory_save () bs = (Inr (), storage s') \<and> doc_encode (config s') = Inr bs)"
  by (rule system_fresh)
    (use document_saved_first [of memory_save "System (Object [])" "store_with empty_document" "Inr ()"] encode_empty
      in \<open>fastforce simp: memory_save_def\<close>)

theorem reachable_bounded_witness:
  "\<exists>s'. run_op memory_save (System (Object [])) (store_with empty_document) = (Inr (), s') \<and> length (events s') \<le> 64"
  using reachable_bounded [OF stepped [OF opened [OF open_fresh]], of memory_save] system_fresh by metis

theorem events_after_exact_witness:
  "\<exists>s' es. run_op memory_save (System (Object [])) (store_with empty_document) = (Inr (), s')
     \<and> events_after s' 0 = Inr es \<and> map (\<lambda>e. unat (ev_sequence e)) es = [1]"
proof -
  obtain s' where s': "run_op memory_save (System (Object [])) (store_with empty_document) = (Inr (), s')"
    "events s' = [first_event]" "sequence s' = 1" using system_fresh .
  have "reachable memory_save s'" by (rule stepped [OF opened [OF open_fresh] s'(1)])
  from events_after_exact [OF this, of 0] s' show ?thesis
    by (auto split: sum.splits)
qed

end
