(* ===== verification/StoreIntegrity.thy ===== *)
theory StoreIntegrity
  imports StoreLaws
begin

text \<open>
  Referential integrity of the configuration: the document is well formed, the groups form a forest,
  every device lies in a group that exists and belongs to an app that exists. Every operation of the
  store except the restore of a foreign archive keeps it.
\<close>

section \<open>Intact documents\<close>

definition known_app :: "document \<Rightarrow> string \<Rightarrow> bool" where
  "known_app d app \<longleftrightarrow> app = APP_ID \<or> (\<exists>a \<in> set (doc_records d ''apps''). j_text a ''id'' = app)"

definition placed :: "document \<Rightarrow> jvalue \<Rightarrow> bool" where
  "placed d r \<longleftrightarrow> (j_text r ''groupId'' = [] \<or> parent_of d (j_text r ''groupId'') \<noteq> None) \<and> known_app d (j_text r ''appId'')"

definition intact :: "document \<Rightarrow> bool" where
  "intact d \<longleftrightarrow> doc_ok d \<and> forest d \<and> (\<forall>r \<in> set (doc_records d ''devices''). placed d r)"

lemma intact_grouped: "intact d \<Longrightarrow> grouped d"
  by (auto simp: intact_def grouped_def placed_def)

lemma records_cong: "j_get d' c = j_get d c \<Longrightarrow> doc_records d' c = doc_records d c"
  by (simp add: doc_records_def j_array_def)

lemma parent_of_cong: "doc_records d' ''deviceGroups'' = doc_records d ''deviceGroups'' \<Longrightarrow> parent_of d' = parent_of d"
  by (simp add: parent_of_def fun_eq_iff)

lemma intact_frame:
  assumes "intact d" and "doc_ok d'" and "doc_records d' ''deviceGroups'' = doc_records d ''deviceGroups''"
    and "\<And>a. known_app d a \<Longrightarrow> known_app d' a" and "\<And>r. r \<in> set (doc_records d' ''devices'') \<Longrightarrow> placed d r"
  shows "intact d'"
  using assms parent_of_cong [OF assms(3)] by (auto simp: intact_def forest_def placed_def)

text \<open>Edits that leave apps, groups and devices alone.\<close>

lemma intact_other:
  assumes "intact d" and "doc_ok d'" and "\<And>k. k \<in> {''apps'', ''deviceGroups'', ''devices''} \<Longrightarrow> j_get d' k = j_get d k"
  shows "intact d'"
proof (rule intact_frame [OF assms(1,2)])
  show "doc_records d' ''deviceGroups'' = doc_records d ''deviceGroups''"
    by (rule records_cong) (rule assms(3), simp)
  show "known_app d a \<Longrightarrow> known_app d' a" for a
    using records_cong [OF assms(3), of "''apps''"] by (simp add: known_app_def)
  show "placed d r" if "r \<in> set (doc_records d' ''devices'')" for r
    using assms(1) that records_cong [OF assms(3), of "''devices''"] by (simp add: intact_def)
qed

lemma known_app_cong: "j_get d' ''apps'' = j_get d ''apps'' \<Longrightarrow> known_app d' = known_app d"
  using records_cong [of d' "''apps''" d] by (simp add: known_app_def fun_eq_iff)

section \<open>Scenes\<close>

lemma scene_device_place:
  assumes "scene_device d s = Inr dev"
  shows "j_text dev ''appId'' = APP_ID"
    and "j_text dev ''groupId'' = [] \<or> (\<exists>r \<in> set (doc_records d ''devices''). j_text dev ''groupId'' = j_text r ''groupId'')"
proof -
  show "j_text dev ''appId'' = APP_ID"
    using scene_device_dressed [OF assms] by (auto simp: scene_dressed_def intro: j_text_get)
  obtain dev0 where dev0: "j_text dev ''groupId'' = j_text dev0 ''groupId''"
    and src: "dev0 = j_object \<or> doc_record d ''devices'' (device_id (j_text s ''id'')) = Inr dev0"
    using assms by (auto simp: scene_device_def Let_def bindR_Inr_iff set_text_def j_text_set split: sum.splits if_splits)
  then show "j_text dev ''groupId'' = [] \<or> (\<exists>r \<in> set (doc_records d ''devices''). j_text dev ''groupId'' = j_text r ''groupId'')"
    by (auto dest: doc_record_Inr)
qed

lemma intact_reconcile:
  assumes "intact d" and "reconcile d = Inr d'"
  shows "intact d'"
proof -
  have "doc_ok d" using assms(1) by (simp add: intact_def)
  from reconcile_keeps [OF this assms(2)] obtain devs where ok: "doc_ok d'" and m: "list_all2 (\<lambda>s dev. scene_device d s = Inr dev) (doc_records d ''scenes'') devs"
    and devs: "doc_records d' ''devices'' = physical d @ devs" and frame: "\<And>k. k \<noteq> ''devices'' \<Longrightarrow> j_get d' k = j_get d k"
    by blast
  show ?thesis
  proof (rule intact_frame [OF assms(1) ok])
    show "doc_records d' ''deviceGroups'' = doc_records d ''deviceGroups''"
      by (rule records_cong) (simp add: frame)
    show "known_app d a \<Longrightarrow> known_app d' a" for a
      using known_app_cong [of d' d] frame by simp
    fix r assume "r \<in> set (doc_records d' ''devices'')"
    then consider "r \<in> set (physical d)" | "r \<in> set devs" by (auto simp: devs)
    then show "placed d r"
    proof cases
      case 1
      then show ?thesis using assms(1) by (simp add: physical_def intact_def)
    next
      case 2
      then obtain s where "scene_device d s = Inr r"
        using m by (auto simp: list_all2_conv_all_nth in_set_conv_nth)
      from scene_device_place [OF this] show ?thesis
        using assms(1) by (auto simp: placed_def intact_def known_app_def)
    qed
  qed
qed

section \<open>Storing a record\<close>

lemma keep_text:
  "foldR f ks v = Inr v' \<Longrightarrow> (\<And>k v v'. f k v = Inr v' \<Longrightarrow> k \<in> set ks \<Longrightarrow> j_text v' key = j_text v key) \<Longrightarrow> j_text v' key = j_text v key"
  by (rule foldR_inv [where P = "\<lambda>w. j_text w key = j_text v key"]) auto

lemma j_text_remove: "j_remove v k = Inr v' \<Longrightarrow> key \<noteq> k \<Longrightarrow> j_text v' key = j_text v key"
  by (auto simp: result_iff j_text_def)

lemma bump_revision_text: "bump_revision previous r = Inr r' \<Longrightarrow> key \<noteq> ''revision'' \<Longrightarrow> j_text r' key = j_text r key"
  by (auto simp: bump_revision_def bindR_Inr_iff j_text_set)

lemma remove_keys_text: "remove_keys ks r = Inr r' \<Longrightarrow> key \<notin> set ks \<Longrightarrow> j_text r' key = j_text r key"
  unfolding remove_keys_def by (erule keep_text) (metis j_text_remove)

text \<open>What normalizing a device keeps, and what it has checked.\<close>

lemma normalize_device_text:
  assumes "normalize_device d r previous = Inr r'" and "key \<notin> {''data'', ''settings'', ''store'', ''state'', ''available'', ''unavailableMessage''}"
  shows "j_text r' key = j_text r key"
proof -
  obtain r1 r2 st where r1: "foldR default_object [''data'', ''settings'', ''store''] r = Inr r1"
    and r2: "j_set r1 ''store'' st = Inr r2" and r': "remove_keys VOLATILE r2 = Inr r'"
    using assms(1) unfolding normalize_device_def by (auto simp: bindR_Inr_iff split: if_splits)
  have "j_text r1 key = j_text r key"
    by (rule keep_text [OF r1]) (use assms(2) in \<open>auto simp: default_object_def j_text_set split: if_splits option.splits\<close>)
  moreover have "j_text r2 key = j_text r1 key" using r2 assms(2) by (auto simp: j_text_set)
  moreover have "j_text r' key = j_text r2 key"
    by (rule remove_keys_text [OF r']) (use assms(2) in \<open>simp add: VOLATILE_def\<close>)
  ultimately show ?thesis by simp
qed

lemma normalize_device_placed:
  assumes "normalize_device d r previous = Inr r'"
  shows "placed d r'"
proof -
  have "j_text r ''appId'' = APP_ID \<or> (\<exists>a. doc_record d ''apps'' (j_text r ''appId'') = Inr a)"
    using assms by (auto simp: normalize_device_def bindR_Inr_iff split: if_splits)
  moreover have "j_text r ''groupId'' = [] \<or> (\<exists>g. doc_record d ''deviceGroups'' (j_text r ''groupId'') = Inr g)"
    using assms by (auto simp: normalize_device_def bindR_Inr_iff split: if_splits)
  ultimately show ?thesis
    using normalize_device_text [OF assms, of "''appId''"] normalize_device_text [OF assms, of "''groupId''"]
    by (auto simp: placed_def known_app_def dest: doc_record_Inr doc_record_parent(1))
qed

lemma scenes_validate_text:
  "scenes_validate r previous = Inr r' \<Longrightarrow> key \<notin> {''name'', ''kind'', ''active'', ''previous''} \<Longrightarrow> j_text r' key = j_text r key"
  by (auto simp: scenes_validate_def Let_def bindR_Inr_iff j_text_set split: if_splits)

lemma normalize_id: "normalize d c r previous = Inr r' \<Longrightarrow> j_text r' ''id'' = j_text r ''id''"
  unfolding normalize_def
  by (auto simp: Let_def bindR_Inr_iff j_text_set groups_validate_Inr(1) normalize_device_text scenes_validate_text split: if_splits)

lemma stamp_record_id:
  assumes "stamp_record d c r create previous now = Inr r'"
  obtains r4 where "normalize d c r4 previous = Inr r'" and "j_text r4 ''id'' = j_text r ''id''" and "j_text r' ''id'' = j_text r ''id''"
proof -
  obtain r1 r2 r3 r4 where r1: "(if c = ''flows'' \<or> c = ''scenes'' then bump_revision previous r else Inr r) = Inr r1"
    and r2: "foldR (keep_history previous) [''createdAt'', ''lastRunAt'', ''lastError''] r1 = Inr r2"
    and r3: "(if create then j_set r2 ''createdAt'' (String now) else Inr r2) = Inr r3"
    and r4: "j_set r3 ''updatedAt'' (String now) = Inr r4" and n: "normalize d c r4 previous = Inr r'"
    using assms unfolding stamp_record_def bindR_Inr_iff by blast
  have "j_text r2 ''id'' = j_text r1 ''id''"
    by (rule keep_text [OF r2]) (auto simp: keep_history_def j_text_set split: option.splits)
  moreover have "j_text r1 ''id'' = j_text r ''id''" using r1 by (auto simp: bump_revision_text split: if_splits)
  moreover have "j_text r4 ''id'' = j_text r2 ''id''" using r3 r4 by (auto simp: j_text_set split: if_splits)
  ultimately show thesis using that n normalize_id [OF n] by simp
qed

lemma records_replaced:
  assumes "replace_record d c r = Inr d'" and "c \<noteq> ''notifications''"
  shows "set (doc_records d' c) = set (others d c (j_text r ''id'')) \<union> {r}"
  using replace_record_Inr(1) [OF assms(1)] assms(2) by auto

text \<open>Storing a flow, a scene or a notification; an app; a device; a group.\<close>

lemma intact_replace_other:
  assumes "intact d" and "replace_record d c r = Inr d'" and "c \<in> {''flows'', ''scenes'', ''notifications''}" and "j_text r ''id'' \<noteq> []"
  shows "intact d'"
proof (rule intact_other [OF assms(1)])
  show "doc_ok d'"
    using assms by (intro replace_record_ok [OF _ assms(2)]) (auto simp: intact_def COLLECTIONS_def)
  show "j_get d' k = j_get d k" if "k \<in> {''apps'', ''deviceGroups'', ''devices''}" for k
    using replace_record_Inr(2) [OF assms(2), of k] assms(3) that by auto
qed

lemma intact_replace_app:
  assumes "intact d" and r: "replace_record d ''apps'' r = Inr d'" and "j_text r ''id'' \<noteq> []"
  shows "intact d'"
proof (rule intact_frame [OF assms(1)])
  show "doc_ok d'"
    using assms by (intro replace_record_ok [OF _ r]) (auto simp: intact_def COLLECTIONS_def)
  show "doc_records d' ''deviceGroups'' = doc_records d ''deviceGroups''"
    by (rule records_cong) (simp add: replace_record_Inr(2) [OF r])
  show "placed d x" if "x \<in> set (doc_records d' ''devices'')" for x
    using that assms(1) records_cong [OF replace_record_Inr(2) [OF r, of "''devices''"]] by (simp add: intact_def)
  show "known_app d a \<Longrightarrow> known_app d' a" for a
    using records_replaced [OF r] by (auto simp: known_app_def others_def)
qed

lemma intact_replace_device:
  assumes "intact d" and r: "replace_record d ''devices'' r = Inr d'" and "j_text r ''id'' \<noteq> []" and "placed d r"
  shows "intact d'"
proof (rule intact_frame [OF assms(1)])
  show "doc_ok d'"
    using assms by (intro replace_record_ok [OF _ r]) (auto simp: intact_def COLLECTIONS_def)
  show "doc_records d' ''deviceGroups'' = doc_records d ''deviceGroups''"
    by (rule records_cong) (simp add: replace_record_Inr(2) [OF r])
  show "known_app d a \<Longrightarrow> known_app d' a" for a
    using known_app_cong [OF replace_record_Inr(2) [OF r]] by simp
  show "placed d x" if "x \<in> set (doc_records d' ''devices'')" for x
    using that assms(1,4) records_replaced [OF r] by (auto simp: intact_def others_def)
qed

lemma intact_replace_group:
  assumes "intact d" and g: "groups_validate d g = Inr g'" and r: "replace_record d ''deviceGroups'' g' = Inr d'" and "j_text g' ''id'' \<noteq> []"
  shows "intact d'"
proof -
  have f: "forest d' \<and> grouped d'"
    using assms(1) by (intro group_put_forest [OF _ _ g r]) (auto simp: intact_def intact_grouped)
  have "doc_ok d'"
    using assms by (intro replace_record_ok [OF _ r]) (auto simp: intact_def COLLECTIONS_def)
  moreover have "placed d' x" if "x \<in> set (doc_records d' ''devices'')" for x
    using that f assms(1) known_app_cong [OF replace_record_Inr(2) [OF r, of "''apps''"]]
      records_cong [OF replace_record_Inr(2) [OF r, of "''devices''"]]
    by (auto simp: intact_def placed_def grouped_def)
  ultimately show ?thesis using f by (simp add: intact_def)
qed

lemma collection_events_known:
  "collection_events c = Inr x \<Longrightarrow>
     c \<in> {''flows'', ''scenes'', ''notifications''} \<or> c = ''apps'' \<or> c = ''devices'' \<or> c = ''deviceGroups''"
  by (rule ccontr) (simp add: collection_events_def)

lemma intact_put:
  assumes "intact (config s)" and p: "put_candidate s c r create revision now = Inr (d, e, cache)"
  shows "intact d"
proof -
  define previous where "previous = find_record (config s) c (j_text r ''id'')"
  obtain r1 d0 manager created updated deleted where i: "j_text r ''id'' \<noteq> []"
    and c: "collection_events c = Inr (manager, created, updated, deleted)"
    and st: "stamp_record (config s) c r create previous now = Inr r1"
    and rep: "replace_record (config s) c r1 = Inr d0" and rec: "(if c = ''scenes'' then reconcile d0 else Inr d0) = Inr d"
    using p unfolding previous_def by (rule put_candidateE)
  from st obtain r4 where n: "normalize (config s) c r4 previous = Inr r1" and id: "j_text r1 ''id'' = j_text r ''id''"
    using stamp_record_id by metis
  have ne: "j_text r1 ''id'' \<noteq> []" using i id by simp
  from collection_events_known [OF c] consider "c \<in> {''flows'', ''scenes'', ''notifications''}" | "c = ''apps''"
    | "c = ''devices''" | "c = ''deviceGroups''" by (elim disjE)
  then have "intact d0"
  proof cases
    case 1
    then show ?thesis using intact_replace_other [OF assms(1) rep _ ne] by blast
  next
    case 2
    then show ?thesis using intact_replace_app [OF assms(1) _ ne] rep by blast
  next
    case 3
    then show ?thesis using intact_replace_device [OF assms(1) _ ne] rep n normalize_device_placed by (auto simp: normalize_def)
  next
    case 4
    then show ?thesis using intact_replace_group [OF assms(1) _ _ ne] rep n by (auto simp: normalize_def)
  qed
  then show ?thesis using rec intact_reconcile by (auto split: if_splits)
qed

section \<open>Removing a record\<close>

lemma disable_flow_id: "disable_flow d app f = Inr f' \<Longrightarrow> j_text f' ''id'' = j_text f ''id''"
  by (auto simp: disable_flow_def bindR_Inr_iff j_text_set bump_revision_text split: if_splits)

lemma mapR_ids:
  assumes "mapR f rs = Inr rs'" and "\<And>r r'. f r = Inr r' \<Longrightarrow> j_text r' ''id'' = j_text r ''id''" and "ids_ok rs"
  shows "ids_ok rs'"
proof -
  have "map (\<lambda>r. j_text r ''id'') rs' = map (\<lambda>r. j_text r ''id'') rs"
    using assms(1) unfolding mapR_list_all2_iff by (induction rule: list_all2_induct) (auto simp: assms(2))
  then show ?thesis using assms(3) unfolding ids_ok_def by (metis (no_types, lifting) image_iff list.set_map)
qed

lemma forget_app_result:
  assumes "doc_ok d" and "k \<in> set SETTINGS" and "forget_app app k d = Inr d'"
  obtains ps where "doc_ok d'" and "j_get d k = Some (Object ps)" and "j_get d' k = Some (Object (obj_remove ps app))"
    and "\<And>k'. k' \<noteq> k \<Longrightarrow> j_get d' k' = j_get d k'"
proof -
  obtain ps where ps: "j_get d k = Some (Object ps)" using assms(1,2) by (auto simp: doc_ok_def)
  then have d': "doc_set d k (Object (obj_remove ps app)) = Inr d'"
    using assms(3) by (simp add: forget_app_def bindR_Inr_iff)
  show thesis
    using that [OF doc_ok_set_settings [OF assms(1) d' assms(2)] ps] d'
    by (auto simp: doc_set_def j_get_set)
qed

lemma uninstall_result:
  assumes "doc_ok d" and "uninstall d app = Inr d'"
  obtains flows where "doc_ok d'" and "mapR (disable_flow d app) (doc_records d ''flows'') = Inr flows"
    and "doc_records d' ''flows'' = flows"
    and "doc_records d' ''devices'' = filter (\<lambda>r. j_text r ''appId'' \<noteq> app) (doc_records d ''devices'')"
    and "\<And>k. k \<in> {''appSettings'', ''appState''} \<Longrightarrow>
           \<exists>ps. j_get d k = Some (Object ps) \<and> j_get d' k = Some (Object (obj_remove ps app))"
    and "\<And>k. k \<notin> {''flows'', ''devices'', ''appSettings'', ''appState''} \<Longrightarrow> j_get d' k = j_get d k"
proof -
  have cs: "''flows'' \<in> set COLLECTIONS" "''devices'' \<in> set COLLECTIONS" "''appSettings'' \<in> set SETTINGS" "''appState'' \<in> set SETTINGS"
    by (simp_all add: COLLECTIONS_def SETTINGS_def)
  obtain flows d1 d2 d3 where fl: "mapR (disable_flow d app) (doc_records d ''flows'') = Inr flows"
    and r1: "doc_replace d ''flows'' flows = Inr d1"
    and r2: "doc_replace d1 ''devices'' (filter (\<lambda>r. j_text r ''appId'' \<noteq> app) (doc_records d1 ''devices'')) = Inr d2"
    and f1: "forget_app app ''appSettings'' d2 = Inr d3" and f2: "forget_app app ''appState'' d3 = Inr d'"
    using assms(2) unfolding uninstall_def by (auto simp: bindR_Inr_iff collectR_Inr_iff mapR_id_Inr)
  have g1: "j_get d1 k = (if k = ''flows'' then Some (Array flows) else j_get d k)" for k
    using r1 by (auto simp: doc_replace_Inr_iff)
  have dev: "doc_records d1 ''devices'' = doc_records d ''devices''" by (rule records_cong) (simp add: g1)
  have g2: "j_get d2 k = (if k = ''devices'' then Some (Array (filter (\<lambda>r. j_text r ''appId'' \<noteq> app) (doc_records d ''devices''))) else j_get d1 k)" for k
    using r2 unfolding dev by (auto simp: doc_replace_Inr_iff)
  have ok1: "doc_ok d1"
    by (rule doc_ok_replace [OF assms(1) r1 cs(1)])
      (rule mapR_ids [OF fl disable_flow_id doc_ok_records(2) [OF assms(1) cs(1)]])
  have ok2: "doc_ok d2"
    by (rule doc_ok_replace [OF ok1 r2 cs(2)]) (rule ids_ok_filter [OF doc_ok_records(2) [OF ok1 cs(2)]])
  obtain ps where s1: "doc_ok d3" "j_get d2 ''appSettings'' = Some (Object ps)" "j_get d3 ''appSettings'' = Some (Object (obj_remove ps app))"
    and k1: "\<And>k. k \<noteq> ''appSettings'' \<Longrightarrow> j_get d3 k = j_get d2 k" using forget_app_result [OF ok2 cs(3) f1] by blast
  obtain qs where s2: "doc_ok d'" "j_get d3 ''appState'' = Some (Object qs)" "j_get d' ''appState'' = Some (Object (obj_remove qs app))"
    and k2: "\<And>k. k \<noteq> ''appState'' \<Longrightarrow> j_get d' k = j_get d3 k" using forget_app_result [OF s1(1) cs(4) f2] by blast
  show thesis
    by (rule that [OF s2(1) fl]) (use s1 s2 in \<open>auto simp: doc_records_def j_array_def k1 k2 g1 g2\<close>)
qed

lemma intact_remove_other:
  assumes "intact d" and "remove_record d c i = Inr d'" and "c \<in> {''flows'', ''scenes'', ''notifications''}"
  shows "intact d'"
proof (rule intact_other [OF assms(1)])
  show "doc_ok d'"
    using assms by (intro remove_record_ok [OF _ assms(2)]) (auto simp: intact_def COLLECTIONS_def)
  show "j_get d' k = j_get d k" if "k \<in> {''apps'', ''deviceGroups'', ''devices''}" for k
    using remove_record_Inr(2) [OF assms(2), of k] assms(3) that by auto
qed

lemma intact_remove_device:
  assumes "intact d" and r: "remove_record d ''devices'' i = Inr d'"
  shows "intact d'"
proof (rule intact_frame [OF assms(1)])
  show "doc_ok d'"
    using assms by (intro remove_record_ok [OF _ r]) (auto simp: intact_def COLLECTIONS_def)
  show "doc_records d' ''deviceGroups'' = doc_records d ''deviceGroups''"
    by (rule records_cong) (simp add: remove_record_Inr(2) [OF r])
  show "known_app d a \<Longrightarrow> known_app d' a" for a
    using known_app_cong [OF remove_record_Inr(2) [OF r]] by simp
  show "placed d x" if "x \<in> set (doc_records d' ''devices'')" for x
    using that assms(1) remove_record_Inr(1) [OF r] by (auto simp: intact_def others_def)
qed

lemma intact_remove_app:
  assumes "intact d" and u: "uninstall d app = Inr d1" and r: "remove_record d1 ''apps'' app = Inr d'"
  shows "intact d'"
proof -
  have ok: "doc_ok d" using assms(1) by (simp add: intact_def)
  obtain flows where ok1: "doc_ok d1"
    and devs: "doc_records d1 ''devices'' = filter (\<lambda>r. j_text r ''appId'' \<noteq> app) (doc_records d ''devices'')"
    and frame: "\<And>k. k \<notin> {''flows'', ''devices'', ''appSettings'', ''appState''} \<Longrightarrow> j_get d1 k = j_get d k"
    using uninstall_result [OF ok u] by blast
  have grp: "doc_records d' ''deviceGroups'' = doc_records d ''deviceGroups''"
    by (rule records_cong) (simp add: remove_record_Inr(2) [OF r] frame)
  have dev': "doc_records d' ''devices'' = doc_records d1 ''devices''"
    by (rule records_cong) (simp add: remove_record_Inr(2) [OF r])
  have apps1: "doc_records d1 ''apps'' = doc_records d ''apps''" by (rule records_cong) (simp add: frame)
  have app: "known_app d' a" if "known_app d a" "a \<noteq> app" for a
    using that remove_record_Inr(1) [OF r] apps1 by (auto simp: known_app_def others_def)
  have "doc_ok d'" by (rule remove_record_ok [OF ok1 r]) (simp add: COLLECTIONS_def)
  moreover have "forest d'" using assms(1) parent_of_cong [OF grp] by (simp add: intact_def forest_def grp)
  moreover have "placed d' x" if "x \<in> set (doc_records d' ''devices'')" for x
    using that assms(1) app parent_of_cong [OF grp] by (auto simp: dev' devs intact_def placed_def)
  ultimately show ?thesis by (simp add: intact_def)
qed

lemma intact_remove_group:
  assumes "intact d" and g: "doc_record d ''deviceGroups'' i = Inr g"
    and l: "lift_children d i = Inr d1" and r: "remove_record d1 ''deviceGroups'' i = Inr d'"
  shows "intact d'"
proof -
  have ok: "doc_ok d" and f: "forest d" and gd: "grouped d" using assms(1) intact_grouped by (auto simp: intact_def)
  obtain d1' d2 where d: "lift_children d i = Inr d1'" "remove_record d1' ''deviceGroups'' i = Inr d2" "doc_ok d2"
    and dev: "doc_records d2 ''devices'' = map (lifted ''groupId'' i (j_text g ''parentId'')) (doc_records d ''devices'')"
    and grp: "doc_records d2 ''deviceGroups'' = filter (\<lambda>r. j_text r ''id'' \<noteq> i)
           (map (lifted ''parentId'' i (j_text g ''parentId'')) (doc_records d ''deviceGroups''))"
    and par: "parent_of d2 = lift_map (parent_of d) i (j_text g ''parentId'')" and ne: "i \<noteq> []"
    and frame: "\<And>c. c \<notin> {''deviceGroups'', ''devices''} \<Longrightarrow> j_get d2 c = j_get d c"
    using delete_group_parts [OF ok g] by blast
  have "d2 = d'" using d l r by simp
  moreover have fd: "forest d2 \<and> grouped d2 \<and> j_text g ''parentId'' \<noteq> i"
    by (rule group_deleted_forest [OF f gd g ne dev grp par])
  moreover have "placed d2 x" if "x \<in> set (doc_records d2 ''devices'')" for x
  proof -
    have "known_app d (j_text x ''appId'')"
      using that assms(1) by (auto simp: dev lifted_text ne intact_def placed_def)
    moreover have "known_app d2 = known_app d" by (rule known_app_cong) (simp add: frame)
    ultimately show ?thesis using that fd by (auto simp: placed_def grouped_def)
  qed
  ultimately show ?thesis using d(3) by (simp add: intact_def)
qed

lemma intact_delete:
  assumes "intact (config s)" and "delete_candidate s c i = Inr (d, e)"
  shows "intact d"
  using assms(2)
proof (rule delete_candidateE)
  fix previous manager created updated k d1 d2 d3
  assume g: "doc_record (config s) c i = Inr previous" and c: "collection_events c = Inr (manager, created, updated, k)"
    and l: "(if c = ''deviceGroups'' then lift_children (config s) i else Inr (config s)) = Inr d1"
    and u: "(if c = ''apps'' then uninstall d1 i else Inr d1) = Inr d2" and r: "remove_record d2 c i = Inr d3"
    and rec: "(if c = ''scenes'' then reconcile d3 else Inr d3) = Inr d"
  from collection_events_known [OF c] have "intact d3"
  proof (elim disjE)
    assume "c \<in> {''flows'', ''scenes'', ''notifications''}"
    moreover from this have "d2 = config s" using l u by auto
    ultimately show ?thesis using intact_remove_other [OF assms(1)] r by blast
  next
    assume "c = ''apps''"
    then show ?thesis using l u r intact_remove_app [OF assms(1)] by simp
  next
    assume "c = ''devices''"
    then show ?thesis using l u r intact_remove_device [OF assms(1)] by simp
  next
    assume "c = ''deviceGroups''"
    then show ?thesis using g l u r intact_remove_group [OF assms(1)] by simp
  qed
  then show ?thesis using rec intact_reconcile by (auto split: if_splits)
qed

section \<open>Other edits\<close>

lemma intact_settings:
  assumes "intact d" and "doc_set d k (Object ps) = Inr d'" and "k \<in> set SETTINGS"
  shows "intact d'"
proof (rule intact_other [OF assms(1)])
  show "doc_ok d'" using assms(1) by (intro doc_ok_set_settings [OF _ assms(2,3)]) (simp add: intact_def)
  show "j_get d' c = j_get d c" if "c \<in> {''apps'', ''deviceGroups'', ''devices''}" for c
    using assms(2,3) that by (auto simp: doc_set_def SETTINGS_def j_get_set)
qed

lemma place_device_text: "place_device ids r = Inr r' \<Longrightarrow> key \<noteq> ''sortOrder'' \<Longrightarrow> j_text r' key = j_text r key"
  by (auto simp: place_device_def j_text_set split: option.splits)

lemma intact_order:
  assumes "intact d" and m: "mapR (place_device ids) (doc_records d ''devices'') = Inr rs" and r: "doc_replace d ''devices'' rs = Inr d'"
  shows "intact d'"
proof -
  have c: "''devices'' \<in> set COLLECTIONS" by (simp add: COLLECTIONS_def)
  have ok: "doc_ok d" using assms(1) by (simp add: intact_def)
  have get: "j_get d' k = (if k = ''devices'' then Some (Array rs) else j_get d k)" for k
    using r by (auto simp: doc_replace_Inr_iff)
  show ?thesis
  proof (rule intact_frame [OF assms(1)])
    show "doc_ok d'"
      by (rule doc_ok_replace [OF ok r c], rule mapR_ids [OF m _ doc_ok_records(2) [OF ok c]]) (simp add: place_device_text)
    show "doc_records d' ''deviceGroups'' = doc_records d ''deviceGroups''"
      by (rule records_cong) (simp add: get)
    show "known_app d a \<Longrightarrow> known_app d' a" for a
      using known_app_cong [of d' d] get by simp
    fix x assume "x \<in> set (doc_records d' ''devices'')"
    then have "x \<in> set rs" by (simp add: doc_records_def j_array_def get)
    then obtain y where "y \<in> set (doc_records d ''devices'')" "place_device ids y = Inr x"
      using mapR_Inr_in [OF m] by blast
    then show "placed d x"
      using assms(1) place_device_text [of ids y x] by (simp add: intact_def placed_def)
  qed
qed

text \<open>Rewriting references changes flows and scenes only, and no identifier.\<close>

lemma ref_flow_id: "ref_flow r replacements = Inr r' \<Longrightarrow> j_text r' ''id'' = j_text r ''id''"
  by (auto simp: ref_flow_def bindR_Inr_iff j_text_set)

lemma ref_scene_id: "ref_scene r replacements = Inr r' \<Longrightarrow> j_text r' ''id'' = j_text r ''id''"
  unfolding ref_scene_def by (erule keep_text) (auto simp: ref_states_def bindR_Inr_iff j_text_set split: if_splits)

lemma rewrite_changed_id: "rewrite_changed s c m k now old next q = Inr (r', q') \<Longrightarrow> j_text r' ''id'' = j_text next ''id''"
  by (auto simp: rewrite_changed_def bindR_Inr_iff j_text_set bump_revision_text)

lemma rewrite_record_id:
  assumes "rewrite_record s c m k replacements now old (records, q) = Inr (records', q')"
  obtains r where "records' = records @ [r]" and "j_text r ''id'' = j_text old ''id''"
  using assms unfolding rewrite_record_def
  by (auto simp: bindR_Inr_iff j_push_Inr_iff ref_flow_id ref_scene_id dest!: rewrite_changed_id split: if_splits)

lemma rewrite_records_ids:
  assumes "foldR (rewrite_record s c m k replacements now) olds (records, q) = Inr (records', q')"
  shows "map (\<lambda>r. j_text r ''id'') records' = map (\<lambda>r. j_text r ''id'') records @ map (\<lambda>r. j_text r ''id'') olds"
  using assms
proof (induction olds arbitrary: records q)
  case (Cons old olds)
  obtain rs1 q1 where step: "rewrite_record s c m k replacements now old (records, q) = Inr (rs1, q1)"
    and rest: "foldR (rewrite_record s c m k replacements now) olds (rs1, q1) = Inr (records', q')"
    using Cons.prems by (auto simp: bindR_Inr_iff)
  obtain r where "rs1 = records @ [r]" "j_text r ''id'' = j_text old ''id''"
    using rewrite_record_id [OF step] by blast
  then show ?case using Cons.IH [OF rest] by simp
qed simp

lemma intact_rewrite_collection:
  assumes "intact d" and "doc_ok (config s)" and "c \<in> {''flows'', ''scenes''}"
    and "rewrite_collection s replacements now (c, m, k) (d, q) = Inr (d', q')"
  shows "intact d'"
proof -
  have c: "c \<in> set COLLECTIONS" using assms(3) by (auto simp: COLLECTIONS_def)
  obtain records where f: "foldR (rewrite_record s c m k replacements now) (doc_records (config s) c) ([], q) = Inr (records, q')"
    and r: "doc_replace d c records = Inr d'"
    using assms(4) by (auto simp: rewrite_collection_def bindR_Inr_iff)
  have "map (\<lambda>r. j_text r ''id'') records = map (\<lambda>r. j_text r ''id'') (doc_records (config s) c)"
    using rewrite_records_ids [OF f] by simp
  then have "ids_ok records"
    using doc_ok_records(2) [OF assms(2) c] unfolding ids_ok_def by (metis (no_types, lifting) image_iff list.set_map)
  then show ?thesis
    using assms(1) doc_ok_replace [OF _ r c] assms(3) r
    by (intro intact_other [OF assms(1)]) (auto simp: intact_def doc_replace_Inr_iff)
qed

lemma intact_rewrite:
  assumes "intact d" and "doc_ok (config s)" and "rewrite_references s d replacements now evs n = Inr (d', q)"
  shows "intact d'"
proof -
  have step: "intact (fst b)" if "x \<in> set REWRITTEN" "intact (fst a)" "rewrite_collection s replacements now x a = Inr b" for x a b
  proof -
    obtain c m k d0 q0 d1 q1 where x: "x = (c, m, k)" "a = (d0, q0)" "b = (d1, q1)" by (metis surj_pair)
    moreover have "c \<in> {''flows'', ''scenes''}" using that(1) by (auto simp: x REWRITTEN_def)
    ultimately show ?thesis using intact_rewrite_collection [OF _ assms(2)] that(2,3) by simp
  qed
  have "intact (fst (d', q))"
    using assms(1) step by (intro foldR_inv [OF assms(3) [unfolded rewrite_references_def], where P = "\<lambda>a. intact (fst a)"]) auto
  then show ?thesis by simp
qed

lemma consolidateE:
  assumes "consolidate_prepare s app merged replacements now = Inr c"
  obtains entries previous merged1 merged2 merged3 d1 q d2 q2 where
      "as_object replacements = Some entries"
    and "doc_record (config s) ''devices'' (j_text merged ''id'') = Inr previous"
    and "foldR (keep_identity previous) [''appId'', ''driverId'', ''data'', ''name'', ''createdAt''] merged = Inr merged1"
    and "normalize_device (config s) merged1 (Some previous) = Inr merged2"
    and "j_set merged2 ''updatedAt'' (String now) = Inr merged3"
    and "replace_record (config s) ''devices'' merged3 = Inr d1"
    and "rewrite_references s d1 replacements now [] (sequence s) = Inr q"
    and "foldR (drop_source s (j_text merged ''id'')) entries q = Inr (d2, q2)"
    and "reconcile d2 = Inr (con_document c)"
  using assms unfolding consolidate_prepare_def Let_def
  by (auto simp: bindR_Inr_iff if_Inl_Inr_iff ok_or_Inr_iff)

lemma keep_identity_id:
  "foldR (keep_identity previous) [''appId'', ''driverId'', ''data'', ''name'', ''createdAt''] v = Inr v' \<Longrightarrow> j_text v' ''id'' = j_text v ''id''"
  by (erule keep_text) (auto simp: keep_identity_def j_text_set j_text_remove split: option.splits)

lemma intact_merge:
  assumes "intact (config s)" and "consolidate_prepare s app merged replacements now = Inr c"
  shows "intact (con_document c)"
  using assms(2)
proof (rule consolidateE)
  fix entries previous merged1 merged2 merged3 d1 q d2 q2
  assume p: "doc_record (config s) ''devices'' (j_text merged ''id'') = Inr previous"
    and k: "foldR (keep_identity previous) [''appId'', ''driverId'', ''data'', ''name'', ''createdAt''] merged = Inr merged1"
    and n: "normalize_device (config s) merged1 (Some previous) = Inr merged2"
    and u: "j_set merged2 ''updatedAt'' (String now) = Inr merged3"
    and r: "replace_record (config s) ''devices'' merged3 = Inr d1"
    and rw: "rewrite_references s d1 replacements now [] (sequence s) = Inr q"
    and ds: "foldR (drop_source s (j_text merged ''id'')) entries q = Inr (d2, q2)"
    and rec: "reconcile d2 = Inr (con_document c)"
  have ok: "doc_ok (config s)" using assms(1) by (simp add: intact_def)
  have "j_text merged ''id'' \<noteq> []"
    using doc_ok_records(3) [OF ok, of "''devices''" previous] doc_record_Inr [OF p] by (auto simp: COLLECTIONS_def)
  moreover have "j_text merged3 ''id'' = j_text merged ''id''"
    using keep_identity_id [OF k] normalize_device_text [OF n, of "''id''"] u by (simp add: j_text_set)
  ultimately have ne: "j_text merged3 ''id'' \<noteq> []" by simp
  have "placed (config s) merged3"
    using normalize_device_placed [OF n] u by (simp add: placed_def j_text_set)
  then have d1: "intact d1" by (rule intact_replace_device [OF assms(1) r ne])
  obtain d' q' where q: "q = (d', q')" by (cases q)
  have "intact (fst q)" using intact_rewrite [OF d1 ok rw [unfolded q]] by (simp add: q)
  moreover have "intact (fst b)" if "intact (fst a)" "drop_source s i x a = Inr b" for i x a b
    using that intact_remove_device by (cases a; cases x) (auto simp: drop_source_def bindR_Inr_iff split: if_splits)
  ultimately have "intact (fst (d2, q2))"
    by (intro foldR_inv [OF ds, where P = "\<lambda>a. intact (fst a)"]) auto
  then show ?thesis using intact_reconcile [OF _ rec] by simp
qed

section \<open>Every operation\<close>

definition keeps_intact :: "'s store \<Rightarrow> 's store \<Rightarrow> bool" where
  "keeps_intact s s' \<longleftrightarrow> (intact (config s) \<longrightarrow> intact (config s'))"

lemma intact_commit_then:
  assumes "intact (config s) \<Longrightarrow> intact d" and "\<And>s0. config (h s0) = config s0 \<and> storage (h s0) = storage s0"
  shows "ends save keeps_intact s (after (commit save d e s) (\<lambda>s. (Inr (), h s)))"
  by (rule ends_after_commit [where g = "\<lambda>st. h (publish e (s\<lparr>storage := st, config := d\<rparr>))" and d = d])
    (use assms in \<open>simp_all add: keeps_intact_def\<close>)

lemma intact_commit: "(intact (config s) \<Longrightarrow> intact d) \<Longrightarrow> ends save keeps_intact s (commit save d e s)"
  by (rule ends_commit) (simp add: keeps_intact_def)

lemma intact_prepare_commit:
  assumes "\<And>d e. m = Inr (d, e) \<Longrightarrow> intact (config s) \<Longrightarrow> intact d"
  shows "ends save keeps_intact s (prepare m (\<lambda>(d, e). commit save d e) s)"
  by (rule ends_prepare) (use assms in \<open>auto intro: intact_commit\<close>)

lemma intact_quiet: "config s' = config s \<Longrightarrow> storage s' = storage s \<Longrightarrow> ends save keeps_intact s (Inr a, s')"
  by (rule quiet_done) (simp_all add: keeps_intact_def)

lemma intact_same: "ends save keeps_intact s (Inr a, s)"
  by (rule intact_quiet) simp_all

lemma put_intact: "ends save keeps_intact s (put save c record create revision now s)"
  unfolding put_def by (rule ends_prepare) (auto intro!: intact_commit_then intro: intact_put)

lemma delete_intact: "ends save keeps_intact s (delete save c i s)"
  unfolding delete_def by (rule ends_prepare) (auto intro!: intact_commit_then intro: intact_delete)

lemma intact_app_settings:
  "intact d \<Longrightarrow> doc_set d ''appSettings'' (Object ps) = Inr d' \<Longrightarrow> intact d'"
  "intact d \<Longrightarrow> doc_set d ''appState'' (Object ps) = Inr d' \<Longrightarrow> intact d'"
  "intact d \<Longrightarrow> doc_set d ''system'' (Object ps) = Inr d' \<Longrightarrow> intact d'"
  by (erule (1) intact_settings, simp add: SETTINGS_def)+

lemma setting_intact: "ends save keeps_intact s (setting save app key v s)"
  unfolding setting_def
  by (rule intact_prepare_commit)
    (auto simp: Let_def bindR_Inr_iff j_set_Inr_iff split: option.splits intro: intact_app_settings)

lemma set_app_state_intact: "ends save keeps_intact s (set_app_state save app v s)"
  unfolding set_app_state_def
  by (rule intact_prepare_commit)
    (auto simp: Let_def bindR_Inr_iff j_set_Inr_iff intro: intact_app_settings)

lemma system_intact: "ends save keeps_intact s (system save v s)"
  unfolding system_def
proof (rule ends_prepare)
  fix x assume m: "(if as_object v = None then Inl (Invalid ''system settings must be an object'')
       else bindR (doc_set (config s) ''system'' v) (\<lambda>candidate.
         bindR (new_event s ''system'' ''system.update'' ''system'') (\<lambda>e. Inr (candidate, e)))) = Inr x"
  obtain d e where x: "x = (d, e)" by (cases x)
  obtain ps where "v = Object ps" "doc_set (config s) ''system'' v = Inr d"
    using m x by (cases v) (auto simp: bindR_Inr_iff)
  then have "intact (config s) \<Longrightarrow> intact d"
    using intact_app_settings(3) by simp
  then show "ends save keeps_intact s ((\<lambda>(d, e) s. after (commit save d e s) (\<lambda>s. (Inr (), if statistics_enabled s then s
      else s\<lparr>statistics := stats_default, statistics_fault := None, statistics_reported := False\<rparr>))) x s)"
    by (simp add: x intact_commit_then)
qed

text \<open>Replacing a flow or a scene by a version of itself.\<close>

lemma intact_own_version:
  assumes "intact d" and "doc_record d c i = Inr r0" and "replace_record d c r = Inr d'" and "c \<in> {''flows'', ''scenes''}"
    and "j_text r ''id'' = j_text r0 ''id''"
  shows "intact d'"
proof (rule intact_replace_other [OF assms(1,3)])
  have "c \<in> set COLLECTIONS" using assms(4) by (auto simp: COLLECTIONS_def)
  then show "j_text r ''id'' \<noteq> []"
    using doc_ok_records(3) [of d c r0] assms(1,5) doc_record_Inr [OF assms(2)] by (auto simp: intact_def)
qed (use assms(4) in auto)

lemma flow_result_intact: "ends save keeps_intact s (flow_result save i ran_at failure now s)"
  unfolding flow_result_def
proof (rule ends_prepare)
  fix r0 assume r0: "doc_record (config s) ''flows'' i = Inr r0"
  have "intact d" if "intact (config s)" "replace_record (config s) ''flows'' r = Inr d" "j_text r ''id'' = j_text r0 ''id''" for d r
    using intact_own_version [OF that(1) r0 that(2)] that(3) by simp
  then show "ends save keeps_intact s (if time_is_before ran_at (j_text r0 ''lastRunAt'') then (Inr (), s)
       else prepare (
         bindR (j_set r0 ''lastRunAt'' (String ran_at)) (\<lambda>r1.
         bindR (j_set r1 ''updatedAt'' (String now)) (\<lambda>r2.
         bindR (j_set r2 ''lastError'' (String failure)) (\<lambda>r3.
         bindR (bump_revision (Some r3) r3) (\<lambda>r4.
         bindR (replace_record (config s) ''flows'' r4) (\<lambda>candidate.
         bindR (new_event s ''flow'' ''flow.run'' i) (\<lambda>e. Inr (candidate, e))))))))
         (\<lambda>(candidate, e). commit save candidate e) s)"
    by (auto simp: bindR_Inr_iff intact_same j_text_set bump_revision_text intro!: intact_prepare_commit)
qed

lemma reorder_intact: "ends save keeps_intact s (reorder_devices save grp ids s)"
  unfolding reorder_devices_def
  by (rule intact_prepare_commit)
    (auto simp: Let_def bindR_Inr_iff collectR_Inr_iff split: if_splits intro: intact_order)

lemma commit_scene_state_intact:
  assumes "doc_record (config s) ''scenes'' i = Inr r0" and "j_text scene ''id'' = j_text r0 ''id''"
  shows "ends save keeps_intact s (commit_scene_state save i scene s)"
proof -
  have "intact d" if "intact (config s)" "scene_state_prepare s i scene = Inr (d, x)" for d x
    using intact_own_version [OF that(1) assms(1)] that(2) assms(2)
    by (auto simp: scene_state_prepare_def bindR_Inr_iff Let_def bump_revision_text split: if_splits)
  then have "keeps_intact s s'" if "commit_scene_state save i scene s = (Inr (), s')" for s'
    using that unfolding commit_scene_state_def
    by (auto simp: prepare_def after_def commit_def keeps_intact_def Let_def split: sum.splits prod.splits)
  then show ?thesis
    using ends_commit_scene_state [of save s i scene] by (auto elim!: ends.cases intro: ends.intros)
qed

lemma begin_scene_intact: "ends save keeps_intact s (begin_scene save i previous s)"
  unfolding begin_scene_def
proof (rule ends_prepare)
  fix scene assume r: "doc_record (config s) ''scenes'' i = Inr scene"
  have "ends save keeps_intact s (after (commit_scene_state save i sc s) (\<lambda>s. (Inr True, s)))"
    if "j_text sc ''id'' = j_text scene ''id''" for sc
    by (rule ends_after_answer [OF commit_scene_state_intact [OF r that]])
  then show "ends save keeps_intact s (if j_text scene ''kind'' = ''button'' then (Inl (Invalid ''button scene has no restore state''), s)
       else if j_boolean scene ''active'' then (Inr False, s)
       else prepare (bindR (validate_states previous) (\<lambda>_.
              bindR (j_set scene ''previous'' (Array previous)) (\<lambda>sc. j_set sc ''active'' (Bool True))))
              (\<lambda>sc s. after (commit_scene_state save i sc s) (\<lambda>s. (Inr True, s))) s)"
    by (auto simp: bindR_Inr_iff j_text_set intact_same intro!: ends_prepare intro: refused)
qed

lemma scene_remaining_intact: "ends save keeps_intact s (scene_remaining save i remaining s)"
  unfolding scene_remaining_def
  by (rule ends_prepare) (auto simp: bindR_Inr_iff j_text_set split: if_splits intro: commit_scene_state_intact)

lemma replace_references_intact: "ends save keeps_intact s (replace_references save app replacements now s)"
proof -
  have "keeps_intact s s'" if "replace_references save app replacements now s = (Inr (), s')" for s'
    using that unfolding replace_references_def keeps_intact_def
    by (auto simp: prepare_def bindR_Inr_iff intact_def split: sum.splits prod.splits if_splits
        dest!: intact_reconcile [rotated] intact_rewrite [rotated 2])
  then show ?thesis
    using ends_replace_references [of save s app replacements now] by (auto elim!: ends.cases intro: ends.intros)
qed

lemma consolidate_intact: "ends save keeps_intact s (consolidate_devices save app merged replacements now s)"
proof -
  have "keeps_intact s s'" if "consolidate_devices save app merged replacements now s = (Inr (), s')" for s'
    using that intact_merge [of s app merged replacements now] unfolding consolidate_devices_def keeps_intact_def
    by (auto simp: prepare_def route_runtime_def split: sum.splits prod.splits)
  then show ?thesis
    using ends_consolidate_devices [of save s app merged replacements now] by (auto elim!: ends.cases intro: ends.intros)
qed

text \<open>The operations on volatile state never touch the document.\<close>

lemma volatile_config:
  "config (snd (observe app i state available message s)) = config s"
  "config (snd (trigger app params s)) = config s" "config (snd (take_trigger s)) = config s"
  "config (snd (take_scene_trip s)) = config s" "config (snd (register_media app params s)) = config s"
  "config (snd (share_image tid dev sl tm s)) = config s" "config (snd (announce i m s)) = config s"
  "config (snd (set_app_status i st s)) = config s" "config (snd (set_app_runtime i details s)) = config s"
  "config (store_tick ms s) = config s" "config (configure lang zone s) = config s"
  "config (snd (take_statistics_fault s)) = config s"
  by (auto simp: observe_def trigger_def take_trigger_def take_scene_trip_def register_media_def share_image_def announce_def
      set_app_status_def set_app_runtime_def store_tick_def configure_def take_statistics_fault_def prepare_def Let_def
      split: sum.splits list.splits)

lemma intact_volatile:
  assumes "ends save advances s (r, s')" and "config s' = config s"
  shows "ends save keeps_intact s (r, s')"
  using assms by (auto elim!: ends.cases simp: keeps_intact_def intro: ends.intros)

lemma snd_quiet [simp]: "snd (quiet m) = snd m"
  by (auto simp: quiet_def split: prod.splits sum.splits)

lemma run_op_intact:
  assumes "\<forall>bs. op \<noteq> Restore bs"
  shows "ends save keeps_intact s (run_op save op s)"
proof -
  have "config (snd (run_op save op s)) = config s \<Longrightarrow> ?thesis"
    using intact_volatile [of save s "fst (run_op save op s)" "snd (run_op save op s)"] run_op_ends [of save s op] by simp
  then show ?thesis
    using assms
    by (cases op) (simp_all add: volatile_config put_intact delete_intact setting_intact set_app_state_intact system_intact
        flow_result_intact reorder_intact ends_quiet [OF begin_scene_intact] scene_remaining_intact
        replace_references_intact consolidate_intact)
qed

text \<open>C4: Referential integrity is kept by every operation of the store except the restore of an archive: in the
  document after it the collections are well formed with unique identifiers, the groups form a forest, and
  every device lies in an existing group and belongs to an existing app or is the device of a scene.\<close>

theorem operations_keep_integrity:
  assumes "intact (config s)" and "run_op save op s = (r, s')" and "\<forall>bs. op \<noteq> Restore bs"
  shows "intact (config s')"
  using run_op_intact [OF assms(3), of save s] assms(1) unfolding assms(2)
  by (auto elim!: ends.cases simp: keeps_intact_def)

lemma empty_document_intact: "intact empty_document"
  using empty_document_ok
  by (simp add: intact_def forest_def doc_records_def j_array_def) (simp add: empty_document_def)

theorem operations_keep_integrity_witness:
  "\<exists>s'. run_op memory_save (System (Object [])) (store_with empty_document) = (Inr (), s') \<and> intact (config s')"
proof -
  obtain s' where s': "run_op memory_save (System (Object [])) (store_with empty_document) = (Inr (), s')"
    using system_fresh by metis
  have "intact (config (store_with empty_document))" using empty_document_intact by simp
  moreover have "\<forall>bs. System (Object []) \<noteq> Restore bs" by simp
  ultimately show ?thesis using operations_keep_integrity [OF _ s'] s' by blast
qed

end
