(* ===== verification/StoreEffects.thy ===== *)
theory StoreEffects
  imports StoreIntegrity
begin

text \<open>
  What single operations promise their callers: a revision check that excludes lost updates, an
  uninstall that leaves nothing of the app behind, reports that reach the device snapshot with exact
  change cursors, and image tickets that work until they expire and not longer.
\<close>

section \<open>Revisions\<close>

lemma j_uint_set: "j_set v k w = Inr v' \<Longrightarrow> j_uint v' key = (if key = k then (case as_u64 w of None \<Rightarrow> 0 | Some n \<Rightarrow> n) else j_uint v key)"
  by (auto simp: j_uint_def j_get_set)

lemma keep_uint:
  "foldR f ks v = Inr v' \<Longrightarrow> (\<And>k v v'. f k v = Inr v' \<Longrightarrow> k \<in> set ks \<Longrightarrow> j_uint v' key = j_uint v key) \<Longrightarrow> j_uint v' key = j_uint v key"
  by (rule foldR_inv [where P = "\<lambda>w. j_uint w key = j_uint v key"]) auto

lemma normalize_revision:
  assumes "normalize d c r previous = Inr r'" and "c \<in> {''flows'', ''scenes''}"
  shows "j_uint r' ''revision'' = j_uint r ''revision''"
  using assms
  by (auto simp: normalize_def scenes_validate_def Let_def bindR_Inr_iff j_uint_set split: if_splits)

lemma stamp_revision:
  assumes "stamp_record d c r create previous now = Inr r'" and "c \<in> {''flows'', ''scenes''}"
  shows "\<exists>n. checked_add (case previous of None \<Rightarrow> 0 | Some p \<Rightarrow> j_uint p ''revision'') 1 = Some n \<and> j_uint r' ''revision'' = n"
proof -
  obtain n r1 r2 r3 r4 where n: "checked_add (case previous of None \<Rightarrow> 0 | Some p \<Rightarrow> j_uint p ''revision'') 1 = Some n"
    and r1: "j_set r ''revision'' (uint_value n) = Inr r1"
    and r2: "foldR (keep_history previous) [''createdAt'', ''lastRunAt'', ''lastError''] r1 = Inr r2"
    and r3: "(if create then j_set r2 ''createdAt'' (String now) else Inr r2) = Inr r3"
    and r4: "j_set r3 ''updatedAt'' (String now) = Inr r4" and nm: "normalize d c r4 previous = Inr r'"
    using assms unfolding stamp_record_def bump_revision_def by (auto simp: bindR_Inr_iff ok_or_Inr_iff)
  have "j_uint r2 ''revision'' = j_uint r1 ''revision''"
    by (rule keep_uint [OF r2]) (auto simp: keep_history_def j_uint_set split: option.splits)
  moreover have "j_uint r4 ''revision'' = j_uint r2 ''revision''" using r3 r4 by (auto simp: j_uint_set split: if_splits)
  ultimately show ?thesis using n r1 normalize_revision [OF nm assms(2)] by (simp add: j_uint_set)
qed

lemma reconcile_other: "reconcile d = Inr d' \<Longrightarrow> k \<noteq> ''devices'' \<Longrightarrow> j_get d' k = j_get d k"
  by (auto simp: reconcile_Inr_iff doc_replace_Inr_iff)

lemma find_record_cong: "j_get d' c = j_get d c \<Longrightarrow> find_record d' c i = find_record d c i"
  by (simp add: find_record_def doc_record_def doc_records_def j_array_def)

lemma put_success:
  assumes "put save c record create revision now s = (Inr (), s')"
  obtains d e cache where "put_candidate s c record create revision now = Inr (d, e, cache)" and "config s' = d"
  using assms unfolding put_def
  by (auto simp: prepare_def after_def commit_def split: sum.splits prod.splits)

text \<open>C6: Updates of flows and scenes are compare-and-swap on the revision: a put that names a revision succeeds
  only while the stored record has that revision, the stored record then has the next one, and a second
  put that still names the old revision is refused with Changed and changes nothing. No update is lost.\<close>

theorem put_compare_and_swap:
  assumes "put save c record False (Some r) now s = (Inr (), s')" and "c \<in> {''flows'', ''scenes''}"
  shows "map_option (\<lambda>p. j_uint p ''revision'') (find_record (config s) c (j_text record ''id'')) = Some r
    \<and> map_option (\<lambda>p. j_uint p ''revision'') (find_record (config s') c (j_text record ''id'')) = checked_add r 1
    \<and> (\<forall>record2 now2. j_text record2 ''id'' = j_text record ''id''
         \<longrightarrow> put save c record2 False (Some r) now2 s' = (Inl Changed, s'))"
proof -
  let ?i = "j_text record ''id''"
  obtain d e cache where p: "put_candidate s c record False (Some r) now = Inr (d, e, cache)" and d: "config s' = d"
    using put_success [OF assms(1)] .
  obtain record1 d0 m cr up dl where i: "?i \<noteq> []" and rev: "map_option (\<lambda>p. j_uint p ''revision'') (find_record (config s) c ?i) = Some r"
    and st: "stamp_record (config s) c record False (find_record (config s) c ?i) now = Inr record1"
    and rep: "replace_record (config s) c record1 = Inr d0" and rec: "(if c = ''scenes'' then reconcile d0 else Inr d0) = Inr d"
    and ce: "collection_events c = Inr (m, cr, up, dl)"
    using p by (rule put_candidateE) simp
  obtain old where old: "find_record (config s) c ?i = Some old" "j_uint old ''revision'' = r" using rev by auto
  obtain n where n: "checked_add r 1 = Some n" "j_uint record1 ''revision'' = n"
    using stamp_revision [OF st assms(2)] old by auto
  have id: "j_text record1 ''id'' = ?i" using stamp_record_id [OF st] by metis
  have "find_record d c ?i = find_record d0 c ?i"
    using rec assms(2) by (intro find_record_cong) (auto simp: reconcile_other split: if_splits)
  also have "\<dots> = Some record1"
    using doc_record_replace(1) [OF rep] assms(2) id by (auto simp: find_record_def)
  finally have new: "find_record (config s') c ?i = Some record1" by (simp add: d)
  have "r \<noteq> n" using checked_add_1_less [OF n(1)] by simp
  then have "put save c record2 False (Some r) now2 s' = (Inl Changed, s')" if "j_text record2 ''id'' = ?i" for record2 now2
    using new n(2) i ce assms(2) that by (auto simp: put_def put_candidate_def prepare_def Let_def)
  then show ?thesis using rev new n by simp
qed

section \<open>Uninstalling an app\<close>

lemma delete_success:
  assumes "delete save c i s = (Inr (), s')"
  obtains d e st where "delete_candidate s c i = Inr (d, e)"
    and "s' = forget_deleted c i (publish e (s\<lparr>storage := st, config := d\<rparr>))"
  using assms unfolding delete_def
  by (auto simp: prepare_def after_def commit_def split: sum.splits prod.splits)

definition disabled :: "jvalue \<Rightarrow> jvalue \<Rightarrow> bool" where
  "disabled f f' \<longleftrightarrow> \<not> j_boolean f' ''enabled'' \<and> j_text f' ''lastError'' = ''app was uninstalled''
     \<and> checked_add (j_uint f ''revision'') 1 = Some (j_uint f' ''revision'')
     \<and> (\<forall>k. k \<notin> {''enabled'', ''lastError'', ''revision''} \<longrightarrow> j_get f' k = j_get f k)"

lemma j_boolean_set: "j_set v k w = Inr v' \<Longrightarrow> j_boolean v' key = (if key = k then (case as_bool w of None \<Rightarrow> False | Some b \<Rightarrow> b) else j_boolean v key)"
  by (auto simp: j_boolean_def j_get_set)

lemma disable_flow_result:
  "disable_flow d app f = Inr f' \<Longrightarrow> if references_app d app f then disabled f f' else f' = f"
  by (auto simp: disable_flow_def bump_revision_def bindR_Inr_iff ok_or_Inr_iff disabled_def j_text_set j_uint_set j_boolean_set j_get_set split: if_splits)

text \<open>C22: Deleting an app leaves nothing of it behind: its record, its devices, its settings and its state are
  gone from the document and its runtime entry from memory; no report or cache of a removed device is kept;
  every flow that used the app or one of its devices is disabled with the reason and a new revision, and
  every other flow, device and the rest of the document is untouched.\<close>

theorem delete_app_forgets:
  assumes "doc_ok (config s)" and "delete save ''apps'' app s = (Inr (), s')"
  shows "find_record (config s') ''apps'' app = None
    \<and> doc_records (config s') ''devices'' = filter (\<lambda>r. j_text r ''appId'' \<noteq> app) (doc_records (config s) ''devices'')
    \<and> (\<forall>k. k \<in> {''appSettings'', ''appState''} \<longrightarrow>
         (\<exists>ps. j_get (config s) k = Some (Object ps) \<and> j_get (config s') k = Some (Object (obj_remove ps app))))
    \<and> list_all2 (\<lambda>f f'. if references_app (config s) app f then disabled f f' else f' = f)
        (doc_records (config s) ''flows'') (doc_records (config s') ''flows'')
    \<and> (\<forall>k. k \<notin> {''apps'', ''flows'', ''devices'', ''appSettings'', ''appState''} \<longrightarrow> j_get (config s') k = j_get (config s) k)
    \<and> find_app s' app = None
    \<and> list_all (\<lambda>ob. known_device s' (ob_id ob)) (live s') \<and> list_all (\<lambda>(k, _). known_device s' k) (caches s')"
proof -
  obtain d e st where c: "delete_candidate s ''apps'' app = Inr (d, e)"
    and s': "s' = forget_deleted ''apps'' app (publish e (s\<lparr>storage := st, config := d\<rparr>))"
    using delete_success [OF assms(2)] .
  obtain d2 where u: "uninstall (config s) app = Inr d2" and r: "remove_record d2 ''apps'' app = Inr d"
    using c by (rule delete_candidateE) simp
  obtain flows where ok: "doc_ok d2" and fl: "mapR (disable_flow (config s) app) (doc_records (config s) ''flows'') = Inr flows"
    and flows: "doc_records d2 ''flows'' = flows"
    and devs: "doc_records d2 ''devices'' = filter (\<lambda>r. j_text r ''appId'' \<noteq> app) (doc_records (config s) ''devices'')"
    and set: "\<And>k. k \<in> {''appSettings'', ''appState''} \<Longrightarrow>
           \<exists>ps. j_get (config s) k = Some (Object ps) \<and> j_get d2 k = Some (Object (obj_remove ps app))"
    and frame: "\<And>k. k \<notin> {''flows'', ''devices'', ''appSettings'', ''appState''} \<Longrightarrow> j_get d2 k = j_get (config s) k"
    using uninstall_result [OF assms(1) u] by blast
  have g: "j_get d k = j_get d2 k" if "k \<noteq> ''apps''" for k using remove_record_Inr(2) [OF r that] .
  have conf: "config s' = d" using s' by simp
  have "find_record d ''apps'' app = None" using doc_record_remove(1) [OF r] by (simp add: find_record_def)
  moreover have "doc_records d ''devices'' = doc_records d2 ''devices''" "doc_records d ''flows'' = doc_records d2 ''flows''"
    by (rule records_cong, simp add: g)+
  moreover have "list_all2 (\<lambda>f f'. if references_app (config s) app f then disabled f f' else f' = f) (doc_records (config s) ''flows'') flows"
    using fl unfolding mapR_list_all2_iff by (rule list_all2_mono) (rule disable_flow_result)
  moreover have "find_app s' app = None" by (auto simp: find_app_def s' forget_deleted_def find_None_iff)
  moreover have "list_all (\<lambda>ob. known_device s' (ob_id ob)) (live s')" "list_all (\<lambda>(k, _). known_device s' k) (caches s')"
    by (auto simp: s' forget_deleted_def list_all_iff known_device_def)
  ultimately show ?thesis
    using set g frame by (auto simp: conf devs flows)
qed

section \<open>Image tickets\<close>

lemma share_image_parts:
  assumes "share_image i dev sl now s = (Inr v, s')"
  obtains m vs source where "\<forall>t \<in> set (images s). img_id t \<noteq> i" and "device_media s dev = Inr m" and "as_array m = Some vs"
    and "find (\<lambda>v. j_text v ''kind'' = ''image'' \<and> (sl = [] \<or> j_text v ''slot'' = sl)) vs = Some source"
    and "v = j_fields [(''url'', String (''/image/'' @ i))]"
    and "s' = s\<lparr>images := keep_tickets now (images s) @ [\<lparr>img_id = i, img_device = dev, img_slot = j_text source ''slot'',
                    img_expires = saturating_add now 900000\<rparr>]\<rparr>"
  using assms unfolding share_image_def
  by (auto simp: prepare_def bindR_Inr_iff list_ex_iff ok_or_Inr_iff bind_eq_Some_conv split: sum.splits if_splits)

lemma keep_tickets_subset: "set (keep_tickets now ts) \<subseteq> set ts"
proof -
  have "set (tl xs) \<subseteq> set xs" for xs :: "shared_image list" by (cases xs) auto
  from this [of "filter (\<lambda>t. now < img_expires t) ts"] show ?thesis by (auto simp: keep_tickets_def Let_def)
qed

lemma device_media_cong:
  assumes "config s' = config s" and "apps s' = apps s" and "media s' = media s"
  shows "device_media s' i = device_media s i"
  unfolding device_media_def app_status_def find_app_def assms ..

lemma find_last: "(\<And>x. x \<in> set xs \<Longrightarrow> \<not> P x) \<Longrightarrow> find P (xs @ [y]) = (if P y then Some y else None)"
  by (induction xs) auto

text \<open>A ticket for a still image stands for the slot it was asked for, until it expires and not longer: from
  the moment it is given out until fifteen minutes later it resolves to an image slot of that device that
  fits the request and to the app that owns the device, and from then on it does not exist.\<close>

theorem image_ticket_exact:
  assumes "share_image i dev sl now s = (Inr v, s')"
  shows "v = j_fields [(''url'', String (''/image/'' @ i))]
    \<and> (\<exists>app name. (sl = [] \<or> name = sl) \<and> (\<exists>d. doc_record (config s) ''devices'' dev = Inr d \<and> app = j_text d ''appId'')
        \<and> (\<forall>t. image_source s' i t =
            (if t < saturating_add now 900000
             then Inr (app, j_fields [(''deviceId'', String dev), (''slot'', String name), (''kind'', String ''image'')])
             else Inl (Missing ''image does not exist''))))"
proof -
  obtain m vs source where fresh: "\<forall>t \<in> set (images s). img_id t \<noteq> i" and m: "device_media s dev = Inr m" "as_array m = Some vs"
    and f: "find (\<lambda>v. j_text v ''kind'' = ''image'' \<and> (sl = [] \<or> j_text v ''slot'' = sl)) vs = Some source"
    and v: "v = j_fields [(''url'', String (''/image/'' @ i))]"
    and s': "s' = s\<lparr>images := keep_tickets now (images s) @ [\<lparr>img_id = i, img_device = dev, img_slot = j_text source ''slot'',
                    img_expires = saturating_add now 900000\<rparr>]\<rparr>"
    using share_image_parts [OF assms] .
  let ?t = "\<lparr>img_id = i, img_device = dev, img_slot = j_text source ''slot'', img_expires = saturating_add now 900000\<rparr>"
  have src: "source \<in> set vs" "j_text source ''kind'' = ''image''" "sl = [] \<or> j_text source ''slot'' = sl"
    using find_Some_set [OF f] by auto
  obtain d where d: "doc_record (config s) ''devices'' dev = Inr d"
    using m(1) by (auto simp: device_media_def bindR_Inr_iff)
  have new: "\<not> (img_id x = i \<and> t < img_expires x)" if "x \<in> set (keep_tickets now (images s))" for x t
    using fresh keep_tickets_subset [of now "images s"] that by auto
  have "find (\<lambda>x. img_id x = i \<and> t < img_expires x) (images s') = (if t < saturating_add now 900000 then Some ?t else None)" for t
    using find_last [of "keep_tickets now (images s)" "\<lambda>x. img_id x = i \<and> t < img_expires x" ?t, OF new] by (simp add: s')
  moreover have "device_media s' dev = Inr m" using m(1) device_media_cong [of s' s dev] by (simp add: s')
  moreover have "list_ex (\<lambda>v. j_text v ''slot'' = j_text source ''slot'' \<and> j_text v ''kind'' = ''image'') vs"
    using src by (auto simp: list_ex_iff)
  ultimately have "image_source s' i t = (if t < saturating_add now 900000
      then Inr (j_text d ''appId'', j_fields [(''deviceId'', String dev), (''slot'', String (j_text source ''slot'')), (''kind'', String ''image'')])
      else Inl (Missing ''image does not exist''))" for t
    using d m(2) by (simp add: image_source_def array_or_empty_def) (simp add: s')
  then show ?thesis using v d src(3) by blast
qed

section \<open>Rewriting references\<close>

text \<open>The substitution that the rewriting of a step is meant to be, and the values it accepts.\<close>

fun subst_value :: "string \<Rightarrow> string \<Rightarrow> jvalue \<Rightarrow> jvalue" where
  "subst_value old new (String t) = String (if t = old then new else t)"
| "subst_value old new (Object ps) = Object (map (\<lambda>(k, v). (k, subst_value old new v)) ps)"
| "subst_value old new (Array vs) = Array (map (subst_value old new) vs)"
| "subst_value old new v = v"

fun rewritable :: "nat \<Rightarrow> jvalue \<Rightarrow> bool" where
  "rewritable d (Object ps) \<longleftrightarrow> d \<le> 64 \<and> list_all (\<lambda>(k, v). rewritable (d + 1) v) ps"
| "rewritable d (Array vs) \<longleftrightarrow> d \<le> 64 \<and> length vs \<le> MAX_DOCUMENT \<and> list_all (rewritable (d + 1)) vs"
| "rewritable d v \<longleftrightarrow> d \<le> 64"

lemma ref_replace_all:
  "ref_replace v old new depth = (if rewritable depth v then Inr (subst_value old new v) else Inl Full)"
  "ref_replace_fields ps old new depth out =
     (if list_all (\<lambda>(k, v). rewritable depth v) ps then Inr (out @ map (\<lambda>(k, v). (k, subst_value old new v)) ps) else Inl Full)"
  "length outs \<le> MAX_DOCUMENT \<Longrightarrow> ref_replace_items vs old new depth outs =
     (if list_all (rewritable depth) vs \<and> length outs + length vs \<le> MAX_DOCUMENT
      then Inr (outs @ map (subst_value old new) vs) else Inl Full)"
  by (induction v old new depth and ps old new depth out and vs old new depth outs
      rule: ref_replace_ref_replace_fields_ref_replace_items.induct)
    (auto simp: obj_push_def j_push_def split: if_splits)

text \<open>Rewriting a value substitutes the identifier: every string equal to the old identifier becomes the new
  one and nothing else changes, and this succeeds exactly for values nested at most 64 deep whose arrays
  fit in a document; deeper values are refused whole.\<close>

theorem ref_replace_subst:
  "ref_replace v old new 0 = (if rewritable 0 v then Inr (subst_value old new v) else Inl Full)"
  by (rule ref_replace_all(1))

section \<open>Stores to try them on\<close>

lemma commit_memory: "doc_encode d = Inr bs \<Longrightarrow> commit memory_save d e s = (Inr (), publish e (s\<lparr>storage := (), config := d\<rparr>))"
  by (simp add: commit_def memory_save_def)

definition flow_document :: "jvalue \<Rightarrow> document" where
  "flow_document f = Object [(''version'', uint_value DOC_VERSION), (''apps'', Array []), (''devices'', Array []),
     (''deviceGroups'', Array []), (''flows'', Array [f]), (''scenes'', Array []), (''notifications'', Array []),
     (''appSettings'', Object []), (''appState'', Object []), (''system'', Object [])]"

definition flow_before :: "jvalue" where
  "flow_before = Object [(''id'', String ''f''), (''name'', String ''N''), (''revision'', uint_value 3)]"

definition flow_after :: "jvalue" where
  "flow_after = Object [(''id'', String ''f''), (''name'', String ''N''), (''revision'', uint_value 4), (''updatedAt'', String ''t'')]"

lemma encode_flow_after: "\<exists>bs. doc_encode (flow_document flow_after) = Inr bs"
proof -
  have "case to_string (flow_document flow_after) of Inl _ \<Rightarrow> False | Inr out \<Rightarrow> length out \<le> 500" by code_simp
  then show ?thesis by (auto simp: doc_encode_def MAX_BYTES_def split: sum.splits)
qed

lemma flow_put:
  obtains s' where "put memory_save ''flows'' (Object [(''id'', String ''f''), (''name'', String ''N'')]) False (Some 3) ''t''
    (store_with (flow_document flow_before)) = (Inr (), s')"
proof -
  let ?r = "Object [(''id'', String ''f''), (''name'', String ''N'')]" and ?d = "flow_document flow_before"
  have t: "trim ''N'' = ''N''" by (simp add: trim_printable printable_def)
  have v: "flow_validate flow_after = Inr ()" by code_simp
  have ref: "validate_references ?d flow_after = Inr ()"
    by (simp add: flow_after_def j_text_def Let_def uint_value_def)
  have prev: "find_record ?d ''flows'' ''f'' = Some flow_before"
    by (simp add: find_record_def doc_record_def flow_document_def flow_before_def doc_records_def j_array_def j_text_def)
  have st: "stamp_record ?d ''flows'' ?r False (Some flow_before) ''t'' = Inr flow_after"
    using v ref t
    by (simp add: stamp_record_def bump_revision_def j_uint_def checked_add_def keep_history_def normalize_def obj_insert_def
        obj_push_def flow_after_def flow_before_def j_text_def)
  have rep: "replace_record ?d ''flows'' flow_after = Inr (flow_document flow_after)"
    by (simp add: replace_record_def others_def flow_document_def flow_before_def flow_after_def doc_records_def j_array_def
        j_text_def collectR_def j_push_def doc_replace_def obj_insert_def MAX_RECORDS_def)
  have "\<exists>e. put_candidate (store_with ?d) ''flows'' ?r False (Some 3) ''t'' = Inr (flow_document flow_after, e, None)"
    using prev st rep
    by (simp add: put_candidate_def collection_events_def Let_def j_text_def new_event_def checked_add_def)
      (simp add: flow_before_def j_uint_def)
  then obtain e where "put_candidate (store_with ?d) ''flows'' ?r False (Some 3) ''t'' = Inr (flow_document flow_after, e, None)" ..
  then show thesis
    using that encode_flow_after by (auto simp: put_def prepare_def commit_memory after_def)
qed

theorem put_compare_and_swap_witness:
  "\<exists>s'. put memory_save ''flows'' (Object [(''id'', String ''f''), (''name'', String ''N'')]) False (Some 3) ''t''
      (store_with (flow_document flow_before)) = (Inr (), s')
    \<and> map_option (\<lambda>p. j_uint p ''revision'') (find_record (config s') ''flows'' ''f'') = Some 4
    \<and> put memory_save ''flows'' (Object [(''id'', String ''f''), (''name'', String ''M'')]) False (Some 3) ''u'' s' = (Inl Changed, s')"
proof -
  obtain s' where s': "put memory_save ''flows'' (Object [(''id'', String ''f''), (''name'', String ''N'')]) False (Some 3) ''t''
      (store_with (flow_document flow_before)) = (Inr (), s')" using flow_put .
  have "checked_add 3 1 = Some (4 :: u64)" by (simp add: checked_add_def)
  moreover have "j_text (Object [(''id'', String ''f''), (''name'', String c)]) ''id'' = ''f''" for c by (simp add: j_text_def)
  ultimately show ?thesis using put_compare_and_swap [OF s'] s' by simp
qed

section \<open>An app with one device\<close>

definition lamp :: "jvalue" where
  "lamp = Object [(''id'', String ''lamp''), (''appId'', String ''a''), (''createdAt'', String ''t''), (''updatedAt'', String ''t''),
     (''data'', Object []), (''settings'', Object []), (''store'', Object [(''__stulp.hardwareName'', String [])])]"

definition lamp_document :: "jvalue list \<Rightarrow> document" where
  "lamp_document ds = Object [(''version'', uint_value DOC_VERSION),
     (''apps'', Array [Object [(''id'', String ''a''), (''createdAt'', String ''t''), (''updatedAt'', String ''t'')]]), (''devices'', Array ds),
     (''deviceGroups'', Array []), (''flows'', Array []), (''scenes'', Array []), (''notifications'', Array []),
     (''appSettings'', Object []), (''appState'', Object []), (''system'', Object [])]"

lemma lamp_encodes: "ds \<in> {[], [lamp]} \<Longrightarrow> \<exists>bs. doc_encode (lamp_document ds) = Inr bs"
proof -
  have "list_all (\<lambda>ds. case to_string (lamp_document ds) of Inl _ \<Rightarrow> False | Inr out \<Rightarrow> length out \<le> 500) [[], [lamp]]" by code_simp
  then show "ds \<in> {[], [lamp]} \<Longrightarrow> ?thesis" by (auto simp: doc_encode_def MAX_BYTES_def split: sum.splits)
qed

lemma lamp_record: "doc_record (lamp_document [lamp]) ''devices'' ''lamp'' = Inr lamp"
  by (simp add: doc_record_def lamp_document_def lamp_def doc_records_def j_array_def j_text_def)

definition app_event :: event where
  "app_event = \<lparr>ev_sequence = 1, ev_manager = ''apps'', ev_kind = ''app.create'', ev_id = ''a''\<rparr>"

definition lamp_event :: event where
  "lamp_event = \<lparr>ev_sequence = 2, ev_manager = ''devices'', ev_kind = ''device.create'', ev_id = ''lamp''\<rparr>"

definition lamp_store :: "unit store" where
  "lamp_store = (store_with (lamp_document [lamp]))\<lparr>sequence := 2, events := [app_event, lamp_event]\<rparr>"

lemma app_put:
  "put memory_save ''apps'' (Object [(''id'', String ''a'')]) True None ''t'' (store_with empty_document)
     = (Inr (), publish app_event ((store_with (lamp_document []))\<lparr>storage := ()\<rparr>))"
proof -
  let ?r = "Object [(''id'', String ''a'')]"
  have n: "find_record empty_document ''apps'' ''a'' = None"
    by (simp add: find_record_def doc_record_def empty_document_def doc_records_def j_array_def)
  have st: "stamp_record empty_document ''apps'' ?r True None ''t'' = Inr (Object [(''id'', String ''a''), (''createdAt'', String ''t''), (''updatedAt'', String ''t'')])"
    by (simp add: stamp_record_def keep_history_def normalize_def obj_insert_def obj_push_def)
  have rep: "replace_record empty_document ''apps'' (Object [(''id'', String ''a''), (''createdAt'', String ''t''), (''updatedAt'', String ''t'')]) = Inr (lamp_document [])"
    by (simp add: replace_record_def others_def lamp_document_def empty_document_def doc_records_def j_array_def
        j_text_def collectR_def j_push_def doc_replace_def obj_insert_def MAX_RECORDS_def)
  have "put_candidate (store_with empty_document) ''apps'' ?r True None ''t'' = Inr (lamp_document [], app_event, None)"
    using n st rep
    by (simp add: put_candidate_def collection_events_def Let_def j_text_def new_event_def checked_add_def app_event_def)
  then show ?thesis
    using lamp_encodes [of "[]"] by (auto simp: put_def prepare_def commit_memory after_def put_cache_def store_with_def)
qed

lemma lamp_put:
  "put memory_save ''devices'' (Object [(''id'', String ''lamp''), (''appId'', String ''a'')]) True None ''t''
     (publish app_event ((store_with (lamp_document []))\<lparr>storage := ()\<rparr>)) = (Inr (), lamp_store)"
proof -
  let ?r = "Object [(''id'', String ''lamp''), (''appId'', String ''a'')]" and ?d = "lamp_document []"
  let ?s = "publish app_event ((store_with ?d)\<lparr>storage := ()\<rparr>)"
  have n: "find_record ?d ''devices'' ''lamp'' = None"
    by (simp add: find_record_def doc_record_def lamp_document_def doc_records_def j_array_def)
  have app: "is_ok (doc_record ?d ''apps'' ''a'')"
    by (simp add: doc_record_def lamp_document_def doc_records_def j_array_def j_text_def)
  have recs: "doc_records ?d ''devices'' = []" by (simp add: lamp_document_def doc_records_def j_array_def)
  have st: "stamp_record ?d ''devices'' ?r True None ''t'' = Inr lamp"
    using app recs
    by (auto simp: stamp_record_def keep_history_def normalize_def normalize_device_def obj_insert_def obj_push_def j_text_def APP_ID_def
        is_ok_iff default_object_def j_object_def keep_durable_def remove_keys_def VOLATILE_def lamp_def)
  have rep: "replace_record ?d ''devices'' lamp = Inr (lamp_document [lamp])"
    by (simp add: replace_record_def others_def lamp_document_def doc_records_def j_array_def
        collectR_def j_push_def doc_replace_def obj_insert_def MAX_RECORDS_def)
  have "put_candidate ?s ''devices'' ?r True None ''t'' = Inr (lamp_document [lamp], lamp_event, None)"
    using n st rep
    by (simp add: put_candidate_def collection_events_def Let_def j_text_def new_event_def checked_add_def lamp_event_def
        prepare_cache_def app_event_def)
  then show ?thesis
    using lamp_encodes [of "[lamp]"]
    by (auto simp: put_def prepare_def commit_memory after_def put_cache_def lamp_store_def publish_def EVENT_CAPACITY_def
        app_event_def lamp_event_def store_with_def)
qed

lemma lamp_reachable: "reachable memory_save lamp_store"
  using stepped [OF stepped [OF opened [OF open_fresh], of memory_save "Put ''apps'' (Object [(''id'', String ''a'')]) True None ''t''"],
      of _ _ "Put ''devices'' (Object [(''id'', String ''lamp''), (''appId'', String ''a'')]) True None ''t''"] app_put lamp_put
  by simp

lemma lamp_doc_ok: "doc_ok (lamp_document [lamp])"
  by (simp add: lamp_document_def lamp_def doc_ok_def COLLECTIONS_def SETTINGS_def collection_ok_def ids_ok_def MAX_RECORDS_def j_text_def)

theorem delete_app_forgets_witness:
  "\<exists>s'. delete memory_save ''apps'' ''a'' lamp_store = (Inr (), s')
     \<and> doc_records (config lamp_store) ''devices'' = [lamp] \<and> doc_records (config s') ''devices'' = []"
proof -
  have conf: "config lamp_store = lamp_document [lamp]" "sequence lamp_store = 2" by (simp_all add: lamp_store_def)
  have recs: "doc_records (lamp_document [lamp]) ''devices'' = [lamp]" by (simp add: lamp_document_def doc_records_def j_array_def)
  have un: "uninstall (lamp_document [lamp]) ''a'' = Inr (lamp_document [])"
    by (simp add: uninstall_def lamp_document_def lamp_def doc_records_def j_array_def collectR_def doc_replace_def obj_insert_def
        j_text_def forget_app_def doc_set_def)
  have rem: "remove_record (lamp_document []) ''apps'' ''a'' = Inr empty_document"
    by (simp add: remove_record_def others_def lamp_document_def empty_document_def doc_records_def j_array_def j_text_def
        collectR_def doc_replace_def obj_insert_def)
  have "is_ok (doc_record (lamp_document [lamp]) ''apps'' ''a'')"
    by (simp add: doc_record_def lamp_document_def doc_records_def j_array_def j_text_def)
  then have "\<exists>e. delete_candidate lamp_store ''apps'' ''a'' = Inr (empty_document, e)"
    using un rem by (auto simp: delete_candidate_def conf Let_def is_ok_iff collection_events_def new_event_def checked_add_def)
  then obtain s' where s': "delete memory_save ''apps'' ''a'' lamp_store = (Inr (), s')"
    using encode_empty by (auto simp: delete_def prepare_def commit_memory after_def)
  have "doc_records (config s') ''devices'' = filter (\<lambda>r. j_text r ''appId'' \<noteq> ''a'') [lamp]"
    using delete_app_forgets [OF _ s'] lamp_doc_ok by (simp add: conf recs)
  moreover have "j_text lamp ''appId'' = ''a''" by (simp add: lamp_def j_text_def)
  ultimately show ?thesis using s' by (simp add: conf recs)
qed

definition camera_store :: "unit store" where
  "camera_store = lamp_store\<lparr>apps := [\<lparr>app_id = ''a'', app_manifest = Null, app_state = ''running'', app_details = j_object\<rparr>],
     media := [(''lamp'', Array [Object [(''slot'', String ''snap''), (''kind'', String ''image'')]])]\<rparr>"

theorem image_ticket_exact_witness:
  "\<exists>s' v. share_image (replicate 32 (CHR ''x'')) ''lamp'' ''snap'' 5 camera_store = (Inr v, s')
     \<and> image_source s' (replicate 32 (CHR ''x'')) 6
         = Inr (''a'', j_fields [(''deviceId'', String ''lamp''), (''slot'', String ''snap''), (''kind'', String ''image'')])
     \<and> image_source s' (replicate 32 (CHR ''x'')) 900005 = Inl (Missing ''image does not exist'')"
proof -
  let ?i = "replicate 32 (CHR ''x'')"
  have conf: "config camera_store = lamp_document [lamp]" "images camera_store = []" by (simp_all add: camera_store_def lamp_store_def)
  have m: "device_media camera_store ''lamp'' = Inr (Array [Object [(''slot'', String ''snap''), (''kind'', String ''image'')]])"
  proof -
    have "doc_record (config camera_store) ''devices'' ''lamp'' = Inr lamp" "j_text lamp ''appId'' = ''a''"
      using lamp_record by (simp_all add: conf) (simp add: lamp_def j_text_def)
    moreover have "app_status camera_store ''a'' = ''running''" by (simp add: app_status_def find_app_def camera_store_def)
    moreover have "media camera_store = [(''lamp'', Array [Object [(''slot'', String ''snap''), (''kind'', String ''image'')]])]"
      by (simp add: camera_store_def)
    ultimately show ?thesis by (simp add: device_media_def)
  qed
  have all: "list_all ticket_char ?i" by (simp add: list_all_iff ticket_char_def)
  obtain v s' where r: "share_image ?i ''lamp'' ''snap'' 5 camera_store = (Inr v, s')"
    using all m conf by (simp add: share_image_def prepare_def j_text_def)
  have sat: "saturating_add 5 900000 = 900005" by (simp add: saturating_add_def)
  have "image_source s' ?i t = (if t < 900005
      then Inr (j_text lamp ''appId'', j_fields [(''deviceId'', String ''lamp''), (''slot'', String ''snap''), (''kind'', String ''image'')])
      else Inl (Missing ''image does not exist''))" for t
    using image_ticket_exact [OF r] lamp_record unfolding sat conf(1) by auto
  moreover have "j_text lamp ''appId'' = ''a''" by (simp add: lamp_def j_text_def)
  ultimately have "image_source s' ?i 6
         = Inr (''a'', j_fields [(''deviceId'', String ''lamp''), (''slot'', String ''snap''), (''kind'', String ''image'')])"
    "image_source s' ?i 900005 = Inl (Missing ''image does not exist'')" by simp_all
  then show ?thesis using r by blast
qed

end
