(* ===== verification/StoreReports.thy ===== *)
theory StoreReports
  imports StoreEffects
begin

text \<open>
  Device reports: every capability of a reported device carries a change cursor, the sequence number of
  the last report that changed its value. The cursors never run ahead of the event log, so a caller that
  remembers one can tell whether the capability has changed since.
\<close>

section \<open>Reports and their cursors\<close>

definition ob_ok :: "u64 \<Rightarrow> observation \<Rightarrow> bool" where
  "ob_ok n ob \<longleftrightarrow> (\<exists>ps. ob_revisions ob = Object ps
     \<and> (\<forall>(k, v) \<in> set ps. \<exists>m. v = uint_value m \<and> m \<le> n)
     \<and> (\<forall>k. j_get (ob_state ob) k \<noteq> None \<longrightarrow> obj_get ps k \<noteq> None))"

definition reports_ok :: "'s store \<Rightarrow> bool" where
  "reports_ok s \<longleftrightarrow> list_all (ob_ok (sequence s)) (live s)"

lemma ob_ok_mono: "ob_ok n ob \<Longrightarrow> n \<le> m \<Longrightarrow> ob_ok m ob"
  unfolding ob_ok_def by (fastforce intro: order.trans)

lemma reports_ok_subset:
  "reports_ok s \<Longrightarrow> set (live s') \<subseteq> set (live s) \<Longrightarrow> sequence s \<le> sequence s' \<Longrightarrow> reports_ok s'"
  by (auto simp: reports_ok_def list_all_iff intro: ob_ok_mono)

lemma set_update_first: "set (update_first P f xs) \<subseteq> set xs \<union> f ` set xs"
  by (induction xs) auto

lemma kept_revisions_get:
  assumes "ob_revisions old = Object ps"
  shows "obj_get (kept_revisions old state n @ new_revisions (Some old) state n) cap =
    (case obj_get ps cap of
       Some w \<Rightarrow> Some (if j_equal (j_field (ob_state old) cap) (j_field state cap) then w else uint_value n)
     | None \<Rightarrow> if j_get state cap = None then None else Some (uint_value n))"
proof -
  have kept: "obj_get (map (\<lambda>(c, w). (c, if j_equal (j_field (ob_state old) c) (j_field state c) then w else uint_value n)) qs) cap
      = map_option (\<lambda>w. if j_equal (j_field (ob_state old) cap) (j_field state cap) then w else uint_value n) (obj_get qs cap)" for qs
    by (induction qs) (auto split: if_splits)
  have new: "obj_get (map (\<lambda>(c, _). (c, uint_value n)) (filter (\<lambda>(c, _). obj_get ps c = None) qs)) cap
      = (if obj_get ps cap = None \<and> obj_get qs cap \<noteq> None then Some (uint_value n) else None)" for qs
    by (induction qs) (auto split: if_splits)
  have "obj_get (kept_revisions old state n) cap
      = map_option (\<lambda>w. if j_equal (j_field (ob_state old) cap) (j_field state cap) then w else uint_value n) (obj_get ps cap)"
    unfolding kept [symmetric] by (simp add: kept_revisions_def assms)
  moreover have "obj_get (new_revisions (Some old) state n) cap
      = (if obj_get ps cap = None \<and> j_get state cap \<noteq> None then Some (uint_value n) else None)"
    by (cases state) (auto simp: new_revisions_def assms new j_get_def)
  ultimately show ?thesis by (auto simp: obj_get_append split: option.splits)
qed

lemma first_revisions_get:
  "obj_get (new_revisions None state n) cap = (if j_get state cap = None then None else Some (uint_value n))"
proof -
  have "obj_get (map (\<lambda>(c, _). (c, uint_value n)) qs) cap = (if obj_get qs cap = None then None else Some (uint_value n))" for qs
    by (induction qs) (auto split: if_splits)
  then show ?thesis by (cases state) (auto simp: new_revisions_def j_get_def)
qed

text \<open>What a successful report does to the table of observations.\<close>

lemma observe_success:
  assumes "observe app i state available message s = (Inr (), s')"
  obtains n ob where "checked_add (sequence s) 1 = Some n" and "sequence s' = n" and "config s' = config s" and "caches s' = caches s"
    and "ob = \<lparr>ob_id = i, ob_state = state,
                 ob_revisions = Object ((case find_live s i of None \<Rightarrow> [] | Some old \<Rightarrow> kept_revisions old state n)
                                        @ new_revisions (find_live s i) state n),
                 ob_available = available, ob_message = message\<rparr>"
    and "live s' = (if find_live s i \<noteq> None then update_first (\<lambda>x. ob_id x = i) (\<lambda>_. ob) (live s) else live s @ [ob])"
    and "as_object state \<noteq> None"
proof -
  obtain lv name ch tr e where p: "observe_prepare s app i state available message = Inr (lv, name, ch, tr, e)"
    and s': "s' = publish e ((collect i name state (s\<lparr>live := lv\<rparr>))\<lparr>triggers := triggers (collect i name state (s\<lparr>live := lv\<rparr>)) @ ch,
        scene_trips := scene_trips (collect i name state (s\<lparr>live := lv\<rparr>)) @ tr\<rparr>)"
    using assms unfolding observe_def by (auto simp: prepare_def Let_def split: sum.splits prod.splits)
  obtain n where n: "checked_add (sequence s) 1 = Some n" and e: "new_event s ''devices'' ''device.update'' i = Inr e"
    and lv: "(if find_live s i \<noteq> None then Inr (update_first (\<lambda>ob. ob_id ob = i) (\<lambda>_. \<lparr>ob_id = i, ob_state = state,
                 ob_revisions = Object ((case find_live s i of None \<Rightarrow> [] | Some old \<Rightarrow> kept_revisions old state n)
                                        @ new_revisions (find_live s i) state n),
                 ob_available = available, ob_message = message\<rparr>) (live s))
            else j_push (live s) \<lparr>ob_id = i, ob_state = state,
                 ob_revisions = Object ((case find_live s i of None \<Rightarrow> [] | Some old \<Rightarrow> kept_revisions old state n)
                                        @ new_revisions (find_live s i) state n),
                 ob_available = available, ob_message = message\<rparr> MAX_RECORDS) = Inr lv"
    and st: "as_object state \<noteq> None"
    using p unfolding observe_prepare_def Let_def
    by (auto simp: bindR_Inr_iff if_Inl_Inr_iff ok_or_Inr_iff split del: if_split)
  have "ev_sequence e = n" using e n by (auto simp: new_event_def)
  moreover have "live (collect i name state (s\<lparr>live := lv\<rparr>)) = lv" "caches (collect i name state (s\<lparr>live := lv\<rparr>)) = caches s"
    by (auto simp: collect_def split: prod.splits sum.splits)
  ultimately show thesis
    using that [OF n _ _ _ refl] lv st by (auto simp: s' j_push_Inr_iff split: if_splits)
qed

text \<open>The observation a report leaves has cursors for everything reported, none ahead of the log.\<close>

lemma revisions_entries:
  assumes "ob_revisions old = Object ps" and "(k, v) \<in> set (kept_revisions old state n @ new_revisions (Some old) state n)"
  shows "v = uint_value n \<or> (k, v) \<in> set ps"
  using assms by (auto simp: kept_revisions_def new_revisions_def split: option.splits if_splits)

lemma observed_ok:
  assumes "find_live s i = None \<or> (\<exists>old. find_live s i = Some old \<and> ob_ok m old)" and "m \<le> n"
    and "ob_state ob = state" and "ob_revisions ob = Object ((case find_live s i of None \<Rightarrow> [] | Some old \<Rightarrow> kept_revisions old state n)
                                        @ new_revisions (find_live s i) state n)"
  shows "ob_ok n ob"
proof (cases "find_live s i")
  case None
  then show ?thesis
    using assms(3,4) first_revisions_get [of state n]
    by (auto simp: ob_ok_def new_revisions_def split: option.splits)
next
  case (Some old)
  then obtain ps where ps: "ob_revisions old = Object ps" and le: "\<forall>(k, v) \<in> set ps. \<exists>l. v = uint_value l \<and> l \<le> m"
    using assms(1) by (auto simp: ob_ok_def)
  have "\<exists>l. v = uint_value l \<and> l \<le> n" if "(k, v) \<in> set (kept_revisions old state n @ new_revisions (Some old) state n)" for k v
    using revisions_entries [OF ps that] le assms(2) by (fastforce intro: order.trans)
  then show ?thesis
    using assms(3,4) Some kept_revisions_get [OF ps, of state n] by (auto simp: ob_ok_def split: option.splits)
qed

lemma reports_ok_find: "reports_ok s \<Longrightarrow> find_live s i = Some ob \<Longrightarrow> ob_ok (sequence s) ob"
  using find_Some_set [of "\<lambda>x. ob_id x = i" "live s" ob] by (simp add: reports_ok_def list_all_iff find_live_def)

lemma observe_reports_ok:
  assumes "observe app i state available message s = (Inr (), s')" and "reports_ok s"
  shows "reports_ok s'"
  using assms(1)
proof (rule observe_success)
  fix n ob
  assume n: "checked_add (sequence s) 1 = Some n" "sequence s' = n"
    and ob: "ob = \<lparr>ob_id = i, ob_state = state,
                 ob_revisions = Object ((case find_live s i of None \<Rightarrow> [] | Some old \<Rightarrow> kept_revisions old state n)
                                        @ new_revisions (find_live s i) state n),
                 ob_available = available, ob_message = message\<rparr>"
    and lv: "live s' = (if find_live s i \<noteq> None then update_first (\<lambda>x. ob_id x = i) (\<lambda>_. ob) (live s) else live s @ [ob])"
  have le: "sequence s \<le> n" using checked_add_1_less [OF n(1)] by simp
  have "find_live s i = None \<or> (\<exists>old. find_live s i = Some old \<and> ob_ok (sequence s) old)"
    using reports_ok_find [OF assms(2)] by (cases "find_live s i") simp_all
  from observed_ok [OF this le, of ob state] have "ob_ok n ob" by (simp add: ob)
  moreover have "set (live s') \<subseteq> insert ob (set (live s))"
    using set_update_first [of "\<lambda>x. ob_id x = i" "\<lambda>_. ob" "live s"] by (auto simp: lv split: if_splits)
  ultimately show ?thesis
    using assms(2) ob_ok_mono [OF _ le] n(2) by (auto simp: reports_ok_def list_all_iff)
qed

lemma route_ok:
  assumes "add_route source merged cv (destinations, state, revisions) = Inr (destinations', state', revisions')"
    and "\<And>ob. source = Some ob \<Longrightarrow> ob_ok n ob"
    and "ob_ok n \<lparr>ob_id = i, ob_state = state, ob_revisions = revisions, ob_available = a, ob_message = msg\<rparr>"
  shows "ob_ok n \<lparr>ob_id = i, ob_state = state', ob_revisions = revisions', ob_available = a', ob_message = msg'\<rparr>"
proof -
  obtain cap v where cv: "cv = (cap, v)" by (cases cv)
  obtain target where st: "carry (map_option ob_state source) cap target state = Inr state'"
    and rv: "carry (map_option ob_revisions source) cap target revisions = Inr revisions'"
    using assms(1) by (auto simp: add_route_def cv bindR_Inr_iff if_Inl_Inr_iff)
  obtain ps where ps: "revisions = Object ps" "\<forall>(k, v) \<in> set ps. \<exists>m. v = uint_value m \<and> m \<le> n"
    "\<And>k. j_get state k \<noteq> None \<Longrightarrow> obj_get ps k \<noteq> None" using assms(3) by (auto simp: ob_ok_def)
  show ?thesis
  proof (cases source)
    case None
    then show ?thesis using st rv assms(3) by (auto simp: carry_def ob_ok_def)
  next
    case (Some ob)
    obtain qs where qs: "ob_revisions ob = Object qs" "\<forall>(k, v) \<in> set qs. \<exists>m. v = uint_value m \<and> m \<le> n"
      "\<And>k. j_get (ob_state ob) k \<noteq> None \<Longrightarrow> obj_get qs k \<noteq> None" using assms(2) [OF Some] by (auto simp: ob_ok_def)
    show ?thesis
    proof (cases "obj_get qs cap")
      case None
      then have "j_get (ob_state ob) cap = None" using qs(3) [of cap] by blast
      then have "state' = state" "revisions' = revisions"
        using st rv qs(1) Some None by (auto simp: carry_def)
      then show ?thesis using assms(3) by (auto simp: ob_ok_def)
    next
      case r: (Some w)
      then have rev': "revisions' = Object (obj_insert ps target w)"
        using rv qs(1) Some ps(1) by (simp add: carry_def)
      have "\<exists>m. w = uint_value m \<and> m \<le> n" using qs(2) obj_get_Some_in [OF r] by auto
      then have "\<forall>(k, v) \<in> set (obj_insert ps target w). \<exists>m. v = uint_value m \<and> m \<le> n"
        using ps(2) set_obj_insert [of ps target w] by auto
      moreover have "obj_get (obj_insert ps target w) k \<noteq> None" if "j_get state' k \<noteq> None" for k
        using that st ps(3) [of k] Some by (auto simp: carry_def j_get_set split: option.splits if_splits)
      ultimately show ?thesis by (auto simp: ob_ok_def rev')
    qed
  qed
qed

lemma consolidated_ok:
  assumes "consolidate_prepare s app merged replacements now = Inr c" and "reports_ok s"
  shows "ob_ok (sequence s) (con_observation c)"
proof -
  define ok where "ok = (\<lambda>(destinations :: string list, state, revisions).
    ob_ok (sequence s) \<lparr>ob_id = [], ob_state = state, ob_revisions = revisions, ob_available = False, ob_message = []\<rparr>)"
  obtain entries i previous merged1 destinations state revisions a msg where
    f: "foldR (add_source s i previous merged1) entries ([], j_object, j_object) = Inr (destinations, state, revisions)"
    and c: "con_observation c = \<lparr>ob_id = i, ob_state = state, ob_revisions = revisions, ob_available = a, ob_message = msg\<rparr>"
    using assms(1) unfolding consolidate_prepare_def Let_def
    by (auto simp: bindR_Inr_iff if_Inl_Inr_iff split: prod.splits)
  have route: "ok y" if "ok x" "add_route (find_live s old) merged1 cv x = Inr y" for old cv x y
    using that route_ok [of "find_live s old" merged1 cv] reports_ok_find [OF assms(2)] by (cases x; cases y) (auto simp: ok_def)
  have "ok y" if x: "ok x" and y: "add_source s i previous merged1 p x = Inr y" for p x y
  proof -
    obtain old r where p: "p = (old, r)" by (cases p)
    obtain caps where "foldR (add_route (find_live s old) merged1) caps x = Inr y"
      using y by (auto simp: add_source_def p bindR_Inr_iff if_Inl_Inr_iff)
    then show ?thesis using x route by (rule foldR_inv)
  qed
  moreover have "ok ([], j_object, j_object)" by (simp add: ok_def ob_ok_def j_object_def)
  ultimately have "ok (destinations, state, revisions)" using foldR_inv [OF f, of ok] by blast
  then show ?thesis by (simp add: c ok_def ob_ok_def)
qed

section \<open>Every operation keeps the cursors\<close>

lemma publish_all_live [simp]: "live (publish_all evs s) = live s"
  by (induction evs arbitrary: s) simp_all

lemma collect_live [simp]: "live (collect i name state s) = live s"
  by (auto simp: collect_def split: prod.splits sum.splits)

lemma put_cache_live [simp]: "live (put_cache cache s) = live s"
  by (auto simp: put_cache_def split: option.splits)

lemmas run_defs = prepare_def after_def commit_def quiet_def Let_def

lemma live_prepare: "(\<And>a. live (snd (f a s)) = live s) \<Longrightarrow> live (snd (prepare m f s)) = live s"
  by (simp add: prepare_def split: sum.split)

lemma live_commit [simp]: "live (snd (commit save d e s)) = live s"
  by (simp add: commit_def split: sum.split prod.split)

lemma live_after: "(\<And>s. live (snd (f s)) = live s) \<Longrightarrow> live (snd (after m f)) = live (snd m)"
  by (simp add: after_def split: sum.split prod.split)

lemma live_same:
  "live (snd (put save c r create revision now s)) = live s" "live (snd (setting save app key ov s)) = live s"
  "live (snd (set_app_state save app v s)) = live s" "live (snd (system save v s)) = live s"
  "live (snd (flow_result save i ran_at failure now s)) = live s" "live (snd (reorder_devices save grp ids s)) = live s"
  unfolding put_def setting_def set_app_state_def system_def flow_result_def reorder_devices_def
  by (rule live_prepare, simp add: live_after live_prepare split: prod.split)+

lemma live_same_scenes:
  "live (snd (commit_scene_state save i scene s)) = live s" "live (snd (replace_references save app replacements now s)) = live s"
  by (auto simp: commit_scene_state_def replace_references_def run_defs split: sum.splits prod.splits)

lemma snd_after: "snd (after m (Pair (Inr a))) = snd m"
  by (auto simp: after_def split: prod.splits sum.splits)

lemma live_same_scene_ops:
  "live (snd (begin_scene save i previous s)) = live s" "live (snd (scene_remaining save i remaining s)) = live s"
  by (auto simp: begin_scene_def scene_remaining_def prepare_def live_same_scenes snd_after split: sum.splits)

lemma kept_live: "kept s s' \<Longrightarrow> live s' = live s"
proof -
  assume "kept s s'"
  then have k: "s' = s\<lparr>storage := storage s'\<rparr>" by (simp only: kept_def)
  show "live s' = live s" using arg_cong [OF k, of live] by simp
qed

lemma live_same_volatile:
  "live (snd (trigger app params s)) = live s" "live (snd (take_trigger s)) = live s"
  "live (snd (take_scene_trip s)) = live s" "live (snd (register_media app params s)) = live s"
  "live (snd (share_image tid dev sl tm s)) = live s" "live (snd (announce i m s)) = live s"
  "live (snd (set_app_status i st s)) = live s" "live (snd (set_app_runtime i details s)) = live s"
  "live (store_tick ms s) = live s" "live (configure lang zone s) = live s"
  "live (snd (take_statistics_fault s)) = live s" "live (clear_app_media app s) = live s"
  by (auto simp: trigger_def take_trigger_def take_scene_trip_def register_media_def share_image_def announce_def
      set_app_status_def set_app_runtime_def store_tick_def configure_def take_statistics_fault_def clear_app_media_def prepare_def Let_def
      split: sum.splits list.splits)

lemma live_subset:
  "set (live (snd (delete save c i s))) \<subseteq> set (live s)" "set (live (snd (restore save bs s))) \<subseteq> set (live s)"
  by (auto simp: delete_def restore_def forget_deleted_def run_defs split: sum.splits prod.splits)

lemma live_consolidated:
  "set (live (snd (consolidate_devices save app merged replacements now s))) \<subseteq>
     set (live s) \<union> (case consolidate_prepare s app merged replacements now of Inl _ \<Rightarrow> {} | Inr c \<Rightarrow> {con_observation c})"
  by (auto simp: consolidate_devices_def route_runtime_def prepare_def split: sum.splits prod.splits)

lemma run_op_reports_ok:
  assumes "run_op save op s = (r, s')" and "reports_ok s"
  shows "reports_ok s'"
proof -
  have seq: "sequence s \<le> sequence s'" using run_op_advances [OF assms(1)] by (simp add: advances_def)
  have sub: "set (live s') \<subseteq> set (live s) \<Longrightarrow> ?thesis" by (rule reports_ok_subset [OF assms(2) _ seq])
  have s': "s' = snd (run_op save op s)" using assms(1) by simp
  show ?thesis
  proof (cases op)
    case (Observe app i state available message)
    show ?thesis
    proof (cases r)
      case (Inl e)
      then have "kept s s'" using ends_failed run_op_ends [of save s op] assms(1) by metis
      then show ?thesis using sub kept_live [of s s'] by simp
    next
      case (Inr u)
      then show ?thesis using observe_reports_ok [of app i state available message s s'] assms Observe by simp
    qed
  next
    case (ConsolidateDevices app merged replacements now)
    then show ?thesis
      using live_consolidated [of save app merged replacements now s] consolidated_ok [OF _ assms(2)] assms(2) ob_ok_mono [OF _ seq] s'
      by (fastforce simp: reports_ok_def list_all_iff split: sum.splits)
  next
    case (Delete c i)
    then show ?thesis using sub live_subset(1) [of save c i s] s' by simp
  next
    case (Restore bs)
    then show ?thesis using sub live_subset(2) [of save bs s] s' by simp
  qed (use sub s' in \<open>auto simp: live_same live_same_scene_ops live_same_scenes live_same_volatile\<close>)
qed

lemma reachable_reports_ok: "reachable save s \<Longrightarrow> reports_ok s"
proof (induction rule: reachable.induct)
  case (opened bs st s)
  then show ?case by (auto simp: store_open_def bindR_Inr_iff reports_ok_def)
qed (rule run_op_reports_ok)

section \<open>Properties\<close>

lemma find_update_first:
  "find (\<lambda>x. ob_id x = i) (update_first (\<lambda>x. ob_id x = i) (\<lambda>_. ob) xs) = (if find (\<lambda>x. ob_id x = i) xs = None then None else Some ob)"
  if "ob_id ob = i"
  using that by (induction xs) auto

lemma find_update_first_other:
  "j \<noteq> i \<Longrightarrow> ob_id ob = i \<Longrightarrow> find (\<lambda>x. ob_id x = j) (update_first (\<lambda>x. ob_id x = i) (\<lambda>_. ob) xs) = find (\<lambda>x. ob_id x = j) xs"
  by (induction xs) auto

lemma find_append: "find P (xs @ ys) = (case find P xs of None \<Rightarrow> find P ys | Some x \<Rightarrow> Some x)"
  by (induction xs) auto

lemma observe_live:
  assumes "observe app i state available message s = (Inr (), s')"
  obtains n where "checked_add (sequence s) 1 = Some n" and "sequence s' = n" and "config s' = config s" and "caches s' = caches s"
    and "find_live s' i = Some \<lparr>ob_id = i, ob_state = state,
                 ob_revisions = Object ((case find_live s i of None \<Rightarrow> [] | Some old \<Rightarrow> kept_revisions old state n)
                                        @ new_revisions (find_live s i) state n),
                 ob_available = available, ob_message = message\<rparr>"
    and "\<And>j. j \<noteq> i \<Longrightarrow> find_live s' j = find_live s j"
  using assms
proof (rule observe_success)
  fix n ob
  assume n: "checked_add (sequence s) 1 = Some n" "sequence s' = n" "config s' = config s" "caches s' = caches s"
    and ob: "ob = \<lparr>ob_id = i, ob_state = state,
                 ob_revisions = Object ((case find_live s i of None \<Rightarrow> [] | Some old \<Rightarrow> kept_revisions old state n)
                                        @ new_revisions (find_live s i) state n),
                 ob_available = available, ob_message = message\<rparr>"
    and lv: "live s' = (if find_live s i \<noteq> None then update_first (\<lambda>x. ob_id x = i) (\<lambda>_. ob) (live s) else live s @ [ob])"
  have i: "ob_id ob = i" by (simp add: ob)
  have "find_live s' i = Some ob"
    using i find_update_first [OF i, of "live s"] by (auto simp: find_live_def lv find_append)
  moreover have "find_live s' j = find_live s j" if "j \<noteq> i" for j
    using i that find_update_first_other [OF that i, of "live s"] by (auto simp: find_live_def lv find_append split: option.splits)
  ultimately show thesis using that [OF n] ob by simp
qed

lemma device_object:
  assumes "doc_ok d" and "doc_record d ''devices'' i = Inr r"
  shows "\<exists>ps. r = Object ps"
  using doc_ok_records(3) [OF assms(1), of "''devices''" r] doc_record_Inr [OF assms(2)] j_text_Object [of r "''id''"]
  by (simp add: COLLECTIONS_def)

text \<open>A report reaches the device snapshot unchanged: after a successful report the device shows exactly the
  reported state, availability and message, the document is untouched, and no other device is affected.\<close>

theorem report_reaches_device:
  assumes "observe app i state available message s = (Inr (), s')" and "doc_ok (config s)"
    and "doc_record (config s) ''devices'' i = Inr r" and "j_text r ''appId'' \<noteq> APP_ID" and "with_cache s i r = Inr out"
  shows "(\<exists>v. device s' i = Inr v \<and> j_get v ''state'' = Some state \<and> j_get v ''available'' = Some (Bool available)
      \<and> j_get v ''unavailableMessage'' = Some (String message)
      \<and> (\<forall>k. k \<notin> {''state'', ''available'', ''unavailableMessage''} \<longrightarrow> j_get v k = j_get out k))
    \<and> config s' = config s \<and> (\<forall>j. j \<noteq> i \<longrightarrow> find_live s' j = find_live s j)"
proof -
  obtain n where c: "config s' = config s" "caches s' = caches s"
    and ob: "find_live s' i = Some \<lparr>ob_id = i, ob_state = state,
                 ob_revisions = Object ((case find_live s i of None \<Rightarrow> [] | Some old \<Rightarrow> kept_revisions old state n)
                                        @ new_revisions (find_live s i) state n),
                 ob_available = available, ob_message = message\<rparr>"
    and other: "\<And>j. j \<noteq> i \<Longrightarrow> find_live s' j = find_live s j"
    using observe_live [OF assms(1)] by blast
  have wc: "with_cache s' i r = Inr out" using assms(5) unfolding with_cache_def c(2) .
  obtain rs where "r = Object rs" using device_object [OF assms(2,3)] by blast
  then obtain ps where out: "out = Object ps" and app: "j_text out ''appId'' = j_text r ''appId''"
    using assms(5) by (auto simp: with_cache_def bindR_Inr_iff split: option.splits prod.splits)
  have sc: "scene_of_device s' i out = None" using app assms(4) by (simp add: scene_of_device_def)
  have "\<exists>v. device s' i = Inr v \<and> j_get v ''state'' = Some state \<and> j_get v ''available'' = Some (Bool available)
      \<and> j_get v ''unavailableMessage'' = Some (String message)
      \<and> (\<forall>k. k \<notin> {''state'', ''available'', ''unavailableMessage''} \<longrightarrow> j_get v k = j_get out k)"
    using wc sc assms(3) by (simp add: device_def c(1) Let_def out ob device_state_def)
  then show ?thesis using c(1) other by blast
qed

text \<open>C23: The change cursor of a capability is exact. When a device reports again, the cursor of a capability
  that both reports carry stays the same if and only if its value stayed equal; a changed or newly
  reported capability gets the sequence number of the new report.\<close>

theorem capability_revision_exact:
  assumes "reachable save s" and "observe app i state available message s = (Inr (), s')"
    and "find_live s i = Some old" and "j_get state cap = Some y"
  shows "(case j_get (ob_state old) cap of
      Some x \<Rightarrow> (capability_revision s' i cap = capability_revision s i cap \<longleftrightarrow> j_equal x y)
        \<and> (\<not> j_equal x y \<longrightarrow> capability_revision s' i cap = sequence s')
    | None \<Rightarrow> True) \<and> capability_revision s' i cap \<le> sequence s'"
proof -
  have ok: "ob_ok (sequence s) old" using reports_ok_find [OF reachable_reports_ok [OF assms(1)] assms(3)] .
  obtain ps where ps: "ob_revisions old = Object ps" "\<forall>(k, v) \<in> set ps. \<exists>m. v = uint_value m \<and> m \<le> sequence s"
    "\<And>k. j_get (ob_state old) k \<noteq> None \<Longrightarrow> obj_get ps k \<noteq> None" using ok by (auto simp: ob_ok_def)
  obtain n where n: "checked_add (sequence s) 1 = Some n" "sequence s' = n"
    and ob: "find_live s' i = Some \<lparr>ob_id = i, ob_state = state,
                 ob_revisions = Object (kept_revisions old state n @ new_revisions (Some old) state n),
                 ob_available = available, ob_message = message\<rparr>"
    by (rule observe_live [OF assms(2)]) (use assms(3) in \<open>auto intro: that\<close>)
  have less: "sequence s < n" by (rule checked_add_1_less [OF n(1)])
  have rev: "capability_revision s' i cap = (case obj_get ps cap of
       Some w \<Rightarrow> if j_equal (j_field (ob_state old) cap) y then (case as_u64 w of None \<Rightarrow> 0 | Some m \<Rightarrow> m) else n
     | None \<Rightarrow> n)"
    using assms(4) by (simp add: capability_revision_def ob j_uint_def kept_revisions_get [OF ps(1)] j_field_def split: option.splits)
  have cap: "capability_revision s i cap = (case obj_get ps cap of None \<Rightarrow> 0 | Some w \<Rightarrow> (case as_u64 w of None \<Rightarrow> 0 | Some m \<Rightarrow> m))"
    by (simp add: capability_revision_def assms(3) j_uint_def ps(1) split: option.splits)
  have le: "\<exists>m. w = uint_value m \<and> m \<le> sequence s" if "obj_get ps cap = Some w" for w
    using ps(2) obj_get_Some_in [OF that] by auto
  show ?thesis
  proof (cases "j_get (ob_state old) cap")
    case None
    then show ?thesis using rev le less n(2) by (auto split: option.splits)
  next
    case (Some x)
    then obtain w where w: "obj_get ps cap = Some w" using ps(3) by blast
    then obtain m where "w = uint_value m" "m \<le> sequence s" using le by blast
    then show ?thesis using rev cap w Some less n(2) by (auto simp: j_field_def)
  qed
qed

section \<open>The lamp reports\<close>

definition lamp_report :: "bool \<Rightarrow> jvalue" where
  "lamp_report b = Object [(''onoff'', Bool b)]"

definition lamp_seen :: observation where
  "lamp_seen = \<lparr>ob_id = ''lamp'', ob_state = lamp_report True, ob_revisions = Object [(''onoff'', uint_value 3)],
     ob_available = True, ob_message = []\<rparr>"

definition report_event :: "u64 \<Rightarrow> event" where
  "report_event n = \<lparr>ev_sequence = n, ev_manager = ''devices'', ev_kind = ''device.update'', ev_id = ''lamp''\<rparr>"

lemma lamp_quiet:
  "j_text lamp ''appId'' = ''a''" "doc_records (lamp_document [lamp]) ''scenes'' = []"
  "config lamp_store = lamp_document [lamp]" "live lamp_store = []" "sequence lamp_store = 2" "triggers lamp_store = []"
  "scene_trips lamp_store = []" "\<not> statistics_enabled (lamp_store\<lparr>live := l\<rparr>)"
  by (simp_all add: lamp_def j_text_def lamp_document_def doc_records_def j_array_def lamp_store_def statistics_enabled_def j_boolean_def)

lemma first_report:
  "observe ''a'' ''lamp'' (lamp_report True) True [] lamp_store = (Inr (), publish (report_event 3) (lamp_store\<lparr>live := [lamp_seen]\<rparr>))"
  by (simp add: observe_def observe_prepare_def prepare_def lamp_quiet lamp_record find_live_def lamp_report_def Let_def
      new_event_def checked_add_def j_push_def MAX_RECORDS_def collect_def new_revisions_def lamp_seen_def report_event_def)

lemma second_report:
  obtains s' where "observe ''a'' ''lamp'' (lamp_report False) True [] (publish (report_event 3) (lamp_store\<lparr>live := [lamp_seen]\<rparr>)) = (Inr (), s')"
proof -
  have t: "trips (lamp_document [lamp]) ''lamp'' (lamp_report True) (lamp_report False) = Inr []"
    by (simp add: trips_def lamp_quiet)
  have "case changes lamp (lamp_report True) (lamp_report False) of Inl _ \<Rightarrow> False | Inr ch \<Rightarrow> length ch \<le> 2" by code_simp
  then obtain ch where ch: "changes lamp (lamp_report True) (lamp_report False) = Inr ch" "length ch \<le> 2"
    by (auto split: sum.splits)
  let ?s = "publish (report_event 3) (lamp_store\<lparr>live := [lamp_seen]\<rparr>)"
  have o: "as_object (lamp_report False) = Some [(''onoff'', Bool False)]" by (simp add: lamp_report_def)
  have fl: "find_live ?s ''lamp'' = Some lamp_seen" "ob_state lamp_seen = lamp_report True"
    by (simp_all add: find_live_def lamp_seen_def)
  have n: "checked_add 3 1 = Some (4 :: u64)" "ev_sequence (report_event 3) = 3" by (simp_all add: checked_add_def report_event_def)
  have "is_ok (observe_prepare ?s ''a'' ''lamp'' (lamp_report False) True [])"
    using t ch by (simp add: observe_prepare_def lamp_quiet lamp_record Let_def o fl n new_event_def MAX_TRIGGERS_def is_ok_def)
  then show thesis using that by (auto simp: observe_def prepare_def Let_def is_ok_iff)
qed

theorem report_reaches_device_witness:
  "\<exists>s' v. observe ''a'' ''lamp'' (lamp_report True) True [] lamp_store = (Inr (), s')
     \<and> device s' ''lamp'' = Inr v \<and> j_get v ''state'' = Some (lamp_report True)"
proof -
  have "doc_ok (config lamp_store)"
    by (simp add: lamp_quiet lamp_document_def lamp_def doc_ok_def COLLECTIONS_def SETTINGS_def collection_ok_def ids_ok_def MAX_RECORDS_def j_text_def)
  moreover have "doc_record (config lamp_store) ''devices'' ''lamp'' = Inr lamp" by (simp add: lamp_quiet lamp_record)
  moreover have "with_cache lamp_store ''lamp'' lamp = Inr lamp" by (simp add: with_cache_def lamp_store_def)
  moreover have "j_text lamp ''appId'' \<noteq> APP_ID" by (simp add: lamp_quiet APP_ID_def)
  ultimately show ?thesis using report_reaches_device [OF first_report] first_report by blast
qed

theorem capability_revision_exact_witness:
  "\<exists>s s'. reachable memory_save s \<and> observe ''a'' ''lamp'' (lamp_report False) True [] s = (Inr (), s')
     \<and> capability_revision s ''lamp'' ''onoff'' = 3 \<and> capability_revision s' ''lamp'' ''onoff'' = sequence s'"
proof -
  let ?s = "publish (report_event 3) (lamp_store\<lparr>live := [lamp_seen]\<rparr>)"
  obtain s' where s': "observe ''a'' ''lamp'' (lamp_report False) True [] ?s = (Inr (), s')" using second_report .
  have r: "reachable memory_save ?s"
    using stepped [OF lamp_reachable, of "Observe ''a'' ''lamp'' (lamp_report True) True []"] first_report by simp
  have "find_live ?s ''lamp'' = Some lamp_seen" "j_get (ob_state lamp_seen) ''onoff'' = Some (Bool True)"
    "j_get (lamp_report False) ''onoff'' = Some (Bool False)" "capability_revision ?s ''lamp'' ''onoff'' = 3"
    by (simp_all add: find_live_def lamp_seen_def lamp_report_def capability_revision_def j_uint_def)
  then show ?thesis using capability_revision_exact [OF r s', of lamp_seen "''onoff''" "Bool False"] r s' by auto
qed

end
