(* ===== verification/SlotRecovery.thy ===== *)
theory SlotRecovery
  imports Slots
begin

text \<open>
  What a restart finds in the slots of \<^verbatim>\<open>crates/core/src/slots.rs\<close> after any sequence of saves over a device that may fail at every
  call and lose, on a loss of power, what it has not confirmed. The laws the code relies on are the locale \<open>slot_backend\<close>;
  the invariant \<open>files_inv\<close> relates \<open>Files\<close> to the contents, and \<open>files_safe\<close> says that it holds whatever of the
  unconfirmed writes is lost.
\<close>

section \<open>Recovery after failed writes\<close>

text \<open>
  What the code relies on of a backend. \<open>contents\<close> is what a read finds now, \<open>remains\<close> what a reader may find later: the
  contents, or after a loss of power anything else that may be left. A read that succeeds returns the contents; no operation
  touches another slot; after a write that succeeds only the new record can remain; after one that failed the slot may
  also hold the first bytes of the new record. A read of the slot that succeeds although the write before it
  failed proves that what it returned is there to stay (the backend must refuse it otherwise).
\<close>

locale slot_backend =
  fixes rd :: "'b \<Rightarrow> slot \<Rightarrow> bytes option result \<times> 'b"
    and wr :: "'b \<Rightarrow> slot \<Rightarrow> bytes \<Rightarrow> unit result \<times> 'b"
    and contents :: "'b \<Rightarrow> slot \<Rightarrow> bytes option"
    and remains :: "'b \<Rightarrow> slot \<Rightarrow> bytes option set"
  assumes present: "contents be s \<in> remains be s"
    and read_contents: "rd be s = (Inr v, be') \<Longrightarrow> v = contents be s"
    and read_frame: "rd be s = (r, be') \<Longrightarrow> contents be' = contents be"
    and read_remains: "rd be s = (r, be') \<Longrightarrow> remains be' t \<subseteq> remains be t"
    and write_other: "wr be s bs = (w, be') \<Longrightarrow> t \<noteq> s \<Longrightarrow> remains be' t \<subseteq> remains be t"
    and write_done: "wr be s bs = (Inr u, be') \<Longrightarrow> remains be' s \<subseteq> {Some bs}"
    and write_failed: "wr be s bs = (Inl e, be') \<Longrightarrow> remains be' s \<subseteq> remains be s \<union> {Some (take k bs) | k. True}"
    and reads_back: "wr be s bs = (Inl e, be') \<Longrightarrow> s \<noteq> Legacy \<Longrightarrow> length bs \<le> MAX_BYTES + 24 \<Longrightarrow>
      rd be' s = (Inr v, be'') \<Longrightarrow> remains be'' s \<subseteq> {v}"

text \<open>
  \<open>holds c s r\<close>: slot \<open>s\<close> of the contents \<open>c\<close> holds the record \<open>r\<close>, where the legacy document
  counts as generation 0. \<open>recovers c p\<close>: opening these contents yields the document \<open>p\<close>.
\<close>

definition slot_value :: "(slot \<Rightarrow> bytes option) \<Rightarrow> slot \<Rightarrow> slot_record option" where
  "slot_value c s = (if s = Legacy then map_option (\<lambda>p. \<lparr>generation = 0, payload = p\<rparr>) (c Legacy)
     else Option.bind (c s) slot_decode)"

definition recovers :: "(slot \<Rightarrow> bytes option) \<Rightarrow> bytes \<Rightarrow> bool" where
  "recovers c p \<longleftrightarrow> (\<exists>s g. slot_select (c A) (c B) (c Legacy)
     = Inr (s, \<lparr>generation = g, payload = p\<rparr>))"

text \<open>
  The state of \<open>Files\<close> against the contents of the backend. \<open>cand\<close> lists the documents a restart
  may find: its last element is the last acknowledged one, the others were attempted since. The
  active slot holds the acknowledged document at the current generation; the slot written next
  holds nothing valid, something older, an unacknowledged attempt of the next generation, or an
  identical copy.
\<close>

definition files_inv :: "(slot \<Rightarrow> bytes option) \<Rightarrow> slot \<Rightarrow> u64 \<Rightarrow> bytes list \<Rightarrow> bool" where
  "files_inv c act g cand \<longleftrightarrow> cand \<noteq> []
     \<and> slot_value c act = Some \<lparr>generation = g, payload = last cand\<rparr>
     \<and> (act = Legacy \<longrightarrow> Option.bind (c B) slot_decode = None)
     \<and> (\<forall>r. slot_value c (if act = A then B else A) = Some r \<longrightarrow>
          generation r < g \<or> (unat (generation r) = unat g + 1 \<and> payload r \<in> set cand)
          \<or> (act = A \<and> generation r = g \<and> payload r = last cand))"

lemma slot_decode_positive: "slot_decode bs = Some r \<Longrightarrow> generation r \<noteq> 0"
  by (auto simp: slot_decode_def Let_def bind_eq_Some_conv split: if_splits option.splits)

text \<open>A restart finds the acknowledged document or a later attempt.\<close>

lemma files_inv_recovers:
  assumes "files_inv c act g cand"
  shows "\<exists>p \<in> set cand. recovers c p"
proof -
  have last: "last cand \<in> set cand" and
    act: "slot_value c act = Some \<lparr>generation = g, payload = last cand\<rparr>" and
    legacy: "act = Legacy \<longrightarrow> Option.bind (c B) slot_decode = None" and
    other: "\<And>r. slot_value c (if act = A then B else A) = Some r \<Longrightarrow>
          generation r < g \<or> (unat (generation r) = unat g + 1 \<and> payload r \<in> set cand)
          \<or> (act = A \<and> generation r = g \<and> payload r = last cand)"
    using assms by (auto simp: files_inv_def)
  have lt: "unat h = unat g + 1 \<Longrightarrow> g < h" for h :: u64
    by (simp add: word_less_nat_alt)
  show ?thesis
  proof (cases act)
    case A
    show ?thesis
    proof (cases "Option.bind (c B) slot_decode")
      case None
      then show ?thesis
        using act A last by (auto simp: recovers_def slot_select_def slot_value_def)
    next
      case (Some r)
      then show ?thesis
        using act A last other [of r] lt [of "generation r"]
        by (cases r) (auto simp: recovers_def slot_select_def slot_value_def)
    qed
  next
    case B
    show ?thesis
    proof (cases "Option.bind (c A) slot_decode")
      case None
      then show ?thesis
        using act B last by (auto simp: recovers_def slot_select_def slot_value_def)
    next
      case (Some r)
      then show ?thesis
        using act B last other [of r] lt [of "generation r"]
        by (cases r) (auto simp: recovers_def slot_select_def slot_value_def)
    qed
  next
    case Legacy
    show ?thesis
    proof (cases "Option.bind (c A) slot_decode")
      case None
      then show ?thesis
        using act Legacy legacy last by (auto simp: recovers_def slot_select_def slot_value_def)
    next
      case (Some r)
      then show ?thesis
        using act Legacy legacy other [of r] slot_decode_positive
        by (cases r) (auto simp: recovers_def slot_select_def slot_value_def bind_eq_Some_conv)
    qed
  qed
qed

text \<open>The two ways a save moves on: the target was published, or the attempt stays unacknowledged.\<close>

lemma files_inv_publish:
  assumes "files_inv c act g cand" and "unat g' = unat g + 1"
    and "slot_value c' (if act = A then B else A) = Some \<lparr>generation = g', payload = p\<rparr>"
    and "\<And>t. t \<noteq> (if act = A then B else A) \<Longrightarrow> c' t = c t"
  shows "files_inv c' (if act = A then B else A) g' [p]"
  using assms
  by (cases act) (auto simp: files_inv_def slot_value_def word_less_nat_alt split: if_splits)

lemma files_inv_retry:
  assumes "files_inv c act g cand" and "unat g' = unat g + 1"
    and "slot_value c' (if act = A then B else A)
      \<in> {slot_value c (if act = A then B else A), None, Some \<lparr>generation = g', payload = p\<rparr>}"
    and "\<And>t. t \<noteq> (if act = A then B else A) \<Longrightarrow> c' t = c t"
  shows "files_inv c' act g (p # cand)"
  using assms by (cases act) (auto simp: files_inv_def slot_value_def)

lemma files_inv_attempt: "files_inv c act g cand \<Longrightarrow> files_inv c act g (p # cand)"
  by (auto simp: files_inv_def)

text \<open>The invariant for everything that may remain, slot by slot.\<close>

definition may_remain :: "(slot \<Rightarrow> bytes option set) \<Rightarrow> (slot \<Rightarrow> bytes option) \<Rightarrow> bool" where
  "may_remain R c \<longleftrightarrow> (\<forall>s. c s \<in> R s)"

definition files_safe :: "(slot \<Rightarrow> bytes option set) \<Rightarrow> slot \<Rightarrow> u64 \<Rightarrow> bytes list \<Rightarrow> bool" where
  "files_safe R act g cand \<longleftrightarrow> (\<forall>c. may_remain R c \<longrightarrow> files_inv c act g cand)"

lemma files_safe_mono: "files_safe R act g cand \<Longrightarrow> (\<And>s. R' s \<subseteq> R s) \<Longrightarrow> files_safe R' act g cand"
  by (fastforce simp: files_safe_def may_remain_def)

text \<open>The two moves again. \<open>old\<close> is some contents of the target before the write.\<close>

lemma files_safe_publish:
  assumes "files_safe R act g cand" and "unat g' = unat g + 1" and "t = (if act = A then B else A)" and "old \<in> R t"
    and "R' t \<subseteq> {Some bs}" and "slot_decode bs = Some \<lparr>generation = g', payload = p\<rparr>"
    and "\<And>u. u \<noteq> t \<Longrightarrow> R' u \<subseteq> R u"
  shows "files_safe R' t g' [p]"
  unfolding files_safe_def
proof (intro allI impI)
  fix c'
  assume c': "may_remain R' c'"
  then have "may_remain R (c'(t := old))" using assms(4,7) by (auto simp: may_remain_def)
  then have "files_inv (c'(t := old)) act g cand" using assms(1) by (simp add: files_safe_def)
  moreover have "c' t = Some bs" using c' assms(5) by (auto simp: may_remain_def)
  then have "slot_value c' t = Some \<lparr>generation = g', payload = p\<rparr>" using assms(3,6) by (simp add: slot_value_def)
  ultimately show "files_inv c' t g' [p]" using files_inv_publish [of "c'(t := old)" act g cand g' c' p] assms(2,3) by simp
qed

lemma files_safe_retry:
  assumes "files_safe R act g cand" and "unat g' = unat g + 1" and "t = (if act = A then B else A)" and "old \<in> R t"
    and "R' t \<subseteq> R t \<union> {Some (take k bs) | k. True}" and "slot_encode g' p = Inr bs"
    and "\<And>u. u \<noteq> t \<Longrightarrow> R' u \<subseteq> R u"
  shows "files_safe R' act g (p # cand)"
  unfolding files_safe_def
proof (intro allI impI)
  fix c'
  assume c': "may_remain R' c'"
  show "files_inv c' act g (p # cand)"
  proof (cases "c' t \<in> R t")
    case True
    then have "c' u \<in> R u" for u using c' assms(7) [of u] by (cases "u = t") (auto simp: may_remain_def)
    then have "may_remain R c'" by (simp add: may_remain_def)
    then show ?thesis using assms(1) files_inv_attempt by (simp add: files_safe_def)
  next
    case False
    then obtain k where k: "c' t = Some (take k bs)" using c' assms(5) by (auto simp: may_remain_def)
    have "may_remain R (c'(t := old))" using c' assms(4,7) by (auto simp: may_remain_def)
    then have "files_inv (c'(t := old)) act g cand" using assms(1) by (simp add: files_safe_def)
    moreover have "slot_value c' t \<in> {None, Some \<lparr>generation = g', payload = p\<rparr>}"
      using k assms(3) slot_decode_prefix [OF assms(6), of k] slot_decode_encode [OF assms(6)]
      by (cases "k < length bs") (simp_all add: slot_value_def)
    ultimately show ?thesis using files_inv_retry [of "c'(t := old)" act g cand g' c' p] assms(2,3) by auto
  qed
qed

text \<open>A sequence of saves, and the documents a restart may find after it.\<close>

fun files_saves ::
    "('b \<Rightarrow> slot \<Rightarrow> bytes option result \<times> 'b) \<Rightarrow> ('b \<Rightarrow> slot \<Rightarrow> bytes \<Rightarrow> unit result \<times> 'b)
     \<Rightarrow> 'b files \<Rightarrow> bytes list \<Rightarrow> unit result list \<times> 'b files" where
  "files_saves rd wr f [] = ([], f)"
| "files_saves rd wr f (p # ps) =
     (let (r, f1) = files_save rd wr f p; (rs, f2) = files_saves rd wr f1 ps in (r # rs, f2))"

fun candidates :: "bytes list \<Rightarrow> (bytes \<times> unit result) list \<Rightarrow> bytes list" where
  "candidates cand [] = cand"
| "candidates cand ((p, r) # rest) = candidates (if is_ok r then [p] else p # cand) rest"

lemma checked_succ: "checked_add g 1 = Some g' \<Longrightarrow> unat g' = unat g + 1"
  by (drule checked_add_unat) simp

text \<open>What the choice between the slots establishes, when there was a document to choose.\<close>

lemma slot_select_inv:
  assumes "slot_select (c A) (c B) (c Legacy) = Inr (act, \<lparr>generation = g, payload = p\<rparr>)"
    and "act \<noteq> Legacy \<or> c Legacy \<noteq> None"
  shows "files_inv c act g [p]"
proof -
  have "B \<noteq> A" "Legacy \<noteq> A" "Legacy \<noteq> B" by simp_all
  then show ?thesis
    using assms
    by (auto simp: slot_select_def files_inv_def slot_value_def not_less_iff_gr_or_eq
        split: option.splits if_splits)
qed

context slot_backend
begin

text \<open>What a restart finds is decided by the contents alone.\<close>

lemma open_result:
  assumes "files_open rd be = Inr (f, p)"
  shows "recovers (contents be) p" and "contents (backend f) = contents be"
    and "slot_select (contents be A) (contents be B) (contents be Legacy)
      = Inr (active f, \<lparr>generation = file_generation f, payload = p\<rparr>)"
proof -
  obtain va be1 where ra: "rd be A = (va, be1)" by fastforce
  obtain vb be2 where rb: "rd be1 B = (vb, be2)" by fastforce
  obtain a b where va: "va = Inr a" and vb: "vb = Inr b"
    using assms ra rb by (auto simp: files_open_def result_iff)
  obtain vl be3 where rl: "(if Option.bind a slot_decode = None \<and> Option.bind b slot_decode = None
              then rd be2 Legacy else (Inr None, be2)) = (vl, be3)"
    by fastforce
  obtain l r where vl: "vl = Inr l" and sel: "slot_select a b l = Inr (active f, r)"
    and f: "f = \<lparr>backend = be3, active = active f, file_generation = generation r\<rparr>" "p = payload r"
    using assms ra rb va vb rl by (auto simp: files_open_def result_iff simp del: if_split_eq1)
  note ra = ra [unfolded va] and rb = rb [unfolded vb] and rl = rl [unfolded vl]
  have c1: "contents be1 = contents be" "a = contents be A"
    using read_frame [OF ra] read_contents [OF ra] by simp_all
  have c2: "contents be2 = contents be" "b = contents be B"
    using read_frame [OF rb] read_contents [OF rb] c1 by simp_all
  have c3: "contents be3 = contents be"
    using rl c2 read_frame by (auto split: if_splits)
  show "contents (backend f) = contents be"
    using c3 f(1) by (metis files.select_convs(1))
  have "slot_select a b l = slot_select a b (contents be Legacy)"
  proof (cases "Option.bind a slot_decode = None \<and> Option.bind b slot_decode = None")
    case True
    then show ?thesis using rl read_contents c2(1) by (metis (full_types))
  next
    case False
    then show ?thesis by (auto simp: slot_select_def split: option.splits)
  qed
  then show sel': "slot_select (contents be A) (contents be B) (contents be Legacy)
      = Inr (active f, \<lparr>generation = file_generation f, payload = p\<rparr>)"
    using sel c1 c2 f by (metis files.select_convs(3) slot_record.surjective old.unit.exhaust)
  then show "recovers (contents be) p"
    by (auto simp: recovers_def)
qed

lemma open_remains:
  assumes "files_open rd be = Inr (f, p)"
  shows "remains (backend f) s \<subseteq> remains be s"
proof -
  obtain va be1 where ra: "rd be A = (va, be1)" by fastforce
  obtain vb be2 where rb: "rd be1 B = (vb, be2)" by fastforce
  obtain vl be3 where rl: "rd be2 Legacy = (vl, be3)" by fastforce
  have "remains be1 s \<subseteq> remains be s" "remains be2 s \<subseteq> remains be1 s" "remains be3 s \<subseteq> remains be2 s"
    using read_remains [OF ra] read_remains [OF rb] read_remains [OF rl] by simp_all
  moreover have "backend f = be2 \<or> backend f = be3"
    using assms ra rb rl by (auto simp: files_open_def result_iff Let_def split: if_splits)
  ultimately show ?thesis by blast
qed

lemma save_safe:
  assumes inv: "files_safe (remains (backend f)) (active f) (file_generation f) cand"
    and save: "files_save rd wr f p = (r, f')"
  shows "files_safe (remains (backend f')) (active f') (file_generation f') (if is_ok r then [p] else p # cand)"
proof -
  consider (refused) e where "r = Inl e" "f' = f"
    | (tried) g bs where "checked_add (file_generation f) 1 = Some g" "slot_encode g p = Inr bs"
    using save by (auto simp: files_save_def ok_or_def split: option.splits sum.splits)
  then show ?thesis
  proof cases
    case refused
    then show ?thesis using inv files_inv_attempt by (simp add: is_ok_def files_safe_def)
  next
    case (tried g bs)
    let ?R = "remains (backend f)" and ?t = "if active f = A then B else A"
    have g: "unat g = unat (file_generation f) + 1" using tried(1) by (rule checked_succ)
    have t: "files_target f = ?t" "?t \<noteq> Legacy" by (simp_all add: files_target_def)
    have len: "length bs \<le> MAX_BYTES + 24" using tried(2) by (auto simp: slot_encode_Inr)
    obtain w be1 where w: "wr (backend f) ?t bs = (w, be1)" by fastforce
    have frame: "\<And>u. u \<noteq> ?t \<Longrightarrow> remains be1 u \<subseteq> ?R u" using write_other [OF w] by blast
    have full: "slot_decode bs = Some \<lparr>generation = g, payload = p\<rparr>" using tried(2) by (rule slot_decode_encode)
    show ?thesis
    proof (cases w)
      case (Inr u)
      have "files_safe (remains be1) ?t g [p]"
        using files_safe_publish [OF inv g refl present, of "remains be1"] write_done [OF w [unfolded Inr]] full frame by blast
      then show ?thesis using save tried w Inr t by (auto simp: files_save_def Let_def ok_or_def is_ok_def)
    next
      case (Inl e)
      obtain v be2 where v: "rd be1 ?t = (v, be2)" by fastforce
      have r2: "remains be2 u \<subseteq> remains be1 u" for u using read_remains [OF v] .
      show ?thesis
      proof (cases "\<exists>x. v = Inr x \<and> Option.bind x slot_decode = Some \<lparr>generation = g, payload = p\<rparr>")
        case True
        then obtain x where x: "v = Inr x" "Option.bind x slot_decode = Some \<lparr>generation = g, payload = p\<rparr>" by blast
        then obtain bs' where bs': "x = Some bs'" "slot_decode bs' = Some \<lparr>generation = g, payload = p\<rparr>"
          by (auto simp: bind_eq_Some_conv)
        have "remains be2 ?t \<subseteq> {Some bs'}" using reads_back [OF w [unfolded Inl] t(2) len v [unfolded x(1)]] bs'(1) by simp
        then have "files_safe (remains be2) ?t g [p]"
          using files_safe_publish [OF inv g refl present, of "remains be2" bs' p] bs'(2) frame r2 by blast
        then show ?thesis
          using save tried w Inl v t x by (auto simp: files_save_def Let_def ok_or_def is_ok_def)
      next
        case False
        have "files_safe (remains be1) (active f) (file_generation f) (p # cand)"
          using files_safe_retry [OF inv g refl present write_failed [OF w [unfolded Inl]] tried(2) frame] .
        then have "files_safe (remains be2) (active f) (file_generation f) (p # cand)" using r2 by (rule files_safe_mono)
        then show ?thesis
          using save tried w Inl v t False
          by (auto simp: files_save_def Let_def ok_or_def is_ok_def split: sum.splits if_splits)
      qed
    qed
  qed
qed

lemma saves_safe:
  assumes "files_safe (remains (backend f)) (active f) (file_generation f) cand"
    and "files_saves rd wr f ps = (rs, f')"
  shows "files_safe (remains (backend f')) (active f') (file_generation f') (candidates cand (zip ps rs))"
  using assms
proof (induction ps arbitrary: f rs cand)
  case (Cons p ps)
  obtain r f1 where s: "files_save rd wr f p = (r, f1)" by fastforce
  obtain rs1 where "files_saves rd wr f1 ps = (rs1, f')" "rs = r # rs1"
    using Cons.prems s by (auto split: prod.splits)
  then show ?case
    using Cons.IH [OF save_safe [OF Cons.prems(1) s]] by simp
qed simp

text \<open>Opening a device on which nothing is unconfirmed, as after a start of the machine.\<close>

lemma open_safe:
  assumes "files_open rd be = Inr (f, p0)" and "active f \<noteq> Legacy \<or> contents be Legacy \<noteq> None"
    and "\<And>s. remains be s \<subseteq> {contents be s}"
  shows "files_safe (remains (backend f)) (active f) (file_generation f) [p0]"
proof -
  have inv: "files_inv (contents be) (active f) (file_generation f) [p0]"
    using slot_select_inv open_result(3) [OF assms(1)] assms(2) by blast
  have "c = contents be" if "may_remain (remains be) c" for c
    using that assms(3) by (fastforce simp: may_remain_def fun_eq_iff)
  then have "files_safe (remains be) (active f) (file_generation f) [p0]" using inv by (auto simp: files_safe_def)
  then show ?thesis using open_remains [OF assms(1)] by (rule files_safe_mono)
qed

text \<open>After any number of saves a restart finds, whatever was lost, an acknowledged document or a later attempt.\<close>

lemma restart_after_saves:
  assumes "files_open rd be = Inr (f, p0)" and "active f \<noteq> Legacy \<or> contents be Legacy \<noteq> None"
    and "\<And>s. remains be s \<subseteq> {contents be s}" and "files_saves rd wr f ps = (rs, f')" and "may_remain (remains (backend f')) c"
  shows "\<exists>p \<in> set (candidates [p0] (zip ps rs)). recovers c p"
  using files_inv_recovers saves_safe [OF open_safe [OF assms(1-3)] assms(4)] assms(5) by (auto simp: files_safe_def)

lemma reopen_finds:
  assumes "recovers (contents be) p" and "files_open rd be = Inr (f, q)"
  shows "q = p"
  using assms open_result(3) [OF assms(2)] by (auto simp: recovers_def)

end

end
