(* ===== verification/HopStorage.thy ===== *)
theory HopStorage
  imports SlotRecovery Strings
begin

text \<open>
  The HopOS adapter of \<^verbatim>\<open>crates/hopos/src/storage.rs\<close>: one document path with the slots \<open>.a\<close>, \<open>.b\<close>
  and the unsuffixed legacy file, read and written in chunks of 64 KiB, confirmed by a sync, and
  poisoned by the first failure. The file operations (\<open>Io\<close>, a system client outside the
  repository) are parameters; an operation of \<open>io_ops\<close> is the one awaited through \<open>Wait\<close>, and a
  cancelled wait is a failure of that operation.
\<close>

section \<open>Paths\<close>

text \<open>\<open>str::split(c)\<close>.\<close>

fun split_on :: "char \<Rightarrow> string \<Rightarrow> string list" where
  "split_on c [] = [[]]"
| "split_on c (x # xs) =
     (if x = c then [] # split_on c xs
      else case split_on c xs of [] \<Rightarrow> [[x]] | y # ys \<Rightarrow> (x # y) # ys)"

text \<open>\<open>char::is_control\<close> on UTF-8: below a space, DEL, or U+0080 to U+009F.\<close>

fun has_control :: "string \<Rightarrow> bool" where
  "has_control [] \<longleftrightarrow> False"
| "has_control (c # cs) \<longleftrightarrow>
     (of_char c :: nat) < 32 \<or> c = CHR 0x7F
     \<or> (c = CHR 0xC2 \<and> (case cs of [] \<Rightarrow> False
                          | d # _ \<Rightarrow> (128 :: nat) \<le> of_char d \<and> (of_char d :: nat) \<le> 159))
     \<or> has_control cs"

definition valid_path :: "string \<Rightarrow> bool" where
  "valid_path path \<longleftrightarrow> starts_with path ''/'' \<and> length path \<le> 480
     \<and> \<not> (has_control path \<or> CHR 0x5C \<in> set path)
     \<and> (\<forall>s \<in> set (split_on CHR ''/'' (drop 1 path)). s \<noteq> [] \<and> s \<noteq> ''.'' \<and> s \<noteq> ''..'')"

section \<open>The adapter\<close>

text \<open>
  \<open>io_read\<close> fills the offered buffer and returns how many bytes it read together with the buffer;
  \<open>io_size\<close> returns None for a missing file.
\<close>

record 'i io_ops =
  io_size :: "'i \<Rightarrow> string \<Rightarrow> u64 option result \<times> 'i"
  io_read :: "'i \<Rightarrow> string \<Rightarrow> u64 \<Rightarrow> bytes \<Rightarrow> (nat result \<times> bytes) \<times> 'i"
  io_write :: "'i \<Rightarrow> string \<Rightarrow> u64 \<Rightarrow> bytes \<Rightarrow> unit result \<times> 'i"
  io_truncate :: "'i \<Rightarrow> string \<Rightarrow> unit result \<times> 'i"
  io_sync :: "'i \<Rightarrow> string \<Rightarrow> unit result \<times> 'i"

record 'i hop_files =
  hop_io :: 'i
  hop_path :: string
  poisoned :: bool

definition CHUNK :: nat where "CHUNK = 64 * 1024"

definition hop_new :: "'i \<Rightarrow> string \<Rightarrow> 'i hop_files result" where
  "hop_new io path =
     (if \<not> valid_path path then Inl (Invalid ''invalid HopOS document path'')
      else Inr \<lparr>hop_io = io, hop_path = path, poisoned = False\<rparr>)"

definition slot_suffix :: "slot \<Rightarrow> string" where
  "slot_suffix s = (case s of A \<Rightarrow> ''.a'' | B \<Rightarrow> ''.b'' | Legacy \<Rightarrow> [])"

definition hop_slot_path :: "'i hop_files \<Rightarrow> slot \<Rightarrow> string result" where
  "hop_slot_path f s = (if poisoned f then Inl Storage else Inr (hop_path f @ slot_suffix s))"

text \<open>The read loop: \<open>buf\<close> is the vector of the file's size, \<open>pos\<close> how much of it is filled.\<close>

function hop_read_loop ::
    "'i io_ops \<Rightarrow> string \<Rightarrow> nat \<Rightarrow> nat \<Rightarrow> bytes \<Rightarrow> 'i \<Rightarrow> bytes result \<times> 'i" where
  "hop_read_loop ops path full pos buf i =
     (if pos < full then
        let stop = min full (pos + CHUNK);
            ((r, dst), i1) = io_read ops i path (word_of_nat pos) (take (stop - pos) (drop pos buf))
        in case r of
             Inl e \<Rightarrow> (Inl e, i1)
           | Inr n \<Rightarrow>
               if n = 0 \<or> stop - pos < n then (Inl Storage, i1)
               else hop_read_loop ops path full (pos + n) (take pos buf @ dst @ drop stop buf) i1
      else (Inr buf, i))"
  by pat_completeness auto

termination
  by (relation "measure (\<lambda>(ops, path, full, pos, buf, i). full - pos)") auto

declare hop_read_loop.simps [simp del]

definition hop_read_file :: "'i io_ops \<Rightarrow> string \<Rightarrow> 'i \<Rightarrow> bytes option result \<times> 'i" where
  "hop_read_file ops path i =
     (case io_size ops i path of
        (Inl e, i1) \<Rightarrow> (Inl e, i1)
      | (Inr None, i1) \<Rightarrow> (Inr None, i1)
      | (Inr (Some full), i1) \<Rightarrow>
          if MAX_BYTES + 24 < unat full then (Inl Full, i1)
          else (case hop_read_loop ops path (unat full) 0 (replicate (unat full) 0) i1 of
                  (Inl e, i2) \<Rightarrow> (Inl e, i2)
                | (Inr bs, i2) \<Rightarrow> (Inr (Some bs), i2)))"

definition hop_read :: "'i io_ops \<Rightarrow> 'i hop_files \<Rightarrow> slot \<Rightarrow> bytes option result \<times> 'i hop_files" where
  "hop_read ops f s =
     (case hop_slot_path f s of
        Inl e \<Rightarrow> (Inl e, f)
      | Inr path \<Rightarrow>
          let (r, i) = hop_read_file ops path (hop_io f);
              f1 = f\<lparr>hop_io := i\<rparr>
          in (r, if is_ok r then f1 else f1\<lparr>poisoned := True\<rparr>))"

text \<open>\<open>slice::chunks(n)\<close>.\<close>

function chunks :: "nat \<Rightarrow> 'a list \<Rightarrow> 'a list list" where
  "chunks n xs = (if xs = [] \<or> n = 0 then [] else take n xs # chunks n (drop n xs))"
  by pat_completeness auto

termination
  by (relation "measure (\<lambda>(n, xs). length xs)") auto

declare chunks.simps [simp del]

fun hop_write_chunks ::
    "'i io_ops \<Rightarrow> string \<Rightarrow> u64 \<Rightarrow> bytes list \<Rightarrow> 'i \<Rightarrow> unit result \<times> 'i" where
  "hop_write_chunks ops path pos [] i = (Inr (), i)"
| "hop_write_chunks ops path pos (c # cs) i =
     (case io_write ops i path pos c of
        (Inl e, i1) \<Rightarrow> (Inl e, i1)
      | (Inr _, i1) \<Rightarrow> hop_write_chunks ops path (pos + word_of_nat (length c)) cs i1)"

definition hop_write_file :: "'i io_ops \<Rightarrow> string \<Rightarrow> bytes \<Rightarrow> 'i \<Rightarrow> unit result \<times> 'i" where
  "hop_write_file ops path bs i =
     (case io_truncate ops i path of
        (Inl e, i1) \<Rightarrow> (Inl e, i1)
      | (Inr _, i1) \<Rightarrow>
          (case hop_write_chunks ops path 0 (chunks CHUNK bs) i1 of
             (Inl e, i2) \<Rightarrow> (Inl e, i2)
           | (Inr _, i2) \<Rightarrow> io_sync ops i2 path))"

definition hop_write :: "'i io_ops \<Rightarrow> 'i hop_files \<Rightarrow> slot \<Rightarrow> bytes \<Rightarrow> unit result \<times> 'i hop_files" where
  "hop_write ops f s bs =
     (if s = Legacy then (Inl (Invalid ''legacy document is read-only''), f)
      else if MAX_BYTES + 24 < length bs then (Inl Full, f)
      else case hop_slot_path f s of
        Inl e \<Rightarrow> (Inl e, f)
      | Inr path \<Rightarrow>
          let (r, i) = hop_write_file ops path bs (hop_io f);
              f1 = f\<lparr>hop_io := i\<rparr>
          in (r, if is_ok r then f1 else f1\<lparr>poisoned := True\<rparr>))"

section \<open>The adapter is a slot backend\<close>

text \<open>
  The documented behaviour of the file operations. \<open>fget i p\<close> is what a reader of path \<open>p\<close> finds now; \<open>fleft i p\<close> holds all that a
  reader may find later when nothing more is written: what is there now and, until a sync, what a loss of power may leave
  of it. Emptying a file may or may not survive; of what was written at the end of a file a first part may survive; a sync that
  succeeds is the barrier after which only the present contents can remain. An operation on one path never adds to what may be
  left of another, and an operation that failed may have done all or nothing of its work.
\<close>

locale hop_disk =
  fixes ops :: "'i io_ops" and fget :: "'i \<Rightarrow> string \<Rightarrow> bytes option" and fleft :: "'i \<Rightarrow> string \<Rightarrow> bytes option set"
  assumes present: "fget i p \<in> fleft i p"
    and size_frame: "io_size ops i p = (r, i') \<Longrightarrow> fget i' = fget i" "io_size ops i p = (r, i') \<Longrightarrow> fleft i' q \<subseteq> fleft i q"
    and size_some: "io_size ops i p = (Inr (Some m), i') \<Longrightarrow> \<exists>bs. fget i p = Some bs \<and> length bs = unat m"
    and size_none: "io_size ops i p = (Inr None, i') \<Longrightarrow> fget i p = None"
    and read_frame: "io_read ops i p off dst = (got, i') \<Longrightarrow> fget i' = fget i"
      "io_read ops i p off dst = (got, i') \<Longrightarrow> fleft i' q \<subseteq> fleft i q"
    and read_bytes: "io_read ops i p off dst = ((Inr n, dst'), i') \<Longrightarrow> fget i p = Some bs \<Longrightarrow>
      n \<le> length dst \<Longrightarrow> length dst' = length dst \<and> take n dst' = take n (drop (unat off) bs)"
    and truncate_other: "io_truncate ops i p = (u, i') \<Longrightarrow> q \<noteq> p \<Longrightarrow> fleft i' q \<subseteq> fleft i q"
    and truncate_done: "io_truncate ops i p = (Inr (), i') \<Longrightarrow> fget i' p = Some []"
    and truncate_left: "io_truncate ops i p = (u, i') \<Longrightarrow> fleft i' p \<subseteq> insert (Some []) (fleft i p)"
    and write_other: "io_write ops i p off bs = (u, i') \<Longrightarrow> q \<noteq> p \<Longrightarrow> fleft i' q \<subseteq> fleft i q"
    and write_done: "io_write ops i p off bs = (Inr (), i') \<Longrightarrow> fget i p = Some old \<Longrightarrow>
      length old = unat off \<Longrightarrow> fget i' p = Some (old @ bs)"
    and write_left: "io_write ops i p off bs = (u, i') \<Longrightarrow> fget i p = Some old \<Longrightarrow>
      length old = unat off \<Longrightarrow> fleft i' p \<subseteq> fleft i p \<union> {Some (take k (old @ bs)) | k. True}"
    and sync_frame: "io_sync ops i p = (u, i') \<Longrightarrow> fleft i' q \<subseteq> fleft i q"
    and sync_done: "io_sync ops i p = (Inr (), i') \<Longrightarrow> fleft i' p \<subseteq> {fget i p}"

definition hop_contents ::
    "('i \<Rightarrow> string \<Rightarrow> bytes option) \<Rightarrow> 'i hop_files \<Rightarrow> slot \<Rightarrow> bytes option" where
  "hop_contents fget f s = fget (hop_io f) (hop_path f @ slot_suffix s)"

definition hop_remains ::
    "('i \<Rightarrow> string \<Rightarrow> bytes option set) \<Rightarrow> 'i hop_files \<Rightarrow> slot \<Rightarrow> bytes option set" where
  "hop_remains fleft f s = fleft (hop_io f) (hop_path f @ slot_suffix s)"

lemma slot_suffix_inject [simp]: "slot_suffix s = slot_suffix t \<longleftrightarrow> s = t"
  by (cases s; cases t) (simp_all add: slot_suffix_def)

lemma concat_chunks: "0 < n \<Longrightarrow> concat (chunks n xs) = xs"
  by (induction n xs rule: chunks.induct) (subst chunks.simps, auto)

context hop_disk
begin

lemma read_loop:
  assumes "hop_read_loop ops path full pos buf i = (r, i')" and "pos \<le> full"
    and "fget i path = Some bs" and "length bs = full" and "full < 2 ^ 64"
    and "length buf = full" and "take pos buf = take pos bs"
  shows "fget i' = fget i \<and> (\<forall>q. fleft i' q \<subseteq> fleft i q) \<and> (\<forall>v. r = Inr v \<longrightarrow> v = bs)"
  using assms
proof (induction "full - pos" arbitrary: pos buf i rule: less_induct)
  case less
  show ?case
  proof (cases "pos < full")
    case False
    then show ?thesis using less.prems by (auto simp: hop_read_loop.simps)
  next
    case True
    define stop dst where sd: "stop = min full (pos + CHUNK)" "dst = take (stop - pos) (drop pos buf)"
    obtain q dst' i1 where io: "io_read ops i path (word_of_nat pos) dst = ((q, dst'), i1)"
      by (metis surj_pair)
    have f1: "fget i1 = fget i" and l1: "\<And>q. fleft i1 q \<subseteq> fleft i q" using read_frame [OF io] by blast+
    have stop: "pos < stop" "stop \<le> full" "length dst = stop - pos"
      using True less.prems(6) by (auto simp: sd CHUNK_def)
    show ?thesis
    proof (cases "\<exists>n. q = Inr n \<and> n \<noteq> 0 \<and> n \<le> stop - pos")
      case False
      then show ?thesis
        using less.prems(1) True io f1 l1
        by (auto simp: hop_read_loop.simps [of ops path full pos] sd Let_def
            split: sum.splits if_splits)
    next
      case True
      then obtain n where n: "q = Inr n" "n \<noteq> 0" "n \<le> stop - pos" by blast
      define buf' where "buf' = take pos buf @ dst' @ drop stop buf"
      have step: "hop_read_loop ops path full (pos + n) buf' i1 = (r, i')"
        using less.prems(1) \<open>pos < full\<close> io n
        by (simp add: hop_read_loop.simps [of ops path full pos] sd buf'_def Let_def)
      have "unat (word_of_nat pos :: u64) = pos"
        using True \<open>pos < full\<close> less.prems(5) by (simp add: unat_of_nat)
      then have d: "length dst' = stop - pos" "take n dst' = take n (drop pos bs)"
        using read_bytes [OF io [unfolded n(1)] less.prems(3)] n(3) stop(3) by simp_all
      have "length buf' = full"
        using d(1) stop less.prems(6) by (simp add: buf'_def)
      moreover have "take (pos + n) buf' = take pos bs @ take n (drop pos bs)"
        using d n(3) stop less.prems(4,6,7) by (simp add: buf'_def)
      then have "take (pos + n) buf' = take (pos + n) bs"
        by (simp add: take_add)
      ultimately have "fget i' = fget i1 \<and> (\<forall>q. fleft i' q \<subseteq> fleft i1 q) \<and> (\<forall>v. r = Inr v \<longrightarrow> v = bs)"
        using less.hyps [OF _ step] less.prems(3-5) n stop f1 \<open>pos < full\<close> by simp
      then show ?thesis using f1 l1 by (simp add: subset_trans [OF _ l1])
    qed
  qed
qed

lemma read_file:
  assumes "hop_read_file ops path i = (r, i')"
  shows "fget i' = fget i" and "fleft i' q \<subseteq> fleft i q" and "r = Inr v \<Longrightarrow> v = fget i path"
proof -
  obtain w i1 where s: "io_size ops i path = (w, i1)" by fastforce
  have f1: "fget i1 = fget i" "\<And>q. fleft i1 q \<subseteq> fleft i q" using size_frame [OF s] by blast+
  consider (err) e where "w = Inl e" | (none) "w = Inr None"
    | (big) n where "w = Inr (Some n)" "MAX_BYTES + 24 < unat n"
    | (fits) n where "w = Inr (Some n)" "unat n \<le> MAX_BYTES + 24"
    by (metis linorder_not_less not_None_eq sum.exhaust)
  then have "fget i' = fget i \<and> (\<forall>q. fleft i' q \<subseteq> fleft i q) \<and> (r = Inr v \<longrightarrow> v = fget i path)"
  proof cases
    case (fits n)
    obtain bs where bs: "fget i path = Some bs" "length bs = unat n"
      using size_some s fits(1) by blast
    obtain x i2 where l: "hop_read_loop ops path (unat n) 0 (replicate (unat n) 0) i1 = (x, i2)"
      by fastforce
    have "fget i2 = fget i1 \<and> (\<forall>q. fleft i2 q \<subseteq> fleft i1 q) \<and> (\<forall>v. x = Inr v \<longrightarrow> v = bs)"
      using read_loop [OF l] bs f1 fits(2) by (simp add: MAX_BYTES_def)
    moreover have "i' = i2" "r = Inr v \<longrightarrow> (\<exists>y. x = Inr y \<and> v = Some y)"
      using assms s fits l by (auto simp: hop_read_file_def split: sum.splits)
    ultimately show ?thesis using f1(1) bs(1) by (auto simp: subset_trans [OF _ f1(2)])
  qed (use assms s f1 size_none in \<open>auto simp: hop_read_file_def\<close>)
  then show "fget i' = fget i" and "fleft i' q \<subseteq> fleft i q" and "r = Inr v \<Longrightarrow> v = fget i path" by simp_all
qed

lemma write_chunks:
  assumes "hop_write_chunks ops path pos cs i = (r, i')" and "fget i path = Some old"
    and "length old = unat pos" and "length old + length (concat cs) < 2 ^ 64"
  shows "(\<forall>u. r = Inr u \<longrightarrow> fget i' path = Some (old @ concat cs))
    \<and> fleft i' path \<subseteq> fleft i path \<union> {Some (take k (old @ concat cs)) | k. True} \<and> (\<forall>q. q \<noteq> path \<longrightarrow> fleft i' q \<subseteq> fleft i q)"
  using assms
proof (induction cs arbitrary: pos i old)
  case Nil
  then show ?case by auto
next
  case (Cons c cs)
  obtain w i1 where w: "io_write ops i path pos c = (w, i1)" by fastforce
  have other: "\<And>q. q \<noteq> path \<Longrightarrow> fleft i1 q \<subseteq> fleft i q" using write_other [OF w] by blast
  have "Some (take k (old @ c)) \<in> {Some (take k (old @ concat (c # cs))) | k. True}" for k
  proof -
    have "take k (old @ c) = take (min k (length old + length c)) (old @ concat (c # cs))" by (simp add: min_def)
    then show ?thesis by blast
  qed
  then have left: "fleft i1 path \<subseteq> fleft i path \<union> {Some (take k (old @ concat (c # cs))) | k. True}"
    using write_left [OF w Cons.prems(2,3)] by blast
  show ?case
  proof (cases w)
    case (Inl e)
    then have "r = Inl e" "i' = i1" using Cons.prems(1) w by simp_all
    then show ?thesis using left other by simp
  next
    case (Inr u)
    have here: "fget i1 path = Some (old @ c)"
      using write_done Cons.prems(2,3) w Inr by simp
    have "length (old @ c) = unat (pos + word_of_nat (length c))"
      using Cons.prems(3,4) by (simp add: unat_word_ariths unat_of_nat)
    moreover have "hop_write_chunks ops path (pos + word_of_nat (length c)) cs i1 = (r, i')"
      using Cons.prems(1) w Inr by simp
    ultimately have rec: "\<forall>u. r = Inr u \<longrightarrow> fget i' path = Some ((old @ c) @ concat cs)"
      "fleft i' path \<subseteq> fleft i1 path \<union> {Some (take k ((old @ c) @ concat cs)) | k. True}"
      "\<forall>q. q \<noteq> path \<longrightarrow> fleft i' q \<subseteq> fleft i1 q"
      using Cons.IH [of "pos + word_of_nat (length c)" i1 "old @ c"] Cons.prems(4) here by simp_all
    have e: "(old @ c) @ concat cs = old @ concat (c # cs)" by simp
    have "fleft i' path \<subseteq> fleft i path \<union> {Some (take k (old @ concat (c # cs))) | k. True}"
      using rec(2) left unfolding e by blast
    moreover have "fleft i' q \<subseteq> fleft i q" if "q \<noteq> path" for q
      using rec(3) other [OF that] that by (blast intro: subset_trans)
    ultimately show ?thesis using rec(1) unfolding e by blast
  qed
qed

lemma write_file:
  assumes "hop_write_file ops path bs i = (r, i')" and "length bs \<le> MAX_BYTES + 24"
  shows "q \<noteq> path \<Longrightarrow> fleft i' q \<subseteq> fleft i q"
    and "r = Inr u \<Longrightarrow> fleft i' path \<subseteq> {Some bs}"
    and "fleft i' path \<subseteq> fleft i path \<union> {Some (take k bs) | k. True}"
proof -
  obtain t i1 where t: "io_truncate ops i path = (t, i1)" by fastforce
  have empty: "Some [] \<in> {Some (take k bs) | k. True}" by (auto intro: exI [of _ 0])
  have t1: "fleft i1 path \<subseteq> fleft i path \<union> {Some (take k bs) | k. True}" "\<And>q. q \<noteq> path \<Longrightarrow> fleft i1 q \<subseteq> fleft i q"
    using truncate_left [OF t] truncate_other [OF t] empty by blast+
  have "(\<forall>q. q \<noteq> path \<longrightarrow> fleft i' q \<subseteq> fleft i q) \<and> (r = Inr u \<longrightarrow> fleft i' path \<subseteq> {Some bs})
    \<and> fleft i' path \<subseteq> fleft i path \<union> {Some (take k bs) | k. True}"
  proof (cases t)
    case (Inl e)
    then have "r = Inl e" "i' = i1" using assms(1) t by (simp_all add: hop_write_file_def)
    then show ?thesis using t1 by simp
  next
    case (Inr v)
    obtain w i2 where w: "hop_write_chunks ops path 0 (chunks CHUNK bs) i1 = (w, i2)" by fastforce
    have c: "concat (chunks CHUNK bs) = bs" by (rule concat_chunks) (simp add: CHUNK_def)
    have w2: "\<forall>u. w = Inr u \<longrightarrow> fget i2 path = Some bs" "fleft i2 path \<subseteq> fleft i1 path \<union> {Some (take k bs) | k. True}"
      "\<forall>q. q \<noteq> path \<longrightarrow> fleft i2 q \<subseteq> fleft i1 q"
      using write_chunks [OF w truncate_done] t Inr assms(2) by (simp_all add: c MAX_BYTES_def)
    have s: "w = Inl e \<Longrightarrow> r = Inl e \<and> i' = i2" "w = Inr () \<Longrightarrow> io_sync ops i2 path = (r, i')" for e
      using assms(1) t w Inr by (simp_all add: hop_write_file_def)
    have f: "fleft i' q \<subseteq> fleft i2 q" for q using s sync_frame by (cases w) auto
    have "r = Inr u \<longrightarrow> fleft i' path \<subseteq> {Some bs}" using s w2(1) sync_done by (cases w) auto
    then show ?thesis using t1 w2(2,3) f by blast
  qed
  then show "q \<noteq> path \<Longrightarrow> fleft i' q \<subseteq> fleft i q"
    and "r = Inr u \<Longrightarrow> fleft i' path \<subseteq> {Some bs}"
    and "fleft i' path \<subseteq> fleft i path \<union> {Some (take k bs) | k. True}"
    by simp_all
qed

end

lemma hop_write_cases:
  assumes "hop_write ops f s bs = (w, f')"
  shows "(\<exists>e. w = Inl e \<and> f' = f) \<or> (length bs \<le> MAX_BYTES + 24
    \<and> hop_write_file ops (hop_path f @ slot_suffix s) bs (hop_io f) = (w, hop_io f') \<and> hop_path f' = hop_path f)"
proof (cases "s = Legacy \<or> MAX_BYTES + 24 < length bs \<or> poisoned f")
  case True
  then have "\<exists>e. hop_write ops f s bs = (Inl e, f)" by (auto simp: hop_write_def hop_slot_path_def)
  then show ?thesis using assms by auto
next
  case False
  obtain x i where "hop_write_file ops (hop_path f @ slot_suffix s) bs (hop_io f) = (x, i)" by fastforce
  then show ?thesis using assms False by (cases "is_ok x") (auto simp: hop_write_def hop_slot_path_def Let_def)
qed

context hop_disk
begin

lemma written_remains:
  assumes "hop_write ops be s bs = (w, be')"
  shows "t \<noteq> s \<Longrightarrow> hop_remains fleft be' t \<subseteq> hop_remains fleft be t"
    and "w = Inr u \<Longrightarrow> hop_remains fleft be' s \<subseteq> {Some bs}"
    and "hop_remains fleft be' s \<subseteq> hop_remains fleft be s \<union> {Some (take k bs) | k. True}"
proof -
  let ?path = "hop_path be @ slot_suffix s"
  consider e where "w = Inl e" "be' = be" | "length bs \<le> MAX_BYTES + 24" "hop_write_file ops ?path bs (hop_io be) = (w, hop_io be')"
      "hop_path be' = hop_path be"
    using hop_write_cases [OF assms] by blast
  then have "(t \<noteq> s \<longrightarrow> hop_remains fleft be' t \<subseteq> hop_remains fleft be t) \<and> (w = Inr u \<longrightarrow> hop_remains fleft be' s \<subseteq> {Some bs})
    \<and> hop_remains fleft be' s \<subseteq> hop_remains fleft be s \<union> {Some (take k bs) | k. True}"
  proof cases
    case 1
    then show ?thesis by auto
  next
    case 2
    note f = write_file [OF 2(2,1)]
    have "hop_path be @ slot_suffix t \<noteq> ?path" if "t \<noteq> s" using that by simp
    then show ?thesis using f 2(3) by (simp add: hop_remains_def)
  qed
  then show "t \<noteq> s \<Longrightarrow> hop_remains fleft be' t \<subseteq> hop_remains fleft be t"
    and "w = Inr u \<Longrightarrow> hop_remains fleft be' s \<subseteq> {Some bs}"
    and "hop_remains fleft be' s \<subseteq> hop_remains fleft be s \<union> {Some (take k bs) | k. True}" by simp_all
qed

end

text \<open>After a failed write the adapter is poisoned, so that no read-back stands in for a lost sync.\<close>

lemma hop_read_poisoned: "poisoned f \<Longrightarrow> hop_read ops f s = (Inl Storage, f)"
  by (simp add: hop_read_def hop_slot_path_def)

lemma hop_write_refused:
  "hop_write ops f s bs = (Inl e, f') \<Longrightarrow> \<not> poisoned f' \<Longrightarrow> s = Legacy \<or> MAX_BYTES + 24 < length bs"
  by (auto simp: hop_write_def hop_slot_path_def is_ok_def Let_def split: if_splits prod.splits sum.splits)

sublocale hop_disk \<subseteq> ab: slot_backend "hop_read ops" "hop_write ops" "hop_contents fget" "hop_remains fleft"
proof
  fix be s
  show "hop_contents fget be s \<in> hop_remains fleft be s" using present by (simp add: hop_contents_def hop_remains_def)
next
  fix be s v be'
  assume "hop_read ops be s = (Inr v, be')"
  then show "v = hop_contents fget be s"
    using read_file(3) by (auto simp: hop_read_def hop_slot_path_def hop_contents_def Let_def
        split: if_splits prod.splits)
next
  fix be s r be'
  assume "hop_read ops be s = (r, be')"
  then show "hop_contents fget be' = hop_contents fget be"
    using read_file(1) by (auto simp: hop_read_def hop_slot_path_def hop_contents_def Let_def fun_eq_iff
        split: if_splits prod.splits)
next
  fix be s r be' t
  assume a: "hop_read ops be s = (r, be')"
  show "hop_remains fleft be' t \<subseteq> hop_remains fleft be t"
  proof (cases "poisoned be")
    case True
    then show ?thesis using a by (simp add: hop_read_poisoned)
  next
    case False
    obtain x i where x: "hop_read_file ops (hop_path be @ slot_suffix s) (hop_io be) = (x, i)" by fastforce
    then have "hop_io be' = i" "hop_path be' = hop_path be"
      using a False by (auto simp: hop_read_def hop_slot_path_def Let_def split: if_splits)
    then show ?thesis using read_file(2) [OF x] by (simp add: hop_remains_def)
  qed
next
  fix be s bs w be' t
  assume "hop_write ops be s bs = (w, be')" "t \<noteq> s"
  then show "hop_remains fleft be' t \<subseteq> hop_remains fleft be t"
    using written_remains(1) by blast
next
  fix be s bs u be'
  assume "hop_write ops be s bs = (Inr u, be')"
  then show "hop_remains fleft be' s \<subseteq> {Some bs}"
    using written_remains(2) by blast
next
  fix be s bs e be'
  assume "hop_write ops be s bs = (Inl e, be')"
  then show "hop_remains fleft be' s \<subseteq> hop_remains fleft be s \<union> {Some (take k bs) | k. True}"
    using written_remains(3) by blast
next
  fix be s bs e be' v be''
  assume "hop_write ops be s bs = (Inl e, be')" "s \<noteq> Legacy" "length bs \<le> MAX_BYTES + 24" "hop_read ops be' s = (Inr v, be'')"
  then show "hop_remains fleft be'' s \<subseteq> {v}"
    using hop_write_refused [of ops be s bs e be'] hop_read_poisoned [of be' ops s] by auto
qed

context hop_disk
begin

lemma hop_restart:
  assumes "files_open (hop_read ops) be = Inr (f, p0)" and "active f \<noteq> Legacy \<or> hop_contents fget be Legacy \<noteq> None"
    and "\<And>s. hop_remains fleft be s \<subseteq> {hop_contents fget be s}"
    and "files_saves (hop_read ops) (hop_write ops) f ps = (rs, f')" and "may_remain (hop_remains fleft (backend f')) c"
  shows "\<exists>p \<in> set (candidates [p0] (zip ps rs)). recovers c p
    \<and> (\<forall>be' f'' q. hop_contents fget be' = c \<longrightarrow> files_open (hop_read ops) be' = Inr (f'', q) \<longrightarrow> q = p)"
  using ab.restart_after_saves [OF assms] ab.reopen_finds by metis

end

section \<open>A disk that fails\<close>

text \<open>
  The fault-injection disk of the tests, extended with a limit (after \<open>room\<close> more bytes a write stores what still fits and
  fails) and with a loss of power: \<open>disk_synced\<close> is what the last sync made durable, and until the next one a file may come
  back as that, or as any first part of what was written since. It reads at most 997 bytes at a time.
\<close>

record disk =
  disk_files :: "string \<Rightarrow> bytes option"
  disk_synced :: "string \<Rightarrow> bytes option"
  room :: nat

definition disk_ops :: "disk io_ops" where
  "disk_ops = \<lparr>
     io_size = (\<lambda>d p. (case disk_files d p of
         None \<Rightarrow> Inr None
       | Some bs \<Rightarrow> if length bs < 2 ^ 64 then Inr (Some (word_of_nat (length bs))) else Inl Storage, d)),
     io_read = (\<lambda>d p off dst. (case disk_files d p of
         None \<Rightarrow> (Inl Storage, dst)
       | Some bs \<Rightarrow>
           let src = drop (unat off) bs; n = min (min (length src) (length dst)) 997
           in (Inr n, take n src @ drop n dst), d)),
     io_write = (\<lambda>d p off bs. case disk_files d p of
         None \<Rightarrow> (Inl Storage, d)
       | Some old \<Rightarrow>
           if length old \<noteq> unat off then (Inl Storage, d)
           else let d' = d\<lparr>disk_files := (disk_files d)(p \<mapsto> old @ take (room d) bs),
                           room := room d - length bs\<rparr>
                in (if length bs \<le> room d then Inr () else Inl Storage, d')),
     io_truncate = (\<lambda>d p. (Inr (), d\<lparr>disk_files := (disk_files d)(p \<mapsto> [])\<rparr>)),
     io_sync = (\<lambda>d p. if disk_files d p = None then (Inl Storage, d)
       else (Inr (), d\<lparr>disk_synced := (disk_synced d)(p := disk_files d p)\<rparr>))\<rparr>"

definition disk_left :: "disk \<Rightarrow> string \<Rightarrow> bytes option set" where
  "disk_left d p = (if disk_files d p = disk_synced d p then {disk_files d p}
     else {disk_files d p, disk_synced d p} \<union> {Some (take k c) | k c. disk_files d p = Some c})"

lemma disk_left_other:
  "disk_files d' p = disk_files d p \<Longrightarrow> disk_synced d' p = disk_synced d p \<Longrightarrow> disk_left d' p = disk_left d p"
  by (simp add: disk_left_def)

lemma disk_left_new:
  assumes "disk_files d' p = Some c" and "disk_synced d' p = disk_synced d p"
  shows "disk_left d' p \<subseteq> disk_left d p \<union> {Some (take k c) | k. True}"
proof -
  have "Some c \<in> {Some (take k c) | k. True}" by (auto intro: exI [of _ "length c"])
  moreover have "disk_synced d p \<in> disk_left d p" by (simp add: disk_left_def)
  ultimately show ?thesis using assms by (auto simp: disk_left_def)
qed

interpretation faulty: hop_disk disk_ops disk_files disk_left
proof
  fix i p off dst n dst' i' bs
  assume "io_read disk_ops i p off dst = ((Inr n, dst'), i')" "disk_files i p = Some bs" "n \<le> length dst"
  then show "length dst' = length dst \<and> take n dst' = take n (drop (unat off) bs)"
    by (auto simp: disk_ops_def Let_def min_def)
next
  fix i p u i'
  assume "io_truncate disk_ops i p = (u, i')"
  then have "disk_files i' p = Some []" "disk_synced i' p = disk_synced i p" by (auto simp: disk_ops_def)
  from disk_left_new [OF this] show "disk_left i' p \<subseteq> insert (Some []) (disk_left i p)" by auto
next
  fix i p off bs u i' old
  assume w: "io_write disk_ops i p off bs = (u, i')" and old: "disk_files i p = Some old" "length old = unat off"
  let ?c = "old @ take (room i) bs"
  have "disk_files i' p = Some ?c" "disk_synced i' p = disk_synced i p"
    using w old by (auto simp: disk_ops_def Let_def)
  from disk_left_new [OF this] have "disk_left i' p \<subseteq> disk_left i p \<union> {Some (take k ?c) | k. True}" .
  moreover have "take k ?c = take (min k (length old + room i)) (old @ bs)" for k by (auto simp: min_def)
  then have "{Some (take k ?c) | k. True} \<subseteq> {Some (take k (old @ bs)) | k. True}" by blast
  ultimately show "disk_left i' p \<subseteq> disk_left i p \<union> {Some (take k (old @ bs)) | k. True}" by blast
next
  fix i p off bs u i' q
  assume "io_write disk_ops i p off bs = (u, i')" "q \<noteq> p"
  then show "disk_left i' q \<subseteq> disk_left i q"
    by (auto simp: disk_ops_def Let_def split: option.splits if_splits intro!: equalityD1 disk_left_other)
next
  fix i p u i' q
  assume "io_truncate disk_ops i p = (u, i')" "q \<noteq> p"
  then show "disk_left i' q \<subseteq> disk_left i q"
    by (auto simp: disk_ops_def intro!: equalityD1 disk_left_other)
next
  fix i p u i' q
  assume "io_sync disk_ops i p = (u, i')"
  then show "disk_left i' q \<subseteq> disk_left i q"
    by (cases "q = p") (auto simp: disk_ops_def disk_left_def split: if_splits)
next
  fix i p i'
  assume "io_sync disk_ops i p = (Inr (), i')"
  then show "disk_left i' p \<subseteq> {disk_files i p}" by (auto simp: disk_ops_def disk_left_def split: if_splits)
qed (auto simp: disk_ops_def disk_left_def Let_def unat_of_nat split: option.splits if_splits)

section \<open>What a restart finds\<close>

definition legacy_disk :: "nat \<Rightarrow> disk hop_files" where
  "legacy_disk n = \<lparr>hop_io = \<lparr>disk_files = [''/d'' \<mapsto> [123, 125]], disk_synced = [''/d'' \<mapsto> [123, 125]], room = n\<rparr>,
     hop_path = ''/d'', poisoned = False\<rparr>"

lemma legacy_open:
  "files_open (hop_read disk_ops) (legacy_disk n)
     = Inr (\<lparr>backend = legacy_disk n, active = Legacy, file_generation = 0\<rparr>, [123, 125])"
  by (simp add: files_open_def legacy_disk_def disk_ops_def hop_read_def hop_read_file_def hop_slot_path_def slot_suffix_def hop_read_loop.simps
     CHUNK_def Let_def result_iff slot_select_def MAX_BYTES_def is_ok_def bindR_def)

lemma legacy_settled:
  "hop_remains disk_left (legacy_disk n) s = {hop_contents disk_files (legacy_disk n) s}"
  "hop_contents disk_files (legacy_disk n) Legacy = Some [123, 125]"
  by (simp_all add: hop_remains_def hop_contents_def legacy_disk_def disk_left_def slot_suffix_def)

text \<open>A restart never loses an acknowledged document. On any disk that behaves as documented,
  whatever fails and whenever (truncate, a chunk, the sync, the read-back), and whatever a loss of power then takes of
  the writes no sync has confirmed (\<open>c\<close>), after any sequence of
  saves opening finds the last acknowledged document or one attempted after it, and never half of
  one. The owner must have opened on an existing document (a valid slot or a legacy file), with nothing left unconfirmed.\<close>

theorem hop_restart_recovers:
  assumes "hop_disk ops fget fleft" and "files_open (hop_read ops) be = Inr (f, p0)"
    and "active f \<noteq> Legacy \<or> hop_contents fget be Legacy \<noteq> None"
    and "\<And>s. hop_remains fleft be s \<subseteq> {hop_contents fget be s}"
    and "files_saves (hop_read ops) (hop_write ops) f ps = (rs, f')"
    and "may_remain (hop_remains fleft (backend f')) c"
  shows "\<exists>p \<in> set (candidates [p0] (zip ps rs)). recovers c p
    \<and> (\<forall>be' f'' q. hop_contents fget be' = c \<longrightarrow> files_open (hop_read ops) be' = Inr (f'', q) \<longrightarrow> q = p)"
  using assms by (rule hop_disk.hop_restart)

theorem hop_restart_recovers_witness:
  "let (rs, f') = files_saves (hop_read disk_ops) (hop_write disk_ops)
         \<lparr>backend = legacy_disk 40, active = Legacy, file_generation = 0\<rparr> [[1], [2]]
   in \<exists>p \<in> set (candidates [[123, 125]] (zip [[1], [2]] rs)).
        recovers (hop_contents disk_files (backend f')) p"
proof -
  obtain rs f' where s: "files_saves (hop_read disk_ops) (hop_write disk_ops)
         \<lparr>backend = legacy_disk 40, active = Legacy, file_generation = 0\<rparr> [[1], [2]] = (rs, f')"
    by (metis surj_pair)
  have "may_remain (hop_remains disk_left (backend f')) (hop_contents disk_files (backend f'))"
    by (simp add: may_remain_def faulty.ab.present)
  then have "\<exists>p \<in> set (candidates [[123, 125]] (zip [[1], [2]] rs)). recovers (hop_contents disk_files (backend f')) p"
    using hop_restart_recovers [OF faulty.hop_disk_axioms legacy_open _ _ s] by (fastforce simp: legacy_settled)
  then show ?thesis using s by (simp del: files_saves.simps)
qed

section \<open>Acknowledgement and poisoning\<close>

lemma hop_write_synced:
  assumes "hop_write ops f s bs = (Inr u, f')"
  shows "\<exists>i. io_sync ops i (hop_path f @ slot_suffix s) = (Inr u, hop_io f')" and "f' = f\<lparr>hop_io := hop_io f'\<rparr>"
  using assms
  by (auto simp: hop_write_def hop_write_file_def hop_slot_path_def is_ok_def Let_def
      split: if_splits prod.splits sum.splits)

lemma hop_write_poisons:
  "hop_write ops f s bs = (Inl e, f') \<Longrightarrow> f' = f \<or> poisoned f'"
  by (auto simp: hop_write_def hop_slot_path_def is_ok_def Let_def split: if_splits prod.splits sum.splits)

lemma hop_write_poisoned: "poisoned f \<Longrightarrow> \<exists>e. hop_write ops f s bs = (Inl e, f)"
  by (simp add: hop_write_def hop_slot_path_def)

lemma slot_encode_length: "slot_encode g p = Inr bs \<Longrightarrow> length bs \<le> MAX_BYTES + 24"
  by (auto simp: slot_encode_Inr)

text \<open>HopOS confirms a save only after a completed sync: when \<open>save\<close> reports success, the last file
  operation was a successful sync of the slot file the document went to, and the owner moved to
  that slot and the next generation. A readback never stands in for it.\<close>

theorem hop_save_acknowledged:
  assumes "files_save (hop_read ops) (hop_write ops) f p = (Inr (), f')"
  shows "(\<exists>i. io_sync ops i (hop_path (backend f) @ slot_suffix (files_target f))
            = (Inr (), hop_io (backend f')))
    \<and> active f' = files_target f \<and> unat (file_generation f') = unat (file_generation f) + 1"
proof -
  obtain g bs where g: "checked_add (file_generation f) 1 = Some g" and bs: "slot_encode g p = Inr bs"
    using assms by (auto simp: files_save_def ok_or_def split: option.splits sum.splits)
  obtain w be1 where w: "hop_write ops (backend f) (files_target f) bs = (w, be1)" by fastforce
  have "files_target f \<noteq> Legacy" by (simp add: files_target_def)
  then have "poisoned be1" if "w = Inl e" for e
    using hop_write_refused [OF w [unfolded that]] slot_encode_length [OF bs] by auto
  then have "w = Inr ()"
    using assms g bs w hop_read_poisoned [of be1 ops]
    by (cases w) (auto simp: files_save_def ok_or_def)
  then show ?thesis
    using assms g bs w hop_write_synced(1) [of ops "backend f" "files_target f" bs "()" be1] checked_succ
    by (auto simp: files_save_def ok_or_def Let_def)
qed

text \<open>The first uncertain write ends this owner: once poisoned, every later save fails and changes
  neither the disk nor the owner, so an unconfirmed generation is never overwritten.\<close>

theorem hop_poisoned_final:
  assumes "poisoned (backend f)" and "files_saves (hop_read ops) (hop_write ops) f ps = (rs, f')"
  shows "f' = f \<and> length rs = length ps \<and> (\<forall>r \<in> set rs. \<not> is_ok r)"
  using assms(2)
proof (induction ps arbitrary: rs)
  case (Cons p ps)
  have "\<exists>e. files_save (hop_read ops) (hop_write ops) f p = (Inl e, f)"
  proof (cases "checked_add (file_generation f) 1")
    case None
    then show ?thesis by (simp add: files_save_def ok_or_def del: checked_add_None_iff)
  next
    case (Some g)
    obtain e where e: "hop_write ops (backend f) (files_target f) bs = (Inl (e bs), backend f)" for bs
      using hop_write_poisoned [OF assms(1)] by metis
    show ?thesis
      using Some hop_read_poisoned [OF assms(1), of ops] e
      by (cases "slot_encode g p") (simp_all add: files_save_def ok_or_def Let_def)
  qed
  then obtain e where "files_save (hop_read ops) (hop_write ops) f p = (Inl e, f)" by blast
  with Cons show ?case by (auto simp: is_ok_def split: prod.splits)
qed simp

lemma chunks_one: "xs \<noteq> [] \<Longrightarrow> length xs \<le> n \<Longrightarrow> chunks n xs = [xs]"
  by (cases "n = 0") (simp_all add: chunks.simps)

theorem hop_save_acknowledged_witness:
  "\<exists>f'. files_save (hop_read disk_ops) (hop_write disk_ops)
       \<lparr>backend = legacy_disk 40, active = Legacy, file_generation = 0\<rparr> [1] = (Inr (), f')
     \<and> active f' = A \<and> unat (file_generation f') = 1"
proof -
  define f where "f = \<lparr>backend = legacy_disk 40, active = Legacy, file_generation = 0\<rparr>"
  define bs where "bs = slot_header 1 1 @ le_bytes 4 (unat (checksum (slot_header 1 1) [1])) @ [1]"
  have enc: "slot_encode 1 [1] = Inr bs"
    by (simp add: slot_encode_Inr bs_def MAX_BYTES_def)
  have len: "length bs = 25" "bs \<noteq> []" by (simp_all add: bs_def)
  then have "chunks CHUNK bs = [bs]"
    by (simp add: chunks_one CHUNK_def)
  then obtain f' where "files_save (hop_read disk_ops) (hop_write disk_ops) f [1] = (Inr (), f')"
    using enc len
    by (simp add: f_def files_save_def files_target_def checked_add_def ok_or_def hop_write_def
        hop_slot_path_def hop_write_file_def legacy_disk_def disk_ops_def is_ok_def MAX_BYTES_def)
  then show ?thesis
    using hop_save_acknowledged [of disk_ops f "[1]" f'] by (auto simp: f_def files_target_def)
qed

theorem hop_poisoned_final_witness:
  "list_all (\<lambda>r. \<not> is_ok r) (fst (files_saves (hop_read disk_ops) (hop_write disk_ops)
       \<lparr>backend = (legacy_disk 40)\<lparr>poisoned := True\<rparr>, active = A, file_generation = 3\<rparr> [[1], [2]]))"
  using hop_poisoned_final
    [of "\<lparr>backend = (legacy_disk 40)\<lparr>poisoned := True\<rparr>, active = A, file_generation = 3\<rparr>"
      disk_ops "[[1], [2]]", OF _ prod.collapse [symmetric]]
  by (simp add: list_all_iff)

section \<open>The first write of an empty installation\<close>

lemma slot_select_none:
  assumes "Option.bind a slot_decode = None" and "Option.bind b slot_decode = None" and "a \<noteq> None \<or> b \<noteq> None"
  shows "\<not> is_ok (slot_select a b None)"
  using assms by (auto simp: slot_select_def is_ok_def split: option.splits)

context hop_disk
begin

text \<open>Opening an empty device: no slot and no legacy document, so generation 0 on the legacy slot.\<close>

lemma open_empty:
  assumes "\<And>s. hop_remains fleft be s = {None}" and "files_open (hop_read ops) be = Inr (f, p0)"
  shows "p0 = []" and "active f = Legacy" and "file_generation f = 0" and "\<And>s. hop_remains fleft (backend f) s \<subseteq> {None}"
proof -
  have "hop_contents fget be s = None" for s using ab.present [of be s] assms(1) [of s] by simp
  then show "p0 = []" "active f = Legacy" "file_generation f = 0"
    using ab.open_result(3) [OF assms(2)] by (simp_all add: slot_select_def)
  show "hop_remains fleft (backend f) s \<subseteq> {None}" for s using ab.open_remains [OF assms(2)] assms(1) by blast
qed

text \<open>A first save on it: what remains of slot A is nothing or a first part of the record; the other slots stay empty.\<close>

lemma first_save:
  assumes "\<And>s. hop_remains fleft (backend f) s \<subseteq> {None}" and "active f = Legacy" and "file_generation f = 0"
    and "files_save (hop_read ops) (hop_write ops) f p = (r, f')" and "slot_encode 1 p = Inr bs"
  shows "hop_remains fleft (backend f') A \<subseteq> {None} \<union> {Some (take k bs) | k. True}"
    and "s \<noteq> A \<Longrightarrow> hop_remains fleft (backend f') s \<subseteq> {None}"
    and "is_ok r \<Longrightarrow> hop_remains fleft (backend f') A \<subseteq> {Some bs}"
proof -
  have t: "files_target f = A" using assms(2) by (simp add: files_target_def)
  have g: "checked_add (file_generation f) 1 = Some 1" using assms(3) by (simp add: checked_add_def)
  obtain w be1 where w: "hop_write ops (backend f) A bs = (w, be1)" by fastforce
  note rem = written_remains [OF w]
  have len: "length bs \<le> MAX_BYTES + 24" using assms(5) by (auto simp: slot_encode_Inr)
  have f': "backend f' = be1 \<and> (is_ok r \<longrightarrow> w = Inr ())"
  proof (cases w)
    case (Inr u)
    then show ?thesis using assms(4,5) g t w by (auto simp: files_save_def ok_or_def Let_def)
  next
    case (Inl e)
    then have "poisoned be1" using hop_write_refused [OF w [unfolded Inl]] len by fastforce
    then show ?thesis using Inl assms(4,5) g t w by (auto simp: files_save_def ok_or_def Let_def hop_read_poisoned is_ok_def)
  qed
  show "hop_remains fleft (backend f') A \<subseteq> {None} \<union> {Some (take k bs) | k. True}"
    using f' rem(3) assms(1) [of A] by blast
  show "s \<noteq> A \<Longrightarrow> hop_remains fleft (backend f') s \<subseteq> {None}" using f' rem(1) [of s] assms(1) [of s] by blast
  show "is_ok r \<Longrightarrow> hop_remains fleft (backend f') A \<subseteq> {Some bs}" using f' rem(2) by blast
qed

lemma torn_first_save:
  assumes "\<And>s. hop_remains fleft be s = {None}" and "files_open (hop_read ops) be = Inr (f, p0)"
    and "files_save (hop_read ops) (hop_write ops) f p = (r, f')" and "slot_encode 1 p = Inr bs"
    and "may_remain (hop_remains fleft (backend f')) c" and "c A \<noteq> None" and "c A \<noteq> Some bs"
  shows "p0 = [] \<and> \<not> is_ok r \<and> (\<forall>be'. hop_contents fget be' = c \<longrightarrow> \<not> is_ok (files_open (hop_read ops) be'))"
proof -
  note e = open_empty [OF assms(1,2)]
  note left = first_save [OF e(4,2,3) assms(3,4)]
  have c: "c A \<in> {None} \<union> {Some (take k bs) | k. True}" "c B = None" "c Legacy = None"
    using left(1) left(2) [of B] left(2) [of Legacy] assms(5) unfolding may_remain_def by blast+
  then obtain k where k: "c A = Some (take k bs)" using assms(6) by auto
  then have "k < length bs" using assms(7) by (metis linorder_not_less take_all)
  then have torn: "slot_decode (take k bs) = None" using slot_decode_prefix [OF assms(4)] by simp
  have "\<not> is_ok r" using left(3) assms(5,7) unfolding may_remain_def by blast
  moreover have "\<not> is_ok (files_open (hop_read ops) be')" if "hop_contents fget be' = c" for be'
  proof
    assume "is_ok (files_open (hop_read ops) be')"
    then obtain g q where "files_open (hop_read ops) be' = Inr (g, q)" by (auto simp: is_ok_iff)
    from ab.open_result(3) [OF this] have "is_ok (slot_select (c A) (c B) (c Legacy))" using that by (simp add: is_ok_def)
    moreover have "\<not> is_ok (slot_select (c A) (c B) None)"
      using k torn c(2) by (intro slot_select_none) simp_all
    ultimately show False using c(3) by simp
  qed
  ultimately show ?thesis using e(1) by blast
qed

end

text \<open>C38: An interrupted first write on an empty installation, on any disk that behaves as documented. With no slot
  and no legacy document, whatever document the first save was given and wherever it was torn: when a loss of power leaves a
  slot A that exists but is not the whole record, the save had not been acknowledged, and yet no later open, by whatever
  adapter finds these contents, succeeds: the controller does not start again although nothing had ever been promised.\<close>

theorem fresh_install_torn_write:
  assumes "hop_disk ops fget fleft" and "\<forall>s. hop_remains fleft be s = {None}"
    and "files_open (hop_read ops) be = Inr (f, p0)"
    and "files_save (hop_read ops) (hop_write ops) f p = (r, f')" and "slot_encode 1 p = Inr bs"
    and "may_remain (hop_remains fleft (backend f')) c" and "c A \<noteq> None" and "c A \<noteq> Some bs"
  shows "p0 = [] \<and> \<not> is_ok r \<and> (\<forall>be'. hop_contents fget be' = c \<longrightarrow> \<not> is_ok (files_open (hop_read ops) be'))"
  using hop_disk.torn_first_save [OF assms(1) assms(2) [rule_format] assms(3-8)] .

definition empty_disk :: "nat \<Rightarrow> disk hop_files" where
  "empty_disk n = \<lparr>hop_io = \<lparr>disk_files = Map.empty, disk_synced = Map.empty, room = n\<rparr>, hop_path = ''/d'', poisoned = False\<rparr>"

lemma empty_open:
  "files_open (hop_read disk_ops) (empty_disk n)
     = Inr (\<lparr>backend = empty_disk n, active = Legacy, file_generation = 0\<rparr>, [])"
  by (simp add: files_open_def empty_disk_def disk_ops_def hop_read_def hop_read_file_def
      hop_slot_path_def slot_suffix_def Let_def slot_select_def is_ok_def bindR_def)

text \<open>The disk of the tests with room for 10 bytes: the first save of two bytes tears within the header.\<close>

theorem fresh_install_torn_write_witness:
  "\<exists>r f'. files_save (hop_read disk_ops) (hop_write disk_ops)
           \<lparr>backend = empty_disk 10, active = Legacy, file_generation = 0\<rparr> [123, 125] = (r, f') \<and> \<not> is_ok r
         \<and> \<not> is_ok (files_open (hop_read disk_ops) ((backend f')\<lparr>poisoned := False\<rparr>))"
proof -
  define f where "f = \<lparr>backend = empty_disk 10, active = Legacy, file_generation = 0\<rparr>"
  define bs where "bs = slot_header 1 2 @ le_bytes 4 (unat (checksum (slot_header 1 2) [123, 125])) @ [123, 125]"
  have enc: "slot_encode 1 [123, 125] = Inr bs" by (simp add: slot_encode_Inr bs_def MAX_BYTES_def flip: numeral_2_eq_2)
  have len: "length bs = 26" "bs \<noteq> []" by (simp_all add: bs_def)
  then have ch: "chunks CHUNK bs = [bs]" by (simp add: chunks_one CHUNK_def)
  define torn where "torn = (empty_disk 10)\<lparr>hop_io :=
    \<lparr>disk_files = [''/d.a'' \<mapsto> take 10 bs], disk_synced = Map.empty, room = 0\<rparr>, poisoned := True\<rparr>"
  have s: "files_save (hop_read disk_ops) (hop_write disk_ops) f [123, 125] = (Inl Storage, f\<lparr>backend := torn\<rparr>)"
    using enc len ch
    by (simp add: f_def files_save_def files_target_def checked_add_def ok_or_def hop_write_def
        hop_slot_path_def hop_write_file_def empty_disk_def disk_ops_def is_ok_def MAX_BYTES_def
        slot_suffix_def hop_read_poisoned torn_def)
  define c where "c = hop_contents disk_files torn"
  have "may_remain (hop_remains disk_left (backend (f\<lparr>backend := torn\<rparr>))) c"
    by (simp add: may_remain_def c_def faulty.ab.present)
  moreover have "\<forall>s. hop_remains disk_left (empty_disk 10) s = {None}"
    by (simp add: hop_remains_def empty_disk_def disk_left_def)
  moreover have "c A = Some (take 10 bs)" by (simp add: c_def hop_contents_def torn_def empty_disk_def slot_suffix_def)
  moreover have "length (take 10 bs) \<noteq> length bs" using len(1) by simp
  then have "take 10 bs \<noteq> bs" by metis
  ultimately have "\<forall>be'. hop_contents disk_files be' = c \<longrightarrow> \<not> is_ok (files_open (hop_read disk_ops) be')"
    using fresh_install_torn_write [OF faulty.hop_disk_axioms _ empty_open s [unfolded f_def] enc, of c] by (simp add: f_def)
  moreover have "hop_contents disk_files (torn\<lparr>poisoned := False\<rparr>) = c" by (simp add: c_def hop_contents_def fun_eq_iff)
  ultimately show ?thesis using s by (simp add: f_def is_ok_def)
qed

end
