(* ===== verification/StoreDurable.thy ===== *)
theory StoreDurable
  imports StoreLaws HopStorage "HOL-Library.Sublist"
begin

text \<open>
  The store on durable storage. What the store relies on is the locale \<open>durable_storage\<close>: the storage
  holds a list of candidate documents, the last acknowledged one at its end and those of refused saves
  before it, and a restart finds one of them, whatever a loss of power took. The A/B slot files of HopOS provide it.
  A recorder around the storage names every document the store tried to save, so that the candidates are these and no others.
\<close>

section \<open>The contract of the storage\<close>

text \<open>\<open>outcome st c\<close>: contents that may be found after the storage was left in state \<open>st\<close>; \<open>finds c p\<close>: a restart on them reads \<open>p\<close>.\<close>

locale durable_storage =
  fixes save :: "'s save" and holds :: "'s \<Rightarrow> string list \<Rightarrow> bool" and outcome :: "'s \<Rightarrow> 'c \<Rightarrow> bool"
    and finds :: "'c \<Rightarrow> string \<Rightarrow> bool"
  assumes acknowledged: "holds st cand \<Longrightarrow> save st bs = (Inr (), st') \<Longrightarrow> holds st' [bs]"
    and refused_save: "holds st cand \<Longrightarrow> save st bs = (Inl e, st') \<Longrightarrow> holds st' (bs # cand)"
    and restart: "holds st cand \<Longrightarrow> outcome st c \<Longrightarrow> \<exists>p \<in> set cand. finds c p"

text \<open>A sequence of operations, with the outcome of each.\<close>

fun run_ops :: "'s save \<Rightarrow> store_op list \<Rightarrow> 's store \<Rightarrow> unit result list \<times> 's store" where
  "run_ops save [] s = ([], s)"
| "run_ops save (op # ops) s =
     (let (r, s1) = run_op save op s; (rs, s2) = run_ops save ops s1 in (r # rs, s2))"

text \<open>A storage that also records the documents it was given and how each save ended.\<close>

definition recorded :: "'s save \<Rightarrow> ('s \<times> (string \<times> unit result) list) save" where
  "recorded save st bs = (let (r, st') = save (fst st) bs in (r, st', snd st @ [(bs, r)]))"

text \<open>The documents a restart may find: the last acknowledged one, or the text \<open>t\<close> the store was opened on, at the end, and
  before it those whose save failed after it.\<close>

definition survivors :: "string \<Rightarrow> (string \<times> unit result) list \<Rightarrow> string list" where
  "survivors t log = foldl (\<lambda>cand (bs, r). if is_ok r then [bs] else bs # cand) [t] log"

lemma survivors_simps [simp]:
  "survivors t [] = [t]"
  "survivors t (log @ [(bs, r)]) = (if is_ok r then [bs] else bs # survivors t log)"
  by (simp_all add: survivors_def)

lemma survivors_nonempty [simp]: "survivors t log \<noteq> []"
  by (induction log rule: rev_induct) (auto split: if_splits)

text \<open>The last acknowledged document is the one in memory, or nothing was acknowledged since the document \<open>d\<close> was read.\<close>

definition in_step :: "document \<Rightarrow> string \<Rightarrow> ('s \<times> (string \<times> unit result) list) store \<Rightarrow> bool" where
  "in_step d t s \<longleftrightarrow> doc_encode (config s) = Inr (last (survivors t (snd (storage s))))
     \<or> config s = d \<and> (\<forall>x \<in> set (snd (storage s)). \<not> is_ok (snd x))"

context durable_storage
begin

lemma op_recorded:
  assumes "holds (fst (storage s)) (survivors t (snd (storage s)))" and "in_step d t s"
    and "run_op (recorded save) op s = (r, s')"
  shows "holds (fst (storage s')) (survivors t (snd (storage s'))) \<and> in_step d t s'
    \<and> (\<exists>new. snd (storage s') = snd (storage s) @ new \<and> (new = [] \<or> (\<exists>bs. new = [(bs, r)])))"
proof -
  have "ends (recorded save) advances s (r, s')" using run_op_ends [of "recorded save" s op] assms(3) by simp
  then show ?thesis
  proof cases
    case (refused e)
    then show ?thesis using assms(1,2) by simp
  next
    case (unsaved bs e st)
    then obtain st1 where st: "save (fst (storage s)) bs = (Inl e, st1)" "st = (st1, snd (storage s) @ [(bs, Inl e)])"
      by (auto simp: recorded_def Let_def split: prod.splits)
    then show ?thesis
      using refused_save [OF assms(1) st(1)] assms(2) unsaved by (auto simp: in_step_def is_ok_def)
  next
    case (quiet_done a)
    then show ?thesis using assms(1,2) by (simp add: in_step_def)
  next
    case (saved bs a)
    then obtain st1 where st: "save (fst (storage s)) bs = (Inr (), st1)" "storage s' = (st1, snd (storage s) @ [(bs, Inr ())])"
      by (auto simp: recorded_def Let_def split: prod.splits)
    then show ?thesis
      using acknowledged [OF assms(1) st(1)] saved by (auto simp: in_step_def is_ok_def)
  qed
qed

lemma ops_recorded:
  assumes "holds (fst (storage s)) (survivors t (snd (storage s)))" and "in_step d t s"
    and "run_ops (recorded save) script s = (rs, s')"
  shows "holds (fst (storage s')) (survivors t (snd (storage s'))) \<and> in_step d t s'
    \<and> (\<exists>new. snd (storage s') = snd (storage s) @ new \<and> subseq (map snd new) rs)"
  using assms
proof (induction script arbitrary: s rs)
  case (Cons op script)
  obtain r s1 rs1 where r: "run_op (recorded save) op s = (r, s1)" "run_ops (recorded save) script s1 = (rs1, s')" "rs = r # rs1"
    using Cons.prems(3) by (auto split: prod.splits)
  obtain new1 where one: "snd (storage s1) = snd (storage s) @ new1" "new1 = [] \<or> (\<exists>bs. new1 = [(bs, r)])"
    and inv: "holds (fst (storage s1)) (survivors t (snd (storage s1)))" "in_step d t s1"
    using op_recorded [OF Cons.prems(1,2) r(1)] by blast
  obtain new where rest: "snd (storage s') = snd (storage s1) @ new" "subseq (map snd new) rs1"
    and inv': "holds (fst (storage s')) (survivors t (snd (storage s')))" "in_step d t s'"
    using Cons.IH [OF inv r(2)] by blast
  have "snd (storage s') = snd (storage s) @ new1 @ new" using one(1) rest(1) by simp
  moreover have "subseq (map snd (new1 @ new)) rs" using one(2) rest(2) r(3) by auto
  ultimately show ?case using inv' by blast
qed auto

lemma restart_finds:
  assumes "holds (fst (storage s)) [t]" and "snd (storage s) = []" and "run_ops (recorded save) script s = (rs, s')"
    and "storage s' = (st', log)" and "outcome st' c"
  shows "\<exists>p \<in> set (survivors t log). finds c p" and "subseq (map snd log) rs" and "in_step (config s) t s'"
proof -
  have "in_step (config s) t s" using assms(2) by (simp add: in_step_def)
  then have "holds st' (survivors t log) \<and> in_step (config s) t s' \<and> subseq (map snd log) rs"
    using ops_recorded [OF _ _ assms(3), of t "config s"] assms(1,2,4) by auto
  then show "\<exists>p \<in> set (survivors t log). finds c p" "subseq (map snd log) rs" "in_step (config s) t s'"
    using restart [OF _ assms(5)] by blast+
qed

end

section \<open>The slot files provide it\<close>

definition hop_save :: "'i io_ops \<Rightarrow> 'i hop_files files save" where
  "hop_save ops f bs = files_save (hop_read ops) (hop_write ops) f (as_bytes bs)"

definition slots_hold :: "('i \<Rightarrow> string \<Rightarrow> bytes option set) \<Rightarrow> 'i hop_files files \<Rightarrow> string list \<Rightarrow> bool" where
  "slots_hold fleft f cand \<longleftrightarrow>
     files_safe (hop_remains fleft (backend f)) (active f) (file_generation f) (map as_bytes cand)"

definition slots_left :: "('i \<Rightarrow> string \<Rightarrow> bytes option set) \<Rightarrow> 'i hop_files files \<Rightarrow> (slot \<Rightarrow> bytes option) \<Rightarrow> bool" where
  "slots_left fleft f c \<longleftrightarrow> may_remain (hop_remains fleft (backend f)) c"

definition slots_find :: "(slot \<Rightarrow> bytes option) \<Rightarrow> string \<Rightarrow> bool" where
  "slots_find c p \<longleftrightarrow> recovers c (as_bytes p)"

sublocale hop_disk \<subseteq> dur: durable_storage "hop_save ops" "slots_hold fleft" "slots_left fleft" slots_find
proof
  fix st cand bs st'
  assume "slots_hold fleft st cand" "hop_save ops st bs = (Inr (), st')"
  then show "slots_hold fleft st' [bs]"
    using ab.save_safe [of st "map as_bytes cand" "as_bytes bs" "Inr ()" st'] by (simp add: slots_hold_def hop_save_def)
next
  fix st cand bs e st'
  assume "slots_hold fleft st cand" "hop_save ops st bs = (Inl e, st')"
  then show "slots_hold fleft st' (bs # cand)"
    using ab.save_safe [of st "map as_bytes cand" "as_bytes bs" "Inl e" st'] by (simp add: slots_hold_def hop_save_def)
next
  fix st cand c
  assume "slots_hold fleft st cand" "slots_left fleft st c"
  then have "files_inv c (active st) (file_generation st) (map as_bytes cand)"
    by (simp add: slots_hold_def slots_left_def files_safe_def)
  then show "\<exists>p \<in> set cand. slots_find c p" using files_inv_recovers by (fastforce simp: slots_find_def)
qed

text \<open>The disk of the tests, which fails at any chosen byte and forgets what was not synced, is such a storage.\<close>

interpretation disk_store: durable_storage "hop_save disk_ops" "slots_hold disk_left" "slots_left disk_left" slots_find
  by (rule faulty.dur.durable_storage_axioms)

section \<open>Restarting the controller\<close>

context hop_disk
begin

lemma slots_opened:
  assumes "files_open (hop_read ops) be = Inr (f, as_bytes t)" and "active f \<noteq> Legacy \<or> hop_contents fget be Legacy \<noteq> None"
    and "\<And>s. hop_remains fleft be s \<subseteq> {hop_contents fget be s}"
  shows "slots_hold fleft f [t]"
  using ab.open_safe [OF assms] by (simp add: slots_hold_def)

lemma controller_restart:
  assumes "files_open (hop_read ops) be = Inr (f, as_bytes t)" and "active f \<noteq> Legacy \<or> hop_contents fget be Legacy \<noteq> None"
    and "\<And>s. hop_remains fleft be s \<subseteq> {hop_contents fget be s}"
    and "store_open t (f, []) = Inr s" and "run_ops (recorded (hop_save ops)) script s = (rs, s')"
    and "storage s' = (f', log)" and "may_remain (hop_remains fleft (backend f')) c"
  shows "\<exists>p \<in> set (survivors t log). recovers c (as_bytes p)
      \<and> (\<forall>be' f'' q. hop_contents fget be' = c \<longrightarrow> files_open (hop_read ops) be' = Inr (f'', q) \<longrightarrow> q = as_bytes p)"
    and "subseq (map snd log) rs" and "in_step (config s) t s'"
proof -
  have st: "storage s = (f, [])" using store_open_fields(3) [OF assms(4)] .
  then have h: "slots_hold fleft (fst (storage s)) [t]" "snd (storage s) = []" using slots_opened [OF assms(1-3)] by simp_all
  have o: "slots_left fleft f' c" using assms(7) by (simp add: slots_left_def)
  note found = dur.restart_finds [OF h assms(5,6) o]
  obtain p where p: "p \<in> set (survivors t log)" "recovers c (as_bytes p)" using found(1) by (auto simp: slots_find_def)
  have "q = as_bytes p" if "hop_contents fget be' = c" "files_open (hop_read ops) be' = Inr (f'', q)" for be' f'' q
    using ab.reopen_finds [OF _ that(2), of "as_bytes p"] p(2) that(1) by simp
  then show "\<exists>p \<in> set (survivors t log). recovers c (as_bytes p)
      \<and> (\<forall>be' f'' q. hop_contents fget be' = c \<longrightarrow> files_open (hop_read ops) be' = Inr (f'', q) \<longrightarrow> q = as_bytes p)"
    using p by blast
  show "subseq (map snd log) rs" "in_step (config s) t s'" using found(2,3) by simp_all
qed

end


lemma open_braces: "is_ok (store_open ''{}'' f)"
proof -
  have "p_value (Suc (Suc 0)) MAX_DEPTH (skip_ws ''{}'') = Inr (Object [], [])" by code_simp
  then have "parse_bounded ''{}'' MAX_BYTES = Inr j_object"
    by (simp add: parse_bounded_def MAX_BYTES_def j_object_def skip_ws_def)
  then have "doc_decode ''{}'' = Inr empty_document"
    by (simp add: doc_decode_def MAX_BYTES_def is_ascii_whitespace_def is_ws_def fill_empty)
  then show ?thesis by (simp add: store_open_def reconcile_empty)
qed


end
