(* ===== verification/Protocol.thy ===== *)
theory Protocol
  imports JsonRoundtrip Slots
begin

text \<open>
  The app channel, \<^verbatim>\<open>crates/protocol/src/lib.rs\<close>: the incremental decoder of length-prefixed frames,
  the shape of a frame and the encoder. The loop that drives the decoder is that of
  \<^verbatim>\<open>crates/hopos/src/apps.rs\<close>; it collects the frames the code hands to \<open>receive\<close>. Shown here: whatever
  way the bytes of a stream are cut into reads, the frames that come out are those of a reference
  definition on the whole stream, and values that are encoded arrive as they were sent.
\<close>

section \<open>The decoder\<close>

definition PROTOCOL_VERSION :: u64 where "PROTOCOL_VERSION = 1"

definition MAX_FRAME :: nat where "MAX_FRAME = 8 * 2 ^ 20"

definition MAX_GREETING :: nat where "MAX_GREETING = 256 * 2 ^ 10"

record decoder =
  dec_prefix :: bytes
  dec_prefix_len :: nat
  dec_body :: bytes
  dec_expected :: "nat option"
  dec_limit :: nat
  dec_poisoned :: bool

definition decoder_new :: "nat \<Rightarrow> decoder" where
  "decoder_new limit = \<lparr>dec_prefix = [0, 0, 0, 0], dec_prefix_len = 0, dec_body = [], dec_expected = None,
     dec_limit = limit, dec_poisoned = False\<rparr>"

text \<open>\<open>u32::from_be_bytes\<close> and \<open>to_be_bytes\<close> on four bytes.\<close>

definition be_nat :: "bytes \<Rightarrow> nat" where
  "be_nat bs = le_nat (rev bs)"

definition be_bytes :: "nat \<Rightarrow> bytes" where
  "be_bytes n = rev (le_bytes 4 n)"

text \<open>The loop that completes the prefix; the index into the array of four is in range while it runs.\<close>

fun fill_prefix :: "decoder \<Rightarrow> bytes \<Rightarrow> decoder \<times> nat" where
  "fill_prefix d [] = (d, 0)"
| "fill_prefix d (b # bs) =
     (if dec_prefix_len d < 4
      then case fill_prefix (d\<lparr>dec_prefix := (dec_prefix d)[dec_prefix_len d := b],
                               dec_prefix_len := dec_prefix_len d + 1\<rparr>) bs of (d1, used) \<Rightarrow> (d1, Suc used)
      else (d, 0))"

definition bad_size :: "nat \<Rightarrow> nat \<Rightarrow> bool" where
  "bad_size limit n \<longleftrightarrow> n = 0 \<or> limit < n \<or> MAX_FRAME < n"

definition expect_body :: "decoder \<Rightarrow> decoder result" where
  "expect_body d =
     (if dec_expected d = None then
        (if bad_size (dec_limit d) (be_nat (dec_prefix d)) then Inl (Invalid ''invalid frame length'')
         else Inr (d\<lparr>dec_expected := Some (be_nat (dec_prefix d))\<rparr>))
      else Inr d)"

definition feed :: "decoder \<Rightarrow> bytes \<Rightarrow> nat result \<times> decoder" where
  "feed d bs =
     (if dec_poisoned d then (Inl (Invalid ''protocol stream is poisoned''), d)
      else case fill_prefix d bs of (d1, used) \<Rightarrow>
        if dec_prefix_len d1 < 4 then (Inr used, d1)
        else case expect_body d1 of
          Inl e \<Rightarrow> (Inl e, d1\<lparr>dec_poisoned := True\<rparr>)
        | Inr d2 \<Rightarrow>
            let remaining = (case dec_expected d2 of None \<Rightarrow> 0 | Some n \<Rightarrow> n) - length (dec_body d2);
                n = min remaining (length bs - used)
            in (Inr (used + n), d2\<lparr>dec_body := dec_body d2 @ take n (drop used bs)\<rparr>))"

definition decoder_take :: "decoder \<Rightarrow> bytes option \<times> decoder" where
  "decoder_take d =
     (if dec_expected d \<noteq> Some (length (dec_body d)) then (None, d)
      else (Some (dec_body d), d\<lparr>dec_expected := None, dec_prefix_len := 0, dec_body := []\<rparr>))"

definition finish :: "decoder \<Rightarrow> unit result" where
  "finish d = (if dec_poisoned d \<or> dec_prefix_len d \<noteq> 0 then Inl (Invalid ''truncated protocol frame'') else Inr ())"

text \<open>
  One read of the connection. Nothing in the loop itself bounds it, so it is a partial function: a
  decoder that consumed nothing would spin here for ever.
\<close>

partial_function (option) read_frames :: "decoder \<Rightarrow> bytes \<Rightarrow> (bytes list \<times> unit result \<times> decoder) option" where
  [code]: "read_frames d bs =
     (if bs = [] then Some ([], Inr (), d)
      else case feed d bs of
        (Inl e, d1) \<Rightarrow> Some ([], Inl e, d1)
      | (Inr used, d1) \<Rightarrow>
          (case decoder_take d1 of
             (None, d2) \<Rightarrow> read_frames d2 (drop used bs)
           | (Some f, d2) \<Rightarrow>
               Option.bind (read_frames d2 (drop used bs)) (\<lambda>(fs, r, d3). Some (f # fs, r, d3))))"

text \<open>A connection: one read after the other, until one fails.\<close>

fun read_all :: "decoder \<Rightarrow> bytes list \<Rightarrow> (bytes list \<times> unit result \<times> decoder) option" where
  "read_all d [] = Some ([], Inr (), d)"
| "read_all d (c # cs) =
     Option.bind (read_frames d c) (\<lambda>(fs, r, d1).
       case r of Inl e \<Rightarrow> Some (fs, Inl e, d1)
       | Inr _ \<Rightarrow> map_option (\<lambda>(gs, r, d2). (fs @ gs, r, d2)) (read_all d1 cs))"

section \<open>Frames\<close>

datatype frame_kind = Request | Response | ErrorFrame | EventFrame

record frame =
  frame_kind_of :: frame_kind
  frame_id :: u64
  frame_value :: jvalue

definition frame_decode :: "bytes \<Rightarrow> frame result" where
  "frame_decode bs =
     bindR (from_hop (parse_bounded (map char_of_byte bs) MAX_FRAME)) (\<lambda>v.
     bindR (let t = j_text v ''t'' in
            if t = ''req'' then Inr Request else if t = ''res'' then Inr Response
            else if t = ''err'' then Inr ErrorFrame else if t = ''ev'' then Inr EventFrame
            else Inl (Invalid ''unknown frame type'')) (\<lambda>k.
     let i = j_uint v ''id'' in
     if k \<noteq> EventFrame \<and> i = 0 then Inl (Invalid ''RPC frame id is required'')
     else if (k = Request \<or> k = EventFrame) \<and> j_text v ''m'' = [] then Inl (Invalid ''frame method is required'')
     else if k = ErrorFrame \<and> (case j_get v ''e'' of None \<Rightarrow> True | Some e \<Rightarrow> j_text e ''message'' = [])
     then Inl (Invalid ''error frame message is required'')
     else Inr \<lparr>frame_kind_of = k, frame_id = i, frame_value = v\<rparr>))"

definition frame_method :: "frame \<Rightarrow> string" where
  "frame_method f = j_text (frame_value f) ''m''"

definition frame_response :: "u64 \<Rightarrow> string + jvalue \<Rightarrow> jvalue result" where
  "frame_response i res =
     (case res of
        Inr v \<Rightarrow> bindR (j_set (j_fields [(''id'', uint_value i)]) ''t'' (String ''res'')) (\<lambda>x. j_set x ''r'' v)
      | Inl m \<Rightarrow> bindR (j_set (j_fields [(''id'', uint_value i)]) ''t'' (String ''err'')) (\<lambda>x.
                   j_set x ''e'' (j_fields [(''message'', String m)])))"

definition frame_request :: "u64 \<Rightarrow> string \<Rightarrow> jvalue \<Rightarrow> jvalue" where
  "frame_request i m params =
     j_fields [(''t'', String (if i = 0 then ''ev'' else ''req'')), (''id'', uint_value i), (''m'', String m), (''p'', params)]"

definition frame_encode :: "jvalue \<Rightarrow> bytes result" where
  "frame_encode v =
     bindR (from_hop (to_string v)) (\<lambda>body.
       if body = [] \<or> MAX_FRAME < length body then Inl Full
       else bindR (if length body < 2 ^ 32 then Inr (length body) else Inl Full) (\<lambda>n.
         Inr (be_bytes n @ as_bytes body)))"

section \<open>The stream as a whole\<close>

text \<open>The frames of a stream, the bytes that are left over, and whether a length on it is not allowed.\<close>

function stream_frames :: "nat \<Rightarrow> bytes \<Rightarrow> bytes list \<times> bytes \<times> bool" where
  "stream_frames limit bs =
     (if length bs < 4 then ([], bs, False)
      else let size = be_nat (take 4 bs) in
        if bad_size limit size then ([], bs, True)
        else if length bs < 4 + size then ([], bs, False)
        else case stream_frames limit (drop (4 + size) bs) of (fs, rest, bad) \<Rightarrow> (take size (drop 4 bs) # fs, rest, bad))"
  by pat_completeness auto
termination by (relation "measure (\<lambda>(_, bs). length bs)") (auto simp: bad_size_def)

declare stream_frames.simps [simp del]

text \<open>What the decoder holds of the stream, and the states in which a read finds it.\<close>

definition held :: "decoder \<Rightarrow> bytes" where
  "held d = take (dec_prefix_len d) (dec_prefix d) @ dec_body d"

definition dec_ok :: "decoder \<Rightarrow> bool" where
  "dec_ok d \<longleftrightarrow> \<not> dec_poisoned d \<and> length (dec_prefix d) = 4 \<and> dec_prefix_len d \<le> 4
    \<and> (case dec_expected d of
         None \<Rightarrow> dec_prefix_len d < 4 \<and> dec_body d = []
       | Some n \<Rightarrow> dec_prefix_len d = 4 \<and> n = be_nat (dec_prefix d) \<and> \<not> bad_size (dec_limit d) n \<and> length (dec_body d) < n)"


lemma fill_prefix_rest:
  "fill_prefix d bs = (d', used) \<Longrightarrow> dec_body d' = dec_body d \<and> dec_expected d' = dec_expected d
    \<and> dec_limit d' = dec_limit d \<and> dec_poisoned d' = dec_poisoned d \<and> length (dec_prefix d') = length (dec_prefix d)
    \<and> dec_prefix_len d' = dec_prefix_len d + used"
proof (induction d bs arbitrary: d' used rule: fill_prefix.induct)
  case (2 d b bs)
  show ?case
  proof (cases "dec_prefix_len d < 4")
    case True
    let ?d = "d\<lparr>dec_prefix := (dec_prefix d)[dec_prefix_len d := b], dec_prefix_len := dec_prefix_len d + 1\<rparr>"
    obtain n where n: "fill_prefix ?d bs = (d', n)" "used = Suc n"
      using True 2(2) by (auto split: prod.splits)
    then show ?thesis using 2(1) [OF True n(1)] by simp
  qed (use 2(2) in simp)
qed simp

lemma fill_prefix_bytes:
  assumes "length (dec_prefix d) = 4" and "dec_prefix_len d \<le> 4" and "fill_prefix d bs = (d', used)"
  shows "used = min (4 - dec_prefix_len d) (length bs)
    \<and> take (dec_prefix_len d + used) (dec_prefix d') = take (dec_prefix_len d) (dec_prefix d) @ take used bs"
  using assms
proof (induction d bs arbitrary: d' used rule: fill_prefix.induct)
  case (2 d b bs)
  show ?case
  proof (cases "dec_prefix_len d < 4")
    case True
    let ?d = "d\<lparr>dec_prefix := (dec_prefix d)[dec_prefix_len d := b], dec_prefix_len := dec_prefix_len d + 1\<rparr>"
    obtain n where n: "fill_prefix ?d bs = (d', n)" "used = Suc n"
      using True 2(4) by (auto split: prod.splits)
    have "take (Suc (dec_prefix_len d)) ((dec_prefix d)[dec_prefix_len d := b]) = take (dec_prefix_len d) (dec_prefix d) @ [b]"
      using True 2(2) by (simp add: take_Suc_conv_app_nth)
    then show ?thesis
      using 2(1) [OF True _ _ n(1)] 2(2) True n(2) by auto
  next
    case False
    then show ?thesis using 2(2-4) by auto
  qed
qed auto

lemma stream_frames_short: "length bs < 4 \<Longrightarrow> stream_frames limit bs = ([], bs, False)"
  by (subst stream_frames.simps) simp

lemma held_quiet:
  assumes "dec_ok d"
  shows "stream_frames (dec_limit d) (held d) = ([], held d, False)"
  using assms by (subst stream_frames.simps) (auto simp: dec_ok_def held_def Let_def split: option.splits)

text \<open>The four ways in which a read of some bytes can go, by what the stream then holds.\<close>

lemma feed_waiting:
  assumes ok: "dec_ok d" and n: "dec_expected d = Some n"
  shows "feed d bs = (Inr (min (n - length (dec_body d)) (length bs)),
    d\<lparr>dec_body := dec_body d @ take (n - length (dec_body d)) bs\<rparr>)"
proof -
  have "fill_prefix d bs = (d, 0)"
    using ok n by (cases bs) (auto simp: dec_ok_def)
  then show ?thesis
    using ok n by (auto simp: feed_def dec_ok_def expect_body_def Let_def min_def)
qed

lemma feed_prefix:
  assumes ok: "dec_ok d" and n: "dec_expected d = None" and s: "s = held d @ bs"
  shows "if length s < 4
    then \<exists>d'. feed d bs = (Inr (length bs), d') \<and> dec_ok d' \<and> held d' = s \<and> dec_limit d' = dec_limit d
    else if bad_size (dec_limit d) (be_nat (take 4 s))
    then \<exists>e d'. feed d bs = (Inl e, d') \<and> dec_poisoned d'
    else \<exists>d'. feed d bs = (Inr (min (4 + be_nat (take 4 s) - length (held d)) (length bs)), d')
      \<and> dec_expected d' = Some (be_nat (take 4 s)) \<and> dec_body d' = take (be_nat (take 4 s)) (drop 4 s)
      \<and> \<not> dec_poisoned d' \<and> dec_prefix d' = take 4 s \<and> dec_prefix_len d' = 4 \<and> dec_limit d' = dec_limit d"
proof -
  obtain d1 used where f: "fill_prefix d bs = (d1, used)" by fastforce
  have d: "\<not> dec_poisoned d" "length (dec_prefix d) = 4" "dec_prefix_len d < 4" "dec_body d = []"
    using ok n by (auto simp: dec_ok_def)
  let ?p = "dec_prefix_len d"
  have used: "used = min (4 - ?p) (length bs)" and pre: "take (?p + used) (dec_prefix d1) = take ?p (dec_prefix d) @ take used bs"
    using fill_prefix_bytes [OF d(2) less_imp_le [OF d(3)] f] by auto
  have rest: "dec_prefix_len d1 = ?p + used" "dec_body d1 = []" "dec_expected d1 = None" "dec_limit d1 = dec_limit d"
      "\<not> dec_poisoned d1" and l1: "length (dec_prefix d1) = 4"
    using fill_prefix_rest [OF f] d n by auto
  have held: "length (held d) = ?p" "held d = take ?p (dec_prefix d)"
    using d by (auto simp: held_def)
  show ?thesis
  proof (cases "length s < 4")
    case True
    then have "used = length bs" "?p + used < 4" using used s held by auto
    then show ?thesis
      using True d f rest l1 pre s held by (auto simp: feed_def dec_ok_def held_def)
  next
    case False
    then have u: "used = 4 - ?p" "?p + used = 4" using used s held d by auto
    have p4: "dec_prefix d1 = take 4 s"
      using pre l1 u s held d by simp
    show ?thesis
      using False d f rest p4 u s held
      by (auto simp: feed_def expect_body_def Let_def min_def)
  qed
qed

definition incomplete :: "nat \<Rightarrow> bytes \<Rightarrow> bool" where
  "incomplete limit s \<longleftrightarrow>
     length s < 4 \<or> (\<not> bad_size limit (be_nat (take 4 s)) \<and> length s < 4 + be_nat (take 4 s))"

lemma stream_frames_incomplete: "incomplete limit s \<Longrightarrow> stream_frames limit s = ([], s, False)"
  by (subst stream_frames.simps) (auto simp: incomplete_def Let_def)

lemma stream_frames_complete:
  "\<not> incomplete limit s \<Longrightarrow> \<not> bad_size limit (be_nat (take 4 s)) \<Longrightarrow>
     stream_frames limit s = (case stream_frames limit (drop (4 + be_nat (take 4 s)) s) of (fs, rest, bad) \<Rightarrow>
       (take (be_nat (take 4 s)) (drop 4 s) # fs, rest, bad))"
  by (subst stream_frames.simps) (auto simp: incomplete_def Let_def)

lemma stream_frames_bad:
  "\<not> incomplete limit s \<Longrightarrow> bad_size limit (be_nat (take 4 s)) \<Longrightarrow> stream_frames limit s = ([], s, True)"
  by (subst stream_frames.simps) (auto simp: incomplete_def Let_def)

lemma held_waiting:
  assumes "dec_ok d" and "dec_expected d = Some n" and "s = held d @ bs"
  shows "take 4 s = dec_prefix d" "length (held d) = 4 + length (dec_body d)" "n = be_nat (take 4 s)"
    "drop 4 s = dec_body d @ bs" "\<not> bad_size (dec_limit d) n" "length (dec_body d) < n"
    "\<not> dec_poisoned d" "dec_prefix_len d = 4" "length (dec_prefix d) = 4" "length s = 4 + length (dec_body d) + length bs"
  using assms by (auto simp: dec_ok_def held_def)

lemma feed_incomplete:
  assumes ok: "dec_ok d" and s: "s = held d @ bs" and i: "incomplete (dec_limit d) s"
  shows "\<exists>d'. feed d bs = (Inr (length bs), d') \<and> decoder_take d' = (None, d') \<and> dec_ok d' \<and> held d' = s
    \<and> dec_limit d' = dec_limit d"
proof -
  have quiet: "decoder_take d' = (None, d')" if "dec_ok d'" for d'
    using that by (auto simp: decoder_take_def dec_ok_def split: option.splits)
  have "\<exists>d'. feed d bs = (Inr (length bs), d') \<and> dec_ok d' \<and> held d' = s \<and> dec_limit d' = dec_limit d"
  proof (cases "dec_expected d")
    case None
    note f = feed_prefix [OF ok None s]
    show ?thesis
    proof (cases "length s < 4")
      case True
      then show ?thesis using f by simp
    next
      case False
      let ?n = "be_nat (take 4 s)"
      have n: "\<not> bad_size (dec_limit d) ?n" "length s < 4 + ?n" using i False by (auto simp: incomplete_def)
      have "min (4 + ?n - length (held d)) (length bs) = length bs" using n(2) s by simp
      then obtain d' where d': "feed d bs = (Inr (length bs), d')" "dec_expected d' = Some ?n"
          "dec_body d' = drop 4 s" "\<not> dec_poisoned d'" "dec_prefix d' = take 4 s" "dec_prefix_len d' = 4"
          "dec_limit d' = dec_limit d"
        using f False n by auto
      have "dec_ok d'" using d' n False by (simp add: dec_ok_def)
      moreover have "held d' = s" using d' by (simp add: held_def)
      ultimately show ?thesis using d' by blast
    qed
  next
    case (Some n)
    note h = held_waiting [OF ok Some s]
    have "length (dec_body d) + length bs < n" using i h by (auto simp: incomplete_def)
    moreover from this have "held (d\<lparr>dec_body := dec_body d @ bs\<rparr>) = s"
      using h s by (simp add: held_def)
    ultimately show ?thesis
      using feed_waiting [OF ok Some, of bs] h(1,3,5-9) Some by (auto simp: dec_ok_def)
  qed
  then show ?thesis using quiet by blast
qed

lemma feed_bad:
  assumes ok: "dec_ok d" and s: "s = held d @ bs" and "\<not> incomplete (dec_limit d) s" and "bad_size (dec_limit d) (be_nat (take 4 s))"
  shows "\<exists>e d'. feed d bs = (Inl e, d') \<and> dec_poisoned d'"
proof (cases "dec_expected d")
  case None
  then show ?thesis
    using feed_prefix [OF ok None s] assms(3,4) by (auto simp: incomplete_def)
next
  case (Some n)
  then show ?thesis using held_waiting(3,5) [OF ok Some s] assms(4) by simp
qed

lemma feed_complete:
  assumes ok: "dec_ok d" and s: "s = held d @ bs" and "\<not> incomplete (dec_limit d) s"
    and "\<not> bad_size (dec_limit d) (be_nat (take 4 s))"
  shows "\<exists>used d' d''. feed d bs = (Inr used, d') \<and> 0 < used \<and> drop used bs = drop (4 + be_nat (take 4 s)) s
    \<and> decoder_take d' = (Some (take (be_nat (take 4 s)) (drop 4 s)), d'') \<and> dec_ok d'' \<and> held d'' = []
    \<and> dec_limit d'' = dec_limit d"
proof -
  let ?n = "be_nat (take 4 s)"
  have len: "4 + ?n \<le> length s" using assms(3,4) by (auto simp: incomplete_def)
  have short: "length (held d) < 4 + ?n"
  proof (cases "dec_expected d")
    case None
    then show ?thesis using ok by (auto simp: dec_ok_def held_def)
  next
    case (Some n)
    then show ?thesis using held_waiting(2,3,6) [OF ok Some s] by simp
  qed
  have "\<exists>d'. feed d bs = (Inr (4 + ?n - length (held d)), d') \<and> dec_expected d' = Some ?n
      \<and> dec_body d' = take ?n (drop 4 s) \<and> \<not> dec_poisoned d' \<and> length (dec_prefix d') = 4 \<and> dec_limit d' = dec_limit d"
  proof (cases "dec_expected d")
    case None
    have m: "min (4 + ?n - length (held d)) (length bs) = 4 + ?n - length (held d)" "\<not> length s < 4" "length (take 4 s) = 4"
      using len s by auto
    show ?thesis
      using feed_prefix [OF ok None s] assms(4) m by auto
  next
    case (Some n)
    note h = held_waiting [OF ok Some s]
    note eq = h(3,4)
    have m: "min (n - length (dec_body d)) (length bs) = 4 + ?n - length (held d)"
      using len h(2,3,10) by auto
    have body: "dec_body d @ take (n - length (dec_body d)) bs = take ?n (drop 4 s)"
      unfolding eq(2) using h(3,6) by simp
    show ?thesis
      unfolding feed_waiting [OF ok Some] m body using h(3,7,9) Some by auto
  qed
  then obtain d' where d': "feed d bs = (Inr (4 + ?n - length (held d)), d')" "dec_expected d' = Some ?n"
      "dec_body d' = take ?n (drop 4 s)" "\<not> dec_poisoned d'" "length (dec_prefix d') = 4" "dec_limit d' = dec_limit d"
    by blast
  have "dec_expected d' = Some (length (dec_body d'))" using d'(2,3) len by simp
  then have t: "decoder_take d' = (Some (take ?n (drop 4 s)), d'\<lparr>dec_expected := None, dec_prefix_len := 0, dec_body := []\<rparr>)"
    (is "_ = (_, ?d)") using d'(3) by (simp add: decoder_take_def)
  have "drop (4 + ?n - length (held d)) bs = drop (4 + ?n) s"
    unfolding s using short unfolding s by simp
  moreover have "dec_ok ?d" "held ?d = []" "dec_limit ?d = dec_limit d" "0 < 4 + ?n - length (held d)"
    using d' short by (simp_all add: dec_ok_def held_def)
  ultimately show ?thesis
    using d'(1) t by blast
qed

lemma read_frames_stream:
  assumes "dec_ok d" and "stream_frames (dec_limit d) (held d @ bs) = (fs, rest, bad)"
  shows "\<exists>r d'. read_frames d bs = Some (fs, r, d')
    \<and> (if bad then \<not> is_ok r \<and> dec_poisoned d'
       else r = Inr () \<and> dec_ok d' \<and> held d' = rest \<and> dec_limit d' = dec_limit d)"
  using assms
proof (induction bs arbitrary: d fs rule: length_induct)
  case (1 bs)
  define s where s: "s = held d @ bs"
  have fs: "stream_frames (dec_limit d) s = (fs, rest, bad)" using 1(3) s by simp
  show ?case
  proof (cases "bs = []")
    case True
    then show ?thesis using 1(2,3) held_quiet by (subst read_frames.simps) auto
  next
    case False
    consider (wait) "incomplete (dec_limit d) s"
      | (bad) "\<not> incomplete (dec_limit d) s" "bad_size (dec_limit d) (be_nat (take 4 s))"
      | (whole) "\<not> incomplete (dec_limit d) s" "\<not> bad_size (dec_limit d) (be_nat (take 4 s))" by blast
    then show ?thesis
    proof cases
      case wait
      obtain d' where d': "feed d bs = (Inr (length bs), d')" "decoder_take d' = (None, d')" "dec_ok d'" "held d' = s"
          "dec_limit d' = dec_limit d"
        using feed_incomplete [OF 1(2) s wait] by blast
      have "read_frames d bs = read_frames d' []"
        using False d' by (subst read_frames.simps) simp
      also have "\<dots> = Some ([], Inr (), d')" by (subst read_frames.simps) simp
      finally show ?thesis
        using fs stream_frames_incomplete [OF wait] d' by auto
    next
      case bad
      obtain e d' where "feed d bs = (Inl e, d')" "dec_poisoned d'" using feed_bad [OF 1(2) s bad] by blast
      then show ?thesis
        using False stream_frames_bad [OF bad] fs by (subst read_frames.simps) auto
    next
      case whole
      let ?f = "take (be_nat (take 4 s)) (drop 4 s)"
      obtain used d' d'' where f: "feed d bs = (Inr used, d')" "0 < used" "drop used bs = drop (4 + be_nat (take 4 s)) s"
          "decoder_take d' = (Some ?f, d'')" "dec_ok d''" "held d'' = []" "dec_limit d'' = dec_limit d"
        using feed_complete [OF 1(2) s whole] by blast
      obtain gs where gs: "stream_frames (dec_limit d'') (held d'' @ drop used bs) = (gs, rest, bad)" "fs = ?f # gs"
        using stream_frames_complete [OF whole] fs f(3,6,7) by (auto split: prod.splits)
      have "length (drop used bs) < length bs" using False f(2) by (cases bs) auto
      then obtain r d3 where "read_frames d'' (drop used bs) = Some (gs, r, d3)"
          "if bad then \<not> is_ok r \<and> dec_poisoned d3
           else r = Inr () \<and> dec_ok d3 \<and> held d3 = rest \<and> dec_limit d3 = dec_limit d''"
        using 1(1) f(5) gs(1) by blast
      then show ?thesis
        using False f(1,4,7) gs(2) by (subst read_frames.simps) auto
    qed
  qed
qed

lemma stream_frames_append:
  "stream_frames limit x = (fs, rest, bad) \<Longrightarrow> stream_frames limit (x @ y) =
     (if bad then (fs, rest @ y, True)
      else case stream_frames limit (rest @ y) of (gs, r, b) \<Rightarrow> (fs @ gs, r, b))"
proof (induction limit x arbitrary: fs rule: stream_frames.induct)
  case (1 limit x)
  consider (wait) "incomplete limit x"
    | (bad) "\<not> incomplete limit x" "bad_size limit (be_nat (take 4 x))"
    | (whole) "\<not> incomplete limit x" "\<not> bad_size limit (be_nat (take 4 x))" by blast
  then show ?case
  proof cases
    case wait
    then show ?thesis using 1(2) stream_frames_incomplete by (auto split: prod.splits)
  next
    case bad
    then have "4 \<le> length x" by (simp add: incomplete_def)
    then have "\<not> incomplete limit (x @ y)" "take 4 (x @ y) = take 4 x" using bad by (auto simp: incomplete_def)
    then show ?thesis using 1(2) bad stream_frames_bad [OF bad] stream_frames_bad [of limit "x @ y"] by auto
  next
    case whole
    let ?n = "be_nat (take 4 x)"
    have len: "4 + ?n \<le> length x" using whole by (auto simp: incomplete_def)
    then have xy: "\<not> incomplete limit (x @ y)" "be_nat (take 4 (x @ y)) = ?n" using whole by (auto simp: incomplete_def)
    obtain gs where gs: "stream_frames limit (drop (4 + ?n) x) = (gs, rest, bad)" "fs = take ?n (drop 4 x) # gs"
      using 1(2) stream_frames_complete [OF whole] by (auto split: prod.splits)
    have "stream_frames limit (drop (4 + ?n) x @ y) =
       (if bad then (gs, rest @ y, True) else case stream_frames limit (rest @ y) of (hs, r, b) \<Rightarrow> (gs @ hs, r, b))"
      using 1(1) [OF _ refl _ _ gs(1)] whole len by (auto simp: incomplete_def)
    moreover have "drop (4 + ?n) (x @ y) = drop (4 + ?n) x @ y" "take ?n (drop 4 (x @ y)) = take ?n (drop 4 x)"
      using len by auto
    ultimately show ?thesis
      using stream_frames_complete [OF xy(1)] xy(2) whole(2) gs(2) by (auto split: prod.splits if_splits)
  qed
qed

lemma read_all_stream:
  assumes "dec_ok d" and "stream_frames (dec_limit d) (held d @ concat cs) = (fs, rest, bad)"
  shows "\<exists>r d'. read_all d cs = Some (fs, r, d')
    \<and> (if bad then \<not> is_ok r \<and> dec_poisoned d' else r = Inr () \<and> dec_ok d' \<and> held d' = rest)"
  using assms
proof (induction cs arbitrary: d fs)
  case Nil
  then show ?case using held_quiet by auto
next
  case (Cons c cs)
  obtain gs r1 b1 where g: "stream_frames (dec_limit d) (held d @ c) = (gs, r1, b1)" by (metis prod_cases3)
  obtain r d' where r: "read_frames d c = Some (gs, r, d')"
      "if b1 then \<not> is_ok r \<and> dec_poisoned d'
       else r = Inr () \<and> dec_ok d' \<and> held d' = r1 \<and> dec_limit d' = dec_limit d"
    using read_frames_stream [OF Cons(2) g] by blast
  note app = stream_frames_append [OF g, of "concat cs"]
  show ?case
  proof (cases b1)
    case True
    then show ?thesis using r app Cons(3) by (cases r) auto
  next
    case False
    then have d': "r = Inr ()" "dec_ok d'" "held d' = r1" "dec_limit d' = dec_limit d" using r(2) by auto
    obtain hs where hs: "stream_frames (dec_limit d') (held d' @ concat cs) = (hs, rest, bad)" "fs = gs @ hs"
      using False app Cons(3) d' by (auto split: prod.splits)
    from Cons.IH [OF d'(2) hs(1)] show ?thesis using r(1) d'(1) hs(2) by auto
  qed
qed

lemma decoder_new_ok [simp]: "dec_ok (decoder_new limit)" "held (decoder_new limit) = []" "dec_limit (decoder_new limit) = limit"
  by (simp_all add: decoder_new_def dec_ok_def held_def)

lemma finish_iff: "dec_ok d \<Longrightarrow> finish d = Inr () \<longleftrightarrow> held d = []"
  by (auto simp: finish_def dec_ok_def held_def split: option.splits)

text \<open>C16: The decoder does not care how the network cuts a stream into reads: over any sequence of reads the
  loop ends, the frames taken are those of the whole stream, the connection fails exactly when a length on
  the stream is zero or above the limit, and the end of the stream is accepted exactly when it falls
  between two frames.\<close>

theorem decoder_stream_exact:
  "case stream_frames limit (concat chunks) of (fs, rest, bad) \<Rightarrow>
     \<exists>r d. read_all (decoder_new limit) chunks = Some (fs, r, d) \<and> is_ok r = (\<not> bad)
       \<and> (finish d = Inr ()) = (\<not> bad \<and> rest = [])"
proof -
  obtain fs rest bad where f: "stream_frames limit (concat chunks) = (fs, rest, bad)" by (metis prod_cases3)
  then obtain r d where "read_all (decoder_new limit) chunks = Some (fs, r, d)"
      "if bad then \<not> is_ok r \<and> dec_poisoned d else r = Inr () \<and> dec_ok d \<and> held d = rest"
    using read_all_stream [of "decoder_new limit" chunks] by auto
  then show ?thesis
    using f finish_iff by (cases bad) (auto simp: finish_def)
qed

section \<open>Messages\<close>

lemma be_nat_bytes: "n < 2 ^ 32 \<Longrightarrow> be_nat (be_bytes n) = n"
  by (simp add: be_nat_def be_bytes_def le_nat_bytes)

lemma length_be_bytes [simp]: "length (be_bytes n) = 4"
  by (simp add: be_bytes_def)

lemma frame_encode_Inr:
  "frame_encode v = Inr w \<longleftrightarrow> (\<exists>t. to_string v = Inr t \<and> t \<noteq> [] \<and> length t \<le> MAX_FRAME \<and> w = be_bytes (length t) @ as_bytes t)"
  by (auto simp: frame_encode_def result_iff MAX_FRAME_def split: if_splits)

lemma stream_frames_encoded:
  assumes "frame_encode v = Inr w" and "to_string v = Inr t"
  shows "stream_frames MAX_FRAME (w @ rest) =
    (case stream_frames MAX_FRAME rest of (fs, r, b) \<Rightarrow> (as_bytes t # fs, r, b))"
proof -
  have t: "t \<noteq> []" "length t \<le> MAX_FRAME" "w = be_bytes (length t) @ as_bytes t"
    using assms by (auto simp: frame_encode_Inr)
  have n: "be_nat (take 4 (w @ rest)) = length t"
    using t be_nat_bytes [of "length t"] by (simp add: MAX_FRAME_def)
  have b: "\<not> bad_size MAX_FRAME (length t)" "\<not> incomplete MAX_FRAME (w @ rest)"
    using t n by (auto simp: bad_size_def incomplete_def)
  show ?thesis
    using stream_frames_complete [OF b(2)] b(1) n t(3) by (auto split: prod.splits)
qed

text \<open>C31: What one side encodes the other side receives: however the bytes of a sequence of encoded values
  are cut into reads, the decoder yields one frame per value, in order, each of which parses to the value
  that was sent, and the stream ends cleanly.\<close>

theorem messages_delivered:
  assumes "list_all (text_ok MAX_DEPTH) vs" and "mapR frame_encode vs = Inr ws" and "concat chunks = concat ws"
  shows "\<exists>fs d. read_all (decoder_new MAX_FRAME) chunks = Some (fs, Inr (), d) \<and> finish d = Inr ()
    \<and> map (\<lambda>f. parse_bounded (map char_of_byte f) MAX_FRAME) fs = map (\<lambda>v. Inr (reread_value v)) vs"
proof -
  have "\<exists>fs. stream_frames MAX_FRAME (concat ws) = (fs, [], False)
      \<and> map (\<lambda>f. parse_bounded (map char_of_byte f) MAX_FRAME) fs = map (\<lambda>v. Inr (reread_value v)) vs"
    using assms(1,2)
  proof (induction vs arbitrary: ws)
    case Nil
    then show ?case by (auto simp: stream_frames_short)
  next
    case (Cons v vs)
    obtain w us where w: "frame_encode v = Inr w" "mapR frame_encode vs = Inr us" "ws = w # us"
      using Cons(3) by (auto simp: result_iff)
    obtain t where t: "to_string v = Inr t" "length t \<le> MAX_FRAME" using w(1) by (auto simp: frame_encode_Inr)
    have "parse_bounded t MAX_FRAME = Inr (reread_value v)" using text_ok_parse [OF t(1)] Cons(2) t(2) by simp
    moreover have "map char_of_byte (as_bytes t) = t" by (simp add: as_bytes_def comp_def)
    ultimately show ?case
      using Cons.IH [OF _ w(2)] Cons(2) stream_frames_encoded [OF w(1) t(1)] w(3) by auto
  qed
  then obtain fs where fs: "stream_frames MAX_FRAME (concat chunks) = (fs, [], False)"
      "map (\<lambda>f. parse_bounded (map char_of_byte f) MAX_FRAME) fs = map (\<lambda>v. Inr (reread_value v)) vs"
    using assms(3) by auto
  then show ?thesis
    using read_all_stream [of "decoder_new MAX_FRAME" chunks fs "[]" False] finish_iff by auto
qed

theorem messages_delivered_witness:
  "\<exists>w fs d. frame_encode (frame_request 1 ''ping'' Null) = Inr w
    \<and> read_all (decoder_new MAX_FRAME) (map (\<lambda>b. [b]) w) = Some (fs, Inr (), d) \<and> finish d = Inr ()
    \<and> map (\<lambda>f. parse_bounded (map char_of_byte f) MAX_FRAME) fs = [Inr (frame_request 1 ''ping'' Null)]"
proof -
  let ?v = "frame_request 1 ''ping'' Null"
  have ok: "text_ok MAX_DEPTH ?v" by code_simp
  have "map_sum id (\<lambda>t. (length t, t = [])) (to_string ?v) = Inr (38, False)" by code_simp
  then obtain t where "to_string ?v = Inr t" "length t = 38" "t \<noteq> []" by (cases "to_string ?v") auto
  then have w: "frame_encode ?v = Inr (be_bytes (length t) @ as_bytes t)" (is "_ = Inr ?w")
    by (simp add: frame_encode_Inr MAX_FRAME_def)
  have "concat (map (\<lambda>b. [b]) ?w) = concat [?w]" by (simp add: concat_map_singleton)
  moreover have "reread_value ?v = ?v"
    by (simp add: frame_request_def j_fields_def obj_push_def uint_value_def reread_integer)
  ultimately show ?thesis
    using messages_delivered [of "[?v]" "[?w]" "map (\<lambda>b. [b]) ?w"] ok w by auto
qed

end
