(* ===== verification/Token.thy ===== *)
theory Token
  imports Json Strings Protocol
begin

text \<open>
  Attach tokens, \<^verbatim>\<open>crates/protocol/src/token.rs\<close>. HMAC-SHA256 and base64 come from crates outside the
  repository and are parameters: \<open>hmac key message\<close>, \<open>b64 bytes\<close> and the strict decoder \<open>unb64\<close>. The message
  under the MAC is built here, and it determines the fields it was built from, so that a proof of one
  direction, nonce and app never stands for another.
\<close>

text \<open>The errors of the base64 crate the code distinguishes.\<close>

datatype base64_error = B64Trailing | B64OutOfMemory | B64Other

definition mac_field :: "string \<Rightarrow> bytes \<Rightarrow> bytes result" where
  "mac_field f acc = bindR (foldR (\<lambda>b out. j_push out b 16384) (as_bytes f) acc) (\<lambda>out. j_push out 0 16384)"

definition mac_bytes :: "string list \<Rightarrow> bytes result" where
  "mac_bytes parts = foldR mac_field parts []"

definition mac :: "(string \<Rightarrow> bytes \<Rightarrow> bytes) \<Rightarrow> (bytes \<Rightarrow> string) \<Rightarrow> string \<Rightarrow> string list \<Rightarrow> string result" where
  "mac hmac b64 key parts = bindR (mac_bytes parts) (\<lambda>bs. Inr (b64 (hmac key bs)))"

definition token :: "(string \<Rightarrow> bytes \<Rightarrow> bytes) \<Rightarrow> (bytes \<Rightarrow> string) \<Rightarrow> string \<Rightarrow> string \<Rightarrow> string result" where
  "token hmac b64 secret app = mac hmac b64 secret [''token'', app]"

datatype direction = AppSide | StulpSide

definition direction_name :: "direction \<Rightarrow> string" where
  "direction_name d = (case d of AppSide \<Rightarrow> ''app'' | StulpSide \<Rightarrow> ''stulp'')"

definition proof_of :: "(string \<Rightarrow> bytes \<Rightarrow> bytes) \<Rightarrow> (bytes \<Rightarrow> string) \<Rightarrow> string \<Rightarrow> direction \<Rightarrow> string \<Rightarrow> string \<Rightarrow> string result" where
  "proof_of hmac b64 tok d nonce app = mac hmac b64 tok [direction_name d, nonce, app]"

definition check :: "(string \<Rightarrow> bytes \<Rightarrow> bytes) \<Rightarrow> (bytes \<Rightarrow> string) \<Rightarrow> string \<Rightarrow> string \<Rightarrow> string \<Rightarrow> string \<Rightarrow> bool result" where
  "check hmac b64 secret app nonce offered =
     (if secret = [] \<or> nonce = [] \<or> offered = [] then Inr False
      else bindR (token hmac b64 secret app) (\<lambda>tok.
           bindR (proof_of hmac b64 tok AppSide nonce app) (\<lambda>expected. Inr (expected = offered))))"

definition token_equal :: "string \<Rightarrow> string \<Rightarrow> bool" where
  "token_equal a b = (a = b)"

text \<open>\<open>str::trim_end_matches('=')\<close> and the translation to the URL alphabet.\<close>

definition trim_equals :: "string \<Rightarrow> string" where
  "trim_equals s = rev (dropWhile (\<lambda>c. c = CHR ''='') (rev s))"

definition url_char :: "char \<Rightarrow> char" where
  "url_char c = (if c = CHR ''+'' then CHR ''-'' else if c = CHR ''/'' then CHR ''_'' else c)"

definition base64_decode :: "(bytes \<Rightarrow> base64_error + bytes) \<Rightarrow> string \<Rightarrow> bytes result" where
  "base64_decode unb64 raw0 =
     (let raw = trim raw0; s = trim_equals raw in
      if MAX_FRAME < length s \<or> 2 < length raw - length s then Inl (Invalid ''invalid base64'')
      else case unb64 (as_bytes (map url_char s)) of
        Inr bs \<Rightarrow> Inr bs
      | Inl B64Trailing \<Rightarrow> Inl (Invalid ''invalid base64 tail'')
      | Inl B64OutOfMemory \<Rightarrow> Inl Memory
      | Inl B64Other \<Rightarrow> Inl (Invalid ''invalid base64''))"

section \<open>The message determines its fields\<close>

definition framed :: "string list \<Rightarrow> bytes" where
  "framed parts = concat (map (\<lambda>f. as_bytes f @ [0]) parts)"

lemma framed_Cons [simp]: "framed (f # parts) = as_bytes f @ 0 # framed parts" and framed_Nil [simp]: "framed [] = []"
  by (simp_all add: framed_def)

lemma push_bytes:
  "foldR (\<lambda>b out. j_push out b m) bs acc =
     (if bs = [] \<or> length acc + length bs \<le> m then Inr (acc @ bs) else Inl Full)"
  by (induction bs arbitrary: acc) (auto simp: j_push_def)

lemma mac_field_eq:
  "mac_field f acc = (if length acc + length f < 16384 then Inr (acc @ as_bytes f @ [0]) else Inl Full)"
  unfolding mac_field_def push_bytes by (auto simp: j_push_def)

lemma mac_bytes_eq:
  "mac_bytes parts = (if length (framed parts) \<le> 16384 then Inr (framed parts) else Inl Full)"
proof -
  have "foldR mac_field parts acc =
      (if parts = [] \<or> length acc + length (framed parts) \<le> 16384 then Inr (acc @ framed parts) else Inl Full)" for acc
  proof (induction parts arbitrary: acc)
    case (Cons f parts)
    then show ?case by (cases "parts = []") (auto simp: mac_field_eq)
  qed simp
  from this [of "[]"] show ?thesis by (auto simp: mac_bytes_def)
qed

definition nul_free :: "string \<Rightarrow> bool" where
  "nul_free s \<longleftrightarrow> CHR 0x00 \<notin> set s"

lemma byte_zero_iff: "byte_of_char c = 0 \<longleftrightarrow> c = CHR 0x00"
proof
  assume "byte_of_char c = 0"
  then have "char_of_byte (byte_of_char c) = char_of_byte 0" by simp
  moreover have "char_of_byte 0 = CHR 0x00" by code_simp
  ultimately show "c = CHR 0x00" by simp
qed (simp add: byte_of_char_def)

lemma nul_free_bytes: "nul_free s \<longleftrightarrow> 0 \<notin> set (as_bytes s)"
  by (auto simp: nul_free_def as_bytes_def image_iff byte_zero_iff eq_commute [of 0])

lemma split_at_zero:
  "0 \<notin> set a \<Longrightarrow> 0 \<notin> set b \<Longrightarrow> a @ (0 :: u8) # x = b @ 0 # y \<longleftrightarrow> a = b \<and> x = y"
proof (induction a arbitrary: b)
  case Nil
  then show ?case by (cases b) auto
next
  case (Cons c a)
  then show ?case by (cases b) auto
qed

lemma framed_inject:
  "list_all nul_free xs \<Longrightarrow> list_all nul_free ys \<Longrightarrow> framed xs = framed ys \<longleftrightarrow> xs = ys"
proof (induction xs arbitrary: ys)
  case Nil
  then show ?case by (cases ys) (auto simp: framed_def)
next
  case (Cons x xs)
  show ?case
  proof (cases ys)
    case Nil
    then show ?thesis by (simp add: framed_def)
  next
    case (Cons y zs)
    have "framed (x # xs) = framed ys \<longleftrightarrow> as_bytes x = as_bytes y \<and> framed xs = framed zs"
      using Cons.prems Cons split_at_zero [of "as_bytes x" "as_bytes y" "framed xs" "framed zs"]
      by (simp add: framed_def nul_free_bytes)
    then show ?thesis using Cons.IH [of zs] Cons.prems Cons by auto
  qed
qed

text \<open>C35: An app is let in exactly when it offers the proof of its own direction for the nonce it was given
  under the token of its own identifier; an empty secret, nonce or proof lets nobody in; and for fields
  without a zero byte the message under the MAC differs for another direction, nonce or app, and from the
  message of every token, so no proof can be reflected or reused elsewhere.\<close>

theorem attach_proof_exact:
  "(check hmac b64 secret app nonce offered = Inr True) =
     (secret \<noteq> [] \<and> nonce \<noteq> [] \<and> offered \<noteq> []
      \<and> length (framed [''token'', app]) \<le> 16384 \<and> length (framed [''app'', nonce, app]) \<le> 16384
      \<and> offered = b64 (hmac (b64 (hmac secret (framed [''token'', app]))) (framed [''app'', nonce, app])))
   \<and> (list_all nul_free [nonce, app, nonce', app'] \<longrightarrow>
        (framed [direction_name d, nonce, app] = framed [direction_name d', nonce', app']) = (d = d' \<and> nonce = nonce' \<and> app = app')
        \<and> framed [direction_name d, nonce, app] \<noteq> framed [''token'', app'])" (is "?exact \<and> (?free \<longrightarrow> ?differ)")
proof (intro conjI impI)
  show ?exact
    by (auto simp: check_def token_def proof_of_def mac_def mac_bytes_eq direction_name_def result_iff split: if_splits)
next
  assume n: ?free
  have names: "nul_free (direction_name x)" "nul_free ''token''" for x
    by (cases x) (simp_all add: nul_free_def direction_name_def)
  show "(framed [direction_name d, nonce, app] = framed [direction_name d', nonce', app']) = (d = d' \<and> nonce = nonce' \<and> app = app')"
    using framed_inject [of "[direction_name d, nonce, app]" "[direction_name d', nonce', app']"] names n
    by (auto simp: direction_name_def split: direction.splits)
  show "framed [direction_name d, nonce, app] \<noteq> framed [''token'', app']"
    using framed_inject [of "[direction_name d, nonce, app]" "[''token'', app']"] names n by simp
qed

text \<open>A stand-in for the MAC that shows the two sides agree on a message.\<close>

definition open_mac :: "string \<Rightarrow> bytes \<Rightarrow> bytes" where
  "open_mac key m = as_bytes key @ m"

theorem attach_proof_exact_witness:
  "check open_mac (map char_of_byte) ''s'' ''lamp'' ''n1''
     (''stoken'' @ [CHR 0x00] @ ''lamp'' @ [CHR 0x00] @ ''app'' @ [CHR 0x00] @ ''n1'' @ [CHR 0x00] @ ''lamp'' @ [CHR 0x00]) = Inr True
   \<and> framed [direction_name AppSide, ''n1'', ''lamp''] \<noteq> framed [direction_name StulpSide, ''n1'', ''lamp'']"
proof -
  note t = attach_proof_exact [of open_mac "map char_of_byte" "''s''" "''lamp''" "''n1''"
      "''stoken'' @ [CHR 0x00] @ ''lamp'' @ [CHR 0x00] @ ''app'' @ [CHR 0x00] @ ''n1'' @ [CHR 0x00] @ ''lamp'' @ [CHR 0x00]"
      "''n1''" "''lamp''" AppSide StulpSide]
  have "char_of_byte 0 = CHR 0x00" by code_simp
  moreover have "map char_of_byte (as_bytes x) = x" for x by (simp add: as_bytes_def comp_def)
  ultimately show ?thesis
    using t by (simp add: framed_def open_mac_def as_bytes_append nul_free_def)
qed

end
