(* ===== verification/SceneRun.thy ===== *)
theory SceneRun
  imports StoreIntegrity
begin

text \<open>
  One scene being switched, \<open>Scene\<close> of \<^verbatim>\<open>crates/runtime/src/scenes.rs\<close>: the plan made when it starts (with the
  values to restore stored before the first command), the groups of commands per device, the outcomes,
  and the restore state and result at the end. Shown here: every command is sent at most once and none
  is forgotten, and a scene that is switched on has its restore values stored first.
\<close>

section \<open>The plan\<close>

record plan =
  pl_state :: jvalue
  pl_result :: "jvalue option"
  pl_sent :: bool

record scene_run =
  sr_definition :: jvalue
  sr_plans :: "plan list"
  sr_first :: bool
  sr_on :: bool
  sr_momentary :: bool

definition same_state :: "jvalue \<Rightarrow> jvalue \<Rightarrow> bool" where
  "same_state a b \<longleftrightarrow> j_text a ''deviceId'' = j_text b ''deviceId'' \<and> j_text a ''capabilityId'' = j_text b ''capabilityId''"

definition state_result :: "jvalue \<Rightarrow> string option \<Rightarrow> bool \<Rightarrow> jvalue result" where
  "state_result state e unchanged =
     bindR (j_set state ''success'' (Bool (e = None))) (\<lambda>r.
     bindR (case e of None \<Rightarrow> Inr r | Some m \<Rightarrow> j_set r ''error'' (String m)) (\<lambda>r.
     if unchanged then j_set r ''unchanged'' (Bool True) else Inr r))"

text \<open>The states a switch works on: those of the scene, or the stored restore values of an active one.\<close>

definition wanted_states :: "jvalue \<Rightarrow> bool \<Rightarrow> bool \<Rightarrow> jvalue list" where
  "wanted_states def on act =
     (if on then j_array def ''states'' else if act then j_array def ''previous'' else [])"

definition current_value :: "'s store \<Rightarrow> jvalue \<Rightarrow> jvalue option" where
  "current_value s wanted =
     (case device s (j_text wanted ''deviceId'') of
        Inl _ \<Rightarrow> None
      | Inr d \<Rightarrow> (case j_get (j_field d ''state'') (j_text wanted ''capabilityId'') of
          None \<Rightarrow> None | Some v \<Rightarrow> if is_null v then None else Some v))"

definition read_state :: "'s store \<Rightarrow> bool \<Rightarrow> jvalue \<Rightarrow> jvalue option list \<times> jvalue list \<Rightarrow> (jvalue option list \<times> jvalue list) result" where
  "read_state s keep wanted acc =
     (case acc of (current, previous) \<Rightarrow>
        let v = current_value s wanted in
        bindR (case v of
                 Some x \<Rightarrow> if keep then bindR (j_set wanted ''value'' x) (\<lambda>prior. j_push previous prior MAX_STATES) else Inr previous
               | None \<Rightarrow> Inr previous) (\<lambda>previous'.
        bindR (j_push current v MAX_STATES) (\<lambda>current'. Inr (current', previous'))))"

definition make_plan :: "jvalue \<Rightarrow> bool \<Rightarrow> bool \<Rightarrow> jvalue option list \<Rightarrow> nat \<times> jvalue \<Rightarrow> plan list \<Rightarrow> plan list result" where
  "make_plan def on momentary current e plans =
     (case e of (i, wanted) \<Rightarrow>
        let unchanged = (case (if i < length current then current ! i else None) of
                           None \<Rightarrow> False | Some v \<Rightarrow> same v (j_field wanted ''value''));
            held = list_ex (\<lambda>p. same_state p wanted) (j_array def ''previous'') in
        bindR (if unchanged then bindR (state_result wanted None True) (\<lambda>r. Inr (Some r))
               else if on \<and> \<not> momentary \<and> \<not> held
               then bindR (state_result wanted (Some ''current or stored restore value is unavailable'') False) (\<lambda>r. Inr (Some r))
               else Inr None) (\<lambda>r.
        j_push plans \<lparr>pl_state = wanted, pl_result = r, pl_sent = False\<rparr> MAX_STATES))"

definition scene_prepare :: "'s store \<Rightarrow> string \<Rightarrow> bool \<Rightarrow> (scene_run \<times> jvalue list) result" where
  "scene_prepare s i on =
     bindR (doc_record (config s) ''scenes'' (trim i)) (\<lambda>def0.
     let momentary = (j_text def0 ''kind'' = ''button''); act = j_boolean def0 ''active'' in
     if momentary \<and> \<not> on then Inl (Invalid ''button scene cannot be turned off'')
     else bindR (foldR (read_state s (on \<and> \<not> momentary)) (wanted_states def0 on act) ([], [])) (\<lambda>(current, previous).
     let first = (on \<and> \<not> momentary \<and> \<not> act) in
     bindR (if first then j_set def0 ''previous'' (Array previous) else Inr def0) (\<lambda>def.
     bindR (foldR (make_plan def on momentary current) (enumerate 0 (wanted_states def on act)) []) (\<lambda>plans.
     bindR (if first then foldR (\<lambda>p out. j_push out p MAX_STATES) (j_array def ''previous'') [] else Inr []) (\<lambda>baseline.
     Inr (\<lparr>sr_definition = def, sr_plans = plans, sr_first = first, sr_on = on, sr_momentary = momentary\<rparr>, baseline))))))"

definition scene_start :: "'s save \<Rightarrow> string \<Rightarrow> bool \<Rightarrow> 's store \<Rightarrow> ('s, scene_run) outcome" where
  "scene_start save i on s =
     prepare (scene_prepare s i on) (\<lambda>(sr, baseline) s.
       if sr_first sr then
         (case begin_scene save (trim i) baseline s of (Inl e, s1) \<Rightarrow> (Inl e, s1) | (Inr _, s1) \<Rightarrow> (Inr sr, s1))
       else (Inr sr, s)) s"

section \<open>Commands\<close>

definition open_plans :: "string \<Rightarrow> plan list \<Rightarrow> nat list" where
  "open_plans dev plans = filter (\<lambda>i. pl_result (plans ! i) = None \<and> j_text (pl_state (plans ! i)) ''deviceId'' = dev) [0..<length plans]"

text \<open>Switching on comes first and switching off last.\<close>

definition switch_priority :: "string \<Rightarrow> jvalue \<Rightarrow> nat" where
  "switch_priority cap v =
     (if takeWhile (\<lambda>c. c \<noteq> CHR ''.'') cap = ''onoff''
      then (case as_bool v of Some b \<Rightarrow> if b then 0 else 2 | None \<Rightarrow> 1) else 1)"

definition priority :: "jvalue \<Rightarrow> nat" where
  "priority st = switch_priority (j_text st ''capabilityId'') (j_field st ''value'')"

definition plan_command :: "jvalue \<Rightarrow> jvalue" where
  "plan_command st = j_fields [(''capability'', String (j_text st ''capabilityId'')), (''value'', j_field st ''value'')]"

definition mark_sent :: "nat list \<Rightarrow> plan list \<Rightarrow> plan list" where
  "mark_sent is plans = foldl (\<lambda>ps i. ps[i := (ps ! i)\<lparr>pl_sent := True\<rparr>]) plans is"

text \<open>
  The indices go up, and the keys the code sorts by are the priority and then the index, so the order
  is that of a stable sort by priority.
\<close>

definition next_group :: "scene_run \<Rightarrow> (string \<times> jvalue) option result \<times> scene_run" where
  "next_group sr =
     (case find (\<lambda>p. pl_result p = None \<and> \<not> pl_sent p) (sr_plans sr) of
        None \<Rightarrow> (Inr None, sr)
      | Some p \<Rightarrow>
          let dev = j_text (pl_state p) ''deviceId'' in
          (case foldR (\<lambda>i out. j_push out i MAX_STATES) (open_plans dev (sr_plans sr)) [] of
             Inl e \<Rightarrow> (Inl e, sr)
           | Inr indices0 \<Rightarrow>
               let indices = sort_key (\<lambda>i. priority (pl_state (sr_plans sr ! i))) indices0 in
               (case foldR (\<lambda>i out. j_push out (plan_command (pl_state (sr_plans sr ! i))) MAX_STATES) indices [] of
                  Inl e \<Rightarrow> (Inl e, sr)
                | Inr commands \<Rightarrow>
                    (Inr (Some (dev, j_fields [(''deviceId'', String dev), (''commands'', Array commands), (''options'', j_object)])),
                     sr\<lparr>sr_plans := mark_sent indices (sr_plans sr)\<rparr>))))"

definition command_error :: "jvalue \<Rightarrow> string option \<Rightarrow> jvalue \<Rightarrow> string option" where
  "command_error errors failure st =
     (case failure of
        Some m \<Rightarrow> Some m
      | None \<Rightarrow> (case Option.bind (j_get errors (j_text st ''capabilityId'')) as_str of
          None \<Rightarrow> None | Some m \<Rightarrow> if m = [] then None else Some m))"

text \<open>The loops over the plans stop at the first error and keep what was set before it.\<close>

fun settle :: "(plan \<Rightarrow> bool) \<Rightarrow> (jvalue \<Rightarrow> string option) \<Rightarrow> plan list \<Rightarrow> unit result \<times> plan list" where
  "settle skip e [] = (Inr (), [])"
| "settle skip e (p # ps) =
     (if skip p then (case settle skip e ps of (r, qs) \<Rightarrow> (r, p # qs))
      else case state_result (pl_state p) (e (pl_state p)) False of
        Inl x \<Rightarrow> (Inl x, p # ps)
      | Inr v \<Rightarrow> (case settle skip e ps of (r, qs) \<Rightarrow> (r, p\<lparr>pl_result := Some v\<rparr> # qs)))"

definition scene_complete :: "string \<Rightarrow> jvalue \<Rightarrow> string option \<Rightarrow> scene_run \<Rightarrow> unit result \<times> scene_run" where
  "scene_complete dev errors failure sr =
     (case settle (\<lambda>p. pl_result p \<noteq> None \<or> \<not> pl_sent p \<or> j_text (pl_state p) ''deviceId'' \<noteq> dev)
        (command_error errors failure) (sr_plans sr) of (r, ps) \<Rightarrow> (r, sr\<lparr>sr_plans := ps\<rparr>))"

definition scene_cancel :: "scene_run \<Rightarrow> unit result \<times> scene_run" where
  "scene_cancel sr =
     (case settle (\<lambda>p. pl_result p \<noteq> None) (\<lambda>_. Some ''scene execution timed out'') (sr_plans sr) of
        (r, ps) \<Rightarrow> (r, sr\<lparr>sr_plans := ps\<rparr>))"

definition scene_done :: "scene_run \<Rightarrow> bool" where
  "scene_done sr = list_all (\<lambda>p. pl_result p \<noteq> None) (sr_plans sr)"

section \<open>The end\<close>

definition plan_succeeded :: "plan \<Rightarrow> bool" where
  "plan_succeeded p = (case pl_result p of None \<Rightarrow> False | Some r \<Rightarrow> j_boolean r ''success'')"

definition retained :: "scene_run \<Rightarrow> jvalue list result" where
  "retained sr =
     foldR (\<lambda>before out.
         let success = (case find (\<lambda>p. same_state (pl_state p) before) (sr_plans sr) of None \<Rightarrow> False | Some p \<Rightarrow> plan_succeeded p) in
         if success = sr_on sr then j_push out before MAX_STATES else Inr out)
       (j_array (sr_definition sr) ''previous'') []"

definition collect_outcomes :: "scene_run \<Rightarrow> jvalue list result" where
  "collect_outcomes sr =
     foldR (\<lambda>p out. bindR (ok_or (pl_result p) (Missing ''scene outcome missing'')) (\<lambda>r. j_push out r MAX_STATES)) (sr_plans sr) []"

definition scene_summary :: "scene_run \<Rightarrow> jvalue list \<Rightarrow> bool \<Rightarrow> jvalue result" where
  "scene_summary sr states act =
     (let total = length (sr_plans sr); succeeded = length (filter plan_succeeded (sr_plans sr));
          success = (succeeded = total \<and> (sr_momentary sr \<or> act = sr_on sr));
          out = j_fields [(''sceneId'', String (j_text (sr_definition sr) ''id'')),
            (''sceneName'', String (j_text (sr_definition sr) ''name'')), (''requestedOn'', Bool (sr_on sr)), (''active'', Bool act),
            (''success'', Bool success), (''attempted'', uint_value (word_of_nat total)),
            (''succeeded'', uint_value (word_of_nat succeeded)), (''failed'', uint_value (word_of_nat (total - succeeded))),
            (''states'', Array states)]
      in if sr_momentary sr then j_set out ''momentary'' (Bool True) else Inr out)"

definition scene_finish :: "'s save \<Rightarrow> scene_run \<Rightarrow> 's store \<Rightarrow> ('s, jvalue) outcome" where
  "scene_finish save sr s =
     (if \<not> scene_done sr then (Inl (Conflict ''scene still has pending commands''), s)
      else prepare (collect_outcomes sr) (\<lambda>states s.
        let i = j_text (sr_definition sr) ''id'' in
        after (if \<not> sr_momentary sr \<and> (sr_first sr \<or> (\<not> sr_on sr \<and> j_boolean (sr_definition sr) ''active''))
               then prepare (retained sr) (\<lambda>rest s. scene_remaining save i rest s) s
               else (Inr (), s)) (\<lambda>s.
          prepare (bindR (doc_record (config s) ''scenes'' i) (\<lambda>scene. scene_summary sr states (j_boolean scene ''active'')))
            (\<lambda>v s. (Inr v, s)) s)) s)"

section \<open>Every command is sent once\<close>

definition plan_device :: "plan \<Rightarrow> string" where
  "plan_device p = j_text (pl_state p) ''deviceId''"

definition group_commands :: "string \<times> jvalue \<Rightarrow> (string \<times> jvalue) list" where
  "group_commands g = map (\<lambda>c. (fst g, c)) (j_array (snd g) ''commands'')"

definition sent_commands :: "plan list \<Rightarrow> (string \<times> jvalue) multiset" where
  "sent_commands ps = mset (map (\<lambda>p. (plan_device p, plan_command (pl_state p))) (filter pl_sent ps))"

text \<open>The open plans of one device are sent together.\<close>

definition coherent :: "plan list \<Rightarrow> bool" where
  "coherent ps \<longleftrightarrow> (\<forall>i < length ps. \<forall>j < length ps. pl_result (ps ! i) = None \<longrightarrow> pl_result (ps ! j) = None
     \<longrightarrow> plan_device (ps ! i) = plan_device (ps ! j) \<longrightarrow> pl_sent (ps ! i) = pl_sent (ps ! j))"

inductive scene_trace :: "scene_run \<Rightarrow> (string \<times> jvalue) list \<Rightarrow> scene_run \<Rightarrow> bool" for sr0 where
  start: "scene_trace sr0 [] sr0"
| group: "scene_trace sr0 gs sr \<Longrightarrow> next_group sr = (Inr (Some g), sr') \<Longrightarrow> scene_trace sr0 (gs @ [g]) sr'"
| complete: "scene_trace sr0 gs sr \<Longrightarrow> scene_complete dev errors failure sr = (r, sr') \<Longrightarrow> scene_trace sr0 gs sr'"
| cancel: "scene_trace sr0 gs sr \<Longrightarrow> scene_cancel sr = (r, sr') \<Longrightarrow> scene_trace sr0 gs sr'"

lemma filter_nth: "filter P xs = map (\<lambda>i. xs ! i) (filter (\<lambda>i. P (xs ! i)) [0..<length xs])"
  by (subst (1) map_nth [of xs, symmetric]) (simp add: filter_map comp_def)

lemma sent_commands_set:
  "sent_commands ps = image_mset (\<lambda>i. (plan_device (ps ! i), plan_command (pl_state (ps ! i))))
     (mset_set {i. i < length ps \<and> pl_sent (ps ! i)})"
proof -
  have "mset (filter (\<lambda>i. pl_sent (ps ! i)) [0..<length ps]) = mset_set {i. i < length ps \<and> pl_sent (ps ! i)}"
    by (subst mset_set_set [symmetric]) (auto intro!: arg_cong [where f = mset_set])
  then show ?thesis
    unfolding sent_commands_def filter_nth [of pl_sent ps] map_map mset_map comp_def by simp
qed

lemma length_mark_sent [simp]: "length (mark_sent is ps) = length ps"
  unfolding mark_sent_def by (induction "is" arbitrary: ps) simp_all

lemma mark_sent_nth:
  assumes "set is \<subseteq> {..<length ps}" and "i < length ps"
  shows "mark_sent is ps ! i = (if i \<in> set is then (ps ! i)\<lparr>pl_sent := True\<rparr> else ps ! i)"
  using assms
proof (induction "is" arbitrary: ps)
  case (Cons k ks)
  then show ?case
    using Cons.IH [of "ps[k := (ps ! k)\<lparr>pl_sent := True\<rparr>]"] by (auto simp: mark_sent_def nth_list_update)
qed (simp add: mark_sent_def)

lemma next_group_Some:
  assumes coh: "coherent (sr_plans sr)" and len: "length (sr_plans sr) \<le> MAX_STATES"
    and p: "find (\<lambda>p. pl_result p = None \<and> \<not> pl_sent p) (sr_plans sr) = Some p"
  defines "is \<equiv> sort_key (\<lambda>i. priority (pl_state (sr_plans sr ! i))) (open_plans (plan_device p) (sr_plans sr))"
  shows "next_group sr = (Inr (Some (plan_device p, j_fields [(''deviceId'', String (plan_device p)),
      (''commands'', Array (map (\<lambda>i. plan_command (pl_state (sr_plans sr ! i))) is)), (''options'', j_object)])),
      sr\<lparr>sr_plans := mark_sent is (sr_plans sr)\<rparr>)"
    and "set is = {i. i < length (sr_plans sr) \<and> pl_result (sr_plans sr ! i) = None \<and> plan_device (sr_plans sr ! i) = plan_device p}"
    and "distinct is" and "\<forall>i \<in> set is. \<not> pl_sent (sr_plans sr ! i)"
proof -
  let ?ps = "sr_plans sr"
  show set: "set is = {i. i < length ?ps \<and> pl_result (?ps ! i) = None \<and> plan_device (?ps ! i) = plan_device p}"
    by (auto simp: is_def open_plans_def plan_device_def)
  show "distinct is" by (simp add: is_def open_plans_def)
  obtain k where k: "k < length ?ps" "?ps ! k = p" "pl_result p = None" "\<not> pl_sent p"
    using p by (auto simp: find_Some_iff)
  show "\<forall>i \<in> set is. \<not> pl_sent (?ps ! i)"
  proof
    fix i
    assume "i \<in> set is"
    then have i: "i < length ?ps" "pl_result (?ps ! i) = None" "plan_device (?ps ! i) = plan_device p" by (simp_all add: set)
    have "pl_sent (?ps ! i) = pl_sent (?ps ! k)"
      by (rule coh [unfolded coherent_def, rule_format]) (use i k in simp_all)
    then show "\<not> pl_sent (?ps ! i)" using k by simp
  qed
  have l: "length (open_plans (plan_device p) ?ps) \<le> MAX_STATES" "length is \<le> MAX_STATES"
    using len le_trans [OF length_filter_le [of _ "[0..<length ?ps]"]] by (simp_all add: is_def open_plans_def)
  have a: "foldR (\<lambda>i out. j_push out i MAX_STATES) (open_plans (plan_device p) ?ps) [] = Inr (open_plans (plan_device p) ?ps)"
    using foldR_push [of "[]" MAX_STATES "\<lambda>x. x" "open_plans (plan_device p) ?ps"] l(1) by simp
  have b: "foldR (\<lambda>i out. j_push out (plan_command (pl_state (?ps ! i))) MAX_STATES) is [] = Inr (map (\<lambda>i. plan_command (pl_state (?ps ! i))) is)"
    using foldR_push [of "[]" MAX_STATES "\<lambda>i. plan_command (pl_state (?ps ! i))" "is"] l(2) by simp
  show "next_group sr = (Inr (Some (plan_device p, j_fields [(''deviceId'', String (plan_device p)),
      (''commands'', Array (map (\<lambda>i. plan_command (pl_state (?ps ! i))) is)), (''options'', j_object)])),
      sr\<lparr>sr_plans := mark_sent is ?ps\<rparr>)"
    unfolding next_group_def p option.case Let_def plan_device_def [symmetric] a sum.case is_def [symmetric] b ..
qed

lemma settle_facts:
  "settle skip e ps = (r, qs) \<Longrightarrow> length qs = length ps \<and> map pl_state qs = map pl_state ps \<and> map pl_sent qs = map pl_sent ps
    \<and> list_all2 (\<lambda>p q. pl_result p \<noteq> None \<longrightarrow> pl_result q \<noteq> None) ps qs"
proof (induction ps arbitrary: qs)
  case (Cons p ps)
  then show ?case
    by (auto split: if_splits prod.splits sum.splits simp: list.rel_refl)
qed simp

text \<open>What a step of a scene keeps, over the states of its plans.\<close>

definition scene_inv :: "plan list \<Rightarrow> (string \<times> jvalue) list \<Rightarrow> plan list \<Rightarrow> bool" where
  "scene_inv ps0 gs ps \<longleftrightarrow> coherent ps \<and> map pl_state ps = map pl_state ps0 \<and> length ps \<le> MAX_STATES
    \<and> mset (concat (map group_commands gs)) = sent_commands ps
    \<and> (\<forall>i < length ps. pl_result (ps0 ! i) \<noteq> None \<longrightarrow> pl_result (ps ! i) \<noteq> None \<and> \<not> pl_sent (ps ! i))
    \<and> list_all (\<lambda>g. sorted (map (\<lambda>c. switch_priority (j_text c ''capability'') (j_field c ''value'')) (j_array (snd g) ''commands''))) gs"

lemma sent_commands_zip: "sent_commands ps = mset (map (\<lambda>(v, _). (j_text v ''deviceId'', plan_command v)) (filter snd (zip (map pl_state ps) (map pl_sent ps))))"
  unfolding sent_commands_def by (induction ps) (simp_all add: plan_device_def)

lemma sent_commands_cong: "map pl_state qs = map pl_state ps \<Longrightarrow> map pl_sent qs = map pl_sent ps \<Longrightarrow> sent_commands qs = sent_commands ps"
  by (simp add: sent_commands_zip)

lemma scene_inv_settle:
  assumes inv: "scene_inv ps0 gs ps" and "settle skip e ps = (r, qs)"
  shows "scene_inv ps0 gs qs"
proof -
  have f: "length qs = length ps" "map pl_state qs = map pl_state ps" "map pl_sent qs = map pl_sent ps"
      "list_all2 (\<lambda>p q. pl_result p \<noteq> None \<longrightarrow> pl_result q \<noteq> None) ps qs"
    using settle_facts [OF assms(2)] by simp_all
  have st: "pl_state (qs ! i) = pl_state (ps ! i)" "pl_sent (qs ! i) = pl_sent (ps ! i)"
      "pl_result (ps ! i) \<noteq> None \<Longrightarrow> pl_result (qs ! i) \<noteq> None" if "i < length ps" for i
    using arg_cong [where f = "\<lambda>l. l ! i", OF f(2)] arg_cong [where f = "\<lambda>l. l ! i", OF f(3)] list_all2_nthD [OF f(4) that] f(1) that
    by simp_all
  have len: "length qs = length ps" by (rule f(1))
  have c: "coherent ps" using inv by (simp add: scene_inv_def)
  have "coherent qs"
    unfolding coherent_def plan_device_def len
  proof (intro allI impI)
    fix i j
    assume a: "i < length ps" "j < length ps" "pl_result (qs ! i) = None" "pl_result (qs ! j) = None"
      "j_text (pl_state (qs ! i)) ''deviceId'' = j_text (pl_state (qs ! j)) ''deviceId''"
    have "pl_sent (ps ! i) = pl_sent (ps ! j)"
    proof (rule c [unfolded coherent_def, rule_format])
      show "pl_result (ps ! i) = None" "pl_result (ps ! j) = None" using a st(3) by blast+
      show "plan_device (ps ! i) = plan_device (ps ! j)" using a(5) by (simp add: plan_device_def st(1) a(1,2))
    qed (use a in simp_all)
    then show "pl_sent (qs ! i) = pl_sent (qs ! j)" by (simp add: st(2) a(1,2))
  qed
  moreover have "sent_commands qs = sent_commands ps" by (rule sent_commands_cong [OF f(2,3)])
  ultimately show ?thesis using inv unfolding scene_inv_def f(2) len by (simp add: st)
qed

lemma command_texts:
  "j_text (plan_command st) ''capability'' = j_text st ''capabilityId''" "j_field (plan_command st) ''value'' = j_field st ''value''"
  by (simp_all add: plan_command_def j_fields_def obj_push_def j_text_def j_get_def j_field_def)

lemma scene_inv_group:
  assumes inv: "scene_inv ps0 gs (sr_plans sr)" and run: "next_group sr = (Inr (Some g), sr')"
  shows "scene_inv ps0 (gs @ [g]) (sr_plans sr')"
proof -
  let ?ps = "sr_plans sr"
  have coh: "coherent ?ps" "length ?ps \<le> MAX_STATES" using inv by (auto simp: scene_inv_def)
  obtain p where p: "find (\<lambda>p. pl_result p = None \<and> \<not> pl_sent p) ?ps = Some p"
    using run by (auto simp: next_group_def split: option.splits)
  define ix where "ix = sort_key (\<lambda>i. priority (pl_state (?ps ! i))) (open_plans (plan_device p) ?ps)"
  note nx = next_group_Some [OF coh p, folded ix_def]
  have g: "g = (plan_device p, j_fields [(''deviceId'', String (plan_device p)),
      (''commands'', Array (map (\<lambda>i. plan_command (pl_state (?ps ! i))) ix)), (''options'', j_object)])"
    and sr': "sr_plans sr' = mark_sent ix ?ps"
    using run nx(1) by auto
  have arr: "j_array (snd g) ''commands'' = map (\<lambda>i. plan_command (pl_state (?ps ! i))) ix"
    unfolding g by (simp add: j_fields_def obj_push_def j_array_def j_get_def)
  have sub: "set ix \<subseteq> {..<length ?ps}" using nx(2) by auto
  note m = mark_sent_nth [OF sub]
  have state: "pl_state (mark_sent ix ?ps ! i) = pl_state (?ps ! i)" "pl_result (mark_sent ix ?ps ! i) = pl_result (?ps ! i)"
      "pl_sent (mark_sent ix ?ps ! i) = (pl_sent (?ps ! i) \<or> i \<in> set ix)" if "i < length ?ps" for i
    using m [OF that] by auto
  have len: "length (mark_sent ix ?ps) = length ?ps" by simp
  let ?f = "\<lambda>i. (plan_device (?ps ! i), plan_command (pl_state (?ps ! i)))"
  have marked: "sent_commands (mark_sent ix ?ps) = image_mset ?f (mset_set {i. i < length ?ps \<and> pl_sent (mark_sent ix ?ps ! i)})"
    unfolding sent_commands_set len by (rule image_mset_cong) (simp add: plan_device_def state)
  have "{i. i < length ?ps \<and> pl_sent (mark_sent ix ?ps ! i)} = {i. i < length ?ps \<and> pl_sent (?ps ! i)} \<union> set ix"
    using state sub by auto
  moreover have "{i. i < length ?ps \<and> pl_sent (?ps ! i)} \<inter> set ix = {}" using nx(4) by auto
  ultimately have "sent_commands (mark_sent ix ?ps) = sent_commands ?ps + image_mset ?f (mset_set (set ix))"
    unfolding sent_commands_set [of ?ps] by (simp add: marked mset_set_Union)
  also have "image_mset ?f (mset_set (set ix)) = mset (group_commands g)"
  proof -
    have "plan_device (?ps ! i) = plan_device p" if "i \<in> set ix" for i using that nx(2) by simp
    then have "map ?f ix = group_commands g" unfolding group_commands_def arr by (simp add: g comp_def)
    then show ?thesis by (simp add: mset_set_set [OF nx(3)] mset_map [symmetric] del: mset_map)
  qed
  finally have sent: "mset (concat (map group_commands (gs @ [g]))) = sent_commands (sr_plans sr')"
    using inv sr' by (simp add: scene_inv_def)
  have "coherent (sr_plans sr')"
    unfolding coherent_def sr' len plan_device_def
  proof (intro allI impI)
    fix i j
    assume a: "i < length ?ps" "j < length ?ps" "pl_result (mark_sent ix ?ps ! i) = None" "pl_result (mark_sent ix ?ps ! j) = None"
      "j_text (pl_state (mark_sent ix ?ps ! i)) ''deviceId'' = j_text (pl_state (mark_sent ix ?ps ! j)) ''deviceId''"
    have r: "pl_result (?ps ! i) = None" "pl_result (?ps ! j) = None" "plan_device (?ps ! i) = plan_device (?ps ! j)"
      using a by (simp_all add: state plan_device_def)
    have "pl_sent (?ps ! i) = pl_sent (?ps ! j)" by (rule coh(1) [unfolded coherent_def, rule_format]) (use a r in simp_all)
    moreover have "i \<in> set ix \<longleftrightarrow> j \<in> set ix" unfolding nx(2) using a(1,2) r by simp
    ultimately show "pl_sent (mark_sent ix ?ps ! i) = pl_sent (mark_sent ix ?ps ! j)" using a(1,2) by (simp add: state)
  qed
  moreover have "map pl_state (sr_plans sr') = map pl_state ?ps"
    unfolding sr' by (rule nth_equalityI) (simp_all add: state)
  moreover have "sorted (map (\<lambda>c. switch_priority (j_text c ''capability'') (j_field c ''value'')) (j_array (snd g) ''commands''))"
    unfolding arr using sorted_sort_key [of "\<lambda>i. priority (pl_state (?ps ! i))" "open_plans (plan_device p) ?ps"]
    by (simp add: comp_def command_texts ix_def priority_def)
  moreover have "pl_result (ps0 ! i) \<noteq> None \<longrightarrow> pl_result (sr_plans sr' ! i) \<noteq> None \<and> \<not> pl_sent (sr_plans sr' ! i)"
    if "i < length (sr_plans sr')" for i
    using inv state [of i] that nx(2) unfolding scene_inv_def sr' len by auto
  ultimately show ?thesis
    using inv sent len unfolding scene_inv_def sr' by simp
qed

lemma scene_inv_trace: "scene_trace sr0 gs sr \<Longrightarrow> scene_inv (sr_plans sr0) [] (sr_plans sr0) \<Longrightarrow> scene_inv (sr_plans sr0) gs (sr_plans sr)"
proof (induction rule: scene_trace.induct)
  case (group gs sr g sr')
  then show ?case using scene_inv_group by blast
next
  case (complete gs sr dev errors failure r sr')
  then show ?case using scene_inv_settle by (fastforce simp: scene_complete_def split: prod.splits)
next
  case (cancel gs sr r sr')
  then show ?case using scene_inv_settle by (fastforce simp: scene_cancel_def split: prod.splits)
qed

lemma make_plans_unsent:
  "foldR (make_plan def on m current) es ps = Inr qs \<Longrightarrow> list_all (\<lambda>p. \<not> pl_sent p) ps \<Longrightarrow> length ps \<le> MAX_STATES
    \<Longrightarrow> list_all (\<lambda>p. \<not> pl_sent p) qs \<and> length qs \<le> MAX_STATES"
proof (induction es arbitrary: ps)
  case (Cons e es)
  obtain ps1 where step: "make_plan def on m current e ps = Inr ps1" "foldR (make_plan def on m current) es ps1 = Inr qs"
    using Cons.prems(1) by (auto simp: bindR_def split: sum.splits)
  obtain i w where e: "e = (i, w)" by (cases e)
  have "list_all (\<lambda>p. \<not> pl_sent p) ps1 \<and> length ps1 \<le> MAX_STATES"
    using step(1) Cons.prems(2,3) unfolding make_plan_def e prod.case Let_def
    by (auto simp: bindR_def j_push_def split: sum.splits if_splits)
  then show ?case using Cons.IH [OF step(2)] by blast
qed simp

lemma scene_start_unsent:
  assumes "scene_start save i on s = (Inr sr, s')"
  shows "list_all (\<lambda>p. \<not> pl_sent p) (sr_plans sr)" "length (sr_plans sr) \<le> MAX_STATES"
proof -
  obtain b where p: "scene_prepare s i on = Inr (sr, b)"
    using assms by (auto simp: scene_start_def prepare_def split: sum.splits prod.splits if_splits)
  obtain def m current es where "foldR (make_plan def on m current) es [] = Inr (sr_plans sr)"
    using p unfolding scene_prepare_def Let_def by (auto simp: bindR_def split: sum.splits if_splits prod.splits)
  from make_plans_unsent [OF this] show "list_all (\<lambda>p. \<not> pl_sent p) (sr_plans sr)" "length (sr_plans sr) \<le> MAX_STATES"
    by simp_all
qed

lemma scene_inv_start: "list_all (\<lambda>p. \<not> pl_sent p) ps \<Longrightarrow> length ps \<le> MAX_STATES \<Longrightarrow> scene_inv ps [] ps"
  by (auto simp: scene_inv_def coherent_def list_all_length sent_commands_def filter_empty_conv set_conv_nth)

text \<open>C11: However the groups, answers and the deadline of a started scene interleave, the commands handed out are
  exactly those of the plans marked as sent, each once; a plan that was settled at the start is never sent;
  inside a group switching on comes first and switching off last; asking for a group never fails, and it answers
  that there is none only when every plan is settled or sent.\<close>

theorem scene_sends_each_once:
  assumes "scene_start save i on s = (Inr sr0, s')" and "scene_trace sr0 gs sr"
  shows "mset (concat (map group_commands gs)) = sent_commands (sr_plans sr)
    \<and> map pl_state (sr_plans sr) = map pl_state (sr_plans sr0)
    \<and> (\<forall>j < length (sr_plans sr). pl_result (sr_plans sr0 ! j) \<noteq> None \<longrightarrow> \<not> pl_sent (sr_plans sr ! j))
    \<and> list_all (\<lambda>g. sorted (map (\<lambda>c. switch_priority (j_text c ''capability'') (j_field c ''value'')) (j_array (snd g) ''commands''))) gs
    \<and> (\<exists>g. fst (next_group sr) = Inr g \<and> (g = None \<longleftrightarrow> list_all (\<lambda>p. pl_result p \<noteq> None \<or> pl_sent p) (sr_plans sr)))"
proof -
  have inv: "scene_inv (sr_plans sr0) gs (sr_plans sr)"
    by (rule scene_inv_trace [OF assms(2) scene_inv_start [OF scene_start_unsent [OF assms(1)]]])
  then have coh: "coherent (sr_plans sr)" "length (sr_plans sr) \<le> MAX_STATES" by (simp_all add: scene_inv_def)
  have "\<exists>g. fst (next_group sr) = Inr g \<and> (g = None \<longleftrightarrow> list_all (\<lambda>p. pl_result p \<noteq> None \<or> pl_sent p) (sr_plans sr))"
  proof (cases "find (\<lambda>p. pl_result p = None \<and> \<not> pl_sent p) (sr_plans sr)")
    case None
    then have "list_all (\<lambda>p. pl_result p \<noteq> None \<or> pl_sent p) (sr_plans sr)" by (auto simp: find_None_iff list_all_iff)
    then show ?thesis by (simp add: next_group_def None)
  next
    case (Some p)
    then have "\<not> list_all (\<lambda>p. pl_result p \<noteq> None \<or> pl_sent p) (sr_plans sr)" by (auto simp: find_Some_iff list_all_length)
    then show ?thesis by (simp add: next_group_Some(1) [OF coh Some])
  qed
  then show ?thesis using inv unfolding scene_inv_def by blast
qed

definition movie_scene :: jvalue where
  "movie_scene = Object [(''id'', String ''m''), (''kind'', String ''button''), (''states'', Array [
     Object [(''deviceId'', String ''tv''), (''capabilityId'', String ''onoff''), (''value'', Bool False)],
     Object [(''deviceId'', String ''tv''), (''capabilityId'', String ''dim''), (''value'', Bool True)]])]"

definition movie_store :: "unit store" where
  "movie_store = store_with (Object [(''scenes'', Array [movie_scene])])"

definition movie_run :: scene_run where
  "movie_run = \<lparr>sr_definition = movie_scene, sr_plans = map (\<lambda>st. \<lparr>pl_state = st, pl_result = None, pl_sent = False\<rparr>) (j_array movie_scene ''states''),
     sr_first = False, sr_on = True, sr_momentary = True\<rparr>"

theorem scene_sends_each_once_witness:
  "\<exists>g sr. scene_trace movie_run [g] sr \<and> fst g = ''tv''
     \<and> map (\<lambda>c. j_text c ''capability'') (j_array (snd g) ''commands'') = [''dim'', ''onoff'']
     \<and> mset (group_commands g) = sent_commands (sr_plans sr) \<and> fst (next_group sr) = Inr None"
proof -
  have start: "scene_start memory_save ''m'' True movie_store = (Inr movie_run, movie_store)" by code_simp
  have "case next_group movie_run of (Inr (Some g), sr) \<Rightarrow> fst g = ''tv''
      \<and> map (\<lambda>c. j_text c ''capability'') (j_array (snd g) ''commands'') = [''dim'', ''onoff'']
      \<and> list_all (\<lambda>p. pl_result p \<noteq> None \<or> pl_sent p) (sr_plans sr) | _ \<Rightarrow> False" by code_simp
  then obtain g sr where g: "next_group movie_run = (Inr (Some g), sr)" "fst g = ''tv''"
      "map (\<lambda>c. j_text c ''capability'') (j_array (snd g) ''commands'') = [''dim'', ''onoff'']"
      "list_all (\<lambda>p. pl_result p \<noteq> None \<or> pl_sent p) (sr_plans sr)"
    by (cases "next_group movie_run" rule: prod.exhaust) (auto split: sum.splits option.splits)
  have t: "scene_trace movie_run [g] sr" using scene_trace.group [OF scene_trace.start g(1)] by simp
  have "mset (group_commands g) = sent_commands (sr_plans sr)" "fst (next_group sr) = Inr None"
    using scene_sends_each_once [OF start t] g(4) by auto
  then show ?thesis using t g(2,3) by (intro exI [of _ g] exI [of _ sr] conjI)
qed

section \<open>Restoring\<close>

lemma read_state_previous:
  assumes "read_state s True w a = Inr b"
  shows "snd b = snd a \<or> (\<exists>v p. current_value s w = Some v \<and> j_set w ''value'' v = Inr p \<and> snd b = snd a @ [p])"
  using assms
  by (cases "current_value s w"; cases a) (auto simp: read_state_def Let_def bindR_Inr_iff j_push_Inr_iff)

definition restores :: "'s store \<Rightarrow> jvalue \<Rightarrow> bool" where
  "restores s p \<longleftrightarrow> j_get p ''value'' = current_value s p \<and> j_get p ''value'' \<noteq> None"

lemma restores_set: "current_value s w = Some v \<Longrightarrow> j_set w ''value'' v = Inr p \<Longrightarrow> restores s p"
proof -
  assume "current_value s w = Some v" and p: "j_set w ''value'' v = Inr p"
  moreover have t: "j_text p ''deviceId'' = j_text w ''deviceId''" "j_text p ''capabilityId'' = j_text w ''capabilityId''"
    using p by (simp_all add: j_text_set)
  have "current_value s p = current_value s w" unfolding current_value_def t ..
  ultimately show ?thesis by (simp add: restores_def j_get_set)
qed

lemma previous_read:
  assumes "foldR (read_state s True) ws ([], []) = Inr (current, previous)"
  shows "list_all (restores s) previous"
proof -
  have "list_all (restores s) (snd (current, previous))"
    by (rule foldR_inv [OF assms]) (auto dest!: read_state_previous intro: restores_set)
  then show ?thesis by simp
qed

lemma plans_held:
  assumes "foldR (make_plan def True False current) es [] = Inr ps"
  shows "\<forall>p \<in> set ps. pl_result p = None \<longrightarrow> list_ex (\<lambda>b. same_state b (pl_state p)) (j_array def ''previous'')"
  by (rule foldR_inv [OF assms]) (auto simp: make_plan_def Let_def bindR_Inr_iff j_push_Inr_iff split: if_splits)

lemma commit_scene_state_stores:
  assumes "commit_scene_state save i scene s = (Inr (), s')"
  obtains scene' bytes where "doc_record (config s') ''scenes'' (j_text scene ''id'') = Inr scene'"
    and "\<And>k. k \<noteq> ''revision'' \<Longrightarrow> j_get scene' k = j_get scene k"
    and "doc_encode (config s') = Inr bytes" and "save (storage s) bytes = (Inr (), storage s')"
proof -
  obtain d e x where p: "scene_state_prepare s i scene = Inr (d, e, x)"
    using assms by (cases "scene_state_prepare s i scene") (auto simp: commit_scene_state_def prepare_def)
  obtain scene' where b: "bump_revision (Some scene) scene = Inr scene'" "replace_record (config s) ''scenes'' scene' = Inr d"
    using p by (auto simp: scene_state_prepare_def bindR_Inr_iff Let_def split: if_splits)
  have c: "config s' = d" "\<exists>bytes. doc_encode d = Inr bytes \<and> save (storage s) bytes = (Inr (), storage s')"
    using assms p by (auto simp: commit_scene_state_def prepare_def after_def commit_def Let_def split: sum.splits prod.splits)
  have "doc_record d ''scenes'' (j_text scene ''id'') = Inr scene'"
    using doc_record_replace(1) [OF b(2)] b(1) by (simp add: bump_revision_text)
  then show thesis
    using that c b(1) by (auto simp: bump_revision_def bindR_Inr_iff j_get_set)
qed

text \<open>C27: A switch scene that is turned on has, before its first command can be sent, a stored document in which it is
  active and holds the values to restore: each is the value its device had, and every plan that will be
  commanded has one.\<close>

theorem scene_restore_stored_first:
  assumes "scene_start save i True s = (Inr sr, s')" and "sr_first sr"
  shows "\<exists>scene bytes. doc_record (config s') ''scenes'' (trim i) = Inr scene \<and> j_boolean scene ''active''
    \<and> doc_encode (config s') = Inr bytes \<and> save (storage s) bytes = (Inr (), storage s')
    \<and> list_all (restores s) (j_array scene ''previous'')
    \<and> (\<forall>p \<in> set (sr_plans sr). pl_result p = None \<longrightarrow> list_ex (\<lambda>b. same_state b (pl_state p)) (j_array scene ''previous''))"
proof -
  obtain b where p: "scene_prepare s i True = Inr (sr, b)" and begun: "\<exists>x. begin_scene save (trim i) b s = (Inr x, s')"
    using assms by (auto simp: scene_start_def prepare_def split: sum.splits prod.splits if_splits)
  obtain def0 current previous where d: "doc_record (config s) ''scenes'' (trim i) = Inr def0"
    and r: "foldR (read_state s True) (j_array def0 ''states'') ([], []) = Inr (current, previous)"
    and m: "sr_momentary sr = False" "\<not> j_boolean def0 ''active''"
    and def': "j_set def0 ''previous'' (Array previous) = Inr (sr_definition sr)"
    and plans: "foldR (make_plan (sr_definition sr) True False current) (enumerate 0 (j_array (sr_definition sr) ''states'')) [] = Inr (sr_plans sr)"
    and b: "foldR (\<lambda>p out. j_push out p MAX_STATES) (j_array (sr_definition sr) ''previous'') [] = Inr b"
    using p assms(2) by (auto simp: scene_prepare_def wanted_states_def bindR_Inr_iff Let_def split: if_splits)
  have prev: "j_array (sr_definition sr) ''previous'' = previous" using j_get_set [OF def'] by (simp add: j_array_def)
  then have "b = previous" using b foldR_push [of "[]" MAX_STATES "\<lambda>x. x" previous] by (simp split: if_splits)
  then obtain sc1 sc where sc: "j_set def0 ''previous'' (Array previous) = Inr sc1" "j_set sc1 ''active'' (Bool True) = Inr sc"
      "commit_scene_state save (trim i) sc s = (Inr (), s')"
    using begun d m(2) by (auto simp: begin_scene_def prepare_def after_def bindR_def split: sum.splits if_splits prod.splits)
  obtain scene bytes where scene: "doc_record (config s') ''scenes'' (j_text sc ''id'') = Inr scene"
      "\<And>k. k \<noteq> ''revision'' \<Longrightarrow> j_get scene k = j_get sc k"
      "doc_encode (config s') = Inr bytes" "save (storage s) bytes = (Inr (), storage s')"
    using commit_scene_state_stores [OF sc(3)] by blast
  have "j_text sc ''id'' = trim i" using sc(1,2) doc_record_Inr [OF d] by (simp add: j_text_set)
  moreover have f: "j_boolean scene ''active''" "j_array scene ''previous'' = previous"
    using sc(1,2) by (simp_all add: j_boolean_def j_array_def scene(2) j_get_set)
  moreover have "list_ex (\<lambda>b. same_state b (pl_state p)) previous" if "p \<in> set (sr_plans sr)" "pl_result p = None" for p
    using plans_held [OF plans] prev that by simp
  ultimately show ?thesis
    using scene(1,3,4) previous_read [OF r] by (intro exI [of _ scene] exI [of _ bytes]) simp
qed

definition evening_scene :: jvalue where
  "evening_scene = Object [(''id'', String ''e''), (''kind'', String ''switch''), (''states'', Array [
     Object [(''deviceId'', String ''lamp''), (''capabilityId'', String ''onoff''), (''value'', Bool True)]])]"

definition evening_store :: "unit store" where
  "evening_store = (store_with (Object [(''scenes'', Array [evening_scene]), (''devices'', Array [
       Object [(''id'', String ''lamp''), (''appId'', String ''hue'')],
       Object [(''id'', String (device_id ''e'')), (''appId'', String APP_ID)]])]))
     \<lparr>live := [\<lparr>ob_id = ''lamp'', ob_state = Object [(''onoff'', Bool False)], ob_revisions = Object [],
       ob_available = True, ob_message = []\<rparr>]\<rparr>"

definition evening_begun :: jvalue where
  "evening_begun = Object [(''id'', String ''e''), (''kind'', String ''switch''), (''states'', j_field evening_scene ''states''),
     (''previous'', Array [Object [(''deviceId'', String ''lamp''), (''capabilityId'', String ''onoff''), (''value'', Bool False)]]),
     (''active'', Bool True)]"

lemma evening_commits: "\<exists>s'. commit_scene_state memory_save ''e'' evening_begun evening_store = (Inr (), s')"
proof -
  have "case scene_state_prepare evening_store ''e'' evening_begun of Inl _ \<Rightarrow> False
      | Inr (d, e, _) \<Rightarrow> ev_sequence e = 1 \<and> (case to_string d of Inl _ \<Rightarrow> False | Inr out \<Rightarrow> length out < 400)" by code_simp
  then obtain d e x out where p: "scene_state_prepare evening_store ''e'' evening_begun = Inr (d, e, x)" "ev_sequence e = 1"
      "to_string d = Inr out" "length out < 400"
    by (auto split: sum.splits prod.splits)
  have bs: "doc_encode d = Inr (out @ [CHR 0x0A])" using p(3,4) by (simp add: doc_encode_def MAX_BYTES_def)
  have seq: "sequence (publish e s) = 1" for s :: "unit store" using p(2) by (simp add: publish_def)
  show ?thesis
    using p(1) bs seq
    by (auto simp: commit_scene_state_def prepare_def after_def commit_def memory_save_def new_event_def checked_add_def Let_def
        split: prod.splits)
qed

theorem scene_restore_stored_first_witness:
  "\<exists>sr s' scene. scene_start memory_save ''e'' True evening_store = (Inr sr, s') \<and> length (sr_plans sr) = 1
     \<and> doc_record (config s') ''scenes'' ''e'' = Inr scene \<and> j_boolean scene ''active''"
proof -
  have t: "trim ''e'' = ''e''" by code_simp
  have "case scene_prepare evening_store ''e'' True of Inl _ \<Rightarrow> False
      | Inr (sr, b) \<Rightarrow> sr_first sr \<and> length (sr_plans sr) = 1 \<and> b = j_array evening_begun ''previous''" by code_simp
  then obtain sr where p: "scene_prepare evening_store ''e'' True = Inr (sr, j_array evening_begun ''previous'')"
      "sr_first sr" "length (sr_plans sr) = 1"
    by (auto split: sum.splits)
  have q: "doc_record (config evening_store) ''scenes'' ''e'' = Inr evening_scene" "j_text evening_scene ''kind'' \<noteq> ''button''"
      "\<not> j_boolean evening_scene ''active''" "validate_states (j_array evening_begun ''previous'') = Inr ()"
      "bindR (j_set evening_scene ''previous'' (Array (j_array evening_begun ''previous''))) (\<lambda>sc. j_set sc ''active'' (Bool True)) = Inr evening_begun"
    by code_simp+
  obtain s' where "commit_scene_state memory_save ''e'' evening_begun evening_store = (Inr (), s')" using evening_commits by blast
  then have r: "scene_start memory_save ''e'' True evening_store = (Inr sr, s')"
    using p q by (simp add: scene_start_def begin_scene_def prepare_def after_def t)
  then obtain scene where "doc_record (config s') ''scenes'' (trim ''e'') = Inr scene" "j_boolean scene ''active''"
    using scene_restore_stored_first [OF r p(2)] by auto
  then show ?thesis using r p(3) t by (intro exI [of _ sr] exI [of _ s'] exI [of _ scene]) simp
qed

end
