(* ===== verification/Supervisor.thy ===== *)
theory Supervisor
  imports Prelude
begin

text \<open>
  The life of an app process, \<open>Supervisor\<close> of \<^verbatim>\<open>crates/runtime/src/supervisor.rs\<close>: a step relation over starts,
  readiness, exits and stops. Shown here: generations are numbered without gaps, every generation has at most
  one exit that counts, and the wait before a restart doubles from one second up to thirty.
\<close>

datatype sup_mode = Spawned | Attached

datatype sup_state = Stopped | Waiting | Starting | Running | Crashed

record supervisor =
  sup_mode :: sup_mode
  sup_state :: sup_state
  sup_generation :: u64
  sup_retries :: "32 word"
  sup_retry_at :: u64

definition sup_new :: "sup_mode \<Rightarrow> supervisor" where
  "sup_new m = \<lparr>sup_mode = m, sup_state = Stopped, sup_generation = 0, sup_retries = 0, sup_retry_at = 0\<rparr>"

definition sup_start :: "supervisor \<Rightarrow> u64 result \<times> supervisor" where
  "sup_start s =
     (if sup_state s = Starting \<or> sup_state s = Running then (Inl (Conflict ''app is already running''), s)
      else case checked_add (sup_generation s) 1 of
        None \<Rightarrow> (Inl Full, s)
      | Some g \<Rightarrow> (Inr g, s\<lparr>sup_generation := g, sup_state := Starting\<rparr>))"

definition sup_ready :: "u64 \<Rightarrow> supervisor \<Rightarrow> unit result \<times> supervisor" where
  "sup_ready g s =
     (if g \<noteq> sup_generation s \<or> sup_state s \<noteq> Starting then (Inl Changed, s)
      else (Inr (), s\<lparr>sup_state := Running, sup_retries := 0\<rparr>))"

text \<open>\<open>1000_u64.checked_shl\<close> refuses a shift by 64 or more; the retries are cut at 5 before.\<close>

definition sup_delay :: "32 word \<Rightarrow> u64" where
  "sup_delay retries =
     (let n = unat (min retries 5) in min (if n < 64 then push_bit n 1000 else 30000) 30000)"

definition sup_exited :: "u64 \<Rightarrow> u64 \<Rightarrow> supervisor \<Rightarrow> bool \<times> supervisor" where
  "sup_exited g now s =
     (if g \<noteq> sup_generation s \<or> \<not> (sup_state s = Starting \<or> sup_state s = Running) then (False, s)
      else (True, case sup_mode s of
          Attached \<Rightarrow> s\<lparr>sup_state := Waiting\<rparr>
        | Spawned \<Rightarrow> s\<lparr>sup_retries := (if sup_retries s = - 1 then - 1 else sup_retries s + 1),
                       sup_retry_at := saturating_add now (sup_delay (sup_retries s)), sup_state := Crashed\<rparr>))"

definition sup_retry_due :: "u64 \<Rightarrow> supervisor \<Rightarrow> bool" where
  "sup_retry_due now s \<longleftrightarrow> sup_mode s = Spawned \<and> sup_state s = Crashed \<and> sup_retry_at s \<le> now"

definition sup_stop :: "supervisor \<Rightarrow> supervisor" where
  "sup_stop s = s\<lparr>sup_state := Stopped, sup_retry_at := 0\<rparr>"

section \<open>The life cycle\<close>

text \<open>What was accepted, the newest first.\<close>

datatype sup_event = Started u64 | Ready u64 | Exited u64 u64 | Halted

inductive sup_trace :: "sup_mode \<Rightarrow> sup_event list \<Rightarrow> supervisor \<Rightarrow> bool" for m where
  boot: "sup_trace m [] (sup_new m)"
| start: "sup_trace m es s \<Longrightarrow> sup_start s = (Inr g, s') \<Longrightarrow> sup_trace m (Started g # es) s'"
| ready: "sup_trace m es s \<Longrightarrow> sup_ready g s = (Inr (), s') \<Longrightarrow> sup_trace m (Ready g # es) s'"
| exited: "sup_trace m es s \<Longrightarrow> sup_exited g now s = (True, s') \<Longrightarrow> sup_trace m (Exited g now # es) s'"
| ignored: "sup_trace m es s \<Longrightarrow> sup_exited g now s = (False, s') \<Longrightarrow> sup_trace m es s'"
| stop: "sup_trace m es s \<Longrightarrow> sup_trace m (Halted # es) (sup_stop s)"

fun starts :: "sup_event list \<Rightarrow> u64 list" where
  "starts [] = []"
| "starts (Started g # es) = g # starts es"
| "starts (e # es) = starts es"

fun exits :: "sup_event list \<Rightarrow> u64 list" where
  "exits [] = []"
| "exits (Exited g t # es) = g # exits es"
| "exits (e # es) = exits es"

text \<open>Exits since the process was last ready.\<close>

fun failures :: "sup_event list \<Rightarrow> nat" where
  "failures [] = 0"
| "failures (Exited g t # es) = Suc (failures es)"
| "failures (Ready g # es) = 0"
| "failures (e # es) = failures es"

fun last_exit :: "sup_event list \<Rightarrow> u64" where
  "last_exit [] = 0"
| "last_exit (Exited g t # es) = t"
| "last_exit (e # es) = last_exit es"

lemma sup_delay_value: "unat (sup_delay r) = min (1000 * 2 ^ min (unat r) 5) 30000"
proof -
  have "unat (min r 5) = min (unat r) 5" by (simp add: min_def word_le_nat_alt)
  moreover have "n \<in> {0, 1, 2, 3, 4, 5}" if "n = min (unat r) 5" for n using that by auto
  ultimately show ?thesis by (fastforce simp: sup_delay_def Let_def min_def push_bit_eq_mult)
qed

text \<open>When a restart may happen: a saturating sum, in milliseconds.\<close>

definition restart_time :: "sup_event list \<Rightarrow> nat" where
  "restart_time es = min (unat (last_exit es) + min (1000 * 2 ^ min (failures es - 1) 5) 30000) (2 ^ 64 - 1)"

definition sup_alive :: "supervisor \<Rightarrow> bool" where
  "sup_alive s \<longleftrightarrow> sup_state s = Starting \<or> sup_state s = Running"

definition sup_inv :: "sup_mode \<Rightarrow> sup_event list \<Rightarrow> supervisor \<Rightarrow> bool" where
  "sup_inv m es s \<longleftrightarrow> sup_mode s = m
    \<and> map unat (starts es) = rev [1..<Suc (unat (sup_generation s))]
    \<and> distinct (exits es) \<and> set (exits es) \<subseteq> set (starts es)
    \<and> (sup_alive s \<longrightarrow> sup_generation s \<in> set (starts es) \<and> sup_generation s \<notin> set (exits es))
    \<and> (m = Spawned \<longrightarrow> unat (sup_retries s) = min (failures es) (2 ^ 32 - 1))
    \<and> (sup_state s = Crashed \<longrightarrow> m = Spawned \<and> unat (sup_retry_at s) = restart_time es)"

lemma starts_below:
  assumes "map unat (starts es) = rev [1..<Suc n]" and "g \<in> set (starts es)"
  shows "unat g \<le> n"
proof -
  have "unat g \<in> set (map unat (starts es))" using assms(2) by simp
  then show ?thesis unfolding assms(1) by auto
qed

lemma saturating_unat: "unat (saturating_add a b) = min (unat a + unat b) (2 ^ 64 - 1)"
proof (cases "unat a + unat b < 2 ^ 64")
  case True
  then show ?thesis by (simp add: saturating_add_def unat_word_ariths min_def)
next
  case False
  moreover have "unat (- 1 :: u64) = 2 ^ 64 - 1" by (simp add: unsigned_minus_1_eq_mask mask_eq_exp_minus_1)
  ultimately show ?thesis by (simp add: saturating_add_def min_def)
qed

lemma sup_inv_start:
  assumes inv: "sup_inv m es s" and run: "sup_start s = (Inr g, s')"
  shows "sup_inv m (Started g # es) s'"
proof -
  have g: "checked_add (sup_generation s) 1 = Some g" and s': "s' = s\<lparr>sup_generation := g, sup_state := Starting\<rparr>"
    using run by (auto simp: sup_start_def split: if_splits option.splits)
  have n: "unat g = Suc (unat (sup_generation s))" using checked_add_unat [OF g] by simp
  have st: "map unat (starts es) = rev [1..<Suc (unat (sup_generation s))]" using inv by (simp add: sup_inv_def)
  have "g \<notin> set (starts es)" using starts_below [OF st] n by fastforce
  then show ?thesis using inv n st by (auto simp: sup_inv_def s' sup_alive_def)
qed

lemma sup_inv_exited:
  assumes inv: "sup_inv m es s" and run: "sup_exited g now s = (True, s')"
  shows "sup_inv m (Exited g now # es) s'"
proof -
  have g: "g = sup_generation s" "sup_alive s" using run by (auto simp: sup_exited_def sup_alive_def split: if_splits)
  have base: "sup_mode s = m" "map unat (starts es) = rev [1..<Suc (unat (sup_generation s))]" "distinct (exits es)"
      "set (exits es) \<subseteq> set (starts es)" "g \<in> set (starts es)" "g \<notin> set (exits es)"
    using inv g by (simp_all add: sup_inv_def)
  show ?thesis
  proof (cases m)
    case Attached
    then have "s' = s\<lparr>sup_state := Waiting\<rparr>" using run base(1) by (auto simp: sup_exited_def split: if_splits)
    then show ?thesis using base Attached by (simp add: sup_inv_def sup_alive_def)
  next
    case Spawned
    let ?r = "sup_retries s"
    have r: "unat ?r = min (failures es) (2 ^ 32 - 1)" using inv Spawned by (simp add: sup_inv_def)
    have s': "s' = s\<lparr>sup_retries := (if ?r = - 1 then - 1 else ?r + 1),
        sup_retry_at := saturating_add now (sup_delay ?r), sup_state := Crashed\<rparr>"
      using run base(1) Spawned by (auto simp: sup_exited_def split: if_splits)
    have "unat (saturating_add now (sup_delay ?r)) = restart_time (Exited g now # es)"
    proof -
      have "min (min (failures es) (2 ^ 32 - 1)) 5 = min (failures es) 5" by simp
      then show ?thesis unfolding saturating_unat sup_delay_value restart_time_def r by simp
    qed
    moreover have "unat (if ?r = - 1 then - 1 else ?r + 1) = min (Suc (failures es)) (2 ^ 32 - 1)"
    proof (cases "?r = - 1")
      case True
      then have "unat ?r = 2 ^ 32 - 1" by (simp add: unsigned_minus_1_eq_mask mask_eq_exp_minus_1)
      then show ?thesis using r True by simp
    next
      case False
      then have "1 + ?r \<noteq> 0" using eq_neg_iff_add_eq_0 [of ?r 1] by (simp add: add.commute)
      then have "unat (?r + 1) = Suc (unat ?r)" using unatSuc [of ?r] by (simp add: add.commute)
      then show ?thesis using False r unsigned_less [of "?r + 1", where ?'a = nat] by (simp add: min_def split: if_splits)
    qed
    ultimately show ?thesis using base Spawned by (simp add: sup_inv_def sup_alive_def s')
  qed
qed

lemma sup_inv_trace: "sup_trace m es s \<Longrightarrow> sup_inv m es s"
proof (induction rule: sup_trace.induct)
  case boot
  show ?case by (simp add: sup_inv_def sup_new_def sup_alive_def)
next
  case (start es s g s')
  then show ?case using sup_inv_start by blast
next
  case (ready es s g s')
  then have "s' = s\<lparr>sup_state := Running, sup_retries := 0\<rparr>" "sup_state s = Starting" by (auto simp: sup_ready_def split: if_splits)
  then show ?case using ready.IH by (simp add: sup_inv_def sup_alive_def)
next
  case (exited es s g now s')
  then show ?case using sup_inv_exited by blast
next
  case (ignored es s g now s')
  then show ?case by (auto simp: sup_exited_def split: if_splits)
next
  case (stop es s)
  then show ?case by (simp add: sup_inv_def sup_alive_def sup_stop_def)
qed

text \<open>C36: Along every life of an app process the generations are numbered from one without gaps, at most one exit
  counts per generation and none while it still runs, only a process of the controller itself is restarted, and
  a restart is due exactly when the wait since its last exit is over: one second, doubled for every failure since
  it was last ready, and never more than thirty seconds.\<close>

theorem supervisor_lifecycle:
  assumes "sup_trace m es s"
  shows "map unat (starts es) = rev [1..<Suc (unat (sup_generation s))]
    \<and> distinct (exits es) \<and> set (exits es) \<subseteq> set (starts es)
    \<and> (sup_alive s \<longrightarrow> sup_generation s \<notin> set (exits es))
    \<and> (\<forall>now. sup_retry_due now s \<longleftrightarrow> m = Spawned \<and> sup_state s = Crashed \<and> restart_time es \<le> unat now)
    \<and> restart_time es \<le> unat (last_exit es) + 30000"
proof -
  have inv: "sup_inv m es s" by (rule sup_inv_trace [OF assms])
  then have "sup_retry_due now s \<longleftrightarrow> m = Spawned \<and> sup_state s = Crashed \<and> restart_time es \<le> unat now" for now
    by (auto simp: sup_inv_def sup_retry_due_def word_le_nat_alt)
  moreover have "restart_time es \<le> unat (last_exit es) + 30000" by (simp add: restart_time_def min_def)
  ultimately show ?thesis using inv by (simp add: sup_inv_def)
qed

theorem supervisor_lifecycle_witness:
  "\<exists>s. sup_trace Spawned [Exited 1 5000, Started 1] s \<and> sup_retry_due 6000 s \<and> \<not> sup_retry_due 5999 s"
proof -
  have r: "sup_start (sup_new Spawned) = (Inr 1, (sup_new Spawned)\<lparr>sup_generation := 1, sup_state := Starting\<rparr>)"
    by (simp add: sup_start_def sup_new_def checked_add_def)
  obtain s where e: "sup_exited 1 5000 ((sup_new Spawned)\<lparr>sup_generation := 1, sup_state := Starting\<rparr>) = (True, s)" "sup_state s = Crashed"
    by (simp add: sup_exited_def sup_new_def)
  have t: "sup_trace Spawned [Exited 1 5000, Started 1] s"
    by (rule sup_trace.exited [OF sup_trace.start [OF sup_trace.boot r] e(1)])
  have "restart_time [Exited 1 5000, Started 1] = 6000" by (simp add: restart_time_def min_def)
  then show ?thesis using supervisor_lifecycle [OF t] t e(2) by (intro exI [of _ s]) simp
qed

end
