(* ===== verification/Units.thy ===== *)
theory Units
  imports JsonText
begin

text \<open>
  Units, \<^verbatim>\<open>crates/core/src/units.rs\<close>: stored measurements stay canonical, and only what people read or
  type is converted. The table, the Beaufort scale, the conversions on \<open>f64\<close> and the settings are
  modelled as written; a literal of the source is the double nearest to it.
\<close>

section \<open>The table\<close>

record choice =
  ch_quantity :: string
  ch_unit :: string
  ch_aliases :: "string list"
  ch_factor :: f64
  ch_offset :: f64
  ch_step :: f64
  ch_decimals :: nat

definition choice_of :: "string \<Rightarrow> string \<Rightarrow> string list \<Rightarrow> string \<Rightarrow> string \<Rightarrow> string \<Rightarrow> nat \<Rightarrow> choice" where
  "choice_of q u al factor offset st decimals =
     \<lparr>ch_quantity = q, ch_unit = u, ch_aliases = al, ch_factor = parse_f64 factor, ch_offset = parse_f64 offset,
      ch_step = parse_f64 st, ch_decimals = decimals\<rparr>"

text \<open>The degree sign in UTF-8.\<close>

definition degree :: string where "degree = [CHR 0xC2, CHR 0xB0]"

definition CHOICES :: "choice list" where
  "CHOICES = [
    choice_of ''temperature'' (degree @ ''C'') [''C'', ''c'', ''celsius''] ''1.0'' ''0.0'' ''0.5'' 1,
    choice_of ''temperature'' (degree @ ''F'') [''F'', ''fahrenheit''] ''1.8'' ''32.0'' ''1.0'' 1,
    choice_of ''wind'' ''Bft'' [] ''0.0'' ''0.0'' ''1.0'' 0,
    choice_of ''wind'' ''m/s'' [''ms'', ''m/sec''] ''1.0'' ''0.0'' ''0.5'' 1,
    choice_of ''wind'' ''km/h'' [''kmh'', ''kph''] ''3.6'' ''0.0'' ''1.0'' 0,
    choice_of ''wind'' ''mph'' [] ''2.2369362920544'' ''0.0'' ''1.0'' 0,
    choice_of ''wind'' ''kn'' [''kt'', ''knots''] ''1.9438444924406'' ''0.0'' ''1.0'' 0,
    choice_of ''rain'' ''mm'' [] ''1.0'' ''0.0'' ''0.5'' 1,
    choice_of ''rain'' ''in'' [''inch'', [CHR 0x22]] ''0.03937007874015748'' ''0.0'' ''0.05'' 2,
    choice_of ''distance'' ''km'' [] ''1.0'' ''0.0'' ''0.1'' 1,
    choice_of ''distance'' ''mi'' [''mile'', ''miles''] ''0.621371192237334'' ''0.0'' ''0.1'' 1,
    choice_of ''pressure'' ''hPa'' [''hpa'', ''mbar'', ''mBar''] ''1.0'' ''0.0'' ''1.0'' 1,
    choice_of ''pressure'' ''inHg'' [''inhg''] ''0.02952998307144475'' ''0.0'' ''0.1'' 2,
    choice_of ''pressure'' ''mmHg'' [''mmhg'', ''torr''] ''0.7500616827041845'' ''0.0'' ''1.0'' 0,
    choice_of ''power'' ''W'' [''J/s'', ''watt'', ''Watt'', ''VA''] ''1.0'' ''0.0'' ''1.0'' 0,
    choice_of ''power'' ''kW'' [''kw''] ''0.001'' ''0.0'' ''0.1'' 3,
    choice_of ''power'' ''BTU/h'' [''btu/h'', ''BTU/hr''] ''3.412141633'' ''0.0'' ''100.0'' 0,
    choice_of ''energy'' ''kWh'' [''kwh''] ''1.0'' ''0.0'' ''0.1'' 3,
    choice_of ''energy'' ''Wh'' [''wh''] ''1000.0'' ''0.0'' ''1.0'' 0,
    choice_of ''energy'' ''MJ'' [''mj''] ''3.6'' ''0.0'' ''0.1'' 2]"

definition BEAUFORT :: "f64 list" where
  "BEAUFORT = map parse_f64 [''0.3'', ''1.6'', ''3.4'', ''5.5'', ''8.0'', ''10.8'', ''13.9'', ''17.2'', ''20.8'', ''24.5'', ''28.5'', ''32.7'']"

text \<open>Name, title, canonical unit and default of every quantity.\<close>

definition QUANTITIES :: "(string \<times> string \<times> string \<times> string) list" where
  "QUANTITIES = [
    (''temperature'', ''Temperatuur'', degree @ ''C'', degree @ ''C''),
    (''wind'', ''Wind'', ''m/s'', ''Bft''),
    (''rain'', ''Neerslag'', ''mm'', ''mm''),
    (''distance'', ''Afstand'', ''km'', ''km''),
    (''pressure'', ''Luchtdruk'', ''hPa'', ''hPa''),
    (''power'', ''Vermogen'', ''W'', []),
    (''energy'', ''Energie'', ''kWh'', [])]"

section \<open>Conversion\<close>

definition beaufort :: "f64 \<Rightarrow> nat" where
  "beaufort v = length (takeWhile (\<lambda>limit. f64_le limit v) BEAUFORT)"

definition beaufort_floor :: "nat \<Rightarrow> f64" where
  "beaufort_floor force = (if force = 0 then f64_of_int 0 else BEAUFORT ! (min force 12 - 1))"

definition scale_of :: "nat \<Rightarrow> f64" where
  "scale_of decimals = (if decimals < 5 then f64_of_int ([1, 10, 100, 1000, 10000] ! decimals) else f64_of_int 1)"

text \<open>The cast to \<open>i64\<close> is in range: the guard keeps the scaled value below \<open>9.0e18\<close>.\<close>

definition unit_round :: "f64 \<Rightarrow> nat \<Rightarrow> f64" where
  "unit_round v decimals =
     (let factor = scale_of decimals; scaled = f64_mul v factor in
      if \<not> f64_is_finite scaled \<or> f64_le (parse_f64 ''9.0e18'') (f64_abs scaled) then v
      else let rounded = f64_trunc (if f64_lt scaled (f64_of_int 0) then f64_sub scaled (parse_f64 ''0.5'')
                                    else f64_add scaled (parse_f64 ''0.5''))
           in f64_div (f64_of_int rounded) factor)"

text \<open>\<open>clamp(0.0, 12.0) as usize\<close>; a NaN becomes zero.\<close>

definition clamp_force :: "f64 \<Rightarrow> nat" where
  "clamp_force v =
     (if f64_is_nan v then 0
      else if f64_lt v (f64_of_int 0) then 0
      else if f64_lt (f64_of_int 12) v then 12
      else nat (f64_trunc v))"

definition unit_from :: "choice \<Rightarrow> f64 \<Rightarrow> f64" where
  "unit_from c v =
     (if ch_unit c = ''Bft'' then beaufort_floor (clamp_force (unit_round v 0))
      else f64_div (f64_sub v (ch_offset c)) (ch_factor c))"

definition unit_to :: "choice \<Rightarrow> f64 \<Rightarrow> f64" where
  "unit_to c v =
     (if ch_unit c = ''Bft'' then f64_of_int (int (beaufort v))
      else f64_add (f64_mul v (ch_factor c)) (ch_offset c))"

definition unit_resolve :: "jvalue \<Rightarrow> string \<Rightarrow> (choice \<times> choice) option" where
  "unit_resolve settings declared =
     Option.bind (find (\<lambda>c. ch_unit c = declared \<or> declared \<in> set (ch_aliases c)) CHOICES) (\<lambda>source.
     Option.bind (if j_text settings (ch_quantity source) = []
                  then map_option (\<lambda>(_, _, _, dflt). dflt) (find (\<lambda>(q, _). q = ch_quantity source) QUANTITIES)
                  else Some (j_text settings (ch_quantity source))) (\<lambda>wanted.
     Some (source, case find (\<lambda>c. ch_quantity c = ch_quantity source \<and> ch_unit c = wanted) CHOICES of
                     None \<Rightarrow> source | Some c \<Rightarrow> c)))"

definition unit_show :: "jvalue \<Rightarrow> f64 \<Rightarrow> string \<Rightarrow> f64 \<times> string" where
  "unit_show settings v declared =
     (case unit_resolve settings declared of
        None \<Rightarrow> (v, declared)
      | Some (source, chosen) \<Rightarrow>
          if ch_unit source = ch_unit chosen then (v, ch_unit source)
          else (unit_round (unit_to chosen (unit_from source v)) (ch_decimals chosen), ch_unit chosen))"

definition unit_canonical :: "jvalue \<Rightarrow> f64 \<Rightarrow> string \<Rightarrow> f64" where
  "unit_canonical settings v declared =
     (case unit_resolve settings declared of
        None \<Rightarrow> v
      | Some (source, chosen) \<Rightarrow>
          if ch_unit source = ch_unit chosen then v
          else unit_round (unit_to source (unit_from chosen v)) (ch_decimals source + 1))"

definition unit_step :: "jvalue \<Rightarrow> string \<Rightarrow> f64 option" where
  "unit_step settings declared =
     Option.bind (unit_resolve settings declared) (\<lambda>(source, chosen).
       if ch_unit source \<noteq> ch_unit chosen then Some (ch_step chosen) else None)"

section \<open>Settings\<close>

definition unit_valid :: "string \<Rightarrow> string \<Rightarrow> bool" where
  "unit_valid quantity u \<longleftrightarrow>
     (quantity = ''power'' \<or> quantity = ''energy'') \<and> u = []
     \<or> list_ex (\<lambda>c. ch_quantity c = quantity \<and> ch_unit c = u) CHOICES"

definition unit_update_field :: "string \<times> jvalue \<Rightarrow> jvalue \<Rightarrow> jvalue result" where
  "unit_update_field e settings =
     (case e of (quantity, v) \<Rightarrow>
        bindR (ok_or (as_str v) (Invalid ''unit must be a string'')) (\<lambda>u.
          if \<not> unit_valid quantity u then Inl (Invalid ''unit does not belong to quantity'')
          else j_set settings quantity (String u)))"

text \<open>\<open>update\<close> changes the settings in place, so fields before a bad one stay changed.\<close>

definition unit_update :: "jvalue \<Rightarrow> jvalue \<Rightarrow> unit result \<times> jvalue" where
  "unit_update settings patch =
     (case as_object patch of
        None \<Rightarrow> (Inl (Invalid ''units must be an object''), settings)
      | Some ps \<Rightarrow> foldS (\<lambda>e s. case unit_update_field e s of Inl x \<Rightarrow> (Inl x, s) | Inr s' \<Rightarrow> (Inr (), s')) ps settings)"

definition unit_fill :: "string \<times> string \<times> string \<times> string \<Rightarrow> jvalue \<Rightarrow> jvalue result" where
  "unit_fill q out =
     (case q of (quantity, _, _, dflt) \<Rightarrow>
        if j_text out quantity = [] then j_set out quantity (String dflt) else Inr out)"

definition unit_filled :: "jvalue \<Rightarrow> jvalue result" where
  "unit_filled settings = foldR unit_fill QUANTITIES settings"

definition unit_option :: "string \<Rightarrow> string \<Rightarrow> jvalue" where
  "unit_option u title = j_fields [(''unit'', String u), (''title'', String title)]"

definition unit_options :: "string \<Rightarrow> string \<Rightarrow> jvalue list result" where
  "unit_options name dflt =
     bindR (if dflt = [] then j_push [] (unit_option [] ''zoals de app meldt'') 8 else Inr [])
       (foldR (\<lambda>c out. j_push out (unit_option (ch_unit c) (ch_unit c)) 8) (filter (\<lambda>c. ch_quantity c = name) CHOICES))"

definition unit_offer :: "jvalue result" where
  "unit_offer =
     bindR (foldR (\<lambda>(name, title, canonical, dflt) out.
         bindR (unit_options name dflt) (\<lambda>options.
           j_push out (j_fields [(''name'', String name), (''title'', String title), (''canonical'', String canonical),
             (''default'', String dflt), (''options'', Array options)]) 7)) QUANTITIES [])
       (\<lambda>out. Inr (Array out))"

definition unit_text :: "jvalue \<Rightarrow> f64 \<Rightarrow> string \<Rightarrow> string result" where
  "unit_text settings v declared =
     (case unit_show settings v declared of (shown, label) \<Rightarrow>
        if \<not> f64_is_finite shown then Inl (Invalid ''measurement must be finite'')
        else Inr (f64_display shown
          @ (if label = [] then [] else (if label = ''%'' \<or> label = degree then [] else '' '') @ label)))"

section \<open>The Beaufort scale\<close>

lemma beaufort_table: "sorted_wrt (<) (0 # map f64_key BEAUFORT)" "list_all (\<lambda>x. \<not> f64_is_nan x) BEAUFORT" "length BEAUFORT = 12"
  by code_simp+

lemma takeWhile_prefix_iff:
  assumes "sorted (map k xs)" and "0 < n" and "n \<le> length xs"
  shows "n \<le> length (takeWhile (\<lambda>x. k x \<le> c) xs) \<longleftrightarrow> k (xs ! (n - 1)) \<le> (c :: int)"
proof
  assume "n \<le> length (takeWhile (\<lambda>x. k x \<le> c) xs)"
  then show "k (xs ! (n - 1)) \<le> c"
    using assms(2) set_takeWhileD [of "xs ! (n - 1)" "\<lambda>x. k x \<le> c" xs] takeWhile_nth [of "n - 1" "\<lambda>x. k x \<le> c" xs]
    by (metis Suc_diff_1 Suc_le_lessD nth_mem)
next
  assume le: "k (xs ! (n - 1)) \<le> c"
  have "\<forall>i < n. k (xs ! i) \<le> c"
  proof (intro allI impI)
    fix i assume "i < n"
    then have "k (xs ! i) \<le> k (xs ! (n - 1))"
      using sorted_nth_mono [OF assms(1), of i "n - 1"] assms(2,3) by simp
    then show "k (xs ! i) \<le> c" using le by simp
  qed
  then show "n \<le> length (takeWhile (\<lambda>x. k x \<le> c) xs)"
    using assms(3) by (intro length_takeWhile_less_P_nth) auto
qed

lemma beaufort_not_nan:
  assumes "\<not> f64_is_nan v"
  shows "beaufort v = length (takeWhile (\<lambda>limit. f64_key limit \<le> f64_key v) BEAUFORT)"
  unfolding beaufort_def
  using assms beaufort_table(2) by (intro arg_cong [where f = length] takeWhile_cong) (auto simp: f64_le_def list_all_iff)

text \<open>The Beaufort scale and its inverse agree: a wind speed has at least force \<open>n\<close> exactly when it is not
  below the speed that is given back for \<open>n\<close>, forces above 12 counting as 12, and the speed given back for a
  force has that force. A NaN has force 0.\<close>

theorem beaufort_galois:
  "(min n 12 \<le> beaufort v) = (n = 0 \<or> f64_le (beaufort_floor n) v) \<and> beaufort (beaufort_floor n) = min n 12"
proof -
  have key: "(min m 12 \<le> beaufort w) = (m = 0 \<or> f64_le (beaufort_floor m) w)" for m w
  proof (cases "f64_is_nan w")
    case True
    then have "beaufort w = 0" by (simp add: beaufort_def BEAUFORT_def f64_le_def)
    then show ?thesis using True by (auto simp: f64_le_def)
  next
    case False
    have nn: "\<not> f64_is_nan (BEAUFORT ! i)" if "i < 12" for i
      using beaufort_table(2,3) that by (auto simp: list_all_length)
    show ?thesis
    proof (cases "m = 0")
      case m: False
      have "(min m 12 \<le> beaufort w) = (f64_key (BEAUFORT ! (min m 12 - 1)) \<le> f64_key w)"
        unfolding beaufort_not_nan [OF False]
        using m beaufort_table(1,3) by (intro takeWhile_prefix_iff) (auto intro: strict_sorted_imp_sorted)
      moreover have "min m 12 - 1 < 12" by simp
      ultimately show ?thesis using m False nn by (simp add: beaufort_floor_def f64_le_def)
    qed simp
  qed
  let ?k = "\<lambda>i. (0 # map f64_key BEAUFORT) ! i"
  have floor_key: "f64_key (beaufort_floor m) = ?k (min m 12) \<and> \<not> f64_is_nan (beaufort_floor m)" for m
  proof (cases m)
    case 0
    have "f64_key (f64_of_int 0) = 0" "\<not> f64_is_nan (f64_of_int 0)" by code_simp+
    then show ?thesis using 0 by (simp add: beaufort_floor_def)
  next
    case (Suc i)
    then have "min m 12 = Suc (min m 12 - 1)" "min m 12 - 1 < 12" by auto
    then show ?thesis
      using Suc beaufort_table(2,3) by (metis Suc_not_Zero beaufort_floor_def list_all_length nth_Cons_Suc nth_map)
  qed
  have "beaufort (beaufort_floor n) \<le> 12" using length_takeWhile_le [of _ BEAUFORT] beaufort_table(3) by (simp add: beaufort_def)
  moreover have "\<not> f64_le (beaufort_floor (Suc n)) (beaufort_floor n)" if "n < 12"
  proof -
    have "?k n < ?k (Suc n)"
      using sorted_wrt_nth_less [OF beaufort_table(1), of n "Suc n"] that beaufort_table(3) by simp
    then show ?thesis using floor_key [of n] floor_key [of "Suc n"] that by (simp add: f64_le_def)
  qed
  moreover have "f64_le (beaufort_floor n) (beaufort_floor n)" using floor_key by (simp add: f64_le_def)
  ultimately have "beaufort (beaufort_floor n) = min n 12"
    using key [of n "beaufort_floor n"] key [of "Suc n" "beaufort_floor n"] by (cases "n < 12") auto
  then show ?thesis using key by blast
qed

section \<open>Settings only hold what is offered\<close>

definition units_ok :: "jvalue \<Rightarrow> bool" where
  "units_ok settings \<longleftrightarrow> (\<exists>ps. settings = Object ps)
    \<and> list_all (\<lambda>q. j_text settings q = [] \<or> unit_valid q (j_text settings q)) (map fst QUANTITIES)"

lemma unit_update_field_ok:
  assumes "units_ok s" and "unit_update_field e s = Inr s'"
  shows "units_ok s'"
proof -
  obtain q u where e: "e = (q, String u)" "unit_valid q u" "j_set s q (String u) = Inr s'"
    using assms(2) by (cases e; cases "snd e") (auto simp: unit_update_field_def result_iff split: if_splits)
  obtain ps where "s = Object ps" using assms(1) by (auto simp: units_ok_def)
  then have "s' = Object (obj_insert ps q (String u))" using e(3) by (simp add: j_set_def)
  then show ?thesis
    using assms(1) e(2) \<open>s = Object ps\<close> by (auto simp: units_ok_def list_all_iff j_text_Object_insert)
qed

lemma unit_update_ok: "units_ok s \<Longrightarrow> unit_update s patch = (r, s') \<Longrightarrow> units_ok s'"
proof -
  have "units_ok s \<Longrightarrow> foldS (\<lambda>e s. case unit_update_field e s of Inl x \<Rightarrow> (Inl x, s) | Inr s' \<Rightarrow> (Inr (), s')) ps s = (r, s') \<Longrightarrow> units_ok s'" for ps
    by (induction ps arbitrary: s) (auto split: prod.splits sum.splits dest: unit_update_field_ok)
  then show "units_ok s \<Longrightarrow> unit_update s patch = (r, s') \<Longrightarrow> units_ok s'"
    by (auto simp: unit_update_def split: option.splits)
qed

end
