(* ===== verification/Display.thy ===== *)
theory Display
  imports Units StoreBase Flow
begin

text \<open>
  Metadata of the built-in capabilities, \<^verbatim>\<open>crates/core/src/capability.rs\<close>, and the texts people read,
  \<^verbatim>\<open>crates/core/src/display.rs\<close>: the unit of a capability, a measured token as text, and whether an
  argument of a card wants a number.
\<close>

section \<open>Built-in capabilities\<close>

definition set_fields :: "(string \<times> jvalue) list \<Rightarrow> jvalue \<Rightarrow> jvalue result" where
  "set_fields fs v = foldR (\<lambda>(k, x) v. j_set v k x) fs v"

definition cap_booleans :: "string list" where
  "cap_booleans = [''onoff'', ''button'', ''locked'', ''volume_mute'', ''speaker_playing'', ''speaker_shuffle'', ''speaker_next'', ''speaker_prev'']"

definition cap_nonnegative :: "string list" where
  "cap_nonnegative = [''speaker_position'', ''speaker_duration'', ''measure_co2'', ''measure_co'', ''measure_pm25'',
     ''measure_luminance'', ''measure_voltage'', ''measure_current'', ''meter_power'']"

text \<open>The micro sign and the superscript three in UTF-8.\<close>

definition micrograms :: string where
  "micrograms = [CHR 0xC2, CHR 0xB5] @ ''g/m'' @ [CHR 0xC2, CHR 0xB3]"

definition cap_unit :: "string \<Rightarrow> string \<times> string" where
  "cap_unit base =
     (if base \<in> {''measure_temperature'', ''target_temperature''} then (degree @ ''C'', ''0.01'')
      else if base \<in> {''measure_humidity'', ''measure_battery''} then (''%'', ''0.01'')
      else if base = ''measure_pressure'' then (''hPa'', ''0.1'')
      else if base \<in> {''measure_co2'', ''measure_co''} then (''ppm'', ''1.0'')
      else if base = ''measure_pm25'' then (micrograms, ''0.1'')
      else if base = ''measure_luminance'' then (''lx'', ''1.0'')
      else if base = ''measure_power'' then (''W'', ''0.001'')
      else if base = ''measure_current'' then (''A'', ''0.001'')
      else if base = ''measure_voltage'' then (''V'', ''0.001'')
      else if base = ''meter_power'' then (''kWh'', ''0.001'')
      else if base \<in> {''speaker_position'', ''speaker_duration''} then (''s'', ''1.0'')
      else ([], ''0.0''))"

definition cap_values :: "string \<Rightarrow> (string \<times> string \<times> string) list" where
  "cap_values base =
     (if base = ''windowcoverings_state'' then
        [(''up'', ''Omhoog'', ''Up''), (''idle'', ''Stop'', ''Stop''), (''down'', ''Omlaag'', ''Down'')]
      else if base = ''speaker_repeat'' then
        [(''none'', ''Uit'', ''Off''), (''track'', ''E'' @ [CHR 0xC3, CHR 0xA9] @ ''n nummer'', ''One track''),
         (''playlist'', ''Afspeellijst'', ''Playlist'')]
      else if base = ''air_quality_state'' then
        [(''unknown'', ''Onbekend'', ''Unknown''), (''good'', ''Goed'', ''Good''), (''fair'', ''Redelijk'', ''Fair''),
         (''moderate'', ''Matig'', ''Moderate''), (''poor'', ''Slecht'', ''Poor''), (''very_poor'', ''Zeer slecht'', ''Very poor''),
         (''extremely_poor'', ''Extreem slecht'', ''Extremely poor'')]
      else [])"

definition cap_value_entry :: "string \<times> string \<times> string \<Rightarrow> jvalue" where
  "cap_value_entry e = (case e of (i, nl, en) \<Rightarrow>
     j_fields [(''id'', String i), (''title'', j_fields [(''nl'', String nl), (''en'', String en)])])"

definition float_field :: "string \<Rightarrow> jvalue" where
  "float_field s = Number (NFloat (parse_f64 s))"

definition cap_defaults :: "jvalue \<Rightarrow> string \<Rightarrow> jvalue result" where
  "cap_defaults v0 base =
     bindR (if base \<in> set cap_booleans then set_fields [(''type'', String ''boolean'')] v0 else Inr v0) (\<lambda>v1.
     bindR (if base \<in> {''speaker_next'', ''speaker_prev''}
            then set_fields [(''getable'', Bool False), (''setable'', Bool True)] v1 else Inr v1) (\<lambda>v2.
     bindR (if base = ''speaker_repeat'' then set_fields [(''setable'', Bool True)] v2 else Inr v2) (\<lambda>v3.
     bindR (if base \<in> set cap_nonnegative then set_fields [(''min'', uint_value 0)] v3 else Inr v3) (\<lambda>v4.
     bindR (case cap_unit base of (u, st) \<Rightarrow>
            if u \<noteq> [] then set_fields [(''type'', String ''number''), (''units'', String u), (''step'', float_field st)] v4
            else Inr v4) (\<lambda>v5.
     bindR (if base \<in> {''dim'', ''light_hue'', ''light_saturation'', ''windowcoverings_set'', ''volume_set''}
            then set_fields [(''type'', String ''number''), (''min'', float_field ''0.0''), (''max'', float_field ''1.0''),
                             (''step'', float_field ''0.01'')] v5 else Inr v5) (\<lambda>v6.
     bindR (if base \<in> {''measure_humidity'', ''measure_battery''}
            then set_fields [(''min'', uint_value 0), (''max'', uint_value 100)] v6 else Inr v6) (\<lambda>v7.
     if cap_values base \<noteq> [] then
       bindR (foldR (\<lambda>e out. j_push out (cap_value_entry e) 8) (cap_values base) []) (\<lambda>arr.
         set_fields [(''values'', Array arr), (''type'', String ''enum'')] v7)
     else Inr v7)))))))"

section \<open>Units of tokens\<close>

text \<open>\<open>cap.split('.').next()\<close>.\<close>

definition cap_base :: "string \<Rightarrow> string" where
  "cap_base cap = takeWhile (\<lambda>c. c \<noteq> CHR ''.'') cap"

definition manifest_unit :: "jvalue \<Rightarrow> string \<Rightarrow> string" where
  "manifest_unit m cap = trim (localized (j_field (j_field (j_field m ''capabilities'') cap) ''units'') ''en'')"

definition capability_unit :: "'s store \<Rightarrow> string \<Rightarrow> string result" where
  "capability_unit s cap =
     bindR (cap_defaults j_object (cap_base cap)) (\<lambda>definition.
       let u = trim (localized (j_field definition ''units'') ''en'') in
       if u \<noteq> [] then Inr u
       else case filter (\<lambda>u. u \<noteq> [])
              (List.map_filter (\<lambda>a. map_option (\<lambda>m. manifest_unit m cap) (app_manifest_of s (j_text a ''id'')))
                (doc_records (config s) ''apps'')) of
          [] \<Rightarrow> Inr []
        | u # _ \<Rightarrow> Inr u)"

text \<open>The unit a card of the manifest declares for one of its tokens: the first such token ends the search.\<close>

definition card_token_unit :: "jvalue \<Rightarrow> string \<Rightarrow> string \<Rightarrow> string option" where
  "card_token_unit m i tok =
     (case filter (\<lambda>t. j_text t ''name'' = tok)
        (concat (map (\<lambda>c. j_array c ''tokens'')
          (filter (\<lambda>c. j_text c ''id'' = i)
            (concat (map (j_array (j_field m ''flow'')) [''triggers'', ''conditions'', ''actions'']))))) of
        [] \<Rightarrow> None
      | t # _ \<Rightarrow> Some (trim (localized (j_field t ''units'') ''en'')))"

definition strip_or_same :: "string \<Rightarrow> string \<Rightarrow> string" where
  "strip_or_same s p = (case strip_prefix s p of None \<Rightarrow> s | Some r \<Rightarrow> r)"

definition token_capability :: "jvalue \<Rightarrow> string \<Rightarrow> string" where
  "token_capability input tok =
     (if tok = ''value'' \<or> tok = ''oldValue'' then
        (case strip_prefix (j_text input ''id'') ''capability.'' of
           Some rest \<Rightarrow> (case rsplit_once rest CHR ''.'' of None \<Rightarrow> [] | Some (cap, _) \<Rightarrow> cap)
         | None \<Rightarrow> if j_text input ''id'' = ''device_capability_changed''
                   then j_text (j_field input ''tokens'') ''capability'' else [])
      else [])"

definition token_text :: "'s store \<Rightarrow> jvalue \<Rightarrow> string \<Rightarrow> jvalue \<Rightarrow> string option result" where
  "token_text s input name v =
     (case v of
        Number x \<Rightarrow>
          let tok = strip_or_same (strip_or_same name ''tokens.'') ''state.'' in
          bindR (capability_unit s (token_capability input tok)) (\<lambda>u0.
            let u = (if u0 = [] then
                       (case app_manifest_of s (j_text input ''appId'') of
                          None \<Rightarrow> u0
                        | Some m \<Rightarrow> (case card_token_unit m (j_text input ''id'') tok of None \<Rightarrow> u0 | Some u \<Rightarrow> u))
                     else u0) in
            if u = [] then Inr None
            else bindR (unit_text (j_field (j_field (config s) ''system'') ''units'') (num_as_f64 x) u) (\<lambda>t. Inr (Some t)))
      | _ \<Rightarrow> Inr None)"

definition builtin_wants_number :: "string \<Rightarrow> string \<Rightarrow> bool" where
  "builtin_wants_number i name \<longleftrightarrow>
     (case Option.bind (strip_prefix i ''capability.'') (\<lambda>r. rsplit_once r CHR ''.'') of
        Some (_, act) \<Rightarrow>
          name = ''value'' \<and> act \<in> {''is'', ''set'', ''above'', ''below'', ''rose_above'', ''fell_below'', ''became''}
          \<or> name = ''seconds'' \<and> act \<in> {''on_for'', ''off_for''}
      | None \<Rightarrow>
          i \<in> {''set_device_capability'', ''device_capability_equals'', ''device_capability_changed'', ''device_capability_stays''}
            \<and> name = ''value''
          \<or> i \<in> {''device_capability_stays'', ''delay''} \<and> name = ''seconds''
          \<or> i \<in> {''sunrise'', ''sunset''} \<and> name = ''offset'')"

definition card_list :: "string \<Rightarrow> string" where
  "card_list kind = (if kind = ''trigger'' then ''triggers'' else if kind = ''condition'' then ''conditions'' else ''actions'')"

definition wants_number :: "'s store \<Rightarrow> jvalue \<Rightarrow> string \<Rightarrow> bool" where
  "wants_number s step name \<longleftrightarrow>
     (let i = j_text step ''cardId'' in
      if j_text step ''appId'' = ''stulp'' then builtin_wants_number i name
      else case app_manifest_of s (j_text step ''appId'') of
        None \<Rightarrow> False
      | Some m \<Rightarrow>
          (case find (\<lambda>c. j_text c ''id'' = i)
             (j_array (j_field m ''flow'') (card_list (card_kind (j_text step ''cardType'')))) of
             None \<Rightarrow> False
           | Some c \<Rightarrow> (case find (\<lambda>a. j_text a ''name'' = name) (j_array c ''args'') of
               None \<Rightarrow> False
             | Some a \<Rightarrow> j_text a ''type'' \<in> {''number'', ''range'', ''capability-value''})))"

section \<open>Looking up a unit never fails\<close>

lemma set_fields_object: "\<exists>qs. set_fields fs (Object ps) = Inr (Object qs)"
proof -
  have "\<exists>qs. foldR (\<lambda>(k, x) v. j_set v k x) fs (Object ps) = Inr (Object qs)"
    by (induction fs arbitrary: ps) (auto simp: j_set_def)
  then show ?thesis by (simp add: set_fields_def)
qed

lemma set_fields_if: "\<exists>qs. (if b then set_fields fs (Object ps) else Inr (Object ps)) = Inr (Object qs)"
  using set_fields_object by simp

lemma cap_values_fit: "\<exists>arr. foldR (\<lambda>e out. j_push out (cap_value_entry e) 8) (cap_values base) [] = Inr arr"
  by (simp add: cap_values_def j_push_def)

lemma cap_defaults_object: "\<exists>qs. cap_defaults (Object ps) base = Inr (Object qs)"
proof -
  obtain p1 where 1: "(if base \<in> set cap_booleans then set_fields [(''type'', String ''boolean'')] (Object ps) else Inr (Object ps)) = Inr (Object p1)"
    using set_fields_if by blast
  obtain p2 where 2: "(if base \<in> {''speaker_next'', ''speaker_prev''}
      then set_fields [(''getable'', Bool False), (''setable'', Bool True)] (Object p1) else Inr (Object p1)) = Inr (Object p2)"
    using set_fields_if by blast
  obtain p3 where 3: "(if base = ''speaker_repeat'' then set_fields [(''setable'', Bool True)] (Object p2) else Inr (Object p2)) = Inr (Object p3)"
    using set_fields_if by blast
  obtain p4 where 4: "(if base \<in> set cap_nonnegative then set_fields [(''min'', uint_value 0)] (Object p3) else Inr (Object p3)) = Inr (Object p4)"
    using set_fields_if by blast
  obtain u st where u: "cap_unit base = (u, st)" by fastforce
  obtain p5 where 5: "(if u \<noteq> [] then set_fields [(''type'', String ''number''), (''units'', String u), (''step'', float_field st)] (Object p4)
      else Inr (Object p4)) = Inr (Object p5)"
    using set_fields_if by blast
  obtain p6 where 6: "(if base \<in> {''dim'', ''light_hue'', ''light_saturation'', ''windowcoverings_set'', ''volume_set''}
      then set_fields [(''type'', String ''number''), (''min'', float_field ''0.0''), (''max'', float_field ''1.0''),
        (''step'', float_field ''0.01'')] (Object p5) else Inr (Object p5)) = Inr (Object p6)"
    using set_fields_if by blast
  obtain p7 where 7: "(if base \<in> {''measure_humidity'', ''measure_battery''}
      then set_fields [(''min'', uint_value 0), (''max'', uint_value 100)] (Object p6) else Inr (Object p6)) = Inr (Object p7)"
    using set_fields_if by blast
  obtain arr where a: "foldR (\<lambda>e out. j_push out (cap_value_entry e) 8) (cap_values base) [] = Inr arr"
    using cap_values_fit by blast
  show ?thesis
    unfolding cap_defaults_def 1 bindR_simps 2 3 4 u prod.case 5 6 7 a
    using set_fields_object by simp
qed

lemma capability_unit_total: "\<exists>u. capability_unit s cap = Inr u"
  using cap_defaults_object [of "[]" "cap_base cap"]
  by (auto simp: capability_unit_def j_object_def Let_def split: list.splits)

end
