(* ===== verification/FlowText.thy ===== *)
theory FlowText
  imports Display StoreReferences
begin

text \<open>
  Arguments of the cards of a running flow, \<^verbatim>\<open>crates/runtime/src/flow_triggers.rs\<close>, and the built-in
  conditions and actions of \<^verbatim>\<open>crates/runtime/src/flows.rs\<close>: lookup of tokens, substitution of
  \<open>{{token}}\<close> in the arguments, the filter of a built-in trigger, and the texts of errors.
\<close>

section \<open>Texts of errors\<close>

definition nat_text :: "nat \<Rightarrow> string" where
  "nat_text n = show_dec (int n)"

definition quoted :: "string \<Rightarrow> string" where
  "quoted s = [CHR 0x22] @ s @ [CHR 0x22]"

definition hop_error_display :: "hop_error \<Rightarrow> string" where
  "hop_error_display e =
     (case e of
        OutOfMemory \<Rightarrow> ''out of memory''
      | TooLarge len mx \<Rightarrow> ''input of '' @ nat_text len @ '' bytes exceeds '' @ nat_text mx
      | TooDeep off mx \<Rightarrow> ''nesting deeper than '' @ nat_text mx @ '' at byte '' @ nat_text off
      | Syntax off expected \<Rightarrow> ''invalid JSON at byte '' @ nat_text off @ '': expected '' @ expected
      | Trailing off \<Rightarrow> ''more than one JSON document (second starts at byte '' @ nat_text off @ '')''
      | DuplicateKey k \<Rightarrow> ''duplicate key '' @ quoted k
      | NotFinite \<Rightarrow> ''number is not finite''
      | WrongType f want \<Rightarrow> f @ '': expected '' @ want
      | UnknownField f \<Rightarrow> ''unknown field '' @ quoted f
      | OutOfRange f \<Rightarrow> f @ '': number out of range''
      | HopInvalid f why \<Rightarrow> f @ '': '' @ why
      | TooMany f mx \<Rightarrow> f @ '': more than '' @ nat_text mx @ '' entries'')"

definition error_text :: "error \<Rightarrow> string" where
  "error_text e =
     (case e of
        Full \<Rightarrow> ''capacity exceeded''
      | Memory \<Rightarrow> ''allocation failed''
      | Invalid s \<Rightarrow> s
      | Missing s \<Rightarrow> s
      | Conflict s \<Rightarrow> s
      | Changed \<Rightarrow> ''record changed since it was read''
      | Storage \<Rightarrow> ''document persistence failed''
      | Json x \<Rightarrow> ''JSON: '' @ hop_error_display x)"

section \<open>Tokens\<close>

text \<open>\<open>str::find\<close> and \<open>str::strip_suffix\<close>.\<close>

fun str_find :: "string \<Rightarrow> string \<Rightarrow> nat option" where
  "str_find [] p = (if p = [] then Some 0 else None)"
| "str_find (c # s) p = (if starts_with (c # s) p then Some 0 else map_option Suc (str_find s p))"

definition strip_suffix :: "string \<Rightarrow> string \<Rightarrow> string option" where
  "strip_suffix s p = map_option rev (strip_prefix (rev s) (rev p))"

definition lookup :: "string \<Rightarrow> jvalue \<Rightarrow> jvalue option" where
  "lookup name context =
     (case strip_prefix name ''state.'' of
        Some key \<Rightarrow> j_get (j_field context ''state'') key
      | None \<Rightarrow>
          (case strip_prefix name ''tokens.'' of
             Some key \<Rightarrow> j_get (j_field context ''tokens'') key
           | None \<Rightarrow>
               (case j_get (j_field context ''tokens'') name of
                  Some v \<Rightarrow> Some v
                | None \<Rightarrow> j_get (j_field context ''state'') name)))"

text \<open>The text that replaces one token inside a longer text.\<close>

definition token_replacement :: "'s store \<Rightarrow> jvalue \<Rightarrow> string \<Rightarrow> string result" where
  "token_replacement s context name =
     (case lookup name context of
        Some (String t) \<Rightarrow> Inr t
      | Some v \<Rightarrow> bindR (token_text s context name v) (\<lambda>t.
          case t of Some text \<Rightarrow> Inr text | None \<Rightarrow> from_hop (to_string v))
      | None \<Rightarrow> Inr [])"

text \<open>The replacement loop: at most a hundred rounds, each on the first \<open>{{\<close> and the first \<open>}}\<close> after it.\<close>

fun substitute :: "nat \<Rightarrow> 's store \<Rightarrow> jvalue \<Rightarrow> string \<Rightarrow> string result" where
  "substitute 0 s context out = Inr out"
| "substitute (Suc n) s context out =
     (case str_find out ''{{'' of
        None \<Rightarrow> Inr out
      | Some start \<Rightarrow>
          (case str_find (drop (start + 2) out) ''}}'' of
             None \<Rightarrow> Inr out
           | Some stop \<Rightarrow>
               bindR (token_replacement s context (trim (take stop (drop (start + 2) out)))) (\<lambda>replacement.
               if MAX_DOCUMENT < length out + (length replacement - (stop + 4)) then Inl Full
               else substitute n s context (take start out @ replacement @ drop (start + stop + 4) out))))"

definition whole_token :: "string \<Rightarrow> string option" where
  "whole_token t =
     (case Option.bind (strip_prefix t ''{{'') (\<lambda>r. strip_suffix r ''}}'') of
        None \<Rightarrow> None
      | Some name \<Rightarrow> if str_find name ''{{'' = None then Some name else None)"

definition resolve_text :: "'s store \<Rightarrow> jvalue \<Rightarrow> bool \<Rightarrow> string \<Rightarrow> jvalue result" where
  "resolve_text s context as_text t =
     (case whole_token t of
        Some name \<Rightarrow>
          (case lookup (trim name) context of
             Some v \<Rightarrow>
               (if as_text then bindR (token_text s context (trim name) v) (\<lambda>r.
                  case r of Some text \<Rightarrow> Inr (String text) | None \<Rightarrow> Inr v)
                else Inr v)
           | None \<Rightarrow> bindR (substitute 100 s context t) (\<lambda>out. Inr (String out)))
      | None \<Rightarrow> bindR (substitute 100 s context t) (\<lambda>out. Inr (String out)))"

fun resolve :: "'s store \<Rightarrow> jvalue \<Rightarrow> jvalue \<Rightarrow> bool \<Rightarrow> nat \<Rightarrow> jvalue result"
and resolve_fields :: "'s store \<Rightarrow> object \<Rightarrow> jvalue \<Rightarrow> bool \<Rightarrow> nat \<Rightarrow> object \<Rightarrow> object result"
and resolve_items :: "'s store \<Rightarrow> jvalue list \<Rightarrow> jvalue \<Rightarrow> bool \<Rightarrow> nat \<Rightarrow> jvalue list \<Rightarrow> jvalue list result" where
  "resolve s (Object ps) context as_text depth =
     (if 64 < depth then Inl Full
      else bindR (resolve_fields s ps context as_text depth []) (\<lambda>out. Inr (Object out)))"
| "resolve s (Array vs) context as_text depth =
     (if 64 < depth then Inl Full
      else bindR (resolve_items s vs context as_text depth []) (\<lambda>out. Inr (Array out)))"
| "resolve s (String t) context as_text depth =
     (if 64 < depth then Inl Full else resolve_text s context as_text t)"
| "resolve s v context as_text depth = (if 64 < depth then Inl Full else Inr v)"
| "resolve_fields s [] context as_text depth out = Inr out"
| "resolve_fields s ((k, v) # ps) context as_text depth out =
     bindR (resolve s v context as_text (depth + 1)) (\<lambda>w. resolve_fields s ps context as_text depth (obj_push out k w))"
| "resolve_items s [] context as_text depth out = Inr out"
| "resolve_items s (v # vs) context as_text depth out =
     bindR (resolve s v context as_text (depth + 1)) (\<lambda>w.
     bindR (j_push out w MAX_DOCUMENT) (resolve_items s vs context as_text depth))"

definition step_args :: "'s store \<Rightarrow> jvalue \<Rightarrow> jvalue \<Rightarrow> jvalue result" where
  "step_args s step input =
     bindR (case as_object (j_field step ''args'') of
              None \<Rightarrow> Inr []
            | Some ps \<Rightarrow> foldR (\<lambda>(name, v) out.
                bindR (resolve s v input (\<not> wants_number s step name) 0) (\<lambda>w. Inr (obj_push out name w))) ps [])
       (\<lambda>out. Inr (Object out))"

section \<open>Built-in cards\<close>

definition finite_number :: "jvalue \<Rightarrow> f64 option" where
  "finite_number v = (case v of Number x \<Rightarrow> if f64_is_finite (num_as_f64 x) then Some (num_as_f64 x) else None | _ \<Rightarrow> None)"

definition derived :: "string \<Rightarrow> (string \<times> string) option" where
  "derived i = Option.bind (strip_prefix i ''capability.'') (\<lambda>r. rsplit_once r CHR ''.'')"

definition wanted_matches :: "jvalue \<Rightarrow> jvalue \<Rightarrow> string \<Rightarrow> bool" where
  "wanted_matches args state key \<longleftrightarrow> j_text args key = [] \<or> j_text args key = j_text state key"

definition builtin_trigger :: "jvalue \<Rightarrow> jvalue \<Rightarrow> bool result" where
  "builtin_trigger step input =
     (let args = j_field step ''args''; state = j_field input ''state'';
          plain = Inr (wanted_matches args state ''capability'' \<and> wanted_matches args state ''event'') in
      case derived (j_text step ''cardId'') of
        None \<Rightarrow> plain
      | Some (_, act) \<Rightarrow>
          if act = ''became'' then Inr (j_equal (j_field args ''value'') (j_field state ''value''))
          else if act = ''rose_above'' \<or> act = ''fell_below'' then
            bindR (ok_or (finite_number (j_field args ''value'')) (Invalid ''numeric trigger threshold is required'')) (\<lambda>threshold.
            case (finite_number (j_field state ''value''), finite_number (j_field state ''oldValue'')) of
              (Some current, Some previous) \<Rightarrow>
                Inr (if act = ''rose_above'' then f64_le previous threshold \<and> f64_lt threshold current
                     else f64_le threshold previous \<and> f64_lt current threshold)
            | _ \<Rightarrow> Inr False)
          else plain)"

definition selected_device :: "jvalue \<Rightarrow> string" where
  "selected_device args =
     (case as_object args of
        None \<Rightarrow> []
      | Some ps \<Rightarrow> (case filter (\<lambda>i. i \<noteq> []) (map (\<lambda>(_, v). j_text v ''$device'') ps) of [] \<Rightarrow> [] | i # _ \<Rightarrow> i))"

definition condition :: "'s store \<Rightarrow> string \<Rightarrow> jvalue \<Rightarrow> bool result" where
  "condition s i args =
     bindR (if i = ''device_capability_equals'' then Inr (j_text args ''capability'', ''is'')
            else ok_or (derived i) (Invalid ''unknown built-in condition'')) (\<lambda>(cap, comparison).
     bindR (device s (selected_device args)) (\<lambda>dev.
     let current = (case Option.bind (j_get dev ''state'') (\<lambda>st. j_get st cap) of None \<Rightarrow> Null | Some v \<Rightarrow> v);
         v = j_field args ''value'' in
     if comparison = ''is'' then Inr (j_equal current v)
     else if comparison = ''is_on'' then Inr (as_bool current = Some True)
     else if comparison = ''is_off'' then Inr (as_bool current = Some False)
     else if comparison = ''above'' \<or> comparison = ''below'' then
       bindR (ok_or (finite_number current) (Invalid ''capability must be numeric'')) (\<lambda>a.
       bindR (ok_or (finite_number v) (Invalid ''threshold must be numeric'')) (\<lambda>b.
         Inr (if comparison = ''above'' then f64_lt b a else f64_lt a b)))
     else Inl (Invalid ''unknown built-in condition'')))"

datatype effect =
    CallEffect string string jvalue
  | NotificationEffect string
  | WaitingEffect
  | FinishedEffect

definition action_value :: "jvalue \<Rightarrow> string \<Rightarrow> string \<Rightarrow> jvalue \<Rightarrow> jvalue result" where
  "action_value dev cap operation args =
     (if operation = ''run'' \<or> operation = ''turn_on'' then Inr (Bool True)
      else if operation = ''turn_off'' then Inr (Bool False)
      else if operation = ''toggle'' then
        bindR (ok_or (Option.bind (Option.bind (j_get dev ''state'') (\<lambda>st. j_get st cap)) as_bool)
          (Invalid ''capability has no boolean state to toggle'')) (\<lambda>b. Inr (Bool (\<not> b)))
      else if operation = ''set'' then Inr (j_field args ''value'')
      else Inl (Invalid ''unknown built-in action''))"

definition action :: "'s store \<Rightarrow> string \<Rightarrow> jvalue \<Rightarrow> effect result" where
  "action s i args =
     bindR (if i = ''set_device_capability'' then Inr (j_text args ''capability'', ''set'')
            else ok_or (derived i) (Invalid ''unknown built-in action'')) (\<lambda>(cap, operation).
     bindR (device s (selected_device args)) (\<lambda>dev.
     if \<not> list_ex (\<lambda>v. as_str v = Some cap) (j_array dev ''capabilities'')
     then Inl (Missing ''device capability does not exist'')
     else bindR (action_value dev cap operation args) (\<lambda>v.
       Inr (CallEffect (j_text dev ''appId'') ''capability.invoke''
         (j_fields [(''deviceId'', String (selected_device args)), (''capability'', String cap), (''value'', v),
           (''options'', j_object)])))))"

end
