(* ===== verification/AppGroups.thy ===== *)
theory AppGroups
  imports FlowText Protocol
begin

text \<open>
  A group of capability commands for one device, \<^verbatim>\<open>crates/runtime/src/groups.rs\<close>: sent as one batch, and one
  by one only when the app says that it does not know the batch method. Shown here: the fallback sends every
  command once and in order and collects exactly the errors of the commands that failed.
\<close>

record group =
  grp_owner :: u64
  grp_deadline :: u64
  grp_params :: jvalue
  grp_sent :: nat
  grp_singles :: bool
  grp_errors :: jvalue

datatype group_step = Original | Call jvalue | Done jvalue

definition check_command :: "jvalue \<Rightarrow> unit \<Rightarrow> unit result" where
  "check_command c _ =
     (if j_text c ''capability'' = [] \<or> j_get c ''value'' = None then Inl (Invalid ''invalid grouped capability command'') else Inr ())"

definition group_new :: "u64 \<Rightarrow> u64 \<Rightarrow> jvalue \<Rightarrow> group result" where
  "group_new owner now params =
     (if 256 < length (j_array params ''commands'') then Inl Full
      else bindR (foldR check_command (j_array params ''commands'') ()) (\<lambda>_.
        Inr \<lparr>grp_owner = owner, grp_deadline = saturating_add now 30000, grp_params = params, grp_sent = 0,
             grp_singles = False, grp_errors = j_object\<rparr>))"

definition reply_message :: "frame \<Rightarrow> string" where
  "reply_message f =
     (let e = j_field (frame_value f) ''e'' in case as_str e of Some m \<Rightarrow> m | None \<Rightarrow> j_text e ''message'')"

definition group_next :: "group \<Rightarrow> (group_step \<times> group) result" where
  "group_next g =
     (case drop (grp_sent g) (j_array (grp_params g) ''commands'') of
        [] \<Rightarrow> Inr (Done (grp_errors g), g)
      | command # _ \<Rightarrow>
          bindR (j_set command ''deviceId'' (String (j_text (grp_params g) ''deviceId''))) (\<lambda>p.
          bindR (j_set p ''options'' (case j_get (grp_params g) ''options'' of None \<Rightarrow> j_object | Some v \<Rightarrow> v)) (\<lambda>params.
          Inr (Call params, g\<lparr>grp_sent := grp_sent g + 1\<rparr>))))"

text \<open>A group is taken out of its list before it sees a reply, so its state after an error is not kept.\<close>

definition group_reply :: "frame \<Rightarrow> group \<Rightarrow> (group_step \<times> group) result" where
  "group_reply f g =
     (let m = reply_message f in
      if \<not> grp_singles g then
        if frame_kind_of f \<noteq> ErrorFrame \<or> str_find m ''unknown method'' = None then Inr (Original, g)
        else group_next (g\<lparr>grp_singles := True\<rparr>)
      else if frame_kind_of f = ErrorFrame then
        (let commands = j_array (grp_params g) ''commands'' in
         if grp_sent g - 1 < length commands then
           bindR (j_set (grp_errors g) (j_text (commands ! (grp_sent g - 1)) ''capability'')
                    (String (if m = [] then ''capability invocation failed'' else m))) (\<lambda>errors.
           group_next (g\<lparr>grp_errors := errors\<rparr>))
         else Inl Changed)
      else group_next g)"

section \<open>The fallback\<close>

text \<open>Feeding replies to a group: the steps it answered, up to its end or an error.\<close>

fun group_run :: "frame list \<Rightarrow> group \<Rightarrow> group_step list" where
  "group_run [] g = []"
| "group_run (f # fs) g =
     (case group_reply f g of
        Inl _ \<Rightarrow> []
      | Inr (Call p, g') \<Rightarrow> Call p # group_run fs g'
      | Inr (st, g') \<Rightarrow> [st])"

definition single_params :: "jvalue \<Rightarrow> jvalue \<Rightarrow> jvalue" where
  "single_params params c =
     (case c of
        Object ps \<Rightarrow> Object (obj_insert (obj_insert ps ''deviceId'' (String (j_text params ''deviceId'')))
           ''options'' (case j_get params ''options'' of None \<Rightarrow> j_object | Some v \<Rightarrow> v))
      | _ \<Rightarrow> c)"

definition failure_text :: "frame \<Rightarrow> string" where
  "failure_text f = (if reply_message f = [] then ''capability invocation failed'' else reply_message f)"

text \<open>The errors of the commands that were answered with an error frame, each under its capability.\<close>

definition add_failure :: "object \<Rightarrow> jvalue \<times> frame \<Rightarrow> object" where
  "add_failure ps cf =
     (if frame_kind_of (snd cf) = ErrorFrame then obj_insert ps (j_text (fst cf) ''capability'') (String (failure_text (snd cf))) else ps)"

definition group_errors :: "jvalue list \<Rightarrow> frame list \<Rightarrow> object" where
  "group_errors cs fs = foldl add_failure [] (zip cs fs)"

lemma j_text_fields: "j_text c k \<noteq> [] \<Longrightarrow> \<exists>ps. c = Object ps"
  by (cases c) (auto simp: j_text_def j_get_def)

lemma group_next_cases:
  assumes "j_array (grp_params g) ''commands'' = ds @ rest" and "grp_sent g = length ds"
    and "list_all (\<lambda>c. \<exists>ps. c = Object ps) rest"
  shows "group_next g = (case rest of [] \<Rightarrow> Inr (Done (grp_errors g), g)
     | c # _ \<Rightarrow> Inr (Call (single_params (grp_params g) c), g\<lparr>grp_sent := Suc (length ds)\<rparr>))"
  using assms by (cases rest) (auto simp: group_next_def single_params_def)

lemma group_reply_single:
  assumes "grp_singles g" and "j_array (grp_params g) ''commands'' = ds @ c # rest" and "grp_sent g = Suc (length ds)"
    and "grp_errors g = Object es"
  shows "group_reply f g = group_next (g\<lparr>grp_errors := Object (add_failure es (c, f))\<rparr>)"
proof (cases "frame_kind_of f = ErrorFrame")
  case False
  have "group_reply f g = group_next g" using assms False by (simp add: group_reply_def Let_def)
  moreover have "g\<lparr>grp_errors := Object (add_failure es (c, f))\<rparr> = g" using assms(4) False by (simp add: add_failure_def)
  ultimately show ?thesis by simp
qed (use assms in \<open>simp add: group_reply_def Let_def add_failure_def failure_text_def\<close>)

lemma group_run_singles:
  assumes "grp_singles g" and "j_array (grp_params g) ''commands'' = ds @ c # rest" and "grp_sent g = Suc (length ds)"
    and "grp_errors g = Object es" and "list_all (\<lambda>c. \<exists>ps. c = Object ps) rest" and "length fs = Suc (length rest)"
  shows "group_run fs g = map (\<lambda>c. Call (single_params (grp_params g) c)) rest @ [Done (Object (foldl add_failure es (zip (c # rest) fs)))]"
  using assms
proof (induction rest arbitrary: ds c fs g es)
  case Nil
  then obtain f where fs: "fs = [f]" by (auto simp: length_Suc_conv)
  show ?case
    using group_reply_single [OF Nil.prems(1-4), of f] group_next_cases [of "g\<lparr>grp_errors := Object (add_failure es (c, f))\<rparr>" "ds @ [c]" "[]"] Nil.prems
    by (simp add: fs)
next
  case (Cons d rest)
  then obtain f fs' where fs: "fs = f # fs'" by (cases fs) auto
  let ?g = "g\<lparr>grp_errors := Object (add_failure es (c, f))\<rparr>"
  have "group_reply f g = Inr (Call (single_params (grp_params g) d), ?g\<lparr>grp_sent := Suc (length (ds @ [c]))\<rparr>)"
    using group_reply_single [OF Cons.prems(1-4), of f] group_next_cases [of ?g "ds @ [c]" "d # rest"] Cons.prems by simp
  moreover have "group_run fs' (?g\<lparr>grp_sent := Suc (length (ds @ [c]))\<rparr>)
      = map (\<lambda>c. Call (single_params (grp_params g) c)) rest @ [Done (Object (foldl add_failure (add_failure es (c, f)) (zip (d # rest) fs')))]"
    using Cons.IH [of "?g\<lparr>grp_sent := Suc (length (ds @ [c]))\<rparr>" "ds @ [c]" d "add_failure es (c, f)" fs'] Cons.prems fs by simp
  ultimately show ?case by (simp add: fs)
qed

text \<open>A group whose batch the app does not know is sent command by command: every command of the group once and in
  order, for its own device and options, and after the last reply the answer holds exactly the errors of the
  commands that failed, each under its capability.\<close>

theorem group_fallback_exact:
  assumes "group_new owner now params = Inr g"
    and "frame_kind_of f0 = ErrorFrame" and "str_find (reply_message f0) ''unknown method'' \<noteq> None"
    and "length fs = length (j_array params ''commands'')"
  shows "group_run (f0 # fs) g = map (\<lambda>c. Call (single_params params c)) (j_array params ''commands'')
    @ [Done (Object (group_errors (j_array params ''commands'') fs))]"
proof -
  let ?cs = "j_array params ''commands''"
  have g: "g = \<lparr>grp_owner = owner, grp_deadline = saturating_add now 30000, grp_params = params, grp_sent = 0,
      grp_singles = False, grp_errors = j_object\<rparr>" and u: "foldR check_command ?cs () = Inr ()"
    using assms(1) by (auto simp: group_new_def bindR_Inr_iff split: if_splits)
  have obj: "list_all (\<lambda>c. \<exists>ps. c = Object ps) ?cs"
    using u unfolding foldR_unit by (auto simp: list_all_iff check_command_def split: if_splits intro: j_text_fields)
  have first: "group_reply f0 g = group_next (g\<lparr>grp_singles := True\<rparr>)"
    using assms(2,3) by (auto simp: group_reply_def g Let_def)
  show ?thesis
  proof (cases ?cs)
    case Nil
    then have "group_reply f0 g = Inr (Done j_object, g\<lparr>grp_singles := True\<rparr>)"
      using group_next_cases [of "g\<lparr>grp_singles := True\<rparr>" "[]" "[]"] unfolding first by (simp add: g)
    then show ?thesis using assms(4) Nil by (simp add: group_errors_def j_object_def)
  next
    case (Cons c rest)
    let ?g = "g\<lparr>grp_singles := True, grp_sent := Suc 0\<rparr>"
    have "group_reply f0 g = Inr (Call (single_params params c), ?g)"
      using group_next_cases [of "g\<lparr>grp_singles := True\<rparr>" "[]" "c # rest"] Cons obj unfolding first by (simp add: g)
    moreover have "group_run fs ?g = map (\<lambda>c. Call (single_params params c)) rest @ [Done (Object (foldl add_failure [] (zip (c # rest) fs)))]"
      using group_run_singles [of ?g "[]" c rest "[]" fs] Cons obj assms(4) by (simp add: g j_object_def)
    ultimately show ?thesis by (simp add: Cons group_errors_def)
  qed
qed

definition dim_params :: jvalue where
  "dim_params = Object [(''deviceId'', String ''lamp''), (''commands'', Array [
     Object [(''capability'', String ''onoff''), (''value'', Bool True)], Object [(''capability'', String ''dim''), (''value'', Bool False)]])]"

definition error_reply :: "string \<Rightarrow> frame" where
  "error_reply m = \<lparr>frame_kind_of = ErrorFrame, frame_id = 1, frame_value = Object [(''e'', Object [(''message'', String m)])]\<rparr>"

theorem group_fallback_exact_witness:
  "\<exists>g p q. group_new 7 0 dim_params = Inr g
     \<and> group_run [error_reply ''unknown method'', error_reply ''busy'', error_reply []] g
       = [Call p, Call q, Done (Object [(''onoff'', String ''busy''), (''dim'', String ''capability invocation failed'')])]"
proof -
  have "is_ok (group_new 7 0 dim_params)"
    by (simp add: group_new_def dim_params_def j_array_def check_command_def j_text_def is_ok_def)
  then obtain g where g: "group_new 7 0 dim_params = Inr g" by (auto simp: is_ok_iff)
  have c: "str_find (reply_message (error_reply ''unknown method'')) ''unknown method'' \<noteq> None"
    "frame_kind_of (error_reply ''unknown method'') = ErrorFrame"
    "length [error_reply ''busy'', error_reply []] = length (j_array dim_params ''commands'')"
    "group_errors (j_array dim_params ''commands'') [error_reply ''busy'', error_reply []]
       = [(''onoff'', String ''busy''), (''dim'', String ''capability invocation failed'')]" by code_simp+
  have "length (j_array dim_params ''commands'') = 2" by code_simp
  then obtain x y where xy: "j_array dim_params ''commands'' = [x, y]" by (auto simp: numeral_2_eq_2 length_Suc_conv)
  have "group_run [error_reply ''unknown method'', error_reply ''busy'', error_reply []] g
      = [Call (single_params dim_params x), Call (single_params dim_params y),
         Done (Object [(''onoff'', String ''busy''), (''dim'', String ''capability invocation failed'')])]"
    using group_fallback_exact [OF g c(2,1,3)] unfolding c(4) unfolding xy by simp
  then show ?thesis using g by blast
qed

end
