(* ===== verification/Session.thy ===== *)
theory Session
  imports Prelude "HOL-Library.Multiset"
begin

text \<open>
  The bookkeeping of requests in flight, \<^verbatim>\<open>crates/protocol/src/session.rs\<close>: a fixed table of 64 entries
  and a counter. Shown here: along every sequence of operations each request that was begun is answered,
  expired or returned at a disconnect at most once, and until then it is in the table.
\<close>

definition MAX_PENDING :: nat where "MAX_PENDING = 64"

record pending_request =
  pr_id :: u64
  pr_deadline :: u64
  pr_owner :: u64

record session =
  sess_pending :: "pending_request option list"
  session_next :: u64

definition session_new :: session where
  "session_new = \<lparr>sess_pending = replicate MAX_PENDING None, session_next = 0\<rparr>"

definition session_begin :: "u64 \<Rightarrow> u64 \<Rightarrow> u64 \<Rightarrow> session \<Rightarrow> u64 result \<times> session" where
  "session_begin owner now timeout s =
     (case checked_add (session_next s) 1 of None \<Rightarrow> (Inl Full, s)
      | Some n \<Rightarrow>
        (case checked_add now timeout of None \<Rightarrow> (Inl Full, s)
         | Some deadline \<Rightarrow>
           (case position (\<lambda>p. p = None) (sess_pending s) of None \<Rightarrow> (Inl Full, s)
            | Some i \<Rightarrow> (Inr n, s\<lparr>sess_pending := (sess_pending s)[i := Some \<lparr>pr_id = n, pr_deadline = deadline, pr_owner = owner\<rparr>],
                                  session_next := n\<rparr>))))"

text \<open>\<open>iter_mut().find(..).and_then(Option::take)\<close>: the first entry that matches is taken out of the table.\<close>

definition take_pending :: "(pending_request \<Rightarrow> bool) \<Rightarrow> session \<Rightarrow> pending_request option \<times> session" where
  "take_pending P s =
     (case position (\<lambda>p. case p of None \<Rightarrow> False | Some r \<Rightarrow> P r) (sess_pending s) of
        None \<Rightarrow> (None, s)
      | Some i \<Rightarrow> (sess_pending s ! i, s\<lparr>sess_pending := (sess_pending s)[i := None]\<rparr>))"

definition session_complete :: "u64 \<Rightarrow> session \<Rightarrow> u64 option \<times> session" where
  "session_complete i s = (case take_pending (\<lambda>p. pr_id p = i) s of (r, s') \<Rightarrow> (map_option pr_owner r, s'))"

definition session_expire :: "u64 \<Rightarrow> session \<Rightarrow> (u64 \<times> u64) option \<times> session" where
  "session_expire now s =
     (case take_pending (\<lambda>p. pr_deadline p \<le> now) s of (r, s') \<Rightarrow> (map_option (\<lambda>p. (pr_id p, pr_owner p)) r, s'))"

text \<open>The iterator of \<open>disconnect\<close>, run to its end.\<close>

definition session_disconnect :: "session \<Rightarrow> u64 list \<times> session" where
  "session_disconnect s =
     (map pr_owner (List.map_filter id (sess_pending s)), s\<lparr>sess_pending := map (\<lambda>_. None) (sess_pending s)\<rparr>)"

section \<open>Traces\<close>

text \<open>
  A trace records the requests begun and those that left the table, each with its identifier and owner.
  The last argument of an \<open>ended\<close> entry is what ended it.
\<close>

datatype ending = Completed | Expired | Disconnected

definition in_flight :: "session \<Rightarrow> (u64 \<times> u64) multiset" where
  "in_flight s = mset (map (\<lambda>p. (pr_id p, pr_owner p)) (List.map_filter id (sess_pending s)))"

inductive session_trace :: "session \<Rightarrow> (u64 \<times> u64) list \<Rightarrow> ((u64 \<times> u64) \<times> ending) list \<Rightarrow> bool" where
  fresh: "session_trace session_new [] []"
| begin_ok: "session_trace s b e \<Longrightarrow> session_begin owner now timeout s = (Inr i, s') \<Longrightarrow> session_trace s' (b @ [(i, owner)]) e"
| begin_full: "session_trace s b e \<Longrightarrow> session_begin owner now timeout s = (Inl x, s') \<Longrightarrow> session_trace s' b e"
| complete: "session_trace s b e \<Longrightarrow> session_complete i s = (Some owner, s')
    \<Longrightarrow> session_trace s' b (e @ [((i, owner), Completed)])"
| late: "session_trace s b e \<Longrightarrow> session_complete i s = (None, s') \<Longrightarrow> session_trace s' b e"
| expire: "session_trace s b e \<Longrightarrow> session_expire now s = (Some (i, owner), s')
    \<Longrightarrow> session_trace s' b (e @ [((i, owner), Expired)])"
| quiet: "session_trace s b e \<Longrightarrow> session_expire now s = (None, s') \<Longrightarrow> session_trace s' b e"
| disconnect: "session_trace s b e \<Longrightarrow> session_disconnect s = (owners, s')
    \<Longrightarrow> session_trace s' b (e @ map (\<lambda>p. ((pr_id p, pr_owner p), Disconnected)) (List.map_filter id (sess_pending s)))"

lemma map_filter_id_update_Some:
  "i < length xs \<Longrightarrow> xs ! i = None \<Longrightarrow> mset (List.map_filter id (xs[i := Some a])) = add_mset a (mset (List.map_filter id xs))"
proof -
  assume i: "i < length xs" "xs ! i = None"
  have "mset (List.map_filter id xs) = mset (List.map_filter id (take i xs)) + mset (List.map_filter id (drop (Suc i) xs))"
    by (subst id_take_nth_drop [OF i(1)]) (simp add: i(2) List.map_filter_def)
  then show ?thesis
    using i(1) by (simp add: upd_conv_take_nth_drop List.map_filter_def)
qed

lemma map_filter_id_update_None:
  "i < length xs \<Longrightarrow> xs ! i = Some a \<Longrightarrow> mset (List.map_filter id xs) = add_mset a (mset (List.map_filter id (xs[i := None])))"
  using map_filter_id_update_Some [of i "xs[i := None]" a] list_update_id [of xs i] by simp

lemma begin_facts:
  assumes "session_begin owner now timeout s = (Inr i, s')"
  shows "in_flight s' = add_mset (i, owner) (in_flight s) \<and> checked_add (session_next s) 1 = Some i
    \<and> session_next s' = i \<and> length (sess_pending s') = length (sess_pending s)"
proof -
  obtain k dl where k: "position (\<lambda>p. p = None) (sess_pending s) = Some k" "checked_add (session_next s) 1 = Some i"
      "s' = s\<lparr>sess_pending := (sess_pending s)[k := Some \<lparr>pr_id = i, pr_deadline = dl, pr_owner = owner\<rparr>], session_next := i\<rparr>"
    using assms by (auto simp: session_begin_def split: option.splits)
  have "k < length (sess_pending s)" "sess_pending s ! k = None" using position_SomeD [OF k(1)] by auto
  from map_filter_id_update_Some [OF this] show ?thesis
    using k by (simp add: in_flight_def)
qed

lemma take_pending_facts:
  assumes "take_pending P s = (r, s')"
  shows "session_next s' = session_next s \<and> length (sess_pending s') = length (sess_pending s)
    \<and> (case r of None \<Rightarrow> s' = s \<and> list_all (\<lambda>p. \<not> P p) (List.map_filter id (sess_pending s))
       | Some p \<Rightarrow> P p \<and> in_flight s = add_mset (pr_id p, pr_owner p) (in_flight s'))"
proof (cases "position (\<lambda>p. case p of None \<Rightarrow> False | Some r \<Rightarrow> P r) (sess_pending s)")
  case None
  then have "list_all (\<lambda>p. \<not> P p) (List.map_filter id (sess_pending s))"
    by (force simp: position_None_iff List.map_filter_def list_all_iff)
  then show ?thesis using assms None by (simp add: take_pending_def)
next
  case (Some k)
  then obtain p where p: "k < length (sess_pending s)" "sess_pending s ! k = Some p" "P p"
    using position_SomeD [OF Some] by (auto split: option.splits)
  have "in_flight s = add_mset (pr_id p, pr_owner p) (in_flight (s\<lparr>sess_pending := (sess_pending s)[k := None]\<rparr>))"
    using map_filter_id_update_None [OF p(1,2)] by (simp add: in_flight_def)
  moreover have "r = Some p" "s' = s\<lparr>sess_pending := (sess_pending s)[k := None]\<rparr>" using assms Some p by (auto simp: take_pending_def)
  ultimately show ?thesis using p(3) by simp
qed

lemma disconnect_facts:
  "in_flight (snd (session_disconnect s)) = {#} \<and> session_next (snd (session_disconnect s)) = session_next s
    \<and> length (sess_pending (snd (session_disconnect s))) = length (sess_pending s)"
  by (auto simp: session_disconnect_def in_flight_def List.map_filter_def filter_empty_conv)

lemma begin_full_same: "session_begin owner now timeout s = (Inl x, s') \<Longrightarrow> s' = s"
  by (auto simp: session_begin_def split: option.splits)

definition session_inv :: "session \<Rightarrow> (u64 \<times> u64) list \<Rightarrow> ((u64 \<times> u64) \<times> ending) list \<Rightarrow> bool" where
  "session_inv s b e \<longleftrightarrow> mset b = mset (map fst e) + in_flight s
    \<and> map (\<lambda>x. unat (fst x)) b = [1..<Suc (unat (session_next s))] \<and> length (sess_pending s) = MAX_PENDING"

lemma session_inv_take:
  assumes "session_inv s b e" and "take_pending P s = (r, s')"
  shows "case r of None \<Rightarrow> session_inv s' b e | Some p \<Rightarrow> session_inv s' b (e @ [((pr_id p, pr_owner p), k)])"
  using take_pending_facts [OF assms(2)] assms(1) by (auto simp: session_inv_def split: option.splits)

lemma session_trace_inv: "session_trace s b e \<Longrightarrow> session_inv s b e"
proof (induction rule: session_trace.induct)
  case fresh
  then show ?case by (simp add: session_inv_def session_new_def in_flight_def List.map_filter_def)
next
  case (begin_ok s b e owner now timeout i s')
  have "unat i = Suc (unat (session_next s))"
    using begin_facts [OF begin_ok(2)] checked_add_unat [of "session_next s" 1 i] by simp
  then show ?case
    using begin_facts [OF begin_ok(2)] begin_ok(3) by (auto simp: session_inv_def)
next
  case (begin_full s b e owner now timeout x s')
  then show ?case using begin_full_same by blast
next
  case (complete s b e i owner s')
  obtain p where p: "take_pending (\<lambda>p. pr_id p = i) s = (Some p, s')" "pr_owner p = owner"
    using complete(2) by (auto simp: session_complete_def split: prod.splits)
  then show ?case
    using session_inv_take [OF complete(3) p(1), of Completed] take_pending_facts [OF p(1)] by simp
next
  case (late s b e i s')
  then show ?case
    using session_inv_take [of s b e "\<lambda>p. pr_id p = i" None s'] by (auto simp: session_complete_def split: prod.splits)
next
  case (expire s b e now i owner s')
  then obtain p where p: "take_pending (\<lambda>p. pr_deadline p \<le> now) s = (Some p, s')" "pr_id p = i" "pr_owner p = owner"
    by (auto simp: session_expire_def split: prod.splits)
  then show ?case using session_inv_take [OF expire(3) p(1), of Expired] by simp
next
  case (quiet s b e now s')
  then show ?case
    using session_inv_take [of s b e "\<lambda>p. pr_deadline p \<le> now" None s'] by (auto simp: session_expire_def split: prod.splits)
next
  case (disconnect s b e owners s')
  then have "s' = snd (session_disconnect s)" by simp
  then show ?case
    using disconnect_facts [of s] disconnect(3) by (simp add: session_inv_def in_flight_def comp_def)
qed

lemma in_flight_size: "size (in_flight s) \<le> length (sess_pending s)"
  unfolding in_flight_def List.map_filter_def size_mset length_map by (rule length_filter_le)

lemma complete_in_flight:
  assumes "(i, owner) \<in># in_flight s" and "\<And>x. count (image_mset fst (in_flight s)) x \<le> 1"
  shows "fst (session_complete i s) = Some owner"
proof -
  obtain r s' where t: "take_pending (\<lambda>p. pr_id p = i) s = (r, s')" by fastforce
  obtain p where p: "p \<in> set (List.map_filter id (sess_pending s))" "pr_id p = i" "pr_owner p = owner"
    using assms(1) by (auto simp: in_flight_def)
  have "r \<noteq> None" using take_pending_facts [OF t] p(1,2) by (auto simp: list_all_iff split: option.splits)
  then obtain q where q: "r = Some q" by blast
  then have f: "pr_id q = i" "in_flight s = add_mset (i, pr_owner q) (in_flight s')"
    using take_pending_facts [OF t] by auto
  have "pr_owner q = owner"
  proof (rule ccontr)
    assume "pr_owner q \<noteq> owner"
    then have "(i, owner) \<in># in_flight s'" using assms(1) f(2) by simp
    then have "i \<in># image_mset fst (in_flight s')" by force
    then have "0 < count (image_mset fst (in_flight s')) i" by (simp only: count_greater_zero_iff)
    moreover have "count (image_mset fst (in_flight s)) i = Suc (count (image_mset fst (in_flight s')) i)" using f(2) by simp
    ultimately show False using assms(2) [of i] by linarith
  qed
  then show ?thesis using t q by (simp add: session_complete_def)
qed

text \<open>C12: Every request has exactly one end. Along every sequence of begins, answers, timeouts and
  disconnects the identifiers handed out are 1, 2, 3 and so on, the requests begun are those that ended
  together with those still in the table, no request ended twice, at most 64 are in flight, and an answer
  to one that is in flight reaches the owner that began it.\<close>

theorem session_exactly_once:
  assumes "session_trace s begun ended"
  shows "map (\<lambda>x. unat (fst x)) begun = [1..<Suc (unat (session_next s))]
    \<and> mset begun = mset (map fst ended) + in_flight s \<and> distinct (map (fst \<circ> fst) ended)
    \<and> size (in_flight s) \<le> MAX_PENDING
    \<and> (\<forall>(i, owner) \<in># in_flight s. fst (session_complete i s) = Some owner)"
proof -
  note inv = session_trace_inv [OF assms, unfolded session_inv_def]
  let ?flight = "map (\<lambda>p. (pr_id p, pr_owner p)) (List.map_filter id (sess_pending s))"
  have "distinct (map unat (map fst begun))" using inv by (simp add: comp_def)
  then have "distinct (map fst begun)" using distinct_map by blast
  moreover have "mset (map fst begun) = mset (map fst (map fst ended @ ?flight))"
    using inv by (simp add: in_flight_def image_mset.compositionality)
  ultimately have d: "distinct (map fst (map fst ended @ ?flight))" using mset_eq_imp_distinct_iff by blast
  have "distinct (map (fst \<circ> fst) ended)" using d by (simp add: comp_def)
  moreover have "count (image_mset fst (in_flight s)) x \<le> 1" for x
  proof -
    have "image_mset fst (in_flight s) = mset (map fst ?flight)" by (simp add: in_flight_def image_mset.compositionality)
    moreover have "distinct (map fst ?flight)" using d by (simp add: comp_def)
    ultimately show ?thesis by (simp add: distinct_count_atmost_1)
  qed
  moreover have "size (in_flight s) \<le> MAX_PENDING" using in_flight_size [of s] inv by simp
  moreover have "\<forall>(i, owner) \<in># in_flight s. fst (session_complete i s) = Some owner"
    using complete_in_flight calculation(2) by blast
  ultimately show ?thesis using inv by blast
qed

theorem session_exactly_once_witness:
  "let s1 = snd (session_begin 7 0 10 session_new); s2 = snd (session_begin 9 5 10 s1); s3 = snd (session_complete 1 s2)
   in fst (session_complete 1 s2) = Some 7 \<and> in_flight s3 = {#(2, 9)#} \<and> fst (session_complete 2 s3) = Some 9"
proof -
  let ?s1 = "snd (session_begin 7 0 10 session_new)"
  let ?s2 = "snd (session_begin 9 5 10 ?s1)"
  let ?s3 = "snd (session_complete 1 ?s2)"
  have f: "fst (session_begin 7 0 10 session_new) = Inr 1" "fst (session_begin 9 5 10 ?s1) = Inr 2"
      "fst (session_complete 1 ?s2) = Some 7"
    by code_simp+
  have "session_trace ?s1 ([] @ [(1, 7)]) []" using f(1) by (intro begin_ok [OF fresh]) (rule prod_eqI; simp)
  from begin_ok [OF this] have "session_trace ?s2 [(1, 7), (2, 9)] []" using f(2) by (metis append_Cons append_Nil prod.collapse)
  from complete [OF this] have t: "session_trace ?s3 [(1, 7), (2, 9)] [((1, 7), Completed)]"
    using f(3) by (metis append_Nil prod.collapse)
  note once = session_exactly_once [OF t]
  then have "add_mset (1, 7) {#(2, 9)#} = add_mset (1, 7) (in_flight ?s3)" by (simp add: add_mset_commute)
  then have "in_flight ?s3 = {#(2, 9)#}" by simp
  then show ?thesis using once f(3) by (simp add: Let_def)
qed

end
