(* ===== verification/AppRuntime.thy ===== *)
theory AppRuntime
  imports AppGroups Session StoreReports
begin

text \<open>
  The controller's side of one app, \<open>App\<close> of \<^verbatim>\<open>crates/runtime/src/lib.rs\<close>, and the mutations an app may ask for,
  \<^verbatim>\<open>crates/runtime/src/mutations.rs\<close>. The app, the store and the frames to send are passed along; an operation that
  fails half-way keeps what it changed before. Shown here: an app can change the store only after its greeting,
  by one operation in its own name or by an image ticket, which it may ask for any device; every request gets one
  answer, after the events it caused.
\<close>

definition MAX_OUTBOX :: nat where "MAX_OUTBOX = 64"
definition MAX_STARTUP :: nat where "MAX_STARTUP = 8193"

text \<open>\<open>CARGO_PKG_VERSION\<close> of the workspace.\<close>

definition CARGO_PKG_VERSION :: string where "CARGO_PKG_VERSION = ''3.0.37''"

text \<open>The list of callbacks still to make is a stack: the last entry goes first.\<close>

record app =
  a_id :: string
  a_manifest :: jvalue
  a_welcomed :: bool
  a_running :: bool
  a_startup :: "(string \<times> jvalue) list"
  a_pending :: session
  a_cursor :: u64
  a_known :: "string list"
  a_initializing :: bool
  a_groups :: "group list"
  a_manual :: bool

record completion =
  done_owner :: u64
  done_failed :: bool
  done_value :: jvalue

record received =
  rc_outgoing :: "jvalue list"
  rc_completed :: "completion option"

definition app_new :: "string \<Rightarrow> jvalue \<Rightarrow> app result" where
  "app_new i manifest =
     bindR (manifest_validate manifest) (\<lambda>_.
     if j_text manifest ''id'' \<noteq> i then Inl (Invalid ''manifest belongs to another app'')
     else Inr \<lparr>a_id = i, a_manifest = manifest, a_welcomed = False, a_running = False, a_startup = [],
               a_pending = session_new, a_cursor = 0, a_known = [], a_initializing = False, a_groups = [], a_manual = False\<rparr>)"

definition app_manual :: "string \<Rightarrow> jvalue \<Rightarrow> app result" where
  "app_manual i manifest = bindR (app_new i manifest) (\<lambda>a. Inr (a\<lparr>a_manual := True\<rparr>))"

section \<open>Mutations\<close>

definition app_field :: "'s store \<Rightarrow> string \<Rightarrow> string \<Rightarrow> jvalue" where
  "app_field s field i = (case Option.bind (j_get (config s) field) (\<lambda>v. j_get v i) of Some v \<Rightarrow> v | None \<Rightarrow> j_object)"

definition merge_patch :: "object \<Rightarrow> jvalue \<Rightarrow> jvalue result" where
  "merge_patch patch target = foldR (\<lambda>(k, v) t. j_set t k v) patch target"

definition set_device_field :: "jvalue \<Rightarrow> jvalue \<Rightarrow> jvalue result" where
  "set_device_field params d =
     (let field = j_text params ''field'' in
      bindR (ok_or (j_get params ''value'') (Missing ''device value is required'')) (\<lambda>v.
        if (field \<in> {''name'', ''class'', ''unavailableMessage''} \<and> as_str v \<noteq> None) \<or> (field = ''available'' \<and> as_bool v \<noteq> None)
        then j_set d field v else Inl (Invalid ''device field cannot be set to that value'')))"

definition merge_device_field :: "jvalue \<Rightarrow> jvalue \<Rightarrow> jvalue result" where
  "merge_device_field params d =
     (let field = j_text params ''field'' in
      if field \<notin> {''settings'', ''store'', ''state''} then Inl (Invalid ''device field is not a map'')
      else bindR (ok_or (Option.bind (j_get params ''patch'') as_object) (Invalid ''device patch must be an object'')) (\<lambda>patch.
        bindR (merge_patch patch (case j_get d field of Some v \<Rightarrow> v | None \<Rightarrow> j_object)) (\<lambda>target. j_set d field target)))"

definition change_capability :: "bool \<Rightarrow> jvalue \<Rightarrow> jvalue \<Rightarrow> jvalue result" where
  "change_capability add params d =
     (let cap = j_text params ''capability'' in
      if cap = [] then Inl (Invalid ''capability id is required'')
      else bindR (foldR (\<lambda>v out. j_push out v 1024) (filter (\<lambda>v. as_str v \<noteq> Some cap) (j_array d ''capabilities'')) []) (\<lambda>caps0.
        bindR (if add then j_push caps0 (String cap) 1024 else Inr caps0) (\<lambda>caps.
        j_set d ''capabilities'' (Array caps))))"

definition mutated_device :: "string \<Rightarrow> jvalue \<Rightarrow> jvalue \<Rightarrow> jvalue result" where
  "mutated_device method params d =
     (if method = ''device.set'' then set_device_field params d
      else if method = ''device.merge'' then merge_device_field params d
      else if method = ''capability.add'' \<or> method = ''capability.remove'' then change_capability (method = ''capability.add'') params d
      else Inl (Invalid ''unknown device operation''))"

text \<open>
  \<open>device\<close>: the answer is the list of frames with the event added. The last three lines run after the store
  was changed.
\<close>

definition device_mutation :: "'s save \<Rightarrow> string \<Rightarrow> string \<Rightarrow> jvalue \<Rightarrow> string \<Rightarrow> jvalue list \<Rightarrow> 's store \<Rightarrow> ('s, jvalue list) outcome" where
  "device_mutation save app method params now out s =
     (let i = j_text params ''deviceId''; field = j_text params ''field'' in
      prepare (bindR (device s i) (\<lambda>d.
          if j_text d ''appId'' \<noteq> app then Inl (Invalid ''device belongs to another app'') else mutated_device method params d))
        (\<lambda>d s.
          after (if field \<in> {''state'', ''available'', ''unavailableMessage''}
                 then prepare (ok_or (j_get d ''state'') (Missing ''device state''))
                   (\<lambda>state s. observe app i state (j_boolean d ''available'') (j_text d ''unavailableMessage'') s) s
                 else put save ''devices'' d False None now s)
            (\<lambda>s. (bindR (device s i) (\<lambda>updated.
               j_push out (frame_request 0 ''state.device'' (j_fields [(''deviceId'', String i), (''device'', updated)])) MAX_OUTBOX), s))) s)"

definition quiet_out :: "jvalue list \<Rightarrow> ('s, unit) outcome \<Rightarrow> ('s, jvalue \<times> jvalue list) outcome" where
  "quiet_out out m = after m (\<lambda>s. (Inr (Null, out), s))"

text \<open>The answer is the value for the app and the frames to send before it.\<close>

definition dispatch :: "'s save \<Rightarrow> string \<Rightarrow> string \<Rightarrow> jvalue \<Rightarrow> string \<Rightarrow> u64 \<Rightarrow> string \<Rightarrow> jvalue list \<Rightarrow> 's store
    \<Rightarrow> ('s, jvalue \<times> jvalue list) outcome" where
  "dispatch save app method params now clock new_id out s =
     (if method = ''images.list'' then (bindR (image_sources s) (\<lambda>v. Inr (v, out)), s)
      else if method = ''image.url'' then
        (case share_image new_id (j_text params ''deviceId'') (j_text params ''slot'') clock s of
           (Inl e, s') \<Rightarrow> (Inl e, s') | (Inr v, s') \<Rightarrow> (Inr (v, out), s'))
      else if method = ''device.replace'' then
        quiet_out out (replace_references save app (j_field params ''replacements'') now s)
      else if method = ''flow.trigger'' then quiet_out out (trigger app params s)
      else if method = ''media.register'' then quiet_out out (register_media app params s)
      else if method \<in> {''device.set'', ''device.merge'', ''capability.add'', ''capability.remove''} then
        (case device_mutation save app method params now out s of
           (Inl e, s') \<Rightarrow> (Inl e, s') | (Inr out', s') \<Rightarrow> (Inr (Null, out'), s'))
      else if method = ''setting.set'' \<or> method = ''setting.unset'' then
        (let key = j_text params ''key'' in
         if key = [] then (Inl (Invalid ''setting key is required''), s)
         else after (setting save app key (if method = ''setting.set'' then Some (j_field params ''value'') else None) s)
           (\<lambda>s. (bindR (j_push out (frame_request 0 ''state.settings'' (app_field s ''appSettings'' app)) MAX_OUTBOX)
                   (\<lambda>out'. Inr (Null, out')), s)))
      else if method = ''state.set'' then quiet_out out (set_app_state save app (j_field params ''state'') s)
      else if method = ''notification'' then
        quiet_out out (put save ''notifications''
          (j_fields [(''id'', String new_id), (''appId'', String app), (''excerpt'', String (j_text params ''excerpt''))]) True None now s)
      else if method = ''capability.options'' then
        (Inl (Invalid ''capability options are declared in app.json and cannot be set at runtime''), s)
      else (Inl (Invalid ''unknown app method''), s))"

section \<open>The greeting and the start\<close>

definition own_devices :: "'s store \<Rightarrow> string \<Rightarrow> jvalue list" where
  "own_devices s i = filter (\<lambda>d. j_text d ''appId'' = i) (doc_records (config s) ''devices'')"

definition app_welcome :: "app \<Rightarrow> 's store \<Rightarrow> jvalue result" where
  "app_welcome a s =
     bindR (doc_record (config s) ''apps'' (a_id a)) (\<lambda>record.
     if (\<not> a_manual a \<and> \<not> j_boolean record ''enabled'') \<or> j_boolean record ''offered'' then Inl (Invalid ''app is not enabled'')
     else bindR (foldR (\<lambda>d ds. bindR (device s (j_text d ''id'')) (\<lambda>v. Inr (obj_push ds (j_text d ''id'') v))) (own_devices s (a_id a)) []) (\<lambda>devices.
     Inr (j_fields [(''protocol'', uint_value 1), (''appId'', String (a_id a)), (''stulpId'', String ''stulp''),
       (''stulpVersion'', String CARGO_PKG_VERSION), (''language'', String (language s)), (''timezone'', String (timezone s)),
       (''manifest'', a_manifest a), (''env'', j_object), (''locale'', j_object), (''devices'', Object devices),
       (''settings'', app_field s ''appSettings'' (a_id a)), (''appState'', app_field s ''appState'' (a_id a))])))"

text \<open>The known devices are pushed on the app itself and stay there when a later push fails.\<close>

fun startup_calls :: "jvalue list \<Rightarrow> string list \<Rightarrow> (string \<times> jvalue) list \<Rightarrow> (string \<times> jvalue) list result \<times> string list" where
  "startup_calls [] known st = (Inr st, known)"
| "startup_calls (d # ds) known st =
     (case j_push known (j_text d ''id'') 4096 of
        Inl e \<Rightarrow> (Inl e, known)
      | Inr known' \<Rightarrow>
          (case bindR (j_push st (''driver.init'', j_fields [(''driverId'', String (j_text d ''driverId''))]) MAX_STARTUP) (\<lambda>st1.
             j_push st1 (''device.init'', j_fields [(''driverId'', String (j_text d ''driverId'')), (''deviceId'', String (j_text d ''id''))]) MAX_STARTUP) of
             Inl e \<Rightarrow> (Inl e, known')
           | Inr st' \<Rightarrow> startup_calls ds known' st'))"

definition prepare_startup :: "'s store \<Rightarrow> app \<Rightarrow> unit result \<times> app" where
  "prepare_startup s a =
     (case j_push [] (''app.init'', j_object) MAX_STARTUP of
        Inl e \<Rightarrow> (Inl e, a)
      | Inr st0 \<Rightarrow>
          (case startup_calls (own_devices s (a_id a)) (a_known a) st0 of
             (Inl e, known) \<Rightarrow> (Inl e, a\<lparr>a_known := known\<rparr>)
           | (Inr st, known) \<Rightarrow> (Inr (), a\<lparr>a_known := known, a_startup := rev st\<rparr>)))"

definition start_next :: "u64 \<Rightarrow> jvalue list \<Rightarrow> app \<Rightarrow> jvalue list result \<times> app" where
  "start_next now out a =
     (if a_startup a = [] then (Inr out, a\<lparr>a_running := True, a_initializing := False\<rparr>)
      else let (m, params) = last (a_startup a);
               a1 = a\<lparr>a_startup := butlast (a_startup a), a_initializing := True\<rparr> in
        (case session_begin 0 now 30000 (a_pending a1) of
           (Inl e, se) \<Rightarrow> (Inl e, a1\<lparr>a_pending := se\<rparr>)
         | (Inr i, se) \<Rightarrow> (j_push out (frame_request i m params) MAX_OUTBOX, a1\<lparr>a_pending := se\<rparr>)))"

section \<open>Receiving\<close>

definition app_request :: "'s save \<Rightarrow> frame \<Rightarrow> u64 \<Rightarrow> string \<Rightarrow> string \<Rightarrow> app \<Rightarrow> 's store
    \<Rightarrow> (jvalue \<times> jvalue list) result \<times> app \<times> 's store" where
  "app_request save f now_ms now new_id a s =
     (let params = j_field (frame_value f) ''p'' in
      if frame_method f = ''$appproto.ping'' then (Inr (Null, []), a, s)
      else if frame_method f = ''hello'' then
        (if a_welcomed a then (Inl (Conflict ''app already said hello''), a, s)
         else if j_uint params ''protocol'' \<noteq> 1 then (Inl (Invalid ''app protocol version mismatch''), a, s)
         else case app_welcome a s of
           Inl e \<Rightarrow> (Inl e, a, s)
         | Inr w \<Rightarrow> (case prepare_startup s a of
             (Inl e, a1) \<Rightarrow> (Inl e, a1, s)
           | (Inr _, a1) \<Rightarrow> (Inr (w, []), a1\<lparr>a_welcomed := True\<rparr>, s)))
      else if \<not> a_welcomed a then (Inl (Invalid ''app must say hello first''), a, s)
      else case dispatch save (a_id a) (frame_method f) params now now_ms new_id [] s of (r, s') \<Rightarrow> (r, a, s'))"

definition complete_reply :: "u64 \<Rightarrow> frame \<Rightarrow> completion" where
  "complete_reply owner f =
     \<lparr>done_owner = owner, done_failed = (frame_kind_of f = ErrorFrame),
      done_value = j_field (frame_value f) (if frame_kind_of f = ErrorFrame then ''e'' else ''r'')\<rparr>"

definition app_reply :: "frame \<Rightarrow> u64 \<Rightarrow> app \<Rightarrow> (completion option \<times> jvalue list) result \<times> app" where
  "app_reply f now a0 =
     (case session_complete (frame_id f) (a_pending a0) of
        (None, se) \<Rightarrow> (Inr (None, []), a0\<lparr>a_pending := se\<rparr>)
      | (Some owner, se) \<Rightarrow>
          let a = a0\<lparr>a_pending := se\<rparr> in
          if owner = 0 then
            (if frame_kind_of f = ErrorFrame then (Inl (Invalid ''app initialization callback failed''), a)
             else case start_next now [] a of (Inl e, a1) \<Rightarrow> (Inl e, a1) | (Inr out, a1) \<Rightarrow> (Inr (None, out), a1))
          else (case position (\<lambda>g. grp_owner g = owner) (a_groups a) of
            None \<Rightarrow> (Inr (Some (complete_reply owner f), []), a)
          | Some k \<Rightarrow>
              let a1 = a\<lparr>a_groups := take k (a_groups a) @ drop (Suc k) (a_groups a)\<rparr> in
              (case group_reply f (a_groups a ! k) of
                 Inl e \<Rightarrow> (Inl e, a1)
               | Inr (Original, _) \<Rightarrow> (Inr (Some (complete_reply owner f), []), a1)
               | Inr (Done v, _) \<Rightarrow> (Inr (Some \<lparr>done_owner = owner, done_failed = False, done_value = v\<rparr>, []), a1)
               | Inr (Call params, g) \<Rightarrow>
                   if grp_deadline g \<le> now then
                     (Inr (Some \<lparr>done_owner = owner, done_failed = True,
                        done_value = j_fields [(''message'', String ''grouped capability callback timed out'')]\<rparr>, []), a1)
                   else (case session_begin owner now (grp_deadline g - now) (a_pending a1) of
                     (Inl e, se1) \<Rightarrow> (Inl e, a1\<lparr>a_pending := se1\<rparr>)
                   | (Inr i, se1) \<Rightarrow>
                       (case j_push [] (frame_request i ''capability.invoke'' params) MAX_OUTBOX of
                          Inr out \<Rightarrow> (Inr (None, out), a1\<lparr>a_pending := se1, a_groups := a_groups a1 @ [g]\<rparr>)
                        | Inl e \<Rightarrow> (Inl e, a1\<lparr>a_pending := snd (session_complete i se1)\<rparr>))))))"

text \<open>
  A mutation adds its event as its last step, so a request that fails has no frame before its answer.
\<close>

definition app_receive :: "'s save \<Rightarrow> frame \<Rightarrow> u64 \<Rightarrow> string \<Rightarrow> string \<Rightarrow> app \<Rightarrow> 's store \<Rightarrow> received result \<times> app \<times> 's store" where
  "app_receive save f now_ms now new_id a s =
     (if frame_kind_of f = Response \<or> frame_kind_of f = ErrorFrame then
        (case app_reply f now_ms a of
           (Inl e, a1) \<Rightarrow> (Inl e, a1, s)
         | (Inr (c, out), a1) \<Rightarrow> (Inr \<lparr>rc_outgoing = out, rc_completed = c\<rparr>, a1, s))
      else if frame_kind_of f \<noteq> Request then (Inl (Invalid ''app must send requests''), a, s)
      else
        let first_hello = (frame_method f = ''hello'' \<and> \<not> a_welcomed a) in
        (case app_request save f now_ms now new_id a s of (outcome, a1, s1) \<Rightarrow>
          (case (case outcome of
                   Inr (v, out) \<Rightarrow> bindR (frame_response (frame_id f) (Inr v)) (\<lambda>x. j_push out x MAX_OUTBOX)
                 | Inl e \<Rightarrow> bindR (frame_response (frame_id f) (Inl (error_text e))) (\<lambda>x. j_push [] x MAX_OUTBOX)) of
             Inl e \<Rightarrow> (Inl e, a1, s1)
           | Inr out1 \<Rightarrow>
               (case (if first_hello \<and> is_ok outcome then start_next now_ms out1 a1 else (Inr out1, a1)) of
                  (Inl e, a2) \<Rightarrow> (Inl e, a2, s1)
                | (Inr out2, a2) \<Rightarrow>
                    (Inr \<lparr>rc_outgoing = out2, rc_completed = None\<rparr>, a2\<lparr>a_cursor := sequence s1\<rparr>, s1)))))"

section \<open>Calls\<close>

definition callback_timeout :: "string \<Rightarrow> u64" where
  "callback_timeout m =
     (if m = ''video.resolve'' then 60000
      else if m = ''pair.list'' \<or> m = ''pair.emit'' \<or> m = ''api.invoke'' then 90000 else 30000)"

definition callback_timeout_for :: "string \<Rightarrow> string \<Rightarrow> jvalue \<Rightarrow> u64" where
  "callback_timeout_for app m params =
     (if app = ''com.stulp.sigenergy'' \<and> (m = ''pair.list'' \<or> (m = ''pair.emit'' \<and> j_text params ''event'' = ''list_devices'')
          \<or> (m = ''api.invoke'' \<and> j_text params ''handler'' = ''test''))
      then 900000 else callback_timeout m)"

definition app_call :: "u64 \<Rightarrow> string \<Rightarrow> jvalue \<Rightarrow> u64 \<Rightarrow> app \<Rightarrow> jvalue result \<times> app" where
  "app_call owner m params now a =
     (if \<not> a_running a then (Inl (Invalid ''app is not running''), a)
      else if owner = 0 then (Inl (Invalid ''request owner zero is reserved''), a)
      else case (if m = ''capabilities.invoke'' then
                   (if MAX_PENDING \<le> length (a_groups a) \<or> list_ex (\<lambda>g. grp_owner g = owner) (a_groups a) then Inl Full
                    else bindR (group_new owner now params) (\<lambda>g. Inr [g]))
                 else Inr []) of
          Inl e \<Rightarrow> (Inl e, a)
        | Inr new \<Rightarrow>
            (case session_begin owner now (callback_timeout_for (a_id a) m params) (a_pending a) of
               (Inl e, se) \<Rightarrow> (Inl e, a\<lparr>a_pending := se\<rparr>)
             | (Inr i, se) \<Rightarrow> (Inr (frame_request i m params), a\<lparr>a_pending := se, a_groups := a_groups a @ new\<rparr>)))"

definition state_device :: "string \<Rightarrow> jvalue \<Rightarrow> jvalue" where
  "state_device i d = frame_request 0 ''state.device'' (j_fields [(''deviceId'', String i), (''device'', d)])"

definition app_adopt :: "jvalue \<Rightarrow> app \<Rightarrow> jvalue result \<times> app" where
  "app_adopt d a =
     (let i = j_text d ''id'' in
      if \<not> a_running a \<or> j_text d ''appId'' \<noteq> a_id a \<or> i = [] then (Inl (Invalid ''device cannot be adopted by this app''), a)
      else if i \<in> set (a_known a) then (Inr (state_device i d), a)
      else case j_push (a_known a) i 4096 of
        Inl e \<Rightarrow> (Inl e, a)
      | Inr known \<Rightarrow> (Inr (state_device i d), a\<lparr>a_known := known\<rparr>))"

definition follow_settings :: "'s store \<Rightarrow> event \<Rightarrow> app \<Rightarrow> jvalue list \<Rightarrow> jvalue list result" where
  "follow_settings s e a out =
     (if ev_manager e = ''apps'' \<and> ev_kind e = ''app.settings'' \<and> ev_id e = a_id a
      then j_push out (frame_request 0 ''state.settings'' (app_field s ''appSettings'' (a_id a))) MAX_OUTBOX else Inr out)"

text \<open>The device an event is about as the app should see it: \<open>None\<close> when the event does not concern it.\<close>

definition followed_device :: "'s store \<Rightarrow> event \<Rightarrow> app \<Rightarrow> jvalue option result" where
  "followed_device s e a =
     (case device s (ev_id e) of
        Inr d \<Rightarrow> Inr (if j_text d ''appId'' = a_id a then Some d else None)
      | Inl (Missing _) \<Rightarrow> Inr (if ev_id e \<in> set (a_known a) then Some Null else None)
      | Inl x \<Rightarrow> Inl x)"

definition follow_new :: "string \<Rightarrow> jvalue \<Rightarrow> app \<Rightarrow> unit result \<times> app" where
  "follow_new i d a =
     (case j_push (a_known a) i 4096 of
        Inl e \<Rightarrow> (Inl e, a)
      | Inr known \<Rightarrow>
          let a1 = a\<lparr>a_known := known\<rparr> in
          if MAX_STARTUP < length (a_startup a) + 2 then (Inl Full, a1)
          else let driver = j_fields [(''driverId'', String (j_text d ''driverId''))] in
            (case j_set driver ''deviceId'' (String i) of
               Inl e \<Rightarrow> (Inl e, a1)
             | Inr params \<Rightarrow> (Inr (), a1\<lparr>a_startup := (''device.init'', params) # (''driver.init'', driver) # a_startup a\<rparr>)))"

definition follow_event :: "'s store \<Rightarrow> event \<Rightarrow> app \<Rightarrow> jvalue list \<Rightarrow> jvalue list result \<times> app" where
  "follow_event s e a out0 =
     (case follow_settings s e a out0 of
        Inl x \<Rightarrow> (Inl x, a)
      | Inr out \<Rightarrow>
          if ev_manager e \<noteq> ''devices'' then (Inr out, a)
          else (case followed_device s e a of
            Inl x \<Rightarrow> (Inl x, a)
          | Inr None \<Rightarrow> (Inr out, a)
          | Inr (Some d) \<Rightarrow>
              (case j_push out (state_device (ev_id e) d) MAX_OUTBOX of
                 Inl x \<Rightarrow> (Inl x, a)
               | Inr out1 \<Rightarrow>
                   if is_null d then (Inr out1, a\<lparr>a_known := filter (\<lambda>i. i \<noteq> ev_id e) (a_known a)\<rparr>)
                   else if ev_id e \<in> set (a_known a) then (Inr out1, a)
                   else (case follow_new (ev_id e) d a of (Inl x, a1) \<Rightarrow> (Inl x, a1) | (Inr _, a1) \<Rightarrow> (Inr out1, a1)))))"

fun follow_events :: "'s store \<Rightarrow> event list \<Rightarrow> app \<Rightarrow> jvalue list \<Rightarrow> jvalue list result \<times> app" where
  "follow_events s [] a out = (Inr out, a)"
| "follow_events s (e # es) a out =
     (case follow_event s e a out of (Inl x, a1) \<Rightarrow> (Inl x, a1) | (Inr out1, a1) \<Rightarrow> follow_events s es a1 out1)"

definition app_follow :: "'s store \<Rightarrow> u64 \<Rightarrow> app \<Rightarrow> jvalue list result \<times> app" where
  "app_follow s now a =
     (if \<not> a_welcomed a then (Inr [], a)
      else case events_after s (a_cursor a) of
        Inl e \<Rightarrow> (Inl e, a)
      | Inr es \<Rightarrow>
          (case follow_events s es a [] of
             (Inl e, a1) \<Rightarrow> (Inl e, a1)
           | (Inr out, a1) \<Rightarrow>
               (case (if \<not> a_initializing a1 \<and> a_startup a1 \<noteq> [] then start_next now out a1 else (Inr out, a1)) of
                  (Inl e, a2) \<Rightarrow> (Inl e, a2)
                | (Inr out2, a2) \<Rightarrow> (Inr out2, a2\<lparr>a_cursor := sequence s\<rparr>))))"

definition app_cancel :: "u64 \<Rightarrow> app \<Rightarrow> app" where
  "app_cancel i a =
     (case session_complete i (a_pending a) of
        (None, se) \<Rightarrow> a\<lparr>a_pending := se\<rparr>
      | (Some owner, se) \<Rightarrow> a\<lparr>a_pending := se, a_groups := filter (\<lambda>g. grp_owner g \<noteq> owner) (a_groups a)\<rparr>)"

definition app_disconnect :: "app \<Rightarrow> u64 list \<times> app" where
  "app_disconnect a = (case session_disconnect (a_pending a) of (owners, se) \<Rightarrow> (owners, a\<lparr>a_pending := se, a_groups := []\<rparr>))"

definition app_expire :: "u64 \<Rightarrow> app \<Rightarrow> u64 option \<times> app" where
  "app_expire now a =
     (case session_expire now (a_pending a) of
        (None, se) \<Rightarrow> (None, a\<lparr>a_pending := se\<rparr>)
      | (Some (_, owner), se) \<Rightarrow> (Some owner, a\<lparr>a_pending := se, a_groups := filter (\<lambda>g. grp_owner g \<noteq> owner) (a_groups a)\<rparr>))"

section \<open>What an app can change\<close>

text \<open>The operations of the store an app may cause in its own name.\<close>

definition app_op :: "string \<Rightarrow> 's store \<Rightarrow> store_op \<Rightarrow> bool" where
  "app_op app s op \<longleftrightarrow>
     (case op of
        ReplaceReferences x _ _ \<Rightarrow> x = app
      | Trigger x _ \<Rightarrow> x = app
      | RegisterMedia x _ \<Rightarrow> x = app
      | Setting x _ _ \<Rightarrow> x = app
      | SetAppState x _ \<Rightarrow> x = app
      | Observe x i _ _ _ \<Rightarrow> x = app \<and> (\<exists>d. device s i = Inr d \<and> j_text d ''appId'' = app)
      | Put c r create rv _ \<Rightarrow>
          c = ''notifications'' \<and> create \<and> j_text r ''appId'' = app
          \<or> c = ''devices'' \<and> \<not> create \<and> j_text r ''appId'' = app
             \<and> (\<exists>d. device s (j_text r ''id'') = Inr d \<and> j_text d ''appId'' = app)
      | _ \<Rightarrow> False)"

text \<open>
  What a mutation did to the store: nothing, one of these operations, which succeeded when the answer is a success, or, for
  \<open>image.url\<close>, a new image ticket. The ticket may be for a device of another app: the code does not ask who owns the device.
\<close>

definition performs :: "'s save \<Rightarrow> string \<Rightarrow> 's store \<Rightarrow> bool \<Rightarrow> 's store \<Rightarrow> bool" where
  "performs save app s success s' \<longleftrightarrow> (\<exists>op u. app_op app s op \<and> run_op save op s = (u, s') \<and> (success \<longrightarrow> u = Inr ()))"

definition tickets :: "string \<Rightarrow> jvalue \<Rightarrow> u64 \<Rightarrow> 's store \<Rightarrow> bool \<Rightarrow> 's store \<Rightarrow> bool" where
  "tickets i params clock s success s' \<longleftrightarrow> s' = s\<lparr>images := images s'\<rparr>
     \<and> (success \<longrightarrow> (\<exists>v. share_image i (j_text params ''deviceId'') (j_text params ''slot'') clock s = (Inr v, s')))"

lemma device_texts:
  assumes "device s i = Inr d"
  shows "j_text d ''id'' = i"
proof -
  obtain r where r: "doc_record (config s) ''devices'' i = Inr r" using assms by (auto simp: device_def bindR_Inr_iff)
  have "j_text v ''id'' = j_text r ''id''" if "with_cache s i r = Inr v" for v
    using that by (auto simp: with_cache_def bindR_Inr_iff j_text_set split: option.splits prod.splits)
  then have "j_text d ''id'' = j_text r ''id''"
    using assms r by (auto simp: device_def bindR_Inr_iff Let_def j_text_set)
  then show ?thesis using doc_record_Inr [OF r] by simp
qed

lemma set_device_field_text:
  "set_device_field params d = Inr d' \<Longrightarrow> k \<in> {''id'', ''appId''} \<Longrightarrow> j_text d' k = j_text d k"
  by (auto simp: set_device_field_def Let_def bindR_Inr_iff j_text_set split: if_splits)

lemma merge_device_field_text:
  assumes "merge_device_field params d = Inr d'" and "k \<in> {''id'', ''appId''}"
  shows "j_text d' k = j_text d k"
proof -
  obtain v where "j_text params ''field'' \<in> {''settings'', ''store'', ''state''}" "j_set d (j_text params ''field'') v = Inr d'"
    using assms(1) by (auto simp: merge_device_field_def Let_def bindR_Inr_iff simp del: insert_iff split: if_splits)
  then show ?thesis using assms(2) by (auto simp: j_text_set)
qed

lemma change_capability_text:
  assumes "change_capability add params d = Inr d'" and "k \<in> {''id'', ''appId''}"
  shows "j_text d' k = j_text d k"
proof -
  obtain v where "j_set d ''capabilities'' v = Inr d'"
    using assms(1) unfolding change_capability_def Let_def by (cases "j_text params ''capability'' = []") (auto simp: bindR_Inr_iff)
  then show ?thesis using assms(2) by (auto simp: j_text_set)
qed

lemma mutated_device_text: "mutated_device m params d = Inr d' \<Longrightarrow> k \<in> {''id'', ''appId''} \<Longrightarrow> j_text d' k = j_text d k"
  unfolding mutated_device_def
  by (simp only: split: if_splits) (blast intro: set_device_field_text merge_device_field_text change_capability_text)+

lemma device_mutation_performs:
  assumes "device_mutation save app m params now out s = (r, s')"
  shows "s' = s \<and> \<not> is_ok r \<or> performs save app s (is_ok r) s'"
proof -
  let ?i = "j_text params ''deviceId''"
  let ?pick = "bindR (device s ?i) (\<lambda>d. if j_text d ''appId'' \<noteq> app then Inl (Invalid ''device belongs to another app'') else mutated_device m params d)"
  let ?rest = "\<lambda>s. (bindR (device s ?i) (\<lambda>updated.
      j_push out (frame_request 0 ''state.device'' (j_fields [(''deviceId'', String ?i), (''device'', updated)])) MAX_OUTBOX), s)"
  show ?thesis
  proof (cases ?pick)
    case (Inl e)
    then have "r = Inl e" "s' = s" using assms by (simp_all add: device_mutation_def Let_def prepare_def)
    then show ?thesis by (simp add: is_ok_def)
  next
    case (Inr d')
    then obtain d where d: "device s ?i = Inr d" "j_text d ''appId'' = app" "mutated_device m params d = Inr d'"
      by (auto simp: bindR_Inr_iff split: if_splits)
    show ?thesis
    proof (cases "j_text params ''field'' \<in> {''state'', ''available'', ''unavailableMessage''}")
      case True
      show ?thesis
      proof (cases "j_get d' ''state''")
        case None
        then show ?thesis using assms Inr True by (auto simp: device_mutation_def Let_def prepare_def after_def is_ok_def)
      next
        case (Some st)
        let ?op = "Observe app ?i st (j_boolean d' ''available'') (j_text d' ''unavailableMessage'')"
        have run: "(r, s') = after (run_op save ?op s) ?rest"
          using assms Inr True Some by (auto simp: device_mutation_def Let_def prepare_def)
        have "app_op app s ?op" using d by (simp add: app_op_def)
        moreover obtain u s1 where u: "run_op save ?op s = (u, s1)" by (cases "run_op save ?op s")
        moreover have "s' = s1 \<and> (is_ok r \<longrightarrow> u = Inr ())" using run u by (auto simp: after_def is_ok_def split: sum.splits)
        ultimately show ?thesis unfolding performs_def by blast
      qed
    next
      case False
      let ?op = "Put ''devices'' d' False None now"
      have run: "(r, s') = after (run_op save ?op s) ?rest"
        using assms Inr False by (auto simp: device_mutation_def Let_def prepare_def)
      have "j_text d' ''id'' = ?i" "j_text d' ''appId'' = app"
        using mutated_device_text [OF d(3)] device_texts [OF d(1)] d(2) by simp_all
      then have "app_op app s ?op" using d by (simp add: app_op_def)
      moreover obtain u s1 where u: "run_op save ?op s = (u, s1)" by (cases "run_op save ?op s")
      moreover have "s' = s1 \<and> (is_ok r \<longrightarrow> u = Inr ())" using run u by (auto simp: after_def is_ok_def split: sum.splits)
      ultimately show ?thesis unfolding performs_def by blast
    qed
  qed
qed

lemma performs_after:
  assumes "app_op app s op" and "after (run_op save op s) f = (r, s')" and "\<And>x. snd (f x) = x"
  shows "performs save app s (is_ok r) s'"
proof -
  obtain u s1 where u: "run_op save op s = (u, s1)" by (cases "run_op save op s")
  have "snd (f s1) = s1" by (rule assms(3))
  then have "s' = s1 \<and> (is_ok r \<longrightarrow> u = Inr ())" using assms(2) u by (auto simp: after_def is_ok_def split: sum.splits)
  then show ?thesis using assms(1) u unfolding performs_def by blast
qed

lemma quiet_out_performs: "app_op app s op \<Longrightarrow> quiet_out out (run_op save op s) = (r, s') \<Longrightarrow> performs save app s (is_ok r) s'"
  unfolding quiet_out_def by (erule (1) performs_after) (rule snd_conv)

lemma share_image_tickets:
  assumes "(case share_image i (j_text params ''deviceId'') (j_text params ''slot'') clock s of
      (Inl e, s') \<Rightarrow> (Inl e, s') | (Inr v, s') \<Rightarrow> (Inr (v, out), s')) = (r, s')"
  shows "tickets i params clock s (is_ok r) s'"
proof -
  have "s1 = s\<lparr>images := images s1\<rparr>" if "share_image i dev sl clock s = (u, s1)" for dev sl u s1
    using that by (auto simp: share_image_def prepare_def split: sum.splits)
  then show ?thesis
    using assms by (cases "share_image i (j_text params ''deviceId'') (j_text params ''slot'') clock s")
      (auto simp: tickets_def is_ok_def split: sum.splits)
qed

lemma setting_performs:
  assumes "after (setting save app k v s) (\<lambda>s. (f s, s)) = (r, s')"
  shows "performs save app s (is_ok r) s'"
  using performs_after [of app s "Setting app k v" save "\<lambda>s. (f s, s)" r s'] assms by (simp add: app_op_def)

lemma dispatch_performs:
  assumes "dispatch save app m params now clock new_id out s = (r, s')"
  shows "s' = s \<and> (is_ok r \<longrightarrow> m = ''images.list'') \<or> performs save app s (is_ok r) s'
    \<or> m = ''image.url'' \<and> tickets new_id params clock s (is_ok r) s'"
proof -
  let ?note = "j_fields [(''id'', String new_id), (''appId'', String app), (''excerpt'', String (j_text params ''excerpt''))]"
  have nt: "app_op app s (Put ''notifications'' ?note True None now)"
    by (simp add: app_op_def j_fields_def obj_push_def j_text_def)
  have ops: "app_op app s (ReplaceReferences app x now)" "app_op app s (Trigger app x)" "app_op app s (RegisterMedia app x)"
    "app_op app s (SetAppState app x)" for x
    by (simp_all add: app_op_def)
  have mut: "s' = s \<and> (is_ok r \<longrightarrow> P) \<or> performs save app s (is_ok r) s'"
    if "(case device_mutation save app m params now out s of (Inl e, s') \<Rightarrow> (Inl e, s') | (Inr out', s') \<Rightarrow> (Inr (Null, out'), s')) = (r, s')" for P
  proof -
    obtain r0 s0 where d: "device_mutation save app m params now out s = (r0, s0)" by (cases "device_mutation save app m params now out s")
    then have "s' = s0" "is_ok r = is_ok r0" using that by (auto simp: is_ok_def split: sum.splits)
    then show ?thesis using device_mutation_performs [OF d] by auto
  qed
  note put_op = quiet_out_performs [OF nt, of out save r s', unfolded run_op.simps]
  note app_ops = ops [THEN quiet_out_performs, of out save _ r s', unfolded run_op.simps]
  have refused: "(Inl e, s) = (r, s') \<Longrightarrow> s' = s \<and> (is_ok r \<longrightarrow> P) \<or> performs save app s (is_ok r) s'" for e P
    by (auto simp: is_ok_def)
  have listed: "(v, s) = (r, s') \<Longrightarrow> s' = s \<and> (is_ok r \<longrightarrow> m' = m') \<or> performs save app s (is_ok r) s'" for v and m' :: string by auto
  show ?thesis
    using assms unfolding dispatch_def Let_def
    by (simp only: split: if_splits)
      (rule disjI2, rule disjI2, simp, erule share_image_tickets
       | rule disjI2, rule disjI1, (erule setting_performs put_op app_ops)
       | subst disj_assoc [symmetric], rule disjI1, (erule listed | erule refused | erule mut))+
qed

lemma app_op_not_restore: "app_op app s op \<Longrightarrow> op \<noteq> Restore bs"
  by (auto simp: app_op_def)

lemma performs_intact:
  assumes "performs save app s success s'" and "intact (config s)"
  shows "intact (config s')"
proof -
  obtain op u where op: "app_op app s op" "run_op save op s = (u, s')" using assms(1) by (auto simp: performs_def)
  have "\<forall>bs. op \<noteq> Restore bs" using app_op_not_restore [OF op(1)] by blast
  from run_op_intact [OF this, of save s] show ?thesis
    using assms(2) unfolding op(2) by (auto elim!: ends.cases simp: keeps_intact_def)
qed

lemma prepare_startup_id: "prepare_startup s a = (r, a') \<Longrightarrow> a_id a' = a_id a"
  by (auto simp: prepare_startup_def split: sum.splits prod.splits)

lemma start_next_id: "start_next now out a = (r, a') \<Longrightarrow> a_id a' = a_id a"
  by (auto simp: start_next_def Let_def split: sum.splits prod.splits if_splits)

lemma app_request_performs:
  assumes "app_request save f now_ms now new_id a s = (r, a', s')"
  shows "a_id a' = a_id a"
    and "s' = s \<and> (is_ok r \<longrightarrow> frame_method f \<in> {''$appproto.ping'', ''hello'', ''images.list''})
      \<or> a_welcomed a \<and> (performs save (a_id a) s (is_ok r) s'
           \<or> frame_method f = ''image.url'' \<and> tickets new_id (j_field (frame_value f) ''p'') now_ms s (is_ok r) s')"
proof -
  let ?p = "j_field (frame_value f) ''p''"
  show "a_id a' = a_id a"
    using assms prepare_startup_id unfolding app_request_def Let_def
    by (auto split: if_splits prod.splits sum.splits)
  show "s' = s \<and> (is_ok r \<longrightarrow> frame_method f \<in> {''$appproto.ping'', ''hello'', ''images.list''})
      \<or> a_welcomed a \<and> (performs save (a_id a) s (is_ok r) s'
           \<or> frame_method f = ''image.url'' \<and> tickets new_id (j_field (frame_value f) ''p'') now_ms s (is_ok r) s')"
  proof (cases "frame_method f \<in> {''$appproto.ping'', ''hello''} \<or> \<not> a_welcomed a")
    case True
    then have "s' = s" "is_ok r \<longrightarrow> frame_method f \<in> {''$appproto.ping'', ''hello''}"
      using assms unfolding app_request_def Let_def is_ok_def
      by (auto simp del: insert_iff split: if_splits prod.splits sum.splits)
    then show ?thesis by blast
  next
    case False
    then have "dispatch save (a_id a) (frame_method f) ?p now now_ms new_id [] s = (r, s')" "a_welcomed a"
      using assms unfolding app_request_def Let_def by (auto split: prod.splits)
    then show ?thesis using dispatch_performs by blast
  qed
qed

lemma app_receive_request:
  assumes "app_receive save f now_ms now new_id a s = (r, a', s')" and "frame_kind_of f = Request"
  obtains outcome a1 where "app_request save f now_ms now new_id a s = (outcome, a1, s')" and "a_id a' = a_id a1"
  using assms start_next_id unfolding app_receive_def Let_def
  by (cases "app_request save f now_ms now new_id a s") (auto split: prod.splits sum.splits if_splits)


definition hue_app :: app where
  "hue_app = \<lparr>a_id = ''hue'', a_manifest = Object [], a_welcomed = True, a_running = True, a_startup = [],
     a_pending = session_new, a_cursor = 0, a_known = [''lamp''], a_initializing = False, a_groups = [], a_manual = False\<rparr>"

definition hue_store :: "unit store" where
  "hue_store = store_with (Object [(''devices'', Array [Object [(''id'', String ''lamp''), (''appId'', String ''hue'')]])])"

definition media_request :: frame where
  "media_request = \<lparr>frame_kind_of = Request, frame_id = 5, frame_value = Object [(''m'', String ''media.register''),
     (''p'', Object [(''deviceId'', String ''lamp'')])]\<rparr>"

definition app_request_result :: "received result \<times> app \<times> unit store" where
  "app_request_result = app_receive memory_save media_request 0 [] [] hue_app hue_store"

lemma media_registered: "map fst (media (snd (snd app_request_result))) = [''lamp'']"
  "case fst app_request_result of Inl _ \<Rightarrow> False | Inr rc \<Rightarrow> map (\<lambda>v. j_text v ''t'') (rc_outgoing rc) = [''res'']"
  by code_simp+


text \<open>An app obtains a ticket for the camera of another app.\<close>

definition doorbell_store :: "unit store" where
  "doorbell_store = (store_with (Object [(''devices'', Array [Object [(''id'', String ''door''), (''appId'', String ''unifi'')]])]))
     \<lparr>apps := [\<lparr>app_id = ''unifi'', app_manifest = j_object, app_state = ''running'', app_details = j_object\<rparr>], media := [(''door'', Array [Object [(''kind'', String ''image''), (''slot'', String ''snapshot'')]])]\<rparr>"

lemma image_url_of_other_app:
  "map img_device (images (snd (dispatch memory_save ''hue'' ''image.url'' (Object [(''deviceId'', String ''door'')]) [] 0
     (replicate 32 CHR ''a'') [] doorbell_store))) = [''door'']"
  "map (\<lambda>d. j_text d ''appId'') (doc_records (config doorbell_store) ''devices'') = [''unifi'']"
proof -
  have "ticket_char CHR ''a''" by code_simp
  then have t: "list_all ticket_char (replicate 32 CHR ''a'')" by (simp add: list_all_iff)
  have m: "device_media doorbell_store ''door'' = Inr (Array [Object [(''kind'', String ''image''), (''slot'', String ''snapshot'')]])"
    by code_simp
  have f: "j_text (Object [(''deviceId'', String ''door'')]) ''deviceId'' = ''door''" "j_text (Object [(''deviceId'', String ''door'')]) ''slot'' = []"
    "j_text (Object [(''kind'', String ''image''), (''slot'', String ''snapshot'')]) ''kind'' = ''image''" by code_simp+
  have i: "images doorbell_store = []" by (simp add: doorbell_store_def)
  show "map img_device (images (snd (dispatch memory_save ''hue'' ''image.url'' (Object [(''deviceId'', String ''door'')]) [] 0
     (replicate 32 CHR ''a'') [] doorbell_store))) = [''door'']"
    by (simp add: dispatch_def share_image_def prepare_def t m f i keep_tickets_def)
  show "map (\<lambda>d. j_text d ''appId'') (doc_records (config doorbell_store) ''devices'') = [''unifi'']" by code_simp
qed

section \<open>Every request has one answer\<close>

definition event_frame :: "jvalue \<Rightarrow> bool" where
  "event_frame v \<longleftrightarrow> j_text v ''t'' = ''ev'' \<and> j_uint v ''id'' = 0"

lemma frame_request_texts:
  "j_text (frame_request i m p) ''t'' = (if i = 0 then ''ev'' else ''req'')" "j_uint (frame_request i m p) ''id'' = i"
  "j_text (frame_request i m p) ''m'' = m" "j_field (frame_request i m p) ''p'' = p"
  by (simp_all add: frame_request_def j_fields_def obj_push_def j_text_def j_uint_def j_field_def)

lemma frame_response_texts:
  assumes "frame_response i res = Inr v"
  shows "j_uint v ''id'' = i" "j_text v ''t'' = (if is_ok res then ''res'' else ''err'')"
  using assms
  by (auto simp: frame_response_def j_fields_def obj_push_def bindR_Inr_iff j_text_set j_uint_set is_ok_def j_uint_def j_get_set split: sum.splits)

lemma device_mutation_event:
  assumes "device_mutation save app m params now out s = (Inr out', s')"
  shows "\<exists>p. out' = out @ [frame_request 0 ''state.device'' p]"
  using assms unfolding device_mutation_def Let_def
  by (auto simp: prepare_def after_def bindR_Inr_iff j_push_Inr_iff split: sum.splits prod.splits if_splits)

lemma dispatch_events:
  assumes "dispatch save app m params now clock new_id [] s = (Inr (v, out), s')"
  shows "list_all event_frame out \<and> length out \<le> 1"
proof -
  let ?P = "\<lambda>out. list_all event_frame out \<and> length out \<le> 1"
  have ev: "?P [frame_request 0 x p]" for x p by (simp add: event_frame_def frame_request_texts)
  have a: "quiet_out [] q = (Inr (v, out), s') \<Longrightarrow> ?P out" for q
    by (auto simp: quiet_out_def after_def split: sum.splits prod.splits)
  have b: "(case device_mutation save app m params now [] s of (Inl e, s') \<Rightarrow> (Inl e, s') | (Inr out', s') \<Rightarrow> (Inr (Null, out'), s'))
      = (Inr (v, out), s') \<Longrightarrow> ?P out"
    using device_mutation_event [of save app m params now "[]" s] ev by (fastforce split: sum.splits prod.splits)
  have c: "(case share_image i dev sl clock s of (Inl e, s') \<Rightarrow> (Inl e, s') | (Inr v, s') \<Rightarrow> (Inr (v, []), s')) = (Inr (v, out), s')
      \<Longrightarrow> ?P out" for i dev sl
    by (auto split: sum.splits prod.splits)
  have d: "after q (\<lambda>s. (bindR (j_push [] (frame_request 0 x (p s)) MAX_OUTBOX) (\<lambda>out'. Inr (Null, out')), s)) = (Inr (v, out), s')
      \<Longrightarrow> ?P out" for q x and p :: "_ \<Rightarrow> jvalue"
    using ev by (auto simp: after_def bindR_Inr_iff j_push_Inr_iff split: sum.splits prod.splits)
  have e: "(Inl x, s) = (Inr (v, out), s') \<Longrightarrow> ?P out" for x by simp
  have l: "(bindR (image_sources s) (\<lambda>v. Inr (v, [])), s) = (Inr (v, out), s') \<Longrightarrow> ?P out"
    by (auto simp: bindR_Inr_iff)
  show ?thesis
    using assms unfolding dispatch_def Let_def by (simp only: split: if_splits) (erule a b c d e l)+
qed

lemma app_request_events:
  assumes "app_request save f now_ms now new_id a s = (Inr (v, out), a', s')"
  shows "list_all event_frame out \<and> length out \<le> 1"
  using assms unfolding app_request_def Let_def
  by (auto dest!: dispatch_events split: if_splits sum.splits prod.splits)

text \<open>The frames for an outcome, before a start follows.\<close>

definition answered :: "u64 \<Rightarrow> (jvalue \<times> jvalue list) result \<Rightarrow> jvalue list result" where
  "answered i outcome =
     (case outcome of
        Inr (v, out) \<Rightarrow> bindR (frame_response i (Inr v)) (\<lambda>x. j_push out x MAX_OUTBOX)
      | Inl e \<Rightarrow> bindR (frame_response i (Inl (error_text e))) (\<lambda>x. j_push [] x MAX_OUTBOX))"

section \<open>The connection before the greeting\<close>

text \<open>Before the greeting the controller has nothing in flight and the app does not run. Every operation keeps it so.\<close>

definition app_fresh :: "app \<Rightarrow> bool" where
  "app_fresh a \<longleftrightarrow> a_welcomed a \<or> a_pending a = session_new \<and> \<not> a_running a"

lemma position_replicate: "\<not> P x \<Longrightarrow> position P (replicate n x) = None"
  by (simp add: position_None_iff)

lemma session_new_idle:
  "session_complete i session_new = (None, session_new)" "session_expire now session_new = (None, session_new)"
  "snd (session_disconnect session_new) = session_new"
  by (simp_all add: session_complete_def session_expire_def session_disconnect_def take_pending_def session_new_def position_replicate)

lemma prepare_startup_frame:
  "prepare_startup s a = (r, a') \<Longrightarrow> a_welcomed a' = a_welcomed a \<and> a_pending a' = a_pending a \<and> a_running a' = a_running a"
  by (auto simp: prepare_startup_def split: sum.splits prod.splits)

lemma app_request_fresh:
  assumes "app_request save f now_ms now new_id a s = (r, a', s')" and "\<not> a_welcomed a"
  shows "a_pending a' = a_pending a \<and> a_running a' = a_running a \<and> (a_welcomed a' \<longleftrightarrow> frame_method f = ''hello'' \<and> is_ok r)"
  using assms unfolding app_request_def Let_def
  by (auto simp: is_ok_def dest: prepare_startup_frame split: if_splits sum.splits prod.splits)

lemma app_receive_request_steps:
  assumes "frame_kind_of f = Request" "app_request save f now_ms now new_id a s = (outcome, a1, s1)"
  shows "app_receive save f now_ms now new_id a s =
    (case answered (frame_id f) outcome of
       Inl e \<Rightarrow> (Inl e, a1, s1)
     | Inr out1 \<Rightarrow>
         (case (if (frame_method f = ''hello'' \<and> \<not> a_welcomed a) \<and> is_ok outcome then start_next now_ms out1 a1 else (Inr out1, a1)) of
            (Inl e, a2) \<Rightarrow> (Inl e, a2, s1)
          | (Inr out2, a2) \<Rightarrow> (Inr \<lparr>rc_outgoing = out2, rc_completed = None\<rparr>, a2\<lparr>a_cursor := sequence s1\<rparr>, s1)))"
  using assms unfolding app_receive_def answered_def Let_def by simp

lemma start_next_welcomed: "start_next now out a = (r, a') \<Longrightarrow> a_welcomed a' = a_welcomed a"
  by (auto simp: start_next_def Let_def split: sum.splits prod.splits if_splits)

lemma app_receive_fresh:
  assumes "app_receive save f now_ms now new_id a s = (r, a', s')" and "app_fresh a"
  shows "app_fresh a'"
proof (cases "a_welcomed a")
  case True
  show ?thesis
  proof (cases "frame_kind_of f = Request")
    case req: True
    obtain outcome a1 s1 where q: "app_request save f now_ms now new_id a s = (outcome, a1, s1)"
      by (cases "app_request save f now_ms now new_id a s")
    have "a_welcomed a1" using q True unfolding app_request_def Let_def by (auto split: if_splits sum.splits prod.splits)
    then show ?thesis
      using assms(1) True unfolding app_receive_request_steps [OF req q] app_fresh_def
      by (auto split: sum.splits prod.splits)
  next
    case False
    then have "a_welcomed a'"
      using assms(1) True start_next_welcomed unfolding app_receive_def app_reply_def Let_def
      by (auto split: if_splits prod.splits sum.splits option.splits group_step.splits)
    then show ?thesis by (simp add: app_fresh_def)
  qed
next
  case False
  then have a: "a_pending a = session_new" "\<not> a_running a" using assms(2) by (simp_all add: app_fresh_def)
  show ?thesis
  proof (cases "frame_kind_of f = Request")
    case req: True
    obtain outcome a1 s1 where q: "app_request save f now_ms now new_id a s = (outcome, a1, s1)"
      by (cases "app_request save f now_ms now new_id a s")
    note f = app_request_fresh [OF q False]
    show ?thesis
      using assms(1) a f start_next_welcomed unfolding app_receive_request_steps [OF req q] app_fresh_def
      by (auto split: sum.splits prod.splits if_splits)
  next
    case False
    then have "a' = a" using assms(1) a session_new_idle(1) unfolding app_receive_def app_reply_def
      by (auto split: if_splits prod.splits sum.splits)
    then show ?thesis using assms(2) by simp
  qed
qed

text \<open>The other operations.\<close>

lemma app_ops_fresh:
  "app_new i manifest = Inr b \<Longrightarrow> app_fresh b" "app_manual i manifest = Inr b \<Longrightarrow> app_fresh b"
  "app_fresh a \<Longrightarrow> app_fresh (snd (app_call owner m params now a))" "app_fresh a \<Longrightarrow> app_fresh (snd (app_adopt d a))"
  "app_fresh a \<Longrightarrow> app_fresh (app_cancel k a)" "app_fresh a \<Longrightarrow> app_fresh (snd (app_disconnect a))"
  "app_fresh a \<Longrightarrow> app_fresh (snd (app_expire now a))"
proof -
  show "app_new i manifest = Inr b \<Longrightarrow> app_fresh b" "app_manual i manifest = Inr b \<Longrightarrow> app_fresh b"
    by (auto simp: app_fresh_def app_new_def app_manual_def bindR_Inr_iff split: if_splits)
  show "app_fresh a \<Longrightarrow> app_fresh (snd (app_call owner m params now a))"
    by (cases "a_running a") (auto simp: app_fresh_def app_call_def split: sum.splits prod.splits if_splits)
  show "app_fresh a \<Longrightarrow> app_fresh (snd (app_adopt d a))"
    by (auto simp: app_fresh_def app_adopt_def Let_def split: sum.splits if_splits)
  show "app_fresh a \<Longrightarrow> app_fresh (app_cancel k a)"
    by (auto simp: app_fresh_def app_cancel_def session_new_idle split: prod.splits option.splits)
  show "app_fresh a \<Longrightarrow> app_fresh (snd (app_disconnect a))"
    using session_new_idle(3) by (auto simp: app_fresh_def app_disconnect_def split: prod.splits)
  show "app_fresh a \<Longrightarrow> app_fresh (snd (app_expire now a))"
    by (auto simp: app_fresh_def app_expire_def session_new_idle split: prod.splits option.splits)
qed

lemma follow_event_welcomed: "a_welcomed (snd (follow_event s e a out)) = a_welcomed a"
  by (auto simp: follow_event_def follow_new_def Let_def split: sum.splits prod.splits option.splits if_splits)

lemma follow_events_welcomed: "a_welcomed (snd (follow_events s es a out)) = a_welcomed a"
proof (induction es arbitrary: a out)
  case (Cons e es)
  obtain r a1 where f: "follow_event s e a out = (r, a1)" by (cases "follow_event s e a out")
  then have "a_welcomed a1 = a_welcomed a" using follow_event_welcomed [of s e a out] by simp
  then show ?case using f Cons.IH by (cases r) simp_all
qed simp

lemma app_follow_fresh: "app_fresh a \<Longrightarrow> app_fresh (snd (app_follow s now a))"
proof (cases "a_welcomed a")
  case True
  have "a_welcomed (snd (app_follow s now a))"
  proof (cases "events_after s (a_cursor a)")
    case (Inr es)
    obtain r a1 where f: "follow_events s es a [] = (r, a1)" by (cases "follow_events s es a []")
    then have "a_welcomed a1" using follow_events_welcomed [of s es a "[]"] True by simp
    then show ?thesis using True Inr f start_next_welcomed
      by (auto simp: app_follow_def split: sum.splits prod.splits if_splits)
  qed (simp add: app_follow_def True)
  then show ?thesis by (simp add: app_fresh_def)
qed (simp add: app_follow_def)

section \<open>The answer\<close>

lemma frame_response_total: "\<exists>v. frame_response i res = Inr v"
  by (cases res) (simp_all add: frame_response_def j_fields_def obj_push_def j_set_def ok_or_def)

lemma answered_total:
  assumes "\<And>v es. outcome = Inr (v, es) \<Longrightarrow> length es \<le> 1"
  shows "\<exists>out. answered i outcome = Inr out \<and> length out \<le> 2"
proof (cases outcome)
  case (Inl e)
  obtain x where "frame_response i (Inl (error_text e)) = Inr x" using frame_response_total by blast
  then show ?thesis using Inl by (simp add: answered_def j_push_def MAX_OUTBOX_def)
next
  case (Inr b)
  obtain v es where b: "outcome = Inr (v, es)" using Inr by (cases b) auto
  obtain x where "frame_response i (Inr v) = Inr x" using frame_response_total by blast
  then show ?thesis using b assms [OF b] by (simp add: answered_def j_push_def MAX_OUTBOX_def)
qed

lemma answered_frames:
  assumes "answered i outcome = Inr out"
  obtains evs ans where "out = evs @ [ans]" and "j_uint ans ''id'' = i" and "j_text ans ''t'' = (if is_ok outcome then ''res'' else ''err'')"
    and "evs = (case outcome of Inr (v, es) \<Rightarrow> es | Inl e \<Rightarrow> [])"
proof (cases outcome)
  case (Inl e)
  then obtain x where "frame_response i (Inl (error_text e)) = Inr x" "out = [x]"
    using assms by (auto simp: answered_def bindR_Inr_iff j_push_Inr_iff)
  then show thesis using that [of "[]" x] frame_response_texts [of i "Inl (error_text e)" x] Inl by (simp add: is_ok_def)
next
  case (Inr b)
  then obtain v es where b: "outcome = Inr (v, es)" by (cases b) auto
  then obtain x where x: "frame_response i (Inr v) = Inr x" "out = es @ [x]"
    using assms by (auto simp: answered_def bindR_Inr_iff j_push_Inr_iff)
  have "j_uint x ''id'' = i" "j_text x ''t'' = ''res''" using frame_response_texts [OF x(1)] by (simp_all add: is_ok_def)
  then show thesis by (intro that [OF x(2)]) (simp_all add: b is_ok_def)
qed

lemma startup_calls_front: "startup_calls ds known st = (Inr st', known') \<Longrightarrow> \<exists>more. st' = st @ more"
  by (induction ds arbitrary: known st) (fastforce simp: j_push_Inr_iff bindR_Inr_iff split: sum.splits)+

lemma prepare_startup_first:
  assumes "prepare_startup s a = (Inr u, a')"
  shows "\<exists>st. a_startup a' = st @ [(''app.init'', j_object)] \<and> a_pending a' = a_pending a"
proof -
  obtain st known where c: "startup_calls (own_devices s (a_id a)) (a_known a) [(''app.init'', j_object)] = (Inr st, known)"
      "a' = a\<lparr>a_known := known, a_startup := rev st\<rparr>"
    using assms by (auto simp: prepare_startup_def j_push_def MAX_STARTUP_def split: sum.splits prod.splits)
  then show ?thesis using startup_calls_front [OF c(1)] by auto
qed

lemma greeting_starts:
  assumes "app_request save f now_ms now new_id a s = (Inr b, a', s')" and "frame_method f = ''hello''"
  shows "\<exists>st. a_startup a' = st @ [(''app.init'', j_object)] \<and> a_pending a' = a_pending a"
  using assms unfolding app_request_def Let_def
  by (auto dest!: prepare_startup_first split: if_splits sum.splits prod.splits)

lemma first_callback:
  assumes "a_startup a = st @ [(m, p)]" and "a_pending a = session_new" and "unat now + 30000 < 2 ^ 64" and "length out < MAX_OUTBOX"
  shows "\<exists>a'. start_next now out a = (Inr (out @ [frame_request 1 m p]), a')"
proof -
  obtain deadline where d: "checked_add now 30000 = Some deadline" using assms(3) by (auto simp: checked_add_def)
  have "checked_add (0 :: u64) 1 = Some 1" by (simp add: checked_add_def)
  moreover have "position (\<lambda>p. p = None) (replicate MAX_PENDING None :: pending_request option list) = Some 0"
    by (simp add: MAX_PENDING_def numeral_eq_Suc)
  ultimately obtain se where "session_begin 0 now 30000 session_new = (Inr 1, se)"
    using d by (simp add: session_begin_def session_new_def)
  then show ?thesis using assms by (simp add: start_next_def Let_def j_push_def)
qed

text \<open>C26: Every request of an app gets exactly one answer, under its own number and after the events of the state it
  changed, whether it succeeded or not: receiving it never fails, on any connection that came about from its operations
  (\<open>app_fresh\<close>), as long as the clock does not run out. Only an accepted first greeting is followed by one more frame, the
  request of the first callback, \<open>app.init\<close>. A success is answered only when the operation on the store succeeded, or when the
  request is one that changes nothing.\<close>

theorem app_answers_once:
  assumes "frame_kind_of f = Request" and "app_fresh a" and "unat now_ms + 30000 < 2 ^ 64"
    and "app_receive save f now_ms now new_id a s = (r, a', s')"
  shows "\<exists>evs ans more. r = Inr \<lparr>rc_outgoing = evs @ [ans] @ more, rc_completed = None\<rparr>
    \<and> list_all event_frame evs \<and> j_uint ans ''id'' = frame_id f \<and> j_text ans ''t'' \<in> {''res'', ''err''}
    \<and> (j_text ans ''t'' = ''res'' \<longrightarrow>
         s' = s \<and> frame_method f \<in> {''$appproto.ping'', ''hello'', ''images.list''}
         \<or> (\<exists>op. app_op (a_id a) s op \<and> run_op save op s = (Inr (), s'))
         \<or> frame_method f = ''image.url'' \<and> (\<exists>dev sl v. share_image new_id dev sl now_ms s = (Inr v, s')))
    \<and> more = (if frame_method f = ''hello'' \<and> \<not> a_welcomed a \<and> j_text ans ''t'' = ''res'' then [frame_request 1 ''app.init'' j_object] else [])"
proof -
  obtain outcome a1 s1 where q: "app_request save f now_ms now new_id a s = (outcome, a1, s1)"
    by (cases "app_request save f now_ms now new_id a s")
  have few: "list_all event_frame es \<and> length es \<le> 1" if "outcome = Inr (v, es)" for v es
    using q app_request_events unfolding that by blast
  obtain out1 where o: "answered (frame_id f) outcome = Inr out1" "length out1 \<le> 2" using answered_total [of outcome] few by blast
  obtain evs ans where e: "out1 = evs @ [ans]" "j_uint ans ''id'' = frame_id f" "j_text ans ''t'' = (if is_ok outcome then ''res'' else ''err'')"
      "evs = (case outcome of Inr (v, es) \<Rightarrow> es | Inl e \<Rightarrow> [])"
    using answered_frames [OF o(1)] .
  have res: "j_text ans ''t'' = ''res'' \<longleftrightarrow> is_ok outcome" using e(3) by simp
  let ?first = "frame_method f = ''hello'' \<and> \<not> a_welcomed a"
  let ?more = "if frame_method f = ''hello'' \<and> \<not> a_welcomed a \<and> j_text ans ''t'' = ''res'' then [frame_request 1 ''app.init'' j_object] else []"
  have n: "\<exists>a2. (if ?first \<and> is_ok outcome then start_next now_ms out1 a1 else (Inr out1, a1)) = (Inr (out1 @ ?more), a2)"
  proof (cases "?first \<and> is_ok outcome")
    case True
    then obtain b where "outcome = Inr b" by (auto simp: is_ok_def split: sum.splits)
    with q True obtain st where "a_startup a1 = st @ [(''app.init'', j_object)]" "a_pending a1 = a_pending a"
      using greeting_starts [of save f now_ms now new_id a s b a1 s1] by auto
    moreover have "a_pending a = session_new" using assms(2) True by (simp add: app_fresh_def)
    moreover have "length out1 < MAX_OUTBOX" using o(2) by (simp add: MAX_OUTBOX_def)
    ultimately show ?thesis using first_callback [OF _ _ assms(3), of a1] True res by simp
  qed (auto simp: res)
  have run: "r = Inr \<lparr>rc_outgoing = evs @ [ans] @ ?more, rc_completed = None\<rparr>" "s' = s1"
    using assms(4) n e(1) unfolding app_receive_request_steps [OF assms(1) q] o(1) by (auto split: sum.splits prod.splits)
  have "list_all event_frame evs" using few unfolding e(4) by (cases outcome) auto
  moreover have "is_ok outcome \<longrightarrow> s' = s \<and> frame_method f \<in> {''$appproto.ping'', ''hello'', ''images.list''}
      \<or> (\<exists>op. app_op (a_id a) s op \<and> run_op save op s = (Inr (), s'))
      \<or> frame_method f = ''image.url'' \<and> (\<exists>dev sl v. share_image new_id dev sl now_ms s = (Inr v, s'))"
    using app_request_performs(2) [OF q] unfolding performs_def tickets_def run(2) by blast
  ultimately show ?thesis
    using run(1) e(2,3) res by (intro exI [of _ evs] exI [of _ ans] exI [of _ ?more]) auto
qed

theorem app_answers_once_witness:
  "\<exists>rc a' s' ans. app_receive memory_save media_request 0 [] [] hue_app hue_store = (Inr rc, a', s')
     \<and> rc_outgoing rc = [ans] \<and> j_uint ans ''id'' = 5"
proof -
  obtain r a' s' where run: "app_receive memory_save media_request 0 [] [] hue_app hue_store = (r, a', s')"
    by (cases "app_receive memory_save media_request 0 [] [] hue_app hue_store") auto
  have k: "frame_kind_of media_request = Request" "frame_id media_request = 5" "app_fresh hue_app" "a_welcomed hue_app"
    by (simp_all add: media_request_def hue_app_def app_fresh_def)
  obtain evs ans where o: "r = Inr \<lparr>rc_outgoing = evs @ [ans], rc_completed = None\<rparr>" "j_uint ans ''id'' = 5"
    using app_answers_once [OF k(1,3) _ run] k(2,4) by auto
  have "length (evs @ [ans]) = 1" using media_registered(2) unfolding app_request_result_def run o(1) by auto
  then show ?thesis using run o by auto
qed

end
