(* ===== verification/AppStart.thy ===== *)
theory AppStart
  imports AppRuntime
begin

text \<open>
  The start of an app as a whole: its greeting, and the callbacks the controller makes one after the other until
  the app runs.
\<close>

section \<open>One callback at a time\<close>

text \<open>The table of requests with nothing in it, and with one request of the controller itself.\<close>

definition idle_session :: "nat \<Rightarrow> session" where
  "idle_session n = \<lparr>sess_pending = replicate MAX_PENDING None, session_next = word_of_nat n\<rparr>"

definition busy_session :: "nat \<Rightarrow> u64 \<Rightarrow> session" where
  "busy_session n now =
     \<lparr>sess_pending = Some \<lparr>pr_id = word_of_nat (Suc n), pr_deadline = now + 30000, pr_owner = 0\<rparr> # replicate (MAX_PENDING - 1) None,
      session_next = word_of_nat (Suc n)\<rparr>"

lemma unat_small: "n < 2 ^ 64 \<Longrightarrow> unat (word_of_nat n :: u64) = n"
  by (simp add: unat_of_nat)

lemma begin_idle:
  assumes "Suc n < 2 ^ 64" and "unat now + 30000 < 2 ^ 64"
  shows "session_begin 0 now 30000 (idle_session n) = (Inr (word_of_nat (Suc n)), busy_session n now)"
proof -
  have "checked_add (word_of_nat n) 1 = Some (word_of_nat (Suc n) :: u64)"
    using assms(1) unat_small [of n] by (simp add: checked_add_def)
  moreover have "checked_add now 30000 = Some (now + 30000)" using assms(2) by (simp add: checked_add_def)
  ultimately show ?thesis
    by (simp add: session_begin_def idle_session_def busy_session_def MAX_PENDING_def numeral_eq_Suc)
qed

lemma complete_busy: "session_complete (word_of_nat (Suc n)) (busy_session n now) = (Some 0, idle_session (Suc n))"
  by (simp add: session_complete_def take_pending_def busy_session_def idle_session_def MAX_PENDING_def numeral_eq_Suc)

definition ok_reply :: "u64 \<Rightarrow> frame" where
  "ok_reply i = \<lparr>frame_kind_of = Response, frame_id = i, frame_value = Object [(''id'', uint_value i), (''t'', String ''res'')]\<rparr>"

text \<open>An app that answers each callback, at the given times: the callbacks it sees after the first.\<close>

fun startup_run :: "u64 list \<Rightarrow> app \<Rightarrow> jvalue \<Rightarrow> jvalue list \<times> app" where
  "startup_run [] a req = ([], a)"
| "startup_run (t # ts) a req =
     (case app_reply (ok_reply (j_uint req ''id'')) t a of
        (Inr (None, [next]), a') \<Rightarrow> (case startup_run ts a' next of (rs, b) \<Rightarrow> (next # rs, b))
      | (_, a') \<Rightarrow> ([], a'))"

definition call_of :: "jvalue \<Rightarrow> string \<times> jvalue" where
  "call_of req = (j_text req ''m'', j_field req ''p'')"

lemma start_next_idle:
  assumes "a_pending a = idle_session n" and "Suc n < 2 ^ 64" and "unat now + 30000 < 2 ^ 64" and "length out < MAX_OUTBOX"
    and "a_startup a = rev (c # cs)"
  shows "start_next now out a = (Inr (out @ [frame_request (word_of_nat (Suc n)) (fst c) (snd c)]),
     a\<lparr>a_startup := rev cs, a_initializing := True, a_pending := busy_session n now\<rparr>)"
  using assms by (simp add: start_next_def Let_def begin_idle j_push_def split: prod.splits)

lemma app_reply_last:
  assumes "a_pending a = busy_session n t0" and "a_startup a = []"
  shows "app_reply (ok_reply (word_of_nat (Suc n))) now a
    = (Inr (None, []), a\<lparr>a_pending := idle_session (Suc n), a_running := True, a_initializing := False\<rparr>)"
  using assms by (simp add: app_reply_def ok_reply_def complete_busy Let_def start_next_def del: of_nat_Suc)

lemma app_reply_next:
  assumes "a_pending a = busy_session n t0" and "Suc (Suc n) < 2 ^ 64" and "unat now + 30000 < 2 ^ 64" and "a_startup a = rev (c # cs)"
  shows "app_reply (ok_reply (word_of_nat (Suc n))) now a
    = (Inr (None, [frame_request (word_of_nat (Suc (Suc n))) (fst c) (snd c)]),
       a\<lparr>a_startup := rev cs, a_initializing := True, a_pending := busy_session (Suc n) now\<rparr>)"
  using assms start_next_idle [of "a\<lparr>a_pending := idle_session (Suc n)\<rparr>" "Suc n" now "[]" c cs]
  by (simp add: app_reply_def ok_reply_def complete_busy Let_def MAX_OUTBOX_def del: of_nat_Suc)

definition started :: "app \<Rightarrow> bool" where
  "started a \<longleftrightarrow> a_running a \<and> \<not> a_initializing a \<and> a_startup a = []"

lemma startup_run_calls:
  assumes "a_pending a = busy_session n t0" and "a_startup a = rev cs" and "j_uint req ''id'' = word_of_nat (Suc n)"
    and "length ts = Suc (length cs)" and "list_all (\<lambda>t. unat t + 30000 < 2 ^ 64) ts" and "Suc (n + length cs) < 2 ^ 64"
  shows "map call_of (fst (startup_run ts a req)) = cs \<and> started (snd (startup_run ts a req))"
  using assms
proof (induction cs arbitrary: a n t0 req ts)
  case Nil
  then obtain t where "ts = [t]" by (auto simp: length_Suc_conv)
  then show ?case
    using app_reply_last [OF Nil.prems(1), of t] Nil.prems by (simp add: started_def del: of_nat_Suc)
next
  case (Cons c cs)
  then obtain t ts' where ts: "ts = t # ts'" "unat t + 30000 < 2 ^ 64" by (cases ts) auto
  let ?a = "a\<lparr>a_startup := rev cs, a_initializing := True, a_pending := busy_session (Suc n) t\<rparr>"
  let ?req = "frame_request (word_of_nat (Suc (Suc n))) (fst c) (snd c)"
  have r: "app_reply (ok_reply (j_uint req ''id'')) t a = (Inr (None, [?req]), ?a)"
    using app_reply_next [OF Cons.prems(1) _ ts(2) Cons.prems(2)] Cons.prems(3,6) by (simp del: of_nat_Suc)
  have "map call_of (fst (startup_run ts' ?a ?req)) = cs \<and> started (snd (startup_run ts' ?a ?req))"
    using Cons.prems ts by (intro Cons.IH [of _ "Suc n" t]) (simp_all add: frame_request_texts del: of_nat_Suc)
  moreover have "call_of ?req = c" by (simp add: call_of_def frame_request_texts del: of_nat_Suc)
  ultimately show ?case
    unfolding ts(1) startup_run.simps r
    by (cases "startup_run ts' ?a ?req") (simp del: of_nat_Suc)
qed

section \<open>The greeting\<close>

definition device_calls :: "jvalue \<Rightarrow> (string \<times> jvalue) list" where
  "device_calls d =
     [(''driver.init'', j_fields [(''driverId'', String (j_text d ''driverId''))]),
      (''device.init'', j_fields [(''driverId'', String (j_text d ''driverId'')), (''deviceId'', String (j_text d ''id''))])]"

definition init_calls :: "'s store \<Rightarrow> string \<Rightarrow> (string \<times> jvalue) list" where
  "init_calls s i = (''app.init'', j_object) # concat (map device_calls (own_devices s i))"

lemma startup_calls_list:
  "startup_calls ds known st = (Inr st', known') \<Longrightarrow> length st \<le> MAX_STARTUP
    \<Longrightarrow> st' = st @ concat (map device_calls ds) \<and> length st' \<le> MAX_STARTUP"
proof (induction ds arbitrary: known st)
  case (Cons d ds)
  have "startup_calls ds (known @ [j_text d ''id'']) (st @ device_calls d) = (Inr st', known')" "length (st @ device_calls d) \<le> MAX_STARTUP"
    using Cons.prems by (auto simp: device_calls_def bindR_Inr_iff j_push_Inr_iff split: sum.splits)
  from Cons.IH [OF this] show ?case by auto
qed simp

lemma prepare_startup_calls:
  assumes "prepare_startup s a = (Inr (), a')"
  shows "a_startup a' = rev (init_calls s (a_id a))" "a_pending a' = a_pending a" "length (init_calls s (a_id a)) \<le> MAX_STARTUP"
    "a_running a' = a_running a"
  using assms startup_calls_list [of "own_devices s (a_id a)" "a_known a" "[(''app.init'', j_object)]"]
  by (auto simp: prepare_startup_def init_calls_def j_push_def MAX_STARTUP_def split: sum.splits prod.splits)

lemma app_new_fresh: "app_new i m = Inr a \<Longrightarrow> a_pending a = idle_session 0 \<and> a_id a = i \<and> \<not> a_welcomed a \<and> \<not> a_running a"
  by (auto simp: app_new_def bindR_Inr_iff idle_session_def session_new_def split: if_splits)

lemma hello_accepted:
  assumes "app_receive save f now_ms now new_id a s = (Inr rc, a1, s1)" and "frame_kind_of f = Request"
    and "\<not> a_welcomed a" and "a_welcomed a1"
  obtains w p where "frame_method f = ''hello''" and "app_welcome a s = Inr w" and "prepare_startup s a = (Inr (), p)" and "s1 = s"
    and "app_request save f now_ms now new_id a s = (Inr (w, []), p\<lparr>a_welcomed := True\<rparr>, s)"
proof -
  obtain outcome ax sx where q: "app_request save f now_ms now new_id a s = (outcome, ax, sx)"
    by (cases "app_request save f now_ms now new_id a s")
  have w: "a_welcomed a1 = a_welcomed ax"
    using assms(1,2) q unfolding app_receive_def Let_def
    by (auto simp: start_next_def Let_def split: sum.splits prod.splits if_splits)
  have k: "a_welcomed p = a_welcomed a" if "prepare_startup s a = (r, p)" for r p
    using that by (auto simp: prepare_startup_def split: sum.splits prod.splits)
  have "frame_method f = ''hello'' \<and> (\<exists>w p. app_welcome a s = Inr w \<and> prepare_startup s a = (Inr (), p)
      \<and> outcome = Inr (w, []) \<and> ax = p\<lparr>a_welcomed := True\<rparr> \<and> sx = s)"
    using q w assms(3,4) k unfolding app_request_def Let_def by (auto split: if_splits sum.splits prod.splits)
  moreover have "s1 = sx" using app_receive_request [OF assms(1,2)] q by auto
  ultimately show thesis using that q by blast
qed

lemma hello_receive:
  assumes "app_new i manifest = Inr a" and "frame_kind_of f = Request" and "prepare_startup s a = (Inr (), p)"
    and "frame_method f = ''hello''" and "app_request save f t0 now new_id a s = (Inr (w, []), p\<lparr>a_welcomed := True\<rparr>, s)"
    and "init_calls s i = (''app.init'', j_object) # cs" and "unat t0 + 30000 < 2 ^ 64"
  obtains x where "app_receive save f t0 now new_id a s
    = (Inr \<lparr>rc_outgoing = [x, frame_request (word_of_nat (Suc 0)) ''app.init'' j_object], rc_completed = None\<rparr>,
       p\<lparr>a_welcomed := True, a_startup := rev cs, a_initializing := True, a_pending := busy_session 0 t0, a_cursor := sequence s\<rparr>, s)"
proof -
  have fresh: "a_pending a = idle_session 0" "a_id a = i" "\<not> a_welcomed a" using app_new_fresh [OF assms(1)] by simp_all
  note st = prepare_startup_calls [OF assms(3), unfolded fresh(1,2)]
  let ?b = "p\<lparr>a_welcomed := True\<rparr>"
  have nxt: "start_next t0 [x] ?b = (Inr [x, frame_request (word_of_nat (Suc 0)) ''app.init'' j_object],
      ?b\<lparr>a_startup := rev cs, a_initializing := True, a_pending := busy_session 0 t0\<rparr>)" for x
    using start_next_idle [of ?b 0 t0 "[x]" "(''app.init'', j_object)" cs] st(1,2) assms(6,7) by (simp add: MAX_OUTBOX_def)
  obtain x where "frame_response (frame_id f) (Inr w) = Inr x"
    by (simp add: frame_response_def j_fields_def)
  then show thesis
    using that [of x] assms(2,4,5) nxt [of x] fresh(3) by (simp add: app_receive_def Let_def j_push_def MAX_OUTBOX_def is_ok_def)
qed

text \<open>The start of an app: once its first greeting is accepted, the controller first calls \<open>app.init\<close>, and then, when every
  callback is answered, for each device of the app in the order of the document its driver and itself, one
  callback at a time; after the last answer the app runs.\<close>

theorem startup_in_order:
  assumes "app_new i manifest = Inr a" and "app_receive save f t0 now new_id a s = (Inr rc, a1, s1)"
    and "frame_kind_of f = Request" and "a_welcomed a1"
    and "length ts = length (init_calls s i)" and "list_all (\<lambda>t. unat t + 30000 < 2 ^ 64) (t0 # ts)"
  shows "\<exists>welcome req. rc_outgoing rc = [welcome, req]
    \<and> call_of req # map call_of (fst (startup_run ts a1 req)) = init_calls s i
    \<and> \<not> a_running a1 \<and> started (snd (startup_run ts a1 req))"
proof -
  have fresh: "a_pending a = idle_session 0" "a_id a = i" "\<not> a_welcomed a" "\<not> a_running a" using app_new_fresh [OF assms(1)] by simp_all
  obtain w p where h: "frame_method f = ''hello''" "app_welcome a s = Inr w" "prepare_startup s a = (Inr (), p)" "s1 = s"
    and q: "app_request save f t0 now new_id a s = (Inr (w, []), p\<lparr>a_welcomed := True\<rparr>, s)"
    using hello_accepted [OF assms(2,3) fresh(3) assms(4)] .
  note st = prepare_startup_calls [OF h(3), unfolded fresh(1,2)]
  obtain cs where cs: "init_calls s i = (''app.init'', j_object) # cs" by (simp add: init_calls_def)
  let ?b = "p\<lparr>a_welcomed := True\<rparr>"
  let ?req = "frame_request (word_of_nat (Suc 0)) ''app.init'' j_object"
  have "unat t0 + 30000 < 2 ^ 64" using assms(6) by simp
  then obtain x where run: "app_receive save f t0 now new_id a s = (Inr \<lparr>rc_outgoing = [x, ?req], rc_completed = None\<rparr>,
      ?b\<lparr>a_startup := rev cs, a_initializing := True, a_pending := busy_session 0 t0, a_cursor := sequence s\<rparr>, s)"
    using hello_receive [OF assms(1,3) h(3,1) q cs] by blast
  then have rc: "rc_outgoing rc = [x, ?req]"
    and a1: "a1 = ?b\<lparr>a_startup := rev cs, a_initializing := True, a_pending := busy_session 0 t0, a_cursor := sequence s\<rparr>"
    using assms(2) by auto
  have "Suc (length cs) \<le> MAX_STARTUP" using st(3) cs by simp
  then have "map call_of (fst (startup_run ts a1 ?req)) = cs \<and> started (snd (startup_run ts a1 ?req))"
    using assms(5,6) cs by (intro startup_run_calls [of _ 0 t0]) (simp_all add: a1 frame_request_texts MAX_STARTUP_def)
  moreover have "call_of ?req = (''app.init'', j_object)" by (simp add: call_of_def frame_request_texts)
  moreover have "\<not> a_running a1" using st(4) fresh(4) by (simp add: a1)
  ultimately show ?thesis using rc cs by (intro exI [of _ x] exI [of _ ?req]) simp
qed

definition hue_manifest :: jvalue where
  "hue_manifest = Object [(''id'', String ''hue''), (''name'', String ''Hue''), (''version'', String ''1.0.0''), (''sdk'', uint_value 3)]"

definition hue_home :: "unit store" where
  "hue_home = store_with (Object [(''apps'', Array [Object [(''id'', String ''hue''), (''enabled'', Bool True)]]),
     (''devices'', Array [Object [(''id'', String ''lamp''), (''appId'', String ''hue''), (''driverId'', String ''bulb'')]])])"

definition hello_request :: frame where
  "hello_request = \<lparr>frame_kind_of = Request, frame_id = 1, frame_value = Object [(''m'', String ''hello''),
     (''p'', Object [(''protocol'', uint_value 1)])]\<rparr>"

theorem startup_in_order_witness:
  "\<exists>a rc a1 req. app_new ''hue'' hue_manifest = Inr a \<and> app_receive memory_save hello_request 0 [] [] a hue_home = (Inr rc, a1, hue_home)
     \<and> fst (call_of req) = ''app.init'' \<and> map (fst \<circ> call_of) (fst (startup_run [1, 2, 3] a1 req)) = [''driver.init'', ''device.init'']
     \<and> started (snd (startup_run [1, 2, 3] a1 req))"
proof -
  have "is_ok (app_new ''hue'' hue_manifest)" by (simp add: app_new_def hue_manifest_def manifest_validate_def j_text_def j_uint_def j_array_def is_ok_def)
  then obtain a where a: "app_new ''hue'' hue_manifest = Inr a" by (auto simp: is_ok_iff)
  then have av: "a = \<lparr>a_id = ''hue'', a_manifest = hue_manifest, a_welcomed = False, a_running = False, a_startup = [],
      a_pending = session_new, a_cursor = 0, a_known = [], a_initializing = False, a_groups = [], a_manual = False\<rparr>"
    by (auto simp: app_new_def bindR_Inr_iff split: if_splits)
  have w: "is_ok (app_welcome a hue_home)" "is_ok (fst (prepare_startup hue_home a))" unfolding av by code_simp+
  obtain w where "app_welcome a hue_home = Inr w" using w(1) by (auto simp: is_ok_iff)
  moreover obtain p where p: "prepare_startup hue_home a = (Inr (), p)" using w(2) by (cases "prepare_startup hue_home a") (auto simp: is_ok_iff)
  moreover have h: "frame_kind_of hello_request = Request" "frame_method hello_request = ''hello''"
      "j_uint (j_field (frame_value hello_request) ''p'') ''protocol'' = 1" "\<not> a_welcomed a"
    by (simp_all add: hello_request_def frame_method_def j_text_def j_field_def j_uint_def av)
  ultimately have q: "app_request memory_save hello_request 0 [] [] a hue_home = (Inr (w, []), p\<lparr>a_welcomed := True\<rparr>, hue_home)"
    by (simp add: app_request_def Let_def)
  have c: "map fst (init_calls hue_home ''hue'') = [''app.init'', ''driver.init'', ''device.init'']" by code_simp
  obtain cs where cs: "init_calls hue_home ''hue'' = (''app.init'', j_object) # cs" by (simp add: init_calls_def)
  obtain rc a1 where run: "app_receive memory_save hello_request 0 [] [] a hue_home = (Inr rc, a1, hue_home)" "a_welcomed a1"
    by (rule hello_receive [OF a h(1) p h(2) q cs]) simp_all
  have "length (map fst (init_calls hue_home ''hue'')) = 3" unfolding c by simp
  then have "length [1, 2, 3 :: u64] = length (init_calls hue_home ''hue'')" by simp
  moreover have "list_all (\<lambda>t. unat t + 30000 < 2 ^ 64) [0, 1, 2, 3 :: u64]" by simp
  ultimately obtain req where r: "call_of req # map call_of (fst (startup_run [1, 2, 3] a1 req)) = init_calls hue_home ''hue''"
      "started (snd (startup_run [1, 2, 3] a1 req))"
    using startup_in_order [OF a run(1) h(1) run(2)] by blast
  have "map fst (call_of req # map call_of (fst (startup_run [1, 2, 3] a1 req))) = [''app.init'', ''driver.init'', ''device.init'']"
    unfolding r(1) by (rule c)
  then have "fst (call_of req) = ''app.init''" "map (fst \<circ> call_of) (fst (startup_run [1, 2, 3] a1 req)) = [''driver.init'', ''device.init'']"
    by (simp_all add: comp_def)
  then show ?thesis using a run(1) r(2) by (intro exI [of _ a] exI [of _ rc] exI [of _ a1] exI [of _ req] conjI)
qed

end
