(* ===== verification/FlowRun.thy ===== *)
theory FlowRun
  imports FlowText FlowExec
begin

text \<open>
  One running flow, \<open>Run\<close> of \<^verbatim>\<open>crates/runtime/src/flows.rs\<close> with \<^verbatim>\<open>flow_triggers.rs\<close>: a snapshot of the
  definition, the plan of \<open>FlowExec\<close>, the card it waits for and the results so far. The owner calls
  \<open>advance\<close> in turns and reports the outcome of callbacks with \<open>complete\<close>, \<open>fail\<close> or \<open>stop\<close>. Every method
  returns the run it leaves behind, also after an error.
\<close>

section \<open>The run\<close>

definition TIMEOUT_MS :: u64 where "TIMEOUT_MS = 45000"

record run =
  run_definition :: jvalue
  run_execution :: execution
  run_ran_at :: string
  run_deadline :: u64
  run_wake :: "u64 option"
  run_waiting :: "jvalue option"
  run_conditions :: "jvalue list"
  run_actions :: "jvalue list"
  run_blocked :: bool
  run_done :: bool
  run_error :: string
  run_context :: jvalue
  run_filters :: "(string \<times> jvalue) list"
  run_starts :: "string list"
  run_starting :: bool
  run_filtering :: "string option"

definition trigger_ids :: "jvalue \<Rightarrow> string list result" where
  "trigger_ids def =
     foldR (\<lambda>node out. if flow_kind node = ''trigger'' then j_push out (j_text node ''id'') MAX_NODES else Inr out)
       (j_array def ''nodes'') []"

definition run_manual :: "jvalue \<Rightarrow> u64 \<Rightarrow> string \<Rightarrow> run result" where
  "run_manual def now ran_at =
     bindR (trigger_ids def) (\<lambda>starts.
     bindR (start_many def starts) (\<lambda>x.
     bindR (ok_or (checked_add now TIMEOUT_MS) Full) (\<lambda>deadline.
     Inr \<lparr>run_definition = def, run_execution = x, run_ran_at = ran_at, run_deadline = deadline, run_wake = None,
       run_waiting = None, run_conditions = [], run_actions = [], run_blocked = False, run_done = False, run_error = [],
       run_context = Null, run_filters = [], run_starts = [], run_starting = False, run_filtering = None\<rparr>)))"

definition run_selected :: "jvalue \<Rightarrow> string list \<Rightarrow> jvalue \<Rightarrow> u64 \<Rightarrow> string \<Rightarrow> run result" where
  "run_selected def starts context now ran_at =
     bindR (run_manual def now ran_at) (\<lambda>r.
     bindR (start_many def starts) (\<lambda>x. Inr (r\<lparr>run_execution := x, run_context := context\<rparr>)))"

section \<open>Starting from an event\<close>

definition other_device :: "jvalue \<Rightarrow> jvalue \<Rightarrow> bool" where
  "other_device step input \<longleftrightarrow>
     (case as_object (j_field step ''args'') of
        None \<Rightarrow> False
      | Some ps \<Rightarrow> list_ex (\<lambda>(_, v). j_text v ''$device'' \<noteq> []
          \<and> j_text v ''$device'' \<noteq> j_text (j_field input ''state'') ''deviceId'') ps)"

definition match_node :: "jvalue \<Rightarrow> jvalue \<Rightarrow> string list \<times> (string \<times> jvalue) list \<Rightarrow> (string list \<times> (string \<times> jvalue) list) result" where
  "match_node input node acc =
     (case acc of (matched, filters) \<Rightarrow>
        let step = j_field node ''step'' in
        if flow_kind node \<noteq> ''trigger'' \<or> j_text step ''appId'' \<noteq> j_text input ''appId''
           \<or> j_text step ''cardId'' \<noteq> j_text input ''id'' \<or> other_device step input
        then Inr (matched, filters)
        else if j_text step ''appId'' = ''stulp'' then
          bindR (builtin_trigger step input) (\<lambda>b.
            if b then bindR (j_push matched (j_text node ''id'') MAX_NODES) (\<lambda>m. Inr (m, filters)) else Inr (matched, filters))
        else bindR (j_push filters (j_text node ''id'', step) MAX_NODES) (\<lambda>f. Inr (matched, f)))"

definition run_triggered :: "jvalue \<Rightarrow> jvalue \<Rightarrow> u64 \<Rightarrow> string \<Rightarrow> run option result" where
  "run_triggered def input now ran_at =
     (if \<not> j_boolean def ''enabled'' \<or> j_text input ''kind'' \<noteq> ''trigger'' then Inr None
      else bindR (foldR (match_node input) (j_array def ''nodes'') ([], [])) (\<lambda>(matched, filters).
        if matched = [] \<and> filters = [] then Inr None
        else bindR (run_manual def now ran_at) (\<lambda>r.
             bindR (start_many def []) (\<lambda>x.
             Inr (Some (r\<lparr>run_execution := x, run_context := input, run_starts := matched, run_filters := filters,
               run_starting := True\<rparr>))))))"

section \<open>Outcomes of cards\<close>

definition step_result :: "jvalue \<Rightarrow> jvalue" where
  "step_result step = j_fields [(''appId'', String (j_text step ''appId'')), (''cardId'', String (j_text step ''cardId'')),
     (''cardType'', String (j_text step ''cardType''))]"

definition run_stop :: "string \<Rightarrow> run \<Rightarrow> unit result \<times> run" where
  "run_stop message r =
     (if run_done r then (Inr (), r)
      else let r1 = (case run_waiting r of
                       None \<Rightarrow> r
                     | Some step \<Rightarrow>
                         if j_text step ''cardType'' = ''condition''
                         then r\<lparr>run_conditions := run_conditions r @ [step_result step]\<rparr>
                         else r\<lparr>run_actions := run_actions r @ [step_result step]\<rparr>)
           in (Inr (), r1\<lparr>run_error := message, run_waiting := None, run_wake := None, run_done := True\<rparr>))"

text \<open>The part of \<open>complete\<close> for the answer of a trigger filter, and the part for a card.\<close>

definition complete_filter :: "string \<Rightarrow> jvalue \<Rightarrow> run \<Rightarrow> unit result \<times> run" where
  "complete_filter i v r =
     (case as_bool v of
        None \<Rightarrow> run_stop ''flow trigger filter did not return a boolean'' r
      | Some passed \<Rightarrow>
          if passed then
            (case j_push (run_starts r) i MAX_NODES of
               Inl e \<Rightarrow> (Inl e, r)
             | Inr starts \<Rightarrow> (Inr (), r\<lparr>run_starts := starts, run_waiting := None\<rparr>))
          else (Inr (), r\<lparr>run_waiting := None\<rparr>))"

definition complete_card :: "jvalue \<Rightarrow> jvalue \<Rightarrow> bool \<Rightarrow> bool \<Rightarrow> run \<Rightarrow> unit result \<times> run" where
  "complete_card step v cond raw r =
     (let passed = (raw \<noteq> j_boolean step ''inverted'') in
      case bindR (j_set (step_result step) ''result'' v) (\<lambda>x. if cond then j_set x ''passed'' (Bool passed) else Inr x) of
        Inl e \<Rightarrow> (Inl e, r)
      | Inr res \<Rightarrow>
          (case exec_complete (run_execution r) (run_definition r) raw of
             (Inl e, x) \<Rightarrow> (Inl e, r\<lparr>run_execution := x\<rparr>)
           | (Inr _, x) \<Rightarrow>
               let r1 = r\<lparr>run_execution := x, run_waiting := None, run_wake := None\<rparr> in
               (Inr (), if cond then r1\<lparr>run_blocked := (run_blocked r1 \<or> \<not> passed), run_conditions := run_conditions r1 @ [res]\<rparr>
                        else r1\<lparr>run_actions := run_actions r1 @ [res]\<rparr>)))"

definition run_complete :: "jvalue \<Rightarrow> u64 \<Rightarrow> run \<Rightarrow> unit result \<times> run" where
  "run_complete v now r =
     (if run_done r then (Inr (), r)
      else if run_deadline r \<le> now then run_stop ''flow execution timed out'' r
      else case run_filtering r of
        Some i \<Rightarrow> complete_filter i v (r\<lparr>run_filtering := None\<rparr>)
      | None \<Rightarrow>
          (case run_waiting r of
             None \<Rightarrow> (Inl (Conflict ''no flow callback pending''), r)
           | Some step \<Rightarrow>
               if j_text step ''cardType'' = ''condition'' then
                 (case as_bool v of
                    None \<Rightarrow> run_stop ''flow condition did not return a boolean'' r
                  | Some b \<Rightarrow> complete_card step v True b r)
               else complete_card step v False True r))"

text \<open>A failed action skips its own branch; any other failure ends the run.\<close>

definition run_fail :: "string \<Rightarrow> run \<Rightarrow> unit result \<times> run" where
  "run_fail message r =
     (if run_done r then (Inr (), r)
      else case run_waiting r of
        None \<Rightarrow> run_stop message r
      | Some step \<Rightarrow>
          if run_filtering r \<noteq> None \<or> j_text step ''cardType'' \<noteq> ''action'' then run_stop message r
          else let r1 = r\<lparr>run_waiting := None\<rparr> in
            (case j_set (step_result step) ''error'' (String message) of
               Inl e \<Rightarrow> (Inl e, r1)
             | Inr res \<Rightarrow>
                 (case exec_skip (run_execution r1) of
                    (Inl e, x) \<Rightarrow> (Inl e, r1\<lparr>run_execution := x\<rparr>)
                  | (Inr _, x) \<Rightarrow>
                      (Inr (), r1\<lparr>run_execution := x, run_wake := None, run_actions := run_actions r1 @ [res],
                         run_error := (if run_error r1 = [] then message else run_error r1)\<rparr>))))"

section \<open>Turns\<close>

definition overlay :: "jvalue \<Rightarrow> jvalue \<Rightarrow> jvalue result" where
  "overlay extra state = (case as_object extra of None \<Rightarrow> Inr state | Some ps \<Rightarrow> foldR (\<lambda>(k, v) st. j_set st k v) ps state)"

definition filter_call :: "'s store \<Rightarrow> jvalue \<Rightarrow> jvalue \<Rightarrow> effect result" where
  "filter_call s step context =
     bindR (step_args s step context) (\<lambda>args.
     bindR (resolve s (j_field step ''state'') context False 0) (\<lambda>extra.
     bindR (overlay extra (if is_null (j_field context ''state'') then j_object else j_field context ''state'')) (\<lambda>state.
     Inr (CallEffect (j_text step ''appId'') ''flow.run''
       (j_fields [(''kind'', String ''trigger''), (''id'', String (j_text step ''cardId'')), (''args'', args), (''state'', state)])))))"

definition filter_step :: "'s store \<Rightarrow> run \<Rightarrow> effect option result \<times> run" where
  "filter_step s r =
     (if \<not> run_starting r then (Inr None, r)
      else case run_filters r of
        (i, step) # rest \<Rightarrow>
          let r1 = r\<lparr>run_filters := rest\<rparr> in
          (case filter_call s step (run_context r1) of
             Inl e \<Rightarrow> (Inl e, r1)
           | Inr eff \<Rightarrow> (Inr (Some eff), r1\<lparr>run_filtering := Some i, run_waiting := Some step\<rparr>))
      | [] \<Rightarrow>
          (case bindR (foldR (\<lambda>i out. j_push out i MAX_NODES) (run_starts r) []) (start_many (run_definition r)) of
             Inl e \<Rightarrow> (Inl e, r)
           | Inr x \<Rightarrow> (Inr None, r\<lparr>run_execution := x, run_starting := False\<rparr>)))"

text \<open>\<open>(seconds * 1000.0) as u64\<close> for a delay between 0 and 30 seconds.\<close>

definition milliseconds :: "f64 \<Rightarrow> u64" where
  "milliseconds seconds = word_of_int (f64_trunc (f64_mul seconds (f64_of_int 1000)))"

definition flow_call :: "'s store \<Rightarrow> jvalue \<Rightarrow> jvalue \<Rightarrow> jvalue \<Rightarrow> effect result" where
  "flow_call s step args context =
     bindR (resolve s (case j_get step ''state'' of None \<Rightarrow> j_object | Some v \<Rightarrow> v) context False 0) (\<lambda>state.
     Inr (CallEffect (j_text step ''appId'') ''flow.run''
       (j_fields [(''kind'', String (j_text step ''cardType'')), (''id'', String (j_text step ''cardId'')), (''args'', args),
         (''state'', state)])))"

definition delay_card :: "jvalue \<Rightarrow> u64 \<Rightarrow> run \<Rightarrow> effect result \<times> run" where
  "delay_card args now r =
     (case finite_number (j_field args ''seconds'') of
        None \<Rightarrow> (Inl (Invalid ''delay must be between 0 and 30 seconds''), r)
      | Some seconds \<Rightarrow>
          if \<not> (f64_le (f64_of_int 0) seconds \<and> f64_le seconds (f64_of_int 30))
          then (Inl (Invalid ''delay must be between 0 and 30 seconds''), r)
          else (Inr WaitingEffect, r\<lparr>run_wake := Some (saturating_add now (milliseconds seconds))\<rparr>))"

definition run_dispatch :: "'s store \<Rightarrow> jvalue \<Rightarrow> u64 \<Rightarrow> run \<Rightarrow> effect result \<times> run" where
  "run_dispatch s step now r =
     (case step_args s step (run_context r) of
        Inl e \<Rightarrow> (Inl e, r)
      | Inr args \<Rightarrow>
          let i = j_text step ''cardId'' in
          if j_text step ''appId'' \<noteq> ''stulp'' then (flow_call s step args (run_context r), r)
          else if j_text step ''cardType'' = ''condition'' then
            (case condition s i args of
               Inl e \<Rightarrow> (Inl e, r)
             | Inr b \<Rightarrow> (case run_complete (Bool b) now r of (Inl e, r1) \<Rightarrow> (Inl e, r1) | (Inr _, r1) \<Rightarrow> (Inr WaitingEffect, r1)))
          else if i = ''delay'' then delay_card args now r
          else if i = ''notification'' then (Inr (NotificationEffect (j_text args ''excerpt'')), r)
          else (action s i args, r))"

text \<open>The next card of the plan.\<close>

definition run_card :: "'s store \<Rightarrow> u64 \<Rightarrow> run \<Rightarrow> effect result \<times> run" where
  "run_card s now r =
     (case exec_next (run_execution r) (run_definition r) of
        (Inl e, x) \<Rightarrow> (Inl e, r\<lparr>run_execution := x\<rparr>)
      | (Inr None, x) \<Rightarrow> (Inr FinishedEffect, r\<lparr>run_execution := x, run_done := True\<rparr>)
      | (Inr (Some node), x) \<Rightarrow>
          let r1 = r\<lparr>run_execution := x\<rparr> in
          (case j_get node ''step'' of
             None \<Rightarrow> (Inl (Missing ''flow step''), r1)
           | Some step \<Rightarrow>
               (case run_dispatch s step now (r1\<lparr>run_waiting := Some step\<rparr>) of
                  (Inr eff, r2) \<Rightarrow> (Inr eff, r2)
                | (Inl e, r2) \<Rightarrow>
                    (case run_fail (error_text e) r2 of
                       (Inl e', r3) \<Rightarrow> (Inl e', r3)
                     | (Inr _, r3) \<Rightarrow> (Inr (if run_done r3 then FinishedEffect else WaitingEffect), r3)))))"

definition run_advance :: "'s store \<Rightarrow> u64 \<Rightarrow> run \<Rightarrow> effect result \<times> run" where
  "run_advance s now r =
     (if run_done r then (Inr FinishedEffect, r)
      else if run_deadline r \<le> now then
        (case run_stop ''flow execution timed out'' r of (Inl e, r1) \<Rightarrow> (Inl e, r1) | (Inr _, r1) \<Rightarrow> (Inr FinishedEffect, r1))
      else case run_wake r of
        Some wake \<Rightarrow>
          if wake \<le> now then
            (case run_complete (Bool True) now (r\<lparr>run_wake := None\<rparr>) of
               (Inl e, r1) \<Rightarrow> (Inl e, r1) | (Inr _, r1) \<Rightarrow> (Inr WaitingEffect, r1))
          else (Inr WaitingEffect, r)
      | None \<Rightarrow>
          if run_waiting r \<noteq> None then (Inr WaitingEffect, r)
          else (case filter_step s r of
                  (Inl e, r1) \<Rightarrow> (Inl e, r1)
                | (Inr (Some eff), r1) \<Rightarrow> (Inr eff, r1)
                | (Inr None, r1) \<Rightarrow> run_card s now r1))"

definition run_result :: "run \<Rightarrow> jvalue result" where
  "run_result r =
     (if \<not> run_done r then Inl (Conflict ''flow is still running'')
      else
        let res = j_fields [(''flowId'', String (j_text (run_definition r) ''id'')), (''success'', Bool (run_error r = [])),
              (''stopped'', Bool (run_error r = [] \<and> run_blocked r \<and> run_actions r = [])), (''ranAt'', String (run_ran_at r)),
              (''conditions'', Array (run_conditions r)), (''actions'', Array (run_actions r))]
        in if run_error r \<noteq> [] then j_set res ''error'' (String (run_error r)) else Inr res)"

section \<open>What a run has reported\<close>

text \<open>The cards a plan has handed out, and a card as a result names it.\<close>

definition delivered :: "execution \<Rightarrow> nat list" where
  "delivered x = take (head x) (queued x)"

definition card_result :: "jvalue \<Rightarrow> nat \<Rightarrow> jvalue" where
  "card_result def i = step_result (j_field (j_array def ''nodes'' ! i) ''step'')"

definition reported :: "run \<Rightarrow> jvalue multiset" where
  "reported r = mset (map step_result (run_conditions r @ run_actions r))"

definition plan_ok :: "jvalue \<Rightarrow> execution \<Rightarrow> bool" where
  "plan_ok def x \<longleftrightarrow> flow_validate def = Inr ()
    \<and> (\<exists>T. exec_inv (j_array def ''nodes'') (j_array def ''edges'') T x)
    \<and> (\<forall>i. waiting x = Some i \<longrightarrow> 0 < head x \<and> i = queued x ! (head x - 1))"

lemma step_result_texts:
  "j_text (step_result step) ''appId'' = j_text step ''appId''" "j_text (step_result step) ''cardId'' = j_text step ''cardId''"
  "j_text (step_result step) ''cardType'' = j_text step ''cardType''"
  by (simp_all add: step_result_def j_fields_def obj_push_def j_text_def j_get_def)

lemma step_result_set:
  assumes "j_set v k w = Inr v'" and "k \<notin> {''appId'', ''cardId'', ''cardType''}"
  shows "step_result v' = step_result v"
proof -
  have "j_text v' ''appId'' = j_text v ''appId''" "j_text v' ''cardId'' = j_text v ''cardId''" "j_text v' ''cardType'' = j_text v ''cardType''"
    using assms by (auto simp: j_text_set)
  then show ?thesis unfolding step_result_def by simp
qed

lemma step_result_idem [simp]: "step_result (step_result step) = step_result step"
  using step_result_texts [of step] unfolding step_result_def [of "step_result step"] by (simp add: step_result_def)

lemma step_result_object: "\<exists>ps. step_result step = Object ps"
  by (simp add: step_result_def j_fields_def)

lemma plan_delivered:
  assumes "plan_ok def x"
  shows "length (delivered x) = head x \<and> distinct (delivered x) \<and> head x \<le> length (queued x)
    \<and> (\<forall>i \<in> set (delivered x). i < length (j_array def ''nodes'') \<and> flow_kind (j_array def ''nodes'' ! i) \<noteq> ''trigger'')
    \<and> (\<forall>i. waiting x = Some i \<longrightarrow> delivered x = take (head x - 1) (queued x) @ [i])"
proof -
  obtain T where inv: "exec_inv (j_array def ''nodes'') (j_array def ''edges'') T x" using assms by (auto simp: plan_ok_def)
  have len: "head x \<le> length (queued x)" using queued_length [OF inv] inv by (simp add: exec_inv_def)
  have "delivered x = take (head x - 1) (queued x) @ [i]" if "waiting x = Some i" for i
  proof -
    have "0 < head x" "i = queued x ! (head x - 1)" using assms that by (auto simp: plan_ok_def)
    then show ?thesis using len take_Suc_conv_app_nth [of "head x - 1" "queued x"] by (simp add: delivered_def)
  qed
  moreover have "\<forall>i \<in> set (delivered x). i < length (j_array def ''nodes'') \<and> flow_kind (j_array def ''nodes'' ! i) \<noteq> ''trigger''"
    using inv by (auto simp: delivered_def exec_inv_def dest: in_set_takeD)
  ultimately show ?thesis
    using inv len by (auto simp: delivered_def exec_inv_def)
qed

lemma plan_waiting:
  assumes "plan_ok def x" and "waiting x = Some i" and "exec_inv (j_array def ''nodes'') (j_array def ''edges'') T x"
  shows "i < length (j_array def ''nodes'')" "i \<in> (flow_graph (j_array def ''nodes'') (j_array def ''edges''))\<^sup>* `` T"
proof -
  have "i \<in> set (queued x)"
    using plan_delivered [OF assms(1)] assms(2) by (metis delivered_def in_set_conv_decomp in_set_takeD)
  then show "i < length (j_array def ''nodes'')" "i \<in> (flow_graph (j_array def ''nodes'') (j_array def ''edges''))\<^sup>* `` T"
    using assms(3) by (auto simp: exec_inv_def)
qed

lemma plan_complete:
  assumes "plan_ok def x" and "waiting x = Some i"
  shows "\<exists>x'. exec_complete x def passed = (Inr (), x') \<and> plan_ok def x' \<and> waiting x' = None \<and> delivered x' = delivered x"
proof -
  obtain T where inv: "exec_inv (j_array def ''nodes'') (j_array def ''edges'') T x" and v: "flow_validate def = Inr ()"
    using assms by (auto simp: plan_ok_def)
  obtain x' where x': "exec_complete x def passed = (Inr (), x')" "exec_inv (j_array def ''nodes'') (j_array def ''edges'') T x'"
      "head x' = head x" "waiting x' = None" "\<exists>q. queued x' = queued x @ q"
    using exec_complete_ok [OF inv flow_validate_ready [OF v] refl refl assms(2) plan_waiting [OF assms inv]] by blast
  then have "delivered x' = delivered x" using plan_delivered [OF assms(1)] by (auto simp: delivered_def)
  then show ?thesis using x' v by (auto simp: plan_ok_def)
qed

lemma plan_skip:
  assumes "plan_ok def x" and "waiting x = Some i"
  shows "\<exists>x'. exec_skip x = (Inr (), x') \<and> plan_ok def x' \<and> waiting x' = None \<and> delivered x' = delivered x"
proof -
  obtain T where inv: "exec_inv (j_array def ''nodes'') (j_array def ''edges'') T x" and v: "flow_validate def = Inr ()"
    using assms by (auto simp: plan_ok_def)
  have "length (j_array def ''nodes'') \<le> MAX_NODES"
    using flow_validate_ready [OF v] by (auto simp: flow_ready_def graph_ok_def)
  then obtain x' where x': "exec_skip x = (Inr (), x')" "exec_inv (j_array def ''nodes'') (j_array def ''edges'') T x'"
      "head x' = head x" "waiting x' = None" "queued x' = queued x"
    using exec_skip_ok [OF inv _ assms(2) plan_waiting(1) [OF assms inv]] by blast
  then show ?thesis using v by (auto simp: plan_ok_def delivered_def)
qed

lemma plan_next:
  assumes "plan_ok def x" and "waiting x = None"
  shows "exec_next x def = (Inr None, x)
    \<or> (\<exists>i x' step. exec_next x def = (Inr (Some (j_array def ''nodes'' ! i)), x') \<and> plan_ok def x' \<and> waiting x' = Some i
        \<and> delivered x' = delivered x @ [i] \<and> j_get (j_array def ''nodes'' ! i) ''step'' = Some step)"
proof -
  obtain T where inv: "exec_inv (j_array def ''nodes'') (j_array def ''edges'') T x" and v: "flow_validate def = Inr ()"
    using assms by (auto simp: plan_ok_def)
  note nx = exec_next_ok [OF inv refl assms(2)]
  show ?thesis
  proof (cases "head x = tail x")
    case True
    then show ?thesis using nx by simp
  next
    case False
    let ?i = "queued x ! head x" and ?x = "x\<lparr>head := head x + 1, waiting := Some (queued x ! head x)\<rparr>"
    have h: "head x < length (queued x)" using False inv queued_length [OF inv] by (simp add: exec_inv_def)
    have q: "queued ?x = queued x" by (simp add: queued_def)
    have e: "exec_next x def = (Inr (Some (j_array def ''nodes'' ! ?i)), ?x)" "?i < length (j_array def ''nodes'')"
      using nx False by auto
    have "exec_inv (j_array def ''nodes'') (j_array def ''edges'') T ?x"
      using inv h queued_length [OF inv] q by (simp add: exec_inv_def)
    then have "plan_ok def ?x" using v q by (auto simp: plan_ok_def)
    moreover have "delivered ?x = delivered x @ [?i]" using h q by (simp add: delivered_def take_Suc_conv_app_nth)
    moreover have "\<forall>n \<in> set (j_array def ''nodes''). validate_node n = Inr ()"
      using v by (auto simp: flow_validate_def Let_def result_iff check_nodes_iff split: if_splits)
    then obtain step where "j_get (j_array def ''nodes'' ! ?i) ''step'' = Some step"
      using e(2) by (fastforce simp: validate_node_def result_iff split: if_splits)
    ultimately show ?thesis using e(1) by auto
  qed
qed

section \<open>The invariant of a run\<close>

text \<open>
  While the filters of an event are asked nothing has been delivered. After that the cards delivered are
  those reported, together with the one waited for; a stopped run reports the card it waited for.
\<close>

definition filters_ok :: "run \<Rightarrow> bool" where
  "filters_ok r \<longleftrightarrow> waiting (run_execution r) = None \<and> delivered (run_execution r) = []
    \<and> length (run_starts r) + length (run_filters r) + (if run_filtering r = None then 0 else 1) \<le> MAX_NODES
    \<and> (if run_done r then length (run_conditions r @ run_actions r) \<le> 1
       else run_conditions r = [] \<and> run_actions r = [] \<and> (run_waiting r = None \<longleftrightarrow> run_filtering r = None))"

definition cards_ok :: "run \<Rightarrow> bool" where
  "cards_ok r \<longleftrightarrow> run_filtering r = None
    \<and> reported r + (if run_done r then {#} else case run_waiting r of None \<Rightarrow> {#} | Some step \<Rightarrow> {#step_result step#})
        = mset (map (card_result (run_definition r)) (delivered (run_execution r)))
    \<and> (run_done r \<or> (run_waiting r = None \<longleftrightarrow> waiting (run_execution r) = None))"

definition run_inv :: "run \<Rightarrow> bool" where
  "run_inv r \<longleftrightarrow> plan_ok (run_definition r) (run_execution r)
    \<and> (if run_starting r then filters_ok r else cards_ok r) \<and> (run_done r \<longrightarrow> run_waiting r = None)"

lemma reported_simps [simp]:
  "reported (r\<lparr>run_conditions := run_conditions r @ [v]\<rparr>) = add_mset (step_result v) (reported r)"
  "reported (r\<lparr>run_actions := run_actions r @ [v]\<rparr>) = add_mset (step_result v) (reported r)"
  by (simp_all add: reported_def)

lemma run_inv_wake [simp]: "run_inv (r\<lparr>run_wake := w\<rparr>) \<longleftrightarrow> run_inv r"
  by (simp add: run_inv_def filters_ok_def cards_ok_def reported_def)

lemma run_stop_inv:
  assumes "run_inv r" and "run_stop m r = (res, r')"
  shows "run_inv r' \<and> res = Inr () \<and> run_done r'"
proof (cases "run_done r")
  case True
  then show ?thesis using assms by (simp add: run_stop_def)
next
  case False
  then show ?thesis
    using assms
    by (auto simp: run_stop_def run_inv_def filters_ok_def cards_ok_def reported_def Let_def split: option.splits if_splits)
qed

lemma complete_card_inv:
  assumes inv: "run_inv r" and s: "\<not> run_done r" "\<not> run_starting r" "run_waiting r = Some step"
    and run: "complete_card step v cond raw r = (res, r')"
  shows "run_inv r' \<and> res = Inr ()"
proof -
  obtain i where w: "waiting (run_execution r) = Some i" using inv s by (auto simp: run_inv_def cards_ok_def)
  have plan: "plan_ok (run_definition r) (run_execution r)" using inv by (simp add: run_inv_def)
  obtain x where x: "exec_complete (run_execution r) (run_definition r) raw = (Inr (), x)" "plan_ok (run_definition r) x"
      "waiting x = None" "delivered x = delivered (run_execution r)"
    using plan_complete [OF plan w] by blast
  obtain ps where ps: "step_result step = Object ps" using step_result_object by blast
  obtain v1 where v1: "j_set (step_result step) ''result'' v = Inr v1" "\<exists>qs. v1 = Object qs" unfolding ps by (simp add: j_set_def)
  define final where "final = (if cond then j_set v1 ''passed'' (Bool (raw \<noteq> j_boolean step ''inverted'')) else Inr v1)"
  obtain v2 where v2: "final = Inr v2" using v1(2) by (cases cond) (auto simp: j_set_def final_def)
  have same: "step_result v2 = step_result step"
    using v2 step_result_set [OF v1(1)] step_result_set [of v1 "''passed''" _ v2] by (auto simp: final_def split: if_splits)
  have b: "bindR (j_set (step_result step) ''result'' v)
      (\<lambda>x. if cond then j_set x ''passed'' (Bool (raw \<noteq> j_boolean step ''inverted'')) else Inr x) = Inr v2"
    using v1(1) v2 by (simp add: final_def)
  show ?thesis
    using run inv s x same unfolding complete_card_def Let_def b
    by (auto simp: run_inv_def cards_ok_def reported_def)
qed

lemma complete_filter_inv:
  assumes inv: "run_inv r" and s: "\<not> run_done r" "run_filtering r = Some i"
    and run: "complete_filter i v (r\<lparr>run_filtering := None\<rparr>) = (res, r')"
  shows "run_inv r' \<and> res = Inr ()"
proof -
  have st: "run_starting r" "filters_ok r" "plan_ok (run_definition r) (run_execution r)"
    using inv s by (auto simp: run_inv_def cards_ok_def split: if_splits)
  have push: "j_push (run_starts r) i MAX_NODES = Inr (run_starts r @ [i])"
    using st(2) s by (simp add: filters_ok_def j_push_def)
  show ?thesis
  proof (cases "as_bool v")
    case None
    then show ?thesis
      using run st s by (auto simp: complete_filter_def run_stop_def run_inv_def filters_ok_def Let_def split: option.splits if_splits)
  next
    case (Some b)
    then show ?thesis
      using run st s push by (auto simp: complete_filter_def run_inv_def filters_ok_def split: if_splits)
  qed
qed

lemma run_complete_inv:
  assumes inv: "run_inv r" and run: "run_complete v now r = (res, r')"
  shows "run_inv r' \<and> (is_ok res \<or> run_waiting r = None)"
proof (cases "run_done r \<or> run_deadline r \<le> now")
  case True
  then show ?thesis
    using inv run run_stop_inv [OF inv, of "''flow execution timed out''"] by (auto simp: run_complete_def split: if_splits)
next
  case False
  show ?thesis
  proof (cases "run_filtering r")
    case (Some i)
    then show ?thesis using complete_filter_inv [OF inv _ Some, of v res r'] False run by (simp add: run_complete_def)
  next
    case None
    show ?thesis
    proof (cases "run_waiting r")
      case w: None
      then show ?thesis using inv run False None by (simp add: run_complete_def)
    next
      case (Some step)
      then have "\<not> run_starting r" using inv None False by (auto simp: run_inv_def filters_ok_def)
      then have card: "run_inv r' \<and> is_ok res" if "complete_card step v c raw r = (res, r')" for c raw
        using complete_card_inv [OF inv _ _ Some that] False by auto
      have "run_inv r' \<and> is_ok res" if "run_stop m r = (res, r')" for m
        using run_stop_inv [OF inv that] by auto
      then show ?thesis
        using card run False None Some unfolding run_complete_def by (auto simp del: is_ok_iff split: if_splits option.splits)
    qed
  qed
qed

lemma run_fail_inv:
  assumes inv: "run_inv r" and run: "run_fail m r = (res, r')"
  shows "run_inv r' \<and> res = Inr ()"
proof (cases "\<exists>step. \<not> run_done r \<and> run_waiting r = Some step \<and> run_filtering r = None \<and> j_text step ''cardType'' = ''action''")
  case False
  then show ?thesis
    using run run_stop_inv [OF inv, of m] inv by (auto simp: run_fail_def split: if_splits option.splits)
next
  case True
  then obtain step where s: "\<not> run_done r" "run_waiting r = Some step" "run_filtering r = None" "j_text step ''cardType'' = ''action''"
    by blast
  have st: "\<not> run_starting r" using inv s by (auto simp: run_inv_def filters_ok_def)
  obtain i where w: "waiting (run_execution r) = Some i" using inv s st by (auto simp: run_inv_def cards_ok_def)
  have plan: "plan_ok (run_definition r) (run_execution r)" using inv by (simp add: run_inv_def)
  obtain x where x: "exec_skip (run_execution r) = (Inr (), x)" "plan_ok (run_definition r) x"
      "waiting x = None" "delivered x = delivered (run_execution r)"
    using plan_skip [OF plan w] by blast
  obtain ps where ps: "step_result step = Object ps" using step_result_object by blast
  obtain v where v: "j_set (step_result step) ''error'' (String m) = Inr v" unfolding ps by (simp add: j_set_def)
  have same: "step_result v = step_result step" using step_result_set [OF v] by simp
  show ?thesis
    using run inv s st x same unfolding run_fail_def
    by (auto simp: v Let_def run_inv_def cards_ok_def reported_def)
qed

lemma filter_step_inv:
  assumes inv: "run_inv r" and s: "\<not> run_done r" "run_waiting r = None" and run: "filter_step st r = (res, r')"
  shows "run_inv r' \<and> \<not> run_done r' \<and> (res = Inr None \<longrightarrow> \<not> run_starting r' \<and> run_waiting r' = None)"
proof (cases "run_starting r")
  case False
  then show ?thesis using inv run s by (simp add: filter_step_def)
next
  case True
  have f: "filters_ok r" "plan_ok (run_definition r) (run_execution r)" using inv True by (auto simp: run_inv_def)
  show ?thesis
  proof (cases "run_filters r")
    case (Cons e rest)
    then show ?thesis
      using run True f s by (cases e) (auto simp: filter_step_def Let_def run_inv_def filters_ok_def split: sum.splits)
  next
    case Nil
    show ?thesis
    proof (cases "bindR (foldR (\<lambda>i out. j_push out i MAX_NODES) (run_starts r) []) (start_many (run_definition r))")
      case (Inl e)
      then show ?thesis using run True Nil inv s by (auto simp: filter_step_def)
    next
      case (Inr x)
      then obtain ids where ids: "start_many (run_definition r) ids = Inr x" by (auto simp: result_iff)
      have "plan_ok (run_definition r) x" "delivered x = []" "waiting x = None"
        using start_many_ok [OF ids] ids by (auto simp: plan_ok_def delivered_def start_many_def result_iff)
      then show ?thesis
        using run True Nil Inr f s by (auto simp: filter_step_def run_inv_def filters_ok_def cards_ok_def reported_def)
    qed
  qed
qed

lemma run_dispatch_inv:
  assumes inv: "run_inv r" and s: "\<not> run_done r" "\<not> run_starting r" "run_waiting r \<noteq> None" and run: "run_dispatch st step now r = (res, r')"
  shows "run_inv r'"
proof -
  have wake: "run_inv (r\<lparr>run_wake := w\<rparr>)" for w using inv by simp
  show ?thesis
    using run inv wake run_complete_inv [OF inv]
    by (auto simp: run_dispatch_def delay_card_def Let_def split: sum.splits if_splits option.splits prod.splits)
qed

lemma run_card_inv:
  assumes inv: "run_inv r" and s: "\<not> run_done r" "\<not> run_starting r" "run_waiting r = None" and run: "run_card st now r = (res, r')"
  shows "run_inv r' \<and> is_ok res"
proof -
  have plan: "plan_ok (run_definition r) (run_execution r)" "waiting (run_execution r) = None" and c: "cards_ok r"
    using inv s by (auto simp: run_inv_def cards_ok_def)
  from plan_next [OF plan] show ?thesis
  proof (elim disjE exE conjE)
    assume "exec_next (run_execution r) (run_definition r) = (Inr None, run_execution r)"
    then show ?thesis using run inv s c by (auto simp: run_card_def run_inv_def cards_ok_def reported_def)
  next
    fix i x step
    assume x: "exec_next (run_execution r) (run_definition r) = (Inr (Some (j_array (run_definition r) ''nodes'' ! i)), x)"
      "plan_ok (run_definition r) x" "waiting x = Some i" "delivered x = delivered (run_execution r) @ [i]"
      "j_get (j_array (run_definition r) ''nodes'' ! i) ''step'' = Some step"
    let ?r = "r\<lparr>run_execution := x, run_waiting := Some step\<rparr>"
    have card: "card_result (run_definition r) i = step_result step" using x(5) by (simp add: card_result_def j_field_def)
    have i1: "run_inv ?r"
      using c x s card by (auto simp: run_inv_def cards_ok_def reported_def)
    obtain d r2 where d: "run_dispatch st step now ?r = (d, r2)" by fastforce
    have i2: "run_inv r2" using run_dispatch_inv [OF i1 _ _ _ d] s by simp
    show ?thesis
    proof (cases d)
      case (Inr eff)
      then show ?thesis using run x(1,5) d i2 by (auto simp: run_card_def Let_def)
    next
      case (Inl e)
      obtain g r3 where g: "run_fail (error_text e) r2 = (g, r3)" by fastforce
      show ?thesis using run x(1,5) d Inl g run_fail_inv [OF i2 g] by (auto simp: run_card_def Let_def)
    qed
  qed
qed

lemma run_advance_inv:
  assumes inv: "run_inv r" and run: "run_advance st now r = (res, r')"
  shows "run_inv r'"
proof (cases "run_done r \<or> run_deadline r \<le> now")
  case True
  then show ?thesis
    using inv run run_stop_inv [OF inv, of "''flow execution timed out''"]
    by (auto simp: run_advance_def split: if_splits sum.splits prod.splits)
next
  case False
  show ?thesis
  proof (cases "run_wake r")
    case (Some w)
    have wake: "run_inv (r\<lparr>run_wake := None\<rparr>)" using inv by simp
    show ?thesis
      using run False Some inv run_complete_inv [OF wake] by (auto simp: run_advance_def split: if_splits sum.splits prod.splits)
  next
    case None
    show ?thesis
    proof (cases "run_waiting r")
      case (Some step)
      then show ?thesis using run False None inv by (simp add: run_advance_def)
    next
      case w: None
      obtain f r1 where f: "filter_step st r = (f, r1)" by fastforce
      note fi = filter_step_inv [OF inv _ w f]
      show ?thesis
        using run False None w f fi run_card_inv [of r1 st now res r']
        by (auto simp: run_advance_def split: if_splits sum.splits option.splits)
    qed
  qed
qed

lemma match_nodes_length:
  assumes "foldR (match_node input) nodes (m, f) = Inr (m', f')"
  shows "length m' + length f' \<le> length m + length f + length nodes"
  using assms
proof (induction nodes arbitrary: m f)
  case (Cons n nodes)
  obtain m1 f1 where s: "match_node input n (m, f) = Inr (m1, f1)" "foldR (match_node input) nodes (m1, f1) = Inr (m', f')"
    using Cons.prems by (auto simp: result_iff)
  have "length m1 + length f1 \<le> Suc (length m + length f)"
    using s(1) by (auto simp: match_node_def Let_def result_iff j_push_def split: if_splits)
  then show ?case using Cons.IH [OF s(2)] by simp
qed simp

lemma run_manual_parts:
  assumes "run_manual def now at = Inr r"
  shows "run_definition r = def \<and> run_starting r = False \<and> run_done r = False \<and> run_waiting r = None \<and> run_filtering r = None
    \<and> run_conditions r = [] \<and> run_actions r = [] \<and> checked_add now TIMEOUT_MS = Some (run_deadline r)
    \<and> (\<exists>ids. start_many def ids = Inr (run_execution r))"
  using assms by (auto simp: run_manual_def result_iff)

lemma started_plan:
  assumes "start_many def ids = Inr x"
  shows "plan_ok def x \<and> delivered x = [] \<and> waiting x = None"
  using start_many_ok [OF assms] assms by (auto simp: plan_ok_def delivered_def start_many_def result_iff)

section \<open>Reachable runs\<close>

text \<open>Everything the owner of a run may do with it, on stores of its choice.\<close>

inductive run_reached :: "'s itself \<Rightarrow> u64 \<Rightarrow> run \<Rightarrow> bool" for st :: "'s itself" and t0 :: u64 where
  manual: "run_manual def t0 at = Inr r \<Longrightarrow> run_reached st t0 r"
| selected: "run_selected def starts context t0 at = Inr r \<Longrightarrow> run_reached st t0 r"
| triggered: "run_triggered def input t0 at = Inr (Some r) \<Longrightarrow> run_reached st t0 r"
| advance: "run_reached st t0 r \<Longrightarrow> run_advance (s :: 's store) now r = (res, r') \<Longrightarrow> run_reached st t0 r'"
| complete: "run_reached st t0 r \<Longrightarrow> run_complete v now r = (res, r') \<Longrightarrow> run_reached st t0 r'"
| fail: "run_reached st t0 r \<Longrightarrow> run_fail m r = (res, r') \<Longrightarrow> run_reached st t0 r'"
| stop: "run_reached st t0 r \<Longrightarrow> run_stop m r = (res, r') \<Longrightarrow> run_reached st t0 r'"

lemma run_reached_inv: "run_reached st t0 r \<Longrightarrow> run_inv r"
proof (induction rule: run_reached.induct)
  case (manual def ran r)
  then show ?case
    using run_manual_parts [OF manual] started_plan by (fastforce simp: run_inv_def cards_ok_def reported_def)
next
  case (selected def starts ctx ran r)
  then obtain r0 x where "run_manual def t0 ran = Inr r0" "start_many def starts = Inr x"
      "r = r0\<lparr>run_execution := x, run_context := ctx\<rparr>"
    by (auto simp: run_selected_def result_iff)
  then show ?case
    using run_manual_parts started_plan by (fastforce simp: run_inv_def cards_ok_def reported_def)
next
  case (triggered def input ran r)
  then obtain m f r0 x where p: "foldR (match_node input) (j_array def ''nodes'') ([], []) = Inr (m, f)"
      "run_manual def t0 ran = Inr r0" "start_many def [] = Inr x"
      "r = r0\<lparr>run_execution := x, run_context := input, run_starts := m, run_filters := f, run_starting := True\<rparr>"
    by (auto simp: run_triggered_def result_iff split: if_splits)
  have "length (j_array def ''nodes'') \<le> MAX_NODES"
    using start_many_ok [OF p(3)] by (auto simp: flow_ready_def graph_ok_def)
  then have "length m + length f \<le> MAX_NODES" using match_nodes_length [OF p(1)] by simp
  then show ?case
    using run_manual_parts [OF p(2)] started_plan [OF p(3)] p(4) by (auto simp: run_inv_def filters_ok_def)
next
  case (advance r s now res r')
  then show ?case using run_advance_inv by blast
next
  case (complete r v now res r')
  then show ?case using run_complete_inv by blast
next
  case (fail r m res r')
  then show ?case using run_fail_inv by blast
next
  case (stop r m res r')
  then show ?case using run_stop_inv by blast
qed

lemma run_stop_deadline: "run_deadline (snd (run_stop m r)) = run_deadline r"
  by (auto simp: run_stop_def Let_def split: option.splits)

lemma complete_card_deadline: "run_deadline (snd (complete_card step v c raw r)) = run_deadline r"
  by (auto simp: complete_card_def Let_def split: sum.splits prod.splits)

lemma run_complete_deadline: "run_deadline (snd (run_complete v now r)) = run_deadline r"
  by (auto simp: run_complete_def complete_filter_def run_stop_deadline complete_card_deadline split: option.splits sum.splits)

lemma run_fail_deadline: "run_deadline (snd (run_fail m r)) = run_deadline r"
  by (auto simp: run_fail_def run_stop_deadline Let_def split: option.splits sum.splits prod.splits)

lemma filter_step_deadline: "run_deadline (snd (filter_step s r)) = run_deadline r"
  by (auto simp: filter_step_def Let_def split: list.splits sum.splits)

lemma run_dispatch_deadline: "run_deadline (snd (run_dispatch s step now r)) = run_deadline r"
proof (cases "step_args s step (run_context r)")
  case (Inr args)
  have "run_deadline (snd (case run_complete (Bool b) now r of (Inl e, r1) \<Rightarrow> (Inl e, r1) | (Inr _, r1) \<Rightarrow> (Inr WaitingEffect, r1)))
      = run_deadline r" for b
  proof -
    obtain y r1 where c: "run_complete (Bool b) now r = (y, r1)" by fastforce
    then show ?thesis using run_complete_deadline [of "Bool b" now r] by (cases y) simp_all
  qed
  moreover have "run_deadline (snd (delay_card args now r)) = run_deadline r"
    by (simp add: delay_card_def split: option.split)
  ultimately show ?thesis
    unfolding run_dispatch_def Inr Let_def by (simp split: sum.split)
qed (simp add: run_dispatch_def)

lemma run_card_deadline: "run_deadline (snd (run_card s now r)) = run_deadline r"
proof -
  have step: "run_deadline (snd (case run_dispatch s step now r1 of (Inr eff, r2) \<Rightarrow> (Inr eff, r2)
      | (Inl e, r2) \<Rightarrow> (case run_fail (error_text e) r2 of (Inl e', r3) \<Rightarrow> (Inl e', r3)
          | (Inr _, r3) \<Rightarrow> (Inr (if run_done r3 then FinishedEffect else WaitingEffect), r3)))) = run_deadline r1" for step r1
  proof -
    obtain d r2 where d: "run_dispatch s step now r1 = (d, r2)" by fastforce
    then have r2: "run_deadline r2 = run_deadline r1" using run_dispatch_deadline [of s step now r1] by simp
    show ?thesis
    proof (cases d)
      case (Inl e)
      obtain g r3 where g: "run_fail (error_text e) r2 = (g, r3)" by fastforce
      then show ?thesis using d Inl r2 run_fail_deadline [of "error_text e" r2] by (cases g) simp_all
    qed (use d r2 in simp)
  qed
  obtain n x where "exec_next (run_execution r) (run_definition r) = (n, x)" by fastforce
  then show ?thesis
    unfolding run_card_def Let_def using step by (cases n) (simp_all split: option.split)
qed

lemma run_advance_deadline: "run_deadline (snd (run_advance s now r)) = run_deadline r"
proof -
  obtain y r1 where c: "run_complete (Bool True) now (r\<lparr>run_wake := None\<rparr>) = (y, r1)" by fastforce
  then have r1: "run_deadline r1 = run_deadline r" using run_complete_deadline [of "Bool True" now "r\<lparr>run_wake := None\<rparr>"] by simp
  obtain z r2 where t: "run_stop ''flow execution timed out'' r = (z, r2)" by fastforce
  then have r2: "run_deadline r2 = run_deadline r" using run_stop_deadline [of "''flow execution timed out''" r] by simp
  obtain f r3 where g: "filter_step s r = (f, r3)" by fastforce
  then have r3: "run_deadline r3 = run_deadline r" using filter_step_deadline [of s r] by simp
  show ?thesis
    unfolding run_advance_def c t g using r1 r2 r3 run_card_deadline [of s now r3]
    by (cases y; cases z; cases f) (simp_all split: option.split)
qed

lemma run_reached_deadline: "run_reached st t0 r \<Longrightarrow> checked_add t0 TIMEOUT_MS = Some (run_deadline r)"
proof (induction rule: run_reached.induct)
  case (manual def ran r)
  then show ?case using run_manual_parts by blast
next
  case (selected def starts ctx ran r)
  then obtain r0 x where "run_manual def t0 ran = Inr r0" "r = r0\<lparr>run_execution := x, run_context := ctx\<rparr>"
    by (auto simp: run_selected_def result_iff)
  then show ?case using run_manual_parts by fastforce
next
  case (triggered def input ran r)
  then obtain m f r0 x where "run_manual def t0 ran = Inr r0"
      "r = r0\<lparr>run_execution := x, run_context := input, run_starts := m, run_filters := f, run_starting := True\<rparr>"
    by (auto simp: run_triggered_def result_iff split: if_splits)
  then show ?case using run_manual_parts by fastforce
next
  case (advance r s now res r')
  then show ?case using run_advance_deadline [of s now r] by simp
next
  case (complete r v now res r')
  then show ?case using run_complete_deadline [of v now r] by simp
next
  case (fail r m res r')
  then show ?case using run_fail_deadline [of m r] by simp
next
  case (stop r m res r')
  then show ?case using run_stop_deadline [of m r] by simp
qed

text \<open>C10: A run accounts for every card exactly once. Whatever the owner does with it, the cards handed out are
  distinct and never triggers, and once the filters of its event are answered the results are those of the
  cards handed out, each once, except for the one it still waits for; there are never more than 128.\<close>

theorem run_reports_every_card:
  assumes "run_reached st t0 r"
  shows "distinct (delivered (run_execution r))
    \<and> (\<forall>i \<in> set (delivered (run_execution r)). flow_kind (j_array (run_definition r) ''nodes'' ! i) \<noteq> ''trigger'')
    \<and> (\<not> run_starting r \<longrightarrow>
         reported r + (if run_done r then {#} else case run_waiting r of None \<Rightarrow> {#} | Some step \<Rightarrow> {#step_result step#})
           = mset (map (card_result (run_definition r)) (delivered (run_execution r))))
    \<and> length (run_conditions r) + length (run_actions r) \<le> MAX_NODES"
proof -
  note inv = run_reached_inv [OF assms]
  have plan: "plan_ok (run_definition r) (run_execution r)" using inv by (simp add: run_inv_def)
  note d = plan_delivered [OF plan]
  have n: "length (j_array (run_definition r) ''nodes'') \<le> MAX_NODES"
    using plan flow_validate_ready [of "run_definition r"] by (auto simp: plan_ok_def flow_ready_def graph_ok_def)
  have len: "length (delivered (run_execution r)) \<le> MAX_NODES"
    using distinct_bounded_length [of "delivered (run_execution r)" "length (j_array (run_definition r) ''nodes'')"] d n by force
  have "length (run_conditions r) + length (run_actions r) \<le> MAX_NODES"
  proof (cases "run_starting r")
    case True
    then show ?thesis using inv by (auto simp: run_inv_def filters_ok_def MAX_NODES_def split: if_splits)
  next
    case False
    then have "size (reported r) \<le> size (mset (map (card_result (run_definition r)) (delivered (run_execution r))))"
      using inv unfolding run_inv_def cards_ok_def by (metis mset_subset_eq_add_left size_mset_mono)
    then show ?thesis using len by (simp add: reported_def)
  qed
  then show ?thesis using inv d by (auto simp: run_inv_def cards_ok_def)
qed

text \<open>C28: A run ends within 45 seconds: from the moment its deadline has passed the next turn finishes it, a
  result can then be read, and nothing that arrives later changes it.\<close>

theorem run_ends:
  assumes "run_reached TYPE('s) t0 r" and "run_deadline r \<le> now"
  shows "unat (run_deadline r) = unat t0 + 45000
    \<and> (\<exists>r'. run_advance (s :: 's store) now r = (Inr FinishedEffect, r') \<and> run_done r' \<and> is_ok (run_result r')
        \<and> (\<forall>v t m. run_advance s t r' = (Inr FinishedEffect, r') \<and> run_complete v t r' = (Inr (), r')
            \<and> run_fail m r' = (Inr (), r') \<and> run_stop m r' = (Inr (), r')))"
proof -
  have frozen: "run_advance s t x = (Inr FinishedEffect, x) \<and> run_complete v t x = (Inr (), x)
      \<and> run_fail m x = (Inr (), x) \<and> run_stop m x = (Inr (), x) \<and> is_ok (run_result x)" if "run_done x" for x v t m
    using that by (auto simp: run_advance_def run_complete_def run_fail_def run_stop_def run_result_def Let_def j_set_def j_fields_def)
  obtain u r1 where stop: "run_stop ''flow execution timed out'' r = (u, r1)" by fastforce
  have "u = Inr ()" "run_done r1" using run_stop_inv [OF run_reached_inv [OF assms(1)] stop] by auto
  then have "\<exists>r'. run_advance s now r = (Inr FinishedEffect, r') \<and> run_done r'"
    using assms(2) stop by (cases "run_done r") (auto simp: run_advance_def)
  moreover have "unat (run_deadline r) = unat t0 + 45000"
    using checked_add_unat [OF run_reached_deadline [OF assms(1)]] by (simp add: TIMEOUT_MS_def)
  ultimately show ?thesis using frozen by blast
qed

text \<open>The example flow, tested by hand: its action is unknown, which its result says.\<close>

definition first_run :: run where
  "first_run = (case run_manual example_flow 5 ''noon'' of Inr r \<Rightarrow> r)"

lemma first_run_manual: "run_manual example_flow 5 ''noon'' = Inr first_run"
proof -
  have "is_ok (run_manual example_flow 5 ''noon'')" by code_simp
  then show ?thesis by (auto simp: first_run_def is_ok_iff)
qed

lemma first_turn:
  "(\<lambda>r. (run_done r, run_starting r, run_waiting r, delivered (run_execution r), run_definition r = example_flow))
     (snd (run_advance (s :: unit store) 6 first_run)) = (False, False, None, [1], True)"
  by code_simp

theorem run_reports_every_card_witness:
  "\<forall>s :: unit store. reported (snd (run_advance s 6 first_run)) = {#card_result example_flow 1#}"
proof
  fix s :: "unit store"
  let ?r = "snd (run_advance s 6 first_run)"
  have "run_reached TYPE(unit) 5 ?r"
    by (rule run_reached.advance [OF run_reached.manual [OF first_run_manual] surjective_pairing])
  from run_reports_every_card [OF this] show "reported ?r = {#card_result example_flow 1#}"
    using first_turn [of s] by simp
qed

theorem run_ends_witness:
  "\<forall>s :: unit store. \<exists>r'. run_advance s 45005 first_run = (Inr FinishedEffect, r') \<and> run_done r'"
proof -
  have d: "run_deadline first_run \<le> 45005" by code_simp
  have "run_reached TYPE(unit) 5 first_run" by (rule run_reached.manual [OF first_run_manual])
  from run_ends [OF this d] show ?thesis by blast
qed

end
