(* ===== verification/Calendar.thy ===== *)
theory Calendar
  imports Time
begin

text \<open>
  The local calendar of the automation runtime, \<^verbatim>\<open>crates/runtime/src/calendar.rs\<close>: midnight of a date and
  the date of an instant under a UTC offset. The numbers are those of the source (\<open>i64\<close>, \<open>i32\<close>, \<open>u8\<close>) as
  integers; the two sums that may leave 64 bits are checked as in the source, the others stay far inside.
  Shown here: dates and instants are inverse to each other, and midnight counts the days of the calendar.
\<close>

record civil_time =
  c_year :: int
  c_month :: int
  c_day :: int
  c_hour :: int
  c_minute :: int
  c_offset :: int

definition leap :: "int \<Rightarrow> bool" where
  "leap year \<longleftrightarrow> year mod 4 = 0 \<and> (year mod 100 \<noteq> 0 \<or> year mod 400 = 0)"

definition month_days :: "int \<Rightarrow> int \<Rightarrow> int" where
  "month_days year month =
     (if month \<in> {1, 3, 5, 7, 8, 10, 12} then 31
      else if month \<in> {4, 6, 9, 11} then 30
      else if month = 2 then (if leap year then 29 else 28)
      else 0)"

definition midnight :: "int \<Rightarrow> int \<Rightarrow> int \<Rightarrow> int result" where
  "midnight year month day =
     (if \<not> (1 \<le> year \<and> year \<le> 9999) \<or> day = 0 \<or> month_days year month < day
      then Inl (Invalid ''calendar date out of range'')
      else let y = year - (if month \<le> 2 then 1 else 0);
               era = y div 400;
               yo = y - era * 400;
               m = month + (if 2 < month then - 3 else 9);
               doy = (153 * m + 2) div 5 + day - 1
           in Inr ((era * 146097 + yo * 365 + yo div 4 - yo div 100 + doy - 719468) * 86400))"

definition checked_i64 :: "int \<Rightarrow> int option" where
  "checked_i64 n = (if - (2 ^ 63) \<le> n \<and> n < 2 ^ 63 then Some n else None)"

definition civil :: "int \<Rightarrow> int \<Rightarrow> civil_time result" where
  "civil unix offset =
     bindR (ok_or (checked_i64 (unix + offset)) Full) (\<lambda>local.
     let day = local div 86400 in
     bindR (ok_or (checked_i64 (day + 719468)) Full) (\<lambda>z.
     let era = z div 146097;
         doe = z - era * 146097;
         yo = (doe - doe div 1460 + doe div 36524 - doe div 146096) div 365;
         doy = doe - (365 * yo + yo div 4 - yo div 100);
         mp = (5 * doy + 2) div 153;
         d = doy - (153 * mp + 2) div 5 + 1;
         m = mp + (if mp < 10 then 3 else - 9);
         y = yo + era * 400 + (if m \<le> 2 then 1 else 0)
     in if \<not> (1 \<le> y \<and> y \<le> 9999) then Inl (Invalid ''clock date out of range'')
        else Inr \<lparr>c_year = y, c_month = m, c_day = d, c_hour = local mod 86400 div 3600,
                  c_minute = local mod 3600 div 60, c_offset = offset\<rparr>))"

section \<open>Dates and days\<close>

definition valid_date :: "int \<Rightarrow> int \<Rightarrow> int \<Rightarrow> bool" where
  "valid_date y m d \<longleftrightarrow> 1 \<le> y \<and> y \<le> 9999 \<and> 1 \<le> m \<and> m \<le> 12 \<and> 1 \<le> d \<and> d \<le> month_days y m"

text \<open>The months of a year that starts in March, and the length of a year of the era.\<close>

definition march_days :: "int \<Rightarrow> int" where
  "march_days mp = (if mp = 11 then 29 else if mp \<in> {1, 3, 6, 8} then 30 else 31)"

definition year_days :: "int \<Rightarrow> int" where
  "year_days yo = (if leap (yo + 1) then 366 else 365)"

lemma march_months:
  "list_all (\<lambda>mp. list_all (\<lambda>d. 1 \<le> d \<and> d \<le> march_days mp \<longrightarrow>
     (let doy = (153 * mp + 2) div 5 + d - 1 in (5 * doy + 2) div 153 = mp \<and> 0 \<le> doy \<and> doy \<le> 365 \<and> (doy = 365 \<longleftrightarrow> mp = 11 \<and> d = 29)))
       (map int [0..<32])) (map int [0..<12])"
  by code_simp

lemma era_years:
  "list_all (\<lambda>y. year_of_era (days_before y) = y \<and> year_of_era (days_before y + year_days y - 1) = y
     \<and> days_before y + year_days y \<le> 146097 \<and> 0 \<le> days_before y) (map int [0..<400])"
  by code_simp

lemma leap_mod: "leap ((y - 1) mod 400 + 1) = leap y"
proof -
  have "((y - 1) mod 400 + 1) mod c = y mod c" if "c dvd 400" for c :: int
    using mod_add_left_eq [of "(y - 1) mod 400" c 1] mod_add_left_eq [of "y - 1" c 1] mod_mod_cancel [OF that, of "y - 1"] by simp
  then show ?thesis by (simp add: leap_def)
qed

lemma month_numbers:
  assumes "valid_date y m d"
  shows "m \<in> {1, 2, 3, 4, 5, 6, 7, 8, 9, 10, 11, 12}"
proof -
  have "list_all (\<lambda>m. 1 \<le> m \<longrightarrow> m \<in> {1, 2, 3, 4, 5, 6, 7, 8, 9, 10, 11, 12}) (map int [0..<13])" by code_simp
  from list_all_below [OF this, of m] show ?thesis using assms by (simp add: valid_date_def)
qed

lemma march_date:
  assumes "valid_date y m d"
  defines "mp \<equiv> m + (if 2 < m then - 3 else 9)" and "yo \<equiv> (y - (if m \<le> 2 then 1 else 0)) mod 400"
  shows "0 \<le> mp" "mp < 12" "d \<le> march_days mp" "mp = 11 \<and> d = 29 \<Longrightarrow> year_days yo = 366" "1 \<le> d" "d \<le> 31"
proof -
  have m: "m \<in> {1, 2, 3, 4, 5, 6, 7, 8, 9, 10, 11, 12}" by (rule month_numbers [OF assms(1)])
  have d: "1 \<le> d" "d \<le> month_days y m" using assms(1) by (simp_all add: valid_date_def)
  have len: "0 \<le> mp \<and> mp < 12 \<and> month_days y m \<le> march_days mp \<and> march_days mp \<le> 31"
    using m unfolding mp_def by (elim insertE emptyE) (simp_all add: month_days_def march_days_def)
  show "0 \<le> mp" "mp < 12" "d \<le> march_days mp" "1 \<le> d" "d \<le> 31"
    using d len by simp_all
  assume *: "mp = 11 \<and> d = 29"
  then have "m = 2" using m by (auto simp: mp_def split: if_splits)
  then have "leap y" using d * by (simp add: month_days_def split: if_splits)
  moreover have "yo = (y - 1) mod 400" using \<open>m = 2\<close> by (simp add: yo_def)
  ultimately show "year_days yo = 366" by (simp add: year_days_def leap_mod)
qed

lemma march_inverse:
  assumes "0 \<le> mp" "mp < 12" "1 \<le> d" "d \<le> 31" "d \<le> march_days mp"
  shows "(5 * ((153 * mp + 2) div 5 + d - 1) + 2) div 153 = mp" "0 \<le> (153 * mp + 2) div 5 + d - 1"
    "(153 * mp + 2) div 5 + d - 1 \<le> 365" "(153 * mp + 2) div 5 + d - 1 = 365 \<longleftrightarrow> mp = 11 \<and> d = 29"
  using list_all_below [OF list_all_below [OF march_months assms(1)], of d] assms by (simp_all add: Let_def)

lemma era_inverse:
  assumes "0 \<le> yo" "yo < 400" "0 \<le> doy" "doy < year_days yo"
  shows "year_of_era (days_before yo + doy) = yo" "0 \<le> days_before yo + doy" "days_before yo + doy < 146097"
proof -
  have e: "year_of_era (days_before yo) = yo" "year_of_era (days_before yo + year_days yo - 1) = yo"
    "days_before yo + year_days yo \<le> 146097" "0 \<le> days_before yo"
    using list_all_below [OF era_years assms(1)] assms(2) by simp_all
  show "0 \<le> days_before yo + doy" "days_before yo + doy < 146097" using e assms by simp_all
  have "yo \<le> year_of_era (days_before yo + doy)"
    using year_of_era_mono [of "days_before yo" "days_before yo + doy"] e assms by simp
  moreover have "year_of_era (days_before yo + doy) \<le> yo"
    using year_of_era_mono [of "days_before yo + doy" "days_before yo + year_days yo - 1"] e assms by simp
  ultimately show "year_of_era (days_before yo + doy) = yo" by simp
qed

text \<open>The number of a day since 1970, as \<open>midnight\<close> computes it.\<close>

definition day_number :: "int \<Rightarrow> int \<Rightarrow> int \<Rightarrow> int" where
  "day_number y m d =
     (let y' = y - (if m \<le> 2 then 1 else 0); mp = m + (if 2 < m then - 3 else 9)
      in y' div 400 * 146097 + days_before (y' mod 400) + ((153 * mp + 2) div 5 + d - 1) - 719468)"

lemma midnight_eq:
  "midnight y m d = (if \<not> (1 \<le> y \<and> y \<le> 9999) \<or> d = 0 \<or> month_days y m < d
     then Inl (Invalid ''calendar date out of range'') else Inr (day_number y m d * 86400))"
proof -
  have "a * 146097 + yo * 365 + yo div 4 - yo div 100 + doy - 719468 = a * 146097 + days_before yo + doy - 719468" for a yo doy :: int
    by (simp add: days_before_def)
  then show ?thesis unfolding midnight_def day_number_def Let_def minus_div_mult_eq_mod by (simp only:)
qed

lemma civil_eq:
  "civil unix off =
     bindR (ok_or (checked_i64 (unix + off)) Full) (\<lambda>local.
     bindR (ok_or (checked_i64 (local div 86400 + 719468)) Full) (\<lambda>_.
     case civil_from_days (local div 86400) of (y, m, d) \<Rightarrow>
       if \<not> (1 \<le> y \<and> y \<le> 9999) then Inl (Invalid ''clock date out of range'')
       else Inr \<lparr>c_year = y, c_month = m, c_day = d, c_hour = local mod 86400 div 3600,
              c_minute = local mod 3600 div 60, c_offset = off\<rparr>))"
proof -
  have c: "bindR (ok_or (checked_i64 n) Full) f = bindR (ok_or (checked_i64 n) Full) (\<lambda>_. f n)" for n and f :: "int \<Rightarrow> civil_time result"
    by (simp add: checked_i64_def)
  have m: "mp + (if mp < 10 then 3 else - 9) = (if mp < 10 then mp + 3 else mp - 9)" for mp :: int by simp
  show ?thesis
    unfolding civil_def civil_from_days_def Let_def m prod.case by (subst (2) c) (rule refl)
qed

lemma civil_from_day_number:
  assumes "valid_date y m d"
  shows "civil_from_days (day_number y m d) = (y, m, d)"
proof -
  define y' where "y' = y - (if m \<le> 2 then 1 else 0)"
  define mp where "mp = m + (if 2 < m then - 3 else 9)"
  define yo where "yo = y' mod 400"
  define doy where "doy = (153 * mp + 2) div 5 + d - 1"
  note mar = march_date [OF assms, folded mp_def y'_def, folded yo_def]
  note inv = march_inverse [OF mar(1,2,5,6,3), folded doy_def]
  have yo: "0 \<le> yo" "yo < 400" by (simp_all add: yo_def)
  have "doy < year_days yo"
  proof (cases "doy = 365")
    case False
    then have "doy < 365" using inv(3) by simp
    then show ?thesis by (simp add: year_days_def)
  qed (use inv(4) mar(4) in simp)
  note era = era_inverse [OF yo inv(2) this]
  have z: "day_number y m d + 719468 = y' div 400 * 146097 + (days_before yo + doy)"
    by (simp add: day_number_def Let_def y'_def mp_def yo_def doy_def)
  have zd: "(y' div 400 * 146097 + (days_before yo + doy)) div 146097 = y' div 400" using era(2,3) by simp
  have e: "a * 146097 + x - a * 146097 = x" "days_before yo + x - days_before yo = x" for a x :: int by simp_all
  have d: "doy - (153 * mp + 2) div 5 + 1 = d" by (simp add: doy_def)
  have mm: "(if mp < 10 then mp + 3 else mp - 9) = m" using assms by (auto simp: mp_def valid_date_def)
  have yy: "yo + y' div 400 * 400 + (if m \<le> 2 then 1 else 0) = y" unfolding yo_def mod_mult_div_eq [symmetric] by (simp add: y'_def)
  show ?thesis
    unfolding civil_from_days_def Let_def z zd e year_of_era_def [symmetric] era(1) days_before_def [symmetric] inv(1) d mm yy ..
qed

lemma valid_date_range: "valid_date y m d \<Longrightarrow> - 1000000 < day_number y m d \<and> day_number y m d < 4000000"
proof -
  assume v: "valid_date y m d"
  define y' where "y' = y - (if m \<le> 2 then 1 else 0)"
  define mp where "mp = m + (if 2 < m then - 3 else 9)"
  note mar = march_date [OF v, folded mp_def y'_def]
  note inv = march_inverse [OF mar(1,2,5,6,3)]
  have y: "0 \<le> y'" "y' \<le> 9999" using v by (auto simp: valid_date_def y'_def)
  then have "0 \<le> y' div 400" "y' div 400 < 25" by auto
  moreover have "0 \<le> y' mod 400" "y' mod 400 < 400" by simp_all
  then have "0 \<le> days_before (y' mod 400)" "days_before (y' mod 400) < 146097"
    unfolding days_before_def by linarith+
  ultimately show ?thesis
    using inv(2,3) unfolding day_number_def Let_def y'_def [symmetric] mp_def [symmetric] by linarith
qed

text \<open>The day after a date.\<close>

definition next_date :: "int \<Rightarrow> int \<Rightarrow> int \<Rightarrow> int \<times> int \<times> int" where
  "next_date y m d = (if d < month_days y m then (y, m, d + 1) else if m < 12 then (y, m + 1, 1) else (y + 1, 1, 1))"

definition era_day :: "int \<Rightarrow> int" where
  "era_day y = y div 400 * 146097 + days_before (y mod 400)"

lemma days_before_next: "list_all (\<lambda>k. days_before (k + 1) = days_before k + year_days k) (map int [0..<399])"
  by code_simp

lemma era_day_step: "era_day y = era_day (y - 1) + (if leap y then 366 else 365)"
proof -
  define k where "k = (y - 1) mod 400"
  define q where "q = (y - 1) div 400"
  have k: "0 \<le> k" "k < 400" and y: "y = q * 400 + (k + 1)"
    by (simp_all add: k_def q_def)
  have l: "year_days k = (if leap y then 366 else 365)" unfolding year_days_def k_def leap_mod ..
  show ?thesis
  proof (cases "k = 399")
    case True
    then have "y div 400 = q + 1" "y mod 400 = 0" using y by simp_all
    moreover have "year_days 399 = 366" "days_before 399 = 145731" "days_before 0 = 0" by code_simp+
    ultimately show ?thesis unfolding l [symmetric] era_day_def k_def [symmetric] q_def [symmetric] by (simp add: True)
  next
    case False
    then have "k + 1 < 400" using k by simp
    then have "y div 400 = q" "y mod 400 = k + 1" using y k by simp_all
    moreover have "days_before (k + 1) = days_before k + year_days k"
      using list_all_below [OF days_before_next k(1)] k False by simp
    ultimately show ?thesis unfolding l [symmetric] era_day_def k_def [symmetric] q_def [symmetric] by simp
  qed
qed

lemma day_number_eq:
  "day_number y m d = (if m \<le> 2 then era_day (y - 1) else era_day y) + ((153 * (m + (if 2 < m then - 3 else 9)) + 2) div 5 + d - 1) - 719468"
  by (simp add: day_number_def era_day_def Let_def)

lemma day_number_next:
  assumes "valid_date y m d" and "next_date y m d = (y2, m2, d2)"
  shows "day_number y2 m2 d2 = day_number y m d + 1"
proof (cases "d < month_days y m")
  case True
  then show ?thesis using assms(2) by (auto simp: next_date_def day_number_eq)
next
  case False
  then have d: "d = month_days y m" using assms(1) by (simp add: valid_date_def)
  have n: "(y2, m2, d2) = (if m < 12 then (y, m + 1, 1) else (y + 1, 1, 1))" using assms(2) False by (simp add: next_date_def)
  have "\<And>y2 m2 d2. (y2, m2, d2) = (if m < 12 then (y, m + 1, 1) else (y + 1, 1, 1)) \<Longrightarrow> day_number y2 m2 d2 = day_number y m (month_days y m) + 1"
    using month_numbers [OF assms(1)] era_day_step [of y]
    by (elim insertE emptyE) (simp_all add: day_number_eq month_days_def)
  then show ?thesis using n d by blast
qed

lemma doy_dates:
  "list_all (\<lambda>doy. let mp = (5 * doy + 2) div 153; d = doy - (153 * mp + 2) div 5 + 1 in
     0 \<le> mp \<and> mp < 12 \<and> 1 \<le> d \<and> d \<le> march_days mp \<and> (doy = 365 \<longleftrightarrow> mp = 11 \<and> d = 29)) (map int [0..<366])"
  by code_simp

lemma era_year_short:
  assumes "0 \<le> doe" "doe < 146097"
  shows "doe - days_before (year_of_era doe) < year_days (year_of_era doe)"
proof (rule ccontr)
  define yo where "yo = year_of_era doe"
  note y = year_of_era_range [OF assms, folded yo_def]
  assume "\<not> ?thesis"
  then have c: "doe = days_before yo + year_days yo" and l: "year_days yo = 365"
    using y(4) by (auto simp: yo_def year_days_def split: if_splits)
  have "year_days 399 = 366" by code_simp
  then have "yo < 399" using y(2) l by (cases "yo = 399") auto
  then have "days_before (yo + 1) = doe" using list_all_below [OF days_before_next y(1)] c by simp
  moreover have "0 < year_days (yo + 1)" by (simp add: year_days_def)
  ultimately have "year_of_era doe = yo + 1"
    using era_inverse(1) [of "yo + 1" 0] y(1) \<open>yo < 399\<close> by simp
  then show False by (simp add: yo_def)
qed

lemma march_month_days:
  assumes "0 \<le> mp" "mp < 12" and "mp = 11 \<Longrightarrow> d = 29 \<Longrightarrow> leap y" and "d \<le> march_days mp" "1 \<le> d"
    and "m = (if mp < 10 then mp + 3 else mp - 9)"
  shows "1 \<le> m" "m \<le> 12" "d \<le> month_days y m"
proof -
  have "list_all (\<lambda>mp. let m = (if mp < 10 then mp + 3 else mp - 9) in 1 \<le> m \<and> m \<le> 12
      \<and> (if mp = 11 then m = 2 else march_days mp = (if m \<in> {1, 3, 5, 7, 8, 10, 12} then 31 else 30) \<and> m \<noteq> 2)
      \<and> (m \<in> {1, 3, 5, 7, 8, 10, 12} \<or> m \<in> {4, 6, 9, 11} \<or> m = 2)) (map int [0..<12])" by code_simp
  from list_all_below [OF this assms(1)] have f: "1 \<le> m" "m \<le> 12"
      "if mp = 11 then m = 2 else march_days mp = (if m \<in> {1, 3, 5, 7, 8, 10, 12} then 31 else 30) \<and> m \<noteq> 2"
      "m \<in> {1, 3, 5, 7, 8, 10, 12} \<or> m \<in> {4, 6, 9, 11} \<or> m = 2"
    using assms(2,6) by (simp_all add: Let_def)
  show "1 \<le> m" "m \<le> 12" using f by simp_all
  show "d \<le> month_days y m"
  proof (cases "mp = 11")
    case True
    then have "d = 29 \<or> d \<le> 28" "m = 2" using assms(4) f(3) by (auto simp: march_days_def)
    then show ?thesis using assms(3) True by (auto simp: month_days_def)
  next
    case False
    then show ?thesis using assms(4) f(3,4) by (auto simp: month_days_def split: if_splits)
  qed
qed

lemma civil_from_days_valid:
  assumes "civil_from_days n = (y, m, d)" and "1 \<le> y" "y \<le> 9999"
  shows "valid_date y m d" and "day_number y m d = n"
proof -
  define era where "era = (n + 719468) div 146097"
  define doe where "doe = n + 719468 - era * 146097"
  define yo where "yo = year_of_era doe"
  define doy where "doy = doe - days_before yo"
  define mp where "mp = (5 * doy + 2) div 153"
  have doe: "0 \<le> doe" "doe < 146097" by (simp_all add: doe_def era_def minus_div_mult_eq_mod)
  note yr = year_of_era_range [OF doe, folded yo_def] era_year_short [OF doe, folded yo_def, folded doy_def]
  have doy: "0 \<le> doy" "doy \<le> 365" using yr by (simp_all add: doy_def)
  have eq: "d = doy - (153 * mp + 2) div 5 + 1" "m = (if mp < 10 then mp + 3 else mp - 9)" "y = yo + era * 400 + (if m \<le> 2 then 1 else 0)"
    using assms(1) unfolding civil_from_days_def Let_def year_of_era_def [symmetric] days_before_def [symmetric]
      era_def [symmetric] doe_def [symmetric] yo_def [symmetric] doy_def [symmetric] mp_def [symmetric] by auto
  have f: "0 \<le> mp" "mp < 12" "1 \<le> d" "d \<le> march_days mp" "doy = 365 \<longleftrightarrow> mp = 11 \<and> d = 29"
    using list_all_below [OF doy_dates doy(1)] doy(2) unfolding Let_def mp_def [symmetric] eq(1) [symmetric] by simp_all
  have m12: "m \<le> 2 \<longleftrightarrow> 10 \<le> mp" using f(1,2) eq(2) by auto
  have y': "y - (if m \<le> 2 then 1 else 0) = yo + era * 400" using eq(3) by simp
  have "leap y" if "mp = 11" "d = 29"
  proof -
    have "y - 1 = yo + era * 400" using y' m12 that by simp
    then have "(y - 1) mod 400 = yo" using yr(1,2) by simp
    then show ?thesis using yr(5) f(5) that leap_mod [of y] by (simp add: year_days_def split: if_splits)
  qed
  from march_month_days [OF f(1,2) this f(4,3) eq(2)] show "valid_date y m d"
    using assms(2,3) f(3) by (simp add: valid_date_def)
  have mp': "m + (if 2 < m then - 3 else 9) = mp" using m12 eq(2) by auto
  have e: "(yo + era * 400) div 400 = era" "(yo + era * 400) mod 400 = yo" using yr(1,2) by simp_all
  show "day_number y m d = n"
    unfolding day_number_def Let_def y' mp' e by (simp add: eq(1) doy_def doe_def)
qed

text \<open>Midnight counts the days of the Gregorian calendar: 1 January 1970 is 0, every valid date has a
  midnight, that of the next date is 86400 seconds later, and every second of the date, at any UTC offset, is read
  back as that date with its hour and minute.\<close>

theorem midnight_exact:
  assumes "valid_date y m d" and "0 \<le> secs" "secs < 86400"
  shows "midnight 1970 1 1 = Inr 0 \<and> (\<exists>t. midnight y m d = Inr t
    \<and> (case next_date y m d of (y2, m2, d2) \<Rightarrow> y2 = 10000 \<or> midnight y2 m2 d2 = Inr (t + 86400))
    \<and> civil (t + secs - off) off = Inr \<lparr>c_year = y, c_month = m, c_day = d, c_hour = secs div 3600,
          c_minute = secs mod 3600 div 60, c_offset = off\<rparr>)"
proof -
  let ?t = "day_number y m d * 86400"
  have t: "midnight y m d = Inr ?t" using assms(1) by (simp add: midnight_eq valid_date_def)
  obtain y2 m2 d2 where n: "next_date y m d = (y2, m2, d2)" by (cases "next_date y m d")
  have "y2 = 10000 \<or> midnight y2 m2 d2 = Inr (?t + 86400)"
  proof (cases "y2 = 10000")
    case False
    have "1 \<le> y2 \<and> y2 \<le> 9999" "d2 \<noteq> 0" using n assms(1) False by (auto simp: next_date_def valid_date_def split: if_splits)
    moreover have "d2 \<le> month_days y2 m2"
      using month_numbers [OF assms(1)] n
      by (elim insertE emptyE) (auto simp: next_date_def month_days_def split: if_splits)
    ultimately show ?thesis using day_number_next [OF assms(1) n] by (simp add: midnight_eq)
  qed simp
  moreover have "civil (?t + secs - off) off = Inr \<lparr>c_year = y, c_month = m, c_day = d, c_hour = secs div 3600,
          c_minute = secs mod 3600 div 60, c_offset = off\<rparr>"
  proof -
    have q: "(?t + secs) div 86400 = day_number y m d" "(?t + secs) mod 86400 = secs" using assms(2,3) by simp_all
    have s: "secs mod 86400 = secs" using assms(2,3) by simp
    have h: "(?t + secs) mod 3600 = secs mod 3600" using mod_mod_cancel [of 3600 86400 "?t + secs"] q by simp
    have r: "- 1000000 < day_number y m d" "day_number y m d < 4000000" using valid_date_range [OF assms(1)] by simp_all
    then have "checked_i64 (?t + secs) = Some (?t + secs)" "checked_i64 (day_number y m d + 719468) = Some (day_number y m d + 719468)"
      using assms(2,3) by (simp_all add: checked_i64_def)
    then show ?thesis using assms(1) by (simp add: civil_eq q s h civil_from_day_number [OF assms(1)] valid_date_def)
  qed
  moreover have "midnight 1970 1 1 = Inr 0" by code_simp
  ultimately show ?thesis using t n by simp
qed

theorem midnight_exact_witness:
  "\<exists>t. midnight 2024 2 29 = Inr t \<and> midnight 2024 3 1 = Inr (t + 86400)
     \<and> civil (t + 3660 - 3600) 3600 = Inr \<lparr>c_year = 2024, c_month = 2, c_day = 29, c_hour = 1, c_minute = 1, c_offset = 3600\<rparr>"
proof -
  have v: "valid_date 2024 2 29" and n: "next_date 2024 2 29 = (2024, 3, 1)" by code_simp+
  show ?thesis using midnight_exact [OF v, of 3660 3600] n by auto
qed

text \<open>Whatever instant and offset the clock gives, a date that is read is a valid one, with its hour and
  minute in range, and it is the minute in which the local instant lies.\<close>

theorem civil_exact:
  assumes "civil unix off = Inr c"
  shows "\<exists>t. valid_date (c_year c) (c_month c) (c_day c) \<and> midnight (c_year c) (c_month c) (c_day c) = Inr t
    \<and> 0 \<le> c_hour c \<and> c_hour c < 24 \<and> 0 \<le> c_minute c \<and> c_minute c < 60 \<and> c_offset c = off
    \<and> (unix + off - t) div 60 = c_hour c * 60 + c_minute c"
proof -
  define n where "n = (unix + off) div 86400"
  define secs where "secs = (unix + off) mod 86400"
  have secs: "0 \<le> secs" "secs < 86400" "unix + off = n * 86400 + secs" by (simp_all add: secs_def n_def)
  have h: "(unix + off) mod 3600 = secs mod 3600" by (simp add: secs_def mod_mod_cancel)
  obtain y m d where c: "civil_from_days n = (y, m, d)" by (cases "civil_from_days n")
  have k: "checked_i64 (unix + off) = Some (unix + off)" using assms by (auto simp: civil_eq checked_i64_def split: if_splits)
  have y: "1 \<le> y" "y \<le> 9999" and ceq: "c = \<lparr>c_year = y, c_month = m, c_day = d, c_hour = secs div 3600,
      c_minute = secs mod 3600 div 60, c_offset = off\<rparr>"
    using assms unfolding civil_eq k by (auto simp: n_def [symmetric] secs_def [symmetric] h c bindR_Inr_iff split: if_splits)
  note v = civil_from_days_valid [OF c y]
  have "midnight y m d = Inr (n * 86400)" using v by (simp add: midnight_eq valid_date_def)
  moreover have "secs div 60 = secs div 3600 * 60 + secs mod 3600 div 60"
  proof -
    have "secs div 3600 = secs div 60 div 60" using zdiv_zmult2_eq [of 60 secs 60] by simp
    moreover have "secs mod 3600 div 60 = secs div 60 mod 60" using zmod_zmult2_eq [of 60 secs 60] by simp
    ultimately show ?thesis by simp
  qed
  moreover have "0 \<le> secs div 3600" "secs div 3600 < 24" "0 \<le> secs mod 3600 div 60" "secs mod 3600 div 60 < 60"
    using secs(1,2) by auto
  ultimately show ?thesis using v(1) secs(3) by (simp add: ceq)
qed

theorem civil_exact_witness:
  "\<exists>c t. civil (- 1) 0 = Inr c \<and> c_year c = 1969 \<and> c_hour c = 23 \<and> midnight (c_year c) (c_month c) (c_day c) = Inr t
     \<and> (- 1 + 0 - t) div 60 = c_hour c * 60 + c_minute c"
proof -
  have c: "civil (- 1) 0 = Inr \<lparr>c_year = 1969, c_month = 12, c_day = 31, c_hour = 23, c_minute = 59, c_offset = 0\<rparr>" by code_simp
  show ?thesis using civil_exact [OF c] c by auto
qed

end
