(* ===== verification/Schedule.thy ===== *)
theory Schedule
  imports FlowRun Calendar StoreLaws
begin

text \<open>
  Cards that start a Flow at a time of day, at sunrise or at sunset, \<^verbatim>\<open>crates/runtime/src/schedule.rs\<close>. The clock of the
  platform, \<open>Clock\<close>, is an argument: the local date of an instant and the instant of a solar event. Shown here:
  within a local minute every card that is due is started exactly once.
\<close>

record clock =
  clk_local :: "int \<Rightarrow> civil_time result"
  clk_solar :: "civil_time \<Rightarrow> f64 \<Rightarrow> f64 \<Rightarrow> bool \<Rightarrow> int option result"

record last_run =
  lr_flow :: string
  lr_node :: string
  lr_minute :: civil_time

definition scheduled :: "jvalue \<Rightarrow> bool" where
  "scheduled node \<longleftrightarrow>
     (let step = j_field node ''step'' in
      flow_kind node = ''trigger'' \<and> j_text step ''appId'' = ''stulp''
      \<and> j_text step ''cardId'' \<in> {''time_at'', ''sunrise'', ''sunset''})"

definition sched_number :: "jvalue \<Rightarrow> f64 option" where
  "sched_number v = (case v of Number n \<Rightarrow> Some (num_as_f64 n) | _ \<Rightarrow> None)"

text \<open>\<open>split_once(':')\<close>, and the hour and minute it gives; two digits always fit a \<open>u8\<close>.\<close>

definition time_matches :: "string \<Rightarrow> civil_time \<Rightarrow> bool" where
  "time_matches t now \<longleftrightarrow> CHR '':'' \<in> set t
     \<and> (let hour = takeWhile (\<lambda>c. c \<noteq> CHR '':'') t; minute = tl (dropWhile (\<lambda>c. c \<noteq> CHR '':'') t) in
        list_all is_digit hour \<and> list_all is_digit minute \<and> length hour \<le> 2 \<and> hour \<noteq> [] \<and> length minute = 2
        \<and> read_dec hour = c_hour now \<and> read_dec minute = c_minute now)"

definition f64_between :: "int \<Rightarrow> f64 \<Rightarrow> int \<Rightarrow> bool" where
  "f64_between a x b \<longleftrightarrow> f64_le (f64_of_int a) x \<and> f64_le x (f64_of_int b)"

definition same_minute :: "civil_time \<Rightarrow> civil_time \<Rightarrow> bool" where
  "same_minute a b \<longleftrightarrow> c_year a = c_year b \<and> c_month a = c_month b \<and> c_day a = c_day b \<and> c_hour a = c_hour b \<and> c_minute a = c_minute b"

definition solar_matches :: "clock \<Rightarrow> jvalue \<Rightarrow> bool \<Rightarrow> civil_time \<Rightarrow> bool result" where
  "solar_matches clk args rise now =
     (case (sched_number (j_field args ''latitude''), sched_number (j_field args ''longitude'')) of
        (Some latitude, Some longitude) \<Rightarrow>
          if \<not> f64_between (- 90) latitude 90 \<or> \<not> f64_between (- 180) longitude 180 then Inr False
          else let offset = (case sched_number (j_field args ''offset'') of None \<Rightarrow> 0 | Some x \<Rightarrow> x) in
            if \<not> f64_is_finite offset \<or> f64_lt (f64_of_int 10000000) (f64_abs offset) then Inr False
            else bindR (clk_solar clk now latitude longitude rise) (\<lambda>t.
              case t of
                None \<Rightarrow> Inr False
              | Some target \<Rightarrow>
                  bindR (ok_or (checked_i64 (target + f64_trunc (f64_mul offset (f64_of_int 60)))) Full) (\<lambda>u.
                  bindR (clk_local clk u) (\<lambda>c. Inr (same_minute c now))))
      | _ \<Rightarrow> Inr False)"

definition sched_matches :: "clock \<Rightarrow> jvalue \<Rightarrow> civil_time \<Rightarrow> bool result" where
  "sched_matches clk node now =
     (let step = j_field node ''step''; args = j_field step ''args''; i = j_text step ''cardId'' in
      if i = ''time_at'' then Inr (time_matches (j_text args ''time'') now)
      else solar_matches clk args (i = ''sunrise'') now)"

definition sched_keep :: "'s store \<Rightarrow> last_run list \<Rightarrow> last_run list" where
  "sched_keep s = filter (\<lambda>e.
     case doc_record (config s) ''flows'' (lr_flow e) of
       Inl _ \<Rightarrow> False
     | Inr f \<Rightarrow> j_boolean f ''enabled'' \<and> list_ex (\<lambda>n. j_text n ''id'' = lr_node e \<and> scheduled n) (j_array f ''nodes''))"

definition seen_minute :: "last_run list \<Rightarrow> string \<Rightarrow> civil_time \<Rightarrow> string \<Rightarrow> bool" where
  "seen_minute past fid now i \<longleftrightarrow> list_ex (\<lambda>l. lr_flow l = fid \<and> lr_node l = i \<and> lr_minute l = now) past"

definition due_node :: "clock \<Rightarrow> civil_time \<Rightarrow> last_run list \<Rightarrow> string \<Rightarrow> jvalue \<Rightarrow> string list \<Rightarrow> string list result" where
  "due_node clk now past fid node starts =
     (if seen_minute past fid now (j_text node ''id'') then Inr starts
      else bindR (sched_matches clk node now) (\<lambda>m. if m then j_push starts (j_text node ''id'') MAX_NODES else Inr starts))"

definition due_starts :: "clock \<Rightarrow> civil_time \<Rightarrow> last_run list \<Rightarrow> jvalue \<Rightarrow> string list result" where
  "due_starts clk now past def =
     foldR (due_node clk now past (j_text def ''id'')) (filter scheduled (j_array def ''nodes'')) []"

text \<open>The first enabled Flow with a card to start.\<close>

fun due_flow :: "clock \<Rightarrow> civil_time \<Rightarrow> last_run list \<Rightarrow> jvalue list \<Rightarrow> (jvalue \<times> string list) option result" where
  "due_flow clk now past [] = Inr None"
| "due_flow clk now past (def # defs) =
     (if \<not> j_boolean def ''enabled'' then due_flow clk now past defs
      else bindR (due_starts clk now past def) (\<lambda>starts.
        if starts = [] then due_flow clk now past defs else Inr (Some (def, starts))))"

definition minute_context :: "civil_time \<Rightarrow> jvalue" where
  "minute_context c =
     (let values = j_fields [(''time'', String (pad 2 (c_hour c) @ '':'' @ pad 2 (c_minute c))),
            (''date'', String (pad 4 (c_year c) @ ''-'' @ pad 2 (c_month c) @ ''-'' @ pad 2 (c_day c)))]
      in j_fields [(''tokens'', values), (''state'', values)])"

definition same_card :: "last_run \<Rightarrow> last_run \<Rightarrow> bool" where
  "same_card a b \<longleftrightarrow> lr_flow a = lr_flow b \<and> lr_node a = lr_node b"

definition note_run :: "last_run list \<Rightarrow> last_run \<Rightarrow> last_run list" where
  "note_run past e =
     (if list_ex (\<lambda>l. same_card l e) past then update_first (\<lambda>l. same_card l e) (\<lambda>_. e) past else past @ [e])"

definition schedule_due :: "clock \<Rightarrow> 's store \<Rightarrow> int \<Rightarrow> u64 \<Rightarrow> string \<Rightarrow> last_run list \<Rightarrow> run option result \<times> last_run list" where
  "schedule_due clk s unix now ran_at past0 =
     (let past = sched_keep s past0 in
      case bindR (clk_local clk unix) (\<lambda>local.
             bindR (due_flow clk local past (doc_records (config s) ''flows'')) (\<lambda>d.
             case d of
               None \<Rightarrow> Inr None
             | Some (def, starts) \<Rightarrow>
                 bindR (run_selected def starts (minute_context local) now ran_at) (\<lambda>r.
                 let entries = map (\<lambda>i. \<lparr>lr_flow = j_text def ''id'', lr_node = i, lr_minute = local\<rparr>) starts;
                     new = length (filter (\<lambda>e. \<not> list_ex (\<lambda>l. same_card l e) past) entries) in
                 if 4096 < length past + new then Inl Full
                 else Inr (Some (r, entries))))) of
        Inl e \<Rightarrow> (Inl e, past)
      | Inr None \<Rightarrow> (Inr None, past)
      | Inr (Some (r, entries)) \<Rightarrow> (Inr (Some r), foldl note_run past entries))"

section \<open>Once per minute\<close>

text \<open>A card of an enabled Flow whose time is the given minute.\<close>

definition due_card :: "clock \<Rightarrow> 's store \<Rightarrow> civil_time \<Rightarrow> string \<times> string \<Rightarrow> bool" where
  "due_card clk s c p \<longleftrightarrow> (\<exists>def \<in> set (doc_records (config s) ''flows''). \<exists>node \<in> set (j_array def ''nodes'').
     j_boolean def ''enabled'' \<and> scheduled node \<and> sched_matches clk node c = Inr True \<and> p = (j_text def ''id'', j_text node ''id''))"

definition started_cards :: "clock \<Rightarrow> 's store \<Rightarrow> civil_time \<Rightarrow> last_run list \<Rightarrow> (string \<times> string) list" where
  "started_cards clk s c past =
     (case due_flow clk c (sched_keep s past) (doc_records (config s) ''flows'') of
        Inr (Some (def, starts)) \<Rightarrow> map (Pair (j_text def ''id'')) starts
      | _ \<Rightarrow> [])"

text \<open>The turns of the schedule within one local minute, with the cards they started.\<close>

inductive sched_trace :: "clock \<Rightarrow> 's store \<Rightarrow> civil_time \<Rightarrow> (string \<times> string) list \<Rightarrow> last_run list \<Rightarrow> bool" for clk s c where
  begun: "list_all (\<lambda>l. lr_minute l \<noteq> c) past \<Longrightarrow> sched_trace clk s c [] past"
| ran: "sched_trace clk s c st past \<Longrightarrow> clk_local clk unix = Inr c
    \<Longrightarrow> schedule_due clk s unix now ran_at past = (Inr (Some r), past') \<Longrightarrow> sched_trace clk s c (st @ started_cards clk s c past) past'"
| waited: "sched_trace clk s c st past \<Longrightarrow> clk_local clk unix = Inr c
    \<Longrightarrow> schedule_due clk s unix now ran_at past = (x, past') \<Longrightarrow> x = Inr None \<or> x = Inl e \<Longrightarrow> sched_trace clk s c st past'"

definition flows_distinct :: "'s store \<Rightarrow> bool" where
  "flows_distinct s \<longleftrightarrow> distinct (map (\<lambda>d. j_text d ''id'') (doc_records (config s) ''flows''))
     \<and> list_all (\<lambda>d. distinct (map (\<lambda>n. j_text n ''id'') (j_array d ''nodes''))) (doc_records (config s) ''flows'')"

lemma due_nodes_list:
  assumes "foldR (due_node clk now past fid) ns acc = Inr out"
  shows "out = acc @ map (\<lambda>n. j_text n ''id'') (filter (\<lambda>n. \<not> seen_minute past fid now (j_text n ''id'') \<and> sched_matches clk n now = Inr True) ns)"
  using assms
proof (induction ns arbitrary: acc)
  case (Cons n ns)
  obtain acc1 where a: "due_node clk now past fid n acc = Inr acc1" "foldR (due_node clk now past fid) ns acc1 = Inr out"
    using Cons.prems by (auto simp: bindR_Inr_iff)
  have "acc1 = acc @ (if \<not> seen_minute past fid now (j_text n ''id'') \<and> sched_matches clk n now = Inr True then [j_text n ''id''] else [])"
    using a(1) by (auto simp: due_node_def bindR_Inr_iff j_push_Inr_iff split: if_splits)
  then show ?case using Cons.IH [OF a(2)] by simp
qed simp

lemma due_starts_list:
  "due_starts clk now past def = Inr starts \<Longrightarrow> starts = map (\<lambda>n. j_text n ''id'')
     (filter (\<lambda>n. scheduled n \<and> \<not> seen_minute past (j_text def ''id'') now (j_text n ''id'') \<and> sched_matches clk n now = Inr True) (j_array def ''nodes''))"
  unfolding due_starts_def by (drule due_nodes_list) (simp add: conj_commute conj_left_commute)

lemma due_flow_Some:
  "due_flow clk now past defs = Inr (Some (def, starts)) \<Longrightarrow> def \<in> set defs \<and> j_boolean def ''enabled'' \<and> due_starts clk now past def = Inr starts"
  by (induction defs) (auto simp: bindR_Inr_iff split: if_splits)

lemma due_flow_None:
  "due_flow clk now past defs = Inr None \<Longrightarrow> def \<in> set defs \<Longrightarrow> j_boolean def ''enabled'' \<Longrightarrow> due_starts clk now past def = Inr []"
  by (induction defs) (auto simp: bindR_Inr_iff split: if_splits)

lemma seen_note:
  assumes "lr_minute e = c"
  shows "seen_minute (note_run past e) f c n \<longleftrightarrow> seen_minute past f c n \<or> (lr_flow e = f \<and> lr_node e = n)"
proof -
  have "list_ex (\<lambda>l. same_card l e) past \<Longrightarrow> seen_minute (update_first (\<lambda>l. same_card l e) (\<lambda>_. e) past) f c n
      \<longleftrightarrow> seen_minute past f c n \<or> (lr_flow e = f \<and> lr_node e = n)"
    using assms by (induction past) (auto simp: seen_minute_def same_card_def)
  then show ?thesis using assms by (auto simp: note_run_def seen_minute_def)
qed

lemma seen_notes:
  "list_all (\<lambda>e. lr_minute e = c) es \<Longrightarrow> seen_minute (foldl note_run past es) f c n
     \<longleftrightarrow> seen_minute past f c n \<or> (f, n) \<in> (\<lambda>e. (lr_flow e, lr_node e)) ` set es"
  by (induction es arbitrary: past) (auto simp: seen_note)

lemma seen_keep:
  "seen_minute (sched_keep s past) f c n \<longleftrightarrow> seen_minute past f c n
     \<and> (case doc_record (config s) ''flows'' f of Inl _ \<Rightarrow> False
        | Inr d \<Rightarrow> j_boolean d ''enabled'' \<and> list_ex (\<lambda>k. j_text k ''id'' = n \<and> scheduled k) (j_array d ''nodes''))"
  unfolding seen_minute_def sched_keep_def by (induction past) auto

lemma due_card_kept:
  assumes "flows_distinct s" and "due_card clk s c (f, n)"
  shows "seen_minute (sched_keep s past) f c n = seen_minute past f c n"
proof -
  obtain def node where d: "def \<in> set (doc_records (config s) ''flows'')" "node \<in> set (j_array def ''nodes'')" "j_boolean def ''enabled''"
      "scheduled node" "f = j_text def ''id''" "n = j_text node ''id''"
    using assms(2) by (auto simp: due_card_def)
  have "find (\<lambda>r. j_text r ''id'' = j_text def ''id'') xs = Some def"
    if "def \<in> set xs" "distinct (map (\<lambda>d. j_text d ''id'') xs)" for xs
    using that by (induction xs) force+
  then have "doc_record (config s) ''flows'' f = Inr def"
    using assms(1) d(1,5) by (simp add: doc_record_def flows_distinct_def)
  then show ?thesis using d by (auto simp: seen_keep list_ex_iff)
qed

lemma schedule_due_ran:
  assumes "schedule_due clk s unix now ran_at past = (Inr (Some r), past')" and "clk_local clk unix = Inr c"
  obtains def starts where "due_flow clk c (sched_keep s past) (doc_records (config s) ''flows'') = Inr (Some (def, starts))"
    and "run_selected def starts (minute_context c) now ran_at = Inr r"
    and "past' = foldl note_run (sched_keep s past) (map (\<lambda>i. \<lparr>lr_flow = j_text def ''id'', lr_node = i, lr_minute = c\<rparr>) starts)"
  using assms
  by (auto simp: schedule_due_def Let_def bindR_def split: sum.splits option.splits prod.splits if_splits)

lemma schedule_due_waited:
  assumes "schedule_due clk s unix now ran_at past = (x, past')" and "x = Inr None \<or> x = Inl e"
  shows "past' = sched_keep s past"
  using assms by (auto simp: schedule_due_def Let_def split: sum.splits option.splits prod.splits)

lemma schedule_due_none:
  assumes "schedule_due clk s unix now ran_at past = (Inr None, past')" and "clk_local clk unix = Inr c"
  shows "due_flow clk c (sched_keep s past) (doc_records (config s) ''flows'') = Inr None"
  using assms by (auto simp: schedule_due_def Let_def bindR_def split: sum.splits option.splits prod.splits if_splits)

definition sched_inv :: "clock \<Rightarrow> 's store \<Rightarrow> civil_time \<Rightarrow> (string \<times> string) list \<Rightarrow> last_run list \<Rightarrow> bool" where
  "sched_inv clk s c st past \<longleftrightarrow> distinct st \<and> list_all (due_card clk s c) st
    \<and> (\<forall>f n. due_card clk s c (f, n) \<longrightarrow> (seen_minute past f c n \<longleftrightarrow> (f, n) \<in> set st))"

lemma started_facts:
  assumes "due_flow clk c past (doc_records (config s) ''flows'') = Inr (Some (def, starts))" and "flows_distinct s"
  shows "distinct starts" "n \<in> set starts \<Longrightarrow> due_card clk s c (j_text def ''id'', n) \<and> \<not> seen_minute past (j_text def ''id'') c n"
proof -
  have d: "def \<in> set (doc_records (config s) ''flows'')" "j_boolean def ''enabled''" "due_starts clk c past def = Inr starts"
    using due_flow_Some [OF assms(1)] by simp_all
  note st = due_starts_list [OF d(3)]
  have "distinct (map (\<lambda>n. j_text n ''id'') (j_array def ''nodes''))" using assms(2) d(1) by (auto simp: flows_distinct_def list_all_iff)
  then show "distinct starts" unfolding st by (rule distinct_map_filter)
  show "n \<in> set starts \<Longrightarrow> due_card clk s c (j_text def ''id'', n) \<and> \<not> seen_minute past (j_text def ''id'') c n"
    unfolding st due_card_def using d(1,2) by auto
qed

lemma sched_inv_ran:
  assumes "flows_distinct s" and inv: "sched_inv clk s c st past" and "clk_local clk unix = Inr c"
    and "schedule_due clk s unix now ran_at past = (Inr (Some r), past')"
  shows "sched_inv clk s c (st @ started_cards clk s c past) past'"
proof -
  obtain def starts where f: "due_flow clk c (sched_keep s past) (doc_records (config s) ''flows'') = Inr (Some (def, starts))"
    and past': "past' = foldl note_run (sched_keep s past) (map (\<lambda>i. \<lparr>lr_flow = j_text def ''id'', lr_node = i, lr_minute = c\<rparr>) starts)"
    using schedule_due_ran [OF assms(4,3)] by metis
  note sf = started_facts [OF f assms(1)]
  have new: "started_cards clk s c past = map (Pair (j_text def ''id'')) starts" by (simp add: started_cards_def f)
  have fresh: "(j_text def ''id'', n) \<notin> set st" if "n \<in> set starts" for n
    using sf(2) [OF that] inv due_card_kept [OF assms(1)] by (auto simp: sched_inv_def)
  have seen: "seen_minute past' x c n \<longleftrightarrow> seen_minute (sched_keep s past) x c n \<or> (x, n) \<in> set (map (Pair (j_text def ''id'')) starts)" for x n
    unfolding past' by (subst seen_notes) (auto simp: list_all_iff image_iff)
  have "distinct (st @ map (Pair (j_text def ''id'')) starts)"
    using inv sf(1) fresh by (auto simp: sched_inv_def distinct_map inj_on_def)
  moreover have "list_all (due_card clk s c) (st @ map (Pair (j_text def ''id'')) starts)"
    using inv sf(2) by (auto simp: sched_inv_def list_all_iff)
  moreover have "seen_minute past' x c n \<longleftrightarrow> (x, n) \<in> set (st @ map (Pair (j_text def ''id'')) starts)" if "due_card clk s c (x, n)" for x n
    using inv that seen due_card_kept [OF assms(1) that] by (auto simp: sched_inv_def)
  ultimately show ?thesis unfolding new sched_inv_def by blast
qed

lemma sched_inv_trace: "sched_trace clk s c st past \<Longrightarrow> flows_distinct s \<Longrightarrow> sched_inv clk s c st past"
proof (induction rule: sched_trace.induct)
  case (begun past)
  then have "\<not> seen_minute past f c n" for f n by (auto simp: seen_minute_def list_ex_iff list_all_iff)
  then show ?case by (simp add: sched_inv_def)
next
  case (ran st past unix now ran_at r past')
  then show ?case using sched_inv_ran by blast
next
  case (waited st past unix now ran_at x past' e)
  have "past' = sched_keep s past" using schedule_due_waited [OF waited.hyps(3,4)] .
  then show ?case using waited due_card_kept [OF waited.prems] by (simp add: sched_inv_def)
qed

text \<open>C24: In the turns of one local minute no card is started twice and only cards whose time it is are started, and
  once a turn has nothing left to start, every card of an enabled Flow whose time it is has been started.\<close>

theorem schedule_once_per_minute:
  assumes "flows_distinct s" and "sched_trace clk s c st past"
  shows "distinct st \<and> list_all (due_card clk s c) st
    \<and> (\<forall>unix now ran_at past'. clk_local clk unix = Inr c \<longrightarrow> schedule_due clk s unix now ran_at past = (Inr None, past')
        \<longrightarrow> set st = {p. due_card clk s c p})"
proof -
  have inv: "sched_inv clk s c st past" by (rule sched_inv_trace [OF assms(2,1)])
  have "p \<in> set st" if u: "clk_local clk unix = Inr c" "schedule_due clk s unix now ran_at past = (Inr None, past')" and p: "due_card clk s c p"
    for unix now ran_at past' p
  proof -
    obtain def node where d: "def \<in> set (doc_records (config s) ''flows'')" "node \<in> set (j_array def ''nodes'')" "j_boolean def ''enabled''"
        "scheduled node" "sched_matches clk node c = Inr True" "p = (j_text def ''id'', j_text node ''id'')"
      using p by (auto simp: due_card_def)
    have "due_starts clk c (sched_keep s past) def = Inr []"
      by (rule due_flow_None [OF schedule_due_none [OF u(2,1)] d(1,3)])
    from due_starts_list [OF this] have "seen_minute (sched_keep s past) (j_text def ''id'') c (j_text node ''id'')"
      using d(2,4,5) by (auto simp: filter_empty_conv)
    then show ?thesis using inv p due_card_kept [OF assms(1)] unfolding d(6) by (auto simp: sched_inv_def)
  qed
  then show ?thesis using inv by (auto simp: sched_inv_def list_all_iff)
qed

definition noon :: civil_time where
  "noon = \<lparr>c_year = 2024, c_month = 5, c_day = 1, c_hour = 12, c_minute = 0, c_offset = 7200\<rparr>"

definition noon_clock :: clock where
  "noon_clock = \<lparr>clk_local = (\<lambda>_. Inr noon), clk_solar = (\<lambda>_ _ _ _. Inr None)\<rparr>"

definition noon_flow :: jvalue where
  "noon_flow = Object [(''id'', String ''f''), (''name'', String ''Noon''), (''enabled'', Bool True), (''nodes'', Array [Object [(''id'', String ''t''),
     (''step'', Object [(''cardType'', String ''trigger''), (''appId'', String ''stulp''), (''cardId'', String ''time_at''),
       (''args'', Object [(''time'', String ''12:00'')])])]])]"

definition noon_store :: "unit store" where
  "noon_store = store_with (Object [(''flows'', Array [noon_flow])])"

theorem schedule_once_per_minute_witness:
  "\<exists>past. sched_trace noon_clock noon_store noon [(''f'', ''t'')] past \<and> {p. due_card noon_clock noon_store noon p} = {(''f'', ''t'')}"
proof -
  let ?first = "schedule_due noon_clock noon_store 0 0 [] []"
  have "case fst ?first of Inr (Some _) \<Rightarrow> True | _ \<Rightarrow> False" by code_simp
  then obtain r past where one: "?first = (Inr (Some r), past)" by (cases ?first) (auto split: sum.splits option.splits)
  have "fst (schedule_due noon_clock noon_store 0 0 [] (snd ?first)) = Inr None" by code_simp
  then obtain past' where two: "schedule_due noon_clock noon_store 0 0 [] past = (Inr None, past')"
    unfolding one snd_conv by (cases "schedule_due noon_clock noon_store 0 0 [] past") simp
  have c: "started_cards noon_clock noon_store noon [] = [(''f'', ''t'')]" "clk_local noon_clock 0 = Inr noon" "flows_distinct noon_store"
    by code_simp+
  have t: "sched_trace noon_clock noon_store noon [(''f'', ''t'')] past"
  proof -
    have "sched_trace noon_clock noon_store noon [] []" by (rule sched_trace.begun) simp
    from sched_trace.ran [OF this c(2) one] show ?thesis using c(1) by simp
  qed
  show ?thesis using schedule_once_per_minute [OF c(3) t] c(2) two t by auto
qed

end
