(* ===== verification/Stability.thy ===== *)
theory Stability
  imports FlowRun StoreReports
begin

text \<open>
  Cards that start a Flow when a value has stayed the same for a while, \<^verbatim>\<open>crates/runtime/src/stability.rs\<close>: a list of
  watches with deadlines, reconciled with the enabled Flows and the state of the devices. Shown here: after a
  reconciliation there is exactly one watch per card whose value is the wanted one, and only a card that is new,
  was edited or whose value was written since starts a new wait.
\<close>

definition MAX_WATCHES :: nat where "MAX_WATCHES = 4096"

record watch =
  w_flow :: string
  w_node :: string
  w_spec :: jvalue
  w_deadline :: u64
  w_revision :: u64
  w_fired :: bool
  w_seen :: bool

text \<open>The capability and the wanted value of a card, and its \<open>(seconds * 1000.0) as u64\<close> for at most a day.\<close>

definition spec_target :: "string \<Rightarrow> jvalue \<Rightarrow> (string \<times> jvalue) option" where
  "spec_target i args =
     (if i = ''device_capability_stays'' then Some (j_text args ''capability'', j_field args ''value'')
      else case derived i of
        None \<Rightarrow> None
      | Some (cap, suffix) \<Rightarrow>
          if suffix \<noteq> ''on_for'' \<and> suffix \<noteq> ''off_for'' then None else Some (cap, Bool (suffix = ''on_for'')))"

definition stability_spec :: "jvalue \<Rightarrow> jvalue option result" where
  "stability_spec node =
     (let step = j_field node ''step''; args = j_field step ''args'' in
      if flow_kind node \<noteq> ''trigger'' \<or> j_text step ''appId'' \<noteq> ''stulp'' then Inr None
      else case spec_target (j_text step ''cardId'') args of
        None \<Rightarrow> Inr None
      | Some (cap, target) \<Rightarrow>
          let dev0 = j_field args ''device''; dev = (case as_str dev0 of Some t \<Rightarrow> t | None \<Rightarrow> j_text dev0 ''$device'') in
          (case j_field args ''seconds'' of
             Number n \<Rightarrow>
               let seconds = num_as_f64 n in
               if dev = [] \<or> cap = [] \<or> \<not> f64_is_finite seconds \<or> f64_le seconds (f64_of_int 0) \<or> f64_lt (f64_of_int 86400) seconds
               then Inr None
               else let delay = milliseconds seconds in
                 if delay = 0 then Inl (Invalid ''stability interval is below clock resolution'')
                 else Inr (Some (j_fields [(''deviceId'', String dev), (''capability'', String cap), (''value'', target),
                        (''seconds'', Number (NFloat seconds)), (''delay'', uint_value delay)]))
           | _ \<Rightarrow> Inr None))"

definition watch_of :: "string \<Rightarrow> string \<Rightarrow> watch \<Rightarrow> bool" where
  "watch_of fid nid w \<longleftrightarrow> w_flow w = fid \<and> w_node w = nid"

definition renew_watch :: "jvalue \<Rightarrow> u64 \<Rightarrow> u64 \<Rightarrow> watch \<Rightarrow> watch" where
  "renew_watch spec revision now w =
     (if \<not> j_equal (w_spec w) spec \<or> w_revision w \<noteq> revision
      then w\<lparr>w_spec := spec, w_deadline := saturating_add now (j_uint spec ''delay''), w_fired := False, w_revision := revision, w_seen := True\<rparr>
      else w\<lparr>w_seen := True\<rparr>)"

text \<open>Whether a card is to be watched now: its spec, when its device has the wanted value.\<close>

definition watch_spec :: "'s store \<Rightarrow> jvalue \<Rightarrow> jvalue option result" where
  "watch_spec s node =
     bindR (stability_spec node) (\<lambda>sp.
     case sp of
       None \<Rightarrow> Inr None
     | Some spec \<Rightarrow>
         Inr (case device s (j_text spec ''deviceId'') of
           Inl _ \<Rightarrow> None
         | Inr d \<Rightarrow>
             let current = j_field (j_field d ''state'') (j_text spec ''capability'') in
             if is_null current \<or> \<not> j_equal current (j_field spec ''value'') then None else Some spec))"

definition watch_node :: "'s store \<Rightarrow> u64 \<Rightarrow> jvalue \<times> jvalue \<Rightarrow> watch list \<Rightarrow> watch list result" where
  "watch_node s now dn ws =
     (case dn of (def, node) \<Rightarrow>
      bindR (watch_spec s node) (\<lambda>sp.
      case sp of
        None \<Rightarrow> Inr ws
      | Some spec \<Rightarrow>
          let fid = j_text def ''id''; nid = j_text node ''id'';
              revision = capability_revision s (j_text spec ''deviceId'') (j_text spec ''capability'') in
          if list_ex (watch_of fid nid) ws then Inr (update_first (watch_of fid nid) (renew_watch spec revision now) ws)
          else j_push ws \<lparr>w_flow = fid, w_node = nid, w_spec = spec, w_deadline = saturating_add now (j_uint spec ''delay''),
                 w_revision = revision, w_fired = False, w_seen = True\<rparr> MAX_WATCHES))"

text \<open>The loop over the cards stops at the first error and keeps what it changed.\<close>

fun watch_nodes :: "'s store \<Rightarrow> u64 \<Rightarrow> (jvalue \<times> jvalue) list \<Rightarrow> watch list \<Rightarrow> unit result \<times> watch list" where
  "watch_nodes s now [] ws = (Inr (), ws)"
| "watch_nodes s now (dn # dns) ws =
     (case watch_node s now dn ws of Inl e \<Rightarrow> (Inl e, ws) | Inr ws' \<Rightarrow> watch_nodes s now dns ws')"

definition watched_cards :: "'s store \<Rightarrow> (jvalue \<times> jvalue) list" where
  "watched_cards s = concat (map (\<lambda>def. map (Pair def) (j_array def ''nodes''))
     (filter (\<lambda>d. j_boolean d ''enabled'') (doc_records (config s) ''flows'')))"

definition stability_reconcile :: "'s store \<Rightarrow> u64 \<Rightarrow> watch list \<Rightarrow> unit result \<times> watch list" where
  "stability_reconcile s now ws =
     (case watch_nodes s now (watched_cards s) (map (\<lambda>w. w\<lparr>w_seen := False\<rparr>) ws) of
        (Inl e, ws') \<Rightarrow> (Inl e, ws')
      | (Inr _, ws') \<Rightarrow> (Inr (), filter w_seen ws'))"

definition stability_context :: "watch \<Rightarrow> jvalue \<Rightarrow> jvalue" where
  "stability_context w d =
     (let state = j_fields [(''device'', String (j_text d ''name'')), (''deviceId'', j_field (w_spec w) ''deviceId''),
            (''capability'', j_field (w_spec w) ''capability''), (''value'', j_field (w_spec w) ''value''),
            (''seconds'', j_field (w_spec w) ''seconds'')]
      in j_fields [(''tokens'', state), (''state'', state)])"

definition ready_watch :: "u64 \<Rightarrow> watch \<Rightarrow> bool" where
  "ready_watch now w \<longleftrightarrow> \<not> w_fired w \<and> w_deadline w \<le> now"

definition stability_due :: "'s store \<Rightarrow> u64 \<Rightarrow> string \<Rightarrow> watch list \<Rightarrow> run option result \<times> watch list" where
  "stability_due s now ran_at ws =
     (case find (ready_watch now) ws of
        None \<Rightarrow> (Inr None, ws)
      | Some w \<Rightarrow>
          (case bindR (device s (j_text (w_spec w) ''deviceId'')) (\<lambda>d.
                  bindR (doc_record (config s) ''flows'' (w_flow w)) (\<lambda>def.
                    run_selected def [w_node w] (stability_context w d) now ran_at)) of
             Inl e \<Rightarrow> (Inl e, ws)
           | Inr r \<Rightarrow> (Inr (Some r), update_first (ready_watch now) (\<lambda>w. w\<lparr>w_fired := True\<rparr>) ws)))"

section \<open>What a reconciliation leaves\<close>

type_synonym card_key = "string \<times> string"

definition card_key :: "jvalue \<times> jvalue \<Rightarrow> card_key" where
  "card_key dn = (j_text (fst dn) ''id'', j_text (snd dn) ''id'')"

definition watch_key :: "watch \<Rightarrow> card_key" where
  "watch_key w = (w_flow w, w_node w)"

definition watch_for :: "watch list \<Rightarrow> card_key \<Rightarrow> watch option" where
  "watch_for ws k = find (\<lambda>w. watch_key w = k) ws"

text \<open>The watch of a card that has the wanted value: the one it had, renewed when needed, or a new one.\<close>

definition fresh_watch :: "'s store \<Rightarrow> u64 \<Rightarrow> card_key \<Rightarrow> jvalue \<Rightarrow> watch option \<Rightarrow> watch" where
  "fresh_watch s now k spec old =
     (let revision = capability_revision s (j_text spec ''deviceId'') (j_text spec ''capability'') in
      case old of
        Some w \<Rightarrow> renew_watch spec revision now w
      | None \<Rightarrow> \<lparr>w_flow = fst k, w_node = snd k, w_spec = spec, w_deadline = saturating_add now (j_uint spec ''delay''),
                 w_revision = revision, w_fired = False, w_seen = True\<rparr>)"

definition card_spec :: "'s store \<Rightarrow> (jvalue \<times> jvalue) list \<Rightarrow> card_key \<Rightarrow> jvalue option" where
  "card_spec s dns k =
     (case find (\<lambda>dn. card_key dn = k) dns of
        None \<Rightarrow> None
      | Some dn \<Rightarrow> (case watch_spec s (snd dn) of Inl _ \<Rightarrow> None | Inr sp \<Rightarrow> sp))"

lemma watch_of_key: "watch_of f n = (\<lambda>w. watch_key w = (f, n))"
  by (auto simp: watch_of_def watch_key_def fun_eq_iff)

lemma watch_for_update:
  assumes "\<And>w. watch_key (g w) = watch_key w"
  shows "watch_for (update_first (\<lambda>w. watch_key w = k) g ws) k' = (if k' = k then map_option g (watch_for ws k) else watch_for ws k')"
  using assms by (induction ws) (auto simp: watch_for_def)

lemma watch_for_append: "watch_for (ws @ [w]) k = (case watch_for ws k of None \<Rightarrow> if watch_key w = k then Some w else None | Some x \<Rightarrow> Some x)"
  by (induction ws) (auto simp: watch_for_def)

lemma watch_for_None: "watch_for ws k = None \<longleftrightarrow> k \<notin> watch_key ` set ws"
  by (auto simp: watch_for_def find_None_iff image_iff)

lemma renew_watch_facts [simp]:
  "watch_key (renew_watch spec r now w) = watch_key w" "w_seen (renew_watch spec r now w)"
  "renew_watch spec r now (w\<lparr>w_seen := b\<rparr>) = renew_watch spec r now w"
  by (simp_all add: renew_watch_def watch_key_def)

lemma map_update_first: "(\<And>x. h (g x) = h x) \<Longrightarrow> map h (update_first P g xs) = map h xs"
  by (induction xs) auto

lemma watch_node_step:
  assumes "watch_node s now dn ws = Inr ws'" and "distinct (map watch_key ws)"
  obtains sp where "watch_spec s (snd dn) = Inr sp" and "distinct (map watch_key ws')"
    and "\<And>k. watch_for ws' k = (if k = card_key dn then (case sp of None \<Rightarrow> watch_for ws k
           | Some spec \<Rightarrow> Some (fresh_watch s now k spec (watch_for ws k))) else watch_for ws k)"
proof -
  obtain def node where dn: "dn = (def, node)" by (cases dn)
  obtain sp where sp: "watch_spec s node = Inr sp" using assms(1) by (auto simp: watch_node_def dn bindR_Inr_iff)
  show thesis
  proof (cases sp)
    case None
    then show thesis using that [of sp] assms sp by (simp add: watch_node_def dn)
  next
    case (Some spec)
    let ?k = "card_key dn"
    let ?r = "capability_revision s (j_text spec ''deviceId'') (j_text spec ''capability'')"
    have k: "?k = (j_text def ''id'', j_text node ''id'')" by (simp add: card_key_def dn)
    show thesis
    proof (cases "watch_for ws ?k")
      case None
      then have "ws' = ws @ [fresh_watch s now ?k spec None]" "?k \<notin> watch_key ` set ws"
        using assms(1) sp Some k
        by (auto simp: watch_node_def dn Let_def watch_of_key list_ex_iff watch_for_None fresh_watch_def j_push_Inr_iff image_iff split: if_splits)
      moreover have "watch_key (fresh_watch s now ?k spec None) = ?k" by (simp add: fresh_watch_def watch_key_def Let_def)
      ultimately show thesis
        using that [of sp] sp Some None assms(2) dn by (auto simp: watch_for_append split: option.splits)
    next
      case (Some w)
      then have "list_ex (watch_of (j_text def ''id'') (j_text node ''id'')) ws"
        unfolding watch_of_key k [symmetric] by (auto simp: watch_for_def find_Some_iff list_ex_length)
      then have "ws' = update_first (\<lambda>w. watch_key w = ?k) (renew_watch spec ?r now) ws"
        using assms(1) sp \<open>sp = Some spec\<close> by (simp add: watch_node_def dn Let_def watch_of_key k [unfolded dn])
      then show thesis
        using that [of sp] sp \<open>sp = Some spec\<close> Some assms(2) dn
        by (auto simp: watch_for_update map_update_first fresh_watch_def Let_def)
    qed
  qed
qed

lemma watch_nodes_for:
  assumes "watch_nodes s now dns ws = (Inr (), ws')" and "distinct (map watch_key ws)" and "distinct (map card_key dns)"
  shows "distinct (map watch_key ws') \<and> (\<forall>k. watch_for ws' k = (case card_spec s dns k of None \<Rightarrow> watch_for ws k
     | Some spec \<Rightarrow> Some (fresh_watch s now k spec (watch_for ws k))))"
  using assms
proof (induction dns arbitrary: ws)
  case (Cons dn dns)
  obtain ws1 where w1: "watch_node s now dn ws = Inr ws1" "watch_nodes s now dns ws1 = (Inr (), ws')"
    using Cons.prems(1) by (auto split: sum.splits)
  obtain sp where sp: "watch_spec s (snd dn) = Inr sp" "distinct (map watch_key ws1)"
    "\<And>k. watch_for ws1 k = (if k = card_key dn then (case sp of None \<Rightarrow> watch_for ws k
           | Some spec \<Rightarrow> Some (fresh_watch s now k spec (watch_for ws k))) else watch_for ws k)"
    using watch_node_step [OF w1(1) Cons.prems(2)] by metis
  have ih: "distinct (map watch_key ws') \<and> (\<forall>k. watch_for ws' k = (case card_spec s dns k of None \<Rightarrow> watch_for ws1 k
     | Some spec \<Rightarrow> Some (fresh_watch s now k spec (watch_for ws1 k))))"
    using Cons.IH [OF w1(2) sp(2)] Cons.prems(3) by simp
  have n: "find (\<lambda>x. card_key x = card_key dn) dns = None"
  proof -
    have "card_key dn \<notin> card_key ` set dns" using Cons.prems(3) by simp
    then show ?thesis by (auto simp: find_None_iff image_iff)
  qed
  have "card_spec s (dn # dns) k = (if k = card_key dn then sp else card_spec s dns k)" for k
    using sp(1) by (auto simp: card_spec_def)
  moreover have "card_spec s dns (card_key dn) = None" by (simp add: card_spec_def n)
  ultimately have "watch_for ws' k = (case card_spec s (dn # dns) k of None \<Rightarrow> watch_for ws k
      | Some spec \<Rightarrow> Some (fresh_watch s now k spec (watch_for ws k)))" for k
    using ih [THEN conjunct2, rule_format, of k] sp(3) [of k] by (cases "k = card_key dn"; cases "card_spec s dns k") simp_all
  then show ?case using ih by blast
qed (simp add: card_spec_def)

lemma watch_for_filter:
  "distinct (map watch_key ws) \<Longrightarrow> watch_for (filter P ws) k = (case watch_for ws k of None \<Rightarrow> None | Some w \<Rightarrow> if P w then Some w else None)"
proof (induction ws)
  case (Cons w ws)
  have c: "watch_for (x # xs) k = (if watch_key x = k then Some x else watch_for xs k)" for x xs by (simp add: watch_for_def)
  show ?case
  proof (cases "watch_key w = k")
    case True
    then have "watch_for ws k = None" using Cons.prems by (simp add: watch_for_None)
    then show ?thesis using Cons True by (simp add: c)
  next
    case False
    then show ?thesis using Cons by (simp add: c)
  qed
qed (simp add: watch_for_def)

lemma card_spec_seen: "w_seen (fresh_watch s now k spec old)" "watch_key (fresh_watch s now k spec None) = k"
  by (simp_all add: fresh_watch_def Let_def watch_key_def split: option.splits)

text \<open>The watches afterwards, card by card.\<close>

lemma reconcile_watches:
  assumes "stability_reconcile s now ws = (Inr (), ws')" and "distinct (map watch_key ws)"
    and "distinct (map card_key (watched_cards s))"
  shows "distinct (map watch_key ws')
    \<and> (\<forall>k. watch_for ws' k = map_option (\<lambda>spec. fresh_watch s now k spec (watch_for ws k)) (card_spec s (watched_cards s) k))"
proof -
  let ?ws = "map (\<lambda>w. w\<lparr>w_seen := False\<rparr>) ws"
  have keys: "map watch_key ?ws = map watch_key ws" by (simp add: watch_key_def)
  obtain ws1 where w1: "watch_nodes s now (watched_cards s) ?ws = (Inr (), ws1)" "ws' = filter w_seen ws1"
    using assms(1) by (auto simp: stability_reconcile_def split: prod.splits sum.splits)
  have n: "distinct (map watch_key ws1)" "watch_for ws1 k = (case card_spec s (watched_cards s) k of None \<Rightarrow> watch_for ?ws k
     | Some spec \<Rightarrow> Some (fresh_watch s now k spec (watch_for ?ws k)))" for k
    using watch_nodes_for [OF w1(1) assms(2) [folded keys] assms(3)] by blast+
  have old: "watch_for ?ws k = map_option (\<lambda>w. w\<lparr>w_seen := False\<rparr>) (watch_for ws k)" for k
    by (induction ws) (auto simp: watch_for_def watch_key_def)
  have fr: "fresh_watch s now k spec (watch_for ?ws k) = fresh_watch s now k spec (watch_for ws k)" for k spec
    unfolding old by (cases "watch_for ws k") (simp_all add: fresh_watch_def Let_def)
  have "watch_for ws' k = map_option (\<lambda>spec. fresh_watch s now k spec (watch_for ws k)) (card_spec s (watched_cards s) k)" for k
    unfolding w1(2) watch_for_filter [OF n(1)] n(2) fr
    by (cases "card_spec s (watched_cards s) k"; cases "watch_for ws k") (simp_all add: old card_spec_seen)
  then show ?thesis using n(1) w1(2) by (simp add: distinct_map_filter)
qed

section \<open>What the cards ask for\<close>

text \<open>
  \<open>waits_for node dev cap v ms\<close>: the card asks that capability \<open>cap\<close> of device \<open>dev\<close> keeps the value \<open>v\<close> for \<open>ms\<close> milliseconds.
  It is a trigger of the built-in app, either the general card with capability and value as arguments or one of the two
  cards derived from a switch, whose name is \<open>capability.\<close>, the capability, and \<open>.on_for\<close> or \<open>.off_for\<close>.
\<close>

definition waits_for :: "jvalue \<Rightarrow> string \<Rightarrow> string \<Rightarrow> jvalue \<Rightarrow> u64 \<Rightarrow> bool" where
  "waits_for node dev cap v ms \<longleftrightarrow>
     (let step = j_field node ''step''; args = j_field step ''args''; card = j_text step ''cardId'' in
      flow_kind node = ''trigger'' \<and> j_text step ''appId'' = ''stulp'' \<and> dev \<noteq> [] \<and> cap \<noteq> []
      \<and> (card = ''device_capability_stays'' \<and> cap = j_text args ''capability'' \<and> v = j_field args ''value''
         \<or> card = ''capability.'' @ cap @ ''.on_for'' \<and> v = Bool True
         \<or> card = ''capability.'' @ cap @ ''.off_for'' \<and> v = Bool False)
      \<and> (j_field args ''device'' = String dev \<or> as_str (j_field args ''device'') = None \<and> dev = j_text (j_field args ''device'') ''$device'')
      \<and> (\<exists>n. j_field args ''seconds'' = Number n \<and> f64_is_finite (num_as_f64 n) \<and> \<not> f64_le (num_as_f64 n) (f64_of_int 0)
           \<and> \<not> f64_lt (f64_of_int 86400) (num_as_f64 n) \<and> ms = milliseconds (num_as_f64 n) \<and> ms \<noteq> 0))"

text \<open>The device is known and reports that value.\<close>

definition reports_value :: "'s store \<Rightarrow> string \<Rightarrow> string \<Rightarrow> jvalue \<Rightarrow> bool" where
  "reports_value s dev cap v \<longleftrightarrow>
     (\<exists>d. device s dev = Inr d \<and> j_field (j_field d ''state'') cap \<noteq> Null \<and> j_equal (j_field (j_field d ''state'') cap) v)"

lemma derived_iff: "derived i = Some (cap, suffix) \<longleftrightarrow> i = ''capability.'' @ cap @ CHR ''.'' # suffix \<and> CHR ''.'' \<notin> set suffix"
proof
  assume "derived i = Some (cap, suffix)"
  then show "i = ''capability.'' @ cap @ CHR ''.'' # suffix \<and> CHR ''.'' \<notin> set suffix"
    by (auto simp: derived_def bind_eq_Some_conv strip_prefix_Some_iff simp del: append_Cons dest!: rsplit_once_SomeD)
next
  assume i: "i = ''capability.'' @ cap @ CHR ''.'' # suffix \<and> CHR ''.'' \<notin> set suffix"
  have "rsplit_once (cap @ CHR ''.'' # suffix) CHR ''.'' = Some (cap, suffix)"
  proof -
    have "takeWhile (\<lambda>x. x \<noteq> CHR ''.'') (rev suffix @ CHR ''.'' # rev cap) = rev suffix"
      "dropWhile (\<lambda>x. x \<noteq> CHR ''.'') (rev suffix @ CHR ''.'' # rev cap) = CHR ''.'' # rev cap"
      using i by (subst takeWhile_append2 dropWhile_append2; auto)+
    then show ?thesis by (simp add: rsplit_once_def)
  qed
  then show "derived i = Some (cap, suffix)" using i by (simp add: derived_def strip_prefix_def starts_with_append)
qed

lemma spec_target_iff:
  "spec_target i args = Some (cap, v) \<longleftrightarrow>
     i = ''device_capability_stays'' \<and> cap = j_text args ''capability'' \<and> v = j_field args ''value''
     \<or> i = ''capability.'' @ cap @ ''.on_for'' \<and> v = Bool True \<or> i = ''capability.'' @ cap @ ''.off_for'' \<and> v = Bool False"
proof (cases "i = ''device_capability_stays''")
  case True
  then show ?thesis by (auto simp: spec_target_def)
next
  case False
  then have "spec_target i args = Some (cap, v) \<longleftrightarrow>
      derived i = Some (cap, ''on_for'') \<and> v = Bool True \<or> derived i = Some (cap, ''off_for'') \<and> v = Bool False"
    by (auto simp: spec_target_def split: option.splits if_splits)
  then show ?thesis using False by (simp add: derived_iff)
qed

lemma as_str_iff: "as_str v = Some t \<longleftrightarrow> v = String t"
  by (cases v) simp_all

definition card_device :: "jvalue \<Rightarrow> string" where
  "card_device dev = (case as_str dev of Some t \<Rightarrow> t | None \<Rightarrow> j_text dev ''$device'')"

lemma card_device_iff: "(v = String dev \<or> as_str v = None \<and> dev = j_text v ''$device'') \<longleftrightarrow> dev = card_device v"
  by (cases "as_str v") (auto simp: card_device_def as_str_iff)

lemma spec_fields:
  fixes dev cap v sec ms
  defines "spec \<equiv> Object [(''deviceId'', String dev), (''capability'', String cap), (''value'', v), (''seconds'', sec), (''delay'', uint_value ms)]"
  shows "j_text spec ''deviceId'' = dev" "j_text spec ''capability'' = cap" "j_field spec ''value'' = v" "j_uint spec ''delay'' = ms"
  by (simp_all add: spec_def j_text_def j_field_def j_uint_def j_get_def)

text \<open>The spec the code keeps of a card says just that.\<close>

lemma stability_spec_waits:
  "waits_for node dev cap v ms \<longleftrightarrow> (\<exists>spec. stability_spec node = Inr (Some spec) \<and>
    dev = j_text spec ''deviceId'' \<and> cap = j_text spec ''capability'' \<and> v = j_field spec ''value'' \<and> ms = j_uint spec ''delay'')"
proof -
  let ?step = "j_field node ''step''"
  let ?args = "j_field ?step ''args''"
  let ?target = "spec_target (j_text ?step ''cardId'') ?args"
  have w: "waits_for node dev cap v ms \<longleftrightarrow> flow_kind node = ''trigger'' \<and> j_text ?step ''appId'' = ''stulp'' \<and> dev \<noteq> [] \<and> cap \<noteq> []
      \<and> ?target = Some (cap, v) \<and> dev = card_device (j_field ?args ''device'')
      \<and> (\<exists>n. j_field ?args ''seconds'' = Number n \<and> f64_is_finite (num_as_f64 n) \<and> \<not> f64_le (num_as_f64 n) (f64_of_int 0)
           \<and> \<not> f64_lt (f64_of_int 86400) (num_as_f64 n) \<and> ms = milliseconds (num_as_f64 n) \<and> ms \<noteq> 0)"
    unfolding waits_for_def Let_def spec_target_iff card_device_iff by blast
  have r: "stability_spec node =
     (if flow_kind node \<noteq> ''trigger'' \<or> j_text ?step ''appId'' \<noteq> ''stulp'' then Inr None
      else case ?target of
        None \<Rightarrow> Inr None
      | Some (cap, target) \<Rightarrow>
          (case j_field ?args ''seconds'' of
             Number n \<Rightarrow>
               if card_device (j_field ?args ''device'') = [] \<or> cap = [] \<or> \<not> f64_is_finite (num_as_f64 n) \<or> f64_le (num_as_f64 n) (f64_of_int 0)
                 \<or> f64_lt (f64_of_int 86400) (num_as_f64 n) then Inr None
               else if milliseconds (num_as_f64 n) = 0 then Inl (Invalid ''stability interval is below clock resolution'')
               else Inr (Some (Object [(''deviceId'', String (card_device (j_field ?args ''device''))), (''capability'', String cap), (''value'', target),
                        (''seconds'', Number (NFloat (num_as_f64 n))), (''delay'', uint_value (milliseconds (num_as_f64 n)))]))
           | _ \<Rightarrow> Inr None))"
    unfolding stability_spec_def Let_def card_device_def j_fields_Object by (rule refl)
  show ?thesis
  proof (cases "flow_kind node = ''trigger'' \<and> j_text ?step ''appId'' = ''stulp'' \<and> ?target \<noteq> None \<and> (\<exists>n. j_field ?args ''seconds'' = Number n)")
    case False
    then have "stability_spec node = Inr None" unfolding r by (auto split: if_splits option.splits jvalue.splits)
    then show ?thesis using False unfolding w by auto
  next
    case True
    then obtain c t n where t: "?target = Some (c, t)" "j_field ?args ''seconds'' = Number n" "flow_kind node = ''trigger''"
      "j_text ?step ''appId'' = ''stulp''" by auto
    show ?thesis
      unfolding r w
      by (auto simp: t spec_fields split: if_splits)
  qed
qed

lemma watch_spec_iff:
  "watch_spec s node = Inr (Some spec) \<longleftrightarrow> stability_spec node = Inr (Some spec)
     \<and> reports_value s (j_text spec ''deviceId'') (j_text spec ''capability'') (j_field spec ''value'')"
proof -
  have null: "is_null v \<longleftrightarrow> v = Null" for v by (cases v) simp_all
  have v: "(case device s (j_text sp ''deviceId'') of Inl _ \<Rightarrow> None
         | Inr d \<Rightarrow> let current = j_field (j_field d ''state'') (j_text sp ''capability'') in
             if is_null current \<or> \<not> j_equal current (j_field sp ''value'') then None else Some sp) = Some spec \<longleftrightarrow>
      sp = spec \<and> reports_value s (j_text sp ''deviceId'') (j_text sp ''capability'') (j_field sp ''value'')" for sp
    by (cases "device s (j_text sp ''deviceId'')") (simp_all add: reports_value_def Let_def null)
  show ?thesis
  proof (cases "\<exists>sp. stability_spec node = Inr (Some sp)")
    case True
    then obtain sp where "stability_spec node = Inr (Some sp)" by blast
    then show ?thesis unfolding watch_spec_def by (simp add: v del: Let_def) blast
  next
    case False
    then show ?thesis by (cases "stability_spec node") (auto simp: watch_spec_def split: option.splits)
  qed
qed

lemma card_spec_iff:
  assumes "distinct (map card_key dns)"
  shows "card_spec s dns k = Some spec \<longleftrightarrow> (\<exists>dn \<in> set dns. card_key dn = k \<and> watch_spec s (snd dn) = Inr (Some spec))"
proof
  assume "card_spec s dns k = Some spec"
  then obtain dn where "find (\<lambda>dn. card_key dn = k) dns = Some dn" "watch_spec s (snd dn) = Inr (Some spec)"
    by (auto simp: card_spec_def split: option.splits sum.splits)
  then show "\<exists>dn \<in> set dns. card_key dn = k \<and> watch_spec s (snd dn) = Inr (Some spec)" by (auto simp: find_Some_iff)
next
  assume "\<exists>dn \<in> set dns. card_key dn = k \<and> watch_spec s (snd dn) = Inr (Some spec)"
  then obtain dn where "dn \<in> set dns" "card_key dn = k" "watch_spec s (snd dn) = Inr (Some spec)" by blast
  moreover from this have "find (\<lambda>dn. card_key dn = k) dns = Some dn" using find_distinct_key [OF assms] by blast
  ultimately show "card_spec s dns k = Some spec" by (simp add: card_spec_def)
qed

lemma watch_for_iff: "distinct (map watch_key ws) \<Longrightarrow> watch_for ws k = Some w \<longleftrightarrow> w \<in> set ws \<and> watch_key w = k"
  unfolding watch_for_def using find_distinct_key [of watch_key ws w] by (auto simp: find_Some_iff)

text \<open>What is kept of a card: device, capability, value, seconds and delay. The code keeps just that.\<close>

definition wait_record :: "jvalue \<Rightarrow> string \<Rightarrow> string \<Rightarrow> jvalue \<Rightarrow> u64 \<Rightarrow> jvalue" where
  "wait_record node dev cap v ms = Object [(''deviceId'', String dev), (''capability'', String cap), (''value'', v),
     (''seconds'', case j_field (j_field (j_field node ''step'') ''args'') ''seconds'' of Number n \<Rightarrow> Number (NFloat (num_as_f64 n)) | _ \<Rightarrow> Null),
     (''delay'', uint_value ms)]"

lemma stability_spec_record:
  assumes "stability_spec node = Inr (Some spec)"
  shows "spec = wait_record node (j_text spec ''deviceId'') (j_text spec ''capability'') (j_field spec ''value'') (j_uint spec ''delay'')"
  using assms unfolding stability_spec_def Let_def j_fields_Object
  by (auto simp: wait_record_def spec_fields split: if_splits option.splits jvalue.splits)

text \<open>The wait goes on: the watch was made for the same card and the value was not written since.\<close>

definition wait_goes_on :: "watch \<Rightarrow> jvalue \<Rightarrow> u64 \<Rightarrow> bool" where
  "wait_goes_on w spec revision \<longleftrightarrow> j_equal (w_spec w) spec \<and> w_revision w = revision"

text \<open>The watches after a reconciliation, one by one.\<close>

lemma reconcile_watch_iff:
  assumes "stability_reconcile s now ws = (Inr (), ws')" and "distinct (map watch_key ws)"
    and "distinct (map card_key (watched_cards s))"
  shows "w' \<in> set ws' \<and> watch_key w' = k \<longleftrightarrow> (\<exists>dn \<in> set (watched_cards s). card_key dn = k
    \<and> (\<exists>spec. watch_spec s (snd dn) = Inr (Some spec) \<and> w' = fresh_watch s now k spec (watch_for ws k)))"
proof -
  note r = reconcile_watches [OF assms]
  have d: "distinct (map watch_key ws')" using r by blast
  have "watch_for ws' k = map_option (\<lambda>spec. fresh_watch s now k spec (watch_for ws k)) (card_spec s (watched_cards s) k)"
    using r by blast
  then have "watch_for ws' k = Some w' \<longleftrightarrow> (\<exists>spec. card_spec s (watched_cards s) k = Some spec \<and> w' = fresh_watch s now k spec (watch_for ws k))"
    by auto
  then show ?thesis unfolding watch_for_iff [OF d] card_spec_iff [OF assms(3)] by blast
qed

text \<open>What becomes of one watch.\<close>

lemma fresh_watch_waits:
  fixes w' defines "k \<equiv> watch_key w'"
  assumes "distinct (map watch_key ws)" and "w' = fresh_watch s now k spec (watch_for ws k)"
  shows "w_revision w' = capability_revision s (j_text spec ''deviceId'') (j_text spec ''capability'')"
    and "w \<in> set ws \<Longrightarrow> watch_key w = k \<Longrightarrow> wait_goes_on w spec (w_revision w') \<Longrightarrow> w_deadline w' = w_deadline w \<and> w_fired w' = w_fired w"
    and "\<not> (\<exists>w \<in> set ws. watch_key w = k \<and> wait_goes_on w spec (w_revision w')) \<Longrightarrow>
      w_deadline w' = saturating_add now (j_uint spec ''delay'') \<and> \<not> w_fired w' \<and> w_spec w' = spec"
proof -
  note old = watch_for_iff [OF assms(2), of k]
  show rev: "w_revision w' = capability_revision s (j_text spec ''deviceId'') (j_text spec ''capability'')"
    by (subst assms(3)) (auto simp: fresh_watch_def Let_def renew_watch_def split: option.splits)
  show "w_deadline w' = w_deadline w \<and> w_fired w' = w_fired w"
    if "w \<in> set ws" "watch_key w = k" "wait_goes_on w spec (w_revision w')"
    using that old [of w] rev by (subst (1 2) assms(3)) (simp add: fresh_watch_def Let_def renew_watch_def wait_goes_on_def)
  assume none: "\<not> (\<exists>w \<in> set ws. watch_key w = k \<and> wait_goes_on w spec (w_revision w'))"
  show "w_deadline w' = saturating_add now (j_uint spec ''delay'') \<and> \<not> w_fired w' \<and> w_spec w' = spec"
  proof (cases "watch_for ws k")
    case None
    then show ?thesis by (subst (1 2 3) assms(3)) (simp add: fresh_watch_def Let_def)
  next
    case (Some w)
    then have "\<not> wait_goes_on w spec (w_revision w')" using none old by blast
    then show ?thesis using Some rev by (subst (1 2 3) assms(3)) (auto simp: fresh_watch_def Let_def renew_watch_def wait_goes_on_def)
  qed
qed

text \<open>C25: A reconciliation of the stability timers that succeeds leaves one watch for exactly those cards of enabled Flows
  that ask for a value their device reports. A watch that was there keeps its deadline, and whether it fired, as long as the
  card is the same and the value was not written since; otherwise, and for a new card, the full wait of the card starts now.\<close>

theorem stability_reconcile_exact:
  assumes "stability_reconcile s now ws = (Inr (), ws')" and "distinct (map watch_key ws)"
    and "distinct (map card_key (watched_cards s))"
  shows "distinct (map watch_key ws')
    \<and> watch_key ` set ws' = card_key ` {dn \<in> set (watched_cards s). \<exists>dev cap v ms. waits_for (snd dn) dev cap v ms \<and> reports_value s dev cap v}
    \<and> (\<forall>w' \<in> set ws'. \<exists>dn dev cap v ms spec. dn \<in> set (watched_cards s) \<and> card_key dn = watch_key w'
         \<and> waits_for (snd dn) dev cap v ms \<and> spec = wait_record (snd dn) dev cap v ms \<and> w_revision w' = capability_revision s dev cap
         \<and> (\<forall>w \<in> set ws. watch_key w = watch_key w' \<and> wait_goes_on w spec (w_revision w') \<longrightarrow>
              w_deadline w' = w_deadline w \<and> w_fired w' = w_fired w)
         \<and> (\<not> (\<exists>w \<in> set ws. watch_key w = watch_key w' \<and> wait_goes_on w spec (w_revision w')) \<longrightarrow>
              w_deadline w' = saturating_add now ms \<and> \<not> w_fired w' \<and> w_spec w' = spec))"
proof (intro conjI ballI)
  show "distinct (map watch_key ws')" using reconcile_watches [OF assms] by blast
  note f = reconcile_watch_iff [OF assms]
  have q: "(\<exists>dev cap v ms. waits_for (snd dn) dev cap v ms \<and> reports_value s dev cap v) \<longleftrightarrow> (\<exists>spec. watch_spec s (snd dn) = Inr (Some spec))" for dn
    unfolding stability_spec_waits watch_spec_iff by blast
  have k: "k \<in> watch_key ` set ws' \<longleftrightarrow> (\<exists>dn \<in> set (watched_cards s). card_key dn = k \<and> (\<exists>spec. watch_spec s (snd dn) = Inr (Some spec)))" for k
  proof -
    have "k \<in> watch_key ` set ws' \<longleftrightarrow> (\<exists>w'. w' \<in> set ws' \<and> watch_key w' = k)" by blast
    then show ?thesis unfolding f by blast
  qed
  show "watch_key ` set ws' = card_key ` {dn \<in> set (watched_cards s). \<exists>dev cap v ms. waits_for (snd dn) dev cap v ms \<and> reports_value s dev cap v}"
    unfolding q by (rule set_eqI, unfold k) blast
  fix w'
  assume "w' \<in> set ws'"
  then obtain dn spec where dn: "dn \<in> set (watched_cards s)" "card_key dn = watch_key w'" "watch_spec s (snd dn) = Inr (Some spec)"
    and w': "w' = fresh_watch s now (watch_key w') spec (watch_for ws (watch_key w'))"
    using f [of w' "watch_key w'"] by auto
  have sp: "stability_spec (snd dn) = Inr (Some spec)" using dn(3) by (simp add: watch_spec_iff)
  then have wf: "waits_for (snd dn) (j_text spec ''deviceId'') (j_text spec ''capability'') (j_field spec ''value'') (j_uint spec ''delay'')"
    by (auto simp: stability_spec_waits)
  show "\<exists>dn dev cap v ms spec. dn \<in> set (watched_cards s) \<and> card_key dn = watch_key w'
         \<and> waits_for (snd dn) dev cap v ms \<and> spec = wait_record (snd dn) dev cap v ms \<and> w_revision w' = capability_revision s dev cap
         \<and> (\<forall>w \<in> set ws. watch_key w = watch_key w' \<and> wait_goes_on w spec (w_revision w') \<longrightarrow>
              w_deadline w' = w_deadline w \<and> w_fired w' = w_fired w)
         \<and> (\<not> (\<exists>w \<in> set ws. watch_key w = watch_key w' \<and> wait_goes_on w spec (w_revision w')) \<longrightarrow>
              w_deadline w' = saturating_add now ms \<and> \<not> w_fired w' \<and> w_spec w' = spec)"
    using dn(1,2) wf stability_spec_record [OF sp] fresh_watch_waits [OF assms(2) w'] by blast
qed

definition sleep_flow :: jvalue where
  "sleep_flow = Object [(''id'', String ''f''), (''name'', String ''Sleep''), (''enabled'', Bool True), (''nodes'', Array [Object [(''id'', String ''t''),
     (''step'', Object [(''cardType'', String ''trigger''), (''appId'', String ''stulp''), (''cardId'', String ''capability.onoff.off_for''),
       (''args'', Object [(''device'', String ''lamp''), (''seconds'', Number (NUint 60))])])]])]"

definition sleep_store :: "unit store" where
  "sleep_store = (store_with (Object [(''flows'', Array [sleep_flow]), (''devices'', Array [
       Object [(''id'', String ''lamp''), (''appId'', String ''hue'')]])]))
     \<lparr>live := [\<lparr>ob_id = ''lamp'', ob_state = Object [(''onoff'', Bool False)], ob_revisions = Object [(''onoff'', uint_value 3)],
       ob_available = True, ob_message = []\<rparr>]\<rparr>"

lemma sleep_watched:
  obtains node spec where "watched_cards sleep_store = [(sleep_flow, node)]" and "watch_spec sleep_store node = Inr (Some spec)"
    and "j_text node ''id'' = ''t''"
proof -
  let ?node = "hd (j_array sleep_flow ''nodes'')"
  have "case watch_spec sleep_store ?node of Inr (Some _) \<Rightarrow> True | _ \<Rightarrow> False" by code_simp
  then obtain spec where "watch_spec sleep_store ?node = Inr (Some spec)" by (auto split: sum.splits option.splits)
  moreover have "watched_cards sleep_store = [(sleep_flow, ?node)]" "j_text ?node ''id'' = ''t''" by code_simp+
  ultimately show thesis using that by blast
qed

theorem stability_reconcile_exact_witness:
  "\<exists>ws' w' dev cap v ms. stability_reconcile sleep_store 1000 [] = (Inr (), ws') \<and> w' \<in> set ws' \<and> watch_key w' = (''f'', ''t'')
     \<and> waits_for (hd (j_array sleep_flow ''nodes'')) dev cap v ms \<and> w_deadline w' = saturating_add 1000 ms \<and> \<not> w_fired w'"
proof -
  let ?node = "hd (j_array sleep_flow ''nodes'')"
  obtain node spec where n: "watched_cards sleep_store = [(sleep_flow, node)]" "watch_spec sleep_store node = Inr (Some spec)"
      "j_text node ''id'' = ''t''" using sleep_watched .
  have node: "node = ?node"
  proof -
    have "watched_cards sleep_store = [(sleep_flow, ?node)]" by code_simp
    then show ?thesis using n(1) by simp
  qed
  have f: "j_text sleep_flow ''id'' = ''f''" by code_simp
  obtain ws' where run: "stability_reconcile sleep_store 1000 [] = (Inr (), ws')"
    by (simp add: stability_reconcile_def n watch_node_def Let_def j_push_def MAX_WATCHES_def)
  have "distinct (map card_key (watched_cards sleep_store))" by (simp add: n)
  note t = stability_reconcile_exact [OF run _ this, unfolded list.map distinct.simps, OF TrueI]
  have "\<exists>dev cap v ms. waits_for node dev cap v ms \<and> reports_value sleep_store dev cap v"
    using n(2) unfolding watch_spec_iff stability_spec_waits by blast
  then have "(sleep_flow, node) \<in> {dn \<in> set (watched_cards sleep_store). \<exists>dev cap v ms. waits_for (snd dn) dev cap v ms
      \<and> reports_value sleep_store dev cap v}" by (simp add: n(1))
  then have "card_key (sleep_flow, node) \<in> watch_key ` set ws'" using t by (metis (no_types, lifting) imageI)
  then have "(''f'', ''t'') \<in> watch_key ` set ws'" using n(3) f by (simp add: card_key_def)
  then obtain w' where w': "w' \<in> set ws'" "watch_key w' = (''f'', ''t'')" by auto
  moreover from t w'(1) obtain dn dev cap v ms where "dn \<in> set (watched_cards sleep_store)" "waits_for (snd dn) dev cap v ms"
    "w_deadline w' = saturating_add 1000 ms" "\<not> w_fired w'" by (auto; blast)
  moreover from this have "waits_for ?node dev cap v ms" using n(1) node by simp
  ultimately show ?thesis using run by blast
qed

end
