(* ===== verification/MatterBase.thy ===== *)
theory MatterBase
  imports Slots
begin

text \<open>
  What the Matter plugin shares: the error type of the plugin SDK (\<^verbatim>\<open>crates/sdk/src/lib.rs\<close>), the bounded
  byte buffers of \<^verbatim>\<open>plugins/matter/src/lib.rs\<close>, and the interface \<open>wire_codec\<close> of a byte format: decoding after
  encoding, at any place in a buffer. Machine words read and written in little-endian order satisfy it.
  A length in memory is a \<open>nat\<close>; \<open>usize\<close> has 64 bits.
\<close>

section \<open>Errors of the plugin SDK\<close>

datatype sdk_error =
    Core error
  | SdkInvalid string
  | Remote string
  | Transport string
  | Cancelled
  | Timeout

type_synonym 'a sdk_result = "sdk_error + 'a"

text \<open>\<open>From<stulp_core::Error> for Error\<close>, as the \<open>?\<close> operator applies it.\<close>

definition from_core :: "'a result \<Rightarrow> 'a sdk_result" where
  "from_core m = (case m of Inl e \<Rightarrow> Inl (Core e) | Inr a \<Rightarrow> Inr a)"

lemma from_core_simps [simp]: "from_core (Inr a) = Inr a" "from_core (Inl e) = Inl (Core e)"
  by (simp_all add: from_core_def)

lemma from_core_Inr_iff [result_iff]: "from_core m = Inr a \<longleftrightarrow> m = Inr a"
  by (cases m) auto

lemma foldR_cong [fundef_cong]:
  assumes "xs = ys" "acc = acc'" "\<And>x a. x \<in> set ys \<Longrightarrow> f x a = g x a"
  shows "foldR f xs acc = foldR g ys acc'"
  using assms(3) unfolding assms(1,2) by (induction ys arbitrary: acc') (simp_all add: bindR_def split: sum.splits)

section \<open>Bounded buffers\<close>

definition MATTER_MAX :: nat where "MATTER_MAX = 65535"

definition append_bytes :: "bytes \<Rightarrow> bytes \<Rightarrow> bytes sdk_result" where
  "append_bytes out bs =
     (if MATTER_MAX - length out < length bs then Inl (SdkInvalid ''Matter buffer exceeds 65535 bytes'') else Inr (out @ bs))"

definition copy_bytes :: "bytes \<Rightarrow> bytes sdk_result" where
  "copy_bytes bs = append_bytes [] bs"

lemma append_bytes_Inr_iff [result_iff]:
  "append_bytes out bs = Inr out' \<longleftrightarrow> out' = out @ bs \<and> (bs = [] \<or> length out + length bs \<le> MATTER_MAX)"
  by (cases bs) (auto simp: append_bytes_def)

lemma append_bytes_ok: "length out + length bs \<le> MATTER_MAX \<Longrightarrow> append_bytes out bs = Inr (out @ bs)"
  by (auto simp: append_bytes_def)

lemma copy_bytes_ok [simp]: "length bs \<le> MATTER_MAX \<Longrightarrow> copy_bytes bs = Inr bs"
  by (simp add: copy_bytes_def append_bytes_def)

lemma copy_bytes_Inr_iff [result_iff]: "copy_bytes bs = Inr x \<longleftrightarrow> x = bs \<and> length bs \<le> MATTER_MAX"
  by (auto simp: copy_bytes_def result_iff MATTER_MAX_def)

section \<open>Byte formats\<close>

text \<open>
  A format has an encoder, which may refuse a value, and a decoder that reads at the front of a buffer and returns how
  many bytes it took. What was encoded reads back, whatever follows it. Hence two encodings of a format are never
  prefixes of each other, and a concatenation has one reading.
\<close>

locale wire_codec =
  fixes enc :: "'a \<Rightarrow> 'e + bytes"
    and dec :: "bytes \<Rightarrow> 'e + 'a \<times> nat"
  assumes dec_enc: "enc x = Inr bs \<Longrightarrow> dec (bs @ rest) = Inr (x, length bs)"
begin

lemma unique_reading:
  assumes "enc x = Inr a" "enc y = Inr b" "a @ s = b @ t"
  shows "x = y \<and> s = t"
proof -
  have "Inr (x, length a) = dec (a @ s)" by (simp add: dec_enc [OF assms(1)])
  also have "\<dots> = Inr (y, length b)" using dec_enc [OF assms(2)] by (simp add: assms(3))
  finally show ?thesis using assms(3) by simp
qed

lemma enc_inject: "enc x = Inr bs \<Longrightarrow> enc y = Inr bs \<Longrightarrow> x = y"
  using unique_reading [of x bs y bs] by simp

end

text \<open>Little-endian words of a whole number of bytes.\<close>

definition le_word :: "nat \<Rightarrow> 'a::len word \<Rightarrow> bytes" where
  "le_word k w = le_bytes k (unat w)"

definition word_le :: "bytes \<Rightarrow> 'a::len word" where
  "word_le bs = word_of_nat (le_nat bs)"

lemma length_le_word [simp]: "length (le_word k w) = k"
  by (simp add: le_word_def)

lemma word_le_le_word: "unat w < 256 ^ k \<Longrightarrow> word_le (le_word k w) = w"
  by (simp add: le_word_def word_le_def le_nat_bytes)

lemma unat_less_256:
  "unat (a :: u8) < 256 ^ 1" "unat (b :: u16) < 256 ^ 2" "unat (c :: u32) < 256 ^ 4" "unat (d :: u64) < 256 ^ 8"
  using unsigned_less [where 'a = nat, of a] unsigned_less [where 'a = nat, of b]
    unsigned_less [where 'a = nat, of c] unsigned_less [where 'a = nat, of d] by simp_all

lemmas word_le_full [simp] =
  unat_less_256(1) [THEN word_le_le_word, simplified] unat_less_256(2) [THEN word_le_le_word]
  unat_less_256(3) [THEN word_le_le_word] unat_less_256(4) [THEN word_le_le_word]

end
