(* ===== verification/MatterTlv.thy ===== *)
theory MatterTlv
  imports MatterBase JsonText Float32
begin

unbundle bit_operations_syntax

text \<open>
  The tag-length-value format of Matter, \<^verbatim>\<open>plugins/matter/src/tlv.rs\<close>: the bounded writer, the streaming reader
  and the tree of elements. A writer or reader that failed is dropped by every caller, so a failure carries
  no state. An \<open>i64\<close> is a 64-bit word, read as signed. Shown here: what is written is read back, with every tag
  form and integer width, and the writer refuses exactly what is too deep or too long.
\<close>

section \<open>Elements\<close>

datatype tlv_tag = Anonymous | Context u8 | Common u32 | Implicit u32 | FullTag u16 u16 u32

datatype tlv_value =
    TInt u64
  | TUint u64
  | TBool bool
  | TFloat f64
  | TString string
  | TBytes bytes
  | TNull
  | TStructure
  | TArray
  | TList
  | TEnd

record tlv_element =
  el_tag :: tlv_tag
  el_value :: tlv_value

datatype tlv_node = TlvNode (node_element: tlv_element) (node_children: "tlv_node list")

definition TLV_DEPTH :: nat where "TLV_DEPTH = 32"

section \<open>Writer\<close>

record writer =
  wr_bytes :: bytes
  wr_depth :: nat

definition writer_new :: writer where
  "writer_new = \<lparr>wr_bytes = [], wr_depth = 0\<rparr>"

definition tlv_width :: "nat \<Rightarrow> nat" where
  "tlv_width n = (if n \<le> 255 then 0 else if n \<le> 65535 then 1 else if n \<le> 4294967295 then 2 else 3)"

definition put_bytes :: "bytes \<Rightarrow> writer \<Rightarrow> writer sdk_result" where
  "put_bytes bs w = bindR (append_bytes (wr_bytes w) bs) (\<lambda>out. Inr (w\<lparr>wr_bytes := out\<rparr>))"

definition tag_number :: "u32 \<Rightarrow> bytes" where
  "tag_number n = take (if 65535 < n then 4 else 2) (le_word 4 n)"

definition w_control :: "tlv_tag \<Rightarrow> u8 \<Rightarrow> writer \<Rightarrow> writer sdk_result" where
  "w_control tag kind w =
     (case tag of
        Anonymous \<Rightarrow> put_bytes [kind] w
      | Context n \<Rightarrow> put_bytes [0x20 OR kind, n] w
      | Common n \<Rightarrow> bindR (put_bytes [0x40 OR (if 65535 < n then 0x20 else 0) OR kind] w) (put_bytes (tag_number n))
      | Implicit n \<Rightarrow> bindR (put_bytes [0x80 OR (if 65535 < n then 0x20 else 0) OR kind] w) (put_bytes (tag_number n))
      | FullTag v p n \<Rightarrow>
          bindR (put_bytes [(if 65535 < n then 0xe0 else 0xc0) OR kind] w) (\<lambda>w.
          bindR (put_bytes (le_word 2 v) w) (\<lambda>w.
          bindR (put_bytes (le_word 2 p) w) (put_bytes (tag_number n)))))"

definition w_uint_width :: "tlv_tag \<Rightarrow> u64 \<Rightarrow> nat \<Rightarrow> writer \<Rightarrow> writer sdk_result" where
  "w_uint_width tag n len w =
     bindR (if len = 1 then Inr 0 else if len = 2 then Inr 1 else if len = 4 then Inr 2 else if len = 8 then Inr 3
            else Inl (SdkInvalid ''invalid TLV integer width'')) (\<lambda>k.
     if len < 8 \<and> push_bit (len * 8) 1 \<le> n then Inl (SdkInvalid ''TLV integer does not fit width'')
     else bindR (w_control tag (4 + k) w) (put_bytes (take len (le_word 8 n))))"

definition w_uint :: "tlv_tag \<Rightarrow> u64 \<Rightarrow> writer \<Rightarrow> writer sdk_result" where
  "w_uint tag n w = w_uint_width tag n (2 ^ tlv_width (unat n)) w"

text \<open>\<open>i8::try_from\<close> and its siblings.\<close>

definition int_width :: "u64 \<Rightarrow> nat" where
  "int_width n =
     (if - 128 \<le> sint n \<and> sint n < 128 then 0
      else if - 32768 \<le> sint n \<and> sint n < 32768 then 1
      else if - 2147483648 \<le> sint n \<and> sint n < 2147483648 then 2 else 3)"

definition w_int :: "tlv_tag \<Rightarrow> u64 \<Rightarrow> writer \<Rightarrow> writer sdk_result" where
  "w_int tag n w =
     (let k = int_width n in bindR (w_control tag (word_of_nat k) w) (put_bytes (take (2 ^ k) (le_word 8 n))))"

definition w_boolean :: "tlv_tag \<Rightarrow> bool \<Rightarrow> writer \<Rightarrow> writer sdk_result" where
  "w_boolean tag b w = w_control tag (if b then 9 else 8) w"

definition w_float32 :: "tlv_tag \<Rightarrow> f32 \<Rightarrow> writer \<Rightarrow> writer sdk_result" where
  "w_float32 tag x w = bindR (w_control tag 10 w) (put_bytes (le_word 4 x))"

definition w_float64 :: "tlv_tag \<Rightarrow> f64 \<Rightarrow> writer \<Rightarrow> writer sdk_result" where
  "w_float64 tag x w = bindR (w_control tag 11 w) (put_bytes (le_word 8 x))"

definition w_data :: "tlv_tag \<Rightarrow> u8 \<Rightarrow> bytes \<Rightarrow> writer \<Rightarrow> writer sdk_result" where
  "w_data tag kind bs w =
     (let k = tlv_width (length bs) in
      bindR (w_control tag (kind + word_of_nat k) w) (\<lambda>w.
      bindR (put_bytes (take (2 ^ k) (le_word 8 (word_of_nat (length bs) :: u64))) w) (put_bytes bs)))"

definition w_string :: "tlv_tag \<Rightarrow> string \<Rightarrow> writer \<Rightarrow> writer sdk_result" where
  "w_string tag s w = w_data tag 12 (as_bytes s) w"

definition w_bytes :: "tlv_tag \<Rightarrow> bytes \<Rightarrow> writer \<Rightarrow> writer sdk_result" where
  "w_bytes tag bs w = w_data tag 16 bs w"

definition w_null :: "tlv_tag \<Rightarrow> writer \<Rightarrow> writer sdk_result" where
  "w_null tag w = w_control tag 20 w"

definition w_start :: "tlv_tag \<Rightarrow> tlv_value \<Rightarrow> writer \<Rightarrow> writer sdk_result" where
  "w_start tag kind w =
     bindR (case kind of TStructure \<Rightarrow> Inr 21 | TArray \<Rightarrow> Inr 22 | TList \<Rightarrow> Inr 23
            | _ \<Rightarrow> Inl (SdkInvalid ''not a TLV container'')) (\<lambda>code.
     if TLV_DEPTH \<le> wr_depth w then Inl (SdkInvalid ''TLV nesting exceeds 32'')
     else bindR (w_control tag code w) (\<lambda>w. Inr (w\<lparr>wr_depth := wr_depth w + 1\<rparr>)))"

definition w_end :: "writer \<Rightarrow> writer sdk_result" where
  "w_end w =
     (if wr_depth w = 0 then Inl (SdkInvalid ''TLV end without container'')
      else bindR (put_bytes [24] w) (\<lambda>w. Inr (w\<lparr>wr_depth := wr_depth w - 1\<rparr>)))"

definition w_finish :: "writer \<Rightarrow> bytes sdk_result" where
  "w_finish w = (if wr_depth w \<noteq> 0 then Inl (SdkInvalid ''TLV has unterminated containers'') else Inr (wr_bytes w))"

text \<open>\<open>Writer::node\<close>; the tag of the root is the argument, children keep theirs.\<close>

fun w_node :: "tlv_node \<Rightarrow> tlv_tag \<Rightarrow> writer \<Rightarrow> writer sdk_result" where
  "w_node (TlvNode e cs) tag w =
     (case el_value e of
        TInt n \<Rightarrow> w_int tag n w
      | TUint n \<Rightarrow> w_uint tag n w
      | TBool b \<Rightarrow> w_boolean tag b w
      | TFloat x \<Rightarrow> w_float64 tag x w
      | TString s \<Rightarrow> w_string tag s w
      | TBytes b \<Rightarrow> w_bytes tag b w
      | TNull \<Rightarrow> w_null tag w
      | TEnd \<Rightarrow> Inl (SdkInvalid ''cannot write standalone TLV end'')
      | v \<Rightarrow> bindR (w_start tag v w) (\<lambda>w. bindR (foldR (\<lambda>c w. w_node c (el_tag (node_element c)) w) cs w) w_end))"

section \<open>Reader\<close>

record reader =
  rd_data :: bytes
  rd_at :: nat
  rd_depth :: nat

definition reader_new :: "bytes \<Rightarrow> reader sdk_result" where
  "reader_new bs =
     (if MATTER_MAX < length bs then Inl (SdkInvalid ''TLV input exceeds 65535 bytes'')
      else Inr \<lparr>rd_data = bs, rd_at = 0, rd_depth = 0\<rparr>)"

definition rd_take :: "nat \<Rightarrow> reader \<Rightarrow> (bytes \<times> reader) sdk_result" where
  "rd_take n r =
     (if 2 ^ 64 \<le> rd_at r + n then Inl (SdkInvalid ''TLV length overflow'')
      else if length (rd_data r) < rd_at r + n then Inl (SdkInvalid ''truncated TLV element'')
      else Inr (take n (drop (rd_at r) (rd_data r)), r\<lparr>rd_at := rd_at r + n\<rparr>))"

definition rd_le :: "nat \<Rightarrow> reader \<Rightarrow> (u64 \<times> reader) sdk_result" where
  "rd_le n r = bindR (rd_take n r) (\<lambda>(bs, r). Inr (word_le bs, r))"

definition rd_tag :: "u8 \<Rightarrow> reader \<Rightarrow> (tlv_tag \<times> reader) sdk_result" where
  "rd_tag form r =
     (if form = 0 then Inr (Anonymous, r)
      else if form = 1 then bindR (rd_le 1 r) (\<lambda>(n, r). Inr (Context (ucast n), r))
      else if form = 2 then bindR (rd_le 2 r) (\<lambda>(n, r). Inr (Common (ucast n), r))
      else if form = 3 then bindR (rd_le 4 r) (\<lambda>(n, r). Inr (Common (ucast n), r))
      else if form = 4 then bindR (rd_le 2 r) (\<lambda>(n, r). Inr (Implicit (ucast n), r))
      else if form = 5 then bindR (rd_le 4 r) (\<lambda>(n, r). Inr (Implicit (ucast n), r))
      else bindR (rd_le 2 r) (\<lambda>(v, r). bindR (rd_le 2 r) (\<lambda>(p, r).
             bindR (rd_le (if form = 6 then 2 else 4) r) (\<lambda>(n, r). Inr (FullTag (ucast v) (ucast p) (ucast n), r)))))"

definition rd_int :: "nat \<Rightarrow> u64 \<Rightarrow> u64" where
  "rd_int len v =
     (if len = 1 then scast (ucast v :: u8) else if len = 2 then scast (ucast v :: u16)
      else if len = 4 then scast (ucast v :: u32) else v)"

definition rd_value :: "tlv_tag \<Rightarrow> nat \<Rightarrow> reader \<Rightarrow> (tlv_value \<times> reader) sdk_result" where
  "rd_value tag kind r =
     (if kind \<le> 3 then bindR (rd_le (2 ^ kind) r) (\<lambda>(v, r). Inr (TInt (rd_int (2 ^ kind) v), r))
      else if kind \<le> 7 then bindR (rd_le (2 ^ (kind - 4)) r) (\<lambda>(v, r). Inr (TUint v, r))
      else if kind = 8 then Inr (TBool False, r)
      else if kind = 9 then Inr (TBool True, r)
      else if kind = 10 then bindR (rd_le 4 r) (\<lambda>(v, r). Inr (TFloat (f64_of_f32 (ucast v)), r))
      else if kind = 11 then bindR (rd_le 8 r) (\<lambda>(v, r). Inr (TFloat v, r))
      else if kind \<le> 19 then
        bindR (rd_le (2 ^ (kind mod 4)) r) (\<lambda>(n, r). bindR (rd_take (unat n) r) (\<lambda>(bs, r).
          if kind < 16
          then (if utf8_valid (map char_of_byte bs) then Inr (TString (map char_of_byte bs), r)
                else Inl (SdkInvalid ''TLV string is not UTF-8''))
          else Inr (TBytes bs, r)))
      else if kind = 20 then Inr (TNull, r)
      else if kind \<le> 23 then
        (if TLV_DEPTH \<le> rd_depth r then Inl (SdkInvalid ''TLV nesting exceeds 32'')
         else Inr (if kind = 21 then TStructure else if kind = 22 then TArray else TList, r\<lparr>rd_depth := rd_depth r + 1\<rparr>))
      else if kind = 24 then
        (if rd_depth r = 0 \<or> tag \<noteq> Anonymous then Inl (SdkInvalid ''invalid TLV container end'')
         else Inr (TEnd, r\<lparr>rd_depth := rd_depth r - 1\<rparr>))
      else Inl (SdkInvalid ''reserved TLV type''))"

definition rd_next :: "reader \<Rightarrow> (tlv_element option \<times> reader) sdk_result" where
  "rd_next r =
     (if rd_at r = length (rd_data r)
      then (if rd_depth r \<noteq> 0 then Inl (SdkInvalid ''unterminated TLV container'') else Inr (None, r))
      else bindR (rd_le 1 r) (\<lambda>(c, r).
           let control = ucast c :: u8 in
           bindR (rd_tag (drop_bit 5 control) r) (\<lambda>(tag, r).
           bindR (rd_value tag (unat (control AND 31)) r) (\<lambda>(v, r). Inr (Some \<lparr>el_tag = tag, el_value = v\<rparr>, r)))))"

section \<open>Trees\<close>

text \<open>
  \<open>Node::read\<close> recurses into a container and loops over its elements. The first argument bounds the recursion: no
  reader opens more than 32 containers. The loop ends by itself before its bound of 4097 rounds, since the list of
  children refuses a 4097th.
\<close>

definition TLV_ELEMENTS :: nat where "TLV_ELEMENTS = 4096"

function node_read :: "nat \<Rightarrow> tlv_element \<Rightarrow> nat \<Rightarrow> reader \<Rightarrow> (tlv_node \<times> nat \<times> reader) sdk_result"
and node_loop :: "nat \<Rightarrow> nat \<Rightarrow> tlv_element \<Rightarrow> tlv_node list \<Rightarrow> nat \<Rightarrow> reader \<Rightarrow> (tlv_node \<times> nat \<times> reader) sdk_result" where
  "node_read 0 e count r = Inl (SdkInvalid ''TLV nesting exceeds 32'')"
| "node_read (Suc d) e count r =
     (if TLV_ELEMENTS < count + 1 then Inl (SdkInvalid ''too many TLV elements'')
      else if el_value e \<in> {TStructure, TArray, TList} then node_loop d (Suc TLV_ELEMENTS) e [] (count + 1) r
      else Inr (TlvNode e [], count + 1, r))"
| "node_loop d 0 e cs count r = Inl (Core Full)"
| "node_loop d (Suc k) e cs count r =
     bindR (rd_next r) (\<lambda>(next, r).
     bindR (ok_or next (SdkInvalid ''unterminated TLV tree'')) (\<lambda>x.
     if el_value x = TEnd then Inr (TlvNode e cs, count, r)
     else if el_value e = TStructure \<and> list_ex (\<lambda>c. el_tag (node_element c) = el_tag x) cs
     then Inl (SdkInvalid ''duplicate TLV structure tag'')
     else bindR (node_read d x count r) (\<lambda>(child, count, r).
          if TLV_ELEMENTS \<le> length cs then Inl (Core Full) else node_loop d k e (cs @ [child]) count r)))"
  by pat_completeness auto
termination
  by (relation "inv_image (less_than <*lex*> less_than)
       (\<lambda>x. case x of Inl (d, e, count, r) \<Rightarrow> (d, 0) | Inr (d, k, e, cs, count, r) \<Rightarrow> (d, k))") auto

definition node_parse :: "bytes \<Rightarrow> tlv_node sdk_result" where
  "node_parse bs =
     bindR (reader_new bs) (\<lambda>r.
     bindR (rd_next r) (\<lambda>(first, r).
     bindR (ok_or first (SdkInvalid ''empty TLV'')) (\<lambda>e.
     bindR (node_read (Suc TLV_DEPTH) e 0 r) (\<lambda>(n, _, r).
     bindR (rd_next r) (\<lambda>(more, _).
     if more \<noteq> None then Inl (SdkInvalid ''multiple TLV roots'') else Inr n)))))"

definition node_get :: "u8 \<Rightarrow> tlv_node \<Rightarrow> tlv_node option" where
  "node_get tag n = find (\<lambda>c. el_tag (node_element c) = Context tag) (node_children n)"

definition node_uint :: "u8 \<Rightarrow> tlv_node \<Rightarrow> u64 sdk_result" where
  "node_uint tag n = (case map_option (\<lambda>c. el_value (node_element c)) (node_get tag n) of
     Some (TUint x) \<Rightarrow> Inr x | _ \<Rightarrow> Inl (SdkInvalid ''missing unsigned TLV field''))"

definition node_bytes :: "u8 \<Rightarrow> tlv_node \<Rightarrow> bytes sdk_result" where
  "node_bytes tag n = (case map_option (\<lambda>c. el_value (node_element c)) (node_get tag n) of
     Some (TBytes x) \<Rightarrow> Inr x | _ \<Rightarrow> Inl (SdkInvalid ''missing TLV bytes field''))"

definition node_take :: "u8 \<Rightarrow> tlv_node \<Rightarrow> tlv_node option \<times> tlv_node" where
  "node_take tag n = (case position (\<lambda>c. el_tag (node_element c) = Context tag) (node_children n) of
     None \<Rightarrow> (None, n)
   | Some i \<Rightarrow> (Some (node_children n ! i), TlvNode (node_element n) (take i (node_children n) @ drop (Suc i) (node_children n))))"

section \<open>What the writer emits\<close>

text \<open>\<open>emits P f bs\<close>: at an open depth that satisfies \<open>P\<close> the step \<open>f\<close> appends \<open>bs\<close>, when they fit, and otherwise fails.\<close>

definition emits :: "(nat \<Rightarrow> bool) \<Rightarrow> (writer \<Rightarrow> writer sdk_result) \<Rightarrow> bytes \<Rightarrow> bool" where
  "emits P f bs \<longleftrightarrow> (\<forall>w w'. length (wr_bytes w) \<le> MATTER_MAX \<longrightarrow>
     (f w = Inr w' \<longleftrightarrow> P (wr_depth w) \<and> w' = w\<lparr>wr_bytes := wr_bytes w @ bs\<rparr> \<and> length (wr_bytes w) + length bs \<le> MATTER_MAX))"

lemma emits_put: "emits (\<lambda>_. True) (put_bytes bs) bs"
  by (auto simp: emits_def put_bytes_def result_iff)

lemma emits_bind:
  assumes "emits P f a" "emits Q g b"
  shows "emits (\<lambda>d. P d \<and> Q d) (\<lambda>w. bindR (f w) g) (a @ b)"
  using assms unfolding emits_def by (auto simp: result_iff)

lemma emits_fold:
  assumes "\<And>c. c \<in> set cs \<Longrightarrow> emits (P c) (f c) (b c)"
  shows "emits (\<lambda>d. \<forall>c \<in> set cs. P c d) (foldR f cs) (concat (map b cs))"
  using assms
proof (induction cs)
  case Nil
  then show ?case by (auto simp: emits_def)
next
  case (Cons c cs)
  then have "emits (\<lambda>d. P c d \<and> (\<forall>c \<in> set cs. P c d)) (\<lambda>w. bindR (f c w) (foldR f cs)) (b c @ concat (map b cs))"
    by (intro emits_bind) auto
  then show ?case by (simp add: emits_def)
qed

lemma emits_cong: "emits P f bs \<Longrightarrow> (\<And>w. f w = g w) \<Longrightarrow> (\<And>d. P d = Q d) \<Longrightarrow> bs = bs' \<Longrightarrow> emits Q g bs'"
  by (simp add: emits_def)

text \<open>The bytes of a control octet with its tag, and of a whole element.\<close>

definition tag_bytes :: "tlv_tag \<Rightarrow> u8 \<Rightarrow> bytes" where
  "tag_bytes tag kind =
     (case tag of
        Anonymous \<Rightarrow> [kind]
      | Context n \<Rightarrow> [0x20 OR kind, n]
      | Common n \<Rightarrow> [0x40 OR (if 65535 < n then 0x20 else 0) OR kind] @ tag_number n
      | Implicit n \<Rightarrow> [0x80 OR (if 65535 < n then 0x20 else 0) OR kind] @ tag_number n
      | FullTag v p n \<Rightarrow> [(if 65535 < n then 0xe0 else 0xc0) OR kind] @ le_word 2 v @ le_word 2 p @ tag_number n)"

definition data_bytes :: "bytes \<Rightarrow> bytes" where
  "data_bytes bs = take (2 ^ tlv_width (length bs)) (le_word 8 (word_of_nat (length bs) :: u64)) @ bs"

lemma emits_control: "emits (\<lambda>_. True) (w_control tag kind) (tag_bytes tag kind)"
proof (cases tag)
  case (FullTag v p n)
  have "emits (\<lambda>d. True \<and> True \<and> True \<and> True)
     (\<lambda>w. bindR (put_bytes [(if 65535 < n then 0xe0 else 0xc0) OR kind] w) (\<lambda>w.
          bindR (put_bytes (le_word 2 v) w) (\<lambda>w.
          bindR (put_bytes (le_word 2 p) w) (put_bytes (tag_number n)))))
     ([(if 65535 < n then 0xe0 else 0xc0) OR kind] @ le_word 2 v @ le_word 2 p @ tag_number n)"
    by (intro emits_bind emits_put)
  then show ?thesis by (rule emits_cong) (simp_all add: w_control_def tag_bytes_def FullTag)
next
  case (Common n)
  then show ?thesis
    by (auto simp: w_control_def tag_bytes_def intro: emits_cong [OF emits_bind [OF emits_put emits_put]])
next
  case (Implicit n)
  then show ?thesis
    by (auto simp: w_control_def tag_bytes_def intro: emits_cong [OF emits_bind [OF emits_put emits_put]])
qed (auto simp: w_control_def tag_bytes_def intro: emits_cong [OF emits_put])

lemma emits_data: "emits (\<lambda>_. True) (w_data tag kind bs) (tag_bytes tag (kind + word_of_nat (tlv_width (length bs))) @ data_bytes bs)"
  by (rule emits_cong [OF emits_bind [OF emits_control emits_bind [OF emits_put emits_put]]])
    (simp_all add: w_data_def data_bytes_def Let_def)

lemma tlv_width_le: "n < 2 ^ 64 \<Longrightarrow> n < 256 ^ (2 ^ tlv_width n)"
  by (simp add: tlv_width_def)

lemma tlv_width_cases: "tlv_width n \<in> {0, 1, 2, 3}"
  by (simp add: tlv_width_def)

lemma emits_uint:
  "emits (\<lambda>_. True) (w_uint tag n)
     (tag_bytes tag (4 + word_of_nat (tlv_width (unat n))) @ take (2 ^ tlv_width (unat n)) (le_word 8 n))"
proof (rule emits_cong [OF emits_bind [OF emits_control emits_put]])
  fix w
  have small: "\<not> push_bit (8 * 2 ^ k) 1 \<le> n" if "k \<le> 2" "tlv_width (unat n) = k" for k
  proof -
    have "k = 0 \<or> k = 1 \<or> k = 2" using that(1) by auto
    then show ?thesis
      using that(2) by (auto simp: word_le_nat_alt tlv_width_def push_bit_eq_mult split: if_splits)
  qed
  consider "tlv_width (unat n) = 0" | "tlv_width (unat n) = 1" | "tlv_width (unat n) = 2" | "tlv_width (unat n) = 3"
    using tlv_width_cases [of "unat n"] by auto
  then show "bindR (w_control tag (4 + word_of_nat (tlv_width (unat n))) w)
       (put_bytes (take (2 ^ tlv_width (unat n)) (le_word 8 n))) = w_uint tag n w"
    by cases (use small [of "tlv_width (unat n)"] in \<open>simp_all add: w_uint_def w_uint_width_def mult.commute\<close>)
qed simp_all

text \<open>The bytes of a tree; a container is its control octet, its children and the end octet.\<close>

definition container_kind :: "tlv_value \<Rightarrow> u8 option" where
  "container_kind v = (case v of TStructure \<Rightarrow> Some 21 | TArray \<Rightarrow> Some 22 | TList \<Rightarrow> Some 23 | _ \<Rightarrow> None)"

definition leaf_bytes :: "tlv_tag \<Rightarrow> tlv_value \<Rightarrow> bytes" where
  "leaf_bytes tag v =
     (case v of
        TInt n \<Rightarrow> tag_bytes tag (word_of_nat (int_width n)) @ take (2 ^ int_width n) (le_word 8 n)
      | TUint n \<Rightarrow> tag_bytes tag (4 + word_of_nat (tlv_width (unat n))) @ take (2 ^ tlv_width (unat n)) (le_word 8 n)
      | TBool b \<Rightarrow> tag_bytes tag (if b then 9 else 8)
      | TFloat x \<Rightarrow> tag_bytes tag 11 @ le_word 8 x
      | TString s \<Rightarrow> tag_bytes tag (12 + word_of_nat (tlv_width (length s))) @ data_bytes (as_bytes s)
      | TBytes b \<Rightarrow> tag_bytes tag (16 + word_of_nat (tlv_width (length b))) @ data_bytes b
      | _ \<Rightarrow> tag_bytes tag 20)"

fun node_enc :: "tlv_tag \<Rightarrow> tlv_node \<Rightarrow> bytes" where
  "node_enc tag (TlvNode e cs) =
     (case container_kind (el_value e) of
        None \<Rightarrow> leaf_bytes tag (el_value e)
      | Some k \<Rightarrow> tag_bytes tag k @ concat (map (\<lambda>c. node_enc (el_tag (node_element c)) c) cs) @ [24])"

text \<open>Containers nested at most \<open>d\<close> deep, and no stray end of a container.\<close>

fun tlv_fits :: "nat \<Rightarrow> tlv_node \<Rightarrow> bool" where
  "tlv_fits d (TlvNode e cs) \<longleftrightarrow> el_value e \<noteq> TEnd \<and>
     (container_kind (el_value e) \<noteq> None \<longrightarrow> 0 < d \<and> (\<forall>c \<in> set cs. tlv_fits (d - 1) c))"

lemma emits_leaf:
  assumes "container_kind (el_value e) = None" "el_value e \<noteq> TEnd"
  shows "emits (\<lambda>_. True) (w_node (TlvNode e cs) tag) (leaf_bytes tag (el_value e))"
proof (cases "el_value e")
  case (TInt n)
  show ?thesis
    by (rule emits_cong [OF emits_bind [OF emits_control emits_put]]) (simp_all add: TInt w_int_def leaf_bytes_def Let_def)
next
  case (TUint n)
  show ?thesis by (rule emits_cong [OF emits_uint]) (simp_all add: TUint leaf_bytes_def)
next
  case (TFloat x)
  show ?thesis
    by (rule emits_cong [OF emits_bind [OF emits_control emits_put]]) (simp_all add: TFloat w_float64_def leaf_bytes_def)
next
  case (TString x)
  show ?thesis by (rule emits_cong [OF emits_data [of tag 12 "as_bytes x"]]) (simp_all add: TString w_string_def leaf_bytes_def)
next
  case (TBytes x)
  show ?thesis by (rule emits_cong [OF emits_data [of tag 16 x]]) (simp_all add: TBytes w_bytes_def leaf_bytes_def)
qed (use assms in \<open>auto simp: container_kind_def leaf_bytes_def w_boolean_def w_null_def intro: emits_cong [OF emits_control]\<close>)

lemma emits_container:
  assumes "emits P g b" "container_kind v = Some k"
  shows "emits (\<lambda>d. d < TLV_DEPTH \<and> P (d + 1)) (\<lambda>w. bindR (w_start tag v w) (\<lambda>w. bindR (g w) w_end)) (tag_bytes tag k @ b @ [24])"
proof -
  have start: "w_start tag v w = (if TLV_DEPTH \<le> wr_depth w then Inl (SdkInvalid ''TLV nesting exceeds 32'')
     else bindR (w_control tag k w) (\<lambda>w. Inr (w\<lparr>wr_depth := wr_depth w + 1\<rparr>)))" for w
    using assms(2) by (cases v) (auto simp: w_start_def container_kind_def)
  have g: "g w = Inr w' \<longleftrightarrow> P (wr_depth w) \<and> w' = w\<lparr>wr_bytes := wr_bytes w @ b\<rparr> \<and> length (wr_bytes w) + length b \<le> MATTER_MAX"
    if "length (wr_bytes w) \<le> MATTER_MAX" for w w'
    using assms(1) that by (simp add: emits_def)
  have c: "w_control tag k w = Inr w' \<longleftrightarrow> w' = w\<lparr>wr_bytes := wr_bytes w @ tag_bytes tag k\<rparr> \<and> length (wr_bytes w) + length (tag_bytes tag k) \<le> MATTER_MAX"
    if "length (wr_bytes w) \<le> MATTER_MAX" for w w'
    using emits_control [of tag k] that by (simp add: emits_def)
  show ?thesis
    unfolding emits_def start
    by (auto simp: result_iff c g w_end_def put_bytes_def not_le)
qed

lemma emits_node: "emits (\<lambda>d. tlv_fits (TLV_DEPTH - d) n) (w_node n tag) (node_enc tag n)"
proof (induction n arbitrary: tag)
  case (TlvNode e cs)
  show ?case
  proof (cases "container_kind (el_value e)")
    case None
    show ?thesis
    proof (cases "el_value e = TEnd")
      case True
      then show ?thesis by (simp add: emits_def)
    next
      case False
      show ?thesis by (rule emits_cong [OF emits_leaf [OF None False, of cs tag]]) (use None False in simp_all)
    qed
  next
    case (Some k)
    have "emits (\<lambda>d. \<forall>c \<in> set cs. tlv_fits (TLV_DEPTH - d) c) (foldR (\<lambda>c w. w_node c (el_tag (node_element c)) w) cs)
       (concat (map (\<lambda>c. node_enc (el_tag (node_element c)) c) cs))"
      by (rule emits_fold) (rule TlvNode)
    from emits_container [OF this Some, of tag]
    show ?thesis
    proof (rule emits_cong)
      have v: "el_value e = TStructure \<or> el_value e = TArray \<or> el_value e = TList"
        using Some by (cases "el_value e") (simp_all add: container_kind_def)
      show "bindR (w_start tag (el_value e) w) (\<lambda>w. bindR (foldR (\<lambda>c w. w_node c (el_tag (node_element c)) w) cs w) w_end)
          = w_node (TlvNode e cs) tag w" for w
        using v by (elim disjE) simp_all
      show "(d < TLV_DEPTH \<and> (\<forall>c \<in> set cs. tlv_fits (TLV_DEPTH - (d + 1)) c)) = tlv_fits (TLV_DEPTH - d) (TlvNode e cs)" for d
        using v Some by (auto simp: container_kind_def)
    qed (simp add: Some)
  qed
qed

text \<open>The writer accepts a tree exactly when it is not nested too deep, has no stray end and fits the buffer.\<close>

lemma w_node_new:
  "w_node n tag writer_new = Inr w \<longleftrightarrow>
     tlv_fits TLV_DEPTH n \<and> length (node_enc tag n) \<le> MATTER_MAX \<and> w = \<lparr>wr_bytes = node_enc tag n, wr_depth = 0\<rparr>"
  using emits_node [of n tag] unfolding emits_def by (auto simp: writer_new_def)

section \<open>What the reader reads\<close>

text \<open>A reader inside its buffer, what is left of it, and the reader further on.\<close>

definition rd_ok :: "reader \<Rightarrow> bool" where
  "rd_ok r \<longleftrightarrow> rd_at r \<le> length (rd_data r) \<and> length (rd_data r) \<le> MATTER_MAX"

definition rd_left :: "reader \<Rightarrow> bytes" where
  "rd_left r = drop (rd_at r) (rd_data r)"

definition skip :: "nat \<Rightarrow> reader \<Rightarrow> reader" where
  "skip n r = r\<lparr>rd_at := rd_at r + n\<rparr>"

lemma skip_skip [simp]: "skip n (skip m r) = skip (m + n) r"
  by (simp add: skip_def add.assoc)

lemma skip_depth [simp]: "rd_depth (skip n r) = rd_depth r" "rd_data (skip n r) = rd_data r"
  by (simp_all add: skip_def)

lemma rd_left_skip: "rd_left r = bs @ rest \<Longrightarrow> rd_left (skip (length bs) r) = rest"
  by (metis append_eq_conv_conj drop_drop rd_left_def skip_def reader.select_convs(1) reader.simps(6) add.commute reader.select_convs(2) reader.surjective reader.update_convs(2))

lemma rd_ok_skip: "rd_ok r \<Longrightarrow> rd_left r = bs @ rest \<Longrightarrow> rd_ok (skip (length bs) r)"
proof -
  assume "rd_ok r" "rd_left r = bs @ rest"
  then have "length (rd_data r) - rd_at r = length bs + length rest" by (metis length_append length_drop rd_left_def)
  moreover have "rd_at r \<le> length (rd_data r)" "length (rd_data r) \<le> MATTER_MAX" using \<open>rd_ok r\<close> by (simp_all add: rd_ok_def)
  ultimately have "rd_at r + length bs \<le> length (rd_data r)" by linarith
  then show ?thesis using \<open>rd_ok r\<close> by (simp add: rd_ok_def skip_def)
qed

lemma rd_take_ok:
  assumes "rd_ok r" "rd_left r = bs @ rest"
  shows "rd_take (length bs) r = Inr (bs, skip (length bs) r)"
proof -
  have "rd_ok (skip (length bs) r)" using assms by (rule rd_ok_skip)
  then have "rd_at r + length bs \<le> length (rd_data r)" "length (rd_data r) \<le> 65535"
    by (simp_all add: rd_ok_def skip_def MATTER_MAX_def)
  moreover have "take (length bs) (drop (rd_at r) (rd_data r)) = bs" using assms(2) by (simp add: rd_left_def)
  ultimately show ?thesis by (simp add: rd_take_def skip_def)
qed

lemma rd_le_ok: "rd_ok r \<Longrightarrow> rd_left r = bs @ rest \<Longrightarrow> length bs = n \<Longrightarrow> rd_le n r = Inr (word_le bs, skip n r)"
  using rd_take_ok [of r bs rest] by (auto simp: rd_le_def)

lemma take_le_bytes: "j \<le> k \<Longrightarrow> take j (le_bytes k n) = le_bytes j n"
proof (induction j arbitrary: k n)
  case (Suc j)
  then show ?case by (cases k) auto
qed simp

lemma word_le_take: "unat n < 256 ^ j \<Longrightarrow> j \<le> 8 \<Longrightarrow> word_le (take j (le_word 8 (n :: u64))) = n"
  by (simp add: le_word_def take_le_bytes word_le_def le_nat_bytes)

lemma ucast_word_le: "unat (n :: 'a::len word) < 256 ^ j \<Longrightarrow> j \<le> 8 \<Longrightarrow> LENGTH('a) \<le> 64 \<Longrightarrow> (ucast (word_le (le_bytes j (unat n)) :: u64) :: 'a word) = n"
proof -
  assume a: "unat n < 256 ^ j" "j \<le> 8" "LENGTH('a) \<le> 64"
  have "unat n < 2 ^ LENGTH('a)" by (rule unsigned_less)
  also have "(2 :: nat) ^ LENGTH('a) \<le> 2 ^ 64" using a(3) by (rule power_increasing) simp
  finally have "unat (ucast n :: u64) = unat n" by (simp add: unsigned_ucast_eq take_bit_nat_eq_self_iff)
  then have "word_le (le_bytes j (unat n)) = (ucast n :: u64)" using a(1) by (simp add: word_le_def le_nat_bytes)
  moreover have "ucast (ucast n :: u64) = n"
    using a(3) by (intro bit_word_eqI) (auto simp: bit_ucast_iff)
  ultimately show ?thesis by simp
qed

lemma control_octet:
  assumes "unat kind < 32"
  shows "drop_bit 5 kind = 0" "kind AND 31 = kind"
    "drop_bit 5 (0x20 OR kind) = 1" "(0x20 OR kind) AND 31 = kind"
    "drop_bit 5 (0x40 OR kind) = 2" "(0x40 OR kind) AND 31 = kind"
    "drop_bit 5 (0x40 OR (0x20 OR kind)) = 3" "(0x40 OR (0x20 OR kind)) AND 31 = kind"
    "drop_bit 5 (0x80 OR kind) = 4" "(0x80 OR kind) AND 31 = kind"
    "drop_bit 5 (0x80 OR (0x20 OR kind)) = 5" "(0x80 OR (0x20 OR kind)) AND 31 = kind"
    "drop_bit 5 (0xc0 OR kind) = 6" "(0xc0 OR kind) AND 31 = kind"
    "drop_bit 5 (0xe0 OR kind) = 7" "(0xe0 OR kind) AND 31 = (kind :: u8)"
proof -
  have "kind \<in> set (map word_of_nat [0..<32])"
    using assms by (auto simp: image_iff intro!: bexI [of _ "unat kind"])
  moreover have "\<forall>kind \<in> set (map word_of_nat [0..<32]).
      drop_bit 5 kind = 0 \<and> kind AND 31 = kind
    \<and> drop_bit 5 (0x20 OR kind) = 1 \<and> (0x20 OR kind) AND 31 = kind
    \<and> drop_bit 5 (0x40 OR kind) = 2 \<and> (0x40 OR kind) AND 31 = kind
    \<and> drop_bit 5 (0x40 OR (0x20 OR kind)) = 3 \<and> (0x40 OR (0x20 OR kind)) AND 31 = kind
    \<and> drop_bit 5 (0x80 OR kind) = 4 \<and> (0x80 OR kind) AND 31 = kind
    \<and> drop_bit 5 (0x80 OR (0x20 OR kind)) = 5 \<and> (0x80 OR (0x20 OR kind)) AND 31 = kind
    \<and> drop_bit 5 (0xc0 OR kind) = 6 \<and> (0xc0 OR kind) AND 31 = kind
    \<and> drop_bit 5 (0xe0 OR kind) = 7 \<and> (0xe0 OR kind) AND 31 = (kind :: u8)"
    by code_simp
  ultimately show "drop_bit 5 kind = 0" "kind AND 31 = kind"
    "drop_bit 5 (0x20 OR kind) = 1" "(0x20 OR kind) AND 31 = kind"
    "drop_bit 5 (0x40 OR kind) = 2" "(0x40 OR kind) AND 31 = kind"
    "drop_bit 5 (0x40 OR (0x20 OR kind)) = 3" "(0x40 OR (0x20 OR kind)) AND 31 = kind"
    "drop_bit 5 (0x80 OR kind) = 4" "(0x80 OR kind) AND 31 = kind"
    "drop_bit 5 (0x80 OR (0x20 OR kind)) = 5" "(0x80 OR (0x20 OR kind)) AND 31 = kind"
    "drop_bit 5 (0xc0 OR kind) = 6" "(0xc0 OR kind) AND 31 = kind"
    "drop_bit 5 (0xe0 OR kind) = 7" "(0xe0 OR kind) AND 31 = kind"
    by blast+
qed

lemma length_tag_number [simp]: "length (tag_number n) = (if 65535 < n then 4 else 2)"
  by (simp add: tag_number_def)

lemma tag_number_word: "(ucast (word_le (tag_number n) :: u64) :: u32) = n"
proof -
  have "unat n < 256 ^ (if 65535 < n then 4 else 2)"
    using unat_less_256(3) [of n] by (auto simp: word_less_nat_alt)
  then show ?thesis
    by (simp add: tag_number_def le_word_def take_le_bytes ucast_word_le split: if_splits)
qed

lemma ucast_word_le2: "(ucast (word_le (le_word 2 (v :: u16)) :: u64) :: u16) = v"
  using unat_less_256(2) [of v] by (simp add: le_word_def ucast_word_le)

lemma ucast_word_le1: "(ucast (word_le [n] :: u64) :: u8) = n"
  using ucast_word_le [of n 1] unat_less_256(1) [of n] by simp

text \<open>Reading a tag form given by the three high bits of the control octet.\<close>

lemma rd_tag_ok:
  assumes "rd_ok r" "tag_bytes tag kind = c # bs" "rd_left r = bs @ rest" "unat kind < 32"
  shows "rd_tag (drop_bit 5 c) r = Inr (tag, skip (length bs) r)" "c AND 31 = kind"
proof -
  note le = rd_le_ok [OF assms(1), of bs rest]
  show "c AND 31 = kind"
    using assms(2) control_octet [OF assms(4)] by (auto simp: tag_bytes_def split: tlv_tag.splits if_splits)
  show "rd_tag (drop_bit 5 c) r = Inr (tag, skip (length bs) r)"
  proof (cases tag)
    case (FullTag v p n)
    let ?f = "drop_bit 5 c"
    have bs: "bs = le_word 2 v @ le_word 2 p @ tag_number n" and f: "?f = (if 65535 < n then 7 else 6)"
      using assms(2) control_octet [OF assms(4)] FullTag by (auto simp: tag_bytes_def)
    have l: "rd_left r = le_word 2 v @ le_word 2 p @ tag_number n @ rest" using assms(3) bs by simp
    note ok1 = rd_ok_skip [OF assms(1) l, simplified] and l1 = rd_left_skip [OF l, simplified]
    note ok2 = rd_ok_skip [OF ok1 l1, simplified] and l2 = rd_left_skip [OF l1, simplified]
    have "rd_le 2 r = Inr (word_le (le_word 2 v), skip 2 r)" by (rule rd_le_ok [OF assms(1) l]) simp
    moreover have "rd_le 2 (skip 2 r) = Inr (word_le (le_word 2 p), skip 4 r)" using rd_le_ok [OF ok1 l1, of 2] by simp
    moreover have "rd_le (if 65535 < n then 4 else 2) (skip 4 r) = Inr (word_le (tag_number n), skip (4 + (if 65535 < n then 4 else 2)) r)"
      using rd_le_ok [OF ok2 l2] by simp
    ultimately show ?thesis
      using f by (auto simp: rd_tag_def bs FullTag ucast_word_le2 tag_number_word)
  next
    case (Context n)
    then show ?thesis
      using assms(2,3) control_octet [OF assms(4)] le [of 1] by (auto simp: tag_bytes_def rd_tag_def ucast_word_le1)
  next
    case (Common n)
    have bs: "bs = tag_number n" and c: "c = 0x40 OR (if 65535 < n then 0x20 else 0) OR kind"
      using assms(2) by (simp_all add: tag_bytes_def Common)
    have f: "drop_bit 5 c = (if 65535 < n then 3 else 2)" by (simp add: c control_octet [OF assms(4)])
    show ?thesis
      using rd_le_ok [OF assms(1,3), of "if 65535 < n then 4 else 2"]
      by (simp add: bs f rd_tag_def tag_number_word Common split: if_splits)
  next
    case (Implicit n)
    have bs: "bs = tag_number n" and c: "c = 0x80 OR (if 65535 < n then 0x20 else 0) OR kind"
      using assms(2) by (simp_all add: tag_bytes_def Implicit)
    have f: "drop_bit 5 c = (if 65535 < n then 5 else 4)" by (simp add: c control_octet [OF assms(4)])
    show ?thesis
      using rd_le_ok [OF assms(1,3), of "if 65535 < n then 4 else 2"]
      by (simp add: bs f rd_tag_def tag_number_word Implicit split: if_splits)
  next
    case Anonymous
    then show ?thesis
      using assms(2) control_octet [OF assms(4)] by (auto simp: tag_bytes_def rd_tag_def skip_def)
  qed
qed

lemma tag_bytes_Cons: "\<exists>c bs. tag_bytes tag kind = c # bs"
  by (cases tag) (auto simp: tag_bytes_def)

lemma rd_next_tag:
  assumes "rd_ok r" "rd_left r = tag_bytes tag kind @ rest" "unat kind < 32"
  shows "rd_next r = bindR (rd_value tag (unat kind) (skip (length (tag_bytes tag kind)) r))
           (\<lambda>(v, r). Inr (Some \<lparr>el_tag = tag, el_value = v\<rparr>, r))"
proof -
  obtain c bs where t: "tag_bytes tag kind = c # bs" using tag_bytes_Cons by metis
  have l: "rd_left r = [c] @ bs @ rest" using assms(2) t by simp
  then have "rd_at r \<noteq> length (rd_data r)" by (auto simp: rd_left_def)
  moreover have "rd_le 1 r = Inr (word_le [c], skip 1 r)" by (rule rd_le_ok [OF assms(1) l]) simp
  moreover note rd_tag_ok [OF rd_ok_skip [OF assms(1) l] t rd_left_skip [OF l] assms(3), simplified]
  ultimately show ?thesis by (simp add: rd_next_def ucast_word_le1 t)
qed

lemma scast_ucast_id:
  fixes n :: u64
  assumes "- (2 ^ (LENGTH('a) - 1)) \<le> sint n" "sint n < 2 ^ (LENGTH('a) - 1)" "LENGTH('a) \<le> 64"
  shows "scast (ucast n :: 'a::len word) = n"
proof -
  have "sint (ucast n :: 'a word) = signed_take_bit (LENGTH('a) - Suc 0) (take_bit LENGTH('a) (uint n))"
    by (simp add: sint_uint unsigned_ucast_eq)
  also have "\<dots> = signed_take_bit (LENGTH('a) - Suc 0) (take_bit LENGTH('a) (sint n))"
    using assms(3) by (simp add: sint_uint [of n] take_bit_signed_take_bit)
  also have "\<dots> = signed_take_bit (LENGTH('a) - Suc 0) (sint n)"
    by (simp add: signed_take_bit_take_bit)
  also have "\<dots> = sint n"
    using assms(1,2) by (simp add: signed_take_bit_int_eq_self)
  finally have "sint (ucast n :: 'a word) = sint n" .
  then have "(of_int (sint (ucast n :: 'a word)) :: u64) = of_int (sint n)" by simp
  then show ?thesis unfolding of_int_sint by simp
qed

lemma rd_int_ok: "rd_int (2 ^ int_width n) (word_le (take (2 ^ int_width n) (le_word 8 n))) = n"
proof -
  have trunc: "(ucast (word_le (take j (le_word 8 n)) :: u64) :: 'b::len word) = ucast n" if "j \<le> 8" "LENGTH('b) = 8 * j" for j
  proof -
    have "(256 :: nat) ^ j = 2 ^ (8 * j)" by (simp add: power_mult)
    then have "word_le (take j (le_word 8 n)) = (word_of_nat (take_bit (8 * j) (unat n)) :: u64)"
      using that(1) by (simp add: le_word_def take_le_bytes word_le_def le_nat_bytes take_bit_eq_mod)
    then have "word_le (take j (le_word 8 n)) = take_bit (8 * j) n"
      by (simp add: of_nat_take_bit)
    then show ?thesis using that(2) by (auto simp: bit_take_bit_iff bit_ucast_iff intro!: bit_word_eqI)
  qed
  show ?thesis
    by (auto simp: int_width_def rd_int_def trunc [of 1, simplified] trunc [of 2, simplified] trunc [of 4, simplified] intro!: scast_ucast_id)
qed

text \<open>Elements the reader can return: texts are UTF-8.\<close>

definition value_ok :: "tlv_value \<Rightarrow> bool" where
  "value_ok v = (case v of TString s \<Rightarrow> utf8_valid s | _ \<Rightarrow> True)"

lemma kind_sum: "tlv_width n = k \<Longrightarrow> unat ((4 :: u8) + word_of_nat k) = 4 + k"
  "tlv_width n = k \<Longrightarrow> unat ((12 :: u8) + word_of_nat k) = 12 + k" "tlv_width n = k \<Longrightarrow> unat ((16 :: u8) + word_of_nat k) = 16 + k"
  "int_width m = k \<Longrightarrow> unat (word_of_nat k :: u8) = k"
  using tlv_width_cases [of n] by (auto simp: int_width_def split: if_splits)

lemma int_width_le: "int_width n \<le> 3"
  by (simp add: int_width_def)

lemma tlv_width_le3: "tlv_width n \<le> 3"
  by (simp add: tlv_width_def)

lemma mod4_kind: "tlv_width n = k \<Longrightarrow> (12 + k) mod 4 = k" "tlv_width n = k \<Longrightarrow> (16 + k) mod 4 = k"
  using tlv_width_le3 [of n] by presburger+

lemma rd_data_ok:
  assumes "rd_ok r" "rd_left r = data_bytes bs @ rest" "k = tlv_width (length bs)"
  shows "bindR (rd_le (2 ^ k) r) (\<lambda>(n, r). bindR (rd_take (unat n) r) f) = f (bs, skip (length (data_bytes bs)) r)"
proof -
  let ?h = "take (2 ^ k) (le_word 8 (word_of_nat (length bs) :: u64))"
  have d: "data_bytes bs = ?h @ bs" by (simp add: data_bytes_def assms(3))
  have l: "rd_left r = ?h @ bs @ rest" using assms(2) d by simp
  have "length bs \<le> length (rd_left r)" using l by simp
  also have "\<dots> \<le> 65535" using assms(1) unfolding rd_left_def rd_ok_def MATTER_MAX_def length_drop by linarith
  finally have b: "length bs \<le> 65535" .
  then have u: "unat (word_of_nat (length bs) :: u64) = length bs" by (simp add: unat_of_nat)
  have k: "(2 :: nat) ^ k \<le> 8" using power_increasing [OF tlv_width_le3 [of "length bs"], of "2 :: nat"] assms(3) by simp
  have h: "length ?h = 2 ^ k" using k by simp
  have "length bs < 256 ^ (2 ^ k)" using tlv_width_le [of "length bs"] b assms(3) by simp
  then have "word_le ?h = (word_of_nat (length bs) :: u64)" using k u by (simp add: word_le_take)
  then have "rd_le (2 ^ k) r = Inr (word_of_nat (length bs), skip (2 ^ k) r)"
    using rd_le_ok [OF assms(1) l h] by simp
  moreover have "rd_take (length bs) (skip (2 ^ k) r) = Inr (bs, skip (2 ^ k + length bs) r)"
    using rd_take_ok [OF rd_ok_skip [OF assms(1) l] rd_left_skip [OF l]] h by simp
  ultimately show ?thesis using u h d by simp
qed

lemma rd_value_leaf:
  assumes "rd_ok r" "value_ok v" "container_kind v = None" "v \<noteq> TEnd"
    and "leaf_bytes tag v = tag_bytes tag kind @ bs" "rd_left r = bs @ rest"
    and kind: "kind = (case v of TInt n \<Rightarrow> word_of_nat (int_width n) | TUint n \<Rightarrow> 4 + word_of_nat (tlv_width (unat n))
       | TBool b \<Rightarrow> if b then 9 else 8 | TFloat _ \<Rightarrow> 11 | TString s \<Rightarrow> 12 + word_of_nat (tlv_width (length s))
       | TBytes b \<Rightarrow> 16 + word_of_nat (tlv_width (length b)) | _ \<Rightarrow> 20)"
  shows "rd_value tag (unat kind) r = Inr (v, skip (length bs) r) \<and> unat kind < 32"
proof (cases v)
  case (TInt n)
  let ?k = "int_width n"
  have kk: "unat kind = ?k" "?k \<le> 3" using kind TInt int_width_le [of n] kind_sum(4) [of n] by auto
  have "bs = take (2 ^ ?k) (le_word 8 n)" using assms(5) kind TInt by (simp add: leaf_bytes_def)
  moreover have "(2 :: nat) ^ ?k \<le> 8" using power_increasing [OF kk(2), of "2 :: nat"] by simp
  ultimately show ?thesis using rd_le_ok [OF assms(1,6)] kk by (simp add: rd_value_def rd_int_ok TInt)
next
  case (TUint n)
  let ?k = "tlv_width (unat n)"
  have kk: "unat kind = 4 + ?k" "?k \<le> 3" using kind TUint tlv_width_le3 kind_sum(1) by auto
  have "bs = take (2 ^ ?k) (le_word 8 n)" using assms(5) kind TUint by (simp add: leaf_bytes_def)
  moreover have "(2 :: nat) ^ ?k \<le> 8" using power_increasing [OF kk(2), of "2 :: nat"] by simp
  moreover have "unat n < 256 ^ (2 ^ ?k)" using tlv_width_le [of "unat n"] unsigned_less [where 'a = nat, of n] by simp
  ultimately show ?thesis using rd_le_ok [OF assms(1,6)] kk by (simp add: rd_value_def word_le_take TUint)
next
  case (TBool b)
  then show ?thesis using assms(5) kind by (auto simp: leaf_bytes_def rd_value_def skip_def)
next
  case (TFloat x)
  have "bs = le_word 8 x" using assms(5) kind TFloat by (simp add: leaf_bytes_def)
  then show ?thesis using rd_le_ok [OF assms(1,6), of 8] kind TFloat by (simp add: rd_value_def)
next
  case (TString s)
  let ?k = "tlv_width (length s)"
  have kk: "unat kind = 12 + ?k" "?k \<le> 3" "(12 + ?k) mod 4 = ?k"
    using kind TString tlv_width_le3 [of "length s"] kind_sum(2) mod4_kind(1) [of "length s"] by simp_all
  have bs: "bs = data_bytes (as_bytes s)" using assms(5) kind TString by (simp add: leaf_bytes_def)
  then have l: "rd_left r = data_bytes (as_bytes s) @ rest" using assms(6) by simp
  have "map char_of_byte (as_bytes s) = s" by (simp add: as_bytes_def comp_def)
  moreover have "utf8_valid s" using assms(2) TString by (simp add: value_ok_def)
  ultimately show ?thesis
    unfolding kk(1) rd_value_def using kk(2,3) bs TString by (simp add: rd_data_ok [OF assms(1) l, of ?k])
next
  case (TBytes b)
  let ?k = "tlv_width (length b)"
  have kk: "unat kind = 16 + ?k" "?k \<le> 3" "(16 + ?k) mod 4 = ?k"
    using kind TBytes tlv_width_le3 [of "length b"] kind_sum(3) mod4_kind(2) [of "length b"] by simp_all
  have bs: "bs = data_bytes b" using assms(5) kind TBytes by (simp add: leaf_bytes_def)
  then have l: "rd_left r = data_bytes b @ rest" using assms(6) by simp
  then show ?thesis
    unfolding kk(1) rd_value_def using kk(2,3) bs TBytes by (simp add: rd_data_ok [OF assms(1) l, of ?k])
next
  case TNull
  then show ?thesis using assms(5) kind by (auto simp: leaf_bytes_def rd_value_def skip_def)
qed (use assms(3,4) in \<open>simp_all add: container_kind_def\<close>)

lemma leaf_split:
  assumes "value_ok v" "v \<noteq> TEnd" "container_kind v = None"
  shows "\<exists>kind bs. leaf_bytes tag v = tag_bytes tag kind @ bs \<and>
    (\<forall>r rest. rd_ok r \<longrightarrow> rd_left r = bs @ rest \<longrightarrow> rd_value tag (unat kind) r = Inr (v, skip (length bs) r) \<and> unat kind < 32)"
proof -
  define kind :: u8 where "kind = (case v of TInt n \<Rightarrow> word_of_nat (int_width n) | TUint n \<Rightarrow> 4 + word_of_nat (tlv_width (unat n))
       | TBool b \<Rightarrow> if b then 9 else 8 | TFloat _ \<Rightarrow> 11 | TString s \<Rightarrow> 12 + word_of_nat (tlv_width (length s))
       | TBytes b \<Rightarrow> 16 + word_of_nat (tlv_width (length b)) | _ \<Rightarrow> 20)"
  have "\<exists>bs. leaf_bytes tag v = tag_bytes tag kind @ bs"
    using assms(2,3) by (cases v) (simp_all add: leaf_bytes_def kind_def container_kind_def)
  then show ?thesis using rd_value_leaf [OF _ assms(1,3,2) _ _ kind_def] by blast
qed

section \<open>Round trip\<close>

text \<open>The trees of the format: only containers have children, and a structure has every tag once.\<close>

fun tlv_ok :: "tlv_node \<Rightarrow> bool" where
  "tlv_ok (TlvNode e cs) \<longleftrightarrow> value_ok (el_value e) \<and> (container_kind (el_value e) = None \<longrightarrow> cs = [])
     \<and> (el_value e = TStructure \<longrightarrow> distinct (map (\<lambda>c. el_tag (node_element c)) cs)) \<and> (\<forall>c \<in> set cs. tlv_ok c)"

fun tlv_count :: "tlv_node \<Rightarrow> nat" where
  "tlv_count (TlvNode e cs) = 1 + sum_list (map tlv_count cs)"

lemma tlv_count_pos: "Suc 0 \<le> tlv_count n"
  by (cases n) simp

lemma length_le_count: "length cs \<le> sum_list (map tlv_count cs)"
proof (induction cs)
  case (Cons c cs)
  then show ?case using tlv_count_pos [of c] by simp
qed simp

definition retag :: "tlv_tag \<Rightarrow> tlv_node \<Rightarrow> tlv_node" where
  "retag tag n = TlvNode ((node_element n)\<lparr>el_tag := tag\<rparr>) (node_children n)"

text \<open>\<open>reads d n tag\<close>: the reader returns the tree that stands in front of it and stops behind it.\<close>

definition reads :: "nat \<Rightarrow> tlv_node \<Rightarrow> tlv_tag \<Rightarrow> bool" where
  "reads d n tag \<longleftrightarrow> (\<forall>r rest count. rd_ok r \<longrightarrow> rd_left r = node_enc tag n @ rest \<longrightarrow> rd_depth r + d \<le> TLV_DEPTH \<longrightarrow>
     count + tlv_count n \<le> TLV_ELEMENTS \<longrightarrow>
     bindR (rd_next r) (\<lambda>(e, r). bindR (ok_or e (SdkInvalid ''unterminated TLV tree'')) (\<lambda>e. node_read (Suc d) e count r))
       = Inr (retag tag n, count + tlv_count n, skip (length (node_enc tag n)) r)
     \<and> (\<exists>e r'. rd_next r = Inr (Some e, r') \<and> el_tag e = tag \<and> el_value e = el_value (node_element n)))"

lemma readsD:
  assumes "reads d n tag" "rd_ok r" "rd_left r = node_enc tag n @ rest" "rd_depth r + d \<le> TLV_DEPTH" "count + tlv_count n \<le> TLV_ELEMENTS"
  obtains e r' where "rd_next r = Inr (Some e, r')" "el_tag e = tag" "el_value e = el_value (node_element n)"
    "node_read (Suc d) e count r' = Inr (retag tag n, count + tlv_count n, skip (length (node_enc tag n)) r)"
  using assms unfolding reads_def by (fastforce)

lemma rd_next_end:
  assumes "rd_ok r" "rd_left r = 24 # rest" "0 < rd_depth r"
  shows "rd_next r = Inr (Some \<lparr>el_tag = Anonymous, el_value = TEnd\<rparr>, (skip 1 r)\<lparr>rd_depth := rd_depth r - 1\<rparr>)"
  using rd_next_tag [OF assms(1), of Anonymous 24 rest] assms(2,3) by (simp add: tag_bytes_def rd_value_def)

lemma node_loop_ok:
  assumes "\<forall>c \<in> set cs. reads d c (el_tag (node_element c))" "\<forall>c \<in> set cs. tlv_fits d c"
    and "rd_ok r" "rd_left r = concat (map (\<lambda>c. node_enc (el_tag (node_element c)) c) cs) @ 24 # rest"
    and "0 < rd_depth r" "rd_depth r + d \<le> TLV_DEPTH" "count + sum_list (map tlv_count cs) \<le> TLV_ELEMENTS"
    and "el_value e = TStructure \<longrightarrow> distinct (map (\<lambda>c. el_tag (node_element c)) (done @ cs))"
    and "length cs < k" "length done + length cs \<le> TLV_ELEMENTS"
  shows "node_loop (Suc d) k e done count r = Inr (TlvNode e (done @ cs), count + sum_list (map tlv_count cs),
     (skip (length (concat (map (\<lambda>c. node_enc (el_tag (node_element c)) c) cs)) + 1) r)\<lparr>rd_depth := rd_depth r - 1\<rparr>)"
  using assms
proof (induction cs arbitrary: "done" count r k)
  case Nil
  then obtain k' where "k = Suc k'" by (cases k) auto
  then show ?case using rd_next_end [OF Nil(3), of rest] Nil by simp
next
  case (Cons c cs)
  let ?enc = "\<lambda>c. node_enc (el_tag (node_element c)) c"
  obtain k' where k: "k = Suc k'" using Cons.prems(9) by (cases k) auto
  have l: "rd_left r = ?enc c @ concat (map ?enc cs) @ 24 # rest" using Cons.prems(4) by simp
  have "reads d c (el_tag (node_element c))" using Cons.prems(1) by simp
  then obtain x r' where x: "rd_next r = Inr (Some x, r')" "el_tag x = el_tag (node_element c)" "el_value x = el_value (node_element c)"
    "node_read (Suc d) x count r' = Inr (retag (el_tag (node_element c)) c, count + tlv_count c, skip (length (?enc c)) r)"
    using readsD [OF _ Cons.prems(3) l Cons.prems(6), of count] Cons.prems(7) by auto
  have c: "retag (el_tag (node_element c)) c = c" by (cases c) (simp add: retag_def)
  have "el_value x \<noteq> TEnd" using Cons.prems(2) x(3) by (cases c) auto
  moreover have "\<not> (el_value e = TStructure \<and> list_ex (\<lambda>c. el_tag (node_element c) = el_tag x) done)"
    using Cons.prems(8) x(2) by (force simp: list_ex_iff image_iff)
  moreover have "node_loop (Suc d) k' e (done @ [c]) (count + tlv_count c) (skip (length (?enc c)) r)
      = Inr (TlvNode e ((done @ [c]) @ cs), count + tlv_count c + sum_list (map tlv_count cs),
          (skip (length (concat (map ?enc cs)) + 1) (skip (length (?enc c)) r))\<lparr>rd_depth := rd_depth (skip (length (?enc c)) r) - 1\<rparr>)"
    by (rule Cons.IH) (use Cons.prems k rd_ok_skip [OF Cons.prems(3) l] rd_left_skip [OF l] in simp_all)
  moreover have "\<not> TLV_ELEMENTS \<le> length done" using Cons.prems(10) by simp
  ultimately show ?case
    using x(1,4) by (simp add: k c add.assoc)
qed

lemma readsI:
  assumes "\<And>r rest count. rd_ok r \<Longrightarrow> rd_left r = node_enc tag n @ rest \<Longrightarrow> rd_depth r + d \<le> TLV_DEPTH \<Longrightarrow>
     count + tlv_count n \<le> TLV_ELEMENTS \<Longrightarrow>
     \<exists>r'. rd_next r = Inr (Some ((node_element n)\<lparr>el_tag := tag\<rparr>), r') \<and>
       node_read (Suc d) ((node_element n)\<lparr>el_tag := tag\<rparr>) count r' = Inr (retag tag n, count + tlv_count n, skip (length (node_enc tag n)) r)"
  shows "reads d n tag"
  unfolding reads_def
proof (intro allI impI)
  fix r rest count
  assume "rd_ok r" "rd_left r = node_enc tag n @ rest" "rd_depth r + d \<le> TLV_DEPTH" "count + tlv_count n \<le> TLV_ELEMENTS"
  from assms [OF this] obtain r' where n: "rd_next r = Inr (Some ((node_element n)\<lparr>el_tag := tag\<rparr>), r')"
    "node_read (Suc d) ((node_element n)\<lparr>el_tag := tag\<rparr>) count r' = Inr (retag tag n, count + tlv_count n, skip (length (node_enc tag n)) r)"
    by blast
  show "bindR (rd_next r) (\<lambda>(e, r). bindR (ok_or e (SdkInvalid ''unterminated TLV tree'')) (\<lambda>e. node_read (Suc d) e count r))
       = Inr (retag tag n, count + tlv_count n, skip (length (node_enc tag n)) r)
     \<and> (\<exists>e r'. rd_next r = Inr (Some e, r') \<and> el_tag e = tag \<and> el_value e = el_value (node_element n))"
    unfolding n(1) using n(2) by simp
qed

lemma reads_leaf:
  assumes "container_kind (el_value e) = None" "value_ok (el_value e)" "el_value e \<noteq> TEnd"
  shows "reads d (TlvNode e []) tag"
proof (rule readsI)
  fix r rest count
  assume r: "rd_ok r" "rd_left r = node_enc tag (TlvNode e []) @ rest" "count + tlv_count (TlvNode e []) \<le> TLV_ELEMENTS"
  have leaf: "el_value e \<notin> {TStructure, TArray, TList}" using assms(1) by (auto simp: container_kind_def)
  obtain kind bs where b: "leaf_bytes tag (el_value e) = tag_bytes tag kind @ bs"
    "\<And>r rest. rd_ok r \<Longrightarrow> rd_left r = bs @ rest \<Longrightarrow> rd_value tag (unat kind) r = Inr (el_value e, skip (length bs) r) \<and> unat kind < 32"
    using leaf_split [OF assms(2,3,1)] by blast
  have l: "rd_left r = tag_bytes tag kind @ bs @ rest" using r(2) assms(1) b(1) by simp
  note val = b(2) [OF rd_ok_skip [OF r(1) l] rd_left_skip [OF l]]
  have "rd_next r = Inr (Some (e\<lparr>el_tag := tag\<rparr>), skip (length (leaf_bytes tag (el_value e))) r)"
    using rd_next_tag [OF r(1) l] val by (simp add: b(1))
  then show "\<exists>r'. rd_next r = Inr (Some ((node_element (TlvNode e []))\<lparr>el_tag := tag\<rparr>), r') \<and>
       node_read (Suc d) ((node_element (TlvNode e []))\<lparr>el_tag := tag\<rparr>) count r'
         = Inr (retag tag (TlvNode e []), count + tlv_count (TlvNode e []), skip (length (node_enc tag (TlvNode e []))) r)"
    using r(3) assms(1) leaf by (simp add: retag_def)
qed

lemma reads_container:
  assumes "container_kind (el_value e) = Some k" "0 < d" "\<forall>c \<in> set cs. tlv_fits (d - 1) c"
    and "\<forall>c \<in> set cs. reads (d - 1) c (el_tag (node_element c))"
    and "el_value e = TStructure \<longrightarrow> distinct (map (\<lambda>c. el_tag (node_element c)) cs)"
  shows "reads d (TlvNode e cs) tag"
proof (rule readsI)
  let ?enc = "\<lambda>c. node_enc (el_tag (node_element c)) c" and ?x = "e\<lparr>el_tag := tag\<rparr>"
  fix r rest count
  assume r: "rd_ok r" "rd_left r = node_enc tag (TlvNode e cs) @ rest" "rd_depth r + d \<le> TLV_DEPTH"
    "count + tlv_count (TlvNode e cs) \<le> TLV_ELEMENTS"
  have k: "unat k < 32" "rd_value tag (unat k) r' = (if TLV_DEPTH \<le> rd_depth r' then Inl (SdkInvalid ''TLV nesting exceeds 32'')
      else Inr (el_value e, r'\<lparr>rd_depth := rd_depth r' + 1\<rparr>))" "el_value e \<in> {TStructure, TArray, TList}" for r'
    using assms(1) by (cases "el_value e"; simp add: container_kind_def rd_value_def; fail)+
  have l: "rd_left r = tag_bytes tag k @ concat (map ?enc cs) @ 24 # rest" using r(2) assms(1) by simp
  define r1 where "r1 = (skip (length (tag_bytes tag k)) r)\<lparr>rd_depth := rd_depth r + 1\<rparr>"
  have r1: "rd_ok r1" "rd_left r1 = concat (map ?enc cs) @ 24 # rest" "rd_depth r1 = rd_depth r + 1"
    using rd_ok_skip [OF r(1) l] rd_left_skip [OF l] by (simp_all add: r1_def rd_ok_def rd_left_def)
  have "rd_next r = Inr (Some ?x, r1)"
    using rd_next_tag [OF r(1) l k(1)] k(2) r(3) assms(2) by (simp add: r1_def)
  moreover have "node_loop (Suc (d - 1)) (Suc TLV_ELEMENTS) ?x [] (count + 1) r1 = Inr (TlvNode ?x ([] @ cs), count + 1 + sum_list (map tlv_count cs),
      (skip (length (concat (map ?enc cs)) + 1) r1)\<lparr>rd_depth := rd_depth r1 - 1\<rparr>)"
  proof (rule node_loop_ok)
    show "rd_depth r1 + (d - 1) \<le> TLV_DEPTH" using r1(3) r(3) assms(2) by simp
    show "count + 1 + sum_list (map tlv_count cs) \<le> TLV_ELEMENTS" using r(4) by simp
    show "length cs < Suc TLV_ELEMENTS" "length [] + length cs \<le> TLV_ELEMENTS" using length_le_count [of cs] r(4) by simp_all
  qed (use assms r1 in simp_all)
  moreover have "(skip (length (concat (map ?enc cs)) + 1) r1)\<lparr>rd_depth := rd_depth r1 - 1\<rparr> = skip (length (node_enc tag (TlvNode e cs))) r"
    using assms(1) by (simp add: r1_def skip_def)
  ultimately show "\<exists>r'. rd_next r = Inr (Some ((node_element (TlvNode e cs))\<lparr>el_tag := tag\<rparr>), r') \<and>
       node_read (Suc d) ((node_element (TlvNode e cs))\<lparr>el_tag := tag\<rparr>) count r'
         = Inr (retag tag (TlvNode e cs), count + tlv_count (TlvNode e cs), skip (length (node_enc tag (TlvNode e cs))) r)"
    using k(3) r(4) assms(2) by (simp add: retag_def)
qed

lemma reads_node: "tlv_ok n \<Longrightarrow> tlv_fits d n \<Longrightarrow> reads d n tag"
proof (induction n arbitrary: d tag)
  case (TlvNode e cs)
  then show ?case
    by (cases "container_kind (el_value e)") (auto intro: reads_leaf reads_container)
qed

lemma node_parse_enc:
  assumes "tlv_ok n" "tlv_fits TLV_DEPTH n" "tlv_count n \<le> TLV_ELEMENTS" "length (node_enc tag n) \<le> MATTER_MAX"
  shows "node_parse (node_enc tag n) = Inr (retag tag n)"
proof -
  define r where "r = \<lparr>rd_data = node_enc tag n, rd_at = 0, rd_depth = 0\<rparr>"
  have r: "reader_new (node_enc tag n) = Inr r" "rd_ok r" "rd_left r = node_enc tag n @ []" "rd_depth r + TLV_DEPTH \<le> TLV_DEPTH"
    using assms(4) by (simp_all add: reader_new_def r_def rd_ok_def rd_left_def)
  obtain e r' where e: "rd_next r = Inr (Some e, r')"
    "node_read (Suc TLV_DEPTH) e 0 r' = Inr (retag tag n, 0 + tlv_count n, skip (length (node_enc tag n)) r)"
    by (rule readsD [OF reads_node [OF assms(1,2)] r(2-4), of 0]) (use assms(3) in auto)
  moreover have "rd_next (skip (length (node_enc tag n)) r) = Inr (None, skip (length (node_enc tag n)) r)"
    by (simp add: rd_next_def r_def skip_def)
  ultimately show ?thesis by (simp add: node_parse_def r(1))
qed

declare node_read.simps [simp del] node_loop.simps [simp del]

text \<open>Every tree the parser accepts is one of the format.\<close>

lemma rd_take_depth: "rd_take n r = Inr (bs, r') \<Longrightarrow> rd_depth r' = rd_depth r"
  by (auto simp: rd_take_def split: if_splits)

lemma rd_le_depth: "rd_le n r = Inr (v, r') \<Longrightarrow> rd_depth r' = rd_depth r"
  by (auto simp: rd_le_def result_iff dest: rd_take_depth)

lemma rd_tag_depth: "rd_tag form r = Inr (t, r') \<Longrightarrow> rd_depth r' = rd_depth r"
  by (auto simp: rd_tag_def result_iff dest!: rd_le_depth split: if_splits)

lemma rd_value_sound:
  "rd_value tag kind r = Inr (v, r') \<Longrightarrow> value_ok v \<and>
     (if v = TEnd then 0 < rd_depth r \<and> rd_depth r' = rd_depth r - 1
      else if container_kind v \<noteq> None then rd_depth r < TLV_DEPTH \<and> rd_depth r' = rd_depth r + 1 else rd_depth r' = rd_depth r)"
  by (auto simp: rd_value_def result_iff value_ok_def container_kind_def dest!: rd_le_depth rd_take_depth split: if_splits)

lemma rd_next_sound:
  assumes "rd_next r = Inr (Some e, r')"
  shows "value_ok (el_value e)" "el_value e = TEnd \<Longrightarrow> rd_depth r' = rd_depth r - 1"
    "container_kind (el_value e) \<noteq> None \<Longrightarrow> rd_depth r < TLV_DEPTH \<and> rd_depth r' = rd_depth r + 1"
    "container_kind (el_value e) = None \<Longrightarrow> el_value e \<noteq> TEnd \<Longrightarrow> rd_depth r' = rd_depth r"
  using assms
  by (auto simp: rd_next_def result_iff Let_def dest!: rd_value_sound rd_le_depth rd_tag_depth split: if_splits)
    (simp_all add: container_kind_def)

definition opened :: "tlv_element \<Rightarrow> nat" where
  "opened e = (if container_kind (el_value e) = None then 0 else 1)"

lemma container_iff: "v \<in> {TStructure, TArray, TList} \<longleftrightarrow> container_kind v \<noteq> None"
  by (cases v) (simp_all add: container_kind_def)

lemma node_read_Inr:
  "node_read (Suc d) e count r = Inr x \<longleftrightarrow> count + 1 \<le> TLV_ELEMENTS \<and>
     (if container_kind (el_value e) = None then x = (TlvNode e [], count + 1, r)
      else node_loop d (Suc TLV_ELEMENTS) e [] (count + 1) r = Inr x)"
  unfolding node_read.simps container_iff by auto

lemma node_loop_Inr:
  assumes "node_loop d (Suc k) e cs count r = Inr (n, count', r')"
  obtains x r1 where "rd_next r = Inr (Some x, r1)" "el_value x = TEnd" "n = TlvNode e cs" "count' = count" "r' = r1"
  | x r1 c count1 r2 where "rd_next r = Inr (Some x, r1)" "el_value x \<noteq> TEnd"
      "el_value e = TStructure \<longrightarrow> (\<forall>c \<in> set cs. el_tag (node_element c) \<noteq> el_tag x)"
      "node_read d x count r1 = Inr (c, count1, r2)" "node_loop d k e (cs @ [c]) count1 r2 = Inr (n, count', r')"
proof -
  obtain x r1 where x: "rd_next r = Inr (Some x, r1)"
    and b: "(if el_value x = TEnd then Inr (TlvNode e cs, count, r1)
       else if el_value e = TStructure \<and> list_ex (\<lambda>c. el_tag (node_element c) = el_tag x) cs
       then Inl (SdkInvalid ''duplicate TLV structure tag'')
       else bindR (node_read d x count r1) (\<lambda>(child, count, r).
            if TLV_ELEMENTS \<le> length cs then Inl (Core Full) else node_loop d k e (cs @ [child]) count r)) = Inr (n, count', r')"
  proof -
    obtain a r1 where a: "rd_next r = Inr (a, r1)" using assms by (cases "rd_next r") (auto simp: node_loop.simps)
    then obtain x where "a = Some x" using assms by (cases a) (auto simp: node_loop.simps)
    then show thesis using that a assms by (simp add: node_loop.simps)
  qed
  show thesis
  proof (cases "el_value x = TEnd")
    case True
    then show thesis using that(1) [OF x] b by simp
  next
    case False
    then show thesis
      using that(2) [OF x False] b by (auto simp: bindR_Inr_iff list_ex_iff split: if_splits)
  qed
qed

definition read_sound :: "nat \<Rightarrow> bool" where
  "read_sound d \<longleftrightarrow> (\<forall>e count r n count' r'. node_read d e count r = Inr (n, count', r') \<longrightarrow> value_ok (el_value e) \<longrightarrow> el_value e \<noteq> TEnd \<longrightarrow>
     opened e \<le> rd_depth r \<longrightarrow> rd_depth r \<le> TLV_DEPTH \<longrightarrow>
     node_element n = e \<and> tlv_ok n \<and> tlv_fits (TLV_DEPTH + opened e - rd_depth r) n \<and> count' = count + tlv_count n
       \<and> count' \<le> TLV_ELEMENTS \<and> rd_depth r' = rd_depth r - opened e)"

lemma node_loop_sound:
  assumes "read_sound d" "node_loop d k e cs count r = Inr (n, count', r')" "value_ok (el_value e)" "container_kind (el_value e) \<noteq> None"
    and "0 < rd_depth r" "rd_depth r \<le> TLV_DEPTH" "count \<le> TLV_ELEMENTS"
    and "\<forall>c \<in> set cs. tlv_ok c \<and> tlv_fits (TLV_DEPTH - rd_depth r) c"
    and "el_value e = TStructure \<longrightarrow> distinct (map (\<lambda>c. el_tag (node_element c)) cs)"
  shows "node_element n = e \<and> tlv_ok n \<and> tlv_fits (TLV_DEPTH + 1 - rd_depth r) n
       \<and> count' + 1 + sum_list (map tlv_count cs) = count + tlv_count n \<and> count' \<le> TLV_ELEMENTS \<and> rd_depth r' = rd_depth r - 1"
  using assms(2-)
proof (induction k arbitrary: cs count r)
  case 0
  then show ?case by (simp add: node_loop.simps)
next
  case (Suc k)
  from Suc.prems(1) show ?case
  proof (cases rule: node_loop_Inr)
    case (1 x r1)
    have "rd_depth r1 = rd_depth r - 1" by (rule rd_next_sound(2) [OF 1(1,2)])
    moreover have "el_value e \<noteq> TEnd" using Suc.prems(3) by (auto simp: container_kind_def)
    ultimately show ?thesis using 1 Suc.prems by auto
  next
    case (2 x r1 c count1 r2)
    note s = rd_next_sound [OF 2(1)]
    have o: "opened x \<le> rd_depth r1" "rd_depth r1 \<le> TLV_DEPTH" "rd_depth r1 - opened x = rd_depth r"
      "TLV_DEPTH + opened x - rd_depth r1 = TLV_DEPTH - rd_depth r"
      using s(3,4) 2(2) Suc.prems(5) by (cases "container_kind (el_value x)"; simp add: opened_def)+
    have c: "node_element c = x" "tlv_ok c" "tlv_fits (TLV_DEPTH - rd_depth r) c" "count1 = count + tlv_count c"
      "count1 \<le> TLV_ELEMENTS" "rd_depth r2 = rd_depth r"
      using assms(1) [unfolded read_sound_def, rule_format, OF 2(4) s(1) 2(2) o(1,2)] o(3,4) by simp_all
    have "el_value e = TStructure \<longrightarrow> distinct (map (\<lambda>c. el_tag (node_element c)) (cs @ [c]))"
      using Suc.prems(8) 2(3) c(1) by auto
    from Suc.IH [OF 2(5) Suc.prems(2,3) _ _ c(5) _ this] show ?thesis
      using Suc.prems c by simp
  qed
qed

lemma node_read_sound: "read_sound d"
proof (induction d)
  case 0
  then show ?case by (simp add: read_sound_def node_read.simps)
next
  case (Suc d)
  show ?case
    unfolding read_sound_def
  proof (intro allI impI)
    fix e count r n count' r'
    assume a: "node_read (Suc d) e count r = Inr (n, count', r')" "value_ok (el_value e)" "el_value e \<noteq> TEnd"
      "opened e \<le> rd_depth r" "rd_depth r \<le> TLV_DEPTH"
    show "node_element n = e \<and> tlv_ok n \<and> tlv_fits (TLV_DEPTH + opened e - rd_depth r) n \<and> count' = count + tlv_count n
       \<and> count' \<le> TLV_ELEMENTS \<and> rd_depth r' = rd_depth r - opened e"
    proof (cases "container_kind (el_value e)")
      case None
      then show ?thesis using a by (simp add: opened_def node_read_Inr)
    next
      case (Some k)
      then have "node_loop d (Suc TLV_ELEMENTS) e [] (count + 1) r = Inr (n, count', r')" "count + 1 \<le> TLV_ELEMENTS"
        using a(1) by (simp_all add: node_read_Inr)
      from node_loop_sound [OF Suc this(1) a(2) _ _ a(5) this(2)] show ?thesis
        using a(4) Some by (simp add: opened_def)
    qed
  qed
qed

text \<open>The bounds on depth and rounds are never reached: any larger ones give the same tree or the same error.\<close>

lemma rd_next_opened:
  assumes "rd_next r = Inr (Some x, r1)" "el_value x \<noteq> TEnd" "rd_depth r \<le> TLV_DEPTH"
  shows "rd_depth r1 = rd_depth r + opened x \<and> rd_depth r1 \<le> TLV_DEPTH"
  using rd_next_sound(3,4) [OF assms(1)] assms(2,3) by (cases "container_kind (el_value x)") (auto simp: opened_def)

lemma node_loop_fuel:
  assumes same: "\<And>x count r. TLV_DEPTH + opened x < d + rd_depth r \<Longrightarrow> TLV_DEPTH + opened x < d' + rd_depth r \<Longrightarrow> value_ok (el_value x) \<Longrightarrow>
       el_value x \<noteq> TEnd \<Longrightarrow> opened x \<le> rd_depth r \<Longrightarrow> rd_depth r \<le> TLV_DEPTH \<Longrightarrow> node_read d x count r = node_read d' x count r"
    and "TLV_ELEMENTS < k + length cs" "TLV_ELEMENTS < k' + length cs" "length cs \<le> TLV_ELEMENTS"
    and "TLV_DEPTH < d + rd_depth r" "TLV_DEPTH < d' + rd_depth r" "rd_depth r \<le> TLV_DEPTH"
  shows "node_loop d k e cs count r = node_loop d' k' e cs count r"
  using assms(2-)
proof (induction k arbitrary: k' cs count r)
  case 0
  then show ?case by simp
next
  case (Suc k)
  then obtain j where k': "k' = Suc j" by (cases k') auto
  have "node_read d x count r1 = node_read d' x count r1 \<and>
      (\<forall>c count1 r2. node_read d' x count r1 = Inr (c, count1, r2) \<longrightarrow> \<not> TLV_ELEMENTS \<le> length cs \<longrightarrow>
        node_loop d k e (cs @ [c]) count1 r2 = node_loop d' j e (cs @ [c]) count1 r2)"
    if x: "rd_next r = Inr (Some x, r1)" "el_value x \<noteq> TEnd" for x r1
  proof (intro conjI allI impI)
    have o: "rd_depth r1 = rd_depth r + opened x" "rd_depth r1 \<le> TLV_DEPTH" using rd_next_opened [OF x Suc.prems(6)] by simp_all
    show "node_read d x count r1 = node_read d' x count r1"
      using o Suc.prems by (intro same rd_next_sound(1) [OF x(1)] x(2)) simp_all
    fix c count1 r2
    assume c: "node_read d' x count r1 = Inr (c, count1, r2)" "\<not> TLV_ELEMENTS \<le> length cs"
    have "rd_depth r2 = rd_depth r"
      using node_read_sound [unfolded read_sound_def, rule_format, OF c(1) rd_next_sound(1) [OF x(1)] x(2)] o by simp
    then show "node_loop d k e (cs @ [c]) count1 r2 = node_loop d' j e (cs @ [c]) count1 r2"
      using Suc.prems c(2) k' by (intro Suc.IH) simp_all
  qed
  then show ?case unfolding k' node_loop.simps
    by (auto simp: bindR_def ok_or_def split: sum.splits option.splits)
qed

lemma node_read_fuel:
  assumes "TLV_DEPTH + opened e < d + rd_depth r" "TLV_DEPTH + opened e < d' + rd_depth r" "value_ok (el_value e)"
    and "el_value e \<noteq> TEnd" "opened e \<le> rd_depth r" "rd_depth r \<le> TLV_DEPTH"
  shows "node_read d e count r = node_read d' e count r"
  using assms
proof (induction d arbitrary: d' e count r)
  case (Suc d)
  then obtain j where j: "d' = Suc j" by (cases d') auto
  have "node_loop d (Suc TLV_ELEMENTS) e [] (count + 1) r = node_loop j (Suc TLV_ELEMENTS) e [] (count + 1) r"
    if "container_kind (el_value e) \<noteq> None"
  proof -
    have "opened e = 1" using that by (simp add: opened_def)
    then show ?thesis using Suc.prems j by (intro node_loop_fuel Suc.IH) simp_all
  qed
  then show ?case unfolding j node_read.simps container_iff by simp
qed simp

lemma node_parse_sound:
  assumes "node_parse bs = Inr n"
  shows "tlv_ok n" "tlv_fits TLV_DEPTH n" "tlv_count n \<le> TLV_ELEMENTS"
proof -
  obtain r e r1 count r2 where p: "reader_new bs = Inr r" "rd_next r = Inr (Some e, r1)" "node_read (Suc TLV_DEPTH) e 0 r1 = Inr (n, count, r2)"
    using assms by (auto simp: node_parse_def result_iff)
  have r: "rd_depth r = 0" using p(1) by (auto simp: reader_new_def split: if_splits)
  note s = rd_next_sound [OF p(2)]
  have v: "el_value e \<noteq> TEnd" using p(2) r by (auto simp: rd_next_def result_iff Let_def dest!: rd_value_sound rd_le_depth rd_tag_depth split: if_splits)
  then have "rd_depth r1 = opened e" using s(3,4) r by (auto simp: opened_def)
  moreover have "opened e \<le> TLV_DEPTH" by (simp add: opened_def TLV_DEPTH_def)
  ultimately show "tlv_ok n" "tlv_fits TLV_DEPTH n" "tlv_count n \<le> TLV_ELEMENTS"
    using node_read_sound [unfolded read_sound_def, rule_format, OF p(3) s(1) v] by simp_all
qed

lemma retag_facts: "tlv_ok (retag tag n) \<longleftrightarrow> tlv_ok n" "tlv_count (retag tag n) = tlv_count n"
  by (cases n; simp add: retag_def)+

text \<open>C33: The writer accepts exactly the trees of elements that are nested at most 32 deep, contain no stray end and fit
  65535 bytes. The bytes of a tree it accepts parse to the same tree, under the tag it was written with, if and only if
  the tree is one of the format (no structure has a tag twice, only containers have children, texts are UTF-8) of at most
  4096 elements.\<close>

theorem tlv_roundtrip:
  "(is_ok (w_node n tag writer_new) \<longleftrightarrow> tlv_fits TLV_DEPTH n \<and> length (node_enc tag n) \<le> MATTER_MAX) \<and>
    (\<forall>w. w_node n tag writer_new = Inr w \<longrightarrow> (\<exists>bs. w_finish w = Inr bs
       \<and> (node_parse bs = Inr (retag tag n) \<longleftrightarrow> tlv_ok n \<and> tlv_count n \<le> 4096)))"
proof (intro conjI allI impI)
  show "is_ok (w_node n tag writer_new) \<longleftrightarrow> tlv_fits TLV_DEPTH n \<and> length (node_enc tag n) \<le> MATTER_MAX"
    by (auto simp: is_ok_iff w_node_new)
  fix w
  assume "w_node n tag writer_new = Inr w"
  then have w: "tlv_fits TLV_DEPTH n" "length (node_enc tag n) \<le> MATTER_MAX" "w_finish w = Inr (node_enc tag n)"
    by (auto simp: w_node_new w_finish_def)
  have "node_parse (node_enc tag n) = Inr (retag tag n) \<longleftrightarrow> tlv_ok n \<and> tlv_count n \<le> TLV_ELEMENTS"
    using node_parse_enc [of n tag] node_parse_sound(1,3) [of "node_enc tag n" "retag tag n"] w by (auto simp: retag_facts)
  then show "\<exists>bs. w_finish w = Inr bs \<and> (node_parse bs = Inr (retag tag n) \<longleftrightarrow> tlv_ok n \<and> tlv_count n \<le> 4096)"
    using w(3) by (simp add: TLV_ELEMENTS_def)
qed

text \<open>A structure with a text, a negative number and a list.\<close>

definition demo_tree :: tlv_node where
  "demo_tree = TlvNode \<lparr>el_tag = Anonymous, el_value = TStructure\<rparr>
     [TlvNode \<lparr>el_tag = Context 0, el_value = TString ''serial123''\<rparr> [],
      TlvNode \<lparr>el_tag = FullTag 0xfff1 0 0x10000, el_value = TInt (- 200)\<rparr> [],
      TlvNode \<lparr>el_tag = Context 2, el_value = TList\<rparr> [TlvNode \<lparr>el_tag = Anonymous, el_value = TUint 300\<rparr> []]]"

theorem tlv_roundtrip_witness:
  "\<exists>w bs. w_node demo_tree Anonymous writer_new = Inr w \<and> w_finish w = Inr bs \<and> node_parse bs = Inr demo_tree"
proof -
  have ok: "tlv_ok demo_tree" "tlv_count demo_tree \<le> 4096" "tlv_fits TLV_DEPTH demo_tree"
    by (simp_all add: demo_tree_def value_ok_def container_kind_def TLV_DEPTH_def) code_simp
  have "length (node_enc Anonymous demo_tree) \<le> MATTER_MAX"
    by (simp add: demo_tree_def container_kind_def leaf_bytes_def tag_bytes_def data_bytes_def tlv_width_def int_width_def MATTER_MAX_def)
  then have "is_ok (w_node demo_tree Anonymous writer_new)" using tlv_roundtrip [of demo_tree Anonymous] ok(3) by simp
  then obtain w where w: "w_node demo_tree Anonymous writer_new = Inr w" by (auto simp: is_ok_iff)
  moreover have "retag Anonymous demo_tree = demo_tree" by (simp add: demo_tree_def retag_def)
  ultimately show ?thesis using tlv_roundtrip [of demo_tree Anonymous] ok(1,2) by auto
qed

end
