(* ===== verification/MatterCode.thy ===== *)
theory MatterCode
  imports MatterTlv Json
begin

unbundle bit_operations_syntax

text \<open>
  The codes that open the commissioning of a Matter device, \<^verbatim>\<open>plugins/matter/src/onboarding.rs\<close>: the manual pairing
  code with its Verhoeff check digit and the content of a QR code in base 38. Shown here: every code that is made
  reads back, and a manual code with one wrong digit or two neighbouring digits exchanged is never accepted.
\<close>

section \<open>Payload\<close>

record payload =
  py_version :: u8
  py_vendor :: u16
  py_product :: u16
  py_flow :: u8
  py_discovery :: u8
  py_discriminator :: u16
  py_short :: bool
  py_passcode :: u32
  py_extensions :: bytes

definition payload_default :: payload where
  "payload_default = \<lparr>py_version = 0, py_vendor = 0, py_product = 0, py_flow = 0, py_discovery = 0, py_discriminator = 0,
     py_short = False, py_passcode = 0, py_extensions = []\<rparr>"

definition FORBIDDEN :: "u32 list" where
  "FORBIDDEN = [0, 11111111, 22222222, 33333333, 44444444, 55555555, 66666666, 77777777, 88888888, 99999999, 12345678, 87654321]"

definition check_passcode :: "u32 \<Rightarrow> unit sdk_result" where
  "check_passcode n =
     (if 2 ^ 27 \<le> n \<or> n \<in> set FORBIDDEN then Inl (SdkInvalid ''invalid Matter passcode'') else Inr ())"

section \<open>Decimal digits and the check digit\<close>

fun decimal_digits :: "nat \<Rightarrow> nat \<Rightarrow> string" where
  "decimal_digits 0 n = []"
| "decimal_digits (Suc k) n = decimal_digits k (n div 10) @ [char_of (48 + n mod 10)]"

definition decimal :: "string \<Rightarrow> u32 \<Rightarrow> nat \<Rightarrow> string sdk_result" where
  "decimal out n width = Inr (out @ drop (10 - width) (decimal_digits 10 (unat n)))"

definition digit_value :: "char \<Rightarrow> nat" where
  "digit_value c = of_char c - 48"

definition VERHOEFF_D :: "nat list list" where
  "VERHOEFF_D = [
    [0, 1, 2, 3, 4, 5, 6, 7, 8, 9],
    [1, 2, 3, 4, 0, 6, 7, 8, 9, 5],
    [2, 3, 4, 0, 1, 7, 8, 9, 5, 6],
    [3, 4, 0, 1, 2, 8, 9, 5, 6, 7],
    [4, 0, 1, 2, 3, 9, 5, 6, 7, 8],
    [5, 9, 8, 7, 6, 0, 4, 3, 2, 1],
    [6, 5, 9, 8, 7, 1, 0, 4, 3, 2],
    [7, 6, 5, 9, 8, 2, 1, 0, 4, 3],
    [8, 7, 6, 5, 9, 3, 2, 1, 0, 4],
    [9, 8, 7, 6, 5, 4, 3, 2, 1, 0]]"

definition VERHOEFF_P :: "nat list list" where
  "VERHOEFF_P = [
    [0, 1, 2, 3, 4, 5, 6, 7, 8, 9],
    [1, 5, 7, 6, 2, 8, 3, 0, 9, 4],
    [5, 8, 0, 3, 7, 9, 6, 1, 4, 2],
    [8, 9, 1, 6, 0, 4, 3, 5, 2, 7],
    [9, 4, 5, 3, 1, 2, 6, 8, 7, 0],
    [4, 2, 8, 6, 5, 7, 3, 9, 0, 1],
    [2, 7, 9, 3, 8, 0, 6, 4, 1, 5],
    [7, 0, 4, 6, 9, 1, 3, 2, 5, 8]]"

definition VERHOEFF_INV :: "u32 list" where
  "VERHOEFF_INV = [0, 4, 3, 2, 1, 5, 6, 7, 8, 9]"

text \<open>One round of the loop over the reversed digits; \<open>i\<close> counts the rounds from \<open>extra\<close> on.\<close>

fun code_rounds :: "nat \<Rightarrow> nat \<Rightarrow> string \<Rightarrow> nat" where
  "code_rounds i c [] = c"
| "code_rounds i c (d # ds) = code_rounds (Suc i) (VERHOEFF_D ! c ! (VERHOEFF_P ! (i mod 8) ! digit_value d)) ds"

definition code_checksum :: "string \<Rightarrow> nat \<Rightarrow> nat" where
  "code_checksum digits extra = code_rounds extra 0 (rev digits)"

section \<open>Manual codes\<close>

definition SEPARATORS :: string where "SEPARATORS = '' -.''"

definition manual_digits :: "string \<Rightarrow> string sdk_result" where
  "manual_digits code =
     foldR (\<lambda>b digits. if b \<in> set SEPARATORS then Inr digits
         else if \<not> is_digit b then Inl (SdkInvalid ''pairing code contains non-digit'')
         else from_core (j_push digits b 21)) code []"

definition digit_group :: "string \<Rightarrow> nat \<Rightarrow> nat \<Rightarrow> nat" where
  "digit_group digits a b = foldl (\<lambda>v c. v * 10 + digit_value c) 0 (take (b - a) (drop a digits))"

text \<open>\<open>u16::try_from\<close>.\<close>

definition u16_try :: "nat \<Rightarrow> string \<Rightarrow> u16 sdk_result" where
  "u16_try n message = (if n < 65536 then Inr (word_of_nat n) else Inl (SdkInvalid message))"

definition manual_fields :: "string \<Rightarrow> payload sdk_result" where
  "manual_fields digits =
     (let first = word_of_nat (digit_value (digits ! 0)) :: u8;
          g2 = digit_group digits 1 6; g3 = digit_group digits 6 10;
          vid = (first AND 4 \<noteq> 0) in
      if 7 < first \<or> 65535 < g2 \<or> vid \<noteq> (length digits = 21) then Inl (SdkInvalid ''invalid pairing code fields'')
      else let p = payload_default\<lparr>py_discriminator := push_bit 10 (ucast (first AND 3)) OR push_bit 8 (word_of_nat (g2 div 2 ^ 14)),
                  py_short := True,
                  py_passcode := (word_of_nat g2 AND 0x3fff) OR push_bit 14 (word_of_nat g3)\<rparr> in
      bindR (if vid
             then bindR (u16_try (digit_group digits 10 15) ''vendor ID overflow'') (\<lambda>vendor.
                  bindR (u16_try (digit_group digits 15 20) ''product ID overflow'') (\<lambda>product.
                  Inr (p\<lparr>py_vendor := vendor, py_product := product, py_flow := 2\<rparr>)))
             else Inr p) (\<lambda>p.
      bindR (check_passcode (py_passcode p)) (\<lambda>_. Inr p)))"

definition manual_parse :: "string \<Rightarrow> payload sdk_result" where
  "manual_parse code =
     bindR (manual_digits code) (\<lambda>digits.
     if length digits \<notin> {11, 21} \<or> code_checksum digits 0 \<noteq> 0
     then Inl (SdkInvalid ''pairing code length or check digit invalid'')
     else manual_fields digits)"

text \<open>The extensions are read to their end; every element of them has to be well formed.\<close>

lemma rd_take_advance: "rd_take n r = Inr (bs, r') \<Longrightarrow> rd_at r' = rd_at r + n \<and> rd_data r' = rd_data r \<and> rd_at r' \<le> length (rd_data r)"
  by (auto simp: rd_take_def split: if_splits)

lemma rd_le_advance: "rd_le n r = Inr (v, r') \<Longrightarrow> rd_at r' = rd_at r + n \<and> rd_data r' = rd_data r \<and> rd_at r' \<le> length (rd_data r)"
  by (auto simp: rd_le_def result_iff dest: rd_take_advance)

lemma rd_tag_advance: "rd_tag f r = Inr (t, r') \<Longrightarrow> rd_at r \<le> length (rd_data r) \<Longrightarrow> rd_at r \<le> rd_at r' \<and> rd_data r' = rd_data r \<and> rd_at r' \<le> length (rd_data r)"
  by (auto simp: rd_tag_def result_iff dest!: rd_le_advance split: if_splits)

lemma rd_value_advance:
  "rd_value t k r = Inr (v, r') \<Longrightarrow> rd_at r \<le> length (rd_data r) \<Longrightarrow> rd_at r \<le> rd_at r' \<and> rd_data r' = rd_data r \<and> rd_at r' \<le> length (rd_data r)"
  by (auto simp: rd_value_def result_iff dest!: rd_le_advance rd_take_advance split: if_splits)

lemma rd_next_advance:
  assumes "rd_next r = Inr (Some e, r')"
  shows "rd_at r < rd_at r' \<and> rd_data r' = rd_data r \<and> rd_at r' \<le> length (rd_data r)"
  using assms by (fastforce simp: rd_next_def result_iff Let_def dest!: rd_le_advance rd_tag_advance rd_value_advance split: if_splits)

function rd_drain :: "reader \<Rightarrow> unit sdk_result" where
  "rd_drain r = (case rd_next r of Inl e \<Rightarrow> Inl e | Inr (None, _) \<Rightarrow> Inr () | Inr (Some _, r') \<Rightarrow> rd_drain r')"
  by pat_completeness auto
termination
  by (relation "measure (\<lambda>r. length (rd_data r) - rd_at r)") (auto dest!: rd_next_advance)

declare rd_drain.simps [simp del]

definition payload_validate :: "payload \<Rightarrow> unit sdk_result" where
  "payload_validate p =
     bindR (check_passcode (py_passcode p)) (\<lambda>_.
     if py_version p \<noteq> 0 \<or> 2 < py_flow p \<or> 4095 < py_discriminator p then Inl (SdkInvalid ''invalid QR payload fields'')
     else bindR (reader_new (py_extensions p)) rd_drain)"

definition manual :: "payload \<Rightarrow> string sdk_result" where
  "manual p =
     bindR (payload_validate p) (\<lambda>_.
     let short = drop_bit 8 (py_discriminator p); vid = (py_flow p \<noteq> 0) in
     bindR (decimal [] (ucast (drop_bit 2 short) OR (if vid then 4 else 0)) 1) (\<lambda>out.
     bindR (decimal out (push_bit 14 (ucast (short AND 3)) OR (py_passcode p AND 0x3fff)) 5) (\<lambda>out.
     bindR (decimal out (drop_bit 14 (py_passcode p)) 4) (\<lambda>out.
     bindR (if vid then bindR (decimal out (ucast (py_vendor p)) 5) (\<lambda>out. decimal out (ucast (py_product p)) 5) else Inr out) (\<lambda>out.
     decimal out (VERHOEFF_INV ! code_checksum out 1) 1)))))"

section \<open>QR codes\<close>

definition ALPHABET :: string where
  "ALPHABET = ''0123456789ABCDEFGHIJKLMNOPQRSTUVWXYZ-.''"

definition pack_bit :: "bool \<Rightarrow> nat \<times> bytes \<Rightarrow> nat \<times> bytes" where
  "pack_bit b s = (case s of (at, packed) \<Rightarrow>
     (at + 1, packed[at div 8 := packed ! (at div 8) OR push_bit (at mod 8) (of_bool b)]))"

definition qr_fields :: "payload \<Rightarrow> (u32 \<times> nat) list" where
  "qr_fields p = [(ucast (py_version p), 3), (ucast (py_vendor p), 16), (ucast (py_product p), 16), (ucast (py_flow p), 2),
     (ucast (py_discovery p), 8), (ucast (py_discriminator p), 12), (py_passcode p, 27), (0, 4)]"

definition qr_pack :: "payload \<Rightarrow> bytes" where
  "qr_pack p = snd (fold pack_bit (concat (map (\<lambda>(value, n). map (bit value) [0..<n]) (qr_fields p))) (0, replicate 11 0))"

text \<open>\<open>slice::chunks\<close>.\<close>

function slice_chunks :: "nat \<Rightarrow> 'a list \<Rightarrow> 'a list list" where
  "slice_chunks n xs = (if xs = [] \<or> n = 0 then [] else take n xs # slice_chunks n (drop n xs))"
  by pat_completeness auto
termination
  by (relation "measure (\<lambda>(n, xs). length xs)") auto

declare slice_chunks.simps [simp del]

fun base38_digits :: "nat \<Rightarrow> nat \<Rightarrow> string" where
  "base38_digits 0 v = []"
| "base38_digits (Suc k) v = ALPHABET ! (v mod 38) # base38_digits k (v div 38)"

definition base38_group :: "bytes \<Rightarrow> string" where
  "base38_group b = base38_digits (if length b = 1 then 2 else if length b = 2 then 4 else 5) (le_nat b)"

definition qr_text :: "payload \<Rightarrow> string sdk_result" where
  "qr_text p =
     bindR (payload_validate p) (\<lambda>_.
     if py_short p then Inl (SdkInvalid ''QR requires the full discriminator'')
     else bindR (copy_bytes (qr_pack p)) (\<lambda>bs.
          bindR (append_bytes bs (py_extensions p)) (\<lambda>bs.
          Inr (''MT:'' @ concat (map base38_group (slice_chunks 3 bs))))))"

definition base38_value :: "string \<Rightarrow> nat sdk_result" where
  "base38_value chars =
     foldR (\<lambda>ch v. bindR (ok_or (position (\<lambda>b. b = ch) ALPHABET) (SdkInvalid ''invalid base38 character'')) (\<lambda>i.
         Inr (v * 38 + i))) (rev chars) 0"

definition base38_decode :: "string \<Rightarrow> bytes \<Rightarrow> bytes sdk_result" where
  "base38_decode chars out =
     bindR (if length chars = 5 then Inr 3 else if length chars = 4 then Inr 2 else if length chars = 2 then Inr 1
            else Inl (SdkInvalid ''invalid base38 trailing length'')) (\<lambda>n.
     bindR (base38_value chars) (\<lambda>v.
     if 2 ^ (n * 8) \<le> v then Inl (SdkInvalid ''base38 group overflow'')
     else append_bytes out (take n (le_bytes 4 v))))"

definition read_bits :: "bytes \<Rightarrow> nat \<Rightarrow> nat \<Rightarrow> u32" where
  "read_bits bs at n =
     fold (\<lambda>i v. v OR push_bit i (ucast (drop_bit ((at + i) mod 8) (bs ! ((at + i) div 8)) AND 1))) [0..<n] 0"

definition qr_parse :: "string \<Rightarrow> payload sdk_result" where
  "qr_parse text =
     bindR (foldR base38_decode (slice_chunks 5 text) []) (\<lambda>bs.
     if length bs < 11 then Inl (SdkInvalid ''QR header too short'')
     else if read_bits bs 84 4 \<noteq> 0 then Inl (SdkInvalid ''QR padding is nonzero'')
     else bindR (copy_bytes (drop 11 bs)) (\<lambda>extensions.
          let p = \<lparr>py_version = ucast (read_bits bs 0 3), py_vendor = ucast (read_bits bs 3 16),
                   py_product = ucast (read_bits bs 19 16), py_flow = ucast (read_bits bs 35 2),
                   py_discovery = ucast (read_bits bs 37 8), py_discriminator = ucast (read_bits bs 45 12),
                   py_short = False, py_passcode = read_bits bs 57 27, py_extensions = extensions\<rparr> in
          bindR (payload_validate p) (\<lambda>_. Inr p)))"

definition payload_parse :: "string \<Rightarrow> payload sdk_result" where
  "payload_parse code =
     (let s = trim code in
      if 8192 < length s then Inl (SdkInvalid ''onboarding code too long'')
      else if 3 \<le> length s \<and> eq_ignore_ascii_case (take 3 s) ''MT:'' then qr_parse (drop 3 s)
      else manual_parse s)"


section \<open>The check digit\<close>

abbreviation vd :: "nat \<Rightarrow> nat \<Rightarrow> nat" where "vd a b \<equiv> VERHOEFF_D ! a ! b"
abbreviation vp :: "nat \<Rightarrow> nat \<Rightarrow> nat" where "vp i d \<equiv> VERHOEFF_P ! (i mod 8) ! d"

lemma tables_assoc: "list_all (\<lambda>a. list_all (\<lambda>b. list_all (\<lambda>c. vd (vd a b) c = vd a (vd b c)) [0..<10]) [0..<10]) [0..<10]"
  by code_simp

lemma tables_range:
  "list_all (\<lambda>a. list_all (\<lambda>b. vd a b < 10) [0..<10]) [0..<10]" "list_all (\<lambda>i. list_all (\<lambda>d. VERHOEFF_P ! i ! d < 10) [0..<10]) [0..<8]"
  by code_simp+

lemma tables_inject:
  "list_all (\<lambda>a. list_all (\<lambda>b. list_all (\<lambda>c. vd a b = vd a c \<longrightarrow> b = c) [0..<10]) [0..<10]) [0..<10]"
  "list_all (\<lambda>a. list_all (\<lambda>b. list_all (\<lambda>c. vd b a = vd c a \<longrightarrow> b = c) [0..<10]) [0..<10]) [0..<10]"
  "list_all (\<lambda>i. list_all (\<lambda>a. list_all (\<lambda>b. VERHOEFF_P ! i ! a = VERHOEFF_P ! i ! b \<longrightarrow> a = b) [0..<10]) [0..<10]) [0..<8]"
  by code_simp+

lemma tables_exchange:
  "list_all (\<lambda>i. list_all (\<lambda>a. list_all (\<lambda>b. vd (VERHOEFF_P ! i ! a) (VERHOEFF_P ! (Suc i mod 8) ! b) = vd (VERHOEFF_P ! i ! b) (VERHOEFF_P ! (Suc i mod 8) ! a)
      \<longrightarrow> a = b) [0..<10]) [0..<10]) [0..<8]"
  by code_simp

lemma tables_zero:
  "list_all (\<lambda>a. vd 0 a = a \<and> vd a 0 = a \<and> VERHOEFF_P ! 0 ! a = a \<and> vd (unat (VERHOEFF_INV ! a)) a = 0 \<and> unat (VERHOEFF_INV ! a) < 10) [0..<10]"
  by code_simp

lemma vd_less: "a < 10 \<Longrightarrow> b < 10 \<Longrightarrow> vd a b < 10"
  using tables_range(1) by (simp add: list_all_iff)

lemma vp_less: "d < 10 \<Longrightarrow> vp i d < 10"
  using tables_range(2) by (simp add: list_all_iff)

lemma vd_assoc: "a < 10 \<Longrightarrow> b < 10 \<Longrightarrow> c < 10 \<Longrightarrow> vd (vd a b) c = vd a (vd b c)"
  using tables_assoc by (simp add: list_all_iff)

lemma vd_right: "a < 10 \<Longrightarrow> b < 10 \<Longrightarrow> c < 10 \<Longrightarrow> vd a b = vd a c \<Longrightarrow> b = c"
  using tables_inject(1) by (simp add: list_all_iff)

lemma vd_left: "a < 10 \<Longrightarrow> b < 10 \<Longrightarrow> c < 10 \<Longrightarrow> vd b a = vd c a \<Longrightarrow> b = c"
  using tables_inject(2) by (simp add: list_all_iff)

lemma vp_inject: "a < 10 \<Longrightarrow> b < 10 \<Longrightarrow> vp i a = vp i b \<Longrightarrow> a = b"
  using tables_inject(3) [unfolded list_all_iff, rule_format, of "i mod 8" a b] by simp

lemma vp_exchange: "a < 10 \<Longrightarrow> b < 10 \<Longrightarrow> vd (vp i a) (vp (Suc i) b) = vd (vp i b) (vp (Suc i) a) \<Longrightarrow> a = b"
  using tables_exchange [unfolded list_all_iff, rule_format, of "i mod 8" a b] by (simp add: mod_Suc_eq)

lemma is_digit_nat: "is_digit d \<longleftrightarrow> 48 \<le> (of_char d :: nat) \<and> of_char d \<le> (57 :: nat)"
proof -
  have "ord d = int (of_char d)" by (simp add: of_nat_of_char)
  then show ?thesis unfolding is_digit_def by linarith
qed

lemma digit_value_less: "is_digit d \<Longrightarrow> digit_value d < 10"
  by (auto simp: is_digit_nat digit_value_def)

lemma digit_value_inject: "is_digit a \<Longrightarrow> is_digit b \<Longrightarrow> digit_value a = digit_value b \<Longrightarrow> a = b"
proof -
  assume a: "is_digit a" "is_digit b" "digit_value a = digit_value b"
  then have "of_char a = (of_char b :: nat)" unfolding is_digit_nat digit_value_def by linarith
  then show "a = b" by simp
qed

lemma code_rounds_append: "code_rounds i c (xs @ ys) = code_rounds (i + length xs) (code_rounds i c xs) ys"
  by (induction xs arbitrary: i c) simp_all

lemma code_rounds_less: "c < 10 \<Longrightarrow> list_all is_digit ds \<Longrightarrow> code_rounds i c ds < 10"
  by (induction ds arbitrary: i c) (simp_all add: vd_less vp_less digit_value_less)

lemma code_rounds_inject:
  "a < 10 \<Longrightarrow> b < 10 \<Longrightarrow> list_all is_digit ds \<Longrightarrow> code_rounds i a ds = code_rounds i b ds \<Longrightarrow> a = b"
proof (induction ds arbitrary: i a b)
  case (Cons d ds)
  have "vd a (vp i (digit_value d)) = vd b (vp i (digit_value d))"
    by (rule Cons.IH) (use Cons.prems in \<open>simp_all add: vd_less vp_less digit_value_less\<close>)
  then show ?case by (rule vd_left [rotated -1]) (use Cons.prems in \<open>simp_all add: vp_less digit_value_less\<close>)
qed simp

lemma code_rounds_mult:
  "a < 10 \<Longrightarrow> c < 10 \<Longrightarrow> list_all is_digit ds \<Longrightarrow> code_rounds i (vd a c) ds = vd a (code_rounds i c ds)"
  by (induction ds arbitrary: i c) (simp_all add: vd_assoc vd_less vp_less digit_value_less)

text \<open>One wrong digit, and two neighbouring digits exchanged, change the checksum.\<close>

lemma checksum_one_digit:
  assumes "list_all is_digit (xs @ a # ys)" "is_digit b" "code_checksum (xs @ a # ys) e = code_checksum (xs @ b # ys) e"
  shows "a = b"
proof -
  let ?c = "code_rounds e 0 (rev ys)"
  have c: "?c < 10" using assms(1) by (simp add: code_rounds_less list_all_rev)
  have ab: "digit_value a < 10" "digit_value b < 10" using assms(1,2) by (simp_all add: digit_value_less)
  have "vd ?c (vp (e + length ys) (digit_value a)) = vd ?c (vp (e + length ys) (digit_value b))"
    by (rule code_rounds_inject [of _ _ "rev xs" "Suc (e + length ys)"])
      (use assms c ab in \<open>simp_all add: code_checksum_def code_rounds_append vd_less vp_less list_all_rev\<close>)
  then have "vp (e + length ys) (digit_value a) = vp (e + length ys) (digit_value b)"
    by (rule vd_right [rotated -1]) (simp_all add: c ab vp_less)
  then have "digit_value a = digit_value b" by (rule vp_inject [rotated -1]) (simp_all add: ab)
  then show ?thesis using assms(1,2) by (auto intro: digit_value_inject)
qed

lemma checksum_exchange:
  assumes "list_all is_digit (xs @ a # b # ys)" "code_checksum (xs @ a # b # ys) e = code_checksum (xs @ b # a # ys) e"
  shows "a = b"
proof -
  let ?c = "code_rounds e 0 (rev ys)" and ?i = "e + length ys"
  have c: "?c < 10" using assms(1) by (simp add: code_rounds_less list_all_rev)
  have ab: "digit_value a < 10" "digit_value b < 10" using assms(1) by (simp_all add: digit_value_less)
  note less = c ab vd_less vp_less
  have "vd (vd ?c (vp ?i (digit_value b))) (vp (Suc ?i) (digit_value a)) = vd (vd ?c (vp ?i (digit_value a))) (vp (Suc ?i) (digit_value b))"
    by (rule code_rounds_inject [of _ _ "rev xs" "Suc (Suc ?i)"])
      (use assms in \<open>simp_all add: code_checksum_def code_rounds_append less list_all_rev\<close>)
  then have "vd ?c (vd (vp ?i (digit_value b)) (vp (Suc ?i) (digit_value a))) = vd ?c (vd (vp ?i (digit_value a)) (vp (Suc ?i) (digit_value b)))"
    by (simp add: vd_assoc less)
  then have "vd (vp ?i (digit_value b)) (vp (Suc ?i) (digit_value a)) = vd (vp ?i (digit_value a)) (vp (Suc ?i) (digit_value b))"
    by (rule vd_right [rotated -1]) (simp_all add: less)
  then have "digit_value b = digit_value a" by (rule vp_exchange [rotated -1]) (simp_all add: ab)
  then show ?thesis using assms(1) by (auto intro: digit_value_inject)
qed

lemma checksum_digit:
  assumes "list_all is_digit ds" "code_checksum ds 1 = c" "digit_value d = unat (VERHOEFF_INV ! c)"
  shows "code_checksum (ds @ [d]) 0 = 0"
proof -
  have c: "c < 10" using assms(1,2) by (auto simp: code_checksum_def code_rounds_less list_all_rev)
  note z = tables_zero [unfolded list_all_iff, rule_format, of c]
  have u: "unat (VERHOEFF_INV ! c) < 10" using z c by simp
  have "code_checksum (ds @ [d]) 0 = code_rounds 1 (vd (unat (VERHOEFF_INV ! c)) 0) (rev ds)"
    using tables_zero [unfolded list_all_iff, rule_format, of "unat (VERHOEFF_INV ! c)"] u
    by (simp add: code_checksum_def assms(3))
  also have "\<dots> = vd (unat (VERHOEFF_INV ! c)) (code_rounds 1 0 (rev ds))"
    by (rule code_rounds_mult) (use u assms(1) in \<open>simp_all add: list_all_rev\<close>)
  also have "\<dots> = 0" using z c assms(2) by (simp add: code_checksum_def)
  finally show ?thesis .
qed

lemma manual_digits_all: "manual_digits code = Inr ds \<Longrightarrow> list_all is_digit ds \<and> length ds \<le> 21"
  unfolding manual_digits_def
  by (rule foldR_inv [where P = "\<lambda>ds. list_all is_digit ds \<and> length ds \<le> 21"]) (auto simp: result_iff j_push_def split: if_splits)

lemma manual_digits_plain:
  assumes "list_all is_digit s" "length s \<le> 21"
  shows "manual_digits s = Inr s"
proof -
  have "foldR (\<lambda>b digits. if b \<in> set SEPARATORS then Inr digits
         else if \<not> is_digit b then Inl (SdkInvalid ''pairing code contains non-digit'')
         else from_core (j_push digits b 21)) s acc = Inr (acc @ s)" if "length acc + length s \<le> 21" for acc
    using assms(1) that
  proof (induction s arbitrary: acc)
    case (Cons b s)
    have "b \<notin> set SEPARATORS" using Cons.prems(1) by (auto simp: SEPARATORS_def is_digit_nat)
    then show ?case using Cons by (simp add: j_push_def)
  qed simp
  from this [of "[]"] show ?thesis using assms(2) by (simp add: manual_digits_def)
qed

lemma exchange_split: "ds = xs @ a # b # ys \<Longrightarrow> i = length xs \<Longrightarrow> ds[i := b, Suc i := a] = xs @ b # a # ys"
  by (simp add: list_update_append)

text \<open>C21: A manual pairing code in which one digit was mistyped, or two neighbouring digits were exchanged, is never accepted
  in place of the code it was meant to be.\<close>

theorem pairing_code_detects:
  assumes "is_ok (manual_parse code)" "manual_digits code = Inr ds" "manual_digits typed = Inr ds'" "ds' \<noteq> ds"
    and "(\<exists>i d. i < length ds \<and> ds' = ds[i := d]) \<or> (\<exists>i. Suc i < length ds \<and> ds' = ds[i := ds ! Suc i, Suc i := ds ! i])"
  shows "\<not> is_ok (manual_parse typed)"
proof
  assume "is_ok (manual_parse typed)"
  then have eq: "code_checksum ds 0 = code_checksum ds' 0"
    using assms(1-3) by (auto simp: manual_parse_def split: if_splits)
  have all: "list_all is_digit ds" "list_all is_digit ds'" using manual_digits_all assms(2,3) by auto
  from assms(5) show False
  proof (elim disjE exE conjE)
    fix i d
    assume i: "i < length ds" "ds' = ds[i := d]"
    have ds: "ds = take i ds @ ds ! i # drop (Suc i) ds" using i(1) by (rule id_take_nth_drop)
    have ds': "ds' = take i ds @ d # drop (Suc i) ds" using i by (simp add: upd_conv_take_nth_drop)
    have "is_digit d" using all(2) ds' by simp
    then have "ds ! i = d" using checksum_one_digit [of "take i ds" "ds ! i" "drop (Suc i) ds" d 0] all(1) eq ds ds' by simp
    then show False using assms(4) i(2) by (metis list_update_id)
  next
    fix i
    assume i: "Suc i < length ds" "ds' = ds[i := ds ! Suc i, Suc i := ds ! i]"
    have ds: "ds = take i ds @ ds ! i # ds ! Suc i # drop (Suc (Suc i)) ds"
      using i(1) by (metis Cons_nth_drop_Suc Suc_lessD append_take_drop_id)
    have ds': "ds' = take i ds @ ds ! Suc i # ds ! i # drop (Suc (Suc i)) ds"
      using exchange_split [OF ds, of i] i by simp
    have "ds ! i = ds ! Suc i"
      using checksum_exchange [of "take i ds" "ds ! i" "ds ! Suc i" "drop (Suc (Suc i)) ds" 0] all(1) eq ds ds' by simp
    then show False using assms(4) ds ds' by simp
  qed
qed

theorem pairing_code_detects_witness:
  "is_ok (manual_parse ''3497-011-2332'') \<and> \<not> is_ok (manual_parse ''3497-011-2322'') \<and> \<not> is_ok (manual_parse ''4397-011-2332'')"
proof -
  have d: "manual_digits ''3497-011-2332'' = Inr ''34970112332''" "manual_digits ''3497-011-2322'' = Inr ''34970112322''"
    "manual_digits ''4397-011-2332'' = Inr ''43970112332''"
    by code_simp+
  have c: "code_checksum ''34970112332'' 0 = 0" by code_simp
  have ok: "is_ok (manual_parse ''3497-011-2332'')"
    by (simp add: manual_parse_def d(1) c manual_fields_def digit_group_def digit_value_def check_passcode_def FORBIDDEN_def Let_def)
  have "\<not> is_ok (manual_parse ''3497-011-2322'')"
    by (rule pairing_code_detects [OF ok d(1,2)]) (simp, rule disjI1, rule exI [of _ 9], rule exI [of _ "CHR ''2''"], simp)
  moreover have "\<not> is_ok (manual_parse ''4397-011-2332'')"
    by (rule pairing_code_detects [OF ok d(1,3)]) (simp, rule disjI2, rule exI [of _ 0], simp)
  ultimately show ?thesis using ok by simp
qed

section \<open>Round trips\<close>

lemma length_decimal_digits [simp]: "length (decimal_digits k n) = k"
  by (induction k arbitrary: n) simp_all

lemma decimal_digits_all: "list_all is_digit (decimal_digits k n)"
  by (induction k arbitrary: n) (auto simp: is_digit_nat of_char_of)

lemma drop_decimal_digits: "w \<le> k \<Longrightarrow> drop (k - w) (decimal_digits k n) = decimal_digits w n"
proof (induction w arbitrary: k n)
  case (Suc w)
  then obtain k' where "k = Suc k'" "w \<le> k'" by (cases k) auto
  then show ?case using Suc.IH [of k' "n div 10"] by simp
qed simp

lemma decimal_ok: "w \<le> 10 \<Longrightarrow> decimal out n w = Inr (out @ decimal_digits w (unat n))"
  by (simp only: decimal_def drop_decimal_digits)

lemma foldl_decimal: "foldl (\<lambda>v c. v * 10 + digit_value c) a (decimal_digits w n) = a * 10 ^ w + n mod 10 ^ w"
proof (induction w arbitrary: n)
  case (Suc w)
  have "digit_value (char_of (48 + n mod 10)) = n mod 10" by (simp add: digit_value_def of_char_of)
  then have "foldl (\<lambda>v c. v * 10 + digit_value c) a (decimal_digits (Suc w) n) = (a * 10 ^ w + n div 10 mod 10 ^ w) * 10 + n mod 10"
    using Suc.IH by simp
  also have "\<dots> = a * 10 ^ Suc w + n mod 10 ^ Suc w" by (simp add: mod_mult2_eq algebra_simps)
  finally show ?case .
qed simp

lemma digit_group_eq:
  assumes "take (b - a) (drop a s) = decimal_digits (b - a) n" "n < 10 ^ (b - a)"
  shows "digit_group s a b = n"
  using assms by (simp add: digit_group_def foldl_decimal)

text \<open>The fields a manual code carries of a payload.\<close>

definition manual_part :: "payload \<Rightarrow> payload" where
  "manual_part p =
     (let q = payload_default\<lparr>py_discriminator := py_discriminator p AND 0xf00, py_short := True, py_passcode := py_passcode p\<rparr> in
      if py_flow p = 0 then q else q\<lparr>py_vendor := py_vendor p, py_product := py_product p, py_flow := 2\<rparr>)"

lemma word_bits_below:
  fixes x :: "'a::len word"
  assumes "take_bit k x = x" "bit x n"
  shows "n < k"
  using assms by (metis bit_take_bit_iff)

lemma unat_take_bit: "take_bit k x = x \<Longrightarrow> unat (x :: 'a::len word) < 2 ^ k"
  by (metis take_bit_nat_less_exp unsigned_take_bit_eq)

lemma take_bit_less: "unat (x :: 'a::len word) < 2 ^ k \<Longrightarrow> take_bit k x = x"
  by (metis take_bit_nat_eq_self_iff unsigned_take_bit_eq unsigned_word_eqI)

lemma passcode_words:
  fixes pass :: u32 and disc :: u16
  assumes "pass < 2 ^ 27" "disc \<le> 4095"
  defines "w \<equiv> push_bit 14 (ucast (drop_bit 8 disc AND 3)) OR (pass AND 0x3fff) :: u32"
  shows "unat w < 65536" "unat (drop_bit 14 pass) < 10000"
    "(w AND 0x3fff) OR push_bit 14 (drop_bit 14 pass) = pass"
    "(ucast (drop_bit 14 w) :: u16) = drop_bit 8 disc AND 3"
proof -
  have m: "(0x3fff :: u32) = mask 14" "(3 :: u16) = mask 2" by (simp_all add: mask_eq_exp_minus_1)
  have b: "bit w n \<longleftrightarrow> n < 14 \<and> bit pass n \<or> (n = 14 \<or> n = 15) \<and> bit disc (n - 6)" for n
    unfolding w_def m by (auto simp: bit_simps)
  have "w = take_bit 16 w" by (rule bit_word_eqI) (auto simp: b bit_take_bit_iff)
  then show "unat w < 65536" using unat_take_bit [of 16 w] by simp
  have "unat pass < 134217728" using assms(1) by (simp add: word_less_nat_alt)
  moreover have "unat (drop_bit 14 pass) = unat pass div 16384" by (simp add: drop_bit_eq_div unat_div)
  ultimately show "unat (drop_bit 14 pass) < 10000" by simp
  show "(w AND 0x3fff) OR push_bit 14 (drop_bit 14 pass) = pass"
  proof (rule bit_word_eqI)
    fix n
    assume "n < LENGTH(32)"
    then show "bit ((w AND 0x3fff) OR push_bit 14 (drop_bit 14 pass)) n \<longleftrightarrow> bit pass n"
      by (cases "n < 14") (auto simp: m b bit_simps)
  qed
  show "(ucast (drop_bit 14 w) :: u16) = drop_bit 8 disc AND 3"
    by (rule bit_word_eqI) (auto simp: m b bit_simps)
qed

lemma first_digit:
  fixes disc :: u16
  assumes "disc \<le> 4095" "vid = (f \<noteq> (0 :: u8))"
  defines "w \<equiv> ucast (drop_bit 2 (drop_bit 8 disc)) OR (if vid then 4 else 0) :: u32"
  shows "unat w < 8" "(word_of_nat (unat w) :: u8) AND 4 \<noteq> 0 \<longleftrightarrow> vid"
    "push_bit 10 (ucast ((word_of_nat (unat w) :: u8) AND 3)) OR push_bit 8 (drop_bit 8 disc AND 3) = disc AND 0xf00"
proof -
  have m: "(3 :: u8) = mask 2" "(3 :: u16) = mask 2" "(0xf00 :: u16) = push_bit 8 (mask 4)"
    by (simp_all add: mask_eq_exp_minus_1)
  have four: "bit (4 :: u32) n \<longleftrightarrow> n = 2" "bit (4 :: u8) n \<longleftrightarrow> n = 2" "bit (4 :: int) n \<longleftrightarrow> n = 2" for n
    using bit_exp_iff [where 'a = int, of 2 n] bit_exp_iff [where 'a = u32, of 2 n] bit_exp_iff [where 'a = u8, of 2 n] by auto
  have "take_bit 12 disc = disc" using assms(1) by (intro take_bit_less) (simp add: word_le_nat_alt)
  note d = word_bits_below [OF this]
  have u: "(word_of_nat (unat w) :: u8) = ucast w" by simp
  have b: "bit w n \<longleftrightarrow> n < 2 \<and> bit disc (n + 10) \<or> n = 2 \<and> vid" for n
    unfolding w_def by (auto simp: bit_simps four add.commute dest: d)
  have "take_bit 3 w = w" by (rule bit_word_eqI) (auto simp: b bit_take_bit_iff)
  then show "unat w < 8" using unat_take_bit [of 3 w] by simp
  show "(word_of_nat (unat w) :: u8) AND 4 \<noteq> 0 \<longleftrightarrow> vid"
  proof -
    have "ucast w AND 4 = (if vid then 4 else 0 :: u8)"
      by (rule bit_word_eqI) (auto simp: b bit_simps four)
    then show ?thesis by (simp add: u)
  qed
  show "push_bit 10 (ucast ((word_of_nat (unat w) :: u8) AND 3)) OR push_bit 8 (drop_bit 8 disc AND 3) = disc AND 0xf00"
    unfolding u m by (rule bit_word_eqI) (auto simp: b bit_simps dest: d)
qed

lemma validate_ok:
  "payload_validate p = Inr u \<Longrightarrow> py_version p = 0 \<and> py_flow p \<le> 2 \<and> py_discriminator p \<le> 4095 \<and> py_passcode p < 2 ^ 27
     \<and> check_passcode (py_passcode p) = Inr () \<and> length (py_extensions p) \<le> MATTER_MAX"
  by (auto simp: payload_validate_def result_iff check_passcode_def reader_new_def not_le not_less split: if_splits)

text \<open>The digits of a manual code before its check digit.\<close>

definition manual_groups :: "payload \<Rightarrow> string" where
  "manual_groups p =
     (let short = drop_bit 8 (py_discriminator p); vid = (py_flow p \<noteq> 0) in
      decimal_digits 1 (unat (ucast (drop_bit 2 short) OR (if vid then 4 else 0) :: u32))
      @ decimal_digits 5 (unat (push_bit 14 (ucast (short AND 3)) OR (py_passcode p AND 0x3fff) :: u32))
      @ decimal_digits 4 (unat (drop_bit 14 (py_passcode p)))
      @ (if vid then decimal_digits 5 (unat (py_vendor p)) @ decimal_digits 5 (unat (py_product p)) else []))"

lemma unat_u16_u32: "unat (ucast (v :: u16) :: u32) = unat v"
  using unsigned_less [where 'a = nat, of v] by (simp add: unsigned_ucast_eq take_bit_nat_eq_self_iff)

lemma manual_eq:
  assumes "payload_validate p = Inr u"
  shows "manual p = Inr (manual_groups p @ decimal_digits 1 (unat (VERHOEFF_INV ! code_checksum (manual_groups p) 1)))"
  using assms
  by (simp add: manual_def manual_groups_def decimal_ok Let_def unat_u16_u32)

lemma first_small: "k < 8 \<Longrightarrow> \<not> (7 :: u8) < word_of_nat k"
  by (simp add: word_less_nat_alt unat_of_nat)

lemma manual_fields_groups:
  assumes "payload_validate p = Inr u"
  shows "manual_fields (manual_groups p @ decimal_digits 1 c) = Inr (manual_part p)"
proof -
  let ?short = "drop_bit 8 (py_discriminator p)" and ?vid = "py_flow p \<noteq> 0"
  let ?w1 = "ucast (drop_bit 2 ?short) OR (if ?vid then 4 else 0) :: u32"
  let ?w2 = "push_bit 14 (ucast (?short AND 3)) OR (py_passcode p AND 0x3fff) :: u32" and ?w3 = "drop_bit 14 (py_passcode p)"
  let ?s = "manual_groups p @ decimal_digits 1 c"
  note v = validate_ok [OF assms]
  note f = first_digit [of "py_discriminator p" ?vid "py_flow p", OF _ refl]
    and g = passcode_words [of "py_passcode p" "py_discriminator p"]
  have s0: "word_of_nat (digit_value (?s ! 0)) = (word_of_nat (unat ?w1) :: u8)"
    using f(1) v by (simp add: manual_groups_def Let_def digit_value_def of_char_of)
  have g2: "digit_group ?s 1 6 = unat ?w2" and g3: "digit_group ?s 6 10 = unat ?w3"
    using g(1,2) v by (auto intro!: digit_group_eq simp: manual_groups_def Let_def)
  have len: "length ?s = 21 \<longleftrightarrow> ?vid" by (simp add: manual_groups_def Let_def)
  have vp: "digit_group ?s 10 15 = unat (py_vendor p)" "digit_group ?s 15 20 = unat (py_product p)" if ?vid
    using that unsigned_less [where 'a = nat, of "py_vendor p"] unsigned_less [where 'a = nat, of "py_product p"]
    by (auto intro!: digit_group_eq simp: manual_groups_def Let_def)
  have n: "\<not> (7 :: u8) < word_of_nat (unat ?w1)" using v by (intro first_small f(1)) simp
  have n2: "\<not> 65535 < unat ?w2" using g(1) v by simp
  have w2: "(word_of_nat (unat ?w2 div 2 ^ 14) :: u16) = ?short AND 3"
  proof -
    have "unat (drop_bit 14 ?w2) = unat ?w2 div 2 ^ 14" by (simp add: drop_bit_eq_div unat_div)
    then have "(word_of_nat (unat ?w2 div 2 ^ 14) :: u16) = ucast (drop_bit 14 ?w2)" by (metis of_nat_unat)
    then show ?thesis using g(4) v by simp
  qed
  have vid: "((word_of_nat (unat ?w1) :: u8) AND 4 \<noteq> 0) = ?vid" using f(2) v by simp
  have pass: "(word_of_nat (unat ?w2) AND 0x3fff) OR push_bit 14 (word_of_nat (unat ?w3)) = py_passcode p" using g(3) v by simp
  have d: "push_bit 10 (ucast ((word_of_nat (unat ?w1) :: u8) AND 3)) OR push_bit 8 (?short AND 3) = py_discriminator p AND 0xf00"
    using f(3) v by simp
  show ?thesis
  proof (cases ?vid)
    case True
    show ?thesis
      unfolding manual_fields_def Let_def s0 g2 g3 len vid w2 pass d vp [OF True]
      using n n2 v True unsigned_less [where 'a = nat, of "py_vendor p"] unsigned_less [where 'a = nat, of "py_product p"]
      by (simp add: u16_try_def manual_part_def Let_def)
  next
    case False
    show ?thesis
      unfolding manual_fields_def Let_def s0 g2 g3 len vid w2 pass d
      using n n2 v False by (simp add: manual_part_def Let_def)
  qed
qed

lemma manual_reads_back:
  assumes "manual p = Inr code"
  shows "payload_parse code = Inr (manual_part p)"
proof -
  obtain u where v: "payload_validate p = Inr u" using assms by (auto simp: manual_def result_iff)
  define c where "c = unat (VERHOEFF_INV ! code_checksum (manual_groups p) 1)"
  have code: "code = manual_groups p @ decimal_digits 1 c" using manual_eq [OF v] assms by (simp add: c_def)
  have g: "list_all is_digit (manual_groups p)" 
    unfolding manual_groups_def Let_def list_all_append by (simp add: decimal_digits_all del: decimal_digits.simps One_nat_def)
  have digits: "list_all is_digit code" unfolding code list_all_append using g decimal_digits_all by blast
  have len: "length code = 11 \<or> length code = 21" by (simp add: code manual_groups_def Let_def)
  have "code_checksum (manual_groups p) 1 < 10" using g by (simp add: code_checksum_def code_rounds_less list_all_rev)
  then have "c < 10" using tables_zero by (simp add: list_all_iff c_def)
  then have "code_checksum code 0 = 0"
    unfolding code using checksum_digit [OF g refl, of "char_of (48 + c mod 10)"] by (simp add: c_def digit_value_def of_char_of)
  moreover have "manual_fields code = Inr (manual_part p)" unfolding code by (rule manual_fields_groups [OF v])
  moreover have "manual_digits code = Inr code" using digits len by (auto intro: manual_digits_plain)
  ultimately have m: "manual_parse code = Inr (manual_part p)" using len by (auto simp: manual_parse_def)
  have ne: "code \<noteq> []" using len by auto
  have ends: "is_digit (hd code)" "is_digit (last code)"
    using digits hd_in_set [OF ne] last_in_set [OF ne] by (auto simp: list_all_iff)
  have print: "is_digit x \<Longrightarrow> printable x" for x by (simp add: is_digit_nat printable_def Let_def)
  have "trim code = code" using ne ends print by (intro trim_printable) auto
  moreover have "\<not> eq_ignore_ascii_case (take 3 code) ''MT:''"
  proof -
    obtain x xs where x: "code = x # xs" using ne by (cases code) auto
    then have "ascii_lower x = x" using ends(1) by (simp add: is_digit_nat ascii_lower_def Let_def)
    moreover have "x \<noteq> char_of (109 :: nat)" using ends(1) x by (auto simp: is_digit_nat of_char_of)
    ultimately show ?thesis by (auto simp: x eq_ignore_ascii_case_def ascii_lower_def Let_def)
  qed
  ultimately show ?thesis using m len by (auto simp: payload_parse_def Let_def)
qed

text \<open>Base 38.\<close>

lemma slice_chunks_single: "xs \<noteq> [] \<Longrightarrow> length xs \<le> n \<Longrightarrow> slice_chunks n xs = [xs]"
  by (cases n) (auto simp: slice_chunks.simps [of _ "[]"] slice_chunks.simps [of _ xs])

lemma slice_chunks_append: "length xs = n \<Longrightarrow> 0 < n \<Longrightarrow> slice_chunks n (xs @ ys) = xs # slice_chunks n ys"
  by (subst slice_chunks.simps) auto

lemma slice_chunks_Nil [simp]: "slice_chunks n [] = []"
  by (subst slice_chunks.simps) simp

lemma chunks_split3:
  "bs \<noteq> [] \<Longrightarrow> (\<exists>n. length bs = n \<and> n \<in> {1, 2, 3}) \<or> (\<exists>x y. bs = x @ y \<and> length x = 3 \<and> y \<noteq> [])"
proof (cases "length bs \<le> 3")
  case True
  moreover assume "bs \<noteq> []"
  then have "0 < length bs" by simp
  ultimately have "length bs = 1 \<or> length bs = 2 \<or> length bs = 3" by linarith
  then show ?thesis by auto
next
  case False
  then have "bs = take 3 bs @ drop 3 bs" "length (take 3 bs) = 3" "drop 3 bs \<noteq> []" by auto
  then show ?thesis by blast
qed

lemma length_base38_digits [simp]: "length (base38_digits k v) = k"
  by (induction k arbitrary: v) simp_all

lemma base38_group_length: "length (base38_group b) = (if length b = 1 then 2 else if length b = 2 then 4 else 5)"
  by (simp add: base38_group_def)

lemma slice_chunks_groups: "slice_chunks 5 (concat (map base38_group (slice_chunks 3 bs))) = map base38_group (slice_chunks 3 bs)"
proof (induction "length bs" arbitrary: bs rule: less_induct)
  case less
  show ?case
  proof (cases "bs = []")
    case False
    from chunks_split3 [OF False] show ?thesis
    proof
      assume "\<exists>n. length bs = n \<and> n \<in> {1, 2, 3}"
      then have "slice_chunks 3 bs = [bs]" "base38_group bs \<noteq> []" "length (base38_group bs) \<le> 5"
        using False base38_group_length [of bs] by (auto simp: slice_chunks_single)
      then show ?thesis by (simp add: slice_chunks_single)
    next
      assume "\<exists>x y. bs = x @ y \<and> length x = 3 \<and> y \<noteq> []"
      then obtain x y where xy: "bs = x @ y" "length x = 3" by blast
      have "length (base38_group x) = 5" using xy(2) base38_group_length [of x] by simp
      then show ?thesis using less [of y] xy by (simp add: slice_chunks_append)
    qed
  qed simp
qed

lemma alphabet_positions: "list_all (\<lambda>i. position (\<lambda>b. b = ALPHABET ! i) ALPHABET = Some i \<and> printable (ALPHABET ! i)) [0..<38]"
  by code_simp

lemma base38_value_digits: "v < 38 ^ k \<Longrightarrow> base38_value (base38_digits k v) = Inr v"
proof (induction k arbitrary: v)
  case 0
  then show ?case by (simp add: base38_value_def)
next
  case (Suc k)
  have "v div 38 < 38 ^ k" using Suc.prems by (simp add: div_less_iff_less_mult mult.commute)
  then have "base38_value (base38_digits k (v div 38)) = Inr (v div 38)" by (rule Suc.IH)
  moreover have "position (\<lambda>b. b = ALPHABET ! (v mod 38)) ALPHABET = Some (v mod 38)"
    using alphabet_positions by (simp add: list_all_iff)
  ultimately show ?case by (simp add: base38_value_def foldR_append)
qed

lemma le_bytes_le_nat: "length b = n \<Longrightarrow> le_bytes n (le_nat b) = b"
  using le_nat_inject [of "le_bytes n (le_nat b)" b] le_nat_less [of b] by (simp add: le_nat_bytes)

lemma base38_decode_group:
  assumes "length b \<in> {1, 2, 3}"
  shows "base38_decode (base38_group b) out = append_bytes out b"
proof -
  let ?k = "if length b = 1 then 2 else if length b = 2 then 4 else (5 :: nat)"
  have l: "le_nat b < 256 ^ length b" by (rule le_nat_less)
  then have "le_nat b < 38 ^ ?k" using assms by auto
  then have "base38_value (base38_group b) = Inr (le_nat b)" by (simp add: base38_group_def base38_value_digits)
  moreover have "take (length b) (le_bytes 4 (le_nat b)) = b"
    using assms by (subst take_le_bytes) (auto simp del: le_bytes.simps simp: le_bytes_le_nat)
  moreover have "\<not> 2 ^ (length b * 8) \<le> le_nat b"
  proof -
    have "(2 :: nat) ^ (length b * 8) = (2 ^ 8) ^ length b" by (simp only: power_mult [symmetric] mult.commute)
    then show ?thesis using l by simp
  qed
  ultimately show ?thesis using assms by (auto simp: base38_decode_def base38_group_length)
qed

lemma base38_decode_groups:
  "length out + length bs \<le> MATTER_MAX \<Longrightarrow> foldR base38_decode (map base38_group (slice_chunks 3 bs)) out = Inr (out @ bs)"
proof (induction "length bs" arbitrary: bs out rule: less_induct)
  case less
  show ?case
  proof (cases "bs = []")
    case False
    from chunks_split3 [OF False] show ?thesis
    proof
      assume l: "\<exists>n. length bs = n \<and> n \<in> {1, 2, 3}"
      then have "slice_chunks 3 bs = [bs]" using False by (auto simp: slice_chunks_single)
      then show ?thesis using l less.prems by (auto simp: base38_decode_group append_bytes_ok)
    next
      assume "\<exists>x y. bs = x @ y \<and> length x = 3 \<and> y \<noteq> []"
      then obtain x y where xy: "bs = x @ y" "length x = 3" by blast
      then show ?thesis using less.hyps [of y "out @ x"] less.prems
        by (simp add: slice_chunks_append base38_decode_group append_bytes_ok)
    qed
  qed simp
qed

text \<open>The packed header.\<close>

abbreviation packed_bit :: "bytes \<Rightarrow> nat \<Rightarrow> bool" where
  "packed_bit bs k \<equiv> bit (bs ! (k div 8)) (k mod 8)"

lemma bit_push_of_bool: "k < 8 \<Longrightarrow> bit (push_bit k (of_bool b) :: u8) j \<longleftrightarrow> b \<and> j = k"
  by (auto simp: bit_simps)

lemma pack_bit_bits:
  assumes "at < 8 * length packed" "k < 8 * length packed"
  shows "packed_bit (snd (pack_bit b (at, packed))) k \<longleftrightarrow> packed_bit packed k \<or> k = at \<and> b"
proof -
  have d: "k div 8 = at div 8 \<and> k mod 8 = at mod 8 \<longleftrightarrow> k = at" by (metis div_mult_mod_eq)
  have "at div 8 < length packed" "k div 8 < length packed" using assms by (simp_all add: div_less_iff_less_mult mult.commute)
  then show ?thesis
    using d by (auto simp: pack_bit_def nth_list_update bit_or_iff bit_push_of_bool)
qed

lemma fold_pack:
  assumes "at + length bs \<le> 8 * length packed"
  shows "length (snd (fold pack_bit bs (at, packed))) = length packed
    \<and> (\<forall>k < 8 * length packed. packed_bit (snd (fold pack_bit bs (at, packed))) k \<longleftrightarrow>
        packed_bit packed k \<or> at \<le> k \<and> k < at + length bs \<and> bs ! (k - at))"
  using assms
proof (induction bs arbitrary: at packed)
  case (Cons b bs)
  let ?p = "snd (pack_bit b (at, packed))"
  have p: "pack_bit b (at, packed) = (at + 1, ?p)" "length ?p = length packed" by (simp_all add: pack_bit_def)
  have a: "at < 8 * length packed" using Cons.prems by simp
  have IH: "length (snd (fold pack_bit bs (at + 1, ?p))) = length ?p
    \<and> (\<forall>k < 8 * length ?p. packed_bit (snd (fold pack_bit bs (at + 1, ?p))) k \<longleftrightarrow>
        packed_bit ?p k \<or> at + 1 \<le> k \<and> k < at + 1 + length bs \<and> bs ! (k - (at + 1)))"
    by (rule Cons.IH) (use Cons.prems p in simp)
  have f: "fold pack_bit (b # bs) (at, packed) = fold pack_bit bs (at + 1, ?p)" using p(1) by simp
  have n: "(b # bs) ! (k - at) \<longleftrightarrow> (if k = at then b else bs ! (k - (at + 1)))" if "at \<le> k" for k
    using that by (auto simp: nth_Cons' diff_diff_left)
  show ?case
    unfolding f
  proof (intro conjI allI impI)
    show "length (snd (fold pack_bit bs (at + 1, ?p))) = length packed" using IH p(2) by (simp only:)
    fix k
    assume k: "k < 8 * length packed"
    have one: "packed_bit (snd (fold pack_bit bs (at + 1, ?p))) k \<longleftrightarrow>
        packed_bit ?p k \<or> at + 1 \<le> k \<and> k < at + 1 + length bs \<and> bs ! (k - (at + 1))"
      by (rule IH [THEN conjunct2, rule_format]) (simp only: p(2) k)
    consider "k < at" | "k = at" | "at < k" by linarith
    then show "packed_bit (snd (fold pack_bit bs (at + 1, ?p))) k \<longleftrightarrow>
        packed_bit packed k \<or> at \<le> k \<and> k < at + length (b # bs) \<and> (b # bs) ! (k - at)"
      unfolding one pack_bit_bits [OF a k] by cases (simp_all add: n)
  qed
qed auto

lemma read_bits_bit: "n \<le> 32 \<Longrightarrow> bit (read_bits bs at n) i \<longleftrightarrow> i < n \<and> packed_bit bs (at + i)"
proof (induction n arbitrary: i)
  case 0
  then show ?case by (simp add: read_bits_def)
next
  case (Suc n)
  have one: "bit (ucast (x AND 1 :: u8) :: u32) j \<longleftrightarrow> j = 0 \<and> bit x 0" for x j by (auto simp: bit_simps)
  let ?x = "bs ! ((at + n) div 8)"
  have s: "read_bits bs at (Suc n) = read_bits bs at n OR push_bit n (ucast (drop_bit ((at + n) mod 8) (bs ! ((at + n) div 8)) AND 1))"
    by (simp add: read_bits_def)
  show ?case
  proof (cases "i = n")
    case True
    have "bit (push_bit n (ucast (drop_bit ((at + n) mod 8) ?x AND 1)) :: u32) n \<longleftrightarrow> bit ?x ((at + n) mod 8)"
      using Suc.prems unfolding bit_push_bit_iff one by (simp add: bit_drop_bit_eq)
    then show ?thesis unfolding s bit_or_iff True using Suc.IH [of n] Suc.prems by simp
  next
    case False
    have "\<not> bit (push_bit n (ucast (drop_bit ((at + n) mod 8) ?x AND 1)) :: u32) i"
      using False unfolding bit_push_bit_iff one by simp
    then show ?thesis unfolding s bit_or_iff using Suc.IH [of i] Suc.prems False by auto
  qed
qed

definition qr_bits :: "payload \<Rightarrow> bool list" where
  "qr_bits p = concat (map (\<lambda>(value, n). map (bit value) [0..<n]) (qr_fields p))"

lemma length_qr_bits: "length (qr_bits p) = 88"
  by (simp add: qr_bits_def qr_fields_def)

lemma qr_pack_bits: "length (qr_pack p) = 11" "k < 88 \<Longrightarrow> packed_bit (qr_pack p @ e) k \<longleftrightarrow> qr_bits p ! k"
proof -
  have f: "length (snd (fold pack_bit (qr_bits p) (0, replicate 11 0))) = length (replicate 11 (0 :: u8))
    \<and> (\<forall>k < 8 * length (replicate 11 (0 :: u8)). packed_bit (snd (fold pack_bit (qr_bits p) (0, replicate 11 0))) k \<longleftrightarrow>
        packed_bit (replicate 11 0) k \<or> 0 \<le> k \<and> k < 0 + length (qr_bits p) \<and> qr_bits p ! (k - 0))"
    by (rule fold_pack) (simp add: length_qr_bits)
  then show l: "length (qr_pack p) = 11" unfolding qr_pack_def qr_bits_def by simp
  assume k: "k < 88"
  have "packed_bit (replicate 11 0) k = False" using k by simp
  moreover have "k div 8 < 11" using k by (simp add: div_less_iff_less_mult)
  then have "packed_bit (qr_pack p @ e) k = packed_bit (qr_pack p) k" using l by (simp add: nth_append)
  ultimately show "packed_bit (qr_pack p @ e) k \<longleftrightarrow> qr_bits p ! k"
    using f [THEN conjunct2, rule_format, of k] k unfolding qr_pack_def qr_bits_def [symmetric] by (simp add: length_qr_bits)
qed

lemma read_field:
  assumes "qr_bits p = a @ map (bit v) [0..<n] @ b" "length a = at" "n \<le> 32"
  shows "read_bits (qr_pack p @ e) at n = take_bit n v"
proof (rule bit_word_eqI)
  fix i
  assume "i < LENGTH(32)"
  have "at + n \<le> 88" using arg_cong [OF assms(1), of length] assms(2) by (simp add: length_qr_bits)
  then have "i < n \<Longrightarrow> packed_bit (qr_pack p @ e) (at + i) \<longleftrightarrow> bit v i"
    using qr_pack_bits(2) [of "at + i" p e] assms(1,2) by (simp add: nth_append)
  then show "bit (read_bits (qr_pack p @ e) at n) i \<longleftrightarrow> bit (take_bit n v) i"
    unfolding read_bits_bit [OF assms(3)] bit_take_bit_iff by blast
qed

abbreviation field_bits :: "u32 \<times> nat \<Rightarrow> bool list" where
  "field_bits f \<equiv> map (bit (fst f)) [0..<snd f]"

lemma qr_field:
  assumes "i < 8" "at = sum_list (map snd (take i (qr_fields p)))"
  shows "read_bits (qr_pack p @ e) at (snd (qr_fields p ! i)) = take_bit (snd (qr_fields p ! i)) (fst (qr_fields p ! i))"
proof -
  let ?f = "qr_fields p"
  have f: "?f = take i ?f @ ?f ! i # drop (Suc i) ?f" by (rule id_take_nth_drop) (use assms(1) in \<open>simp add: qr_fields_def\<close>)
  have c: "qr_bits p = concat (map field_bits ?f)" unfolding qr_bits_def by (simp add: case_prod_unfold)
  have "qr_bits p = concat (map field_bits (take i ?f)) @ field_bits (?f ! i) @ concat (map field_bits (drop (Suc i) ?f))"
    unfolding c by (subst f) (simp only: map_append list.map concat_append concat.simps)
  moreover have "length (concat (map field_bits (take i ?f))) = at"
    unfolding assms(2) by (simp add: length_concat comp_def)
  moreover have "list_all (\<lambda>x. snd x \<le> 32) ?f" "length ?f = 8" by (simp_all add: qr_fields_def)
  then have "snd (?f ! i) \<le> 32" using assms(1) by (simp add: list_all_length)
  ultimately show ?thesis by (rule read_field)
qed

lemma narrow_back:
  fixes x :: "'a::len word"
  assumes "unat x < 2 ^ n" "LENGTH('a) \<le> 32"
  shows "ucast (take_bit n (ucast x :: u32)) = x"
proof (rule bit_word_eqI)
  fix i
  assume "i < LENGTH('a)"
  then show "bit (ucast (take_bit n (ucast x :: u32)) :: 'a word) i \<longleftrightarrow> bit x i"
    using assms(2) word_bits_below [OF take_bit_less [OF assms(1)], of i] by (auto simp: bit_simps)
qed

lemma base38_printable: "c \<in> set (base38_digits k v) \<Longrightarrow> printable c"
  using alphabet_positions by (induction k arbitrary: v) (auto simp: list_all_iff)

lemma qr_read_fields:
  assumes "payload_validate p = Inr u" "\<not> py_short p"
  defines "bs \<equiv> qr_pack p @ py_extensions p"
  shows "\<lparr>py_version = ucast (read_bits bs 0 3), py_vendor = ucast (read_bits bs 3 16),
      py_product = ucast (read_bits bs 19 16), py_flow = ucast (read_bits bs 35 2),
      py_discovery = ucast (read_bits bs 37 8), py_discriminator = ucast (read_bits bs 45 12),
      py_short = False, py_passcode = read_bits bs 57 27, py_extensions = py_extensions p\<rparr> = p"
    and "read_bits bs 84 4 = 0"
proof -
  note ok = validate_ok [OF assms(1)]
  have r: "read_bits bs 0 3 = take_bit 3 (ucast (py_version p))" "read_bits bs 3 16 = take_bit 16 (ucast (py_vendor p))"
    "read_bits bs 19 16 = take_bit 16 (ucast (py_product p))" "read_bits bs 35 2 = take_bit 2 (ucast (py_flow p))"
    "read_bits bs 37 8 = take_bit 8 (ucast (py_discovery p))" "read_bits bs 45 12 = take_bit 12 (ucast (py_discriminator p))"
    "read_bits bs 57 27 = take_bit 27 (py_passcode p)" "read_bits bs 84 4 = take_bit 4 0"
    using qr_field [of 0 0 p "py_extensions p"] qr_field [of 1 3 p "py_extensions p"] qr_field [of 2 19 p "py_extensions p"]
      qr_field [of 3 35 p "py_extensions p"] qr_field [of 4 37 p "py_extensions p"] qr_field [of 5 45 p "py_extensions p"]
      qr_field [of 6 57 p "py_extensions p"] qr_field [of 7 84 p "py_extensions p"]
    unfolding bs_def by (simp_all add: qr_fields_def)
  have w: "unat (py_version p) < 2 ^ 3" "unat (py_vendor p) < 2 ^ 16" "unat (py_product p) < 2 ^ 16" "unat (py_flow p) < 2 ^ 2"
    "unat (py_discovery p) < 2 ^ 8" "unat (py_discriminator p) < 2 ^ 12" "unat (py_passcode p) < 2 ^ 27"
    using ok unsigned_less [where 'a = nat, of "py_vendor p"] unsigned_less [where 'a = nat, of "py_product p"]
      unsigned_less [where 'a = nat, of "py_discovery p"]
    by (simp_all add: word_le_nat_alt word_less_nat_alt)
  note narrowed = w(1-6) [THEN narrow_back]
  show "\<lparr>py_version = ucast (read_bits bs 0 3), py_vendor = ucast (read_bits bs 3 16),
      py_product = ucast (read_bits bs 19 16), py_flow = ucast (read_bits bs 35 2),
      py_discovery = ucast (read_bits bs 37 8), py_discriminator = ucast (read_bits bs 45 12),
      py_short = False, py_passcode = read_bits bs 57 27, py_extensions = py_extensions p\<rparr> = p"
    unfolding r using narrowed take_bit_less [OF w(7)] assms(2) by simp
  show "read_bits bs 84 4 = 0" unfolding r by simp
qed

lemma qr_reads_back:
  assumes "qr_text p = Inr code" "length code \<le> 8192"
  shows "payload_parse code = Inr p"
proof -
  obtain u where v: "payload_validate p = Inr u" and short: "\<not> py_short p" and l: "11 + length (py_extensions p) \<le> MATTER_MAX"
    and code: "code = ''MT:'' @ concat (map base38_group (slice_chunks 3 (qr_pack p @ py_extensions p)))"
    using assms(1) qr_pack_bits(1) [of p]
    by (auto simp: qr_text_def result_iff MATTER_MAX_def split: if_splits)
  let ?t = "concat (map base38_group (slice_chunks 3 (qr_pack p @ py_extensions p)))"
  have b: "foldR base38_decode (slice_chunks 5 ?t) [] = Inr (qr_pack p @ py_extensions p)"
    unfolding slice_chunks_groups using base38_decode_groups [of "[]" "qr_pack p @ py_extensions p"] l by (simp add: qr_pack_bits(1))
  note f = qr_read_fields [OF v short]
  have "qr_parse ?t = Inr p"
    unfolding qr_parse_def b using v l by (simp add: qr_pack_bits(1) f Let_def)
  moreover have all: "\<forall>c \<in> set code. printable c"
    unfolding code by (auto simp: base38_group_def base38_printable) (simp_all add: printable_def)
  have "code \<noteq> []" using code by simp
  then have "trim code = code" by (intro trim_printable) (use all hd_in_set last_in_set in blast)+
  ultimately show ?thesis using assms(2) code by (simp add: payload_parse_def Let_def eq_ignore_ascii_case_def)
qed

text \<open>C34: Every onboarding code the program makes reads back: a manual pairing code as the fields it carries (the upper
  four bits of the discriminator, the passcode and, when the flow is not the standard one, vendor and product), a QR code
  as the whole payload, its extensions included.\<close>

theorem onboarding_roundtrip:
  "(manual p = Inr code \<longrightarrow> payload_parse code = Inr (manual_part p))
    \<and> (qr_text p = Inr code \<and> length code \<le> 8192 \<longrightarrow> payload_parse code = Inr p)"
  using manual_reads_back qr_reads_back by blast

lemma decimal_digits_numeral:
  "decimal_digits (numeral k) n = decimal_digits (pred_numeral k) (n div 10) @ [char_of (48 + n mod 10)]"
  by (simp only: numeral_eq_Suc [of k] decimal_digits.simps)

lemma base38_digits_numeral:
  "base38_digits (numeral k) v = ALPHABET ! (v mod 38) # base38_digits (pred_numeral k) (v div 38)"
  by (simp only: numeral_eq_Suc [of k] base38_digits.simps)

definition bulb_payload :: payload where
  "bulb_payload = payload_default\<lparr>py_vendor := 0xfff1, py_product := 0x8000, py_discovery := 2, py_discriminator := 3840, py_passcode := 20202021\<rparr>"

lemma bulb_manual:
  "decimal [] 3 1 = Inr ''3''" "decimal ''3'' 49701 5 = Inr ''349701''" "decimal ''349701'' 1233 4 = Inr ''3497011233''"
  "decimal ''3497011233'' 2 1 = Inr ''34970112332''" "VERHOEFF_INV ! code_checksum ''3497011233'' 1 = 2"
  subgoal by (simp add: decimal_def decimal_digits_numeral char_of_def bit_0)
  subgoal by (simp add: decimal_def decimal_digits_numeral char_of_def bit_0)
  subgoal by (simp add: decimal_def decimal_digits_numeral char_of_def bit_0)
  subgoal by (simp add: decimal_def decimal_digits_numeral char_of_def bit_0)
  subgoal by code_simp
  done

lemma bulb_qr: "qr_pack bulb_payload = [136, 255, 7, 0, 68, 0, 224, 75, 132, 104, 2]"
  by code_simp

theorem onboarding_roundtrip_witness:
  "payload_parse ''34970112332'' = Inr (manual_part bulb_payload) \<and> payload_parse ''MT:Y.K9042C00KA0648G00'' = Inr bulb_payload"
proof -
  have v: "payload_validate bulb_payload = Inr ()"
    by (simp add: payload_validate_def bulb_payload_def payload_default_def check_passcode_def FORBIDDEN_def reader_new_def rd_drain.simps rd_next_def)
  have "manual bulb_payload = Inr ''34970112332''"
    unfolding manual_def v using bulb_manual by (simp add: bulb_payload_def payload_default_def)
  moreover have "qr_text bulb_payload = Inr ''MT:Y.K9042C00KA0648G00''"
    unfolding qr_text_def v bulb_qr
    by (simp add: bulb_payload_def payload_default_def copy_bytes_def append_bytes_def MATTER_MAX_def slice_chunks.simps base38_group_def
        base38_digits_numeral ALPHABET_def)
  ultimately show ?thesis using onboarding_roundtrip [of bulb_payload] by simp
qed

end
