(* ===== verification/MatterCcm.thy ===== *)
theory MatterCcm
  imports MatterCode
begin

unbundle bit_operations_syntax

text \<open>
  Authenticated encryption of Matter frames, \<^verbatim>\<open>plugins/matter/src/ccm.rs\<close>. The block cipher (AES-128 of the crate
  \<^verbatim>\<open>aes\<close>) is the parameter \<open>aes\<close>, a function of key and block whose blocks have sixteen bytes. Shown here: the
  streaming MAC computes the CBC-MAC of RFC 3610 over the whole formatted input, and \<open>open\<close> accepts exactly the
  ciphertexts that \<open>seal\<close> makes.
\<close>

type_synonym block_cipher = "bytes \<Rightarrow> bytes \<Rightarrow> bytes"

definition is_block_cipher :: "block_cipher \<Rightarrow> bool" where
  "is_block_cipher aes \<longleftrightarrow> (\<forall>key block. length (aes key block) = 16)"

record ccm =
  cc_key :: bytes
  cc_tag :: nat

definition ccm_new :: "bytes \<Rightarrow> nat \<Rightarrow> ccm sdk_result" where
  "ccm_new key tag =
     (if \<not> (4 \<le> tag \<and> tag \<le> 16) \<or> tag mod 2 \<noteq> 0 then Inl (SdkInvalid ''invalid CCM tag size'')
      else Inr \<lparr>cc_key = key, cc_tag = tag\<rparr>)"

definition ccm_nonce :: "bytes \<Rightarrow> unit sdk_result" where
  "ccm_nonce nonce =
     (if \<not> (7 \<le> length nonce \<and> length nonce \<le> 13) then Inl (SdkInvalid ''CCM nonce must be 7 to 13 bytes'') else Inr ())"

definition ccm_encrypt :: "block_cipher \<Rightarrow> ccm \<Rightarrow> bytes \<Rightarrow> bytes" where
  "ccm_encrypt aes c block = aes (cc_key c) block"

section \<open>The streaming MAC\<close>

record mac_state =
  mc_state :: bytes
  mc_partial :: bytes
  mc_used :: nat

definition xor_bytes :: "bytes \<Rightarrow> bytes \<Rightarrow> bytes" where
  "xor_bytes = map2 (XOR)"

definition mac_flush :: "block_cipher \<Rightarrow> ccm \<Rightarrow> mac_state \<Rightarrow> mac_state" where
  "mac_flush aes c m = m\<lparr>mc_state := ccm_encrypt aes c (xor_bytes (mc_state m) (mc_partial m)), mc_used := 0\<rparr>"

text \<open>A \<open>Mac\<close> never holds a full block between two calls (\<open>mac_write_used\<close>), so that every round of the loop consumes a byte.\<close>

function mac_write :: "block_cipher \<Rightarrow> ccm \<Rightarrow> bytes \<Rightarrow> mac_state \<Rightarrow> mac_state" where
  "mac_write aes c bs m =
     (if bs = [] \<or> 16 \<le> mc_used m then m
      else let n = min (16 - mc_used m) (length bs);
               m' = m\<lparr>mc_partial := take (mc_used m) (mc_partial m) @ take n bs @ drop (mc_used m + n) (mc_partial m),
                      mc_used := mc_used m + n\<rparr> in
           mac_write aes c (drop n bs) (if mc_used m' = 16 then mac_flush aes c m' else m'))"
  by pat_completeness auto
termination
  by (relation "measure (\<lambda>(aes, c, bs, m). length bs)") auto

declare mac_write.simps [simp del]

definition mac_pad :: "block_cipher \<Rightarrow> ccm \<Rightarrow> mac_state \<Rightarrow> mac_state" where
  "mac_pad aes c m =
     (if 0 < mc_used m
      then mac_flush aes c (m\<lparr>mc_partial := take (mc_used m) (mc_partial m) @ replicate (16 - mc_used m) 0\<rparr>)
      else m)"

text \<open>\<open>to_be_bytes\<close>.\<close>

definition be_word :: "nat \<Rightarrow> 'a::len word \<Rightarrow> bytes" where
  "be_word k w = rev (le_word k w)"

definition ccm_first :: "ccm \<Rightarrow> bytes \<Rightarrow> bytes \<Rightarrow> bytes \<Rightarrow> bytes" where
  "ccm_first c nonce clear aad =
     (word_of_nat (14 - length nonce) OR push_bit 3 (word_of_nat ((cc_tag c - 2) div 2)) OR (if aad = [] then 0 else 64))
     # nonce @ replicate (13 - length nonce) 0 @ be_word 2 (word_of_nat (length clear) :: u16)"

definition ccm_mac :: "block_cipher \<Rightarrow> ccm \<Rightarrow> bytes \<Rightarrow> bytes \<Rightarrow> bytes \<Rightarrow> bytes sdk_result" where
  "ccm_mac aes c nonce clear aad =
     bindR (ccm_nonce nonce) (\<lambda>_.
     if 65535 < length clear \<or> 65535 < length aad then Inl (SdkInvalid ''CCM input too long'')
     else let m = \<lparr>mc_state = replicate 16 0, mc_partial = replicate 16 0, mc_used = 0\<rparr>;
              m = mac_write aes c (ccm_first c nonce clear aad) m;
              m = (if aad = [] then m
                   else let m = (if length aad < 0xff00 then mac_write aes c (be_word 2 (word_of_nat (length aad) :: u16)) m
                                 else mac_write aes c (be_word 4 (word_of_nat (length aad) :: u32)) (mac_write aes c [255, 254] m))
                        in mac_pad aes c (mac_write aes c aad m));
              m = mac_pad aes c (mac_write aes c clear m)
          in Inr (mc_state m))"

section \<open>Counter mode\<close>

definition ccm_counter :: "block_cipher \<Rightarrow> ccm \<Rightarrow> bytes \<Rightarrow> u16 \<Rightarrow> bytes" where
  "ccm_counter aes c nonce v =
     ccm_encrypt aes c (word_of_nat (14 - length nonce) # nonce @ replicate (13 - length nonce) 0 @ be_word 2 v)"

definition ccm_crypt :: "block_cipher \<Rightarrow> ccm \<Rightarrow> bytes \<Rightarrow> bytes \<Rightarrow> bytes" where
  "ccm_crypt aes c nonce buf =
     concat (map (\<lambda>(i, block). xor_bytes block (ccm_counter aes c nonce (word_of_nat (i + 1)))) (enumerate 0 (slice_chunks 16 buf)))"

definition ccm_seal :: "block_cipher \<Rightarrow> ccm \<Rightarrow> bytes \<Rightarrow> bytes \<Rightarrow> bytes \<Rightarrow> bytes sdk_result" where
  "ccm_seal aes c nonce clear aad =
     bindR (ccm_mac aes c nonce clear aad) (\<lambda>tag.
     bindR (copy_bytes clear) (\<lambda>out.
     let out = ccm_crypt aes c nonce out; mask = ccm_counter aes c nonce 0;
         mic = xor_bytes (take (cc_tag c) tag) (take (cc_tag c) mask) in
     Inr (out @ mic)))"

definition ccm_open :: "block_cipher \<Rightarrow> ccm \<Rightarrow> bytes \<Rightarrow> bytes \<Rightarrow> bytes \<Rightarrow> bytes sdk_result" where
  "ccm_open aes c nonce wire aad =
     bindR (ccm_nonce nonce) (\<lambda>_.
     if length wire < cc_tag c then Inl (SdkInvalid ''CCM ciphertext shorter than MIC'')
     else let n = length wire - cc_tag c in
     bindR (copy_bytes (take n wire)) (\<lambda>out.
     let out = ccm_crypt aes c nonce out in
     bindR (ccm_mac aes c nonce out aad) (\<lambda>tag.
     let mask = ccm_counter aes c nonce 0 in
     if xor_bytes (take (cc_tag c) tag) (take (cc_tag c) mask) \<noteq> drop n wire
     then Inl (SdkInvalid ''CCM authentication failed'')
     else Inr out)))"

section \<open>The MAC is the CBC-MAC of the formatted input\<close>

text \<open>What the streaming \<open>Mac\<close> takes in, cut into whole blocks.\<close>

definition cbc :: "block_cipher \<Rightarrow> ccm \<Rightarrow> bytes \<Rightarrow> bytes list \<Rightarrow> bytes" where
  "cbc aes c = foldl (\<lambda>s block. ccm_encrypt aes c (xor_bytes s block))"

text \<open>Zero bytes up to a whole number of blocks.\<close>

definition zero_pad :: "bytes \<Rightarrow> bytes" where
  "zero_pad bs = bs @ replicate ((16 - length bs mod 16) mod 16) 0"

definition formatted_blocks :: "ccm \<Rightarrow> bytes \<Rightarrow> bytes \<Rightarrow> bytes \<Rightarrow> bytes list" where
  "formatted_blocks c nonce clear aad =
     ccm_first c nonce clear aad
     # slice_chunks 16 (zero_pad (if aad = [] then [] else if length aad < 0xff00 then be_word 2 (word_of_nat (length aad) :: u16) @ aad
         else [255, 254] @ be_word 4 (word_of_nat (length aad) :: u32) @ aad))
     @ slice_chunks 16 (zero_pad clear)"

text \<open>What a \<open>Mac\<close> has taken in: the whole blocks are in its state, the rest is the front of the partial block.\<close>

function absorb :: "block_cipher \<Rightarrow> ccm \<Rightarrow> bytes \<Rightarrow> bytes \<Rightarrow> bytes \<times> bytes" where
  "absorb aes c s bs =
     (if length bs < 16 then (s, bs) else absorb aes c (ccm_encrypt aes c (xor_bytes s (take 16 bs))) (drop 16 bs))"
  by pat_completeness auto
termination
  by (relation "measure (\<lambda>(aes, c, s, bs). length bs)") auto

declare absorb.simps [simp del]

definition mac_pair :: "mac_state \<Rightarrow> bytes \<times> bytes" where
  "mac_pair m = (mc_state m, take (mc_used m) (mc_partial m))"

definition mac_ok :: "mac_state \<Rightarrow> bool" where
  "mac_ok m \<longleftrightarrow> length (mc_partial m) = 16 \<and> mc_used m < 16"

lemma absorb_short [simp]: "length bs < 16 \<Longrightarrow> absorb aes c s bs = (s, bs)"
  by (simp add: absorb.simps)

lemma absorb_block: "length b = 16 \<Longrightarrow> absorb aes c s (b @ bs) = absorb aes c (ccm_encrypt aes c (xor_bytes s b)) bs"
  by (simp add: absorb.simps [of _ _ _ "b @ bs"])

lemma absorb_append: "absorb aes c s (xs @ ys) = (case absorb aes c s xs of (s', r) \<Rightarrow> absorb aes c s' (r @ ys))"
proof (induction aes c s xs rule: absorb.induct)
  case (1 aes c s xs)
  show ?case
  proof (cases "length xs < 16")
    case False
    then have "absorb aes c s (xs @ ys) = absorb aes c (ccm_encrypt aes c (xor_bytes s (take 16 xs))) (drop 16 xs @ ys)"
      using absorb_block [of "take 16 xs" aes c s "drop 16 xs @ ys"] by (simp flip: append_assoc)
    then show ?thesis using 1 [OF False] False by (simp add: absorb.simps [of _ _ _ xs])
  qed simp
qed

lemma mac_write_absorb:
  "mac_ok m \<Longrightarrow> mac_ok (mac_write aes c bs m)
     \<and> mac_pair (mac_write aes c bs m) = absorb aes c (mc_state m) (take (mc_used m) (mc_partial m) @ bs)"
proof (induction aes c bs m rule: mac_write.induct)
  case (1 aes c bs m)
  let ?u = "mc_used m" and ?p = "mc_partial m"
  define n where "n = min (16 - ?u) (length bs)"
  define m' where "m' = m\<lparr>mc_partial := take ?u ?p @ take n bs @ drop (?u + n) ?p, mc_used := ?u + n\<rparr>"
  define m'' where "m'' = (if mc_used m' = 16 then mac_flush aes c m' else m')"
  have m: "length ?p = 16" "?u < 16" using "1.prems" by (simp_all add: mac_ok_def)
  show ?case
  proof (cases "bs = []")
    case True
    then show ?thesis using "1.prems" m by (simp add: mac_write.simps [of aes c "[]" m] mac_pair_def)
  next
    case False
    have w: "mac_write aes c bs m = mac_write aes c (drop n bs) m''"
      using False m by (subst mac_write.simps) (simp add: Let_def n_def m'_def m''_def)
    have full: "mc_used m' = 16 \<longleftrightarrow> ?u + n = 16" by (simp add: m'_def)
    have n: "n \<le> length bs" "?u + n \<le> 16" by (simp_all add: n_def) (use m in linarith)
    have p': "length (mc_partial m') = 16" "take (?u + n) (mc_partial m') = take ?u ?p @ take n bs"
      using m n by (simp_all add: m'_def)
    have ok: "mac_ok m''" using p' n m by (auto simp: m''_def mac_ok_def mac_flush_def m'_def)
    have IH: "mac_ok (mac_write aes c (drop n bs) m'')
       \<and> mac_pair (mac_write aes c (drop n bs) m'') = absorb aes c (mc_state m'') (take (mc_used m'') (mc_partial m'') @ drop n bs)"
      using ok unfolding m''_def by (intro "1.IH" [OF _ n_def m'_def]) (use False m in simp_all)
    have "absorb aes c (mc_state m) (take ?u ?p @ bs) = absorb aes c (mc_state m'') (take (mc_used m'') (mc_partial m'') @ drop n bs)"
    proof (cases "?u + n = 16")
      case True
      have b: "take ?u ?p @ bs = mc_partial m' @ drop n bs" using p' True by simp
      have "m'' = mac_flush aes c m'" using True by (simp add: m''_def full)
      then show ?thesis unfolding b absorb_block [OF p'(1)] by (simp add: mac_flush_def) (simp add: m'_def)
    next
      case False
      then have "n = length bs" using n m by (simp add: n_def min_def split: if_splits)
      moreover have "m'' = m'" using False by (simp add: m''_def full)
      moreover have "mc_state m' = mc_state m" "mc_used m' = ?u + n" by (simp_all add: m'_def)
      ultimately show ?thesis using p'(2) by simp
    qed
    then show ?thesis using IH w by simp
  qed
qed

lemmas mac_write_used = mac_write_absorb [THEN conjunct1]

definition mac_finish :: "block_cipher \<Rightarrow> ccm \<Rightarrow> bytes \<times> bytes \<Rightarrow> bytes" where
  "mac_finish aes c p = (case p of (s, r) \<Rightarrow>
     if r = [] then s else ccm_encrypt aes c (xor_bytes s (r @ replicate (16 - length r) 0)))"

lemma mac_pad_finish:
  assumes "mac_ok m"
  shows "mac_ok (mac_pad aes c m)" "mac_pair (mac_pad aes c m) = (mac_finish aes c (mac_pair m), [])"
  using assms by (auto simp: mac_ok_def mac_pad_def mac_flush_def mac_pair_def mac_finish_def min_def)

lemma zero_pad_block: "length b = 16 \<Longrightarrow> zero_pad (b @ bs) = b @ zero_pad bs"
  by (simp add: zero_pad_def)

lemma finish_cbc: "mac_finish aes c (absorb aes c s bs) = cbc aes c s (slice_chunks 16 (zero_pad bs))"
proof (induction aes c s bs rule: absorb.induct)
  case (1 aes c s bs)
  show ?case
  proof (cases "length bs < 16")
    case True
    show ?thesis
    proof (cases "bs = []")
      case True
      then show ?thesis by (simp add: mac_finish_def zero_pad_def cbc_def slice_chunks.simps)
    next
      case False
      then have "zero_pad bs = bs @ replicate (16 - length bs) 0" using True by (simp add: zero_pad_def)
      then show ?thesis using True False by (simp add: mac_finish_def cbc_def slice_chunks_single)
    qed
  next
    case False
    then have z: "zero_pad bs = take 16 bs @ zero_pad (drop 16 bs)" using zero_pad_block [of "take 16 bs" "drop 16 bs"] by simp
    have "absorb aes c s bs = absorb aes c (ccm_encrypt aes c (xor_bytes s (take 16 bs))) (drop 16 bs)"
      using False by (simp add: absorb.simps [of _ _ _ bs])
    then show ?thesis using 1 [OF False] False by (simp add: z slice_chunks_append cbc_def)
  qed
qed

text \<open>A section of the input: written at a block boundary and padded to the next one.\<close>

lemma mac_section:
  assumes "mac_ok m" "mac_pair m = (s, [])"
  shows "mac_ok (mac_pad aes c (mac_write aes c bs m))"
    "mac_pair (mac_pad aes c (mac_write aes c bs m)) = (cbc aes c s (slice_chunks 16 (zero_pad bs)), [])"
proof -
  note w = mac_write_absorb [OF assms(1), of aes c bs]
  show "mac_ok (mac_pad aes c (mac_write aes c bs m))" using w by (simp add: mac_pad_finish)
  show "mac_pair (mac_pad aes c (mac_write aes c bs m)) = (cbc aes c s (slice_chunks 16 (zero_pad bs)), [])"
    using w assms(2) mac_pad_finish(2) [OF w [THEN conjunct1], of aes c] finish_cbc [of aes c s bs]
    unfolding mac_pair_def by (metis append_Nil prod.inject)
qed

lemma mac_write_append:
  assumes "mac_ok m"
  shows "mac_pair (mac_write aes c ys (mac_write aes c xs m)) = mac_pair (mac_write aes c (xs @ ys) m)"
proof -
  note x = mac_write_absorb [OF assms, of aes c xs]
  note y = mac_write_absorb [OF x [THEN conjunct1], of aes c ys]
  show ?thesis
    using x y mac_write_absorb [OF assms, of aes c "xs @ ys"] absorb_append [of aes c "mc_state m" "take (mc_used m) (mc_partial m) @ xs" ys]
    by (simp add: mac_pair_def split: prod.splits)
qed

lemma pad_pair: "mac_ok m \<Longrightarrow> mac_ok m' \<Longrightarrow> mac_pair m = mac_pair m' \<Longrightarrow> mac_pair (mac_pad aes c m) = mac_pair (mac_pad aes c m')"
  by (simp add: mac_pad_finish)

lemma length_first: "ccm_nonce nonce = Inr u \<Longrightarrow> length (ccm_first c nonce clear aad) = 16"
  by (auto simp: ccm_first_def ccm_nonce_def be_word_def split: if_splits)

lemma ccm_mac_cbc:
  assumes "7 \<le> length nonce \<and> length nonce \<le> 13" "length clear \<le> 65535" "length aad \<le> 65535"
  shows "ccm_mac aes c nonce clear aad = Inr (cbc aes c (replicate 16 0) (formatted_blocks c nonce clear aad))"
proof -
  have n: "ccm_nonce nonce = Inr ()" using assms(1) by (simp add: ccm_nonce_def)
  define m0 where "m0 = \<lparr>mc_state = replicate 16 (0 :: u8), mc_partial = replicate 16 0, mc_used = 0\<rparr>"
  define f where "f = ccm_first c nonce clear aad"
  define m1 where "m1 = mac_write aes c f m0"
  have ok0: "mac_ok m0" by (simp add: m0_def mac_ok_def)
  have ok1: "mac_ok m1" using mac_write_absorb [OF ok0] by (simp add: m1_def)
  have p1: "mac_pair m1 = (cbc aes c (replicate 16 0) [f], [])"
    using mac_write_absorb [OF ok0, of aes c f] absorb_block [of f aes c "replicate 16 0" "[]"] length_first [OF n, of c clear aad]
    by (simp add: m1_def m0_def f_def cbc_def)
  define header where "header = (if aad = [] then [] else if length aad < 0xff00 then be_word 2 (word_of_nat (length aad) :: u16) @ aad
         else [255, 254] @ be_word 4 (word_of_nat (length aad) :: u32) @ aad)"
  define m2 where "m2 = (if aad = [] then m1
                   else let m = (if length aad < 0xff00 then mac_write aes c (be_word 2 (word_of_nat (length aad) :: u16)) m1
                                 else mac_write aes c (be_word 4 (word_of_nat (length aad) :: u32)) (mac_write aes c [255, 254] m1))
                        in mac_pad aes c (mac_write aes c aad m))"
  have ok2: "mac_ok m2" using ok1 by (simp add: m2_def Let_def mac_pad_finish mac_write_used)
  have p2: "mac_pair m2 = (cbc aes c (replicate 16 0) (f # slice_chunks 16 (zero_pad header)), [])"
  proof (cases "aad = []")
    case True
    then show ?thesis using p1 by (simp add: m2_def header_def zero_pad_def slice_chunks.simps cbc_def)
  next
    case False
    have "mac_pair m2 = mac_pair (mac_pad aes c (mac_write aes c header m1))"
      unfolding m2_def header_def Let_def using False ok1
      by (auto intro!: pad_pair simp: mac_write_used mac_write_append)
    then show ?thesis using mac_section [OF ok1 p1] by (simp add: cbc_def)
  qed
  have "ccm_mac aes c nonce clear aad = Inr (mc_state (mac_pad aes c (mac_write aes c clear m2)))"
    unfolding ccm_mac_def n using assms by (simp add: Let_def m2_def m1_def m0_def f_def)
  moreover have "mc_state m = fst (mac_pair m)" for m by (simp add: mac_pair_def)
  ultimately show ?thesis
    using mac_section(2) [OF ok2 p2, of aes c clear] by (simp add: cbc_def formatted_blocks_def f_def header_def)
qed

section \<open>RFC 3610\<close>

text \<open>
  Authentication as section 2.2 of RFC 3610 has it, for a block function \<open>E\<close>, a tag of \<open>M\<close> octets, a nonce, a message and
  additional data: numbers are written with the most significant octet first; the first block has the flags
  \<open>64 * Adata + 8 * ((M - 2) / 2) + (L - 1)\<close>, the nonce and the length of the message in \<open>L = 15 - |nonce|\<close> octets; the
  additional data follows its length, in two octets below \<open>2 ^ 16 - 2 ^ 8\<close> and otherwise in four after \<open>0xff 0xfe\<close>; additional data and
  message are filled up with zeros to whole blocks.
\<close>

definition octets :: "nat \<Rightarrow> nat \<Rightarrow> bytes" where
  "octets k n = map (\<lambda>i. word_of_nat (n div 256 ^ (k - 1 - i))) [0..<k]"

definition rfc3610_b0 :: "nat \<Rightarrow> bytes \<Rightarrow> bytes \<Rightarrow> bytes \<Rightarrow> bytes" where
  "rfc3610_b0 M nonce m a =
     (let L = 15 - length nonce in
      word_of_nat (64 * (if a = [] then 0 else 1) + 8 * ((M - 2) div 2) + (L - 1)) # nonce @ octets L (length m))"

definition rfc3610_data :: "bytes \<Rightarrow> bytes" where
  "rfc3610_data a =
     (if a = [] then [] else if length a < 2 ^ 16 - 2 ^ 8 then octets 2 (length a) @ a else [0xff, 0xfe] @ octets 4 (length a) @ a)"

definition zero_blocks :: "bytes \<Rightarrow> bytes list" where
  "zero_blocks bs = map (\<lambda>i. take 16 (drop (16 * i) (bs @ replicate 15 0))) [0..<(length bs + 15) div 16]"

definition rfc3610_mac :: "(bytes \<Rightarrow> bytes) \<Rightarrow> nat \<Rightarrow> bytes \<Rightarrow> bytes \<Rightarrow> bytes \<Rightarrow> bytes" where
  "rfc3610_mac E M nonce m a =
     foldl (\<lambda>x block. E (map2 (XOR) x block)) (E (rfc3610_b0 M nonce m a)) (zero_blocks (rfc3610_data a) @ zero_blocks m)"

lemma octets_be: "octets k n = rev (le_bytes k n)"
proof (induction k arbitrary: n)
  case (Suc k)
  have "n div 256 ^ (k - i) = n div 256 div 256 ^ (k - 1 - i)" if "i < k" for i
  proof -
    have "k - i = Suc (k - 1 - i)" using that by simp
    then show ?thesis by (simp add: div_mult2_eq)
  qed
  then have "octets (Suc k) n = octets k (n div 256) @ [word_of_nat n]" by (simp add: octets_def)
  then show ?case using Suc by simp
qed (simp add: octets_def)

lemma octets_zeros:
  assumes "n < 256 ^ j"
  shows "octets (k + j) n = replicate k 0 @ octets j n"
proof (rule nth_equalityI)
  fix i
  assume "i < length (octets (k + j) n)"
  then have i: "i < k + j" by (simp add: octets_def)
  show "octets (k + j) n ! i = (replicate k 0 @ octets j n) ! i"
  proof (cases "i < k")
    case True
    have "(256 :: nat) ^ j \<le> 256 ^ (k + j - 1 - i)" using True by (intro power_increasing) simp_all
    with assms have "n < 256 ^ (k + j - 1 - i)" by (rule order.strict_trans2)
    then have "n div 256 ^ (k + j - 1 - i) = 0" by (rule div_less)
    moreover have "octets (k + j) n ! i = word_of_nat (n div 256 ^ (k + j - 1 - i))" using i by (simp add: octets_def)
    ultimately show ?thesis using True by (simp add: nth_append)
  next
    case False
    then have "k + j - 1 - i = j - 1 - (i - k)" "i - k < j" using i by simp_all
    then show ?thesis using False i by (simp add: nth_append octets_def)
  qed
qed (simp add: octets_def)

lemma flags_octet:
  "list_all (\<lambda>l. list_all (\<lambda>t. list_all (\<lambda>a. word_of_nat l OR push_bit 3 (word_of_nat t) OR word_of_nat (64 * a) = (word_of_nat (64 * a + 8 * t + l) :: u8))
     [0..<2]) [0..<8]) [0..<8]"
  by code_simp

lemma first_block:
  assumes "4 \<le> cc_tag c \<and> cc_tag c \<le> 16" "7 \<le> length nonce \<and> length nonce \<le> 13" "length clear \<le> 65535"
  shows "ccm_first c nonce clear aad = rfc3610_b0 (cc_tag c) nonce clear aad"
proof -
  let ?l = "14 - length nonce" and ?t = "(cc_tag c - 2) div 2"
  have "?l < 8" "?t < 8" using assms by auto
  then have "word_of_nat ?l OR push_bit 3 (word_of_nat ?t) OR word_of_nat (64 * a) = (word_of_nat (64 * a + 8 * ?t + ?l) :: u8)" if "a < 2" for a
    using flags_octet that by (simp add: list_all_iff)
  from this [of 0] this [of 1]
  have "word_of_nat ?l OR push_bit 3 (word_of_nat ?t) OR (if aad = [] then 0 else 64)
      = (word_of_nat (64 * (if aad = [] then 0 else 1) + 8 * ?t + ?l) :: u8)" by (cases "aad = []") simp_all
  moreover have "be_word 2 (word_of_nat (length clear) :: u16) = octets 2 (length clear)"
    using assms(3) by (simp add: be_word_def le_word_def octets_be unat_of_nat)
  moreover have "octets (15 - length nonce) (length clear) = replicate (13 - length nonce) 0 @ octets 2 (length clear)"
  proof -
    have "15 - length nonce = (13 - length nonce) + 2" using assms(2) by linarith
    then show ?thesis using octets_zeros [of "length clear" 2 "13 - length nonce"] assms(3) by simp
  qed
  ultimately show ?thesis by (simp add: ccm_first_def rfc3610_b0_def Let_def)
qed

lemma zero_blocks_chunks: "zero_blocks bs = slice_chunks 16 (zero_pad bs)"
proof (induction "length bs" arbitrary: bs rule: less_induct)
  case less
  consider "bs = []" | "bs \<noteq> []" "length bs \<le> 16" | "16 < length bs" by linarith
  then show ?case
  proof cases
    case 1
    then show ?thesis by (simp add: zero_blocks_def zero_pad_def)
  next
    case 2
    then have n: "(length bs + 15) div 16 = 1" by (cases bs) auto
    have z: "zero_pad bs = take 16 (bs @ replicate 15 0)"
      using 2 by (cases "length bs = 16"; cases bs) (auto simp: zero_pad_def min_def)
    then have "zero_pad bs \<noteq> []" "length (zero_pad bs) \<le> 16" using 2 by auto
    then have "slice_chunks 16 (zero_pad bs) = [take 16 (bs @ replicate 15 0)]" by (simp add: slice_chunks_single z)
    moreover have "zero_blocks bs = [take 16 (bs @ replicate 15 0)]" unfolding zero_blocks_def n by simp
    ultimately show ?thesis by simp
  next
    case 3
    define r where "r = drop 16 bs"
    have n: "(length bs + 15) div 16 = Suc ((length r + 15) div 16)" using 3 by (simp add: r_def)
    have "zero_pad bs = take 16 bs @ zero_pad r" using zero_pad_block [of "take 16 bs" r] 3 by (simp add: r_def)
    then have "slice_chunks 16 (zero_pad bs) = take 16 bs # zero_blocks r"
      using less [of r] 3 by (simp add: slice_chunks_append r_def)
    moreover have "zero_blocks bs = take 16 bs # zero_blocks r"
      unfolding zero_blocks_def n upt_conv_Cons [OF zero_less_Suc] using 3
      by (simp add: r_def map_Suc_upt [symmetric] comp_def add.commute del: upt_Suc)
    ultimately show ?thesis by simp
  qed
qed

lemma formatted_rfc3610:
  assumes "4 \<le> cc_tag c \<and> cc_tag c \<le> 16" "7 \<le> length nonce \<and> length nonce \<le> 13" "length clear \<le> 65535" "length aad \<le> 65535"
  shows "formatted_blocks c nonce clear aad
    = rfc3610_b0 (cc_tag c) nonce clear aad # zero_blocks (rfc3610_data aad) @ zero_blocks clear"
proof -
  have "be_word 2 (word_of_nat (length aad) :: u16) = octets 2 (length aad)" "be_word 4 (word_of_nat (length aad) :: u32) = octets 4 (length aad)"
    using assms(4) by (simp_all add: be_word_def le_word_def octets_be unat_of_nat)
  then show ?thesis using first_block [OF assms(1-3), of aad] by (simp add: formatted_blocks_def zero_blocks_chunks rfc3610_data_def)
qed

text \<open>C18: The streaming MAC of the cipher (blocks filled piece by piece and padded after the header and after the payload)
  is the one RFC 3610 defines, for every valid tag size, nonce, payload and header within the limits of the code;
  outside these limits it is refused.\<close>

theorem ccm_mac_rfc3610:
  assumes "ccm_new key tag = Inr c"
  shows "ccm_mac aes c nonce clear aad =
     (if 7 \<le> length nonce \<and> length nonce \<le> 13
      then if length clear \<le> 65535 \<and> length aad \<le> 65535
           then Inr (rfc3610_mac (aes key) tag nonce clear aad)
           else Inl (SdkInvalid ''CCM input too long'')
      else Inl (SdkInvalid ''CCM nonce must be 7 to 13 bytes''))"
proof -
  have c: "cc_key c = key" "cc_tag c = tag" "4 \<le> tag \<and> tag \<le> 16" using assms by (auto simp: ccm_new_def split: if_splits)
  have "ccm_mac aes c nonce clear aad = Inr (rfc3610_mac (aes key) tag nonce clear aad)"
    if l: "7 \<le> length nonce \<and> length nonce \<le> 13" "length clear \<le> 65535" "length aad \<le> 65535"
  proof -
    have b: "formatted_blocks c nonce clear aad = rfc3610_b0 tag nonce clear aad # zero_blocks (rfc3610_data aad) @ zero_blocks clear"
      using formatted_rfc3610 [of c nonce clear aad] l c by simp
    have "length (rfc3610_b0 tag nonce clear aad) = 16" using l by (simp add: rfc3610_b0_def Let_def octets_def)
    then have "map2 (XOR) (replicate 16 0) (rfc3610_b0 tag nonce clear aad) = rfc3610_b0 tag nonce clear aad"
      by (intro nth_equalityI) simp_all
    then show ?thesis using ccm_mac_cbc [OF l, of aes c] by (simp add: b cbc_def rfc3610_mac_def ccm_encrypt_def xor_bytes_def c)
  qed
  then show ?thesis by (auto simp: ccm_mac_def ccm_nonce_def)
qed

section \<open>Sealing and opening\<close>

text \<open>The key stream from block \<open>i\<close> on.\<close>

definition crypt_from :: "block_cipher \<Rightarrow> ccm \<Rightarrow> bytes \<Rightarrow> nat \<Rightarrow> bytes \<Rightarrow> bytes" where
  "crypt_from aes c nonce i buf =
     concat (map (\<lambda>(i, block). xor_bytes block (ccm_counter aes c nonce (word_of_nat (i + 1)))) (enumerate i (slice_chunks 16 buf)))"

lemma length_xor [simp]: "length (xor_bytes a b) = min (length a) (length b)"
  by (simp add: xor_bytes_def)

lemma xor_twice: "length a \<le> length k \<Longrightarrow> xor_bytes (xor_bytes a k) k = a"
  by (rule nth_equalityI) (simp_all add: xor_bytes_def xor.assoc)

lemma length_counter: "is_block_cipher aes \<Longrightarrow> length (ccm_counter aes c nonce v) = 16"
  by (simp add: is_block_cipher_def ccm_counter_def ccm_encrypt_def)

lemma crypt_from_Nil [simp]: "crypt_from aes c nonce i [] = []"
  by (simp add: crypt_from_def slice_chunks.simps)

lemma crypt_from_block:
  "0 < length b \<Longrightarrow> length b = 16 \<or> bs = [] \<and> length b < 16 \<Longrightarrow>
   crypt_from aes c nonce i (b @ bs) = xor_bytes b (ccm_counter aes c nonce (word_of_nat (i + 1))) @ crypt_from aes c nonce (Suc i) bs"
  by (auto simp: crypt_from_def slice_chunks_append slice_chunks_single slice_chunks.simps [of _ "[]"])

lemma crypt_twice:
  assumes "is_block_cipher aes"
  shows "length (crypt_from aes c nonce i buf) = length buf \<and> crypt_from aes c nonce i (crypt_from aes c nonce i buf) = buf"
proof (induction "length buf" arbitrary: i buf rule: less_induct)
  case less
  show ?case
  proof (cases "buf = []")
    case False
    define b where "b = take 16 buf"
    define r where "r = drop 16 buf"
    let ?k = "ccm_counter aes c nonce (word_of_nat (i + 1))"
    have k: "length ?k = 16" by (rule length_counter [OF assms])
    have buf: "buf = b @ r" "0 < length b" "length b = 16 \<or> r = [] \<and> length b < 16" "length r < length buf"
      using False by (auto simp: b_def r_def)
    note IH = less [OF buf(4), of "Suc i"]
    have e: "crypt_from aes c nonce i buf = xor_bytes b ?k @ crypt_from aes c nonce (Suc i) r"
      unfolding buf(1) by (rule crypt_from_block [OF buf(2,3)])
    have l: "length (xor_bytes b ?k) = length b" using k buf(3) by auto
    have "crypt_from aes c nonce i (crypt_from aes c nonce i buf)
        = xor_bytes (xor_bytes b ?k) ?k @ crypt_from aes c nonce (Suc i) (crypt_from aes c nonce (Suc i) r)"
      unfolding e by (rule crypt_from_block) (use l buf(2,3) in auto)
    also have "\<dots> = buf" using IH k buf(1,3) by (auto simp: xor_twice)
    finally show ?thesis using e l IH buf(1) by simp
  qed simp
qed

lemma ccm_crypt_eq: "ccm_crypt aes c nonce buf = crypt_from aes c nonce 0 buf"
  by (simp add: ccm_crypt_def crypt_from_def)

lemmas ccm_crypt_twice = crypt_twice [where i = 0, folded ccm_crypt_eq]

lemma ccm_mac_length: "is_block_cipher aes \<Longrightarrow> ccm_mac aes c nonce clear aad = Inr tag \<Longrightarrow> length tag = 16"
proof -
  assume a: "is_block_cipher aes" "ccm_mac aes c nonce clear aad = Inr tag"
  have "length (cbc aes c s bs) = 16" if "length s = 16" for s bs
    using that a(1) by (induction bs arbitrary: s) (simp_all add: cbc_def is_block_cipher_def ccm_encrypt_def)
  moreover have "ccm_mac aes c nonce clear aad = Inr (cbc aes c (replicate 16 0) (formatted_blocks c nonce clear aad))"
    using a(2) by (intro ccm_mac_cbc) (auto simp: ccm_mac_def ccm_nonce_def result_iff split: if_splits)
  ultimately show ?thesis using a(2) by simp
qed

lemma mic_length:
  assumes "is_block_cipher aes" "ccm_new key n = Inr c" "ccm_mac aes c nonce clear aad = Inr tag"
  shows "length (xor_bytes (take (cc_tag c) tag) (take (cc_tag c) (ccm_counter aes c nonce 0))) = cc_tag c"
proof -
  have "cc_tag c \<le> 16" using assms(2) by (auto simp: ccm_new_def split: if_splits)
  then show ?thesis using ccm_mac_length [OF assms(1,3)] length_counter [OF assms(1)] by simp
qed

lemma opened_was_sealed:
  assumes "is_block_cipher aes" "ccm_open aes c nonce wire aad = Inr clear"
  shows "ccm_seal aes c nonce clear aad = Inr wire"
proof -
  let ?n = "length wire - cc_tag c"
  obtain tag where n: "cc_tag c \<le> length wire" "?n \<le> MATTER_MAX"
    and clear: "clear = ccm_crypt aes c nonce (take ?n wire)"
    and mac: "ccm_mac aes c nonce clear aad = Inr tag"
    and mic: "xor_bytes (take (cc_tag c) tag) (take (cc_tag c) (ccm_counter aes c nonce 0)) = drop ?n wire"
    using assms(2) by (auto simp: ccm_open_def result_iff Let_def not_less split: if_splits)
  have "ccm_crypt aes c nonce clear = take ?n wire" "length clear = ?n"
    unfolding clear using ccm_crypt_twice [OF assms(1)] n by simp_all
  then show ?thesis using n mac mic by (simp add: ccm_seal_def Let_def)
qed

lemma sealed_opens:
  assumes "is_block_cipher aes" "ccm_new key n = Inr c" "ccm_seal aes c nonce clear aad = Inr wire"
  shows "ccm_open aes c nonce wire aad = Inr clear"
proof -
  let ?mic = "\<lambda>tag. xor_bytes (take (cc_tag c) tag) (take (cc_tag c) (ccm_counter aes c nonce 0))"
  obtain tag where mac: "ccm_mac aes c nonce clear aad = Inr tag" and l: "length clear \<le> MATTER_MAX"
    and wire: "wire = ccm_crypt aes c nonce clear @ ?mic tag"
    using assms(3) by (auto simp: ccm_seal_def result_iff Let_def)
  have "ccm_nonce nonce = Inr ()" using mac by (auto simp: ccm_mac_def result_iff)
  then show ?thesis
    using mic_length [OF assms(1,2) mac] ccm_crypt_twice [OF assms(1)] mac l unfolding wire ccm_open_def
    by (simp add: Let_def del: length_xor)
qed

text \<open>C17: \<open>open\<close> releases a cleartext for a ciphertext exactly when \<open>seal\<close> makes that ciphertext of it, under the same key,
  nonce and header: what was sealed opens, and nothing else does.\<close>

theorem ccm_open_iff_seal:
  assumes "is_block_cipher aes" "ccm_new key tag = Inr c"
  shows "ccm_open aes c nonce wire aad = Inr clear \<longleftrightarrow> ccm_seal aes c nonce clear aad = Inr wire"
  using opened_was_sealed sealed_opens assms by blast

definition key_mixer :: block_cipher where
  "key_mixer key block = map (\<lambda>i. (if i < length block then block ! i else 0) + (if i < length key then key ! i else 0)) [0..<16]"

lemma key_mixer_block: "is_block_cipher key_mixer"
  by (simp add: is_block_cipher_def key_mixer_def)

theorem ccm_mac_rfc3610_witness:
  "ccm_mac key_mixer \<lparr>cc_key = replicate 16 7, cc_tag = 8\<rparr> (replicate 13 1) [1, 2, 3] [9, 9]
     = Inr (rfc3610_mac (key_mixer (replicate 16 7)) 8 (replicate 13 1) [1, 2, 3] [9, 9])"
proof -
  have "ccm_new (replicate 16 7) 8 = Inr \<lparr>cc_key = replicate 16 7, cc_tag = 8\<rparr>" by (simp add: ccm_new_def)
  from ccm_mac_rfc3610 [OF this, of key_mixer "replicate 13 1" "[1, 2, 3]" "[9, 9]"] show ?thesis by simp
qed

theorem ccm_open_iff_seal_witness:
  "\<exists>wire. ccm_open key_mixer \<lparr>cc_key = replicate 16 7, cc_tag = 16\<rparr> (replicate 13 1) wire [9, 9] = Inr [1, 2, 3]"
proof -
  let ?c = "\<lparr>cc_key = replicate 16 7, cc_tag = 16\<rparr>"
  have c: "ccm_new (replicate 16 7) 16 = Inr ?c" by (simp add: ccm_new_def)
  obtain wire where "ccm_seal key_mixer ?c (replicate 13 1) [1, 2, 3] [9, 9] = Inr wire"
    unfolding ccm_seal_def by (simp add: ccm_mac_cbc MATTER_MAX_def Let_def)
  then show ?thesis using ccm_open_iff_seal [OF key_mixer_block c] by blast
qed

end
