(* ===== verification/MatterMessage.thy ===== *)
theory MatterMessage
  imports MatterCcm
begin

unbundle bit_operations_syntax

text \<open>
  Frames of the Matter message layer, \<^verbatim>\<open>plugins/matter/src/message.rs\<close>: the open header, the exchange header, and
  messages without a session (\<open>encode\<close>, \<open>parse\<close>) or with one (\<open>seal\<close>, \<open>open\<close>). Both headers are formats in the sense of
  \<open>wire_codec\<close>; a message therefore reads back, sealed or not.
\<close>

definition MAX_UDP :: nat where "MAX_UDP = 1232"

record frame_header =
  fh_session :: u16
  fh_kind :: u8
  fh_control :: bool
  fh_counter :: u32
  fh_source :: "u64 option"
  fh_destination :: "u64 option"
  fh_group :: "u16 option"
  fh_extensions :: bytes

record exchange_header =
  xh_initiator :: bool
  xh_reliable :: bool
  xh_ack :: "u32 option"
  xh_opcode :: u8
  xh_exchange :: u16
  xh_protocol :: u16
  xh_vendor :: "u16 option"
  xh_extensions :: bytes

record message =
  ms_header :: frame_header
  ms_protocol :: exchange_header
  ms_payload :: bytes

text \<open>\<open>Header::default\<close> and \<open>Protocol::default\<close>.\<close>

definition header_default :: frame_header where
  "header_default = \<lparr>fh_session = 0, fh_kind = 0, fh_control = False, fh_counter = 0, fh_source = None, fh_destination = None,
     fh_group = None, fh_extensions = []\<rparr>"

definition protocol_default :: exchange_header where
  "protocol_default = \<lparr>xh_initiator = False, xh_reliable = False, xh_ack = None, xh_opcode = 0, xh_exchange = 0, xh_protocol = 0,
     xh_vendor = None, xh_extensions = []\<rparr>"

section \<open>Headers\<close>

definition write_ext :: "bytes \<Rightarrow> bytes \<Rightarrow> bytes sdk_result" where
  "write_ext out bs =
     (if 65535 < length bs then Inl (SdkInvalid ''Matter extension too long'')
      else if bs \<noteq> [] then bindR (append_bytes out (le_word 2 (word_of_nat (length bs) :: u16))) (\<lambda>out. append_bytes out bs)
      else Inr out)"

text \<open>\<open>if let Some(n) = field { append(&mut out, &n.to_le_bytes())?; }\<close>\<close>

definition append_field :: "nat \<Rightarrow> 'a::len word option \<Rightarrow> bytes \<Rightarrow> bytes sdk_result" where
  "append_field k field out = (case field of Some n \<Rightarrow> append_bytes out (le_word k n) | None \<Rightarrow> Inr out)"

definition header_validate :: "frame_header \<Rightarrow> unit sdk_result" where
  "header_validate h =
     (if 1 < fh_kind h \<or> fh_destination h \<noteq> None \<and> fh_group h \<noteq> None \<or> fh_kind h = 1 \<and> fh_group h = None
      then Inl (SdkInvalid ''invalid Matter addressing or session type'') else Inr ())"

definition header_encode :: "frame_header \<Rightarrow> bytes sdk_result" where
  "header_encode h =
     bindR (header_validate h) (\<lambda>_.
     let flags = (if fh_source h \<noteq> None then 4 else 0) OR (if fh_destination h \<noteq> None then 1 else if fh_group h \<noteq> None then 2 else 0);
         security = fh_kind h OR (if fh_control h then 64 else 0) OR (if fh_extensions h = [] then 0 else 32) in
     bindR (append_bytes [] [flags]) (\<lambda>out.
     bindR (append_bytes out (le_word 2 (fh_session h))) (\<lambda>out.
     bindR (append_bytes out [security]) (\<lambda>out.
     bindR (append_bytes out (le_word 4 (fh_counter h))) (\<lambda>out.
     bindR (append_field 8 (fh_source h) out) (\<lambda>out.
     bindR (append_field 8 (fh_destination h) out) (\<lambda>out.
     bindR (append_field 2 (fh_group h) out) (\<lambda>out.
     write_ext out (fh_extensions h)))))))))"

record cursor =
  cu_bytes :: bytes
  cu_at :: nat

definition cu_le :: "nat \<Rightarrow> cursor \<Rightarrow> (u64 \<times> cursor) sdk_result" where
  "cu_le n c =
     (if length (cu_bytes c) < cu_at c + n then Inl (SdkInvalid ''short Matter header'')
      else if 8 < n then Inl (SdkInvalid ''invalid integer width'')
      else Inr (word_le (take n (drop (cu_at c) (cu_bytes c))), c\<lparr>cu_at := cu_at c + n\<rparr>))"

definition cu_extension :: "cursor \<Rightarrow> (bytes \<times> cursor) sdk_result" where
  "cu_extension c =
     bindR (cu_le 2 c) (\<lambda>(n, c).
     if length (cu_bytes c) < cu_at c + unat n then Inl (SdkInvalid ''short Matter extension'')
     else let c' = c\<lparr>cu_at := cu_at c + unat n\<rparr> in
          bindR (copy_bytes (take (unat n) (drop (cu_at c) (cu_bytes c)))) (\<lambda>bs. Inr (bs, c')))"

text \<open>\<open>if flag { Some(c.le(n)? as _) } else { None }\<close>\<close>

definition cu_field :: "bool \<Rightarrow> nat \<Rightarrow> cursor \<Rightarrow> ('a::len word option \<times> cursor) sdk_result" where
  "cu_field flag n c = (if flag then bindR (cu_le n c) (\<lambda>(v, c). Inr (Some (ucast v), c)) else Inr (None, c))"

definition cu_extensions :: "bool \<Rightarrow> cursor \<Rightarrow> (bytes \<times> cursor) sdk_result" where
  "cu_extensions flag c = (if flag then cu_extension c else Inr ([], c))"

definition header_peek :: "bytes \<Rightarrow> (frame_header \<times> nat) sdk_result" where
  "header_peek bs =
     bindR (cu_le 1 \<lparr>cu_bytes = bs, cu_at = 0\<rparr>) (\<lambda>(v, c).
     let flags = ucast v :: u8 in
     if flags AND 0xf8 \<noteq> 0 \<or> flags AND 3 = 3 then Inl (SdkInvalid ''unsupported Matter message flags'')
     else bindR (cu_le 2 c) (\<lambda>(session, c).
     bindR (cu_le 1 c) (\<lambda>(v, c).
     let security = ucast v :: u8 in
     if security AND 0x9c \<noteq> 0 \<or> 1 < security AND 3 then Inl (SdkInvalid ''unsupported Matter security flags'')
     else bindR (cu_le 4 c) (\<lambda>(counter, c).
     bindR (cu_field (flags AND 4 \<noteq> 0) 8 c) (\<lambda>(source, c).
     bindR (cu_field (flags AND 3 = 1) 8 c) (\<lambda>(destination, c).
     bindR (cu_field (flags AND 3 = 2) 2 c) (\<lambda>(group, c).
     bindR (cu_extensions (security AND 32 \<noteq> 0) c) (\<lambda>(extensions, c).
     let h = \<lparr>fh_session = ucast session, fh_kind = security AND 3, fh_control = (security AND 64 \<noteq> 0), fh_counter = ucast counter,
              fh_source = source, fh_destination = destination, fh_group = group, fh_extensions = extensions\<rparr> in
     bindR (header_validate h) (\<lambda>_. Inr (h, cu_at c))))))))))"

definition header_nonce :: "frame_header \<Rightarrow> bytes \<Rightarrow> u64 \<Rightarrow> bytes sdk_result" where
  "header_nonce h bs source =
     (if fh_source h \<noteq> None \<and> fh_source h \<noteq> Some source then Inl (SdkInvalid ''Matter source does not match secure session'')
      else if length bs \<le> 3 then Inl (SdkInvalid ''short Matter header'')
      else Inr (bs ! 3 # le_word 4 (fh_counter h) @ le_word 8 source))"

definition protocol_encode :: "exchange_header \<Rightarrow> bytes sdk_result" where
  "protocol_encode p =
     (let flags = of_bool (xh_initiator p) OR (if xh_ack p \<noteq> None then 2 else 0) OR (if xh_reliable p then 4 else 0)
                  OR (if xh_extensions p = [] then 0 else 8) OR (if xh_vendor p \<noteq> None then 16 else 0) in
      bindR (append_bytes [] [flags, xh_opcode p]) (\<lambda>out.
      bindR (append_bytes out (le_word 2 (xh_exchange p))) (\<lambda>out.
      bindR (append_field 2 (xh_vendor p) out) (\<lambda>out.
      bindR (append_bytes out (le_word 2 (xh_protocol p))) (\<lambda>out.
      bindR (append_field 4 (xh_ack p) out) (\<lambda>out.
      write_ext out (xh_extensions p)))))))"

definition protocol_parse :: "bytes \<Rightarrow> (exchange_header \<times> nat) sdk_result" where
  "protocol_parse bs =
     bindR (cu_le 1 \<lparr>cu_bytes = bs, cu_at = 0\<rparr>) (\<lambda>(v, c).
     let flags = ucast v :: u8 in
     if flags AND 0xe0 \<noteq> 0 then Inl (SdkInvalid ''reserved Matter exchange flag'')
     else bindR (cu_le 1 c) (\<lambda>(opcode, c).
     bindR (cu_le 2 c) (\<lambda>(exchange, c).
     bindR (cu_field (flags AND 16 \<noteq> 0) 2 c) (\<lambda>(vendor, c).
     bindR (cu_le 2 c) (\<lambda>(protocol, c).
     bindR (cu_field (flags AND 2 \<noteq> 0) 4 c) (\<lambda>(ack, c).
     bindR (cu_extensions (flags AND 8 \<noteq> 0) c) (\<lambda>(extensions, c).
     Inr (\<lparr>xh_initiator = (flags AND 1 \<noteq> 0), xh_reliable = (flags AND 4 \<noteq> 0), xh_ack = ack, xh_opcode = ucast opcode,
           xh_exchange = ucast exchange, xh_protocol = ucast protocol, xh_vendor = vendor, xh_extensions = extensions\<rparr>, cu_at c))))))))"

section \<open>Messages\<close>

definition message_unsecured :: "message \<Rightarrow> unit sdk_result" where
  "message_unsecured m =
     (if fh_session (ms_header m) \<noteq> 0 \<or> fh_kind (ms_header m) \<noteq> 0
      then Inl (SdkInvalid ''unsecured Matter message requires unicast session zero'') else Inr ())"

definition message_encode :: "message \<Rightarrow> bytes sdk_result" where
  "message_encode m =
     bindR (message_unsecured m) (\<lambda>_.
     bindR (header_encode (ms_header m)) (\<lambda>out.
     bindR (protocol_encode (ms_protocol m)) (\<lambda>p.
     bindR (append_bytes out p) (\<lambda>out.
     append_bytes out (ms_payload m)))))"

definition message_parse :: "bytes \<Rightarrow> message sdk_result" where
  "message_parse bs =
     bindR (header_peek bs) (\<lambda>(header, n).
     bindR (protocol_parse (drop n bs)) (\<lambda>(protocol, p).
     bindR (copy_bytes (drop (n + p) bs)) (\<lambda>payload.
     let m = \<lparr>ms_header = header, ms_protocol = protocol, ms_payload = payload\<rparr> in
     bindR (message_unsecured m) (\<lambda>_. Inr m))))"

definition message_seal :: "block_cipher \<Rightarrow> message \<Rightarrow> bytes \<Rightarrow> u64 \<Rightarrow> bytes sdk_result" where
  "message_seal aes m key source =
     (if fh_session (ms_header m) = 0 then Inl (SdkInvalid ''secured Matter message requires nonzero session'')
      else bindR (header_encode (ms_header m)) (\<lambda>header.
           bindR (protocol_encode (ms_protocol m)) (\<lambda>clear.
           bindR (append_bytes clear (ms_payload m)) (\<lambda>clear.
           bindR (header_nonce (ms_header m) header source) (\<lambda>nonce.
           bindR (ccm_new key 16) (\<lambda>c.
           bindR (ccm_seal aes c nonce clear header) (\<lambda>sealed.
           append_bytes header sealed)))))))"

definition message_open :: "block_cipher \<Rightarrow> bytes \<Rightarrow> bytes \<Rightarrow> u64 \<Rightarrow> message sdk_result" where
  "message_open aes bs key source =
     bindR (header_peek bs) (\<lambda>(header, n).
     if fh_session header = 0 then Inl (SdkInvalid ''secured Matter message requires nonzero session'')
     else bindR (header_nonce header bs source) (\<lambda>nonce.
          bindR (ccm_new key 16) (\<lambda>c.
          bindR (ccm_open aes c nonce (drop n bs) (take n bs)) (\<lambda>clear.
          bindR (protocol_parse clear) (\<lambda>(protocol, p).
          bindR (copy_bytes (drop p clear)) (\<lambda>payload.
          Inr \<lparr>ms_header = header, ms_protocol = protocol, ms_payload = payload\<rparr>))))))"

section \<open>The headers are wire formats\<close>

abbreviation at_cursor :: "bytes \<Rightarrow> bytes \<Rightarrow> cursor" where
  "at_cursor a b \<equiv> \<lparr>cu_bytes = a @ b, cu_at = length a\<rparr>"

definition opt_word :: "nat \<Rightarrow> 'a::len word option \<Rightarrow> bytes" where
  "opt_word k f = (case f of Some n \<Rightarrow> le_word k n | None \<Rightarrow> [])"

definition ext_bytes :: "bytes \<Rightarrow> bytes" where
  "ext_bytes e = (if e = [] then [] else le_word 2 (word_of_nat (length e) :: u16) @ e)"

definition header_bytes :: "frame_header \<Rightarrow> bytes" where
  "header_bytes h =
     ((if fh_source h \<noteq> None then 4 else 0) OR (if fh_destination h \<noteq> None then 1 else if fh_group h \<noteq> None then 2 else 0))
     # le_word 2 (fh_session h)
     @ (fh_kind h OR (if fh_control h then 64 else 0) OR (if fh_extensions h = [] then 0 else 32))
     # le_word 4 (fh_counter h)
     @ opt_word 8 (fh_source h) @ opt_word 8 (fh_destination h) @ opt_word 2 (fh_group h) @ ext_bytes (fh_extensions h)"

definition protocol_bytes :: "exchange_header \<Rightarrow> bytes" where
  "protocol_bytes p =
     (of_bool (xh_initiator p) OR (if xh_ack p \<noteq> None then 2 else 0) OR (if xh_reliable p then 4 else 0)
        OR (if xh_extensions p = [] then 0 else 8) OR (if xh_vendor p \<noteq> None then 16 else 0))
     # xh_opcode p # le_word 2 (xh_exchange p) @ opt_word 2 (xh_vendor p) @ le_word 2 (xh_protocol p) @ opt_word 4 (xh_ack p)
     @ ext_bytes (xh_extensions p)"

lemma append_field_Inr: "append_field k f out = Inr out' \<Longrightarrow> out' = out @ opt_word k f"
  by (auto simp: append_field_def opt_word_def result_iff split: option.splits)

lemma write_ext_Inr: "write_ext out e = Inr out' \<Longrightarrow> out' = out @ ext_bytes e \<and> length e \<le> 65535"
  by (auto simp: write_ext_def ext_bytes_def result_iff split: if_splits)

lemma header_encode_Inr:
  "header_encode h = Inr bs \<Longrightarrow> header_validate h = Inr () \<and> bs = header_bytes h \<and> length (fh_extensions h) \<le> 65535"
  by (auto simp: header_encode_def header_bytes_def result_iff Let_def dest!: append_field_Inr write_ext_Inr)

lemma protocol_encode_Inr: "protocol_encode p = Inr bs \<Longrightarrow> bs = protocol_bytes p \<and> length (xh_extensions p) \<le> 65535"
  by (auto simp: protocol_encode_def protocol_bytes_def result_iff Let_def dest!: append_field_Inr write_ext_Inr)

text \<open>Reading what was written, at any place: the cursor moves past it.\<close>

lemma cu_le_word:
  fixes w :: "'a::len word"
  assumes "unat w < 256 ^ n" "n \<le> 8"
  shows "cu_le n (at_cursor a (le_word n w @ b)) = Inr (word_of_nat (unat w), at_cursor (a @ le_word n w) b)"
  using assms by (simp add: cu_le_def word_le_def le_word_def le_nat_bytes)

lemma cu_le_byte: "cu_le 1 (at_cursor a (w # b)) = Inr (word_of_nat (unat w), at_cursor (a @ [w]) b)"
  by (simp add: cu_le_def word_le_def)

lemma narrow_u64:
  fixes w :: "'a::len word"
  assumes "LENGTH('a) \<le> 64"
  shows "ucast (ucast w :: u64) = w"
  using assms by (intro bit_word_eqI) (auto simp: bit_simps)

lemma cu_field_read:
  fixes f :: "'a::len word option"
  assumes "flag \<longleftrightarrow> f \<noteq> None" "256 ^ n = (2 :: nat) ^ LENGTH('a)" "LENGTH('a) \<le> 64" "n \<le> 8"
  shows "cu_field flag n (at_cursor a (opt_word n f @ b)) = Inr (f, at_cursor (a @ opt_word n f) b)"
proof (cases f)
  case (Some w)
  have "unat w < 256 ^ n" unfolding assms(2) by (rule unsigned_less)
  then show ?thesis using assms cu_le_word [of w n a b] by (simp add: cu_field_def opt_word_def Some narrow_u64)
qed (simp add: cu_field_def opt_word_def assms)

lemma cu_extensions_read:
  assumes "flag \<longleftrightarrow> e \<noteq> []" "length e \<le> 65535"
  shows "cu_extensions flag (at_cursor a (ext_bytes e @ b)) = Inr (e, at_cursor (a @ ext_bytes e) b)"
proof (cases "e = []")
  case False
  have u: "unat (word_of_nat (length e) :: u16) = length e" "unat (word_of_nat (length e) :: u64) = length e"
    using assms(2) by (simp_all add: unat_of_nat)
  have "cu_le 2 (at_cursor a (ext_bytes e @ b))
      = Inr (word_of_nat (length e), at_cursor (a @ le_word 2 (word_of_nat (length e) :: u16)) (e @ b))"
    using cu_le_word [of "word_of_nat (length e) :: u16" 2 a "e @ b"] unat_less_256(2) assms(2) False u by (simp add: ext_bytes_def)
  then show ?thesis
    using assms False u by (simp add: cu_extensions_def cu_extension_def ext_bytes_def MATTER_MAX_def)
qed (use assms in \<open>simp add: cu_extensions_def ext_bytes_def\<close>)

lemma header_flags:
  fixes h :: frame_header
  assumes "header_validate h = Inr ()"
  defines "f \<equiv> (if fh_source h \<noteq> None then 4 else 0) OR (if fh_destination h \<noteq> None then 1 else if fh_group h \<noteq> None then 2 else 0) :: u8"
    and "s \<equiv> fh_kind h OR (if fh_control h then 64 else 0) OR (if fh_extensions h = [] then 0 else 32)"
  shows "\<not> (f AND 0xf8 \<noteq> 0 \<or> f AND 3 = 3)" "f AND 4 \<noteq> 0 \<longleftrightarrow> fh_source h \<noteq> None" "f AND 3 = 1 \<longleftrightarrow> fh_destination h \<noteq> None"
    "f AND 3 = 2 \<longleftrightarrow> fh_group h \<noteq> None" "s AND 0x9c = 0" "\<not> 1 < fh_kind h" "s AND 3 = fh_kind h"
    "s AND 64 \<noteq> 0 \<longleftrightarrow> fh_control h" "s AND 32 \<noteq> 0 \<longleftrightarrow> fh_extensions h \<noteq> []"
proof -
  have v: "fh_kind h \<le> 1" "fh_destination h = None \<or> fh_group h = None"
    using assms(1) by (auto simp: header_validate_def not_less split: if_splits)
  have "unat (fh_kind h) \<le> 1" using v(1) by (simp add: word_le_nat_alt)
  then have k: "fh_kind h = 0 \<or> fh_kind h = 1"
    by (metis le_Suc_eq le_zero_eq One_nat_def unat_0 unat_1 unsigned_word_eqI)
  show "\<not> (f AND 0xf8 \<noteq> 0 \<or> f AND 3 = 3)" "f AND 4 \<noteq> 0 \<longleftrightarrow> fh_source h \<noteq> None" "f AND 3 = 1 \<longleftrightarrow> fh_destination h \<noteq> None"
    "f AND 3 = 2 \<longleftrightarrow> fh_group h \<noteq> None"
    using v(2) by (auto simp: f_def)
  show "s AND 0x9c = 0" "\<not> 1 < fh_kind h" "s AND 3 = fh_kind h" "s AND 64 \<noteq> 0 \<longleftrightarrow> fh_control h"
    "s AND 32 \<noteq> 0 \<longleftrightarrow> fh_extensions h \<noteq> []"
    using k by (auto simp: s_def)
qed

lemma protocol_flags:
  fixes p :: exchange_header
  defines "f \<equiv> of_bool (xh_initiator p) OR (if xh_ack p \<noteq> None then 2 else 0) OR (if xh_reliable p then 4 else 0)
        OR (if xh_extensions p = [] then 0 else 8) OR (if xh_vendor p \<noteq> None then 16 else 0) :: u8"
  shows "\<not> f AND 0xe0 \<noteq> 0" "f AND 1 \<noteq> 0 \<longleftrightarrow> xh_initiator p" "f AND 2 \<noteq> 0 \<longleftrightarrow> xh_ack p \<noteq> None" "f AND 4 \<noteq> 0 \<longleftrightarrow> xh_reliable p"
    "f AND 8 \<noteq> 0 \<longleftrightarrow> xh_extensions p \<noteq> []" "f AND 16 \<noteq> 0 \<longleftrightarrow> xh_vendor p \<noteq> None"
  unfolding f_def by (auto simp: of_bool_def)

lemma cursor_start: "\<lparr>cu_bytes = bs, cu_at = 0\<rparr> = at_cursor [] bs"
  by simp

lemma read_word:
  "cu_le 2 (at_cursor a (le_word 2 (x :: u16) @ b)) = Inr (ucast x, at_cursor (a @ le_word 2 x) b)"
  "cu_le 4 (at_cursor a (le_word 4 (y :: u32) @ b)) = Inr (ucast y, at_cursor (a @ le_word 4 y) b)"
  using cu_le_word [OF unat_less_256(2) [of x], of a b] cu_le_word [OF unat_less_256(3) [of y], of a b] by simp_all

lemma read_opt_field:
  "cu_field (x \<noteq> None) 2 (at_cursor a (opt_word 2 (x :: u16 option) @ b)) = Inr (x, at_cursor (a @ opt_word 2 x) b)"
  "cu_field (y \<noteq> None) 4 (at_cursor a (opt_word 4 (y :: u32 option) @ b)) = Inr (y, at_cursor (a @ opt_word 4 y) b)"
  "cu_field (z \<noteq> None) 8 (at_cursor a (opt_word 8 (z :: u64 option) @ b)) = Inr (z, at_cursor (a @ opt_word 8 z) b)"
  by (rule cu_field_read; simp)+

lemma u64_back:
  "ucast (ucast (w :: u8) :: u64) = w" "ucast (ucast (x :: u16) :: u64) = x" "ucast (ucast (y :: u32) :: u64) = y"
  by (rule narrow_u64, simp)+

lemmas wire_reads = cu_le_byte read_word read_opt_field cu_extensions_read [OF refl] bindR_simps(2) prod.case Let_def of_nat_unat u64_back if_False simp_thms

lemma header_read:
  assumes "header_encode h = Inr bs"
  shows "header_peek (bs @ rest) = Inr (h, length bs)"
proof -
  note e = header_encode_Inr [OF assms]
  note f = header_flags [OF e [THEN conjunct1]]
  let ?f = "(if fh_source h \<noteq> None then 4 else 0) OR (if fh_destination h \<noteq> None then 1 else if fh_group h \<noteq> None then 2 else 0) :: u8"
    and ?s = "fh_kind h OR (if fh_control h then 64 else 0) OR (if fh_extensions h = [] then 0 else 32)"
  have bs: "bs @ rest = ?f # le_word 2 (fh_session h) @ ?s # le_word 4 (fh_counter h) @ opt_word 8 (fh_source h)
      @ opt_word 8 (fh_destination h) @ opt_word 2 (fh_group h) @ ext_bytes (fh_extensions h) @ rest"
    using e by (simp add: header_bytes_def)
  have h: "\<lparr>fh_session = fh_session h, fh_kind = fh_kind h, fh_control = fh_control h, fh_counter = fh_counter h,
     fh_source = fh_source h, fh_destination = fh_destination h, fh_group = fh_group h, fh_extensions = fh_extensions h\<rparr> = h"
    by simp
  have "header_peek (bs @ rest) = Inr (h, length (header_bytes h))"
    unfolding header_peek_def bs cursor_start
    by (simp only: wire_reads f e h cursor.simps) (simp add: header_bytes_def)
  then show ?thesis using e by simp
qed

lemma protocol_read:
  assumes "protocol_encode p = Inr bs"
  shows "protocol_parse (bs @ rest) = Inr (p, length bs)"
proof -
  note e = protocol_encode_Inr [OF assms]
  let ?f = "of_bool (xh_initiator p) OR (if xh_ack p \<noteq> None then 2 else 0) OR (if xh_reliable p then 4 else 0)
        OR (if xh_extensions p = [] then 0 else 8) OR (if xh_vendor p \<noteq> None then 16 else 0) :: u8"
  have bs: "bs @ rest = ?f # xh_opcode p # le_word 2 (xh_exchange p) @ opt_word 2 (xh_vendor p) @ le_word 2 (xh_protocol p)
      @ opt_word 4 (xh_ack p) @ ext_bytes (xh_extensions p) @ rest"
    using e by (simp add: protocol_bytes_def)
  have p: "\<lparr>xh_initiator = xh_initiator p, xh_reliable = xh_reliable p, xh_ack = xh_ack p, xh_opcode = xh_opcode p,
     xh_exchange = xh_exchange p, xh_protocol = xh_protocol p, xh_vendor = xh_vendor p, xh_extensions = xh_extensions p\<rparr> = p"
    by simp
  have "protocol_parse (bs @ rest) = Inr (p, length (protocol_bytes p))"
    unfolding protocol_parse_def bs cursor_start
    by (simp only: wire_reads protocol_flags e p cursor.simps) (simp add: protocol_bytes_def)
  then show ?thesis using e by simp
qed

interpretation mh: wire_codec header_encode header_peek
  by unfold_locales (rule header_read)

interpretation mp: wire_codec protocol_encode protocol_parse
  by unfold_locales (rule protocol_read)

section \<open>Messages read back\<close>

lemma message_reads_back:
  assumes "message_encode m = Inr bs"
  shows "message_parse bs = Inr m"
proof -
  obtain h p where "message_unsecured m = Inr ()" and h: "header_encode (ms_header m) = Inr h"
    and p: "protocol_encode (ms_protocol m) = Inr p" and bs: "bs = h @ p @ ms_payload m"
    and "ms_payload m = [] \<or> length bs \<le> MATTER_MAX"
    using assms by (auto simp: message_encode_def result_iff)
  moreover have "copy_bytes (ms_payload m) = Inr (ms_payload m)"
    using \<open>ms_payload m = [] \<or> length bs \<le> MATTER_MAX\<close> by (auto simp: bs MATTER_MAX_def)
  moreover have "header_peek bs = Inr (ms_header m, length h)" using mh.dec_enc [OF h] by (simp add: bs)
  moreover have "protocol_parse (drop (length h) bs) = Inr (ms_protocol m, length p)" using mp.dec_enc [OF p] by (simp add: bs)
  moreover have m: "\<lparr>ms_header = ms_header m, ms_protocol = ms_protocol m, ms_payload = ms_payload m\<rparr> = m" by simp
  ultimately show ?thesis unfolding message_parse_def by (simp add: Let_def bs m)
qed

lemma sealed_message_opens:
  assumes "is_block_cipher aes" "message_seal aes m key source = Inr bs"
  shows "message_open aes bs key source = Inr m"
proof -
  obtain h p nonce c sealed where "fh_session (ms_header m) \<noteq> 0" and h: "header_encode (ms_header m) = Inr h"
    and p: "protocol_encode (ms_protocol m) = Inr p" and payload: "ms_payload m = [] \<or> length (ms_payload m) \<le> MATTER_MAX"
    and nonce: "header_nonce (ms_header m) h source = Inr nonce" and c: "ccm_new key 16 = Inr c"
    and sealed: "ccm_seal aes c nonce (p @ ms_payload m) h = Inr sealed" and bs: "bs = h @ sealed"
    using assms(2) by (auto simp: message_seal_def result_iff split: if_splits)
  moreover have "header_nonce (ms_header m) (h @ sealed) source = Inr nonce"
    using nonce by (auto simp: header_nonce_def nth_append split: if_splits)
  moreover have "copy_bytes (ms_payload m) = Inr (ms_payload m)" using payload by (auto simp: MATTER_MAX_def)
  ultimately show ?thesis
    using sealed_opens [OF assms(1) c sealed] by (simp add: message_open_def mh.dec_enc mp.dec_enc)
qed

text \<open>C32: A message reads back from its frame: an unsecured one from \<open>encode\<close>, a secured one from \<open>seal\<close> under the same
  key and source node, every header field, extension and payload byte of it.\<close>

theorem message_roundtrip:
  assumes "is_block_cipher aes"
  shows "(message_encode m = Inr bs \<longrightarrow> message_parse bs = Inr m)
    \<and> (message_seal aes m key source = Inr bs \<longrightarrow> message_open aes bs key source = Inr m)"
  using message_reads_back sealed_message_opens [OF assms] by blast

lemma le_bytes_numeral: "le_bytes (numeral k) n = word_of_nat n # le_bytes (pred_numeral k) (n div 256)"
  by (simp only: numeral_eq_Suc le_bytes.simps)

definition hello :: message where
  "hello = \<lparr>ms_header = header_default\<lparr>fh_counter := 345\<rparr>,
     ms_protocol = protocol_default\<lparr>xh_initiator := True, xh_ack := Some 12, xh_exchange := 456\<rparr>, ms_payload = [1, 2, 3]\<rparr>"

theorem message_roundtrip_witness:
  "message_parse [0, 0, 0, 0, 89, 1, 0, 0, 3, 0, 200, 1, 0, 0, 12, 0, 0, 0, 1, 2, 3] = Inr hello
    \<and> (\<exists>bs. message_open key_mixer bs (replicate 16 7) 9 = Inr (hello\<lparr>ms_header := header_default\<lparr>fh_session := 17\<rparr>\<rparr>))"
proof -
  note e = message_encode_def message_unsecured_def header_encode_def header_validate_def append_field_def write_ext_def
    protocol_encode_def append_bytes_def header_default_def protocol_default_def hello_def MATTER_MAX_def le_word_def Let_def
  have "message_encode hello = Inr [0, 0, 0, 0, 89, 1, 0, 0, 3, 0, 200, 1, 0, 0, 12, 0, 0, 0, 1, 2, 3]"
    by (simp add: e le_bytes_numeral)
  moreover obtain bs where "message_seal key_mixer (hello\<lparr>ms_header := header_default\<lparr>fh_session := 17\<rparr>\<rparr>) (replicate 16 7) 9 = Inr bs"
    unfolding message_seal_def
    by (simp add: e header_nonce_def ccm_new_def ccm_seal_def ccm_mac_cbc ccm_crypt_twice [OF key_mixer_block]
        length_counter [OF key_mixer_block] min_def)
  ultimately show ?thesis using message_roundtrip [OF key_mixer_block] by blast
qed

text \<open>What \<open>open\<close> lets through is authentic: the bytes after the header are exactly what sealing the exchange header
  and the payload under this key, the header's own nonce and the header as authenticated data makes.\<close>

lemma message_open_authentic:
  assumes "is_block_cipher aes" "message_open aes bs key source = Inr m"
  shows "\<exists>n nonce c clear p. header_peek bs = Inr (ms_header m, n) \<and> header_nonce (ms_header m) bs source = Inr nonce
    \<and> ccm_new key 16 = Inr c \<and> ccm_seal aes c nonce clear (take n bs) = Inr (drop n bs)
    \<and> protocol_parse clear = Inr (ms_protocol m, p) \<and> ms_payload m = drop p clear"
  using assms(2) opened_was_sealed [OF assms(1)]
  by (auto simp: message_open_def result_iff split: if_splits) blast

end
