(* ===== verification/MatterMrp.thy ===== *)
theory MatterMrp
  imports MatterMessage
begin

unbundle bit_operations_syntax

text \<open>
  The message reliability protocol of the Matter plugin, \<^verbatim>\<open>plugins/matter/src/mrp.rs\<close>: secure sessions, exchanges,
  replay windows, acknowledgements and retries, all in one \<open>node\<close> that its owner calls. Every operation returns the
  node also when it fails: what it changed before the error stays changed. Shown here: the replay window
  refuses exactly the counters that were seen or are too old. What holds of a node over every sequence of calls is in \<open>MatterNode\<close>.
\<close>

definition MAX_SESSIONS :: nat where "MAX_SESSIONS = 64"
definition MAX_EXCHANGES :: nat where "MAX_EXCHANGES = 128"
definition MAX_EVENTS :: nat where "MAX_EVENTS = 64"
definition MAX_OUT :: nat where "MAX_OUT = 64"

section \<open>State\<close>

record timing =
  tm_idle :: u64
  tm_active :: u64
  tm_threshold :: u64

definition timing_base :: "timing \<Rightarrow> u64 option \<Rightarrow> u64 \<Rightarrow> u64" where
  "timing_base t heard now =
     (if 0 < tm_active t \<and> 0 < tm_threshold t \<and> (case heard of Some l \<Rightarrow> saturating_sub now l < tm_threshold t | None \<Rightarrow> False)
      then tm_active t
      else if 0 < tm_idle t then tm_idle t
      else if 0 < tm_active t then tm_active t
      else 500)"

record keyed_session =
  ks_local :: u16
  ks_peer :: u16
  ks_local_node :: u64
  ks_peer_node :: u64
  ks_address :: string
  ks_outgoing :: bytes
  ks_incoming :: bytes
  ks_timing :: timing

record replay =
  rp_maximum :: "u32 option"
  rp_seen :: u64

definition replay_default :: replay where
  "replay_default = \<lparr>rp_maximum = None, rp_seen = 0\<rparr>"

record secure =
  sc_config :: keyed_session
  sc_counter :: u32
  sc_replay :: replay
  sc_last :: "u64 option"

record outgoing =
  og_session :: u16
  og_address :: string
  og_bytes :: bytes

datatype mrp_event =
    EvAccepted u64
  | EvMessage u64 message
  | EvAcknowledged u64 u32
  | EvFailed u64

record pending =
  pe_counter :: u32
  pe_bytes :: bytes
  pe_attempt :: u8
  pe_next :: u64

record exchange =
  ex_handle :: u64
  ex_remote :: string
  ex_session :: u16
  ex_id :: u16
  ex_initiator :: bool
  ex_protocol :: u16
  ex_ephemeral :: u64
  ex_replay :: replay
  ex_ack :: "u32 option"
  ex_pending :: "pending option"
  ex_retry :: u64

record node =
  nd_sessions :: "secure list"
  nd_exchanges :: "exchange list"
  nd_out :: "outgoing list"
  nd_events :: "mrp_event list"
  nd_counter :: u32
  nd_next_handle :: u64
  nd_next_exchange :: u16

type_synonym 'a node_result = "'a sdk_result \<times> node"

definition bindN :: "'a node_result \<Rightarrow> ('a \<Rightarrow> node \<Rightarrow> 'b node_result) \<Rightarrow> 'b node_result" where
  "bindN m f = (case m of (Inl e, n) \<Rightarrow> (Inl e, n) | (Inr a, n) \<Rightarrow> f a n)"

definition no_change :: "node \<Rightarrow> 'a sdk_result \<Rightarrow> 'a node_result" where
  "no_change n r = (r, n)"

section \<open>The replay window\<close>

definition replay_mark :: "u32 \<Rightarrow> replay \<Rightarrow> bool \<times> replay" where
  "replay_mark counter r = (case rp_maximum r of
     None \<Rightarrow> (False, \<lparr>rp_maximum = Some counter, rp_seen = 1\<rparr>)
   | Some highest \<Rightarrow>
       if highest < counter
       then let d = counter - highest in
            (False, \<lparr>rp_maximum = Some counter, rp_seen = (if 64 \<le> d then 1 else push_bit (unat d) (rp_seen r) OR 1)\<rparr>)
       else let d = highest - counter in
            if 64 \<le> d then (True, r)
            else let b = push_bit (unat d) 1 in
                 if rp_seen r AND b \<noteq> 0 then (True, r) else (False, r\<lparr>rp_seen := rp_seen r OR b\<rparr>))"

section \<open>Helpers\<close>

definition queue_push :: "'a list \<Rightarrow> 'a \<Rightarrow> nat \<Rightarrow> 'a list sdk_result" where
  "queue_push q item limit = (if limit \<le> length q then Inl (SdkInvalid ''Matter transport queue full'') else Inr (q @ [item]))"

text \<open>\<open>u32::checked_add(1)\<close>, \<open>u64::saturating_mul\<close>.\<close>

definition increment :: "u32 \<Rightarrow> u32 sdk_result" where
  "increment counter =
     (if counter = - 1 then Inl (SdkInvalid ''Matter counter exhausted; establish a new session'') else Inr (counter + 1))"

definition saturating_mul :: "u64 \<Rightarrow> u64 \<Rightarrow> u64" where
  "saturating_mul a b = (if unat a * unat b < 2 ^ 64 then a * b else - 1)"

definition interval :: "u64 \<Rightarrow> u8 \<Rightarrow> u32 \<Rightarrow> u64" where
  "interval base attempt jitter =
     (let n = saturating_mul base 1100 div 1000;
          n = ((\<lambda>n. saturating_mul n 16 div 10) ^^ (unat attempt - 1)) n in
      max (saturating_add n (saturating_mul n (ucast jitter) div 0xffffffff div 4)) 1)"

section \<open>Sessions and exchanges\<close>

definition node_new :: "u32 \<Rightarrow> u16 \<Rightarrow> node" where
  "node_new counter_seed exchange_seed =
     \<lparr>nd_sessions = [], nd_exchanges = [], nd_out = [], nd_events = [], nd_counter = counter_seed AND 0x0fffffff,
      nd_next_handle = 0, nd_next_exchange = exchange_seed\<rparr>"

definition has_session :: "node \<Rightarrow> u16 \<Rightarrow> bool" where
  "has_session n local = list_ex (\<lambda>s. ks_local (sc_config s) = local) (nd_sessions n)"

definition node_register :: "keyed_session \<Rightarrow> u32 \<Rightarrow> node \<Rightarrow> unit node_result" where
  "node_register config counter_seed n =
     (if ks_local config = 0 \<or> ks_peer config = 0 \<or> ks_address config = []
         \<or> list_ex (\<lambda>s. ks_local (sc_config s) = ks_local config) (nd_sessions n)
      then (Inl (SdkInvalid ''invalid or duplicate Matter session''), n)
      else bindN (no_change n (from_core (j_push (nd_sessions n)
             \<lparr>sc_config = config, sc_counter = counter_seed AND 0x0fffffff, sc_replay = replay_default, sc_last = None\<rparr> MAX_SESSIONS)))
           (\<lambda>sessions n. (Inr (), n\<lparr>nd_sessions := sessions\<rparr>)))"

definition event_handle :: "mrp_event \<Rightarrow> u64" where
  "event_handle e = (case e of EvAccepted h \<Rightarrow> h | EvMessage h _ \<Rightarrow> h | EvFailed h \<Rightarrow> h | EvAcknowledged h _ \<Rightarrow> h)"

definition belongs :: "node \<Rightarrow> u16 \<Rightarrow> mrp_event \<Rightarrow> bool" where
  "belongs n local event = list_ex (\<lambda>e. ex_handle e = event_handle event \<and> ex_session e = local) (nd_exchanges n)"

definition node_remove :: "u16 \<Rightarrow> node \<Rightarrow> unit node_result" where
  "node_remove local n =
     (let gone = filter (\<lambda>e. ex_session e = local) (nd_exchanges n);
          retained = filter (\<lambda>e. \<not> belongs n local e) (nd_events n) in
      if MAX_EVENTS - length retained < length gone then (Inl (SdkInvalid ''Matter event queue full''), n)
      else (Inr (), n\<lparr>nd_events := retained @ map (\<lambda>e. EvFailed (ex_handle e)) (rev gone),
                      nd_sessions := filter (\<lambda>s. ks_local (sc_config s) \<noteq> local) (nd_sessions n),
                      nd_out := filter (\<lambda>p. og_session p \<noteq> local) (nd_out n),
                      nd_exchanges := filter (\<lambda>e. ex_session e \<noteq> local) (nd_exchanges n)\<rparr>))"

definition node_handle :: "node \<Rightarrow> u64 node_result" where
  "node_handle n = (case checked_add (nd_next_handle n) 1 of
     None \<Rightarrow> (Inl (SdkInvalid ''Matter handles exhausted''), n)
   | Some h \<Rightarrow> (Inr h, n\<lparr>nd_next_handle := h\<rparr>))"

definition node_position :: "node \<Rightarrow> u64 \<Rightarrow> nat sdk_result" where
  "node_position n h = ok_or (position (\<lambda>e. ex_handle e = h) (nd_exchanges n)) (SdkInvalid ''Matter exchange closed'')"

text \<open>The search for a free exchange ID: at most \<open>k\<close> rounds, each moving \<open>next_exchange\<close> on.\<close>

fun free_id :: "nat \<Rightarrow> (u16 \<Rightarrow> bool) \<Rightarrow> u16 \<Rightarrow> u16 option \<times> u16" where
  "free_id 0 taken at = (None, at)"
| "free_id (Suc k) taken at = (if taken (at + 1) then free_id k taken (at + 1) else (Some (at + 1), at + 1))"

definition node_initiate :: "string \<Rightarrow> u16 \<Rightarrow> u16 \<Rightarrow> u64 \<Rightarrow> u64 \<Rightarrow> node \<Rightarrow> u64 node_result" where
  "node_initiate address session protocol ephemeral retry_ms n =
     (if session = 0 \<and> (ephemeral = 0 \<or> 0xffffffefffffffff < ephemeral)
      then (Inl (SdkInvalid ''invalid ephemeral initiator ID''), n)
      else if session \<noteq> 0 \<and> \<not> list_ex (\<lambda>s. ks_local (sc_config s) = session \<and> ks_address (sc_config s) = address) (nd_sessions n)
      then (Inl (SdkInvalid ''Matter session missing for peer''), n)
      else case free_id (MAX_EXCHANGES + 1)
             (\<lambda>i. list_ex (\<lambda>e. ex_initiator e \<and> ex_id e = i \<and> ex_remote e = address \<and> ex_session e = session) (nd_exchanges n))
             (nd_next_exchange n) of (xid, at) \<Rightarrow>
      let n = n\<lparr>nd_next_exchange := at\<rparr> in
      bindN (no_change n (ok_or xid (SdkInvalid ''Matter exchange IDs unavailable''))) (\<lambda>xid n.
      bindN (node_handle n) (\<lambda>handle n.
      bindN (no_change n (from_core (j_push (nd_exchanges n)
         \<lparr>ex_handle = handle, ex_remote = address, ex_session = session, ex_id = xid, ex_initiator = True, ex_protocol = protocol,
          ex_ephemeral = ephemeral, ex_replay = replay_default, ex_ack = None, ex_pending = None, ex_retry = retry_ms\<rparr> MAX_EXCHANGES)))
        (\<lambda>exchanges n. (Inr handle, n\<lparr>nd_exchanges := exchanges\<rparr>)))))"

definition node_awaiting :: "node \<Rightarrow> u64 \<Rightarrow> bool sdk_result" where
  "node_awaiting n h = bindR (node_position n h) (\<lambda>i. Inr (ex_pending (nd_exchanges n ! i) \<noteq> None))"

definition node_peer :: "node \<Rightarrow> u64 \<Rightarrow> (string \<times> u16 \<times> u16 \<times> u64) sdk_result" where
  "node_peer n h =
     bindR (node_position n h) (\<lambda>i.
     let e = nd_exchanges n ! i;
         node = (case find (\<lambda>s. ks_local (sc_config s) = ex_session e) (nd_sessions n) of
                   Some s \<Rightarrow> ks_peer_node (sc_config s) | None \<Rightarrow> 0) in
     Inr (ex_remote e, ex_session e, ex_protocol e, node))"

definition node_close :: "u64 \<Rightarrow> node \<Rightarrow> node" where
  "node_close h n = n\<lparr>nd_exchanges := filter (\<lambda>e. ex_handle e \<noteq> h) (nd_exchanges n)\<rparr>"

definition node_outgoing :: "node \<Rightarrow> outgoing option \<times> node" where
  "node_outgoing n = (case nd_out n of [] \<Rightarrow> (None, n) | p # ps \<Rightarrow> (Some p, n\<lparr>nd_out := ps\<rparr>))"

definition node_event :: "node \<Rightarrow> mrp_event option \<times> node" where
  "node_event n = (case nd_events n of [] \<Rightarrow> (None, n) | e # es \<Rightarrow> (Some e, n\<lparr>nd_events := es\<rparr>))"

section \<open>Sending\<close>

abbreviation set_session :: "nat \<Rightarrow> secure \<Rightarrow> node \<Rightarrow> node" where
  "set_session i s n \<equiv> n\<lparr>nd_sessions := (nd_sessions n)[i := s]\<rparr>"

abbreviation set_exchange :: "nat \<Rightarrow> exchange \<Rightarrow> node \<Rightarrow> node" where
  "set_exchange i e n \<equiv> n\<lparr>nd_exchanges := (nd_exchanges n)[i := e]\<rparr>"

text \<open>\<open>build\<close>: the message with its headers, then the frame of the session or, without one, the open frame.\<close>

definition build_message :: "exchange \<Rightarrow> u16 \<Rightarrow> u8 \<Rightarrow> bytes \<Rightarrow> bool \<Rightarrow> u32 \<Rightarrow> message" where
  "build_message e protocol opcode body reliable counter =
     \<lparr>ms_header = header_default\<lparr>fh_counter := counter\<rparr>,
      ms_protocol = protocol_default\<lparr>xh_initiator := ex_initiator e, xh_reliable := reliable, xh_ack := ex_ack e,
        xh_opcode := opcode, xh_exchange := ex_id e, xh_protocol := protocol\<rparr>,
      ms_payload = body\<rparr>"

definition build_secured :: "block_cipher \<Rightarrow> nat \<Rightarrow> message \<Rightarrow> node \<Rightarrow> bytes node_result" where
  "build_secured aes i m n =
     (let s = nd_sessions n ! i in
      bindN (no_change n (increment (sc_counter s))) (\<lambda>c n.
      let n = set_session i (s\<lparr>sc_counter := c\<rparr>) n;
          m = m\<lparr>ms_header := (ms_header m)\<lparr>fh_session := ks_peer (sc_config s)\<rparr>\<rparr> in
      no_change n (message_seal aes m (ks_outgoing (sc_config s)) (ks_local_node (sc_config s)))))"

definition build_unsecured :: "exchange \<Rightarrow> message \<Rightarrow> node \<Rightarrow> bytes node_result" where
  "build_unsecured e m n =
     (if ex_session e \<noteq> 0 then (Inl (SdkInvalid ''Matter session expired''), n)
      else bindN (no_change n (increment (nd_counter n))) (\<lambda>c n.
      let n = n\<lparr>nd_counter := c\<rparr>;
          m = m\<lparr>ms_header := (if ex_initiator e then (ms_header m)\<lparr>fh_source := Some (ex_ephemeral e)\<rparr>
                               else (ms_header m)\<lparr>fh_destination := Some (ex_ephemeral e)\<rparr>)\<rparr> in
      no_change n (message_encode m)))"

definition node_build :: "block_cipher \<Rightarrow> nat \<Rightarrow> u16 \<Rightarrow> u8 \<Rightarrow> bytes \<Rightarrow> bool \<Rightarrow> node \<Rightarrow> (bytes \<times> u32) node_result" where
  "node_build aes index protocol opcode body reliable n =
     (let e = nd_exchanges n ! index;
          secure = position (\<lambda>s. ks_local (sc_config s) = ex_session e) (nd_sessions n);
          current = (case secure of Some i \<Rightarrow> sc_counter (nd_sessions n ! i) | None \<Rightarrow> nd_counter n) in
      if current = - 1 then (Inl (SdkInvalid ''Matter counter exhausted''), n)
      else let counter = current + 1 in
      bindN (no_change n (copy_bytes body)) (\<lambda>body n.
      let m = build_message e protocol opcode body reliable counter in
      bindN (case secure of Some i \<Rightarrow> build_secured aes i m n | None \<Rightarrow> build_unsecured e m n) (\<lambda>frame n.
      (if MAX_UDP < length frame then Inl (SdkInvalid ''Matter datagram exceeds IPv6 UDP budget'') else Inr (frame, counter), n))))"

definition node_base :: "node \<Rightarrow> nat \<Rightarrow> u64 \<Rightarrow> u64" where
  "node_base n index now =
     (let e = nd_exchanges n ! index in
      if 0 < ex_retry e then ex_retry e
      else case find (\<lambda>s. ks_local (sc_config s) = ex_session e) (nd_sessions n) of
             Some s \<Rightarrow> timing_base (ks_timing (sc_config s)) (sc_last s) now
           | None \<Rightarrow> 500)"

definition node_queue_out :: "u16 \<Rightarrow> string \<Rightarrow> bytes \<Rightarrow> node \<Rightarrow> unit node_result" where
  "node_queue_out session address bs n =
     bindN (no_change n (queue_push (nd_out n) \<lparr>og_session = session, og_address = address, og_bytes = bs\<rparr> MAX_OUT))
       (\<lambda>out n. (Inr (), n\<lparr>nd_out := out\<rparr>))"

definition node_send :: "block_cipher \<Rightarrow> u64 \<Rightarrow> u8 \<Rightarrow> bytes \<Rightarrow> bool \<Rightarrow> u64 \<Rightarrow> u32 \<Rightarrow> node \<Rightarrow> unit node_result" where
  "node_send aes h opcode body reliable now jitter n =
     bindN (no_change n (node_position n h)) (\<lambda>i n.
     if ex_pending (nd_exchanges n ! i) \<noteq> None then (Inl (SdkInvalid ''Matter exchange already awaits acknowledgement''), n)
     else bindN (node_build aes i (ex_protocol (nd_exchanges n ! i)) opcode body reliable n) (\<lambda>(bs, counter) n.
     bindN (no_change n (if reliable then bindR (copy_bytes bs) (\<lambda>copy. Inr (Some
              \<lparr>pe_counter = counter, pe_bytes = copy, pe_attempt = 0, pe_next = saturating_add now (interval (node_base n i now) 0 jitter)\<rparr>))
            else Inr None)) (\<lambda>pending n.
     let e = nd_exchanges n ! i in
     bindN (node_queue_out (ex_session e) (ex_remote e) bs n) (\<lambda>_ n.
     (Inr (), set_exchange i (e\<lparr>ex_pending := pending, ex_ack := None\<rparr>) n)))))"

definition node_acknowledge :: "block_cipher \<Rightarrow> u64 \<Rightarrow> node \<Rightarrow> unit node_result" where
  "node_acknowledge aes h n =
     bindN (no_change n (node_position n h)) (\<lambda>i n.
     if ex_ack (nd_exchanges n ! i) = None then (Inr (), n)
     else bindN (node_build aes i 0 0x10 [] False n) (\<lambda>(bs, _) n.
     let e = nd_exchanges n ! i in
     bindN (node_queue_out (ex_session e) (ex_remote e) bs n) (\<lambda>_ n.
     (Inr (), set_exchange i (e\<lparr>ex_ack := None\<rparr>) n))))"

section \<open>Receiving\<close>

definition node_late_ack :: "block_cipher \<Rightarrow> string \<Rightarrow> message \<Rightarrow> node \<Rightarrow> unit node_result" where
  "node_late_ack aes address m n =
     (if fh_session (ms_header m) = 0 \<or> \<not> xh_reliable (ms_protocol m) then (Inr (), n)
      else bindN (no_change n (ok_or
             (position (\<lambda>s. ks_local (sc_config s) = fh_session (ms_header m) \<and> ks_address (sc_config s) = address) (nd_sessions n))
             (SdkInvalid ''Matter session missing''))) (\<lambda>i n.
      let s = nd_sessions n ! i in
      bindN (no_change n (increment (sc_counter s))) (\<lambda>c n.
      let n = set_session i (s\<lparr>sc_counter := c\<rparr>) n;
          ack = \<lparr>ms_header = header_default\<lparr>fh_session := ks_peer (sc_config s), fh_counter := c\<rparr>,
                 ms_protocol = protocol_default\<lparr>xh_initiator := \<not> xh_initiator (ms_protocol m), xh_ack := Some (fh_counter (ms_header m)),
                   xh_opcode := 0x10, xh_exchange := xh_exchange (ms_protocol m), xh_protocol := 0\<rparr>,
                 ms_payload = []\<rparr> in
      bindN (no_change n (message_seal aes ack (ks_outgoing (sc_config s)) (ks_local_node (sc_config s)))) (\<lambda>bs n.
      node_queue_out (fh_session (ms_header m)) address bs n))))"

text \<open>The message of a datagram, authenticated when it names a session; nothing of the node changes.\<close>

definition receive_message :: "block_cipher \<Rightarrow> string \<Rightarrow> bytes \<Rightarrow> node \<Rightarrow> (u16 \<times> nat option \<times> message) sdk_result" where
  "receive_message aes address bs n =
     (if MAX_UDP < length bs then Inl (SdkInvalid ''oversized Matter datagram'')
      else if MAX_EVENTS - 3 < length (nd_events n) \<or> MAX_OUT \<le> length (nd_out n)
      then Inl (SdkInvalid ''Matter transport backpressure'')
      else bindR (header_peek bs) (\<lambda>(header, _).
      if fh_kind header \<noteq> 0 \<or> fh_control header
      then Inl (SdkInvalid ''Matter group and counter-control messages unsupported'')
      else let local = fh_session header;
               secure = position (\<lambda>s. ks_local (sc_config s) = local \<and> ks_address (sc_config s) = address) (nd_sessions n) in
      bindR (if local = 0 then message_parse bs
             else bindR (ok_or secure (SdkInvalid ''unknown Matter secure session or address'')) (\<lambda>i.
                  let s = nd_sessions n ! i in
                  bindR (message_open aes bs (ks_incoming (sc_config s)) (ks_peer_node (sc_config s))) (\<lambda>m.
                  if fh_destination (ms_header m) \<noteq> None \<and> fh_destination (ms_header m) \<noteq> Some (ks_local_node (sc_config s))
                  then Inl (SdkInvalid ''Matter destination differs from session'')
                  else Inr m))) (\<lambda>message.
      if xh_vendor (ms_protocol message) \<noteq> None then Inl (SdkInvalid ''vendor-specific Matter protocols unsupported'')
      else if local = 0 \<and> (fh_source (ms_header message) \<noteq> None) = (fh_destination (ms_header message) \<noteq> None)
      then Inl (SdkInvalid ''unsecured Matter message needs one ephemeral ID'')
      else Inr (local, secure, message))))"

text \<open>What a message does to its exchange: a matching acknowledgement ends the wait, an unsecured exchange keeps its own
  replay window, a reliable message asks for an acknowledgement.\<close>

definition exchange_receive :: "u16 \<Rightarrow> message \<Rightarrow> bool \<Rightarrow> exchange \<Rightarrow> bool \<times> mrp_event list \<times> exchange" where
  "exchange_receive local message duplicate e =
     (let p = ms_protocol message; counter = fh_counter (ms_header message);
          acked = (case (xh_ack p, ex_pending e) of (Some c, Some w) \<Rightarrow> pe_counter w = c | _ \<Rightarrow> False);
          events = (if acked then [EvAcknowledged (ex_handle e) (the (xh_ack p))] else []);
          e = (if acked then e\<lparr>ex_pending := None\<rparr> else e);
          (duplicate, r) = (if local = 0 then replay_mark counter (ex_replay e) else (duplicate, ex_replay e));
          e = e\<lparr>ex_replay := r\<rparr> in
      (duplicate, events, if xh_reliable p then e\<lparr>ex_ack := Some counter\<rparr> else e))"

text \<open>The last part of \<open>receive\<close>, on the exchange at index \<open>i\<close>.\<close>

definition receive_deliver :: "block_cipher \<Rightarrow> u16 \<Rightarrow> message \<Rightarrow> bool \<Rightarrow> bool \<Rightarrow> nat \<Rightarrow> node \<Rightarrow> unit node_result" where
  "receive_deliver aes local message duplicate accepted i n =
     (let p = ms_protocol message; e = nd_exchanges n ! i; standalone = (xh_protocol p = 0 \<and> xh_opcode p = 0x10) in
      if xh_protocol p \<noteq> ex_protocol e \<and> \<not> standalone then (Inl (SdkInvalid ''message belongs to another Matter protocol''), n)
      else if local = 0
        \<and> (if ex_initiator e then fh_destination (ms_header message) else fh_source (ms_header message)) \<noteq> Some (ex_ephemeral e)
      then (Inl (SdkInvalid ''unsecured message addresses another initiator''), n)
      else
      let (duplicate, events, e') = exchange_receive local message duplicate e;
          n = (set_exchange i e' n)\<lparr>nd_events := nd_events n @ (if accepted then [EvAccepted (ex_handle e)] else []) @ events\<rparr> in
      if standalone then (Inr (), n)
      else if duplicate then node_acknowledge aes (ex_handle e) n
      else (Inr (), n\<lparr>nd_events := nd_events n @ [EvMessage (ex_handle e) message]\<rparr>))"

text \<open>The exchange of a message: the one found, or a new one for a first message of the peer; anything else is at most
  acknowledged.\<close>

definition receive_exchange :: "block_cipher \<Rightarrow> string \<Rightarrow> u16 \<Rightarrow> message \<Rightarrow> bool \<Rightarrow> nat option \<Rightarrow> node \<Rightarrow> unit node_result" where
  "receive_exchange aes address local message duplicate found n = (case found of
     Some i \<Rightarrow> receive_deliver aes local message duplicate False i n
   | None \<Rightarrow>
       let p = ms_protocol message in
       if duplicate \<or> \<not> xh_initiator p \<or> xh_opcode p = 0x10 \<and> xh_protocol p = 0 then node_late_ack aes address message n
       else
       let ephemeral = (case fh_source (ms_header message) of Some v \<Rightarrow> v | None \<Rightarrow> 0) in
       if local = 0 \<and> (ephemeral = 0 \<or> 0xffffffefffffffff < ephemeral) then (Inl (SdkInvalid ''invalid peer ephemeral ID''), n)
       else bindN (node_handle n) (\<lambda>handle n.
       bindN (no_change n (from_core (j_push (nd_exchanges n)
         \<lparr>ex_handle = handle, ex_remote = address, ex_session = local, ex_id = xh_exchange p, ex_initiator = False,
          ex_protocol = xh_protocol p, ex_ephemeral = ephemeral, ex_replay = replay_default, ex_ack = None, ex_pending = None,
          ex_retry = 0\<rparr> MAX_EXCHANGES))) (\<lambda>exchanges n.
       receive_deliver aes local message duplicate True (length exchanges - 1) (n\<lparr>nd_exchanges := exchanges\<rparr>))))"

text \<open>The counter of an authenticated message is marked on its session, at the time it came.\<close>

definition receive_mark :: "nat option \<Rightarrow> u32 \<Rightarrow> u64 \<Rightarrow> node \<Rightarrow> bool \<times> node" where
  "receive_mark secure counter now n = (case secure of
     Some i \<Rightarrow> let s = nd_sessions n ! i; (duplicate, r) = replay_mark counter (sc_replay s) in
               (duplicate, set_session i (s\<lparr>sc_replay := r, sc_last := Some now\<rparr>) n)
   | None \<Rightarrow> (False, n))"

definition node_receive :: "block_cipher \<Rightarrow> string \<Rightarrow> bytes \<Rightarrow> u64 \<Rightarrow> node \<Rightarrow> unit node_result" where
  "node_receive aes address bs now n =
     bindN (no_change n (receive_message aes address bs n)) (\<lambda>(local, secure, message) n.
     let p = ms_protocol message;
         found = position (\<lambda>e. ex_remote e = address \<and> ex_session e = local \<and> ex_id e = xh_exchange p
                             \<and> ex_initiator e \<noteq> xh_initiator p) (nd_exchanges n) in
     if found = None \<and> xh_initiator p \<and> \<not> (xh_opcode p = 0x10 \<and> xh_protocol p = 0) \<and> MAX_EXCHANGES \<le> length (nd_exchanges n)
     then (Inl (SdkInvalid ''Matter exchange table full''), n)
     else case receive_mark secure (fh_counter (ms_header message)) now n of
            (duplicate, n) \<Rightarrow> receive_exchange aes address local message duplicate found n)"

section \<open>Retries\<close>

definition node_tick :: "u64 \<Rightarrow> u32 \<Rightarrow> node \<Rightarrow> unit node_result" where
  "node_tick now jitter n =
     (case position (\<lambda>e. case ex_pending e of Some p \<Rightarrow> pe_next p \<le> now | None \<Rightarrow> False) (nd_exchanges n) of
        None \<Rightarrow> (Inr (), n)
      | Some i \<Rightarrow>
          let e = nd_exchanges n ! i in
          bindN (no_change n (ok_or (ex_pending e) (SdkInvalid ''Matter retry missing''))) (\<lambda>p n.
          if 4 \<le> pe_attempt p
          then bindN (no_change n (queue_push (nd_events n) (EvFailed (ex_handle e)) MAX_EVENTS)) (\<lambda>events n.
               (Inr (), n\<lparr>nd_events := events, nd_exchanges := take i (nd_exchanges n) @ drop (Suc i) (nd_exchanges n)\<rparr>))
          else let retry = saturating_add now (interval (node_base n i now) (pe_attempt p + 1) jitter) in
               bindN (no_change n (copy_bytes (pe_bytes p))) (\<lambda>bs n.
               bindN (node_queue_out (ex_session e) (ex_remote e) bs n) (\<lambda>_ n.
               (Inr (), set_exchange i (e\<lparr>ex_pending := Some (p\<lparr>pe_attempt := pe_attempt p + 1, pe_next := retry\<rparr>)\<rparr>) n)))))"

section \<open>Runs\<close>

text \<open>The calls of the owner, with their arguments; a failed call leaves the node as the operation left it.\<close>

datatype node_op =
    Register keyed_session u32
  | Remove u16
  | Initiate string u16 u16 u64 u64
  | Close u64
  | TakeOutgoing
  | TakeEvent
  | Send u64 u8 bytes bool u64 u32
  | Acknowledge u64
  | Receive string bytes u64
  | Tick u64 u32

fun node_apply :: "block_cipher \<Rightarrow> node_op \<Rightarrow> node \<Rightarrow> node" where
  "node_apply aes (Register config seed) n = snd (node_register config seed n)"
| "node_apply aes (Remove local) n = snd (node_remove local n)"
| "node_apply aes (Initiate address session protocol ephemeral retry) n = snd (node_initiate address session protocol ephemeral retry n)"
| "node_apply aes (Close h) n = node_close h n"
| "node_apply aes TakeOutgoing n = snd (node_outgoing n)"
| "node_apply aes TakeEvent n = snd (node_event n)"
| "node_apply aes (Send h opcode body reliable now jitter) n = snd (node_send aes h opcode body reliable now jitter n)"
| "node_apply aes (Acknowledge h) n = snd (node_acknowledge aes h n)"
| "node_apply aes (Receive address bs now) n = snd (node_receive aes address bs now n)"
| "node_apply aes (Tick now jitter) n = snd (node_tick now jitter n)"

definition node_run :: "block_cipher \<Rightarrow> node_op list \<Rightarrow> node \<Rightarrow> node" where
  "node_run aes = fold (node_apply aes)"

section \<open>The replay window, exactly\<close>

abbreviation replay_after :: "u32 \<Rightarrow> replay \<Rightarrow> replay" where
  "replay_after c r \<equiv> snd (replay_mark c r)"

definition spent :: "replay \<Rightarrow> u32 \<Rightarrow> bool" where
  "spent r c \<longleftrightarrow> fst (replay_mark c r)"

lemma spent_iff:
  "spent r c \<longleftrightarrow> (\<exists>m. rp_maximum r = Some m \<and> c \<le> m \<and> (unat m - unat c < 64 \<longrightarrow> bit (rp_seen r) (unat m - unat c)))"
  by (auto simp: spent_def replay_mark_def Let_def and_exp_eq_0_iff_not_bit word_le_nat_alt word_less_nat_alt unat_sub
      split: option.splits)

text \<open>The next window, read bit by bit.\<close>

lemma window_bits:
  assumes "rp_maximum r = Some m"
  shows "m < c \<Longrightarrow> rp_maximum (replay_after c r) = Some c
      \<and> (\<forall>k < 64. bit (rp_seen (replay_after c r)) k \<longleftrightarrow> k = 0 \<or> unat c - unat m \<le> k \<and> bit (rp_seen r) (k - (unat c - unat m)))"
    and "c \<le> m \<Longrightarrow> rp_maximum (replay_after c r) = Some m
      \<and> (\<forall>k < 64. bit (rp_seen (replay_after c r)) k \<longleftrightarrow> bit (rp_seen r) k \<or> k = unat m - unat c)"
proof -
  assume a: "m < c"
  then have d: "unat (c - m) = unat c - unat m" by (simp add: unat_sub)
  show "rp_maximum (replay_after c r) = Some c
      \<and> (\<forall>k < 64. bit (rp_seen (replay_after c r)) k \<longleftrightarrow> k = 0 \<or> unat c - unat m \<le> k \<and> bit (rp_seen r) (k - (unat c - unat m)))"
    using a by (auto simp: replay_mark_def assms Let_def bit_simps word_le_nat_alt d)
next
  assume a: "c \<le> m"
  then have d: "unat (m - c) = unat m - unat c" by (simp add: unat_sub)
  show "rp_maximum (replay_after c r) = Some m
      \<and> (\<forall>k < 64. bit (rp_seen (replay_after c r)) k \<longleftrightarrow> bit (rp_seen r) k \<or> k = unat m - unat c)"
    using a by (auto simp: replay_mark_def assms Let_def bit_simps word_le_nat_alt word_less_nat_alt d and_exp_eq_0_iff_not_bit)
qed

lemma mark_spends: "spent (replay_after c r) c"
proof (cases "rp_maximum r")
  case None
  then show ?thesis by (simp add: spent_iff replay_mark_def)
next
  case (Some m)
  show ?thesis using window_bits [OF Some, of c] by (cases "m < c") (auto simp: spent_iff not_less)
qed

lemma spent_stays:
  assumes "spent r c"
  shows "spent (replay_after d r) c"
proof -
  obtain m where m: "rp_maximum r = Some m" "c \<le> m" "unat m - unat c < 64 \<longrightarrow> bit (rp_seen r) (unat m - unat c)"
    using assms by (auto simp: spent_iff)
  show ?thesis
  proof (cases "m < d")
    case True
    then have o: "unat c \<le> unat m" "unat m < unat d" using m(2) by (simp_all add: word_le_nat_alt word_less_nat_alt)
    have "unat d - unat c - (unat d - unat m) = unat m - unat c" "unat d - unat m \<le> unat d - unat c" using o by linarith+
    then have "unat d - unat c < 64 \<longrightarrow> bit (rp_seen (replay_after d r)) (unat d - unat c)"
      using window_bits(1) [OF m(1) True] m(3) o by simp
    then show ?thesis using window_bits(1) [OF m(1) True] m(2) True by (auto simp: spent_iff)
  next
    case False
    then show ?thesis using window_bits(2) [OF m(1), of d] m by (auto simp: spent_iff not_less)
  qed
qed

text \<open>What a window stands for: the set of counters marked so far.\<close>

definition window_of :: "u32 set \<Rightarrow> replay \<Rightarrow> bool" where
  "window_of H r \<longleftrightarrow> (case rp_maximum r of None \<Rightarrow> H = {}
     | Some m \<Rightarrow> m \<in> H \<and> (\<forall>d \<in> H. d \<le> m) \<and> (\<forall>c \<le> m. unat m - unat c < 64 \<longrightarrow> (bit (rp_seen r) (unat m - unat c) \<longleftrightarrow> c \<in> H)))"

lemma window_spent:
  assumes "window_of H r"
  shows "spent r c \<longleftrightarrow> c \<in> H \<or> (\<exists>d \<in> H. unat c + 64 \<le> unat d)"
proof (cases "rp_maximum r")
  case None
  then show ?thesis using assms by (simp add: spent_iff window_of_def)
next
  case (Some m)
  then have m: "m \<in> H" "\<And>d. d \<in> H \<Longrightarrow> unat d \<le> unat m"
    and b: "\<And>c. c \<le> m \<Longrightarrow> unat m - unat c < 64 \<Longrightarrow> bit (rp_seen r) (unat m - unat c) \<longleftrightarrow> c \<in> H"
    using assms by (auto simp: window_of_def word_le_nat_alt)
  show ?thesis
  proof (cases "c \<le> m \<and> unat m - unat c < 64")
    case True
    then have "\<not> (\<exists>d \<in> H. unat c + 64 \<le> unat d)" using m(2) by force
    then show ?thesis using True b [of c] Some by (auto simp: spent_iff)
  next
    case False
    then show ?thesis using m by (force simp: spent_iff Some word_le_nat_alt)
  qed
qed

lemma window_mark:
  assumes "window_of H r"
  shows "window_of (insert c H) (replay_after c r)"
proof (cases "rp_maximum r")
  case None
  then show ?thesis using assms by (auto simp: window_of_def replay_mark_def word_le_nat_alt bit_1_iff) (metis unsigned_word_eqI)
next
  case (Some m)
  then have m: "m \<in> H" "\<And>d. d \<in> H \<Longrightarrow> unat d \<le> unat m"
    and b: "\<And>c. c \<le> m \<Longrightarrow> unat m - unat c < 64 \<Longrightarrow> bit (rp_seen r) (unat m - unat c) \<longleftrightarrow> c \<in> H"
    using assms by (auto simp: window_of_def word_le_nat_alt)
  show ?thesis
  proof (cases "m < c")
    case True
    note w = window_bits(1) [OF Some True]
    have mc: "unat m < unat c" using True by (simp add: word_less_nat_alt)
    have "bit (rp_seen (replay_after c r)) (unat c - unat d) \<longleftrightarrow> d = c \<or> d \<in> H" if d: "d \<le> c" "unat c - unat d < 64" for d
    proof -
      have dc: "unat d \<le> unat c" using d(1) by (simp add: word_le_nat_alt)
      have eq: "unat c - unat d = 0 \<longleftrightarrow> d = c" using dc by auto (metis unsigned_word_eqI)
      show ?thesis
      proof (cases "unat d \<le> unat m")
        case True
        have k: "unat c - unat d - (unat c - unat m) = unat m - unat d" using True mc by simp
        have "unat m - unat d < 64" using d(2) mc by linarith
        then have "bit (rp_seen r) (unat m - unat d) \<longleftrightarrow> d \<in> H" using b [of d] True by (simp add: word_le_nat_alt)
        then show ?thesis using w d(2) eq k True mc by auto
      next
        case False
        then have "d \<notin> H" "\<not> unat c - unat m \<le> unat c - unat d" using m(2) dc by force+
        then show ?thesis using w d(2) eq by auto
      qed
    qed
    then show ?thesis using w m(2) mc by (auto simp: window_of_def word_le_nat_alt) force
  next
    case False
    then have cm: "c \<le> m" by (simp add: not_less)
    note w = window_bits(2) [OF Some cm]
    have "bit (rp_seen (replay_after c r)) (unat m - unat d) \<longleftrightarrow> d = c \<or> d \<in> H" if "d \<le> m" "unat m - unat d < 64" for d
    proof -
      have "unat m - unat d = unat m - unat c \<longleftrightarrow> d = c"
        using that(1) cm unsigned_word_eqI [where 'a = nat, of d c] by (auto simp: word_le_nat_alt)
      then show ?thesis using w b [OF that] that by auto
    qed
    then show ?thesis using w m cm by (auto simp: window_of_def word_le_nat_alt)
  qed
qed

text \<open>C19: The replay window is exact: after any history of counters, a counter is refused if and only if it was marked before or
  lies 64 or more below the highest one.\<close>

theorem replay_exact:
  "fst (replay_mark c (fold replay_after history replay_default))
     \<longleftrightarrow> c \<in> set history \<or> (\<exists>d. d \<in> set history \<and> unat c + 64 \<le> unat d)"
proof -
  have "window_of (H \<union> set history) (fold replay_after history r)" if "window_of H r" for H r
    using that
  proof (induction history arbitrary: H r)
    case (Cons d ds)
    show ?case using Cons.IH [OF window_mark [OF Cons.prems, of d]] by simp
  qed simp
  from this [of "{}" replay_default] have "window_of (set history) (fold replay_after history replay_default)"
    by (simp add: window_of_def [of "{}"] replay_default_def)
  from window_spent [OF this, of c] show ?thesis by (auto simp: spent_def)
qed

end
