(* ===== verification/MatterNode.thy ===== *)
theory MatterNode
  imports MatterMrp
begin

unbundle bit_operations_syntax

text \<open>
  Invariants of the Matter node of \<open>MatterMrp\<close> over any sequence of calls of its owner: the tables stay within their
  bounds and linked, authenticated messages are delivered at most once per session, and a retry repeats the datagram
  of the first transmission.
\<close>

section \<open>What the operations touch\<close>

lemma bindN_eq: "bindN m f = (r, n') \<longleftrightarrow>
   (\<exists>e. m = (Inl e, n') \<and> r = Inl e) \<or> (\<exists>a n1. m = (Inr a, n1) \<and> f a n1 = (r, n'))"
  by (auto simp: bindN_def split: prod.splits sum.splits)

lemma no_change_eq: "no_change n x = (y, n') \<longleftrightarrow> x = y \<and> n' = n"
  by (auto simp: no_change_def)

text \<open>Sessions keep their configuration and their replay windows only take marks.\<close>

definition session_step :: "secure \<Rightarrow> secure \<Rightarrow> bool" where
  "session_step s s' \<longleftrightarrow> sc_config s' = sc_config s \<and> (\<forall>c. spent (sc_replay s) c \<longrightarrow> spent (sc_replay s') c)"

abbreviation sessions_step :: "node \<Rightarrow> node \<Rightarrow> bool" where
  "sessions_step n n' \<equiv> list_all2 session_step (nd_sessions n) (nd_sessions n')"

definition locals_of :: "node \<Rightarrow> u16 list" where
  "locals_of n = map (\<lambda>s. ks_local (sc_config s)) (nd_sessions n)"

lemma session_step_refl [simp]: "session_step s s"
  by (simp add: session_step_def)

lemma sessions_refl [simp]: "list_all2 session_step ss ss"
  by (simp add: list_all2_refl)

lemma sessions_trans: "list_all2 session_step a b \<Longrightarrow> list_all2 session_step b c \<Longrightarrow> list_all2 session_step a c"
  by (rule list_all2_trans [of session_step session_step session_step]) (auto simp: session_step_def)

lemma sessions_update: "session_step (ss ! i) s \<Longrightarrow> list_all2 session_step ss (ss[i := s])"
  by (cases "i < length ss") (simp_all add: list_all2_conv_all_nth nth_list_update)

lemma sessions_locals: "sessions_step n n' \<Longrightarrow> locals_of n' = locals_of n"
  by (auto simp: locals_of_def list_all2_conv_all_nth session_step_def intro!: nth_equalityI)

lemma has_session_locals: "has_session n l \<longleftrightarrow> l \<in> set (locals_of n)"
  by (auto simp: has_session_def locals_of_def list_ex_iff)

text \<open>Everything but sessions and counter.\<close>

definition same_tables :: "node \<Rightarrow> node \<Rightarrow> bool" where
  "same_tables n n' \<longleftrightarrow> nd_exchanges n' = nd_exchanges n \<and> nd_out n' = nd_out n \<and> nd_events n' = nd_events n
     \<and> nd_next_handle n' = nd_next_handle n"

lemma same_tables_refl [simp]: "same_tables n n"
  by (simp add: same_tables_def)

lemma build_secured_frame:
  "build_secured aes i m n = (r, n') \<Longrightarrow> same_tables n n' \<and> sessions_step n n'"
  by (auto simp: build_secured_def Let_def bindN_eq no_change_eq same_tables_def session_step_def intro!: sessions_update)

lemma build_unsecured_frame:
  assumes "build_unsecured e m n = (r, n')"
  shows "same_tables n n' \<and> sessions_step n n'"
proof -
  have "same_tables n (snd (build_unsecured e m n)) \<and> sessions_step n (snd (build_unsecured e m n))"
    by (simp add: build_unsecured_def bindN_def no_change_def increment_def same_tables_def Let_def)
  then show ?thesis using assms by simp
qed

lemma build_frame:
  assumes "node_build aes i protocol opcode body reliable n = (r, n')"
  shows "same_tables n n'" "sessions_step n n'" "r = Inr (bs, c) \<Longrightarrow> length bs \<le> MAX_UDP"
proof -
  have "same_tables n n' \<and> sessions_step n n' \<and> (\<forall>bs c. r = Inr (bs, c) \<longrightarrow> length bs \<le> MAX_UDP)"
    using assms unfolding node_build_def Let_def
    by (auto simp: bindN_eq no_change_eq dest: build_secured_frame build_unsecured_frame split: if_splits option.splits)
  then show "same_tables n n'" "sessions_step n n'" "r = Inr (bs, c) \<Longrightarrow> length bs \<le> MAX_UDP" by blast+
qed

lemma queue_out_eq:
  "node_queue_out session address bs n = (r, n') \<longleftrightarrow>
     (if length (nd_out n) < MAX_OUT
      then r = Inr () \<and> n' = n\<lparr>nd_out := nd_out n @ [\<lparr>og_session = session, og_address = address, og_bytes = bs\<rparr>]\<rparr>
      else r = Inl (SdkInvalid ''Matter transport queue full'') \<and> n' = n)"
  by (auto simp: node_queue_out_def bindN_eq no_change_eq queue_push_def)

text \<open>The datagrams that wait for an acknowledgement, by the handle of their exchange.\<close>

definition pendings :: "node \<Rightarrow> (u64 \<times> pending) set" where
  "pendings n = {(h, p). \<exists>e \<in> set (nd_exchanges n). ex_handle e = h \<and> ex_pending e = Some p}"

lemma pendingsI: "e \<in> set (nd_exchanges n) \<Longrightarrow> ex_pending e = Some p \<Longrightarrow> (ex_handle e, p) \<in> pendings n"
  by (auto simp: pendings_def)

lemma pendings_cong: "nd_exchanges n' = nd_exchanges n \<Longrightarrow> pendings n' = pendings n"
  by (simp add: pendings_def)

lemma pendings_subset: "set (nd_exchanges n') \<subseteq> set (nd_exchanges n) \<Longrightarrow> pendings n' \<subseteq> pendings n"
  by (auto simp: pendings_def)

lemma pendings_update:
  assumes "i < length (nd_exchanges n)" "ex_handle e = ex_handle (nd_exchanges n ! i)"
    and "ex_pending e = None \<or> ex_pending e = ex_pending (nd_exchanges n ! i)"
  shows "pendings (set_exchange i e n) \<subseteq> pendings n"
proof -
  have "nd_exchanges n ! i \<in> set (nd_exchanges n)" using assms(1) by simp
  then show ?thesis using assms(2,3) by (auto simp: pendings_def dest!: set_update_subset_insert [THEN subsetD])
qed

lemma pendings_grow: "ex_pending e = None \<Longrightarrow> nd_exchanges n' = nd_exchanges n @ [e] \<Longrightarrow> pendings n' \<subseteq> pendings n"
  by (auto simp: pendings_def)

section \<open>The invariant\<close>

definition exchange_ok :: "u16 list \<Rightarrow> u64 \<Rightarrow> exchange \<Rightarrow> bool" where
  "exchange_ok locals bound e \<longleftrightarrow> ex_handle e \<le> bound \<and> (ex_session e = 0 \<or> ex_session e \<in> set locals)
     \<and> (case ex_pending e of Some p \<Rightarrow> pe_attempt p \<le> 4 \<and> length (pe_bytes p) \<le> MAX_UDP | None \<Rightarrow> True)"

definition sessions_ok :: "node \<Rightarrow> bool" where
  "sessions_ok n \<longleftrightarrow> length (nd_sessions n) \<le> MAX_SESSIONS \<and> distinct (locals_of n) \<and> 0 \<notin> set (locals_of n)"

definition exchanges_ok :: "node \<Rightarrow> bool" where
  "exchanges_ok n \<longleftrightarrow> length (nd_exchanges n) \<le> MAX_EXCHANGES \<and> distinct (map ex_handle (nd_exchanges n))
     \<and> list_all (exchange_ok (locals_of n) (nd_next_handle n)) (nd_exchanges n)"

definition queues_ok :: "node \<Rightarrow> bool" where
  "queues_ok n \<longleftrightarrow> length (nd_out n) \<le> MAX_OUT \<and> list_all (\<lambda>p. length (og_bytes p) \<le> MAX_UDP) (nd_out n)
     \<and> length (nd_events n) \<le> MAX_EVENTS"

definition node_ok :: "node \<Rightarrow> bool" where
  "node_ok n \<longleftrightarrow> sessions_ok n \<and> exchanges_ok n \<and> queues_ok n"

lemma node_ok_new: "node_ok (node_new a b)"
  by (simp add: node_ok_def sessions_ok_def exchanges_ok_def queues_ok_def node_new_def locals_of_def)

lemma sessions_ok_step: "sessions_step n n' \<Longrightarrow> sessions_ok n \<Longrightarrow> sessions_ok n'"
  by (auto simp: sessions_ok_def dest: sessions_locals list_all2_lengthD)

lemma frame_ok:
  assumes "same_tables n n'" "sessions_step n n'" "node_ok n"
  shows "node_ok n'"
  using assms sessions_ok_step [OF assms(2)] sessions_locals [OF assms(2)]
  by (simp add: node_ok_def same_tables_def exchanges_ok_def queues_ok_def)

lemma exchanges_ok_update:
  assumes "exchanges_ok n" "ex_handle e = ex_handle (nd_exchanges n ! i)" "exchange_ok (locals_of n) (nd_next_handle n) e"
  shows "exchanges_ok (set_exchange i e n)"
proof (cases "i < length (nd_exchanges n)")
  case True
  have "map ex_handle ((nd_exchanges n)[i := e]) = map ex_handle (nd_exchanges n)"
    using True assms(2) by (intro nth_equalityI) (auto simp: nth_list_update)
  moreover have "list_all (exchange_ok (locals_of n) (nd_next_handle n)) ((nd_exchanges n)[i := e])"
    using assms(1,3) by (auto simp: exchanges_ok_def list_all_iff dest!: set_update_subset_insert [THEN subsetD])
  ultimately show ?thesis using assms(1) by (simp add: exchanges_ok_def locals_of_def)
qed (use assms(1) in \<open>simp add: exchanges_ok_def locals_of_def list_update_beyond\<close>)

lemma exchanges_okD: "exchanges_ok n \<Longrightarrow> i < length (nd_exchanges n) \<Longrightarrow> exchange_ok (locals_of n) (nd_next_handle n) (nd_exchanges n ! i)"
  by (simp add: exchanges_ok_def list_all_length)

lemma position_less: "node_position n h = Inr i \<Longrightarrow> i < length (nd_exchanges n)"
  by (auto simp: node_position_def result_iff dest: position_SomeD)

lemma queue_out_ok:
  assumes "node_queue_out session address bs n = (r, n')" "node_ok n" "length bs \<le> MAX_UDP"
  shows "node_ok n' \<and> nd_sessions n' = nd_sessions n \<and> nd_exchanges n' = nd_exchanges n \<and> nd_events n' = nd_events n
    \<and> nd_next_handle n' = nd_next_handle n"
  using assms
  by (auto simp: queue_out_eq node_ok_def sessions_ok_def exchanges_ok_def queues_ok_def locals_of_def split: if_splits)

lemma build_ok:
  assumes "node_build aes i protocol opcode body reliable n = (r, n')" "node_ok n"
  shows "node_ok n'" "sessions_step n n'" "nd_exchanges n' = nd_exchanges n" "nd_events n' = nd_events n"
    "nd_next_handle n' = nd_next_handle n" "locals_of n' = locals_of n"
  using build_frame [OF assms(1)] assms(2) frame_ok sessions_locals by (auto simp: same_tables_def)

lemma set_exchange_ok:
  assumes "node_ok n" "ex_handle e = ex_handle (nd_exchanges n ! i)" "exchange_ok (locals_of n) (nd_next_handle n) e"
  shows "node_ok (set_exchange i e n)"
  using assms exchanges_ok_update [of n e i] by (simp add: node_ok_def sessions_ok_def queues_ok_def locals_of_def)

lemma node_exchange_ok:
  "node_ok n \<Longrightarrow> i < length (nd_exchanges n) \<Longrightarrow> exchange_ok (locals_of n) (nd_next_handle n) (nd_exchanges n ! i)"
  by (simp add: node_ok_def exchanges_okD)

lemma acknowledge_ok:
  assumes "node_ok n"
  shows "node_ok (snd (node_acknowledge aes h n)) \<and> sessions_step n (snd (node_acknowledge aes h n))
    \<and> nd_events (snd (node_acknowledge aes h n)) = nd_events n \<and> pendings (snd (node_acknowledge aes h n)) \<subseteq> pendings n"
proof (cases "node_position n h")
  case (Inr i)
  note i = position_less [OF Inr]
  obtain r1 n1 where b: "node_build aes i 0 0x10 [] False n = (r1, n1)" by (cases "node_build aes i 0 0x10 [] False n")
  note n1 = build_ok [OF b assms]
  show ?thesis
  proof (cases r1)
    case r1: (Inr x)
    obtain bs c where x: "x = (bs, c)" by (cases x)
    let ?e = "nd_exchanges n ! i"
    obtain r2 n2 where q: "node_queue_out (ex_session ?e) (ex_remote ?e) bs n1 = (r2, n2)"
      by (cases "node_queue_out (ex_session ?e) (ex_remote ?e) bs n1")
    have n2: "node_ok n2" "nd_sessions n2 = nd_sessions n1" "nd_exchanges n2 = nd_exchanges n1" "nd_events n2 = nd_events n1"
      "nd_next_handle n2 = nd_next_handle n1"
      using queue_out_ok [OF q n1(1) build_frame(3) [OF b r1 [unfolded x]]] by simp_all
    have "node_ok (set_exchange i (?e\<lparr>ex_ack := None\<rparr>) n2)"
      by (rule set_exchange_ok) (use n1 n2 node_exchange_ok [OF assms i] in \<open>simp_all add: exchange_ok_def locals_of_def\<close>)
    moreover have "pendings (set_exchange i (?e\<lparr>ex_ack := None\<rparr>) n2) \<subseteq> pendings n2"
      by (rule pendings_update) (use i n1 n2 in simp_all)
    moreover have "pendings n2 = pendings n" by (rule pendings_cong) (simp add: n1 n2)
    ultimately show ?thesis
      using Inr b r1 x q n1 n2 assms
      by (cases r2) (simp_all add: node_acknowledge_def bindN_def no_change_def Let_def)
  qed (use Inr b n1 assms pendings_cong [of n1 n] in \<open>simp add: node_acknowledge_def bindN_def no_change_def\<close>)
qed (use assms in \<open>simp add: node_acknowledge_def bindN_def no_change_def\<close>)

lemma send_ok:
  assumes "node_ok n"
  shows "node_ok (snd (node_send aes h opcode body reliable now jitter n))
    \<and> sessions_step n (snd (node_send aes h opcode body reliable now jitter n))
    \<and> nd_events (snd (node_send aes h opcode body reliable now jitter n)) = nd_events n
    \<and> (nd_exchanges (snd (node_send aes h opcode body reliable now jitter n)) = nd_exchanges n
       \<or> (\<exists>i p. i < length (nd_exchanges n) \<and> ex_pending (nd_exchanges n ! i) = None
          \<and> nd_exchanges (snd (node_send aes h opcode body reliable now jitter n))
              = (nd_exchanges n)[i := (nd_exchanges n ! i)\<lparr>ex_pending := p, ex_ack := None\<rparr>]))"
proof (cases "node_position n h")
  case (Inr i)
  note i = position_less [OF Inr]
  let ?e = "nd_exchanges n ! i"
  obtain r1 n1 where b: "node_build aes i (ex_protocol ?e) opcode body reliable n = (r1, n1)"
    by (cases "node_build aes i (ex_protocol ?e) opcode body reliable n")
  note n1 = build_ok [OF b assms]
  show ?thesis
  proof (cases r1)
    case r1: (Inr x)
    obtain bs c where x: "x = (bs, c)" by (cases x)
    have l: "length bs \<le> MAX_UDP" by (rule build_frame(3) [OF b r1 [unfolded x]])
    then have copy: "copy_bytes bs = Inr bs" by (simp add: MAX_UDP_def MATTER_MAX_def)
    obtain r2 n2 where q: "node_queue_out (ex_session ?e) (ex_remote ?e) bs n1 = (r2, n2)"
      by (cases "node_queue_out (ex_session ?e) (ex_remote ?e) bs n1")
    have n2: "node_ok n2" "nd_sessions n2 = nd_sessions n1" "nd_exchanges n2 = nd_exchanges n1" "nd_events n2 = nd_events n1"
      "nd_next_handle n2 = nd_next_handle n1"
      using queue_out_ok [OF q n1(1) l] by simp_all
    have set: "node_ok (set_exchange i (?e\<lparr>ex_pending := p, ex_ack := None\<rparr>) n2)"
      if "case p of Some p \<Rightarrow> pe_attempt p = 0 \<and> pe_bytes p = bs | None \<Rightarrow> True" for p
      by (rule set_exchange_ok)
        (use that n1 n2 l node_exchange_ok [OF assms i] in \<open>auto simp: exchange_ok_def locals_of_def split: option.splits\<close>)
    show ?thesis
    proof (cases "ex_pending ?e")
      case None
      then show ?thesis
        using Inr b r1 x q n1 n2 assms set i
        by (cases r2; cases reliable) (auto simp: node_send_def bindN_def no_change_def Let_def copy)
    qed (use Inr assms in \<open>simp add: node_send_def bindN_def no_change_def\<close>)
  qed (use Inr b n1 assms in \<open>simp add: node_send_def bindN_def no_change_def\<close>)
qed (use assms in \<open>simp add: node_send_def bindN_def no_change_def\<close>)

lemma remove_exchange_ok:
  assumes "exchanges_ok n"
  shows "exchanges_ok (n\<lparr>nd_exchanges := take i (nd_exchanges n) @ drop (Suc i) (nd_exchanges n)\<rparr>)"
proof -
  have "distinct (map ex_handle (take i (nd_exchanges n)) @ map ex_handle (drop (Suc i) (nd_exchanges n)))"
    using assms by (auto simp: exchanges_ok_def take_map [symmetric] drop_map [symmetric]
        intro!: set_take_disj_set_drop_if_distinct)
  then show ?thesis
    using assms by (auto simp: exchanges_ok_def locals_of_def list_all_iff dest: in_set_takeD in_set_dropD)
qed

lemma tick_ok:
  assumes "node_ok n"
  shows "node_ok (snd (node_tick now jitter n)) \<and> nd_sessions (snd (node_tick now jitter n)) = nd_sessions n"
proof (cases "position (\<lambda>e. case ex_pending e of Some p \<Rightarrow> pe_next p \<le> now | None \<Rightarrow> False) (nd_exchanges n)")
  case (Some i)
  let ?e = "nd_exchanges n ! i"
  have i: "i < length (nd_exchanges n)" "ex_pending ?e \<noteq> None"
    using position_SomeD [OF Some] by (auto split: option.splits)
  then obtain p where p: "ex_pending ?e = Some p" by auto
  note ok = node_exchange_ok [OF assms i(1)]
  have l: "length (pe_bytes p) \<le> MAX_UDP" using ok p by (simp add: exchange_ok_def)
  then have copy: "copy_bytes (pe_bytes p) = Inr (pe_bytes p)" by (simp add: MAX_UDP_def MATTER_MAX_def)
  show ?thesis
  proof (cases "4 \<le> pe_attempt p")
    case True
    have "node_ok (n\<lparr>nd_events := nd_events n @ [EvFailed (ex_handle ?e)],
        nd_exchanges := take i (nd_exchanges n) @ drop (Suc i) (nd_exchanges n)\<rparr>)" if "length (nd_events n) < MAX_EVENTS"
      using assms that remove_exchange_ok [of n i]
      by (simp add: node_ok_def sessions_ok_def exchanges_ok_def queues_ok_def locals_of_def)
    then show ?thesis using Some p True assms by (simp add: node_tick_def bindN_def no_change_def queue_push_def Let_def)
  next
    case False
    obtain r2 n2 where q: "node_queue_out (ex_session ?e) (ex_remote ?e) (pe_bytes p) n = (r2, n2)"
      by (cases "node_queue_out (ex_session ?e) (ex_remote ?e) (pe_bytes p) n")
    have n2: "node_ok n2" "nd_sessions n2 = nd_sessions n" "nd_exchanges n2 = nd_exchanges n" "nd_next_handle n2 = nd_next_handle n"
      using queue_out_ok [OF q assms l] by simp_all
    have a: "pe_attempt p + 1 \<le> 4" using False by (simp add: inc_le not_le)
    have "node_ok (set_exchange i (?e\<lparr>ex_pending := Some (p\<lparr>pe_attempt := pe_attempt p + 1, pe_next := t\<rparr>)\<rparr>) n2)" for t
      by (rule set_exchange_ok) (use a l n2 ok in \<open>simp_all add: exchange_ok_def locals_of_def\<close>)
    then show ?thesis
      using Some p False q n2 by (cases r2) (simp_all add: node_tick_def bindN_def no_change_def Let_def copy)
  qed
next
  case None
  show ?thesis unfolding node_tick_def None using assms by simp
qed

lemma handle_le: "node_handle n = (r, n') \<Longrightarrow>
  (case r of Inr h \<Rightarrow> n' = n\<lparr>nd_next_handle := h\<rparr> \<and> nd_next_handle n < h | Inl _ \<Rightarrow> n' = n)"
  by (auto simp: node_handle_def checked_add_def word_less_nat_alt unat_word_ariths split: option.splits if_splits)

lemma exchanges_ok_grow:
  assumes "exchanges_ok n" "nd_next_handle n < h" "length (nd_exchanges n) < MAX_EXCHANGES"
    and "ex_handle e = h" "ex_session e = 0 \<or> ex_session e \<in> set (locals_of n)" "ex_pending e = None"
  shows "exchanges_ok (n\<lparr>nd_next_handle := h, nd_exchanges := nd_exchanges n @ [e]\<rparr>)"
proof -
  have old: "\<forall>x \<in> set (nd_exchanges n). exchange_ok (locals_of n) (nd_next_handle n) x" using assms(1) by (simp add: exchanges_ok_def list_all_iff)
  then have "h \<notin> ex_handle ` set (nd_exchanges n)" using assms(2) by (auto simp: exchange_ok_def)
  moreover have "\<forall>x \<in> set (nd_exchanges n). exchange_ok (locals_of n) h x" using old assms(2) by (auto simp: exchange_ok_def)
  ultimately show ?thesis using assms by (auto simp: exchanges_ok_def locals_of_def list_all_iff exchange_ok_def)
qed

lemma register_ok: "node_ok n \<Longrightarrow> node_ok (snd (node_register config seed n))"
  by (auto simp: node_register_def bindN_def no_change_def j_push_def node_ok_def sessions_ok_def exchanges_ok_def exchange_ok_def
      queues_ok_def locals_of_def list_ex_iff list_all_iff)

lemma filter_le: "length xs \<le> k \<Longrightarrow> length (filter P xs) \<le> k"
  using length_filter_le [of P xs] by linarith

lemma remove_ok:
  assumes "node_ok n"
  shows "node_ok (snd (node_remove local n))"
proof (cases "MAX_EVENTS - length (filter (\<lambda>e. \<not> belongs n local e) (nd_events n)) < length (filter (\<lambda>e. ex_session e = local) (nd_exchanges n))")
  case False
  let ?n = "snd (node_remove local n)"
  let ?kept = "filter (\<lambda>e. \<not> belongs n local e) (nd_events n)"
  have "length ?kept \<le> MAX_EVENTS" using assms by (simp add: node_ok_def queues_ok_def filter_le)
  then have "length ?kept + length (filter (\<lambda>e. ex_session e = local) (nd_exchanges n)) \<le> MAX_EVENTS"
    using False by linarith
  then have "queues_ok ?n"
    using False assms by (auto simp: node_remove_def Let_def node_ok_def queues_ok_def list_all_iff filter_le)
  moreover have "sessions_ok ?n"
    using False assms
    by (auto simp: filter_le node_remove_def Let_def node_ok_def sessions_ok_def locals_of_def distinct_map_filter)
  moreover have "exchanges_ok ?n"
    using False assms
    by (auto simp: filter_le node_remove_def Let_def node_ok_def exchanges_ok_def locals_of_def distinct_map_filter list_all_iff exchange_ok_def)
  ultimately show ?thesis by (simp add: node_ok_def)
qed (use assms in \<open>simp add: node_remove_def Let_def\<close>)

lemma close_ok: "node_ok n \<Longrightarrow> node_ok (node_close h n)"
  by (auto simp: filter_le node_close_def node_ok_def sessions_ok_def exchanges_ok_def queues_ok_def locals_of_def distinct_map_filter list_all_iff)

lemma outgoing_ok: "node_ok n \<Longrightarrow> node_ok (snd (node_outgoing n))"
  by (auto simp: node_outgoing_def node_ok_def sessions_ok_def exchanges_ok_def queues_ok_def locals_of_def split: list.splits)

lemma event_ok: "node_ok n \<Longrightarrow> node_ok (snd (node_event n))"
  by (auto simp: node_event_def node_ok_def sessions_ok_def exchanges_ok_def queues_ok_def locals_of_def split: list.splits)

lemma grow_ok:
  assumes "node_ok n" "nd_next_handle n < h" "length (nd_exchanges n) < MAX_EXCHANGES"
    and "ex_handle e = h" "ex_session e = 0 \<or> ex_session e \<in> set (locals_of n)" "ex_pending e = None"
  shows "node_ok (n\<lparr>nd_next_handle := h, nd_exchanges := nd_exchanges n @ [e]\<rparr>)"
  using assms exchanges_ok_grow [of n h e] by (simp add: node_ok_def sessions_ok_def queues_ok_def locals_of_def)

lemma handle_ok: "node_ok n \<Longrightarrow> nd_next_handle n < h \<Longrightarrow> node_ok (n\<lparr>nd_next_handle := h\<rparr>)"
  by (auto simp: node_ok_def sessions_ok_def exchanges_ok_def exchange_ok_def queues_ok_def locals_of_def list_all_iff)

lemma initiate_ok:
  assumes "node_ok n"
  shows "node_ok (snd (node_initiate address session protocol ephemeral retry n))
    \<and> nd_sessions (snd (node_initiate address session protocol ephemeral retry n)) = nd_sessions n
    \<and> pendings (snd (node_initiate address session protocol ephemeral retry n)) \<subseteq> pendings n"
proof -
  obtain xid at where f: "free_id (MAX_EXCHANGES + 1)
      (\<lambda>i. list_ex (\<lambda>e. ex_initiator e \<and> ex_id e = i \<and> ex_remote e = address \<and> ex_session e = session) (nd_exchanges n))
      (nd_next_exchange n) = (xid, at)"
    by fastforce
  let ?n = "n\<lparr>nd_next_exchange := at\<rparr>"
  have ok: "node_ok ?n" using assms by (simp add: node_ok_def sessions_ok_def exchanges_ok_def queues_ok_def locals_of_def)
  obtain r n1 where h: "node_handle ?n = (r, n1)" by fastforce
  note hl = handle_le [OF h]
  show ?thesis
  proof (cases "session = 0 \<and> (ephemeral = 0 \<or> 0xffffffefffffffff < ephemeral) \<or>
      session \<noteq> 0 \<and> \<not> list_ex (\<lambda>s. ks_local (sc_config s) = session \<and> ks_address (sc_config s) = address) (nd_sessions n)")
    case True
    then show ?thesis using assms by (auto simp: node_initiate_def)
  next
    case False
    then have s: "session = 0 \<or> session \<in> set (locals_of ?n)" by (auto simp: list_ex_iff locals_of_def)
    let ?e = "\<lambda>handle xid. \<lparr>ex_handle = handle, ex_remote = address, ex_session = session, ex_id = xid, ex_initiator = True,
        ex_protocol = protocol, ex_ephemeral = ephemeral, ex_replay = replay_default, ex_ack = None, ex_pending = None, ex_retry = retry\<rparr>"
    show ?thesis
    proof (cases r)
      case (Inr handle)
      then have n1: "n1 = ?n\<lparr>nd_next_handle := handle\<rparr>" "nd_next_handle ?n < handle" using hl by simp_all
      have "node_ok n1" unfolding n1(1) by (rule handle_ok [OF ok n1(2)])
      moreover have "node_ok (?n\<lparr>nd_next_handle := handle, nd_exchanges := nd_exchanges ?n @ [?e handle x]\<rparr>)"
        if "length (nd_exchanges n) < MAX_EXCHANGES" for x
        by (rule grow_ok [OF ok n1(2)]) (use that s in simp_all)
      ultimately show ?thesis
        using False f h ok Inr n1
        by (cases xid) (auto simp: node_initiate_def bindN_def no_change_def Let_def j_push_def not_le pendings_def)
    next
      case (Inl e)
      then show ?thesis
        using False f h ok hl by (cases xid) (auto simp: node_initiate_def bindN_def no_change_def Let_def pendings_def)
    qed
  qed
qed

lemma seal_length:
  assumes "is_block_cipher aes" "message_seal aes m key source = Inr bs"
  shows "length bs = length (header_bytes (ms_header m)) + length (protocol_bytes (ms_protocol m)) + length (ms_payload m) + 16"
proof -
  obtain h p nonce c sealed where h: "header_encode (ms_header m) = Inr h"
    and p: "protocol_encode (ms_protocol m) = Inr p" and c: "ccm_new key 16 = Inr c"
    and sealed: "ccm_seal aes c nonce (p @ ms_payload m) h = Inr sealed" and bs: "bs = h @ sealed"
    using assms(2) by (auto simp: message_seal_def result_iff split: if_splits)
  have t: "cc_tag c = 16" using c by (auto simp: ccm_new_def)
  obtain tag where "ccm_mac aes c nonce (p @ ms_payload m) h = Inr tag"
    and s: "sealed = ccm_crypt aes c nonce (p @ ms_payload m) @ xor_bytes (take (cc_tag c) tag) (take (cc_tag c) (ccm_counter aes c nonce 0))"
    using sealed by (auto simp: ccm_seal_def result_iff Let_def)
  then have "length sealed = length (p @ ms_payload m) + 16"
    using mic_length [OF assms(1) c, of nonce] ccm_crypt_twice [OF assms(1)] t by simp
  then show ?thesis using bs header_encode_Inr [OF h] protocol_encode_Inr [OF p] by simp
qed

lemma late_ack_ok:
  assumes "is_block_cipher aes" "node_ok n"
  shows "node_ok (snd (node_late_ack aes address m n)) \<and> sessions_step n (snd (node_late_ack aes address m n))
    \<and> nd_events (snd (node_late_ack aes address m n)) = nd_events n
    \<and> nd_exchanges (snd (node_late_ack aes address m n)) = nd_exchanges n"
proof (cases "position (\<lambda>s. ks_local (sc_config s) = fh_session (ms_header m) \<and> ks_address (sc_config s) = address) (nd_sessions n)")
  case None
  show ?thesis unfolding node_late_ack_def None using assms by (simp add: bindN_def no_change_def)
next
  case (Some i)
  let ?s = "nd_sessions n ! i"
  show ?thesis
  proof (cases "increment (sc_counter ?s)")
    case (Inr c)
    define n1 where "n1 = set_session i (?s\<lparr>sc_counter := c\<rparr>) n"
    define ack where "ack = \<lparr>ms_header = header_default\<lparr>fh_session := ks_peer (sc_config ?s), fh_counter := c\<rparr>,
                 ms_protocol = protocol_default\<lparr>xh_initiator := \<not> xh_initiator (ms_protocol m), xh_ack := Some (fh_counter (ms_header m)),
                   xh_opcode := 0x10, xh_exchange := xh_exchange (ms_protocol m), xh_protocol := 0\<rparr>,
                 ms_payload = []\<rparr>"
    have st: "same_tables n n1" "sessions_step n n1"
      by (auto simp: n1_def same_tables_def session_step_def intro!: sessions_update)
    have ok: "node_ok n1" by (rule frame_ok [OF st assms(2)])
    have l: "length bs \<le> MAX_UDP"
      if "message_seal aes ack (ks_outgoing (sc_config ?s)) (ks_local_node (sc_config ?s)) = Inr bs" for bs
      using seal_length [OF assms(1) that]
      by (simp add: ack_def header_bytes_def protocol_bytes_def header_default_def protocol_default_def opt_word_def ext_bytes_def MAX_UDP_def)
    have eq: "node_late_ack aes address m n = (if fh_session (ms_header m) = 0 \<or> \<not> xh_reliable (ms_protocol m) then (Inr (), n)
        else bindN (no_change n1 (message_seal aes ack (ks_outgoing (sc_config ?s)) (ks_local_node (sc_config ?s)))) (\<lambda>bs n.
          node_queue_out (fh_session (ms_header m)) address bs n))"
      unfolding node_late_ack_def Some by (simp add: bindN_def no_change_def Let_def Inr n1_def ack_def)
    show ?thesis
    proof (cases "message_seal aes ack (ks_outgoing (sc_config ?s)) (ks_local_node (sc_config ?s))")
      case (Inr bs)
      obtain r n2 where q: "node_queue_out (fh_session (ms_header m)) address bs n1 = (r, n2)" by fastforce
      note q2 = queue_out_ok [OF q ok l [OF Inr]]
      show ?thesis unfolding eq using assms(2) q q2 st Inr by (simp add: bindN_def no_change_def same_tables_def)
    qed (use eq assms(2) ok st in \<open>simp add: bindN_def no_change_def same_tables_def\<close>)
  qed (use Some assms(2) in \<open>simp add: node_late_ack_def bindN_def no_change_def Let_def\<close>)
qed

lemma exchange_receive_ok:
  assumes "exchange_receive local message duplicate e = (d, events, e')"
  shows "ex_handle e' = ex_handle e" "length events \<le> 1" "exchange_ok locals bound e \<Longrightarrow> exchange_ok locals bound e'"
    "\<And>h m. EvMessage h m \<notin> set events" "local \<noteq> 0 \<Longrightarrow> d = duplicate" "ex_pending e' = None \<or> ex_pending e' = ex_pending e"
proof -
  have "ex_handle e' = ex_handle e \<and> length events \<le> 1 \<and> (exchange_ok locals bound e \<longrightarrow> exchange_ok locals bound e')
    \<and> (\<forall>h m. EvMessage h m \<notin> set events) \<and> (local \<noteq> 0 \<longrightarrow> d = duplicate)
    \<and> (ex_pending e' = None \<or> ex_pending e' = ex_pending e)"
    using assms by (auto simp: exchange_receive_def Let_def exchange_ok_def split: if_splits option.splits prod.splits)
  then show "ex_handle e' = ex_handle e" "length events \<le> 1" "exchange_ok locals bound e \<Longrightarrow> exchange_ok locals bound e'"
    "\<And>h m. EvMessage h m \<notin> set events" "local \<noteq> 0 \<Longrightarrow> d = duplicate" "ex_pending e' = None \<or> ex_pending e' = ex_pending e"
    by blast+
qed

text \<open>Delivery adds at most three events, and a message only when it is no duplicate.\<close>

lemma deliver_ok:
  fixes aes local message duplicate accepted
  assumes "node_ok n" "i < length (nd_exchanges n)" "length (nd_events n) \<le> MAX_EVENTS - 3"
  defines "n' \<equiv> snd (receive_deliver aes local message duplicate accepted i n)"
  shows "node_ok n' \<and> sessions_step n n' \<and> pendings n' \<subseteq> pendings n \<and> (\<exists>evs. nd_events n' = nd_events n @ evs
    \<and> (\<forall>h m. EvMessage h m \<in> set evs \<longrightarrow> m = message \<and> (local \<noteq> 0 \<longrightarrow> \<not> duplicate)))"
proof -
  let ?e = "nd_exchanges n ! i" and ?p = "ms_protocol message"
  obtain d events e' where x: "exchange_receive local message duplicate ?e = (d, events, e')" by (metis prod_cases3)
  note x' = exchange_receive_ok [OF x]
  define front where "front = (if accepted then [EvAccepted (ex_handle ?e)] else []) @ events"
  define n1 where "n1 = (set_exchange i e' n)\<lparr>nd_events := nd_events n @ front\<rparr>"
  have f: "length front \<le> 2" "\<And>h m. EvMessage h m \<notin> set front" using x'(2,4) by (auto simp: front_def)
  have "node_ok (set_exchange i e' n)"
    by (rule set_exchange_ok [OF assms(1)]) (use x'(1,3) node_exchange_ok [OF assms(1,2)] in simp_all)
  then have ok: "node_ok n1" "node_ok (n1\<lparr>nd_events := nd_events n1 @ [EvMessage (ex_handle ?e) message]\<rparr>)"
    using f(1) assms(3) by (simp_all add: n1_def node_ok_def sessions_ok_def exchanges_ok_def queues_ok_def locals_of_def MAX_EVENTS_def)
  have n1: "nd_sessions n1 = nd_sessions n" "nd_events n1 = nd_events n @ front" by (simp_all add: n1_def)
  have pn: "pendings n1 \<subseteq> pendings n"
    using pendings_update [OF assms(2) x'(1,6)] pendings_cong [of n1 "set_exchange i e' n"] by (simp add: n1_def)
  have pe: "pendings (n1\<lparr>nd_events := evs\<rparr>) = pendings n1" for evs by (rule pendings_cong) simp
  note ack = acknowledge_ok [OF ok(1), of aes "ex_handle ?e"]
  define C where "C \<longleftrightarrow> xh_protocol ?p = 0 \<and> xh_opcode ?p = 0x10"
  define A where "A \<longleftrightarrow> xh_protocol ?p \<noteq> ex_protocol ?e \<and> \<not> C"
  define B where "B \<longleftrightarrow> local = 0
    \<and> (if ex_initiator ?e then fh_destination (ms_header message) else fh_source (ms_header message)) \<noteq> Some (ex_ephemeral ?e)"
  have "n' = (if A \<or> B then n else if C then n1 else if d then snd (node_acknowledge aes (ex_handle ?e) n1)
     else n1\<lparr>nd_events := nd_events n1 @ [EvMessage (ex_handle ?e) message]\<rparr>)"
    unfolding n'_def receive_deliver_def Let_def x prod.case C_def [symmetric] A_def [symmetric] B_def [symmetric]
    by (cases A; cases B; cases C; cases d) (simp_all add: n1_def front_def)
  then consider "n' = n" | "n' = n1" | "n' = snd (node_acknowledge aes (ex_handle ?e) n1)"
    | "\<not> d" "n' = n1\<lparr>nd_events := nd_events n1 @ [EvMessage (ex_handle ?e) message]\<rparr>"
    by (cases "A \<or> B"; cases C; cases d) simp_all
  then show ?thesis
  proof cases
    case 1
    then show ?thesis using assms(1) by auto
  next
    case 2
    then show ?thesis using ok(1) n1 f(2) pn by auto
  next
    case 3
    then show ?thesis using ack n1 f(2) pn by auto
  next
    case 4
    then show ?thesis using ok(2) n1 f(2) x'(5) pn by (auto simp: pe)
  qed
qed

text \<open>A counter is spent on a session once its window refuses it.\<close>

definition node_spent :: "node \<Rightarrow> u16 \<Rightarrow> u32 \<Rightarrow> bool" where
  "node_spent n local c \<longleftrightarrow> (\<exists>s \<in> set (nd_sessions n). ks_local (sc_config s) = local \<and> spent (sc_replay s) c)"

lemma node_spentI:
  "i < length (nd_sessions n) \<Longrightarrow> ks_local (sc_config (nd_sessions n ! i)) = local \<Longrightarrow> spent (sc_replay (nd_sessions n ! i)) c
    \<Longrightarrow> node_spent n local c"
  using nth_mem by (fastforce simp: node_spent_def)

lemma node_spent_step:
  assumes "sessions_step n n'" "node_spent n local c"
  shows "node_spent n' local c"
proof -
  obtain i where i: "i < length (nd_sessions n)" "ks_local (sc_config (nd_sessions n ! i)) = local" "spent (sc_replay (nd_sessions n ! i)) c"
    using assms(2) by (auto simp: node_spent_def in_set_conv_nth)
  then have "i < length (nd_sessions n')" "session_step (nd_sessions n ! i) (nd_sessions n' ! i)"
    using assms(1) by (auto simp: list_all2_conv_all_nth)
  then show ?thesis using i by (auto simp: session_step_def intro: node_spentI)
qed

lemma receive_message_facts:
  assumes "receive_message aes address bs n = Inr (local, secure, m)"
  shows "length (nd_events n) \<le> MAX_EVENTS - 3" "local = fh_session (ms_header m)"
    "secure = position (\<lambda>s. ks_local (sc_config s) = local \<and> ks_address (sc_config s) = address) (nd_sessions n)"
    "local \<noteq> 0 \<Longrightarrow> secure \<noteq> None"
proof -
  have o: "message_open aes bs key source = Inr m \<Longrightarrow> \<exists>k. header_peek bs = Inr (ms_header m, k)" for key source
    by (auto simp: message_open_def result_iff split: if_splits)
  have p: "message_parse bs = Inr m \<Longrightarrow> \<exists>k. header_peek bs = Inr (ms_header m, k)"
    by (auto simp: message_parse_def result_iff Let_def)
  have "length (nd_events n) \<le> MAX_EVENTS - 3 \<and> local = fh_session (ms_header m)
    \<and> secure = position (\<lambda>s. ks_local (sc_config s) = local \<and> ks_address (sc_config s) = address) (nd_sessions n)
    \<and> (local \<noteq> 0 \<longrightarrow> secure \<noteq> None)"
    using assms by (auto simp: receive_message_def result_iff Let_def not_less dest!: o p split: if_splits)
  then show "length (nd_events n) \<le> MAX_EVENTS - 3" "local = fh_session (ms_header m)"
    "secure = position (\<lambda>s. ks_local (sc_config s) = local \<and> ks_address (sc_config s) = address) (nd_sessions n)"
    "local \<noteq> 0 \<Longrightarrow> secure \<noteq> None"
    by blast+
qed

text \<open>Marking the counter on the session of the message.\<close>

lemma mark_session:
  fixes c now
  assumes "node_ok n" "i < length (nd_sessions n)" "ks_local (sc_config (nd_sessions n ! i)) = local"
  defines "s \<equiv> nd_sessions n ! i"
  defines "n' \<equiv> set_session i (s\<lparr>sc_replay := replay_after c (sc_replay s), sc_last := Some now\<rparr>) n"
  shows "node_ok n'" "sessions_step n n'" "node_spent n' local c" "node_spent n local c \<longleftrightarrow> spent (sc_replay s) c"
proof -
  have st: "same_tables n n'" by (simp add: n'_def same_tables_def)
  show se: "sessions_step n n'"
    by (auto simp: n'_def s_def session_step_def spent_stays intro!: sessions_update)
  show "node_ok n'" by (rule frame_ok [OF st se assms(1)])
  show "node_spent n' local c"
    by (rule node_spentI [of i]) (use assms(2,3) in \<open>simp_all add: n'_def s_def mark_spends\<close>)
  have "distinct (locals_of n)" using assms(1) by (simp add: node_ok_def sessions_ok_def)
  then have one: "j = i" if "j < length (nd_sessions n)" "ks_local (sc_config (nd_sessions n ! j)) = local" for j
    using that assms(2,3) nth_eq_iff_index_eq [of "locals_of n" j i] by (simp add: locals_of_def)
  show "node_spent n local c \<longleftrightarrow> spent (sc_replay s) c"
  proof
    assume "node_spent n local c"
    then obtain j where "j < length (nd_sessions n)" "ks_local (sc_config (nd_sessions n ! j)) = local" "spent (sc_replay (nd_sessions n ! j)) c"
      unfolding node_spent_def by (metis in_set_conv_nth)
    then show "spent (sc_replay s) c" using one unfolding s_def by blast
  next
    assume "spent (sc_replay s) c"
    then show "node_spent n local c" using node_spentI [OF assms(2,3)] unfolding s_def by blast
  qed
qed

lemma receive_exchange_ok:
  fixes aes address local message duplicate found
  assumes "is_block_cipher aes" "node_ok n" "length (nd_events n) \<le> MAX_EVENTS - 3" "local = 0 \<or> local \<in> set (locals_of n)"
    and "\<And>i. found = Some i \<Longrightarrow> i < length (nd_exchanges n)"
  defines "n' \<equiv> snd (receive_exchange aes address local message duplicate found n)"
  shows "node_ok n' \<and> sessions_step n n' \<and> pendings n' \<subseteq> pendings n \<and> (\<exists>evs. nd_events n' = nd_events n @ evs
    \<and> (\<forall>h m. EvMessage h m \<in> set evs \<longrightarrow> m = message \<and> (local \<noteq> 0 \<longrightarrow> \<not> duplicate)))"
proof (cases found)
  case (Some i)
  then show ?thesis using deliver_ok [OF assms(2) assms(5) [OF Some] assms(3)] by (simp add: n'_def receive_exchange_def)
next
  case None
  let ?p = "ms_protocol message"
  define E where "E = (case fh_source (ms_header message) of Some v \<Rightarrow> v | None \<Rightarrow> 0)"
  define A where "A \<longleftrightarrow> duplicate \<or> \<not> xh_initiator ?p \<or> xh_opcode ?p = 0x10 \<and> xh_protocol ?p = 0"
  define B where "B \<longleftrightarrow> local = 0 \<and> (E = 0 \<or> 0xffffffefffffffff < E)"
  define new where "new = (\<lambda>handle. \<lparr>ex_handle = handle, ex_remote = address, ex_session = local, ex_id = xh_exchange ?p, ex_initiator = False,
          ex_protocol = xh_protocol ?p, ex_ephemeral = E, ex_replay = replay_default, ex_ack = None, ex_pending = None,
          ex_retry = 0\<rparr>)"
  obtain r n1 where h: "node_handle n = (r, n1)" by fastforce
  note hl = handle_le [OF h]
  define n2 where "n2 = (\<lambda>handle. n\<lparr>nd_next_handle := handle, nd_exchanges := nd_exchanges n @ [new handle]\<rparr>)"
  have eq: "n' = (if A then snd (node_late_ack aes address message n) else if B then n
      else case r of Inl _ \<Rightarrow> n1 | Inr handle \<Rightarrow> if MAX_EXCHANGES \<le> length (nd_exchanges n) then n1
        else snd (receive_deliver aes local message duplicate True (length (nd_exchanges n)) (n2 handle)))"
    unfolding n'_def receive_exchange_def None option.case Let_def E_def [symmetric] A_def [symmetric] B_def [symmetric] h new_def [symmetric]
    using hl by (cases A; cases B; cases r) (simp_all add: bindN_def no_change_def j_push_def n2_def new_def)
  have plain: ?thesis if "node_ok n'" "sessions_step n n'" "nd_events n' = nd_events n" "nd_exchanges n' = nd_exchanges n"
    using that pendings_cong [OF that(4)] by simp
  show ?thesis
  proof (cases "A \<or> B")
    case True
    then show ?thesis using late_ack_ok [OF assms(1,2), of address message] assms(2) plain eq by (cases A) simp_all
  next
    case False
    show ?thesis
    proof (cases r)
      case (Inl e)
      then show ?thesis using False eq hl assms(2) plain by simp
    next
      case (Inr handle)
      then have n1: "n1 = n\<lparr>nd_next_handle := handle\<rparr>" "nd_next_handle n < handle" using hl by simp_all
      show ?thesis
      proof (cases "MAX_EXCHANGES \<le> length (nd_exchanges n)")
        case True
        then show ?thesis using False Inr eq n1 handle_ok [OF assms(2) n1(2)] plain by simp
      next
        case room: False
        have ok: "node_ok (n2 handle)" unfolding n2_def
          by (rule grow_ok [OF assms(2) n1(2)]) (use room assms(4) in \<open>simp_all add: new_def\<close>)
        have "pendings (n2 handle) \<subseteq> pendings n" by (rule pendings_grow [of "new handle"]) (simp_all add: n2_def new_def)
        then show ?thesis
          using deliver_ok [OF ok, of "length (nd_exchanges n)" aes local message duplicate True] assms(3) False Inr room eq
          by (auto simp: n2_def)
      qed
    qed
  qed
qed

lemma receive_mark_ok:
  assumes "node_ok n" "secure = position (\<lambda>s. ks_local (sc_config s) = local \<and> ks_address (sc_config s) = address) (nd_sessions n)"
    and "local \<noteq> 0 \<Longrightarrow> secure \<noteq> None" "receive_mark secure c now n = (d, nm)"
  shows "node_ok nm" "sessions_step n nm" "same_tables n nm" "local \<noteq> 0 \<Longrightarrow> node_spent nm local c"
    "local \<noteq> 0 \<Longrightarrow> node_spent n local c \<longleftrightarrow> d" "local = 0 \<or> local \<in> set (locals_of nm)"
proof -
  have "node_ok nm \<and> sessions_step n nm \<and> same_tables n nm \<and> (local \<noteq> 0 \<longrightarrow> node_spent nm local c \<and> (node_spent n local c \<longleftrightarrow> d))"
  proof (cases secure)
    case None
    then show ?thesis using assms(1,3,4) by (auto simp: receive_mark_def)
  next
    case (Some i)
    then have i: "i < length (nd_sessions n)" "ks_local (sc_config (nd_sessions n ! i)) = local"
      using position_SomeD [OF assms(2) [symmetric, unfolded Some]] by simp_all
    let ?s = "nd_sessions n ! i"
    have "nm = set_session i (?s\<lparr>sc_replay := replay_after c (sc_replay ?s), sc_last := Some now\<rparr>) n" "d = spent (sc_replay ?s) c"
      using assms(4) Some by (auto simp: receive_mark_def Let_def spent_def split: prod.splits)
    then show ?thesis
      using mark_session(1-3) [OF assms(1) i, where c = c and now = now] mark_session(4) [OF assms(1) i] by (simp add: same_tables_def)
  qed
  then show "node_ok nm" "sessions_step n nm" "same_tables n nm" "local \<noteq> 0 \<Longrightarrow> node_spent nm local c"
    "local \<noteq> 0 \<Longrightarrow> node_spent n local c \<longleftrightarrow> d" by blast+
  then show "local = 0 \<or> local \<in> set (locals_of nm)" by (auto simp: node_spent_def locals_of_def)
qed

lemma receive_ok:
  fixes aes address bs now
  assumes "is_block_cipher aes" "node_ok n"
  defines "n' \<equiv> snd (node_receive aes address bs now n)"
  shows "node_ok n' \<and> sessions_step n n' \<and> pendings n' \<subseteq> pendings n \<and> (\<exists>evs. nd_events n' = nd_events n @ evs
    \<and> (\<forall>h m. EvMessage h m \<in> set evs \<and> fh_session (ms_header m) \<noteq> 0 \<longrightarrow>
         \<not> node_spent n (fh_session (ms_header m)) (fh_counter (ms_header m)) \<and> node_spent n' (fh_session (ms_header m)) (fh_counter (ms_header m))))"
proof (cases "receive_message aes address bs n")
  case (Inl e)
  then show ?thesis using assms(2) by (simp add: n'_def node_receive_def bindN_def no_change_def)
next
  case (Inr x)
  obtain local secure m where x: "x = (local, secure, m)" by (metis prod_cases3)
  note f = receive_message_facts [OF Inr [unfolded x]]
  define c where "c = fh_counter (ms_header m)"
  define found where "found = position (\<lambda>e. ex_remote e = address \<and> ex_session e = local \<and> ex_id e = xh_exchange (ms_protocol m)
                             \<and> ex_initiator e \<noteq> xh_initiator (ms_protocol m)) (nd_exchanges n)"
  obtain d nm where nm: "receive_mark secure c now n = (d, nm)" by fastforce
  note ok = receive_mark_ok [OF assms(2) f(3,4) nm]
  have eq: "n' = n \<or> n' = snd (receive_exchange aes address local m d found nm)"
    using Inr x nm unfolding n'_def node_receive_def by (auto simp: bindN_def no_change_def Let_def c_def found_def)
  have found: "i < length (nd_exchanges nm)" if "found = Some i" for i
    using that position_SomeD ok(3) by (fastforce simp: found_def same_tables_def)
  have ev: "nd_events nm = nd_events n" using ok(3) by (simp add: same_tables_def)
  note x = receive_exchange_ok [OF assms(1) ok(1) f(1) [folded ev] ok(6) found, of found address m d]
  show ?thesis
  proof (cases "n' = n")
    case True
    then show ?thesis using assms(2) by simp
  next
    case False
    then have n': "n' = snd (receive_exchange aes address local m d found nm)" using eq by blast
    have "sessions_step n n'" "sessions_step nm n'" using x sessions_trans [OF ok(2)] by (auto simp: n')
    moreover have "pendings n' \<subseteq> pendings n" using x pendings_cong [of nm n] ok(3) by (simp add: n' same_tables_def)
    ultimately show ?thesis
      using x [folded n'] ok(4,5) f(2) ev node_spent_step [of nm n' local c] unfolding c_def by auto
  qed
qed

section \<open>Properties of a run\<close>

lemma apply_ok:
  assumes "is_block_cipher aes" "node_ok n"
  shows "node_ok (node_apply aes op n)"
proof (cases op)
  case (Receive address bs now)
  then show ?thesis using receive_ok [OF assms, of address bs now] by simp
qed (use assms(2) in \<open>simp_all add: register_ok remove_ok initiate_ok close_ok outgoing_ok event_ok send_ok acknowledge_ok tick_ok\<close>)

lemma run_ok: "is_block_cipher aes \<Longrightarrow> node_ok n \<Longrightarrow> node_ok (node_run aes ops n)"
  unfolding node_run_def by (induction ops arbitrary: n) (simp_all add: apply_ok)

lemma run_append: "node_run aes (xs @ ys) n = node_run aes ys (node_run aes xs n)"
  by (simp add: node_run_def)

text \<open>C15: In every state the node can reach, whatever its owner calls and whatever arrives: at most 64 sessions with distinct
  non-zero IDs, at most 128 exchanges with distinct handles, each on a session that is still registered (or on none), queues
  within their bounds, no datagram over the UDP budget and no retry counter above four.\<close>

theorem node_invariant:
  assumes "is_block_cipher aes"
  shows "node_ok (node_run aes ops (node_new counter_seed exchange_seed))"
  using assms by (intro run_ok node_ok_new)

lemma spent_apply:
  assumes "is_block_cipher aes" "node_ok n" "node_spent n local c" "op \<noteq> Remove local"
  shows "node_spent (node_apply aes op n) local c"
proof (cases op)
  case (Register config seed)
  then show ?thesis using assms(3) by (auto simp: node_register_def bindN_def no_change_def j_push_def node_spent_def)
next
  case (Remove other)
  then have "other \<noteq> local" using assms(4) by blast
  then show ?thesis using assms(3) Remove by (auto simp: node_remove_def Let_def node_spent_def)
next
  case (Close h)
  then show ?thesis using assms(3) by (simp add: node_close_def node_spent_def)
next
  case TakeOutgoing
  then show ?thesis using assms(3) by (simp add: node_outgoing_def node_spent_def split: list.splits)
next
  case TakeEvent
  then show ?thesis using assms(3) by (simp add: node_event_def node_spent_def split: list.splits)
next
  case (Receive address bs now)
  then show ?thesis using receive_ok [OF assms(1,2), of address bs now] node_spent_step assms(3) by (metis node_apply.simps(9))
next
  case (Send h opcode body reliable now jitter)
  then show ?thesis using send_ok [OF assms(2)] node_spent_step assms(3) by (metis node_apply.simps(7))
next
  case (Acknowledge h)
  then show ?thesis using acknowledge_ok [OF assms(2)] node_spent_step assms(3) by (metis node_apply.simps(8))
qed (use assms(2,3) tick_ok initiate_ok in \<open>simp_all add: node_spent_def\<close>)

lemma spent_run:
  "is_block_cipher aes \<Longrightarrow> node_ok n \<Longrightarrow> node_spent n local c \<Longrightarrow> Remove local \<notin> set ops \<Longrightarrow> node_spent (node_run aes ops n) local c"
  unfolding node_run_def by (induction ops arbitrary: n) (auto simp: apply_ok spent_apply)

text \<open>The messages a call adds to the event queue.\<close>

definition delivers :: "block_cipher \<Rightarrow> node \<Rightarrow> node_op \<Rightarrow> message \<Rightarrow> bool" where
  "delivers aes n op m \<longleftrightarrow> (\<exists>h evs. nd_events (node_apply aes op n) = nd_events n @ evs \<and> EvMessage h m \<in> set evs)"

lemma receive_delivers:
  assumes "is_block_cipher aes" "node_ok n" "delivers aes n (Receive address bs now) m" "fh_session (ms_header m) \<noteq> 0"
  shows "\<not> node_spent n (fh_session (ms_header m)) (fh_counter (ms_header m))"
    "node_spent (node_apply aes (Receive address bs now) n) (fh_session (ms_header m)) (fh_counter (ms_header m))"
  using receive_ok [OF assms(1,2), of address bs now] assms(3,4) by (auto simp: delivers_def)

text \<open>C13: Exactly once: after a datagram delivered an authenticated message of a secure session, no later datagram delivers a
  message with the same counter on that session, whatever calls and datagrams come in between, unless the session was removed.\<close>

theorem delivered_once:
  assumes "is_block_cipher aes" "n = node_run aes ops (node_new counter_seed exchange_seed)"
    and "delivers aes n (Receive address bs now) m" "fh_session (ms_header m) \<noteq> 0"
    and "Remove (fh_session (ms_header m)) \<notin> set between"
    and "n' = node_run aes (Receive address bs now # between) n" "delivers aes n' (Receive address' bs' now') m'"
    and "fh_session (ms_header m') = fh_session (ms_header m)"
  shows "fh_counter (ms_header m') \<noteq> fh_counter (ms_header m)"
proof -
  let ?s = "fh_session (ms_header m)" and ?c = "fh_counter (ms_header m)"
  have ok: "node_ok n" unfolding assms(2) by (intro run_ok node_ok_new assms(1))
  let ?n1 = "node_apply aes (Receive address bs now) n"
  have "node_spent ?n1 ?s ?c" by (rule receive_delivers(2) [OF assms(1) ok assms(3,4)])
  moreover have n': "n' = node_run aes between ?n1" using assms(6) by (simp add: node_run_def)
  ultimately have "node_spent n' ?s ?c"
    unfolding n' using spent_run [OF assms(1) apply_ok [OF assms(1) ok]] assms(5) by blast
  moreover have ok': "node_ok n'" unfolding n' by (intro run_ok apply_ok assms(1) ok)
  have "\<not> node_spent n' (fh_session (ms_header m')) (fh_counter (ms_header m'))"
    by (rule receive_delivers(1) [OF assms(1) ok' assms(7)]) (simp only: assms(4,8) not_False_eq_True)
  ultimately show ?thesis using assms(8) by auto
qed

section \<open>Retries\<close>

lemma handles_inject:
  assumes "node_ok n" "e \<in> set (nd_exchanges n)" "e' \<in> set (nd_exchanges n)" "ex_handle e = ex_handle e'"
  shows "e = e'"
  using assms by (auto simp: node_ok_def exchanges_ok_def distinct_map dest: inj_onD)

lemma pendings_inject:
  assumes "node_ok n" "(h, p) \<in> pendings n" "(h, p') \<in> pendings n"
  shows "p' = p"
proof -
  obtain e e' where e: "e \<in> set (nd_exchanges n)" "ex_handle e = h" "ex_pending e = Some p"
    "e' \<in> set (nd_exchanges n)" "ex_handle e' = h" "ex_pending e' = Some p'"
    using assms(2,3) by (auto simp: pendings_def)
  then have "e = e'" by (intro handles_inject [OF assms(1)]) simp_all
  then show ?thesis using e by simp
qed

text \<open>Setting the wait of one exchange.\<close>

lemma pendings_set:
  assumes "i < length (nd_exchanges n)" "ex_handle e = ex_handle (nd_exchanges n ! i)" "(h, p) \<in> pendings (set_exchange i e n)"
    and "node_ok n"
  shows "h = ex_handle e \<and> ex_pending e = Some p \<or> h \<noteq> ex_handle e \<and> (h, p) \<in> pendings n"
proof -
  obtain x where x: "x \<in> set ((nd_exchanges n)[i := e])" "ex_handle x = h" "ex_pending x = Some p"
    using assms(3) by (auto simp: pendings_def)
  then obtain j where j: "j < length (nd_exchanges n)" "x = (nd_exchanges n)[i := e] ! j" by (auto simp: in_set_conv_nth)
  show ?thesis
  proof (cases "j = i")
    case True
    then show ?thesis using x j assms(1) by simp
  next
    case False
    then have xj: "x = nd_exchanges n ! j" using j by simp
    then have "(h, p) \<in> pendings n" using x(2,3) j(1) pendingsI [OF nth_mem, of j n p] by simp
    moreover have "distinct (map ex_handle (nd_exchanges n))" using assms(4) by (simp add: node_ok_def exchanges_ok_def)
    then have "ex_handle (nd_exchanges n ! j) \<noteq> ex_handle (nd_exchanges n ! i)"
      using False j(1) assms(1) nth_eq_iff_index_eq [of "map ex_handle (nd_exchanges n)" j i] by simp
    ultimately show ?thesis using x(2) xj assms(2) by simp
  qed
qed

lemma send_pendings:
  assumes "node_ok n" "(h, p) \<in> pendings n" "(h, p') \<in> pendings (snd (node_send aes g opcode body reliable now jitter n))"
  shows "p' = p"
proof -
  let ?n = "snd (node_send aes g opcode body reliable now jitter n)"
  consider "nd_exchanges ?n = nd_exchanges n"
    | i q where "i < length (nd_exchanges n)" "ex_pending (nd_exchanges n ! i) = None"
      "nd_exchanges ?n = (nd_exchanges n)[i := (nd_exchanges n ! i)\<lparr>ex_pending := q, ex_ack := None\<rparr>]"
    using send_ok [OF assms(1), of aes g opcode body reliable now jitter] by blast
  then show ?thesis
  proof cases
    case 1
    then show ?thesis using assms pendings_cong pendings_inject by blast
  next
    case 2
    let ?e = "nd_exchanges n ! i"
    let ?e' = "?e\<lparr>ex_pending := q, ex_ack := None\<rparr>"
    have "(h, p') \<in> pendings (set_exchange i ?e' n)" using assms(3) 2(3) by (simp add: pendings_def)
    then have c: "h = ex_handle ?e' \<and> ex_pending ?e' = Some p' \<or> h \<noteq> ex_handle ?e' \<and> (h, p') \<in> pendings n"
      by (intro pendings_set [OF 2(1) _ _ assms(1)]) simp_all
    obtain x where "x \<in> set (nd_exchanges n)" "ex_handle x = h" "ex_pending x = Some p" using assms(2) by (auto simp: pendings_def)
    then have "h \<noteq> ex_handle ?e" using handles_inject [OF assms(1), of x ?e] 2(1,2) by auto
    then show ?thesis using c assms(1,2) pendings_inject by auto
  qed
qed

text \<open>One round of retries: at most one datagram, with the bytes of the first transmission, and at most four times.\<close>

lemma tick_pendings:
  assumes "node_ok n" "(h, p) \<in> pendings n" "(h, p') \<in> pendings (snd (node_tick now jitter n))" "p' \<noteq> p"
  shows "pe_attempt p < 4 \<and> (\<exists>later. p' = p\<lparr>pe_attempt := pe_attempt p + 1, pe_next := later\<rparr>)
    \<and> (\<exists>dg. og_bytes dg = pe_bytes p \<and> nd_out (snd (node_tick now jitter n)) = nd_out n @ [dg])"
proof (cases "position (\<lambda>e. case ex_pending e of Some p \<Rightarrow> pe_next p \<le> now | None \<Rightarrow> False) (nd_exchanges n)")
  case None
  then have "snd (node_tick now jitter n) = n" unfolding node_tick_def None by simp
  then show ?thesis using assms pendings_inject by auto
next
  case (Some i)
  let ?e = "nd_exchanges n ! i"
  have i: "i < length (nd_exchanges n)" "ex_pending ?e \<noteq> None"
    using position_SomeD [OF Some] by (auto split: option.splits)
  then obtain w where w: "ex_pending ?e = Some w" by auto
  have l: "length (pe_bytes w) \<le> MAX_UDP" using node_exchange_ok [OF assms(1) i(1)] w by (simp add: exchange_ok_def)
  then have copy: "copy_bytes (pe_bytes w) = Inr (pe_bytes w)" by (simp add: MAX_UDP_def MATTER_MAX_def)
  have same: False if "pendings (snd (node_tick now jitter n)) \<subseteq> pendings n" using that assms pendings_inject by blast
  show ?thesis
  proof (cases "4 \<le> pe_attempt w \<or> MAX_OUT \<le> length (nd_out n)")
    case True
    then have "set (nd_exchanges (snd (node_tick now jitter n))) \<subseteq> set (nd_exchanges n)"
      using Some w copy
      by (auto simp: node_tick_def bindN_def no_change_def Let_def queue_push_def node_queue_out_def dest: in_set_takeD in_set_dropD)
    then show ?thesis using same pendings_subset by blast
  next
    case False
    define later where "later = saturating_add now (interval (node_base n i now) (pe_attempt w + 1) jitter)"
    let ?e' = "?e\<lparr>ex_pending := Some (w\<lparr>pe_attempt := pe_attempt w + 1, pe_next := later\<rparr>)\<rparr>"
    let ?o = "\<lparr>og_session = ex_session ?e, og_address = ex_remote ?e, og_bytes = pe_bytes w\<rparr>"
    have n': "snd (node_tick now jitter n) = (set_exchange i ?e' n)\<lparr>nd_out := nd_out n @ [?o]\<rparr>"
      using False Some w copy
      by (simp add: node_tick_def bindN_def no_change_def Let_def queue_push_def node_queue_out_def later_def)
    have "(h, p') \<in> pendings (set_exchange i ?e' n)" using assms(3) by (simp add: n' pendings_def)
    then have "h = ex_handle ?e' \<and> ex_pending ?e' = Some p' \<or> h \<noteq> ex_handle ?e' \<and> (h, p') \<in> pendings n"
      by (intro pendings_set [OF i(1) _ _ assms(1)]) simp_all
    then have e: "h = ex_handle ?e" "p' = w\<lparr>pe_attempt := pe_attempt w + 1, pe_next := later\<rparr>"
      using assms(2,4) pendings_inject [OF assms(1)] by auto
    have "(h, w) \<in> pendings n" using pendingsI [OF nth_mem [OF i(1)] w] e(1) by simp
    then have "w = p" using assms(2) pendings_inject [OF assms(1)] by blast
    then show ?thesis using e n' False by auto
  qed
qed

lemma other_pendings:
  assumes "is_block_cipher aes" "node_ok n" "\<And>h opcode body reliable now jitter. op \<noteq> Send h opcode body reliable now jitter"
    and "\<And>now jitter. op \<noteq> Tick now jitter"
  shows "pendings (node_apply aes op n) \<subseteq> pendings n"
proof (cases op)
  case (Register config seed)
  then show ?thesis by (auto simp: node_register_def bindN_def no_change_def j_push_def pendings_def)
next
  case (Remove local)
  then show ?thesis by (intro pendings_subset) (auto simp: node_remove_def Let_def)
next
  case (Initiate address session protocol ephemeral retry)
  then show ?thesis using initiate_ok [OF assms(2)] by simp
next
  case (Close h)
  then show ?thesis by (intro pendings_subset) (auto simp: node_close_def)
next
  case TakeOutgoing
  then show ?thesis by (intro pendings_subset) (simp add: node_outgoing_def split: list.splits)
next
  case TakeEvent
  then show ?thesis by (intro pendings_subset) (simp add: node_event_def split: list.splits)
next
  case (Acknowledge h)
  then show ?thesis using acknowledge_ok [OF assms(2), of aes h] by simp
next
  case (Receive address bs now)
  then show ?thesis using receive_ok [OF assms(1,2), of address bs now] by simp
qed (use assms(3,4) in blast)+

text \<open>C14: Retries repeat: as long as a reliable datagram of an exchange waits for its acknowledgement, no call changes its
  bytes or its counter; the wait changes only by a round of \<open>tick\<close> that sends exactly these bytes once more, and at most
  four times.\<close>

theorem retries_identical:
  assumes "is_block_cipher aes" "n = node_run aes ops (node_new counter_seed exchange_seed)"
    and "(h, p) \<in> pendings n" "(h, p') \<in> pendings (node_apply aes op n)"
  shows "pe_bytes p' = pe_bytes p \<and> pe_counter p' = pe_counter p
    \<and> (p' = p \<or> (\<exists>now jitter dg. op = Tick now jitter \<and> pe_attempt p < 4 \<and> pe_attempt p' = pe_attempt p + 1
         \<and> nd_out (node_apply aes op n) = nd_out n @ [dg] \<and> og_bytes dg = pe_bytes p))"
proof -
  have ok: "node_ok n" unfolding assms(2) by (intro run_ok node_ok_new assms(1))
  show ?thesis
  proof (cases "p' = p")
    case False
    have "\<not> pendings (node_apply aes op n) \<subseteq> pendings n" using False assms(3,4) pendings_inject [OF ok] by blast
    then consider now jitter where "op = Tick now jitter" | g opcode body reliable now jitter where "op = Send g opcode body reliable now jitter"
      using other_pendings [OF assms(1) ok, of op] by blast
    then show ?thesis
    proof cases
      case 1
      then show ?thesis using tick_pendings [OF ok assms(3) _ False] assms(4) by fastforce
    next
      case 2
      then show ?thesis using send_pendings [OF ok assms(3)] assms(4) False by simp
    qed
  qed simp
qed

section \<open>Concrete runs\<close>

definition sample_session :: keyed_session where
  "sample_session = \<lparr>ks_local = 17, ks_peer = 18, ks_local_node = 0, ks_peer_node = 0, ks_address = ''a'', ks_outgoing = replicate 16 7,
     ks_incoming = replicate 16 7, ks_timing = \<lparr>tm_idle = 0, tm_active = 0, tm_threshold = 0\<rparr>\<rparr>"

definition sample_message :: "u32 \<Rightarrow> message" where
  "sample_message c = \<lparr>ms_header = header_default\<lparr>fh_session := 17, fh_counter := c\<rparr>,
     ms_protocol = protocol_default\<lparr>xh_initiator := True, xh_opcode := 2, xh_exchange := 456, xh_protocol := 1\<rparr>, ms_payload = [1]\<rparr>"

lemma sample_sealed:
  obtains bs where "message_seal key_mixer (sample_message c) (replicate 16 7) 0 = Inr bs"
proof -
  note e = header_encode_def header_validate_def append_field_def write_ext_def
    protocol_encode_def append_bytes_def header_default_def protocol_default_def sample_message_def MATTER_MAX_def le_word_def Let_def
  have "\<exists>bs. message_seal key_mixer (sample_message c) (replicate 16 7) 0 = Inr bs"
    unfolding message_seal_def
    by (simp add: e header_nonce_def ccm_new_def ccm_seal_def ccm_mac_cbc ccm_crypt_twice [OF key_mixer_block]
        length_counter [OF key_mixer_block] min_def)
  then show ?thesis using that by blast
qed

lemma sample_received:
  assumes "message_seal key_mixer (sample_message c) (replicate 16 7) 0 = Inr bs" "nd_sessions n = [s]" "sc_config s = sample_session"
    "length (nd_events n) \<le> 3" "nd_out n = []"
  shows "receive_message key_mixer ''a'' bs n = Inr (17, Some 0, sample_message c)"
proof -
  have o: "message_open key_mixer bs (replicate 16 7) 0 = Inr (sample_message c)"
    by (rule sealed_message_opens [OF key_mixer_block assms(1)])
  then obtain k where "header_peek bs = Inr (ms_header (sample_message c), k)"
    using message_open_authentic [OF key_mixer_block o] by blast
  moreover have "length bs \<le> MAX_UDP"
    using seal_length [OF key_mixer_block assms(1)]
    by (simp add: sample_message_def header_bytes_def protocol_bytes_def header_default_def protocol_default_def opt_word_def ext_bytes_def MAX_UDP_def)
  ultimately show ?thesis
    using o assms(2-5)
    by (simp add: receive_message_def sample_session_def MAX_EVENTS_def MAX_OUT_def) (simp add: sample_message_def header_default_def protocol_default_def)
qed

abbreviation sample_node :: node where
  "sample_node \<equiv> node_run key_mixer [Register sample_session 3] (node_new 1 0)"

lemmas evaluate = bindN_def no_change_def receive_mark_def replay_mark_def replay_default_def receive_exchange_def node_handle_def
  checked_add_def j_push_def MAX_EXCHANGES_def receive_deliver_def exchange_receive_def sample_message_def header_default_def
  protocol_default_def Let_def

lemma sample_first:
  assumes "message_seal key_mixer (sample_message 1) (replicate 16 7) 0 = Inr bs"
  defines "n \<equiv> node_apply key_mixer (Receive ''a'' bs 0) sample_node"
  shows "nd_sessions n = [\<lparr>sc_config = sample_session, sc_counter = 3, sc_replay = \<lparr>rp_maximum = Some 1, rp_seen = 1\<rparr>, sc_last = Some 0\<rparr>]"
    "nd_exchanges n = [\<lparr>ex_handle = 1, ex_remote = ''a'', ex_session = 17, ex_id = 456, ex_initiator = False, ex_protocol = 1,
       ex_ephemeral = 0, ex_replay = replay_default, ex_ack = None, ex_pending = None, ex_retry = 0\<rparr>]"
    "nd_out n = []" "nd_events n = [EvAccepted 1, EvMessage 1 (sample_message 1)]" "nd_events sample_node = []"
proof -
  have s: "nd_sessions sample_node = [\<lparr>sc_config = sample_session, sc_counter = 3, sc_replay = replay_default, sc_last = None\<rparr>]"
    "nd_exchanges sample_node = []" "nd_out sample_node = []" "nd_events sample_node = []" "nd_next_handle sample_node = 0"
    by (simp_all add: node_run_def node_register_def node_new_def bindN_def no_change_def j_push_def sample_session_def MAX_SESSIONS_def)
  have r: "receive_message key_mixer ''a'' bs sample_node = Inr (17, Some 0, sample_message 1)"
    by (rule sample_received [OF assms(1) s(1)]) (simp_all add: s)
  show "nd_sessions n = [\<lparr>sc_config = sample_session, sc_counter = 3, sc_replay = \<lparr>rp_maximum = Some 1, rp_seen = 1\<rparr>, sc_last = Some 0\<rparr>]"
    "nd_exchanges n = [\<lparr>ex_handle = 1, ex_remote = ''a'', ex_session = 17, ex_id = 456, ex_initiator = False, ex_protocol = 1,
       ex_ephemeral = 0, ex_replay = replay_default, ex_ack = None, ex_pending = None, ex_retry = 0\<rparr>]"
    "nd_out n = []" "nd_events n = [EvAccepted 1, EvMessage 1 (sample_message 1)]" "nd_events sample_node = []"
    unfolding n_def node_apply.simps node_receive_def r by (simp_all add: evaluate s)
qed

lemma sample_second:
  assumes "message_seal key_mixer (sample_message 1) (replicate 16 7) 0 = Inr bs"
    and "message_seal key_mixer (sample_message 2) (replicate 16 7) 0 = Inr bs'"
  defines "n \<equiv> node_apply key_mixer (Receive ''a'' bs 0) sample_node"
  shows "nd_events (node_apply key_mixer (Receive ''a'' bs' 1) n) = nd_events n @ [EvMessage 1 (sample_message 2)]"
proof -
  note s = sample_first [OF assms(1), folded n_def]
  have r: "receive_message key_mixer ''a'' bs' n = Inr (17, Some 0, sample_message 2)"
    by (rule sample_received [OF assms(2) s(1)]) (simp_all add: s)
  show ?thesis unfolding node_apply.simps node_receive_def r by (simp add: evaluate s)
qed

lemma run_single: "node_run aes [op] n = node_apply aes op n"
  by (simp add: node_run_def)

theorem delivered_once_witness:
  "\<exists>bs bs'. delivers key_mixer sample_node (Receive ''a'' bs 0) (sample_message 1)
    \<and> delivers key_mixer (node_run key_mixer [Receive ''a'' bs 0] sample_node) (Receive ''a'' bs' 1) (sample_message 2)
    \<and> fh_counter (ms_header (sample_message 2)) \<noteq> fh_counter (ms_header (sample_message 1))"
proof -
  obtain bs where bs: "message_seal key_mixer (sample_message 1) (replicate 16 7) 0 = Inr bs" by (rule sample_sealed)
  obtain bs' where bs': "message_seal key_mixer (sample_message 2) (replicate 16 7) 0 = Inr bs'" by (rule sample_sealed)
  have first: "delivers key_mixer sample_node (Receive ''a'' bs 0) (sample_message 1)"
    unfolding delivers_def using sample_first(4,5) [OF bs] by auto
  have second: "delivers key_mixer (node_run key_mixer [Receive ''a'' bs 0] sample_node) (Receive ''a'' bs' 1) (sample_message 2)"
    using sample_second [OF bs bs'] by (auto simp: delivers_def run_single)
  have "fh_counter (ms_header (sample_message 2)) \<noteq> fh_counter (ms_header (sample_message 1))"
    by (rule delivered_once [OF key_mixer_block refl first _ _ refl second]) (simp_all add: sample_message_def header_default_def)
  then show ?thesis using first second by blast
qed

definition waiting_ops :: "node_op list" where
  "waiting_ops = [Initiate ''b'' 0 0 99 10, Send 1 0x20 [7] True 0 0]"

lemma waiting_opened:
  "node_apply key_mixer (Initiate ''b'' 0 0 99 10) (node_new 1 0) = (node_new 1 0)\<lparr>nd_next_exchange := 1, nd_next_handle := 1,
     nd_exchanges := [\<lparr>ex_handle = 1, ex_remote = ''b'', ex_session = 0, ex_id = 1, ex_initiator = True, ex_protocol = 0,
       ex_ephemeral = 99, ex_replay = replay_default, ex_ack = None, ex_pending = None, ex_retry = 10\<rparr>]\<rparr>"
  by (simp add: node_initiate_def node_new_def bindN_def no_change_def node_handle_def checked_add_def j_push_def)
    (simp add: MAX_EXCHANGES_def)

definition waiting_pending :: pending where
  "waiting_pending = \<lparr>pe_counter = 2, pe_bytes = [4, 0, 0, 0, 2, 0, 0, 0, 99, 0, 0, 0, 0, 0, 0, 0, 5, 32, 1, 0, 0, 0, 7], pe_attempt = 0, pe_next = 11\<rparr>"

definition waiting_exchange :: "pending \<Rightarrow> exchange" where
  "waiting_exchange p = \<lparr>ex_handle = 1, ex_remote = ''b'', ex_session = 0, ex_id = 1, ex_initiator = True, ex_protocol = 0,
     ex_ephemeral = 99, ex_replay = replay_default, ex_ack = None, ex_pending = Some p, ex_retry = 10\<rparr>"

abbreviation waiting_node :: node where
  "waiting_node \<equiv> node_run key_mixer waiting_ops (node_new 1 0)"

lemma waiting:
  "nd_exchanges waiting_node = [waiting_exchange waiting_pending] \<and> length (nd_out waiting_node) = 1"
  unfolding waiting_ops_def node_run_def fold_simps comp_apply id_apply waiting_opened
  by (simp add: node_send_def bindN_def no_change_def node_position_def node_build_def build_message_def build_unsecured_def
      message_encode_def message_unsecured_def header_encode_def header_validate_def append_field_def write_ext_def
      protocol_encode_def append_bytes_def header_default_def protocol_default_def MATTER_MAX_def le_word_def Let_def le_bytes_numeral
      node_new_def increment_def MAX_UDP_def copy_bytes_def node_queue_out_def queue_push_def MAX_OUT_def node_base_def interval_def
      saturating_mul_def saturating_add_def waiting_exchange_def waiting_pending_def)

theorem retries_identical_witness:
  "(1, waiting_pending) \<in> pendings waiting_node
    \<and> (1, waiting_pending\<lparr>pe_attempt := 1, pe_next := 111\<rparr>) \<in> pendings (node_apply key_mixer (Tick 100 0) waiting_node)
    \<and> (\<exists>dg. nd_out (node_apply key_mixer (Tick 100 0) waiting_node) = nd_out waiting_node @ [dg] \<and> og_bytes dg = pe_bytes waiting_pending)"
proof -
  note w = waiting [THEN conjunct1] waiting [THEN conjunct2]
  let ?p = "waiting_pending\<lparr>pe_attempt := 1, pe_next := 111\<rparr>"
  have first: "(1, waiting_pending) \<in> pendings waiting_node" by (simp add: pendings_def w waiting_exchange_def)
  have "nd_exchanges (node_apply key_mixer (Tick 100 0) waiting_node) = [waiting_exchange ?p]"
    unfolding node_apply.simps node_tick_def w
    by (simp add: waiting_exchange_def waiting_pending_def w bindN_def no_change_def queue_push_def node_queue_out_def MAX_OUT_def
        copy_bytes_def append_bytes_def MATTER_MAX_def node_base_def interval_def saturating_mul_def saturating_add_def)
  then have second: "(1, ?p) \<in> pendings (node_apply key_mixer (Tick 100 0) waiting_node)"
    by (simp add: pendings_def waiting_exchange_def)
  have "?p \<noteq> waiting_pending" by (simp add: waiting_pending_def)
  then show ?thesis using retries_identical [OF key_mixer_block refl first second] first second by blast
qed

theorem node_invariant_witness: "node_ok waiting_node"
  by (rule node_invariant [OF key_mixer_block])

end
