(* ===== verification/Timezone.thy ===== *)
theory Timezone
  imports Calendar Slots
begin

unbundle bit_operations_syntax

text \<open>
  Time zones of the controller, \<^verbatim>\<open>crates/controller/src/timezone.rs\<close>: the TZif tables of the IANA database, the POSIX
  rules that extend them, and the UTC offset of an instant. Shown here: a file that decodes has an offset for every instant
  of the calendar, and a rule \<open>Mm.w.d\<close> names the \<open>w\<close>-th weekday \<open>d\<close> of the month, or the last one.
  Lengths are \<open>nat\<close> with the checks of \<open>usize\<close> at 64 bits; \<open>i32\<close> and \<open>i64\<close> are integers, read from their words.
\<close>

section \<open>State\<close>

record zone =
  zn_offset :: int
  zn_dst :: bool

record transition =
  tr_at :: int
  tr_zone :: nat

datatype rule_kind =
    Julian int
  | Day int
  | Month int int int

record tz_rule =
  ru_kind :: rule_kind
  ru_seconds :: int

record tz_extension =
  te_std :: int
  te_dst :: int
  te_rules :: "(tz_rule \<times> tz_rule) option"

record timezone =
  tz_zones :: "zone list"
  tz_transitions :: "transition list"
  tz_extend :: "tz_extension option"

section \<open>Rules\<close>

definition rule_at :: "tz_rule \<Rightarrow> int \<Rightarrow> int \<Rightarrow> int result" where
  "rule_at r year offset =
     bindR (midnight year 1 1) (\<lambda>first.
     bindR (case ru_kind r of
              Julian day \<Rightarrow> Inr (day - 1 + (if leap year \<and> 60 \<le> day then 1 else 0))
            | Day day \<Rightarrow> Inr day
            | Month month week day \<Rightarrow>
                bindR (midnight year month 1) (\<lambda>start.
                let weekday = (start div 86400 + 4) mod 7;
                    d = (day - weekday) mod 7 + 7 * (week - 1);
                    d = (if month_days year month \<le> d then d - 7 else d) in
                Inr ((start - first) div 86400 + d))) (\<lambda>days.
     Inr (first + days * 86400 + ru_seconds r - offset)))"

definition extension_offset :: "tz_extension \<Rightarrow> int \<Rightarrow> int result" where
  "extension_offset x unix = (case te_rules x of
     None \<Rightarrow> Inr (te_std x)
   | Some (start, stop) \<Rightarrow>
       bindR (civil unix 0) (\<lambda>c.
       bindR (rule_at start (c_year c) (te_std x)) (\<lambda>start.
       bindR (rule_at stop (c_year c) (te_dst x)) (\<lambda>stop.
       let daylight = (if start < stop then start \<le> unix \<and> unix < stop else start \<le> unix \<or> unix < stop) in
       Inr (if daylight then te_dst x else te_std x)))))"

section \<open>Reading a rule\<close>

definition eat :: "char \<Rightarrow> string \<Rightarrow> bool \<times> string" where
  "eat c s = (case s of x # tail \<Rightarrow> if x = c then (True, tail) else (False, s) | [] \<Rightarrow> (False, s))"

definition require :: "char \<Rightarrow> string \<Rightarrow> string result" where
  "require c s = (case eat c s of (True, s) \<Rightarrow> Inr s | (False, _) \<Rightarrow> Inl (Invalid ''invalid timezone rule''))"

definition tz_number :: "int \<Rightarrow> int \<Rightarrow> string \<Rightarrow> (int \<times> string) result" where
  "tz_number low high s =
     (let digits = takeWhile is_digit s; rest = dropWhile is_digit s in
      if digits = [] \<or> 2 ^ 31 \<le> read_dec digits then Inl (Invalid ''invalid timezone number'')
      else if \<not> (low \<le> read_dec digits \<and> read_dec digits \<le> high) then Inl (Invalid ''timezone number out of range'')
      else Inr (read_dec digits, rest))"

definition tz_name :: "string \<Rightarrow> string result" where
  "tz_name s = (case eat (CHR ''<'') s of
     (True, s) \<Rightarrow>
       if CHR ''>'' \<notin> set s then Inl (Invalid ''invalid timezone name'')
       else let name = takeWhile (\<lambda>c. c \<noteq> CHR ''>'') s in
            if name = [] then Inl (Invalid ''empty timezone name'') else Inr (drop (length name + 1) s)
   | (False, s) \<Rightarrow>
       let n = length (takeWhile (\<lambda>b. \<not> is_digit b \<and> b \<notin> {CHR '','', CHR ''+'', CHR ''-''}) s) in
       if n < 3 then Inl (Invalid ''invalid timezone name'') else Inr (drop n s))"

definition tz_offset_text :: "string \<Rightarrow> (int \<times> string) result" where
  "tz_offset_text s =
     (let (minus, s) = eat (CHR ''-'') s;
          sign = (if minus then - 1 else 1);
          s = (if minus then s else snd (eat (CHR ''+'') s)) in
      bindR (tz_number 0 168 s) (\<lambda>(h, s).
      let n = h * 3600 in
      case eat (CHR '':'') s of
        (False, s) \<Rightarrow> Inr (sign * n, s)
      | (True, s) \<Rightarrow>
          bindR (tz_number 0 59 s) (\<lambda>(m, s).
          let n = n + m * 60 in
          case eat (CHR '':'') s of
            (False, s) \<Rightarrow> Inr (sign * n, s)
          | (True, s) \<Rightarrow> bindR (tz_number 0 59 s) (\<lambda>(sec, s). Inr (sign * (n + sec), s)))))"

definition tz_rule_kind :: "string \<Rightarrow> (rule_kind \<times> string) result" where
  "tz_rule_kind s = (case eat (CHR ''J'') s of
     (True, s) \<Rightarrow> bindR (tz_number 1 365 s) (\<lambda>(day, s). Inr (Julian day, s))
   | (False, s) \<Rightarrow> (case eat (CHR ''M'') s of
       (True, s) \<Rightarrow>
         bindR (tz_number 1 12 s) (\<lambda>(month, s).
         bindR (require (CHR ''.'') s) (\<lambda>s.
         bindR (tz_number 1 5 s) (\<lambda>(week, s).
         bindR (require (CHR ''.'') s) (\<lambda>s.
         bindR (tz_number 0 6 s) (\<lambda>(day, s). Inr (Month month week day, s))))))
     | (False, s) \<Rightarrow> bindR (tz_number 0 365 s) (\<lambda>(day, s). Inr (Day day, s))))"

definition tz_rule_text :: "string \<Rightarrow> (tz_rule \<times> string) result" where
  "tz_rule_text s =
     bindR (tz_rule_kind s) (\<lambda>(kind, s).
     case eat (CHR ''/'') s of
       (True, s) \<Rightarrow> bindR (tz_offset_text s) (\<lambda>(seconds, s). Inr (\<lparr>ru_kind = kind, ru_seconds = seconds\<rparr>, s))
     | (False, s) \<Rightarrow> Inr (\<lparr>ru_kind = kind, ru_seconds = 7200\<rparr>, s))"

definition extension_parse :: "string \<Rightarrow> tz_extension result" where
  "extension_parse s =
     bindR (tz_name s) (\<lambda>s.
     bindR (tz_offset_text s) (\<lambda>(n, s).
     let std = - n; bare = (\<lambda>s. s = [] \<or> hd s = CHR '','') in
     if bare s then Inr \<lparr>te_std = std, te_dst = std, te_rules = None\<rparr>
     else bindR (tz_name s) (\<lambda>s.
     bindR (if bare s then Inr (std + 3600, s) else bindR (tz_offset_text s) (\<lambda>(n, s). Inr (- n, s))) (\<lambda>(dst, s).
     let s = (if s = [] then '',M3.2.0,M11.1.0'' else s) in
     bindR (case eat (CHR '','') s of (True, s) \<Rightarrow> Inr s | (False, s) \<Rightarrow> require (CHR '';'') s) (\<lambda>s.
     bindR (tz_rule_text s) (\<lambda>(start, s).
     bindR (require (CHR '','') s) (\<lambda>s.
     bindR (tz_rule_text s) (\<lambda>(stop, s).
     if s \<noteq> [] then Inl (Invalid ''invalid timezone extension suffix'')
     else Inr \<lparr>te_std = std, te_dst = dst, te_rules = Some (start, stop)\<rparr>))))))))"

section \<open>Reading a file\<close>

text \<open>\<open>slice::get(a..b)\<close>, \<open>from_be_bytes\<close>, and the checked operations of \<open>usize\<close>.\<close>

definition slice_get :: "nat \<Rightarrow> nat \<Rightarrow> bytes \<Rightarrow> bytes option" where
  "slice_get a b bs = (if a \<le> b \<and> b \<le> length bs then Some (take (b - a) (drop a bs)) else None)"

definition byte_get :: "nat \<Rightarrow> bytes \<Rightarrow> u8 option" where
  "byte_get i bs = (if i < length bs then Some (bs ! i) else None)"

definition be_u32 :: "bytes \<Rightarrow> nat" where
  "be_u32 bs = le_nat (rev bs)"

definition be_i32 :: "bytes \<Rightarrow> int" where
  "be_i32 bs = sint (word_of_nat (le_nat (rev bs)) :: 32 word)"

definition be_i64 :: "bytes \<Rightarrow> int" where
  "be_i64 bs = sint (word_of_nat (le_nat (rev bs)) :: 64 word)"

definition usize_ok :: "nat \<Rightarrow> nat option" where
  "usize_ok n = (if n < 2 ^ 64 then Some n else None)"

record tz_counts =
  tc_ut :: nat
  tc_std :: nat
  tc_leap :: nat
  tc_time :: nat
  tc_types :: nat
  tc_chars :: nat

definition tz_header :: "bytes \<Rightarrow> nat \<Rightarrow> (u8 \<times> tz_counts) result" where
  "tz_header b start =
     bindR (ok_or (usize_ok (start + 44)) Full) (\<lambda>stop.
     bindR (ok_or (slice_get start stop b) (Invalid ''truncated timezone header'')) (\<lambda>h.
     if take 4 h \<noteq> as_bytes ''TZif'' then Inl (Invalid ''invalid timezone header'')
     else let count = (\<lambda>i. be_u32 (take 4 (drop (20 + i * 4) h))) in
          Inr (h ! 4, \<lparr>tc_ut = count 0, tc_std = count 1, tc_leap = count 2, tc_time = count 3, tc_types = count 4, tc_chars = count 5\<rparr>)))"

definition bindO :: "'a option \<Rightarrow> ('a \<Rightarrow> 'b option) \<Rightarrow> 'b option" where
  "bindO m f = (case m of None \<Rightarrow> None | Some a \<Rightarrow> f a)"

definition tz_size :: "tz_counts \<Rightarrow> nat \<Rightarrow> nat result" where
  "tz_size c width =
     ok_or (bindO (usize_ok (tc_time c * (width + 1))) (\<lambda>s.
            bindO (usize_ok (tc_types c * 6)) (\<lambda>t.
            bindO (usize_ok (s + t)) (\<lambda>s.
            bindO (usize_ok (s + tc_chars c)) (\<lambda>s.
            bindO (usize_ok (tc_leap c * (width + 4))) (\<lambda>l.
            bindO (usize_ok (s + l)) (\<lambda>s.
            bindO (usize_ok (s + tc_std c)) (\<lambda>s.
            usize_ok (s + tc_ut c)))))))) ) Full"

definition read_zone :: "bytes \<Rightarrow> bytes \<Rightarrow> nat \<Rightarrow> nat \<Rightarrow> zone list \<Rightarrow> zone list result" where
  "read_zone block strings zone_start i zones =
     (let p = zone_start + i * 6 in
      bindR (ok_or (slice_get p (p + 4) block) Full) (\<lambda>b.
      bindR (ok_or (byte_get (p + 4) block) Full) (\<lambda>dst.
      bindR (ok_or (byte_get (p + 5) block) Full) (\<lambda>name.
      if 1 < dst \<or> length strings < unat name \<or> 0 \<notin> set (drop (unat name) strings) then Inl (Invalid ''invalid timezone type'')
      else j_push zones \<lparr>zn_offset = be_i32 b, zn_dst = (dst \<noteq> 0)\<rparr> 256))))"

definition read_transition :: "bytes \<Rightarrow> nat \<Rightarrow> nat \<Rightarrow> nat \<Rightarrow> nat \<Rightarrow> transition list \<Rightarrow> transition list result" where
  "read_transition block width ticks types i transitions =
     bindR (ok_or (slice_get (i * width) ((i + 1) * width) block) Full) (\<lambda>b.
     let at = (if width = 8 then be_i64 b else be_i32 b) in
     bindR (ok_or (byte_get (ticks * width + i) block) Full) (\<lambda>z.
     if types \<le> unat z \<or> transitions \<noteq> [] \<and> at \<le> tr_at (last transitions) then Inl (Invalid ''invalid timezone transition'')
     else j_push transitions \<lparr>tr_at = at, tr_zone = unat z\<rparr> 100000))"

text \<open>The bytes after the tables: a line between two newlines.\<close>

definition tz_footer :: "bytes \<Rightarrow> tz_extension option result" where
  "tz_footer s = (case s of
     [] \<Rightarrow> Inr None
   | b # s \<Rightarrow>
       if b \<noteq> 10 \<or> s = [] \<or> last s \<noteq> 10 \<or> butlast s = [] then Inr None
       else let rule = map char_of_byte (butlast s) in
            if \<not> utf8_valid rule then Inl (Invalid ''invalid timezone extension'')
            else bindR (extension_parse rule) (\<lambda>x. Inr (Some x)))"

definition timezone_tables :: "bytes \<Rightarrow> nat \<Rightarrow> nat \<Rightarrow> tz_counts \<Rightarrow> timezone result" where
  "timezone_tables bs start width c =
     bindR (tz_size c width) (\<lambda>n.
     bindR (ok_or (usize_ok (start + n)) Full) (\<lambda>stop.
     bindR (ok_or (slice_get start stop bs) (Invalid ''truncated timezone'')) (\<lambda>block.
     if tc_types c = 0 \<or> 256 < tc_types c \<or> 100000 < tc_time c then Inl (Invalid ''invalid timezone counts'')
     else let zone_start = tc_time c * (width + 1) in
     bindR (ok_or (slice_get (zone_start + tc_types c * 6) (zone_start + tc_types c * 6 + tc_chars c) block)
              (Invalid ''timezone names missing'')) (\<lambda>strings.
     bindR (foldR (read_zone block strings zone_start) [0..<tc_types c] []) (\<lambda>zones.
     bindR (foldR (read_transition block width (tc_time c) (tc_types c)) [0..<tc_time c] []) (\<lambda>transitions.
     bindR (tz_footer (drop stop bs)) (\<lambda>extend.
     Inr \<lparr>tz_zones = zones, tz_transitions = transitions, tz_extend = extend\<rparr>)))))))"

definition timezone_decode :: "bytes \<Rightarrow> timezone result" where
  "timezone_decode bs =
     bindR (tz_header bs 0) (\<lambda>(version, counts).
     if version \<in> {0x32, 0x33, 0x34}
     then bindR (tz_size counts 4) (\<lambda>n.
          bindR (ok_or (usize_ok (44 + n)) Full) (\<lambda>next.
          bindR (tz_header bs next) (\<lambda>(_, c). timezone_tables bs (next + 44) 8 c)))
     else if version = 0 then timezone_tables bs 44 4 counts
     else Inl (Invalid ''unsupported timezone format''))"

section \<open>The offset of an instant\<close>

definition tz_first :: "timezone \<Rightarrow> nat" where
  "tz_first tz =
     (if \<not> list_ex (\<lambda>t. tr_zone t = 0) (tz_transitions tz) then 0
      else let standard = (\<lambda>i. i < length (tz_zones tz) \<and> \<not> zn_dst (tz_zones tz ! i)) in
      case (case tz_transitions tz of
              t # _ \<Rightarrow> if tr_zone t < length (tz_zones tz) \<and> zn_dst (tz_zones tz ! tr_zone t)
                      then find standard (rev [0..<tr_zone t]) else None
            | [] \<Rightarrow> None) of
        Some i \<Rightarrow> i
      | None \<Rightarrow> (case position (\<lambda>z. \<not> zn_dst z) (tz_zones tz) of Some i \<Rightarrow> i | None \<Rightarrow> 0))"

text \<open>\<open>partition_point\<close> on the transitions, which \<open>decode\<close> only accepts in increasing order.\<close>

definition tz_offset :: "timezone \<Rightarrow> int \<Rightarrow> int result" where
  "tz_offset tz unix =
     (if tz_zones tz = [] then Inr 0
      else case (if tz_transitions tz = [] \<or> tr_at (last (tz_transitions tz)) \<le> unix then tz_extend tz else None) of
        Some x \<Rightarrow> extension_offset x unix
      | None \<Rightarrow>
          let i = length (takeWhile (\<lambda>t. tr_at t \<le> unix) (tz_transitions tz)) in
          bindR (if 0 < i then ok_or (if i - 1 < length (tz_transitions tz) then Some (tr_zone (tz_transitions tz ! (i - 1))) else None) Full
                 else Inr (tz_first tz)) (\<lambda>index.
          bindR (ok_or (if index < length (tz_zones tz) then Some (tz_zones tz ! index) else None) (Invalid ''timezone type missing'')) (\<lambda>z.
          Inr (zn_offset z))))"

definition tz_local :: "timezone \<Rightarrow> int \<Rightarrow> civil_time result" where
  "tz_local tz unix = bindR (tz_offset tz unix) (civil unix)"

section \<open>Rules name days\<close>

text \<open>The weekday of a midnight, Sunday being 0: 1 January 1970 was a Thursday.\<close>

definition weekday_of :: "int \<Rightarrow> int" where
  "weekday_of t = (t div 86400 + 4) mod 7"

lemma day_number_linear: "day_number y m d = day_number y m 1 + (d - 1)"
  by (simp add: day_number_eq)

lemma month_days_range: "1 \<le> m \<Longrightarrow> m \<le> 12 \<Longrightarrow> 28 \<le> month_days y m \<and> month_days y m \<le> 31"
proof -
  assume "1 \<le> m" "m \<le> 12"
  then have "m \<in> {1, 3, 5, 7, 8, 10, 12} \<or> m \<in> {4, 6, 9, 11} \<or> m = 2" by auto presburger
  then show ?thesis by (auto simp: month_days_def)
qed

lemma weekday_shift:
  fixes n d k :: int
  assumes "0 \<le> d" "d \<le> 6"
  shows "(n + (d - n mod 7) mod 7 + 7 * k) mod 7 = d"
  using assms by presburger

text \<open>C40: A rule \<open>Mm.w.d\<close> names, in every year of the calendar, a day of month \<open>m\<close> that is weekday \<open>d\<close>: the \<open>w\<close>-th one for
  \<open>w\<close> up to four and the last one for five; the rule fires at its seconds after local midnight of that day.\<close>

theorem month_rule_exact:
  assumes "1 \<le> year" "year \<le> 9999" "ru_kind r = Month m w d" "1 \<le> m" "m \<le> 12" "1 \<le> w" "w \<le> 5" "0 \<le> d" "d \<le> 6"
  shows "\<exists>day t. valid_date year m day \<and> midnight year m day = Inr t \<and> weekday_of t = d
    \<and> (if w < 5 then 7 * (w - 1) < day \<and> day \<le> 7 * w else month_days year m < day + 7)
    \<and> rule_at r year offset = Inr (t + ru_seconds r - offset)"
proof -
  note md = month_days_range [OF assms(4,5), of year]
  have jan: "midnight year 1 1 = Inr (day_number year 1 1 * 86400)"
    using assms(1,2) by (simp add: midnight_eq month_days_def)
  have first: "midnight year m 1 = Inr (day_number year m 1 * 86400)"
    using assms(1,2) md by (simp add: midnight_eq)
  define n where "n = day_number year m 1"
  define e where "e = (d - (n + 4) mod 7) mod 7"
  have e: "0 \<le> e" "e \<le> 6" by (simp_all add: e_def)
  define k where "k = (if month_days year m \<le> e + 7 * (w - 1) then w - 2 else w - 1)"
  have k: "k = w - 1 \<and> e + 7 * (w - 1) < month_days year m \<or> w = 5 \<and> k = 3 \<and> month_days year m \<le> e + 28"
    using e md assms(6,7) by (auto simp: k_def)
  define day where "day = e + 7 * k + 1"
  have v: "valid_date year m day" using assms(1,2,4-7) e md k by (auto simp: valid_date_def day_def)
  have t: "midnight year m day = Inr ((n + (e + 7 * k)) * 86400)"
  proof -
    have "day_number year m day = n + (e + 7 * k)" using day_number_linear [of year m day] by (simp add: n_def day_def)
    then show ?thesis using v by (auto simp: midnight_eq valid_date_def)
  qed
  have wd: "weekday_of ((n + (e + 7 * k)) * 86400) = d"
    using weekday_shift [OF assms(8,9), of "n + 4" k] by (simp add: weekday_of_def e_def algebra_simps)
  have "rule_at r year offset = Inr ((n + (e + 7 * k)) * 86400 + ru_seconds r - offset)"
  proof -
    have s: "n * 86400 div 86400 = n" "(n * 86400 - j * 86400) div 86400 = n - j" for j
      using nonzero_mult_div_cancel_right [of 86400 "n - j"] by (simp_all add: left_diff_distrib)
    have d: "(if month_days year m \<le> e + 7 * (w - 1) then e + 7 * (w - 1) - 7 else e + 7 * (w - 1)) = e + 7 * k"
      by (simp add: k_def)
    show ?thesis
      unfolding rule_at_def assms(3) rule_kind.case jan first n_def [symmetric] bindR_simps Let_def s e_def [symmetric] d
      by (simp add: algebra_simps)
  qed
  moreover have "if w < 5 then 7 * (w - 1) < day \<and> day \<le> 7 * w else month_days year m < day + 7"
    using k e md assms(7) by (auto simp: day_def)
  ultimately show ?thesis using v t wd by blast
qed

theorem month_rule_exact_witness:
  "\<exists>day t. valid_date 2024 3 day \<and> midnight 2024 3 day = Inr t \<and> weekday_of t = 0 \<and> month_days 2024 3 < day + 7
    \<and> rule_at \<lparr>ru_kind = Month 3 5 0, ru_seconds = 7200\<rparr> 2024 3600 = Inr (t + 7200 - 3600)"
  using month_rule_exact [of 2024 "\<lparr>ru_kind = Month 3 5 0, ru_seconds = 7200\<rparr>" 3 5 0 3600] by simp

section \<open>A decoded file answers\<close>

definition kind_ok :: "rule_kind \<Rightarrow> bool" where
  "kind_ok k = (case k of Month m w d \<Rightarrow> 1 \<le> m \<and> m \<le> 12 \<and> 1 \<le> w \<and> w \<le> 5 \<and> 0 \<le> d \<and> d \<le> 6
     | Julian d \<Rightarrow> 1 \<le> d \<and> d \<le> 365 | Day d \<Rightarrow> 0 \<le> d \<and> d \<le> 365)"

definition timezone_ok :: "timezone \<Rightarrow> bool" where
  "timezone_ok tz \<longleftrightarrow> tz_zones tz \<noteq> [] \<and> list_all (\<lambda>t. tr_zone t < length (tz_zones tz)) (tz_transitions tz)
     \<and> sorted_wrt (\<lambda>a b. tr_at a < tr_at b) (tz_transitions tz)
     \<and> (\<forall>x start stop. tz_extend tz = Some x \<and> te_rules x = Some (start, stop) \<longrightarrow> kind_ok (ru_kind start) \<and> kind_ok (ru_kind stop))"

lemma tz_number_range: "tz_number low high s = Inr (n, s') \<Longrightarrow> low \<le> n \<and> n \<le> high"
  by (auto simp: tz_number_def Let_def split: if_splits)

lemma rule_kind_ok: "tz_rule_kind s = Inr (k, s') \<Longrightarrow> kind_ok k"
  by (auto simp: tz_rule_kind_def kind_ok_def result_iff dest!: tz_number_range split: bool.splits prod.splits)

lemma rule_text_ok: "tz_rule_text s = Inr (r, s') \<Longrightarrow> kind_ok (ru_kind r)"
  unfolding tz_rule_text_def
  by (cases "tz_rule_kind s"; cases "eat (CHR ''/'') (snd (projr (tz_rule_kind s)))")
    (auto simp: result_iff dest!: rule_kind_ok split: bool.splits)

lemma extension_ok: "extension_parse s = Inr x \<Longrightarrow> te_rules x = Some (start, stop) \<Longrightarrow> kind_ok (ru_kind start) \<and> kind_ok (ru_kind stop)"
  by (auto simp: extension_parse_def result_iff Let_def dest!: rule_text_ok split: if_splits)

lemma footer_ok: "tz_footer s = Inr (Some x) \<Longrightarrow> te_rules x = Some (start, stop) \<Longrightarrow> kind_ok (ru_kind start) \<and> kind_ok (ru_kind stop)"
  by (auto simp: tz_footer_def result_iff Let_def dest: extension_ok split: list.splits if_splits)

lemma read_zones_length:
  assumes "foldR (read_zone block strings zone_start) [0..<n] [] = Inr zones"
  shows "length zones = n"
proof -
  have "length out = length acc + length is" if "foldR (read_zone block strings zone_start) is acc = Inr out" for "is" acc out
    using that
  proof (induction "is" arbitrary: acc)
    case (Cons i "is")
    then obtain acc' where a: "read_zone block strings zone_start i acc = Inr acc'" "foldR (read_zone block strings zone_start) is acc' = Inr out"
      by (auto simp: result_iff)
    then have "length acc' = Suc (length acc)" by (auto simp: read_zone_def result_iff Let_def j_push_def split: if_splits)
    then show ?case using Cons.IH [OF a(2)] by simp
  qed simp
  from this [OF assms] show ?thesis by simp
qed

lemma read_transitions_ok:
  assumes "foldR (read_transition block width ticks types) is [] = Inr out"
  shows "list_all (\<lambda>t. tr_zone t < types) out \<and> sorted_wrt (\<lambda>a b. tr_at a < tr_at b) out"
proof (rule foldR_inv [OF assms, where P = "\<lambda>ts. list_all (\<lambda>t. tr_zone t < types) ts \<and> sorted_wrt (\<lambda>a b. tr_at a < tr_at b) ts"])
  fix i ts ts'
  assume ts: "list_all (\<lambda>t. tr_zone t < types) ts \<and> sorted_wrt (\<lambda>a b. tr_at a < tr_at b) ts"
    and r: "read_transition block width ticks types i ts = Inr ts'"
  then obtain at z where z: "ts' = ts @ [\<lparr>tr_at = at, tr_zone = z\<rparr>]" "z < types" "ts = [] \<or> tr_at (last ts) < at"
    by (auto simp: read_transition_def result_iff Let_def j_push_def not_le split: if_splits)
  have "tr_at t < at" if "t \<in> set ts" for t
  proof -
    have "ts \<noteq> []" using that by auto
    then have s: "ts = butlast ts @ [last ts]" by simp
    then have "t = last ts \<or> tr_at t < tr_at (last ts)"
      using that ts by (metis UnE append_Nil list.set(1,2) set_append singletonD sorted_wrt_append last_in_set list.set_intros(1))
    then show ?thesis using z(3) \<open>ts \<noteq> []\<close> by auto
  qed
  then show "list_all (\<lambda>t. tr_zone t < types) ts' \<and> sorted_wrt (\<lambda>a b. tr_at a < tr_at b) ts'"
    using ts z by (simp add: sorted_wrt_append)
qed simp

lemma tables_ok:
  assumes "timezone_tables bs start width c = Inr tz"
  shows "timezone_ok tz"
proof -
  obtain block strings stop where t: "tc_types c \<noteq> 0"
    and z: "foldR (read_zone block strings (tc_time c * (width + 1))) [0..<tc_types c] [] = Inr (tz_zones tz)"
    and tr: "foldR (read_transition block width (tc_time c) (tc_types c)) [0..<tc_time c] [] = Inr (tz_transitions tz)"
    and f: "tz_footer (drop stop bs) = Inr (tz_extend tz)"
    using assms by (auto simp: timezone_tables_def result_iff Let_def split: if_splits)
  have l: "length (tz_zones tz) = tc_types c" by (rule read_zones_length [OF z])
  then have "tz_zones tz \<noteq> []" using t by auto
  moreover have "list_all (\<lambda>x. tr_zone x < length (tz_zones tz)) (tz_transitions tz)"
    "sorted_wrt (\<lambda>a b. tr_at a < tr_at b) (tz_transitions tz)"
    using read_transitions_ok [OF tr] by (simp_all add: l)
  moreover have "kind_ok (ru_kind first) \<and> kind_ok (ru_kind second)"
    if "tz_extend tz = Some x" "te_rules x = Some (first, second)" for x first second
    using footer_ok that f by simp
  ultimately show ?thesis unfolding timezone_ok_def by blast
qed

lemma decode_ok: "timezone_decode bs = Inr tz \<Longrightarrow> timezone_ok tz"
  by (auto simp: timezone_decode_def result_iff dest: tables_ok split: if_splits)

lemma rule_at_total:
  assumes "1 \<le> year" "year \<le> 9999" "kind_ok (ru_kind r)"
  shows "\<exists>t. rule_at r year offset = Inr t"
proof -
  have m: "\<exists>t. midnight year m 1 = Inr t" if "1 \<le> m" "m \<le> 12" for m
    using month_days_range [OF that, of year] assms(1,2) by (simp add: midnight_eq)
  obtain first where first: "midnight year 1 1 = Inr first" using m [of 1] by auto
  show ?thesis
  proof (cases "ru_kind r")
    case (Month mo w d)
    then obtain start where "midnight year mo 1 = Inr start" using m [of mo] assms(3) by (auto simp: kind_ok_def)
    then show ?thesis using first Month by (simp add: rule_at_def Let_def)
  qed (use first in \<open>simp_all add: rule_at_def\<close>)
qed

lemma extension_total:
  assumes "civil unix 0 = Inr c" "\<And>start stop. te_rules x = Some (start, stop) \<Longrightarrow> kind_ok (ru_kind start) \<and> kind_ok (ru_kind stop)"
  shows "\<exists>off. extension_offset x unix = Inr off"
proof (cases "te_rules x")
  case (Some rules)
  obtain start stop where r: "rules = (start, stop)" by (cases rules)
  have k: "kind_ok (ru_kind start)" "kind_ok (ru_kind stop)" using assms(2) [of start stop] Some r by simp_all
  have y: "1 \<le> c_year c" "c_year c \<le> 9999" using assms(1)
    by (cases "civil_from_days (unix div 86400)"; auto simp: civil_eq result_iff checked_i64_def split: if_splits)+
  obtain a where "rule_at start (c_year c) (te_std x) = Inr a" using rule_at_total [OF y k(1), of "te_std x"] by (rule exE)
  moreover obtain b where "rule_at stop (c_year c) (te_dst x) = Inr b" using rule_at_total [OF y k(2), of "te_dst x"] by (rule exE)
  ultimately show ?thesis using Some r assms(1) by (simp add: extension_offset_def Let_def)
qed (simp add: extension_offset_def)

lemma first_less: "timezone_ok tz \<Longrightarrow> tz_first tz < length (tz_zones tz)"
  by (auto simp: timezone_ok_def tz_first_def Let_def find_Some_iff dest: position_SomeD split: list.splits option.splits if_splits)

lemma takeWhile_sorted:
  assumes "sorted_wrt (\<lambda>a b. tr_at a < tr_at b) ts" "i < length ts" "tr_at (ts ! i) \<le> unix"
    and "Suc i < length ts \<longrightarrow> unix < tr_at (ts ! Suc i)"
  shows "length (takeWhile (\<lambda>t. tr_at t \<le> unix) ts) = Suc i"
proof -
  have "takeWhile (\<lambda>t. tr_at t \<le> unix) ts = take (Suc i) ts"
  proof (rule takeWhile_eq_take_P_nth)
    fix j
    assume "j < Suc i" "j < length ts"
    then have "tr_at (ts ! j) \<le> tr_at (ts ! i)"
      using assms(1,2) by (cases "j = i") (auto simp: sorted_wrt_iff_nth_less less_imp_le)
    then show "tr_at (ts ! j) \<le> unix" using assms(3) by simp
  qed (use assms(4) in simp)
  then show ?thesis using assms(2) by simp
qed

text \<open>A TZif file that decodes answers for every instant of the calendar: the offset is defined, and where the table
  decides, it is the one of the latest transition at or before the instant.\<close>

theorem timezone_offset_total:
  assumes "timezone_decode bs = Inr tz" "civil unix 0 = Inr c"
  shows "(\<exists>off. tz_offset tz unix = Inr off)
    \<and> (\<forall>i. i < length (tz_transitions tz) \<and> tr_at (tz_transitions tz ! i) \<le> unix
         \<and> (if Suc i < length (tz_transitions tz) then unix < tr_at (tz_transitions tz ! Suc i) else tz_extend tz = None)
         \<longrightarrow> tz_offset tz unix = Inr (zn_offset (tz_zones tz ! tr_zone (tz_transitions tz ! i))))"
proof -
  note ok = decode_ok [OF assms(1)]
  let ?ts = "tz_transitions tz" and ?zs = "tz_zones tz"
  have zs: "?zs \<noteq> []" and tr: "\<And>i. i < length ?ts \<Longrightarrow> tr_zone (?ts ! i) < length ?zs"
    and sorted: "sorted_wrt (\<lambda>a b. tr_at a < tr_at b) ?ts"
    using ok by (auto simp: timezone_ok_def list_all_length)
  let ?k = "length (takeWhile (\<lambda>t. tr_at t \<le> unix) ?ts)"
  have table: "tz_offset tz unix = Inr (zn_offset (?zs ! (if 0 < ?k then tr_zone (?ts ! (?k - 1)) else tz_first tz)))"
    if "(if ?ts = [] \<or> tr_at (last ?ts) \<le> unix then tz_extend tz else None) = None"
  proof -
    have k: "0 < ?k \<Longrightarrow> ?k - 1 < length ?ts" using length_takeWhile_le [of "\<lambda>t. tr_at t \<le> unix" ?ts] by linarith
    show ?thesis unfolding tz_offset_def that using zs k tr first_less [OF ok] by (auto simp: Let_def)
  qed
  have "\<exists>off. tz_offset tz unix = Inr off"
  proof (cases "if ?ts = [] \<or> tr_at (last ?ts) \<le> unix then tz_extend tz else None")
    case None
    then show ?thesis using table by blast
  next
    case (Some x)
    then have "tz_extend tz = Some x" by (simp split: if_splits)
    then have "\<exists>off. extension_offset x unix = Inr off"
      using ok unfolding timezone_ok_def by (intro extension_total [OF assms(2)]) simp
    then show ?thesis unfolding tz_offset_def Some using zs by simp
  qed
  moreover have "tz_offset tz unix = Inr (zn_offset (?zs ! tr_zone (?ts ! i)))"
    if i: "i < length ?ts" "tr_at (?ts ! i) \<le> unix"
      "if Suc i < length ?ts then unix < tr_at (?ts ! Suc i) else tz_extend tz = None" for i
  proof -
    have k: "?k = Suc i" using i by (intro takeWhile_sorted [OF sorted]) (auto split: if_splits)
    have "(if ?ts = [] \<or> tr_at (last ?ts) \<le> unix then tz_extend tz else None) = None"
    proof (cases "Suc i < length ?ts")
      case True
      then have e: "last ?ts = ?ts ! (length ?ts - 1)" by (intro last_conv_nth) auto
      have "tr_at (?ts ! Suc i) \<le> tr_at (last ?ts)"
      proof (cases "Suc i = length ?ts - 1")
        case False
        then have "Suc i < length ?ts - 1" "length ?ts - 1 < length ?ts" using True by linarith+
        then show ?thesis using sorted_wrt_nth_less [OF sorted] e by (simp add: less_imp_le)
      qed (use e in simp)
      then show ?thesis using True i(3) by auto
    qed (use i in simp)
    then show ?thesis using table k by simp
  qed
  ultimately show ?thesis by blast
qed

definition sample_file :: bytes where
  "sample_file = as_bytes ''TZif'' @ replicate 16 0 @ replicate 12 0 @ [0, 0, 0, 1] @ [0, 0, 0, 2] @ [0, 0, 0, 2]
     @ [0, 0, 3, 232] @ [1] @ [0, 0, 14, 16, 0, 0] @ [0, 0, 28, 32, 1, 0] @ [65, 0]"

definition sample_zone :: timezone where
  "sample_zone = \<lparr>tz_zones = [\<lparr>zn_offset = 3600, zn_dst = False\<rparr>, \<lparr>zn_offset = 7200, zn_dst = True\<rparr>],
     tz_transitions = [\<lparr>tr_at = 1000, tr_zone = 1\<rparr>], tz_extend = None\<rparr>"

lemma sample_decodes: "timezone_decode sample_file = Inr sample_zone"
proof -
  let ?c = "\<lparr>tc_ut = 0, tc_std = 0, tc_leap = 0, tc_time = 1, tc_types = 2, tc_chars = 2\<rparr>"
  have f: "sample_file = [84, 90, 105, 102, 0, 0, 0, 0, 0, 0, 0, 0, 0, 0, 0, 0, 0, 0, 0, 0, 0, 0, 0, 0, 0, 0, 0, 0, 0, 0, 0, 0,
      0, 0, 0, 1, 0, 0, 0, 2, 0, 0, 0, 2, 0, 0, 3, 232, 1, 0, 0, 14, 16, 0, 0, 0, 0, 28, 32, 1, 0, 65, 0]"
    by code_simp
  have h: "tz_header sample_file 0 = Inr (0, ?c)"
    unfolding f by (simp add: tz_header_def usize_ok_def slice_get_def be_u32_def as_bytes_def byte_of_char_def)
  have n: "tz_size ?c 4 = Inr 19" by (simp add: tz_size_def usize_ok_def bindO_def)
  have "timezone_tables sample_file 44 4 ?c = Inr sample_zone"
    unfolding timezone_tables_def n f
    by (simp add: usize_ok_def slice_get_def upt_rec read_zone_def byte_get_def j_push_def be_i32_def read_transition_def
        tz_footer_def sample_zone_def)
  then show ?thesis by (simp add: timezone_decode_def h)
qed

theorem timezone_offset_total_witness: "tz_offset sample_zone 2000 = Inr 7200"
proof -
  have "is_ok (civil 2000 0)" by code_simp
  then obtain c where "civil 2000 0 = Inr c" by (cases "civil 2000 0") (auto simp: is_ok_def)
  from timezone_offset_total [OF sample_decodes this] show ?thesis by (auto simp: sample_zone_def)
qed

end
