(* ===== verification/Spec2Isabelle.thy ===== *)
theory Spec2Isabelle
  imports FlowExec StoreReports StoreDurable Token SceneRun Supervisor AppStart Schedule Stability MatterNode Timezone
begin

text \<open>
  \<^bold>\<open>Verification of the core, the app protocol, the automation runtime and the Matter message layer of the Stulp home controller.\<close>

  \<^bold>\<open>The program.\<close> Stulp (src/, Rust) is a home controller: one process owns the configuration of a house
  (apps, devices, device groups, scenes, flows, notifications, settings), plugins run as separate apps
  and report the state of their devices, and flows react to those reports. This library models the
  platform-free crates: the core, crates/core, with the HopOS storage under it, crates/hopos/src/storage.rs, the app
  protocol, crates/protocol, and the runtime of flows, scenes and apps, crates/runtime. On top of these it models two
  parts that are code of their own kind: the codecs and the message layer of the Matter plugin, plugins/matter, and the
  decoder of time zone files, crates/controller/src/timezone.rs.

  The parts hang together as follows. A \<^emph>\<open>document\<close> (document.rs) is one JSON object (json.rs and the vendored
  hop_types) with a collection of records per kind. The \<^emph>\<open>store\<close> (store.rs and store/) owns the current
  document in memory together with volatile state: the last report of every device, the registry of
  running apps, media slots, image tickets, a queue of flow triggers, a queue of scene deviations, a log
  of the last 64 events and the statistics (stats.rs). Every durable change builds a candidate document,
  has it encoded and saved by the storage, and only then replaces the document and publishes an event.
  The storage of HopOS keeps two slot files in turn (slots.rs) on a file system reached through the Io
  trait. A flow (flow.rs) is a graph of cards that is validated when it is stored and executed by a
  machine with fixed arrays.

  Apps talk to the controller over a byte stream of length-prefixed JSON frames (protocol/lib.rs); a table of 64 slots
  correlates requests with answers (session.rs) and a proof under a shared secret admits an app (token.rs). The
  \<^emph>\<open>runtime\<close> drives the machine of a flow one card per turn (flows.rs, flow_triggers.rs), activates scenes with
  the values to restore (scenes.rs), starts flows by time and sun (schedule.rs, calendar.rs) and by capabilities
  that keep a value (stability.rs), and holds one connection per app (lib.rs): the greeting, the callbacks of the
  start, the requests of the app and what they change in the store (mutations.rs), batches of commands (groups.rs)
  and the life of its process (supervisor.rs). All of them are objects owned by one task, whose methods are called
  with the current time; none of them blocks.

  The \<^emph>\<open>Matter plugin\<close> talks to devices in datagrams. A device is added with a pairing code or a QR code
  (onboarding.rs); what messages carry is written in a tagged binary format (tlv.rs); a message has a clear header and,
  on a session with keys, a sealed body (message.rs over the mode AES-CCM, ccm.rs). One node (mrp.rs) owns the sessions and the
  exchanges on them: it refuses counters it has seen, acknowledges reliable messages and repeats its own until they are
  acknowledged. The time zone of the house (timezone.rs) is a table of transitions with a rule for the years after it.

  \<^bold>\<open>Theories and the code they model.\<close>
  \<^item> Prelude, Strings: results (\<open>error + 'a\<close>, with the constructors of stulp_core::Error and
    hop_types::Error), folds and collections that stop at the first error, checked and saturating 64-bit
    arithmetic, UTF-8 texts as byte strings, trimming, case folding and decimal numbers.
  \<^item> Float64, Float32: the f64 and f32 operations the code uses, on the bit patterns and their exact dyadic
    values with rounding to nearest even.
  \<^item> Json, JsonText, JsonRoundtrip, JsonSound: hop_types::json::Value, the helpers of core json.rs, the parser
    json_bounded.rs and the writer.
  \<^item> Time: hop_types::time, RFC 3339.
  \<^item> Flow, FlowExec: flow.rs. Slots, HopStorage: slots.rs and hopos/storage.rs. SlotRecovery: theorems
    about sequences of saves over the slots.
  \<^item> Document, Records: document.rs and the record operations of store.rs.
  \<^item> DeviceGroups, Scenes, Triggers, StoreMedia, StoreReferences: store/groups.rs, scenes.rs, triggers.rs, media.rs,
    and references.rs with consolidation.rs.
  \<^item> Stats: stats.rs. Manifest: manifest.rs.
  \<^item> Units, Display: units.rs, capability.rs and display.rs.
  \<^item> StoreBase, StoreOps, StoreLive: store.rs; the record \<open>store\<close> has the fields of the struct, each method is a
    function from a store to an \<open>outcome\<close>, a result paired with the store afterwards, also after an error.
  \<^item> StoreLaws, StoreIntegrity, StoreEffects, StoreReports, StoreDurable: theorems about the store as a whole. The
    datatype \<open>store_op\<close> lists every public operation that changes it and \<open>run_op\<close> runs one.
  \<^item> Protocol, Session, Token: protocol/lib.rs, session.rs and token.rs. Records \<open>decoder\<close>, \<open>frame\<close> and \<open>session\<close>.
  \<^item> FlowText, FlowRun: runtime/flow_triggers.rs and flows.rs. FlowText holds tokens, conditions and actions, FlowRun the
    record \<open>run\<close> and its methods over the machine of FlowExec.
  \<^item> SceneRun: runtime/scenes.rs. Calendar, Schedule, Stability, Supervisor: the files of the same names.
  \<^item> AppGroups, AppRuntime, AppStart: runtime/groups.rs, lib.rs and mutations.rs; the record \<open>app\<close> is the struct App.
  \<^item> MatterBase: the error type of the plugin SDK (crates/sdk/src/lib.rs), the bounded buffers of plugins/matter/src/lib.rs and
    the locale \<open>wire_codec\<close> of a header that is read from the front of a frame.
  \<^item> MatterTlv, MatterCode, MatterCcm, MatterMessage: tlv.rs, onboarding.rs, ccm.rs and message.rs of plugins/matter/src.
  \<^item> MatterMrp, MatterNode: mrp.rs. MatterMrp holds the definitions and the replay window, MatterNode the theorems about every
    sequence of calls; the record \<open>node\<close> is the struct Node, \<open>node_op\<close> lists its operations and \<open>node_run\<close> runs a sequence.
  \<^item> Timezone: crates/controller/src/timezone.rs.

  \<^bold>\<open>What is shown.\<close>
  \<^item> \<^emph>\<open>Durability.\<close> The slot format rejects torn and damaged records (Slots); over a disk that may fail at any
    call, and lose at a loss of power whatever no sync has confirmed, a restart finds the last acknowledged payload or
    one attempted since (SlotRecovery, HopStorage); and with the
    store on top, what a restart reads is the last acknowledged document, the one in memory, or one whose save failed
    after it (StoreDurable, where a recorder around the storage names the documents that were saved). Only the very first write of an
    empty installation has nothing to fall back on: torn, it leaves contents no open accepts (HopStorage). The store relies on the
    storage only through the locale \<open>durable_storage\<close>,
    the slot files only through the locale \<open>slot_backend\<close> of SlotRecovery; both are interpreted on the HopOS model.
  \<^item> \<^emph>\<open>Store discipline.\<close> The relation \<open>ends\<close> says how an operation may end; every operation satisfies it, from
    which follow: errors change nothing, the document is saved before it is used, the event log has no gap,
    the queues are bounded (StoreLaws). Referential integrity is an invariant of every operation but the
    restore of an archive, which accepts any well-formed document (StoreIntegrity).
  \<^item> \<^emph>\<open>Effects of single operations\<close>: compare and swap of revisions, uninstalling, image tickets, rewriting of
    references, device reports and their cursors (StoreEffects, StoreReports), groups, scenes, triggers.
  \<^item> \<^emph>\<open>Flows.\<close> Validation accepts exactly the well-formed acyclic graphs; a run delivers every card at most once
    and, whatever its callbacks report, comes to its end within 128 cards.
  \<^item> \<^emph>\<open>Protocol.\<close> The incremental decoder yields the frames of the whole stream however it is cut into reads, and what one
    side encodes the other receives (Protocol); every request ends exactly once (Session); an app is admitted
    exactly with its own proof (Token).
  \<^item> \<^emph>\<open>Automation.\<close> A flow run accounts for every card it handed out once and ends by its deadline (FlowRun); a scene
    stores the values to restore before its first command and sends every command once (SceneRun); scheduled
    cards start once per local minute and none is missed (Schedule); the stability timers are exactly those of the
    cards whose device reports the wanted value, and a wait starts anew exactly when card or value changed (Stability).
  \<^item> \<^emph>\<open>Apps.\<close> An app changes the store only in its own name, but for image tickets, which it may ask for the images of any
    device, with referential integrity kept through the theorem on
    store operations, and every request of it is answered, once (AppRuntime); the callbacks of its start are made one at a
    time and in order (AppStart); an unknown batch falls back to single commands (AppGroups); generations, exits and restart
    delays of its process (Supervisor).
  \<^item> \<^emph>\<open>Matter.\<close> What the writer accepts parses to itself exactly when it is a tree of the format within 4096 elements (MatterTlv); pairing and QR codes read back, and a
    mistyped or exchanged digit of a pairing code is always noticed (MatterCode); the streaming MAC is the one of RFC 3610, whose blocks are written out octet by octet, and a
    ciphertext opens exactly when sealing the cleartext gives it (MatterCcm); messages read back (MatterMessage, by the two
    interpretations of \<open>wire_codec\<close>); the replay window refuses exactly what was seen or is too old (MatterMrp); and over
    every sequence of calls a node keeps its tables bounded and consistent, delivers a message of a session once, and
    repeats a datagram unchanged and at most four times (MatterNode).
  \<^item> \<^emph>\<open>Time zones.\<close> A rule by month names the weekday it says, and a file that decodes answers for every instant (Timezone).
  \<^item> \<^emph>\<open>Data.\<close> The Gregorian calendar (Calendar), the Beaufort scale (Units), value equality, JSON and document round trips, soundness of the parser, calendar round trip,
    bounds of the statistics.

  \<^bold>\<open>Parameters.\<close> The storage of a store is the argument \<open>save\<close>; the file system of HopOS is the record
  \<open>io_ops\<close> with the laws of the locale \<open>hop_disk\<close>. They distinguish what a reader finds now
  (\<open>fget\<close>) from all that may be found after a loss of power (\<open>fleft\<close>): a write at the end of a file may survive in a first part
  only or not at all until a sync of the file succeeds, and from then on only the present contents can be found. A concrete disk that
  fails after a number of bytes and forgets what was not synced satisfies them. Clocks and
  random identifiers are arguments. The HMAC, base64 and comparison functions of external crates are arguments of
  the definitions of Token; the time zone rules and the sun of the host are the record \<open>clock\<close> of Schedule. The AES block function
  of an external crate is the argument \<open>aes\<close> of the definitions of MatterCcm and what uses them; all that is assumed of it is
  \<open>is_block_cipher\<close>, that it gives sixteen bytes. Authenticity is therefore stated as an equivalence with sealing, not as a
  claim about what an attacker can compute.

  \<^bold>\<open>Loops.\<close> Loops over data are structural. The others: the parser loops \<open>p_members\<close> and \<open>p_items\<close> recurse on the
  remaining input, which every round shortens; \<open>group_walk\<close> has one round per group and then reports the cycle,
  as the code does; \<open>kahn_loop\<close> and \<open>relax_rounds\<close> run once per card; \<open>spread_cursors\<close> moves forward by the
  positive width of a slot; \<open>read_frames\<close>, the loop that drains one read of the network, is a partial function
  proved to return for every decoder state the methods reach; \<open>substitute\<close> makes at most the 100 rounds of the source;
  \<open>node_read\<close> carries a bound on its depth and \<open>node_loop\<close> one on its rounds, neither of which is ever reached
  (\<open>node_read_fuel\<close>), since the reader opens at most 32 containers and a container holds at most 4096 elements; \<open>rd_drain\<close> recurses on the
  remaining input; \<open>mac_write\<close> and \<open>slice_chunks\<close> consume at least one byte per round; \<open>free_id\<close> makes the 129 rounds of the source. No modelled function has fuel
  that a caller chooses; \<open>exec_drive\<close>, which drives a flow in the statement that it ends, is shown to need at most 128 turns.

  \<^bold>\<open>Not modelled.\<close> Exhaustion of the heap (\<open>Error::Memory\<close>), the payload of NaN values, and asynchronous scheduling:
  the store and the runtime objects are owned by one task and their methods run one after the other. Wiping of keys
  and cleartexts has no observable effect in the model. Outside these parts: the rest of the controller, the web and HopOS
  servers, hosts, transports and plugins are input and output around sockets, processes and external libraries; of the Matter
  plugin, key agreement, certificates, discovery, the interaction model and the mapping of clusters to capabilities are left out.
\<close>

end
